(* ===== verification/Prelude.thy ===== *)
theory Prelude
  imports Main "HOL-Library.Word" "HOL-Library.Monad_Syntax"
begin

text \<open>
  Shared ground of the development: bytes, the conversions of C integers between
  widths, the byte order of the wire, C arrays as lists with checked access, and
  the fault monad.

  Conventions used by every theory.
  \<^item> A C \<open>char\<close> buffer is a list of \<open>8 word\<close>; a \<open>char\<close> read as a number is the
    signed value of the word (\<open>x86-64\<close>, where \<open>char\<close> is signed).
  \<^item> A C \<open>int\<close>, \<open>short\<close> or \<open>long long\<close> that is only compared, added and indexed
    with is an \<open>int\<close>; each store into a narrower variable goes through \<open>s8\<close>,
    \<open>s16\<close>, \<open>s32\<close> or \<open>s64\<close>, which wrap as the machine does.
  \<^item> The program is built with \<open>NDEBUG\<close> (see the build files), so an
    \<open>assert(0)\<close> does nothing and the statement after it decides.
  \<^item> An access outside an array, or through a null or stale pointer, has no
    defined result. A function that can do that returns an option, with \<open>None\<close>
    for the fault, so that "never \<open>None\<close>" is the statement of memory safety.
\<close>

section \<open>Bytes and integer widths\<close>

type_synonym byte = "8 word"
type_synonym bytes = "byte list"

definition s8 :: "int \<Rightarrow> int" where
  "s8 n = signed_take_bit 7 n"

definition s16 :: "int \<Rightarrow> int" where
  "s16 n = signed_take_bit 15 n"

definition s32 :: "int \<Rightarrow> int" where
  "s32 n = signed_take_bit 31 n"

definition s64 :: "int \<Rightarrow> int" where
  "s64 n = signed_take_bit 63 n"

named_theorems width_simps \<open>conversions between integer widths, unfolded\<close>

lemmas width_defs [width_simps] = s8_def s16_def s32_def s64_def

lemma signed_take_bit_id:
  "- (2 ^ n) \<le> k \<Longrightarrow> k < 2 ^ n \<Longrightarrow> signed_take_bit n k = (k::int)"
  by (simp add: signed_take_bit_int_eq_self_iff)

lemma signed_take_bit_range:
  "- (2 ^ n) \<le> signed_take_bit n (k::int) \<and> signed_take_bit n k < 2 ^ n"
  by (simp add: signed_take_bit_int_greater_eq_minus_exp signed_take_bit_int_less_exp)

lemma s8_id [simp]: "- 128 \<le> n \<Longrightarrow> n < 128 \<Longrightarrow> s8 n = n"
  by (simp add: s8_def signed_take_bit_id)

lemma s16_id [simp]: "- 32768 \<le> n \<Longrightarrow> n < 32768 \<Longrightarrow> s16 n = n"
  by (simp add: s16_def signed_take_bit_id)

lemma s32_id [simp]: "- 2147483648 \<le> n \<Longrightarrow> n < 2147483648 \<Longrightarrow> s32 n = n"
  by (simp add: s32_def signed_take_bit_id)

lemma s64_id [simp]:
  "- 9223372036854775808 \<le> n \<Longrightarrow> n < 9223372036854775808 \<Longrightarrow> s64 n = n"
  by (simp add: s64_def signed_take_bit_id)

lemma s8_range: "- 128 \<le> s8 n \<and> s8 n < 128"
  using signed_take_bit_range [of 7 n] by (simp add: s8_def)

lemma s16_range: "- 32768 \<le> s16 n \<and> s16 n < 32768"
  using signed_take_bit_range [of 15 n] by (simp add: s16_def)

lemma s32_range: "- 2147483648 \<le> s32 n \<and> s32 n < 2147483648"
  using signed_take_bit_range [of 31 n] by (simp add: s32_def)

section \<open>Byte order\<close>

text \<open>
  \<open>le_bytes k n\<close> is the memory image of the low \<open>k\<close> bytes of \<open>n\<close> on the
  little-endian host (what \<open>memcpy\<close> from an integer variable copies); \<open>be_bytes\<close>
  is the same after \<open>htons\<close>/\<open>htonl\<close>. \<open>le_val\<close> and \<open>be_val\<close> read them back as
  unsigned values.
\<close>

fun le_bytes :: "nat \<Rightarrow> int \<Rightarrow> bytes" where
  "le_bytes 0 n = []"
| "le_bytes (Suc k) n = word_of_int n # le_bytes k (n div 256)"

fun le_val :: "bytes \<Rightarrow> int" where
  "le_val [] = 0"
| "le_val (b # bs) = uint b + 256 * le_val bs"

definition be_bytes :: "nat \<Rightarrow> int \<Rightarrow> bytes" where
  "be_bytes k n = rev (le_bytes k n)"

definition be_val :: "bytes \<Rightarrow> int" where
  "be_val bs = le_val (rev bs)"

lemma length_le_bytes [simp]: "length (le_bytes k n) = k"
  by (induction k arbitrary: n) auto

lemma le_bytes_4:
  "le_bytes 4 n = [word_of_int n, word_of_int (n div 256), word_of_int (n div 256 div 256),
     word_of_int (n div 256 div 256 div 256)]"
  by (simp add: numeral_eq_Suc)

lemma length_be_bytes [simp]: "length (be_bytes k n) = k"
  by (simp add: be_bytes_def)

lemma uint_byte_mod: "uint (word_of_int n :: byte) = n mod 256"
  by (simp add: uint_word_of_int)

lemma unat_of_byte: "n < 256 \<Longrightarrow> unat (of_nat n :: byte) = n"
  by (simp add: unat_of_nat)

lemma unat_byte_less: "unat (b :: byte) < 256"
proof -
  have "unat b < 2 ^ LENGTH(8)" by (rule unsigned_less)
  then show ?thesis by simp
qed

lemma uint_byte_range: "0 \<le> uint (b :: byte) \<and> uint b < 256"
  using uint_bounded [of b] by simp

lemma le_val_le_bytes: "le_val (le_bytes k n) = n mod 256 ^ k"
proof (induction k arbitrary: n)
  case 0
  then show ?case by simp
next
  case (Suc k)
  have "n mod 256 + 256 * (n div 256 mod 256 ^ k) = n mod (256 * 256 ^ k)"
    by (simp add: zmod_zmult2_eq)
  with Suc show ?case by (simp add: uint_byte_mod)
qed

lemma le_val_range: "0 \<le> le_val bs \<and> le_val bs < 256 ^ length bs"
proof (induction bs)
  case Nil
  then show ?case by simp
next
  case (Cons b bs)
  define p :: int where "p = 256 ^ length bs"
  have "0 \<le> le_val bs \<and> le_val bs < p"
    using Cons by (simp add: p_def)
  then have "0 \<le> uint b + 256 * le_val bs \<and> uint b + 256 * le_val bs < 256 * p"
    using uint_byte_range [of b] by linarith
  then show ?case by (simp add: p_def)
qed

lemma le_bytes_le_val: "le_bytes (length bs) (le_val bs) = bs"
proof (induction bs)
  case Nil
  then show ?case by simp
next
  case (Cons b bs)
  have "uint (word_of_int (uint b + 256 * le_val bs) :: byte) = uint b"
    unfolding uint_byte_mod using uint_byte_range [of b] by simp
  then have "word_of_int (uint b + 256 * le_val bs) = b"
    by (rule word_uint_eqI)
  moreover have "(uint b + 256 * le_val bs) div 256 = le_val bs"
    using uint_byte_range [of b] by simp
  ultimately show ?case using Cons by simp
qed

lemma be_val_be_bytes: "be_val (be_bytes k n) = n mod 256 ^ k"
  by (simp add: be_val_def be_bytes_def le_val_le_bytes)

lemma be_val_range: "0 \<le> be_val bs \<and> be_val bs < 256 ^ length bs"
  using le_val_range [of "rev bs"] by (simp add: be_val_def)

text \<open>Signed reading of a value that was stored with the same number of bytes.\<close>

lemma signed_take_bit_mod_pow:
  "m = Suc n \<Longrightarrow> signed_take_bit n (k mod 2 ^ m) = signed_take_bit n (k::int)"
proof -
  assume m: "m = Suc n"
  have "k mod 2 ^ m = take_bit m k"
    by (simp only: take_bit_eq_mod)
  with m show ?thesis
    by (simp add: signed_take_bit_take_bit del: power_Suc)
qed

lemma s16_be_bytes: "s16 (be_val (be_bytes 2 n)) = s16 n"
  using signed_take_bit_mod_pow [of 16 15 n] by (simp add: be_val_be_bytes s16_def)

lemma s32_be_bytes: "s32 (be_val (be_bytes 4 n)) = s32 n"
  using signed_take_bit_mod_pow [of 32 31 n] by (simp add: be_val_be_bytes s32_def)

lemma s32_le_bytes: "s32 (le_val (le_bytes 4 n)) = s32 n"
  using signed_take_bit_mod_pow [of 32 31 n] by (simp add: le_val_le_bytes s32_def)

lemma s64_le_bytes: "s64 (le_val (le_bytes 8 n)) = s64 n"
  using signed_take_bit_mod_pow [of 64 63 n] by (simp add: le_val_le_bytes s64_def)

section \<open>Arrays\<close>

text \<open>
  \<open>block_at i n xs\<close> is the block \<open>xs[i .. i+n)\<close>; \<open>blit xs i ys\<close> is \<open>xs\<close> after
  \<open>memcpy(xs + i, ys, length ys)\<close>. The checked forms fault outside the array.
\<close>

definition block_at :: "nat \<Rightarrow> nat \<Rightarrow> 'a list \<Rightarrow> 'a list" where
  "block_at i n xs = take n (drop i xs)"

definition blit :: "'a list \<Rightarrow> nat \<Rightarrow> 'a list \<Rightarrow> 'a list" where
  "blit xs i ys = take i xs @ ys @ drop (i + length ys) xs"

definition load :: "'a list \<Rightarrow> nat \<Rightarrow> 'a option" where
  "load xs i = (if i < length xs then Some (xs ! i) else None)"

definition load_block :: "'a list \<Rightarrow> nat \<Rightarrow> nat \<Rightarrow> 'a list option" where
  "load_block xs i n = (if i + n \<le> length xs then Some (block_at i n xs) else None)"

definition store :: "'a list \<Rightarrow> nat \<Rightarrow> 'a \<Rightarrow> 'a list option" where
  "store xs i v = (if i < length xs then Some (xs[i := v]) else None)"

definition store_block :: "'a list \<Rightarrow> nat \<Rightarrow> 'a list \<Rightarrow> 'a list option" where
  "store_block xs i ys = (if i + length ys \<le> length xs then Some (blit xs i ys) else None)"

named_theorems mem_defs \<open>checked array accesses, unfolded\<close>

lemmas access_defs [mem_defs] = load_def load_block_def store_def store_block_def

lemma length_block_at [simp]: "i + n \<le> length xs \<Longrightarrow> length (block_at i n xs) = n"
  by (simp add: block_at_def)

lemma length_blit [simp]: "i + length ys \<le> length xs \<Longrightarrow> length (blit xs i ys) = length xs"
  by (simp add: blit_def)

lemma block_at_blit [simp]: "i \<le> length xs \<Longrightarrow> block_at i (length ys) (blit xs i ys) = ys"
  by (simp add: block_at_def blit_def)

lemma take_blit [simp]: "i \<le> length xs \<Longrightarrow> j \<le> i \<Longrightarrow> take j (blit xs i ys) = take j xs"
  by (simp add: blit_def min_def)

lemma take_blit_all: "i \<le> length xs \<Longrightarrow> take (i + length ys) (blit xs i ys) = take i xs @ ys"
  by (simp add: blit_def)

lemma block_at_full: "n = length xs \<Longrightarrow> block_at 0 n xs = xs"
  by (simp add: block_at_def)

section \<open>Signed positions and sizes\<close>

text \<open>
  An index kept in a signed variable may be negative, which is outside the array.
  \<open>size_t_of\<close> is the conversion of a signed value to the 64-bit \<open>size_t\<close> that a
  comparison with \<open>sizeof\<close> makes: a negative value becomes a huge one.
\<close>

definition iload :: "'a list \<Rightarrow> int \<Rightarrow> 'a option" where
  "iload xs i = (if i < 0 then None else load xs (nat i))"

definition iload_block :: "'a list \<Rightarrow> int \<Rightarrow> int \<Rightarrow> 'a list option" where
  "iload_block xs i n = (if i < 0 \<or> n < 0 then None else load_block xs (nat i) (nat n))"

definition istore :: "'a list \<Rightarrow> int \<Rightarrow> 'a \<Rightarrow> 'a list option" where
  "istore xs i v = (if i < 0 then None else store xs (nat i) v)"

definition istore_block :: "'a list \<Rightarrow> int \<Rightarrow> 'a list \<Rightarrow> 'a list option" where
  "istore_block xs i ys = (if i < 0 then None else store_block xs (nat i) ys)"

lemmas iaccess_defs [mem_defs] = iload_def iload_block_def istore_def istore_block_def

definition size_t_of :: "int \<Rightarrow> int" where
  "size_t_of n = n mod 18446744073709551616"

lemma size_t_of_nonneg [simp]: "0 \<le> n \<Longrightarrow> n < 18446744073709551616 \<Longrightarrow> size_t_of n = n"
  by (simp add: size_t_of_def)

lemma size_t_of_neg:
  assumes "n < 0" "- 9223372036854775808 \<le> n"
  shows "9223372036854775808 \<le> size_t_of n"
proof -
  have "n mod 18446744073709551616 = (n + 18446744073709551616) mod 18446744073709551616" by simp
  also have "\<dots> = n + 18446744073709551616" using assms by (intro mod_pos_pos_trivial) auto
  finally show ?thesis using assms by (simp add: size_t_of_def)
qed

lemma block_at_append: "block_at i n (take j xs) = take (min n (j - i)) (drop i xs)"
  by (simp add: block_at_def drop_take)

lemma block_at_take: "i + n \<le> j \<Longrightarrow> block_at i n (take j xs) = block_at i n xs"
  by (simp add: block_at_def drop_take)

lemma block_at_prefix: "i = length xs \<Longrightarrow> n = length ys \<Longrightarrow> block_at i n (xs @ ys @ zs) = ys"
  by (simp add: block_at_def)

end
