(* ===== verification/MsgQueue.thy ===== *)
theory MsgQueue
  imports Prelude
begin

text \<open>
  The ring queues between the threads (\<open>common/msg_queue.h\<close>): \<open>msg_queue\<close>, a
  ring of pointers, and \<open>message_queue\<close>, a ring of slots that the producer fills in
  place. Both keep one slot free, so a ring of \<open>cap\<close> slots holds \<open>cap - 1\<close>
  elements. The locale \<open>bounded_queue\<close> states the contract of a first-in
  first-out queue of bounded size; \<open>msg_queue\<close> interprets it. The last section
  runs one producer and one consumer against each other, one memory access at a
  time.
\<close>

section \<open>Ring indices\<close>

definition ring_dist :: "nat \<Rightarrow> nat \<Rightarrow> nat \<Rightarrow> nat" where
  "ring_dist f b c = (b + c - f) mod c"

lemma ring_dist_eq:
  "f < c \<Longrightarrow> b < c \<Longrightarrow> ring_dist f b c = (if f \<le> b then b - f else b + c - f)"
  by (auto simp: ring_dist_def mod_if)

lemma ring_next_eq: "b < c \<Longrightarrow> Suc b mod c = (if Suc b = c then 0 else Suc b)"
  by auto

lemma ring_dist_less: "f < c \<Longrightarrow> ring_dist f b c < c"
  by (simp add: ring_dist_def)

lemma ring_dist_zero: "f < c \<Longrightarrow> b < c \<Longrightarrow> ring_dist f b c = 0 \<longleftrightarrow> f = b"
  by (auto simp: ring_dist_eq)

lemma ring_full: "f < c \<Longrightarrow> b < c \<Longrightarrow> (b + 1) mod c = f \<longleftrightarrow> ring_dist f b c + 1 = c"
  by (auto simp: ring_dist_eq ring_next_eq)

lemma ring_dist_push:
  "f < c \<Longrightarrow> b < c \<Longrightarrow> ring_dist f b c + 1 < c \<Longrightarrow>
    ring_dist f ((b + 1) mod c) c = ring_dist f b c + 1"
  by (auto simp: ring_dist_eq ring_next_eq split: if_splits)

lemma ring_dist_pop:
  "f < c \<Longrightarrow> b < c \<Longrightarrow> 0 < ring_dist f b c \<Longrightarrow>
    ring_dist ((f + 1) mod c) b c = ring_dist f b c - 1"
  by (auto simp: ring_dist_eq ring_next_eq split: if_splits)

lemma ring_pos_end: "f < c \<Longrightarrow> b < c \<Longrightarrow> (f + ring_dist f b c) mod c = b"
  by (auto simp: ring_dist_eq)

lemma ring_pos_shift: "((f + 1) mod c + i) mod c = (f + Suc i) mod (c::nat)"
  by (simp add: mod_simps)

lemma ring_pos_inj:
  assumes "i < c" "j < c" "(f + i) mod c = (f + j) mod (c::nat)"
  shows "i = j"
proof -
  have "\<lbrakk>(f + i) mod c = (f + j) mod c; i \<le> j; j < c\<rbrakk> \<Longrightarrow> i = j" for i j
    using mod_eq_dvd_iff_nat [of "f + i" "f + j" c] by (auto dest: dvd_imp_le)
  from this [of i j] this [of j i] assms show ?thesis by linarith
qed

section \<open>The contract of a bounded queue\<close>

text \<open>
  What the threads that share a queue rely on: \<open>push\<close> appends at the end or
  refuses when the queue is full, \<open>pop\<close> takes from the front, \<open>peek\<close> only looks.
\<close>

locale bounded_queue =
  fixes content :: "'q \<Rightarrow> 'a list"
    and room :: "'q \<Rightarrow> nat"
    and invar :: "'q \<Rightarrow> bool"
    and push :: "'a \<Rightarrow> 'q \<Rightarrow> bool \<times> 'q"
    and pop :: "'q \<Rightarrow> 'a option \<times> 'q"
    and peek :: "'q \<Rightarrow> 'a option"
  assumes bound: "invar q \<Longrightarrow> length (content q) \<le> room q"
    and push_accept: "invar q \<Longrightarrow> length (content q) < room q \<Longrightarrow>
      \<exists>q'. push x q = (True, q') \<and> invar q' \<and> room q' = room q \<and> content q' = content q @ [x]"
    and push_refuse: "invar q \<Longrightarrow> length (content q) = room q \<Longrightarrow> push x q = (False, q)"
    and pop_empty: "invar q \<Longrightarrow> content q = [] \<Longrightarrow> pop q = (None, q)"
    and pop_front: "invar q \<Longrightarrow> content q = x # xs \<Longrightarrow>
      \<exists>q'. pop q = (Some x, q') \<and> invar q' \<and> room q' = room q \<and> content q' = xs"
    and peek_front: "invar q \<Longrightarrow> peek q = (case content q of [] \<Rightarrow> None | x # _ \<Rightarrow> Some x)"

datatype 'a queue_op = Push 'a | Pop

text \<open>
  A run of operations, with the elements the queue accepted and those it
  delivered.
\<close>

fun queue_run ::
  "('a \<Rightarrow> 'q \<Rightarrow> bool \<times> 'q) \<Rightarrow> ('q \<Rightarrow> 'a option \<times> 'q) \<Rightarrow> 'a queue_op list \<Rightarrow> 'q
    \<Rightarrow> 'a list \<times> 'a list \<times> 'q" where
  "queue_run push pop [] q = ([], [], q)"
| "queue_run push pop (Push x # ops) q =
     (let (ok, q') = push x q; (acc, dlv, q'') = queue_run push pop ops q'
      in (if ok then x # acc else acc, dlv, q''))"
| "queue_run push pop (Pop # ops) q =
     (let (r, q') = pop q; (acc, dlv, q'') = queue_run push pop ops q'
      in (acc, case r of None \<Rightarrow> dlv | Some x \<Rightarrow> x # dlv, q''))"

text \<open>The reference: a list with a bound on its length.\<close>

definition list_push :: "nat \<Rightarrow> 'a \<Rightarrow> 'a list \<Rightarrow> bool \<times> 'a list" where
  "list_push n x xs = (if length xs < n then (True, xs @ [x]) else (False, xs))"

fun list_pop :: "'a list \<Rightarrow> 'a option \<times> 'a list" where
  "list_pop [] = (None, [])"
| "list_pop (x # xs) = (Some x, xs)"

context bounded_queue
begin

lemma push_cases:
  assumes "invar q"
  obtains (full) "length (content q) = room q" "push x q = (False, q)"
  | (space) q' where "push x q = (True, q')" "invar q'" "room q' = room q"
      "content q' = content q @ [x]"
  using bound [OF assms] push_accept [OF assms, of x] push_refuse [OF assms, of x]
  by (cases "length (content q) = room q") auto

lemma pop_cases:
  assumes "invar q"
  obtains (none) "content q = []" "pop q = (None, q)"
  | (some) x q' where "pop q = (Some x, q')" "invar q'" "room q' = room q"
      "content q = x # content q'"
  using pop_empty [OF assms] pop_front [OF assms] by (cases "content q") auto

lemma run_fifo:
  assumes "invar q" "queue_run push pop ops q = (acc, dlv, q')"
  shows "invar q' \<and> room q' = room q \<and> content q @ acc = dlv @ content q'"
  using assms
proof (induction ops arbitrary: q acc dlv)
  case Nil
  then show ?case by simp
next
  case (Cons op ops)
  show ?case
  proof (cases op)
    case (Push x)
    from Cons.prems(1) show ?thesis
    proof (cases rule: push_cases [of q x])
      case full
      with Cons Push show ?thesis by (auto split: prod.splits)
    next
      case (space q1)
      with Cons.prems Push obtain a d where
        r: "queue_run push pop ops q1 = (a, d, q')" "acc = x # a" "dlv = d"
        by (auto split: prod.splits)
      from Cons.IH [OF space(2) r(1)] space r show ?thesis by simp
    qed
  next
    case Pop
    from Cons.prems(1) show ?thesis
    proof (cases rule: pop_cases)
      case none
      with Cons.prems Pop have "queue_run push pop ops q = (acc, dlv, q')"
        by (auto split: prod.splits)
      from Cons.IH [OF Cons.prems(1) this] show ?thesis .
    next
      case (some x q1)
      with Cons.prems Pop obtain a d where
        r: "queue_run push pop ops q1 = (a, d, q')" "acc = a" "dlv = x # d"
        by (auto split: prod.splits)
      from Cons.IH [OF some(2) r(1)] some r show ?thesis by simp
    qed
  qed
qed

lemma run_refines:
  assumes "invar q" "queue_run push pop ops q = (acc, dlv, q')"
  shows "queue_run (list_push (room q)) list_pop ops (content q) = (acc, dlv, content q')"
  using assms
proof (induction ops arbitrary: q acc dlv)
  case Nil
  then show ?case by simp
next
  case (Cons op ops)
  show ?case
  proof (cases op)
    case (Push x)
    from Cons.prems(1) show ?thesis
    proof (cases rule: push_cases [of q x])
      case full
      with Cons Push show ?thesis by (auto simp: list_push_def split: prod.splits)
    next
      case (space q1)
      then have "length (content q) < room q" using bound [OF space(2)] by simp
      moreover from Cons.prems Push space obtain a d where
        r: "queue_run push pop ops q1 = (a, d, q')" "acc = x # a" "dlv = d"
        by (auto split: prod.splits)
      ultimately show ?thesis
        using Cons.IH [OF space(2) r(1)] space r Push by (simp add: list_push_def)
    qed
  next
    case Pop
    from Cons.prems(1) show ?thesis
    proof (cases rule: pop_cases)
      case none
      with Cons.prems Pop have "queue_run push pop ops q = (acc, dlv, q')"
        by (auto split: prod.splits)
      from Cons.IH [OF Cons.prems(1) this] none Pop show ?thesis by simp
    next
      case (some x q1)
      with Cons.prems Pop obtain a d where
        r: "queue_run push pop ops q1 = (a, d, q')" "acc = a" "dlv = x # d"
        by (auto split: prod.splits)
      from Cons.IH [OF some(2) r(1)] some r Pop show ?thesis by simp
    qed
  qed
qed

lemma run_bound:
  assumes "invar q" "queue_run push pop ops q = (acc, dlv, q')"
  shows "length (content q) + length acc \<le> length dlv + room q"
proof -
  from run_fifo [OF assms] have "length (content q @ acc) = length (dlv @ content q')"
    and "invar q'" "room q' = room q" by auto
  with bound [of q'] show ?thesis by simp
qed

end

section \<open>The pointer ring: msg_queue\<close>

text \<open>
  \<open>mq_q\<close> is the array of \<open>tt*\<close>, \<open>None\<close> for NULL. \<open>mq_push\<close> takes the pointer
  argument, so \<open>None\<close> is the call with NULL that the code refuses.
\<close>

record 'a msg_queue =
  mq_back :: nat
  mq_front :: nat
  mq_cap :: nat
  mq_q :: "'a option list"
  mq_multi :: bool

definition mq_init :: "nat \<Rightarrow> bool \<Rightarrow> 'a msg_queue" where
  "mq_init cap multi =
     \<lparr>mq_back = 0, mq_front = 0, mq_cap = cap, mq_q = replicate cap None, mq_multi = multi\<rparr>"

definition mq_pop :: "'a msg_queue \<Rightarrow> 'a option \<times> 'a msg_queue" where
  "mq_pop s =
     (if mq_front s = mq_back s then (None, s)
      else (mq_q s ! mq_front s,
            s\<lparr>mq_q := (mq_q s)[mq_front s := None],
              mq_front := (mq_front s + 1) mod mq_cap s\<rparr>))"

definition mq_push :: "'a option \<Rightarrow> 'a msg_queue \<Rightarrow> bool \<times> 'a msg_queue" where
  "mq_push p s =
     (case p of None \<Rightarrow> (False, s)
      | Some x \<Rightarrow>
         if (mq_back s + 1) mod mq_cap s = mq_front s then (False, s)
         else (True, s\<lparr>mq_q := (mq_q s)[mq_back s := Some x],
                       mq_back := (mq_back s + 1) mod mq_cap s\<rparr>))"

definition mq_getfront :: "'a msg_queue \<Rightarrow> 'a option" where
  "mq_getfront s = (if mq_front s = mq_back s then None else mq_q s ! mq_front s)"

text \<open>The elements in order, and the well-formed states.\<close>

definition mq_size :: "'a msg_queue \<Rightarrow> nat" where
  "mq_size s = ring_dist (mq_front s) (mq_back s) (mq_cap s)"

definition mq_cell :: "'a msg_queue \<Rightarrow> nat \<Rightarrow> 'a option" where
  "mq_cell s i = mq_q s ! ((mq_front s + i) mod mq_cap s)"

definition mq_content :: "'a msg_queue \<Rightarrow> 'a list" where
  "mq_content s = map (\<lambda>i. the (mq_cell s i)) [0..<mq_size s]"

definition mq_shape :: "'a msg_queue \<Rightarrow> bool" where
  "mq_shape s \<longleftrightarrow> mq_front s < mq_cap s \<and> mq_back s < mq_cap s \<and> length (mq_q s) = mq_cap s"

definition mq_ok :: "'a msg_queue \<Rightarrow> bool" where
  "mq_ok s \<longleftrightarrow> mq_shape s \<and> (\<forall>i < mq_size s. mq_cell s i \<noteq> None)"

definition mq_room :: "'a msg_queue \<Rightarrow> nat" where
  "mq_room s = mq_cap s - 1"

named_theorems mq_defs \<open>the pointer ring, unfolded\<close>

lemmas mq_unfold [mq_defs] =
  mq_size_def mq_cell_def mq_content_def mq_shape_def mq_ok_def mq_room_def

lemma mq_shapeD [dest]:
  "mq_shape s \<Longrightarrow> mq_front s < mq_cap s \<and> mq_back s < mq_cap s \<and> length (mq_q s) = mq_cap s"
  by (simp add: mq_shape_def)

lemma length_mq_content [simp]: "length (mq_content s) = mq_size s"
  by (simp add: mq_content_def)

lemma mq_size_less: "mq_shape s \<Longrightarrow> mq_size s < mq_cap s"
  by (auto simp: mq_size_def intro: ring_dist_less)

lemma mq_empty_iff: "mq_shape s \<Longrightarrow> mq_front s = mq_back s \<longleftrightarrow> mq_size s = 0"
  using ring_dist_zero [of "mq_front s" "mq_cap s" "mq_back s"] by (auto simp: mq_size_def)

lemma mq_full_iff:
  "mq_shape s \<Longrightarrow> (mq_back s + 1) mod mq_cap s = mq_front s \<longleftrightarrow> mq_size s = mq_room s"
  using ring_full [of "mq_front s" "mq_cap s" "mq_back s"]
  by (auto simp: mq_size_def mq_room_def)

lemma mq_content_Cons:
  assumes "mq_shape s" "0 < mq_size s"
  shows "mq_content s = the (mq_cell s 0) # map (\<lambda>i. the (mq_cell s (Suc i))) [0..<mq_size s - 1]"
proof -
  have "[0..<mq_size s] = 0 # map Suc [0..<mq_size s - 1]"
    using assms(2) by (simp add: map_Suc_upt upt_conv_Cons)
  then show ?thesis by (simp add: mq_content_def)
qed

lemma mq_init_ok: "0 < cap \<Longrightarrow> mq_ok (mq_init cap m)"
  by (simp add: mq_ok_def mq_shape_def mq_init_def mq_size_def ring_dist_def)

lemma mq_init_content [simp]: "0 < cap \<Longrightarrow> mq_content (mq_init cap m) = []"
  by (simp add: mq_content_def mq_init_def mq_size_def ring_dist_def)

lemma mq_init_room [simp]: "mq_room (mq_init cap m) = cap - 1"
  by (simp add: mq_room_def mq_init_def)

text \<open>The effect of the two updates on the cells.\<close>

definition mq_put :: "'a \<Rightarrow> 'a msg_queue \<Rightarrow> 'a msg_queue" where
  "mq_put x s = s\<lparr>mq_q := (mq_q s)[mq_back s := Some x],
                   mq_back := (mq_back s + 1) mod mq_cap s\<rparr>"

definition mq_take :: "'a msg_queue \<Rightarrow> 'a msg_queue" where
  "mq_take s = s\<lparr>mq_q := (mq_q s)[mq_front s := None],
                  mq_front := (mq_front s + 1) mod mq_cap s\<rparr>"

lemma mq_put_shape:
  "mq_shape s \<Longrightarrow> mq_shape (mq_put x s) \<and> mq_cap (mq_put x s) = mq_cap s"
  by (auto simp: mq_shape_def mq_put_def)

lemma mq_put_size: "mq_shape s \<Longrightarrow> mq_size s < mq_room s \<Longrightarrow> mq_size (mq_put x s) = Suc (mq_size s)"
  using ring_dist_push [of "mq_front s" "mq_cap s" "mq_back s"]
  by (auto simp: mq_size_def mq_put_def mq_room_def)

lemma mq_put_cell:
  assumes "mq_shape s" "mq_size s < mq_room s" "i \<le> mq_size s"
  shows "mq_cell (mq_put x s) i = (if i = mq_size s then Some x else mq_cell s i)"
proof -
  have e: "(mq_front s + mq_size s) mod mq_cap s = mq_back s"
    using assms(1) ring_pos_end by (auto simp: mq_size_def)
  have "(mq_front s + i) mod mq_cap s = mq_back s \<longleftrightarrow> i = mq_size s"
  proof
    assume "(mq_front s + i) mod mq_cap s = mq_back s"
    with e assms show "i = mq_size s"
      by (intro ring_pos_inj [of i "mq_cap s" "mq_size s" "mq_front s"]) (auto simp: mq_room_def)
  qed (simp add: e)
  moreover have "(mq_front s + i) mod mq_cap s < length (mq_q s)"
    using assms(1) by (simp add: mq_shape_def)
  ultimately show ?thesis
    by (auto simp: mq_cell_def mq_put_def nth_list_update)
qed

lemma mq_take_shape:
  "mq_shape s \<Longrightarrow> mq_shape (mq_take s) \<and> mq_cap (mq_take s) = mq_cap s"
  by (auto simp: mq_shape_def mq_take_def)

lemma mq_take_size: "mq_shape s \<Longrightarrow> 0 < mq_size s \<Longrightarrow> mq_size (mq_take s) = mq_size s - 1"
  using ring_dist_pop [of "mq_front s" "mq_cap s" "mq_back s"]
  by (auto simp: mq_size_def mq_take_def)

lemma mq_take_cell:
  assumes "mq_shape s" "Suc i < mq_cap s"
  shows "mq_cell (mq_take s) i = mq_cell s (Suc i)"
proof -
  have "(mq_front s + Suc i) mod mq_cap s \<noteq> mq_front s"
    using assms ring_pos_inj [of "Suc i" "mq_cap s" 0 "mq_front s"] by (auto simp: mq_shape_def)
  then show ?thesis
    using assms(2) by (simp add: mq_cell_def mq_take_def ring_pos_shift [simplified])
qed

lemma mq_put_content:
  assumes "mq_ok s" "mq_size s < mq_room s"
  shows "mq_ok (mq_put x s)" "mq_content (mq_put x s) = mq_content s @ [x]"
proof -
  have sh: "mq_shape s" using assms by (simp add: mq_ok_def)
  show "mq_ok (mq_put x s)"
    using assms sh by (auto simp: mq_ok_def mq_put_shape mq_put_size mq_put_cell less_Suc_eq)
  show "mq_content (mq_put x s) = mq_content s @ [x]"
    using assms sh by (simp add: mq_content_def mq_put_size mq_put_cell)
qed

lemma mq_take_content:
  assumes "mq_ok s" "0 < mq_size s"
  shows "mq_ok (mq_take s)" "mq_content s = the (mq_cell s 0) # mq_content (mq_take s)"
    "mq_cell s 0 \<noteq> None"
proof -
  have sh: "mq_shape s" using assms by (simp add: mq_ok_def)
  have c: "mq_cell (mq_take s) i = mq_cell s (Suc i)" if "i < mq_size s - 1" for i
    using that mq_take_cell [OF sh, of i] mq_size_less [OF sh] by simp
  then show "mq_ok (mq_take s)"
    using assms mq_take_shape [OF sh] by (auto simp: mq_ok_def mq_take_size)
  have "mq_content (mq_take s) = map (\<lambda>i. the (mq_cell s (Suc i))) [0..<mq_size s - 1]"
    using c assms(2) by (simp add: mq_content_def mq_take_size [OF sh])
  then show "mq_content s = the (mq_cell s 0) # mq_content (mq_take s)"
    using mq_content_Cons [OF sh assms(2)] by simp
  show "mq_cell s 0 \<noteq> None" using assms by (simp add: mq_ok_def)
qed

interpretation mq: bounded_queue mq_content mq_room mq_ok "\<lambda>x. mq_push (Some x)" mq_pop mq_getfront
proof
  fix q :: "'a msg_queue" and x :: 'a and xs
  assume ok: "mq_ok q"
  then have sh: "mq_shape q" by (simp add: mq_ok_def)
  show "length (mq_content q) \<le> mq_room q"
    using mq_size_less [OF sh] by (simp add: mq_room_def)
  show "length (mq_content q) < mq_room q \<Longrightarrow> \<exists>q'. mq_push (Some x) q = (True, q') \<and> mq_ok q' \<and>
      mq_room q' = mq_room q \<and> mq_content q' = mq_content q @ [x]"
    using mq_put_content [OF ok, of x] mq_full_iff [OF sh] mq_put_shape [OF sh, of x]
    by (auto simp: mq_push_def mq_put_def mq_room_def)
  show "length (mq_content q) = mq_room q \<Longrightarrow> mq_push (Some x) q = (False, q)"
    using mq_full_iff [OF sh] by (simp add: mq_push_def)
  show "mq_content q = [] \<Longrightarrow> mq_pop q = (None, q)"
    using mq_empty_iff [OF sh] by (simp add: mq_pop_def mq_content_def)
  have c0: "mq_cell q 0 = mq_q q ! mq_front q"
    using sh by (simp add: mq_cell_def mq_shape_def)
  show "mq_content q = x # xs \<Longrightarrow> \<exists>q'. mq_pop q = (Some x, q') \<and> mq_ok q' \<and>
      mq_room q' = mq_room q \<and> mq_content q' = xs"
  proof -
    assume a: "mq_content q = x # xs"
    then have n: "0 < mq_size q" by (metis length_mq_content length_greater_0_conv list.discI)
    from mq_take_content [OF ok n] a c0 have "mq_q q ! mq_front q = Some x"
      "mq_content (mq_take q) = xs" "mq_ok (mq_take q)" by auto
    with mq_empty_iff [OF sh] n mq_take_shape [OF sh] show ?thesis
      by (auto simp: mq_pop_def mq_take_def mq_room_def)
  qed
  show "mq_getfront q = (case mq_content q of [] \<Rightarrow> None | x # _ \<Rightarrow> Some x)"
  proof (cases "mq_size q = 0")
    case True
    then show ?thesis using mq_empty_iff [OF sh] by (simp add: mq_getfront_def mq_content_def)
  next
    case False
    with mq_take_content [OF ok] c0 mq_empty_iff [OF sh] show ?thesis
      by (auto simp: mq_getfront_def)
  qed
qed

section \<open>One producer, one consumer\<close>

text \<open>
  Every queue that crosses threads has one thread that pushes and one that pops
  (\<open>multi_push\<close> is \<open>false\<close> wherever the code calls \<open>init\<close>), without a lock. Here the
  two run concurrently: a step is one access to the shared fields, in program
  order. The producer loads \<open>front\<close>, compares and goes on to write the slot, then
  moves \<open>back\<close>; the consumer compares, loads the slot, clears it, then moves
  \<open>front\<close>. Accesses are taken to be sequentially consistent. \<open>sp_sent\<close> and \<open>sp_got\<close>
  record the history: what \<open>push\<close> has completed with and what \<open>pop\<close> has returned.
\<close>

datatype 'a producer_pc = P_idle | P_checked 'a | P_written 'a

datatype 'a consumer_pc = C_idle | C_checked | C_loaded "'a option" | C_cleared "'a option"

record 'a spsc =
  sp_q :: "'a msg_queue"
  sp_p :: "'a producer_pc"
  sp_c :: "'a consumer_pc"
  sp_sent :: "'a list"
  sp_got :: "'a option list"

definition spsc_init :: "nat \<Rightarrow> 'a spsc" where
  "spsc_init cap = \<lparr>sp_q = mq_init cap False, sp_p = P_idle, sp_c = C_idle, sp_sent = [], sp_got = []\<rparr>"

definition mq_set_slot :: "nat \<Rightarrow> 'a option \<Rightarrow> 'a msg_queue \<Rightarrow> 'a msg_queue" where
  "mq_set_slot i v q = q\<lparr>mq_q := (mq_q q)[i := v]\<rparr>"

definition mq_move_back :: "'a msg_queue \<Rightarrow> 'a msg_queue" where
  "mq_move_back q = q\<lparr>mq_back := (mq_back q + 1) mod mq_cap q\<rparr>"

definition mq_move_front :: "'a msg_queue \<Rightarrow> 'a msg_queue" where
  "mq_move_front q = q\<lparr>mq_front := (mq_front q + 1) mod mq_cap q\<rparr>"

inductive spsc_step :: "'a spsc \<Rightarrow> 'a spsc \<Rightarrow> bool" where
  p_check: "sp_p s = P_idle \<Longrightarrow> (mq_back (sp_q s) + 1) mod mq_cap (sp_q s) \<noteq> mq_front (sp_q s) \<Longrightarrow>
    spsc_step s (s\<lparr>sp_p := P_checked x\<rparr>)"
| p_store: "sp_p s = P_checked x \<Longrightarrow>
    spsc_step s (s\<lparr>sp_q := mq_set_slot (mq_back (sp_q s)) (Some x) (sp_q s), sp_p := P_written x\<rparr>)"
| p_publish: "sp_p s = P_written x \<Longrightarrow>
    spsc_step s (s\<lparr>sp_q := mq_move_back (sp_q s), sp_p := P_idle, sp_sent := sp_sent s @ [x]\<rparr>)"
| c_check: "sp_c s = C_idle \<Longrightarrow> mq_front (sp_q s) \<noteq> mq_back (sp_q s) \<Longrightarrow>
    spsc_step s (s\<lparr>sp_c := C_checked\<rparr>)"
| c_load: "sp_c s = C_checked \<Longrightarrow>
    spsc_step s (s\<lparr>sp_c := C_loaded (mq_q (sp_q s) ! mq_front (sp_q s))\<rparr>)"
| c_clear: "sp_c s = C_loaded r \<Longrightarrow>
    spsc_step s (s\<lparr>sp_q := mq_set_slot (mq_front (sp_q s)) None (sp_q s), sp_c := C_cleared r\<rparr>)"
| c_publish: "sp_c s = C_cleared r \<Longrightarrow>
    spsc_step s (s\<lparr>sp_q := mq_move_front (sp_q s), sp_c := C_idle, sp_got := sp_got s @ [r]\<rparr>)"

text \<open>
  The two updates split in three: storing into a slot and moving an index. A slot
  outside the elements may be written without changing a cell, and so may the
  front cell once the consumer has loaded it.
\<close>

lemma mq_set_slot_simps [simp]:
  "mq_front (mq_set_slot i v q) = mq_front q" "mq_back (mq_set_slot i v q) = mq_back q"
  "mq_cap (mq_set_slot i v q) = mq_cap q" "mq_size (mq_set_slot i v q) = mq_size q"
  "mq_shape (mq_set_slot i v q) = mq_shape q" "mq_room (mq_set_slot i v q) = mq_room q"
  by (simp_all add: mq_set_slot_def mq_size_def mq_shape_def mq_room_def)

lemma mq_pos_neq_back:
  assumes "mq_shape q" "i < mq_size q"
  shows "(mq_front q + i) mod mq_cap q \<noteq> mq_back q"
proof
  assume "(mq_front q + i) mod mq_cap q = mq_back q"
  with assms ring_pos_end [of "mq_front q" "mq_cap q" "mq_back q"]
  have "(mq_front q + i) mod mq_cap q = (mq_front q + mq_size q) mod mq_cap q"
    by (auto simp: mq_size_def)
  with assms mq_size_less [OF assms(1)] have "i = mq_size q"
    by (intro ring_pos_inj [of i "mq_cap q" "mq_size q" "mq_front q"]) auto
  with assms(2) show False by simp
qed

lemma mq_cell_set_back:
  "mq_shape q \<Longrightarrow> i < mq_size q \<Longrightarrow> mq_cell (mq_set_slot (mq_back q) v q) i = mq_cell q i"
  using mq_pos_neq_back [of q i] by (simp add: mq_cell_def mq_set_slot_def)

lemma mq_cell_set_front:
  assumes "mq_shape q" "i < mq_size q"
  shows "mq_cell (mq_set_slot (mq_front q) v q) i = (if i = 0 then v else mq_cell q i)"
proof -
  have "(mq_front q + i) mod mq_cap q = mq_front q \<longleftrightarrow> i = 0"
    using assms mq_size_less [OF assms(1)] ring_pos_inj [of i "mq_cap q" 0 "mq_front q"]
    by (auto simp: mq_shape_def)
  then show ?thesis
    using assms by (auto simp: mq_cell_def mq_set_slot_def mq_shape_def)
qed

lemma mq_move_back_facts:
  assumes "mq_shape q" "mq_size q < mq_room q"
  shows "mq_shape (mq_move_back q)" "mq_size (mq_move_back q) = Suc (mq_size q)"
    "mq_room (mq_move_back q) = mq_room q" "mq_front (mq_move_back q) = mq_front q"
    "mq_cell (mq_move_back q) i = mq_cell q i"
  using assms ring_dist_push [of "mq_front q" "mq_cap q" "mq_back q"]
  by (auto simp: mq_move_back_def mq_shape_def mq_size_def mq_room_def mq_cell_def)

lemma mq_move_front_facts:
  assumes "mq_shape q" "0 < mq_size q"
  shows "mq_shape (mq_move_front q)" "mq_size (mq_move_front q) = mq_size q - 1"
    "mq_room (mq_move_front q) = mq_room q" "mq_back (mq_move_front q) = mq_back q"
    "mq_q (mq_move_front q) = mq_q q"
    "mq_cell (mq_move_front q) i = mq_cell q (Suc i)"
  using assms ring_dist_pop [of "mq_front q" "mq_cap q" "mq_back q"]
  by (auto simp: mq_move_front_def mq_shape_def mq_size_def mq_room_def mq_cell_def
      ring_pos_shift [simplified])

text \<open>
  The invariant: the cells hold what was sent and not yet returned, in order,
  except the front cell between the consumer's clearing it and moving \<open>front\<close>.
\<close>

definition spsc_inv :: "'a spsc \<Rightarrow> bool" where
  "spsc_inv s \<longleftrightarrow>
     (let q = sp_q s; n = length (sp_got s) in
      mq_shape q \<and> mq_size q \<le> mq_room q \<and>
      (sp_p s \<noteq> P_idle \<longrightarrow> mq_size q < mq_room q) \<and>
      (\<forall>x. sp_p s = P_written x \<longrightarrow> mq_q q ! mq_back q = Some x) \<and>
      (sp_c s \<noteq> C_idle \<longrightarrow> 0 < mq_size q) \<and>
      length (sp_sent s) = n + mq_size q \<and>
      sp_got s = map Some (take n (sp_sent s)) \<and>
      (\<forall>i < mq_size q. \<not> (i = 0 \<and> (\<exists>r. sp_c s = C_cleared r)) \<longrightarrow>
          mq_cell q i = Some (sp_sent s ! (n + i))) \<and>
      (\<forall>r. sp_c s = C_loaded r \<or> sp_c s = C_cleared r \<longrightarrow> r = Some (sp_sent s ! n)))"

lemma spsc_inv_init: "0 < cap \<Longrightarrow> spsc_inv (spsc_init cap)"
  by (auto simp: spsc_inv_def spsc_init_def mq_init_def mq_shape_def mq_size_def ring_dist_def)

lemma spsc_p_store:
  assumes "spsc_inv s" "sp_p s = P_checked x"
  shows "spsc_inv (s\<lparr>sp_q := mq_set_slot (mq_back (sp_q s)) (Some x) (sp_q s), sp_p := P_written x\<rparr>)"
proof -
  have sh: "mq_shape (sp_q s)" using assms by (simp add: spsc_inv_def Let_def)
  then have "mq_q (mq_set_slot (mq_back (sp_q s)) (Some x) (sp_q s)) ! mq_back (sp_q s) = Some x"
    by (auto simp: mq_set_slot_def)
  with assms sh show ?thesis
    by (auto simp: spsc_inv_def Let_def mq_cell_set_back)
qed

lemma spsc_c_clear:
  assumes "spsc_inv s" "sp_c s = C_loaded r"
  shows "spsc_inv (s\<lparr>sp_q := mq_set_slot (mq_front (sp_q s)) None (sp_q s), sp_c := C_cleared r\<rparr>)"
proof -
  have sh: "mq_shape (sp_q s)" "0 < mq_size (sp_q s)"
    using assms by (auto simp: spsc_inv_def Let_def)
  then have "mq_front (sp_q s) \<noteq> mq_back (sp_q s)"
    using mq_empty_iff [OF sh(1)] by simp
  then have "mq_q (mq_set_slot (mq_front (sp_q s)) None (sp_q s)) ! mq_back (sp_q s)
      = mq_q (sp_q s) ! mq_back (sp_q s)"
    by (simp add: mq_set_slot_def)
  with assms sh show ?thesis
    by (auto simp: spsc_inv_def Let_def mq_cell_set_front)
qed

lemma spsc_p_publish:
  assumes "spsc_inv s" "sp_p s = P_written x"
  shows "spsc_inv (s\<lparr>sp_q := mq_move_back (sp_q s), sp_p := P_idle, sp_sent := sp_sent s @ [x]\<rparr>)"
proof -
  let ?q = "sp_q s"
  have sh: "mq_shape ?q" "mq_size ?q < mq_room ?q" "mq_q ?q ! mq_back ?q = Some x"
    using assms by (auto simp: spsc_inv_def Let_def)
  have "mq_cell ?q (mq_size ?q) = Some x"
    using sh ring_pos_end [of "mq_front ?q" "mq_cap ?q" "mq_back ?q"]
    by (auto simp: mq_cell_def mq_size_def)
  with assms sh show ?thesis
    by (auto simp: spsc_inv_def Let_def mq_move_back_facts less_Suc_eq nth_append)
qed

lemma spsc_c_publish:
  assumes "spsc_inv s" "sp_c s = C_cleared r"
  shows "spsc_inv (s\<lparr>sp_q := mq_move_front (sp_q s), sp_c := C_idle, sp_got := sp_got s @ [r]\<rparr>)"
proof -
  let ?q = "sp_q s" and ?n = "length (sp_got s)"
  have sh: "mq_shape ?q" "0 < mq_size ?q" "r = Some (sp_sent s ! ?n)" "?n < length (sp_sent s)"
    using assms by (auto simp: spsc_inv_def Let_def)
  have "sp_got s @ [r] = map Some (take (Suc ?n) (sp_sent s))"
    using assms sh by (simp add: spsc_inv_def Let_def take_Suc_conv_app_nth)
  with assms sh show ?thesis
    by (auto simp: spsc_inv_def Let_def mq_move_front_facts)
qed

lemma spsc_step_inv: "spsc_step s t \<Longrightarrow> spsc_inv s \<Longrightarrow> spsc_inv t"
proof (induction rule: spsc_step.induct)
  case (p_check s x)
  then have "mq_size (sp_q s) \<noteq> mq_room (sp_q s)"
    using mq_full_iff [of "sp_q s"] by (auto simp: spsc_inv_def Let_def)
  with p_check show ?case by (auto simp: spsc_inv_def Let_def)
next
  case (c_check s)
  then have "mq_size (sp_q s) \<noteq> 0"
    using mq_empty_iff [of "sp_q s"] by (auto simp: spsc_inv_def Let_def)
  with c_check show ?case by (auto simp: spsc_inv_def Let_def)
next
  case (c_load s)
  then have "mq_q (sp_q s) ! mq_front (sp_q s) = mq_cell (sp_q s) 0"
    by (auto simp: spsc_inv_def Let_def mq_cell_def mq_shape_def)
  with c_load show ?case by (auto simp: spsc_inv_def Let_def)
qed (simp_all add: spsc_p_store spsc_p_publish spsc_c_clear spsc_c_publish)

definition spsc_reach :: "nat \<Rightarrow> 'a spsc \<Rightarrow> bool" where
  "spsc_reach cap = spsc_step\<^sup>*\<^sup>* (spsc_init cap)"

lemma spsc_reach_inv:
  assumes "0 < cap" "spsc_reach cap s"
  shows "spsc_inv s"
proof -
  have "spsc_step\<^sup>*\<^sup>* (spsc_init cap) s \<Longrightarrow> spsc_inv s"
    by (induction rule: rtranclp_induct) (auto intro: spsc_step_inv spsc_inv_init [OF assms(1)])
  with assms(2) show ?thesis by (simp add: spsc_reach_def)
qed

section \<open>The slot ring: message_queue\<close>

text \<open>
  \<open>message_queue\<close> hands out the next free slot (\<open>getback\<close>), the producer fills it,
  and \<open>push\<close> publishes it. The slots are never cleared.
\<close>

record 'a message_queue =
  sq_back :: nat
  sq_front :: nat
  sq_cap :: nat
  sq_max_used :: nat
  sq_q :: "'a list"

definition sq_getback :: "'a message_queue \<Rightarrow> nat option" where
  "sq_getback s = (if (sq_back s + 1) mod sq_cap s = sq_front s then None else Some (sq_back s))"

definition sq_getfront :: "'a message_queue \<Rightarrow> nat option" where
  "sq_getfront s = (if sq_front s = sq_back s then None else Some (sq_front s))"

text \<open>\<open>malloc\<close> leaves the slots with arbitrary contents \<open>junk\<close>.\<close>

definition sq_init :: "nat \<Rightarrow> 'a list \<Rightarrow> 'a message_queue" where
  "sq_init cap junk =
     \<lparr>sq_back = 0, sq_front = 0, sq_cap = cap, sq_max_used = 0, sq_q = junk\<rparr>"

definition sq_pop :: "'a message_queue \<Rightarrow> bool \<times> 'a message_queue" where
  "sq_pop s =
     (if sq_front s = sq_back s then (False, s)
      else (True, s\<lparr>sq_front := (sq_front s + 1) mod sq_cap s\<rparr>))"

definition sq_push :: "'a message_queue \<Rightarrow> bool \<times> 'a message_queue" where
  "sq_push s =
     (if (sq_back s + 1) mod sq_cap s = sq_front s then (False, s)
      else let b = (sq_back s + 1) mod sq_cap s;
               t = (b + sq_cap s - sq_front s) mod sq_cap s
           in (True, s\<lparr>sq_back := b,
                       sq_max_used := (if sq_max_used s < t then t else sq_max_used s)\<rparr>))"

definition sq_fill :: "nat \<Rightarrow> 'a \<Rightarrow> 'a message_queue \<Rightarrow> 'a message_queue" where
  "sq_fill i v s = s\<lparr>sq_q := (sq_q s)[i := v]\<rparr>"

definition sq_size :: "'a message_queue \<Rightarrow> nat" where
  "sq_size s = ring_dist (sq_front s) (sq_back s) (sq_cap s)"

definition sq_content :: "'a message_queue \<Rightarrow> 'a list" where
  "sq_content s = map (\<lambda>i. sq_q s ! ((sq_front s + i) mod sq_cap s)) [0..<sq_size s]"

definition sq_ok :: "'a message_queue \<Rightarrow> bool" where
  "sq_ok s \<longleftrightarrow> sq_front s < sq_cap s \<and> sq_back s < sq_cap s \<and> length (sq_q s) = sq_cap s \<and>
     sq_size s \<le> sq_max_used s \<and> sq_max_used s < sq_cap s"

text \<open>
  The use the threads make of it, as one operation each: fill the slot that
  \<open>getback\<close> gave and publish it; look at the front slot and drop it.
\<close>

definition sq_put :: "'a \<Rightarrow> 'a message_queue \<Rightarrow> bool \<times> 'a message_queue" where
  "sq_put v s = (case sq_getback s of None \<Rightarrow> (False, s) | Some i \<Rightarrow> sq_push (sq_fill i v s))"

definition sq_get :: "'a message_queue \<Rightarrow> 'a option \<times> 'a message_queue" where
  "sq_get s = (case sq_getfront s of None \<Rightarrow> (None, s) | Some i \<Rightarrow> (Some (sq_q s ! i), snd (sq_pop s)))"

definition sq_peek :: "'a message_queue \<Rightarrow> 'a option" where
  "sq_peek s = map_option (\<lambda>i. sq_q s ! i) (sq_getfront s)"

definition sq_room :: "'a message_queue \<Rightarrow> nat" where
  "sq_room s = sq_cap s - 1"

lemma length_sq_content [simp]: "length (sq_content s) = sq_size s"
  by (simp add: sq_content_def)

lemma sq_init_ok: "0 < cap \<Longrightarrow> length junk = cap \<Longrightarrow> sq_ok (sq_init cap junk)"
  by (simp add: sq_ok_def sq_init_def sq_size_def ring_dist_def)

lemma sq_put_full: "sq_ok s \<Longrightarrow> sq_size s = sq_room s \<Longrightarrow> sq_put v s = (False, s)"
  using ring_full [of "sq_front s" "sq_cap s" "sq_back s"]
  by (auto simp: sq_ok_def sq_room_def sq_put_def sq_getback_def sq_size_def)

lemma sq_put_space:
  assumes "sq_ok s" "sq_size s < sq_room s"
  shows "\<exists>s'. sq_put v s = (True, s') \<and> sq_ok s' \<and> sq_room s' = sq_room s \<and>
    sq_content s' = sq_content s @ [v] \<and>
    sq_max_used s' = max (sq_max_used s) (Suc (sq_size s))"
proof -
  let ?b = "(sq_back s + 1) mod sq_cap s" and ?q = "(sq_q s)[sq_back s := v]"
  have i: "sq_front s < sq_cap s" "sq_back s < sq_cap s" "length (sq_q s) = sq_cap s"
    "sq_size s < sq_cap s - 1" "sq_max_used s < sq_cap s" "sq_size s \<le> sq_max_used s"
    using assms by (auto simp: sq_ok_def sq_room_def)
  define s' where "s' = s\<lparr>sq_q := ?q, sq_back := ?b,
      sq_max_used := max (sq_max_used s) (Suc (sq_size s))\<rparr>"
  have sz: "sq_size s' = Suc (sq_size s)"
    using ring_dist_push [OF i(1,2)] i(4) by (simp add: s'_def sq_size_def)
  have "?b \<noteq> sq_front s"
    using ring_full [OF i(1,2)] i(4) by (simp add: sq_size_def)
  moreover have "(?b + sq_cap s - sq_front s) mod sq_cap s = Suc (sq_size s)"
    using sz by (simp add: s'_def sq_size_def ring_dist_def)
  ultimately have put: "sq_put v s = (True, s')"
    by (auto simp: sq_put_def sq_getback_def sq_push_def sq_fill_def Let_def s'_def max_def)
  have e: "(sq_front s + sq_size s) mod sq_cap s = sq_back s"
    using ring_pos_end [OF i(1,2)] by (simp add: sq_size_def)
  have ne: "sq_back s \<noteq> (sq_front s + k) mod sq_cap s" if "k < sq_size s" for k
    using that i e ring_pos_inj [of k "sq_cap s" "sq_size s" "sq_front s"] by auto
  have "sq_content s' = map (\<lambda>k. ?q ! ((sq_front s + k) mod sq_cap s)) [0..<Suc (sq_size s)]"
    unfolding sq_content_def sz by (simp add: s'_def)
  also have "\<dots> = sq_content s @ [v]"
    using e ne i by (simp add: sq_content_def)
  finally have "sq_content s' = sq_content s @ [v]" .
  moreover have "sq_ok s'"
    using i sz by (simp add: sq_ok_def) (simp add: s'_def)
  ultimately show ?thesis using put by (simp add: s'_def sq_room_def)
qed

lemma sq_get_empty: "sq_ok s \<Longrightarrow> sq_content s = [] \<Longrightarrow> sq_get s = (None, s)"
  using ring_dist_zero [of "sq_front s" "sq_cap s" "sq_back s"]
  by (auto simp: sq_ok_def sq_get_def sq_getfront_def sq_content_def sq_size_def)

lemma sq_get_front:
  assumes "sq_ok s" "sq_content s = v # vs"
  shows "\<exists>s'. sq_get s = (Some v, s') \<and> sq_ok s' \<and> sq_room s' = sq_room s \<and> sq_content s' = vs"
proof -
  let ?f = "(sq_front s + 1) mod sq_cap s"
  have i: "sq_front s < sq_cap s" "sq_back s < sq_cap s" "length (sq_q s) = sq_cap s"
    "sq_max_used s < sq_cap s" "sq_size s \<le> sq_max_used s"
    using assms by (auto simp: sq_ok_def)
  have n: "0 < sq_size s" using assms(2) by (metis length_sq_content length_greater_0_conv list.discI)
  define s' where "s' = s\<lparr>sq_front := ?f\<rparr>"
  have sz: "sq_size s' = sq_size s - 1"
    using ring_dist_pop [OF i(1,2)] n by (simp add: s'_def sq_size_def)
  have ne: "sq_front s \<noteq> sq_back s"
    using ring_dist_zero [OF i(1,2)] n by (simp add: sq_size_def)
  have "[0..<sq_size s] = 0 # map Suc [0..<sq_size s - 1]"
    using n by (simp add: map_Suc_upt upt_conv_Cons)
  then have c: "sq_content s = sq_q s ! sq_front s # sq_content s'"
    unfolding sq_content_def sz using i(1) by (simp add: s'_def ring_pos_shift [simplified])
  have "sq_ok s'"
    using i sz by (simp add: sq_ok_def) (simp add: s'_def)
  with c ne assms(2) show ?thesis
    by (auto simp: sq_get_def sq_getfront_def sq_pop_def s'_def sq_room_def)
qed

interpretation sq: bounded_queue sq_content sq_room sq_ok sq_put sq_get sq_peek
proof
  fix s :: "'a message_queue" and v :: 'a and vs
  assume ok: "sq_ok s"
  show "length (sq_content s) \<le> sq_room s"
    using ok by (auto simp: sq_ok_def sq_room_def)
  show "length (sq_content s) < sq_room s \<Longrightarrow> \<exists>s'. sq_put v s = (True, s') \<and> sq_ok s' \<and>
      sq_room s' = sq_room s \<and> sq_content s' = sq_content s @ [v]"
    using sq_put_space [OF ok, of v] by auto
  show "length (sq_content s) = sq_room s \<Longrightarrow> sq_put v s = (False, s)"
    using sq_put_full [OF ok] by simp
  show "sq_content s = [] \<Longrightarrow> sq_get s = (None, s)"
    by (rule sq_get_empty [OF ok])
  show "sq_content s = v # vs \<Longrightarrow> \<exists>s'. sq_get s = (Some v, s') \<and> sq_ok s' \<and>
      sq_room s' = sq_room s \<and> sq_content s' = vs"
    by (rule sq_get_front [OF ok])
  show "sq_peek s = (case sq_content s of [] \<Rightarrow> None | x # _ \<Rightarrow> Some x)"
    using sq_get_empty [OF ok] sq_get_front [OF ok]
    by (cases "sq_content s") (auto simp: sq_peek_def sq_get_def split: option.splits)
qed

section \<open>Properties\<close>

text \<open>
  A schedule of the concurrent run: each entry names the next access. \<open>spsc_run\<close>
  follows it and is \<open>None\<close> when an access is not enabled.
\<close>

datatype 'a spsc_move = M_pcheck 'a | M_pstore | M_ppublish | M_ccheck | M_cload | M_cclear | M_cpublish

fun spsc_do :: "'a spsc_move \<Rightarrow> 'a spsc \<Rightarrow> 'a spsc option" where
  "spsc_do (M_pcheck x) s =
     (if sp_p s = P_idle \<and> (mq_back (sp_q s) + 1) mod mq_cap (sp_q s) \<noteq> mq_front (sp_q s)
      then Some (s\<lparr>sp_p := P_checked x\<rparr>) else None)"
| "spsc_do M_pstore s = (case sp_p s of P_checked x \<Rightarrow>
      Some (s\<lparr>sp_q := mq_set_slot (mq_back (sp_q s)) (Some x) (sp_q s), sp_p := P_written x\<rparr>)
    | _ \<Rightarrow> None)"
| "spsc_do M_ppublish s = (case sp_p s of P_written x \<Rightarrow>
      Some (s\<lparr>sp_q := mq_move_back (sp_q s), sp_p := P_idle, sp_sent := sp_sent s @ [x]\<rparr>)
    | _ \<Rightarrow> None)"
| "spsc_do M_ccheck s =
     (if sp_c s = C_idle \<and> mq_front (sp_q s) \<noteq> mq_back (sp_q s)
      then Some (s\<lparr>sp_c := C_checked\<rparr>) else None)"
| "spsc_do M_cload s =
     (if sp_c s = C_checked then Some (s\<lparr>sp_c := C_loaded (mq_q (sp_q s) ! mq_front (sp_q s))\<rparr>)
      else None)"
| "spsc_do M_cclear s = (case sp_c s of C_loaded r \<Rightarrow>
      Some (s\<lparr>sp_q := mq_set_slot (mq_front (sp_q s)) None (sp_q s), sp_c := C_cleared r\<rparr>)
    | _ \<Rightarrow> None)"
| "spsc_do M_cpublish s = (case sp_c s of C_cleared r \<Rightarrow>
      Some (s\<lparr>sp_q := mq_move_front (sp_q s), sp_c := C_idle, sp_got := sp_got s @ [r]\<rparr>)
    | _ \<Rightarrow> None)"

fun spsc_run :: "'a spsc_move list \<Rightarrow> 'a spsc \<Rightarrow> 'a spsc option" where
  "spsc_run [] s = Some s"
| "spsc_run (m # ms) s = (case spsc_do m s of None \<Rightarrow> None | Some t \<Rightarrow> spsc_run ms t)"

lemma spsc_do_step: "spsc_do m s = Some t \<Longrightarrow> spsc_step s t"
  by (cases m) (auto intro: spsc_step.intros split: if_splits producer_pc.splits consumer_pc.splits)

lemma spsc_run_steps: "spsc_run ms s = Some t \<Longrightarrow> spsc_step\<^sup>*\<^sup>* s t"
  by (induction ms arbitrary: s)
    (auto split: option.splits dest: spsc_do_step intro: converse_rtranclp_into_rtranclp)

lemma spsc_run_reach: "spsc_run ms (spsc_init cap) = Some t \<Longrightarrow> spsc_reach cap t"
  by (simp add: spsc_reach_def spsc_run_steps)

text \<open>
  C36. Any sequence of pushes and pops on a fresh \<open>msg_queue\<close> of \<open>cap\<close> slots behaves
  as a first-in first-out list bounded by \<open>cap - 1\<close>: the same pushes are accepted,
  the same elements come out in the same order, and what is left in the ring is
  what is left in the list.
\<close>

theorem msg_queue_refines_list:
  assumes "0 < cap" "queue_run (\<lambda>x. mq_push (Some x)) mq_pop ops (mq_init cap m) = (acc, dlv, q)"
  shows "queue_run (list_push (cap - 1)) list_pop ops [] = (acc, dlv, mq_content q)"
  using mq.run_refines [OF mq_init_ok [OF assms(1)] assms(2)] assms(1) by simp

theorem msg_queue_refines_list_witness:
  "\<exists>q. queue_run (\<lambda>x. mq_push (Some x)) mq_pop [Push (5::nat), Push 6, Pop, Push 7]
         (mq_init 2 False) = ([5, 7], [5], q) \<and>
       queue_run (list_push 1) list_pop [Push 5, Push 6, Pop, Push 7] [] = ([5, 7], [5], mq_content q)"
proof -
  have "\<exists>q. queue_run (\<lambda>x. mq_push (Some x)) mq_pop [Push (5::nat), Push 6, Pop, Push 7]
      (mq_init 2 False) = ([5, 7], [5], q)"
    by (simp add: mq_push_def mq_pop_def mq_init_def numeral_2_eq_2)
  then obtain q where q: "queue_run (\<lambda>x. mq_push (Some x)) mq_pop [Push (5::nat), Push 6, Pop, Push 7]
      (mq_init 2 False) = ([5, 7], [5], q)" ..
  have "queue_run (list_push (2 - 1)) list_pop [Push 5, Push 6, Pop, Push 7] [] = ([5, 7], [5], mq_content q)"
    by (rule msg_queue_refines_list [OF _ q]) simp
  with q show ?thesis by auto
qed

text \<open>
  C33. One producer and one consumer on a \<open>msg_queue\<close>, interleaved at every memory
  access and without a lock: what \<open>pop\<close> has returned is, at every moment, a prefix
  of what \<open>push\<close> has accepted, in order, never NULL and never twice; and the
  difference never exceeds the \<open>cap - 1\<close> slots in use.
\<close>

theorem msg_queue_spsc_fifo:
  assumes "0 < cap" "spsc_reach cap s"
  shows "sp_got s = map Some (take (length (sp_got s)) (sp_sent s)) \<and>
    length (sp_got s) \<le> length (sp_sent s) \<and>
    length (sp_sent s) - length (sp_got s) = mq_size (sp_q s) \<and>
    mq_size (sp_q s) \<le> mq_room (sp_q s)"
  using spsc_reach_inv [OF assms] by (auto simp: spsc_inv_def Let_def)

theorem msg_queue_spsc_fifo_witness:
  "\<exists>s. spsc_run [M_pcheck 7, M_pstore, M_ppublish, M_ccheck, M_pcheck (8::nat), M_cload, M_pstore,
      M_cclear, M_ppublish, M_cpublish] (spsc_init 3) = Some s \<and>
    sp_got s = [Some 7] \<and> sp_sent s = [7, 8] \<and>
    length (sp_sent s) - length (sp_got s) = mq_size (sp_q s)"
proof -
  let ?ms = "[M_pcheck 7, M_pstore, M_ppublish, M_ccheck, M_pcheck (8::nat), M_cload, M_pstore,
      M_cclear, M_ppublish, M_cpublish]"
  have init: "spsc_init 3 = \<lparr>sp_q = \<lparr>mq_back = 0, mq_front = 0, mq_cap = 3,
      mq_q = [None, None, None], mq_multi = False\<rparr>, sp_p = P_idle, sp_c = C_idle, sp_sent = [], sp_got = []\<rparr>"
    by (simp add: spsc_init_def mq_init_def numeral_3_eq_3)
  have "\<exists>s. spsc_run ?ms (spsc_init 3) = Some s \<and> sp_got s = [Some 7] \<and> sp_sent s = [7, 8]"
    unfolding init by (simp add: mq_set_slot_def mq_move_back_def mq_move_front_def)
  then obtain s where s: "spsc_run ?ms (spsc_init 3) = Some s" "sp_got s = [Some 7]"
    "sp_sent s = [7, 8]" by blast
  with msg_queue_spsc_fifo [of 3 s] spsc_run_reach [OF s(1)] show ?thesis by auto
qed

text \<open>
  \<open>message_queue\<close> used through \<open>getback\<close>, fill and \<open>push\<close>, and \<open>getfront\<close> and \<open>pop\<close>
  is a first-in first-out list bounded by \<open>cap - 1\<close>, whatever \<open>malloc\<close> left in the
  slots.
\<close>

theorem message_queue_refines_list:
  assumes "0 < cap" "length junk = cap"
    "queue_run sq_put sq_get ops (sq_init cap junk) = (acc, dlv, q)"
  shows "queue_run (list_push (cap - 1)) list_pop ops [] = (acc, dlv, sq_content q)"
  using sq.run_refines [OF sq_init_ok [OF assms(1,2)] assms(3)] assms(1)
  by (simp add: sq_init_def sq_content_def sq_size_def ring_dist_def sq_room_def)

theorem message_queue_refines_list_witness:
  "\<exists>q. queue_run sq_put sq_get [Push (5::nat), Push 6, Pop, Push 7] (sq_init 2 [9, 9])
         = ([5, 7], [5], q) \<and>
       queue_run (list_push 1) list_pop [Push 5, Push 6, Pop, Push 7] [] = ([5, 7], [5], sq_content q)"
proof -
  have "\<exists>q. queue_run sq_put sq_get [Push (5::nat), Push 6, Pop, Push 7] (sq_init 2 [9, 9])
      = ([5, 7], [5], q)"
    by (simp add: sq_put_def sq_get_def sq_getback_def sq_getfront_def sq_push_def sq_pop_def
        sq_fill_def sq_init_def Let_def numeral_2_eq_2)
  then obtain q where q: "queue_run sq_put sq_get [Push (5::nat), Push 6, Pop, Push 7]
      (sq_init 2 [9, 9]) = ([5, 7], [5], q)" ..
  have "queue_run (list_push (2 - 1)) list_pop [Push 5, Push 6, Pop, Push 7] [] = ([5, 7], [5], sq_content q)"
    by (rule message_queue_refines_list [OF _ _ q]) simp_all
  with q show ?thesis by auto
qed

end
