(* ===== verification/MsgPool.thy ===== *)
theory MsgPool
  imports Prelude
begin

text \<open>
  The message pools (\<open>common/msg_pool.h\<close>): a fixed array of messages and a stack of
  pointers to the free ones. A message is named by its index in the array. The
  locale \<open>resource_pool\<close> is the contract the threads rely on: a message is handed
  to one holder at a time.
\<close>

section \<open>The contract of a pool\<close>

locale resource_pool =
  fixes avail :: "'p \<Rightarrow> nat set"
    and ids :: "'p \<Rightarrow> nat set"
    and invar :: "'p \<Rightarrow> bool"
    and alloc :: "'p \<Rightarrow> nat option \<times> 'p"
    and release :: "nat \<Rightarrow> 'p \<Rightarrow> bool \<times> 'p"
  assumes avail_ids: "invar p \<Longrightarrow> avail p \<subseteq> ids p"
    and alloc_none: "invar p \<Longrightarrow> avail p = {} \<Longrightarrow> alloc p = (None, p)"
    and alloc_some: "invar p \<Longrightarrow> avail p \<noteq> {} \<Longrightarrow>
      \<exists>i p'. alloc p = (Some i, p') \<and> i \<in> avail p \<and> invar p' \<and> ids p' = ids p \<and> avail p' = avail p - {i}"
    and release_held: "invar p \<Longrightarrow> i \<in> ids p - avail p \<Longrightarrow>
      \<exists>p'. release i p = (True, p') \<and> invar p' \<and> ids p' = ids p \<and> avail p' = insert i (avail p)"

datatype pool_op = Alloc | Release nat

text \<open>
  A run of a holder that gives back only what it holds; \<open>None\<close> when it does not,
  or when the pool refuses what it gives back. The list is what is held.
\<close>

fun pool_run :: "('p \<Rightarrow> nat option \<times> 'p) \<Rightarrow> (nat \<Rightarrow> 'p \<Rightarrow> bool \<times> 'p) \<Rightarrow> pool_op list \<Rightarrow>
    nat list \<Rightarrow> 'p \<Rightarrow> (nat list \<times> 'p) option" where
  "pool_run alloc release [] h p = Some (h, p)"
| "pool_run alloc release (Alloc # ops) h p =
     (case alloc p of (None, p') \<Rightarrow> pool_run alloc release ops h p'
      | (Some i, p') \<Rightarrow> pool_run alloc release ops (i # h) p')"
| "pool_run alloc release (Release i # ops) h p =
     (if i \<in> set h then
        (case release i p of (ok, p') \<Rightarrow>
           if ok then pool_run alloc release ops (removeAll i h) p' else None)
      else None)"

text \<open>Every release of the run is of something held at that point.\<close>

fun pool_disciplined :: "('p \<Rightarrow> nat option \<times> 'p) \<Rightarrow> (nat \<Rightarrow> 'p \<Rightarrow> bool \<times> 'p) \<Rightarrow> pool_op list \<Rightarrow>
    nat list \<Rightarrow> 'p \<Rightarrow> bool" where
  "pool_disciplined alloc release [] h p = True"
| "pool_disciplined alloc release (Alloc # ops) h p =
     (case alloc p of (None, p') \<Rightarrow> pool_disciplined alloc release ops h p'
      | (Some i, p') \<Rightarrow> pool_disciplined alloc release ops (i # h) p')"
| "pool_disciplined alloc release (Release i # ops) h p =
     (i \<in> set h \<and> pool_disciplined alloc release ops (removeAll i h) (snd (release i p)))"

context resource_pool
begin

lemma run_exclusive:
  assumes "invar p" "distinct h" "set h = ids p - avail p" "pool_disciplined alloc release ops h p"
  shows "\<exists>h' p'. pool_run alloc release ops h p = Some (h', p') \<and> invar p' \<and> ids p' = ids p \<and>
    distinct h' \<and> set h' = ids p' - avail p'"
  using assms
proof (induction ops arbitrary: h p)
  case Nil
  then show ?case by simp
next
  case (Cons op ops)
  show ?case
  proof (cases op)
    case Alloc
    show ?thesis
    proof (cases "avail p = {}")
      case True
      with Cons Alloc alloc_none [of p] show ?thesis by simp
    next
      case False
      with alloc_some [OF Cons.prems(1)] obtain i p' where
        a: "alloc p = (Some i, p')" "i \<in> avail p" "invar p'" "ids p' = ids p" "avail p' = avail p - {i}"
        by blast
      have "set (i # h) = ids p' - avail p'" "distinct (i # h)"
        using Cons.prems a avail_ids [OF Cons.prems(1)] by auto
      with Cons.IH [of p' "i # h"] Cons.prems a Alloc show ?thesis by simp
    qed
  next
    case (Release i)
    with Cons.prems have "i \<in> ids p - avail p" by auto
    from release_held [OF Cons.prems(1) this] obtain p' where
      r: "release i p = (True, p')" "invar p'" "ids p' = ids p" "avail p' = insert i (avail p)"
      by blast
    have "set (removeAll i h) = ids p' - avail p'" "distinct (removeAll i h)"
      using Cons.prems r by (auto simp: distinct_removeAll)
    with Cons.IH [of p' "removeAll i h"] Cons.prems r Release show ?thesis by simp
  qed
qed

end

section \<open>msg_stack_pool\<close>

record msg_pool =
  mp_free_list :: "nat list"
  mp_cap :: nat
  mp_top :: nat
  mp_min_top :: nat

definition mp_init :: "nat \<Rightarrow> msg_pool" where
  "mp_init cap = \<lparr>mp_free_list = [0..<cap], mp_cap = cap, mp_top = cap, mp_min_top = cap\<rparr>"

definition mp_alloc :: "msg_pool \<Rightarrow> nat option \<times> msg_pool" where
  "mp_alloc s =
     (if mp_top s = 0 then (None, s)
      else let t = mp_top s - 1
           in (Some (mp_free_list s ! t),
               s\<lparr>mp_top := t, mp_min_top := (if t < mp_min_top s then t else mp_min_top s)\<rparr>))"

definition mp_free :: "nat \<Rightarrow> msg_pool \<Rightarrow> bool \<times> msg_pool" where
  "mp_free p s =
     (if mp_top s = mp_cap s then (False, s)
      else (True, s\<lparr>mp_free_list := (mp_free_list s)[mp_top s := p], mp_top := mp_top s + 1\<rparr>))"

definition mp_avail :: "msg_pool \<Rightarrow> nat set" where
  "mp_avail s = set (take (mp_top s) (mp_free_list s))"

definition mp_ids :: "msg_pool \<Rightarrow> nat set" where
  "mp_ids s = {..<mp_cap s}"

definition mp_ok :: "msg_pool \<Rightarrow> bool" where
  "mp_ok s \<longleftrightarrow> length (mp_free_list s) = mp_cap s \<and> mp_top s \<le> mp_cap s \<and> mp_min_top s \<le> mp_top s \<and>
     distinct (take (mp_top s) (mp_free_list s)) \<and> mp_avail s \<subseteq> mp_ids s"

lemma mp_init_ok: "mp_ok (mp_init cap)"
  by (auto simp: mp_ok_def mp_init_def mp_avail_def mp_ids_def)

lemma mp_avail_init: "mp_avail (mp_init cap) = {..<cap}"
  by (auto simp: mp_init_def mp_avail_def)

lemma mp_card_avail: "mp_ok s \<Longrightarrow> card (mp_avail s) = mp_top s"
  by (simp add: mp_ok_def mp_avail_def distinct_card)

lemma mp_alloc_some:
  assumes "mp_ok s" "0 < mp_top s"
  shows "\<exists>i s'. mp_alloc s = (Some i, s') \<and> i \<in> mp_avail s \<and> mp_ok s' \<and> mp_cap s' = mp_cap s \<and>
    mp_avail s' = mp_avail s - {i} \<and> mp_top s' = mp_top s - 1 \<and>
    mp_min_top s' = min (mp_min_top s) (mp_top s')"
proof -
  obtain t where t: "mp_top s = Suc t" using assms(2) by (cases "mp_top s") auto
  let ?i = "mp_free_list s ! t"
  let ?s = "s\<lparr>mp_top := t, mp_min_top := min (mp_min_top s) t\<rparr>"
  have tk: "take (Suc t) (mp_free_list s) = take t (mp_free_list s) @ [?i]"
    using assms t by (simp add: mp_ok_def take_Suc_conv_app_nth)
  have av: "mp_avail s = insert ?i (mp_avail ?s)" "?i \<notin> mp_avail ?s"
    using assms t tk by (auto simp: mp_avail_def mp_ok_def)
  then have "mp_ok ?s"
    using assms t tk by (auto simp: mp_ok_def mp_ids_def)
  moreover have "mp_alloc s = (Some ?i, ?s)"
    using t by (auto simp: mp_alloc_def min_def)
  ultimately show ?thesis using av t by auto
qed

lemma mp_free_held:
  assumes "mp_ok s" "i < mp_cap s" "i \<notin> mp_avail s"
  shows "\<exists>s'. mp_free i s = (True, s') \<and> mp_ok s' \<and> mp_cap s' = mp_cap s \<and>
    mp_avail s' = insert i (mp_avail s) \<and> mp_top s' = Suc (mp_top s)"
proof -
  have "mp_top s \<noteq> mp_cap s"
  proof
    assume f: "mp_top s = mp_cap s"
    then have "card (mp_avail s) = card {..<mp_cap s}"
      using mp_card_avail [OF assms(1)] by simp
    moreover have "mp_avail s \<subseteq> {..<mp_cap s}"
      using assms(1) by (simp add: mp_ok_def mp_ids_def)
    ultimately have "mp_avail s = {..<mp_cap s}" by (simp add: card_subset_eq)
    with assms(2,3) show False by simp
  qed
  then have lt: "mp_top s < length (mp_free_list s)" using assms(1) by (simp add: mp_ok_def)
  let ?s = "s\<lparr>mp_free_list := (mp_free_list s)[mp_top s := i], mp_top := mp_top s + 1\<rparr>"
  have "take (Suc (mp_top s)) ((mp_free_list s)[mp_top s := i]) = take (mp_top s) (mp_free_list s) @ [i]"
    using lt by (simp add: take_Suc_conv_app_nth)
  then have "mp_ok ?s" "mp_avail ?s = insert i (mp_avail s)"
    using assms lt by (auto simp: mp_ok_def mp_avail_def mp_ids_def)
  then show ?thesis using \<open>mp_top s \<noteq> mp_cap s\<close> by (simp add: mp_free_def)
qed

lemma mp_avail_empty_iff: "mp_ok s \<Longrightarrow> mp_avail s = {} \<longleftrightarrow> mp_top s = 0"
  by (auto simp: mp_ok_def mp_avail_def)

interpretation mp: resource_pool mp_avail mp_ids mp_ok mp_alloc mp_free
proof
  fix s i
  assume ok: "mp_ok s"
  show "mp_avail s \<subseteq> mp_ids s" using ok by (simp add: mp_ok_def)
  show "mp_avail s = {} \<Longrightarrow> mp_alloc s = (None, s)"
    using mp_avail_empty_iff [OF ok] by (simp add: mp_alloc_def)
  show "mp_avail s \<noteq> {} \<Longrightarrow> \<exists>i p'. mp_alloc s = (Some i, p') \<and> i \<in> mp_avail s \<and> mp_ok p' \<and>
      mp_ids p' = mp_ids s \<and> mp_avail p' = mp_avail s - {i}"
    using mp_avail_empty_iff [OF ok] mp_alloc_some [OF ok] by (auto simp: mp_ids_def)
  show "i \<in> mp_ids s - mp_avail s \<Longrightarrow> \<exists>p'. mp_free i s = (True, p') \<and> mp_ok p' \<and>
      mp_ids p' = mp_ids s \<and> mp_avail p' = insert i (mp_avail s)"
    using mp_free_held [OF ok, of i] by (auto simp: mp_ids_def)
qed

section \<open>Properties\<close>

text \<open>
  C39. From a fresh pool of \<open>cap\<close> messages, a holder that frees only what it holds
  never has two allocations of the same message, never has a free refused, and
  holds exactly the messages that are not free: held and free together are the
  \<open>cap\<close> messages of the array.
\<close>

theorem msg_pool_exclusive:
  assumes "pool_disciplined mp_alloc mp_free ops [] (mp_init cap)"
  shows "\<exists>h p. pool_run mp_alloc mp_free ops [] (mp_init cap) = Some (h, p) \<and> distinct h \<and>
    set h = {..<cap} - mp_avail p \<and> length h + mp_top p = cap \<and> mp_min_top p \<le> mp_top p"
proof -
  have "set [] = mp_ids (mp_init cap) - mp_avail (mp_init cap)"
    by (simp add: mp_avail_init) (simp add: mp_ids_def mp_init_def)
  from mp.run_exclusive [OF mp_init_ok distinct.simps(1) [THEN iffD2, OF TrueI] this assms]
  obtain h p where r: "pool_run mp_alloc mp_free ops [] (mp_init cap) = Some (h, p)" "mp_ok p"
    "mp_ids p = mp_ids (mp_init cap)" "distinct h" "set h = mp_ids p - mp_avail p" by blast
  have cap: "mp_cap p = cap" using r(3) by (simp add: mp_ids_def mp_init_def)
  have sub: "mp_avail p \<subseteq> {..<cap}" using r(2) cap by (simp add: mp_ok_def mp_ids_def)
  then have "card ({..<cap} - mp_avail p) = cap - mp_top p"
    using mp_card_avail [OF r(2)] by (simp add: card_Diff_subset finite_subset)
  moreover have "card (set h) = length h" using r(4) by (rule distinct_card)
  moreover have "mp_top p \<le> cap" "mp_min_top p \<le> mp_top p" using r(2) cap by (simp_all add: mp_ok_def)
  ultimately show ?thesis using r cap by (simp add: mp_ids_def)
qed

theorem msg_pool_exclusive_witness:
  "\<exists>h p. pool_run mp_alloc mp_free [Alloc, Alloc, Release 2, Alloc] [] (mp_init 3) = Some (h, p) \<and>
     distinct h \<and> set h = {..<3} - mp_avail p \<and> length h + mp_top p = 3"
proof -
  have "pool_disciplined mp_alloc mp_free [Alloc, Alloc, Release 2, Alloc] [] (mp_init 3)"
    by (simp add: mp_alloc_def mp_free_def mp_init_def Let_def upt_rec)
  from msg_pool_exclusive [OF this] show ?thesis by blast
qed

end
