(* ===== verification/MsgStruct.thy ===== *)
theory MsgStruct
  imports Prelude
begin

text \<open>
  The messages the threads exchange (\<open>common/msg_struct.h\<close>): the readers of
  \<open>msg_recv\<close>, the writers of \<open>msg_send\<close>, \<open>msg_admin\<close>, \<open>msg_http\<close> and \<open>msg_inner\<close>, and the
  byte order helpers. A \<open>double\<close> is the list of its eight bytes in memory: the
  code only moves and swaps them.
\<close>

section \<open>msg_utils::cvt\<close>

text \<open>
  The byte order is probed once with the value \<open>1.0\<close>; the result is kept in the
  static \<open>typ\<close> (\<open>0\<close> before the first call, \<open>1\<close> little endian, \<open>2\<close> big endian),
  which is passed and returned.
\<close>

definition double_one :: bytes where
  "double_one = [0, 0, 0, 0, 0, 0, 0xF0, 0x3F]"

definition swap_bytes :: "nat \<Rightarrow> nat \<Rightarrow> bytes \<Rightarrow> bytes" where
  "swap_bytes i j x = (x[i := x ! j])[j := x ! i]"

definition cvt :: "bytes \<Rightarrow> int \<Rightarrow> bytes \<times> int" where
  "cvt src typ =
     (let typ1 = (if typ = 0 then (if double_one ! 7 = 1 then 2 else 1) else typ)
      in if typ1 = 2 then (src, typ1)
         else (swap_bytes 3 4 (swap_bytes 2 5 (swap_bytes 1 6 (swap_bytes 0 7 src))), typ1))"

definition htonll :: "bytes \<Rightarrow> bytes" where
  "htonll n = fst (cvt n 0)"

definition ntohll :: "bytes \<Rightarrow> bytes" where
  "ntohll n = fst (cvt n 0)"

lemma cvt_rev:
  assumes "length x = 8" "typ = 0 \<or> typ = 1"
  shows "cvt x typ = (rev x, 1)"
proof -
  obtain a b c d e f g h where "x = [a, b, c, d, e, f, g, h]"
    using assms(1) by (auto simp: length_Suc_conv eval_nat_numeral)
  with assms(2) show ?thesis by (auto simp: cvt_def double_one_def swap_bytes_def Let_def)
qed

lemma htonll_rev [simp]: "length x = 8 \<Longrightarrow> htonll x = rev x"
  by (simp add: htonll_def cvt_rev)

lemma ntohll_rev [simp]: "length x = 8 \<Longrightarrow> ntohll x = rev x"
  by (simp add: ntohll_def cvt_rev)

section \<open>msg_recv\<close>

record msg_recv =
  mr_buf :: bytes
  mr_back :: int
  mr_front :: int
  mr_id :: int
  mr_fd :: int
  mr_step :: int

definition mr_get_last_char_read :: "msg_recv \<Rightarrow> int option" where
  "mr_get_last_char_read m =
     (if mr_front m \<noteq> 0
      then do { b \<leftarrow> iload (mr_buf m) (mr_front m - 1); Some (s8 (uint b)) }
      else Some 0)"

definition mr_has_read_all :: "msg_recv \<Rightarrow> bool" where
  "mr_has_read_all m = (mr_back m = mr_front m)"

definition mr_read_byte :: "msg_recv \<Rightarrow> (int \<times> msg_recv) option" where
  "mr_read_byte m =
     (if mr_back m < mr_front m + 1 then Some (0, m\<lparr>mr_back := -1\<rparr>)
      else do {
        bs \<leftarrow> iload_block (mr_buf m) (mr_front m) 1;
        Some (s8 (le_val bs), m\<lparr>mr_front := s16 (mr_front m + 1)\<rparr>)
      })"

definition mr_read_short :: "msg_recv \<Rightarrow> (int \<times> msg_recv) option" where
  "mr_read_short m =
     (if mr_back m < mr_front m + 2 then Some (0, m\<lparr>mr_back := -1\<rparr>)
      else do {
        bs \<leftarrow> iload_block (mr_buf m) (mr_front m) 2;
        Some (s16 (be_val bs), m\<lparr>mr_front := s16 (mr_front m + 2)\<rparr>)
      })"

definition mr_read_int :: "msg_recv \<Rightarrow> (int \<times> msg_recv) option" where
  "mr_read_int m =
     (if mr_back m < mr_front m + 4 then Some (0, m\<lparr>mr_back := -1\<rparr>)
      else do {
        bs \<leftarrow> iload_block (mr_buf m) (mr_front m) 4;
        Some (s32 (be_val bs), m\<lparr>mr_front := s16 (mr_front m + 4)\<rparr>)
      })"

text \<open>The \<open>double\<close> zero is eight zero bytes.\<close>

definition mr_read_double :: "msg_recv \<Rightarrow> (bytes \<times> msg_recv) option" where
  "mr_read_double m =
     (if mr_back m < mr_front m + 8 then Some (replicate 8 0, m\<lparr>mr_back := -1\<rparr>)
      else do {
        bs \<leftarrow> iload_block (mr_buf m) (mr_front m) 8;
        Some (ntohll bs, m\<lparr>mr_front := s16 (mr_front m + 8)\<rparr>)
      })"

text \<open>The result is what is copied to \<open>str\<close>; its length is the value returned.\<close>

definition mr_read_string :: "int \<Rightarrow> msg_recv \<Rightarrow> (bytes \<times> msg_recv) option" where
  "mr_read_string len m =
     (if len < 0 then Some ([], m\<lparr>mr_back := -1\<rparr>)
      else if len < 0 \<or> mr_back m < mr_front m + len then Some ([], m\<lparr>mr_back := -1\<rparr>)
      else do {
        bs \<leftarrow> iload_block (mr_buf m) (mr_front m) len;
        Some (bs, m\<lparr>mr_front := s16 (mr_front m + len)\<rparr>)
      })"

text \<open>\<open>s_step\<close>, a static, is passed and returned.\<close>

definition mr_set_step :: "int \<Rightarrow> msg_recv \<Rightarrow> int \<times> msg_recv" where
  "mr_set_step s_step m = (s_step + 1, m\<lparr>mr_step := s_step + 1\<rparr>)"

definition mr_write_int :: "int \<Rightarrow> msg_recv \<Rightarrow> msg_recv option" where
  "mr_write_int n m =
     (if 512 < size_t_of (mr_back m + 4) then Some m
      else do {
        b \<leftarrow> istore_block (mr_buf m) (mr_back m) (be_bytes 4 n);
        Some (m\<lparr>mr_buf := b, mr_back := s16 (mr_back m + 4)\<rparr>)
      })"

section \<open>msg_send\<close>

record msg_send =
  ms_buf :: bytes
  ms_buf_len :: int
  ms_id :: int
  ms_fds :: "int list"
  ms_fds_len :: int
  ms_time :: int

text \<open>The position of \<open>get_last_char_write\<close> in \<open>buf\<close>.\<close>

definition ms_get_last_char_write :: "msg_send \<Rightarrow> int" where
  "ms_get_last_char_write m = ms_buf_len m - 1"

definition ms_push_fd :: "int \<Rightarrow> msg_send \<Rightarrow> msg_send option" where
  "ms_push_fd fd m =
     (if 2048 \<le> size_t_of (ms_fds_len m) then Some m
      else do {
        f \<leftarrow> istore (ms_fds m) (ms_fds_len m) (s16 fd);
        Some (m\<lparr>ms_fds := f, ms_fds_len := s16 (ms_fds_len m + 1)\<rparr>)
      })"

definition ms_write_byte :: "int \<Rightarrow> msg_send \<Rightarrow> msg_send option" where
  "ms_write_byte n m =
     (if 16384 < size_t_of (ms_buf_len m + 1) then Some m
      else do {
        b \<leftarrow> istore_block (ms_buf m) (ms_buf_len m) (le_bytes 1 n);
        Some (m\<lparr>ms_buf := b, ms_buf_len := s16 (ms_buf_len m + 1)\<rparr>)
      })"

definition ms_write_short :: "int \<Rightarrow> msg_send \<Rightarrow> msg_send option" where
  "ms_write_short n m =
     (if 16384 < size_t_of (ms_buf_len m + 2) then Some m
      else do {
        b \<leftarrow> istore_block (ms_buf m) (ms_buf_len m) (be_bytes 2 n);
        Some (m\<lparr>ms_buf := b, ms_buf_len := s16 (ms_buf_len m + 2)\<rparr>)
      })"

definition ms_write_double :: "bytes \<Rightarrow> msg_send \<Rightarrow> msg_send option" where
  "ms_write_double nn m =
     (if 16384 < size_t_of (ms_buf_len m + 8) then Some m
      else do {
        b \<leftarrow> istore_block (ms_buf m) (ms_buf_len m) (htonll nn);
        Some (m\<lparr>ms_buf := b, ms_buf_len := s16 (ms_buf_len m + 8)\<rparr>)
      })"

definition ms_write_int :: "int \<Rightarrow> msg_send \<Rightarrow> msg_send option" where
  "ms_write_int n m =
     (if 16384 < size_t_of (ms_buf_len m + 4) then Some m
      else do {
        b \<leftarrow> istore_block (ms_buf m) (ms_buf_len m) (be_bytes 4 n);
        Some (m\<lparr>ms_buf := b, ms_buf_len := s16 (ms_buf_len m + 4)\<rparr>)
      })"

text \<open>\<open>str\<close> is the object \<open>str\<close> points into; \<open>len\<close> bytes of it are copied.\<close>

definition ms_write_string :: "bytes \<Rightarrow> int \<Rightarrow> msg_send \<Rightarrow> msg_send option" where
  "ms_write_string str len m =
     (if 16384 < size_t_of (ms_buf_len m + len) then Some m
      else do {
        src \<leftarrow> iload_block str 0 len;
        b \<leftarrow> istore_block (ms_buf m) (ms_buf_len m) src;
        Some (m\<lparr>ms_buf := b, ms_buf_len := s16 (ms_buf_len m + len)\<rparr>)
      })"

section \<open>msg_admin, msg_http, msg_inner\<close>

record msg_admin =
  ma_buf :: bytes
  ma_buf_len :: int
  ma_fd :: int

definition ma_write_string :: "bytes \<Rightarrow> int \<Rightarrow> msg_admin \<Rightarrow> msg_admin option" where
  "ma_write_string str len m =
     (if 524288 < size_t_of (ma_buf_len m + len) then Some m
      else do {
        src \<leftarrow> iload_block str 0 len;
        b \<leftarrow> istore_block (ma_buf m) (ma_buf_len m) src;
        Some (m\<lparr>ma_buf := b, ma_buf_len := s32 (ma_buf_len m + len)\<rparr>)
      })"

record msg_http =
  mh_buf :: bytes
  mh_urlBuf :: bytes
  mh_buf_len :: int
  mh_url_buf_len :: int
  mh_fd :: int

definition mh_write_string :: "bytes \<Rightarrow> int \<Rightarrow> msg_http \<Rightarrow> msg_http option" where
  "mh_write_string str len m =
     (if 524288 < size_t_of (mh_buf_len m + len) then Some m
      else do {
        src \<leftarrow> iload_block str 0 len;
        b \<leftarrow> istore_block (mh_buf m) (mh_buf_len m) src;
        Some (m\<lparr>mh_buf := b, mh_buf_len := s32 (mh_buf_len m + len)\<rparr>)
      })"

definition mh_write_url_string :: "bytes \<Rightarrow> int \<Rightarrow> msg_http \<Rightarrow> msg_http option" where
  "mh_write_url_string str len m =
     (if 65536 < size_t_of (mh_url_buf_len m + len) then Some m
      else do {
        src \<leftarrow> iload_block str 0 len;
        b \<leftarrow> istore_block (mh_urlBuf m) (mh_url_buf_len m) src;
        Some (m\<lparr>mh_urlBuf := b, mh_url_buf_len := s32 (mh_url_buf_len m + len)\<rparr>)
      })"

text \<open>
  In \<open>msg_inner\<close> the length is unsigned: \<open>buf_len + len\<close> is computed modulo \<open>2 ^ 32\<close>,
  \<open>buf_len + sizeof(d)\<close> in \<open>size_t\<close>.
\<close>

record msg_inner =
  mi_buf :: bytes
  mi_buf_len :: int
  mi_fd :: int

definition mi_write_string :: "bytes \<Rightarrow> int \<Rightarrow> msg_inner \<Rightarrow> (bool \<times> msg_inner) option" where
  "mi_write_string str len m =
     (if 204800 < (mi_buf_len m + len) mod 4294967296 then Some (False, m)
      else do {
        src \<leftarrow> iload_block str 0 len;
        b \<leftarrow> istore_block (mi_buf m) (mi_buf_len m) src;
        Some (True, m\<lparr>mi_buf := b, mi_buf_len := (mi_buf_len m + len) mod 4294967296\<rparr>)
      })"

definition mi_write_int :: "int \<Rightarrow> msg_inner \<Rightarrow> (bool \<times> msg_inner) option" where
  "mi_write_int d m =
     (if 204800 < size_t_of (mi_buf_len m + 4) then Some (False, m)
      else do {
        b \<leftarrow> istore_block (mi_buf m) (mi_buf_len m) (le_bytes 4 d);
        Some (True, m\<lparr>mi_buf := b, mi_buf_len := (mi_buf_len m + 4) mod 4294967296\<rparr>)
      })"

section \<open>The contract of the writers\<close>

text \<open>
  Every writer appends the bytes of one item or, when they do not fit, leaves the
  message as it is (\<open>assert(0)\<close> is compiled out) and never touches memory outside
  the buffer. The locale holds this contract; each message interprets it.
\<close>

locale append_buffer =
  fixes image :: "'a \<Rightarrow> bytes"
    and valid :: "'a \<Rightarrow> bool"
    and capacity :: nat
    and content :: "'s \<Rightarrow> bytes"
    and invar :: "'s \<Rightarrow> bool"
    and put :: "'a \<Rightarrow> 's \<Rightarrow> 's option"
  assumes bound: "invar s \<Longrightarrow> length (content s) \<le> capacity"
    and put_fits: "invar s \<Longrightarrow> valid a \<Longrightarrow> length (content s) + length (image a) \<le> capacity \<Longrightarrow>
      \<exists>s'. put a s = Some s' \<and> invar s' \<and> content s' = content s @ image a"
    and put_drops: "invar s \<Longrightarrow> valid a \<Longrightarrow> capacity < length (content s) + length (image a) \<Longrightarrow>
      put a s = Some s"

fun put_all :: "('a \<Rightarrow> 's \<Rightarrow> 's option) \<Rightarrow> 'a list \<Rightarrow> 's \<Rightarrow> 's option" where
  "put_all put [] s = Some s"
| "put_all put (a # as) s = (case put a s of None \<Rightarrow> None | Some s' \<Rightarrow> put_all put as s')"

text \<open>The reference: the items that fit, in order, each dropped on its own.\<close>

fun fit_all :: "nat \<Rightarrow> bytes \<Rightarrow> bytes list \<Rightarrow> bytes" where
  "fit_all n acc [] = acc"
| "fit_all n acc (b # bs) = fit_all n (if length acc + length b \<le> n then acc @ b else acc) bs"

lemma fit_all_fits:
  "length acc + length (concat bs) \<le> n \<Longrightarrow> fit_all n acc bs = acc @ concat bs"
  by (induction bs arbitrary: acc) auto

lemma fit_all_bound: "length acc \<le> n \<Longrightarrow> length (fit_all n acc bs) \<le> n"
  by (induction bs arbitrary: acc) auto

context append_buffer
begin

lemma put_all_content:
  assumes "invar s" "\<forall>a \<in> set as. valid a"
  shows "\<exists>s'. put_all put as s = Some s' \<and> invar s' \<and>
    content s' = fit_all capacity (content s) (map image as)"
  using assms
proof (induction as arbitrary: s)
  case Nil
  then show ?case by simp
next
  case (Cons a as)
  show ?case
  proof (cases "length (content s) + length (image a) \<le> capacity")
    case True
    with put_fits [OF Cons.prems(1), of a] Cons.prems(2) obtain s1 where
      s1: "put a s = Some s1" "invar s1" "content s1 = content s @ image a" by auto
    with Cons.IH [of s1] Cons.prems True show ?thesis by auto
  next
    case False
    with Cons put_drops [of s a] show ?thesis by auto
  qed
qed

end

text \<open>The store that every writer makes.\<close>

lemma append_store:
  assumes "length buf = cap" "0 \<le> n" "n + int (length bs) \<le> int cap"
  shows "istore_block buf n bs = Some (blit buf (nat n) bs)"
    "length (blit buf (nat n) bs) = cap"
    "take (nat (n + int (length bs))) (blit buf (nat n) bs) = take (nat n) buf @ bs"
  using assms take_blit_all [of "nat n" buf bs]
  by (auto simp: mem_defs nat_add_distrib)

lemma load_whole: "n = int (length xs) \<Longrightarrow> iload_block xs 0 n = Some xs"
  by (simp add: mem_defs block_at_full)

named_theorems writer_defs \<open>the writers, unfolded\<close>

lemmas writers_unfold [writer_defs] =
  ms_write_byte_def ms_write_short_def ms_write_int_def ms_write_double_def ms_write_string_def
  ma_write_string_def mh_write_string_def mh_write_url_string_def mi_write_string_def mi_write_int_def

section \<open>Typed fields and msg_send\<close>

datatype field = F_byte int | F_short int | F_int int | F_double bytes | F_string bytes

fun field_valid :: "field \<Rightarrow> bool" where
  "field_valid (F_byte n) = (- 128 \<le> n \<and> n < 128)"
| "field_valid (F_short n) = (- 32768 \<le> n \<and> n < 32768)"
| "field_valid (F_int n) = (- 2147483648 \<le> n \<and> n < 2147483648)"
| "field_valid (F_double d) = (length d = 8)"
| "field_valid (F_string b) = (length b < 2 ^ 31)"

text \<open>The bytes on the wire.\<close>

fun field_bytes :: "field \<Rightarrow> bytes" where
  "field_bytes (F_byte n) = le_bytes 1 n"
| "field_bytes (F_short n) = be_bytes 2 n"
| "field_bytes (F_int n) = be_bytes 4 n"
| "field_bytes (F_double d) = htonll d"
| "field_bytes (F_string b) = b"

fun ms_write_field :: "field \<Rightarrow> msg_send \<Rightarrow> msg_send option" where
  "ms_write_field (F_byte n) = ms_write_byte n"
| "ms_write_field (F_short n) = ms_write_short n"
| "ms_write_field (F_int n) = ms_write_int n"
| "ms_write_field (F_double d) = ms_write_double d"
| "ms_write_field (F_string b) = ms_write_string b (int (length b))"

definition ms_ok :: "msg_send \<Rightarrow> bool" where
  "ms_ok m \<longleftrightarrow> length (ms_buf m) = 16384 \<and> 0 \<le> ms_buf_len m \<and> ms_buf_len m \<le> 16384"

definition ms_content :: "msg_send \<Rightarrow> bytes" where
  "ms_content m = take (nat (ms_buf_len m)) (ms_buf m)"

definition ms_append :: "bytes \<Rightarrow> msg_send \<Rightarrow> msg_send" where
  "ms_append bs m = m\<lparr>ms_buf := blit (ms_buf m) (nat (ms_buf_len m)) bs,
                      ms_buf_len := ms_buf_len m + int (length bs)\<rparr>"

lemma length_htonll [simp]: "length (htonll d) = length d"
  by (simp add: htonll_def cvt_def swap_bytes_def Let_def)

lemma length_ms_content: "ms_ok m \<Longrightarrow> length (ms_content m) = nat (ms_buf_len m)"
  by (simp add: ms_ok_def ms_content_def min_def) arith

lemma ms_append_ok:
  assumes "ms_ok m" "ms_buf_len m + int (length bs) \<le> 16384"
  shows "ms_ok (ms_append bs m)" "ms_content (ms_append bs m) = ms_content m @ bs"
    "istore_block (ms_buf m) (ms_buf_len m) bs = Some (ms_buf (ms_append bs m))"
proof -
  have a: "length (ms_buf m) = 16384" "0 \<le> ms_buf_len m" "ms_buf_len m + int (length bs) \<le> int 16384"
    using assms by (simp_all add: ms_ok_def)
  show "ms_ok (ms_append bs m)"
    using append_store(2) [OF a] a by (simp add: ms_ok_def ms_append_def)
  show "ms_content (ms_append bs m) = ms_content m @ bs"
    using append_store(3) [OF a] by (simp add: ms_content_def ms_append_def)
  show "istore_block (ms_buf m) (ms_buf_len m) bs = Some (ms_buf (ms_append bs m))"
    using append_store(1) [OF a] by (simp add: ms_append_def)
qed

lemma ms_write_field_fits:
  assumes "ms_ok m" "field_valid f" "ms_buf_len m + int (length (field_bytes f)) \<le> 16384"
  shows "ms_write_field f m = Some (ms_append (field_bytes f) m)"
  using assms ms_append_ok(3) [OF assms(1,3)]
  by (cases f) (auto simp: writer_defs ms_append_def load_whole ms_ok_def)

lemma ms_write_field_drops:
  assumes "ms_ok m" "field_valid f" "16384 < ms_buf_len m + int (length (field_bytes f))"
  shows "ms_write_field f m = Some m"
  using assms by (cases f) (auto simp: writer_defs ms_ok_def)

interpretation ms: append_buffer field_bytes field_valid 16384 ms_content ms_ok ms_write_field
proof
  fix m f
  assume ok: "ms_ok m"
  show "length (ms_content m) \<le> 16384"
    using ok length_ms_content [OF ok] by (auto simp: ms_ok_def)
  have n: "int (length (ms_content m)) = ms_buf_len m"
    using ok length_ms_content [OF ok] by (simp add: ms_ok_def)
  show "field_valid f \<Longrightarrow> length (ms_content m) + length (field_bytes f) \<le> 16384 \<Longrightarrow>
      \<exists>m'. ms_write_field f m = Some m' \<and> ms_ok m' \<and> ms_content m' = ms_content m @ field_bytes f"
    using ms_write_field_fits [OF ok, of f] ms_append_ok [OF ok, of "field_bytes f"] n by auto
  show "field_valid f \<Longrightarrow> 16384 < length (ms_content m) + length (field_bytes f) \<Longrightarrow>
      ms_write_field f m = Some m"
    using ms_write_field_drops [OF ok, of f] n by auto
qed

section \<open>The other messages\<close>

text \<open>
  One lemma for the string writers: a buffer of \<open>cap\<close> bytes with \<open>n\<close> in use.
\<close>

definition buf_ok :: "nat \<Rightarrow> bytes \<Rightarrow> int \<Rightarrow> bool" where
  "buf_ok cap buf n \<longleftrightarrow> length buf = cap \<and> 0 \<le> n \<and> n \<le> int cap"

definition str_valid :: "bytes \<Rightarrow> bool" where
  "str_valid b \<longleftrightarrow> length b < 2 ^ 31"

lemma buf_ok_append:
  assumes "buf_ok cap buf n" "n + int (length bs) \<le> int cap"
  shows "\<exists>b. istore_block buf n bs = Some b \<and> buf_ok cap b (n + int (length bs)) \<and>
    take (nat (n + int (length bs))) b = take (nat n) buf @ bs"
proof -
  have a: "length buf = cap" "0 \<le> n" "n + int (length bs) \<le> int cap"
    using assms by (simp_all add: buf_ok_def)
  from append_store [OF a] a show ?thesis by (auto simp: buf_ok_def)
qed

lemma buf_ok_length: "buf_ok cap buf n \<Longrightarrow> int (length (take (nat n) buf)) = n"
  by (auto simp: buf_ok_def min_def)

definition ma_content :: "msg_admin \<Rightarrow> bytes" where
  "ma_content m = take (nat (ma_buf_len m)) (ma_buf m)"

definition ma_ok :: "msg_admin \<Rightarrow> bool" where
  "ma_ok m \<longleftrightarrow> buf_ok 524288 (ma_buf m) (ma_buf_len m)"

interpretation ma: append_buffer "\<lambda>b. b" str_valid 524288 ma_content ma_ok
  "\<lambda>b. ma_write_string b (int (length b))"
proof
  fix m and b :: bytes
  assume "ma_ok m"
  then have ok: "buf_ok 524288 (ma_buf m) (ma_buf_len m)" by (simp add: ma_ok_def)
  then have r: "0 \<le> ma_buf_len m" "ma_buf_len m \<le> 524288" by (auto simp: buf_ok_def)
  have n: "int (length (ma_content m)) = ma_buf_len m"
    unfolding ma_content_def by (rule buf_ok_length [OF ok])
  then show "length (ma_content m) \<le> 524288" using r by simp
  assume v: "str_valid b"
  show "length (ma_content m) + length b \<le> 524288 \<Longrightarrow>
      \<exists>m'. ma_write_string b (int (length b)) m = Some m' \<and> ma_ok m' \<and> ma_content m' = ma_content m @ b"
    using buf_ok_append [OF ok, of b] n r
    by (auto simp: writer_defs ma_ok_def ma_content_def load_whole)
  show "524288 < length (ma_content m) + length b \<Longrightarrow> ma_write_string b (int (length b)) m = Some m"
    using n r v by (auto simp: writer_defs str_valid_def)
qed

definition mh_content :: "msg_http \<Rightarrow> bytes" where
  "mh_content m = take (nat (mh_buf_len m)) (mh_buf m)"

definition mh_url :: "msg_http \<Rightarrow> bytes" where
  "mh_url m = take (nat (mh_url_buf_len m)) (mh_urlBuf m)"

definition mh_ok :: "msg_http \<Rightarrow> bool" where
  "mh_ok m \<longleftrightarrow> buf_ok 524288 (mh_buf m) (mh_buf_len m) \<and> buf_ok 65536 (mh_urlBuf m) (mh_url_buf_len m)"

text \<open>Either buffer is written without a change to the other.\<close>

datatype http_item = H_body bytes | H_url bytes

fun mh_write :: "http_item \<Rightarrow> msg_http \<Rightarrow> msg_http option" where
  "mh_write (H_body b) m = mh_write_string b (int (length b)) m"
| "mh_write (H_url b) m = mh_write_url_string b (int (length b)) m"

interpretation mh: append_buffer "\<lambda>b. b" str_valid 524288 mh_content mh_ok
  "\<lambda>b. mh_write (H_body b)"
proof
  fix m and b :: bytes
  assume mok: "mh_ok m"
  then have ok: "buf_ok 524288 (mh_buf m) (mh_buf_len m)" by (simp add: mh_ok_def)
  then have r: "0 \<le> mh_buf_len m" "mh_buf_len m \<le> 524288" by (auto simp: buf_ok_def)
  have n: "int (length (mh_content m)) = mh_buf_len m"
    unfolding mh_content_def by (rule buf_ok_length [OF ok])
  then show "length (mh_content m) \<le> 524288" using r by simp
  assume v: "str_valid b"
  show "length (mh_content m) + length b \<le> 524288 \<Longrightarrow>
      \<exists>m'. mh_write (H_body b) m = Some m' \<and> mh_ok m' \<and> mh_content m' = mh_content m @ b"
    using buf_ok_append [OF ok, of b] n r mok
    by (auto simp: writer_defs mh_ok_def mh_content_def load_whole)
  show "524288 < length (mh_content m) + length b \<Longrightarrow> mh_write (H_body b) m = Some m"
    using n r v by (auto simp: writer_defs str_valid_def)
qed

interpretation mhu: append_buffer "\<lambda>b. b" str_valid 65536 mh_url mh_ok
  "\<lambda>b. mh_write (H_url b)"
proof
  fix m and b :: bytes
  assume mok: "mh_ok m"
  then have ok: "buf_ok 65536 (mh_urlBuf m) (mh_url_buf_len m)" by (simp add: mh_ok_def)
  then have r: "0 \<le> mh_url_buf_len m" "mh_url_buf_len m \<le> 65536" by (auto simp: buf_ok_def)
  have n: "int (length (mh_url m)) = mh_url_buf_len m"
    unfolding mh_url_def by (rule buf_ok_length [OF ok])
  then show "length (mh_url m) \<le> 65536" using r by simp
  assume v: "str_valid b"
  show "length (mh_url m) + length b \<le> 65536 \<Longrightarrow>
      \<exists>m'. mh_write (H_url b) m = Some m' \<and> mh_ok m' \<and> mh_url m' = mh_url m @ b"
    using buf_ok_append [OF ok, of b] n r mok
    by (auto simp: writer_defs mh_ok_def mh_url_def load_whole)
  show "65536 < length (mh_url m) + length b \<Longrightarrow> mh_write (H_url b) m = Some m"
    using n r v by (auto simp: writer_defs str_valid_def)
qed

lemma ex_true: "\<exists>a. a"
  by (rule exI [of _ True]) simp

datatype inner_item = I_str bytes | I_int int

fun inner_bytes :: "inner_item \<Rightarrow> bytes" where
  "inner_bytes (I_str b) = b"
| "inner_bytes (I_int d) = le_bytes 4 d"

fun inner_valid :: "inner_item \<Rightarrow> bool" where
  "inner_valid (I_str b) = str_valid b"
| "inner_valid (I_int d) = True"

fun mi_write :: "inner_item \<Rightarrow> msg_inner \<Rightarrow> (bool \<times> msg_inner) option" where
  "mi_write (I_str b) m = mi_write_string b (int (length b)) m"
| "mi_write (I_int d) m = mi_write_int d m"

definition mi_content :: "msg_inner \<Rightarrow> bytes" where
  "mi_content m = take (nat (mi_buf_len m)) (mi_buf m)"

definition mi_ok :: "msg_inner \<Rightarrow> bool" where
  "mi_ok m \<longleftrightarrow> buf_ok 204800 (mi_buf m) (mi_buf_len m)"

interpretation mi: append_buffer inner_bytes inner_valid 204800 mi_content mi_ok
  "\<lambda>i m. map_option snd (mi_write i m)"
proof
  fix m i
  assume "mi_ok m"
  then have ok: "buf_ok 204800 (mi_buf m) (mi_buf_len m)" by (simp add: mi_ok_def)
  then have r: "0 \<le> mi_buf_len m" "mi_buf_len m \<le> 204800" by (auto simp: buf_ok_def)
  have n: "int (length (mi_content m)) = mi_buf_len m"
    unfolding mi_content_def by (rule buf_ok_length [OF ok])
  then show "length (mi_content m) \<le> 204800" using r by simp
  assume v: "inner_valid i"
  show "length (mi_content m) + length (inner_bytes i) \<le> 204800 \<Longrightarrow>
      \<exists>m'. map_option snd (mi_write i m) = Some m' \<and> mi_ok m' \<and> mi_content m' = mi_content m @ inner_bytes i"
    using buf_ok_append [OF ok, of "inner_bytes i"] n r
    by (cases i) (auto simp: writer_defs mi_ok_def mi_content_def load_whole ex_true)
  show "204800 < length (mi_content m) + length (inner_bytes i) \<Longrightarrow> map_option snd (mi_write i m) = Some m"
    using n r v by (cases i) (auto simp: writer_defs str_valid_def)
qed

section \<open>Reading\<close>

text \<open>
  A reader either consumes exactly its bytes or fails and sets \<open>back\<close> to \<open>-1\<close>.
  \<open>mr_rest\<close> is what is left to read.
\<close>

definition mr_ok :: "msg_recv \<Rightarrow> bool" where
  "mr_ok m \<longleftrightarrow> length (mr_buf m) = 512 \<and> 0 \<le> mr_front m \<and> mr_front m \<le> 512 \<and>
     (mr_back m = -1 \<or> mr_front m \<le> mr_back m \<and> mr_back m \<le> 512)"

definition mr_rest :: "msg_recv \<Rightarrow> bytes" where
  "mr_rest m = block_at (nat (mr_front m)) (nat (mr_back m - mr_front m)) (mr_buf m)"

datatype shape = S_byte | S_short | S_int | S_double | S_string int

fun mr_read_field :: "shape \<Rightarrow> msg_recv \<Rightarrow> (field \<times> msg_recv) option" where
  "mr_read_field S_byte m = map_option (apfst F_byte) (mr_read_byte m)"
| "mr_read_field S_short m = map_option (apfst F_short) (mr_read_short m)"
| "mr_read_field S_int m = map_option (apfst F_int) (mr_read_int m)"
| "mr_read_field S_double m = map_option (apfst F_double) (mr_read_double m)"
| "mr_read_field (S_string n) m = map_option (apfst F_string) (mr_read_string n m)"

fun shape_of :: "field \<Rightarrow> shape" where
  "shape_of (F_byte n) = S_byte"
| "shape_of (F_short n) = S_short"
| "shape_of (F_int n) = S_int"
| "shape_of (F_double d) = S_double"
| "shape_of (F_string b) = S_string (int (length b))"

fun shape_size :: "shape \<Rightarrow> int" where
  "shape_size S_byte = 1"
| "shape_size S_short = 2"
| "shape_size S_int = 4"
| "shape_size S_double = 8"
| "shape_size (S_string n) = n"

text \<open>What a successful read makes of the bytes, and what a failed one returns.\<close>

fun field_of :: "shape \<Rightarrow> bytes \<Rightarrow> field" where
  "field_of S_byte bs = F_byte (s8 (le_val bs))"
| "field_of S_short bs = F_short (s16 (be_val bs))"
| "field_of S_int bs = F_int (s32 (be_val bs))"
| "field_of S_double bs = F_double (ntohll bs)"
| "field_of (S_string n) bs = F_string bs"

fun field_zero :: "shape \<Rightarrow> field" where
  "field_zero S_byte = F_byte 0"
| "field_zero S_short = F_short 0"
| "field_zero S_int = F_int 0"
| "field_zero S_double = F_double (replicate 8 0)"
| "field_zero (S_string n) = F_string []"

definition mr_step_over :: "int \<Rightarrow> msg_recv \<Rightarrow> msg_recv" where
  "mr_step_over k m = m\<lparr>mr_front := mr_front m + k\<rparr>"

named_theorems reader_defs \<open>the readers, unfolded\<close>

lemmas readers_unfold [reader_defs] =
  mr_read_byte_def mr_read_short_def mr_read_int_def mr_read_double_def mr_read_string_def

lemma mr_read_field_fails:
  "shape_size t < 0 \<or> mr_back m < mr_front m + shape_size t \<Longrightarrow>
    mr_read_field t m = Some (field_zero t, m\<lparr>mr_back := -1\<rparr>)"
  by (cases t) (auto simp: reader_defs)

lemma mr_read_field_reads:
  assumes "mr_ok m" "0 \<le> shape_size t" "mr_front m + shape_size t \<le> mr_back m"
  shows "mr_read_field t m =
    Some (field_of t (take (nat (shape_size t)) (mr_rest m)), mr_step_over (shape_size t) m)"
proof -
  let ?k = "nat (shape_size t)" and ?f = "nat (mr_front m)"
  have r: "length (mr_buf m) = 512" "0 \<le> mr_front m" "mr_back m \<le> 512"
    "?f + ?k \<le> 512" "?k \<le> nat (mr_back m - mr_front m)"
    using assms by (auto simp: mr_ok_def nat_le_iff)
  have s: "s16 (mr_front m + shape_size t) = mr_front m + shape_size t"
    using assms by (auto simp: mr_ok_def)
  have tk: "take ?k (mr_rest m) = block_at ?f ?k (mr_buf m)"
    using r by (simp add: mr_rest_def block_at_def min_absorb1)
  have ld: "iload_block (mr_buf m) (mr_front m) (shape_size t) = Some (block_at ?f ?k (mr_buf m))"
    using r assms(2) by (simp add: mem_defs)
  show ?thesis
    using assms(2,3) ld s unfolding tk by (cases t) (simp_all add: reader_defs mr_step_over_def)
qed

lemma mr_step_over_rest:
  assumes "mr_ok m" "0 \<le> k" "mr_front m + k \<le> mr_back m"
  shows "mr_ok (mr_step_over k m)" "mr_rest (mr_step_over k m) = drop (nat k) (mr_rest m)"
proof -
  show "mr_ok (mr_step_over k m)" using assms by (auto simp: mr_ok_def mr_step_over_def)
  have "nat (mr_back m - mr_front m) - nat k = nat (mr_back m - (mr_front m + k))"
    "nat (mr_front m + k) = nat k + nat (mr_front m)"
    using assms by (auto simp: mr_ok_def)
  then show "mr_rest (mr_step_over k m) = drop (nat k) (mr_rest m)"
    by (simp add: mr_rest_def mr_step_over_def block_at_def drop_take)
qed

lemma mr_rest_length: "mr_ok m \<Longrightarrow> length (mr_rest m) = nat (mr_back m - mr_front m)"
  by (auto simp: mr_ok_def mr_rest_def)

lemma mr_fail_ok: "mr_ok m \<Longrightarrow> mr_ok (m\<lparr>mr_back := -1\<rparr>)"
  by (simp add: mr_ok_def)

lemma mr_read_field_cases:
  assumes "mr_ok m"
  obtains (fail) "mr_read_field t m = Some (field_zero t, m\<lparr>mr_back := -1\<rparr>)" "mr_ok (m\<lparr>mr_back := -1\<rparr>)"
  | (read) "0 \<le> shape_size t" "mr_front m + shape_size t \<le> mr_back m" "mr_ok (mr_step_over (shape_size t) m)"
      "mr_read_field t m =
        Some (field_of t (take (nat (shape_size t)) (mr_rest m)), mr_step_over (shape_size t) m)"
  using mr_read_field_fails [of t m] mr_fail_ok [OF assms] mr_read_field_reads [OF assms, of t]
    mr_step_over_rest(1) [OF assms, of "shape_size t"]
  by (cases "shape_size t < 0 \<or> mr_back m < mr_front m + shape_size t") auto

lemma field_of_bytes: "field_valid f \<Longrightarrow> field_of (shape_of f) (field_bytes f) = f"
  by (cases f) (auto simp: s16_be_bytes s32_be_bytes uint_byte_mod s8_def signed_take_bit_mod_pow
      [of 8 7, simplified] signed_take_bit_id [of 7, simplified])

lemma shape_size_of: "field_valid f \<Longrightarrow> shape_size (shape_of f) = int (length (field_bytes f))"
  by (cases f) auto

fun mr_read_all :: "shape list \<Rightarrow> msg_recv \<Rightarrow> (field list \<times> msg_recv) option" where
  "mr_read_all [] m = Some ([], m)"
| "mr_read_all (t # ts) m = (case mr_read_field t m of None \<Rightarrow> None
     | Some (f, m') \<Rightarrow> map_option (apfst (Cons f)) (mr_read_all ts m'))"

lemma mr_read_all_fields:
  assumes "mr_ok m" "0 \<le> mr_back m" "\<forall>f \<in> set fs. field_valid f"
    "mr_rest m = concat (map field_bytes fs) @ r"
  shows "\<exists>m'. mr_read_all (map shape_of fs) m = Some (fs, m') \<and> mr_ok m' \<and> mr_rest m' = r \<and>
    mr_back m' = mr_back m"
  using assms
proof (induction fs arbitrary: m)
  case Nil
  then show ?case by simp
next
  case (Cons f fs)
  let ?k = "shape_size (shape_of f)"
  let ?m = "mr_step_over ?k m"
  have k: "?k = int (length (field_bytes f))" using Cons.prems shape_size_of by simp
  have "length (field_bytes f) \<le> nat (mr_back m - mr_front m)"
    using Cons.prems mr_rest_length [OF Cons.prems(1)] by simp
  with Cons.prems(1,2) have le: "mr_front m + ?k \<le> mr_back m" unfolding k by (auto simp: mr_ok_def)
  have rd: "mr_read_field (shape_of f) m = Some (f, ?m)"
    using mr_read_field_reads [OF Cons.prems(1) _ le] Cons.prems k field_of_bytes [of f] by simp
  have st: "mr_ok ?m" "mr_rest ?m = concat (map field_bytes fs) @ r" "mr_back ?m = mr_back m"
    using mr_step_over_rest [OF Cons.prems(1) _ le] Cons.prems k by (simp_all add: mr_step_over_def)
  with Cons.IH [of ?m] Cons.prems rd show ?case by auto
qed

text \<open>A failure stays: no later read succeeds and the message is never fully read.\<close>

definition mr_failed :: "msg_recv \<Rightarrow> bool" where
  "mr_failed m \<longleftrightarrow> mr_ok m \<and> mr_back m = -1"

lemma mr_failed_not_all: "mr_failed m \<Longrightarrow> \<not> mr_has_read_all m"
  by (simp add: mr_failed_def mr_ok_def mr_has_read_all_def)

lemma mr_failed_read:
  assumes "mr_failed m"
  shows "mr_read_field t m = Some (field_zero t, m)"
proof -
  have "shape_size t < 0 \<or> mr_back m < mr_front m + shape_size t"
    using assms by (cases t) (auto simp: mr_failed_def mr_ok_def)
  with mr_read_field_fails [of t m] assms show ?thesis by (simp add: mr_failed_def)
qed

lemma mr_read_all_failed:
  "mr_failed m \<Longrightarrow> mr_read_all ts m = Some (map field_zero ts, m)"
  by (induction ts) (simp_all add: mr_failed_read)

lemma mr_read_all_covers:
  assumes "mr_ok m" "0 \<le> mr_back m"
  shows "\<exists>fs m'. mr_read_all ts m = Some (fs, m') \<and> mr_ok m' \<and>
    (mr_has_read_all m' \<longleftrightarrow> (\<forall>t \<in> set ts. 0 \<le> shape_size t) \<and>
       sum_list (map shape_size ts) = int (length (mr_rest m)))"
  using assms
proof (induction ts arbitrary: m)
  case Nil
  then show ?case by (auto simp: mr_has_read_all_def mr_rest_length mr_ok_def)
next
  case (Cons t ts)
  have len: "int (length (mr_rest m)) = mr_back m - mr_front m"
    using Cons.prems by (auto simp: mr_rest_length mr_ok_def)
  from Cons.prems(1) show ?case
  proof (cases rule: mr_read_field_cases [of m t])
    case fail
    have bad: "shape_size t < 0 \<or> mr_back m < mr_front m + shape_size t"
    proof (rule ccontr)
      assume "\<not> ?thesis"
      with mr_read_field_reads [OF Cons.prems(1), of t] fail(1)
      have e: "m\<lparr>mr_back := -1\<rparr> = mr_step_over (shape_size t) m" by simp
      from arg_cong [OF e, of mr_back] Cons.prems(2) show False by (simp add: mr_step_over_def)
    qed
    have f: "mr_failed (m\<lparr>mr_back := -1\<rparr>)" using fail(2) by (simp add: mr_failed_def)
    have "\<not> ((\<forall>u \<in> set (t # ts). 0 \<le> shape_size u) \<and>
        sum_list (map shape_size (t # ts)) = int (length (mr_rest m)))"
    proof
      assume a: "(\<forall>u \<in> set (t # ts). 0 \<le> shape_size u) \<and>
        sum_list (map shape_size (t # ts)) = int (length (mr_rest m))"
      then have "0 \<le> sum_list (map shape_size ts)" by (intro sum_list_nonneg) auto
      with a bad len show False by auto
    qed
    with fail f mr_failed_not_all [OF f] show ?thesis by (auto simp: mr_read_all_failed)
  next
    case read
    let ?m = "mr_step_over (shape_size t) m"
    have "mr_rest ?m = drop (nat (shape_size t)) (mr_rest m)"
      using mr_step_over_rest(2) [OF Cons.prems(1) read(1,2)] .
    then have l: "int (length (mr_rest ?m)) = int (length (mr_rest m)) - shape_size t"
      using read(1,2) len by simp
    have "0 \<le> mr_back ?m" using Cons.prems(2) by (simp add: mr_step_over_def)
    from Cons.IH [OF read(3) this] obtain fs m' where
      "mr_read_all ts ?m = Some (fs, m')" "mr_ok m'"
      "mr_has_read_all m' \<longleftrightarrow> (\<forall>t \<in> set ts. 0 \<le> shape_size t) \<and>
         sum_list (map shape_size ts) = int (length (mr_rest ?m))" by blast
    with read l show ?thesis by auto
  qed
qed

section \<open>Properties\<close>

definition ms_fresh :: "bytes \<Rightarrow> int list \<Rightarrow> msg_send" where
  "ms_fresh junk fds = \<lparr>ms_buf = junk, ms_buf_len = 0, ms_id = 0, ms_fds = fds, ms_fds_len = 0, ms_time = 0\<rparr>"

definition mr_of :: "bytes \<Rightarrow> bytes \<Rightarrow> msg_recv" where
  "mr_of bs junk = \<lparr>mr_buf = bs @ drop (length bs) junk, mr_back = int (length bs), mr_front = 0,
     mr_id = 0, mr_fd = 0, mr_step = 0\<rparr>"

lemma ms_fresh_ok: "length junk = 16384 \<Longrightarrow> ms_ok (ms_fresh junk fds)"
  by (simp add: ms_ok_def ms_fresh_def)

lemma ms_fresh_content [simp]: "ms_content (ms_fresh junk fds) = []"
  by (simp add: ms_content_def ms_fresh_def)

lemma mr_of_ok: "length junk = 512 \<Longrightarrow> length bs \<le> 512 \<Longrightarrow> mr_ok (mr_of bs junk)"
  by (simp add: mr_ok_def mr_of_def)

lemma mr_of_rest: "mr_rest (mr_of bs junk) = bs"
  by (simp add: mr_rest_def mr_of_def block_at_def)

text \<open>
  C34. Fields written to a fresh \<open>msg_send\<close> and read back, in the same order and
  with the same types, from a \<open>msg_recv\<close> that holds its bytes are the fields
  written, and the message is then read to its end. It holds for every list of
  fields that fits the 512 bytes of \<open>msg_recv\<close>, and for any previous contents of
  the two buffers.
\<close>

theorem msg_fields_roundtrip:
  assumes "length junk = 16384" "length junk' = 512" "\<forall>f \<in> set fs. field_valid f"
    "length (concat (map field_bytes fs)) \<le> 512"
  shows "\<exists>m r. put_all ms_write_field fs (ms_fresh junk fds) = Some m \<and>
    mr_read_all (map shape_of fs) (mr_of (ms_content m) junk') = Some (fs, r) \<and> mr_has_read_all r"
proof -
  from ms.put_all_content [OF ms_fresh_ok [OF assms(1)] assms(3)] obtain m where
    m: "put_all ms_write_field fs (ms_fresh junk fds) = Some m"
    "ms_content m = fit_all 16384 [] (map field_bytes fs)" by auto
  with assms(4) have c: "ms_content m = concat (map field_bytes fs)" by (simp add: fit_all_fits)
  let ?r = "mr_of (ms_content m) junk'"
  have "mr_ok ?r" "0 \<le> mr_back ?r" using mr_of_ok assms(2,4) c by (simp_all add: mr_of_def)
  from mr_read_all_fields [OF this assms(3), of "[]"] c obtain r where
    r: "mr_read_all (map shape_of fs) ?r = Some (fs, r)" "mr_ok r" "mr_rest r = []"
    "mr_back r = mr_back ?r" by (auto simp: mr_of_rest)
  then have "nat (mr_back r - mr_front r) = 0" using mr_rest_length [of r] by simp
  with r have "mr_has_read_all r" by (auto simp: mr_has_read_all_def mr_ok_def mr_of_def)
  with m r show ?thesis by blast
qed

theorem msg_fields_roundtrip_witness:
  "\<exists>m r. put_all ms_write_field [F_short (-2), F_string [65, 66], F_int 70000]
      (ms_fresh (replicate 16384 0) []) = Some m \<and>
    mr_read_all [S_short, S_string 2, S_int] (mr_of (ms_content m) (replicate 512 0)) =
      Some ([F_short (-2), F_string [65, 66], F_int 70000], r) \<and> mr_has_read_all r"
  using msg_fields_roundtrip [of "replicate 16384 0" "replicate 512 0"
      "[F_short (-2), F_string [65, 66], F_int 70000]" "[]"] by simp

text \<open>
  Reading a message with any list of readers never leaves the buffer, and
  \<open>has_read_all\<close> holds at the end exactly when no length was negative and the sizes
  read add up to the length received. So one short or failed read makes the whole
  message be reported as not read, whatever is read after it.
\<close>

theorem msg_recv_read_all_iff:
  assumes "length junk = 512" "length bs \<le> 512"
  shows "\<exists>fs r. mr_read_all ts (mr_of bs junk) = Some (fs, r) \<and>
    (mr_has_read_all r \<longleftrightarrow> (\<forall>t \<in> set ts. 0 \<le> shape_size t) \<and>
       sum_list (map shape_size ts) = int (length bs))"
proof -
  have "0 \<le> mr_back (mr_of bs junk)" by (simp add: mr_of_def)
  from mr_read_all_covers [OF mr_of_ok [OF assms] this, of ts] show ?thesis
    by (auto simp: mr_of_rest)
qed

theorem msg_recv_read_all_iff_witness:
  "\<exists>fs r. mr_read_all [S_short, S_int, S_string (-1)] (mr_of [1, 2, 3, 4, 5] (replicate 512 0)) = Some (fs, r) \<and>
    \<not> mr_has_read_all r"
  using msg_recv_read_all_iff [of "replicate 512 0" "[1, 2, 3, 4, 5]" "[S_short, S_int, S_string (-1)]"]
  by auto

text \<open>
  Whatever is written to a fresh \<open>msg_send\<close>, no write leaves the 16384 bytes of
  its buffer, and the message is the concatenation of the fields that fitted at
  their turn: a field that does not fit is dropped whole and silently, and the
  following ones are still written.
\<close>

theorem msg_send_writes_bounded:
  assumes "length junk = 16384" "\<forall>f \<in> set fs. field_valid f"
  shows "\<exists>m. put_all ms_write_field fs (ms_fresh junk fds) = Some m \<and>
    length (ms_buf m) = 16384 \<and> 0 \<le> ms_buf_len m \<and> ms_buf_len m \<le> 16384 \<and>
    ms_content m = fit_all 16384 [] (map field_bytes fs)"
  using ms.put_all_content [OF ms_fresh_ok [OF assms(1)] assms(2)] by (auto simp: ms_ok_def)

theorem msg_send_writes_bounded_witness:
  "\<exists>m. put_all ms_write_field [F_string (replicate 16380 7), F_double (replicate 8 1), F_short 3]
      (ms_fresh (replicate 16384 0) []) = Some m \<and> ms_content m = replicate 16380 7 @ [0, 3]"
proof -
  have e: "be_bytes 2 3 = [0, 3]" by (simp add: be_bytes_def numeral_2_eq_2)
  from msg_send_writes_bounded [of "replicate 16384 0"
      "[F_string (replicate 16380 7), F_double (replicate 8 1), F_short 3]" "[]"]
  show ?thesis unfolding e by (auto simp: e)
qed

text \<open>
  The same for \<open>msg_inner\<close>, whose length is unsigned: its sum never wraps, and
  the message is the items that fitted the 204800 bytes, in order.
\<close>

theorem msg_inner_writes_bounded:
  assumes "length junk = 204800" "\<forall>i \<in> set is. inner_valid i"
  shows "\<exists>m. put_all (\<lambda>i m. map_option snd (mi_write i m)) is
      \<lparr>mi_buf = junk, mi_buf_len = 0, mi_fd = fd\<rparr> = Some m \<and>
    length (mi_buf m) = 204800 \<and> 0 \<le> mi_buf_len m \<and> mi_buf_len m \<le> 204800 \<and>
    mi_content m = fit_all 204800 [] (map inner_bytes is)"
proof -
  let ?m = "\<lparr>mi_buf = junk, mi_buf_len = 0, mi_fd = fd\<rparr>"
  have "mi_ok ?m" "mi_content ?m = []"
    using assms(1) by (simp_all add: mi_ok_def buf_ok_def mi_content_def)
  with mi.put_all_content [of ?m "is"] assms(2) show ?thesis
    by (auto simp: mi_ok_def buf_ok_def)
qed

theorem msg_inner_writes_bounded_witness:
  "\<exists>m. put_all (\<lambda>i m. map_option snd (mi_write i m)) [I_int 258, I_str [9]]
      \<lparr>mi_buf = replicate 204800 0, mi_buf_len = 0, mi_fd = 4\<rparr> = Some m \<and>
    mi_content m = [2, 1, 0, 0, 9]"
proof -
  have e: "le_bytes 4 258 = [2, 1, 0, 0]" by (simp add: le_bytes_4)
  from msg_inner_writes_bounded [of "replicate 204800 0" "[I_int 258, I_str [9]]" 4]
  show ?thesis by (auto simp: str_valid_def e)
qed

end
