(* ===== verification/Lz77.thy ===== *)
theory Lz77
  imports Prelude
begin

text \<open>
  The compressor of the packets to the clients (\<open>logic/lz77.h\<close>). \<open>out\<close> is the list
  of the bytes written so far, \<open>out_cap\<close> its limit; the result is the value returned
  and the bytes written. The reads of \<open>unzip\<close>, whose input comes from outside, are
  checked: \<open>None\<close> is a read outside a buffer.
\<close>

definition sp :: byte where
  "sp = 124"

section \<open>zip\<close>

text \<open>
  The \<open>k\<close> loop: the length at which the match with distance \<open>i - j\<close> breaks, and
  \<open>None\<close> when 258 bytes agree, in which case the loop records nothing.
\<close>

function zip_k :: "bytes \<Rightarrow> nat \<Rightarrow> nat \<Rightarrow> nat \<Rightarrow> nat option" where
  "zip_k inp i j k =
     (if k < 258
      then (if length inp \<le> i + k \<or> inp ! (i + k) \<noteq> inp ! (j + k) then Some k
            else zip_k inp i j (k + 1))
      else None)"
  by pat_completeness auto
termination by (relation "measure (\<lambda>(inp, i, j, k). 258 - k)") auto

declare zip_k.simps [simp del]

text \<open>The \<open>j\<close> loop from \<open>i - 1\<close> down to \<open>jj\<close>; its argument is \<open>j + 1\<close>.\<close>

fun zip_j :: "bytes \<Rightarrow> nat \<Rightarrow> nat \<Rightarrow> nat \<Rightarrow> nat \<times> nat \<Rightarrow> nat \<times> nat" where
  "zip_j inp i jj 0 (maxx, ans) = (maxx, ans)"
| "zip_j inp i jj (Suc j) (maxx, ans) =
     (if jj \<le> j
      then zip_j inp i jj j
        (case zip_k inp i j 0 of None \<Rightarrow> (maxx, ans)
         | Some k \<Rightarrow> if maxx < k then (k, i - j) else (maxx, ans))
      else (maxx, ans))"

definition zip_search :: "bytes \<Rightarrow> nat \<Rightarrow> nat \<times> nat" where
  "zip_search inp i = zip_j inp i (i - 256) i (0, 0)"

text \<open>\<open>if(out_cap <= out_len) return false; out[out_len++] = b;\<close> for each byte.\<close>

fun emit :: "nat \<Rightarrow> bytes \<Rightarrow> bytes \<Rightarrow> bool \<times> bytes" where
  "emit out_cap [] out = (True, out)"
| "emit out_cap (b # bs) out =
     (if out_cap \<le> length out then (False, out) else emit out_cap bs (out @ [b]))"

function zip_loop :: "nat \<Rightarrow> bytes \<Rightarrow> nat \<Rightarrow> bytes \<Rightarrow> bool \<times> bytes" where
  "zip_loop out_cap inp i out =
     (if i < length inp
      then (let (maxx, ans) = zip_search inp i
            in if 2 < maxx
               then (case emit out_cap [sp, of_nat (maxx - 2), of_nat (ans - 1)] out of
                       (ok, out') \<Rightarrow> if ok then zip_loop out_cap inp (i + maxx) out' else (False, out'))
               else (case emit out_cap (if inp ! i = sp then [inp ! i, 0] else [inp ! i]) out of
                       (ok, out') \<Rightarrow> if ok then zip_loop out_cap inp (i + 1) out' else (False, out')))
      else (True, out))"
  by pat_completeness auto
termination by (relation "measure (\<lambda>(out_cap, inp, i, out). length inp - i)") auto

declare zip_loop.simps [simp del]

definition lz77_zip :: "nat \<Rightarrow> bytes \<Rightarrow> bool \<times> bytes" where
  "lz77_zip out_cap inp = zip_loop out_cap inp 0 []"

section \<open>unzip\<close>

text \<open>The copy of a match, byte by byte: it may overlap what it writes.\<close>

fun unzip_copy :: "nat \<Rightarrow> nat \<Rightarrow> bytes \<Rightarrow> bytes option" where
  "unzip_copy 0 dist out = Some out"
| "unzip_copy (Suc n) dist out = do {
     b \<leftarrow> load out (length out - dist);
     unzip_copy n dist (out @ [b])
   }"

declare unzip_copy.simps(2) [simp del]

function unzip_loop :: "nat \<Rightarrow> bytes \<Rightarrow> nat \<Rightarrow> bytes \<Rightarrow> (bool \<times> bytes) option" where
  "unzip_loop out_cap inp i out =
     (if i < length inp
      then do {
        c \<leftarrow> load inp i;
        if c = sp then
          (if length inp \<le> i + 1 then Some (False, out)
           else do {
             n \<leftarrow> load inp (i + 1);
             if n \<noteq> 0 then
               (if length inp \<le> i + 2 then Some (False, out)
                else do {
                  d \<leftarrow> load inp (i + 2);
                  let len = unat n + 2; dist = unat d + 1 in
                    if length out < dist then Some (False, out)
                    else if out_cap < length out + len then Some (False, out)
                    else do { out' \<leftarrow> unzip_copy len dist out; unzip_loop out_cap inp (i + 3) out' }
                })
             else if out_cap \<le> length out then Some (False, out)
             else unzip_loop out_cap inp (i + 2) (out @ [sp])
           })
        else if out_cap \<le> length out then Some (False, out)
        else unzip_loop out_cap inp (i + 1) (out @ [c])
      }
      else Some (True, out))"
  by pat_completeness auto
termination by (relation "measure (\<lambda>(out_cap, inp, i, out). length inp - i)") auto

declare unzip_loop.simps [simp del]

definition lz77_unzip :: "nat \<Rightarrow> bytes \<Rightarrow> (bool \<times> bytes) option" where
  "lz77_unzip out_cap inp = unzip_loop out_cap inp 0 []"

section \<open>The search\<close>

lemma zip_k_match:
  "zip_k inp i j k = Some n \<Longrightarrow> \<forall>l < k. i + l < length inp \<and> inp ! (i + l) = inp ! (j + l) \<Longrightarrow>
    n < 258 \<and> (\<forall>l < n. i + l < length inp \<and> inp ! (i + l) = inp ! (j + l))"
proof (induction inp i j k rule: zip_k.induct)
  case (1 inp i j k)
  show ?case
  proof (cases "k < 258 \<and> \<not> (length inp \<le> i + k \<or> inp ! (i + k) \<noteq> inp ! (j + k))")
    case True
    with 1(2) have "zip_k inp i j (k + 1) = Some n" by (simp add: zip_k.simps [of inp i j k])
    with 1 True show ?thesis by (auto simp: less_Suc_eq)
  next
    case False
    with 1(2,3) show ?thesis by (subst (asm) zip_k.simps) (auto split: if_splits)
  qed
qed

text \<open>What a recorded match is: a distance of at most 256 and equal bytes.\<close>

definition zip_match :: "bytes \<Rightarrow> nat \<Rightarrow> nat \<times> nat \<Rightarrow> bool" where
  "zip_match inp i m \<longleftrightarrow> (case m of (maxx, ans) \<Rightarrow> maxx = 0 \<or>
     maxx < 258 \<and> 1 \<le> ans \<and> ans \<le> 256 \<and> ans \<le> i \<and> i + maxx \<le> length inp \<and>
     (\<forall>l < maxx. inp ! (i + l) = inp ! (i - ans + l)))"

lemma zip_j_match:
  "zip_match inp i (maxx, ans) \<Longrightarrow> j \<le> i \<Longrightarrow> i \<le> jj + 256 \<Longrightarrow>
    zip_match inp i (zip_j inp i jj j (maxx, ans))"
proof (induction inp i jj j "(maxx, ans)" arbitrary: maxx ans rule: zip_j.induct)
  case (1 inp i jj maxx ans)
  then show ?case by simp
next
  case (2 inp i jj j maxx ans)
  have "zip_match inp i (k, i - j)" if k: "zip_k inp i j 0 = Some k" "jj \<le> j" for k
  proof -
    from zip_k_match [OF k(1)] have "k < 258" and m: "\<forall>l < k. i + l < length inp \<and> inp ! (i + l) = inp ! (j + l)"
      by auto
    moreover from m have "k = 0 \<or> i + (k - 1) < length inp" by (cases k) auto
    ultimately show ?thesis
      using 2(3,4) k(2) by (auto simp: zip_match_def)
  qed
  with 2 show ?case by (auto split: option.splits)
qed

lemma zip_search_match: "zip_match inp i (zip_search inp i)"
  unfolding zip_search_def by (rule zip_j_match) (auto simp: zip_match_def)

section \<open>unzip reads what zip wrote\<close>

lemma emit_ok: "emit n bs out = (True, out') \<Longrightarrow> out' = out @ bs"
  by (induction bs arbitrary: out) (force split: if_splits)+

lemma emit_fits: "length out + length bs \<le> n \<Longrightarrow> emit n bs out = (True, out @ bs)"
  by (induction bs arbitrary: out) auto

lemma emit_length: "emit n bs out = (ok, out') \<Longrightarrow> length out \<le> n \<Longrightarrow> length out' \<le> n"
  by (induction bs arbitrary: out) (auto split: if_splits)

lemma unzip_literal:
  assumes "c \<noteq> sp" "length out < cap"
  shows "unzip_loop cap (pre @ c # rest) (length pre) out =
    unzip_loop cap (pre @ c # rest) (length (pre @ [c])) (out @ [c])"
  using assms by (subst unzip_loop.simps) (simp add: mem_defs)

lemma unzip_escape:
  assumes "length out < cap"
  shows "unzip_loop cap (pre @ sp # 0 # rest) (length pre) out =
    unzip_loop cap (pre @ sp # 0 # rest) (length (pre @ [sp, 0])) (out @ [sp])"
  using assms by (subst unzip_loop.simps) (simp add: mem_defs nth_append)

lemma unzip_token:
  assumes "n \<noteq> 0" "unat d + 1 \<le> length out" "length out + unat n + 2 \<le> cap"
    "unzip_copy (unat n + 2) (unat d + 1) out = Some out'"
  shows "unzip_loop cap (pre @ sp # n # d # rest) (length pre) out =
    unzip_loop cap (pre @ sp # n # d # rest) (length (pre @ [sp, n, d])) out'"
  using assms by (subst unzip_loop.simps) (simp add: mem_defs nth_append Let_def numeral_3_eq_3)

lemma unzip_copy_match:
  assumes "1 \<le> ans" "ans \<le> i" "i + n \<le> length inp"
    "\<forall>l < n. inp ! (i + l) = inp ! (i - ans + l)"
  shows "unzip_copy n ans (take i inp) = Some (take (i + n) inp)"
  using assms
proof (induction n arbitrary: i)
  case 0
  then show ?case by simp
next
  case (Suc n)
  have "inp ! i = inp ! (i - ans)" using Suc.prems(4) by (metis add.right_neutral zero_less_Suc)
  then have "load (take i inp) (length (take i inp) - ans) = Some (inp ! i)"
    using Suc.prems by (simp add: mem_defs)
  moreover have "take i inp @ [inp ! i] = take (Suc i) inp"
    using Suc.prems by (simp add: take_Suc_conv_app_nth)
  moreover have "inp ! (Suc i + l) = inp ! (Suc i - ans + l)" if "l < n" for l
    using Suc.prems(2) spec [OF Suc.prems(4), of "Suc l"] that by (simp add: Suc_diff_le)
  ultimately show ?case using Suc.IH [of "Suc i"] Suc.prems by (simp add: unzip_copy.simps)
qed

text \<open>
  \<open>unzip_at\<close>: whatever follows the bytes \<open>out\<close>, decoding reaches their end with the
  first \<open>i\<close> bytes of the input restored.
\<close>

definition unzip_at :: "nat \<Rightarrow> bytes \<Rightarrow> nat \<Rightarrow> bytes \<Rightarrow> bool" where
  "unzip_at cap inp i out \<longleftrightarrow>
     (\<forall>rest. unzip_loop cap (out @ rest) 0 [] = unzip_loop cap (out @ rest) (length out) (take i inp))"

lemma unzip_at_literal:
  assumes "unzip_at cap inp i out" "i < length inp" "length inp \<le> cap"
  shows "unzip_at cap inp (i + 1) (out @ (if inp ! i = sp then [inp ! i, 0] else [inp ! i]))"
proof -
  have t: "take i inp @ [inp ! i] = take (Suc i) inp" "length (take i inp) < cap"
    using assms(2,3) by (simp_all add: take_Suc_conv_app_nth)
  have "unzip_loop cap (out @ bs @ rest) 0 [] =
      unzip_loop cap (out @ bs @ rest) (length (out @ bs)) (take (Suc i) inp)"
    if "bs = (if inp ! i = sp then [inp ! i, 0] else [inp ! i])" for bs rest
    using assms(1) that t unzip_literal [of "inp ! i" "take i inp" cap out rest]
      unzip_escape [of "take i inp" cap out rest]
    unfolding unzip_at_def by (cases "inp ! i = sp") (simp_all add: t(1) [symmetric])
  then show ?thesis by (auto simp: unzip_at_def)
qed

lemma unzip_at_token:
  assumes "unzip_at cap inp i out" "zip_match inp i (maxx, ans)" "2 < maxx" "length inp \<le> cap"
  shows "unzip_at cap inp (i + maxx) (out @ [sp, of_nat (maxx - 2), of_nat (ans - 1)])"
proof -
  have m: "maxx < 258" "1 \<le> ans" "ans \<le> 256" "ans \<le> i" "i + maxx \<le> length inp"
    "\<forall>l < maxx. inp ! (i + l) = inp ! (i - ans + l)"
    using assms(2,3) by (auto simp: zip_match_def)
  define n d :: byte where nd: "n = of_nat (maxx - 2)" "d = of_nat (ans - 1)"
  have u: "unat n + 2 = maxx" "unat d + 1 = ans"
    using m assms(3) unat_of_byte [of "maxx - 2"] unat_of_byte [of "ans - 1"] by (auto simp: nd)
  then have "n \<noteq> 0" using assms(3) by auto
  moreover have "unzip_copy (unat n + 2) (unat d + 1) (take i inp) = Some (take (i + maxx) inp)"
    unfolding u by (rule unzip_copy_match [OF m(2,4,5,6)])
  ultimately have "unzip_loop cap (out @ sp # n # d # rest) (length out) (take i inp) =
      unzip_loop cap (out @ sp # n # d # rest) (length (out @ [sp, n, d])) (take (i + maxx) inp)" for rest
    using u m assms(3,4) by (intro unzip_token) (auto simp: min_def)
  with assms(1) show ?thesis by (simp add: unzip_at_def nd)
qed

lemma zip_loop_unzip:
  "zip_loop out_cap inp i out = (True, z) \<Longrightarrow> unzip_at cap inp i out \<Longrightarrow> i \<le> length inp \<Longrightarrow>
    length inp \<le> cap \<Longrightarrow> unzip_at cap inp (length inp) z"
proof (induction out_cap inp i out rule: zip_loop.induct)
  case (1 out_cap inp i out)
  show ?case
  proof (cases "i < length inp")
    case False
    with 1(3,4,5) show ?thesis by (simp add: zip_loop.simps)
  next
    case True
    obtain maxx ans where ma: "zip_search inp i = (maxx, ans)" by (cases "zip_search inp i")
    with zip_search_match [of inp i] have m: "zip_match inp i (maxx, ans)" by simp
    show ?thesis
    proof (cases "2 < maxx")
      case t: True
      with 1(3) True ma obtain out' where
        e: "emit out_cap [sp, of_nat (maxx - 2), of_nat (ans - 1)] out = (True, out')"
           "zip_loop out_cap inp (i + maxx) out' = (True, z)"
        by (subst (asm) zip_loop.simps) (auto simp del: emit.simps split: prod.splits if_splits)
      have "i + maxx \<le> length inp" using m t by (simp add: zip_match_def)
      with 1(1) [OF True refl ma [symmetric] t e(1) [symmetric] TrueI e(2)] emit_ok [OF e(1)]
        unzip_at_token [OF 1(4) m t 1(6)] 1(6) show ?thesis by simp
    next
      case t: False
      with 1(3) True ma obtain out' where
        e: "emit out_cap (if inp ! i = sp then [inp ! i, 0] else [inp ! i]) out = (True, out')"
           "zip_loop out_cap inp (i + 1) out' = (True, z)"
        by (subst (asm) zip_loop.simps) (auto simp del: emit.simps split: prod.splits if_splits)
      with 1(2) [OF True refl ma [symmetric] t e(1) [symmetric] TrueI e(2)] emit_ok [OF e(1)]
        unzip_at_literal [OF 1(4) True 1(6)] 1(6) True show ?thesis by simp
    qed
  qed
qed

lemma unzip_at_start: "unzip_at cap inp 0 []"
  by (simp add: unzip_at_def)

lemma unzip_at_end:
  assumes "unzip_at cap inp (length inp) z"
  shows "lz77_unzip cap z = Some (True, inp)"
  using assms spec [of "\<lambda>rest. unzip_loop cap (z @ rest) 0 [] =
    unzip_loop cap (z @ rest) (length z) (take (length inp) inp)" "[]"]
  by (simp add: unzip_at_def lz77_unzip_def unzip_loop.simps)

text \<open>The size of the output, and that enough room is enough.\<close>

lemma zip_loop_fits:
  "length out + 2 * (length inp - i) \<le> out_cap \<Longrightarrow> i \<le> length inp \<Longrightarrow>
    \<exists>z. zip_loop out_cap inp i out = (True, z) \<and> length z \<le> length out + 2 * (length inp - i)"
proof (induction out_cap inp i out rule: zip_loop.induct)
  case (1 out_cap inp i out)
  show ?case
  proof (cases "i < length inp")
    case False
    with 1 show ?thesis by (simp add: zip_loop.simps)
  next
    case True
    obtain maxx ans where ma: "zip_search inp i = (maxx, ans)" by (cases "zip_search inp i")
    show ?thesis
    proof (cases "2 < maxx")
      case t: True
      define bs where bs: "bs = [sp, of_nat (maxx - 2), of_nat (ans - 1)]"
      then have l: "length bs = 3" by simp
      have im: "i + maxx \<le> length inp"
        using t ma zip_search_match [of inp i] by (simp add: zip_match_def)
      with t 1(3) l have e: "emit out_cap bs out = (True, out @ bs)" by (intro emit_fits) simp
      have "length (out @ bs) + 2 * (length inp - (i + maxx)) \<le> out_cap" using l im t 1(3) by simp
      from 1(1) [OF True refl ma [symmetric] t e [unfolded bs, symmetric] TrueI this [unfolded bs] im]
      obtain z where z: "zip_loop out_cap inp (i + maxx) (out @ bs) = (True, z)"
        "length z \<le> length out + 3 + 2 * (length inp - (i + maxx))" by (auto simp: bs)
      from True ma t e z(1) have "zip_loop out_cap inp i out = (True, z)"
        by (subst zip_loop.simps) (simp del: emit.simps of_nat_diff add: bs)
      with z(2) im t show ?thesis by simp
    next
      case t: False
      let ?bs = "if inp ! i = sp then [inp ! i, 0] else [inp ! i]"
      from True 1(3) have e: "emit out_cap ?bs out = (True, out @ ?bs)" by (intro emit_fits) auto
      have l: "length ?bs \<le> 2" by simp
      have "length (out @ ?bs) + 2 * (length inp - (i + 1)) \<le> out_cap" using 1(3) True l by simp
      from 1(2) [OF True refl ma [symmetric] t e [symmetric] TrueI this] True
      obtain z where z: "zip_loop out_cap inp (i + 1) (out @ ?bs) = (True, z)"
        "length z \<le> length (out @ ?bs) + 2 * (length inp - (i + 1))" by auto
      from True ma t e z(1) have "zip_loop out_cap inp i out = (True, z)"
        by (subst zip_loop.simps) (simp del: emit.simps)
      with z(2) True l show ?thesis by (auto split: if_splits)
    qed
  qed
qed

lemma zip_loop_cap:
  "length out \<le> out_cap \<Longrightarrow> length (snd (zip_loop out_cap inp i out)) \<le> out_cap"
proof (induction out_cap inp i out rule: zip_loop.induct)
  case (1 out_cap inp i out)
  show ?case
  proof (cases "i < length inp")
    case False
    with 1 show ?thesis by (simp add: zip_loop.simps)
  next
    case True
    obtain maxx ans where ma: "zip_search inp i = (maxx, ans)" by (cases "zip_search inp i")
    show ?thesis
    proof (cases "2 < maxx")
      case t: True
      define bs where bs: "bs = [sp, of_nat (maxx - 2), of_nat (ans - 1)]"
      obtain ok out' where e: "emit out_cap bs out = (ok, out')" by (cases "emit out_cap bs out")
      have "ok \<Longrightarrow> length (snd (zip_loop out_cap inp (i + maxx) out')) \<le> out_cap"
        using 1(1) [OF True refl ma [symmetric] t e [unfolded bs, symmetric]] emit_length [OF e 1(3)] by simp
      with True ma t e emit_length [OF e 1(3)] show ?thesis
        by (subst zip_loop.simps) (simp del: emit.simps of_nat_diff add: bs)
    next
      case t: False
      define bs where bs: "bs = (if inp ! i = sp then [inp ! i, 0] else [inp ! i])"
      obtain ok out' where e: "emit out_cap bs out = (ok, out')" by (cases "emit out_cap bs out")
      have "ok \<Longrightarrow> length (snd (zip_loop out_cap inp (i + 1) out')) \<le> out_cap"
        using 1(2) [OF True refl ma [symmetric] t e [unfolded bs, symmetric]] emit_length [OF e 1(3)] by simp
      with True ma t e emit_length [OF e 1(3)] show ?thesis
        by (subst zip_loop.simps) (simp del: emit.simps add: bs [symmetric])
    qed
  qed
qed

section \<open>unzip on any input\<close>

lemma unzip_copy_safe:
  "1 \<le> dist \<Longrightarrow> dist \<le> length out \<Longrightarrow>
    \<exists>out'. unzip_copy n dist out = Some out' \<and> length out' = length out + n"
proof (induction n arbitrary: out)
  case 0
  then show ?case by simp
next
  case (Suc n)
  then have "load out (length out - dist) = Some (out ! (length out - dist))"
    by (simp add: mem_defs)
  with Suc.IH [of "out @ [out ! (length out - dist)]"] Suc.prems show ?case
    by (auto simp: unzip_copy.simps)
qed

lemma unzip_loop_safe:
  "length out \<le> cap \<Longrightarrow> \<exists>ok out'. unzip_loop cap inp i out = Some (ok, out') \<and> length out' \<le> cap"
proof (induction cap inp i out rule: unzip_loop.induct)
  case (1 cap inp i out)
  show ?case
  proof (cases "i < length inp")
    case False
    with 1 show ?thesis by (simp add: unzip_loop.simps) blast
  next
    case True
    note u = unzip_loop.simps [of cap inp i out]
    show ?thesis
    proof (cases "inp ! i = sp \<and> i + 2 < length inp \<and> inp ! (i + 1) \<noteq> 0 \<and>
        unat (inp ! (i + 2)) + 1 \<le> length out \<and> length out + (unat (inp ! (i + 1)) + 2) \<le> cap")
      case t: True
      from unzip_copy_safe [of "unat (inp ! (i + 2)) + 1" out "unat (inp ! (i + 1)) + 2"] t
      obtain out' where c: "unzip_copy (unat (inp ! (i + 1)) + 2) (unat (inp ! (i + 2)) + 1) out = Some out'"
        "length out' = length out + (unat (inp ! (i + 1)) + 2)" by auto
      from 1(1) [OF True _ _ _ _ _ _ _ refl refl _ _ c(1)] t True c(2)
      have "\<exists>ok o'. unzip_loop cap inp (i + 3) out' = Some (ok, o') \<and> length o' \<le> cap"
        by (auto simp: mem_defs)
      with t True c(1) show ?thesis
        by (subst u) (simp add: mem_defs Let_def)
    next
      case f: False
      have "inp ! i = sp \<Longrightarrow> i + 1 < length inp \<Longrightarrow> inp ! (i + 1) = 0 \<Longrightarrow> length out < cap \<Longrightarrow>
          \<exists>ok o'. unzip_loop cap inp (i + 2) (out @ [sp]) = Some (ok, o') \<and> length o' \<le> cap"
        using 1(2) [OF True] True 1(4) by (auto simp: mem_defs)
      moreover have "inp ! i \<noteq> sp \<Longrightarrow> length out < cap \<Longrightarrow>
          \<exists>ok o'. unzip_loop cap inp (i + 1) (out @ [inp ! i]) = Some (ok, o') \<and> length o' \<le> cap"
        using 1(3) [OF True] True 1(4) by (auto simp: mem_defs)
      ultimately show ?thesis using f True 1(4)
        by (subst u) (auto simp: mem_defs Let_def)
    qed
  qed
qed

section \<open>Properties\<close>

text \<open>
  C31. What \<open>zip\<close> writes when it returns true, \<open>unzip\<close> restores: it returns true and
  the bytes that were compressed, whatever their length, in any buffer that can
  hold them.
\<close>

theorem lz77_roundtrip:
  assumes "lz77_zip out_cap inp = (True, z)" "length inp \<le> cap"
  shows "lz77_unzip cap z = Some (True, inp)"
  using assms zip_loop_unzip [OF _ unzip_at_start, of out_cap inp z cap] unzip_at_end
  by (simp add: lz77_zip_def)

theorem lz77_roundtrip_witness:
  "\<exists>z. lz77_zip 9 [7, 124, 7, 124] = (True, z) \<and> lz77_unzip 4 z = Some (True, [7, 124, 7, 124])"
proof -
  have "length [7, 124, 7, 124 :: byte] * 2 \<le> 9" by simp
  with zip_loop_fits [of "[]" "[7, 124, 7, 124]" 0 9] obtain z where
    z: "lz77_zip 9 [7, 124, 7, 124] = (True, z)" by (auto simp: lz77_zip_def)
  with lz77_roundtrip [OF z, of 4] show ?thesis by simp
qed

text \<open>
  \<open>zip\<close> never writes past \<open>out_cap\<close> bytes, and a buffer of twice the input is
  always enough: then it returns true. So the 2n bound decides whether a caller
  can ever see a failure.
\<close>

theorem lz77_zip_bounds:
  "length (snd (lz77_zip out_cap inp)) \<le> out_cap \<and>
   (2 * length inp \<le> out_cap \<longrightarrow> fst (lz77_zip out_cap inp))"
  using zip_loop_cap [of "[]" out_cap inp 0] zip_loop_fits [of "[]" inp 0 out_cap]
  by (auto simp: lz77_zip_def)

theorem lz77_zip_bounds_witness: "fst (lz77_zip 6 [124, 124, 124])"
  using lz77_zip_bounds [of 6 "[124, 124, 124]"] by simp

text \<open>
  \<open>unzip\<close> on any bytes, compressed by \<open>zip\<close> or not, with any limit, reads
  nothing outside its input or the bytes it has written, ends, and writes at most
  \<open>out_cap\<close> bytes.
\<close>

theorem lz77_unzip_safe:
  "\<exists>ok out. lz77_unzip out_cap inp = Some (ok, out) \<and> length out \<le> out_cap"
  using unzip_loop_safe [of "[]" out_cap inp 0] by (simp add: lz77_unzip_def)

text \<open>
  A run of equal bytes is where the search loses: a match that goes on for 258
  bytes does not break the \<open>k\<close> loop and is not recorded, and every distance has
  that same match.
\<close>

lemma zip_k_run:
  "i + 258 \<le> n \<Longrightarrow> j < i \<Longrightarrow> zip_k (replicate n b) i j k = None"
proof (induction "replicate n b" i j k rule: zip_k.induct)
  case (1 i j k)
  then show ?case by (subst zip_k.simps) auto
qed

lemma zip_j_run:
  "i + 258 \<le> n \<Longrightarrow> j \<le> i \<Longrightarrow> zip_j (replicate n b) i jj j m = m"
proof (induction j)
  case 0
  then show ?case by (cases m) simp
next
  case (Suc j)
  then show ?case by (cases m) (simp add: zip_k_run)
qed

text \<open>
  In a run of one byte, every position more than 257 bytes before the end is
  written as a literal: no match is found there although all 256 distances match.
  The longest runs are the ones that are not compressed.
\<close>

theorem lz77_long_run_not_found:
  assumes "i + 258 \<le> n"
  shows "zip_search (replicate n b) i = (0, 0)"
  using assms by (simp add: zip_search_def zip_j_run)

theorem lz77_long_run_not_found_witness: "zip_search (replicate 1000 7) 742 = (0, 0)"
  by (rule lz77_long_run_not_found) simp

end
