(* ===== verification/CString.thy ===== *)
theory CString
  imports Prelude "HOL-Library.List_Lexorder"
begin

text \<open>
  The functions of \<open>string.h\<close> on byte lists. A pointer into a block is the rest of the
  block from there, and its string ends before the first zero byte; without a zero the
  read leaves the block, \<open>None\<close>. \<open>strcmp\<close> is given on the strings themselves, and only
  the sign of its result means something.
\<close>

definition c_string :: "bytes \<Rightarrow> bytes" where
  "c_string bs = takeWhile (\<lambda>b. b \<noteq> 0) bs"

fun strlen :: "bytes \<Rightarrow> nat option" where
  "strlen [] = None"
| "strlen (c # s) = (if c = 0 then Some 0 else map_option Suc (strlen s))"

definition strlen_at :: "bytes \<Rightarrow> nat \<Rightarrow> nat option" where
  "strlen_at mem p = strlen (drop p mem)"

definition string_at :: "bytes \<Rightarrow> nat \<Rightarrow> bytes option" where
  "string_at mem p = map_option (\<lambda>n. block_at p n mem) (strlen_at mem p)"

fun strcmp :: "bytes \<Rightarrow> bytes \<Rightarrow> int" where
  "strcmp [] [] = 0"
| "strcmp [] (y # ys) = - 1"
| "strcmp (x # xs) [] = 1"
| "strcmp (x # xs) (y # ys) = (if x < y then - 1 else if y < x then 1 else strcmp xs ys)"

lemma strlen_text [simp]: "0 \<notin> set s \<Longrightarrow> strlen (s @ 0 # r) = Some (length s)"
  by (induction s) auto

lemma c_string_text [simp]: "0 \<notin> set s \<Longrightarrow> c_string (s @ 0 # r) = s"
  by (induction s) (auto simp: c_string_def)

lemma c_string_no_zero: "0 \<notin> set (c_string bs)"
  by (auto simp: c_string_def dest: set_takeWhileD)

text \<open>\<open>strcmp\<close> is the lexicographic order of the bytes.\<close>

lemma strcmp_order: "strcmp xs ys = (if xs = ys then 0 else if xs < ys then - 1 else 1)"
  by (induction xs ys rule: strcmp.induct) auto

lemma strcmp_eq [simp]: "strcmp xs ys = 0 \<longleftrightarrow> xs = ys"
  and strcmp_less [simp]: "strcmp xs ys < 0 \<longleftrightarrow> xs < ys"
  and strcmp_greater [simp]: "0 < strcmp xs ys \<longleftrightarrow> ys < xs"
  by (auto simp: strcmp_order)

end
