(* ===== verification/PkLimit.thy ===== *)
theory PkLimit
  imports Prelude CString
begin

text \<open>
  The rate limit on the packets of a client (\<open>logic/pk_limit.h\<close>): per message id, at
  most \<open>cnt\<close> packets in each interval of \<open>second\<close> milliseconds, counted for every
  connection. The arrays are functions of their indices, which \<open>check_pk_limit\<close>
  and the setters test before use. \<open>id_max\<close> is 3072 and \<open>fd_max\<close> 16384.
\<close>

datatype pk_err = Err_ok | Err_fd_invalid | Err_id_invalid | Err_fixing | Err_too_fast

record pk_limit =
  pk_cnt :: "int \<Rightarrow> int"
  pk_second :: "int \<Rightarrow> int"
  pk_last_cnt :: "int \<Rightarrow> int \<Rightarrow> int"
  pk_last_time :: "int \<Rightarrow> int \<Rightarrow> int"
  pk_name :: "int \<Rightarrow> bytes"

definition pk_set2 :: "int \<Rightarrow> int \<Rightarrow> 'a \<Rightarrow> (int \<Rightarrow> int \<Rightarrow> 'a) \<Rightarrow> int \<Rightarrow> int \<Rightarrow> 'a" where
  "pk_set2 i j v f = f(i := (f i)(j := v))"

definition check_pk_limit :: "int \<Rightarrow> int \<Rightarrow> int \<Rightarrow> pk_limit \<Rightarrow> pk_err \<times> pk_limit" where
  "check_pk_limit cur_time fd mid s =
     (if \<not> (0 \<le> fd \<and> fd < 16384) then (Err_fd_invalid, s)
      else if \<not> (0 \<le> mid \<and> mid < 3072) then (Err_id_invalid, s)
      else if pk_cnt s mid \<le> 0 then (Err_fixing, s)
      else if pk_second s mid \<le> 0 then (Err_ok, s)
      else if cur_time < pk_last_time s fd mid + pk_second s mid \<and> pk_cnt s mid \<le> pk_last_cnt s fd mid
        then (Err_too_fast, s)
      else
        let s1 = (if pk_last_time s fd mid + pk_second s mid \<le> cur_time
                  then s\<lparr>pk_last_time := pk_set2 fd mid cur_time (pk_last_time s),
                         pk_last_cnt := pk_set2 fd mid 0 (pk_last_cnt s)\<rparr>
                  else s)
        in (Err_ok, s1\<lparr>pk_last_cnt := pk_set2 fd mid (s8 (pk_last_cnt s1 fd mid + 1)) (pk_last_cnt s1)\<rparr>))"

text \<open>The name is the buffer; a reader takes it up to the first zero byte.\<close>

definition pk_get_name :: "int \<Rightarrow> pk_limit \<Rightarrow> bytes" where
  "pk_get_name mid s = (if 0 \<le> mid \<and> mid < 3072 then pk_name s mid else [110, 105, 108, 0])"

text \<open>
  The arguments come from Lua as numbers, here the integer each truncates to; the
  casts to \<open>short\<close> and \<open>char\<close> follow. A Lua error is \<open>Inl\<close>.
\<close>

datatype pk_lua_error = Bad_key int | Name_too_long

definition pk_set_limit :: "int \<Rightarrow> int \<Rightarrow> int \<Rightarrow> pk_limit \<Rightarrow> pk_lua_error + pk_limit" where
  "pk_set_limit a1 a2 a3 s =
     (let key = s16 a1 in
      if \<not> (0 \<le> key \<and> key < 3072) then Inl (Bad_key key)
      else Inr (s\<lparr>pk_second := (pk_second s)(key := s16 a2), pk_cnt := (pk_cnt s)(key := s8 a3)\<rparr>))"

text \<open>\<open>p\<close> is the Lua string without the zero byte that follows it.\<close>

definition pk_set_name :: "int \<Rightarrow> bytes \<Rightarrow> pk_limit \<Rightarrow> pk_lua_error + pk_limit" where
  "pk_set_name a1 p s =
     (let key = s16 a1 in
      if \<not> (0 \<le> key \<and> key < 3072) then Inl (Bad_key key)
      else if 64 \<le> length p then Inl Name_too_long
      else Inr (s\<lparr>pk_name := (pk_name s)(key := blit (pk_name s key) 0 (p @ [0]))\<rparr>))"

section \<open>One connection and one id\<close>

text \<open>
  A check only touches the counters of its own connection and id. For those it is
  a step on a pair: the start of the current interval and the packets in it.
\<close>

definition pk_key :: "int \<Rightarrow> int \<Rightarrow> pk_limit \<Rightarrow> int \<times> int" where
  "pk_key fd mid s = (pk_last_time s fd mid, pk_last_cnt s fd mid)"

definition pk_window :: "int \<Rightarrow> int \<Rightarrow> int \<Rightarrow> int \<times> int \<Rightarrow> bool \<times> (int \<times> int)" where
  "pk_window c w t st =
     (case st of (lt, lc) \<Rightarrow>
        if t < lt + w \<and> c \<le> lc then (False, (lt, lc))
        else if lt + w \<le> t then (True, (t, 1))
        else (True, (lt, lc + 1)))"

definition pk_limited :: "int \<Rightarrow> int \<Rightarrow> pk_limit \<Rightarrow> bool" where
  "pk_limited fd mid s \<longleftrightarrow> 0 \<le> fd \<and> fd < 16384 \<and> 0 \<le> mid \<and> mid < 3072 \<and>
     0 < pk_cnt s mid \<and> pk_cnt s mid < 128 \<and> 0 < pk_second s mid \<and>
     0 \<le> pk_last_cnt s fd mid \<and> pk_last_cnt s fd mid \<le> pk_cnt s mid"

lemma check_pk_other:
  "(fd, mid) \<noteq> (fd', mid') \<Longrightarrow> pk_key fd mid (snd (check_pk_limit t fd' mid' s)) = pk_key fd mid s"
  by (auto simp: check_pk_limit_def pk_key_def pk_set2_def Let_def)

lemma check_pk_params [simp]:
  "pk_cnt (snd (check_pk_limit t fd mid s)) = pk_cnt s"
  "pk_second (snd (check_pk_limit t fd mid s)) = pk_second s"
  "pk_name (snd (check_pk_limit t fd mid s)) = pk_name s"
  by (simp_all add: check_pk_limit_def Let_def)

lemma check_pk_window:
  assumes "pk_limited fd mid s"
  shows "pk_window (pk_cnt s mid) (pk_second s mid) t (pk_key fd mid s) =
      (fst (check_pk_limit t fd mid s) = Err_ok, pk_key fd mid (snd (check_pk_limit t fd mid s)))"
    "pk_limited fd mid (snd (check_pk_limit t fd mid s))"
  using assms
  by (auto simp: check_pk_limit_def pk_key_def pk_set2_def pk_window_def pk_limited_def Let_def)

lemma check_pk_limited_other:
  "(fd, mid) \<noteq> (fd', mid') \<Longrightarrow> pk_limited fd mid s \<Longrightarrow> pk_limited fd mid (snd (check_pk_limit t fd' mid' s))"
  using check_pk_other [of fd mid fd' mid' t s] by (simp add: pk_limited_def pk_key_def)

section \<open>The bound on a run\<close>

text \<open>
  A run of packets of any connections and ids: the times at which those of
  \<open>(fd, mid)\<close> were accepted.
\<close>

fun pk_accepted :: "int \<Rightarrow> int \<Rightarrow> (int \<times> int \<times> int) list \<Rightarrow> pk_limit \<Rightarrow> int list" where
  "pk_accepted fd mid [] s = []"
| "pk_accepted fd mid ((t, fd', mid') # es) s =
     (case check_pk_limit t fd' mid' s of (e, s') \<Rightarrow>
        if fd' = fd \<and> mid' = mid \<and> e = Err_ok then t # pk_accepted fd mid es s'
        else pk_accepted fd mid es s')"

text \<open>
  What can still be accepted in the interval \<open>[a, a + w)\<close> when the counters are
  \<open>(lt, lc)\<close>: at most the rest of the current interval and one whole interval more.
\<close>

definition pk_budget :: "int \<Rightarrow> int \<Rightarrow> int \<Rightarrow> int \<times> int \<Rightarrow> int" where
  "pk_budget c w a st =
     (case st of (lt, lc) \<Rightarrow>
        if a \<le> lt then (if lt < a + w then c - lc else 0)
        else if lt + w \<le> a then 2 * c else 2 * c - lc)"

definition pk_inside :: "int \<Rightarrow> int \<Rightarrow> int list \<Rightarrow> int" where
  "pk_inside a w ts = int (length (filter (\<lambda>t. a \<le> t \<and> t < a + w) ts))"

lemma pk_inside_simps [simp]:
  "pk_inside a w [] = 0"
  "pk_inside a w (t # ts) = (if a \<le> t \<and> t < a + w then 1 else 0) + pk_inside a w ts"
  by (simp_all add: pk_inside_def)

lemma pk_budget_step:
  assumes "pk_window c w t (lt, lc) = (ok, st')" "0 < w" "0 \<le> lc" "lc \<le> c" "0 < c" "lt \<le> t"
  shows "(if ok \<and> a \<le> t \<and> t < a + w then 1 else 0) + pk_budget c w a st' \<le> pk_budget c w a (lt, lc)"
    "fst st' \<le> t"
  using assms by (auto simp: pk_window_def pk_budget_def split: if_splits)

lemma pk_accepted_budget:
  assumes "pk_limited fd mid s" "sorted (map fst es)" "\<forall>e \<in> set es. pk_last_time s fd mid \<le> fst e"
  shows "pk_inside a (pk_second s mid) (pk_accepted fd mid es s) \<le>
    pk_budget (pk_cnt s mid) (pk_second s mid) a (pk_key fd mid s)"
  using assms
proof (induction es arbitrary: s)
  case Nil
  then show ?case by (auto simp: pk_budget_def pk_key_def pk_limited_def)
next
  case (Cons e es)
  obtain t fd' mid' where e: "e = (t, fd', mid')" by (cases e)
  let ?s = "snd (check_pk_limit t fd' mid' s)"
  show ?case
  proof (cases "fd' = fd \<and> mid' = mid")
    case False
    then have k: "pk_key fd mid ?s = pk_key fd mid s" by (intro check_pk_other) auto
    have "pk_limited fd mid ?s" using False Cons.prems(1) by (intro check_pk_limited_other) auto
    with Cons.IH [of ?s] Cons.prems k False show ?thesis
      by (auto simp: e pk_key_def split: prod.splits)
  next
    case True
    let ?ok = "fst (check_pk_limit t fd mid s) = Err_ok"
    note w = check_pk_window [OF Cons.prems(1), of t]
    have st: "pk_window (pk_cnt s mid) (pk_second s mid) t (pk_last_time s fd mid, pk_last_cnt s fd mid)
        = (?ok, pk_key fd mid ?s)" using w(1) True by (simp add: pk_key_def)
    have b: "(if ?ok \<and> a \<le> t \<and> t < a + pk_second s mid then 1 else 0) +
        pk_budget (pk_cnt s mid) (pk_second s mid) a (pk_key fd mid ?s)
        \<le> pk_budget (pk_cnt s mid) (pk_second s mid) a (pk_key fd mid s)"
      "pk_last_time ?s fd mid \<le> t"
      using pk_budget_step(1) [OF st, of a] pk_budget_step(2) [OF st] Cons.prems e by (auto simp: pk_limited_def pk_key_def)
    have "\<forall>e \<in> set es. pk_last_time ?s fd mid \<le> fst e" using b(2) Cons.prems(2) e by auto
    with Cons.IH [of ?s] w(2) Cons.prems(2) True e
    have "pk_inside a (pk_second s mid) (pk_accepted fd mid es ?s) \<le>
        pk_budget (pk_cnt s mid) (pk_second s mid) a (pk_key fd mid ?s)" by simp
    with b(1) True e show ?thesis by (auto split: prod.splits)
  qed
qed

lemma pk_budget_bound: "0 \<le> lc \<Longrightarrow> 0 \<le> c \<Longrightarrow> pk_budget c w a (lt, lc) \<le> 2 * c"
  by (simp add: pk_budget_def)

section \<open>Properties\<close>

definition pk_fresh :: "(int \<Rightarrow> int) \<Rightarrow> (int \<Rightarrow> int) \<Rightarrow> pk_limit" where
  "pk_fresh cnt second = \<lparr>pk_cnt = cnt, pk_second = second, pk_last_cnt = (\<lambda>_ _. 0),
     pk_last_time = (\<lambda>_ _. 0), pk_name = (\<lambda>_. replicate 64 0)\<rparr>"

text \<open>
  C37. Rate limit: for packets of any connections and ids in the order of their
  times, the number of packets of one connection and one id that are let through in
  any interval of \<open>second\<close> milliseconds is at most twice \<open>cnt\<close> (the current interval
  and the next may both be exhausted), whatever the others send.
\<close>

theorem pk_limit_rate:
  assumes "0 \<le> fd" "fd < 16384" "0 \<le> mid" "mid < 3072" "0 < cnt mid" "cnt mid < 128" "0 < second mid"
    "sorted (map fst es)" "\<forall>e \<in> set es. 0 \<le> fst e"
  shows "length (filter (\<lambda>t. a \<le> t \<and> t < a + second mid) (pk_accepted fd mid es (pk_fresh cnt second)))
    \<le> nat (2 * cnt mid)"
proof -
  have l: "pk_limited fd mid (pk_fresh cnt second)"
    using assms by (simp add: pk_limited_def pk_fresh_def)
  have "\<forall>e \<in> set es. pk_last_time (pk_fresh cnt second) fd mid \<le> fst e"
    using assms(9) by (simp add: pk_fresh_def)
  from pk_accepted_budget [OF l assms(8) this, of a]
    pk_budget_bound [of 0 "cnt mid" "second mid" a 0] assms(5)
  have "pk_inside a (second mid) (pk_accepted fd mid es (pk_fresh cnt second)) \<le> 2 * cnt mid"
    by (simp add: pk_fresh_def pk_key_def)
  then show ?thesis by (simp add: pk_inside_def)
qed

theorem pk_limit_rate_witness:
  "length (filter (\<lambda>t. 5 \<le> t \<and> t < 5 + 10)
     (pk_accepted 3 7 [(1, 3, 7), (5, 3, 7), (6, 3, 7), (11, 3, 7), (12, 3, 7), (13, 3, 7)]
       (pk_fresh (\<lambda>_. 2) (\<lambda>_. 10)))) \<le> 4"
  using pk_limit_rate [of 3 7 "\<lambda>_. 2" "\<lambda>_. 10"
      "[(1, 3, 7), (5, 3, 7), (6, 3, 7), (11, 3, 7), (12, 3, 7), (13, 3, 7)]" 5]
  by (simp del: pk_accepted.simps)

text \<open>
  What a check answers and what it keeps: the five answers decided in the
  order of the tests, no change unless the packet is counted, and the count of the
  interval never above \<open>cnt\<close>, so that the \<open>char\<close> never wraps.
\<close>

theorem pk_limit_check:
  assumes "pk_limited fd mid s" "check_pk_limit t fd mid s = (e, s')"
  shows "e = (if t < pk_last_time s fd mid + pk_second s mid \<and> pk_cnt s mid \<le> pk_last_cnt s fd mid
      then Err_too_fast else Err_ok) \<and>
    (e \<noteq> Err_ok \<longrightarrow> s' = s) \<and> pk_limited fd mid s' \<and>
    (e = Err_ok \<longrightarrow> pk_last_cnt s' fd mid =
       (if pk_last_time s fd mid + pk_second s mid \<le> t then 1 else pk_last_cnt s fd mid + 1)) \<and>
    (\<forall>fd' mid'. (fd', mid') \<noteq> (fd, mid) \<longrightarrow> pk_key fd' mid' s' = pk_key fd' mid' s)"
proof -
  have "pk_limited fd mid s'" using check_pk_window(2) [OF assms(1), of t] assms(2) by simp
  moreover have "\<forall>fd' mid'. (fd', mid') \<noteq> (fd, mid) \<longrightarrow> pk_key fd' mid' s' = pk_key fd' mid' s"
    using check_pk_other [of _ _ fd mid t s] assms(2) by (metis snd_conv)
  moreover have "e = (if t < pk_last_time s fd mid + pk_second s mid \<and> pk_cnt s mid \<le> pk_last_cnt s fd mid
      then Err_too_fast else Err_ok) \<and> (e \<noteq> Err_ok \<longrightarrow> s' = s)"
    using assms by (auto simp: check_pk_limit_def pk_limited_def Let_def)
  moreover have "e = Err_ok \<longrightarrow> pk_last_cnt s' fd mid =
      (if pk_last_time s fd mid + pk_second s mid \<le> t then 1 else pk_last_cnt s fd mid + 1)"
  proof
    assume "e = Err_ok"
    with check_pk_window(1) [OF assms(1), of t] assms(2)
    show "pk_last_cnt s' fd mid =
      (if pk_last_time s fd mid + pk_second s mid \<le> t then 1 else pk_last_cnt s fd mid + 1)"
      by (simp add: pk_window_def pk_key_def split: if_splits)
  qed
  ultimately show ?thesis by simp
qed

theorem pk_limit_check_witness:
  "\<exists>s'. check_pk_limit 25 3 7 (pk_fresh (\<lambda>_. 2) (\<lambda>_. 10)) = (Err_ok, s') \<and> pk_last_cnt s' 3 7 = 1"
proof -
  obtain e s' where c: "check_pk_limit 25 3 7 (pk_fresh (\<lambda>_. 2) (\<lambda>_. 10)) = (e, s')"
    by (cases "check_pk_limit 25 3 7 (pk_fresh (\<lambda>_. 2) (\<lambda>_. 10))")
  have "pk_limited 3 7 (pk_fresh (\<lambda>_. 2) (\<lambda>_. 10))" by (simp add: pk_limited_def pk_fresh_def)
  from pk_limit_check [OF this c] c show ?thesis by (auto simp: pk_fresh_def)
qed

text \<open>
  The setters: a key outside \<open>[0, id_max)\<close> or a name of 64 bytes and more is a
  Lua error and changes nothing; otherwise the name read back is the one that was
  set, for that id alone, and the limits are the given numbers cut to \<open>short\<close> and
  \<open>char\<close>.
\<close>

theorem pk_limit_setters:
  assumes "0 \<le> key" "key < 3072" "length p < 64" "0 \<notin> set p" "length (pk_name s key) = 64"
  shows "\<exists>s'. pk_set_name key p s = Inr s' \<and> c_string (pk_get_name key s') = p \<and>
    length (pk_name s' key) = 64 \<and>
    (\<forall>k. k \<noteq> key \<longrightarrow> pk_get_name k s' = pk_get_name k s) \<and>
    (\<exists>s''. pk_set_limit key w c s = Inr s'' \<and> pk_second s'' key = s16 w \<and> pk_cnt s'' key = s8 c)"
proof -
  have "takeWhile (\<lambda>b. b \<noteq> 0) (p @ 0 # zs) = p" for zs
    using assms(4) by (induction p) auto
  then have "c_string (blit (pk_name s key) 0 (p @ [0])) = p"
    by (simp add: c_string_def blit_def)
  with assms show ?thesis
    by (auto simp: pk_set_name_def pk_get_name_def pk_set_limit_def Let_def)
qed

theorem pk_limit_setters_witness:
  "\<exists>s'. pk_set_name 5 [67, 71] (pk_fresh (\<lambda>_. 2) (\<lambda>_. 10)) = Inr s' \<and> c_string (pk_get_name 5 s') = [67, 71]"
  using pk_limit_setters [of 5 "[67, 71]" "pk_fresh (\<lambda>_. 2) (\<lambda>_. 10)" 0 0]
  by (auto simp: pk_fresh_def)

end
