(* ===== verification/FdTable.thy ===== *)
theory FdTable
  imports Prelude
begin

text \<open>
  The table of connections that \<open>thread_io\<close>, \<open>thread_admin\<close> and \<open>thread_inner\<close> each
  keep with the same code: \<open>fd2be\<close>, from a file descriptor to its bufferevent, and
  the dense array \<open>fds\<close> of the descriptors in use, from which a descriptor is
  removed by moving the last one into its place. The locale \<open>conn_table\<close> is the
  contract: the array lists exactly the connected descriptors, each once.
\<close>

section \<open>The code\<close>

record 'be fd_table =
  ft_be :: "int \<Rightarrow> 'be option"
  ft_fds :: "int list"
  ft_len :: int

definition fd_max :: int where
  "fd_max = 32768"

text \<open>The loop that looks for \<open>fd\<close> in the part of \<open>fds\<close> in use.\<close>

definition fd_find :: "int \<Rightarrow> int list \<Rightarrow> int \<Rightarrow> nat option" where
  "fd_find fd fds len = find (\<lambda>i. fds ! i = fd) [0..<nat len]"

definition fd_add :: "int \<Rightarrow> 'be \<Rightarrow> 'be fd_table \<Rightarrow> bool \<times> 'be fd_table" where
  "fd_add fd be t =
     (if \<not> (0 \<le> fd \<and> fd < fd_max) then (False, t)
      else if ft_be t fd \<noteq> None then (False, t)
      else if fd_find fd (ft_fds t) (ft_len t) \<noteq> None then (False, t)
      else if fd_max \<le> ft_len t then (False, t)
      else (True, t\<lparr>ft_be := (ft_be t)(fd := Some be),
                    ft_fds := (ft_fds t)[nat (ft_len t) := s16 fd],
                    ft_len := ft_len t + 1\<rparr>))"

definition fd_del :: "int \<Rightarrow> 'be fd_table \<Rightarrow> bool \<times> 'be fd_table" where
  "fd_del fd t =
     (if \<not> (0 \<le> fd \<and> fd < fd_max) then (False, t)
      else if ft_be t fd = None then (False, t)
      else case fd_find fd (ft_fds t) (ft_len t) of
        None \<Rightarrow> (False, t)
      | Some i \<Rightarrow> (True, t\<lparr>ft_be := (ft_be t)(fd := None), ft_len := ft_len t - 1,
                           ft_fds := (ft_fds t)[i := ft_fds t ! nat (ft_len t - 1)]\<rparr>))"

text \<open>The static tables start zeroed.\<close>

definition fd_table_zero :: "'be fd_table" where
  "fd_table_zero = \<lparr>ft_be = (\<lambda>_. None), ft_fds = replicate (nat fd_max) 0, ft_len = 0\<rparr>"

text \<open>\<open>thread_admin\<close> and \<open>thread_inner\<close> have their own copies of the two functions.\<close>

definition admin_fd_add :: "int \<Rightarrow> 'be \<Rightarrow> 'be fd_table \<Rightarrow> bool \<times> 'be fd_table" where
  "admin_fd_add fd be t = fd_add fd be t"

definition admin_fd_del :: "int \<Rightarrow> 'be fd_table \<Rightarrow> bool \<times> 'be fd_table" where
  "admin_fd_del fd t = fd_del fd t"

definition inner_fd_add :: "int \<Rightarrow> 'be \<Rightarrow> 'be fd_table \<Rightarrow> bool \<times> 'be fd_table" where
  "inner_fd_add fd be t = fd_add fd be t"

definition inner_fd_del :: "int \<Rightarrow> 'be fd_table \<Rightarrow> bool \<times> 'be fd_table" where
  "inner_fd_del fd t = fd_del fd t"

lemmas fd_copies = admin_fd_add_def admin_fd_del_def inner_fd_add_def inner_fd_del_def

section \<open>The contract of a connection table\<close>

locale conn_table =
  fixes valid :: "int \<Rightarrow> bool"
    and lookup :: "'t \<Rightarrow> int \<Rightarrow> 'be option"
    and members :: "'t \<Rightarrow> int list"
    and invar :: "'t \<Rightarrow> bool"
    and add :: "int \<Rightarrow> 'be \<Rightarrow> 't \<Rightarrow> bool \<times> 't"
    and del :: "int \<Rightarrow> 't \<Rightarrow> bool \<times> 't"
  assumes members_distinct: "invar t \<Longrightarrow> distinct (members t)"
    and members_dom: "invar t \<Longrightarrow> set (members t) = dom (lookup t)"
    and members_valid: "invar t \<Longrightarrow> lookup t fd \<noteq> None \<Longrightarrow> valid fd"
    and add_new: "invar t \<Longrightarrow> valid fd \<Longrightarrow> lookup t fd = None \<Longrightarrow>
      \<exists>t'. add fd be t = (True, t') \<and> invar t' \<and> lookup t' = (lookup t)(fd := Some be)"
    and add_refused: "invar t \<Longrightarrow> \<not> valid fd \<or> lookup t fd \<noteq> None \<Longrightarrow> add fd be t = (False, t)"
    and del_present: "invar t \<Longrightarrow> lookup t fd \<noteq> None \<Longrightarrow>
      \<exists>t'. del fd t = (True, t') \<and> invar t' \<and> lookup t' = (lookup t)(fd := None)"
    and del_absent: "invar t \<Longrightarrow> lookup t fd = None \<Longrightarrow> del fd t = (False, t)"

datatype 'be conn_op = Conn_add int 'be | Conn_del int

fun conn_run :: "(int \<Rightarrow> 'be \<Rightarrow> 't \<Rightarrow> bool \<times> 't) \<Rightarrow> (int \<Rightarrow> 't \<Rightarrow> bool \<times> 't) \<Rightarrow> 'be conn_op list \<Rightarrow> 't \<Rightarrow> bool list \<times> 't" where
  "conn_run add del [] t = ([], t)"
| "conn_run add del (Conn_add fd be # ops) t =
     (let (r, t1) = add fd be t; (rs, t2) = conn_run add del ops t1 in (r # rs, t2))"
| "conn_run add del (Conn_del fd # ops) t =
     (let (r, t1) = del fd t; (rs, t2) = conn_run add del ops t1 in (r # rs, t2))"

text \<open>The reference: a finite map, where adding needs an absent key and deleting a present one.\<close>

definition map_add_new :: "(int \<Rightarrow> bool) \<Rightarrow> int \<Rightarrow> 'be \<Rightarrow> (int \<Rightarrow> 'be option) \<Rightarrow> bool \<times> (int \<Rightarrow> 'be option)" where
  "map_add_new valid fd be m = (if valid fd \<and> m fd = None then (True, m(fd := Some be)) else (False, m))"

definition map_del_old :: "int \<Rightarrow> (int \<Rightarrow> 'be option) \<Rightarrow> bool \<times> (int \<Rightarrow> 'be option)" where
  "map_del_old fd m = (if m fd = None then (False, m) else (True, m(fd := None)))"

context conn_table
begin

lemma run_refines:
  assumes "invar t" "conn_run add del ops t = (rs, t')"
  shows "invar t' \<and> conn_run (map_add_new valid) map_del_old ops (lookup t) = (rs, lookup t')"
  using assms
proof (induction ops arbitrary: t rs)
  case Nil
  then show ?case by simp
next
  case (Cons op ops)
  show ?case
  proof (cases op)
    case (Conn_add fd be)
    show ?thesis
    proof (cases "valid fd \<and> lookup t fd = None")
      case True
      with add_new [OF Cons.prems(1)] obtain t1 where
        t1: "add fd be t = (True, t1)" "invar t1" "lookup t1 = (lookup t)(fd := Some be)" by blast
      with Cons.prems Conn_add obtain rs' where
        r: "conn_run add del ops t1 = (rs', t')" "rs = True # rs'" by (auto split: prod.splits)
      have "map_add_new valid fd be (lookup t) = (True, lookup t1)"
        using t1 True by (simp add: map_add_new_def)
      with Cons.IH [OF t1(2) r(1)] r Conn_add show ?thesis by simp
    next
      case False
      with add_refused [OF Cons.prems(1)] have a: "add fd be t = (False, t)" by blast
      with Cons.prems Conn_add obtain rs' where
        r: "conn_run add del ops t = (rs', t')" "rs = False # rs'" by (auto split: prod.splits)
      have "map_add_new valid fd be (lookup t) = (False, lookup t)"
        using False by (auto simp: map_add_new_def)
      with Cons.IH [OF Cons.prems(1) r(1)] r Conn_add show ?thesis by simp
    qed
  next
    case (Conn_del fd)
    show ?thesis
    proof (cases "lookup t fd = None")
      case True
      with del_absent [OF Cons.prems(1)] have a: "del fd t = (False, t)" by blast
      with Cons.prems Conn_del obtain rs' where
        r: "conn_run add del ops t = (rs', t')" "rs = False # rs'" by (auto split: prod.splits)
      have "map_del_old fd (lookup t) = (False, lookup t)" using True by (simp add: map_del_old_def)
      with Cons.IH [OF Cons.prems(1) r(1)] r Conn_del show ?thesis by simp
    next
      case False
      with del_present [OF Cons.prems(1)] obtain t1 where
        t1: "del fd t = (True, t1)" "invar t1" "lookup t1 = (lookup t)(fd := None)" by blast
      with Cons.prems Conn_del obtain rs' where
        r: "conn_run add del ops t1 = (rs', t')" "rs = True # rs'" by (auto split: prod.splits)
      have "map_del_old fd (lookup t) = (True, lookup t1)" using t1 False by (simp add: map_del_old_def)
      with Cons.IH [OF t1(2) r(1)] r Conn_del show ?thesis by simp
    qed
  qed
qed

text \<open>A broadcast over \<open>members\<close> visits every connected descriptor exactly once.\<close>

lemma broadcast_once:
  "invar t \<Longrightarrow> length (filter (\<lambda>x. x = fd) (members t)) = (if lookup t fd = None then 0 else 1)"
  using members_distinct [of t] members_dom [of t]
  by (auto simp: distinct_length_filter dom_def Collect_conv_if)

end

section \<open>The code keeps it\<close>

definition ft_members :: "'be fd_table \<Rightarrow> int list" where
  "ft_members t = take (nat (ft_len t)) (ft_fds t)"

definition fd_valid :: "int \<Rightarrow> bool" where
  "fd_valid fd \<longleftrightarrow> 0 \<le> fd \<and> fd < fd_max"

definition ft_ok :: "'be fd_table \<Rightarrow> bool" where
  "ft_ok t \<longleftrightarrow> length (ft_fds t) = nat fd_max \<and> 0 \<le> ft_len t \<and> ft_len t \<le> fd_max \<and>
     distinct (ft_members t) \<and> set (ft_members t) = dom (ft_be t) \<and> dom (ft_be t) \<subseteq> {0..<fd_max}"

lemma length_ft_members: "ft_ok t \<Longrightarrow> length (ft_members t) = nat (ft_len t)"
  by (auto simp: ft_ok_def ft_members_def fd_max_def)

lemma ft_members_nth: "ft_ok t \<Longrightarrow> i < nat (ft_len t) \<Longrightarrow> ft_members t ! i = ft_fds t ! i"
  by (simp add: ft_members_def)

lemma fd_find_none:
  "ft_ok t \<Longrightarrow> fd_find fd (ft_fds t) (ft_len t) = None \<longleftrightarrow> ft_be t fd = None"
proof -
  assume ok: "ft_ok t"
  have "fd_find fd (ft_fds t) (ft_len t) = None \<longleftrightarrow> fd \<notin> set (ft_members t)"
    using length_ft_members [OF ok] ft_members_nth [OF ok]
    by (auto simp: fd_find_def find_None_iff in_set_conv_nth)
  with ok show ?thesis by (auto simp: ft_ok_def)
qed

lemma fd_find_some:
  assumes "ft_ok t" "fd_find fd (ft_fds t) (ft_len t) = Some i"
  shows "i < nat (ft_len t)" "ft_fds t ! i = fd"
  using assms(2) by (auto simp: fd_find_def find_Some_iff)

text \<open>The descriptors are distinct values of a range, so a full table leaves none to add.\<close>

lemma ft_not_full:
  assumes "ft_ok t" "fd_valid fd" "ft_be t fd = None"
  shows "ft_len t < fd_max"
proof -
  have "set (ft_members t) \<subseteq> {0..<fd_max} - {fd}"
    using assms by (auto simp: ft_ok_def)
  then have "card (set (ft_members t)) \<le> card ({0..<fd_max} - {fd})"
    by (intro card_mono) auto
  moreover have "card (set (ft_members t)) = nat (ft_len t)"
    using assms(1) length_ft_members by (metis distinct_card ft_ok_def)
  moreover have "card ({0..<fd_max} - {fd}) = nat fd_max - 1"
    using assms(2) by (simp add: card_Diff_subset fd_valid_def)
  ultimately show ?thesis using assms by (auto simp: ft_ok_def fd_max_def)
qed

lemma fd_add_new:
  assumes "ft_ok t" "fd_valid fd" "ft_be t fd = None"
  shows "\<exists>t'. fd_add fd be t = (True, t') \<and> ft_ok t' \<and> ft_be t' = (ft_be t)(fd := Some be) \<and>
    ft_members t' = ft_members t @ [fd]"
proof -
  have lt: "ft_len t < fd_max" by (rule ft_not_full [OF assms])
  have s: "s16 fd = fd" using assms(2) by (simp add: fd_valid_def fd_max_def)
  have i: "0 \<le> ft_len t" "nat (ft_len t) < length (ft_fds t)"
    using assms(1) lt by (auto simp: ft_ok_def)
  let ?t = "t\<lparr>ft_be := (ft_be t)(fd := Some be), ft_fds := (ft_fds t)[nat (ft_len t) := fd],
      ft_len := ft_len t + 1\<rparr>"
  have m: "ft_members ?t = ft_members t @ [fd]"
    using i by (simp add: ft_members_def nat_add_distrib take_Suc_conv_app_nth)
  have "fd \<notin> set (ft_members t)" using assms by (auto simp: ft_ok_def)
  then have "ft_ok ?t" using assms lt m by (auto simp: ft_ok_def fd_valid_def)
  moreover have "fd_add fd be t = (True, ?t)"
    using assms lt fd_find_none [OF assms(1)] s by (auto simp: fd_add_def fd_valid_def)
  ultimately show ?thesis using m by simp
qed

lemma fd_del_present:
  assumes "ft_ok t" "ft_be t fd \<noteq> None"
  shows "\<exists>t'. fd_del fd t = (True, t') \<and> ft_ok t' \<and> ft_be t' = (ft_be t)(fd := None)"
proof -
  from fd_find_none [OF assms(1)] assms(2) obtain i where
    f: "fd_find fd (ft_fds t) (ft_len t) = Some i" by fastforce
  note i = fd_find_some [OF assms(1) f]
  define n where "n = nat (ft_len t) - 1"
  have n: "nat (ft_len t) = Suc n" "nat (ft_len t - 1) = n" "i \<le> n" "n < length (ft_fds t)"
    using i assms(1) by (auto simp: n_def ft_ok_def)
  let ?t = "t\<lparr>ft_be := (ft_be t)(fd := None), ft_len := ft_len t - 1,
      ft_fds := (ft_fds t)[i := ft_fds t ! n]\<rparr>"
  have ms: "ft_members t = take n (ft_fds t) @ [ft_fds t ! n]"
    using n by (simp add: ft_members_def take_Suc_conv_app_nth)
  have d: "distinct (ft_members t)" using assms(1) by (simp add: ft_ok_def)
  have mt: "ft_members ?t = (take n (ft_fds t))[i := ft_fds t ! n]"
    using n by (simp add: ft_members_def take_update_swap)
  have st: "set (ft_members ?t) = set (ft_members t) - {fd}" and dt: "distinct (ft_members ?t)"
  proof -
    have "set (ft_members ?t) = set (ft_members t) - {fd} \<and> distinct (ft_members ?t)"
    proof (cases "i = n")
      case True
      then show ?thesis using mt ms d i(2) by (auto simp: list_update_beyond)
    next
      case False
      then have "i < n" using n by simp
      then have li: "i < length (take n (ft_fds t))" "take n (ft_fds t) ! i = fd"
        using n i(2) by auto
      have dn: "distinct (take n (ft_fds t))" "ft_fds t ! n \<notin> set (take n (ft_fds t))"
        using d ms by auto
      have "fd \<noteq> ft_fds t ! n" using dn(2) li nth_mem by metis
      with li dn mt ms show ?thesis
        by (auto simp: set_update_distinct distinct_list_update)
    qed
    then show "set (ft_members ?t) = set (ft_members t) - {fd}" "distinct (ft_members ?t)" by auto
  qed
  have "ft_ok ?t" using assms(1) st dt n by (auto simp: ft_ok_def)
  moreover have "fd_valid fd" using assms by (auto simp: ft_ok_def fd_valid_def)
  then have "fd_del fd t = (True, ?t)"
    using assms(2) f n by (auto simp: fd_del_def fd_valid_def)
  ultimately show ?thesis by simp
qed

interpretation ft: conn_table fd_valid ft_be ft_members ft_ok fd_add fd_del
proof
  fix t :: "'be fd_table" and fd be
  assume ok: "ft_ok t"
  show "distinct (ft_members t)" "set (ft_members t) = dom (ft_be t)"
    using ok by (simp_all add: ft_ok_def)
  show "ft_be t fd \<noteq> None \<Longrightarrow> fd_valid fd" using ok by (auto simp: ft_ok_def fd_valid_def)
  show "fd_valid fd \<Longrightarrow> ft_be t fd = None \<Longrightarrow>
      \<exists>t'. fd_add fd be t = (True, t') \<and> ft_ok t' \<and> ft_be t' = (ft_be t)(fd := Some be)"
    using fd_add_new [OF ok, of fd be] by auto
  show "\<not> fd_valid fd \<or> ft_be t fd \<noteq> None \<Longrightarrow> fd_add fd be t = (False, t)"
    by (auto simp: fd_add_def fd_valid_def)
  show "ft_be t fd \<noteq> None \<Longrightarrow>
      \<exists>t'. fd_del fd t = (True, t') \<and> ft_ok t' \<and> ft_be t' = (ft_be t)(fd := None)"
    by (rule fd_del_present [OF ok])
  show "ft_be t fd = None \<Longrightarrow> fd_del fd t = (False, t)" by (simp add: fd_del_def)
qed

lemma ft_ok_zero: "ft_ok fd_table_zero"
  by (auto simp: ft_ok_def fd_table_zero_def ft_members_def fd_max_def)

section \<open>Properties\<close>

text \<open>
  C38. Connections coming and going in any order: the table answers every
  \<open>fd_add\<close> and \<open>fd_del\<close> as a finite map from the descriptors \<open>0 .. fd_max - 1\<close> does
  (an add fails only for an invalid or connected descriptor, a delete only for one
  not connected), holds that map at the end, and its dense array lists each
  connected descriptor exactly once and no other.
\<close>

theorem fd_table_refines_map:
  assumes "conn_run fd_add fd_del ops fd_table_zero = (rs, t)"
  shows "conn_run (map_add_new fd_valid) map_del_old ops (\<lambda>_. None) = (rs, ft_be t) \<and>
    distinct (ft_members t) \<and> set (ft_members t) = dom (ft_be t)"
  using ft.run_refines [OF ft_ok_zero assms] ft.members_distinct ft.members_dom
  by (auto simp: fd_table_zero_def)

theorem fd_table_refines_map_witness:
  "\<exists>t. conn_run fd_add fd_del [Conn_add 5 (1::nat), Conn_add 9 2, Conn_add 5 3, Conn_del 5] fd_table_zero
      = ([True, True, False, True], t) \<and>
    conn_run (map_add_new fd_valid) map_del_old
      [Conn_add 5 1, Conn_add 9 2, Conn_add 5 3, Conn_del 5] (\<lambda>_. None)
      = ([True, True, False, True], ft_be t)"
proof -
  let ?ops = "[Conn_add 5 (1::nat), Conn_add 9 2, Conn_add 5 3, Conn_del 5]"
  obtain rs t where r: "conn_run fd_add fd_del ?ops fd_table_zero = (rs, t)" by fastforce
  from fd_table_refines_map [OF r]
  have m: "conn_run (map_add_new fd_valid) map_del_old ?ops (\<lambda>_. None) = (rs, ft_be t)" by blast
  have "rs = [True, True, False, True]"
    using m by (simp add: map_add_new_def map_del_old_def fd_valid_def fd_max_def)
  with r m show ?thesis by blast
qed

end
