(* ===== verification/BlockHash.thy ===== *)
theory BlockHash
  imports Prelude
begin

text \<open>
  What SHA-1 and MD5 share: a message is cut into blocks of 64 bytes that are folded
  into a chaining value, and an implementation that takes the message in pieces
  keeps the chaining value of the full blocks and the bytes of the last, partial
  one. The locale \<open>block_hash\<close> is that contract; its lemma says that the pieces do
  not matter.
\<close>

section \<open>Messages in blocks\<close>

function hash_blocks :: "('h \<Rightarrow> bytes \<Rightarrow> 'h) \<Rightarrow> 'h \<Rightarrow> bytes \<Rightarrow> 'h" where
  "hash_blocks compress h m =
     (if length m < 64 then h else hash_blocks compress (compress h (take 64 m)) (drop 64 m))"
  by pat_completeness auto
termination by (relation "measure (\<lambda>(compress, h, m). length m)") auto

declare hash_blocks.simps [simp del]

definition last_block :: "bytes \<Rightarrow> bytes" where
  "last_block m = drop (64 * (length m div 64)) m"

text \<open>The padding of both standards: a one bit, zeros, and eight bytes of length.\<close>

definition hash_pad :: "nat \<Rightarrow> bytes" where
  "hash_pad n = 0x80 # replicate ((119 - n mod 64) mod 64) 0"

lemma hash_blocks_short [simp]: "length m < 64 \<Longrightarrow> hash_blocks c h m = h"
  by (simp add: hash_blocks.simps)

lemma hash_blocks_block: "length b = 64 \<Longrightarrow> hash_blocks c h (b @ m) = hash_blocks c (c h b) m"
  by (subst hash_blocks.simps) simp

lemma hash_blocks_one: "length b = 64 \<Longrightarrow> hash_blocks c h b = c h b"
  using hash_blocks_block [of b c h "[]"] by simp

lemma hash_blocks_append:
  "64 dvd length x \<Longrightarrow> hash_blocks c h (x @ y) = hash_blocks c (hash_blocks c h x) y"
proof (induction c h x rule: hash_blocks.induct)
  case (1 c h x)
  show ?case
  proof (cases "length x < 64")
    case True
    with 1(2) have "x = []" by (auto dest: dvd_imp_le)
    then show ?thesis by simp
  next
    case False
    then have d: "64 dvd length (drop 64 x)" using 1(2) by (auto intro: dvd_diff_nat)
    have "hash_blocks c h (take 64 x @ drop 64 x @ y) =
        hash_blocks c (hash_blocks c (c h (take 64 x)) (drop 64 x)) y"
      using 1(1) [OF False d] False by (subst hash_blocks_block) simp_all
    moreover have "hash_blocks c h x = hash_blocks c (c h (take 64 x)) (drop 64 x)"
      using False by (simp add: hash_blocks.simps [of c h x])
    moreover have "take 64 x @ drop 64 x @ y = x @ y" by (metis append_assoc append_take_drop_id)
    ultimately show ?thesis by simp
  qed
qed

lemma last_block_length: "length (last_block m) = length m mod 64"
  by (simp add: last_block_def minus_mult_div_eq_mod)

lemma last_block_short [simp]: "length m < 64 \<Longrightarrow> last_block m = m"
  by (simp add: last_block_def)

lemma last_block_append: "64 dvd length x \<Longrightarrow> last_block (x @ y) = last_block y"
proof -
  assume "64 dvd length x"
  then obtain k where k: "length x = 64 * k" ..
  have "64 * ((64 * k + length y) div 64) = 64 * k + 64 * (length y div 64)" by simp
  then show ?thesis using k by (simp add: last_block_def)
qed

lemma full_blocks: obtains x where "m = x @ last_block m" "64 dvd length x"
proof
  show "m = take (64 * (length m div 64)) m @ last_block m" by (simp add: last_block_def)
  have "64 * (length m div 64) \<le> length m" by simp
  then show "64 dvd length (take (64 * (length m div 64)) m)" by (simp add: min_absorb2)
qed

lemma hash_blocks_resume:
  "hash_blocks c (hash_blocks c h m) (last_block m @ y) = hash_blocks c h (m @ y)"
proof -
  obtain x where x: "m = x @ last_block m" "64 dvd length x" by (rule full_blocks)
  have "hash_blocks c h m = hash_blocks c h x"
    using hash_blocks_append [OF x(2), of c h "last_block m"] last_block_length [of m] x(1) by simp
  moreover have "hash_blocks c h (m @ y) = hash_blocks c (hash_blocks c h x) (last_block m @ y)"
    using hash_blocks_append [OF x(2), of c h "last_block m @ y"] x(1) by (metis append_assoc)
  ultimately show ?thesis by simp
qed

lemma last_block_resume: "last_block (last_block m @ y) = last_block (m @ y)"
proof -
  obtain x where x: "m = x @ last_block m" "64 dvd length x" by (rule full_blocks)
  from last_block_append [OF x(2), of "last_block m @ y"] x(1) show ?thesis by (metis append_assoc)
qed

lemma hash_pad_length: "64 dvd n + length (hash_pad n) + 8"
proof -
  define r where "r = n mod 64"
  have r: "r < 64" "n = 64 * (n div 64) + r" by (simp_all add: r_def)
  have "r + Suc ((119 - r) mod 64) + 8 = 64 \<or> r + Suc ((119 - r) mod 64) + 8 = 128"
  proof (cases "r \<le> 55")
    case True
    then have "119 - r = 64 + (55 - r)" by simp
    then have "(119 - r) mod 64 = (55 - r) mod 64" by (simp only: mod_add_self1)
    also have "\<dots> = 55 - r" by (intro mod_less) simp
    finally have "(119 - r) mod 64 = 55 - r" .
    with True show ?thesis by simp
  next
    case False
    then have "(119 - r) mod 64 = 119 - r" by (intro mod_less) simp
    with False r(1) show ?thesis by simp
  qed
  then have "64 dvd r + Suc ((119 - r) mod 64) + 8" by auto
  then have "64 dvd 64 * (n div 64) + (r + Suc ((119 - r) mod 64) + 8)" by (intro dvd_add [of 64 "64 * (n div 64)"]) simp_all
  moreover have "n + Suc ((119 - r) mod 64) + 8 = 64 * (n div 64) + (r + Suc ((119 - r) mod 64) + 8)"
    using r(2) by linarith
  moreover have "length (hash_pad n) = Suc ((119 - r) mod 64)" by (simp add: hash_pad_def r_def)
  ultimately show ?thesis by (simp only:)
qed

section \<open>Words and their bytes\<close>

lemma uint_shift: "uint (drop_bit n w) = uint w div 2 ^ n" for w :: "32 word"
proof -
  have "uint (drop_bit n w) = drop_bit n (uint w)"
    by (simp add: unsigned_drop_bit_eq take_bit_int_eq_self uint_bounded [of w, simplified])
  then show ?thesis by (simp add: drop_bit_eq_div)
qed

lemma le_bytes_split: "le_bytes (a + b) n = le_bytes a n @ le_bytes b (n div 256 ^ a)"
  by (induction a arbitrary: n) (simp_all add: zdiv_zmult2_eq)

lemma le_bytes_mod: "le_bytes k (n + 256 ^ k * j) = le_bytes k n"
proof (induction k arbitrary: n)
  case 0
  then show ?case by simp
next
  case (Suc k)
  have "(n + 256 * (256 ^ k * j)) div 256 = n div 256 + 256 ^ k * j" by simp
  moreover have "word_of_int (n + 256 * (256 ^ k * j)) = (word_of_int n :: byte)"
    by (simp only: word_of_int_eq_iff take_bit_eq_mod) (simp add: mod_mult_left_eq)
  ultimately show ?case using Suc [of "n div 256"] by (simp add: mult.assoc add.commute)
qed

section \<open>The contract of an incremental hash\<close>

locale block_hash =
  fixes compress :: "'h \<Rightarrow> bytes \<Rightarrow> 'h"
    and chain :: "'s \<Rightarrow> 'h"
    and pending :: "'s \<Rightarrow> bytes"
    and count :: "'s \<Rightarrow> nat"
    and invar :: "'s \<Rightarrow> bool"
    and absorb :: "bytes \<Rightarrow> 's \<Rightarrow> 's"
  assumes absorb_step: "invar s \<Longrightarrow> count s + length x < 2 ^ 61 \<Longrightarrow> length x < 2 ^ 31 \<Longrightarrow>
      invar (absorb x s) \<and> count (absorb x s) = count s + length x \<and>
      chain (absorb x s) = hash_blocks compress (chain s) (pending s @ x) \<and>
      pending (absorb x s) = last_block (pending s @ x)"
begin

text \<open>\<open>has_read h s m\<close>: the state is that of a hash started at \<open>h\<close> which has read \<open>m\<close>.\<close>

definition has_read :: "'h \<Rightarrow> 's \<Rightarrow> bytes \<Rightarrow> bool" where
  "has_read h s m \<longleftrightarrow> invar s \<and> count s = length m \<and> chain s = hash_blocks compress h m \<and>
     pending s = last_block m"

lemma has_read_absorb:
  assumes "has_read h s m" "length m + length x < 2 ^ 61" "length x < 2 ^ 31"
  shows "has_read h (absorb x s) (m @ x)"
  using assms absorb_step [of s x]
  by (simp add: has_read_def hash_blocks_resume last_block_resume)

lemma has_read_chunks:
  assumes "has_read h s m" "length m + length (concat xs) < 2 ^ 61" "\<forall>x \<in> set xs. length x < 2 ^ 31"
  shows "has_read h (fold absorb xs s) (m @ concat xs)"
  using assms
proof (induction xs arbitrary: s m)
  case Nil
  then show ?case by simp
next
  case (Cons x xs)
  with has_read_absorb [of h s m x] have "has_read h (absorb x s) (m @ x)" by simp
  with Cons.IH [of "absorb x s" "m @ x"] Cons.prems show ?case by (simp add: add.assoc)
qed

text \<open>The parts the proofs of an interpretation need back.\<close>

lemma has_readD: "has_read h s m \<Longrightarrow> invar s"
  "has_read h s m \<Longrightarrow> count s = length m"
  "has_read h s m \<Longrightarrow> chain s = hash_blocks compress h m"
  "has_read h s m \<Longrightarrow> pending s = last_block m"
  by (simp_all add: has_read_def)

lemma has_readI: "invar s \<Longrightarrow> count s = 0 \<Longrightarrow> chain s = h \<Longrightarrow> pending s = [] \<Longrightarrow> has_read h s []"
  by (simp add: has_read_def last_block_def)

end

end
