(* ===== verification/Md5.thy ===== *)
theory Md5
  imports BlockHash
begin

unbundle bit_operations_syntax

text \<open>
  The MD5 of the mongo driver (\<open>mongo_c_driver/md5.c\<close>), on a little-endian host. The
  registers are a tuple that turns by one place per step, as the arguments of the
  \<open>SET\<close> macro do, so that the one to update is first.
\<close>

type_synonym md5_regs = "32 word \<times> 32 word \<times> 32 word \<times> 32 word"

record md5_state =
  md_count0 :: "32 word"
  md_count1 :: "32 word"
  md_abcd :: md5_regs
  md_buf :: bytes

section \<open>One block\<close>

definition t_mask :: "32 word" where
  "t_mask = NOT 0"

definition md5_T1 :: "32 word list" where
  "md5_T1 =
    [t_mask XOR 0x28955b87, t_mask XOR 0x173848a9, 0x242070db, t_mask XOR 0x3e423111,
    t_mask XOR 0x0a83f050, 0x4787c62a, t_mask XOR 0x57cfb9ec, t_mask XOR 0x02b96afe,
    0x698098d8, t_mask XOR 0x74bb0850, t_mask XOR 0x0000a44e, t_mask XOR 0x76a32841,
    0x6b901122, t_mask XOR 0x02678e6c, t_mask XOR 0x5986bc71, 0x49b40821]"

definition md5_T2 :: "32 word list" where
  "md5_T2 =
    [t_mask XOR 0x09e1da9d, t_mask XOR 0x3fbf4cbf, 0x265e5a51, t_mask XOR 0x16493855,
    t_mask XOR 0x29d0efa2, 0x02441453, t_mask XOR 0x275e197e, t_mask XOR 0x182c0437,
    0x21e1cde6, t_mask XOR 0x3cc8f829, t_mask XOR 0x0b2af278, 0x455a14ed,
    t_mask XOR 0x561c16fa, t_mask XOR 0x03105c07, 0x676f02d9, t_mask XOR 0x72d5b375]"

definition md5_T3 :: "32 word list" where
  "md5_T3 =
    [t_mask XOR 0x0005c6bd, t_mask XOR 0x788e097e, 0x6d9d6122, t_mask XOR 0x021ac7f3,
    t_mask XOR 0x5b4115bb, 0x4bdecfa9, t_mask XOR 0x0944b49f, t_mask XOR 0x4140438f,
    0x289b7ec6, t_mask XOR 0x155ed805, t_mask XOR 0x2b10cf7a, 0x04881d05,
    t_mask XOR 0x262b2fc6, t_mask XOR 0x1924661a, 0x1fa27cf8, t_mask XOR 0x3b53a99a]"

definition md5_T4 :: "32 word list" where
  "md5_T4 =
    [t_mask XOR 0x0bd6ddbb, 0x432aff97, t_mask XOR 0x546bdc58, t_mask XOR 0x036c5fc6,
    0x655b59c3, t_mask XOR 0x70f3336d, t_mask XOR 0x00100b82, t_mask XOR 0x7a7ba22e,
    0x6fa87e4f, t_mask XOR 0x01d3191f, t_mask XOR 0x5cfebceb, 0x4e0811a1,
    t_mask XOR 0x08ac817d, t_mask XOR 0x42c50dca, 0x2ad7d2bb, t_mask XOR 0x14792c6e]"

definition rotate_left :: "nat \<Rightarrow> 32 word \<Rightarrow> 32 word" where
  "rotate_left n x = push_bit n x OR drop_bit (32 - n) x"

definition md5_F :: "32 word \<Rightarrow> 32 word \<Rightarrow> 32 word \<Rightarrow> 32 word" where
  "md5_F x y z = (x AND y) OR (NOT x AND z)"

definition md5_G :: "32 word \<Rightarrow> 32 word \<Rightarrow> 32 word \<Rightarrow> 32 word" where
  "md5_G x y z = (x AND z) OR (y AND NOT z)"

definition md5_H :: "32 word \<Rightarrow> 32 word \<Rightarrow> 32 word \<Rightarrow> 32 word" where
  "md5_H x y z = x XOR y XOR z"

definition md5_I :: "32 word \<Rightarrow> 32 word \<Rightarrow> 32 word \<Rightarrow> 32 word" where
  "md5_I x y z = y XOR (x OR NOT z)"

text \<open>\<open>SET(a, b, c, d, k, s, Ti)\<close>, and the shift to the next call \<open>SET(d, a, b, c, \<dots>)\<close>.\<close>

fun md5_set :: "(32 word \<Rightarrow> 32 word \<Rightarrow> 32 word \<Rightarrow> 32 word) \<Rightarrow> 32 word list \<Rightarrow> nat \<times> nat \<times> 32 word
    \<Rightarrow> md5_regs \<Rightarrow> md5_regs" where
  "md5_set f X (k, s, Ti) (a, b, c, d) =
     (let t = a + f b c d + X ! k + Ti in (d, rotate_left s t + b, b, c))"

definition md5_round1 :: "32 word list \<Rightarrow> md5_regs \<Rightarrow> md5_regs" where
  "md5_round1 X = fold (md5_set md5_F X)
     (zip [0, 1, 2, 3, 4, 5, 6, 7, 8, 9, 10, 11, 12, 13, 14, 15]
       (zip (concat (replicate 4 [7, 12, 17, 22])) md5_T1))"

definition md5_round2 :: "32 word list \<Rightarrow> md5_regs \<Rightarrow> md5_regs" where
  "md5_round2 X = fold (md5_set md5_G X)
     (zip [1, 6, 11, 0, 5, 10, 15, 4, 9, 14, 3, 8, 13, 2, 7, 12]
       (zip (concat (replicate 4 [5, 9, 14, 20])) md5_T2))"

definition md5_round3 :: "32 word list \<Rightarrow> md5_regs \<Rightarrow> md5_regs" where
  "md5_round3 X = fold (md5_set md5_H X)
     (zip [5, 8, 11, 14, 1, 4, 7, 10, 13, 0, 3, 6, 9, 12, 15, 2]
       (zip (concat (replicate 4 [4, 11, 16, 23])) md5_T3))"

definition md5_round4 :: "32 word list \<Rightarrow> md5_regs \<Rightarrow> md5_regs" where
  "md5_round4 X = fold (md5_set md5_I X)
     (zip [0, 7, 14, 5, 12, 3, 10, 1, 8, 15, 6, 13, 4, 11, 2, 9]
       (zip (concat (replicate 4 [6, 10, 15, 21])) md5_T4))"

text \<open>The 64 bytes read as 16 little-endian words.\<close>

definition md5_words :: "bytes \<Rightarrow> 32 word list" where
  "md5_words data = map (\<lambda>k. word_of_int (le_val (block_at (4 * k) 4 data))) [0..<16]"

fun regs_add :: "md5_regs \<Rightarrow> md5_regs \<Rightarrow> md5_regs" where
  "regs_add (a, b, c, d) (a', b', c', d') = (a + a', b + b', c + c', d + d')"

definition md5_process :: "md5_regs \<Rightarrow> bytes \<Rightarrow> md5_regs" where
  "md5_process abcd data =
     (let X = md5_words data
      in regs_add abcd (md5_round4 X (md5_round3 X (md5_round2 X (md5_round1 X abcd)))))"

section \<open>Init, append, finish\<close>

definition md5_init_regs :: md5_regs where
  "md5_init_regs = (0x67452301, t_mask XOR 0x10325476, t_mask XOR 0x67452301, 0x10325476)"

text \<open>\<open>buf\<close> is not initialised.\<close>

definition md5_init :: "bytes \<Rightarrow> md5_state" where
  "md5_init junk = \<lparr>md_count0 = 0, md_count1 = 0, md_abcd = md5_init_regs, md_buf = junk\<rparr>"

text \<open>The loop over the full blocks: the registers and what is left of \<open>p\<close>.\<close>

function md5_full :: "md5_regs \<Rightarrow> bytes \<Rightarrow> md5_regs \<times> bytes" where
  "md5_full abcd p =
     (if 64 \<le> length p then md5_full (md5_process abcd (take 64 p)) (drop 64 p) else (abcd, p))"
  by pat_completeness auto
termination by (relation "measure (\<lambda>(abcd, p). length p)") auto

declare md5_full.simps [simp del]

text \<open>The part after the length update, from the offset in \<open>buf\<close>.\<close>

definition md5_feed :: "nat \<Rightarrow> bytes \<Rightarrow> md5_state \<Rightarrow> md5_state" where
  "md5_feed offset data s =
     (let copy = (if offset = 0 then 0
                  else if 64 < offset + length data then 64 - offset else length data);
          s1 = (if offset = 0 then s else s\<lparr>md_buf := blit (md_buf s) offset (take copy data)\<rparr>)
      in if offset \<noteq> 0 \<and> offset + copy < 64 then s1
         else
           let s2 = (if offset = 0 then s1 else s1\<lparr>md_abcd := md5_process (md_abcd s1) (md_buf s1)\<rparr>);
               (abcd, p) = md5_full (md_abcd s2) (drop copy data)
           in s2\<lparr>md_abcd := abcd, md_buf := (if p = [] then md_buf s2 else blit (md_buf s2) 0 p)\<rparr>)"

text \<open>\<open>nbytes\<close> is the length of \<open>data\<close>, an \<open>int\<close>.\<close>

definition md5_append :: "bytes \<Rightarrow> md5_state \<Rightarrow> md5_state" where
  "md5_append data s =
     (let nbytes = length data;
          offset = unat (drop_bit 3 (md_count0 s) AND 63);
          nbits = of_nat (nbytes * 8) :: 32 word
      in if nbytes = 0 then s
         else
           let c1 = md_count1 s + of_nat (nbytes div 2 ^ 29);
               c0 = md_count0 s + nbits;
               c1' = (if c0 < nbits then c1 + 1 else c1)
           in md5_feed offset data (s\<lparr>md_count0 := c0, md_count1 := c1'\<rparr>))"

definition md5_pad :: bytes where
  "md5_pad = 0x80 # replicate 63 0"

fun regs_list :: "md5_regs \<Rightarrow> 32 word list" where
  "regs_list (a, b, c, d) = [a, b, c, d]"

text \<open>Byte \<open>i\<close> of an array of words: \<open>w[i >> 2] >> ((i & 3) << 3)\<close>.\<close>

definition word_byte :: "32 word list \<Rightarrow> nat \<Rightarrow> byte" where
  "word_byte ws i = ucast (drop_bit (8 * (i mod 4)) (ws ! (i div 4)))"

definition md5_finish :: "md5_state \<Rightarrow> bytes" where
  "md5_finish s =
     (let data = map (word_byte [md_count0 s, md_count1 s]) [0..<8];
          n = unat ((55 - drop_bit 3 (md_count0 s)) AND 63) + 1;
          s1 = md5_append data (md5_append (take n md5_pad) s)
      in map (word_byte (regs_list (md_abcd s1))) [0..<16])"

section \<open>The reference\<close>

definition md5_ref :: "bytes \<Rightarrow> bytes" where
  "md5_ref m =
     map (word_byte (regs_list (hash_blocks md5_process md5_init_regs
       (m @ hash_pad (length m) @ le_bytes 8 (8 * int (length m)))))) [0..<16]"

section \<open>Feeding bytes\<close>

lemma last_block_drop: "64 \<le> length m \<Longrightarrow> last_block (drop 64 m) = last_block m"
  using last_block_append [of "take 64 m" "drop 64 m"] by simp

lemma md5_full_blocks: "md5_full h p = (hash_blocks md5_process h p, last_block p)"
proof (induction h p rule: md5_full.induct)
  case (1 h p)
  show ?case
  proof (cases "64 \<le> length p")
    case True
    then have "hash_blocks md5_process h p = hash_blocks md5_process (md5_process h (take 64 p)) (drop 64 p)"
      by (simp add: hash_blocks.simps [of md5_process h p])
    with 1 [OF True] True show ?thesis by (simp add: md5_full.simps [of h p] last_block_drop)
  next
    case False
    then show ?thesis by (simp add: md5_full.simps [of h p])
  qed
qed

lemma take_blit_0: "length p \<le> length buf \<Longrightarrow> take (length p) (blit buf 0 p) = p"
  by (simp add: blit_def)

text \<open>The state after feeding \<open>p\<close> to a state without pending bytes.\<close>

lemma md5_feed_start:
  assumes "length buf = 64"
  shows "length (if last_block p = [] then buf else blit buf 0 (last_block p)) = 64"
    "take (length p mod 64) (if last_block p = [] then buf else blit buf 0 (last_block p)) = last_block p"
proof -
  have l: "length (last_block p) = length p mod 64" by (rule last_block_length)
  then have "length (last_block p) < 64" by simp
  then show "length (if last_block p = [] then buf else blit buf 0 (last_block p)) = 64"
    using assms by simp
  show "take (length p mod 64) (if last_block p = [] then buf else blit buf 0 (last_block p)) = last_block p"
    using l \<open>length (last_block p) < 64\<close> take_blit_0 [of "last_block p" buf] assms
    by (auto simp del: length_blit)
qed

lemma md5_feed_blocks:
  assumes "length (md_buf s) = 64" "off < 64"
  shows "md_abcd (md5_feed off data s) = hash_blocks md5_process (md_abcd s) (take off (md_buf s) @ data) \<and>
    take ((off + length data) mod 64) (md_buf (md5_feed off data s)) = last_block (take off (md_buf s) @ data) \<and>
    length (md_buf (md5_feed off data s)) = 64 \<and>
    md_count0 (md5_feed off data s) = md_count0 s \<and> md_count1 (md5_feed off data s) = md_count1 s"
proof (cases "off = 0")
  case True
  then show ?thesis using md5_feed_start [OF assms(1), of data]
    by (cases "last_block data = []") (auto simp: md5_feed_def md5_full_blocks)
next
  case off: False
  show ?thesis
  proof (cases "off + length data < 64")
    case True
    have "md5_feed off data s = s\<lparr>md_buf := blit (md_buf s) off data\<rparr>"
      using off True by (simp add: md5_feed_def)
    with True assms show ?thesis by (simp add: take_blit_all)
  next
    case False
    let ?c = "64 - off" and ?b = "blit (md_buf s) off (take (64 - off) data)"
    have copy: "(if 64 < off + length data then 64 - off else length data) = ?c" using False by auto
    have b: "?b = take off (md_buf s) @ take ?c data" "length ?b = 64"
      using assms False by (simp_all add: blit_def)
    have f: "md5_feed off data s = s\<lparr>md_buf :=
          (if last_block (drop ?c data) = [] then ?b else blit ?b 0 (last_block (drop ?c data))),
        md_abcd := hash_blocks md5_process (md5_process (md_abcd s) ?b) (drop ?c data)\<rparr>"
      using off assms(2) unfolding md5_feed_def copy by (simp add: md5_full_blocks Let_def)
    have "take off (md_buf s) @ data = ?b @ drop ?c data" by (simp add: b(1))
    then have "hash_blocks md5_process (md_abcd s) (take off (md_buf s) @ data) =
        hash_blocks md5_process (md5_process (md_abcd s) ?b) (drop ?c data)"
      "last_block (take off (md_buf s) @ data) = last_block (drop ?c data)"
      using hash_blocks_block [OF b(2)] last_block_append [of ?b "drop ?c data"] b(2) by simp_all
    moreover have "(off + length data) mod 64 = length (drop ?c data) mod 64"
    proof -
      have "off + length data = 64 + length (drop ?c data)" using False assms(2) by simp
      then show ?thesis by (simp only: mod_add_self1)
    qed
    ultimately show ?thesis using f md5_feed_start [OF b(2), of "drop ?c data"] by simp
  qed
qed

section \<open>The length\<close>

definition md5_bits :: "md5_state \<Rightarrow> nat" where
  "md5_bits s = unat (md_count1 s) * 2 ^ 32 + unat (md_count0 s)"

definition md5_len :: "md5_state \<Rightarrow> nat" where
  "md5_len s = md5_bits s div 8"

definition md5_pending :: "md5_state \<Rightarrow> bytes" where
  "md5_pending s = take (md5_len s mod 64) (md_buf s)"

definition md5_ok :: "md5_state \<Rightarrow> bool" where
  "md5_ok s \<longleftrightarrow> length (md_buf s) = 64 \<and> 8 dvd md5_bits s"

text \<open>Adding to the two words of the count, with the carry found by comparison.\<close>

lemma count_add:
  fixes c0 c1 :: "32 word"
  assumes "unat c1 * 2 ^ 32 + unat c0 + 8 * n < 2 ^ 64"
  defines "nb \<equiv> of_nat (n * 8) :: 32 word"
  defines "c1' \<equiv> (if c0 + nb < nb then c1 + of_nat (n div 2 ^ 29) + 1 else c1 + of_nat (n div 2 ^ 29))"
  shows "unat c1' * 2 ^ 32 + unat (c0 + nb) = unat c1 * 2 ^ 32 + unat c0 + 8 * n"
proof -
  define q r where "q = n div 2 ^ 29" "r = n mod 2 ^ 29"
  have n: "n = q * 2 ^ 29 + r" "r < 2 ^ 29" by (simp_all add: q_r_def)
  have c0: "unat c0 < 2 ^ 32" "unat c1 < 2 ^ 32"
    using unsigned_less [of c0] unsigned_less [of c1] by simp_all
  have nb: "unat nb = r * 8"
  proof -
    have "n * 8 = q * 2 ^ 32 + r * 8" using n by simp
    then have "n * 8 mod 2 ^ 32 = r * 8" using n(2) by simp
    then show ?thesis unfolding nb_def unat_of_nat by simp
  qed
  have q: "unat c1 + q < 2 ^ 32" using assms(1) n c0 by simp
  then have qw: "unat (c1 + of_nat q) = unat c1 + q" by (simp add: unat_word_ariths unat_of_nat)
  show ?thesis
  proof (cases "unat c0 + r * 8 < 2 ^ 32")
    case True
    then have u: "unat (c0 + nb) = unat c0 + r * 8" by (simp add: unat_word_ariths nb)
    then have "\<not> c0 + nb < nb" by (simp add: word_less_nat_alt nb)
    then have "c1' = c1 + of_nat q" by (simp add: c1'_def q_r_def)
    with qw u n show ?thesis by simp
  next
    case False
    then have u: "unat (c0 + nb) = unat c0 + r * 8 - 2 ^ 32"
      using c0 n(2) by (simp add: unat_word_ariths nb mod_if)
    then have "c0 + nb < nb" using c0 False by (simp add: word_less_nat_alt nb)
    then have c1': "c1' = c1 + of_nat q + 1" by (simp add: c1'_def q_r_def)
    have "unat c1 + q + 1 < 2 ^ 32" using assms(1) n c0 False by simp
    then have "unat c1' = unat c1 + q + 1" unfolding c1' using qw by (simp add: unat_word_ariths)
    with u n False show ?thesis by simp
  qed
qed

lemma md5_offset: "unat (drop_bit 3 (md_count0 s) AND 63) = md5_len s mod 64"
proof -
  have "drop_bit 3 (md_count0 s) AND 63 = take_bit 6 (drop_bit 3 (md_count0 s))"
    by (simp add: take_bit_eq_mask mask_eq_exp_minus_1)
  moreover have "unat (md_count0 s) < 2 ^ 32" using unsigned_less [of "md_count0 s"] by simp
  ultimately have "unat (drop_bit 3 (md_count0 s) AND 63) = unat (md_count0 s) div 8 mod 64"
    by (simp add: unsigned_take_bit_eq unsigned_drop_bit_eq) (simp add: take_bit_eq_mod drop_bit_eq_div)
  moreover have "(unat (md_count1 s) * 2 ^ 32 + unat (md_count0 s)) div 8 =
      unat (md_count1 s) * 2 ^ 29 + unat (md_count0 s) div 8" by simp
  moreover have "(unat (md_count1 s) * 2 ^ 29 + unat (md_count0 s) div 8) mod 64 = unat (md_count0 s) div 8 mod 64"
  proof -
    have "unat (md_count1 s) * 2 ^ 29 + unat (md_count0 s) div 8 =
        64 * (unat (md_count1 s) * 2 ^ 23) + unat (md_count0 s) div 8" by simp
    then show ?thesis by (simp only: mod_mult_self4)
  qed
  ultimately show ?thesis by (simp add: md5_len_def md5_bits_def)
qed

lemma md5_append_step:
  assumes "md5_ok s" "md5_len s + length x < 2 ^ 61"
  shows "md5_ok (md5_append x s) \<and> md5_len (md5_append x s) = md5_len s + length x \<and>
    md_abcd (md5_append x s) = hash_blocks md5_process (md_abcd s) (md5_pending s @ x) \<and>
    md5_pending (md5_append x s) = last_block (md5_pending s @ x)"
proof (cases "x = []")
  case True
  have "length (md5_pending s) < 64" using assms(1) by (simp add: md5_pending_def md5_ok_def)
  with True assms show ?thesis by (simp add: md5_append_def)
next
  case False
  let ?off = "md5_len s mod 64"
  define c0 where "c0 = md_count0 s + of_nat (length x * 8)"
  define c1 where "c1 = (if c0 < of_nat (length x * 8) then md_count1 s + of_nat (length x div 2 ^ 29) + 1
      else md_count1 s + of_nat (length x div 2 ^ 29))"
  define t where "t = s\<lparr>md_count0 := c0, md_count1 := c1\<rparr>"
  have e: "md5_append x s = md5_feed ?off x t"
    using False unfolding md5_append_def md5_offset Let_def t_def c0_def c1_def by simp
  have l8: "md5_bits s = 8 * md5_len s" using assms(1) by (auto simp: md5_ok_def md5_len_def)
  have bits: "md5_bits t = md5_bits s + 8 * length x"
    using count_add [of "md_count1 s" "md_count0 s" "length x"] assms(2) l8
    by (simp add: md5_bits_def t_def c0_def c1_def)
  have b: "length (md_buf t) = 64" using assms(1) by (simp add: t_def md5_ok_def)
  have o: "?off < 64" by simp
  note f = md5_feed_blocks [OF b o, of x]
  have bf: "md5_bits (md5_append x s) = 8 * (md5_len s + length x)"
    using f bits l8 unfolding e by (simp add: md5_bits_def)
  then have len: "md5_len (md5_append x s) = md5_len s + length x" by (simp add: md5_len_def)
  have "(?off + length x) mod 64 = (md5_len s + length x) mod 64" by (simp add: mod_simps)
  with f len show ?thesis
    unfolding md5_pending_def md5_ok_def bf unfolding e by (simp add: t_def)
qed

interpretation md5: block_hash md5_process md_abcd md5_pending md5_len md5_ok md5_append
  by unfold_locales (use md5_append_step in blast)

section \<open>The end\<close>

lemma md5_len_low: "unat (md_count0 s) div 8 mod 64 = md5_len s mod 64"
proof -
  have "drop_bit 3 (md_count0 s) AND 63 = take_bit 6 (drop_bit 3 (md_count0 s))"
    by (simp add: take_bit_eq_mask mask_eq_exp_minus_1)
  moreover have "unat (md_count0 s) < 2 ^ 32" using unsigned_less [of "md_count0 s"] by simp
  ultimately have "unat (drop_bit 3 (md_count0 s) AND 63) = unat (md_count0 s) div 8 mod 64"
    by (simp add: unsigned_take_bit_eq unsigned_drop_bit_eq) (simp add: take_bit_eq_mod drop_bit_eq_div)
  with md5_offset [of s] show ?thesis by simp
qed

text \<open>The length of the padding, computed on the 32-bit count.\<close>

lemma md5_pad_count:
  "unat ((55 - drop_bit 3 (md_count0 s)) AND 63) = (119 - md5_len s mod 64) mod 64"
proof -
  let ?x = "drop_bit 3 (md_count0 s)"
  have u: "uint ?x = int (unat (md_count0 s) div 8)"
    by (simp add: uint_shift zdiv_int)
  have "uint ((55 - ?x) AND 63) = uint (take_bit 6 (55 - ?x))"
    by (simp add: take_bit_eq_mask mask_eq_exp_minus_1)
  also have "\<dots> = (55 - uint ?x) mod 64"
  proof -
    have "uint (take_bit 6 (55 - ?x)) = take_bit 6 (uint (55 - ?x))"
      by (simp add: unsigned_take_bit_eq)
    also have "\<dots> = uint (55 - ?x) mod 64" by (simp add: take_bit_eq_mod)
    also have "\<dots> = (55 - uint ?x) mod 4294967296 mod 64" by (simp add: uint_word_ariths)
    also have "\<dots> = (55 - uint ?x) mod 64" by (rule mod_mod_cancel) simp
    finally show ?thesis .
  qed
  also have "\<dots> = (55 - int (unat (md_count0 s) div 8 mod 64)) mod 64"
    unfolding u by (simp add: zmod_int mod_simps)
  also have "\<dots> = (55 - int (md5_len s mod 64)) mod 64" by (simp only: md5_len_low)
  also have "\<dots> = int ((119 - md5_len s mod 64) mod 64)"
  proof -
    have "md5_len s mod 64 < 64" by simp
    then have "int (119 - md5_len s mod 64) = 64 + (55 - int (md5_len s mod 64))" by simp
    then show ?thesis by (metis mod_add_self1 zmod_int of_nat_numeral)
  qed
  finally have "uint ((55 - ?x) AND 63) = int ((119 - md5_len s mod 64) mod 64)" .
  then show ?thesis by (simp add: unat_eq_nat_uint)
qed

lemma md5_pad_take: "take (unat ((55 - drop_bit 3 (md_count0 s)) AND 63) + 1) md5_pad = hash_pad (md5_len s)"
proof -
  have "(119 - md5_len s mod 64) mod 64 \<le> 63" using mod_less_divisor [of 64 "119 - md5_len s mod 64"] by linarith
  then show ?thesis unfolding md5_pad_count by (simp add: md5_pad_def hash_pad_def min_absorb1)
qed

lemma word_byte_le:
  "word_byte [w] k = word_of_int (uint w div 256 ^ k)" if "k < 4" for w :: "32 word"
proof -
  have "uint (drop_bit (8 * k) w) = uint w div 256 ^ k"
    by (simp add: uint_shift power_mult)
  with that show ?thesis by (simp add: word_byte_def ucast_eq)
qed

text \<open>The eight bytes of the count, before the padding changes it.\<close>

lemma le_bytes_word: "le_bytes 4 (uint w) = map (word_byte [w]) [0..<4]" for w :: "32 word"
proof -
  have "[0..<4] = [0, 1, 2, Suc 2]" by (simp add: upt_rec)
  then show ?thesis
    by (simp add: le_bytes_4 word_byte_le zdiv_zmult2_eq [symmetric] del: ucast_eq)
qed

lemma word_byte_two: "map (word_byte [v, w]) [0..<8] = map (word_byte [v]) [0..<4] @ map (word_byte [w]) [0..<4]"
proof -
  have "[0..<8] = [0..<4] @ map (\<lambda>i. i + 4) [0..<4]" by (simp add: upt_rec)
  moreover have "word_byte [v, w] i = word_byte [v] i" "word_byte [v, w] (i + 4) = word_byte [w] i"
    if "i < 4" for i using that by (simp_all add: word_byte_def)
  ultimately show ?thesis by simp
qed

lemma md5_length_bytes:
  assumes "md5_ok s"
  shows "map (word_byte [md_count0 s, md_count1 s]) [0..<8] = le_bytes 8 (8 * int (md5_len s))"
proof -
  have b: "8 * int (md5_len s) = uint (md_count0 s) + 256 ^ 4 * uint (md_count1 s)"
  proof -
    have "8 * md5_len s = md5_bits s" using assms by (simp add: md5_ok_def md5_len_def)
    then have "int (8 * md5_len s) = int (md5_bits s)" by (rule arg_cong)
    then show ?thesis by (simp add: md5_bits_def)
  qed
  have "le_bytes (4 + 4) (8 * int (md5_len s)) =
      le_bytes 4 (uint (md_count0 s)) @ le_bytes 4 (uint (md_count1 s))"
    unfolding b le_bytes_split le_bytes_mod using uint_bounded [of "md_count0 s"] by simp
  then show ?thesis by (simp add: word_byte_two le_bytes_word)
qed

lemma md5_has_read_finish:
  assumes "md5.has_read md5_init_regs s m" "length m + 128 < 2 ^ 61"
  shows "md5_finish s = md5_ref m"
proof -
  have ok: "md5_ok s" "md5_len s = length m"
    using md5.has_readD(1,2) [OF assms(1)] by simp_all
  let ?p = "hash_pad (length m)" and ?l = "le_bytes 8 (8 * int (length m))"
  have pl: "length ?p \<le> 64"
    using mod_less_divisor [of 64 "119 - length m mod 64"] by (simp add: hash_pad_def)
  have r1: "md5.has_read md5_init_regs (md5_append ?p s) (m @ ?p)"
    using md5.has_read_absorb [OF assms(1), of ?p] assms(2) pl by simp
  have r2: "md5.has_read md5_init_regs (md5_append ?l (md5_append ?p s)) ((m @ ?p) @ ?l)"
    using md5.has_read_absorb [OF r1, of ?l] assms(2) pl by simp
  have "md_abcd (md5_append ?l (md5_append ?p s)) = hash_blocks md5_process md5_init_regs (m @ ?p @ ?l)"
    using md5.has_readD(3) [OF r2] by simp
  then show ?thesis
    using ok md5_pad_take [of s] md5_length_bytes [OF ok(1)]
    by (simp only: md5_finish_def md5_ref_def Let_def)
qed

section \<open>Properties\<close>

text \<open>
  C40. However a message is cut into pieces, appending the pieces and finishing
  gives the MD5 of the whole: the compression of its 64-byte blocks after the
  padding with a one bit, zeros and the length in bits. The buffer's previous
  contents do not matter, and the 64-bit count is exact.
\<close>

theorem md5_incremental:
  assumes "length junk = 64" "\<forall>x \<in> set xs. length x < 2 ^ 31" "length (concat xs) + 128 < 2 ^ 61"
  shows "md5_finish (fold md5_append xs (md5_init junk)) = md5_ref (concat xs)"
proof -
  have "md5_ok (md5_init junk)" "md5_len (md5_init junk) = 0" "md5_pending (md5_init junk) = []"
    "md_abcd (md5_init junk) = md5_init_regs"
    using assms(1) by (simp_all add: md5_ok_def md5_len_def md5_bits_def md5_pending_def md5_init_def)
  then have "md5.has_read md5_init_regs (md5_init junk) []" by (intro md5.has_readI)
  from md5.has_read_chunks [OF this, of xs] assms(2,3)
  have "md5.has_read md5_init_regs (fold md5_append xs (md5_init junk)) (concat xs)" by simp
  from md5_has_read_finish [OF this assms(3)] show ?thesis .
qed

theorem md5_incremental_witness:
  "md5_finish (fold md5_append [[97], [98, 99]] (md5_init (replicate 64 7))) = md5_ref [97, 98, 99]"
  using md5_incremental [of "replicate 64 7" "[[97], [98, 99]]"] by simp

text \<open>
  The digests of the empty message and of "abc" are those of RFC 1321, so the
  tables, the rounds and the byte orders are the standard's.
\<close>

theorem md5_vectors:
  "md5_ref [] = [0xd4, 0x1d, 0x8c, 0xd9, 0x8f, 0x00, 0xb2, 0x04, 0xe9, 0x80, 0x09, 0x98, 0xec, 0xf8, 0x42, 0x7e] \<and>
   md5_ref [97, 98, 99] = [0x90, 0x01, 0x50, 0x98, 0x3c, 0xd2, 0x4f, 0xb0, 0xd6, 0x96, 0x3f, 0x7d, 0x28, 0xe1, 0x7f, 0x72]"
  by code_simp

end
