(* ===== verification/Base64.thy ===== *)
theory Base64
  imports Prelude
begin

unbundle bit_operations_syntax

text \<open>
  The Base64 coder of the websocket handshake (\<open>logic/base64.cpp\<close>). The loops keep
  the bytes collected so far (\<open>char_array_3\<close>, \<open>char_array_4\<close> up to \<open>i\<close>) and the
  result string.
\<close>

definition base64_chars :: bytes where
  "base64_chars = map of_char
    (''ABCDEFGHIJKLMNOPQRSTUVWXYZ'' @ ''abcdefghijklmnopqrstuvwxyz'' @ ''0123456789+/'')"

definition pad_char :: byte where
  "pad_char = 61"

text \<open>\<open>isalnum\<close> of the C locale, \<open>+\<close> and \<open>/\<close>.\<close>

definition is_base64 :: "byte \<Rightarrow> bool" where
  "is_base64 c \<longleftrightarrow> 48 \<le> c \<and> c \<le> 57 \<or> 65 \<le> c \<and> c \<le> 90 \<or> 97 \<le> c \<and> c \<le> 122 \<or> c = 43 \<or> c = 47"

text \<open>\<open>find\<close>, stored in an \<open>unsigned char\<close>: \<open>npos\<close> becomes 255.\<close>

definition base64_find :: "byte \<Rightarrow> byte" where
  "base64_find c = (case find (\<lambda>i. base64_chars ! i = c) [0..<length base64_chars] of
     None \<Rightarrow> 255 | Some i \<Rightarrow> of_nat i)"

section \<open>Encoding\<close>

text \<open>The four indices of three bytes.\<close>

definition enc_quad :: "byte \<Rightarrow> byte \<Rightarrow> byte \<Rightarrow> bytes" where
  "enc_quad a b c =
     [drop_bit 2 (a AND 0xfc),
      push_bit 4 (a AND 0x03) + drop_bit 4 (b AND 0xf0),
      push_bit 2 (b AND 0x0f) + drop_bit 6 (c AND 0xc0),
      c AND 0x3f]"

definition enc_chars :: "bytes \<Rightarrow> bytes" where
  "enc_chars q = map (\<lambda>i. base64_chars ! unat i) q"

fun enc_loop :: "bytes \<Rightarrow> bytes \<Rightarrow> bytes \<Rightarrow> bytes \<times> bytes" where
  "enc_loop [] arr ret = (arr, ret)"
| "enc_loop (x # xs) arr ret =
     (let arr' = arr @ [x]
      in if length arr' = 3 then enc_loop xs [] (ret @ enc_chars (enc_quad (arr' ! 0) (arr' ! 1) (arr' ! 2)))
         else enc_loop xs arr' ret)"

definition base64_encode :: "bytes \<Rightarrow> bytes" where
  "base64_encode inp =
     (let (arr, ret) = enc_loop inp [] []; i = length arr
      in if i \<noteq> 0 then
           (let arr3 = arr @ replicate (3 - i) 0
            in ret @ enc_chars (take (i + 1) (enc_quad (arr3 ! 0) (arr3 ! 1) (arr3 ! 2)))
                 @ replicate (3 - i) pad_char)
         else ret)"

section \<open>Decoding\<close>

definition dec_triple :: "byte \<Rightarrow> byte \<Rightarrow> byte \<Rightarrow> byte \<Rightarrow> bytes" where
  "dec_triple a b c d =
     [push_bit 2 a + drop_bit 4 (b AND 0x30),
      push_bit 4 (b AND 0xf) + drop_bit 2 (c AND 0x3c),
      push_bit 6 (c AND 0x3) + d]"

fun dec_loop :: "bytes \<Rightarrow> bytes \<Rightarrow> bytes \<Rightarrow> bytes \<times> bytes" where
  "dec_loop [] arr ret = (arr, ret)"
| "dec_loop (x # xs) arr ret =
     (if x \<noteq> pad_char \<and> is_base64 x then
        (let arr' = arr @ [x]
         in if length arr' = 4
            then (let v = map base64_find arr'
                  in dec_loop xs [] (ret @ dec_triple (v ! 0) (v ! 1) (v ! 2) (v ! 3)))
            else dec_loop xs arr' ret)
      else (arr, ret))"

definition base64_decode :: "bytes \<Rightarrow> bytes" where
  "base64_decode s =
     (let (arr, ret) = dec_loop s [] []; i = length arr
      in if i \<noteq> 0 then
           (let v = map base64_find (arr @ replicate (4 - i) 0)
            in ret @ take (i - 1) (dec_triple (v ! 0) (v ! 1) (v ! 2) (v ! 3)))
         else ret)"

section \<open>Bits\<close>

lemma byte_no_bit [simp]: "\<not> bit (a :: byte) (Suc (Suc (Suc (Suc (Suc (Suc (Suc (Suc n))))))))"
  by (auto dest: bit_imp_le_length)

lemma byte_and_mask:
  "(a :: byte) AND 3 = take_bit 2 a" "a AND 0x0f = take_bit 4 a" "a AND 0x3f = take_bit 6 a"
  by (simp_all add: take_bit_eq_mask mask_eq_exp_minus_1)

lemma byte_drop_and:
  "drop_bit 2 ((a :: byte) AND 0xfc) = drop_bit 2 a" "drop_bit 4 (a AND 0xf0) = drop_bit 4 a"
  "drop_bit 6 (a AND 0xc0) = drop_bit 6 a" "drop_bit 4 (a AND 0x30) = drop_bit 4 (take_bit 6 a)"
  "drop_bit 2 (a AND 0x3c) = drop_bit 2 (take_bit 6 a)"
  by (auto intro!: bit_word_eqI simp: bit_simps less_Suc_eq numeral_eq_Suc)

lemmas byte_fields = byte_and_mask byte_drop_and

lemmas byte_nat = word_unat_eq_iff unsigned_drop_bit_eq unsigned_take_bit_eq unsigned_push_bit_eq
  unat_word_ariths

lemmas nat_fields = drop_bit_eq_div take_bit_eq_mod push_bit_eq_mult

lemma byte_less: "unat (a :: byte) < 256"
  using unsigned_less [of a] by simp

lemma dec_enc_quad:
  "enc_quad a b c = [w, x, y, z] \<Longrightarrow> dec_triple w x y z = [a, b, c]"
  using byte_less [of a] byte_less [of b] byte_less [of c]
  by (clarsimp simp: enc_quad_def dec_triple_def byte_fields) (simp add: byte_nat, simp add: nat_fields)

text \<open>The last group: what is cut off does not matter.\<close>

lemma dec_enc_one:
  "enc_quad a 0 0 = [w, x, y, z] \<Longrightarrow> take 1 (dec_triple w x y' z') = [a]"
  using byte_less [of a]
  by (clarsimp simp: enc_quad_def dec_triple_def byte_fields) (simp add: byte_nat, simp add: nat_fields)

lemma dec_enc_two:
  "enc_quad a b 0 = [w, x, y, z] \<Longrightarrow> take 2 (dec_triple w x y z') = [a, b]"
  using byte_less [of a] byte_less [of b]
  by (clarsimp simp: enc_quad_def dec_triple_def byte_fields) (simp add: byte_nat, simp add: nat_fields)

lemma enc_quad_range: "\<forall>i \<in> set (enc_quad a b c). unat i < 64"
  using byte_less [of a] byte_less [of b] byte_less [of c]
  by (auto simp: enc_quad_def byte_fields byte_nat) (simp_all add: nat_fields)

section \<open>Characters\<close>

lemma base64_chars_list: "base64_chars =
  [65, 66, 67, 68, 69, 70, 71, 72, 73, 74, 75, 76, 77, 78, 79, 80, 81, 82, 83, 84, 85, 86, 87, 88, 89, 90,
   97, 98, 99, 100, 101, 102, 103, 104, 105, 106, 107, 108, 109, 110, 111, 112, 113, 114, 115, 116, 117,
   118, 119, 120, 121, 122, 48, 49, 50, 51, 52, 53, 54, 55, 56, 57, 43, 47]"
  by (simp add: base64_chars_def)

lemma length_base64_chars [simp]: "length base64_chars = 64"
  by (simp add: base64_chars_list)

lemma distinct_base64_chars: "distinct base64_chars"
  unfolding base64_chars_list by simp

lemma base64_chars_ok: "\<forall>c \<in> set base64_chars. c \<noteq> pad_char \<and> is_base64 c"
  unfolding base64_chars_list by (simp add: is_base64_def pad_char_def)

lemma base64_char:
  assumes "unat i < 64"
  shows "base64_find (base64_chars ! unat i) = i" "base64_chars ! unat i \<noteq> pad_char"
    "is_base64 (base64_chars ! unat i)"
proof -
  have "find (\<lambda>j. base64_chars ! j = base64_chars ! unat i) [0..<length base64_chars] = Some (unat i)"
    using assms distinct_base64_chars
    by (auto simp: find_Some_iff nth_eq_iff_index_eq intro!: exI [of _ "unat i"])
  then show "base64_find (base64_chars ! unat i) = i" by (simp add: base64_find_def)
  have "base64_chars ! unat i \<in> set base64_chars" using assms by simp
  with base64_chars_ok show "base64_chars ! unat i \<noteq> pad_char" "is_base64 (base64_chars ! unat i)"
    by blast+
qed

section \<open>Decoding an encoding\<close>

lemma dec_loop_chars:
  assumes "\<forall>i \<in> set q. unat i < 64" "length arr + length q < 4"
  shows "dec_loop (enc_chars q @ xs) arr ret = dec_loop xs (arr @ enc_chars q) ret"
  using assms
proof (induction q arbitrary: arr)
  case Nil
  then show ?case by (simp add: enc_chars_def)
next
  case (Cons i q)
  then show ?case using base64_char [of i] by (simp add: enc_chars_def)
qed

lemma map_find_chars: "\<forall>i \<in> set q. unat i < 64 \<Longrightarrow> map base64_find (enc_chars q) = q"
  by (induction q) (auto simp: enc_chars_def base64_char)

lemma dec_loop_quad:
  assumes "\<forall>i \<in> {a, b, c, d}. unat i < 64"
  shows "dec_loop (enc_chars [a, b, c, d] @ xs) [] ret = dec_loop xs [] (ret @ dec_triple a b c d)"
  using assms base64_char [of a] base64_char [of b] base64_char [of c] base64_char [of d]
  by (simp add: enc_chars_def Let_def)

lemma enc_loop_3:
  "enc_loop (a # b # c # xs) [] ret = enc_loop xs [] (ret @ enc_chars (enc_quad a b c))"
  by (simp add: Let_def)

text \<open>What \<open>base64_encode\<close> still appends for the remaining input, given the string so far.\<close>

definition enc_rest :: "bytes \<Rightarrow> bytes \<Rightarrow> bytes" where
  "enc_rest inp ret =
     (let (arr, ret') = enc_loop inp [] ret; i = length arr
      in if i \<noteq> 0 then
           (let arr3 = arr @ replicate (3 - i) 0
            in ret' @ enc_chars (take (i + 1) (enc_quad (arr3 ! 0) (arr3 ! 1) (arr3 ! 2)))
                 @ replicate (3 - i) pad_char)
         else ret')"

definition dec_rest :: "bytes \<Rightarrow> bytes \<Rightarrow> bytes" where
  "dec_rest s ret =
     (let (arr, ret') = dec_loop s [] ret; i = length arr
      in if i \<noteq> 0 then
           (let v = map base64_find (arr @ replicate (4 - i) 0)
            in ret' @ take (i - 1) (dec_triple (v ! 0) (v ! 1) (v ! 2) (v ! 3)))
         else ret')"

fun chunks3 :: "'a list \<Rightarrow> nat" where
  "chunks3 (a # b # c # xs) = Suc (chunks3 xs)"
| "chunks3 xs = 0"

lemma enc_rest_append: "enc_rest inp ret = ret @ enc_rest inp []"
proof (induction inp arbitrary: ret rule: chunks3.induct [case_names three none one two])
  case (three a b c xs)
  have "enc_rest (a # b # c # xs) r = enc_rest xs (r @ enc_chars (enc_quad a b c))" for r
    by (simp add: enc_rest_def enc_loop_3 del: enc_loop.simps)
  then show ?case using three [of "enc_chars (enc_quad a b c)"] three [of "ret @ enc_chars (enc_quad a b c)"]
    by simp
qed (simp_all add: enc_rest_def Let_def)

lemma enc_rest_3: "enc_rest (a # b # c # xs) [] = enc_chars (enc_quad a b c) @ enc_rest xs []"
  using enc_rest_append [of xs "enc_chars (enc_quad a b c)"]
  by (simp add: enc_rest_def enc_loop_3 del: enc_loop.simps)

lemma quad_cases: obtains w x y z where "enc_quad a b c = [w, x, y, z]"
  by (simp add: enc_quad_def)

lemma dec_pad: "dec_loop (replicate n pad_char) arr ret = (arr, ret)"
  by (cases n) auto

lemma dec_rest_enc_rest: "dec_rest (enc_rest inp []) ret = ret @ inp"
proof (induction inp arbitrary: ret rule: chunks3.induct [case_names three none one two])
  case (three a b c xs)
  obtain w x y z where q: "enc_quad a b c = [w, x, y, z]" by (rule quad_cases)
  then have "\<forall>i \<in> {w, x, y, z}. unat i < 64" using enc_quad_range [of a b c] by simp
  from dec_loop_quad [OF this] three [of "ret @ [a, b, c]"] dec_enc_quad [OF q]
  show ?case by (simp add: enc_rest_3 q dec_rest_def)
next
  case none
  then show ?case by (simp add: enc_rest_def dec_rest_def)
next
  case (one a)
  obtain w x y z where q: "enc_quad a 0 0 = [w, x, y, z]" by (rule quad_cases)
  then have r: "\<forall>i \<in> set [w, x]. unat i < 64" using enc_quad_range [of a 0 0] by simp
  have e: "enc_rest [a] [] = enc_chars [w, x] @ replicate 2 pad_char"
    by (simp add: enc_rest_def Let_def q)
  have d: "dec_loop (enc_rest [a] []) [] ret = (enc_chars [w, x], ret)"
    unfolding e by (subst dec_loop_chars [OF r]) (simp_all add: dec_pad)
  have m: "base64_find (enc_chars [w, x] ! 0) = w" "base64_find (enc_chars [w, x] ! 1) = x"
    using map_find_chars [OF r] by (auto simp: enc_chars_def)
  have l: "length (enc_chars [w, x]) = 2" by (simp add: enc_chars_def)
  show ?case using m dec_enc_one [OF q]
    apply (simp add: dec_rest_def d l Let_def nth_append numeral_2_eq_2)
    apply (simp add: enc_chars_def)
    done
next
  case (two a b)
  obtain w x y z where q: "enc_quad a b 0 = [w, x, y, z]" by (rule quad_cases)
  then have r: "\<forall>i \<in> set [w, x, y]. unat i < 64" using enc_quad_range [of a b 0] by simp
  have e: "enc_rest [a, b] [] = enc_chars [w, x, y] @ replicate 1 pad_char"
    by (simp add: enc_rest_def Let_def q numeral_2_eq_2 numeral_3_eq_3)
  have d: "dec_loop (enc_rest [a, b] []) [] ret = (enc_chars [w, x, y], ret)"
    unfolding e by (subst dec_loop_chars [OF r]) (simp_all add: dec_pad)
  have m: "map base64_find (enc_chars [w, x, y]) = [w, x, y]" using map_find_chars [OF r] by simp
  show ?case using m dec_enc_two [OF q]
    apply (simp add: dec_rest_def d Let_def)
    apply (simp add: enc_chars_def numeral_2_eq_2)
    done
qed

section \<open>Properties\<close>

text \<open>
  \<open>base64_decode\<close> restores what \<open>base64_encode\<close> wrote, for every length modulo
  three: in the last group the missing bytes are encoded as zeros and the padding
  stops the decoder.
\<close>

theorem base64_roundtrip: "base64_decode (base64_encode inp) = inp"
  using dec_rest_enc_rest [of inp "[]"]
  by (simp add: base64_encode_def base64_decode_def enc_rest_def dec_rest_def)

end
