(* ===== verification/Sha1.thy ===== *)
theory Sha1
  imports BlockHash
begin

unbundle bit_operations_syntax

text \<open>
  The SHA-1 of the websocket handshake (\<open>logic/sha1.cpp\<close>, \<open>logic/sha1.h\<close>): a byte at a
  time into a block of 64, with the length in bits in two 32-bit words.
\<close>

type_synonym sha1_regs = "32 word \<times> 32 word \<times> 32 word \<times> 32 word \<times> 32 word"

record sha1 =
  s1_H :: sha1_regs
  s1_Length_Low :: "32 word"
  s1_Length_High :: "32 word"
  s1_block :: bytes
  s1_index :: nat
  s1_Computed :: bool
  s1_Corrupted :: bool

section \<open>The code\<close>

definition sha1_init_H :: sha1_regs where
  "sha1_init_H = (0x67452301, 0xEFCDAB89, 0x98BADCFE, 0x10325476, 0xC3D2E1F0)"

definition sha1_Reset :: "sha1 \<Rightarrow> sha1" where
  "sha1_Reset s = s\<lparr>s1_Length_Low := 0, s1_Length_High := 0, s1_index := 0, s1_H := sha1_init_H,
     s1_Computed := False, s1_Corrupted := False\<rparr>"

definition circular_shift :: "nat \<Rightarrow> 32 word \<Rightarrow> 32 word" where
  "circular_shift bits w = (push_bit bits w AND 0xFFFFFFFF) OR drop_bit (32 - bits) (w AND 0xFFFFFFFF)"

definition sha1_W16 :: "bytes \<Rightarrow> 32 word list" where
  "sha1_W16 b = map (\<lambda>t. push_bit 24 (ucast (b ! (t * 4))) OR push_bit 16 (ucast (b ! (t * 4 + 1)))
     OR push_bit 8 (ucast (b ! (t * 4 + 2))) OR ucast (b ! (t * 4 + 3))) [0..<16]"

definition sha1_extend :: "32 word list \<Rightarrow> nat \<Rightarrow> 32 word list" where
  "sha1_extend W t = W @ [circular_shift 1 (W ! (t - 3) XOR W ! (t - 8) XOR W ! (t - 14) XOR W ! (t - 16))]"

definition sha1_W :: "bytes \<Rightarrow> 32 word list" where
  "sha1_W b = foldl sha1_extend (sha1_W16 b) [16..<80]"

fun sha1_step :: "(32 word \<Rightarrow> 32 word \<Rightarrow> 32 word \<Rightarrow> 32 word) \<Rightarrow> 32 word \<Rightarrow> 32 word list \<Rightarrow> nat
    \<Rightarrow> sha1_regs \<Rightarrow> sha1_regs" where
  "sha1_step f K W t (A, B, C, D, E) =
     (let temp = (circular_shift 5 A + f B C D + E + W ! t + K) AND 0xFFFFFFFF
      in (temp, A, circular_shift 30 B, C, D))"

definition sha1_choose :: "32 word \<Rightarrow> 32 word \<Rightarrow> 32 word \<Rightarrow> 32 word" where
  "sha1_choose B C D = (B AND C) OR (NOT B AND D)"

definition sha1_parity :: "32 word \<Rightarrow> 32 word \<Rightarrow> 32 word \<Rightarrow> 32 word" where
  "sha1_parity B C D = B XOR C XOR D"

definition sha1_majority :: "32 word \<Rightarrow> 32 word \<Rightarrow> 32 word \<Rightarrow> 32 word" where
  "sha1_majority B C D = (B AND C) OR (B AND D) OR (C AND D)"

fun sha1_add :: "sha1_regs \<Rightarrow> sha1_regs \<Rightarrow> sha1_regs" where
  "sha1_add (h0, h1, h2, h3, h4) (A, B, C, D, E) =
     ((h0 + A) AND 0xFFFFFFFF, (h1 + B) AND 0xFFFFFFFF, (h2 + C) AND 0xFFFFFFFF,
      (h3 + D) AND 0xFFFFFFFF, (h4 + E) AND 0xFFFFFFFF)"

definition sha1_compress :: "sha1_regs \<Rightarrow> bytes \<Rightarrow> sha1_regs" where
  "sha1_compress H b =
     (let W = sha1_W b;
          r1 = fold (sha1_step sha1_choose 0x5A827999 W) [0..<20] H;
          r2 = fold (sha1_step sha1_parity 0x6ED9EBA1 W) [20..<40] r1;
          r3 = fold (sha1_step sha1_majority 0x8F1BBCDC W) [40..<60] r2;
          r4 = fold (sha1_step sha1_parity 0xCA62C1D6 W) [60..<80] r3
      in sha1_add H r4)"

definition sha1_ProcessMessageBlock :: "sha1 \<Rightarrow> sha1" where
  "sha1_ProcessMessageBlock s = s\<lparr>s1_H := sha1_compress (s1_H s) (s1_block s), s1_index := 0\<rparr>"

definition sha1_put :: "byte \<Rightarrow> sha1 \<Rightarrow> sha1" where
  "sha1_put b s = s\<lparr>s1_block := (s1_block s)[s1_index s := b], s1_index := s1_index s + 1\<rparr>"

text \<open>One turn of the loop of \<open>Input\<close>.\<close>

definition sha1_input_byte :: "byte \<Rightarrow> sha1 \<Rightarrow> sha1" where
  "sha1_input_byte b s =
     (let s1 = sha1_put b s;
          low = s1_Length_Low s1 + 8;
          high = (if low = 0 then s1_Length_High s1 + 1 else s1_Length_High s1);
          s2 = s1\<lparr>s1_Length_Low := low, s1_Length_High := high,
                 s1_Corrupted := (low = 0 \<and> high = 0) \<or> s1_Corrupted s1\<rparr>
      in if s1_index s2 = 64 then sha1_ProcessMessageBlock s2 else s2)"

fun sha1_input_loop :: "bytes \<Rightarrow> sha1 \<Rightarrow> sha1" where
  "sha1_input_loop [] s = s"
| "sha1_input_loop (b # bs) s =
     (if s1_Corrupted s then s else sha1_input_loop bs (sha1_input_byte b s))"

definition sha1_Input :: "bytes \<Rightarrow> sha1 \<Rightarrow> sha1" where
  "sha1_Input x s =
     (if x = [] then s
      else if s1_Computed s \<or> s1_Corrupted s then s\<lparr>s1_Corrupted := True\<rparr>
      else sha1_input_loop x s)"

text \<open>\<open>operator<<\<close> on a C string: one \<open>Input\<close> per character up to the zero.\<close>

definition sha1_string :: "bytes \<Rightarrow> sha1 \<Rightarrow> sha1" where
  "sha1_string p s = fold (\<lambda>b. sha1_Input [b]) (takeWhile (\<lambda>b. b \<noteq> 0) p) s"

text \<open>\<open>while(Message_Block_Index < n) Message_Block[Message_Block_Index++] = 0;\<close>\<close>

function sha1_zero_to :: "nat \<Rightarrow> sha1 \<Rightarrow> sha1" where
  "sha1_zero_to n s = (if s1_index s < n then sha1_zero_to n (sha1_put 0 s) else s)"
  by pat_completeness auto
termination by (relation "measure (\<lambda>(n, s). n - s1_index s)") (auto simp: sha1_put_def)

declare sha1_zero_to.simps [simp del]

definition sha1_byte :: "nat \<Rightarrow> 32 word \<Rightarrow> byte" where
  "sha1_byte k w = ucast (drop_bit k w AND 0xFF)"

definition sha1_set_length :: "sha1 \<Rightarrow> sha1" where
  "sha1_set_length s =
     (let hi = s1_Length_High s; lo = s1_Length_Low s
      in s\<lparr>s1_block := (s1_block s)
          [56 := sha1_byte 24 hi, 57 := sha1_byte 16 hi, 58 := sha1_byte 8 hi, 59 := sha1_byte 0 hi,
           60 := sha1_byte 24 lo, 61 := sha1_byte 16 lo, 62 := sha1_byte 8 lo, 63 := sha1_byte 0 lo]\<rparr>)"

definition sha1_PadMessage :: "sha1 \<Rightarrow> sha1" where
  "sha1_PadMessage s =
     (let s1 = (if 55 < s1_index s
                then sha1_zero_to 56 (sha1_ProcessMessageBlock (sha1_zero_to 64 (sha1_put 0x80 s)))
                else sha1_zero_to 56 (sha1_put 0x80 s))
      in sha1_ProcessMessageBlock (sha1_set_length s1))"

definition sha1_Result :: "sha1 \<Rightarrow> sha1_regs option \<times> sha1" where
  "sha1_Result s =
     (if s1_Corrupted s then (None, s)
      else let s1 = (if s1_Computed s then s else (sha1_PadMessage s)\<lparr>s1_Computed := True\<rparr>)
           in (Some (s1_H s1), s1))"

section \<open>The reference\<close>

definition sha1_ref :: "bytes \<Rightarrow> sha1_regs" where
  "sha1_ref m = hash_blocks sha1_compress sha1_init_H
     (m @ hash_pad (length m) @ be_bytes 8 (8 * int (length m)))"

section \<open>Input\<close>

definition sha1_bits :: "sha1 \<Rightarrow> nat" where
  "sha1_bits s = unat (s1_Length_High s) * 2 ^ 32 + unat (s1_Length_Low s)"

definition sha1_len :: "sha1 \<Rightarrow> nat" where
  "sha1_len s = sha1_bits s div 8"

definition sha1_pending :: "sha1 \<Rightarrow> bytes" where
  "sha1_pending s = take (s1_index s) (s1_block s)"

definition sha1_ok :: "sha1 \<Rightarrow> bool" where
  "sha1_ok s \<longleftrightarrow> length (s1_block s) = 64 \<and> s1_index s < 64 \<and> s1_index s = sha1_len s mod 64 \<and>
     8 dvd sha1_bits s \<and> \<not> s1_Computed s \<and> \<not> s1_Corrupted s"

lemma sha1_ok_bits: "sha1_ok s \<Longrightarrow> sha1_bits s = 8 * sha1_len s"
  by (auto simp: sha1_ok_def sha1_len_def)

text \<open>Adding eight to the two words.\<close>

lemma length_add8:
  fixes lo hi :: "32 word"
  assumes "unat hi * 2 ^ 32 + unat lo = 8 * n" "n + 1 < 2 ^ 61"
  shows "unat (if lo + 8 = 0 then hi + 1 else hi) * 2 ^ 32 + unat (lo + 8) = 8 * (n + 1)"
    "lo + 8 = 0 \<Longrightarrow> hi + 1 \<noteq> 0"
proof -
  have b: "unat lo < 2 ^ 32" "unat hi < 2 ^ 32"
    using unsigned_less [of lo] unsigned_less [of hi] by simp_all
  have d: "8 dvd unat lo"
  proof -
    have "unat lo = 8 * n - 8 * (unat hi * 2 ^ 29)" using assms(1) by simp
    then show ?thesis by (metis dvd_diff_nat dvd_triv_left)
  qed
  show g: "lo + 8 = 0 \<Longrightarrow> hi + 1 \<noteq> 0"
  proof
    assume l: "lo + 8 = 0" and h: "hi + 1 = 0"
    have "unat lo + 8 = 2 ^ 32"
      using l b d by (auto simp: word_unat_eq_iff unat_word_ariths mod_if split: if_splits)
    moreover have "unat hi + 1 = 2 ^ 32"
      using h b by (auto simp: word_unat_eq_iff unat_word_ariths mod_if split: if_splits)
    ultimately show False using assms by simp
  qed
  show "unat (if lo + 8 = 0 then hi + 1 else hi) * 2 ^ 32 + unat (lo + 8) = 8 * (n + 1)"
  proof (cases "unat lo + 8 < 2 ^ 32")
    case True
    then have "unat (lo + 8) = unat lo + 8" by (simp add: unat_word_ariths)
    moreover from this have "lo + 8 \<noteq> 0" by (metis unat_0 add_is_0 zero_neq_numeral)
    ultimately show ?thesis using assms(1) by simp
  next
    case False
    with b d have l: "unat lo = 2 ^ 32 - 8" by (auto elim!: dvdE)
    then have z: "lo + 8 = 0" by (simp add: word_unat_eq_iff unat_word_ariths)
    have "unat (hi + 1) = unat hi + 1"
      using g [OF z] b by (auto simp: word_unat_eq_iff unat_word_ariths mod_if split: if_splits)
    with z l assms(1) show ?thesis by simp
  qed
qed

text \<open>One byte: the pending bytes grow by it, or a full block is processed.\<close>

lemma sha1_input_byte_fields:
  assumes "s1_index s < 64" "length (s1_block s) = 64"
  shows "s1_block (sha1_input_byte x s) = (s1_block s)[s1_index s := x]"
    "s1_index (sha1_input_byte x s) = (if s1_index s = 63 then 0 else s1_index s + 1)"
    "s1_H (sha1_input_byte x s) = (if s1_index s = 63 then sha1_compress (s1_H s) ((s1_block s)[s1_index s := x]) else s1_H s)"
    "s1_Length_Low (sha1_input_byte x s) = s1_Length_Low s + 8"
    "s1_Length_High (sha1_input_byte x s) =
      (if s1_Length_Low s + 8 = 0 then s1_Length_High s + 1 else s1_Length_High s)"
    "s1_Computed (sha1_input_byte x s) = s1_Computed s"
    "s1_Corrupted (sha1_input_byte x s) =
      (s1_Length_Low s + 8 = 0 \<and> s1_Length_High s + 1 = 0 \<or> s1_Corrupted s)"
  using assms
  by (auto simp: sha1_input_byte_def sha1_put_def sha1_ProcessMessageBlock_def Let_def)

lemma sha1_input_byte_step:
  assumes "sha1_ok s" "sha1_len s + 1 < 2 ^ 61"
  shows "sha1_ok (sha1_input_byte x s) \<and> sha1_len (sha1_input_byte x s) = sha1_len s + 1 \<and>
    s1_H (sha1_input_byte x s) = hash_blocks sha1_compress (s1_H s) (sha1_pending s @ [x]) \<and>
    sha1_pending (sha1_input_byte x s) = last_block (sha1_pending s @ [x])"
proof -
  have i: "s1_index s < 64" "length (s1_block s) = 64" "s1_index s = sha1_len s mod 64"
    "\<not> s1_Computed s" "\<not> s1_Corrupted s"
    using assms(1) by (auto simp: sha1_ok_def)
  note f = sha1_input_byte_fields [OF i(1,2), of x]
  have bits: "unat (s1_Length_High s) * 2 ^ 32 + unat (s1_Length_Low s) = 8 * sha1_len s"
    using sha1_ok_bits [OF assms(1)] by (simp add: sha1_bits_def)
  note a = length_add8 [OF bits assms(2)]
  have nb: "sha1_bits (sha1_input_byte x s) = 8 * (sha1_len s + 1)"
    using a(1) by (simp add: sha1_bits_def f)
  then have nl: "sha1_len (sha1_input_byte x s) = sha1_len s + 1" by (simp add: sha1_len_def)
  have nc: "\<not> s1_Corrupted (sha1_input_byte x s)" using a(2) i(5) by (auto simp: f)
  have ni: "s1_index (sha1_input_byte x s) = (sha1_len s + 1) mod 64"
    using i(1,3) by (auto simp: f mod_Suc)
  have ok: "sha1_ok (sha1_input_byte x s)"
    unfolding sha1_ok_def nl nb using nc ni i by (simp add: f)
  have app: "take (Suc (s1_index s)) ((s1_block s)[s1_index s := x]) = sha1_pending s @ [x]"
    using i(1,2) by (simp add: sha1_pending_def take_Suc_conv_app_nth)
  have pl: "length (sha1_pending s) = s1_index s" using i by (simp add: sha1_pending_def)
  show ?thesis
  proof (cases "s1_index s = 63")
    case True
    then have b: "sha1_pending s @ [x] = (s1_block s)[63 := x]" using app i(2) by simp
    have l: "length ((s1_block s)[63 := x]) = 64" using i(2) by simp
    have "hash_blocks sha1_compress (s1_H s) (sha1_pending s @ [x]) = s1_H (sha1_input_byte x s)"
      unfolding b hash_blocks_one [OF l] using True by (simp add: f)
    moreover have "last_block (sha1_pending s @ [x]) = []"
      unfolding b by (simp add: last_block_def i(2))
    moreover have "sha1_pending (sha1_input_byte x s) = []"
      using True by (simp add: sha1_pending_def f)
    ultimately show ?thesis using ok nl by simp
  next
    case False
    then have "length (sha1_pending s @ [x]) < 64" using pl i(1) by simp
    then show ?thesis using False ok nl app by (simp add: f sha1_pending_def)
  qed
qed

lemma sha1_input_loop_step:
  assumes "sha1_ok s" "sha1_len s + length x < 2 ^ 61"
  shows "sha1_ok (sha1_input_loop x s) \<and> sha1_len (sha1_input_loop x s) = sha1_len s + length x \<and>
    s1_H (sha1_input_loop x s) = hash_blocks sha1_compress (s1_H s) (sha1_pending s @ x) \<and>
    sha1_pending (sha1_input_loop x s) = last_block (sha1_pending s @ x)"
  using assms
proof (induction x arbitrary: s)
  case Nil
  then show ?case by (simp add: sha1_pending_def sha1_ok_def)
next
  case (Cons b x)
  from sha1_input_byte_step [OF Cons.prems(1), of b] Cons.prems(2)
  have b: "sha1_ok (sha1_input_byte b s)" "sha1_len (sha1_input_byte b s) = sha1_len s + 1"
    "s1_H (sha1_input_byte b s) = hash_blocks sha1_compress (s1_H s) (sha1_pending s @ [b])"
    "sha1_pending (sha1_input_byte b s) = last_block (sha1_pending s @ [b])" by simp_all
  have "\<not> s1_Corrupted s" using Cons.prems(1) by (simp add: sha1_ok_def)
  with Cons.IH [OF b(1)] Cons.prems(2) b show ?case
    using hash_blocks_resume [of sha1_compress "s1_H s" "sha1_pending s @ [b]" x]
      last_block_resume [of "sha1_pending s @ [b]" x]
    by simp
qed

lemma sha1_Input_step:
  assumes "sha1_ok s" "sha1_len s + length x < 2 ^ 61"
  shows "sha1_ok (sha1_Input x s) \<and> sha1_len (sha1_Input x s) = sha1_len s + length x \<and>
    s1_H (sha1_Input x s) = hash_blocks sha1_compress (s1_H s) (sha1_pending s @ x) \<and>
    sha1_pending (sha1_Input x s) = last_block (sha1_pending s @ x)"
proof -
  have "sha1_Input x s = sha1_input_loop x s"
    using assms(1) by (auto simp: sha1_Input_def sha1_ok_def)
  with sha1_input_loop_step [OF assms] show ?thesis by simp
qed

interpretation s1: block_hash sha1_compress s1_H sha1_pending sha1_len sha1_ok sha1_Input
  by unfold_locales (use sha1_Input_step in blast)

section \<open>Padding\<close>

lemma sha1_put_fields:
  assumes "s1_index s < length (s1_block s)"
  shows "take (s1_index (sha1_put b s)) (s1_block (sha1_put b s)) = take (s1_index s) (s1_block s) @ [b]"
  using assms by (simp add: sha1_put_def take_Suc_conv_app_nth)

lemma sha1_zero_to_fields:
  "s1_index s \<le> n \<Longrightarrow> n \<le> length (s1_block s) \<Longrightarrow>
    s1_index (sha1_zero_to n s) = n \<and>
    take n (s1_block (sha1_zero_to n s)) = take (s1_index s) (s1_block s) @ replicate (n - s1_index s) 0 \<and>
    length (s1_block (sha1_zero_to n s)) = length (s1_block s) \<and> s1_H (sha1_zero_to n s) = s1_H s \<and>
    s1_Length_Low (sha1_zero_to n s) = s1_Length_Low s \<and>
    s1_Length_High (sha1_zero_to n s) = s1_Length_High s"
proof (induction n s rule: sha1_zero_to.induct)
  case (1 n s)
  show ?case
  proof (cases "s1_index s < n")
    case True
    have p: "s1_index (sha1_put 0 s) = Suc (s1_index s)" by (simp add: sha1_put_def)
    have "sha1_zero_to n s = sha1_zero_to n (sha1_put 0 s)" using True by (simp add: sha1_zero_to.simps [of n s])
    moreover have "take (Suc (s1_index s)) (s1_block (sha1_put 0 s)) = take (s1_index s) (s1_block s) @ [0]"
      using sha1_put_fields [of s 0] True 1(3) p by simp
    moreover have "n - s1_index s = Suc (n - Suc (s1_index s))" using True by simp
    ultimately show ?thesis using 1(1) [OF True] True 1(3) p
      by (simp add: sha1_put_def replicate_app_Cons_same)
  next
    case False
    with 1 show ?thesis by (simp add: sha1_zero_to.simps [of n s])
  qed
qed

lemma word_low_byte: "ucast (w AND 0xFF) = (ucast w :: byte)" for w :: "32 word"
proof -
  have "w AND 0xFF = take_bit 8 w" by (simp add: take_bit_eq_mask mask_eq_exp_minus_1)
  then show ?thesis by (auto intro!: bit_word_eqI simp: bit_simps)
qed

lemma sha1_byte_le: "sha1_byte (8 * k) w = word_of_int (uint w div 256 ^ k)"
  unfolding sha1_byte_def word_low_byte by (simp add: ucast_eq uint_shift power_mult)

lemma sha1_word_be:
  "[sha1_byte 24 w, sha1_byte 16 w, sha1_byte 8 w, sha1_byte 0 w] = be_bytes 4 (uint w)"
  using sha1_byte_le [of 0 w] sha1_byte_le [of 1 w] sha1_byte_le [of 2 w] sha1_byte_le [of 3 w]
  by (simp add: be_bytes_def le_bytes_4 zdiv_zmult2_eq [symmetric])

lemma be_bytes_words:
  fixes lo hi :: "32 word"
  shows "be_bytes 8 (uint lo + 256 ^ 4 * uint hi) = be_bytes 4 (uint hi) @ be_bytes 4 (uint lo)"
proof -
  have "le_bytes (4 + 4) (uint lo + 256 ^ 4 * uint hi) = le_bytes 4 (uint lo) @ le_bytes 4 (uint hi)"
    unfolding le_bytes_split le_bytes_mod using uint_bounded [of lo] by simp
  then show ?thesis by (simp add: be_bytes_def)
qed

lemma length8: "length d = 8 \<Longrightarrow> \<exists>y0 y1 y2 y3 y4 y5 y6 y7. d = [y0, y1, y2, y3, y4, y5, y6, y7]"
  by (auto simp: length_Suc_conv eval_nat_numeral)

lemma update_last8:
  assumes "length b = 64"
  shows "b[56 := x0, 57 := x1, 58 := x2, 59 := x3, 60 := x4, 61 := x5, 62 := x6, 63 := x7] =
    take 56 b @ [x0, x1, x2, x3, x4, x5, x6, x7]"
proof -
  have "length (drop 56 b) = 8" using assms by simp
  then obtain y0 y1 y2 y3 y4 y5 y6 y7 where d: "drop 56 b = [y0, y1, y2, y3, y4, y5, y6, y7]"
    using length8 by blast
  define p where "p = take 56 b"
  have p: "length p = 56" "b = p @ [y0, y1, y2, y3, y4, y5, y6, y7]"
    using assms d append_take_drop_id [of 56 b] by (simp_all add: p_def)
  show ?thesis unfolding p_def [symmetric] by (simp add: p list_update_append)
qed

lemma sha1_length_bytes:
  assumes "sha1_bits s = 8 * n"
  shows "be_bytes 4 (uint (s1_Length_High s)) @ be_bytes 4 (uint (s1_Length_Low s)) = be_bytes 8 (8 * int n)"
proof -
  have "int (8 * n) = int (sha1_bits s)" using assms by simp
  then have "8 * int n = uint (s1_Length_Low s) + 256 ^ 4 * uint (s1_Length_High s)"
    by (simp add: sha1_bits_def)
  then show ?thesis by (simp only: be_bytes_words)
qed

lemma sha1_set_length_block:
  assumes "length (s1_block s) = 64" "sha1_bits s = 8 * n"
  shows "s1_block (sha1_set_length s) = take 56 (s1_block s) @ be_bytes 8 (8 * int n)"
  unfolding sha1_length_bytes [OF assms(2), symmetric] sha1_word_be [symmetric]
  by (simp add: sha1_set_length_def Let_def update_last8 [OF assms(1)])

text \<open>What is left to process at the end, after the padding.\<close>

lemma sha1_PadMessage_H:
  assumes "sha1_ok s"
  shows "s1_H (sha1_PadMessage s) = hash_blocks sha1_compress (s1_H s)
    (sha1_pending s @ hash_pad (sha1_len s) @ be_bytes 8 (8 * int (sha1_len s)))"
proof -
  let ?i = "s1_index s" and ?p = "sha1_pending s" and ?l = "be_bytes 8 (8 * int (sha1_len s))"
  define t where "t = sha1_put 0x80 s"
  have i: "length (s1_block s) = 64" "?i < 64" "?i = sha1_len s mod 64"
    using assms by (auto simp: sha1_ok_def)
  have pad: "hash_pad (sha1_len s) = 0x80 # replicate ((119 - ?i) mod 64) 0"
    using i(3) by (simp add: hash_pad_def)
  have t: "s1_index t = Suc ?i" "length (s1_block t) = 64" "take (Suc ?i) (s1_block t) = ?p @ [0x80]"
    "s1_H t = s1_H s" "s1_Length_Low t = s1_Length_Low s" "s1_Length_High t = s1_Length_High s"
    using sha1_put_fields [of s "0x80"] i by (simp_all add: t_def sha1_put_def sha1_pending_def)
  have bt: "sha1_bits u = 8 * sha1_len s"
    if "s1_Length_Low u = s1_Length_Low s" "s1_Length_High u = s1_Length_High s" for u
    using that sha1_ok_bits [OF assms] by (simp add: sha1_bits_def)
  show ?thesis
  proof (cases "55 < ?i")
    case False
    define u where "u = sha1_zero_to 56 t"
    have u: "take 56 (s1_block u) = (?p @ [0x80]) @ replicate (55 - ?i) 0" "length (s1_block u) = 64"
      "s1_H u = s1_H s" "sha1_bits u = 8 * sha1_len s"
      using sha1_zero_to_fields [of t 56] False t bt [of u] by (simp_all add: u_def)
    have r: "(119 - ?i) mod 64 = 55 - ?i"
    proof -
      have "119 - ?i = 64 + (55 - ?i)" using False by simp
      then have "(119 - ?i) mod 64 = (55 - ?i) mod 64" by (simp only: mod_add_self1)
      then show ?thesis by simp
    qed
    have b: "s1_block (sha1_set_length u) = ?p @ hash_pad (sha1_len s) @ ?l"
      using sha1_set_length_block [OF u(2,4)] u(1) pad r by simp
    have "length (s1_block (sha1_set_length u)) = 64" using u(2) by (simp add: sha1_set_length_def Let_def)
    then have "hash_blocks sha1_compress (s1_H s) (?p @ hash_pad (sha1_len s) @ ?l) =
        sha1_compress (s1_H s) (s1_block (sha1_set_length u))"
      unfolding b [symmetric] by (rule hash_blocks_one)
    moreover have "s1_H (sha1_PadMessage s) = sha1_compress (s1_H s) (s1_block (sha1_set_length u))"
      using False u(3)
      by (simp add: sha1_PadMessage_def Let_def t_def u_def sha1_ProcessMessageBlock_def sha1_set_length_def)
    ultimately show ?thesis by simp
  next
    case True
    define v where "v = sha1_zero_to 64 t"
    have v0: "take 64 (s1_block v) = (?p @ [0x80]) @ replicate (63 - ?i) 0" "length (s1_block v) = 64"
      using sha1_zero_to_fields [of t 64] t i(1,2) by (simp_all add: v_def)
    have v: "s1_block v = (?p @ [0x80]) @ replicate (63 - ?i) 0" "length (s1_block v) = 64"
      "s1_H v = s1_H s" "s1_Length_Low v = s1_Length_Low s" "s1_Length_High v = s1_Length_High s"
      using v0 sha1_zero_to_fields [of t 64] t i(1,2) by (simp_all add: v_def)
    define w where "w = sha1_ProcessMessageBlock v"
    define u where "u = sha1_zero_to 56 w"
    have w: "s1_index w = 0" "length (s1_block w) = 64" "s1_H w = sha1_compress (s1_H s) (s1_block v)"
      "s1_Length_Low w = s1_Length_Low s" "s1_Length_High w = s1_Length_High s"
      using v by (simp_all add: w_def sha1_ProcessMessageBlock_def)
    have u: "take 56 (s1_block u) = replicate 56 0" "length (s1_block u) = 64"
      "s1_H u = s1_H w" "sha1_bits u = 8 * sha1_len s"
      using sha1_zero_to_fields [of w 56] w bt [of u] by (simp_all add: u_def)
    have r: "(119 - ?i) mod 64 = 63 - ?i + 56"
    proof -
      have "(119 - ?i) mod 64 = 119 - ?i" using True by (intro mod_less) simp
      with i(2) True show ?thesis by simp
    qed
    have b: "s1_block v @ s1_block (sha1_set_length u) = ?p @ hash_pad (sha1_len s) @ ?l"
      using sha1_set_length_block [OF u(2,4)] u(1) v(1) unfolding pad r by (simp add: replicate_add)
    have l: "length (s1_block (sha1_set_length u)) = 64" using u(2) by (simp add: sha1_set_length_def Let_def)
    have "hash_blocks sha1_compress (s1_H s) (?p @ hash_pad (sha1_len s) @ ?l) =
        sha1_compress (s1_H w) (s1_block (sha1_set_length u))"
      unfolding b [symmetric] hash_blocks_block [OF v(2)] hash_blocks_one [OF l] w(3) ..
    moreover have "s1_H (sha1_PadMessage s) = sha1_compress (s1_H w) (s1_block (sha1_set_length u))"
      using True u(3)
      by (simp add: sha1_PadMessage_def Let_def t_def u_def v_def w_def sha1_ProcessMessageBlock_def sha1_set_length_def)
    ultimately show ?thesis by simp
  qed
qed

lemma sha1_has_read_Result:
  assumes "s1.has_read sha1_init_H s m"
  shows "fst (sha1_Result s) = Some (sha1_ref m)"
proof -
  have ok: "sha1_ok s" "sha1_len s = length m" "sha1_pending s = last_block m"
    "s1_H s = hash_blocks sha1_compress sha1_init_H m"
    using s1.has_readD [OF assms] by simp_all
  then have "\<not> s1_Corrupted s" "\<not> s1_Computed s" by (auto simp: sha1_ok_def)
  then have "fst (sha1_Result s) = Some (s1_H (sha1_PadMessage s))"
    by (simp add: sha1_Result_def Let_def)
  with sha1_PadMessage_H [OF ok(1)] ok show ?thesis
    by (simp add: hash_blocks_resume sha1_ref_def)
qed

lemma sha1_Reset_ok:
  assumes "length (s1_block s) = 64"
  shows "s1.has_read sha1_init_H (sha1_Reset s) []"
  using assms
  by (intro s1.has_readI)
    (simp_all add: sha1_ok_def sha1_len_def sha1_bits_def sha1_pending_def sha1_Reset_def)

section \<open>Properties\<close>

text \<open>
  After \<open>Reset\<close>, whatever the object did before, giving a message in pieces
  through \<open>Input\<close> and asking for the result yields the SHA-1 of the whole message:
  the compression of its padded 64-byte blocks. It never reports corruption below
  2^61 bytes.
\<close>

theorem sha1_incremental:
  assumes "length (s1_block s) = 64" "\<forall>x \<in> set xs. length x < 2 ^ 31" "length (concat xs) < 2 ^ 61"
  shows "fst (sha1_Result (fold sha1_Input xs (sha1_Reset s))) = Some (sha1_ref (concat xs))"
  using s1.has_read_chunks [OF sha1_Reset_ok [OF assms(1)], of xs] assms(2,3)
    sha1_has_read_Result [of "fold sha1_Input xs (sha1_Reset s)" "concat xs"] by simp

definition sha1_zero :: sha1 where
  "sha1_zero = \<lparr>s1_H = (0, 0, 0, 0, 0), s1_Length_Low = 0, s1_Length_High = 0, s1_block = replicate 64 0,
     s1_index = 0, s1_Computed = False, s1_Corrupted = False\<rparr>"

theorem sha1_incremental_witness:
  "fst (sha1_Result (fold sha1_Input [[97], [98, 99]] (sha1_Reset sha1_zero))) = Some (sha1_ref [97, 98, 99])"
  using sha1_incremental [of sha1_zero "[[97], [98, 99]]"] by (simp add: sha1_zero_def)

text \<open>The run on "abc", in parts: its one block, the schedule and the four rounds.\<close>

definition sha1_abc :: bytes where
  "sha1_abc = [97, 98, 99] @ hash_pad 3 @ be_bytes 8 24"

definition sha1_abc_W16 :: "32 word list" where
  "sha1_abc_W16 = [1633837952, 0, 0, 0, 0, 0, 0, 0, 0, 0, 0, 0, 0, 0, 0, 24]"

definition sha1_abc_ext1 :: "32 word list" where
  "sha1_abc_ext1 =
    [3267675904, 0, 48, 2240384513, 0, 96, 185801731, 48, 2240384705, 371603462, 0, 384, 743206924, 240,
    2477765895, 1486413896]"

definition sha1_abc_ext2 :: "32 word list" where
  "sha1_abc_ext2 =
    [2392494594, 1536, 2972827888, 371604422, 1321128990, 1650688161, 371603462, 6336, 3537975492, 3840,
    989548665, 2307785957, 3803855915, 24768, 87701453, 1950713159]"

definition sha1_abc_ext3 :: "32 word list" where
  "sha1_abc_ext3 =
    [3667138029, 641206806, 1650688929, 1321161950, 943043659, 62976, 512018339, 2564836760, 1696405152,
    1650822305, 1166361814, 1146637495, 2074109465, 1669377698, 182801001, 1652246945]"

definition sha1_abc_ext4 :: "32 word list" where
  "sha1_abc_ext4 =
    [2094292125, 983040, 4216354106, 3966199272, 3124505570, 6340608, 976735493, 1166362356, 3092880854,
    940186150, 31465987, 3888919638, 3873835881, 16124416, 1469443919, 2184054905]"

definition sha1_abc_W :: "32 word list" where
  "sha1_abc_W = sha1_abc_W16 @ sha1_abc_ext1 @ sha1_abc_ext2 @ sha1_abc_ext3 @ sha1_abc_ext4"

lemma sha1_abc_W16: "sha1_W16 sha1_abc = sha1_abc_W16"
  by code_simp

lemma sha1_abc_part1: "foldl sha1_extend (sha1_abc_W16) [16..<32] =
    sha1_abc_W16 @ sha1_abc_ext1"
  by code_simp

lemma sha1_abc_part2: "foldl sha1_extend (sha1_abc_W16 @ sha1_abc_ext1) [32..<48] =
    sha1_abc_W16 @ sha1_abc_ext1 @ sha1_abc_ext2"
  by code_simp

lemma sha1_abc_part3: "foldl sha1_extend (sha1_abc_W16 @ sha1_abc_ext1 @ sha1_abc_ext2) [48..<64] =
    sha1_abc_W16 @ sha1_abc_ext1 @ sha1_abc_ext2 @ sha1_abc_ext3"
  by code_simp

lemma sha1_abc_part4: "foldl sha1_extend (sha1_abc_W16 @ sha1_abc_ext1 @ sha1_abc_ext2 @ sha1_abc_ext3) [64..<80] =
    sha1_abc_W16 @ sha1_abc_ext1 @ sha1_abc_ext2 @ sha1_abc_ext3 @ sha1_abc_ext4"
  by code_simp

lemma sha1_abc_schedule: "sha1_W sha1_abc = sha1_abc_W"
proof -
  have u: "[16..<80] = [16..<32] @ [32..<48] @ [48..<64] @ [64..<80]"
    using upt_add_eq_append [of 16 32 16] upt_add_eq_append [of 16 48 16] upt_add_eq_append [of 16 64 16]
    by simp
  show ?thesis
    unfolding sha1_W_def sha1_abc_W16 u foldl_append sha1_abc_part1 append_assoc
      sha1_abc_part2 [unfolded append_assoc] sha1_abc_part3 [unfolded append_assoc]
      sha1_abc_part4 [unfolded append_assoc] sha1_abc_W_def ..
qed

lemma sha1_abc_round1: "fold (sha1_step sha1_choose 0x5A827999 sha1_abc_W) [0..<20] sha1_init_H = (4254997885, 3697578013, 548051402, 3550778888, 3358553483)"
  by code_simp

lemma sha1_abc_round2: "fold (sha1_step sha1_parity 0x6ED9EBA1 sha1_abc_W) [20..<40]
    (4254997885, 3697578013, 548051402, 3550778888, 3358553483) = (853417146, 1285055493, 4145604047, 64243702, 4147047474)"
  by code_simp

lemma sha1_abc_round3: "fold (sha1_step sha1_majority 0x8F1BBCDC sha1_abc_W) [40..<60]
    (853417146, 1285055493, 4145604047, 64243702, 4147047474) = (1062395482, 165119485, 882425812, 4061233743, 3617133995)"
  by code_simp

lemma sha1_abc_round4: "fold (sha1_step sha1_parity 0xCA62C1D6 sha1_abc_W) [60..<80]
    (1062395482, 165119485, 882425812, 4061233743, 3617133995) = (1112808245, 1463342561, 562251891, 1746824694, 3640522413)"
  by code_simp

text \<open>
  The digest of "abc" is that of FIPS 180-1, so the schedule, the constants
  and the rounds are the standard's.
\<close>

theorem sha1_vector:
  "sha1_ref [97, 98, 99] = (0xA9993E36, 0x4706816A, 0xBA3E2571, 0x7850C26C, 0x9CD0D89D)"
proof -
  have l: "length sha1_abc = 64" by (simp add: sha1_abc_def hash_pad_def)
  have "sha1_ref [97, 98, 99] = sha1_compress sha1_init_H sha1_abc"
    using hash_blocks_one [OF l] by (simp add: sha1_ref_def sha1_abc_def numeral_3_eq_3)
  also have "\<dots> = (0xA9993E36, 0x4706816A, 0xBA3E2571, 0x7850C26C, 0x9CD0D89D)"
    unfolding sha1_compress_def sha1_abc_schedule Let_def sha1_abc_round1 sha1_abc_round2
      sha1_abc_round3 sha1_abc_round4
    by (simp add: sha1_init_H_def)
  finally show ?thesis .
qed

end
