(* ===== verification/Websocket.thy ===== *)
theory Websocket
  imports Base64 Sha1
begin

unbundle bit_operations_syntax

text \<open>
  The websocket layer between the clients and the gate (\<open>logic/websocket.h\<close>,
  \<open>logic/websocket_request.cpp\<close>): the handshake, the frames received and the frames
  sent. The input \<open>evbuffer\<close> is the list of its bytes, and a function that writes to
  the connection returns the bytes written. An access outside an array, or a C string without its
  zero, is \<open>None\<close>.
\<close>

section \<open>Websocket_Request: one received frame\<close>

record ws_request =
  wr_fin :: byte
  wr_opcode :: byte
  wr_mask :: byte
  wr_masking_key :: bytes
  wr_payload_length :: int
  wr_payload :: bytes

definition wr_reset :: ws_request where
  "wr_reset = \<lparr>wr_fin = 0, wr_opcode = 0, wr_mask = 0, wr_masking_key = replicate 4 0,
     wr_payload_length = 0, wr_payload = replicate 2048 0\<rparr>"

definition fetch_fin :: "bytes \<Rightarrow> nat \<Rightarrow> ws_request \<Rightarrow> (nat \<times> ws_request) option" where
  "fetch_fin msg pos r = do { b \<leftarrow> load msg pos; Some (pos, r\<lparr>wr_fin := drop_bit 7 b\<rparr>) }"

definition fetch_opcode :: "bytes \<Rightarrow> nat \<Rightarrow> ws_request \<Rightarrow> (nat \<times> ws_request) option" where
  "fetch_opcode msg pos r = do { b \<leftarrow> load msg pos; Some (pos + 1, r\<lparr>wr_opcode := b AND 0x0f\<rparr>) }"

definition fetch_mask :: "bytes \<Rightarrow> nat \<Rightarrow> ws_request \<Rightarrow> (nat \<times> ws_request) option" where
  "fetch_mask msg pos r = do { b \<leftarrow> load msg pos; Some (pos, r\<lparr>wr_mask := drop_bit 7 b\<rparr>) }"

definition fetch_masking_key :: "bytes \<Rightarrow> nat \<Rightarrow> ws_request \<Rightarrow> (nat \<times> ws_request) option" where
  "fetch_masking_key msg pos r =
     (if wr_mask r \<noteq> 1 then Some (pos, r)
      else do { k \<leftarrow> load_block msg pos 4; Some (pos + 4, r\<lparr>wr_masking_key := k\<rparr>) })"

text \<open>The length is taken modulo seven bits, then from two or four more bytes.\<close>

definition fetch_payload_length :: "bytes \<Rightarrow> nat \<Rightarrow> ws_request \<Rightarrow> (nat \<times> ws_request) option" where
  "fetch_payload_length msg pos r = do {
     b \<leftarrow> load msg pos;
     let n = uint (b AND 0x7f); pos1 = pos + 1 in do {
       (pos2, n2) \<leftarrow>
         (if n = 126 then do { l \<leftarrow> load_block msg pos1 2; Some (pos1 + 2, be_val l) }
          else if n = 127 then do { l \<leftarrow> load_block msg pos1 4; Some (pos1 + 4, s32 (be_val l)) }
          else Some (pos1, n));
       Some (pos2, r\<lparr>wr_payload_length := (if n2 < 0 \<or> 2048 \<le> n2 then 0 else n2)\<rparr>)
     }
   }"

definition unmask :: "bytes \<Rightarrow> bytes \<Rightarrow> bytes" where
  "unmask k d = map (\<lambda>i. d ! i XOR k ! (i mod 4)) [0..<length d]"

definition fetch_payload :: "bytes \<Rightarrow> nat \<Rightarrow> ws_request \<Rightarrow> (nat \<times> ws_request) option" where
  "fetch_payload msg pos r =
     (let n = nat (wr_payload_length r) in do {
        d \<leftarrow> load_block msg pos n;
        p \<leftarrow> store_block (replicate 2048 0) 0
          (if wr_mask r \<noteq> 1 then d else unmask (wr_masking_key r) d);
        Some (pos + n, r\<lparr>wr_payload := p\<rparr>)
      })"

definition fetch_websocket_info :: "bytes \<Rightarrow> ws_request \<Rightarrow> (nat \<times> ws_request) option" where
  "fetch_websocket_info msg r = do {
     (p1, r1) \<leftarrow> fetch_fin msg 0 r;
     (p2, r2) \<leftarrow> fetch_opcode msg p1 r1;
     (p3, r3) \<leftarrow> fetch_mask msg p2 r2;
     (p4, r4) \<leftarrow> fetch_payload_length msg p3 r3;
     (p5, r5) \<leftarrow> fetch_masking_key msg p4 r4;
     fetch_payload msg p5 r5
   }"

section \<open>websocket\<close>

record websocket =
  ws_key :: bytes
  ws_buf :: bytes
  ws_req :: ws_request

definition websocket_init :: websocket where
  "websocket_init = \<lparr>ws_key = replicate 128 0, ws_buf = replicate 2048 0, ws_req = wr_reset\<rparr>"

text \<open>
  \<open>handle_packet\<close>: the result, the object and the input that is left. \<open>copyout\<close> leaves
  the rest of \<open>buf\<close> as it was.
\<close>

definition handle_packet :: "websocket \<Rightarrow> bytes \<Rightarrow> (int \<times> websocket \<times> bytes) option" where
  "handle_packet w inp =
     (let len = (if 2048 < length inp then 2048 else length inp) in do {
        buf \<leftarrow> store_block (ws_buf w) 0 (take len inp);
        (real_len, r) \<leftarrow> fetch_websocket_info buf wr_reset;
        let w1 = w\<lparr>ws_buf := buf, ws_req := r\<rparr> in
        if len < real_len then Some (-2, w1, inp)
        else
          let inp1 = drop real_len inp in
          if wr_fin r \<noteq> 1 then Some (-1, w1, inp1)
          else if wr_opcode r \<noteq> 2 then
            (if wr_opcode r = 9 \<or> wr_opcode r = 10 then Some (0, w1, inp1) else Some (-1, w1, inp1))
          else if 0 < wr_payload_length r then do {
            d \<leftarrow> load_block (wr_payload r) 0 (nat (wr_payload_length r));
            b \<leftarrow> store_block buf 0 d;
            Some (wr_payload_length r, w1\<lparr>ws_buf := b\<rparr>, inp1)
          }
          else Some (wr_payload_length r, w1, inp1)
      })"

text \<open>\<open>send_msg\<close>: the bytes written. \<open>p\<close> is the object behind the pointer.\<close>

definition ws_send_msg :: "int \<Rightarrow> bytes \<Rightarrow> int \<Rightarrow> bytes option" where
  "ws_send_msg mid p len =
     (let head_len = s16 len; head_id = s16 mid; real_len = len + 4 in
      if real_len < 65536 then do {
        let socket_head =
          (if real_len < 126 then [130, word_of_int real_len]
           else [130, 126, word_of_int (real_len div 256), word_of_int real_len]) in do {
          d \<leftarrow> (if 0 < len then iload_block p 0 len else Some []);
          Some (socket_head @ be_bytes 2 head_len @ be_bytes 2 head_id @ d)
        }
      }
      else Some [])"

section \<open>The handshake\<close>

definition crlf :: bytes where
  "crlf = [13, 10]"

definition key_str_begin :: bytes where
  "key_str_begin = map of_char ''Sec-WebSocket-Key: ''"

definition magic_str :: bytes where
  "magic_str = map of_char ''258EAFA5-E914-47DA-95CA-C5AB0DC85B11''"

definition ret_str_1 :: bytes where
  "ret_str_1 = map of_char ''HTTP/1.1 101 Switching Protocols'' @ crlf @ map of_char ''Upgrade:websocket'' @ crlf @
     map of_char ''Connection:Upgrade'' @ crlf @ map of_char ''Sec-WebSocket-Accept:''"

definition ret_str_2 :: bytes where
  "ret_str_2 = crlf @ crlf"

text \<open>
  \<open>strstr\<close> from position \<open>i\<close> of an array: the position of the needle, \<open>Some None\<close> when
  the string ends before it, \<open>None\<close> when the array ends first.
\<close>

function c_strstr :: "bytes \<Rightarrow> nat \<Rightarrow> bytes \<Rightarrow> nat option option" where
  "c_strstr buf i needle =
     (if block_at i (length needle) buf = needle \<and> i + length needle \<le> length buf then Some (Some i)
      else if length buf \<le> i then None
      else if buf ! i = 0 then Some None
      else c_strstr buf (i + 1) needle)"
  by pat_completeness auto
termination by (relation "measure (\<lambda>(buf, i, needle). length buf - i)") auto

declare c_strstr.simps [simp del]

definition ws_get_key :: "bytes \<Rightarrow> websocket \<Rightarrow> (bool \<times> websocket) option" where
  "ws_get_key buf w = do {
     r \<leftarrow> c_strstr buf 0 key_str_begin;
     case r of None \<Rightarrow> Some (False, w)
     | Some str1 \<Rightarrow> do {
         r2 \<leftarrow> c_strstr buf str1 crlf;
         case r2 of None \<Rightarrow> None
         | Some str2 \<Rightarrow>
             let n = str2 - str1 - length key_str_begin in do {
               d \<leftarrow> load_block buf (str1 + length key_str_begin) n;
               k1 \<leftarrow> store_block (ws_key w) 0 d;
               k2 \<leftarrow> store_block k1 n magic_str;
               Some (True, w\<lparr>ws_key := k2\<rparr>)
             }
       }
   }"

text \<open>A C string in an array: up to the zero, which must be there.\<close>

definition c_str :: "bytes \<Rightarrow> bytes option" where
  "c_str a = (if 0 \<in> set a then Some (takeWhile (\<lambda>b. b \<noteq> 0) a) else None)"

text \<open>The digest words after \<open>htonl\<close>, as bytes.\<close>

fun digest_bytes :: "sha1_regs \<Rightarrow> bytes" where
  "digest_bytes (h0, h1, h2, h3, h4) =
     be_bytes 4 (uint h0) @ be_bytes 4 (uint h1) @ be_bytes 4 (uint h2) @ be_bytes 4 (uint h3) @ be_bytes 4 (uint h4)"

text \<open>\<open>sha0\<close> is the uninitialised \<open>SHA1\<close> object on the stack.\<close>

definition ws_accept_key :: "sha1 \<Rightarrow> bytes \<Rightarrow> bytes option" where
  "ws_accept_key sha0 key = do {
     digest \<leftarrow> fst (sha1_Result (sha1_string key (sha1_Reset sha0)));
     Some (base64_encode (digest_bytes digest))
   }"

text \<open>\<open>hand_shake\<close>: the value returned, the object, the input left and the bytes written.\<close>

definition hand_shake :: "sha1 \<Rightarrow> websocket \<Rightarrow> bytes \<Rightarrow> (bool \<times> websocket \<times> bytes \<times> bytes) option" where
  "hand_shake sha0 w inp =
     (let len = length inp in
      if 2048 < len then Some (False, w, drop len inp, [])
      else do {
        buf \<leftarrow> store_block (ws_buf w) 0 inp;
        let w1 = w\<lparr>ws_buf := buf\<rparr> in do {
          tail \<leftarrow> iload_block buf (int len - 4) 4;
          if tail \<noteq> ret_str_2 then Some (False, w1, inp, [])
          else do {
            (ok, w2) \<leftarrow> ws_get_key buf w1;
            if \<not> ok then Some (False, w2, drop len inp, [])
            else do {
              server_key \<leftarrow> c_str (ws_key w2);
              acc \<leftarrow> ws_accept_key sha0 server_key;
              Some (True, w2, drop len inp, ret_str_1 @ acc @ ret_str_2)
            }
          }
        }
      })"

section \<open>A frame as a function of the buffer\<close>

text \<open>
  The length of the header and the payload length that the code reads from a full
  \<open>buf\<close>, and the payload after unmasking.
\<close>

definition ws_ext :: "bytes \<Rightarrow> nat \<times> int" where
  "ws_ext buf =
     (let n = uint (buf ! 1 AND 0x7f)
      in if n = 126 then (4, be_val (block_at 2 2 buf))
         else if n = 127 then (6, s32 (be_val (block_at 2 4 buf)))
         else (2, n))"

definition ws_masked :: "bytes \<Rightarrow> bool" where
  "ws_masked buf \<longleftrightarrow> drop_bit 7 (buf ! 1) = 1"

definition ws_body :: "bytes \<Rightarrow> nat" where
  "ws_body buf = (let n = snd (ws_ext buf) in if n < 0 \<or> 2048 \<le> n then 0 else nat n)"

definition ws_head :: "bytes \<Rightarrow> nat" where
  "ws_head buf = fst (ws_ext buf) + (if ws_masked buf then 4 else 0)"

definition ws_data :: "bytes \<Rightarrow> bytes" where
  "ws_data buf =
     (let d = block_at (ws_head buf) (ws_body buf) buf
      in if ws_masked buf then unmask (block_at (fst (ws_ext buf)) 4 buf) d else d)"

lemma ws_ext_le: "fst (ws_ext buf) \<le> 6"
  by (auto simp: ws_ext_def Let_def)

lemma ws_head_le: "ws_head buf \<le> 10"
  using ws_ext_le [of buf] by (simp add: ws_head_def)

lemma length_unmask [simp]: "length (unmask k d) = length d"
  by (simp add: unmask_def)

lemma length_ws_data: "ws_head buf + ws_body buf \<le> length buf \<Longrightarrow> length (ws_data buf) = ws_body buf"
  by (simp add: ws_data_def Let_def)

lemma fetch_length_eq:
  assumes "length buf = 2048"
  shows "fetch_payload_length buf 1 r =
    Some (fst (ws_ext buf), r\<lparr>wr_payload_length := int (ws_body buf)\<rparr>)"
  using assms
  by (cases "uint (buf ! 1 AND 0x7f) = 126"; cases "uint (buf ! 1 AND 0x7f) = 127")
    (simp_all add: fetch_payload_length_def ws_ext_def ws_body_def mem_defs Let_def numeral_2_eq_2)

lemma fetch_info_eq:
  assumes "length buf = 2048"
  shows "fetch_websocket_info buf wr_reset =
    (if ws_head buf + ws_body buf \<le> 2048
     then Some (ws_head buf + ws_body buf,
       \<lparr>wr_fin = drop_bit 7 (buf ! 0), wr_opcode = buf ! 0 AND 0x0f, wr_mask = drop_bit 7 (buf ! 1),
        wr_masking_key = (if ws_masked buf then block_at (fst (ws_ext buf)) 4 buf else replicate 4 0),
        wr_payload_length = int (ws_body buf), wr_payload = blit (replicate 2048 0) 0 (ws_data buf)\<rparr>)
     else None)"
proof -
  have l: "load buf 0 = Some (buf ! 0)" "load buf 1 = Some (buf ! 1)"
    using assms by (simp_all add: mem_defs)
  have k: "fst (ws_ext buf) + 4 \<le> 2048" using ws_ext_le [of buf] by simp
  have n: "nat (int (ws_body buf)) = ws_body buf" by simp
  have b: "ws_body buf \<le> 2048" by (auto simp: ws_body_def Let_def)
  show ?thesis
  proof (cases "ws_masked buf")
    case True
    then have m: "drop_bit 7 (buf ! 1) = 1" by (simp add: ws_masked_def)
    show ?thesis
      using True m l k b assms fetch_length_eq [OF assms]
      by (simp add: fetch_websocket_info_def fetch_fin_def fetch_opcode_def fetch_mask_def
          fetch_masking_key_def fetch_payload_def ws_head_def ws_data_def mem_defs Let_def wr_reset_def)
  next
    case False
    then have m: "drop_bit 7 (buf ! 1) \<noteq> 1" by (simp add: ws_masked_def)
    show ?thesis
      using False m l k b assms fetch_length_eq [OF assms]
      by (simp add: fetch_websocket_info_def fetch_fin_def fetch_opcode_def fetch_mask_def
          fetch_masking_key_def fetch_payload_def ws_head_def ws_data_def mem_defs Let_def wr_reset_def)
  qed
qed

text \<open>What \<open>buf\<close> holds after \<open>copyout\<close>.\<close>

definition ws_copyout :: "websocket \<Rightarrow> bytes \<Rightarrow> bytes" where
  "ws_copyout w inp = blit (ws_buf w) 0 (take 2048 inp)"

definition ws_ok :: "websocket \<Rightarrow> bool" where
  "ws_ok w \<longleftrightarrow> length (ws_buf w) = 2048 \<and> length (ws_key w) = 128"

lemma length_ws_copyout: "ws_ok w \<Longrightarrow> length (ws_copyout w inp) = 2048"
  by (simp add: ws_copyout_def ws_ok_def)

lemma ws_copyout_prefix:
  "ws_ok w \<Longrightarrow> i \<le> length inp \<Longrightarrow> i \<le> 2048 \<Longrightarrow> take i (ws_copyout w inp) = take i inp"
  by (simp add: ws_copyout_def blit_def ws_ok_def min_def)

lemma handle_packet_eq:
  fixes w :: websocket and inp :: bytes
  assumes "ws_ok w"
  defines "buf \<equiv> ws_copyout w inp"
  shows "(handle_packet w inp = None \<longleftrightarrow> 2048 < ws_head buf + ws_body buf)"
    "ws_head buf + ws_body buf \<le> 2048 \<Longrightarrow> min 2048 (length inp) < ws_head buf + ws_body buf \<Longrightarrow>
      \<exists>w'. handle_packet w inp = Some (-2, w', inp) \<and> ws_ok w'"
    "ws_head buf + ws_body buf \<le> min 2048 (length inp) \<Longrightarrow> buf ! 0 = 0x82 \<Longrightarrow>
      \<exists>w'. handle_packet w inp = Some (int (ws_body buf), w', drop (ws_head buf + ws_body buf) inp) \<and>
        ws_ok w' \<and> take (ws_body buf) (ws_buf w') = ws_data buf"
proof -
  have len: "(if 2048 < length inp then 2048 else length inp) = min 2048 (length inp)" by (simp add: min_def)
  have st: "store_block (ws_buf w) 0 (take (min 2048 (length inp)) inp) = Some buf"
    using assms(1) by (simp add: buf_def ws_copyout_def mem_defs ws_ok_def min_def)
  have lb: "length buf = 2048" unfolding buf_def by (rule length_ws_copyout [OF assms(1)])
  have b: "ws_body buf \<le> 2048" by (auto simp: ws_body_def Let_def)
  note f = fetch_info_eq [OF lb]
  show "handle_packet w inp = None \<longleftrightarrow> 2048 < ws_head buf + ws_body buf"
    unfolding handle_packet_def len Let_def st using b lb length_ws_data [of buf]
    by (auto simp: f mem_defs not_le)
  show "ws_head buf + ws_body buf \<le> 2048 \<Longrightarrow> min 2048 (length inp) < ws_head buf + ws_body buf \<Longrightarrow>
      \<exists>w'. handle_packet w inp = Some (-2, w', inp) \<and> ws_ok w'"
    unfolding handle_packet_def len Let_def st using lb assms(1) by (simp add: f ws_ok_def)
  show "\<exists>w'. handle_packet w inp = Some (int (ws_body buf), w', drop (ws_head buf + ws_body buf) inp) \<and>
        ws_ok w' \<and> take (ws_body buf) (ws_buf w') = ws_data buf"
    if a: "ws_head buf + ws_body buf \<le> min 2048 (length inp)" "buf ! 0 = 0x82"
  proof -
    have h: "ws_head buf + ws_body buf \<le> 2048" "ws_head buf + ws_body buf \<le> length buf" using a lb by auto
    have d: "length (ws_data buf) = ws_body buf" by (rule length_ws_data [OF h(2)])
    have "block_at 0 (ws_body buf) (blit (replicate 2048 0) 0 (ws_data buf)) = ws_data buf"
      using block_at_blit [of 0 "replicate 2048 0" "ws_data buf"] d by simp
    moreover have "take (ws_body buf) (blit buf 0 (ws_data buf)) = ws_data buf"
      using d by (simp add: blit_def)
    ultimately show ?thesis
      unfolding handle_packet_def len Let_def st using h a(1) a(2) b lb d assms(1)
      by (auto simp: f mem_defs ws_ok_def)
  qed
qed

section \<open>Frames\<close>

text \<open>
  A final binary frame as RFC 6455 writes it, for payloads below 65536 bytes: the
  length in seven bits or in two more bytes, the mask of a client frame, the payload.
\<close>

definition ws_frame_head :: "bool \<Rightarrow> nat \<Rightarrow> bytes" where
  "ws_frame_head masked n =
     (let m = (if masked then 128 else 0)
      in if n < 126 then [0x82, of_nat (m + n)] else [0x82, of_nat (m + 126)] @ be_bytes 2 (int n))"

text \<open>Masking: each byte with the next byte of the key, which is used round and round.\<close>

fun mask_bytes :: "bytes \<Rightarrow> bytes \<Rightarrow> bytes" where
  "mask_bytes k [] = []"
| "mask_bytes k (x # xs) = (x XOR hd k) # mask_bytes (rotate1 k) xs"

definition client_frame :: "bytes \<Rightarrow> bytes \<Rightarrow> bytes" where
  "client_frame k d = ws_frame_head True (length d) @ k @ mask_bytes k d"

lemma length_masked [simp]: "length (mask_bytes k d) = length d"
  by (induction k d rule: mask_bytes.induct) simp_all

lemma masked_nth:
  "k \<noteq> [] \<Longrightarrow> i < length d \<Longrightarrow> mask_bytes k d ! i = d ! i XOR k ! (i mod length k)"
proof (induction k d arbitrary: i rule: mask_bytes.induct)
  case (2 k x xs)
  show ?case
  proof (cases i)
    case 0
    then show ?thesis using 2 by (simp add: hd_conv_nth)
  next
    case (Suc j)
    then have "mask_bytes (rotate1 k) xs ! j = xs ! j XOR rotate1 k ! (j mod length k)"
      using 2 by simp
    moreover have "rotate1 k ! (j mod length k) = k ! (Suc j mod length k)"
      using 2(2) by (simp add: nth_rotate1 mod_Suc_eq)
    ultimately show ?thesis using Suc by simp
  qed
qed simp

lemma unmask_masked:
  assumes "length k = 4"
  shows "unmask k (mask_bytes k d) = d"
proof (rule nth_equalityI)
  fix i assume i: "i < length (unmask k (mask_bytes k d))"
  then have "mask_bytes k d ! i = d ! i XOR k ! (i mod 4)" using assms masked_nth [of k i d] by fastforce
  then show "unmask k (mask_bytes k d) ! i = d ! i" using i by (simp add: unmask_def xor.assoc)
qed simp

definition server_frame :: "bytes \<Rightarrow> bytes" where
  "server_frame d = ws_frame_head False (length d) @ d"

lemma length_frame_head: "length (ws_frame_head m n) = (if n < 126 then 2 else 4)"
  by (simp add: ws_frame_head_def Let_def)

lemma byte_len_bits:
  assumes "n < 128"
  shows "uint ((of_nat n :: byte) AND 0x7f) = int n" "drop_bit 7 (of_nat n :: byte) = 0"
    "uint ((of_nat (128 + n) :: byte) AND 0x7f) = int n" "drop_bit 7 (of_nat (128 + n) :: byte) = 1"
proof -
  have m: "(b :: byte) AND 0x7f = take_bit 7 b" for b
    by (simp add: take_bit_eq_mask mask_eq_exp_minus_1)
  have u: "unat (of_nat n :: byte) = n" "unat (of_nat (128 + n) :: byte) = 128 + n"
    using assms unat_of_byte [of n] unat_of_byte [of "128 + n"] by simp_all
  have t: "unat (take_bit 7 b) = unat b mod 128" "unat (drop_bit 7 b) = unat b div 128" for b :: byte
    using byte_less [of b]
    by (simp_all add: byte_nat) (simp_all add: nat_fields)
  show "uint ((of_nat n :: byte) AND 0x7f) = int n" "uint ((of_nat (128 + n) :: byte) AND 0x7f) = int n"
    using t(1) [of "of_nat n"] t(1) [of "of_nat (128 + n)"] u assms
    by (simp_all add: m uint_nat)
  show "drop_bit 7 (of_nat n :: byte) = 0" "drop_bit 7 (of_nat (128 + n) :: byte) = 1"
    using t(2) u assms by (simp_all add: word_unat_eq_iff)
qed

text \<open>A buffer that starts with a frame header is read as that header says.\<close>

lemma ws_read_head:
  assumes "length buf = 2048" "n < 2048" "take (length (ws_frame_head m n)) buf = ws_frame_head m n"
  shows "buf ! 0 = 0x82" "ws_masked buf = m" "ws_body buf = n"
    "fst (ws_ext buf) = length (ws_frame_head m n)"
    "ws_head buf = length (ws_frame_head m n) + (if m then 4 else 0)"
proof -
  obtain rest where b: "buf = ws_frame_head m n @ rest"
    using assms(3) by (metis append_take_drop_id)
  have v: "be_val (be_bytes 2 (int n)) = int n" using assms(2) by (simp add: be_val_be_bytes)
  have bl: "block_at 2 2 (0x82 # x # be_bytes 2 (int n) @ rest) = be_bytes 2 (int n)" for x
    by (simp add: block_at_def)
  have "buf ! 0 = 0x82 \<and> ws_masked buf = m \<and> ws_body buf = n \<and> fst (ws_ext buf) = length (ws_frame_head m n)"
  proof (cases "n < 126")
    case True
    then show ?thesis using byte_len_bits [of n] assms(2)
      by (cases m) (simp_all add: b ws_frame_head_def ws_masked_def ws_body_def ws_ext_def)
  next
    case False
    then show ?thesis using byte_len_bits [of 126] v assms(2)
      by (cases m) (simp_all add: b ws_frame_head_def ws_masked_def ws_body_def ws_ext_def bl [simplified])
  qed
  then show "buf ! 0 = 0x82" "ws_masked buf = m" "ws_body buf = n"
    "fst (ws_ext buf) = length (ws_frame_head m n)"
    "ws_head buf = length (ws_frame_head m n) + (if m then 4 else 0)"
    by (auto simp: ws_head_def)
qed

lemma ws_data_masked:
  assumes "length buf = 2048" "length d < 2048" "length k = 4"
    "take (length (client_frame k d)) buf = client_frame k d"
  shows "ws_data buf = d" "ws_body buf = length d" "ws_head buf + ws_body buf = length (client_frame k d)"
    "buf ! 0 = 0x82"
proof -
  let ?h = "ws_frame_head True (length d)"
  obtain rest where b: "buf = ?h @ k @ mask_bytes k d @ rest"
    using assms(4) unfolding client_frame_def by (metis append_take_drop_id append_assoc)
  then have "take (length ?h) buf = ?h" by simp
  note r = ws_read_head [OF assms(1,2) this]
  have "block_at (length ?h) 4 buf = k" "block_at (length ?h + 4) (length d) buf = mask_bytes k d"
    using assms(3) by (simp_all add: b block_at_def)
  then show "ws_data buf = d" using r unmask_masked [OF assms(3)] by (simp add: ws_data_def Let_def)
  show "ws_body buf = length d" "buf ! 0 = 0x82" using r by simp_all
  show "ws_head buf + ws_body buf = length (client_frame k d)"
    using r assms(3) by (simp add: client_frame_def)
qed

lemma ws_data_plain:
  assumes "length buf = 2048" "length d < 2048"
    "take (length (server_frame d)) buf = server_frame d"
  shows "ws_data buf = d" "ws_body buf = length d" "ws_head buf + ws_body buf = length (server_frame d)"
    "buf ! 0 = 0x82"
proof -
  let ?h = "ws_frame_head False (length d)"
  obtain rest where b: "buf = ?h @ d @ rest"
    using assms(3) unfolding server_frame_def by (metis append_take_drop_id append_assoc)
  then have "take (length ?h) buf = ?h" by simp
  note r = ws_read_head [OF assms(1,2) this]
  have "block_at (length ?h) (length d) buf = d" by (simp add: b block_at_def)
  then show "ws_data buf = d" using r by (simp add: ws_data_def Let_def)
  show "ws_body buf = length d" "buf ! 0 = 0x82" using r by simp_all
  show "ws_head buf + ws_body buf = length (server_frame d)" using r by (simp add: server_frame_def)
qed

lemma ws_copyout_frame:
  assumes "ws_ok w" "length f \<le> 2048"
  shows "take (length f) (ws_copyout w (f @ rest)) = f"
  using ws_copyout_prefix [OF assms(1), of "length f" "f @ rest"] assms(2) by simp

lemma ws_send_msg_frame:
  assumes "0 \<le> len" "len + 4 < 65536" "len \<le> int (length p)"
  shows "ws_send_msg mid p len =
    Some (server_frame (be_bytes 2 len @ be_bytes 2 mid @ take (nat len) p))"
proof -
  have s: "be_bytes 2 (s16 n) = be_bytes 2 n" for n
  proof -
    have "s16 n mod 65536 = n mod 65536"
      by (simp add: s16_def take_bit_eq_mod [of 16, simplified, symmetric] take_bit_signed_take_bit)
    then have "65536 dvd s16 n - n" by (simp add: mod_eq_dvd_iff)
    then obtain j where "s16 n - n = 65536 * j" ..
    then have "s16 n = n + 256 ^ 2 * j" by simp
    then show ?thesis by (simp only: be_bytes_def le_bytes_mod)
  qed
  have d: "(if 0 < len then iload_block p 0 len else Some []) = Some (take (nat len) p)"
    using assms by (auto simp: mem_defs block_at_def)
  have n: "length (be_bytes 2 len @ be_bytes 2 mid @ take (nat len) p) = nat (len + 4)"
    using assms by simp
  have e: "be_bytes 2 (len + 4) = [word_of_int ((len + 4) div 256), word_of_int (len + 4)]"
    by (simp add: be_bytes_def numeral_2_eq_2)
  show ?thesis
    using assms d e n
    by (simp add: ws_send_msg_def server_frame_def ws_frame_head_def s Let_def nat_less_iff
        del: length_append)
qed

section \<open>The handshake on a well-formed request\<close>

definition occurs_at :: "bytes \<Rightarrow> bytes \<Rightarrow> nat \<Rightarrow> bool" where
  "occurs_at needle buf i \<longleftrightarrow> block_at i (length needle) buf = needle \<and> i + length needle \<le> length buf"

lemma c_strstr_found:
  assumes "i \<le> k" "occurs_at needle buf k"
    "\<forall>j. i \<le> j \<and> j < k \<longrightarrow> buf ! j \<noteq> 0 \<and> \<not> occurs_at needle buf j" "needle \<noteq> []"
  shows "c_strstr buf i needle = Some (Some k)"
  using assms
proof (induction "k - i" arbitrary: i)
  case 0
  then show ?case by (subst c_strstr.simps) (simp add: occurs_at_def)
next
  case (Suc d)
  have "c_strstr buf (Suc i) needle = Some (Some k)" using Suc by (intro Suc(1)) auto
  moreover have "buf ! i \<noteq> 0" "\<not> occurs_at needle buf i" using Suc by auto
  moreover have "i < length buf" using Suc.hyps(2) Suc.prems(2,4) by (cases needle) (auto simp: occurs_at_def)
  ultimately show ?case by (subst c_strstr.simps) (auto simp: occurs_at_def)
qed

definition handshake_request :: "bytes \<Rightarrow> bytes \<Rightarrow> bytes \<Rightarrow> bytes" where
  "handshake_request h1 k h2 = h1 @ key_str_begin @ k @ crlf @ h2"

text \<open>
  A request the handshake can serve: complete, not longer than \<open>buf\<close>, with the key
  on a line of its own and the field name nowhere before it.
\<close>

definition request_ok :: "bytes \<Rightarrow> bytes \<Rightarrow> bytes \<Rightarrow> bool" where
  "request_ok h1 k h2 \<longleftrightarrow>
     (let r = handshake_request h1 k h2 in
      length r \<le> 2048 \<and> 4 \<le> length r \<and> drop (length r - 4) r = ret_str_2 \<and>
      0 \<notin> set h1 \<and> (\<forall>j < length h1. \<not> occurs_at key_str_begin r j) \<and>
      0 \<notin> set k \<and> 13 \<notin> set k \<and> length k + 36 < 128)"

lemma key_consts [simp]:
  "length key_str_begin = 19" "length magic_str = 36" "length crlf = 2" "length ret_str_2 = 4"
  "0 \<notin> set key_str_begin" "13 \<notin> set key_str_begin" "0 \<notin> set magic_str" "crlf \<noteq> []" "key_str_begin \<noteq> []"
  by (simp_all add: key_str_begin_def magic_str_def crlf_def ret_str_2_def)

lemma block_at_prefix_of:
  "i + n \<le> length r \<Longrightarrow> block_at i n (r @ t) = block_at i n r"
  by (simp add: block_at_def)

lemma occurs_at_prefix:
  "i + length needle \<le> length r \<Longrightarrow> occurs_at needle (r @ t) i = occurs_at needle r i"
  by (simp add: occurs_at_def block_at_prefix_of)

lemma occurs_crlf: "occurs_at crlf buf j \<Longrightarrow> buf ! j = 13"
proof -
  assume "occurs_at crlf buf j"
  then have "take 2 (drop j buf) = [13, 10]" "j + 2 \<le> length buf"
    by (simp_all add: occurs_at_def block_at_def crlf_def numeral_2_eq_2)
  moreover from this have "drop j buf = buf ! j # drop (Suc j) buf" by (simp add: Cons_nth_drop_Suc)
  ultimately show ?thesis by (simp add: numeral_2_eq_2)
qed

text \<open>What \<open>get_key\<close> stores: the key, the magic string, and what was there behind them.\<close>

lemma ws_get_key_request:
  assumes "request_ok h1 k h2" "length (ws_key w) = 128" "buf = handshake_request h1 k h2 @ t"
  shows "ws_get_key buf w = Some (True, w\<lparr>ws_key := k @ magic_str @ drop (length k + 36) (ws_key w)\<rparr>)"
proof -
  let ?r = "handshake_request h1 k h2" and ?a = "length h1"
  have ok: "0 \<notin> set h1" "\<forall>j < ?a. \<not> occurs_at key_str_begin ?r j" "0 \<notin> set k" "13 \<notin> set k"
    "length k + 36 < 128" using assms(1) by (simp_all add: request_ok_def Let_def)
  have b: "buf = h1 @ key_str_begin @ k @ crlf @ h2 @ t"
    using assms(3) by (simp add: handshake_request_def)
  have s1: "c_strstr buf 0 key_str_begin = Some (Some ?a)"
  proof (rule c_strstr_found)
    show "occurs_at key_str_begin buf ?a" by (simp add: occurs_at_def b block_at_def)
    show "\<forall>j. 0 \<le> j \<and> j < ?a \<longrightarrow> buf ! j \<noteq> 0 \<and> \<not> occurs_at key_str_begin buf j"
    proof (intro allI impI conjI)
      fix j
      assume j: "0 \<le> j \<and> j < ?a"
      then have "buf ! j = h1 ! j" "h1 ! j \<in> set h1" by (simp_all add: b nth_append)
      then show "buf ! j \<noteq> 0" using ok(1) by metis
      have "occurs_at key_str_begin buf j = occurs_at key_str_begin ?r j"
        unfolding assms(3) using j by (intro occurs_at_prefix) (simp add: handshake_request_def)
      with ok(2) j show "\<not> occurs_at key_str_begin buf j" by simp
    qed
  qed simp_all
  have s2: "c_strstr buf ?a crlf = Some (Some (?a + 19 + length k))"
  proof (rule c_strstr_found)
    show "occurs_at crlf buf (?a + 19 + length k)" by (simp add: occurs_at_def b block_at_def)
    show "\<forall>j. ?a \<le> j \<and> j < ?a + 19 + length k \<longrightarrow> buf ! j \<noteq> 0 \<and> \<not> occurs_at crlf buf j"
    proof (intro allI impI conjI)
      fix j
      assume j: "?a \<le> j \<and> j < ?a + 19 + length k"
      have "buf ! j = (key_str_begin @ k) ! (j - ?a)" using j by (auto simp: b nth_append)
      moreover have "(key_str_begin @ k) ! (j - ?a) \<in> set (key_str_begin @ k)"
        using j by (intro nth_mem) auto
      ultimately have m: "buf ! j \<in> set (key_str_begin @ k)" by simp
      then show "buf ! j \<noteq> 0" using ok(3) by (metis Un_iff key_consts(5) set_append)
      show "\<not> occurs_at crlf buf j" using m ok(4) occurs_crlf [of buf j]
        by (metis Un_iff key_consts(6) set_append)
    qed
  qed simp_all
  have d: "load_block buf (?a + 19) (length k) = Some k"
    by (simp add: mem_defs b block_at_def)
  have k1: "store_block (ws_key w) 0 k = Some (k @ drop (length k) (ws_key w))"
    using ok(5) assms(2) by (simp add: mem_defs blit_def)
  have k2: "store_block (k @ drop (length k) (ws_key w)) (length k) magic_str =
      Some (k @ magic_str @ drop (length k + 36) (ws_key w))"
    using ok(5) assms(2) by (simp add: mem_defs blit_def add.commute)
  show ?thesis
    unfolding ws_get_key_def using s1 s2 d k1 k2 by simp
qed

lemma sha1_string_digest:
  assumes "length (s1_block sha0) = 64" "0 \<notin> set m" "length m < 2 ^ 31"
  shows "fst (sha1_Result (sha1_string m (sha1_Reset sha0))) = Some (sha1_ref m)"
proof -
  have t: "takeWhile (\<lambda>b. b \<noteq> 0) m = m" using assms(2) by (induction m) auto
  have f: "fold (\<lambda>b. sha1_Input [b]) m s = fold sha1_Input (map (\<lambda>b. [b]) m) s" for s
    by (induction m arbitrary: s) auto
  have c: "concat (map (\<lambda>b. [b]) m) = m" by (induction m) auto
  have "s1.has_read sha1_init_H (fold sha1_Input (map (\<lambda>b. [b]) m) (sha1_Reset sha0)) ([] @ concat (map (\<lambda>b. [b]) m))"
    by (rule s1.has_read_chunks [OF sha1_Reset_ok [OF assms(1)]]) (use assms(3) c in auto)
  then show ?thesis using sha1_has_read_Result [of _ m] by (simp add: sha1_string_def t f c)
qed

text \<open>The handshake in full: what was left behind the key is hashed with it.\<close>

lemma hand_shake_request:
  assumes "ws_ok w" "request_ok h1 k h2" "length (s1_block sha0) = 64"
    "0 \<in> set (drop (length k + 36) (ws_key w))"
  defines "m \<equiv> k @ magic_str @ takeWhile (\<lambda>b. b \<noteq> 0) (drop (length k + 36) (ws_key w))"
  shows "\<exists>w'. hand_shake sha0 w (handshake_request h1 k h2) =
      Some (True, w', [], ret_str_1 @ base64_encode (digest_bytes (sha1_ref m)) @ ret_str_2) \<and>
    ws_ok w' \<and> ws_key w' = k @ magic_str @ drop (length k + 36) (ws_key w)"
proof -
  let ?r = "handshake_request h1 k h2" and ?key = "k @ magic_str @ drop (length k + 36) (ws_key w)"
  have ok: "length ?r \<le> 2048" "4 \<le> length ?r" "drop (length ?r - 4) ?r = ret_str_2"
    "0 \<notin> set k" "length k + 36 < 128"
    using assms(2) by (simp_all add: request_ok_def Let_def)
  have wl: "length (ws_buf w) = 2048" "length (ws_key w) = 128" using assms(1) by (simp_all add: ws_ok_def)
  define buf where "buf = ?r @ drop (length ?r) (ws_buf w)"
  have st: "store_block (ws_buf w) 0 ?r = Some buf"
    using ok(1) wl by (simp add: mem_defs blit_def buf_def)
  have tl: "iload_block buf (int (length ?r) - 4) 4 = Some ret_str_2"
  proof -
    have "block_at (length ?r - 4) 4 buf = drop (length ?r - 4) ?r"
      using ok(2) by (simp add: buf_def block_at_def)
    moreover have "nat (int (length ?r) - 4) = length ?r - 4" by simp
    ultimately show ?thesis using ok(2,3) by (simp add: mem_defs buf_def)
  qed
  define w1 where "w1 = w\<lparr>ws_buf := buf\<rparr>"
  have gk: "ws_get_key buf w1 = Some (True, w1\<lparr>ws_key := ?key\<rparr>)"
    using ws_get_key_request [OF assms(2), of w1 buf] wl(2) by (simp add: w1_def buf_def)
  have tw: "takeWhile (\<lambda>b. b \<noteq> 0) ?key = m"
  proof -
    have "takeWhile (\<lambda>b. b \<noteq> 0) (xs @ ys) = xs @ takeWhile (\<lambda>b. b \<noteq> 0) ys" if "0 \<notin> set xs" for xs ys :: bytes
      using that by (induction xs) auto
    from this [of "k @ magic_str" "drop (length k + 36) (ws_key w)"] ok(4) show ?thesis
      by (simp add: m_def)
  qed
  have cs: "c_str ?key = Some m" using assms(4) tw by (simp add: c_str_def)
  have lm: "length m < 2 ^ 31"
  proof -
    have "length m \<le> length ?key" unfolding tw [symmetric] by (rule length_takeWhile_le)
    also have "\<dots> = 128" using ok(5) wl(2) by simp
    finally show ?thesis by simp
  qed
  have zm: "0 \<notin> set m" unfolding tw [symmetric] by (auto dest: set_takeWhileD)
  have ak: "ws_accept_key sha0 m = Some (base64_encode (digest_bytes (sha1_ref m)))"
    using sha1_string_digest [OF assms(3) zm lm] by (simp add: ws_accept_key_def)
  have "hand_shake sha0 w ?r = Some (True, w1\<lparr>ws_key := ?key\<rparr>, [],
      ret_str_1 @ base64_encode (digest_bytes (sha1_ref m)) @ ret_str_2)"
    using ok(1) st tl gk cs ak by (simp add: hand_shake_def Let_def w1_def)
  moreover have "ws_ok (w1\<lparr>ws_key := ?key\<rparr>)"
    using wl ok(1,5) by (simp add: ws_ok_def w1_def buf_def)
  ultimately show ?thesis by simp
qed

lemma ws_read_head_long:
  assumes "length buf = 2048" "2048 \<le> n" "n < 65536" "take 4 buf = ws_frame_head True n"
  shows "buf ! 0 = 0x82" "ws_body buf = 0" "ws_head buf = 8"
proof -
  obtain rest where b: "buf = ws_frame_head True n @ rest"
    using assms(4) by (metis append_take_drop_id)
  have v: "be_val (be_bytes 2 (int n)) = int n" using assms(3) by (simp add: be_val_be_bytes)
  have bl: "block_at 2 2 (0x82 # x # be_bytes 2 (int n) @ rest) = be_bytes 2 (int n)" for x
    by (simp add: block_at_def)
  show "buf ! 0 = 0x82" "ws_body buf = 0" "ws_head buf = 8"
    using byte_len_bits [of 126] v assms(2)
    by (simp_all add: b ws_frame_head_def ws_masked_def ws_head_def ws_body_def ws_ext_def bl [simplified])
qed

lemma websocket_init_ok: "ws_ok websocket_init"
  by (simp add: ws_ok_def websocket_init_def)

lemma handle_packet_client_frame:
  assumes "ws_ok w" "length k = 4" "length d \<le> 2040"
  shows "\<exists>w'. handle_packet w (client_frame k d @ rest) = Some (int (length d), w', rest) \<and>
    ws_ok w' \<and> take (length d) (ws_buf w') = d"
proof -
  let ?f = "client_frame k d" and ?b = "ws_copyout w (client_frame k d @ rest)"
  have l: "length ?f \<le> 2048" using assms(2,3) by (simp add: client_frame_def length_frame_head)
  have m: "length d < 2048" using assms(3) by simp
  note b = ws_data_masked [OF length_ws_copyout [OF assms(1)] m assms(2) ws_copyout_frame [OF assms(1) l]]
  have "ws_head ?b + ws_body ?b \<le> min 2048 (length (?f @ rest))" using b(3) [of rest] l by simp
  from handle_packet_eq(3) [OF assms(1) this b(4)] b show ?thesis by simp
qed

lemma handle_packet_partial_frame:
  assumes "ws_ok w" "length k = 4" "length d \<le> 2040" "6 \<le> j" "j < length (client_frame k d)"
  shows "\<exists>w'. handle_packet w (take j (client_frame k d)) = Some (-2, w', take j (client_frame k d)) \<and> ws_ok w'"
proof -
  let ?f = "client_frame k d" and ?h = "ws_frame_head True (length d)"
  let ?b = "ws_copyout w (take j ?f)"
  have l: "length ?f \<le> 2048" using assms(2,3) by (simp add: client_frame_def length_frame_head)
  have h: "length ?h \<le> j" using assms(4) by (simp add: length_frame_head)
  have "take (length ?h) ?b = take (length ?h) (take j ?f)"
    using ws_copyout_prefix [OF assms(1), of "length ?h" "take j ?f"] h l assms(5) by simp
  also have "\<dots> = ?h" using h by (simp add: client_frame_def)
  finally have t: "take (length ?h) ?b = ?h" .
  have m: "length d < 2048" using assms(3) by simp
  note r = ws_read_head [OF length_ws_copyout [OF assms(1)] m t]
  have e: "ws_head ?b + ws_body ?b = length ?f" using r assms(2) by (simp add: client_frame_def)
  then show ?thesis using handle_packet_eq(2) [OF assms(1), of "take j ?f"] l assms(5) by simp
qed

section \<open>Properties\<close>

text \<open>
  C5. A complete masked binary frame from a client, of at most 2040 bytes of
  payload and followed by anything, is decoded to its payload, which is then at the
  start of \<open>buf\<close>; exactly the frame is taken from the input.
\<close>

theorem websocket_receives_frame:
  assumes "ws_ok w" "length k = 4" "length d \<le> 2040"
  shows "\<exists>w'. handle_packet w (client_frame k d @ rest) = Some (int (length d), w', rest) \<and>
    ws_ok w' \<and> take (length d) (ws_buf w') = d"
  by (rule handle_packet_client_frame [OF assms])

theorem websocket_receives_frame_witness:
  "\<exists>w'. handle_packet websocket_init (client_frame [1, 2, 3, 4] [0, 2, 0, 9, 7, 7] @ [130]) = Some (6, w', [130]) \<and>
    take 6 (ws_buf w') = [0, 2, 0, 9, 7, 7]"
proof -
  define d :: bytes where "d = [0, 2, 0, 9, 7, 7]"
  have l: "length d = 6" by (simp add: d_def)
  then obtain w' where "handle_packet websocket_init (client_frame [1, 2, 3, 4] d @ [130]) =
      Some (int (length d), w', [130])" "take (length d) (ws_buf w') = d"
    using websocket_receives_frame [OF websocket_init_ok, of "[1, 2, 3, 4]" d "[130]"] by auto
  then show ?thesis unfolding l unfolding d_def by auto
qed

text \<open>
  While a frame has not arrived completely, at least its first six bytes being
  there, \<open>handle_packet\<close> answers \<open>-2\<close> and takes nothing, so that the same call on
  the completed input decodes it.
\<close>

theorem websocket_waits_for_frame:
  assumes "ws_ok w" "length k = 4" "length d \<le> 2040" "6 \<le> j" "j < length (client_frame k d)"
  shows "\<exists>w'. handle_packet w (take j (client_frame k d)) = Some (-2, w', take j (client_frame k d)) \<and> ws_ok w'"
  by (rule handle_packet_partial_frame [OF assms])

theorem websocket_waits_for_frame_witness:
  "\<exists>w'. handle_packet websocket_init (take 9 (client_frame [1, 2, 3, 4] [0, 2, 0, 9, 7, 7])) =
    Some (-2, w', take 9 (client_frame [1, 2, 3, 4] [0, 2, 0, 9, 7, 7]))"
proof -
  have "(9::nat) < length (client_frame [1, 2, 3, 4] [0, 2, 0, 9, 7, 7])"
    by (simp add: client_frame_def length_frame_head)
  with websocket_waits_for_frame [OF websocket_init_ok, of "[1, 2, 3, 4]" "[0, 2, 0, 9, 7, 7]" 9]
  show ?thesis by auto
qed

text \<open>
  C27. What \<open>send_msg\<close> writes for a message of \<open>len\<close> bytes is one frame, and
  \<open>handle_packet\<close> reads from it the message header, length and id in network order,
  and the message: sender and receiver agree on the format.
\<close>

theorem websocket_send_receive:
  assumes "ws_ok w" "0 \<le> len" "len \<le> 2040" "len \<le> int (length p)"
  shows "\<exists>f w'. ws_send_msg mid p len = Some f \<and>
    handle_packet w (f @ rest) = Some (len + 4, w', rest) \<and>
    take (nat len + 4) (ws_buf w') = be_bytes 2 len @ be_bytes 2 mid @ take (nat len) p"
proof -
  let ?d = "be_bytes 2 len @ be_bytes 2 mid @ take (nat len) p"
  let ?f = "server_frame ?d" and ?b = "ws_copyout w (server_frame ?d @ rest)"
  have d: "length ?d = nat len + 4" "nat len \<le> 2040" using assms by simp_all
  then have m: "length ?d < 2048" by simp
  have l: "length ?f \<le> 2048" using d by (simp add: server_frame_def length_frame_head)
  note b = ws_data_plain [OF length_ws_copyout [OF assms(1)] m ws_copyout_frame [OF assms(1) l]]
  have "ws_head ?b + ws_body ?b \<le> min 2048 (length (?f @ rest))" using b(3) [of rest] l by simp
  from handle_packet_eq(3) [OF assms(1) this b(4)] obtain w' where
    w': "handle_packet w (?f @ rest) = Some (int (length ?d), w', rest)" "take (length ?d) (ws_buf w') = ?d"
    using b by auto
  have "ws_send_msg mid p len = Some ?f" using ws_send_msg_frame [of len p mid] assms by simp
  moreover have "int (length ?d) = len + 4" unfolding d(1) using assms(2) by simp
  ultimately show ?thesis using w' unfolding d(1) by auto
qed

theorem websocket_send_receive_witness:
  "\<exists>f w'. ws_send_msg 513 [8, 9] 2 = Some f \<and> handle_packet websocket_init (f @ []) = Some (6, w', []) \<and>
    take 6 (ws_buf w') = be_bytes 2 2 @ be_bytes 2 513 @ [8, 9]"
  using websocket_send_receive [OF websocket_init_ok, of 2 "[8, 9]" 513 "[]"] by simp

text \<open>
  The bound of the receive buffer: a masked frame with 2041 to 2047 bytes of
  payload passes the length check, but header and payload are longer than \<open>buf\<close>, and
  unmasking reads past its end.
\<close>

theorem websocket_reads_past_buf:
  assumes "ws_ok w" "length k = 4" "2040 < length d" "length d < 2048"
  shows "handle_packet w (client_frame k d @ rest) = None"
proof -
  let ?h = "ws_frame_head True (length d)" and ?b = "ws_copyout w (client_frame k d @ rest)"
  have h: "length ?h = 4" using assms(3) by (simp add: length_frame_head)
  have "take 4 ?b = take 4 (client_frame k d @ rest)"
    using ws_copyout_prefix [OF assms(1), of 4 "client_frame k d @ rest"] h
    by (simp add: client_frame_def)
  also have "\<dots> = ?h" using h by (simp add: client_frame_def)
  finally have "take (length ?h) ?b = ?h" unfolding h .
  note r = ws_read_head [OF length_ws_copyout [OF assms(1)] assms(4) this]
  have "2048 < ws_head ?b + ws_body ?b" using r h assms(3) by simp
  with handle_packet_eq(1) [OF assms(1)] show ?thesis by blast
qed

theorem websocket_reads_past_buf_witness:
  "handle_packet websocket_init (client_frame [1, 2, 3, 4] (replicate 2047 5) @ []) = None"
  by (rule websocket_reads_past_buf [OF websocket_init_ok]) simp_all

text \<open>
  A frame of 2048 bytes of payload and more is taken as an empty one: only its
  header is removed, and the payload, which the client chooses, is read as the next
  frames.
\<close>

theorem websocket_long_frame_desync:
  assumes "ws_ok w" "length k = 4" "2048 \<le> length d" "length d < 65536"
  shows "\<exists>w'. handle_packet w (client_frame k d @ rest) = Some (0, w', mask_bytes k d @ rest)"
proof -
  let ?h = "ws_frame_head True (length d)" and ?b = "ws_copyout w (client_frame k d @ rest)"
  have h: "length ?h = 4" using assms(3) by (simp add: length_frame_head)
  have "take 4 ?b = take 4 (client_frame k d @ rest)"
    using ws_copyout_prefix [OF assms(1), of 4 "client_frame k d @ rest"] h
    by (simp add: client_frame_def)
  also have "\<dots> = ?h" using h by (simp add: client_frame_def)
  finally have t: "take 4 ?b = ?h" .
  note r = ws_read_head_long [OF length_ws_copyout [OF assms(1)] assms(3,4) t]
  have "ws_head ?b + ws_body ?b \<le> min 2048 (length (client_frame k d @ rest))"
    using r assms(3) by (simp add: client_frame_def)
  from handle_packet_eq(3) [OF assms(1) this r(1)] r(2,3) h assms(2) show ?thesis
    by (auto simp: client_frame_def)
qed

theorem websocket_long_frame_desync_witness:
  "\<exists>w'. handle_packet websocket_init (client_frame [0, 0, 0, 0] (replicate 3000 5) @ []) =
    Some (0, w', mask_bytes [0, 0, 0, 0] (replicate 3000 5) @ [])"
  by (rule websocket_long_frame_desync [OF websocket_init_ok]) simp_all

text \<open>
  C23. The handshake answers a request as RFC 6455 wants: the 101 response with the
  Base64 of the SHA-1 of the client's key followed by the protocol's magic string;
  the whole request is taken from the input. It needs a request that is complete,
  fits \<open>buf\<close>, and a \<open>key\<close> buffer whose bytes behind the new key are zero.
\<close>

theorem websocket_handshake:
  assumes "ws_ok w" "request_ok h1 k h2" "length (s1_block sha0) = 64" "ws_key w ! (length k + 36) = 0"
  shows "\<exists>w'. hand_shake sha0 w (handshake_request h1 k h2) =
    Some (True, w', [], ret_str_1 @ base64_encode (digest_bytes (sha1_ref (k @ magic_str))) @ ret_str_2)"
proof -
  have l: "length k + 36 < length (ws_key w)"
    using assms(1,2) by (simp add: ws_ok_def request_ok_def Let_def)
  then have d: "drop (length k + 36) (ws_key w) = 0 # drop (Suc (length k + 36)) (ws_key w)"
    using assms(4) by (metis Cons_nth_drop_Suc)
  then have "0 \<in> set (drop (length k + 36) (ws_key w))" by simp
  from hand_shake_request [OF assms(1,2,3) this] d show ?thesis by auto
qed

lemma occurs_first: "occurs_at needle buf j \<Longrightarrow> needle = c # cs \<Longrightarrow> buf ! j = c"
proof -
  assume "occurs_at needle buf j" "needle = c # cs"
  then have "take (Suc (length cs)) (drop j buf) = c # cs" "j < length buf"
    by (simp_all add: occurs_at_def block_at_def)
  moreover from this have "drop j buf = buf ! j # drop (Suc j) buf" by (simp add: Cons_nth_drop_Suc)
  ultimately show ?thesis by simp
qed

lemma sample_request_ok: "request_ok [71, 69, 84, 13, 10] [97, 98, 99, 61] crlf"
proof -
  have "\<not> occurs_at key_str_begin (handshake_request [71, 69, 84, 13, 10] k h) j" if "j < 5" for j k h
  proof
    assume o: "occurs_at key_str_begin (handshake_request [71, 69, 84, 13, 10] k h) j"
    have "key_str_begin = 83 # tl key_str_begin" by (simp add: key_str_begin_def)
    have "handshake_request hh k h ! j = hh ! j" if "j < length hh" for hh
      using that by (simp add: handshake_request_def nth_append)
    from this [of "[71, 69, 84, 13, 10]"] occurs_first [OF o \<open>key_str_begin = 83 # tl key_str_begin\<close>]
    have "[71, 69, 84, 13, 10 :: byte] ! j = 83" using that by simp
    moreover have "[71, 69, 84, 13, 10 :: byte] ! j \<in> set [71, 69, 84, 13, 10]"
      using that by (intro nth_mem) simp
    ultimately show False by simp
  qed
  then show ?thesis
    by (simp add: request_ok_def) (simp add: handshake_request_def ret_str_2_def crlf_def key_str_begin_def)
qed

theorem websocket_handshake_witness:
  "\<exists>w'. hand_shake sha1_zero websocket_init (handshake_request [71, 69, 84, 13, 10] [97, 98, 99, 61] crlf) =
    Some (True, w', [], ret_str_1 @ base64_encode (digest_bytes (sha1_ref ([97, 98, 99, 61] @ magic_str))) @ ret_str_2)"
  by (rule websocket_handshake [OF websocket_init_ok sample_request_ok])
    (simp_all add: sha1_zero_def websocket_init_def)

text \<open>
  Nothing ends the stored key: after a handshake with a longer key, the bytes of
  that key and its magic string that lie behind the new one are hashed with it, and
  the answer is no longer the one the client expects.
\<close>

theorem websocket_handshake_stale_key:
  assumes "ws_ok w" "request_ok h1 k h2" "length (s1_block sha0) = 64"
    "ws_key w = old @ replicate (128 - length old) 0" "0 \<notin> set old" "length old < 128"
    "length k + 36 \<le> length old"
  shows "\<exists>w'. hand_shake sha0 w (handshake_request h1 k h2) =
    Some (True, w', [], ret_str_1 @
      base64_encode (digest_bytes (sha1_ref (k @ magic_str @ drop (length k + 36) old))) @ ret_str_2)"
proof -
  let ?t = "drop (length k + 36) old"
  have d: "drop (length k + 36) (ws_key w) = ?t @ replicate (128 - length old) 0"
    using assms(4,7) by simp
  have "0 \<notin> set ?t" using assms(5) by (meson in_set_dropD)
  then have "takeWhile (\<lambda>b. b \<noteq> 0) (?t @ replicate (128 - length old) 0) = ?t"
    using assms(6) by (auto simp: takeWhile_append)
  moreover have "0 \<in> set (drop (length k + 36) (ws_key w))" using assms(6) by (simp add: d)
  ultimately show ?thesis using hand_shake_request [OF assms(1,2,3)] d by auto
qed

theorem websocket_handshake_stale_key_witness:
  "\<exists>w'. hand_shake sha1_zero (websocket_init\<lparr>ws_key := replicate 41 65 @ replicate 87 0\<rparr>)
      (handshake_request [71, 69, 84, 13, 10] [97, 98, 99, 61] crlf) =
    Some (True, w', [], ret_str_1 @
      base64_encode (digest_bytes (sha1_ref ([97, 98, 99, 61] @ magic_str @ [65]))) @ ret_str_2)"
  using websocket_handshake_stale_key [OF _ sample_request_ok, of
      "websocket_init\<lparr>ws_key := replicate 41 65 @ replicate 87 0\<rparr>" sha1_zero "replicate 41 65"]
  by (simp add: sha1_zero_def websocket_init_def ws_ok_def)

end
