(* ===== verification/Channel.thy ===== *)
theory Channel
  imports MsgQueue MsgPool "HOL-Library.Multiset"
begin

text \<open>
  A pool together with the queues that carry its messages between the threads. The
  locale \<open>channel\<close> joins the two contracts: as long as every message is free, in one
  of the queues or held by a thread, and the queues are as long as the pool, a
  push is never refused and a message popped may be given back. The accounts are
  kept in multisets, so that one equation says all of it.
\<close>

definition balanced :: "nat set \<Rightarrow> nat set \<Rightarrow> nat list list \<Rightarrow> nat multiset \<Rightarrow> bool" where
  "balanced free all qs held \<longleftrightarrow>
     finite all \<and> free \<subseteq> all \<and> (\<Sum>q\<leftarrow>qs. mset q) + held + mset_set free = mset_set all"

lemma balanced_finite: "balanced free all qs held \<Longrightarrow> finite free"
  by (auto simp: balanced_def intro: finite_subset)

lemma balanced_count:
  "balanced free all qs held \<Longrightarrow>
    count (\<Sum>q\<leftarrow>qs. mset q) i + count held i + count (mset_set free) i \<le> 1"
proof -
  assume b: "balanced free all qs held"
  then have "count (\<Sum>q\<leftarrow>qs. mset q) i + count held i + count (mset_set free) i = count (mset_set all) i"
    by (metis balanced_def count_union)
  also have "\<dots> \<le> 1" by (simp add: count_mset_set')
  finally show ?thesis .
qed

lemma balanced_held:
  assumes "balanced free all qs (add_mset i held)"
  shows "i \<in> all - free" "\<forall>q \<in> set qs. i \<notin> set q"
proof -
  have "mset_set all = add_mset i ((\<Sum>q\<leftarrow>qs. mset q) + held + mset_set free)"
    using assms by (simp add: balanced_def)
  then have "i \<in># mset_set all" by simp
  then have "i \<in> all" using assms by (simp add: balanced_def)
  have c: "count (\<Sum>q\<leftarrow>qs. mset q) i = 0 \<and> count (mset_set free) i = 0"
    using balanced_count [OF assms, of i] by auto
  moreover have "finite free" using assms by (rule balanced_finite)
  ultimately show "i \<in> all - free" using \<open>i \<in> all\<close> by (auto simp: count_mset_set')
  from c have "i \<notin># (\<Sum>q\<leftarrow>qs. mset q)" by (metis not_in_iff)
  then show "\<forall>q \<in> set qs. i \<notin> set q" by simp
qed

lemma balanced_update:
  assumes "k < length qs"
  shows "(\<Sum>q\<leftarrow>qs[k := q']. mset q) + mset (qs ! k) = (\<Sum>q\<leftarrow>qs. mset q) + mset q'"
  using assms
proof (induction qs arbitrary: k)
  case (Cons q qs)
  then show ?case by (cases k) (auto simp: ac_simps)
qed simp

lemma balanced_swap:
  assumes "balanced free all qs held" "k < length qs"
    "mset (qs ! k) + held = mset q' + held'"
  shows "balanced free all (qs[k := q']) held'"
proof -
  let ?s = "\<Sum>q\<leftarrow>qs. mset q" and ?t = "\<Sum>q\<leftarrow>qs[k := q']. mset q"
  have "?t + held' + (mset (qs ! k) + mset q') = ?s + held + (mset (qs ! k) + mset q')"
    using balanced_update [OF assms(2), of q'] assms(3)
    by (metis (no_types, lifting) union_assoc union_commute)
  then have "?t + held' = ?s + held" by simp
  with assms(1) show ?thesis by (simp add: balanced_def)
qed

lemma balanced_sublist: "balanced free all qs held \<Longrightarrow> q \<in> set qs \<Longrightarrow> mset q + held \<subseteq># mset_set all"
proof -
  assume b: "balanced free all qs held" "q \<in> set qs"
  obtain ys zs where "qs = ys @ q # zs" using b(2) by (meson split_list)
  then have "mset_set all = mset q + held + ((\<Sum>q\<leftarrow>ys @ zs. mset q) + mset_set free)"
    using b(1) by (simp add: balanced_def ac_simps)
  then show ?thesis by simp
qed

section \<open>The two contracts together\<close>

locale channel = pool: resource_pool avail ids pinv alloc release +
  queue: bounded_queue content room qinv push pop peek
  for avail :: "'p \<Rightarrow> nat set" and ids pinv alloc release
    and content :: "'q \<Rightarrow> nat list" and room qinv push pop peek
begin

lemma chan_alloc:
  assumes "pinv p" "balanced (avail p) (ids p) qs held" "alloc p = (Some i, p')"
  shows "pinv p'" "ids p' = ids p" "balanced (avail p') (ids p') qs (add_mset i held)"
proof -
  have "avail p \<noteq> {}" using assms(1,3) pool.alloc_none by fastforce
  with pool.alloc_some [OF assms(1)] assms(3) have a: "i \<in> avail p" "pinv p'" "ids p' = ids p"
    "avail p' = avail p - {i}" by auto
  then have "mset_set (avail p) = add_mset i (mset_set (avail p'))"
    using balanced_finite [OF assms(2)] by (simp add: mset_set.remove)
  with assms(2) a show "pinv p'" "ids p' = ids p" "balanced (avail p') (ids p') qs (add_mset i held)"
    by (auto simp: balanced_def)
qed

lemma chan_alloc_none: "pinv p \<Longrightarrow> alloc p = (None, p') \<Longrightarrow> p' = p \<and> avail p = {}"
  using pool.alloc_none pool.alloc_some by fastforce

lemma chan_release:
  assumes "pinv p" "balanced (avail p) (ids p) qs (add_mset i held)"
  shows "\<exists>p'. release i p = (True, p') \<and> pinv p' \<and> ids p' = ids p \<and> balanced (avail p') (ids p') qs held"
proof -
  note i = balanced_held [OF assms(2)]
  from pool.release_held [OF assms(1) i(1)] obtain p' where
    p': "release i p = (True, p')" "pinv p'" "ids p' = ids p" "avail p' = insert i (avail p)" by auto
  then have "mset_set (avail p') = add_mset i (mset_set (avail p))"
    using balanced_finite [OF assms(2)] i(1) by simp
  then show ?thesis using assms(2) p' i(1) by (auto simp: balanced_def)
qed

lemma chan_push:
  assumes "qinv q" "balanced av all qs (add_mset i held)" "k < length qs" "qs ! k = content q"
    "card all \<le> room q"
  shows "\<exists>q'. push i q = (True, q') \<and> qinv q' \<and> room q' = room q \<and> content q' = content q @ [i] \<and>
    balanced av all (qs[k := content q']) held"
proof -
  have "mset (content q) + add_mset i held \<subseteq># mset_set all"
    using balanced_sublist [OF assms(2)] assms(3,4) by (metis nth_mem)
  then have "length (content q) < card all"
    using size_mset_mono by fastforce
  then have l: "length (content q) < room q" using assms(5) by simp
  from queue.push_accept [OF assms(1) l, of i] obtain q' where
    q': "push i q = (True, q')" "qinv q'" "room q' = room q" "content q' = content q @ [i]" by auto
  moreover have "balanced av all (qs[k := content q']) held"
    using balanced_swap [OF assms(2,3), of "content q'" held] assms(4) q' by simp
  ultimately show ?thesis by blast
qed

lemma chan_pop:
  assumes "qinv q" "balanced av all qs held" "k < length qs" "qs ! k = content q" "content q = i # xs"
  shows "\<exists>q'. pop q = (Some i, q') \<and> qinv q' \<and> room q' = room q \<and> content q' = xs \<and>
    balanced av all (qs[k := content q']) (add_mset i held)"
proof -
  from queue.pop_front [OF assms(1,5)] obtain q' where
    q': "pop q = (Some i, q')" "qinv q'" "room q' = room q" "content q' = xs" by auto
  moreover have "balanced av all (qs[k := content q']) (add_mset i held)"
    using balanced_swap [OF assms(2,3), of "content q'" "add_mset i held"] assms(4,5) q' by simp
  ultimately show ?thesis by blast
qed

end

interpretation mc: channel mp_avail mp_ids mp_ok mp_alloc mp_free
  mq_content mq_room mq_ok "\<lambda>x. mq_push (Some x)" mq_pop mq_getfront ..

lemma card_mp_ids [simp]: "card (mp_ids p) = mp_cap p"
  by (simp add: mp_ids_def)

lemma mp_ids_eq: "mp_ids p = mp_ids p' \<longleftrightarrow> mp_cap p = mp_cap p'"
  by (simp add: mp_ids_def)

lemma balanced_init: "balanced (mp_avail (mp_init n)) (mp_ids (mp_init n)) (replicate k []) {#}"
proof -
  have "(\<Sum>q\<leftarrow>replicate k []. mset q) = ({#} :: nat multiset)" by (induction k) auto
  moreover have "mp_ids (mp_init n) = {..<n}" by (simp add: mp_ids_def mp_init_def)
  ultimately show ?thesis by (simp add: balanced_def mp_avail_init)
qed

section \<open>One queue that no push overflows\<close>

text \<open>
  A pool whose messages travel through one queue at least as long as the pool, which
  is how the threads for the back office and for HTTP are wired. \<open>P\<close> is what every
  message satisfies.
\<close>

definition mbox_ok :: "('m \<Rightarrow> bool) \<Rightarrow> msg_pool \<Rightarrow> (nat \<Rightarrow> 'm) \<Rightarrow> nat msg_queue \<Rightarrow> nat multiset \<Rightarrow> bool" where
  "mbox_ok P p mem q held \<longleftrightarrow> mp_ok p \<and> mq_ok q \<and> mp_cap p \<le> mq_room q \<and>
     balanced (mp_avail p) (mp_ids p) [mq_content q] held \<and> (\<forall>i. P (mem i))"

definition mbox_view :: "(nat \<Rightarrow> 'm) \<Rightarrow> nat msg_queue \<Rightarrow> 'm list" where
  "mbox_view mem q = map mem (mq_content q)"

lemma mbox_init: "\<forall>i. P (mem i) \<Longrightarrow> mbox_ok P (mp_init n) mem (mq_init (n + 1) False) {#}"
proof -
  have "mp_cap (mp_init n) = n" "mq_ok (mq_init (n + 1) False)" by (simp_all add: mp_init_def mq_init_ok)
  moreover assume "\<forall>i. P (mem i)"
  ultimately show ?thesis using balanced_init [of n 1] mp_init_ok by (simp add: mbox_ok_def)
qed

lemma mbox_view_init [simp]: "mbox_view mem (mq_init (Suc n) m) = []"
  by (simp add: mbox_view_def)

lemma mbox_held:
  "mbox_ok P p mem q (add_mset m held) \<Longrightarrow> m \<notin> set (mq_content q)"
  using balanced_held(2) [of "mp_avail p" "mp_ids p" "[mq_content q]" m held] by (simp add: mbox_ok_def)

lemma mbox_store:
  assumes "mbox_ok P p mem q (add_mset m held)" "P x"
  shows "mbox_ok P p (mem(m := x)) q (add_mset m held)" "mbox_view (mem(m := x)) q = mbox_view mem q"
  using assms mbox_held [OF assms(1)] by (auto simp: mbox_ok_def mbox_view_def)

lemma mbox_alloc:
  assumes "mbox_ok P p mem q held" "mp_alloc p = (Some m, p')"
  shows "mbox_ok P p' mem q (add_mset m held)" "card (mp_avail p) = Suc (card (mp_avail p'))"
proof -
  have ok: "mp_ok p" "balanced (mp_avail p) (mp_ids p) [mq_content q] held" using assms(1) by (auto simp: mbox_ok_def)
  from mc.chan_alloc [OF this assms(2)] assms(1) show "mbox_ok P p' mem q (add_mset m held)"
    by (auto simp: mbox_ok_def mp_ids_eq)
  have na: "mp_avail p \<noteq> {}" using mp.alloc_none [OF ok(1)] assms(2) by fastforce
  have "finite (mp_avail p)" by (simp add: mp_avail_def)
  then show "card (mp_avail p) = Suc (card (mp_avail p'))"
    using mp.alloc_some [OF ok(1) na] assms(2) card.remove [of "mp_avail p" m] by fastforce
qed

lemma mbox_alloc_none:
  "mbox_ok P p mem q held \<Longrightarrow> mp_alloc p = (None, p') \<Longrightarrow> p' = p \<and> mp_avail p = {}"
  by (rule mc.chan_alloc_none) (auto simp: mbox_ok_def)

lemma mbox_alloc_some:
  "mbox_ok P p mem q held \<Longrightarrow> mp_avail p \<noteq> {} \<Longrightarrow> \<exists>m p'. mp_alloc p = (Some m, p')"
  using mp.alloc_some [of p] by (auto simp: mbox_ok_def)

lemma mbox_push:
  assumes "mbox_ok P p mem q (add_mset m held)"
  shows "\<exists>q'. mq_push (Some m) q = (True, q') \<and> mbox_ok P p mem q' held \<and> mbox_view mem q' = mbox_view mem q @ [mem m]"
proof -
  have ok: "mq_ok q" "balanced (mp_avail p) (mp_ids p) [mq_content q] (add_mset m held)" "card (mp_ids p) \<le> mq_room q"
    using assms by (auto simp: mbox_ok_def)
  have k: "0 < length [mq_content q]" "[mq_content q] ! 0 = mq_content q" by simp_all
  from mc.chan_push [OF ok(1,2) k ok(3)] assms show ?thesis by (auto simp: mbox_ok_def mbox_view_def)
qed

lemma mbox_pop:
  assumes "mbox_ok P p mem q held" "mbox_view mem q = x # xs"
  shows "\<exists>m q'. mq_pop q = (Some m, q') \<and> mbox_ok P p mem q' (add_mset m held) \<and> mem m = x \<and> mbox_view mem q' = xs"
proof -
  obtain i "is" where c: "mq_content q = i # is" "mem i = x" "map mem is = xs"
    using assms(2) by (auto simp: mbox_view_def)
  have ok: "mq_ok q" "balanced (mp_avail p) (mp_ids p) [mq_content q] held" using assms(1) by (auto simp: mbox_ok_def)
  have k: "0 < length [mq_content q]" "[mq_content q] ! 0 = mq_content q" by simp_all
  from mc.chan_pop [OF ok k c(1)] assms(1) c show ?thesis by (auto simp: mbox_ok_def mbox_view_def)
qed

lemma mbox_empty: "mbox_ok P p mem q held \<Longrightarrow> mbox_view mem q = [] \<Longrightarrow> mq_pop q = (None, q)"
  by (simp add: mbox_ok_def mbox_view_def mq.pop_empty)

lemma mbox_free:
  assumes "mbox_ok P p mem q (add_mset m held)"
  shows "\<exists>p'. mp_free m p = (True, p') \<and> mbox_ok P p' mem q held"
proof -
  have "mp_ok p" "balanced (mp_avail p) (mp_ids p) [mq_content q] (add_mset m held)"
    using assms by (auto simp: mbox_ok_def)
  from mc.chan_release [OF this] assms show ?thesis by (auto simp: mbox_ok_def mp_ids_eq)
qed

end
