(* ===== verification/Bufferevent.thy ===== *)
theory Bufferevent
  imports FdTable
begin

text \<open>
  The connections as the gate threads see them. A \<open>bufferevent\<close> is named by a number,
  the address that libevent returned; it has its descriptor, the bytes that have
  arrived and the bytes that were written. A freed one is gone from the map, and
  using it is a fault, \<open>None\<close>.
\<close>

record bev =
  bv_fd :: int
  bv_in :: bytes
  bv_out :: bytes

type_synonym bevs = "nat \<Rightarrow> bev option"

definition bufferevent_socket_new :: "nat \<Rightarrow> int \<Rightarrow> bevs \<Rightarrow> bevs" where
  "bufferevent_socket_new be fd bs = bs(be \<mapsto> \<lparr>bv_fd = fd, bv_in = [], bv_out = []\<rparr>)"

definition bufferevent_free :: "nat \<Rightarrow> bevs \<Rightarrow> bevs option" where
  "bufferevent_free be bs = (case bs be of None \<Rightarrow> None | Some b \<Rightarrow> Some (bs(be := None)))"

definition bufferevent_write :: "nat \<Rightarrow> bytes \<Rightarrow> bevs \<Rightarrow> bevs option" where
  "bufferevent_write be d bs =
     (case bs be of None \<Rightarrow> None | Some b \<Rightarrow> Some (bs(be \<mapsto> b\<lparr>bv_out := bv_out b @ d\<rparr>)))"

definition bufferevent_set_input :: "nat \<Rightarrow> bytes \<Rightarrow> bevs \<Rightarrow> bevs option" where
  "bufferevent_set_input be d bs =
     (case bs be of None \<Rightarrow> None | Some b \<Rightarrow> Some (bs(be \<mapsto> b\<lparr>bv_in := d\<rparr>)))"

text \<open>
  What \<open>bufferevent_socket_connect\<close> comes to. Without a socket it fails at once; if the connection is refused at once it
  runs the event callback with \<open>BEV_EVENT_ERROR\<close> before it fails; otherwise the connection is under way on a
  descriptor. That libevent cannot watch the socket it has is left out.
\<close>

datatype connect_result = No_socket | Refused | Connecting int

definition BEV_EVENT_ERROR :: int where "BEV_EVENT_ERROR = 0x20"

lemma BEV_EVENT_ERROR_bit [simp]: "\<not> bit BEV_EVENT_ERROR 7"
  by (simp add: BEV_EVENT_ERROR_def bit_iff_odd)

lemmas bev_defs = bufferevent_socket_new_def bufferevent_free_def bufferevent_write_def
  bufferevent_set_input_def

section \<open>The table of connections and the bufferevents\<close>

text \<open>Every connection of the table is a live bufferevent with that descriptor.\<close>

definition conn_ok :: "nat fd_table \<Rightarrow> bevs \<Rightarrow> bool" where
  "conn_ok t bs \<longleftrightarrow> ft_ok t \<and> (\<forall>fd be. ft_be t fd = Some be \<longrightarrow> (\<exists>b. bs be = Some b \<and> bv_fd b = fd))"

lemma conn_okD: "conn_ok t bs \<Longrightarrow> ft_be t fd = Some be \<Longrightarrow> \<exists>b. bs be = Some b \<and> bv_fd b = fd"
  by (auto simp: conn_ok_def)

lemma conn_okI:
  "ft_ok t \<Longrightarrow> (\<And>fd be. ft_be t fd = Some be \<Longrightarrow> \<exists>b. bs be = Some b \<and> bv_fd b = fd) \<Longrightarrow> conn_ok t bs"
  by (auto simp: conn_ok_def)

lemma conn_ok_same:
  "conn_ok t bs \<Longrightarrow> bs be = Some b \<Longrightarrow> bv_fd b' = bv_fd b \<Longrightarrow> conn_ok t (bs(be \<mapsto> b'))"
  unfolding conn_ok_def by (metis fun_upd_apply option.inject)

lemma conn_ok_add:
  assumes "conn_ok t bs" "bs be = None" "fd_add fd be t = (ok, t')"
  shows "conn_ok t' (bs(be \<mapsto> \<lparr>bv_fd = fd, bv_in = [], bv_out = []\<rparr>))"
proof (cases "fd_valid fd \<and> ft_be t fd = None")
  case True
  with ft.add_new [of t fd be] assms have "ft_ok t'" "ft_be t' = (ft_be t)(fd := Some be)"
    by (auto simp: conn_ok_def)
  then show ?thesis using assms(2)
    by (intro conn_okI) (auto split: if_splits dest!: conn_okD [OF assms(1)])
next
  case False
  with ft.add_refused [of t fd be] assms have "t' = t" by (auto simp: conn_ok_def)
  moreover have "ft_ok t" using assms(1) by (simp add: conn_ok_def)
  ultimately show ?thesis using assms(2)
    by (intro conn_okI) (auto split: if_splits dest!: conn_okD [OF assms(1)])
qed

lemma conn_ok_del:
  assumes "conn_ok t bs" "bs be = Some b"
  shows "conn_ok (snd (fd_del (bv_fd b) t)) (bs(be := None))"
    "ft_be (snd (fd_del (bv_fd b) t)) = (ft_be t)(bv_fd b := None)"
proof -
  have ok: "ft_ok t" using assms(1) by (simp add: conn_ok_def)
  show t: "ft_be (snd (fd_del (bv_fd b) t)) = (ft_be t)(bv_fd b := None)"
    using ft.del_present [OF ok, of "bv_fd b"] ft.del_absent [OF ok, of "bv_fd b"]
    by (cases "ft_be t (bv_fd b) = None") auto
  have "ft_ok (snd (fd_del (bv_fd b) t))"
    using ft.del_present [OF ok, of "bv_fd b"] ft.del_absent [OF ok, of "bv_fd b"] ok
    by (cases "ft_be t (bv_fd b) = None") auto
  then show "conn_ok (snd (fd_del (bv_fd b) t)) (bs(be := None))"
    using assms(2) by (intro conn_okI) (auto simp: t split: if_splits dest!: conn_okD [OF assms(1)])
qed

end
