(* ===== verification/ThreadIo.thy ===== *)
theory ThreadIo
  imports Channel Bufferevent FdTable PkLimit MsgStruct Websocket
begin

text \<open>
  The gate thread (\<open>common/thread_io.h\<close>): it accepts the clients, decodes their frames
  into messages for the logic thread, reports the connections that end and writes
  the messages of the logic thread to the clients. The state holds what the thread
  owns and the pools and queues of \<open>global\<close> and \<open>thread_logic\<close> that it uses; a
  pointer to a message is its index in the pool and \<open>g_recv_mem\<close>, \<open>g_send_mem\<close> are the
  messages there. \<open>assert\<close> is compiled out, as in the release build. A fault (a freed
  bufferevent, an access outside an array) is \<open>None\<close>.
\<close>

section \<open>The state\<close>

record gate =
  g_table :: "nat fd_table"
  g_wpe :: "int \<Rightarrow> int"
  g_websocket :: "int \<Rightarrow> int"
  g_bevs :: bevs
  g_ws :: websocket
  g_pk :: pk_limit
  g_step :: int
  g_disconnect_id :: int
  g_recv_pool :: msg_pool
  g_recv_mem :: "nat \<Rightarrow> msg_recv"
  g_q_recv :: "nat msg_queue"
  g_q_disconnect :: "nat msg_queue"
  g_send_pool :: msg_pool
  g_send_mem :: "nat \<Rightarrow> msg_send"
  g_q_send :: "nat msg_queue"
  g_cg_full :: "(int \<times> int \<times> int \<times> bytes) list"

section \<open>The callbacks\<close>

definition io_close_connect :: "nat \<Rightarrow> int \<Rightarrow> int \<Rightarrow> gate \<Rightarrow> gate option" where
  "io_close_connect be reason real_reason s = do {
     b \<leftarrow> g_bevs s be;
     bevs \<leftarrow> bufferevent_free be (g_bevs s);
     let s1 = s\<lparr>g_table := snd (fd_del (bv_fd b) (g_table s)), g_bevs := bevs\<rparr> in
     case mp_alloc (g_recv_pool s1) of
       (None, p) \<Rightarrow> Some (s1\<lparr>g_recv_pool := p\<rparr>)
     | (Some m, p) \<Rightarrow> do {
         m1 \<leftarrow> mr_write_int (s8 reason) ((g_recv_mem s1 m)\<lparr>mr_back := 0, mr_front := 0\<rparr>);
         m2 \<leftarrow> mr_write_int (s16 real_reason) m1;
         let (step, m3) = mr_set_step (g_step s1) (m2\<lparr>mr_fd := s16 (bv_fd b), mr_id := s16 (g_disconnect_id s1)\<rparr>) in
         Some (s1\<lparr>g_recv_pool := p, g_step := step, g_recv_mem := (g_recv_mem s1)(m := m3),
           g_q_disconnect := snd (mq_push (Some m) (g_q_disconnect s1))\<rparr>)
       }
   }"

text \<open>\<open>what\<close> is the set of event bits, of which \<open>BEV_EVENT_TIMEOUT\<close> is \<open>0x40\<close>.\<close>

definition io_cb_event :: "nat \<Rightarrow> int \<Rightarrow> gate \<Rightarrow> gate option" where
  "io_cb_event be what s = io_close_connect be (if bit what 6 then 2 else 1) what s"

text \<open>\<open>nb\<close> is what \<open>bufferevent_socket_new\<close> returns, \<open>None\<close> for a null pointer.\<close>

definition io_cb_listener :: "nat option \<Rightarrow> int \<Rightarrow> gate \<Rightarrow> gate" where
  "io_cb_listener nb fd s =
     (case nb of None \<Rightarrow> s
      | Some be \<Rightarrow>
          let s1 = s\<lparr>g_bevs := bufferevent_socket_new be fd (g_bevs s)\<rparr>;
              (ok, t) = fd_add fd be (g_table s1)
          in if \<not> ok then s1\<lparr>g_table := t\<rparr>
             else s1\<lparr>g_table := t, g_wpe := (g_wpe s1)(fd := 0), g_websocket := (g_websocket s1)(fd := 0)\<rparr>)"

text \<open>
  One turn of the loop of \<open>cb_read\<close>: whether the loop goes on, and the state. \<open>now\<close>
  is \<open>get_msec\<close>, read once per call.
\<close>

definition io_deliver :: "int \<Rightarrow> int \<Rightarrow> int \<Rightarrow> gate \<Rightarrow> (bool \<times> gate) option" where
  "io_deliver fd mid len s =
     (case mp_alloc (g_recv_pool s) of
        (None, p) \<Rightarrow> Some (False, s\<lparr>g_recv_pool := p,
          g_cg_full := g_cg_full s @ [(ft_len (g_table s), fd, mid, pk_get_name mid (g_pk s))]\<rparr>)
      | (Some m, p) \<Rightarrow>
          if 512 < size_t_of len \<or> len < 0
          then Some (False, s\<lparr>g_recv_pool := snd (mp_free m p)\<rparr>)
          else do {
            d \<leftarrow> load_block (ws_buf (g_ws s)) 4 (nat len);
            buf \<leftarrow> store_block (mr_buf (g_recv_mem s m)) 0 d;
            let (step, msg) = mr_set_step (g_step s)
              ((g_recv_mem s m)\<lparr>mr_buf := buf, mr_back := len, mr_front := 0, mr_fd := s16 fd, mr_id := mid\<rparr>) in
            Some (True, s\<lparr>g_recv_pool := p, g_step := step, g_recv_mem := (g_recv_mem s)(m := msg),
              g_q_recv := snd (mq_push (Some m) (g_q_recv s))\<rparr>)
          })"

definition io_packet :: "int \<Rightarrow> nat \<Rightarrow> int \<Rightarrow> gate \<Rightarrow> (bool \<times> gate) option" where
  "io_packet now be fd s = do {
     b \<leftarrow> g_bevs s be;
     (n, w, inp) \<leftarrow> handle_packet (g_ws s) (bv_in b);
     bevs \<leftarrow> bufferevent_set_input be inp (g_bevs s);
     let s1 = s\<lparr>g_ws := w, g_bevs := bevs\<rparr> in
     if n = 0 then Some (True, s1)
     else if n = -1 then map_option (Pair False) (io_close_connect be 1 0 s1)
     else if n = -2 then Some (False, s1)
     else do {
       l \<leftarrow> load_block (ws_buf w) 0 2;
       i \<leftarrow> load_block (ws_buf w) 2 2;
       let len = s16 (be_val l); mid = s16 (be_val i) in
       if \<not> (0 \<le> len \<and> len \<le> 512) then map_option (Pair False) (io_close_connect be 3 0 s1)
       else if n \<noteq> len + 4 then Some (False, s1)
       else if ft_be (g_table s1) fd = None then Some (False, s1)
       else
         let (e, pk) = check_pk_limit now fd mid (g_pk s1); s2 = s1\<lparr>g_pk := pk\<rparr> in
         if e \<noteq> Err_ok then Some (True, s2) else io_deliver fd mid len s2
     }
   }"

text \<open>The loop; it is undefined where it does not end or faults.\<close>

partial_function (option) io_packets :: "int \<Rightarrow> nat \<Rightarrow> int \<Rightarrow> gate \<Rightarrow> gate option" where
  "io_packets now be fd s = do {
     b \<leftarrow> g_bevs s be;
     if 6 \<le> length (bv_in b) then do {
       (go, s1) \<leftarrow> io_packet now be fd s;
       if go then io_packets now be fd s1 else Some s1
     } else Some s
   }"

definition io_cb_read :: "sha1 \<Rightarrow> int \<Rightarrow> nat \<Rightarrow> gate \<Rightarrow> gate option" where
  "io_cb_read sha0 now be s = do {
     b \<leftarrow> g_bevs s be;
     let fd = bv_fd b in
     if \<not> (0 \<le> fd \<and> fd < 32768) then io_close_connect be 4 0 s
     else if g_websocket s fd = 0 then do {
       (ok, w, inp, out) \<leftarrow> hand_shake sha0 (g_ws s) (bv_in b);
       bs1 \<leftarrow> bufferevent_set_input be inp (g_bevs s);
       bs2 \<leftarrow> bufferevent_write be out bs1;
       Some (s\<lparr>g_ws := w, g_bevs := bs2,
         g_websocket := (if ok then (g_websocket s)(fd := 1) else g_websocket s)\<rparr>)
     }
     else io_packets now be fd s
   }"

definition io_send_msg :: "int \<Rightarrow> int \<Rightarrow> bytes \<Rightarrow> int \<Rightarrow> gate \<Rightarrow> gate option" where
  "io_send_msg fd mid p len s =
     (if \<not> (0 \<le> fd \<and> fd < fd_max) then Some s
      else case ft_be (g_table s) fd of
        None \<Rightarrow> Some s
      | Some be \<Rightarrow> do {
          out \<leftarrow> ws_send_msg mid p len;
          bevs \<leftarrow> bufferevent_write be out (g_bevs s);
          Some (s\<lparr>g_bevs := bevs\<rparr>)
        })"

fun io_send_each :: "int list \<Rightarrow> msg_send \<Rightarrow> gate \<Rightarrow> gate option" where
  "io_send_each [] m s = Some s"
| "io_send_each (fd # fds) m s = do {
     s1 \<leftarrow> io_send_msg fd (ms_id m) (ms_buf m) (ms_buf_len m) s;
     io_send_each fds m s1
   }"

partial_function (option) io_cb_time :: "gate \<Rightarrow> gate option" where
  "io_cb_time s =
     (case mq_pop (g_q_send s) of
        (None, q) \<Rightarrow> Some (s\<lparr>g_q_send := q\<rparr>)
      | (Some i, q) \<Rightarrow>
          let s1 = s\<lparr>g_q_send := q\<rparr>; m = g_send_mem s i;
              release = (\<lambda>t. t\<lparr>g_send_pool := snd (mp_free i (g_send_pool t))\<rparr>)
          in if ms_fds_len m = 0 then Some (release s1)
             else do {
               fds \<leftarrow> (if ms_fds_len m < 0
                       then iload_block (ft_fds (g_table s1)) 0 (ft_len (g_table s1))
                       else iload_block (ms_fds m) 0 (ms_fds_len m));
               s2 \<leftarrow> io_send_each fds m s1;
               io_cb_time (release s2)
             })"

section \<open>The messages on their way to the logic thread\<close>

text \<open>
  What a message says: the step at which it was queued, the connection, the id and
  the bytes to read. The two queues to the logic thread share one pool; within a
  queue the steps increase, and no two messages have the same one.
\<close>

type_synonym recv_view = "int \<times> int \<times> int \<times> bytes"

definition mr_view :: "msg_recv \<Rightarrow> recv_view" where
  "mr_view m = (mr_step m, mr_fd m, mr_id m, mr_rest m)"

definition queue_view :: "(nat \<Rightarrow> msg_recv) \<Rightarrow> nat msg_queue \<Rightarrow> recv_view list" where
  "queue_view mem q = map (\<lambda>i. mr_view (mem i)) (mq_content q)"

definition steps_ok :: "int \<Rightarrow> recv_view list \<Rightarrow> recv_view list \<Rightarrow> bool" where
  "steps_ok st xs ys \<longleftrightarrow> sorted (map fst xs) \<and> sorted (map fst ys) \<and>
     distinct (map fst xs @ map fst ys) \<and> (\<forall>v \<in> set xs \<union> set ys. fst v \<le> st)"

definition inbox_ok ::
  "msg_pool \<Rightarrow> (nat \<Rightarrow> msg_recv) \<Rightarrow> int \<Rightarrow> nat msg_queue \<Rightarrow> nat msg_queue \<Rightarrow> nat multiset \<Rightarrow> bool" where
  "inbox_ok p mem st q1 q2 held \<longleftrightarrow>
     mp_ok p \<and> mq_ok q1 \<and> mq_ok q2 \<and> mp_cap p \<le> mq_room q1 \<and> mp_cap p \<le> mq_room q2 \<and>
     balanced (mp_avail p) (mp_ids p) [mq_content q1, mq_content q2] held \<and>
     steps_ok st (queue_view mem q1) (queue_view mem q2) \<and> (\<forall>i. length (mr_buf (mem i)) = 512)"

lemma steps_ok_swap: "steps_ok st xs ys \<Longrightarrow> steps_ok st ys xs"
  by (auto simp: steps_ok_def)

lemma steps_ok_append: "steps_ok st xs ys \<Longrightarrow> fst v = st + 1 \<Longrightarrow> steps_ok (st + 1) (xs @ [v]) ys"
proof -
  assume a: "steps_ok st xs ys" "fst v = st + 1"
  then have le: "\<forall>u \<in> set xs \<union> set ys. fst u < st + 1" by (auto simp: steps_ok_def)
  have "fst v \<notin> fst ` (set xs \<union> set ys)"
  proof
    assume "fst v \<in> fst ` (set xs \<union> set ys)"
    then obtain u where "u \<in> set xs \<union> set ys" "fst v = fst u" by (rule imageE)
    then have "fst u < st + 1" "fst u = st + 1" using le a(2) by (blast, simp)
    then show False by simp
  qed
  with a le show ?thesis by (auto simp: steps_ok_def sorted_append less_imp_le)
qed

lemma inbox_swap: "inbox_ok p mem st q1 q2 held \<Longrightarrow> inbox_ok p mem st q2 q1 held"
  by (auto simp: inbox_ok_def balanced_def ac_simps intro: steps_ok_swap)

lemma inbox_alloc_none:
  "inbox_ok p mem st q1 q2 held \<Longrightarrow> mp_alloc p = (None, p') \<Longrightarrow> p' = p \<and> mp_avail p = {}"
  by (rule mc.chan_alloc_none) (auto simp: inbox_ok_def)

lemma inbox_enqueue:
  assumes "inbox_ok p mem st q1 q2 held" "mp_alloc p = (Some m, p')"
    "length (mr_buf msg) = 512" "mr_step msg = st + 1"
  shows "inbox_ok p' (mem(m := msg)) (st + 1) (snd (mq_push (Some m) q1)) q2 held"
    "queue_view (mem(m := msg)) (snd (mq_push (Some m) q1)) = queue_view mem q1 @ [mr_view msg]"
    "queue_view (mem(m := msg)) q2 = queue_view mem q2"
    "mp_cap p' = mp_cap p"
proof -
  have ok: "mp_ok p" "mq_ok q1" "mq_ok q2" "mp_cap p \<le> mq_room q1" "mp_cap p \<le> mq_room q2"
    "steps_ok st (queue_view mem q1) (queue_view mem q2)" "\<forall>i. length (mr_buf (mem i)) = 512"
    and b: "balanced (mp_avail p) (mp_ids p) [mq_content q1, mq_content q2] held"
    using assms(1) by (auto simp: inbox_ok_def)
  note a = mc.chan_alloc [OF ok(1) b assms(2)]
  have c: "mp_cap p' = mp_cap p" using a(2) by (simp add: mp_ids_eq)
  have k: "0 < length [mq_content q1, mq_content q2]" by simp
  have r: "card (mp_ids p') \<le> mq_room q1" using ok(4) c by simp
  have "[mq_content q1, mq_content q2] ! 0 = mq_content q1" by simp
  from mc.chan_push [OF ok(2) a(3) k this r] obtain q' where
    q': "mq_push (Some m) q1 = (True, q')" "mq_ok q'" "mq_room q' = mq_room q1"
    "mq_content q' = mq_content q1 @ [m]"
    "balanced (mp_avail p') (mp_ids p') [mq_content q', mq_content q2] held" by auto
  have m: "m \<notin> set (mq_content q1)" "m \<notin> set (mq_content q2)"
    using balanced_held(2) [OF a(3)] by auto
  show v1: "queue_view (mem(m := msg)) (snd (mq_push (Some m) q1)) = queue_view mem q1 @ [mr_view msg]"
    using m(1) q'(1,4) by (auto simp: queue_view_def)
  show v2: "queue_view (mem(m := msg)) q2 = queue_view mem q2"
    using m(2) by (auto simp: queue_view_def)
  show "mp_cap p' = mp_cap p" by (rule c)
  have "fst (mr_view msg) = st + 1" using assms(4) by (simp add: mr_view_def)
  from steps_ok_append [OF ok(6) this]
  show "inbox_ok p' (mem(m := msg)) (st + 1) (snd (mq_push (Some m) q1)) q2 held"
    using a(1) c q' ok assms(3) v1 v2 by (simp add: inbox_ok_def)
qed

section \<open>The websocket object and the input\<close>

lemma store_block_length: "store_block xs i ys = Some zs \<Longrightarrow> length zs = length xs"
  by (auto simp: mem_defs split: if_splits)

lemma load_block_length: "load_block xs i n = Some ys \<Longrightarrow> length ys = n"
  by (auto simp: mem_defs split: if_splits)

lemma fetch_info_bounds:
  assumes "length buf = 2048" "fetch_websocket_info buf wr_reset = Some (k, r)"
  shows "2 \<le> k" "0 \<le> wr_payload_length r"
  using assms ws_ext_le [of buf]
  by (auto simp: fetch_info_eq ws_head_def ws_ext_def Let_def split: if_splits)

lemma handle_packet_keeps:
  assumes "ws_ok w" "handle_packet w inp = Some (n, w', inp')"
  shows "ws_ok w'" "n \<noteq> -1 \<Longrightarrow> n \<noteq> -2 \<Longrightarrow> inp \<noteq> [] \<Longrightarrow> length inp' < length inp"
proof -
  define len where "len = (if 2048 < length inp then 2048 else length inp)"
  have lb: "length (ws_buf w) = 2048" using assms(1) by (simp add: ws_ok_def)
  from assms(2) obtain buf k r where h:
    "store_block (ws_buf w) 0 (take len inp) = Some buf" "fetch_websocket_info buf wr_reset = Some (k, r)"
    by (auto simp: handle_packet_def Let_def len_def split: bind_splits)
  have b: "length buf = 2048" using store_block_length [OF h(1)] lb by simp
  note f = fetch_info_bounds [OF b h(2)]
  have "ws_ok w' \<and> (n \<noteq> -1 \<longrightarrow> n \<noteq> -2 \<longrightarrow> inp \<noteq> [] \<longrightarrow> length inp' < length inp)"
    using assms h b f store_block_length [of buf 0]
    unfolding handle_packet_def Let_def len_def [symmetric]
    by (auto simp: ws_ok_def split: if_splits bind_splits)
  then show "ws_ok w'" "n \<noteq> -1 \<Longrightarrow> n \<noteq> -2 \<Longrightarrow> inp \<noteq> [] \<Longrightarrow> length inp' < length inp" by auto
qed

lemma ws_get_key_keeps: "ws_get_key buf w = Some (ok, w') \<Longrightarrow>
    ws_buf w' = ws_buf w \<and> length (ws_key w') = length (ws_key w)"
  by (auto simp: ws_get_key_def Let_def split: bind_splits option.splits dest!: store_block_length)

lemma hand_shake_keeps:
  assumes "ws_ok w" "hand_shake sha0 w inp = Some (ok, w', inp', out)"
  shows "ws_ok w'"
proof (cases "2048 < length inp")
  case True
  then show ?thesis using assms by (simp add: hand_shake_def)
next
  case False
  from assms(2) False obtain buf where buf: "store_block (ws_buf w) 0 inp = Some buf"
    by (auto simp: hand_shake_def Let_def split: bind_splits)
  have ok: "ws_ok (w\<lparr>ws_buf := buf\<rparr>)"
    using assms(1) store_block_length [OF buf] by (simp add: ws_ok_def)
  then have "ws_ok w2" if "ws_get_key buf (w\<lparr>ws_buf := buf\<rparr>) = Some (b, w2)" for b w2
    using ws_get_key_keeps [OF that] by (simp add: ws_ok_def)
  with assms(2) False buf ok show ?thesis
    by (auto simp: hand_shake_def Let_def split: bind_splits if_splits)
qed

section \<open>The invariant of the gate\<close>

text \<open>
  Every connection of the table is a live bufferevent with that descriptor; the
  messages to the logic thread and those to the clients are accounted for.
  \<open>held\<close> and \<open>held'\<close> are the messages in the hands of the logic thread.
\<close>

definition send_ok :: "msg_send \<Rightarrow> bool" where
  "send_ok m \<longleftrightarrow> length (ms_buf m) = 16384 \<and> 0 \<le> ms_buf_len m \<and> ms_buf_len m \<le> 16384 \<and>
     length (ms_fds m) = 2048 \<and> ms_fds_len m \<le> 2048"

definition outbox_ok :: "msg_pool \<Rightarrow> (nat \<Rightarrow> msg_send) \<Rightarrow> nat msg_queue \<Rightarrow> nat multiset \<Rightarrow> bool" where
  "outbox_ok p mem q held \<longleftrightarrow> mp_ok p \<and> mq_ok q \<and>
     balanced (mp_avail p) (mp_ids p) [mq_content q] held \<and> (\<forall>i. send_ok (mem i))"

definition gate_ok :: "nat multiset \<Rightarrow> nat multiset \<Rightarrow> gate \<Rightarrow> bool" where
  "gate_ok held held' s \<longleftrightarrow> conn_ok (g_table s) (g_bevs s) \<and> ws_ok (g_ws s) \<and>
     inbox_ok (g_recv_pool s) (g_recv_mem s) (g_step s) (g_q_recv s) (g_q_disconnect s) held \<and>
     outbox_ok (g_send_pool s) (g_send_mem s) (g_q_send s) held'"

section \<open>Every callback keeps the invariant\<close>

lemma mr_write_int_front:
  assumes "length (mr_buf m) = 512" "mr_back m = k" "0 \<le> k" "k \<le> 508"
  shows "mr_write_int n m = Some (m\<lparr>mr_buf := blit (mr_buf m) (nat k) (be_bytes 4 n), mr_back := k + 4\<rparr>)"
proof -
  have "nat k + 4 \<le> 512" using assms by auto
  then show ?thesis using assms by (simp add: mr_write_int_def mem_defs)
qed

text \<open>The message that reports the end of a connection.\<close>

definition disconnect_view :: "int \<Rightarrow> int \<Rightarrow> int \<Rightarrow> gate \<Rightarrow> recv_view" where
  "disconnect_view fd reason real_reason s =
     (g_step s + 1, s16 fd, s16 (g_disconnect_id s), be_bytes 4 (s8 reason) @ be_bytes 4 (s16 real_reason))"

lemma blit_twice:
  assumes "length ys = n" "n + length zs \<le> length xs"
  shows "blit (blit xs 0 ys) n zs = blit xs 0 (ys @ zs)"
  using assms by (simp add: blit_def add.commute)

lemma io_close_connect_spec:
  assumes "gate_ok held held' s" "g_bevs s be = Some b"
  shows "\<exists>s'. io_close_connect be reason real_reason s = Some s' \<and> gate_ok held held' s' \<and>
    ft_be (g_table s') = (ft_be (g_table s))(bv_fd b := None) \<and> g_bevs s' = (g_bevs s)(be := None) \<and>
    queue_view (g_recv_mem s') (g_q_recv s') = queue_view (g_recv_mem s) (g_q_recv s) \<and>
    queue_view (g_recv_mem s') (g_q_disconnect s') = queue_view (g_recv_mem s) (g_q_disconnect s) @
      (if mp_avail (g_recv_pool s) = {} then [] else [disconnect_view (bv_fd b) reason real_reason s])"
proof -
  have ok: "conn_ok (g_table s) (g_bevs s)" "ws_ok (g_ws s)"
    "inbox_ok (g_recv_pool s) (g_recv_mem s) (g_step s) (g_q_recv s) (g_q_disconnect s) held"
    "outbox_ok (g_send_pool s) (g_send_mem s) (g_q_send s) held'"
    using assms(1) by (auto simp: gate_ok_def)
  note c = conn_ok_del [OF ok(1) assms(2)]
  show ?thesis
  proof (cases "mp_alloc (g_recv_pool s)")
    case (Pair r p)
    show ?thesis
    proof (cases r)
      case None
      with Pair inbox_alloc_none [OF ok(3)] have "p = g_recv_pool s" "mp_avail (g_recv_pool s) = {}" by auto
      then show ?thesis using c ok Pair None assms(2)
        by (simp add: io_close_connect_def bufferevent_free_def gate_ok_def)
    next
      case (Some m)
      define msg where "msg = (g_recv_mem s m)\<lparr>mr_front := 0, mr_buf := blit (mr_buf (g_recv_mem s m)) 0
          (be_bytes 4 (s8 reason) @ be_bytes 4 (s16 real_reason)), mr_back := 8,
          mr_fd := s16 (bv_fd b), mr_id := s16 (g_disconnect_id s), mr_step := g_step s + 1\<rparr>"
      have l: "length (mr_buf (g_recv_mem s m)) = 512" using ok(3) by (simp add: inbox_ok_def)
      have al: "mp_alloc (g_recv_pool s) = (Some m, p)" using Pair Some by simp
      then have na: "mp_avail (g_recv_pool s) \<noteq> {}" using ok(3) mp.alloc_none by (fastforce simp: inbox_ok_def)
      note e = inbox_enqueue [OF inbox_swap [OF ok(3)] al, of msg]
      have m1: "length (mr_buf msg) = 512" "mr_step msg = g_step s + 1"
        using l by (auto simp: msg_def)
      have "block_at 0 8 (mr_buf msg) = be_bytes 4 (s8 reason) @ be_bytes 4 (s16 real_reason)"
        using block_at_blit [of 0 "mr_buf (g_recv_mem s m)" "be_bytes 4 (s8 reason) @ be_bytes 4 (s16 real_reason)"]
        by (simp add: msg_def)
      then have v: "mr_view msg = disconnect_view (bv_fd b) reason real_reason s"
        by (simp add: mr_view_def disconnect_view_def mr_rest_def) (simp add: msg_def)
      have call: "io_close_connect be reason real_reason s =
        Some (s\<lparr>g_table := snd (fd_del (bv_fd b) (g_table s)), g_bevs := (g_bevs s)(be := None),
           g_recv_pool := p, g_step := g_step s + 1, g_recv_mem := (g_recv_mem s)(m := msg),
           g_q_disconnect := snd (mq_push (Some m) (g_q_disconnect s))\<rparr>)"
        using l al assms(2)
        by (simp add: io_close_connect_def bufferevent_free_def mr_write_int_front mr_set_step_def blit_twice msg_def)
      show ?thesis
        using call c ok e(1) [OF m1] e(2) [OF m1] e(3) [OF m1] na v
        by (simp add: gate_ok_def inbox_swap)
    qed
  qed
qed

lemma io_deliver_spec:
  assumes "gate_ok held held' s" "0 \<le> len" "len \<le> 512"
  shows "\<exists>s'. io_deliver fd mid len s = Some (mp_avail (g_recv_pool s) \<noteq> {}, s') \<and> gate_ok held held' s' \<and>
    g_table s' = g_table s \<and> g_bevs s' = g_bevs s \<and> g_ws s' = g_ws s \<and> g_pk s' = g_pk s \<and>
    g_websocket s' = g_websocket s \<and>
    mp_cap (g_recv_pool s') = mp_cap (g_recv_pool s) \<and>
    queue_view (g_recv_mem s') (g_q_disconnect s') = queue_view (g_recv_mem s) (g_q_disconnect s) \<and>
    (if mp_avail (g_recv_pool s) = {}
     then g_step s' = g_step s \<and> g_recv_pool s' = g_recv_pool s \<and>
       queue_view (g_recv_mem s') (g_q_recv s') = queue_view (g_recv_mem s) (g_q_recv s)
     else g_step s' = g_step s + 1 \<and>
       card (mp_avail (g_recv_pool s)) = Suc (card (mp_avail (g_recv_pool s'))) \<and>
       queue_view (g_recv_mem s') (g_q_recv s') = queue_view (g_recv_mem s) (g_q_recv s) @
         [(g_step s + 1, s16 fd, mid, block_at 4 (nat len) (ws_buf (g_ws s)))])"
proof -
  have ok: "conn_ok (g_table s) (g_bevs s)" "ws_ok (g_ws s)"
    "inbox_ok (g_recv_pool s) (g_recv_mem s) (g_step s) (g_q_recv s) (g_q_disconnect s) held"
    "outbox_ok (g_send_pool s) (g_send_mem s) (g_q_send s) held'"
    using assms(1) by (auto simp: gate_ok_def)
  have p_ok: "mp_ok (g_recv_pool s)" using ok(3) by (simp add: inbox_ok_def)
  show ?thesis
  proof (cases "mp_alloc (g_recv_pool s)")
    case (Pair r p)
    show ?thesis
    proof (cases r)
      case None
      with Pair inbox_alloc_none [OF ok(3)] have "p = g_recv_pool s" "mp_avail (g_recv_pool s) = {}" by auto
      then show ?thesis using ok Pair None by (simp add: io_deliver_def gate_ok_def)
    next
      case (Some m)
      then have al: "mp_alloc (g_recv_pool s) = (Some m, p)" using Pair by simp
      then have na: "mp_avail (g_recv_pool s) \<noteq> {}" using p_ok mp.alloc_none by fastforce
      have av: "mp_avail p = mp_avail (g_recv_pool s) - {m}" "m \<in> mp_avail (g_recv_pool s)"
        using mp.alloc_some [OF p_ok na] al by auto
      have "finite (mp_avail (g_recv_pool s))" by (simp add: mp_avail_def)
      then have cd: "card (mp_avail (g_recv_pool s)) = Suc (card (mp_avail p))"
        using av by (metis card.remove)
      define d where "d = block_at 4 (nat len) (ws_buf (g_ws s))"
      have n: "4 + nat len \<le> length (ws_buf (g_ws s))" using ok(2) assms(3) by (simp add: ws_ok_def)
      then have d: "load_block (ws_buf (g_ws s)) 4 (nat len) = Some d" "length d = nat len"
        by (auto simp: mem_defs d_def)
      define msg where "msg = (g_recv_mem s m)\<lparr>mr_buf := blit (mr_buf (g_recv_mem s m)) 0 d,
          mr_back := len, mr_front := 0, mr_fd := s16 fd, mr_id := mid, mr_step := g_step s + 1\<rparr>"
      have l: "length (mr_buf (g_recv_mem s m)) = 512" using ok(3) by (simp add: inbox_ok_def)
      have l2: "nat len \<le> 512" using assms(3) by simp
      have m1: "length (mr_buf msg) = 512" "mr_step msg = g_step s + 1"
        using l l2 d(2) by (auto simp: msg_def)
      have "block_at 0 (nat len) (mr_buf msg) = d"
        using block_at_blit [of 0 "mr_buf (g_recv_mem s m)" d] d(2) by (simp add: msg_def)
      then have v: "mr_view msg = (g_step s + 1, s16 fd, mid, d)"
        by (simp add: mr_view_def mr_rest_def) (simp add: msg_def)
      note e = inbox_enqueue [OF ok(3) al, of msg]
      have call: "io_deliver fd mid len s = Some (True, s\<lparr>g_recv_pool := p, g_step := g_step s + 1,
          g_recv_mem := (g_recv_mem s)(m := msg), g_q_recv := snd (mq_push (Some m) (g_q_recv s))\<rparr>)"
        using l l2 al d assms(2,3)
        by (simp add: io_deliver_def mr_set_step_def msg_def store_block_def)
      show ?thesis
        using call ok e(1) [OF m1] e(2) [OF m1] e(3) [OF m1] e(4) [OF m1] na v cd
        by (simp add: gate_ok_def d_def)
    qed
  qed
qed

lemma gate_ok_input:
  assumes "gate_ok held held' s" "g_bevs s be = Some b" "ws_ok w" "bv_fd b' = bv_fd b"
  shows "gate_ok held held' (s\<lparr>g_ws := w, g_bevs := (g_bevs s)(be \<mapsto> b')\<rparr>)"
  using assms conn_ok_same [of "g_table s" "g_bevs s" be b b'] by (simp add: gate_ok_def)

lemma io_packet_keeps:
  assumes "gate_ok held held' s" "io_packet now be fd s = Some (go, s')"
  shows "gate_ok held held' s'"
proof -
  from assms(2) obtain b n w inp where h:
    "g_bevs s be = Some b" "handle_packet (g_ws s) (bv_in b) = Some (n, w, inp)"
    by (auto simp: io_packet_def split: bind_splits)
  define s1 where "s1 = s\<lparr>g_ws := w, g_bevs := (g_bevs s)(be \<mapsto> b\<lparr>bv_in := inp\<rparr>)\<rparr>"
  have w: "ws_ok w" using handle_packet_keeps(1) [OF _ h(2)] assms(1) by (simp add: gate_ok_def)
  have ok1: "gate_ok held held' s1"
    unfolding s1_def using gate_ok_input [OF assms(1) h(1) w, of "b\<lparr>bv_in := inp\<rparr>"] by simp
  have b1: "g_bevs s1 be = Some (b\<lparr>bv_in := inp\<rparr>)" by (simp add: s1_def)
  have cl: "gate_ok held held' s'" if "io_close_connect be r rr s1 = Some s'" for r rr
    using io_close_connect_spec [OF ok1 b1, of r rr] that by auto
  have ok2: "gate_ok held held' (s1\<lparr>g_pk := pk\<rparr>)" for pk using ok1 by (simp add: gate_ok_def)
  have dl: "gate_ok held held' s'"
    if "io_deliver fd mid len (s1\<lparr>g_pk := pk\<rparr>) = Some (go, s')" "0 \<le> len" "len \<le> 512" for mid len pk
    using io_deliver_spec [OF ok2 [of pk] that(2,3), of fd mid] that(1) by auto
  from assms(2) show ?thesis
    unfolding io_packet_def using h ok1 ok2 cl dl
    by (auto simp: bufferevent_set_input_def Let_def s1_def [symmetric]
        split: if_splits bind_splits prod.splits)
qed

lemma io_packets_keeps:
  assumes "io_packets now be fd s = Some s'" "gate_ok held held' s"
  shows "gate_ok held held' s'"
proof -
  have "gate_ok held held' s \<longrightarrow> gate_ok held held' s'"
  proof (rule io_packets.raw_induct [where P = "\<lambda>_ _ _ s s'. gate_ok held held' s \<longrightarrow> gate_ok held held' s'", OF _ assms(1)])
    fix f now be fd s s'
    assume "\<And>now be fd s y. f now be fd s = Some y \<Longrightarrow> gate_ok held held' s \<longrightarrow> gate_ok held held' y"
      "Option.bind (g_bevs s be) (\<lambda>b. if 6 \<le> length (bv_in b)
        then Option.bind (io_packet now be fd s) (\<lambda>(go, s1). if go then f now be fd s1 else Some s1) else Some s) = Some s'"
    then show "gate_ok held held' s \<longrightarrow> gate_ok held held' s'"
      using io_packet_keeps [of held held' s now be fd]
      by (auto split: bind_splits if_splits)
  qed
  with assms(2) show ?thesis by blast
qed

lemma io_cb_read_keeps:
  assumes "gate_ok held held' s" "io_cb_read sha0 now be s = Some s'"
  shows "gate_ok held held' s'"
proof -
  from assms(2) obtain b where b: "g_bevs s be = Some b" by (auto simp: io_cb_read_def split: bind_splits)
  have cl: "io_close_connect be 4 0 s = Some s' \<Longrightarrow> gate_ok held held' s'"
    using io_close_connect_spec [OF assms(1) b, of 4 0] by auto
  have pk: "io_packets now be (bv_fd b) s = Some s' \<Longrightarrow> gate_ok held held' s'"
    using io_packets_keeps assms(1) by blast
  have hs: "gate_ok held held' (s\<lparr>g_ws := w, g_bevs := (g_bevs s)(be \<mapsto> b\<lparr>bv_in := inp, bv_out := out\<rparr>),
      g_websocket := f\<rparr>)" if "hand_shake sha0 (g_ws s) (bv_in b) = Some (ok, w, inp, o2)" for ok w inp out o2 f
  proof -
    have "ws_ok w" using hand_shake_keeps [OF _ that] assms(1) by (simp add: gate_ok_def)
    from gate_ok_input [OF assms(1) b this, of "b\<lparr>bv_in := inp, bv_out := out\<rparr>"] show ?thesis
      by (simp add: gate_ok_def)
  qed
  from assms(2) show ?thesis
    unfolding io_cb_read_def using b cl pk hs
    by (auto simp: bufferevent_set_input_def bufferevent_write_def Let_def split: if_splits bind_splits)
qed

lemma io_cb_event_keeps:
  "gate_ok held held' s \<Longrightarrow> io_cb_event be what s = Some s' \<Longrightarrow> gate_ok held held' s'"
proof -
  assume a: "gate_ok held held' s" "io_cb_event be what s = Some s'"
  then obtain b where b: "g_bevs s be = Some b"
    by (auto simp: io_cb_event_def io_close_connect_def split: bind_splits)
  show ?thesis
    using io_close_connect_spec [OF a(1) b, of "if bit what 6 then 2 else 1" what] a(2)
    by (auto simp: io_cb_event_def)
qed

lemma io_cb_listener_keeps:
  assumes "gate_ok held held' s" "\<And>be. nb = Some be \<Longrightarrow> g_bevs s be = None"
  shows "gate_ok held held' (io_cb_listener nb fd s)"
proof (cases nb)
  case (Some be)
  then show ?thesis
    using assms conn_ok_add [of "g_table s" "g_bevs s" be fd]
    by (cases "fd_add fd be (g_table s)")
      (auto simp: io_cb_listener_def bufferevent_socket_new_def gate_ok_def Let_def)
qed (use assms in \<open>simp add: io_cb_listener_def\<close>)

section \<open>Writing to the clients\<close>

text \<open>
  The frame of a message, the descriptors that it goes to, and what the connections
  hold after it: each connection in the table has the frame once for every time its
  descriptor is listed.
\<close>

definition send_payload :: "msg_send \<Rightarrow> bytes" where
  "send_payload m = be_bytes 2 (ms_buf_len m) @ be_bytes 2 (ms_id m) @ take (nat (ms_buf_len m)) (ms_buf m)"

definition send_targets :: "nat fd_table \<Rightarrow> msg_send \<Rightarrow> int list" where
  "send_targets t m = (if ms_fds_len m < 0 then ft_members t else take (nat (ms_fds_len m)) (ms_fds m))"

definition send_to :: "nat fd_table \<Rightarrow> int list \<Rightarrow> bytes \<Rightarrow> bevs \<Rightarrow> bevs" where
  "send_to t fds d bs = (\<lambda>be. map_option (\<lambda>b. if ft_be t (bv_fd b) = Some be
     then b\<lparr>bv_out := bv_out b @ concat (replicate (count_list fds (bv_fd b)) d)\<rparr> else b) (bs be))"

lemma send_to_Nil [simp]: "send_to t [] d bs = bs"
  by (auto simp: send_to_def option.map_id0 map_option_case split: option.splits)

lemma send_to_Cons: "send_to t fds d (send_to t [fd] d bs) = send_to t (fd # fds) d bs"
  by (auto simp: send_to_def fun_eq_iff map_option_case split: option.splits)

lemma send_frame:
  "send_ok m \<Longrightarrow> ws_send_msg (ms_id m) (ms_buf m) (ms_buf_len m) = Some (server_frame (send_payload m))"
  using ws_send_msg_frame [of "ms_buf_len m" "ms_buf m" "ms_id m"]
  by (simp add: send_ok_def send_payload_def)

lemma io_send_msg_spec:
  assumes "conn_ok (g_table s) (g_bevs s)" "send_ok m"
  shows "io_send_msg fd (ms_id m) (ms_buf m) (ms_buf_len m) s =
    Some (s\<lparr>g_bevs := send_to (g_table s) [fd] (server_frame (send_payload m)) (g_bevs s)\<rparr>)"
proof (cases "ft_be (g_table s) fd")
  case None
  then have "send_to (g_table s) [fd] d (g_bevs s) = g_bevs s" for d
    by (auto simp: send_to_def fun_eq_iff map_option_case split: option.splits)
  then show ?thesis using None by (simp add: io_send_msg_def)
next
  case (Some be)
  then have v: "0 \<le> fd \<and> fd < fd_max"
    using ft.members_valid [of "g_table s" fd] assms(1) by (simp add: conn_ok_def fd_valid_def)
  from conn_okD [OF assms(1) Some] obtain b where b: "g_bevs s be = Some b" "bv_fd b = fd" by auto
  have "send_to (g_table s) [fd] d (g_bevs s) = (g_bevs s)(be \<mapsto> b\<lparr>bv_out := bv_out b @ d\<rparr>)" for d
    using b Some by (auto simp: send_to_def fun_eq_iff map_option_case split: option.splits)
  then show ?thesis using Some v b send_frame [OF assms(2)]
    by (simp add: io_send_msg_def bufferevent_write_def)
qed

lemma conn_ok_send_to: "conn_ok t bs \<Longrightarrow> conn_ok t (send_to t fds d bs)"
proof (rule conn_okI)
  fix fd be
  assume c: "conn_ok t bs" and f: "ft_be t fd = Some be"
  from conn_okD [OF c f] obtain b where "bs be = Some b" "bv_fd b = fd" by auto
  then show "\<exists>b. send_to t fds d bs be = Some b \<and> bv_fd b = fd" by (simp add: send_to_def)
qed (simp add: conn_ok_def)

lemma io_send_each_spec:
  assumes "conn_ok (g_table s) (g_bevs s)" "send_ok m"
  shows "io_send_each fds m s =
    Some (s\<lparr>g_bevs := send_to (g_table s) fds (server_frame (send_payload m)) (g_bevs s)\<rparr>)"
  using assms(1)
proof (induction fds arbitrary: s)
  case (Cons fd fds)
  let ?s = "s\<lparr>g_bevs := send_to (g_table s) [fd] (server_frame (send_payload m)) (g_bevs s)\<rparr>"
  have "conn_ok (g_table ?s) (g_bevs ?s)" using conn_ok_send_to [OF Cons.prems] by simp
  from Cons.IH [OF this] show ?case
    by (simp add: io_send_msg_spec [OF Cons.prems assms(2)] send_to_Cons)
qed simp

section \<open>Reading from a client\<close>

text \<open>
  A packet of a client: the mask of its frame, the id and the data. \<open>pkt_accept\<close>
  says which packets of a list the limits let through, \<open>pkt_views\<close> how they arrive.
\<close>

type_synonym packet = "bytes \<times> int \<times> bytes"

fun pkt_payload :: "packet \<Rightarrow> bytes" where
  "pkt_payload (k, mid, d) = be_bytes 2 (int (length d)) @ be_bytes 2 mid @ d"

fun pkt_frame :: "packet \<Rightarrow> bytes" where
  "pkt_frame (k, mid, d) = client_frame k (pkt_payload (k, mid, d))"

fun pkt_ok :: "packet \<Rightarrow> bool" where
  "pkt_ok (k, mid, d) \<longleftrightarrow> length k = 4 \<and> - 32768 \<le> mid \<and> mid < 32768 \<and> length d \<le> 512"

fun pkt_accept :: "int \<Rightarrow> int \<Rightarrow> packet list \<Rightarrow> pk_limit \<Rightarrow> packet list \<times> pk_limit" where
  "pkt_accept now fd [] pk = ([], pk)"
| "pkt_accept now fd ((k, mid, d) # ps) pk =
     (let (e, pk1) = check_pk_limit now fd mid pk; (qs, pk2) = pkt_accept now fd ps pk1
      in (if e = Err_ok then (k, mid, d) # qs else qs, pk2))"

fun pkt_views :: "int \<Rightarrow> int \<Rightarrow> packet list \<Rightarrow> recv_view list" where
  "pkt_views st fd [] = []"
| "pkt_views st fd ((k, mid, d) # ps) = (st + 1, fd, mid, d) # pkt_views (st + 1) fd ps"

lemma io_packet_frame:
  assumes "gate_ok held held' s" "g_bevs s be = Some b" "bv_in b = pkt_frame (k, mid, d) @ rest"
    "pkt_ok (k, mid, d)" "0 \<le> fd" "fd < 32768" "ft_be (g_table s) fd \<noteq> None" "mp_avail (g_recv_pool s) \<noteq> {}"
    "check_pk_limit now fd mid (g_pk s) = (e, pk)"
  shows "\<exists>s'. io_packet now be fd s = Some (True, s') \<and> gate_ok held held' s' \<and>
    g_bevs s' = (g_bevs s)(be \<mapsto> b\<lparr>bv_in := rest\<rparr>) \<and> g_table s' = g_table s \<and> g_pk s' = pk \<and>
    queue_view (g_recv_mem s') (g_q_disconnect s') = queue_view (g_recv_mem s) (g_q_disconnect s) \<and>
    (if e = Err_ok
     then g_step s' = g_step s + 1 \<and> card (mp_avail (g_recv_pool s)) = Suc (card (mp_avail (g_recv_pool s'))) \<and>
       queue_view (g_recv_mem s') (g_q_recv s') = queue_view (g_recv_mem s) (g_q_recv s) @ [(g_step s + 1, fd, mid, d)]
     else g_step s' = g_step s \<and> g_recv_pool s' = g_recv_pool s \<and>
       queue_view (g_recv_mem s') (g_q_recv s') = queue_view (g_recv_mem s) (g_q_recv s))"
proof -
  define x where "x = pkt_payload (k, mid, d)"
  have ws: "ws_ok (g_ws s)" using assms(1) by (simp add: gate_ok_def)
  have x: "length x = length d + 4" "length x \<le> 2040" "length k = 4" using assms(4) by (auto simp: x_def)
  from handle_packet_client_frame [OF ws x(3,2), of rest] obtain w where w:
    "handle_packet (g_ws s) (bv_in b) = Some (int (length x), w, rest)" "ws_ok w" "take (length x) (ws_buf w) = x"
    using assms(3) by (auto simp: x_def)
  have lw: "length (ws_buf w) = 2048" using w(2) by (simp add: ws_ok_def)
  have bl: "block_at i n (ws_buf w) = block_at i n x" if "i + n \<le> length x" for i n
    using block_at_take [OF that, of "ws_buf w"] w(3) by simp
  have p1: "load_block (ws_buf w) 0 2 = Some (be_bytes 2 (int (length d)))"
    using lw bl [of 0 2] x(1) by (simp add: mem_defs) (simp add: x_def block_at_def)
  have p2: "load_block (ws_buf w) 2 2 = Some (be_bytes 2 mid)"
    using lw bl [of 2 2] x(1) by (simp add: mem_defs) (simp add: x_def block_at_def)
  have p3: "block_at 4 (length d) (ws_buf w) = d"
    using bl [of 4 "length d"] x(1) by (simp add: x_def block_at_def)
  have s1: "s16 (int (length d)) = int (length d)" "s16 mid = mid" "s16 fd = fd" using assms(4-6) by auto
  define t where "t = s\<lparr>g_ws := w, g_bevs := (g_bevs s)(be \<mapsto> b\<lparr>bv_in := rest\<rparr>)\<rparr>"
  have t: "gate_ok held held' t"
    unfolding t_def using gate_ok_input [OF assms(1,2) w(2), of "b\<lparr>bv_in := rest\<rparr>"] by simp
  then have t2: "gate_ok held held' (t\<lparr>g_pk := pk\<rparr>)" by (simp add: gate_ok_def)
  have ld: "0 \<le> int (length d)" "int (length d) \<le> 512" using assms(4) by simp_all
  have run: "io_packet now be fd s =
    (if e \<noteq> Err_ok then Some (True, t\<lparr>g_pk := pk\<rparr>) else io_deliver fd mid (int (length d)) (t\<lparr>g_pk := pk\<rparr>))"
    using assms(2,7,9) w(1) p1 p2 s1 ld x(1)
    by (auto simp: io_packet_def bufferevent_set_input_def s16_be_bytes t_def Let_def)
  show ?thesis
  proof (cases "e = Err_ok")
    case False
    then show ?thesis using run t2 by (simp add: t_def)
  next
    case True
    from io_deliver_spec [OF t2 ld, of fd mid] obtain s' where
      "io_deliver fd mid (int (length d)) (t\<lparr>g_pk := pk\<rparr>) = Some (True, s')" "gate_ok held held' s'"
      "g_table s' = g_table s" "g_bevs s' = g_bevs t" "g_pk s' = pk" "g_step s' = g_step s + 1"
      "queue_view (g_recv_mem s') (g_q_disconnect s') = queue_view (g_recv_mem s) (g_q_disconnect s)"
      "card (mp_avail (g_recv_pool s)) = Suc (card (mp_avail (g_recv_pool s')))"
      "queue_view (g_recv_mem s') (g_q_recv s') = queue_view (g_recv_mem s) (g_q_recv s) @ [(g_step s + 1, fd, mid, d)]"
      using assms(8) s1 p3 by (auto simp: t_def)
    then show ?thesis using run True by (simp add: t_def)
  qed
qed

text \<open>What is left when the stream stops inside a frame: the loop waits.\<close>

definition pkt_partial :: "bytes \<Rightarrow> bool" where
  "pkt_partial rest \<longleftrightarrow> (\<exists>p j. pkt_ok p \<and> j < length (pkt_frame p) \<and> rest = take j (pkt_frame p))"

lemma io_packets_wait:
  assumes "gate_ok held held' s" "g_bevs s be = Some b" "pkt_partial (bv_in b)"
  shows "\<exists>w. io_packets now be fd s = Some (s\<lparr>g_ws := w\<rparr>) \<and> ws_ok w"
proof (cases "6 \<le> length (bv_in b)")
  case False
  then have "io_packets now be fd s = Some (s\<lparr>g_ws := g_ws s\<rparr>)" using assms(2) by (subst io_packets.simps) simp
  then show ?thesis using assms(1) unfolding gate_ok_def by blast
next
  case True
  from assms(3) obtain k mid d j where p: "pkt_ok (k, mid, d)" "j < length (pkt_frame (k, mid, d))"
    "bv_in b = take j (pkt_frame (k, mid, d))" by (auto simp: pkt_partial_def)
  have ws: "ws_ok (g_ws s)" using assms(1) by (simp add: gate_ok_def)
  define x where "x = pkt_payload (k, mid, d)"
  have x: "length k = 4" "length x \<le> 2040" "j < length (client_frame k x)" "bv_in b = take j (client_frame k x)"
    using p by (auto simp: x_def)
  have "6 \<le> j" using True p(2,3) by simp
  from handle_packet_partial_frame [OF ws x(1,2) this x(3)] obtain w where
    w: "handle_packet (g_ws s) (bv_in b) = Some (-2, w, bv_in b)" "ws_ok w" using x(4) by auto
  have "(g_bevs s)(be \<mapsto> b\<lparr>bv_in := bv_in b\<rparr>) = g_bevs s" using assms(2) by auto
  then have "io_packet now be fd s = Some (False, s\<lparr>g_ws := w\<rparr>)"
    using assms(2) w(1) by (simp add: io_packet_def bufferevent_set_input_def)
  then have "io_packets now be fd s = Some (s\<lparr>g_ws := w\<rparr>)"
    using True assms(2) by (subst io_packets.simps) simp
  then show ?thesis using w(2) by blast
qed

lemma pkt_partial_Nil: "pkt_partial []"
  unfolding pkt_partial_def
  by (intro exI [of _ "([0, 0, 0, 0], 0, [])"] exI [of _ 0]) (simp add: client_frame_def length_frame_head)

lemma io_packets_deliver:
  assumes "gate_ok held held' s" "g_bevs s be = Some b" "bv_in b = concat (map pkt_frame ps) @ rest"
    "\<forall>p \<in> set ps. pkt_ok p" "pkt_partial rest" "0 \<le> fd" "fd < 32768" "ft_be (g_table s) fd \<noteq> None"
    "length ps \<le> card (mp_avail (g_recv_pool s))" "pkt_accept now fd ps (g_pk s) = (qs, pk)"
  shows "\<exists>s'. io_packets now be fd s = Some s' \<and> gate_ok held held' s' \<and>
    g_bevs s' = (g_bevs s)(be \<mapsto> b\<lparr>bv_in := rest\<rparr>) \<and> g_table s' = g_table s \<and> g_pk s' = pk \<and>
    queue_view (g_recv_mem s') (g_q_disconnect s') = queue_view (g_recv_mem s) (g_q_disconnect s) \<and>
    queue_view (g_recv_mem s') (g_q_recv s') = queue_view (g_recv_mem s) (g_q_recv s) @ pkt_views (g_step s) fd qs \<and>
    card (mp_avail (g_recv_pool s)) = card (mp_avail (g_recv_pool s')) + length qs"
  using assms(1-4,8-10)
proof (induction ps arbitrary: s b qs)
  case Nil
  then have r: "bv_in b = rest" by simp
  then obtain w where w: "io_packets now be fd s = Some (s\<lparr>g_ws := w\<rparr>)" "ws_ok w"
    using io_packets_wait [OF Nil.prems(1,2)] assms(5) by blast
  moreover have "(g_bevs s)(be \<mapsto> b\<lparr>bv_in := rest\<rparr>) = g_bevs s" using Nil.prems(2) r by auto
  ultimately show ?case using Nil.prems(1,7) by (simp add: gate_ok_def)
next
  case (Cons p ps)
  obtain k mid d where p: "p = (k, mid, d)" by (cases p)
  obtain e pk1 where e: "check_pk_limit now fd mid (g_pk s) = (e, pk1)" by fastforce
  obtain qs1 pk2 where q: "pkt_accept now fd ps pk1 = (qs1, pk2)" by fastforce
  have qs: "pk2 = pk" "qs = (if e = Err_ok then p # qs1 else qs1)"
    using Cons.prems(7) p e q by auto
  have i: "bv_in b = pkt_frame (k, mid, d) @ concat (map pkt_frame ps) @ rest" "pkt_ok (k, mid, d)"
    using Cons.prems(3,4) p by auto
  have na: "mp_avail (g_recv_pool s) \<noteq> {}" using Cons.prems(6) by auto
  from io_packet_frame [OF Cons.prems(1,2) i assms(6,7) Cons.prems(5) na e] obtain t where t:
    "io_packet now be fd s = Some (True, t)" "gate_ok held held' t"
    "g_bevs t = (g_bevs s)(be \<mapsto> b\<lparr>bv_in := concat (map pkt_frame ps) @ rest\<rparr>)" "g_table t = g_table s" "g_pk t = pk1"
    "queue_view (g_recv_mem t) (g_q_disconnect t) = queue_view (g_recv_mem s) (g_q_disconnect s)"
    "if e = Err_ok
     then g_step t = g_step s + 1 \<and> card (mp_avail (g_recv_pool s)) = Suc (card (mp_avail (g_recv_pool t))) \<and>
       queue_view (g_recv_mem t) (g_q_recv t) = queue_view (g_recv_mem s) (g_q_recv s) @ [(g_step s + 1, fd, mid, d)]
     else g_step t = g_step s \<and> g_recv_pool t = g_recv_pool s \<and>
       queue_view (g_recv_mem t) (g_q_recv t) = queue_view (g_recv_mem s) (g_q_recv s)" by blast
  have b1: "g_bevs t be = Some (b\<lparr>bv_in := concat (map pkt_frame ps) @ rest\<rparr>)" using t(3) by simp
  have l: "length ps \<le> card (mp_avail (g_recv_pool t))" using t(7) Cons.prems(6) by (auto split: if_splits)
  have c: "bv_in (b\<lparr>bv_in := concat (map pkt_frame ps) @ rest\<rparr>) = concat (map pkt_frame ps) @ rest"
    "\<forall>p \<in> set ps. pkt_ok p" "ft_be (g_table t) fd \<noteq> None" "pkt_accept now fd ps (g_pk t) = (qs1, pk)"
    using Cons.prems(4,5) q qs(1) t(4,5) by simp_all
  from Cons.IH [OF t(2) b1 c(1-3) l c(4)] obtain s' where s': "io_packets now be fd t = Some s'" "gate_ok held held' s'"
    "g_bevs s' = (g_bevs t)(be \<mapsto> b\<lparr>bv_in := rest\<rparr>)" "g_table s' = g_table t" "g_pk s' = pk"
    "queue_view (g_recv_mem s') (g_q_disconnect s') = queue_view (g_recv_mem t) (g_q_disconnect t)"
    "queue_view (g_recv_mem s') (g_q_recv s') = queue_view (g_recv_mem t) (g_q_recv t) @ pkt_views (g_step t) fd qs1"
    "card (mp_avail (g_recv_pool t)) = card (mp_avail (g_recv_pool s')) + length qs1"
    by (auto simp: fun_upd_def)
  have "6 \<le> length (pkt_frame (k, mid, d))" using i(2) by (simp add: client_frame_def length_frame_head)
  then have "6 \<le> length (bv_in b)" using i(1) by simp
  then have "io_packets now be fd s = Some s'"
    using Cons.prems(2) t(1) s'(1) by (subst io_packets.simps) simp
  then show ?case using s'(2-8) t(3,4,6,7) qs(2) p by (auto split: if_splits)
qed

lemma pkt_accept_length: "pkt_accept now fd ps pk = (qs, pk') \<Longrightarrow> length qs \<le> length ps"
proof (induction now fd ps pk arbitrary: qs pk' rule: pkt_accept.induct)
  case (2 now fd k mid d ps pk)
  then show ?case by (fastforce simp: Let_def split: prod.splits if_splits)
qed simp

section \<open>Emptying the queue to the clients\<close>

definition time_release :: "nat \<Rightarrow> gate \<Rightarrow> gate" where
  "time_release i s = s\<lparr>g_send_pool := snd (mp_free i (g_send_pool s))\<rparr>"

definition time_send :: "nat fd_table \<Rightarrow> msg_send \<Rightarrow> bevs \<Rightarrow> bevs" where
  "time_send t m bs = send_to t (send_targets t m) (server_frame (send_payload m)) bs"

lemma outbox_pop:
  assumes "outbox_ok p mem q held" "mq_content q = i # is"
  shows "\<exists>q' p'. mq_pop q = (Some i, q') \<and> mq_content q' = is \<and> mp_free i p = (True, p') \<and>
    outbox_ok p' mem q' held \<and> mp_cap p' = mp_cap p"
proof -
  have ok: "mp_ok p" "mq_ok q" "balanced (mp_avail p) (mp_ids p) [mq_content q] held" "\<forall>i. send_ok (mem i)"
    using assms(1) by (auto simp: outbox_ok_def)
  have k: "0 < length [mq_content q]" "[mq_content q] ! 0 = mq_content q" by simp_all
  from mc.chan_pop [OF ok(2,3) k assms(2)] obtain q' where q': "mq_pop q = (Some i, q')" "mq_ok q'"
    "mq_content q' = is" "balanced (mp_avail p) (mp_ids p) [mq_content q'] (add_mset i held)" by auto
  from mc.chan_release [OF ok(1) q'(4)] obtain p' where "mp_free i p = (True, p')" "mp_ok p'"
    "mp_ids p' = mp_ids p" "balanced (mp_avail p') (mp_ids p') [mq_content q'] held" by auto
  with q' ok(4) show ?thesis by (auto simp: outbox_ok_def mp_ids_eq)
qed

lemma outbox_push:
  assumes "outbox_ok p mem q held" "mp_alloc p = (Some m, p')" "mq_size q < mq_room q" "send_ok msg"
  shows "outbox_ok p' (mem(m := msg)) (snd (mq_push (Some m) q)) held"
    "mq_content (snd (mq_push (Some m) q)) = mq_content q @ [m]" "m \<notin> set (mq_content q)"
    "fst (mq_push (Some m) q)"
proof -
  have ok: "mp_ok p" "mq_ok q" "balanced (mp_avail p) (mp_ids p) [mq_content q] held" "\<forall>i. send_ok (mem i)"
    using assms(1) by (auto simp: outbox_ok_def)
  note a = mc.chan_alloc [OF ok(1,3) assms(2)]
  show "m \<notin> set (mq_content q)" using balanced_held(2) [OF a(3)] by simp
  have "length (mq_content q) < mq_room q" using assms(3) by simp
  from mq.push_accept [OF ok(2) this, of m] obtain q' where q': "mq_push (Some m) q = (True, q')" "mq_ok q'"
    "mq_content q' = mq_content q @ [m]" by auto
  then show "mq_content (snd (mq_push (Some m) q)) = mq_content q @ [m]" "fst (mq_push (Some m) q)" by auto
  have "balanced (mp_avail p') (mp_ids p') ([mq_content q][0 := mq_content q']) held"
    by (rule balanced_swap [OF a(3)]) (simp_all add: q')
  then show "outbox_ok p' (mem(m := msg)) (snd (mq_push (Some m) q)) held"
    using a(1) q' ok(4) assms(4) by (simp add: outbox_ok_def)
qed

lemma outbox_empty: "outbox_ok p mem q held \<Longrightarrow> mq_content q = [] \<Longrightarrow> mq_pop q = (None, q)"
  by (simp add: outbox_ok_def mq.pop_empty)

lemma target_load:
  assumes "ft_ok t" "send_ok m" "ms_fds_len m \<noteq> 0"
  shows "(if ms_fds_len m < 0 then iload_block (ft_fds t) 0 (ft_len t) else iload_block (ms_fds m) 0 (ms_fds_len m)) =
    Some (send_targets t m)"
  using assms by (auto simp: send_targets_def mem_defs send_ok_def ft_ok_def ft_members_def block_at_def fd_max_def)

lemma io_cb_time_spec:
  assumes "gate_ok held held' s" "mq_content (g_q_send s) = is"
    "\<forall>i \<in> set is. ms_fds_len (g_send_mem s i) \<noteq> 0"
  shows "\<exists>p q. io_cb_time s = Some (s\<lparr>g_q_send := q,
      g_bevs := fold (time_send (g_table s)) (map (g_send_mem s) is) (g_bevs s), g_send_pool := p\<rparr>) \<and>
    mq_content q = [] \<and> outbox_ok p (g_send_mem s) q held' \<and> mp_cap p = mp_cap (g_send_pool s) \<and>
    conn_ok (g_table s) (fold (time_send (g_table s)) (map (g_send_mem s) is) (g_bevs s))"
  using assms
proof (induction "is" arbitrary: s)
  case Nil
  then have "outbox_ok (g_send_pool s) (g_send_mem s) (g_q_send s) held'" "conn_ok (g_table s) (g_bevs s)"
    by (auto simp: gate_ok_def)
  moreover from this(1) Nil.prems(2) have "io_cb_time s = Some (s\<lparr>g_q_send := g_q_send s,
      g_bevs := g_bevs s, g_send_pool := g_send_pool s\<rparr>)"
    by (subst io_cb_time.simps) (simp add: outbox_empty)
  ultimately show ?case using Nil.prems(2) unfolding list.map fold_Nil id_apply by blast
next
  case (Cons i "is")
  have ok: "outbox_ok (g_send_pool s) (g_send_mem s) (g_q_send s) held'" "conn_ok (g_table s) (g_bevs s)"
    using Cons.prems(1) by (auto simp: gate_ok_def)
  from outbox_pop [OF ok(1) Cons.prems(2)] obtain q p where qp: "mq_pop (g_q_send s) = (Some i, q)"
    "mq_content q = is" "mp_free i (g_send_pool s) = (True, p)" "outbox_ok p (g_send_mem s) q held'"
    "mp_cap p = mp_cap (g_send_pool s)" by blast
  have m: "send_ok (g_send_mem s i)" "ms_fds_len (g_send_mem s i) \<noteq> 0" "ft_ok (g_table s)"
    using ok Cons.prems(3) by (auto simp: outbox_ok_def conn_ok_def)
  let ?t = "s\<lparr>g_q_send := q, g_bevs := time_send (g_table s) (g_send_mem s i) (g_bevs s), g_send_pool := p\<rparr>"
  have c: "conn_ok (g_table s) (time_send (g_table s) (g_send_mem s i) (g_bevs s))"
    unfolding time_send_def by (rule conn_ok_send_to [OF ok(2)])
  have t: "gate_ok held held' ?t" using Cons.prems(1) qp(4) c by (simp add: gate_ok_def)
  have "io_send_each (send_targets (g_table s) (g_send_mem s i)) (g_send_mem s i) (s\<lparr>g_q_send := q\<rparr>) =
    Some (s\<lparr>g_q_send := q, g_bevs := time_send (g_table s) (g_send_mem s i) (g_bevs s)\<rparr>)"
    using io_send_each_spec [of "s\<lparr>g_q_send := q\<rparr>" "g_send_mem s i"] ok(2) m(1) by (simp add: time_send_def)
  then have step: "io_cb_time s = io_cb_time ?t"
    using qp(1,3) target_load [OF m(3,1,2)] m(2) by (subst io_cb_time.simps) (auto simp: Let_def split: if_splits)
  from Cons.IH [OF t] qp(2) Cons.prems(3) obtain p' q' where "io_cb_time ?t = Some (?t\<lparr>g_q_send := q',
      g_bevs := fold (time_send (g_table s)) (map (g_send_mem s) is) (g_bevs ?t), g_send_pool := p'\<rparr>)" "mq_content q' = []"
    "outbox_ok p' (g_send_mem s) q' held'" "mp_cap p' = mp_cap p"
    "conn_ok (g_table s) (fold (time_send (g_table s)) (map (g_send_mem s) is) (g_bevs ?t))" by auto
  then show ?case using step qp(5) by auto
qed

text \<open>What one connection has been sent after the queue is emptied.\<close>

definition sent_bytes :: "nat fd_table \<Rightarrow> int \<Rightarrow> msg_send list \<Rightarrow> bytes" where
  "sent_bytes t fd ms = concat (map (\<lambda>m. concat (replicate (count_list (send_targets t m) fd)
     (server_frame (send_payload m)))) ms)"

lemma fold_time_send:
  "fold (time_send t) ms bs be = map_option (\<lambda>b. if ft_be t (bv_fd b) = Some be
     then b\<lparr>bv_out := bv_out b @ sent_bytes t (bv_fd b) ms\<rparr> else b) (bs be)"
proof (induction ms arbitrary: bs)
  case Nil
  then show ?case by (cases "bs be") (auto simp: sent_bytes_def)
next
  case (Cons m ms)
  then show ?case by (cases "bs be") (auto simp: sent_bytes_def time_send_def send_to_def)
qed

lemma io_cb_time_keeps:
  assumes "gate_ok held held' s" "io_cb_time s = Some s'"
    "\<forall>i \<in> set (mq_content (g_q_send s)). ms_fds_len (g_send_mem s i) \<noteq> 0"
  shows "gate_ok held held' s'"
  using io_cb_time_spec [OF assms(1) refl assms(3)] assms(1,2) by (auto simp: gate_ok_def)

section \<open>The start\<close>

text \<open>
  The static objects are zero; \<open>global::init\<close> fills the pools, \<open>thread_logic::init\<close> and
  \<open>thread_io::init\<close> the queues. The queue to the clients is created one shorter than
  its pool.
\<close>

definition mr_zero :: msg_recv where
  "mr_zero = \<lparr>mr_buf = replicate 512 0, mr_back = 0, mr_front = 0, mr_id = 0, mr_fd = 0, mr_step = 0\<rparr>"

definition ms_zero :: msg_send where
  "ms_zero = \<lparr>ms_buf = replicate 16384 0, ms_buf_len = 0, ms_id = 0, ms_fds = replicate 2048 0,
     ms_fds_len = 0, ms_time = 0\<rparr>"

definition gate_init :: "nat \<Rightarrow> nat \<Rightarrow> int \<Rightarrow> pk_limit \<Rightarrow> gate" where
  "gate_init recv_cap send_cap disconnect_id pk = \<lparr>
     g_table = fd_table_zero, g_wpe = (\<lambda>_. 0), g_websocket = (\<lambda>_. 0), g_bevs = Map.empty,
     g_ws = websocket_init, g_pk = pk, g_step = 0, g_disconnect_id = disconnect_id,
     g_recv_pool = mp_init recv_cap, g_recv_mem = (\<lambda>_. mr_zero),
     g_q_recv = mq_init (recv_cap + 1) False, g_q_disconnect = mq_init (recv_cap + 1) False,
     g_send_pool = mp_init send_cap, g_send_mem = (\<lambda>_. ms_zero),
     g_q_send = mq_init send_cap False, g_cg_full = []\<rparr>"

lemma gate_ok_init:
  assumes "0 < send_cap"
  shows "gate_ok {#} {#} (gate_init recv_cap send_cap disconnect_id pk)"
proof -
  have q: "mq_content (mq_init (recv_cap + 1) False) = []" "mq_content (mq_init send_cap False) = []"
    using assms by (simp_all add: mq_init_content)
  have b: "balanced (mp_avail (mp_init recv_cap)) (mp_ids (mp_init recv_cap)) [[], []] {#}"
    "balanced (mp_avail (mp_init send_cap)) (mp_ids (mp_init send_cap)) [[]] {#}"
    using balanced_init [of recv_cap 2] balanced_init [of send_cap 1] by (simp_all add: numeral_2_eq_2)
  have c: "conn_ok fd_table_zero Map.empty"
    by (rule conn_okI [OF ft_ok_zero]) (simp add: fd_table_zero_def)
  have m: "mp_cap (mp_init recv_cap) = recv_cap" by (simp add: mp_init_def)
  have o: "mq_ok (mq_init (recv_cap + 1) False)" "mq_ok (mq_init send_cap False)"
    using assms by (auto intro: mq_init_ok)
  show ?thesis
    using assms b q c o m mp_init_ok websocket_init_ok
    by (simp add: gate_ok_def inbox_ok_def outbox_ok_def gate_init_def queue_view_def steps_ok_def
        mr_zero_def ms_zero_def send_ok_def)
qed

text \<open>One client after its handshake, with bytes that have arrived.\<close>

definition sample_gate_at :: "int \<Rightarrow> bytes \<Rightarrow> gate" where
  "sample_gate_at fd inp =
     (let s = io_cb_listener (Some 7) fd (gate_init 4 4 99 (pk_fresh (\<lambda>_. 2) (\<lambda>_. 1000)))
      in s\<lparr>g_websocket := (g_websocket s)(fd := 1), g_bevs := (g_bevs s)(7 \<mapsto> \<lparr>bv_fd = fd, bv_in = inp, bv_out = []\<rparr>)\<rparr>)"

abbreviation sample_gate :: "bytes \<Rightarrow> gate" where
  "sample_gate \<equiv> sample_gate_at 5"

lemma sample_gate_at_simps:
  "g_bevs (sample_gate_at fd inp) 7 = Some \<lparr>bv_fd = fd, bv_in = inp, bv_out = []\<rparr>"
  "g_websocket (sample_gate_at fd inp) fd = 1" "g_step (sample_gate_at fd inp) = 0"
  "g_pk (sample_gate_at fd inp) = pk_fresh (\<lambda>_. 2) (\<lambda>_. 1000)" "g_recv_pool (sample_gate_at fd inp) = mp_init 4"
  "g_recv_mem (sample_gate_at fd inp) = (\<lambda>_. mr_zero)" "g_q_recv (sample_gate_at fd inp) = mq_init 5 False"
  "g_q_disconnect (sample_gate_at fd inp) = mq_init 5 False" "g_q_send (sample_gate_at fd inp) = mq_init 4 False"
  "g_send_pool (sample_gate_at fd inp) = mp_init 4" "g_send_mem (sample_gate_at fd inp) = (\<lambda>_. ms_zero)"
  "g_disconnect_id (sample_gate_at fd inp) = 99"
  by (simp_all add: sample_gate_at_def io_cb_listener_def gate_init_def Let_def split: prod.split)

lemma sample_gate_table: "fd_valid fd \<Longrightarrow> ft_be (g_table (sample_gate_at fd inp)) fd = Some 7"
proof -
  assume "fd_valid fd"
  then have "\<exists>t'. fd_add fd (7::nat) fd_table_zero = (True, t') \<and> ft_be t' = (ft_be fd_table_zero)(fd := Some 7)"
    using ft.add_new [OF ft_ok_zero, of fd 7] by (auto simp: fd_table_zero_def)
  then show ?thesis by (auto simp: sample_gate_at_def io_cb_listener_def gate_init_def Let_def)
qed

lemmas sample_gate_simps = sample_gate_at_simps sample_gate_table fd_valid_def fd_max_def

lemma sample_gate_ok: "gate_ok {#} {#} (sample_gate_at fd inp)"
proof -
  let ?s = "io_cb_listener (Some 7) fd (gate_init 4 4 99 (pk_fresh (\<lambda>_. 2) (\<lambda>_. 1000)))"
  have ok: "gate_ok {#} {#} ?s"
    by (rule io_cb_listener_keeps [OF gate_ok_init]) (simp_all add: gate_init_def)
  have b: "g_bevs ?s 7 = Some \<lparr>bv_fd = fd, bv_in = [], bv_out = []\<rparr>"
    by (simp add: io_cb_listener_def bufferevent_socket_new_def Let_def split: prod.split)
  from gate_ok_input [OF ok b, of "g_ws ?s" "\<lparr>bv_fd = fd, bv_in = inp, bv_out = []\<rparr>"] ok
  show ?thesis by (simp add: gate_ok_def sample_gate_at_def Let_def)
qed

lemma count_list_distinct: "distinct xs \<Longrightarrow> x \<in> set xs \<Longrightarrow> count_list xs x = 1"
  by (induction xs) auto

section \<open>Properties\<close>

text \<open>
  C1. The gate delivers what the client sent: when the input of a connected client
  is any number of packets and the beginning of another, one call of \<open>cb_read\<close>
  queues exactly the packets that the limits accept, in order, under increasing
  steps, with the descriptor, the id and the data the client wrote, and leaves the
  incomplete packet for the next call; nothing else is reported.
\<close>

theorem thread_io_delivers:
  assumes "gate_ok held held' s" "g_bevs s be = Some b" "0 \<le> bv_fd b" "bv_fd b < 32768"
    "g_websocket s (bv_fd b) \<noteq> 0" "ft_be (g_table s) (bv_fd b) = Some be"
    "bv_in b = concat (map pkt_frame ps) @ rest" "\<forall>p \<in> set ps. pkt_ok p" "pkt_partial rest"
    "length ps \<le> card (mp_avail (g_recv_pool s))" "pkt_accept now (bv_fd b) ps (g_pk s) = (qs, pk)"
  shows "\<exists>s'. io_cb_read sha0 now be s = Some s' \<and> g_bevs s' = (g_bevs s)(be \<mapsto> b\<lparr>bv_in := rest\<rparr>) \<and> g_pk s' = pk \<and>
    queue_view (g_recv_mem s') (g_q_disconnect s') = queue_view (g_recv_mem s) (g_q_disconnect s) \<and>
    queue_view (g_recv_mem s') (g_q_recv s') =
      queue_view (g_recv_mem s) (g_q_recv s) @ pkt_views (g_step s) (bv_fd b) qs"
proof -
  have f: "ft_be (g_table s) (bv_fd b) \<noteq> None" using assms(6) by simp
  have "io_cb_read sha0 now be s = io_packets now be (bv_fd b) s"
    using assms(2-5) by (simp add: io_cb_read_def)
  with io_packets_deliver [OF assms(1,2,7-9,3,4) f assms(10,11)] show ?thesis by auto
qed

theorem thread_io_delivers_witness:
  "\<exists>s'. io_cb_read sha1_zero 5000 7 (sample_gate
      (pkt_frame ([1, 2, 3, 4], 12, [65, 66]) @ pkt_frame ([9, 9, 9, 9], 12, []) @ pkt_frame ([5, 6, 7, 8], 12, [67]) @ [130])) = Some s' \<and>
    queue_view (g_recv_mem s') (g_q_recv s') = [(1, 5, 12, [65, 66]), (2, 5, 12, [])]"
proof -
  define ps :: "packet list" where "ps = [([1, 2, 3, 4], 12, [65, 66]), ([9, 9, 9, 9], 12, []), ([5, 6, 7, 8], 12, [67])]"
  define inp where "inp = concat (map pkt_frame ps) @ [130 :: byte]"
  define b where "b = \<lparr>bv_fd = 5, bv_in = inp, bv_out = []\<rparr>"
  have "[130 :: byte] = take 1 (pkt_frame ([1, 2, 3, 4], 12, []))"
    by (simp add: client_frame_def ws_frame_head_def)
  then have pp: "pkt_partial [130]" unfolding pkt_partial_def
    by (intro exI [of _ "([1, 2, 3, 4], 12, [])"] exI [of _ 1]) (simp add: client_frame_def length_frame_head)
  have av: "length ps \<le> card (mp_avail (g_recv_pool (sample_gate inp)))"
    by (simp add: sample_gate_simps mp_avail_init ps_def)
  obtain pk where acc: "pkt_accept 5000 5 ps (pk_fresh (\<lambda>_. 2) (\<lambda>_. 1000)) =
      ([([1, 2, 3, 4], 12, [65, 66]), ([9, 9, 9, 9], 12, [])], pk)"
    by (simp add: check_pk_limit_def pk_fresh_def pk_set2_def Let_def ps_def)
  have ok: "\<forall>p \<in> set ps. pkt_ok p" by (simp add: ps_def)
  have c: "g_bevs (sample_gate inp) 7 = Some b" "0 \<le> bv_fd b" "bv_fd b < 32768" "g_websocket (sample_gate inp) (bv_fd b) \<noteq> 0"
    "ft_be (g_table (sample_gate inp)) (bv_fd b) = Some 7" "bv_in b = concat (map pkt_frame ps) @ [130]"
    "pkt_accept 5000 (bv_fd b) ps (g_pk (sample_gate inp)) = ([([1, 2, 3, 4], 12, [65, 66]), ([9, 9, 9, 9], 12, [])], pk)"
    using acc by (simp_all add: b_def sample_gate_simps inp_def)
  have q: "queue_view (g_recv_mem (sample_gate inp)) (g_q_recv (sample_gate inp)) = []"
    by (simp add: sample_gate_simps queue_view_def)
  have v: "pkt_views (g_step (sample_gate inp)) (bv_fd b) [([1, 2, 3, 4], 12, [65, 66]), ([9, 9, 9, 9], 12, [])] =
      [(1, 5, 12, [65, 66]), (2, 5, 12, [])]" by (simp add: sample_gate_simps b_def)
  from thread_io_delivers [OF sample_gate_ok c(1-6) ok pp av c(7), of sha1_zero]
  show ?thesis unfolding q v append_Nil unfolding inp_def ps_def list.map concat.simps append_assoc by auto
qed

text \<open>
  The end of a connection, by the client or by the timeout, is reported once: the
  descriptor is free again, the bufferevent is gone, and the logic thread gets one
  message with the reason, unless the pool is empty, when it gets none and never
  learns of it.
\<close>

theorem thread_io_reports_close:
  assumes "gate_ok held held' s" "g_bevs s be = Some b"
  shows "\<exists>s'. io_cb_event be what s = Some s' \<and> gate_ok held held' s' \<and>
    ft_be (g_table s') (bv_fd b) = None \<and> g_bevs s' be = None \<and>
    queue_view (g_recv_mem s') (g_q_recv s') = queue_view (g_recv_mem s) (g_q_recv s) \<and>
    queue_view (g_recv_mem s') (g_q_disconnect s') = queue_view (g_recv_mem s) (g_q_disconnect s) @
      (if mp_avail (g_recv_pool s) = {} then []
       else [(g_step s + 1, s16 (bv_fd b), s16 (g_disconnect_id s),
              be_bytes 4 (if bit what 6 then 2 else 1) @ be_bytes 4 (s16 what))])"
  using io_close_connect_spec [OF assms, of "if bit what 6 then 2 else 1" what]
  by (auto simp: io_cb_event_def disconnect_view_def)

theorem thread_io_reports_close_witness:
  "\<exists>s'. io_cb_event 7 0x41 (sample_gate []) = Some s' \<and> ft_be (g_table s') 5 = None \<and>
    queue_view (g_recv_mem s') (g_q_disconnect s') = [(1, 5, 99, [0, 0, 0, 2, 0, 0, 0, 65])]"
proof -
  define b where "b = \<lparr>bv_fd = 5, bv_in = [], bv_out = []\<rparr>"
  have b: "g_bevs (sample_gate []) 7 = Some b" "bv_fd b = 5" by (simp_all add: sample_gate_simps b_def)
  have "bit (0x41 :: int) 6" by (simp add: bit_iff_odd)
  moreover have "mp_avail (g_recv_pool (sample_gate [])) \<noteq> {}"
    by (simp add: sample_gate_simps mp_avail_init lessThan_empty_iff)
  moreover have "be_bytes 4 2 = [0, 0, 0, 2]" "be_bytes 4 (s16 65) = [0, 0, 0, 65]" by code_simp+
  ultimately show ?thesis
    using thread_io_reports_close [OF sample_gate_ok b(1), of "0x41"] b(2)
    by (auto simp: sample_gate_simps queue_view_def)
qed

text \<open>
  C3. Unicast, multicast and broadcast: when no queued message has an empty list of
  receivers, one call of \<open>cb_time\<close> ends, empties the queue and gives the messages
  back to the pool; every connection has then received, in order, the frame of each
  message once for every time its descriptor is listed, and once if the message is
  for all.
\<close>

theorem thread_io_sends:
  assumes "gate_ok held held' s"
    "\<forall>i \<in> set (mq_content (g_q_send s)). ms_fds_len (g_send_mem s i) \<noteq> 0"
  shows "\<exists>s'. io_cb_time s = Some s' \<and> gate_ok held held' s' \<and> mq_content (g_q_send s') = [] \<and>
    (\<forall>be. g_bevs s' be = map_option (\<lambda>b. if ft_be (g_table s) (bv_fd b) = Some be
       then b\<lparr>bv_out := bv_out b @ sent_bytes (g_table s) (bv_fd b) (map (g_send_mem s) (mq_content (g_q_send s)))\<rparr>
       else b) (g_bevs s be))"
proof -
  from io_cb_time_spec [OF assms(1) refl assms(2)] obtain p q where
    t: "io_cb_time s = Some (s\<lparr>g_q_send := q, g_bevs := fold (time_send (g_table s))
      (map (g_send_mem s) (mq_content (g_q_send s))) (g_bevs s), g_send_pool := p\<rparr>)" "mq_content q = []" by blast
  with io_cb_time_keeps [OF assms(1) t(1) assms(2)] show ?thesis by (simp add: fold_time_send)
qed

definition sample_broadcast :: msg_send where
  "sample_broadcast = ms_zero\<lparr>ms_buf_len := 1, ms_id := 77, ms_fds_len := -1\<rparr>"

theorem thread_io_sends_witness:
  "\<exists>s' b. io_cb_time ((sample_gate [])\<lparr>g_send_pool := snd (mp_alloc (mp_init 4)),
      g_send_mem := (\<lambda>_. ms_zero)(3 := sample_broadcast), g_q_send := snd (mq_push (Some 3) (mq_init 4 False))\<rparr>) = Some s' \<and>
    g_bevs s' 7 = Some b \<and> bv_out b = server_frame [0, 1, 0, 77, 0]"
proof -
  let ?mem = "(\<lambda>_. ms_zero)(3 := sample_broadcast)"
  let ?s = "(sample_gate [])\<lparr>g_send_pool := snd (mp_alloc (mp_init 4)), g_send_mem := ?mem,
      g_q_send := snd (mq_push (Some 3) (mq_init 4 False))\<rparr>"
  have o: "outbox_ok (mp_init 4) (\<lambda>_. ms_zero) (mq_init 4 False) {#}"
    using sample_gate_ok [of 5 "[]"] by (simp add: gate_ok_def sample_gate_simps)
  have a: "mp_alloc (mp_init 4) = (Some 3, snd (mp_alloc (mp_init 4)))" by (simp add: mp_alloc_def mp_init_def)
  have m: "send_ok sample_broadcast" by (simp add: sample_broadcast_def ms_zero_def send_ok_def)
  have r: "mq_size (mq_init 4 False :: nat msg_queue) < mq_room (mq_init 4 False :: nat msg_queue)"
    by (simp add: mq_size_def mq_init_def ring_dist_def mq_room_def)
  note p = outbox_push [OF o a r m]
  have ok: "gate_ok {#} {#} ?s" using sample_gate_ok [of 5 "[]"] p(1) by (simp add: gate_ok_def)
  have c: "mq_content (g_q_send ?s) = [3]" using p(2) by simp
  have t: "send_targets t sample_broadcast = ft_members t" for t
    by (simp add: send_targets_def sample_broadcast_def)
  have f: "ft_ok (g_table (sample_gate []))" using sample_gate_ok [of 5 "[]"] by (simp add: gate_ok_def conn_ok_def)
  then have "distinct (ft_members (g_table (sample_gate [])))" "5 \<in> set (ft_members (g_table (sample_gate [])))"
    using ft.members_distinct [OF f] ft.members_dom [OF f] by (auto simp: sample_gate_simps)
  then have one: "count_list (ft_members (g_table (sample_gate []))) 5 = 1"
    by (rule count_list_distinct)
  have pl: "send_payload sample_broadcast = [0, 1, 0, 77, 0]"
  proof -
    have "be_bytes 2 1 = [0, 1]" "be_bytes 2 77 = [0, 77]" by code_simp+
    moreover have "take 1 (replicate 16384 0) = [0 :: byte]" by (simp add: take_replicate)
    ultimately show ?thesis by (simp add: send_payload_def sample_broadcast_def ms_zero_def)
  qed
  have "\<forall>i \<in> set (mq_content (g_q_send ?s)). ms_fds_len (g_send_mem ?s i) \<noteq> 0"
    unfolding c by (simp add: sample_broadcast_def)
  from thread_io_sends [OF ok this] obtain s' where "io_cb_time ?s = Some s'"
    "g_bevs s' 7 = map_option (\<lambda>b. if ft_be (g_table ?s) (bv_fd b) = Some 7
       then b\<lparr>bv_out := bv_out b @ sent_bytes (g_table ?s) (bv_fd b) (map (g_send_mem ?s) [3])\<rparr> else b) (g_bevs ?s 7)"
    unfolding c by blast
  then show ?thesis by (simp add: sample_gate_simps sent_bytes_def t one pl)
qed

text \<open>
  The table of connections has 32768 entries, the packet limits 16384: a client
  with a descriptor from 16384 on is accepted, but every packet it sends is taken
  from its input and dropped.
\<close>

theorem thread_io_mutes_high_fds:
  assumes "gate_ok held held' s" "g_bevs s be = Some b" "16384 \<le> bv_fd b" "bv_fd b < 32768"
    "g_websocket s (bv_fd b) \<noteq> 0" "ft_be (g_table s) (bv_fd b) = Some be"
    "bv_in b = concat (map pkt_frame ps)" "\<forall>p \<in> set ps. pkt_ok p" "length ps \<le> card (mp_avail (g_recv_pool s))"
  shows "\<exists>s'. io_cb_read sha0 now be s = Some s' \<and> g_bevs s' = (g_bevs s)(be \<mapsto> b\<lparr>bv_in := []\<rparr>) \<and>
    queue_view (g_recv_mem s') (g_q_disconnect s') = queue_view (g_recv_mem s) (g_q_disconnect s) \<and>
    queue_view (g_recv_mem s') (g_q_recv s') = queue_view (g_recv_mem s) (g_q_recv s)"
proof -
  have a: "pkt_accept now (bv_fd b) ps (g_pk s) = ([], g_pk s)"
    using assms(3) by (induction ps) (auto simp: check_pk_limit_def Let_def)
  have f: "ft_be (g_table s) (bv_fd b) \<noteq> None" "0 \<le> bv_fd b" "bv_in b = concat (map pkt_frame ps) @ []"
    using assms(3,6,7) by simp_all
  have "io_cb_read sha0 now be s = io_packets now be (bv_fd b) s"
    using assms(2,4,5) f(2) by (simp add: io_cb_read_def)
  with io_packets_deliver [OF assms(1,2) f(3) assms(8) pkt_partial_Nil f(2) assms(4) f(1) assms(9) a] show ?thesis by auto
qed

theorem thread_io_mutes_high_fds_witness:
  "\<exists>s'. io_cb_read sha1_zero 5000 7 (sample_gate_at 20000 (pkt_frame ([1, 2, 3, 4], 12, [65, 66]))) = Some s' \<and>
    queue_view (g_recv_mem s') (g_q_recv s') = []"
proof -
  let ?ps = "[([1, 2, 3, 4], 12, [65, 66])] :: packet list"
  define inp where "inp = concat (map pkt_frame ?ps)"
  define b where "b = \<lparr>bv_fd = 20000, bv_in = inp, bv_out = []\<rparr>"
  have c: "g_bevs (sample_gate_at 20000 inp) 7 = Some b" "16384 \<le> bv_fd b" "bv_fd b < 32768"
    "g_websocket (sample_gate_at 20000 inp) (bv_fd b) \<noteq> 0"
    "ft_be (g_table (sample_gate_at 20000 inp)) (bv_fd b) = Some 7" "bv_in b = concat (map pkt_frame ?ps)"
    "length ?ps \<le> card (mp_avail (g_recv_pool (sample_gate_at 20000 inp)))"
    by (simp_all add: b_def sample_gate_simps inp_def mp_avail_init)
  have ok: "\<forall>p \<in> set ?ps. pkt_ok p" by simp
  have q: "queue_view (g_recv_mem (sample_gate_at 20000 inp)) (g_q_recv (sample_gate_at 20000 inp)) = []"
    by (simp add: sample_gate_simps queue_view_def)
  from thread_io_mutes_high_fds [OF sample_gate_ok c(1-6) ok c(7), of sha1_zero 5000]
  show ?thesis unfolding q unfolding inp_def by auto
qed

end
