(* ===== verification/ThreadLogic.thy ===== *)
theory ThreadLogic
  imports ThreadIo
begin

text \<open>
  The logic thread's side of the gate (\<open>logic/thread_logic.cpp\<close>): \<open>handle_io\<close> takes the
  messages from the two queues, in the order of their steps, and calls the Lua
  function \<open>handlerMsg\<close> for each. Lua is not part of the repository: its handler is
  the parameter \<open>h\<close>, which gets the index of the message (\<open>msg_ex::ref.msg_read\<close>), the
  gate and the Lua state, and returns an error message, if it failed, and the new
  states. What \<open>handle_io\<close> has delivered is returned with the state.
\<close>

section \<open>handle_io\<close>

type_synonym 'l handler = "nat \<Rightarrow> gate \<times> 'l \<Rightarrow> bytes option \<times> gate \<times> 'l"

datatype io_pick = Pick_none | Pick_recv | Pick_disconnect | Pick_neither

text \<open>Which queue is popped, from what \<open>getfront\<close> returned for each.\<close>

definition pick_queue :: "msg_recv option \<Rightarrow> msg_recv option \<Rightarrow> io_pick" where
  "pick_queue cg gg =
     (case (cg, gg) of
        (None, None) \<Rightarrow> Pick_none
      | (Some _, None) \<Rightarrow> Pick_recv
      | (None, Some _) \<Rightarrow> Pick_disconnect
      | (Some c, Some d) \<Rightarrow>
          if mr_step c < mr_step d then Pick_recv
          else if mr_step d < mr_step c then Pick_disconnect
          else Pick_neither)"

definition io_fronts :: "gate \<Rightarrow> msg_recv option \<times> msg_recv option" where
  "io_fronts g = (map_option (g_recv_mem g) (mq_getfront (g_q_recv g)),
     map_option (g_recv_mem g) (mq_getfront (g_q_disconnect g)))"

text \<open>The message popped, if any; with equal steps the code goes on with a null pointer.\<close>

definition io_take :: "io_pick \<Rightarrow> gate \<Rightarrow> nat option \<times> gate" where
  "io_take p g =
     (case p of
        Pick_recv \<Rightarrow> (let (m, q) = mq_pop (g_q_recv g) in (m, g\<lparr>g_q_recv := q\<rparr>))
      | Pick_disconnect \<Rightarrow> (let (m, q) = mq_pop (g_q_disconnect g) in (m, g\<lparr>g_q_disconnect := q\<rparr>))
      | _ \<Rightarrow> (None, g))"

text \<open>The rest of the turn: the handler, the error log and the release.\<close>

definition io_call :: "'l handler \<Rightarrow> nat \<Rightarrow> gate \<times> 'l \<Rightarrow> bytes option \<times> gate \<times> 'l" where
  "io_call h i s =
     (let (e, g, l) = h i s in (e, g\<lparr>g_recv_pool := snd (mp_free i (g_recv_pool g))\<rparr>, l))"

partial_function (option) handle_io ::
  "'l handler \<Rightarrow> gate \<times> 'l \<Rightarrow> ((recv_view \<times> bytes option) list \<times> gate \<times> 'l) option" where
  "handle_io h s =
     (let g = fst s; (cg, gg) = io_fronts g; p = pick_queue cg gg in
      if p = Pick_none then Some ([], s)
      else do {
        let (m, g1) = io_take p g in do {
          i \<leftarrow> m;
          let v = mr_view (g_recv_mem g1 i); (e, s2) = io_call h i (g1, snd s) in do {
            (ds, s3) \<leftarrow> handle_io h s2;
            Some ((v, e) # ds, s3)
          }
        }
      })"

section \<open>Taking and giving back\<close>

lemma inbox_pop:
  assumes "inbox_ok p mem st q1 q2 held" "mq_content q1 = i # is"
  shows "\<exists>q. mq_pop q1 = (Some i, q) \<and> inbox_ok p mem st q q2 (add_mset i held) \<and>
    queue_view mem q1 = mr_view (mem i) # queue_view mem q"
proof -
  have ok: "mq_ok q1" "balanced (mp_avail p) (mp_ids p) [mq_content q1, mq_content q2] held"
    "steps_ok st (queue_view mem q1) (queue_view mem q2)" using assms(1) by (auto simp: inbox_ok_def)
  have k: "0 < length [mq_content q1, mq_content q2]" "[mq_content q1, mq_content q2] ! 0 = mq_content q1" by simp_all
  from mc.chan_pop [OF ok(1,2) k assms(2)] obtain q where q: "mq_pop q1 = (Some i, q)" "mq_ok q"
    "mq_room q = mq_room q1" "mq_content q = is"
    "balanced (mp_avail p) (mp_ids p) [mq_content q, mq_content q2] (add_mset i held)" by auto
  have v: "queue_view mem q1 = mr_view (mem i) # queue_view mem q"
    using assms(2) q(4) by (simp add: queue_view_def)
  then have "steps_ok st (queue_view mem q) (queue_view mem q2)" using ok(3) by (auto simp: steps_ok_def)
  with q v assms(1) show ?thesis by (simp add: inbox_ok_def)
qed

lemma inbox_release:
  assumes "inbox_ok p mem st q1 q2 (add_mset i held)"
  shows "\<exists>p'. mp_free i p = (True, p') \<and> inbox_ok p' mem st q1 q2 held"
proof -
  have "mp_ok p" "balanced (mp_avail p) (mp_ids p) [mq_content q1, mq_content q2] (add_mset i held)"
    using assms by (auto simp: inbox_ok_def)
  from mc.chan_release [OF this] obtain p' where "mp_free i p = (True, p')" "mp_ok p'" "mp_ids p' = mp_ids p"
    "balanced (mp_avail p') (mp_ids p') [mq_content q1, mq_content q2] held" by auto
  with assms show ?thesis by (auto simp: inbox_ok_def mp_ids_eq)
qed

lemma inbox_held:
  "inbox_ok p mem st q1 q2 (add_mset i held) \<Longrightarrow> i \<notin> set (mq_content q1) \<union> set (mq_content q2)"
  using balanced_held(2) [of "mp_avail p" "mp_ids p" "[mq_content q1, mq_content q2]" i held]
  by (auto simp: inbox_ok_def)

lemma gate_ok_inbox: "gate_ok held held' g \<Longrightarrow>
    inbox_ok (g_recv_pool g) (g_recv_mem g) (g_step g) (g_q_recv g) (g_q_disconnect g) held"
  by (simp add: gate_ok_def)

section \<open>The order of delivery\<close>

text \<open>The specification: the two queues merged by step.\<close>

fun step_merge :: "recv_view list \<Rightarrow> recv_view list \<Rightarrow> recv_view list" where
  "step_merge [] ys = ys"
| "step_merge xs [] = xs"
| "step_merge (x # xs) (y # ys) =
     (if fst x < fst y then x # step_merge xs (y # ys) else y # step_merge (x # xs) ys)"

lemma step_merge_Nil [simp]: "step_merge xs [] = xs"
  by (cases xs) auto

lemma mset_step_merge [simp]: "mset (step_merge xs ys) = mset xs + mset ys"
  by (induction xs ys rule: step_merge.induct) auto

lemma set_step_merge [simp]: "set (step_merge xs ys) = set xs \<union> set ys"
  by (metis mset_step_merge set_mset_mset set_mset_union)

lemma sorted_step_merge:
  "sorted (map fst xs) \<Longrightarrow> sorted (map fst ys) \<Longrightarrow> sorted (map fst (step_merge xs ys))"
  by (induction xs ys rule: step_merge.induct) (auto simp: ball_Un less_imp_le intro: order_trans)

text \<open>
  What the handler may do with the gate: use the message it is given, and leave the
  other messages and the queues alone (it may queue messages to the clients).
\<close>

definition lua_ok :: "'l handler \<Rightarrow> bool" where
  "lua_ok h \<longleftrightarrow> (\<forall>i g l e g' l' held held'. h i (g, l) = (e, g', l') \<longrightarrow>
     gate_ok (add_mset i held) held' g \<longrightarrow>
     gate_ok (add_mset i held) held' g' \<and> g_q_recv g' = g_q_recv g \<and> g_q_disconnect g' = g_q_disconnect g \<and>
     (\<forall>j. j \<noteq> i \<longrightarrow> g_recv_mem g' j = g_recv_mem g j))"

lemma io_call_keeps:
  assumes "lua_ok h" "gate_ok (add_mset i held) held' g" "io_call h i (g, l) = (e, g', l')"
  shows "gate_ok held held' g'"
    "queue_view (g_recv_mem g') (g_q_recv g') = queue_view (g_recv_mem g) (g_q_recv g)"
    "queue_view (g_recv_mem g') (g_q_disconnect g') = queue_view (g_recv_mem g) (g_q_disconnect g)"
proof -
  from assms(3) obtain g1 where h: "h i (g, l) = (e, g1, l')"
    "g' = g1\<lparr>g_recv_pool := snd (mp_free i (g_recv_pool g1))\<rparr>"
    by (auto simp: io_call_def split: prod.splits)
  with assms(1,2) have g1: "gate_ok (add_mset i held) held' g1" "g_q_recv g1 = g_q_recv g"
    "g_q_disconnect g1 = g_q_disconnect g" "\<And>j. j \<noteq> i \<Longrightarrow> g_recv_mem g1 j = g_recv_mem g j"
    unfolding lua_ok_def by blast+
  from inbox_release [OF gate_ok_inbox [OF g1(1)]] g1(1) h(2) show "gate_ok held held' g'"
    by (auto simp: gate_ok_def)
  have i: "i \<notin> set (mq_content (g_q_recv g)) \<union> set (mq_content (g_q_disconnect g))"
    by (rule inbox_held [OF gate_ok_inbox [OF assms(2)]])
  then have "\<forall>j \<in> set (mq_content (g_q_recv g)) \<union> set (mq_content (g_q_disconnect g)). g_recv_mem g1 j = g_recv_mem g j"
    using g1(4) by metis
  then show "queue_view (g_recv_mem g') (g_q_recv g') = queue_view (g_recv_mem g) (g_q_recv g)"
    "queue_view (g_recv_mem g') (g_q_disconnect g') = queue_view (g_recv_mem g) (g_q_disconnect g)"
    using g1(2,3) h(2) by (simp_all add: queue_view_def)
qed

lemma mq_front_view:
  "mq_ok q \<Longrightarrow> map_option mem (mq_getfront q) = (case mq_content q of [] \<Rightarrow> None | i # _ \<Rightarrow> Some (mem i))"
  by (auto simp: mq.peek_front split: list.split)

text \<open>One turn: the first of the merged messages is taken.\<close>

lemma io_turn:
  assumes "gate_ok held held' g"
  defines "xs \<equiv> queue_view (g_recv_mem g) (g_q_recv g)" and "ys \<equiv> queue_view (g_recv_mem g) (g_q_disconnect g)"
  shows "xs = [] \<Longrightarrow> ys = [] \<Longrightarrow> pick_queue (fst (io_fronts g)) (snd (io_fronts g)) = Pick_none"
    "xs \<noteq> [] \<or> ys \<noteq> [] \<Longrightarrow> pick_queue (fst (io_fronts g)) (snd (io_fronts g)) \<noteq> Pick_none \<and>
      (\<exists>i g1. io_take (pick_queue (fst (io_fronts g)) (snd (io_fronts g))) g = (Some i, g1) \<and>
        gate_ok (add_mset i held) held' g1 \<and>
        step_merge xs ys = mr_view (g_recv_mem g1 i) #
          step_merge (queue_view (g_recv_mem g1) (g_q_recv g1)) (queue_view (g_recv_mem g1) (g_q_disconnect g1)))"
proof -
  have ok: "inbox_ok (g_recv_pool g) (g_recv_mem g) (g_step g) (g_q_recv g) (g_q_disconnect g) held"
    by (rule gate_ok_inbox [OF assms(1)])
  then have q: "mq_ok (g_q_recv g)" "mq_ok (g_q_disconnect g)" by (auto simp: inbox_ok_def)
  have fr: "io_fronts g = ((case mq_content (g_q_recv g) of [] \<Rightarrow> None | i # _ \<Rightarrow> Some (g_recv_mem g i)),
      (case mq_content (g_q_disconnect g) of [] \<Rightarrow> None | i # _ \<Rightarrow> Some (g_recv_mem g i)))"
    by (simp add: io_fronts_def mq_front_view q)
  show "xs = [] \<Longrightarrow> ys = [] \<Longrightarrow> pick_queue (fst (io_fronts g)) (snd (io_fronts g)) = Pick_none"
    by (simp add: fr xs_def ys_def queue_view_def pick_queue_def)
  have recv: "\<exists>g1. io_take Pick_recv g = (Some i, g1) \<and> gate_ok (add_mset i held) held' g1 \<and>
      xs = mr_view (g_recv_mem g1 i) # queue_view (g_recv_mem g1) (g_q_recv g1) \<and> 
      ys = queue_view (g_recv_mem g1) (g_q_disconnect g1)" if "mq_content (g_q_recv g) = i # is" for i "is"
    using inbox_pop [OF ok that] assms(1) by (auto simp: io_take_def gate_ok_def xs_def ys_def)
  have disc: "\<exists>g1. io_take Pick_disconnect g = (Some i, g1) \<and> gate_ok (add_mset i held) held' g1 \<and>
      ys = mr_view (g_recv_mem g1 i) # queue_view (g_recv_mem g1) (g_q_disconnect g1) \<and> 
      xs = queue_view (g_recv_mem g1) (g_q_recv g1)" if "mq_content (g_q_disconnect g) = i # is" for i "is"
    using inbox_pop [OF inbox_swap [OF ok] that] assms(1)
    by (auto simp: io_take_def gate_ok_def xs_def ys_def dest: inbox_swap)
  have dist: "fst (hd xs) \<noteq> fst (hd ys)" if "xs \<noteq> []" "ys \<noteq> []"
    using ok that by (cases xs; cases ys) (auto simp: inbox_ok_def steps_ok_def xs_def ys_def)
  have hx: "xs = map (\<lambda>i. mr_view (g_recv_mem g i)) (mq_content (g_q_recv g))"
    "ys = map (\<lambda>i. mr_view (g_recv_mem g i)) (mq_content (g_q_disconnect g))"
    by (auto simp: xs_def ys_def queue_view_def)
  show "pick_queue (fst (io_fronts g)) (snd (io_fronts g)) \<noteq> Pick_none \<and>
      (\<exists>i g1. io_take (pick_queue (fst (io_fronts g)) (snd (io_fronts g))) g = (Some i, g1) \<and>
        gate_ok (add_mset i held) held' g1 \<and>
        step_merge xs ys = mr_view (g_recv_mem g1 i) #
          step_merge (queue_view (g_recv_mem g1) (g_q_recv g1)) (queue_view (g_recv_mem g1) (g_q_disconnect g1)))"
    if ne: "xs \<noteq> [] \<or> ys \<noteq> []"
  proof (cases "mq_content (g_q_recv g)")
    case Nil
    then obtain i "is" where d: "mq_content (g_q_disconnect g) = i # is"
      using ne hx by (cases "mq_content (g_q_disconnect g)") auto
    from disc [OF d] Nil d hx(1) show ?thesis by (auto simp: fr pick_queue_def)
  next
    case (Cons i "is")
    show ?thesis
    proof (cases "mq_content (g_q_disconnect g)")
      case Nil
      from recv [OF Cons] Cons Nil hx(2) show ?thesis by (auto simp: fr pick_queue_def)
    next
      case d: (Cons j js)
      have n: "mr_step (g_recv_mem g i) \<noteq> mr_step (g_recv_mem g j)"
        using dist hx Cons d by (simp add: mr_view_def)
      show ?thesis
      proof (cases "mr_step (g_recv_mem g i) < mr_step (g_recv_mem g j)")
        case True
        then have "step_merge xs ys = hd xs # step_merge (tl xs) ys"
          using hx Cons d by (simp add: mr_view_def)
        with recv [OF Cons] Cons d True show ?thesis by (auto simp: fr pick_queue_def)
      next
        case False
        then have "step_merge xs ys = hd ys # step_merge xs (tl ys)"
          using hx Cons d by (simp add: mr_view_def)
        with disc [OF d] Cons d False n show ?thesis by (auto simp: fr pick_queue_def)
      qed
    qed
  qed
qed

lemma handle_io_merges:
  assumes "lua_ok h" "gate_ok held held' g"
  shows "\<exists>ds g' l'. handle_io h (g, l) = Some (ds, g', l') \<and> gate_ok held held' g' \<and>
    map fst ds = step_merge (queue_view (g_recv_mem g) (g_q_recv g)) (queue_view (g_recv_mem g) (g_q_disconnect g)) \<and>
    mq_content (g_q_recv g') = [] \<and> mq_content (g_q_disconnect g') = []"
  using assms(2)
proof (induction "step_merge (queue_view (g_recv_mem g) (g_q_recv g)) (queue_view (g_recv_mem g) (g_q_disconnect g))"
    arbitrary: g l)
  case Nil
  then have "set (step_merge (queue_view (g_recv_mem g) (g_q_recv g)) (queue_view (g_recv_mem g) (g_q_disconnect g))) = {}"
    by simp
  then have e: "queue_view (g_recv_mem g) (g_q_recv g) = []" "queue_view (g_recv_mem g) (g_q_disconnect g) = []"
    unfolding set_step_merge by simp_all
  from io_turn(1) [OF Nil.prems this] have "handle_io h (g, l) = Some ([], g, l)"
    by (subst handle_io.simps) (simp add: Let_def split_beta)
  then show ?case using Nil e by (auto simp: queue_view_def)
next
  case (Cons v vs)
  then have ne: "queue_view (g_recv_mem g) (g_q_recv g) \<noteq> [] \<or> queue_view (g_recv_mem g) (g_q_disconnect g) \<noteq> []"
    by auto
  from io_turn(2) [OF Cons.prems this] obtain i g1 where t:
    "pick_queue (fst (io_fronts g)) (snd (io_fronts g)) \<noteq> Pick_none"
    "io_take (pick_queue (fst (io_fronts g)) (snd (io_fronts g))) g = (Some i, g1)"
    "gate_ok (add_mset i held) held' g1"
    "step_merge (queue_view (g_recv_mem g) (g_q_recv g)) (queue_view (g_recv_mem g) (g_q_disconnect g)) =
      mr_view (g_recv_mem g1 i) #
      step_merge (queue_view (g_recv_mem g1) (g_q_recv g1)) (queue_view (g_recv_mem g1) (g_q_disconnect g1))" by blast
  obtain e g2 l2 where c: "io_call h i (g1, l) = (e, g2, l2)" by (cases "io_call h i (g1, l)") auto
  note k = io_call_keeps [OF assms(1) t(3) c]
  have "vs = step_merge (queue_view (g_recv_mem g2) (g_q_recv g2)) (queue_view (g_recv_mem g2) (g_q_disconnect g2))"
    using Cons.hyps(2) t(4) k(2,3) by simp
  from Cons.hyps(1) [OF this k(1), of l2] obtain ds g' l' where r: "handle_io h (g2, l2) = Some (ds, g', l')"
    "gate_ok held held' g'" "map fst ds = vs" "mq_content (g_q_recv g') = []" "mq_content (g_q_disconnect g') = []"
    using \<open>vs = _\<close> by auto
  have "handle_io h (g, l) = Some ((mr_view (g_recv_mem g1 i), e) # ds, g', l')"
    using t(1,2) c r(1) by (subst handle_io.simps) (simp add: Let_def split_beta)
  then show ?case using r t(4) Cons.hyps(2) by auto
qed

section \<open>Properties\<close>

text \<open>
  C2. Between the gate and Lua no message is lost and none overtakes another: from
  every state of the gate that satisfies its invariant, \<open>handle_io\<close> ends, has called
  the handler once for each message of the two queues, packets and disconnects, in
  the order in which the gate queued them, and has given all of them back, whatever
  the handler returns.
\<close>

theorem handle_io_in_order:
  assumes "lua_ok h" "gate_ok held held' g"
  shows "\<exists>ds g' l'. handle_io h (g, l) = Some (ds, g', l') \<and> gate_ok held held' g' \<and>
    mset (map fst ds) = mset (queue_view (g_recv_mem g) (g_q_recv g) @ queue_view (g_recv_mem g) (g_q_disconnect g)) \<and>
    sorted (map fst (map fst ds)) \<and> mq_content (g_q_recv g') = [] \<and> mq_content (g_q_disconnect g') = []"
proof -
  from handle_io_merges [OF assms] obtain ds g' l' where r: "handle_io h (g, l) = Some (ds, g', l')" "gate_ok held held' g'"
    "map fst ds = step_merge (queue_view (g_recv_mem g) (g_q_recv g)) (queue_view (g_recv_mem g) (g_q_disconnect g))"
    "mq_content (g_q_recv g') = []" "mq_content (g_q_disconnect g') = []" by blast
  have "steps_ok (g_step g) (queue_view (g_recv_mem g) (g_q_recv g)) (queue_view (g_recv_mem g) (g_q_disconnect g))"
    using gate_ok_inbox [OF assms(2)] by (simp add: inbox_ok_def)
  then have "sorted (map fst (map fst ds))"
    unfolding r(3) by (intro sorted_step_merge) (auto simp: steps_ok_def)
  with r show ?thesis by (intro exI [of _ ds] exI [of _ g'] exI [of _ l']) simp
qed

text \<open>A handler that only records the ids it is called with.\<close>

definition recording_handler :: "int list handler" where
  "recording_handler i s = (None, fst s, snd s @ [mr_id (g_recv_mem (fst s) i)])"

lemma recording_handler_ok: "lua_ok recording_handler"
  by (auto simp: lua_ok_def recording_handler_def)

theorem handle_io_in_order_witness:
  "\<exists>g ds g' l'. io_cb_event 7 0x10 (sample_gate []) = Some g \<and>
    handle_io recording_handler (g, []) = Some (ds, g', l') \<and> map (fst \<circ> snd \<circ> snd \<circ> fst) ds = [99]"
proof -
  define b where "b = \<lparr>bv_fd = 5, bv_in = [], bv_out = []\<rparr>"
  have b: "g_bevs (sample_gate []) 7 = Some b" by (simp add: sample_gate_simps b_def)
  have na: "mp_avail (g_recv_pool (sample_gate [])) \<noteq> {}"
    by (simp add: sample_gate_simps mp_avail_init lessThan_empty_iff)
  from io_close_connect_spec [OF sample_gate_ok b, of "if bit (0x10 :: int) 6 then 2 else 1" "0x10"] na obtain g where
    g: "io_cb_event 7 0x10 (sample_gate []) = Some g" "gate_ok {#} {#} g"
    "queue_view (g_recv_mem g) (g_q_recv g) = []"
    "queue_view (g_recv_mem g) (g_q_disconnect g) =
      [disconnect_view (bv_fd b) (if bit (0x10 :: int) 6 then 2 else 1) 16 (sample_gate [])]"
    by (auto simp: io_cb_event_def sample_gate_simps queue_view_def)
  from handle_io_in_order [OF recording_handler_ok g(2), of "[]"] obtain ds g' l' where
    d: "handle_io recording_handler (g, []) = Some (ds, g', l')"
    "mset (map fst ds) = {#disconnect_view (bv_fd b) (if bit (0x10 :: int) 6 then 2 else 1) 16 (sample_gate [])#}"
    unfolding g(3,4) by auto
  then have "map fst ds = [disconnect_view (bv_fd b) (if bit (0x10 :: int) 6 then 2 else 1) 16 (sample_gate [])]"
    by (metis mset_single_iff_right)
  then have "map (fst \<circ> snd \<circ> snd \<circ> fst) ds = [99]"
    by (cases ds) (auto simp: disconnect_view_def sample_gate_simps)
  with g(1) d(1) show ?thesis by (intro exI conjI)
qed

text \<open>
  The two threads run concurrently, and \<open>handle_io\<close> looks at the queue of packets
  first and at the queue of disconnects second. When in between a client's last
  packets arrive and it disconnects, the disconnect is taken although packets with
  smaller steps wait in the other queue: Lua hears of the end of the connection
  before its last packets.
\<close>

theorem handle_io_overtakes:
  assumes "gate_ok held held' g" "mq_content (g_q_recv g) = []"
    "g_bevs g be = Some b" "0 \<le> bv_fd b" "bv_fd b < 32768"
    "ft_be (g_table g) (bv_fd b) = Some be" "bv_in b = concat (map pkt_frame ps)"
    "\<forall>p \<in> set ps. pkt_ok p" "pkt_accept now (bv_fd b) ps (g_pk g) = (q # qs, pk)"
    "length ps < card (mp_avail (g_recv_pool g))" "mq_content (g_q_disconnect g) = []" "g_websocket g (bv_fd b) \<noteq> 0"
  shows "\<exists>g1 g2 i. io_cb_read sha0 now be g = Some g1 \<and> io_cb_event be what g1 = Some g2 \<and>
    pick_queue (fst (io_fronts g)) (snd (io_fronts g2)) = Pick_disconnect \<and>
    mq_getfront (g_q_recv g2) = Some i \<and>
    (\<exists>j g3. io_take Pick_disconnect g2 = (Some j, g3) \<and> mr_step (g_recv_mem g2 i) < mr_step (g_recv_mem g2 j))"
proof -
  have f: "ft_be (g_table g) (bv_fd b) \<noteq> None" "bv_in b = concat (map pkt_frame ps) @ []"
    "length ps \<le> card (mp_avail (g_recv_pool g))" using assms(6,7,10) by simp_all
  have "io_cb_read sha0 now be g = io_packets now be (bv_fd b) g"
    using assms(3-5,12) by (simp add: io_cb_read_def)
  with io_packets_deliver [OF assms(1,3) f(2) assms(8) pkt_partial_Nil assms(4,5) f(1,3) assms(9)] obtain g1 where
    g1: "io_cb_read sha0 now be g = Some g1" "gate_ok held held' g1" "g_bevs g1 be = Some (b\<lparr>bv_in := []\<rparr>)"
    "queue_view (g_recv_mem g1) (g_q_disconnect g1) = []"
    "queue_view (g_recv_mem g1) (g_q_recv g1) = pkt_views (g_step g) (bv_fd b) (q # qs)"
    "card (mp_avail (g_recv_pool g)) = card (mp_avail (g_recv_pool g1)) + length (q # qs)"
    using assms(2,11) by (auto simp: queue_view_def)
  have na: "mp_avail (g_recv_pool g1) \<noteq> {}"
    using g1(6) assms(10) pkt_accept_length [OF assms(9)] by auto
  from io_close_connect_spec [OF g1(2,3), of "if bit what 6 then 2 else 1" what] na obtain g2 where
    g2: "io_cb_event be what g1 = Some g2" "gate_ok held held' g2"
    "queue_view (g_recv_mem g2) (g_q_recv g2) = queue_view (g_recv_mem g1) (g_q_recv g1)"
    "queue_view (g_recv_mem g2) (g_q_disconnect g2) =
      [disconnect_view (bv_fd b) (if bit what 6 then 2 else 1) what g1]"
    using g1(4) by (auto simp: io_cb_event_def)
  have q: "mq_ok (g_q_recv g)" "mq_ok (g_q_recv g2)" "mq_ok (g_q_disconnect g2)"
    using gate_ok_inbox [OF assms(1)] gate_ok_inbox [OF g2(2)] by (auto simp: inbox_ok_def)
  obtain j where j: "mq_content (g_q_disconnect g2) = [j]" "mr_step (g_recv_mem g2 j) = g_step g1 + 1"
    using g2(4) by (auto simp: queue_view_def disconnect_view_def mr_view_def)
  have "queue_view (g_recv_mem g2) (g_q_recv g2) \<noteq> []" unfolding g2(3) g1(5) by (cases q) simp
  then obtain i "is" where i: "mq_content (g_q_recv g2) = i # is"
    by (cases "mq_content (g_q_recv g2)") (auto simp: queue_view_def)
  have "mr_view (g_recv_mem g2 i) \<in> set (queue_view (g_recv_mem g2) (g_q_recv g2))" using i by (simp add: queue_view_def)
  then have "mr_view (g_recv_mem g2 i) \<in> set (queue_view (g_recv_mem g1) (g_q_recv g1))" by (simp add: g2(3))
  then have "fst (mr_view (g_recv_mem g2 i)) \<le> g_step g1"
    using gate_ok_inbox [OF g1(2)] by (simp add: inbox_ok_def steps_ok_def)
  then have lt: "mr_step (g_recv_mem g2 i) < mr_step (g_recv_mem g2 j)" using j(2) by (simp add: mr_view_def)
  have "fst (io_fronts g) = None" "snd (io_fronts g2) = Some (g_recv_mem g2 j)"
    using assms(2) j(1) by (simp_all add: io_fronts_def mq.peek_front [OF q(1)] mq.peek_front [OF q(3)])
  then have p: "pick_queue (fst (io_fronts g)) (snd (io_fronts g2)) = Pick_disconnect" by (simp add: pick_queue_def)
  have fr: "mq_getfront (g_q_recv g2) = Some i" using i by (simp add: mq.peek_front [OF q(2)])
  from mq.pop_front [OF q(3) j(1)] obtain q' where "mq_pop (g_q_disconnect g2) = (Some j, q')" by blast
  then have "\<exists>g3. io_take Pick_disconnect g2 = (Some j, g3)" by (simp add: io_take_def)
  then show ?thesis using g1(1) g2(1) p fr lt by blast
qed

theorem handle_io_overtakes_witness:
  "\<exists>g1 g2 i j g3. io_cb_read sha1_zero 5000 7 (sample_gate (pkt_frame ([1, 2, 3, 4], 12, [65, 66]))) = Some g1 \<and>
    io_cb_event 7 0x10 g1 = Some g2 \<and>
    pick_queue (fst (io_fronts (sample_gate (pkt_frame ([1, 2, 3, 4], 12, [65, 66]))))) (snd (io_fronts g2)) = Pick_disconnect \<and>
    mq_getfront (g_q_recv g2) = Some i \<and> io_take Pick_disconnect g2 = (Some j, g3) \<and>
    mr_step (g_recv_mem g2 i) < mr_step (g_recv_mem g2 j)"
proof -
  let ?ps = "[([1, 2, 3, 4], 12, [65, 66])] :: packet list"
  define inp where "inp = concat (map pkt_frame ?ps)"
  define b where "b = \<lparr>bv_fd = 5, bv_in = inp, bv_out = []\<rparr>"
  let ?g = "sample_gate inp"
  obtain pk where acc: "pkt_accept 5000 5 ?ps (pk_fresh (\<lambda>_. 2) (\<lambda>_. 1000)) = ([([1, 2, 3, 4], 12, [65, 66])], pk)"
    by (simp add: check_pk_limit_def pk_fresh_def pk_set2_def Let_def)
  have c: "mq_content (g_q_recv ?g) = []" "g_bevs ?g 7 = Some b" "0 \<le> bv_fd b" "bv_fd b < 32768"
    "ft_be (g_table ?g) (bv_fd b) = Some 7" "bv_in b = concat (map pkt_frame ?ps)" "\<forall>p \<in> set ?ps. pkt_ok p"
    "pkt_accept 5000 (bv_fd b) ?ps (g_pk ?g) = (([1, 2, 3, 4], 12, [65, 66]) # [], pk)"
    "length ?ps < card (mp_avail (g_recv_pool ?g))" "mq_content (g_q_disconnect ?g) = []" "g_websocket ?g (bv_fd b) \<noteq> 0"
    using acc by (simp_all add: sample_gate_simps b_def inp_def mp_avail_init)
  have "pkt_frame ([1, 2, 3, 4], 12, [65, 66]) = inp" by (simp add: inp_def)
  then show ?thesis using handle_io_overtakes [OF sample_gate_ok c, of sha1_zero "0x10"] by auto
qed

end
