(* ===== verification/ThreadAdmin.thy ===== *)
theory ThreadAdmin
  imports Channel Bufferevent MsgStruct
begin

text \<open>
  The back office: \<open>common/thread_admin.h\<close> accepts the connections, cuts their input
  into requests (a length in host order and that many bytes) and writes the
  responses; \<open>thread_logic::handle_admin\<close> calls the Lua function \<open>handlerAdmin\<close> for each
  request and queues what it returns. The handler is a parameter: it gets the
  descriptor, the request and the Lua state, and gives the response (\<open>Inr None\<close> when it
  returns no string) or the error that \<open>pcall\<close> reports.
\<close>

section \<open>The state\<close>

record admin =
  ad_table :: "nat fd_table"
  ad_bevs :: bevs
  ad_recv_pool :: msg_pool
  ad_recv_mem :: "nat \<Rightarrow> msg_admin"
  ad_q_recv :: "nat msg_queue"
  ad_send_pool :: msg_pool
  ad_send_mem :: "nat \<Rightarrow> msg_admin"
  ad_q_send :: "nat msg_queue"
  ad_log :: "bytes list"

section \<open>thread_admin\<close>

definition admin_close_connect :: "nat \<Rightarrow> admin \<Rightarrow> admin option" where
  "admin_close_connect be s = do {
     b \<leftarrow> ad_bevs s be;
     bevs \<leftarrow> bufferevent_free be (ad_bevs s);
     Some (s\<lparr>ad_table := snd (admin_fd_del (bv_fd b) (ad_table s)), ad_bevs := bevs\<rparr>)
   }"

definition admin_cb_event :: "nat \<Rightarrow> admin \<Rightarrow> admin option" where
  "admin_cb_event be s = admin_close_connect be s"

definition admin_cb_listener :: "nat option \<Rightarrow> int \<Rightarrow> admin \<Rightarrow> admin" where
  "admin_cb_listener nb fd s =
     (case nb of None \<Rightarrow> s
      | Some be \<Rightarrow>
          let s1 = s\<lparr>ad_bevs := bufferevent_socket_new be fd (ad_bevs s)\<rparr>
          in s1\<lparr>ad_table := snd (admin_fd_add fd be (ad_table s1))\<rparr>)"

text \<open>One turn of the loop of \<open>cb_read\<close>, with at least four bytes in the input.\<close>

definition admin_packet :: "nat \<Rightarrow> admin \<Rightarrow> (bool \<times> admin) option" where
  "admin_packet be s = do {
     b \<leftarrow> ad_bevs s be;
     case mp_alloc (ad_recv_pool s) of
       (None, p) \<Rightarrow> Some (False, s\<lparr>ad_recv_pool := p\<rparr>)
     | (Some m, p) \<Rightarrow>
         let inp = bv_in b; len = s32 (le_val (take 4 inp)); msg = (ad_recv_mem s m)\<lparr>ma_buf_len := len\<rparr>;
             s1 = s\<lparr>ad_recv_pool := p, ad_recv_mem := (ad_recv_mem s)(m := msg)\<rparr>;
             release = (\<lambda>t. t\<lparr>ad_recv_pool := snd (mp_free m (ad_recv_pool t))\<rparr>) in
         if \<not> (0 \<le> len \<and> len \<le> 524288) then
           map_option (\<lambda>t. (False, release t)) (admin_close_connect be s1)
         else if int (length inp) < len + 4 then Some (False, release s1)
         else do {
           buf \<leftarrow> store_block (ma_buf msg) 0 (take (nat len) (drop 4 inp));
           bevs \<leftarrow> bufferevent_set_input be (drop (nat len) (drop 4 inp)) (ad_bevs s1);
           Some (True, s1\<lparr>ad_bevs := bevs, ad_recv_mem := (ad_recv_mem s1)(m := msg\<lparr>ma_buf := buf, ma_fd := s16 (bv_fd b)\<rparr>),
             ad_q_recv := snd (mq_push (Some m) (ad_q_recv s1))\<rparr>)
         }
   }"

partial_function (option) admin_cb_read :: "nat \<Rightarrow> admin \<Rightarrow> admin option" where
  "admin_cb_read be s = do {
     b \<leftarrow> ad_bevs s be;
     if 4 \<le> length (bv_in b) then do {
       (go, s1) \<leftarrow> admin_packet be s;
       if go then admin_cb_read be s1 else Some s1
     } else Some s
   }"

partial_function (option) admin_cb_time :: "admin \<Rightarrow> admin option" where
  "admin_cb_time s =
     (case mq_pop (ad_q_send s) of
        (None, q) \<Rightarrow> Some (s\<lparr>ad_q_send := q\<rparr>)
      | (Some i, q) \<Rightarrow>
          let s1 = s\<lparr>ad_q_send := q\<rparr>; m = ad_send_mem s i;
              release = (\<lambda>t. t\<lparr>ad_send_pool := snd (mp_free i (ad_send_pool t))\<rparr>)
          in if \<not> (0 \<le> ma_fd m \<and> ma_fd m < fd_max) then Some (release s1)
             else case ft_be (ad_table s1) (ma_fd m) of
               None \<Rightarrow> Some (release s1)
             | Some be \<Rightarrow> do {
                 bs1 \<leftarrow> bufferevent_write be (le_bytes 4 (ma_buf_len m)) (ad_bevs s1);
                 d \<leftarrow> (if ma_buf_len m \<noteq> 0 then iload_block (ma_buf m) 0 (ma_buf_len m) else Some []);
                 bs2 \<leftarrow> bufferevent_write be d bs1;
                 admin_cb_time (release (s1\<lparr>ad_bevs := bs2\<rparr>))
               })"

section \<open>handle_admin\<close>

type_synonym 'l admin_handler = "int \<Rightarrow> bytes \<Rightarrow> 'l \<Rightarrow> (bytes + bytes option) \<times> 'l"

text \<open>What is done with the string \<open>p\<close>; a full pool is logged.\<close>

definition admin_respond :: "int \<Rightarrow> bytes \<Rightarrow> admin \<Rightarrow> admin option" where
  "admin_respond fd p s =
     (case mp_alloc (ad_send_pool s) of
        (None, q) \<Rightarrow> Some (s\<lparr>ad_send_pool := q,
          ad_log := ad_log s @ [map of_char ''q_send_admin getback full'']\<rparr>)
      | (Some m, q) \<Rightarrow> do {
          msg \<leftarrow> ma_write_string p (s32 (int (length p))) ((ad_send_mem s m)\<lparr>ma_buf_len := 0, ma_fd := fd\<rparr>);
          Some (s\<lparr>ad_send_pool := q, ad_send_mem := (ad_send_mem s)(m := msg),
            ad_q_send := snd (mq_push (Some m) (ad_q_send s))\<rparr>)
        })"

definition admin_answer :: "'l admin_handler \<Rightarrow> nat \<Rightarrow> admin \<times> 'l \<Rightarrow> (admin \<times> 'l) option" where
  "admin_answer h i st = do {
     let (s, l) = st; m = ad_recv_mem s i; fd = ma_fd m in do {
       req \<leftarrow> iload_block (ma_buf m) 0 (ma_buf_len m);
       let (r, l1) = h fd req l;
           s1 = (case r of Inl e \<Rightarrow> s\<lparr>ad_log := ad_log s @ [e]\<rparr> | Inr _ \<Rightarrow> s);
           s2 = s1\<lparr>ad_recv_pool := snd (mp_free i (ad_recv_pool s1))\<rparr> in
       case r of
         Inr (Some p) \<Rightarrow> map_option (\<lambda>t. (t, l1)) (admin_respond fd p s2)
       | _ \<Rightarrow> Some (s2, l1)
     }
   }"

partial_function (option) handle_admin :: "'l admin_handler \<Rightarrow> admin \<times> 'l \<Rightarrow> (admin \<times> 'l) option" where
  "handle_admin h st =
     (case mq_pop (ad_q_recv (fst st)) of
        (None, q) \<Rightarrow> Some ((fst st)\<lparr>ad_q_recv := q\<rparr>, snd st)
      | (Some i, q) \<Rightarrow> do {
          st1 \<leftarrow> admin_answer h i ((fst st)\<lparr>ad_q_recv := q\<rparr>, snd st);
          handle_admin h st1
        })"

section \<open>The invariant\<close>

definition ma_full :: "msg_admin \<Rightarrow> bool" where
  "ma_full m \<longleftrightarrow> length (ma_buf m) = 524288"

definition admin_ok :: "admin \<Rightarrow> bool" where
  "admin_ok s \<longleftrightarrow> conn_ok (ad_table s) (ad_bevs s) \<and>
     mbox_ok ma_full (ad_recv_pool s) (ad_recv_mem s) (ad_q_recv s) {#} \<and>
     mbox_ok ma_full (ad_send_pool s) (ad_send_mem s) (ad_q_send s) {#} \<and>
     (\<forall>m \<in> set (mbox_view (ad_recv_mem s) (ad_q_recv s)) \<union> set (mbox_view (ad_send_mem s) (ad_q_send s)).
        0 \<le> ma_buf_len m \<and> ma_buf_len m \<le> 524288)"

text \<open>What a queued message says: the descriptor and the bytes.\<close>

definition ma_view :: "msg_admin \<Rightarrow> int \<times> bytes" where
  "ma_view m = (ma_fd m, take (nat (ma_buf_len m)) (ma_buf m))"

abbreviation requests :: "admin \<Rightarrow> (int \<times> bytes) list" where
  "requests s \<equiv> map ma_view (mbox_view (ad_recv_mem s) (ad_q_recv s))"

abbreviation responses :: "admin \<Rightarrow> (int \<times> bytes) list" where
  "responses s \<equiv> map ma_view (mbox_view (ad_send_mem s) (ad_q_send s))"

section \<open>Reading\<close>

definition admin_frame :: "bytes \<Rightarrow> bytes" where
  "admin_frame r = le_bytes 4 (int (length r)) @ r"

lemma le_bytes_val: "0 \<le> n \<Longrightarrow> n < 2147483648 \<Longrightarrow> s32 (le_val (le_bytes 4 n)) = n"
  using s32_le_bytes [of n] by simp

lemma admin_packet_frame:
  assumes "admin_ok s" "ad_bevs s be = Some b" "bv_in b = admin_frame r @ rest" "length r \<le> 524288"
    "mp_avail (ad_recv_pool s) \<noteq> {}"
  shows "\<exists>s'. admin_packet be s = Some (True, s') \<and> admin_ok s' \<and> ad_bevs s' = (ad_bevs s)(be \<mapsto> b\<lparr>bv_in := rest\<rparr>) \<and>
    ad_table s' = ad_table s \<and> ad_send_pool s' = ad_send_pool s \<and> ad_send_mem s' = ad_send_mem s \<and> ad_q_send s' = ad_q_send s \<and>
    requests s' = requests s @ [(s16 (bv_fd b), r)] \<and> card (mp_avail (ad_recv_pool s)) = Suc (card (mp_avail (ad_recv_pool s')))"
proof -
  have box: "mbox_ok ma_full (ad_recv_pool s) (ad_recv_mem s) (ad_q_recv s) {#}" using assms(1) by (simp add: admin_ok_def)
  from mbox_alloc_some [OF box assms(5)] obtain m p where al: "mp_alloc (ad_recv_pool s) = (Some m, p)" by blast
  note a = mbox_alloc [OF box al]
  have full: "length (ma_buf (ad_recv_mem s m)) = 524288" using box by (simp add: mbox_ok_def ma_full_def)
  define msg where "msg = (ad_recv_mem s m)\<lparr>ma_buf_len := int (length r)\<rparr>"
  define msg2 where "msg2 = msg\<lparr>ma_buf := blit (ma_buf msg) 0 r, ma_fd := s16 (bv_fd b)\<rparr>"
  have P: "ma_full msg" "ma_full msg2" using full assms(4) by (auto simp: msg_def msg2_def ma_full_def)
  note s1 = mbox_store [OF a(1) P(1)]
  note s2 = mbox_store [OF s1(1) P(2)]
  from mbox_push [OF s2(1)] obtain q where q: "mq_push (Some m) (ad_q_recv s) = (True, q)"
    "mbox_ok ma_full p ((ad_recv_mem s)(m := msg, m := msg2)) q {#}"
    "mbox_view ((ad_recv_mem s)(m := msg, m := msg2)) q = mbox_view ((ad_recv_mem s)(m := msg, m := msg2)) (ad_q_recv s) @ [msg2]"
    by auto
  have v: "ma_view msg2 = (s16 (bv_fd b), r)" "ma_buf_len msg2 = int (length r)"
    using full by (simp_all add: ma_view_def msg2_def msg_def blit_def)
  have hd: "take 4 (bv_in b) = le_bytes 4 (int (length r))" "drop 4 (bv_in b) = r @ rest" "length (bv_in b) = length r + 4 + length rest"
    using assms(3) by (simp_all add: admin_frame_def)
  have len: "s32 (le_val (le_bytes 4 (int (length r)))) = int (length r)" using assms(4) by (intro le_bytes_val) auto
  have "admin_packet be s = Some (True, s\<lparr>ad_recv_pool := p, ad_recv_mem := (ad_recv_mem s)(m := msg, m := msg2),
      ad_bevs := (ad_bevs s)(be \<mapsto> b\<lparr>bv_in := rest\<rparr>), ad_q_recv := q\<rparr>)"
    using assms(2,4) al hd len full q(1)
    by (simp add: admin_packet_def Let_def bufferevent_set_input_def store_block_def msg_def msg2_def)
  then show ?thesis
    using assms(1,4) q(2,3) s1(2) s2(2) v a(2) conn_ok_same [of "ad_table s" "ad_bevs s" be b "b\<lparr>bv_in := rest\<rparr>"] assms(2)
    by (simp add: admin_ok_def)
qed

definition admin_partial :: "bytes \<Rightarrow> bool" where
  "admin_partial rest \<longleftrightarrow> (\<exists>r j. length r \<le> 524288 \<and> j < length (admin_frame r) \<and> rest = take j (admin_frame r))"

lemma admin_read_wait:
  assumes "admin_ok s" "ad_bevs s be = Some b" "admin_partial (bv_in b)" 
  shows "\<exists>s'. admin_cb_read be s = Some s' \<and> admin_ok s' \<and> ad_bevs s' = ad_bevs s \<and> ad_table s' = ad_table s \<and>
    ad_send_pool s' = ad_send_pool s \<and> ad_send_mem s' = ad_send_mem s \<and> ad_q_send s' = ad_q_send s \<and> requests s' = requests s"
proof (cases "4 \<le> length (bv_in b)")
  case False
  then have "admin_cb_read be s = Some s" using assms(2) by (subst admin_cb_read.simps) simp
  then show ?thesis using assms(1) by simp
next
  case True
  from assms(3) obtain r j where r: "length r \<le> 524288" "j < length (admin_frame r)" "bv_in b = take j (admin_frame r)"
    unfolding admin_partial_def by blast
  then have r2: "j < length r + 4" by (simp add: admin_frame_def)
  then have j: "4 \<le> j" "length (bv_in b) = j" using True r(3) by (auto simp: admin_frame_def)
  then have hd: "take 4 (bv_in b) = le_bytes 4 (int (length r))" using r(3) by (simp add: admin_frame_def)
  have len: "s32 (le_val (le_bytes 4 (int (length r)))) = int (length r)" using r(1) by (intro le_bytes_val) auto
  have box: "mbox_ok ma_full (ad_recv_pool s) (ad_recv_mem s) (ad_q_recv s) {#}" using assms(1) by (simp add: admin_ok_def)
  show ?thesis
  proof (cases "mp_alloc (ad_recv_pool s)")
    case (Pair x p)
    show ?thesis
    proof (cases x)
      case None
      with Pair mbox_alloc_none [OF box] have "s\<lparr>ad_recv_pool := p\<rparr> = s" by auto
      then have "admin_cb_read be s = Some s"
        using True assms(2) Pair None by (subst admin_cb_read.simps) (simp add: admin_packet_def)
      then show ?thesis using assms(1) by simp
    next
      case (Some m)
      then have al: "mp_alloc (ad_recv_pool s) = (Some m, p)" using Pair by simp
      note a = mbox_alloc [OF box al]
      define msg where "msg = (ad_recv_mem s m)\<lparr>ma_buf_len := int (length r)\<rparr>"
      have "ma_full msg" using box by (simp add: msg_def mbox_ok_def ma_full_def)
      note st = mbox_store [OF a(1) this]
      from mbox_free [OF st(1)] obtain p' where p': "mp_free m p = (True, p')"
        "mbox_ok ma_full p' ((ad_recv_mem s)(m := msg)) (ad_q_recv s) {#}" by blast
      have "admin_packet be s = Some (False, s\<lparr>ad_recv_mem := (ad_recv_mem s)(m := msg), ad_recv_pool := p'\<rparr>)"
        using assms(2) al hd len r(1) r2 j p'(1) by (auto simp: admin_packet_def Let_def msg_def)
      then have "admin_cb_read be s = Some (s\<lparr>ad_recv_mem := (ad_recv_mem s)(m := msg), ad_recv_pool := p'\<rparr>)"
        using True assms(2) by (subst admin_cb_read.simps) simp
      then show ?thesis using assms(1) p'(2) st(2) by (simp add: admin_ok_def)
    qed
  qed
qed

lemma admin_read_all:
  assumes "admin_ok s" "ad_bevs s be = Some b" "bv_in b = concat (map admin_frame rs) @ rest"
    "\<forall>r \<in> set rs. length r \<le> 524288" "admin_partial rest" "length rs \<le> card (mp_avail (ad_recv_pool s))"
  shows "\<exists>s'. admin_cb_read be s = Some s' \<and> admin_ok s' \<and> ad_bevs s' = (ad_bevs s)(be \<mapsto> b\<lparr>bv_in := rest\<rparr>) \<and>
    ad_table s' = ad_table s \<and> ad_send_pool s' = ad_send_pool s \<and> ad_send_mem s' = ad_send_mem s \<and> ad_q_send s' = ad_q_send s \<and>
    requests s' = requests s @ map (Pair (s16 (bv_fd b))) rs"
  using assms(1-4,6)
proof (induction rs arbitrary: s b)
  case Nil
  then have r: "bv_in b = rest" by simp
  then have "admin_partial (bv_in b)" using assms(5) by simp
  from admin_read_wait [OF Nil.prems(1,2) this]
  obtain s' where "admin_cb_read be s = Some s'" "admin_ok s'" "ad_bevs s' = ad_bevs s" "ad_table s' = ad_table s"
    "ad_send_pool s' = ad_send_pool s" "ad_send_mem s' = ad_send_mem s" "ad_q_send s' = ad_q_send s" "requests s' = requests s" by blast
  moreover have "(ad_bevs s)(be \<mapsto> b\<lparr>bv_in := rest\<rparr>) = ad_bevs s" using Nil.prems(2) r by auto
  ultimately show ?case by simp
next
  case (Cons r rs)
  have i: "bv_in b = admin_frame r @ concat (map admin_frame rs) @ rest" "length r \<le> 524288"
    "mp_avail (ad_recv_pool s) \<noteq> {}" using Cons.prems(3,4,5) by auto
  from admin_packet_frame [OF Cons.prems(1,2) i] obtain t where t: "admin_packet be s = Some (True, t)" "admin_ok t"
    "ad_bevs t = (ad_bevs s)(be \<mapsto> b\<lparr>bv_in := concat (map admin_frame rs) @ rest\<rparr>)" "ad_table t = ad_table s"
    "ad_send_pool t = ad_send_pool s" "ad_send_mem t = ad_send_mem s" "ad_q_send t = ad_q_send s"
    "requests t = requests s @ [(s16 (bv_fd b), r)]" "card (mp_avail (ad_recv_pool s)) = Suc (card (mp_avail (ad_recv_pool t)))"
    by blast
  have b1: "ad_bevs t be = Some (b\<lparr>bv_in := concat (map admin_frame rs) @ rest\<rparr>)" using t(3) by simp
  have c: "bv_in (b\<lparr>bv_in := concat (map admin_frame rs) @ rest\<rparr>) = concat (map admin_frame rs) @ rest"
    "\<forall>r \<in> set rs. length r \<le> 524288" "length rs \<le> card (mp_avail (ad_recv_pool t))"
    using Cons.prems(4,5) t(9) by auto
  from Cons.IH [OF t(2) b1 c] obtain s' where s': "admin_cb_read be t = Some s'" "admin_ok s'"
    "ad_bevs s' = (ad_bevs t)(be \<mapsto> b\<lparr>bv_in := rest\<rparr>)" "ad_table s' = ad_table t"
    "ad_send_pool s' = ad_send_pool t" "ad_send_mem s' = ad_send_mem t" "ad_q_send s' = ad_q_send t"
    "requests s' = requests t @ map (Pair (s16 (bv_fd b))) rs" by (auto simp: fun_upd_def)
  have "4 \<le> length (bv_in b)" using i(1) by (simp add: admin_frame_def)
  then have "admin_cb_read be s = Some s'" using Cons.prems(2) t(1) s'(1) by (subst admin_cb_read.simps) simp
  moreover have "ad_bevs s' = (ad_bevs s)(be \<mapsto> b\<lparr>bv_in := rest\<rparr>)" using s'(3) t(3) by simp
  ultimately show ?case using s'(2,4-8) t(4-8) by (intro exI [of _ s'] conjI) simp_all
qed

section \<open>Answering\<close>

text \<open>The specification of \<open>handle_admin\<close>; a response too long for a message becomes empty.\<close>

definition admin_fit :: "bytes \<Rightarrow> bytes" where
  "admin_fit p = (if length p \<le> 524288 then p else [])"

fun admin_replies :: "'l admin_handler \<Rightarrow> (int \<times> bytes) list \<Rightarrow> 'l \<Rightarrow> (int \<times> bytes) list \<times> 'l" where
  "admin_replies h [] l = ([], l)"
| "admin_replies h ((fd, req) # rs) l =
     (let (r, l1) = h fd req l; (out, l2) = admin_replies h rs l1
      in (case r of Inr (Some p) \<Rightarrow> (fd, admin_fit p) # out | _ \<Rightarrow> out, l2))"

definition admin_handler_ok :: "'l admin_handler \<Rightarrow> bool" where
  "admin_handler_ok h \<longleftrightarrow> (\<forall>fd req l p l'. h fd req l = (Inr (Some p), l') \<longrightarrow> length p < 2147483648)"

lemma admin_respond_spec:
  assumes "admin_ok s" "length p < 2147483648" "mp_avail (ad_send_pool s) \<noteq> {}"
  shows "\<exists>s'. admin_respond fd p s = Some s' \<and> admin_ok s' \<and> responses s' = responses s @ [(fd, admin_fit p)] \<and>
    ad_table s' = ad_table s \<and> ad_bevs s' = ad_bevs s \<and> ad_recv_mem s' = ad_recv_mem s \<and> ad_q_recv s' = ad_q_recv s \<and>
    card (mp_avail (ad_send_pool s)) = Suc (card (mp_avail (ad_send_pool s')))"
proof -
  have box: "mbox_ok ma_full (ad_send_pool s) (ad_send_mem s) (ad_q_send s) {#}" using assms(1) by (simp add: admin_ok_def)
  from mbox_alloc_some [OF box assms(3)] obtain m q where al: "mp_alloc (ad_send_pool s) = (Some m, q)" by blast
  note a = mbox_alloc [OF box al]
  define m0 where "m0 = (ad_send_mem s m)\<lparr>ma_buf_len := 0, ma_fd := fd\<rparr>"
  have full: "length (ma_buf m0) = 524288" using box by (simp add: m0_def mbox_ok_def ma_full_def)
  have ok0: "ma_ok m0" "ma_content m0 = []" using full by (simp_all add: ma_ok_def buf_ok_def ma_content_def m0_def)
  have n: "s32 (int (length p)) = int (length p)" using assms(2) by simp
  have "\<exists>msg. ma_write_string p (int (length p)) m0 = Some msg \<and> ma_ok msg \<and> ma_content msg = admin_fit p \<and> ma_fd msg = fd"
  proof (cases "length p \<le> 524288")
    case True
    then have "str_valid p" by (simp add: str_valid_def)
    from ma.put_fits [OF ok0(1) this] True ok0(2) obtain msg where
      w: "ma_write_string p (int (length p)) m0 = Some msg" "ma_ok msg" "ma_content msg = p" by auto
    then have "ma_fd msg = fd"
      by (auto simp: ma_write_string_def m0_def split: if_splits bind_splits dest!: arg_cong [of _ msg ma_fd])
    with w True show ?thesis by (simp add: admin_fit_def)
  next
    case False
    then have "524288 < size_t_of (ma_buf_len m0 + int (length p))" using assms(2) by (simp add: m0_def)
    then have "ma_write_string p (int (length p)) m0 = Some m0" by (simp add: ma_write_string_def)
    with False ok0 show ?thesis by (simp add: admin_fit_def m0_def)
  qed
  then obtain msg where w: "ma_write_string p (int (length p)) m0 = Some msg" "ma_ok msg" "ma_content msg = admin_fit p" "ma_fd msg = fd"
    by blast
  then have f: "ma_full msg" "0 \<le> ma_buf_len msg" "ma_buf_len msg \<le> 524288"
    by (auto simp: ma_full_def ma_ok_def buf_ok_def)
  note st = mbox_store [OF a(1) f(1)]
  from mbox_push [OF st(1)] obtain q' where q': "mq_push (Some m) (ad_q_send s) = (True, q')"
    "mbox_ok ma_full q ((ad_send_mem s)(m := msg)) q' {#}"
    "mbox_view ((ad_send_mem s)(m := msg)) q' = mbox_view (ad_send_mem s) (ad_q_send s) @ [msg]" using st(2) by auto
  have "ma_view msg = (fd, admin_fit p)" using w by (simp add: ma_view_def ma_content_def)
  moreover have "admin_respond fd p s = Some (s\<lparr>ad_send_pool := q, ad_send_mem := (ad_send_mem s)(m := msg), ad_q_send := q'\<rparr>)"
    using al w(1) n q'(1) by (simp add: admin_respond_def m0_def)
  ultimately show ?thesis using assms(1) q'(2,3) f a(2) by (simp add: admin_ok_def)
qed

lemma handle_admin_spec:
  assumes "admin_ok s" "admin_handler_ok h" "requests s = reqs" "length reqs \<le> card (mp_avail (ad_send_pool s))"
  shows "\<exists>s'. handle_admin h (s, l) = Some (s', snd (admin_replies h reqs l)) \<and> admin_ok s' \<and> requests s' = [] \<and>
    responses s' = responses s @ fst (admin_replies h reqs l) \<and> ad_table s' = ad_table s \<and> ad_bevs s' = ad_bevs s"
  using assms(1,3,4)
proof (induction reqs arbitrary: s l)
  case Nil
  then have "mq_pop (ad_q_recv s) = (None, ad_q_recv s)"
    using mbox_empty [of ma_full "ad_recv_pool s" "ad_recv_mem s" "ad_q_recv s"] by (auto simp: admin_ok_def)
  then have "handle_admin h (s, l) = Some (s, l)" by (subst handle_admin.simps) simp
  then show ?case using Nil by simp
next
  case (Cons rq reqs)
  obtain fd req where rq: "rq = (fd, req)" by (cases rq)
  from Cons.prems(2) obtain x xs where x: "mbox_view (ad_recv_mem s) (ad_q_recv s) = x # xs" "ma_view x = rq" "map ma_view xs = reqs"
    by (auto simp: map_eq_Cons_conv)
  have box: "mbox_ok ma_full (ad_recv_pool s) (ad_recv_mem s) (ad_q_recv s) {#}" using Cons.prems(1) by (simp add: admin_ok_def)
  from mbox_pop [OF box x(1)] obtain i q where q: "mq_pop (ad_q_recv s) = (Some i, q)"
    "mbox_ok ma_full (ad_recv_pool s) (ad_recv_mem s) q {#i#}" "ad_recv_mem s i = x" "mbox_view (ad_recv_mem s) q = xs" by blast
  from mbox_free [OF q(2)] obtain p where p: "mp_free i (ad_recv_pool s) = (True, p)"
    "mbox_ok ma_full p (ad_recv_mem s) q {#}" by blast
  have xb: "0 \<le> ma_buf_len x" "ma_buf_len x \<le> 524288" "ma_full x" "ma_fd x = fd" "take (nat (ma_buf_len x)) (ma_buf x) = req"
    using Cons.prems(1) x(1,2) box q(3) rq by (auto simp: admin_ok_def mbox_ok_def ma_view_def)
  then have ld: "iload_block (ma_buf x) 0 (ma_buf_len x) = Some req" by (auto simp: mem_defs ma_full_def block_at_def)
  obtain r l1 where r: "h fd req l = (r, l1)" by fastforce
  define s1 where "s1 = s\<lparr>ad_q_recv := q, ad_recv_pool := p\<rparr>"
  have s1: "admin_ok s1" "requests s1 = reqs" "responses s1 = responses s" "ad_send_pool s1 = ad_send_pool s"
    using Cons.prems(1) p(2) q(4) x by (auto simp: s1_def admin_ok_def)
  have lg: "admin_ok (t\<lparr>ad_log := e\<rparr>) = admin_ok t" for t e by (simp add: admin_ok_def)
  have step: "\<exists>t. admin_answer h i (s\<lparr>ad_q_recv := q\<rparr>, l) = Some (t, l1) \<and> admin_ok t \<and> requests t = reqs \<and>
      responses t = responses s @ (case r of Inr (Some p) \<Rightarrow> [(fd, admin_fit p)] | _ \<Rightarrow> []) \<and>
      ad_table t = ad_table s \<and> ad_bevs t = ad_bevs s \<and> length reqs \<le> card (mp_avail (ad_send_pool t))"
  proof (cases r)
    case (Inl e)
    then have "admin_answer h i (s\<lparr>ad_q_recv := q\<rparr>, l) = Some (s\<lparr>ad_q_recv := q, ad_log := ad_log s @ [e], ad_recv_pool := p\<rparr>, l1)"
      using q(3) xb(4) ld r p(1) by (simp add: admin_answer_def)
    then show ?thesis using s1 Inl Cons.prems(3) by (simp add: s1_def admin_ok_def)
  next
    case (Inr v)
    show ?thesis
    proof (cases v)
      case None
      then have "admin_answer h i (s\<lparr>ad_q_recv := q\<rparr>, l) = Some (s1, l1)"
        using q(3) xb(4) ld r p(1) Inr by (simp add: admin_answer_def s1_def)
      then show ?thesis using s1 Inr None Cons.prems(3) by (simp add: s1_def)
    next
      case (Some w)
      have w: "length w < 2147483648" using assms(2) r Inr Some unfolding admin_handler_ok_def by blast
      have na: "mp_avail (ad_send_pool s1) \<noteq> {}" using s1(4) Cons.prems(3) by auto
      from admin_respond_spec [OF s1(1) w na, of fd] obtain t where t: "admin_respond fd w s1 = Some t" "admin_ok t"
        "responses t = responses s1 @ [(fd, admin_fit w)]" "ad_table t = ad_table s1" "ad_bevs t = ad_bevs s1"
        "ad_recv_mem t = ad_recv_mem s1" "ad_q_recv t = ad_q_recv s1"
        "card (mp_avail (ad_send_pool s1)) = Suc (card (mp_avail (ad_send_pool t)))" by blast
      then have "admin_answer h i (s\<lparr>ad_q_recv := q\<rparr>, l) = Some (t, l1)"
        using q(3) xb(4) ld r p(1) Inr Some by (simp add: admin_answer_def s1_def)
      then show ?thesis using t s1 Inr Some Cons.prems(3) by (simp add: s1_def)
    qed
  qed
  then obtain t where t: "admin_answer h i (s\<lparr>ad_q_recv := q\<rparr>, l) = Some (t, l1)" "admin_ok t" "requests t = reqs"
      "responses t = responses s @ (case r of Inr (Some p) \<Rightarrow> [(fd, admin_fit p)] | _ \<Rightarrow> [])"
      "ad_table t = ad_table s" "ad_bevs t = ad_bevs s" "length reqs \<le> card (mp_avail (ad_send_pool t))" by blast
  from Cons.IH [OF t(2,3,7), of l1] obtain s' where s': "handle_admin h (t, l1) = Some (s', snd (admin_replies h reqs l1))"
    "admin_ok s'" "requests s' = []" "responses s' = responses t @ fst (admin_replies h reqs l1)"
    "ad_table s' = ad_table t" "ad_bevs s' = ad_bevs t" by blast
  have "handle_admin h (s, l) = handle_admin h (t, l1)" using q(1) t(1) by (subst handle_admin.simps) simp
  then show ?case using s' t(4-6) r rq by (auto simp: Let_def split_beta split: sum.splits option.splits)
qed

section \<open>Writing\<close>

lemma admin_cb_time_spec:
  assumes "admin_ok s" "responses s = map (Pair fd) ps" "ft_be (ad_table s) fd = Some be" "ad_bevs s be = Some b"
  shows "\<exists>s'. admin_cb_time s = Some s' \<and> admin_ok s' \<and> responses s' = [] \<and>
    ad_bevs s' = (ad_bevs s)(be \<mapsto> b\<lparr>bv_out := bv_out b @ concat (map admin_frame ps)\<rparr>)"
  using assms
proof (induction ps arbitrary: s b)
  case Nil
  then have "mq_pop (ad_q_send s) = (None, ad_q_send s)"
    using mbox_empty [of ma_full "ad_send_pool s" "ad_send_mem s" "ad_q_send s"] by (auto simp: admin_ok_def)
  then have "admin_cb_time s = Some s" by (subst admin_cb_time.simps) simp
  moreover have "(ad_bevs s)(be \<mapsto> b\<lparr>bv_out := bv_out b @ concat (map admin_frame [])\<rparr>) = ad_bevs s"
    using Nil.prems(4) by auto
  ultimately show ?case using Nil.prems(1,2) by simp
next
  case (Cons p ps)
  from Cons.prems(2) obtain x xs where x: "mbox_view (ad_send_mem s) (ad_q_send s) = x # xs" "ma_view x = (fd, p)"
    "map ma_view xs = map (Pair fd) ps" by (auto simp: map_eq_Cons_conv)
  have box: "mbox_ok ma_full (ad_send_pool s) (ad_send_mem s) (ad_q_send s) {#}" using Cons.prems(1) by (simp add: admin_ok_def)
  from mbox_pop [OF box x(1)] obtain i q where q: "mq_pop (ad_q_send s) = (Some i, q)"
    "mbox_ok ma_full (ad_send_pool s) (ad_send_mem s) q {#i#}" "ad_send_mem s i = x" "mbox_view (ad_send_mem s) q = xs" by blast
  from mbox_free [OF q(2)] obtain pl where pl: "mp_free i (ad_send_pool s) = (True, pl)"
    "mbox_ok ma_full pl (ad_send_mem s) q {#}" by blast
  have xb: "0 \<le> ma_buf_len x" "ma_buf_len x \<le> 524288" "ma_full x" "ma_fd x = fd" "take (nat (ma_buf_len x)) (ma_buf x) = p"
    using Cons.prems(1) x(1,2) box q(3) by (auto simp: admin_ok_def mbox_ok_def ma_view_def)
  then have lp: "ma_buf_len x = int (length p)" by (auto simp: ma_full_def)
  have ld: "(if ma_buf_len x \<noteq> 0 then iload_block (ma_buf x) 0 (ma_buf_len x) else Some []) = Some p"
    using xb by (auto simp: mem_defs ma_full_def block_at_def)
  have v: "0 \<le> fd \<and> fd < fd_max"
    using ft.members_valid [of "ad_table s" fd] Cons.prems(1,3) by (simp add: admin_ok_def conn_ok_def fd_valid_def)
  let ?b = "b\<lparr>bv_out := bv_out b @ admin_frame p\<rparr>"
  let ?t = "s\<lparr>ad_q_send := q, ad_bevs := (ad_bevs s)(be \<mapsto> ?b), ad_send_pool := pl\<rparr>"
  have "conn_ok (ad_table s) ((ad_bevs s)(be \<mapsto> ?b))"
    using conn_ok_same [of "ad_table s" "ad_bevs s" be b ?b] Cons.prems(1,4) by (simp add: admin_ok_def)
  then have t: "admin_ok ?t" "responses ?t = map (Pair fd) ps" "ft_be (ad_table ?t) fd = Some be" "ad_bevs ?t be = Some ?b"
    using Cons.prems(1,3) pl(2) q(4) x by (auto simp: admin_ok_def)
  have "admin_cb_time s = admin_cb_time ?t"
    using q(1,3) pl(1) xb(4) v ld Cons.prems(3,4) lp
    by (subst admin_cb_time.simps) (simp add: Let_def bufferevent_write_def admin_frame_def)
  moreover from Cons.IH [OF t] obtain s' where "admin_cb_time ?t = Some s'" "admin_ok s'" "responses s' = []"
    "ad_bevs s' = (ad_bevs ?t)(be \<mapsto> ?b\<lparr>bv_out := bv_out ?b @ concat (map admin_frame ps)\<rparr>)" by blast
  ultimately show ?case by (intro exI [of _ s'] conjI) simp_all
qed

section \<open>The start\<close>

definition ma_zero :: msg_admin where
  "ma_zero = \<lparr>ma_buf = replicate 524288 0, ma_buf_len = 0, ma_fd = 0\<rparr>"

definition admin_init :: "nat \<Rightarrow> admin" where
  "admin_init n = \<lparr>ad_table = fd_table_zero, ad_bevs = Map.empty,
     ad_recv_pool = mp_init n, ad_recv_mem = (\<lambda>_. ma_zero), ad_q_recv = mq_init (n + 1) False,
     ad_send_pool = mp_init n, ad_send_mem = (\<lambda>_. ma_zero), ad_q_send = mq_init (n + 1) False, ad_log = []\<rparr>"

lemma ma_zero_full: "ma_full ma_zero"
  by (simp add: ma_full_def ma_zero_def)

lemma admin_ok_init: "admin_ok (admin_init n)"
proof -
  have "conn_ok fd_table_zero Map.empty" by (rule conn_okI [OF ft_ok_zero]) (simp add: fd_table_zero_def)
  moreover have "mbox_ok ma_full (mp_init n) (\<lambda>_. ma_zero) (mq_init (n + 1) False) {#}"
    by (rule mbox_init) (simp add: ma_zero_full)
  ultimately show ?thesis by (simp add: admin_ok_def admin_init_def)
qed

definition sample_admin :: "bytes \<Rightarrow> admin" where
  "sample_admin inp = (let s = admin_cb_listener (Some 3) 8 (admin_init 2)
     in s\<lparr>ad_bevs := (ad_bevs s)(3 \<mapsto> \<lparr>bv_fd = 8, bv_in = inp, bv_out = []\<rparr>)\<rparr>)"

lemma sample_admin_simps:
  "ad_bevs (sample_admin inp) 3 = Some \<lparr>bv_fd = 8, bv_in = inp, bv_out = []\<rparr>"
  "ad_recv_pool (sample_admin inp) = mp_init 2" "ad_send_pool (sample_admin inp) = mp_init 2"
  "requests (sample_admin inp) = []" "responses (sample_admin inp) = []"
  by (simp_all add: sample_admin_def admin_cb_listener_def admin_init_def Let_def mbox_view_def)

lemma sample_admin_table: "ft_be (ad_table (sample_admin inp)) 8 = Some 3"
  using ft.add_new [OF ft_ok_zero, of 8 "3 :: nat"]
  by (auto simp: sample_admin_def admin_cb_listener_def admin_init_def Let_def fd_copies fd_valid_def fd_max_def fd_table_zero_def)

lemma sample_admin_ok: "admin_ok (sample_admin inp)"
proof -
  let ?b = "\<lparr>bv_fd = 8, bv_in = [], bv_out = []\<rparr>"
  obtain ok t where t: "fd_add 8 (3 :: nat) fd_table_zero = (ok, t)" by fastforce
  have "conn_ok fd_table_zero Map.empty" using admin_ok_init [of 2] by (simp add: admin_ok_def admin_init_def)
  from conn_ok_add [OF this _ t] have "conn_ok t [3 \<mapsto> ?b]" by simp
  from conn_ok_same [OF this, of 3 ?b "\<lparr>bv_fd = 8, bv_in = inp, bv_out = []\<rparr>"]
  have "conn_ok t [3 \<mapsto> \<lparr>bv_fd = 8, bv_in = inp, bv_out = []\<rparr>]" by simp
  then show ?thesis using admin_ok_init [of 2] t
    by (simp add: admin_ok_def sample_admin_def admin_cb_listener_def admin_init_def Let_def fd_copies bufferevent_socket_new_def)
qed

section \<open>Properties\<close>

lemma admin_replies_fd: "fst (admin_replies h (map (Pair fd) rs) l) = map (Pair fd) (map snd (fst (admin_replies h (map (Pair fd) rs) l)))"
  by (induction rs arbitrary: l) (auto simp: Let_def split_beta split: sum.splits option.splits)

text \<open>
  C8. Requests and responses of the back office, end to end: when a connection has
  sent some requests and part of another, reading, answering and writing once call
  the handler for each request in order and write the responses, each with its
  length in front, to the same connection; the part of the request stays. A response
  that does not fit a message is sent as an empty one.
\<close>

theorem admin_request_response:
  assumes "admin_ok s" "requests s = []" "responses s = []" "admin_handler_ok h"
    "ad_bevs s be = Some b" "ft_be (ad_table s) (bv_fd b) = Some be"
    "bv_in b = concat (map admin_frame rs) @ rest" "\<forall>r \<in> set rs. length r \<le> 524288" "admin_partial rest"
    "length rs \<le> card (mp_avail (ad_recv_pool s))" "length rs \<le> card (mp_avail (ad_send_pool s))"
  shows "\<exists>s1 s2 s3 l'. admin_cb_read be s = Some s1 \<and> handle_admin h (s1, l) = Some (s2, l') \<and> admin_cb_time s2 = Some s3 \<and>
    ad_bevs s3 = (ad_bevs s)(be \<mapsto> b\<lparr>bv_in := rest, bv_out := bv_out b @
      concat (map admin_frame (map snd (fst (admin_replies h (map (Pair (bv_fd b)) rs) l))))\<rparr>)"
proof -
  let ?rq = "map (Pair (bv_fd b)) rs"
  have "fd_valid (bv_fd b)"
    using ft.members_valid [of "ad_table s" "bv_fd b"] assms(1,6) by (simp add: admin_ok_def conn_ok_def)
  then have s16: "s16 (bv_fd b) = bv_fd b" by (simp add: fd_valid_def fd_max_def)
  from admin_read_all [OF assms(1,5,7-10)] obtain s1 where s1: "admin_cb_read be s = Some s1" "admin_ok s1"
    "ad_bevs s1 = (ad_bevs s)(be \<mapsto> b\<lparr>bv_in := rest\<rparr>)" "ad_table s1 = ad_table s" "requests s1 = ?rq"
    "responses s1 = []" "ad_send_pool s1 = ad_send_pool s"
    using assms(2,3) s16 by auto
  have l1: "length ?rq \<le> card (mp_avail (ad_send_pool s1))" using assms(11) s1(7) by simp
  from handle_admin_spec [OF s1(2) assms(4) s1(5) l1, of l] obtain s2 where s2:
    "handle_admin h (s1, l) = Some (s2, snd (admin_replies h ?rq l))" "admin_ok s2"
    "responses s2 = fst (admin_replies h ?rq l)" "ad_table s2 = ad_table s1" "ad_bevs s2 = ad_bevs s1"
    unfolding s1(6) by auto
  have f: "ft_be (ad_table s2) (bv_fd b) = Some be" "ad_bevs s2 be = Some (b\<lparr>bv_in := rest\<rparr>)"
    using assms(6) s1(3,4) s2(4,5) by simp_all
  have "responses s2 = map (Pair (bv_fd b)) (map snd (fst (admin_replies h ?rq l)))"
    unfolding s2(3) by (rule admin_replies_fd)
  from admin_cb_time_spec [OF s2(2) this f] obtain s3 where "admin_cb_time s2 = Some s3"
    "ad_bevs s3 = (ad_bevs s2)(be \<mapsto> b\<lparr>bv_in := rest, bv_out := bv_out b @
      concat (map admin_frame (map snd (fst (admin_replies h ?rq l))))\<rparr>)" by auto
  then show ?thesis using s1(1,3) s2(1,5)
    by (intro exI [of _ s1] exI [of _ s2] exI [of _ s3] exI [of _ "snd (admin_replies h ?rq l)"] conjI) simp_all
qed

theorem admin_request_response_witness:
  "\<exists>s1 s2 s3 l' b. admin_cb_read 3 (sample_admin [2, 0, 0, 0, 104, 105, 0, 0, 0, 0, 9]) = Some s1 \<and>
    handle_admin (\<lambda>fd req n. (Inr (Some (take 3 req)), Suc n)) (s1, 0) = Some (s2, l') \<and> admin_cb_time s2 = Some s3 \<and>
    ad_bevs s3 3 = Some b \<and> bv_in b = [9] \<and> bv_out b = [2, 0, 0, 0, 104, 105, 0, 0, 0, 0]"
proof -
  let ?h = "(\<lambda>fd req n. (Inr (Some (take 3 req)), Suc n)) :: nat admin_handler"
  let ?inp = "[2, 0, 0, 0, 104, 105, 0, 0, 0, 0, 9] :: bytes"
  let ?rs = "[[104, 105], []] :: bytes list"
  define b where "b = \<lparr>bv_fd = 8, bv_in = ?inp, bv_out = []\<rparr>"
  have l4: "le_bytes 4 2 = [2, 0, 0, 0]" "le_bytes 4 0 = [0, 0, 0, 0]" by code_simp+
  have h: "admin_handler_ok ?h" by (auto simp: admin_handler_ok_def)
  have "[9] = take 1 (admin_frame (replicate 9 0))" by (simp add: admin_frame_def le_bytes_4)
  then have pt: "admin_partial [9]" unfolding admin_partial_def
    by (intro exI [of _ "replicate 9 0"] exI [of _ 1]) (simp add: admin_frame_def)
  have c: "ad_bevs (sample_admin ?inp) 3 = Some b" "ft_be (ad_table (sample_admin ?inp)) (bv_fd b) = Some 3"
    "bv_in b = concat (map admin_frame ?rs) @ [9]" "\<forall>r \<in> set ?rs. length r \<le> 524288"
    "length ?rs \<le> card (mp_avail (ad_recv_pool (sample_admin ?inp)))" "length ?rs \<le> card (mp_avail (ad_send_pool (sample_admin ?inp)))"
    by (simp_all add: b_def sample_admin_simps sample_admin_table admin_frame_def l4 mp_avail_init)
  from admin_request_response [OF sample_admin_ok sample_admin_simps(4,5) h c(1-4) pt c(5,6), of 0]
  obtain s1 s2 s3 l' where r: "admin_cb_read 3 (sample_admin ?inp) = Some s1" "handle_admin ?h (s1, 0) = Some (s2, l')"
    "admin_cb_time s2 = Some s3"
    "ad_bevs s3 = (ad_bevs (sample_admin ?inp))(3 \<mapsto> b\<lparr>bv_in := [9], bv_out := bv_out b @
      concat (map admin_frame (map snd (fst (admin_replies ?h (map (Pair (bv_fd b)) ?rs) 0))))\<rparr>)" by blast
  have "concat (map admin_frame (map snd (fst (admin_replies ?h (map (Pair (bv_fd b)) ?rs) 0)))) = [2, 0, 0, 0, 104, 105, 0, 0, 0, 0]"
    by (simp add: admin_fit_def admin_frame_def l4)
  with r show ?thesis by (intro exI conjI) (auto simp: b_def)
qed

end
