(* ===== verification/ThreadInner.thy ===== *)
theory ThreadInner
  imports Channel Bufferevent MsgStruct
begin

text \<open>
  The link between the game servers (\<open>common/thread_inner.h\<close>) and
  \<open>thread_logic::handle_inner\<close>. A server is either the middle one, which accepts
  connections, or a normal one, which keeps one connection to the middle server in
  \<open>beNormal\<close> with the state \<open>connect_state\<close>: 0 not connected, 1 connecting, 2 connected.
  Using a freed or null bufferevent is a fault, \<open>None\<close>.
\<close>

section \<open>The state\<close>

record inner =
  in_middle :: bool
  in_table :: "nat fd_table"
  in_bevs :: bevs
  in_normal :: "nat option"
  in_need_connect :: bool
  in_force_close :: bool
  in_state :: int
  in_addr :: "bytes \<times> int"
  in_set_ip :: bool
  in_svr_index :: int
  in_pool :: msg_pool
  in_mem :: "nat \<Rightarrow> msg_inner"
  in_q_recv :: "nat msg_queue"
  in_q_send :: "nat msg_queue"

definition inner_init :: "bool \<Rightarrow> int \<Rightarrow> nat \<Rightarrow> (nat \<Rightarrow> msg_inner) \<Rightarrow> inner" where
  "inner_init middle svr_index n mem = \<lparr>in_middle = middle, in_table = fd_table_zero, in_bevs = Map.empty,
     in_normal = None, in_need_connect = False, in_force_close = False, in_state = 0, in_addr = ([], 0),
     in_set_ip = False, in_svr_index = svr_index, in_pool = mp_init n, in_mem = mem,
     in_q_recv = mq_init n False, in_q_send = mq_init n False\<rparr>"

section \<open>The callbacks\<close>

definition inner_close_connect :: "nat \<Rightarrow> inner \<Rightarrow> inner option" where
  "inner_close_connect be s = do {
     b \<leftarrow> in_bevs s be;
     bevs \<leftarrow> bufferevent_free be (in_bevs s);
     let s1 = s\<lparr>in_table := snd (inner_fd_del (bv_fd b) (in_table s)), in_bevs := bevs\<rparr> in
     case mp_alloc (in_pool s1) of
       (None, p) \<Rightarrow> Some (s1\<lparr>in_pool := p\<rparr>)
     | (Some m, p) \<Rightarrow> do {
         (_, msg) \<leftarrow> mi_write_int (if in_middle s then 2 else 4)
           ((in_mem s1 m)\<lparr>mi_fd := bv_fd b mod 65536, mi_buf_len := 0\<rparr>);
         Some (s1\<lparr>in_pool := p, in_mem := (in_mem s1)(m := msg),
           in_q_recv := snd (mq_push (Some m) (in_q_recv s1))\<rparr>)
       }
   }"

definition inner_write :: "nat option \<Rightarrow> bytes \<Rightarrow> inner \<Rightarrow> inner option" where
  "inner_write be d s = do { b \<leftarrow> be; bevs \<leftarrow> bufferevent_write b d (in_bevs s); Some (s\<lparr>in_bevs := bevs\<rparr>) }"

definition send_hello :: "inner \<Rightarrow> inner option" where
  "send_hello s = do {
     s1 \<leftarrow> inner_write (in_normal s) (le_bytes 4 8) s;
     s2 \<leftarrow> inner_write (in_normal s) (le_bytes 4 1) s1;
     inner_write (in_normal s) (le_bytes 4 (in_svr_index s)) s2
   }"

text \<open>Freeing \<open>beNormal\<close>, as \<open>cb_event\<close> and \<open>dis_connect\<close> do it.\<close>

definition drop_normal :: "inner \<Rightarrow> inner option" where
  "drop_normal s = do {
     be \<leftarrow> in_normal s;
     s1 \<leftarrow> (if in_state s = 2 then inner_close_connect be s
            else map_option (\<lambda>bs. s\<lparr>in_bevs := bs\<rparr>) (bufferevent_free be (in_bevs s)));
     Some (s1\<lparr>in_normal := None, in_state := 0\<rparr>)
   }"

text \<open>\<open>BEV_EVENT_CONNECTED\<close> is bit 7.\<close>

definition inner_cb_event :: "nat \<Rightarrow> int \<Rightarrow> inner \<Rightarrow> inner option" where
  "inner_cb_event be what s =
     (if in_middle s then inner_close_connect be s
      else if bit what 7 then send_hello (s\<lparr>in_state := 2\<rparr>)
      else drop_normal s)"

definition inner_cb_listener :: "nat option \<Rightarrow> int \<Rightarrow> inner \<Rightarrow> inner" where
  "inner_cb_listener nb fd s =
     (case nb of None \<Rightarrow> s
      | Some be \<Rightarrow>
          let s1 = s\<lparr>in_bevs := bufferevent_socket_new be fd (in_bevs s)\<rparr>
          in s1\<lparr>in_table := snd (inner_fd_add fd be (in_table s1))\<rparr>)"

definition inner_packet :: "nat \<Rightarrow> inner \<Rightarrow> (bool \<times> inner) option" where
  "inner_packet be s = do {
     b \<leftarrow> in_bevs s be;
     let inp = bv_in b; buf_len = le_val (take 4 inp) in
     if 204800 < buf_len then map_option (Pair False) (inner_close_connect be s)
     else if int (length inp) < buf_len + 4 then Some (False, s)
     else case mp_alloc (in_pool s) of
       (None, p) \<Rightarrow> Some (False, s\<lparr>in_pool := p\<rparr>)
     | (Some m, p) \<Rightarrow> do {
         buf \<leftarrow> store_block (mi_buf (in_mem s m)) 0 (take (nat buf_len) (drop 4 inp));
         bevs \<leftarrow> bufferevent_set_input be (drop (nat buf_len) (drop 4 inp)) (in_bevs s);
         Some (True, s\<lparr>in_pool := p, in_bevs := bevs,
           in_mem := (in_mem s)(m := (in_mem s m)\<lparr>mi_buf := buf, mi_buf_len := buf_len, mi_fd := bv_fd b mod 65536\<rparr>),
           in_q_recv := snd (mq_push (Some m) (in_q_recv s))\<rparr>)
       }
   }"

partial_function (option) inner_cb_read :: "nat \<Rightarrow> inner \<Rightarrow> inner option" where
  "inner_cb_read be s = do {
     b \<leftarrow> in_bevs s be;
     if 4 \<le> length (bv_in b) then do {
       (go, s1) \<leftarrow> inner_packet be s;
       if go then inner_cb_read be s1 else Some s1
     } else Some s
   }"

text \<open>
  \<open>nb\<close> is what \<open>bufferevent_socket_new\<close> returns, \<open>cr\<close> what \<open>bufferevent_socket_connect\<close> comes to; when it is
  refused, \<open>cb_event\<close> runs inside of the call.
\<close>

definition inner_connect :: "nat option \<Rightarrow> connect_result \<Rightarrow> inner \<Rightarrow> inner option" where
  "inner_connect nb cr s =
     (if in_middle s \<or> in_state s \<noteq> 0 \<or> \<not> in_set_ip s then Some s
      else
        let s1 = (case in_normal s of
            Some _ \<Rightarrow> s
          | None \<Rightarrow> (case nb of None \<Rightarrow> s
              | Some be \<Rightarrow> s\<lparr>in_normal := Some be, in_bevs := bufferevent_socket_new be (-1) (in_bevs s)\<rparr>))
        in case in_normal s1 of
          None \<Rightarrow> Some s1
        | Some be \<Rightarrow> do {
            b \<leftarrow> in_bevs s1 be;
            let s2 = s1\<lparr>in_need_connect := False\<rparr>;
            case cr of
              No_socket \<Rightarrow> Some s2
            | Refused \<Rightarrow> inner_cb_event be BEV_EVENT_ERROR s2
            | Connecting fd \<Rightarrow> Some (s2\<lparr>in_bevs := (in_bevs s2)(be \<mapsto> b\<lparr>bv_fd := fd\<rparr>), in_state := 1\<rparr>)
          })"

definition dis_connect :: "inner \<Rightarrow> inner option" where
  "dis_connect s = (if in_normal s = None then Some s else drop_normal s)"

definition set_connect :: "bytes \<Rightarrow> int \<Rightarrow> inner \<Rightarrow> inner" where
  "set_connect str port s =
     s\<lparr>in_addr := (str, s16 port), in_set_ip := True, in_force_close := True, in_need_connect := True\<rparr>"

text \<open>Writing one message to a bufferevent: the length and the bytes.\<close>

definition inner_send :: "nat option \<Rightarrow> msg_inner \<Rightarrow> inner \<Rightarrow> inner option" where
  "inner_send be m s = do {
     s1 \<leftarrow> inner_write be (le_bytes 4 (mi_buf_len m)) s;
     if mi_buf_len m \<noteq> 0 then do { d \<leftarrow> iload_block (mi_buf m) 0 (mi_buf_len m); inner_write be d s1 }
     else Some s1
   }"

definition inner_release :: "nat \<Rightarrow> inner \<Rightarrow> inner" where
  "inner_release i s = s\<lparr>in_pool := snd (mp_free i (in_pool s))\<rparr>"

partial_function (option) inner_drain :: "nat option \<Rightarrow> connect_result \<Rightarrow> inner \<Rightarrow> inner option" where
  "inner_drain nb cr s =
     (if in_state s \<noteq> 2 then (if in_need_connect s then inner_connect nb cr s else Some s)
      else case mq_pop (in_q_send s) of
        (None, q) \<Rightarrow> Some (s\<lparr>in_q_send := q\<rparr>)
      | (Some i, q) \<Rightarrow> do {
          s1 \<leftarrow> inner_send (in_normal s) (in_mem s i) (s\<lparr>in_q_send := q\<rparr>);
          inner_drain nb cr (inner_release i s1)
        })"

definition inner_cb_time_logic :: "nat option \<Rightarrow> connect_result \<Rightarrow> inner \<Rightarrow> inner option" where
  "inner_cb_time_logic nb cr s =
     (if in_force_close s then dis_connect (s\<lparr>in_force_close := False\<rparr>)
      else if in_state s \<noteq> 2 then (if in_need_connect s then inner_connect nb cr s else Some s)
      else inner_drain nb cr s)"

partial_function (option) inner_cb_time_world :: "inner \<Rightarrow> inner option" where
  "inner_cb_time_world s =
     (case mq_pop (in_q_send s) of
        (None, q) \<Rightarrow> Some (s\<lparr>in_q_send := q\<rparr>)
      | (Some i, q) \<Rightarrow>
          let s1 = s\<lparr>in_q_send := q\<rparr>; m = in_mem s i; fd = s16 (mi_fd m) in do {
            s2 \<leftarrow> (if 0 \<le> fd \<and> fd < fd_max \<and> ft_be (in_table s1) fd \<noteq> None
                   then inner_send (ft_be (in_table s1) fd) m s1 else Some s1);
            inner_cb_time_world (inner_release i s2)
          })"

section \<open>handle_inner\<close>

text \<open>
  The handler gets the message and what the other calls may use of the state; the
  result is the error that \<open>pcall\<close> reports, which is logged.
\<close>

type_synonym 'l inner_handler = "nat \<Rightarrow> inner \<times> 'l \<Rightarrow> bytes option \<times> inner \<times> 'l"

partial_function (option) handle_inner :: "'l inner_handler \<Rightarrow> inner \<times> 'l \<Rightarrow> (bytes option list \<times> inner \<times> 'l) option" where
  "handle_inner h st =
     (case mq_pop (in_q_recv (fst st)) of
        (None, q) \<Rightarrow> Some ([], (fst st)\<lparr>in_q_recv := q\<rparr>, snd st)
      | (Some i, q) \<Rightarrow>
          let (e, s1, l1) = h i ((fst st)\<lparr>in_q_recv := q\<rparr>, snd st) in do {
            (es, st2) \<leftarrow> handle_inner h (inner_release i s1, l1);
            Some (e # es, st2)
          })"

section \<open>The connection of a normal server\<close>

definition mi_full :: "msg_inner \<Rightarrow> bool" where
  "mi_full m \<longleftrightarrow> length (mi_buf m) = 204800 \<and> 0 \<le> mi_buf_len m \<and> mi_buf_len m \<le> 204800"

text \<open>
  \<open>link_base\<close>: \<open>beNormal\<close> is set whenever the state is not 0, the memory holds well-formed messages and the
  queues are well formed. In \<open>link_ok\<close> it is a live connection whenever it is set; in \<open>link_lost\<close> it is one that
  has been freed.
\<close>

definition link_base :: "inner \<Rightarrow> bool" where
  "link_base s \<longleftrightarrow> \<not> in_middle s \<and> in_state s \<in> {0, 1, 2} \<and> (in_state s \<noteq> 0 \<longrightarrow> in_normal s \<noteq> None) \<and>
     mq_ok (in_q_recv s) \<and> mq_ok (in_q_send s) \<and> (\<forall>i. mi_full (in_mem s i))"

definition link_ok :: "inner \<Rightarrow> bool" where
  "link_ok s \<longleftrightarrow> link_base s \<and> (\<forall>be. in_normal s = Some be \<longrightarrow> in_bevs s be \<noteq> None)"

definition link_lost :: "inner \<Rightarrow> bool" where
  "link_lost s \<longleftrightarrow> link_base s \<and> (\<exists>be. in_normal s = Some be \<and> in_bevs s be = None)"

lemmas link_defs = link_base_def link_ok_def link_lost_def

text \<open>
  The loop of \<open>cb_read\<close> meets a message that is announced with more bytes than a buffer has: it is the next one
  behind messages that are complete and that the pool has room for.
\<close>

function announces_long :: "msg_pool \<Rightarrow> bytes \<Rightarrow> bool" where
  "announces_long p inp =
     (if length inp < 4 then False
      else if 204800 < le_val (take 4 inp) then True
      else if int (length inp) < le_val (take 4 inp) + 4 then False
      else case mp_alloc p of
        (None, _) \<Rightarrow> False
      | (Some _, p1) \<Rightarrow> announces_long p1 (drop (nat (le_val (take 4 inp))) (drop 4 inp)))"
  by pat_completeness auto
termination by (relation "measure (\<lambda>(p, inp). length inp)") auto

declare announces_long.simps [simp del]

text \<open>
  What can happen to a normal server, whatever arrives. The flag of a step says whether \<open>cb_read\<close> met such a message, the
  flag of a run whether one of its steps did. libevent runs the callbacks of a connection only while it lives.
\<close>

inductive link_step :: "inner \<Rightarrow> bool \<Rightarrow> inner \<Rightarrow> bool" where
  event: "in_normal s = Some be \<Longrightarrow> in_bevs s be = Some b \<Longrightarrow> inner_cb_event be what s = Some s' \<Longrightarrow> link_step s False s'"
| arrival: "in_normal s = Some be \<Longrightarrow> in_bevs s be = Some b \<Longrightarrow>
    link_step s False (s\<lparr>in_bevs := (in_bevs s)(be \<mapsto> b\<lparr>bv_in := bv_in b @ d\<rparr>)\<rparr>)"
| read: "in_normal s = Some be \<Longrightarrow> in_bevs s be = Some b \<Longrightarrow> inner_cb_read be s = Some s' \<Longrightarrow>
    link_step s (announces_long (in_pool s) (bv_in b)) s'"
| time: "(\<forall>be. nb = Some be \<longrightarrow> in_bevs s be = None) \<Longrightarrow>
    inner_cb_time_logic nb cr s = Some s' \<Longrightarrow> link_step s False s'"
| config: "link_step s False (set_connect str port s)"
| queued: "mi_full m \<Longrightarrow>
    link_step s False (s\<lparr>in_mem := (in_mem s)(i := m), in_q_send := snd (mq_push (Some i) (in_q_send s))\<rparr>)"

inductive link_reach :: "inner \<Rightarrow> bool \<Rightarrow> inner \<Rightarrow> bool" where
  start: "link_reach s False s"
| step: "link_reach s l t \<Longrightarrow> link_step t k u \<Longrightarrow> link_reach s (l \<or> k) u"

section \<open>No operation faults\<close>

lemma mq_push_ok: "mq_ok q \<Longrightarrow> mq_ok (snd (mq_push (Some x) q))"
proof -
  assume ok: "mq_ok q"
  show ?thesis
  proof (cases "length (mq_content q) = mq_room q")
    case True
    then show ?thesis using mq.push_refuse [OF ok True, of x] ok by simp
  next
    case False
    then have "length (mq_content q) < mq_room q" using mq.bound [OF ok] by simp
    from mq.push_accept [OF ok this, of x] show ?thesis by auto
  qed
qed

lemma mq_pop_cases:
  assumes "mq_ok q"
  obtains "mq_content q = []" "mq_pop q = (None, q)"
  | x xs q' where "mq_content q = x # xs" "mq_pop q = (Some x, q')" "mq_ok q'" "mq_content q' = xs"
  using mq.pop_empty [OF assms] mq.pop_front [OF assms] by (cases "mq_content q") auto

lemma le_val_nonneg: "0 \<le> le_val xs"
  by (induction xs) auto

lemma inner_close_connect_spec:
  assumes "link_ok s" "in_bevs s be = Some b"
  shows "\<exists>s'. inner_close_connect be s = Some s' \<and> in_bevs s' = (in_bevs s)(be := None) \<and> in_normal s' = in_normal s \<and>
    in_state s' = in_state s \<and> in_middle s' = in_middle s \<and> mq_ok (in_q_recv s') \<and> in_q_send s' = in_q_send s \<and>
    in_force_close s' = in_force_close s \<and> (\<forall>i. mi_full (in_mem s' i))"
proof (cases "mp_alloc (in_pool s)")
  case (Pair x p)
  show ?thesis
  proof (cases x)
    case None
    then show ?thesis using assms Pair by (simp add: inner_close_connect_def bufferevent_free_def link_defs)
  next
    case (Some m)
    have "length (mi_buf (in_mem s m)) = 204800" using assms(1) by (simp add: link_defs mi_full_def)
    then show ?thesis using assms Pair Some
      by (simp add: inner_close_connect_def bufferevent_free_def link_defs mi_write_int_def mem_defs mq_push_ok mi_full_def)
  qed
qed

lemma drop_normal_spec:
  assumes "link_ok s" "in_normal s = Some be"
  shows "\<exists>s'. drop_normal s = Some s' \<and> link_ok s' \<and> in_normal s' = None \<and> in_bevs s' = (in_bevs s)(be := None)"
proof -
  obtain b where b: "in_bevs s be = Some b" using assms by (auto simp: link_defs)
  show ?thesis
  proof (cases "in_state s = 2")
    case True
    with inner_close_connect_spec [OF assms(1) b] assms show ?thesis by (auto simp: drop_normal_def link_defs)
  next
    case False
    then show ?thesis using assms b by (auto simp: drop_normal_def link_defs bufferevent_free_def)
  qed
qed

lemma inner_write_spec:
  assumes "link_ok s" "in_normal s = Some be"
  shows "\<exists>s' b. inner_write (Some be) d s = Some s' \<and> link_ok s' \<and> s' = s\<lparr>in_bevs := (in_bevs s)(be \<mapsto> b)\<rparr>"
  using assms by (auto simp: inner_write_def bufferevent_write_def link_defs split: option.splits)

lemma send_hello_spec:
  assumes "link_ok s" "in_normal s = Some be"
  shows "\<exists>s'. send_hello s = Some s' \<and> link_ok s'"
proof -
  from inner_write_spec [OF assms] obtain s1 b1 where s1: "inner_write (Some be) (le_bytes 4 8) s = Some s1" "link_ok s1"
    "s1 = s\<lparr>in_bevs := (in_bevs s)(be \<mapsto> b1)\<rparr>" by blast
  have n1: "in_normal s1 = Some be" using s1(3) assms(2) by simp
  from inner_write_spec [OF s1(2) n1] obtain s2 b2 where s2: "inner_write (Some be) (le_bytes 4 1) s1 = Some s2" "link_ok s2"
    "s2 = s1\<lparr>in_bevs := (in_bevs s1)(be \<mapsto> b2)\<rparr>" by blast
  have n2: "in_normal s2 = Some be" using s2(3) n1 by simp
  from inner_write_spec [OF s2(2) n2] s1(1) s2(1) assms(2) show ?thesis by (auto simp: send_hello_def)
qed

lemma inner_send_spec:
  assumes "link_ok s" "in_normal s = Some be" "mi_full m"
  shows "\<exists>s'. inner_send (Some be) m s = Some s' \<and> link_ok s' \<and> in_normal s' = Some be \<and> in_state s' = in_state s \<and>
    in_q_send s' = in_q_send s \<and> in_need_connect s' = in_need_connect s"
proof -
  from inner_write_spec [OF assms(1,2)] obtain s1 b1 where s1: "inner_write (Some be) (le_bytes 4 (mi_buf_len m)) s = Some s1" "link_ok s1"
    "s1 = s\<lparr>in_bevs := (in_bevs s)(be \<mapsto> b1)\<rparr>" by blast
  have n1: "in_normal s1 = Some be" using s1(3) assms(2) by simp
  have ld: "\<exists>d. iload_block (mi_buf m) 0 (mi_buf_len m) = Some d" using assms(3) by (auto simp: mem_defs mi_full_def)
  show ?thesis
  proof (cases "mi_buf_len m = 0")
    case True
    then show ?thesis using s1 n1 by (simp add: inner_send_def)
  next
    case False
    from ld obtain d where d: "iload_block (mi_buf m) 0 (mi_buf_len m) = Some d" by blast
    from inner_write_spec [OF s1(2) n1, of d] obtain s2 b2 where "inner_write (Some be) d s1 = Some s2" "link_ok s2"
      "s2 = s1\<lparr>in_bevs := (in_bevs s1)(be \<mapsto> b2)\<rparr>" by blast
    then show ?thesis using s1 n1 d False by (simp add: inner_send_def)
  qed
qed

lemma inner_connect_spec:
  assumes "link_ok s" "\<forall>be. nb = Some be \<longrightarrow> in_bevs s be = None"
  shows "\<exists>s'. inner_connect nb cr s = Some s' \<and> link_ok s'"
proof -
  have go: "\<exists>s'. (do {
        b \<leftarrow> in_bevs t be;
        let s2 = t\<lparr>in_need_connect := False\<rparr>;
        case cr of
          No_socket \<Rightarrow> Some s2
        | Refused \<Rightarrow> inner_cb_event be BEV_EVENT_ERROR s2
        | Connecting fd \<Rightarrow> Some (s2\<lparr>in_bevs := (in_bevs s2)(be \<mapsto> b\<lparr>bv_fd := fd\<rparr>), in_state := 1\<rparr>)
      }) = Some s' \<and> link_ok s'" if t: "link_ok t" "in_normal t = Some be" for t be
  proof -
    have ok: "link_ok (t\<lparr>in_need_connect := False\<rparr>)" "in_normal (t\<lparr>in_need_connect := False\<rparr>) = Some be"
      using t by (simp_all add: link_defs)
    then show ?thesis using drop_normal_spec [OF ok] t
      by (cases cr) (auto simp: link_defs inner_cb_event_def)
  qed
  define t where "t = (case in_normal s of
      Some _ \<Rightarrow> s
    | None \<Rightarrow> (case nb of None \<Rightarrow> s
        | Some be \<Rightarrow> s\<lparr>in_normal := Some be, in_bevs := bufferevent_socket_new be (-1) (in_bevs s)\<rparr>))"
  have "link_ok t"
    using assms by (auto simp: t_def link_defs bufferevent_socket_new_def split: option.split)
  then show ?thesis
    using go [of t] assms(1) by (cases "in_normal t") (simp_all add: inner_connect_def Let_def flip: t_def)
qed

lemma inner_drain_spec:
  assumes "link_ok s" "\<forall>be. nb = Some be \<longrightarrow> in_bevs s be = None" "in_state s = 2"
  shows "\<exists>s'. inner_drain nb cr s = Some s' \<and> link_ok s'"
  using assms(1,3)
proof (induction "mq_content (in_q_send s)" arbitrary: s)
  case Nil
  have "mq_ok (in_q_send s)" using Nil.prems(1) by (simp add: link_defs)
  from mq.pop_empty [OF this] Nil have "inner_drain nb cr s = Some s" by (subst inner_drain.simps) simp
  then show ?case using Nil.prems(1) by simp
next
  case (Cons i "is")
  have ok: "mq_ok (in_q_send s)" using Cons.prems(1) by (simp add: link_defs)
  from mq.pop_front [OF ok Cons.hyps(2) [symmetric]] obtain q where q: "mq_pop (in_q_send s) = (Some i, q)" "mq_ok q" "mq_content q = is"
    by auto
  obtain be where be: "in_normal s = Some be" using Cons.prems by (auto simp: link_defs)
  have l1: "link_ok (s\<lparr>in_q_send := q\<rparr>)" "in_normal (s\<lparr>in_q_send := q\<rparr>) = Some be" "mi_full (in_mem s i)"
    using Cons.prems(1) q(2) be by (auto simp: link_defs)
  from inner_send_spec [OF l1] obtain t where t: "inner_send (Some be) (in_mem s i) (s\<lparr>in_q_send := q\<rparr>) = Some t" "link_ok t"
    "in_normal t = Some be" "in_state t = in_state s" "in_q_send t = q" by auto
  have r: "link_ok (inner_release i t)" "in_state (inner_release i t) = 2" "is = mq_content (in_q_send (inner_release i t))"
    using t q(3) Cons.prems(2) by (auto simp: inner_release_def link_defs)
  from Cons.hyps(1) [OF r(3,1,2)] obtain s' where "inner_drain nb cr (inner_release i t) = Some s'" "link_ok s'" by blast
  then show ?case using q(1) be t(1) Cons.prems(2) by (subst inner_drain.simps) simp
qed

lemma inner_time_spec:
  assumes "link_ok s" "\<forall>be. nb = Some be \<longrightarrow> in_bevs s be = None"
  shows "\<exists>s'. inner_cb_time_logic nb cr s = Some s' \<and> link_ok s'"
proof (cases "in_force_close s")
  case True
  have l: "link_ok (s\<lparr>in_force_close := False\<rparr>)" using assms(1) by (simp add: link_defs)
  show ?thesis
  proof (cases "in_normal s")
    case None
    then show ?thesis using True l by (simp add: inner_cb_time_logic_def dis_connect_def)
  next
    case (Some be)
    then show ?thesis using True drop_normal_spec [OF l] by (auto simp: inner_cb_time_logic_def dis_connect_def)
  qed
next
  case False
  then show ?thesis using inner_drain_spec [OF assms] inner_connect_spec [OF assms] assms(1)
    by (auto simp: inner_cb_time_logic_def)
qed

lemma inner_event_spec:
  assumes "link_ok s" "in_normal s = Some be"
  shows "\<exists>s'. inner_cb_event be what s = Some s' \<and> link_ok s'"
proof (cases "bit what 7")
  case True
  have "link_ok (s\<lparr>in_state := 2\<rparr>)" "in_normal (s\<lparr>in_state := 2\<rparr>) = Some be" using assms by (auto simp: link_defs)
  from send_hello_spec [OF this] True assms(1) show ?thesis by (simp add: inner_cb_event_def link_defs)
next
  case False
  with drop_normal_spec [OF assms] assms(1) show ?thesis by (auto simp: inner_cb_event_def link_defs)
qed

lemma inner_packet_spec:
  assumes "link_ok s" "in_normal s = Some be" "in_bevs s be = Some b" "4 \<le> length (bv_in b)"
  shows "\<exists>go s'. inner_packet be s = Some (go, s') \<and>
    (if go then link_ok s' \<and> in_normal s' = Some be \<and> (\<exists>b'. in_bevs s' be = Some b' \<and>
         length (bv_in b') < length (bv_in b) \<and> announces_long (in_pool s') (bv_in b') = announces_long (in_pool s) (bv_in b))
     else if announces_long (in_pool s) (bv_in b) then link_lost s' else link_ok s')"
proof -
  let ?n = "le_val (take 4 (bv_in b))"
  have n: "0 \<le> ?n" by (rule le_val_nonneg)
  note long = announces_long.simps [of "in_pool s" "bv_in b"]
  show ?thesis
  proof (cases "204800 < ?n")
    case True
    from inner_close_connect_spec [OF assms(1,3)] obtain s' where s': "inner_close_connect be s = Some s'"
      "in_bevs s' = (in_bevs s)(be := None)" "in_normal s' = in_normal s" "in_state s' = in_state s" "in_middle s' = in_middle s"
      "mq_ok (in_q_recv s')" "in_q_send s' = in_q_send s" "\<forall>i. mi_full (in_mem s' i)" by blast
    then have "link_lost s'" using assms(1,2) by (simp add: link_defs)
    then show ?thesis using True s'(1) assms(3,4) long by (intro exI [of _ False]) (simp add: inner_packet_def)
  next
    case small: False
    show ?thesis
    proof (cases "int (length (bv_in b)) < ?n + 4")
      case True
      then show ?thesis using assms small long by (intro exI [of _ False]) (simp add: inner_packet_def)
    next
      case False
      show ?thesis
      proof (cases "mp_alloc (in_pool s)")
        case (Pair x p)
        show ?thesis
        proof (cases x)
          case None
          then show ?thesis using assms small False Pair long
            by (intro exI [of _ False]) (simp add: inner_packet_def link_defs)
        next
          case (Some m)
          have f: "length (mi_buf (in_mem s m)) = 204800" using assms(1) by (simp add: link_defs mi_full_def)
          have l: "length (take (nat ?n) (drop 4 (bv_in b))) \<le> 204800" using small n by simp
          have "inner_packet be s = Some (True, s\<lparr>in_pool := p,
              in_bevs := (in_bevs s)(be \<mapsto> b\<lparr>bv_in := drop (nat ?n) (drop 4 (bv_in b))\<rparr>),
              in_mem := (in_mem s)(m := (in_mem s m)\<lparr>mi_buf := blit (mi_buf (in_mem s m)) 0 (take (nat ?n) (drop 4 (bv_in b))),
                mi_buf_len := ?n, mi_fd := bv_fd b mod 65536\<rparr>),
              in_q_recv := snd (mq_push (Some m) (in_q_recv s))\<rparr>)"
            using assms(3) small n False Pair Some f l
            by (simp add: inner_packet_def store_block_def bufferevent_set_input_def Let_def)
          moreover have "announces_long (in_pool s) (bv_in b) = announces_long p (drop (nat ?n) (drop 4 (bv_in b)))"
            using long assms(4) small False Pair Some by simp
          ultimately show ?thesis using assms f l n small
            by (intro exI [of _ True]) (auto simp: link_defs mq_push_ok mi_full_def)
        qed
      qed
    qed
  qed
qed

lemma inner_read_spec:
  assumes "link_ok s" "in_normal s = Some be" "in_bevs s be = Some b"
  shows "\<exists>s'. inner_cb_read be s = Some s' \<and> (if announces_long (in_pool s) (bv_in b) then link_lost s' else link_ok s')"
  using assms
proof (induction "length (bv_in b)" arbitrary: s b rule: less_induct)
  case less
  show ?case
  proof (cases "4 \<le> length (bv_in b)")
    case False
    then have "inner_cb_read be s = Some s" using less.prems(3) by (subst inner_cb_read.simps) simp
    then show ?thesis using less.prems(1) False by (simp add: announces_long.simps [of _ "bv_in b"])
  next
    case True
    from inner_packet_spec [OF less.prems True] obtain go t where t: "inner_packet be s = Some (go, t)"
      "if go then link_ok t \<and> in_normal t = Some be \<and> (\<exists>b'. in_bevs t be = Some b' \<and>
         length (bv_in b') < length (bv_in b) \<and> announces_long (in_pool t) (bv_in b') = announces_long (in_pool s) (bv_in b))
       else if announces_long (in_pool s) (bv_in b) then link_lost t else link_ok t" by blast
    show ?thesis
    proof (cases go)
      case False
      then have "inner_cb_read be s = Some t" using t(1) True less.prems(3) by (subst inner_cb_read.simps) simp
      then show ?thesis using t(2) False by simp
    next
      case go: True
      with t(2) obtain b' where b': "link_ok t" "in_normal t = Some be" "in_bevs t be = Some b'"
        "length (bv_in b') < length (bv_in b)" "announces_long (in_pool t) (bv_in b') = announces_long (in_pool s) (bv_in b)" by auto
      from less.hyps [OF b'(4,1-3)] show ?thesis using t(1) True go less.prems(3) b'(5)
        by (subst inner_cb_read.simps) simp
    qed
  qed
qed

section \<open>The connection that was freed\<close>

text \<open>The timer uses the freed connection as soon as it has something to do with it, and until then leaves it.\<close>

lemma lost_time:
  assumes "link_lost s"
  shows "case inner_cb_time_logic nb cr s of
      None \<Rightarrow> in_force_close s \<or> (if in_state s = 2 then mq_content (in_q_send s) \<noteq> []
        else in_state s = 0 \<and> in_need_connect s \<and> in_set_ip s)
    | Some s' \<Rightarrow> link_lost s' \<and> \<not> (in_force_close s \<or> (if in_state s = 2 then mq_content (in_q_send s) \<noteq> []
        else in_state s = 0 \<and> in_need_connect s \<and> in_set_ip s))"
proof -
  obtain be where be: "in_normal s = Some be" "in_bevs s be = None" using assms by (auto simp: link_defs)
  have q: "mq_ok (in_q_send s)" "\<not> in_middle s" using assms by (auto simp: link_defs)
  consider "in_force_close s" | "\<not> in_force_close s" "in_state s = 2" | "\<not> in_force_close s" "in_state s \<noteq> 2" by blast
  then show ?thesis
  proof cases
    case 1
    then have "inner_cb_time_logic nb cr s = None"
      using be by (simp add: inner_cb_time_logic_def dis_connect_def drop_normal_def inner_close_connect_def bufferevent_free_def)
    then show ?thesis using 1 by simp
  next
    case 2
    show ?thesis
    proof (cases "mq_content (in_q_send s)")
      case Nil
      then have "inner_cb_time_logic nb cr s = Some s" using 2 mq.pop_empty [OF q(1)]
        by (simp add: inner_cb_time_logic_def inner_drain.simps [of nb cr s])
      then show ?thesis using assms 2 Nil by simp
    next
      case (Cons i "is")
      from mq.pop_front [OF q(1) Cons] obtain q' where "mq_pop (in_q_send s) = (Some i, q')" by blast
      then have "inner_cb_time_logic nb cr s = None" using 2 be
        by (simp add: inner_cb_time_logic_def inner_drain.simps [of nb cr s] inner_send_def inner_write_def bufferevent_write_def)
      then show ?thesis using 2 Cons by simp
    qed
  next
    case 3
    then have "inner_cb_time_logic nb cr s = (if in_need_connect s \<and> in_state s = 0 \<and> in_set_ip s then None else Some s)"
      using be q(2) by (simp add: inner_cb_time_logic_def inner_connect_def)
    then show ?thesis using assms 3 by simp
  qed
qed

section \<open>Every run\<close>

lemma link_step_ok: "link_step s l s' \<Longrightarrow> link_ok s \<Longrightarrow> if l then link_lost s' else link_ok s'"
proof (induction rule: link_step.induct)
  case (event s be b what s')
  then show ?case using inner_event_spec [of s be what] by auto
next
  case (arrival s be b d)
  then show ?case by (auto simp: link_defs)
next
  case (read s be b s')
  then show ?case using inner_read_spec [of s be b] by auto
next
  case (time nb s cr s')
  then show ?case using inner_time_spec [of s nb cr] by auto
next
  case (config s str port)
  then show ?case by (simp add: set_connect_def link_defs)
next
  case (queued m s i)
  then show ?case by (simp add: link_defs mq_push_ok)
qed

lemma link_step_lost: "link_step s l s' \<Longrightarrow> link_lost s \<Longrightarrow> link_lost s'"
proof (induction rule: link_step.induct)
  case (time nb s cr s')
  then show ?case using lost_time [of s nb cr] by simp
next
  case (config s str port)
  then show ?case by (simp add: set_connect_def link_defs)
next
  case (queued m s i)
  then show ?case by (auto simp: link_defs mq_push_ok)
qed (auto simp: link_lost_def)

lemma link_reach_ok: "link_reach s l t \<Longrightarrow> link_ok s \<Longrightarrow> if l then link_lost t else link_ok t"
proof (induction rule: link_reach.induct)
  case (step s l t k u)
  then show ?case using link_step_ok [of t k u] link_step_lost [of t k u] by (cases l; cases k) simp_all
qed simp

lemma link_ok_init: "0 < n \<Longrightarrow> \<forall>i. mi_full (mem i) \<Longrightarrow> link_ok (inner_init False k n mem)"
  by (simp add: link_defs inner_init_def mq_init_ok)

section \<open>Properties\<close>

text \<open>
  C21. The connection of a normal server, in every state that any sequence of connection events, arrivals, reads,
  timer ticks, changes of the address and queued messages leads to, whatever the middle server sends. As long as
  \<open>cb_read\<close> has met no message announced with more bytes than a buffer has (\<open>long\<close> is false),
  \<open>beNormal\<close> is a live connection whenever it is set, it is set whenever the state is \<open>connecting\<close>
  or \<open>connected\<close>, and no callback faults or hangs, \<open>cb_read\<close> on such a message included. From
  the first such message on \<open>beNormal\<close> is the freed connection, for ever, and the timer faults on it exactly when it
  was told to disconnect, has a message to send, or is to connect.
\<close>

theorem inner_link_safe:
  assumes "0 < n" "\<forall>i. mi_full (mem i)" "link_reach (inner_init False k n mem) long s"
  shows "(in_state s \<noteq> 0 \<longrightarrow> in_normal s \<noteq> None) \<and>
    (if long then \<exists>be. in_normal s = Some be \<and> in_bevs s be = None
     else \<forall>be. in_normal s = Some be \<longrightarrow> in_bevs s be \<noteq> None) \<and>
    (\<forall>be b. in_normal s = Some be \<longrightarrow> in_bevs s be = Some b \<longrightarrow>
       (\<forall>what. inner_cb_event be what s \<noteq> None) \<and> inner_cb_read be s \<noteq> None) \<and>
    (\<forall>nb cr. (\<forall>be. nb = Some be \<longrightarrow> in_bevs s be = None) \<longrightarrow>
       (inner_cb_time_logic nb cr s = None \<longleftrightarrow> long \<and> (in_force_close s \<or>
          (if in_state s = 2 then mq_content (in_q_send s) \<noteq> [] else in_state s = 0 \<and> in_need_connect s \<and> in_set_ip s))))"
proof (cases long)
  case False
  then have ok: "link_ok s" using link_reach_ok [OF assms(3) link_ok_init [OF assms(1,2)]] by simp
  have "inner_cb_event be what s \<noteq> None" "inner_cb_read be s \<noteq> None"
    if "in_normal s = Some be" "in_bevs s be = Some b" for be b what
    using inner_event_spec [OF ok that(1), of what] inner_read_spec [OF ok that] by auto
  moreover have "inner_cb_time_logic nb cr s \<noteq> None" if "\<forall>be. nb = Some be \<longrightarrow> in_bevs s be = None" for nb cr
    using inner_time_spec [OF ok that, of cr] by auto
  ultimately show ?thesis using ok False by (auto simp: link_defs)
next
  case True
  then have lost: "link_lost s" using link_reach_ok [OF assms(3) link_ok_init [OF assms(1,2)]] by simp
  have "inner_cb_time_logic nb cr s = None \<longleftrightarrow> in_force_close s \<or>
      (if in_state s = 2 then mq_content (in_q_send s) \<noteq> [] else in_state s = 0 \<and> in_need_connect s \<and> in_set_ip s)" for nb cr
    using lost_time [OF lost, of nb cr] by (auto split: option.splits)
  then show ?thesis using lost True by (auto simp: link_defs)
qed

definition mi_zero :: msg_inner where
  "mi_zero = \<lparr>mi_buf = replicate 204800 0, mi_buf_len = 0, mi_fd = 0\<rparr>"

lemma mi_zero_full: "mi_full mi_zero"
  by (simp add: mi_full_def mi_zero_def)

text \<open>A server that was told the address, has connected and was greeted.\<close>

lemma sample_link:
  "\<exists>s b. link_reach (inner_init False 6 2 (\<lambda>_. mi_zero)) False s \<and> in_normal s = Some 1 \<and> in_state s = 2 \<and> \<not> in_force_close s \<and>
    in_bevs s 1 = Some b \<and> bv_in b = [] \<and> bv_out b = [8, 0, 0, 0, 1, 0, 0, 0, 6, 0, 0, 0] \<and> in_q_send s = mq_init 2 False"
proof -
  let ?i = "inner_init False 6 2 (\<lambda>_. mi_zero)"
  define s1 where "s1 = set_connect [49] 80 ?i"
  define s2 where "s2 = s1\<lparr>in_force_close := False\<rparr>"
  define s3 where "s3 = s2\<lparr>in_normal := Some 1, in_need_connect := False, in_bevs := [1 \<mapsto> \<lparr>bv_fd = 9, bv_in = [], bv_out = []\<rparr>], in_state := 1\<rparr>"
  define s4 where "s4 = s3\<lparr>in_state := 2, in_bevs := [1 \<mapsto> \<lparr>bv_fd = 9, bv_in = [], bv_out = le_bytes 4 8 @ le_bytes 4 1 @ le_bytes 4 6\<rparr>]\<rparr>"
  note d = s1_def s2_def s3_def s4_def set_connect_def inner_init_def
  note go = link_reach.step [where l = False and k = False, simplified]
  have r1: "link_reach ?i False s1" unfolding s1_def by (rule go [OF link_reach.start]) (rule link_step.config)
  have r2: "link_reach ?i False s2"
    by (rule go [OF r1]) (rule link_step.time [of None _ No_socket], simp_all add: inner_cb_time_logic_def dis_connect_def d)
  have r3: "link_reach ?i False s3"
    by (rule go [OF r2])
      (rule link_step.time [of "Some 1" _ "Connecting 9"], simp_all add: inner_cb_time_logic_def inner_connect_def bufferevent_socket_new_def d)
  have b7: "bit (0x80 :: int) 7" by (simp add: bit_iff_odd)
  have r4: "link_reach ?i False s4"
    by (rule go [OF r3])
      (rule link_step.event [of _ 1 _ "0x80"], use b7 in \<open>simp_all add: inner_cb_event_def send_hello_def inner_write_def bufferevent_write_def d\<close>)
  have l: "le_bytes 4 8 = [8, 0, 0, 0]" "le_bytes 4 1 = [1, 0, 0, 0]" "le_bytes 4 6 = [6, 0, 0, 0]" by code_simp+
  show ?thesis
    by (rule exI [of _ s4], rule exI [of _ "\<lparr>bv_fd = 9, bv_in = [], bv_out = le_bytes 4 8 @ le_bytes 4 1 @ le_bytes 4 6\<rparr>"])
      (use r4 in \<open>simp add: d l\<close>)
qed

text \<open>
  It may lose the connection without a fault. If a length of four bytes \<open>0xFF\<close> arrives instead, \<open>cb_read\<close> frees the
  connection and the next timer tick with a message to send uses it.
\<close>

lemma sample_long:
  "\<exists>s. link_reach (inner_init False 6 2 (\<lambda>_. mi_zero)) True s \<and> in_state s = 2 \<and> mq_content (in_q_send s) \<noteq> []"
proof -
  let ?i = "inner_init False 6 2 (\<lambda>_. mi_zero)"
  from sample_link obtain t b where t: "link_reach ?i False t" "in_normal t = Some 1" "in_state t = 2"
    "in_bevs t 1 = Some b" "bv_in b = []" "in_q_send t = mq_init 2 False" by blast
  define t1 where "t1 = t\<lparr>in_mem := (in_mem t)(0 := mi_zero), in_q_send := snd (mq_push (Some 0) (in_q_send t))\<rparr>"
  let ?b = "b\<lparr>bv_in := bv_in b @ [255, 255, 255, 255]\<rparr>"
  define t2 where "t2 = t1\<lparr>in_bevs := (in_bevs t1)(1 \<mapsto> ?b)\<rparr>"
  note go = link_reach.step [where l = False and k = False, simplified]
  have "link_step t False t1" unfolding t1_def by (rule link_step.queued [OF mi_zero_full])
  then have r1: "link_reach ?i False t1" by (rule go [OF t(1)])
  have "link_step t1 False t2" unfolding t2_def using t by (intro link_step.arrival) (simp_all add: t1_def)
  then have r2: "link_reach ?i False t2" by (rule go [OF r1])
  have "link_ok ?i" by (rule link_ok_init) (simp_all add: mi_zero_full)
  then have ok: "link_ok t2" using link_reach_ok [OF r2] by simp
  have b: "in_normal t2 = Some 1" "in_bevs t2 1 = Some ?b" "in_state t2 = 2" using t by (simp_all add: t2_def t1_def)
  have lv: "le_val [255, 255, 255, 255] = 4294967295" by code_simp
  have "announces_long (in_pool t2) (bv_in ?b)" by (subst announces_long.simps) (simp add: t lv)
  moreover from inner_close_connect_spec [OF ok b(2)] obtain s where s: "inner_close_connect 1 t2 = Some s"
    "in_state s = in_state t2" "in_q_send s = in_q_send t2" by blast
  then have "inner_cb_read 1 t2 = Some s" using b by (subst inner_cb_read.simps) (simp add: inner_packet_def t lv)
  ultimately have "link_step t2 True s" using link_step.read [OF b(1,2)] by simp
  then have "link_reach ?i True s" using link_reach.step [OF r2] by fastforce
  moreover have "mq_content (snd (mq_push (Some 0) (mq_init 2 False))) = [0 :: nat]" by code_simp
  ultimately show ?thesis using s b(3) by (auto simp: t2_def t1_def t)
qed

theorem inner_link_safe_witness:
  "(\<exists>s. link_reach (inner_init False 6 2 (\<lambda>_. mi_zero)) False s \<and> in_normal s = Some 1 \<and> in_state s = 2 \<and> inner_cb_event 1 0x10 s \<noteq> None) \<and>
   (\<exists>s. link_reach (inner_init False 6 2 (\<lambda>_. mi_zero)) True s \<and> in_state s = 2 \<and> inner_cb_time_logic None No_socket s = None)"
proof (rule conjI)
  from sample_link obtain s b where s: "link_reach (inner_init False 6 2 (\<lambda>_. mi_zero)) False s" "in_normal s = Some 1"
    "in_bevs s 1 = Some b" "in_state s = 2" by blast
  with inner_link_safe [of 2 "\<lambda>_. mi_zero" 6 False s] mi_zero_full
  show "\<exists>s. link_reach (inner_init False 6 2 (\<lambda>_. mi_zero)) False s \<and> in_normal s = Some 1 \<and> in_state s = 2 \<and> inner_cb_event 1 0x10 s \<noteq> None"
    by auto
  from sample_long obtain s where s: "link_reach (inner_init False 6 2 (\<lambda>_. mi_zero)) True s" "in_state s = 2"
    "mq_content (in_q_send s) \<noteq> []" by blast
  with inner_link_safe [of 2 "\<lambda>_. mi_zero" 6 True s] mi_zero_full
  show "\<exists>s. link_reach (inner_init False 6 2 (\<lambda>_. mi_zero)) True s \<and> in_state s = 2 \<and> inner_cb_time_logic None No_socket s = None"
    by auto
qed

text \<open>
  How the connection gets lost: \<open>cb_read\<close> frees it and leaves \<open>beNormal\<close> and \<open>connect_state\<close> as they
  were, so the next message that is sent is written to the freed bufferevent.
\<close>

theorem inner_long_message_use_after_free:
  assumes "link_ok s" "in_normal s = Some be" "in_state s = 2" "\<not> in_force_close s" "in_bevs s be = Some b"
    "4 \<le> length (bv_in b)" "204800 < le_val (take 4 (bv_in b))" "mq_content (in_q_send s) \<noteq> []"
  shows "\<exists>s'. inner_cb_read be s = Some s' \<and> in_normal s' = Some be \<and> in_state s' = 2 \<and> in_bevs s' be = None \<and>
    inner_cb_time_logic nb cr s' = None"
proof -
  from inner_close_connect_spec [OF assms(1,5)] obtain s' where s': "inner_close_connect be s = Some s'"
    "in_bevs s' = (in_bevs s)(be := None)" "in_normal s' = in_normal s" "in_state s' = in_state s" "in_middle s' = in_middle s"
    "mq_ok (in_q_recv s')" "in_q_send s' = in_q_send s" "\<forall>i. mi_full (in_mem s' i)" by blast
  then have r: "inner_cb_read be s = Some s'"
    using assms(5-7) by (subst inner_cb_read.simps) (simp add: inner_packet_def)
  have "link_lost s'" using s' assms(1,2) by (simp add: link_defs)
  from lost_time [OF this, of nb cr] show ?thesis using r s' assms(2,3,8) by (auto split: option.splits)
qed

end
