(* ===== verification/ThreadHttp.thy ===== *)
theory ThreadHttp
  imports Channel Bufferevent MsgStruct
begin

text \<open>
  The HTTP client thread (\<open>common/thread_http.h\<close>): messages from Lua are sent one at a
  time as GET requests over one connection, which is opened when there is something
  to send. The body of a message is URL-encoded into the request line. \<open>ht_state\<close> is
  \<open>connect_state\<close>: 0 new, 1 connecting, 2 connected.
\<close>

section \<open>The state\<close>

record http =
  ht_be :: "bev option"
  ht_state :: int
  ht_ip :: bytes
  ht_pool :: msg_pool
  ht_mem :: "nat \<Rightarrow> msg_http"
  ht_q :: "nat msg_queue"

abbreviation ascii :: "string \<Rightarrow> bytes" where
  "ascii s \<equiv> map of_char s"

definition http_get :: bytes where
  "http_get = ascii ''GET ''"

definition http_host :: bytes where
  "http_host = ascii '' HTTP/1.1'' @ [10] @ ascii ''Host:''"

definition http_end :: bytes where
  "http_end = [10, 10]"

text \<open>\<open>urlencode[i]\<close>: empty for letters and digits, otherwise \<open>%XX\<close>.\<close>

definition hex_digit :: "byte \<Rightarrow> byte" where
  "hex_digit d = (if d < 10 then 48 + d else 55 + d)"

definition urlencode :: "byte \<Rightarrow> bytes" where
  "urlencode i =
     (if \<not> (48 \<le> i \<and> i \<le> 57 \<or> 65 \<le> i \<and> i \<le> 90 \<or> 97 \<le> i \<and> i \<le> 122)
      then [37, hex_digit (i div 16), hex_digit (i mod 16)] else [])"

section \<open>The callbacks\<close>

definition http_release :: "nat \<Rightarrow> http \<Rightarrow> http" where
  "http_release i s = s\<lparr>ht_pool := snd (mp_free i (ht_pool s))\<rparr>"

text \<open>The queue is emptied when the connection ends.\<close>

partial_function (option) http_discard :: "http \<Rightarrow> http option" where
  "http_discard s =
     (if mq_getfront (ht_q s) = None then Some s
      else case mq_pop (ht_q s) of
        (None, q) \<Rightarrow> None
      | (Some i, q) \<Rightarrow> http_discard (http_release i (s\<lparr>ht_q := q\<rparr>)))"

definition http_cb_event :: "int \<Rightarrow> http \<Rightarrow> http option" where
  "http_cb_event what s =
     (if bit what 7 then Some (s\<lparr>ht_state := 2\<rparr>)
      else if ht_be s = None then None
      else http_discard (s\<lparr>ht_be := None\<rparr>))"

text \<open>\<open>cb_read\<close> throws the response away.\<close>

definition http_cb_read :: "http \<Rightarrow> http option" where
  "http_cb_read s = do { b \<leftarrow> ht_be s; Some (s\<lparr>ht_be := Some (b\<lparr>bv_in := []\<rparr>)\<rparr>) }"

text \<open>The encoding loop into \<open>buf\<close>; \<open>None\<close> is the early return for a full buffer.\<close>

fun http_encode :: "bytes \<Rightarrow> bytes \<Rightarrow> bytes option" where
  "http_encode [] buf = Some buf"
| "http_encode (t # ts) buf =
     (if urlencode t \<noteq> [] then
        if 524288 < length buf + 3 then None else http_encode ts (buf @ urlencode t)
      else if 524288 \<le> length buf then None else http_encode ts (buf @ [t]))"

definition http_too_long :: "msg_http \<Rightarrow> int \<Rightarrow> bytes \<Rightarrow> bool" where
  "http_too_long m n ip \<longleftrightarrow>
     524288 < size_t_of (int (length http_get + 1 + (length http_host + 1) + (length http_end + 1)) + n + mh_url_buf_len m + int (length ip))"

text \<open>What \<open>cb_time\<close> does with a message: the bytes written, if it gets that far.\<close>

definition http_request :: "msg_http \<Rightarrow> bytes \<Rightarrow> (bytes option) option" where
  "http_request m ip =
     (if mh_buf_len m = 0 then Some None
      else if http_too_long m (mh_buf_len m) ip then Some None
      else do {
        body \<leftarrow> iload_block (mh_buf m) 0 (mh_buf_len m);
        case http_encode body [] of
          None \<Rightarrow> Some None
        | Some enc \<Rightarrow>
            if http_too_long m (int (length enc)) ip then Some None
            else do {
              url \<leftarrow> iload_block (mh_urlBuf m) 0 (mh_url_buf_len m);
              Some (Some (http_get @ url @ enc @ http_host @ ip @ http_end))
            }
      })"

text \<open>
  \<open>nb\<close> is the new bufferevent, if \<open>bufferevent_socket_new\<close> gives one, and \<open>cr\<close> what
  \<open>bufferevent_socket_connect\<close> comes to; when it is refused, \<open>cb_event\<close> runs inside of the call.
\<close>

definition http_cb_time :: "bev option \<Rightarrow> connect_result \<Rightarrow> http \<Rightarrow> http option" where
  "http_cb_time nb cr s =
     (if mq_getfront (ht_q s) = None then Some s
      else
        let s1 = (if ht_be s = None then (case nb of None \<Rightarrow> s | Some b \<Rightarrow> s\<lparr>ht_be := Some b, ht_state := 0\<rparr>) else s)
        in case ht_be s1 of
          None \<Rightarrow> Some s1
        | Some b \<Rightarrow>
            if ht_state s1 = 0 then
              (case cr of
                 No_socket \<Rightarrow> Some s1
               | Refused \<Rightarrow> http_cb_event BEV_EVENT_ERROR s1
               | Connecting fd \<Rightarrow> Some (s1\<lparr>ht_be := Some (b\<lparr>bv_fd := fd\<rparr>), ht_state := 1\<rparr>))
            else if ht_state s1 = 1 then Some s1
            else do {
              let (m, q) = mq_pop (ht_q s1) in do {
                i \<leftarrow> m;
                r \<leftarrow> http_request (ht_mem s1 i) (ht_ip s1);
                Some (http_release i (s1\<lparr>ht_q := q,
                  ht_be := Some (case r of None \<Rightarrow> b | Some d \<Rightarrow> b\<lparr>bv_out := bv_out b @ d\<rparr>)\<rparr>))
              }
            })"

text \<open>\<open>send\<close>, called from Lua: a full pool is only logged; the result says whether it was queued.\<close>

definition http_send :: "bytes \<Rightarrow> bytes \<Rightarrow> http \<Rightarrow> (bool \<times> http) option" where
  "http_send url p s =
     (case mp_alloc (ht_pool s) of
        (None, pl) \<Rightarrow> Some (False, s\<lparr>ht_pool := pl\<rparr>)
      | (Some i, pl) \<Rightarrow> do {
          m1 \<leftarrow> mh_write_string p (s32 (int (length p))) ((ht_mem s i)\<lparr>mh_buf_len := 0\<rparr>);
          m2 \<leftarrow> mh_write_url_string url (s32 (int (length url))) (m1\<lparr>mh_url_buf_len := 0\<rparr>);
          Some (True, s\<lparr>ht_pool := pl, ht_mem := (ht_mem s)(i := m2), ht_q := snd (mq_push (Some i) (ht_q s))\<rparr>)
        })"

section \<open>The encoding\<close>

definition url_code :: "byte \<Rightarrow> bytes" where
  "url_code t = (if urlencode t = [] then [t] else urlencode t)"

definition url_body :: "bytes \<Rightarrow> bytes" where
  "url_body ts = concat (map url_code ts)"

text \<open>The decoder of the other side.\<close>

definition hex_value :: "byte \<Rightarrow> byte" where
  "hex_value c = (if c < 58 then c - 48 else c - 55)"

fun url_decode :: "bytes \<Rightarrow> bytes" where
  "url_decode [] = []"
| "url_decode (c # cs) =
     (if c = 37 then (case cs of a # b # ds \<Rightarrow> (16 * hex_value a + hex_value b) # url_decode ds | _ \<Rightarrow> [])
      else c # url_decode cs)"

lemma length_url_code: "length (url_code t) \<le> 3" "url_code t \<noteq> []"
  by (simp_all add: url_code_def urlencode_def)

lemma hex_pairs: "16 * hex_value (hex_digit (t div 16)) + hex_value (hex_digit (t mod 16)) = t"
proof -
  have v: "hex_value (hex_digit d) = d" if "d < 16" for d :: byte
  proof -
    have "\<forall>n < 16. hex_value (hex_digit (word_of_nat n)) = word_of_nat n" by code_simp
    moreover have "unat d < 16" using that by (simp add: word_less_nat_alt)
    ultimately have "hex_value (hex_digit (word_of_nat (unat d))) = word_of_nat (unat d)" by blast
    then show ?thesis by simp
  qed
  have "t mod 16 < 16" by (simp add: word_mod_less_divisor)
  moreover have "t div 16 < 16"
  proof -
    have "unat (t div 16) = unat t div 16" by (simp add: unat_div)
    moreover have "unat t < 256" by (rule unat_byte_less)
    ultimately show ?thesis by (simp add: word_less_nat_alt)
  qed
  ultimately have "16 * hex_value (hex_digit (t div 16)) + hex_value (hex_digit (t mod 16)) = 16 * (t div 16) + t mod 16"
    by (simp add: v)
  also have "\<dots> = t" using div_mult_mod_eq [of t 16] by (simp add: mult.commute)
  finally show ?thesis .
qed

lemma url_decode_code: "url_decode (url_code t @ rest) = t # url_decode rest"
proof (cases "urlencode t = []")
  case True
  then have "t \<noteq> 37" by (auto simp: urlencode_def)
  then show ?thesis using True by (simp add: url_code_def)
next
  case False
  then have "url_code t = [37, hex_digit (t div 16), hex_digit (t mod 16)]"
    by (auto simp: url_code_def urlencode_def split: if_splits)
  then show ?thesis by (simp add: hex_pairs)
qed

lemma url_decode_body: "url_decode (url_body ts) = ts"
  by (induction ts) (simp_all add: url_body_def url_decode_code)

lemma http_encode_eq:
  "length buf \<le> 524288 \<Longrightarrow>
    http_encode ts buf = (if length buf + length (url_body ts) \<le> 524288 then Some (buf @ url_body ts) else None)"
proof (induction ts arbitrary: buf)
  case Nil
  then show ?case by (simp add: url_body_def)
next
  case (Cons t ts)
  have b: "url_body (t # ts) = url_code t @ url_body ts" by (simp add: url_body_def)
  show ?case
  proof (cases "urlencode t = []")
    case True
    then have c: "url_code t = [t]" by (simp add: url_code_def)
    show ?thesis using True Cons.IH [of "buf @ [t]"] Cons.prems by (simp add: b c)
  next
    case False
    then have "length (urlencode t) = 3" by (auto simp: urlencode_def split: if_splits)
    moreover from this have c: "url_code t = urlencode t" "length (url_code t) = 3" by (auto simp: url_code_def)
    ultimately show ?thesis using False Cons.IH [of "buf @ urlencode t"] Cons.prems by (simp add: b)
  qed
qed

section \<open>Sending\<close>

definition mh_full :: "msg_http \<Rightarrow> bool" where
  "mh_full m \<longleftrightarrow> mh_ok m"

definition http_ok :: "http \<Rightarrow> bool" where
  "http_ok s \<longleftrightarrow> mbox_ok mh_full (ht_pool s) (ht_mem s) (ht_q s) {#} \<and> length (ht_ip s) < 128"

definition http_line :: "bytes \<Rightarrow> msg_http \<Rightarrow> bytes option" where
  "http_line ip m =
     (let body = url_body (mh_content m); n = 24 + length (mh_url m) + length ip
      in if mh_content m \<noteq> [] \<and> length body + n \<le> 524288
         then Some (http_get @ mh_url m @ body @ http_host @ ip @ http_end) else None)"

lemma length_url_body: "length ts \<le> length (url_body ts)"
proof (induction ts)
  case (Cons t ts)
  have "1 \<le> length (url_code t)" using length_url_code(2) [of t] by (cases "url_code t") auto
  then show ?case using Cons by (simp add: url_body_def)
qed simp

lemma http_too_long_eq:
  assumes "mh_full m" "0 \<le> n" "n \<le> 524288" "length ip < 128"
  shows "http_too_long m n ip \<longleftrightarrow> 524288 < 24 + n + int (length (mh_url m)) + int (length ip)"
proof -
  have r: "int (length (mh_url m)) = mh_url_buf_len m" "mh_url_buf_len m \<le> 65536" "0 \<le> mh_url_buf_len m"
    using assms(1) buf_ok_length [of 65536 "mh_urlBuf m" "mh_url_buf_len m"]
    by (auto simp: mh_full_def mh_ok_def mh_url_def buf_ok_def)
  have c: "int (length http_get + 1 + (length http_host + 1) + (length http_end + 1)) = 24"
    by (simp add: http_get_def http_host_def http_end_def)
  show ?thesis unfolding http_too_long_def c using r assms by simp
qed

lemma http_request_eq:
  assumes "mh_full m" "length ip < 128"
  shows "http_request m ip = Some (http_line ip m)"
proof -
  have bok: "buf_ok 524288 (mh_buf m) (mh_buf_len m)" "buf_ok 65536 (mh_urlBuf m) (mh_url_buf_len m)"
    using assms(1) by (auto simp: mh_full_def mh_ok_def)
  have n: "int (length (mh_content m)) = mh_buf_len m" "0 \<le> mh_buf_len m" "mh_buf_len m \<le> 524288"
    using buf_ok_length [OF bok(1)] bok(1) by (auto simp: mh_content_def buf_ok_def)
  have ld: "iload_block (mh_buf m) 0 (mh_buf_len m) = Some (mh_content m)"
    "iload_block (mh_urlBuf m) 0 (mh_url_buf_len m) = Some (mh_url m)"
    using bok by (auto simp: mem_defs buf_ok_def mh_content_def mh_url_def block_at_def)
  let ?body = "url_body (mh_content m)"
  have le: "length (mh_content m) \<le> length ?body" by (rule length_url_body)
  have z: "mh_buf_len m = 0 \<longleftrightarrow> mh_content m = []" using n by auto
  note t1 = http_too_long_eq [OF assms(1) n(2,3) assms(2)]
  show ?thesis
  proof (cases "mh_content m = []")
    case True
    then show ?thesis using z by (simp add: http_request_def http_line_def)
  next
    case ne: False
    show ?thesis
    proof (cases "524288 < length ?body")
      case True
      then show ?thesis using ne z t1 n ld
        by (simp add: http_request_def http_line_def http_encode_eq Let_def)
    next
      case False
      have t2: "http_too_long m (int (length ?body)) ip \<longleftrightarrow> 524288 < 24 + int (length ?body) + int (length (mh_url m)) + int (length ip)"
        using False by (intro http_too_long_eq [OF assms(1) _ _ assms(2)]) auto
      show ?thesis
      proof (cases "length ?body + (24 + length (mh_url m) + length ip) \<le> 524288")
        case True
        then have "\<not> http_too_long m (mh_buf_len m) ip" "\<not> http_too_long m (int (length ?body)) ip"
          unfolding t1 t2 using le n(1) by linarith+
        then show ?thesis using ne z ld False True
          by (simp add: http_request_def http_line_def http_encode_eq Let_def)
      next
        case big: False
        then have "http_too_long m (int (length ?body)) ip" unfolding t2 by linarith
        then show ?thesis using ne z ld False big
          by (simp add: http_request_def http_line_def http_encode_eq Let_def)
      qed
    qed
  qed
qed

section \<open>Properties\<close>

text \<open>
  C35. What a connected \<open>thread_http\<close> does with the next message: if its body is not
  empty and the request fits the buffer, it writes one GET request whose target is
  the URL followed by the encoded body, from which the body is decoded again; if not,
  it writes nothing. The message is given back to the pool either way, the others
  stay queued, and no buffer is overrun.
\<close>

theorem http_sends_request:
  assumes "http_ok s" "mbox_view (ht_mem s) (ht_q s) = m # ms" "ht_be s = Some b" "ht_state s = 2"
  shows "\<exists>s'. http_cb_time nb cr s = Some s' \<and> http_ok s' \<and> mbox_view (ht_mem s') (ht_q s') = ms \<and>
    ht_be s' = Some (b\<lparr>bv_out := bv_out b @ (case http_line (ht_ip s) m of None \<Rightarrow> [] | Some d \<Rightarrow> d)\<rparr>) \<and>
    url_decode (url_body (mh_content m)) = mh_content m"
proof -
  have box: "mbox_ok mh_full (ht_pool s) (ht_mem s) (ht_q s) {#}" and ip: "length (ht_ip s) < 128"
    using assms(1) by (auto simp: http_ok_def)
  from mbox_pop [OF box assms(2)] obtain i q where q: "mq_pop (ht_q s) = (Some i, q)"
    "mbox_ok mh_full (ht_pool s) (ht_mem s) q {#i#}" "ht_mem s i = m" "mbox_view (ht_mem s) q = ms" by blast
  from mbox_free [OF q(2)] obtain p where p: "mp_free i (ht_pool s) = (True, p)" "mbox_ok mh_full p (ht_mem s) q {#}" by blast
  have f: "mh_full m" using box q(3) by (auto simp: mbox_ok_def)
  have g: "mq_getfront (ht_q s) \<noteq> None"
    using assms(2) box by (auto simp: mbox_ok_def mbox_view_def mq.peek_front split: list.split)
  have "http_cb_time nb cr s = Some (s\<lparr>ht_q := q,
      ht_be := Some (b\<lparr>bv_out := bv_out b @ (case http_line (ht_ip s) m of None \<Rightarrow> [] | Some d \<Rightarrow> d)\<rparr>), ht_pool := p\<rparr>)"
    using assms(3,4) g q(1,3) p(1) http_request_eq [OF f ip]
    by (auto simp: http_cb_time_def http_release_def Let_def split: option.splits)
  then show ?thesis using p(2) q(4) ip by (simp add: http_ok_def url_decode_body)
qed

definition mh_sample :: "bytes \<Rightarrow> bytes \<Rightarrow> msg_http" where
  "mh_sample url body = \<lparr>mh_buf = blit (replicate 524288 0) 0 body, mh_urlBuf = blit (replicate 65536 0) 0 url,
     mh_buf_len = int (length body), mh_url_buf_len = int (length url), mh_fd = 0\<rparr>"

lemma mh_sample_full: "length body \<le> 524288 \<Longrightarrow> length url \<le> 65536 \<Longrightarrow> mh_full (mh_sample url body)"
  by (simp add: mh_full_def mh_ok_def mh_sample_def buf_ok_def)

lemma mh_sample_content:
  "length body \<le> 524288 \<Longrightarrow> length url \<le> 65536 \<Longrightarrow> mh_content (mh_sample url body) = body \<and> mh_url (mh_sample url body) = url"
  by (simp add: mh_content_def mh_url_def mh_sample_def blit_def)

text \<open>Two characters of a body, one of which is encoded.\<close>

theorem http_sends_request_witness:
  "\<exists>s s' b. mbox_view (ht_mem s) (ht_q s) = [mh_sample [47] [97, 38]] \<and> http_cb_time None No_socket s = Some s' \<and>
    ht_be s' = Some b \<and> bv_out b = http_get @ [47, 97, 37, 50, 54] @ http_host @ [49] @ http_end"
proof -
  let ?m = "mh_sample [47] [97, 38]"
  define s0 where "s0 = \<lparr>ht_be = Some \<lparr>bv_fd = 4, bv_in = [], bv_out = []\<rparr>, ht_state = 2, ht_ip = [49],
    ht_pool = mp_init 2, ht_mem = (\<lambda>_. ?m), ht_q = mq_init 3 False\<rparr>"
  have f: "mh_full ?m" by (rule mh_sample_full) simp_all
  have ct: "mh_content ?m = [97, 38]" "mh_url ?m = [47]" using mh_sample_content [of "[97, 38]" "[47]"] by auto
  have "mbox_ok mh_full (mp_init 2) (\<lambda>_. ?m) (mq_init (2 + 1) False) {#}" by (rule mbox_init) (simp add: f)
  then have box: "mbox_ok mh_full (ht_pool s0) (ht_mem s0) (ht_q s0) {#}" by (simp add: s0_def)
  have "mp_avail (ht_pool s0) \<noteq> {}" by (simp add: s0_def mp_avail_init lessThan_empty_iff)
  from mbox_alloc_some [OF box this] obtain i p where al: "mp_alloc (ht_pool s0) = (Some i, p)" by blast
  from mbox_push [OF mbox_alloc(1) [OF box al]] obtain q where q: "mbox_ok mh_full p (ht_mem s0) q {#}"
    "mbox_view (ht_mem s0) q = mbox_view (ht_mem s0) (ht_q s0) @ [ht_mem s0 i]" by blast
  define s where "s = s0\<lparr>ht_pool := p, ht_q := q\<rparr>"
  have v: "mbox_view (ht_mem s) (ht_q s) = [?m]" using q(2) by (simp add: s_def s0_def mbox_view_def)
  have ok: "http_ok s" using q(1) by (simp add: http_ok_def s_def s0_def)
  have be: "ht_be s = Some \<lparr>bv_fd = 4, bv_in = [], bv_out = []\<rparr>" "ht_state s = 2" "ht_ip s = [49]" by (simp_all add: s_def s0_def)
  have "url_body [97, 38] = [97, 37, 50, 54]" by code_simp
  then have "http_line [49] ?m = Some (http_get @ [47, 97, 37, 50, 54] @ http_host @ [49] @ http_end)"
    by (simp add: http_line_def ct)
  with http_sends_request [OF ok v be(1,2), of None No_socket] v be(3) show ?thesis by auto
qed

end
