(* ===== verification/Encoding.thy ===== *)
theory Encoding
  imports Prelude
begin

unbundle bit_operations_syntax

text \<open>
  The string checks of the mongo driver (\<open>mongo_c_driver/encoding.c\<close>). They get the
  \<open>bson\<close> only for its error bits, so the model takes and returns these as an \<open>int\<close>;
  a status \<open>BSON_OK\<close> is \<open>True\<close>. A string is given with its length, so it is a byte
  list; the byte behind the end that \<open>string[0]\<close> reads from an empty string is its
  terminating zero. \<open>utf8_text\<close> is the reference: a sequence of Unicode scalar values in the
  bit layout of UTF-8.
\<close>

definition BSON_SIZE_OVERFLOW :: int where "BSON_SIZE_OVERFLOW = 1"
definition BSON_NOT_UTF8 :: int where "BSON_NOT_UTF8 = 2"
definition BSON_FIELD_HAS_DOT :: int where "BSON_FIELD_HAS_DOT = 4"
definition BSON_FIELD_INIT_DOLLAR :: int where "BSON_FIELD_INIT_DOLLAR = 8"
definition BSON_ALREADY_FINISHED :: int where "BSON_ALREADY_FINISHED = 16"
definition BSON_NOT_IN_SUBOBJECT :: int where "BSON_NOT_IN_SUBOBJECT = 32"
definition BSON_DOES_NOT_OWN_DATA :: int where "BSON_DOES_NOT_OWN_DATA = 64"

lemmas bson_error_bits = BSON_SIZE_OVERFLOW_def BSON_NOT_UTF8_def BSON_FIELD_HAS_DOT_def
  BSON_FIELD_INIT_DOLLAR_def BSON_ALREADY_FINISHED_def BSON_NOT_IN_SUBOBJECT_def
  BSON_DOES_NOT_OWN_DATA_def

section \<open>The checks\<close>

definition trailingBytesForUTF8 :: "nat list" where
  "trailingBytesForUTF8 = concat (replicate 6 (replicate 32 0)) @ replicate 32 1
     @ replicate 16 2 @ replicate 8 3 @ replicate 4 4 @ replicate 4 5"

definition trail_byte :: "byte \<Rightarrow> bool" where
  "trail_byte a \<longleftrightarrow> \<not> (a < 0x80 \<or> a > 0xBF)"

definition legal_lead :: "byte \<Rightarrow> bool" where
  "legal_lead s \<longleftrightarrow> \<not> (s \<ge> 0x80 \<and> s < 0xC2) \<and> \<not> s > 0xF4"

definition legal_second :: "byte \<Rightarrow> byte \<Rightarrow> bool" where
  "legal_second s a \<longleftrightarrow> \<not> a > 0xBF \<and>
     (if s = 0xE0 then \<not> a < 0xA0
      else if s = 0xF0 then \<not> a < 0x90
      else if s = 0xF4 then \<not> a > 0x8F
      else \<not> a < 0x80)"

definition isLegalUTF8 :: "bytes \<Rightarrow> nat \<Rightarrow> bool" where
  "isLegalUTF8 source n \<longleftrightarrow>
     (if n \<notin> {1, 2, 3, 4} then False
      else (n \<ge> 4 \<longrightarrow> trail_byte (source ! 3)) \<and>
        (n \<ge> 3 \<longrightarrow> trail_byte (source ! 2)) \<and>
        (n \<ge> 2 \<longrightarrow> legal_second (source ! 0) (source ! 1)) \<and>
        legal_lead (source ! 0))"

definition char_at :: "bytes \<Rightarrow> nat \<Rightarrow> byte" where
  "char_at s i = (if i < length s then s ! i else 0)"

definition bson_string_is_db_ref :: "bytes \<Rightarrow> bool" where
  "bson_string_is_db_ref s =
     (if length s \<ge> 4 then char_at s 1 = 0x72 \<and> char_at s 2 = 0x65 \<and> char_at s 3 = 0x66
      else if length s \<ge> 3 then
        (char_at s 1 = 0x69 \<and> char_at s 2 = 0x64) \<or> (char_at s 1 = 0x64 \<and> char_at s 2 = 0x62)
      else False)"

function validate_from :: "bool \<Rightarrow> bool \<Rightarrow> bytes \<Rightarrow> int \<Rightarrow> bool \<times> int" where
  "validate_from check_utf8 check_dot [] err = (True, err)"
| "validate_from check_utf8 check_dot (c # s) err =
     (let err1 = if check_dot \<and> c = 0x2E then err OR BSON_FIELD_HAS_DOT else err in
      if check_utf8 then
        let n = trailingBytesForUTF8 ! unat c + 1 in
        if n > length (c # s) then (False, err1 OR BSON_NOT_UTF8)
        else if \<not> isLegalUTF8 (c # s) n then (False, err1 OR BSON_NOT_UTF8)
        else validate_from check_utf8 check_dot (drop n (c # s)) err1
      else validate_from check_utf8 check_dot s err1)"
  by pat_completeness auto

termination
  by (relation "measure (\<lambda>(u, d, s, e). length s)") auto

definition bson_validate_string :: "int \<Rightarrow> bytes \<Rightarrow> bool \<Rightarrow> bool \<Rightarrow> bool \<Rightarrow> bool \<times> int" where
  "bson_validate_string err string check_utf8 check_dot check_dollar =
     (let err1 = if check_dollar \<and> char_at string 0 = 0x24 \<and> \<not> bson_string_is_db_ref string
        then err OR BSON_FIELD_INIT_DOLLAR else err in
      validate_from check_utf8 check_dot string err1)"

definition bson_check_string :: "int \<Rightarrow> bytes \<Rightarrow> bool \<times> int" where
  "bson_check_string err string = bson_validate_string err string True False False"

definition bson_check_field_name :: "int \<Rightarrow> bytes \<Rightarrow> bool \<times> int" where
  "bson_check_field_name err string = bson_validate_string err string True True True"

section \<open>The layout of UTF-8\<close>

definition utf8_char :: "nat \<Rightarrow> bytes" where
  "utf8_char c =
     (if c < 0x80 then [of_nat c]
      else if c < 0x800 then [of_nat (0xC0 + c div 64), of_nat (0x80 + c mod 64)]
      else if c < 0x10000 then
        [of_nat (0xE0 + c div 4096), of_nat (0x80 + c div 64 mod 64), of_nat (0x80 + c mod 64)]
      else [of_nat (0xF0 + c div 262144), of_nat (0x80 + c div 4096 mod 64),
        of_nat (0x80 + c div 64 mod 64), of_nat (0x80 + c mod 64)])"

text \<open>UTF-8 (RFC 3629): scalar values, that is code points without the surrogates, in this layout.\<close>

definition scalar_value :: "nat \<Rightarrow> bool" where
  "scalar_value c \<longleftrightarrow> c < 0x110000 \<and> \<not> (0xD800 \<le> c \<and> c < 0xE000)"

definition utf8_text :: "bytes \<Rightarrow> bool" where
  "utf8_text s \<longleftrightarrow> (\<exists>cs. (\<forall>c \<in> set cs. scalar_value c) \<and> s = concat (map utf8_char cs))"

text \<open>
  The two places where the check and UTF-8 differ: a byte \<open>0xED\<close> before the second byte of a
  surrogate, for which the switch of \<open>isLegalUTF8\<close> has no case, and a byte \<open>0xF4\<close> before a byte
  below \<open>0x80\<close>, for which its case tests the upper bound only.
\<close>

definition utf8_gap :: "bytes \<Rightarrow> bool" where
  "utf8_gap s \<longleftrightarrow> (\<exists>i. Suc i < length s \<and>
     (s ! i = 0xED \<and> s ! Suc i \<ge> 0xA0 \<or> s ! i = 0xF4 \<and> s ! Suc i < 0x80))"

text \<open>
  What the loop passes over in one step, used in the proofs: an encoded code point, surrogates included, or
  \<open>utf8_slip\<close>, which is not UTF-8. \<open>utf8_accepted\<close> is what the check accepts, not what it should accept.
\<close>

definition utf8_slip :: "bytes \<Rightarrow> bool" where
  "utf8_slip x \<longleftrightarrow> length x = 4 \<and> x ! 0 = 0xF4 \<and> x ! 1 < 0x80 \<and> 0x80 \<le> x ! 2 \<and> x ! 2 < 0xC0
     \<and> 0x80 \<le> x ! 3 \<and> x ! 3 < 0xC0"

definition utf8_chunk :: "bytes \<Rightarrow> bool" where
  "utf8_chunk x \<longleftrightarrow> (\<exists>c < 0x110000. x = utf8_char c) \<or> utf8_slip x"

definition utf8_accepted :: "bytes \<Rightarrow> bool" where
  "utf8_accepted s \<longleftrightarrow> (\<exists>xs. (\<forall>x \<in> set xs. utf8_chunk x) \<and> s = concat xs)"

lemma trailing_nth:
  assumes "i < 256"
  shows "trailingBytesForUTF8 ! i =
     (if i < 192 then 0 else if i < 224 then 1 else if i < 240 then 2
      else if i < 248 then 3 else if i < 252 then 4 else (5 :: nat))"
proof -
  have "concat (replicate 6 (replicate 32 (0 :: nat))) = replicate 192 0" by code_simp
  with assms show ?thesis
    by (auto simp: trailingBytesForUTF8_def nth_append)
qed

lemma byte_of_unat: "of_nat n = (b :: byte) \<longleftrightarrow> n mod 256 = unat b"
  by (auto simp: word_unat_eq_iff unat_of_nat)

lemma trail_byte_unat: "trail_byte a \<longleftrightarrow> 128 \<le> unat a \<and> unat a < 192"
  by (auto simp: trail_byte_def word_less_nat_alt)

lemma legal_lead_unat:
  "legal_lead s \<longleftrightarrow> unat s < 128 \<or> 194 \<le> unat s \<and> unat s \<le> 244"
  by (auto simp: legal_lead_def word_less_nat_alt word_le_nat_alt)

lemma legal_second_unat:
  "legal_second s a \<longleftrightarrow> unat a < 192 \<and>
     (if unat s = 224 then 160 \<le> unat a else if unat s = 240 then 144 \<le> unat a
      else if unat s = 244 then unat a < 144 else 128 \<le> unat a)"
  by (auto simp: legal_second_def word_less_nat_alt word_le_nat_alt word_unat_eq_iff)

lemma digits_64:
  "y < 64 \<Longrightarrow> (x * 64 + y) div 64 = (x :: nat)"
  "y < 64 \<Longrightarrow> (x * 64 + y) mod 64 = (y :: nat)"
  by auto

definition byte_plus :: "nat \<Rightarrow> nat \<Rightarrow> byte" where
  "byte_plus k x = of_nat (k + x)"

lemma unat_byte_plus [simp]: "k + x < 256 \<Longrightarrow> unat (byte_plus k x) = k + x"
  by (simp only: byte_plus_def unat_of_byte)

lemma byte_plus_unat: "k \<le> unat b \<Longrightarrow> byte_plus k (unat b - k) = b"
  by (simp add: byte_plus_def del: of_nat_add)

lemma plane_bounds:
  assumes "16 \<le> (q :: nat)" "q < 272"
  shows "q div 64 \<le> 4" "q div 64 = 0 \<Longrightarrow> 16 \<le> q mod 64" "q div 64 = 4 \<Longrightarrow> q mod 64 < 16"
  using assms div_mult_mod_eq [of q 64] by linarith+

lemma code_point_bound:
  "x < 272 \<Longrightarrow> y < 64 \<Longrightarrow> z < 64 \<Longrightarrow> (x * 64 + y) * 64 + z < (0x110000 :: nat)"
  by simp

lemma utf8_char_cases:
  assumes "c < 0x110000"
  obtains (one) "c < 128" "utf8_char c = [of_nat c]"
  | (two) x y where "2 \<le> x" "x < 32" "y < 64" "utf8_char c = [byte_plus 192 x, byte_plus 128 y]"
  | (three) x y z where "x < 16" "y < 64" "z < 64" "x = 0 \<Longrightarrow> 32 \<le> y"
      "utf8_char c = [byte_plus 224 x, byte_plus 128 y, byte_plus 128 z]"
  | (four) w x y z where "w \<le> 4" "x < 64" "y < 64" "z < 64" "w = 0 \<Longrightarrow> 16 \<le> x"
      "w = 4 \<Longrightarrow> x < 16"
      "utf8_char c = [byte_plus 240 w, byte_plus 128 x, byte_plus 128 y, byte_plus 128 z]"
proof -
  consider "c < 128" | "128 \<le> c" "c < 2048" | "2048 \<le> c" "c < 65536" | "65536 \<le> c"
    by linarith
  then show ?thesis
  proof cases
    case 1
    then show ?thesis using one by (simp add: utf8_char_def byte_plus_def)
  next
    case 2
    then show ?thesis using two [of "c div 64" "c mod 64"] by (simp add: utf8_char_def byte_plus_def)
  next
    case 3
    then show ?thesis
      using three [of "c div 4096" "c div 64 mod 64" "c mod 64"]
      by (simp add: utf8_char_def byte_plus_def)
  next
    case 4
    have q: "c div 262144 = c div 4096 div 64" by (simp add: div_mult2_eq)
    have "16 \<le> c div 4096" "c div 4096 < 272" using 4 assms by auto
    then have "c div 4096 div 64 \<le> 4" "c div 4096 div 64 = 0 \<Longrightarrow> 16 \<le> c div 4096 mod 64"
      "c div 4096 div 64 = 4 \<Longrightarrow> c div 4096 mod 64 < 16"
      using plane_bounds by blast+
    then show ?thesis
      using four [of "c div 262144" "c div 4096 mod 64" "c div 64 mod 64" "c mod 64"] 4
      by (simp add: utf8_char_def byte_plus_def q)
  qed
qed

lemma utf8_char_make:
  "c < 128 \<Longrightarrow> utf8_char c = [of_nat c]"
  "2 \<le> x \<Longrightarrow> x < 32 \<Longrightarrow> y < 64 \<Longrightarrow>
     utf8_char (x * 64 + y) = [byte_plus 192 x, byte_plus 128 y]"
  "x < 16 \<Longrightarrow> y < 64 \<Longrightarrow> z < 64 \<Longrightarrow> (x = 0 \<Longrightarrow> 32 \<le> y) \<Longrightarrow>
     utf8_char ((x * 64 + y) * 64 + z) = [byte_plus 224 x, byte_plus 128 y, byte_plus 128 z]"
  "w \<le> 4 \<Longrightarrow> x < 64 \<Longrightarrow> y < 64 \<Longrightarrow> z < 64 \<Longrightarrow> (w = 0 \<Longrightarrow> 16 \<le> x) \<Longrightarrow>
     utf8_char (((w * 64 + x) * 64 + y) * 64 + z)
       = [byte_plus 240 w, byte_plus 128 x, byte_plus 128 y, byte_plus 128 z]"
proof -
  show "c < 128 \<Longrightarrow> utf8_char c = [of_nat c]" for c
    by (simp add: utf8_char_def byte_plus_def)
  show "2 \<le> x \<Longrightarrow> x < 32 \<Longrightarrow> y < 64 \<Longrightarrow>
     utf8_char (x * 64 + y) = [byte_plus 192 x, byte_plus 128 y]" for x y
    by (simp add: utf8_char_def byte_plus_def)
  show "x < 16 \<Longrightarrow> y < 64 \<Longrightarrow> z < 64 \<Longrightarrow> (x = 0 \<Longrightarrow> 32 \<le> y) \<Longrightarrow>
     utf8_char ((x * 64 + y) * 64 + z) = [byte_plus 224 x, byte_plus 128 y, byte_plus 128 z]"
    for x y z
  proof -
    assume a: "x < 16" "y < 64" "z < 64" "x = 0 \<Longrightarrow> 32 \<le> y"
    define c where "c = (x * 64 + y) * 64 + z"
    have "c div 64 = x * 64 + y" "c mod 64 = z" "c div 64 div 64 = x" "c div 64 mod 64 = y"
      using a by (simp_all only: c_def digits_64)
    moreover have "c div 4096 = c div 64 div 64" by (simp add: div_mult2_eq)
    moreover have "\<not> c < 2048" "c < 65536" using a by (cases "x = 0"; simp add: c_def)+
    ultimately have "utf8_char c = [byte_plus 224 x, byte_plus 128 y, byte_plus 128 z]"
      by (simp add: utf8_char_def byte_plus_def)
    then show ?thesis by (simp only: c_def)
  qed
  show "w \<le> 4 \<Longrightarrow> x < 64 \<Longrightarrow> y < 64 \<Longrightarrow> z < 64 \<Longrightarrow> (w = 0 \<Longrightarrow> 16 \<le> x) \<Longrightarrow>
     utf8_char (((w * 64 + x) * 64 + y) * 64 + z)
       = [byte_plus 240 w, byte_plus 128 x, byte_plus 128 y, byte_plus 128 z]" for w x y z
  proof -
    assume a: "w \<le> 4" "x < 64" "y < 64" "z < 64" "w = 0 \<Longrightarrow> 16 \<le> x"
    define c where "c = ((w * 64 + x) * 64 + y) * 64 + z"
    have d: "c div 64 = (w * 64 + x) * 64 + y" "c div 64 div 64 = w * 64 + x"
      "c div 64 div 64 div 64 = w" "c mod 64 = z" "c div 64 mod 64 = y" "c div 64 div 64 mod 64 = x"
      using a by (simp_all only: c_def digits_64)
    moreover have "c div 4096 = c div 64 div 64" "c div 262144 = c div 64 div 64 div 64"
      by (simp_all add: div_mult2_eq)
    moreover have "\<not> c < 65536" using a by (cases "w = 0"; simp add: c_def)
    ultimately have "utf8_char c =
        [byte_plus 240 w, byte_plus 128 x, byte_plus 128 y, byte_plus 128 z]"
      by (simp add: utf8_char_def byte_plus_def)
    then show ?thesis by (simp only: c_def)
  qed
qed

lemma list_of_length:
  "2 \<le> length s \<Longrightarrow> \<exists>a b t. s = a # b # t"
  "3 \<le> length s \<Longrightarrow> \<exists>a b c t. s = a # b # c # t"
  "4 \<le> length s \<Longrightarrow> \<exists>a b c d t. s = a # b # c # d # t"
  by (simp_all add: numeral_eq_Suc Suc_le_length_iff) (metis Suc_le_length_iff)+

lemma trailing_iff:
  fixes b :: byte
  shows "trailingBytesForUTF8 ! unat b = 0 \<longleftrightarrow> unat b < 192"
    and "trailingBytesForUTF8 ! unat b = Suc 0 \<longleftrightarrow> 192 \<le> unat b \<and> unat b < 224"
    and "trailingBytesForUTF8 ! unat b = 2 \<longleftrightarrow> 224 \<le> unat b \<and> unat b < 240"
    and "trailingBytesForUTF8 ! unat b = 3 \<longleftrightarrow> 240 \<le> unat b \<and> unat b < 248"
  unfolding trailing_nth [OF unat_byte_less] by auto

lemmas utf8_unat = trail_byte_unat legal_second_unat legal_lead_unat isLegalUTF8_def

lemma utf8_chunk_char: "c < 0x110000 \<Longrightarrow> utf8_chunk (utf8_char c)"
  by (auto simp: utf8_chunk_def)

lemma take4: "take 4 (a # b # c # d # t) = [a, b, c, d]"
  by simp

lemma utf8_char_legal:
  assumes "c < 0x110000" "n = length (utf8_char c)"
  shows "isLegalUTF8 (utf8_char c @ r) n \<and> trailingBytesForUTF8 ! unat (utf8_char c ! 0) + 1 = n"
  using assms(1)
proof (cases rule: utf8_char_cases)
  case one
  then show ?thesis
    using trailing_iff(1) [of "of_nat c"] by (simp add: assms utf8_unat unat_of_byte)
next
  case (two x y)
  then show ?thesis by (simp add: assms utf8_unat trailing_nth)
next
  case (three x y z)
  then show ?thesis by (cases "x = 0"; simp add: assms utf8_unat trailing_nth)
next
  case (four w x y z)
  then show ?thesis by (cases "w = 0"; cases "w = 4"; simp add: assms utf8_unat trailing_nth)
qed

lemma legal_utf8_char:
  assumes "s \<noteq> []" "n = trailingBytesForUTF8 ! unat (s ! 0) + 1" "n \<le> length s" "isLegalUTF8 s n"
  shows "utf8_chunk (take n s)"
proof -
  have n: "n \<in> {1, 2, 3, 4}" using assms(4) by (auto simp: isLegalUTF8_def split: if_splits)
  then consider "n = 1" | "n = 2" | "n = 3" | "n = 4" by blast
  then show ?thesis
  proof cases
    case 1
    then obtain a t where s: "s = a # t" using assms(3) by (cases s) auto
    have "trailingBytesForUTF8 ! unat a = 0" "isLegalUTF8 (a # t) 1"
      using 1 assms(2,4) by (simp_all add: s)
    then have "unat a < 128" by (auto simp: utf8_unat trailing_iff)
    then have "utf8_char (unat a) = [a]" by (simp add: utf8_char_make)
    with \<open>unat a < 128\<close> show ?thesis using utf8_chunk_char [of "unat a"] by (simp add: s 1)
  next
    case 2
    then obtain a b t where s: "s = a # b # t" using assms(3) list_of_length(1) by blast
    have lead: "trailingBytesForUTF8 ! unat a = Suc 0" "isLegalUTF8 (a # b # t) 2"
      using 2 assms(2,4) by (simp_all add: s numeral_2_eq_2)
    have ab: "194 \<le> unat a" "unat a < 224" "128 \<le> unat b" "unat b < 192"
      using lead by (auto simp: utf8_unat trailing_iff split: if_splits)
    then have "utf8_char ((unat a - 192) * 64 + (unat b - 128)) = [a, b]"
      using utf8_char_make(2) [of "unat a - 192" "unat b - 128"] by (simp add: byte_plus_unat)
    with ab show ?thesis
      using utf8_chunk_char [of "(unat a - 192) * 64 + (unat b - 128)"] by (simp add: s 2)
  next
    case 3
    then obtain a b c t where s: "s = a # b # c # t" using assms(3) list_of_length(2) by blast
    have lead: "trailingBytesForUTF8 ! unat a = 2" "isLegalUTF8 (a # b # c # t) 3"
      using 3 assms(2,4) by (simp_all add: s)
    have ab: "224 \<le> unat a" "unat a < 240" "128 \<le> unat b" "unat b < 192" "128 \<le> unat c"
        "unat c < 192" "unat a = 224 \<longrightarrow> 160 \<le> unat b"
      using lead by (auto simp: utf8_unat trailing_iff split: if_splits)
    then have "utf8_char (((unat a - 224) * 64 + (unat b - 128)) * 64 + (unat c - 128)) = [a, b, c]"
      by (subst utf8_char_make(3)) (auto simp: byte_plus_unat)
    with ab show ?thesis
      using utf8_chunk_char [of "((unat a - 224) * 64 + (unat b - 128)) * 64 + (unat c - 128)"]
      by (simp add: s 3)
  next
    case 4
    then obtain a b c d t where s: "s = a # b # c # d # t" using assms(3) list_of_length(3) by blast
    have lead: "trailingBytesForUTF8 ! unat a = 3" "isLegalUTF8 (a # b # c # d # t) 4"
      using 4 assms(2,4) by (simp_all add: s)
    have ab: "240 \<le> unat a" "unat a \<le> 244" "unat b < 192" "128 \<le> unat c"
        "unat c < 192" "128 \<le> unat d" "unat d < 192" "unat a = 240 \<longrightarrow> 144 \<le> unat b"
        "unat a = 244 \<longrightarrow> unat b < 144" "unat a < 244 \<longrightarrow> 128 \<le> unat b"
      using lead by (auto simp: utf8_unat trailing_iff split: if_splits)
    consider "unat a = 244" "unat b < 128" | "128 \<le> unat b"
      using ab by linarith
    then show ?thesis
    proof cases
      case 1
      then have "utf8_slip [a, b, c, d]"
        using ab by (simp add: utf8_slip_def word_unat_eq_iff word_less_nat_alt word_le_nat_alt)
      then show ?thesis by (simp add: s 4 utf8_chunk_def)
    next
      case 2
      with ab have "utf8_char ((((unat a - 240) * 64 + (unat b - 128)) * 64 + (unat c - 128)) * 64
          + (unat d - 128)) = [a, b, c, d]"
        by (subst utf8_char_make(4)) (auto simp: byte_plus_unat)
      moreover have "(((unat a - 240) * 64 + (unat b - 128)) * 64 + (unat c - 128)) * 64
          + (unat d - 128) < 0x110000"
      proof -
        have "(unat a - 240) * 64 + (unat b - 128) < 272" using ab 2 by arith
        moreover have "unat c - 128 < 64" "unat d - 128 < 64" using ab by auto
        ultimately show ?thesis by (rule code_point_bound)
      qed
      ultimately show ?thesis using utf8_chunk_char by (metis s 4 take4)
    qed
  qed
qed

section \<open>What the checks accept\<close>

lemma utf8_chunk_pos: "utf8_chunk x \<Longrightarrow> 0 < length x"
  by (auto simp: utf8_chunk_def utf8_slip_def utf8_char_def split: if_splits)

lemma utf8_chunk_legal:
  assumes "utf8_chunk x" "n = length x"
  shows "isLegalUTF8 (x @ r) n \<and> trailingBytesForUTF8 ! unat (x ! 0) + 1 = n"
  using assms(1) unfolding utf8_chunk_def
proof
  assume "\<exists>c < 0x110000. x = utf8_char c"
  then show ?thesis using utf8_char_legal assms(2) by blast
next
  assume "utf8_slip x"
  then show ?thesis
    by (simp add: assms(2) utf8_slip_def utf8_unat trailing_nth nth_append word_less_nat_alt word_le_nat_alt)
qed

lemma utf8_accepted_Nil [simp]: "utf8_accepted []"
  by (auto simp: utf8_accepted_def intro: exI [of _ "[]"])

lemma utf8_accepted_chunk: "utf8_chunk x \<Longrightarrow> utf8_accepted s \<Longrightarrow> utf8_accepted (x @ s)"
  unfolding utf8_accepted_def by (metis concat.simps(2) set_ConsD)

lemma utf8_accepted_cases:
  assumes "utf8_accepted s" "s \<noteq> []"
  obtains x t where "utf8_chunk x" "s = x @ t" "utf8_accepted t"
proof -
  obtain xs where xs: "\<forall>x \<in> set xs. utf8_chunk x" "s = concat xs"
    using assms(1) by (auto simp: utf8_accepted_def)
  then obtain x ys where "xs = x # ys" using assms(2) by (cases xs) auto
  with xs show ?thesis by (intro that [of x "concat ys"]) (auto simp: utf8_accepted_def)
qed

text \<open>One step of the loop passes over one chunk.\<close>

lemma utf8_step:
  assumes "s \<noteq> []" "n = trailingBytesForUTF8 ! unat (s ! 0) + 1"
  shows "utf8_accepted s \<longleftrightarrow> n \<le> length s \<and> isLegalUTF8 s n \<and> utf8_accepted (drop n s)"
proof
  assume "utf8_accepted s"
  then obtain x t where x: "utf8_chunk x" "s = x @ t" "utf8_accepted t"
    using assms(1) by (rule utf8_accepted_cases)
  have "n = length x" "isLegalUTF8 s n"
    using utf8_chunk_legal [OF x(1) refl, of t] assms(2) utf8_chunk_pos [OF x(1)]
    by (simp_all add: x(2) nth_append)
  with x show "n \<le> length s \<and> isLegalUTF8 s n \<and> utf8_accepted (drop n s)" by simp
next
  assume a: "n \<le> length s \<and> isLegalUTF8 s n \<and> utf8_accepted (drop n s)"
  then have "utf8_chunk (take n s)" using legal_utf8_char [OF assms] by blast
  with a show "utf8_accepted s" using utf8_accepted_chunk append_take_drop_id by metis
qed

lemma validate_accepts:
  "u \<Longrightarrow> fst (validate_from u check_dot s err) = utf8_accepted s"
proof (induction u check_dot s err rule: validate_from.induct)
  case (2 u check_dot c s err)
  let ?n = "trailingBytesForUTF8 ! unat c + 1"
  have "utf8_accepted (c # s) \<longleftrightarrow> ?n \<le> length (c # s) \<and> isLegalUTF8 (c # s) ?n
      \<and> utf8_accepted (drop ?n (c # s))"
    using utf8_step [of "c # s", OF _ refl] by simp
  then show ?case using 2 by (auto simp: Let_def)
qed simp

lemma validate_utf8_only:
  "u \<Longrightarrow> validate_from u False s err =
     (utf8_accepted s, if utf8_accepted s then err else err OR BSON_NOT_UTF8)"
proof (induction u "False" s err rule: validate_from.induct)
  case (2 u c s err)
  let ?n = "trailingBytesForUTF8 ! unat c + 1"
  have "utf8_accepted (c # s) \<longleftrightarrow> ?n \<le> length (c # s) \<and> isLegalUTF8 (c # s) ?n
      \<and> utf8_accepted (drop ?n (c # s))"
    using utf8_step [of "c # s", OF _ refl] by simp
  then show ?case using 2 by (auto simp: Let_def)
qed simp

lemma bson_check_string_eq:
  "bson_check_string err s =
     (utf8_accepted s, if utf8_accepted s then err else err OR BSON_NOT_UTF8)"
  by (simp add: bson_check_string_def bson_validate_string_def validate_utf8_only)

text \<open>The bits that a check sets are or-ed to those the \<open>bson\<close> had before.\<close>

lemma validate_from_or:
  "validate_from u d s (e OR f) = map_prod id ((OR) e) (validate_from u d s f)"
proof (induction u d s f arbitrary: e rule: validate_from.induct)
  case (2 u d c s f)
  show ?case
    using "2.IH" by (auto simp: Let_def or.assoc simp del: drop_Suc_Cons)
qed simp

definition name_flags :: "bytes \<Rightarrow> int" where
  "name_flags name = snd (bson_check_field_name 0 name)"

lemma bson_check_field_name_eq:
  "bson_check_field_name err name = (utf8_accepted name, err OR name_flags name)"
proof -
  have "bson_check_field_name err name = map_prod id ((OR) err) (bson_check_field_name 0 name)"
    using validate_from_or [of True True name err] validate_from_or [of True True name err 0]
    by (auto simp: bson_check_field_name_def bson_validate_string_def Let_def)
  moreover have "fst (bson_check_field_name 0 name) = utf8_accepted name"
    by (simp add: bson_check_field_name_def bson_validate_string_def validate_accepts)
  ultimately show ?thesis by (cases "bson_check_field_name 0 name") (simp add: name_flags_def)
qed

lemma utf8_text_accepted: "utf8_text s \<Longrightarrow> utf8_accepted s"
proof -
  assume "utf8_text s"
  then obtain cs where "\<forall>c \<in> set cs. c < 0x110000" "s = concat (map utf8_char cs)"
    by (auto simp: utf8_text_def scalar_value_def)
  then show ?thesis
    unfolding utf8_accepted_def
    by (intro exI [of _ "map utf8_char cs"]) (auto simp: utf8_chunk_char)
qed

text \<open>No byte of a longer character is a dot, so the dots of a text are the dots of its bytes.\<close>

lemma utf8_char_dot:
  assumes "c < 0x110000"
  shows "utf8_char c = [of_nat c] \<and> c < 128 \<or> 0x2E \<notin> set (utf8_char c)"
  using assms
proof (cases rule: utf8_char_cases)
  case (two x y)
  then show ?thesis by (simp add: word_unat_eq_iff)
next
  case (three x y z)
  then show ?thesis by (simp add: word_unat_eq_iff)
next
  case (four w x y z)
  then show ?thesis by (simp add: word_unat_eq_iff)
qed auto

definition dot_flag :: "bytes \<Rightarrow> int" where
  "dot_flag s = (if 0x2E \<in> set s then BSON_FIELD_HAS_DOT else 0)"

definition dollar_flag :: "bytes \<Rightarrow> int" where
  "dollar_flag s = (if char_at s 0 = 0x24 \<and> \<not> bson_string_is_db_ref s
     then BSON_FIELD_INIT_DOLLAR else 0)"

lemma validate_char:
  assumes "c < 0x110000"
  shows "validate_from True True (utf8_char c @ s) err
    = validate_from True True s (err OR dot_flag (utf8_char c))"
proof -
  let ?x = "utf8_char c"
  have l: "isLegalUTF8 (?x @ s) (length ?x)" "trailingBytesForUTF8 ! unat (?x ! 0) + 1 = length ?x"
    using utf8_char_legal [OF assms refl, of s] by simp_all
  obtain a t where x: "?x = a # t" using utf8_chunk_pos [OF utf8_chunk_char [OF assms]]
    by (cases ?x) auto
  have d: "dot_flag ?x = (if a = 0x2E then BSON_FIELD_HAS_DOT else 0)"
    using utf8_char_dot [OF assms] x by (auto simp: dot_flag_def)
  have n: "trailingBytesForUTF8 ! unat a + 1 = length (a # t)" using l(2) by (simp add: x)
  have "validate_from True True (a # (t @ s)) err
      = validate_from True True (drop (length (a # t)) (a # (t @ s)))
          (if a = 0x2E then err OR BSON_FIELD_HAS_DOT else err)"
    unfolding validate_from.simps(2) Let_def n using l(1) x by simp
  then show ?thesis unfolding x using d by (simp add: x)
qed

lemma validate_text:
  assumes "\<forall>c \<in> set cs. c < 0x110000" "s = concat (map utf8_char cs)"
  shows "validate_from True True s err = (True, err OR dot_flag s)"
  using assms
proof (induction cs arbitrary: s err)
  case (Cons c cs)
  have "dot_flag (utf8_char c @ t) = dot_flag (utf8_char c) OR dot_flag t" for t
    by (auto simp: dot_flag_def)
  with Cons show ?case by (simp add: validate_char or.assoc)
qed (simp add: dot_flag_def)

lemma slip_no_text: "\<not> utf8_text [0xF4, 0x41, 0x80, 0x80]"
proof
  assume "utf8_text [0xF4, 0x41, 0x80, 0x80]"
  then obtain cs where cs: "\<forall>c \<in> set cs. c < 0x110000"
      "[0xF4, 0x41, 0x80, 0x80] = concat (map utf8_char cs)"
    by (auto simp: utf8_text_def scalar_value_def)
  then obtain c ds where "cs = c # ds" by (cases cs) auto
  with cs have c: "c < 0x110000" "[0xF4, 0x41, 0x80, 0x80] = utf8_char c @ concat (map utf8_char ds)"
    by auto
  from c(1) show False
    by (cases rule: utf8_char_cases) (use c(2) in \<open>auto simp: word_unat_eq_iff unat_of_byte\<close>)
qed

text \<open>Behind the two pairs of bytes the check accepts what is not UTF-8, and nowhere else.\<close>

lemma utf8_gap_inside: "utf8_gap x \<Longrightarrow> utf8_gap (p @ x @ r)"
  unfolding utf8_gap_def
proof (elim exE)
  fix i assume "Suc i < length x \<and> (x ! i = 0xED \<and> x ! Suc i \<ge> 0xA0 \<or> x ! i = 0xF4 \<and> x ! Suc i < 0x80)"
  then show "\<exists>i. Suc i < length (p @ x @ r) \<and> ((p @ x @ r) ! i = 0xED \<and> (p @ x @ r) ! Suc i \<ge> 0xA0
      \<or> (p @ x @ r) ! i = 0xF4 \<and> (p @ x @ r) ! Suc i < 0x80)"
    by (intro exI [of _ "length p + i"]) (simp add: nth_append)
qed

lemma utf8_chunk_gap:
  assumes "utf8_chunk x"
  shows "utf8_gap x \<or> (\<exists>c. scalar_value c \<and> x = utf8_char c)"
  using assms unfolding utf8_chunk_def
proof
  assume "utf8_slip x"
  then have "utf8_gap x" by (auto simp: utf8_slip_def utf8_gap_def intro!: exI [of _ 0])
  then show ?thesis ..
next
  assume "\<exists>c < 0x110000. x = utf8_char c"
  then obtain c where c: "c < 0x110000" "x = utf8_char c" by blast
  show ?thesis
  proof (cases "scalar_value c")
    case False
    then have s: "0xD800 \<le> c" "c < 0xE000" using c(1) by (auto simp: scalar_value_def)
    then have d: "c div 4096 = 13" by auto
    have q: "864 \<le> c div 64" using s by auto
    have "c div 64 div 64 = 13" using d by (simp flip: div_mult2_eq)
    then have "c div 64 = 13 * 64 + c div 64 mod 64" using div_mult_mod_eq [of "c div 64" 64] by simp
    with q have "32 \<le> c div 64 mod 64" by linarith
    then have "byte_plus 128 (c div 64 mod 64) \<ge> 0xA0" by (simp add: word_le_nat_alt)
    moreover have "byte_plus 224 13 = 0xED" by (simp add: byte_plus_def)
    ultimately have "utf8_gap [byte_plus 224 13, byte_plus 128 (c div 64 mod 64), byte_plus 128 (c mod 64)]"
      unfolding utf8_gap_def by (intro exI [of _ 0]) simp
    then show ?thesis using c(2) s d by (simp add: utf8_char_def byte_plus_def)
  qed (use c in blast)
qed

lemma accepted_text:
  assumes "utf8_accepted s" "\<not> utf8_gap s"
  shows "utf8_text s"
proof -
  obtain xs where "\<forall>x \<in> set xs. utf8_chunk x" "s = concat xs" using assms(1) by (auto simp: utf8_accepted_def)
  then show ?thesis using assms(2)
  proof (induction xs arbitrary: s)
    case Nil
    then show ?case unfolding utf8_text_def by (intro exI [of _ "[]"]) simp
  next
    case (Cons x xs)
    have g: "\<not> utf8_gap x" "\<not> utf8_gap (concat xs)"
      using Cons.prems utf8_gap_inside [of x "[]" "concat xs"] utf8_gap_inside [of "concat xs" x "[]"] by auto
    obtain c where c: "scalar_value c" "x = utf8_char c" using utf8_chunk_gap [of x] Cons.prems(1) g(1) by auto
    obtain cs where cs: "\<forall>c \<in> set cs. scalar_value c" "concat xs = concat (map utf8_char cs)"
      using Cons.IH [OF _ refl g(2)] Cons.prems(1) by (auto simp: utf8_text_def)
    show ?case unfolding utf8_text_def by (rule exI [of _ "c # cs"]) (use c cs Cons.prems(2) in simp)
  qed
qed

section \<open>Properties\<close>

text \<open>
  C25. Every UTF-8 text passes the check, and no error bit is set. A byte string that is not UTF-8 does not
  pass, and exactly the bit \<open>BSON_NOT_UTF8\<close> is set, unless it has one of the two pairs of bytes of
  \<open>utf8_gap\<close>: a \<open>0xED\<close> that begins a surrogate, or a \<open>0xF4\<close> with a byte below \<open>0x80\<close> behind it. For
  these the code is weaker than UTF-8 (\<open>check_slips\<close>).
\<close>

theorem bson_check_string_utf8:
  "(utf8_text s \<longrightarrow> bson_check_string err s = (True, err)) \<and>
   (\<not> utf8_text s \<and> \<not> utf8_gap s \<longrightarrow> bson_check_string err s = (False, err OR BSON_NOT_UTF8))"
  using utf8_text_accepted [of s] accepted_text [of s] by (auto simp: bson_check_string_eq)

text \<open>The letter \<open>e\<close> with an acute accent, and its second byte alone.\<close>

theorem bson_check_string_utf8_witness:
  "bson_check_string 4 [0xC3, 0xA9] = (True, 4) \<and> bson_check_string 4 [0xA9] = (False, 6)"
proof -
  have t: "utf8_text [0xC3, 0xA9]"
    unfolding utf8_text_def by (intro exI [of _ "[0xE9]"]) (simp add: utf8_char_def scalar_value_def)
  have n: "\<not> utf8_text [0xA9]"
  proof
    assume "utf8_text [0xA9]"
    then obtain cs where cs: "\<forall>c \<in> set cs. c < 0x110000" "[0xA9] = concat (map utf8_char cs)"
      by (auto simp: utf8_text_def scalar_value_def)
    then obtain c ds where "cs = c # ds" by (cases cs) auto
    with cs have c: "c < 0x110000" "[0xA9] = utf8_char c @ concat (map utf8_char ds)" by auto
    from c(1) show False
      by (cases rule: utf8_char_cases) (use c(2) in \<open>auto simp: word_unat_eq_iff unat_of_byte\<close>)
  qed
  have "\<not> utf8_gap [0xA9]" by (simp add: utf8_gap_def)
  with t n bson_check_string_utf8 [of "[0xC3, 0xA9]" 4] bson_check_string_utf8 [of "[0xA9]" 4] show ?thesis
    by (simp add: BSON_NOT_UTF8_def)
qed

text \<open>
  Every UTF-8 text is accepted as a field name, and the warnings are exactly the
  documented ones: a dot somewhere in it, and a dollar in front that is not part of
  a database reference.
\<close>

lemma check_text:
  assumes "utf8_text name"
  shows "bson_check_field_name err name = (True, err OR dollar_flag name OR dot_flag name)"
proof -
  obtain cs where "\<forall>c \<in> set cs. c < 0x110000" "name = concat (map utf8_char cs)"
    using assms by (auto simp: utf8_text_def scalar_value_def)
  then show ?thesis
    using validate_text
    by (auto simp: bson_check_field_name_def bson_validate_string_def Let_def dollar_flag_def or.assoc)
qed

lemma check_text_example:
  "bson_check_field_name 0 [0x24, 0xC3, 0xA9, 0x2E, 0x61] = (True, 12)"
proof -
  have "utf8_text [0x24, 0xC3, 0xA9, 0x2E, 0x61]"
    unfolding utf8_text_def
    by (intro exI [of _ "[0x24, 0xE9, 0x2E, 0x61]"]) (simp add: utf8_char_def scalar_value_def)
  from check_text [OF this, of 0] show ?thesis
    by (simp add: dollar_flag_def dot_flag_def bson_error_bits char_at_def
        bson_string_is_db_ref_def)
qed

text \<open>
  The check lets through byte strings that are not UTF-8: behind \<open>0xF4\<close> any byte
  below \<open>0x80\<close> counts as a continuation, and an encoded surrogate is accepted.
\<close>

lemma check_slips:
  "bson_check_string err [0xF4, 0x41, 0x80, 0x80] = (True, err) \<and>
   \<not> utf8_text [0xF4, 0x41, 0x80, 0x80] \<and>
   bson_check_string err (utf8_char 0xD800) = (True, err)"
proof (intro conjI)
  have "utf8_slip [0xF4, 0x41, 0x80, 0x80]" by (simp add: utf8_slip_def)
  then have "utf8_accepted ([0xF4, 0x41, 0x80, 0x80] @ [])"
    by (intro utf8_accepted_chunk) (simp_all add: utf8_chunk_def)
  then show "bson_check_string err [0xF4, 0x41, 0x80, 0x80] = (True, err)"
    by (simp add: bson_check_string_eq)
  have "utf8_accepted (utf8_char 0xD800 @ [])"
    by (intro utf8_accepted_chunk utf8_chunk_char) simp_all
  then show "bson_check_string err (utf8_char 0xD800) = (True, err)"
    by (simp add: bson_check_string_eq)
  show "\<not> utf8_text [0xF4, 0x41, 0x80, 0x80]" by (rule slip_no_text)
qed

end
