(* ===== verification/Bson.thy ===== *)
theory Bson
  imports Encoding
begin

unbundle bit_operations_syntax

text \<open>
  The builder of the mongo driver (\<open>mongo_c_driver/bson.c\<close>, second half). A \<open>bson\<close>
  is a record: \<open>bs_data\<close> is the block that \<open>data\<close> points to (\<open>None\<close> for
  \<open>NULL\<close>), \<open>bs_cur\<close> the offset of \<open>cur\<close> in it, \<open>bs_stack\<close> the slots that
  \<open>stackPtr\<close> points to, and \<open>bs_stackAt\<close> says where they are. \<open>bs_junk\<close> and
  \<open>bs_slots\<close> are not in the struct: they are what fresh memory of the allocator holds,
  so that every statement holds whatever it is.

  A status \<open>BSON_OK\<close> is \<open>True\<close>. \<open>None\<close> is the result of a call that does not
  return: an access outside a block, or \<open>bson_fatal_msg\<close>, which ends the process; an
  allocation that fails ends it too. A C string is its bytes before the terminating
  zero; a \<open>double\<close> is its 64 bits.
\<close>

section \<open>Data\<close>

datatype stack_place = No_stack | Own_stack | Heap_stack

record bson =
  bs_data :: "bytes option"
  bs_cur :: "nat option"
  bs_dataSize :: int
  bs_finished :: bool
  bs_ownsData :: bool
  bs_err :: int
  bs_stackSize :: nat
  bs_stackPos :: nat
  bs_stackAt :: stack_place
  bs_stack :: "nat list"
  bs_junk :: "nat \<Rightarrow> byte"
  bs_slots :: "nat \<Rightarrow> nat"

definition BSON_EOO :: int where "BSON_EOO = 0"
definition BSON_DOUBLE :: int where "BSON_DOUBLE = 1"
definition BSON_STRING :: int where "BSON_STRING = 2"
definition BSON_OBJECT :: int where "BSON_OBJECT = 3"
definition BSON_ARRAY :: int where "BSON_ARRAY = 4"
definition BSON_BINDATA :: int where "BSON_BINDATA = 5"
definition BSON_UNDEFINED :: int where "BSON_UNDEFINED = 6"
definition BSON_OID :: int where "BSON_OID = 7"
definition BSON_BOOL :: int where "BSON_BOOL = 8"
definition BSON_DATE :: int where "BSON_DATE = 9"
definition BSON_NULL :: int where "BSON_NULL = 10"
definition BSON_REGEX :: int where "BSON_REGEX = 11"
definition BSON_DBREF :: int where "BSON_DBREF = 12"
definition BSON_CODE :: int where "BSON_CODE = 13"
definition BSON_SYMBOL :: int where "BSON_SYMBOL = 14"
definition BSON_CODEWSCOPE :: int where "BSON_CODEWSCOPE = 15"
definition BSON_INT :: int where "BSON_INT = 16"
definition BSON_TIMESTAMP :: int where "BSON_TIMESTAMP = 17"
definition BSON_LONG :: int where "BSON_LONG = 18"
definition BSON_MAXKEY :: int where "BSON_MAXKEY = 127"
definition BSON_MINKEY :: int where "BSON_MINKEY = 255"

lemmas bson_types = BSON_EOO_def BSON_DOUBLE_def BSON_STRING_def BSON_OBJECT_def BSON_ARRAY_def
  BSON_BINDATA_def BSON_UNDEFINED_def BSON_OID_def BSON_BOOL_def BSON_DATE_def BSON_NULL_def
  BSON_REGEX_def BSON_DBREF_def BSON_CODE_def BSON_SYMBOL_def BSON_CODEWSCOPE_def BSON_INT_def
  BSON_TIMESTAMP_def BSON_LONG_def BSON_MAXKEY_def BSON_MINKEY_def

definition BSON_BIN_BINARY_OLD :: byte where "BSON_BIN_BINARY_OLD = 2"

definition INT32_MAX :: int where "INT32_MAX = 2147483647"

section \<open>Start and end of an object\<close>

definition bson_zero :: "bson \<Rightarrow> bson" where
  "bson_zero b = \<lparr>bs_data = None, bs_cur = None, bs_dataSize = 0, bs_finished = False,
     bs_ownsData = False, bs_err = 0, bs_stackSize = 0, bs_stackPos = 0, bs_stackAt = No_stack,
     bs_stack = replicate 32 0, bs_junk = bs_junk b, bs_slots = bs_slots b\<rparr>"

definition bson_init_size :: "bson \<Rightarrow> int \<Rightarrow> (bool \<times> bson) option" where
  "bson_init_size b sz =
     (let b0 = bson_zero b in
      if sz < 0 then None
      else
        let b1 = (if sz \<noteq> 0
          then b0\<lparr>bs_data := Some (map (bs_junk b0) [0..<nat sz]), bs_dataSize := sz\<rparr>
          else b0)
        in Some (True, b1\<lparr>bs_ownsData := True, bs_cur := Some 4\<rparr>))"

definition bson_init :: "bson \<Rightarrow> (bool \<times> bson) option" where
  "bson_init b = bson_init_size b 128"

definition bson_init_unfinished_data ::
    "bson \<Rightarrow> bytes \<Rightarrow> int \<Rightarrow> bool \<Rightarrow> bool \<times> bson" where
  "bson_init_unfinished_data b data dataSize ownsData =
     (True, (bson_zero b)\<lparr>bs_data := Some data, bs_dataSize := dataSize, bs_ownsData := ownsData\<rparr>)"

definition bson_finished_data_size :: "bytes \<Rightarrow> int option" where
  "bson_finished_data_size data = map_option (\<lambda>x. s32 (le_val x)) (load_block data 0 4)"

definition bson_init_finished_data :: "bson \<Rightarrow> bytes \<Rightarrow> bool \<Rightarrow> (bool \<times> bson) option" where
  "bson_init_finished_data b data ownsData = do {
     sz \<leftarrow> bson_finished_data_size data;
     Some (True, (bson_zero b)\<lparr>bs_data := Some data, bs_dataSize := sz,
       bs_ownsData := ownsData, bs_finished := True\<rparr>)
   }"

definition bson_init_finished_data_with_copy :: "bson \<Rightarrow> bytes \<Rightarrow> (bool \<times> bson) option" where
  "bson_init_finished_data_with_copy b data = do {
     sz \<leftarrow> bson_finished_data_size data;
     (ok, b1) \<leftarrow> bson_init_size b sz;
     x \<leftarrow> load_block data 0 (nat sz);
     Some (True, b1\<lparr>bs_data := map_option (\<lambda>d. blit d 0 x) (bs_data b1), bs_finished := True\<rparr>)
   }"

definition bson_shared_empty_data :: bytes where
  "bson_shared_empty_data = [5, 0, 0, 0, 0]"

definition bson_init_empty :: "bson \<Rightarrow> (bool \<times> bson) option" where
  "bson_init_empty b = bson_init_finished_data b bson_shared_empty_data False"

definition bson_copy :: "bson \<Rightarrow> bson \<Rightarrow> (bool \<times> bson) option" where
  "bson_copy out b =
     (if \<not> bs_finished b then Some (False, out)
      else do {
        data \<leftarrow> bs_data b;
        bson_init_finished_data_with_copy out data
      })"

definition bson_size :: "bson \<Rightarrow> int option" where
  "bson_size b = (case bs_data b of None \<Rightarrow> Some 0 | Some d \<Rightarrow> bson_finished_data_size d)"

definition bson_position :: "bson \<Rightarrow> nat option" where
  "bson_position b = (case bs_cur b of
     Some c \<Rightarrow> Some c
   | None \<Rightarrow> if bs_data b = None then Some 0 else None)"

definition bson_buffer_size :: "bson \<Rightarrow> nat option" where
  "bson_buffer_size b = map_option Suc (bson_position b)"

definition bson_destroy :: "bson \<Rightarrow> bson" where
  "bson_destroy b = b\<lparr>bs_data := None, bs_dataSize := 0, bs_ownsData := False,
     bs_stackAt := (if bs_stackAt b = Heap_stack then No_stack else bs_stackAt b),
     bs_stackSize := 0, bs_stackPos := 0, bs_err := 0, bs_cur := None, bs_finished := True\<rparr>"

section \<open>Raw appends\<close>

definition bson_append_byte :: "bson \<Rightarrow> byte \<Rightarrow> bson option" where
  "bson_append_byte b c = do {
     d \<leftarrow> bs_data b;
     p \<leftarrow> bs_cur b;
     d' \<leftarrow> store d p c;
     Some (b\<lparr>bs_data := Some d', bs_cur := Some (p + 1)\<rparr>)
   }"

definition bson_append :: "bson \<Rightarrow> bytes \<Rightarrow> bson option" where
  "bson_append b data = do {
     d \<leftarrow> bs_data b;
     p \<leftarrow> bs_cur b;
     d' \<leftarrow> store_block d p data;
     Some (b\<lparr>bs_data := Some d', bs_cur := Some (p + length data)\<rparr>)
   }"

definition bson_append32 :: "bson \<Rightarrow> int \<Rightarrow> bson option" where
  "bson_append32 b n = do {
     d \<leftarrow> bs_data b;
     p \<leftarrow> bs_cur b;
     d' \<leftarrow> store_block d p (le_bytes 4 n);
     Some (b\<lparr>bs_data := Some d', bs_cur := Some (p + 4)\<rparr>)
   }"

definition bson_append64 :: "bson \<Rightarrow> int \<Rightarrow> bson option" where
  "bson_append64 b n = do {
     d \<leftarrow> bs_data b;
     p \<leftarrow> bs_cur b;
     d' \<leftarrow> store_block d p (le_bytes 8 n);
     Some (b\<lparr>bs_data := Some d', bs_cur := Some (p + 8)\<rparr>)
   }"

definition realloc_block :: "(nat \<Rightarrow> 'a) \<Rightarrow> 'a list \<Rightarrow> nat \<Rightarrow> 'a list" where
  "realloc_block junk d n = take n d @ map junk [length d..<n]"

text \<open>
  \<open>(int) (1.5 * n)\<close> for a \<open>size_t\<close> \<open>n\<close>: beyond the range of \<open>int\<close> the conversion of the
  host gives the smallest integer.
\<close>

definition half_more :: "int \<Rightarrow> int" where
  "half_more n = (let r = 3 * n div 2 in if r < 2147483648 then r else - 2147483648)"

definition bson_ensure_space :: "bson \<Rightarrow> int \<Rightarrow> (bool \<times> bson) option" where
  "bson_ensure_space b bytesNeeded = do {
     pos \<leftarrow> bson_position b;
     let ds = bs_dataSize b;
     if size_t_of (int pos + bytesNeeded) \<le> size_t_of ds then Some (True, b)
     else
       let total = size_t_of (ds + bytesNeeded);
         new_size = half_more total
       in if new_size < ds \<and> \<not> total < INT32_MAX
         then Some (False, b\<lparr>bs_err := BSON_SIZE_OVERFLOW\<rparr>)
       else
         let new_size1 = (if new_size < ds then INT32_MAX else new_size)
         in if \<not> bs_ownsData b then Some (False, b\<lparr>bs_err := BSON_DOES_NOT_OWN_DATA\<rparr>)
         else if new_size1 < 0 then None
         else Some (True, b\<lparr>bs_data := Some (realloc_block (bs_junk b)
             (case bs_data b of None \<Rightarrow> [] | Some d \<Rightarrow> d) (nat new_size1)),
           bs_dataSize := new_size1, bs_cur := Some pos\<rparr>)
   }"

definition bson_append_grow_stack :: "bson \<Rightarrow> bson" where
  "bson_append_grow_stack b = (case bs_stackAt b of
     No_stack \<Rightarrow> b\<lparr>bs_stackAt := Own_stack, bs_stackSize := 32\<rparr>
   | Own_stack \<Rightarrow> b\<lparr>bs_stackAt := Heap_stack, bs_stackSize := 64,
       bs_stack := take 32 (bs_stack b) @ map (bs_slots b) [32..<64]\<rparr>
   | Heap_stack \<Rightarrow> b\<lparr>bs_stack := realloc_block (bs_slots b) (bs_stack b) (bs_stackSize b * 2),
       bs_stackSize := bs_stackSize b * 2\<rparr>)"

definition bson_finish :: "bson \<Rightarrow> (bool \<times> bson) option" where
  "bson_finish b =
     (if bs_err b AND BSON_NOT_UTF8 \<noteq> 0 then Some (False, b)
      else if bs_finished b then Some (True, b)
      else if bs_stackPos b \<noteq> 0 then None
      else do {
        (ok, b1) \<leftarrow> bson_ensure_space b 1;
        if \<not> ok then Some (False, b1)
        else do {
          b2 \<leftarrow> bson_append_byte b1 0;
          pos \<leftarrow> bson_position b2;
          if int pos \<ge> INT32_MAX then Some (False, b2\<lparr>bs_err := BSON_SIZE_OVERFLOW\<rparr>)
          else do {
            d \<leftarrow> bs_data b2;
            d' \<leftarrow> store_block d 0 (le_bytes 4 (int pos));
            Some (True, b2\<lparr>bs_data := Some d', bs_finished := True\<rparr>)
          }
        }
      })"

definition bson_append_estart :: "bson \<Rightarrow> int \<Rightarrow> bytes \<Rightarrow> int \<Rightarrow> (bool \<times> bson) option" where
  "bson_append_estart b type name dataSize =
     (let len = int (length name) + 1 in
      if bs_finished b
      then Some (False, b\<lparr>bs_err := bs_err b OR BSON_ALREADY_FINISHED\<rparr>)
      else do {
        (ok, b1) \<leftarrow> bson_ensure_space b (size_t_of (1 + len + dataSize));
        if \<not> ok then Some (False, b1)
        else
          let (legal, err) = bson_check_field_name (bs_err b1) name; b2 = b1\<lparr>bs_err := err\<rparr>
          in if \<not> legal then Some (False, b2)
            else do {
              b3 \<leftarrow> bson_append_byte b2 (word_of_int type);
              b4 \<leftarrow> bson_append b3 (name @ [0]);
              Some (True, b4)
            }
      })"

section \<open>Building types\<close>

definition bson_append_int :: "bson \<Rightarrow> bytes \<Rightarrow> int \<Rightarrow> (bool \<times> bson) option" where
  "bson_append_int b name i = do {
     (ok, b1) \<leftarrow> bson_append_estart b BSON_INT name 4;
     if \<not> ok then Some (False, b1)
     else do { b2 \<leftarrow> bson_append32 b1 i; Some (True, b2) }
   }"

definition bson_append_long :: "bson \<Rightarrow> bytes \<Rightarrow> int \<Rightarrow> (bool \<times> bson) option" where
  "bson_append_long b name i = do {
     (ok, b1) \<leftarrow> bson_append_estart b BSON_LONG name 8;
     if \<not> ok then Some (False, b1)
     else do { b2 \<leftarrow> bson_append64 b1 i; Some (True, b2) }
   }"

definition bson_append_double :: "bson \<Rightarrow> bytes \<Rightarrow> 64 word \<Rightarrow> (bool \<times> bson) option" where
  "bson_append_double b name x = do {
     (ok, b1) \<leftarrow> bson_append_estart b BSON_DOUBLE name 8;
     if \<not> ok then Some (False, b1)
     else do { b2 \<leftarrow> bson_append64 b1 (uint x); Some (True, b2) }
   }"

definition bson_append_bool :: "bson \<Rightarrow> bytes \<Rightarrow> int \<Rightarrow> (bool \<times> bson) option" where
  "bson_append_bool b name i = do {
     (ok, b1) \<leftarrow> bson_append_estart b BSON_BOOL name 1;
     if \<not> ok then Some (False, b1)
     else do { b2 \<leftarrow> bson_append_byte b1 (if i \<noteq> 0 then 1 else 0); Some (True, b2) }
   }"

definition bson_append_null :: "bson \<Rightarrow> bytes \<Rightarrow> (bool \<times> bson) option" where
  "bson_append_null b name = do {
     (ok, b1) \<leftarrow> bson_append_estart b BSON_NULL name 0;
     if \<not> ok then Some (False, b1) else Some (True, b1)
   }"

definition bson_append_undefined :: "bson \<Rightarrow> bytes \<Rightarrow> (bool \<times> bson) option" where
  "bson_append_undefined b name = do {
     (ok, b1) \<leftarrow> bson_append_estart b BSON_UNDEFINED name 0;
     if \<not> ok then Some (False, b1) else Some (True, b1)
   }"

definition bson_append_maxkey :: "bson \<Rightarrow> bytes \<Rightarrow> (bool \<times> bson) option" where
  "bson_append_maxkey b name = do {
     (ok, b1) \<leftarrow> bson_append_estart b BSON_MAXKEY name 0;
     if \<not> ok then Some (False, b1) else Some (True, b1)
   }"

definition bson_append_minkey :: "bson \<Rightarrow> bytes \<Rightarrow> (bool \<times> bson) option" where
  "bson_append_minkey b name = do {
     (ok, b1) \<leftarrow> bson_append_estart b BSON_MINKEY name 0;
     if \<not> ok then Some (False, b1) else Some (True, b1)
   }"

text \<open>\<open>value\<close> is the memory at the pointer, of which \<open>len\<close> bytes are the string.\<close>

definition bson_append_string_base ::
    "bson \<Rightarrow> bytes \<Rightarrow> bytes \<Rightarrow> nat \<Rightarrow> int \<Rightarrow> (bool \<times> bson) option" where
  "bson_append_string_base b name value len type =
     (let sl = len + 1 in
      if int sl > INT32_MAX then Some (False, b\<lparr>bs_err := BSON_SIZE_OVERFLOW\<rparr>)
      else do {
        v \<leftarrow> load_block value 0 (sl - 1);
        let (legal, err) = bson_check_string (bs_err b) v;
        let b0 = b\<lparr>bs_err := err\<rparr>;
        if \<not> legal then Some (False, b0)
        else do {
          (ok, b1) \<leftarrow> bson_append_estart b0 type name (4 + int sl);
          if \<not> ok then Some (False, b1)
          else do {
            b2 \<leftarrow> bson_append32 b1 (int sl);
            b3 \<leftarrow> bson_append b2 v;
            b4 \<leftarrow> bson_append b3 [0];
            Some (True, b4)
          }
        }
      })"

definition bson_append_string :: "bson \<Rightarrow> bytes \<Rightarrow> bytes \<Rightarrow> (bool \<times> bson) option" where
  "bson_append_string b name value =
     bson_append_string_base b name value (length value) BSON_STRING"

definition bson_append_symbol :: "bson \<Rightarrow> bytes \<Rightarrow> bytes \<Rightarrow> (bool \<times> bson) option" where
  "bson_append_symbol b name value =
     bson_append_string_base b name value (length value) BSON_SYMBOL"

definition bson_append_code :: "bson \<Rightarrow> bytes \<Rightarrow> bytes \<Rightarrow> (bool \<times> bson) option" where
  "bson_append_code b name value =
     bson_append_string_base b name value (length value) BSON_CODE"

definition bson_append_string_n :: "bson \<Rightarrow> bytes \<Rightarrow> bytes \<Rightarrow> nat \<Rightarrow> (bool \<times> bson) option" where
  "bson_append_string_n b name value len = bson_append_string_base b name value len BSON_STRING"

definition bson_append_symbol_n :: "bson \<Rightarrow> bytes \<Rightarrow> bytes \<Rightarrow> nat \<Rightarrow> (bool \<times> bson) option" where
  "bson_append_symbol_n b name value len = bson_append_string_base b name value len BSON_SYMBOL"

definition bson_append_code_n :: "bson \<Rightarrow> bytes \<Rightarrow> bytes \<Rightarrow> nat \<Rightarrow> (bool \<times> bson) option" where
  "bson_append_code_n b name value len = bson_append_string_base b name value len BSON_CODE"

definition bson_append_code_w_scope_n ::
    "bson \<Rightarrow> bytes \<Rightarrow> bytes \<Rightarrow> nat \<Rightarrow> bson \<Rightarrow> (bool \<times> bson) option" where
  "bson_append_code_w_scope_n b name code len scope = do {
     ss \<leftarrow> bson_size scope;
     let sl = len + 1;
     let sz = size_t_of (4 + 4 + int sl + ss);
     if sz > INT32_MAX then Some (False, b\<lparr>bs_err := BSON_SIZE_OVERFLOW\<rparr>)
     else do {
       (ok, b1) \<leftarrow> bson_append_estart b BSON_CODEWSCOPE name sz;
       if \<not> ok then Some (False, b1)
       else do {
         b2 \<leftarrow> bson_append32 b1 sz;
         b3 \<leftarrow> bson_append32 b2 (int sl);
         c \<leftarrow> load_block code 0 sl;
         b4 \<leftarrow> bson_append b3 c;
         x \<leftarrow> iload_block (case bs_data scope of None \<Rightarrow> [] | Some d \<Rightarrow> d) 0 ss;
         b5 \<leftarrow> bson_append b4 x;
         Some (True, b5)
       }
     }
   }"

definition bson_append_code_w_scope ::
    "bson \<Rightarrow> bytes \<Rightarrow> bytes \<Rightarrow> bson \<Rightarrow> (bool \<times> bson) option" where
  "bson_append_code_w_scope b name code scope =
     bson_append_code_w_scope_n b name (code @ [0]) (length code) scope"

definition bson_append_binary ::
    "bson \<Rightarrow> bytes \<Rightarrow> byte \<Rightarrow> bytes \<Rightarrow> nat \<Rightarrow> (bool \<times> bson) option" where
  "bson_append_binary b name type str len =
     (if type = BSON_BIN_BINARY_OLD then do {
        (ok, b1) \<leftarrow> bson_append_estart b BSON_BINDATA name (4 + 1 + 4 + int len);
        if \<not> ok then Some (False, b1)
        else do {
          b2 \<leftarrow> bson_append32 b1 (int len + 4);
          b3 \<leftarrow> bson_append_byte b2 type;
          b4 \<leftarrow> bson_append32 b3 (int len);
          x \<leftarrow> load_block str 0 len;
          b5 \<leftarrow> bson_append b4 x;
          Some (True, b5)
        }
      }
      else do {
        (ok, b1) \<leftarrow> bson_append_estart b BSON_BINDATA name (4 + 1 + int len);
        if \<not> ok then Some (False, b1)
        else do {
          b2 \<leftarrow> bson_append32 b1 (int len);
          b3 \<leftarrow> bson_append_byte b2 type;
          x \<leftarrow> load_block str 0 len;
          b4 \<leftarrow> bson_append b3 x;
          Some (True, b4)
        }
      })"

definition bson_append_oid :: "bson \<Rightarrow> bytes \<Rightarrow> bytes \<Rightarrow> (bool \<times> bson) option" where
  "bson_append_oid b name oid = do {
     (ok, b1) \<leftarrow> bson_append_estart b BSON_OID name 12;
     if \<not> ok then Some (False, b1)
     else do { x \<leftarrow> load_block oid 0 12; b2 \<leftarrow> bson_append b1 x; Some (True, b2) }
   }"

definition bson_append_regex ::
    "bson \<Rightarrow> bytes \<Rightarrow> bytes \<Rightarrow> bytes \<Rightarrow> (bool \<times> bson) option" where
  "bson_append_regex b name pattern opts =
     (let plen = length pattern + 1; olen = length opts + 1 in do {
        (ok, b1) \<leftarrow> bson_append_estart b BSON_REGEX name (int plen + int olen);
        if \<not> ok then Some (False, b1)
        else
          let (legal, err) = bson_check_string (bs_err b1) pattern; b2 = b1\<lparr>bs_err := err\<rparr>
          in if \<not> legal then Some (False, b2)
            else do {
              b3 \<leftarrow> bson_append b2 (pattern @ [0]);
              b4 \<leftarrow> bson_append b3 (opts @ [0]);
              Some (True, b4)
            }
      })"

definition bson_append_bson :: "bson \<Rightarrow> bytes \<Rightarrow> bson \<Rightarrow> (bool \<times> bson) option" where
  "bson_append_bson b name obj = do {
     sz \<leftarrow> bson_size obj;
     (ok, b1) \<leftarrow> bson_append_estart b BSON_OBJECT name (size_t_of sz);
     if \<not> ok then Some (False, b1)
     else do {
       x \<leftarrow> iload_block (case bs_data obj of None \<Rightarrow> [] | Some d \<Rightarrow> d) 0 sz;
       b2 \<leftarrow> bson_append b1 x;
       Some (True, b2)
     }
   }"

text \<open>A timestamp is its increment and its time.\<close>

definition bson_append_timestamp :: "bson \<Rightarrow> bytes \<Rightarrow> int \<times> int \<Rightarrow> (bool \<times> bson) option" where
  "bson_append_timestamp b name ts = do {
     (ok, b1) \<leftarrow> bson_append_estart b BSON_TIMESTAMP name 8;
     if \<not> ok then Some (False, b1)
     else do {
       b2 \<leftarrow> bson_append32 b1 (fst ts);
       b3 \<leftarrow> bson_append32 b2 (snd ts);
       Some (True, b3)
     }
   }"

definition bson_append_timestamp2 :: "bson \<Rightarrow> bytes \<Rightarrow> int \<Rightarrow> int \<Rightarrow> (bool \<times> bson) option" where
  "bson_append_timestamp2 b name time increment = do {
     (ok, b1) \<leftarrow> bson_append_estart b BSON_TIMESTAMP name 8;
     if \<not> ok then Some (False, b1)
     else do {
       b2 \<leftarrow> bson_append32 b1 increment;
       b3 \<leftarrow> bson_append32 b2 time;
       Some (True, b3)
     }
   }"

definition bson_append_date :: "bson \<Rightarrow> bytes \<Rightarrow> int \<Rightarrow> (bool \<times> bson) option" where
  "bson_append_date b name millis = do {
     (ok, b1) \<leftarrow> bson_append_estart b BSON_DATE name 8;
     if \<not> ok then Some (False, b1)
     else do { b2 \<leftarrow> bson_append64 b1 millis; Some (True, b2) }
   }"

definition bson_append_time_t :: "bson \<Rightarrow> bytes \<Rightarrow> int \<Rightarrow> (bool \<times> bson) option" where
  "bson_append_time_t b name secs = bson_append_date b name (s64 (secs * 1000))"

definition push_open :: "bson \<Rightarrow> bson option" where
  "push_open b =
     (let b1 = (if bs_stackPos b \<ge> bs_stackSize b then bson_append_grow_stack b else b) in do {
        pos \<leftarrow> bson_position b1;
        stack \<leftarrow> store (bs_stack b1) (bs_stackPos b1) pos;
        bson_append32 (b1\<lparr>bs_stackPos := bs_stackPos b1 + 1, bs_stack := stack\<rparr>) 0
      })"

definition bson_append_start_object :: "bson \<Rightarrow> bytes \<Rightarrow> (bool \<times> bson) option" where
  "bson_append_start_object b name = do {
     (ok, b1) \<leftarrow> bson_append_estart b BSON_OBJECT name 5;
     if \<not> ok then Some (False, b1) else do { b2 \<leftarrow> push_open b1; Some (True, b2) }
   }"

definition bson_append_start_array :: "bson \<Rightarrow> bytes \<Rightarrow> (bool \<times> bson) option" where
  "bson_append_start_array b name = do {
     (ok, b1) \<leftarrow> bson_append_estart b BSON_ARRAY name 5;
     if \<not> ok then Some (False, b1) else do { b2 \<leftarrow> push_open b1; Some (True, b2) }
   }"

definition bson_append_finish_object :: "bson \<Rightarrow> (bool \<times> bson) option" where
  "bson_append_finish_object b =
     (if bs_stackPos b = 0 then Some (False, b\<lparr>bs_err := BSON_NOT_IN_SUBOBJECT\<rparr>)
      else do {
        (ok, b1) \<leftarrow> bson_ensure_space b 1;
        if \<not> ok then Some (False, b1)
        else do {
          b2 \<leftarrow> bson_append_byte b1 0;
          start \<leftarrow> load (bs_stack b2) (bs_stackPos b2 - 1);
          pos \<leftarrow> bson_position b2;
          let n = int pos - int start;
          let b3 = b2\<lparr>bs_stackPos := bs_stackPos b2 - 1\<rparr>;
          if n \<ge> INT32_MAX then Some (False, b3\<lparr>bs_err := BSON_SIZE_OVERFLOW\<rparr>)
          else do {
            d \<leftarrow> bs_data b3;
            d' \<leftarrow> store_block d start (le_bytes 4 n);
            Some (True, b3\<lparr>bs_data := Some d'\<rparr>)
          }
        }
      })"

definition bson_append_finish_array :: "bson \<Rightarrow> (bool \<times> bson) option" where
  "bson_append_finish_array b = bson_append_finish_object b"

section \<open>The object under construction\<close>

text \<open>
  \<open>built b\<close> is what has been written, \<open>open_objs b\<close> are the offsets of the objects that
  are not finished, outermost first. \<open>bson_core\<close> is the invariant of the struct;
  \<open>room b n\<close> adds that the next \<open>n\<close> bytes fit and that the block is at most three times
  as long as what it will hold then, which bounds the growth.
\<close>

definition built :: "bson \<Rightarrow> bytes" where
  "built b = take (the (bs_cur b)) (the (bs_data b))"

definition open_objs :: "bson \<Rightarrow> nat list" where
  "open_objs b = take (bs_stackPos b) (bs_stack b)"

definition stack_ok :: "bson \<Rightarrow> bool" where
  "stack_ok b \<longleftrightarrow> bs_stackPos b \<le> bs_stackSize b \<and>
     (case bs_stackAt b of
        No_stack \<Rightarrow> bs_stackSize b = 0 \<and> length (bs_stack b) = 32
      | Own_stack \<Rightarrow> bs_stackSize b = 32 \<and> length (bs_stack b) = 32
      | Heap_stack \<Rightarrow> 0 < bs_stackSize b \<and> length (bs_stack b) = bs_stackSize b)"

definition bson_core :: "bson \<Rightarrow> bool" where
  "bson_core b \<longleftrightarrow> (\<exists>d c. bs_data b = Some d \<and> bs_cur b = Some c \<and>
       int (length d) = bs_dataSize b \<and> bs_dataSize b \<le> INT32_MAX \<and> 4 \<le> c \<and> c \<le> length d) \<and>
     bs_ownsData b \<and> stack_ok b"

definition growth_bound :: "nat \<Rightarrow> int" where
  "growth_bound n = max 128 (3 * int n)"

definition room :: "bson \<Rightarrow> nat \<Rightarrow> bool" where
  "room b n \<longleftrightarrow> bson_core b \<and> int (length (built b) + n) \<le> bs_dataSize b \<and>
     bs_dataSize b \<le> growth_bound (length (built b) + n)"

definition bson_ok :: "bson \<Rightarrow> bool" where
  "bson_ok b \<longleftrightarrow> bson_core b \<and> bs_dataSize b \<le> growth_bound (length (built b) + 1)"

definition extend :: "bson \<Rightarrow> bytes \<Rightarrow> bson" where
  "extend b xs = b\<lparr>bs_data := Some (blit (the (bs_data b)) (the (bs_cur b)) xs),
     bs_cur := Some (the (bs_cur b) + length xs)\<rparr>"

definition spaced :: "bson \<Rightarrow> int \<Rightarrow> bson" where
  "spaced b n = (case bson_ensure_space b n of Some (ok, b') \<Rightarrow> b' | None \<Rightarrow> b)"

lemma core_cur: "bson_core b \<Longrightarrow> bs_cur b = Some (length (built b))"
  by (auto simp: bson_core_def built_def)

lemma core_data:
  "bson_core b \<Longrightarrow> \<exists>d. bs_data b = Some d \<and> int (length d) = bs_dataSize b \<and>
     length (built b) \<le> length d \<and> take (length (built b)) d = built b \<and> 4 \<le> length (built b)"
  by (auto simp: bson_core_def built_def)

lemma core_position: "bson_core b \<Longrightarrow> bson_position b = Some (length (built b))"
  by (simp add: bson_position_def core_cur)

lemma room_core: "room b n \<Longrightarrow> bson_core b"
  by (simp add: room_def)

lemma room_ok: "room b n \<Longrightarrow> n \<le> 1 \<Longrightarrow> bson_ok b"
  by (auto simp: room_def bson_ok_def growth_bound_def)

lemma extend_append:
  assumes "room b n" "length xs \<le> n"
  shows "bson_append b xs = Some (extend b xs)"
proof -
  obtain d where d: "bs_data b = Some d" "int (length d) = bs_dataSize b"
    using core_data [OF room_core [OF assms(1)]] by blast
  then show ?thesis
    using assms core_cur [OF room_core [OF assms(1)]]
    by (simp add: bson_append_def mem_defs extend_def room_def)
qed

lemma extend_built:
  assumes "room b n" "length xs \<le> n"
  shows "built (extend b xs) = built b @ xs"
proof -
  obtain d where d: "bs_data b = Some d" "length (built b) \<le> length d"
      "take (length (built b)) d = built b"
    using core_data [OF room_core [OF assms(1)]] by blast
  then show ?thesis
    unfolding built_def [of "extend b xs"]
    using core_cur [OF room_core [OF assms(1)]] take_blit_all [OF d(2), of xs]
    by (simp add: extend_def)
qed

lemma extend_fields [simp]:
  "bs_err (extend b xs) = bs_err b" "bs_finished (extend b xs) = bs_finished b"
  "open_objs (extend b xs) = open_objs b" "bs_dataSize (extend b xs) = bs_dataSize b"
  "bs_stackPos (extend b xs) = bs_stackPos b" "bs_stack (extend b xs) = bs_stack b"
  "stack_ok (extend b xs) = stack_ok b" "bs_ownsData (extend b xs) = bs_ownsData b"
  by (simp_all add: extend_def open_objs_def stack_ok_def cong: stack_place.case_cong)

lemma extend_core:
  assumes "room b n" "length xs \<le> n"
  shows "bson_core (extend b xs)"
proof -
  obtain d where d: "bs_data b = Some d" "int (length d) = bs_dataSize b"
      "4 \<le> length (built b)"
    using core_data [OF room_core [OF assms(1)]] by blast
  then show ?thesis
    using assms core_cur [OF room_core [OF assms(1)]]
    by (auto simp: extend_def room_def bson_core_def stack_ok_def cong: stack_place.case_cong)
qed

lemma extend_room:
  "room b n \<Longrightarrow> length xs \<le> n \<Longrightarrow> room (extend b xs) (n - length xs)"
  using extend_core [of b n xs] extend_built [of b n xs] by (simp add: room_def)

lemma blit_blit:
  "i + length xs + length ys \<le> length d \<Longrightarrow>
     blit (blit d i xs) (i + length xs) ys = blit d i (xs @ ys)"
  by (simp add: blit_def ac_simps)

lemma extend_extend:
  assumes "room b n" "length xs + length ys \<le> n"
  shows "extend (extend b xs) ys = extend b (xs @ ys)"
proof -
  obtain d where d: "bs_data b = Some d" "length (built b) \<le> length d"
      "int (length d) = bs_dataSize b"
    using core_data [OF room_core [OF assms(1)]] by blast
  moreover have "length (built b) + length xs + length ys \<le> length d"
    using assms d(3) by (simp add: room_def)
  ultimately show ?thesis
    using core_cur [OF room_core [OF assms(1)]]
    by (simp add: extend_def blit_blit add.assoc)
qed

lemma append_byte_bytes: "bson_append_byte b x = bson_append b [x]"
  by (cases "bs_data b"; cases "bs_cur b")
    (auto simp: bson_append_byte_def bson_append_def mem_defs blit_def upd_conv_take_nth_drop)

lemma append32_bytes: "bson_append32 b i = bson_append b (le_bytes 4 i)"
  by (simp add: bson_append32_def bson_append_def)

lemma append64_bytes: "bson_append64 b i = bson_append b (le_bytes 8 i)"
  by (simp add: bson_append64_def bson_append_def)

lemmas raw_appends = append_byte_bytes append32_bytes append64_bytes

lemma length_realloc [simp]: "length (realloc_block junk d n) = n"
  by (simp add: realloc_block_def min_def)

lemma take_realloc: "c \<le> length d \<Longrightarrow> length d \<le> n \<Longrightarrow> take c (realloc_block junk d n) = take c d"
  by (simp add: realloc_block_def)

definition resized :: "bson \<Rightarrow> int \<Rightarrow> bson" where
  "resized b n = b\<lparr>bs_data := Some (realloc_block (bs_junk b)
       (case bs_data b of None \<Rightarrow> [] | Some d \<Rightarrow> d) (nat n)),
     bs_dataSize := n, bs_cur := Some (length (built b))\<rparr>"

lemma resized_fields [simp]:
  "bs_err (resized b n) = bs_err b" "bs_finished (resized b n) = bs_finished b"
  "open_objs (resized b n) = open_objs b" "bs_dataSize (resized b n) = n"
  "stack_ok (resized b n) = stack_ok b" "bs_ownsData (resized b n) = bs_ownsData b"
  "bs_stackPos (resized b n) = bs_stackPos b"
  by (simp_all add: resized_def open_objs_def stack_ok_def cong: stack_place.case_cong)

lemma resized_core:
  assumes "bson_core b" "bs_dataSize b \<le> n" "n \<le> INT32_MAX"
  shows "bson_core (resized b n)" and "built (resized b n) = built b"
proof -
  obtain d where d: "bs_data b = Some d" "int (length d) = bs_dataSize b"
      "length (built b) \<le> length d" "take (length (built b)) d = built b" "4 \<le> length (built b)"
    using core_data [OF assms(1)] by blast
  show "built (resized b n) = built b"
    unfolding built_def [of "resized b n"] using d assms(2)
    by (simp add: resized_def take_realloc)
  have "bs_ownsData b" "stack_ok b" using assms(1) by (auto simp: bson_core_def)
  then show "bson_core (resized b n)"
    unfolding bson_core_def resized_fields using d assms(2,3)
    by (simp add: resized_def)
qed

text \<open>Where the object will not be larger than 512 megabytes, room is always made.\<close>

definition doc_limit :: nat where
  "doc_limit = 536870912"

definition next_size :: "int \<Rightarrow> int \<Rightarrow> int" where
  "next_size ds n = (if half_more (ds + n) < ds then INT32_MAX else half_more (ds + n))"

lemma next_size_bounds:
  assumes "c \<le> ds" "ds < c + n" "0 \<le> c" "0 < n" "c + n \<le> 536870912" "ds + n < 2147483647"
  shows "ds \<le> next_size ds n \<and> c + n \<le> next_size ds n \<and> next_size ds n \<le> INT32_MAX \<and>
    next_size ds n \<le> 3 * (c + n)"
  using assms unfolding next_size_def half_more_def Let_def INT32_MAX_def by (auto split: if_splits)

lemma ensure_space_ok:
  assumes "bson_ok b" "0 < n" "length (built b) + n \<le> doc_limit"
  shows "bson_ensure_space b (int n) = Some (True, spaced b (int n)) \<and> room (spaced b (int n)) n \<and>
    built (spaced b (int n)) = built b \<and> open_objs (spaced b (int n)) = open_objs b \<and>
    bs_err (spaced b (int n)) = bs_err b \<and> bs_finished (spaced b (int n)) = bs_finished b \<and>
    bs_stackPos (spaced b (int n)) = bs_stackPos b"
proof -
  let ?c = "int (length (built b))" and ?ds = "bs_dataSize b"
  have core: "bson_core b" and bound: "?ds \<le> growth_bound (length (built b) + 1)"
    using assms(1) by (auto simp: bson_ok_def)
  have ds: "0 \<le> ?ds" "?ds \<le> INT32_MAX" "?c \<le> ?ds"
    using core core_data [OF core] by (auto simp: bson_core_def)
  have n: "?c + int n \<le> 536870912" using assms(3) by (simp add: doc_limit_def)
  have total: "?ds + int n < 2147483647" using bound n assms(2) by (auto simp: growth_bound_def)
  show ?thesis
  proof (cases "?c + int n \<le> ?ds")
    case True
    then have e: "bson_ensure_space b (int n) = Some (True, b)"
      using ds n by (simp add: bson_ensure_space_def core_position [OF core] INT32_MAX_def)
    then show ?thesis
      using True core bound assms(2) by (simp add: spaced_def room_def growth_bound_def)
  next
    case False
    let ?new = "next_size ?ds (int n)"
    have new: "?ds \<le> ?new \<and> ?c + int n \<le> ?new \<and> ?new \<le> INT32_MAX \<and> ?new \<le> 3 * (?c + int n)"
      by (rule next_size_bounds) (use ds n total False assms(2) in simp_all)
    then have e: "bson_ensure_space b (int n) = Some (True, resized b ?new)"
      using ds n total False core
      by (auto simp: bson_ensure_space_def core_position [OF core] INT32_MAX_def resized_def
          bson_core_def Let_def next_size_def)
    show ?thesis
      using e new resized_core [OF core, of ?new]
      by (simp add: spaced_def room_def growth_bound_def le_max_iff_disj)
  qed
qed

lemma err_update [simp]:
  "built (b\<lparr>bs_err := e\<rparr>) = built b" "open_objs (b\<lparr>bs_err := e\<rparr>) = open_objs b"
  "bson_core (b\<lparr>bs_err := e\<rparr>) = bson_core b" "room (b\<lparr>bs_err := e\<rparr>) n = room b n"
  by (simp_all add: built_def open_objs_def bson_core_def room_def stack_ok_def
      cong: stack_place.case_cong)

section \<open>One element\<close>

text \<open>
  \<open>header\<close> is the type and the name of an element. \<open>begun\<close> is the state when they have
  been written, \<open>added\<close> when the value follows them.
\<close>

definition header :: "int \<Rightarrow> bytes \<Rightarrow> bytes" where
  "header type name = word_of_int type # name @ [0]"

definition begun :: "bson \<Rightarrow> int \<Rightarrow> bytes \<Rightarrow> nat \<Rightarrow> bson" where
  "begun b type name n =
     extend ((spaced b (int (length name + 2 + n)))\<lparr>bs_err := bs_err b OR name_flags name\<rparr>)
       (header type name)"

definition added :: "bson \<Rightarrow> int \<Rightarrow> bytes \<Rightarrow> bytes \<Rightarrow> bson" where
  "added b type name v = extend (begun b type name (length v)) v"

definition fits :: "bson \<Rightarrow> bytes \<Rightarrow> nat \<Rightarrow> bool" where
  "fits b name n \<longleftrightarrow> bson_ok b \<and> \<not> bs_finished b \<and> utf8_accepted name \<and>
     length (built b) + length name + 2 + n \<le> doc_limit"

lemma length_header [simp]: "length (header type name) = length name + 2"
  by (simp add: header_def)

lemma begun_facts:
  assumes "fits b name n"
  shows "bson_append_estart b type name (int n) = Some (True, begun b type name n)"
    and "room (begun b type name n) n"
    and "built (begun b type name n) = built b @ header type name"
    and "open_objs (begun b type name n) = open_objs b"
    and "bs_err (begun b type name n) = bs_err b OR name_flags name"
    and "\<not> bs_finished (begun b type name n)"
    and "bs_stackPos (begun b type name n) = bs_stackPos b"
proof -
  let ?m = "length name + 2 + n"
  let ?b1 = "(spaced b (int ?m))\<lparr>bs_err := bs_err b OR name_flags name\<rparr>"
  have ok: "bson_ok b" "\<not> bs_finished b" "utf8_accepted name" "length (built b) + ?m \<le> doc_limit"
    using assms by (auto simp: fits_def)
  note sp = ensure_space_ok [OF ok(1) _ ok(4)]
  have r: "room ?b1 ?m" using sp by simp
  have m: "size_t_of (1 + (int (length name) + 1) + int n) = int ?m"
    using ok(4) by (simp add: doc_limit_def)
  have "bson_append_byte ?b1 (word_of_int type) = Some (extend ?b1 [word_of_int type])"
    using extend_append [OF r, of "[word_of_int type]"] by (simp add: raw_appends)
  moreover have "bson_append (extend ?b1 [word_of_int type]) (name @ [0])
      = Some (extend (extend ?b1 [word_of_int type]) (name @ [0]))"
    using extend_append [OF extend_room [OF r, of "[word_of_int type]"]] by simp
  moreover have "extend (extend ?b1 [word_of_int type]) (name @ [0]) = begun b type name n"
    using extend_extend [OF r, of "[word_of_int type]" "name @ [0]"]
    by (simp add: begun_def header_def)
  ultimately show "bson_append_estart b type name (int n) = Some (True, begun b type name n)"
    using ok sp m by (simp add: bson_append_estart_def bson_check_field_name_eq)
  show "room (begun b type name n) n"
    using extend_room [OF r, of "header type name"] by (simp add: begun_def)
  show "built (begun b type name n) = built b @ header type name"
    using extend_built [OF r, of "header type name"] sp by (simp add: begun_def)
  show "open_objs (begun b type name n) = open_objs b"
    using sp by (simp add: begun_def)
  show "bs_err (begun b type name n) = bs_err b OR name_flags name"
    by (simp add: begun_def)
  show "\<not> bs_finished (begun b type name n)"
    using sp ok by (simp add: begun_def)
  show "bs_stackPos (begun b type name n) = bs_stackPos b"
    using sp by (simp add: begun_def)
qed

lemma added_facts:
  assumes "fits b name (length v)"
  shows "bson_ok (added b type name v)"
    and "built (added b type name v) = built b @ header type name @ v"
    and "open_objs (added b type name v) = open_objs b"
    and "bs_err (added b type name v) = bs_err b OR name_flags name"
    and "\<not> bs_finished (added b type name v)"
    and "bs_stackPos (added b type name v) = bs_stackPos b"
  using begun_facts [OF assms, of type]
    extend_room [of "begun b type name (length v)" "length v" v]
    extend_built [of "begun b type name (length v)" "length v" v]
  by (simp_all add: added_def room_ok)

text \<open>Values written in pieces.\<close>

lemma append1:
  "fits b name (length v) \<Longrightarrow>
     bson_append (begun b type name (length v)) v = Some (added b type name v)"
  using extend_append [OF begun_facts(2)] by (simp add: added_def)

lemma append_first:
  "fits b name n \<Longrightarrow> length x \<le> n \<Longrightarrow>
     bson_append (begun b type name n) x = Some (extend (begun b type name n) x)"
  using extend_append [OF begun_facts(2)] by simp

lemma append_next:
  "fits b name n \<Longrightarrow> length x + length y \<le> n \<Longrightarrow>
     bson_append (extend (begun b type name n) x) y = Some (extend (begun b type name n) (x @ y))"
  using extend_append [OF extend_room [OF begun_facts(2)], of b name n x y type]
    extend_extend [OF begun_facts(2), of b name n x y type] by simp

lemma append_last:
  "n = length v \<Longrightarrow> extend (begun b type name n) v = added b type name v"
  by (simp add: added_def)

section \<open>What every append writes\<close>

lemma estart_fits:
  "fits b name n \<Longrightarrow> m = int n \<Longrightarrow>
     bson_append_estart b type name m = Some (True, begun b type name n)"
  using begun_facts(1) by simp

lemma append_int_ok:
  "fits b name 4 \<Longrightarrow> bson_append_int b name i = Some (True, added b BSON_INT name (le_bytes 4 i))"
  using append1 [of b name "le_bytes 4 i" BSON_INT]
  by (simp add: bson_append_int_def estart_fits raw_appends)

lemma append_long_ok:
  "fits b name 8 \<Longrightarrow>
     bson_append_long b name i = Some (True, added b BSON_LONG name (le_bytes 8 i))"
  using append1 [of b name "le_bytes 8 i" BSON_LONG]
  by (simp add: bson_append_long_def estart_fits raw_appends)

lemma append_double_ok:
  "fits b name 8 \<Longrightarrow>
     bson_append_double b name x = Some (True, added b BSON_DOUBLE name (le_bytes 8 (uint x)))"
  using append1 [of b name "le_bytes 8 (uint x)" BSON_DOUBLE]
  by (simp add: bson_append_double_def estart_fits raw_appends)

lemma append_bool_ok:
  "fits b name 1 \<Longrightarrow> bson_append_bool b name i
     = Some (True, added b BSON_BOOL name [if i \<noteq> 0 then 1 else 0])"
  using append1 [of b name "[if i \<noteq> 0 then 1 else 0]" BSON_BOOL]
  by (simp add: bson_append_bool_def estart_fits raw_appends)

lemma append_nothing:
  "fits b name 0 \<Longrightarrow> begun b type name 0 = added b type name []"
  using append_first [of b name 0 "[]" type] begun_facts(2) [of b name 0 type]
    core_data [OF room_core] core_cur [OF room_core]
  by (fastforce simp: added_def extend_def blit_def)

lemma append_empty_ok:
  assumes "fits b name 0"
  shows "bson_append_null b name = Some (True, added b BSON_NULL name [])"
    and "bson_append_undefined b name = Some (True, added b BSON_UNDEFINED name [])"
    and "bson_append_maxkey b name = Some (True, added b BSON_MAXKEY name [])"
    and "bson_append_minkey b name = Some (True, added b BSON_MINKEY name [])"
  using estart_fits [OF assms, of 0] append_nothing [OF assms]
  by (simp_all add: bson_append_null_def bson_append_undefined_def bson_append_maxkey_def
      bson_append_minkey_def)

definition string_value :: "bytes \<Rightarrow> bytes" where
  "string_value s = le_bytes 4 (int (length s) + 1) @ s @ [0]"

lemma append_string_base_ok:
  assumes "fits b name (len + 5)" "len \<le> length value" "utf8_accepted (take len value)"
  shows "bson_append_string_base b name value len type
    = Some (True, added b type name (string_value (take len value)))"
proof -
  let ?v = "take len value"
  have e: "bson_append_estart b type name (4 + int (len + 1)) = Some (True, begun b type name (len + 5))"
    using assms(1) by (intro estart_fits) simp_all
  have l: "\<not> int (len + 1) > INT32_MAX"
    using assms(1) by (simp add: fits_def doc_limit_def INT32_MAX_def)
  have "bson_append (begun b type name (len + 5)) (le_bytes 4 (int (len + 1)))
      = Some (extend (begun b type name (len + 5)) (le_bytes 4 (int (len + 1))))"
    using assms(1) by (intro append_first) simp_all
  moreover have "bson_append (extend (begun b type name (len + 5)) (le_bytes 4 (int (len + 1)))) ?v
      = Some (extend (begun b type name (len + 5)) (le_bytes 4 (int (len + 1)) @ ?v))"
    using assms(1,2) by (intro append_next) simp_all
  moreover have "bson_append (extend (begun b type name (len + 5)) (le_bytes 4 (int (len + 1)) @ ?v)) [0]
      = Some (extend (begun b type name (len + 5)) ((le_bytes 4 (int (len + 1)) @ ?v) @ [0]))"
    using assms(1,2) by (intro append_next) simp_all
  moreover have "extend (begun b type name (len + 5)) ((le_bytes 4 (int (len + 1)) @ ?v) @ [0])
      = added b type name (string_value ?v)"
    using assms(2) by (simp add: added_def string_value_def min_def add.commute)
  ultimately show ?thesis
    using e l assms(2,3)
    by (simp add: bson_append_string_base_def mem_defs block_at_def bson_check_string_eq raw_appends)
qed

lemma append_strings_ok:
  assumes "fits b name (length s + 5)" "utf8_accepted s"
  shows "bson_append_string b name s = Some (True, added b BSON_STRING name (string_value s))"
    and "bson_append_symbol b name s = Some (True, added b BSON_SYMBOL name (string_value s))"
    and "bson_append_code b name s = Some (True, added b BSON_CODE name (string_value s))"
  using append_string_base_ok [of b name "length s" s] assms
  by (simp_all add: bson_append_string_def bson_append_symbol_def bson_append_code_def)

definition binary_value :: "byte \<Rightarrow> bytes \<Rightarrow> bytes" where
  "binary_value subtype x =
     (if subtype = BSON_BIN_BINARY_OLD
      then le_bytes 4 (int (length x) + 4) @ [subtype] @ le_bytes 4 (int (length x)) @ x
      else le_bytes 4 (int (length x)) @ [subtype] @ x)"

lemma append_binary_ok:
  assumes "fits b name (length (binary_value t x))"
  shows "bson_append_binary b name t x (length x)
    = Some (True, added b BSON_BINDATA name (binary_value t x))"
proof (cases "t = BSON_BIN_BINARY_OLD")
  case True
  let ?n = "length x + 9" and ?T = BSON_BINDATA
  have f: "fits b name ?n" using assms True by (simp add: binary_value_def add.commute)
  have "bson_append_estart b ?T name (4 + 1 + 4 + int (length x)) = Some (True, begun b ?T name ?n)"
    by (rule estart_fits [OF f]) simp
  moreover note append_first [OF f, of "le_bytes 4 (int (length x) + 4)" ?T]
    append_next [OF f, of "le_bytes 4 (int (length x) + 4)" "[t]" ?T]
    append_next [OF f, of "le_bytes 4 (int (length x) + 4) @ [t]" "le_bytes 4 (int (length x))" ?T]
    append_next [OF f, of "(le_bytes 4 (int (length x) + 4) @ [t]) @ le_bytes 4 (int (length x))" x ?T]
    append_last [of ?n "binary_value t x" b ?T name]
  ultimately show ?thesis
    using True
    by (simp add: bson_append_binary_def raw_appends mem_defs block_at_def binary_value_def)
next
  case False
  let ?n = "length x + 5" and ?T = BSON_BINDATA
  have f: "fits b name ?n" using assms False by (simp add: binary_value_def add.commute)
  have "bson_append_estart b ?T name (4 + 1 + int (length x)) = Some (True, begun b ?T name ?n)"
    by (rule estart_fits [OF f]) simp
  moreover note append_first [OF f, of "le_bytes 4 (int (length x))" ?T]
    append_next [OF f, of "le_bytes 4 (int (length x))" "[t]" ?T]
    append_next [OF f, of "le_bytes 4 (int (length x)) @ [t]" x ?T]
    append_last [of ?n "binary_value t x" b ?T name]
  ultimately show ?thesis
    using False
    by (simp add: bson_append_binary_def raw_appends mem_defs block_at_def binary_value_def)
qed

lemma append_oid_ok:
  assumes "fits b name 12" "length oid = 12"
  shows "bson_append_oid b name oid = Some (True, added b BSON_OID name oid)"
  using append1 [of b name oid BSON_OID] assms
  by (simp add: bson_append_oid_def estart_fits mem_defs block_at_def)

lemma append_regex_ok:
  assumes "fits b name (length p + length q + 2)" "utf8_accepted p"
  shows "bson_append_regex b name p q = Some (True, added b BSON_REGEX name (p @ [0] @ q @ [0]))"
proof -
  let ?n = "length p + length q + 2" and ?T = BSON_REGEX
  have "bson_append_estart b ?T name (int (length p + 1) + int (length q + 1))
      = Some (True, begun b ?T name ?n)"
    by (rule estart_fits [OF assms(1)]) simp
  moreover note append_first [OF assms(1), of "p @ [0]" ?T]
    append_next [OF assms(1), of "p @ [0]" "q @ [0]" ?T]
    append_last [of ?n "p @ [0] @ q @ [0]" b ?T name]
  ultimately show ?thesis
    using assms(2) by (simp add: bson_append_regex_def bson_check_string_eq)
qed

lemma append_timestamp_ok:
  assumes "fits b name 8"
  shows "bson_append_timestamp b name (i, t)
      = Some (True, added b BSON_TIMESTAMP name (le_bytes 4 i @ le_bytes 4 t))"
    and "bson_append_timestamp2 b name t i
      = Some (True, added b BSON_TIMESTAMP name (le_bytes 4 i @ le_bytes 4 t))"
  using estart_fits [OF assms, of 8 BSON_TIMESTAMP]
    append_first [OF assms, of "le_bytes 4 i" BSON_TIMESTAMP]
    append_next [OF assms, of "le_bytes 4 i" "le_bytes 4 t" BSON_TIMESTAMP]
    append_last [of 8 "le_bytes 4 i @ le_bytes 4 t" b BSON_TIMESTAMP name]
  by (simp_all add: bson_append_timestamp_def bson_append_timestamp2_def raw_appends)

lemma append_date_ok:
  "fits b name 8 \<Longrightarrow>
     bson_append_date b name i = Some (True, added b BSON_DATE name (le_bytes 8 i))"
  using append1 [of b name "le_bytes 8 i" BSON_DATE]
  by (simp add: bson_append_date_def estart_fits raw_appends)

section \<open>Objects in objects\<close>

lemma open_objs_length: "bson_core b \<Longrightarrow> length (open_objs b) = bs_stackPos b"
  by (auto simp: bson_core_def open_objs_def stack_ok_def split: stack_place.splits)

lemma grow_stack:
  assumes "stack_ok b" "bs_stackPos b \<ge> bs_stackSize b"
  shows "stack_ok (bson_append_grow_stack b)"
    and "bs_stackPos b < length (bs_stack (bson_append_grow_stack b))"
    and "bs_stackPos b < bs_stackSize (bson_append_grow_stack b)"
    and "open_objs (bson_append_grow_stack b) = open_objs b"
  using assms
  by (auto simp: stack_ok_def bson_append_grow_stack_def open_objs_def take_realloc
      split: stack_place.splits)

lemma grow_stack_fields [simp]:
  "bs_data (bson_append_grow_stack b) = bs_data b" "bs_cur (bson_append_grow_stack b) = bs_cur b"
  "bs_dataSize (bson_append_grow_stack b) = bs_dataSize b"
  "bs_ownsData (bson_append_grow_stack b) = bs_ownsData b"
  "bs_err (bson_append_grow_stack b) = bs_err b"
  "bs_finished (bson_append_grow_stack b) = bs_finished b"
  "bs_stackPos (bson_append_grow_stack b) = bs_stackPos b"
  by (simp_all add: bson_append_grow_stack_def split: stack_place.split)

text \<open>The state with the start of an object pushed on the stack.\<close>

definition pushed :: "bson \<Rightarrow> bson" where
  "pushed b =
     (let b1 = (if bs_stackPos b \<ge> bs_stackSize b then bson_append_grow_stack b else b)
      in b1\<lparr>bs_stackPos := bs_stackPos b + 1,
        bs_stack := (bs_stack b1)[bs_stackPos b := length (built b)]\<rparr>)"

lemma pushed_facts:
  assumes "room b n"
  shows "push_open b = bson_append32 (pushed b) 0"
    and "room (pushed b) n"
    and "built (pushed b) = built b"
    and "open_objs (pushed b) = open_objs b @ [length (built b)]"
    and "bs_err (pushed b) = bs_err b"
    and "bs_finished (pushed b) = bs_finished b"
proof -
  define b1 where "b1 = (if bs_stackPos b \<ge> bs_stackSize b then bson_append_grow_stack b else b)"
  have core: "bson_core b" by (rule room_core [OF assms])
  then have st: "stack_ok b" by (simp add: bson_core_def)
  have b1: "bs_data b1 = bs_data b" "bs_cur b1 = bs_cur b" "bs_dataSize b1 = bs_dataSize b"
      "bs_ownsData b1 = bs_ownsData b" "bs_err b1 = bs_err b" "bs_finished b1 = bs_finished b"
      "bs_stackPos b1 = bs_stackPos b"
    by (simp_all add: b1_def)
  have s1: "stack_ok b1" "bs_stackPos b < length (bs_stack b1)" "bs_stackPos b < bs_stackSize b1"
      "open_objs b1 = open_objs b"
    using grow_stack [OF st] st
    by (auto simp: b1_def stack_ok_def split: stack_place.splits if_splits)
  have p: "pushed b = b1\<lparr>bs_stackPos := bs_stackPos b + 1,
        bs_stack := (bs_stack b1)[bs_stackPos b := length (built b)]\<rparr>"
    by (simp add: pushed_def b1_def Let_def)
  have pos: "bson_position b1 = Some (length (built b))"
    by (simp add: bson_position_def b1 core_cur [OF core])
  show "push_open b = bson_append32 (pushed b) 0"
    using s1 pos by (simp add: push_open_def Let_def b1_def [symmetric] mem_defs p b1)
  show bu: "built (pushed b) = built b" by (simp add: built_def p b1)
  have "stack_ok (pushed b)"
    using s1 by (auto simp: stack_ok_def p b1 split: stack_place.splits)
  then have "bson_core (pushed b)"
    using core by (simp add: bson_core_def p b1)
  then show "room (pushed b) n"
    using assms unfolding room_def bu by (simp add: p b1)
  show "open_objs (pushed b) = open_objs b @ [length (built b)]"
    using s1 by (simp add: open_objs_def p b1 take_Suc_conv_app_nth)
  show "bs_err (pushed b) = bs_err b" "bs_finished (pushed b) = bs_finished b"
    by (simp_all add: p b1)
qed

definition started :: "bson \<Rightarrow> int \<Rightarrow> bytes \<Rightarrow> bson" where
  "started b type name = extend (pushed (begun b type name 5)) (le_bytes 4 0)"

lemma started_facts:
  assumes "fits b name 5"
  shows "bson_ok (started b type name)"
    and "built (started b type name) = built b @ header type name @ le_bytes 4 0"
    and "open_objs (started b type name) = open_objs b @ [length (built b) + length name + 2]"
    and "bs_err (started b type name) = bs_err b OR name_flags name"
    and "\<not> bs_finished (started b type name)"
    and "push_open (begun b type name 5) = Some (started b type name)"
proof -
  note f = begun_facts [OF assms, of type]
  note p = pushed_facts [OF f(2)]
  have "room (started b type name) 1"
    using extend_room [OF p(2), of "le_bytes 4 0"] by (simp add: started_def)
  then show "bson_ok (started b type name)" by (rule room_ok) simp
  show "built (started b type name) = built b @ header type name @ le_bytes 4 0"
    using extend_built [OF p(2), of "le_bytes 4 0"] p(3) f(3) by (simp add: started_def)
  show "push_open (begun b type name 5) = Some (started b type name)"
    using extend_append [OF p(2), of "le_bytes 4 0"] p(1) by (simp add: started_def raw_appends)
qed (use begun_facts [OF assms, of type] pushed_facts [OF begun_facts(2) [OF assms, of type]]
    in \<open>simp_all add: started_def\<close>)

lemma start_ok:
  assumes "fits b name 5"
  shows "bson_append_start_object b name = Some (True, started b BSON_OBJECT name)"
    and "bson_append_start_array b name = Some (True, started b BSON_ARRAY name)"
  using estart_fits [OF assms, of 5] started_facts(6) [OF assms]
  by (simp_all add: bson_append_start_object_def bson_append_start_array_def)

text \<open>Writing a length over bytes that have been written before.\<close>

lemma take_blit_in:
  "i + length x \<le> c \<Longrightarrow> c \<le> length d \<Longrightarrow> take c (blit d i x) = blit (take c d) i x"
  by (simp add: blit_def drop_take)

lemma patch_core:
  "bson_core b \<Longrightarrow> bs_data b = Some d \<Longrightarrow> length d' = length d \<Longrightarrow>
     bson_core (b\<lparr>bs_data := Some d'\<rparr>)"
  by (simp add: bson_core_def stack_ok_def cong: stack_place.case_cong)

lemma patch_built:
  assumes "bson_core b" "i + length x \<le> length (built b)"
  shows "\<exists>d d'. bs_data b = Some d \<and> store_block d i x = Some d' \<and>
     built (b\<lparr>bs_data := Some d'\<rparr>) = blit (built b) i x \<and> bson_core (b\<lparr>bs_data := Some d'\<rparr>)"
proof -
  obtain d where d: "bs_data b = Some d" "int (length d) = bs_dataSize b"
      "length (built b) \<le> length d" "take (length (built b)) d = built b" "4 \<le> length (built b)"
    using core_data [OF assms(1)] by blast
  let ?d = "blit d i x" and ?n = "length (built b)"
  have s: "store_block d i x = Some ?d" using assms(2) d(3) by (simp add: mem_defs)
  have t: "take ?n ?d = blit (take ?n d) i x"
    using assms(2) d(3) by (rule take_blit_in)
  have "built (b\<lparr>bs_data := Some ?d\<rparr>) = take ?n ?d"
    unfolding built_def [of "b\<lparr>bs_data := Some ?d\<rparr>"]
    using core_cur [OF assms(1)] by simp
  then have "built (b\<lparr>bs_data := Some ?d\<rparr>) = blit (built b) i x"
    using t d(4) by simp
  moreover have "bson_core (b\<lparr>bs_data := Some ?d\<rparr>)"
    using assms d(1,3) by (intro patch_core) simp_all
  ultimately show ?thesis using d(1) s by blast
qed

lemma blit_middle:
  "length x = length y \<Longrightarrow> blit (p @ x @ s) (length p) y = p @ y @ s"
  by (simp add: blit_def)

text \<open>The state after the terminating zero has been written.\<close>

definition closed :: "bson \<Rightarrow> bson" where
  "closed b = extend (spaced b 1) [0]"

lemma closed_facts:
  assumes "bson_ok b" "length (built b) + 1 \<le> doc_limit"
  shows "bson_ensure_space b 1 = Some (True, spaced b 1)"
    and "bson_append_byte (spaced b 1) 0 = Some (closed b)"
    and "room (closed b) 0"
    and "built (closed b) = built b @ [0]"
    and "open_objs (closed b) = open_objs b"
    and "bs_err (closed b) = bs_err b"
    and "bs_finished (closed b) = bs_finished b"
    and "bs_stackPos (closed b) = bs_stackPos b"
  using ensure_space_ok [OF assms(1) _ assms(2)] extend_append [of "spaced b 1" 1 "[0]"]
    extend_built [of "spaced b 1" 1 "[0]"] extend_room [of "spaced b 1" 1 "[0]"]
  by (simp_all add: closed_def raw_appends)

lemma finish_object_ok:
  assumes "bson_ok b" "length (built b) + 1 \<le> doc_limit"
    "open_objs b = os @ [length p]" "built b = p @ x @ body" "length x = 4"
  shows "\<exists>b'. bson_append_finish_object b = Some (True, b') \<and> bson_ok b' \<and>
    built b' = p @ le_bytes 4 (5 + int (length body)) @ body @ [0] \<and> open_objs b' = os \<and>
    bs_err b' = bs_err b \<and> bs_finished b' = bs_finished b"
proof -
  note c = closed_facts [OF assms(1,2)]
  have core: "bson_core (closed b)" by (rule room_core [OF c(3)])
  have "length (open_objs b) = bs_stackPos b"
    using open_objs_length [OF core] c(5,8) by simp
  then have pos: "bs_stackPos b = Suc (length os)" using assms(3) by simp
  have sz: "bs_stackPos b \<le> length (bs_stack (closed b))"
    using core c(8) by (auto simp: bson_core_def stack_ok_def split: stack_place.splits)
  have "open_objs (closed b) = os @ [length p]" using c(5) assms(3) by simp
  then have top: "bs_stack (closed b) ! length os = length p" "take (length os) (bs_stack (closed b)) = os"
    using pos sz c(8)
    by (auto simp: open_objs_def take_Suc_conv_app_nth)
  let ?b3 = "(closed b)\<lparr>bs_stackPos := length os\<rparr>"
  have b3: "built ?b3 = built b @ [0]" using c(4) by (simp add: built_def)
  have core3: "bson_core ?b3"
    using core pos c(8) by (auto simp: bson_core_def stack_ok_def cong: stack_place.case_cong)
  have n: "int (length (built b @ [0])) - int (length p) = 5 + int (length body)"
    using assms(4,5) by simp
  obtain d d' where d: "bs_data ?b3 = Some d"
      "store_block d (length p) (le_bytes 4 (5 + int (length body))) = Some d'"
      "built (?b3\<lparr>bs_data := Some d'\<rparr>)
        = blit (built ?b3) (length p) (le_bytes 4 (5 + int (length body)))"
      "bson_core (?b3\<lparr>bs_data := Some d'\<rparr>)"
    using patch_built [OF core3, of "length p" "le_bytes 4 (5 + int (length body))"] b3 assms(4,5)
    by auto
  let ?b = "?b3\<lparr>bs_data := Some d'\<rparr>"
  have built: "built ?b = p @ le_bytes 4 (5 + int (length body)) @ body @ [0]"
    using d(3) b3 assms(4,5) blit_middle [of x "le_bytes 4 (5 + int (length body))" p "body @ [0]"]
    by simp
  have "bson_append_finish_object b = Some (True, ?b)"
    using c(1,2,8) pos top sz core_position [OF core] n d(1,2) assms(2) b3
    by (simp add: bson_append_finish_object_def mem_defs [of "bs_stack (closed b)"] load_def c(4)
        Let_def INT32_MAX_def doc_limit_def assms(4,5))
  moreover have "bson_ok ?b"
    using d(4) c(3) built assms(4,5) b3 unfolding room_def bson_ok_def c(4)
    by (auto simp: growth_bound_def)
  moreover have "open_objs ?b = os" using top by (simp add: open_objs_def)
  ultimately show ?thesis using built c(6,7) by (intro exI [of _ ?b]) simp
qed

lemma finish_ok:
  assumes "bson_ok b" "length (built b) + 1 \<le> doc_limit" "open_objs b = []" "\<not> bs_finished b"
    "bs_err b AND BSON_NOT_UTF8 = 0" "built b = x @ body" "length x = 4"
  shows "\<exists>b' rest. bson_finish b = Some (True, b') \<and> bs_finished b' \<and> bs_err b' = bs_err b \<and>
    bs_data b' = Some (le_bytes 4 (5 + int (length body)) @ body @ [0] @ rest)"
proof -
  note c = closed_facts [OF assms(1,2)]
  have core: "bson_core (closed b)" by (rule room_core [OF c(3)])
  have pos: "bs_stackPos b = 0" using open_objs_length [OF core] c(5,8) assms(3) by simp
  obtain d where d: "bs_data (closed b) = Some d" "take (length (built b) + 1) d = x @ body @ [0]"
      "length (built b) + 1 \<le> length d"
    using core_data [OF core] c(4) assms(6) by auto
  then have "d = x @ body @ [0] @ drop (length (built b) + 1) d"
    by (metis append_take_drop_id append.assoc)
  then obtain rest where r: "d = x @ (body @ [0] @ rest)" by (metis append.assoc)
  let ?d = "le_bytes 4 (5 + int (length body)) @ body @ [0] @ rest"
  have s: "store_block d 0 (le_bytes 4 (5 + int (length body))) = Some ?d"
    using assms(7) by (simp add: r mem_defs blit_def)
  have n: "int (length (built b @ [0])) = 5 + int (length body)" using assms(6,7) by simp
  have "bson_finish b = Some (True, (closed b)\<lparr>bs_data := Some ?d, bs_finished := True\<rparr>)"
    using c(1,2) pos assms(2-5) core_position [OF core] n s d(1)
    by (simp add: bson_finish_def c(4) INT32_MAX_def doc_limit_def)
  then show ?thesis using c(6) by auto
qed

lemma init_ok:
  "\<exists>b'. bson_init b = Some (True, b') \<and> bson_ok b' \<and> \<not> bs_finished b' \<and> length (built b') = 4 \<and>
     open_objs b' = [] \<and> bs_err b' = 0"
  by (auto simp: bson_init_def bson_init_size_def bson_zero_def bson_ok_def bson_core_def built_def
      stack_ok_def open_objs_def growth_bound_def INT32_MAX_def)

end
