(* ===== verification/BsonDoc.thy ===== *)
theory BsonDoc
  imports Bson
begin

unbundle bit_operations_syntax

text \<open>
  What the builder promises: \<open>belem\<close> are the values a document can hold,
  \<open>doc_bytes\<close> the bytes of a document as the BSON format lays them out, and
  \<open>build_doc\<close> a client that builds a document with the calls of the driver, an
  object in the middle of another one included. The calls for code with a scope
  and for copies of finished objects are covered by lemmas of their own.
\<close>

section \<open>Documents\<close>

datatype belem =
    B_double "64 word"
  | B_string bytes
  | B_object "(bytes \<times> belem) list"
  | B_array "(bytes \<times> belem) list"
  | B_binary byte bytes
  | B_undefined
  | B_oid bytes
  | B_bool bool
  | B_date int
  | B_null
  | B_regex bytes bytes
  | B_code bytes
  | B_symbol bytes
  | B_int int
  | B_timestamp int int
  | B_long int
  | B_maxkey
  | B_minkey

fun type_code :: "belem \<Rightarrow> int" where
  "type_code (B_double x) = BSON_DOUBLE"
| "type_code (B_string s) = BSON_STRING"
| "type_code (B_object es) = BSON_OBJECT"
| "type_code (B_array es) = BSON_ARRAY"
| "type_code (B_binary t x) = BSON_BINDATA"
| "type_code B_undefined = BSON_UNDEFINED"
| "type_code (B_oid x) = BSON_OID"
| "type_code (B_bool v) = BSON_BOOL"
| "type_code (B_date i) = BSON_DATE"
| "type_code B_null = BSON_NULL"
| "type_code (B_regex p q) = BSON_REGEX"
| "type_code (B_code s) = BSON_CODE"
| "type_code (B_symbol s) = BSON_SYMBOL"
| "type_code (B_int i) = BSON_INT"
| "type_code (B_timestamp i t) = BSON_TIMESTAMP"
| "type_code (B_long i) = BSON_LONG"
| "type_code B_maxkey = BSON_MAXKEY"
| "type_code B_minkey = BSON_MINKEY"

definition framed :: "bytes \<Rightarrow> bytes" where
  "framed body = le_bytes 4 (5 + int (length body)) @ body @ [0]"

fun value_bytes :: "belem \<Rightarrow> bytes"
  and elems_bytes :: "(bytes \<times> belem) list \<Rightarrow> bytes"
where
  "value_bytes (B_double x) = le_bytes 8 (uint x)"
| "value_bytes (B_string s) = string_value s"
| "value_bytes (B_object es) = framed (elems_bytes es)"
| "value_bytes (B_array es) = framed (elems_bytes es)"
| "value_bytes (B_binary t x) = binary_value t x"
| "value_bytes B_undefined = []"
| "value_bytes (B_oid x) = x"
| "value_bytes (B_bool v) = [if v then 1 else 0]"
| "value_bytes (B_date i) = le_bytes 8 i"
| "value_bytes B_null = []"
| "value_bytes (B_regex p q) = p @ [0] @ q @ [0]"
| "value_bytes (B_code s) = string_value s"
| "value_bytes (B_symbol s) = string_value s"
| "value_bytes (B_int i) = le_bytes 4 i"
| "value_bytes (B_timestamp i t) = le_bytes 4 i @ le_bytes 4 t"
| "value_bytes (B_long i) = le_bytes 8 i"
| "value_bytes B_maxkey = []"
| "value_bytes B_minkey = []"
| "elems_bytes [] = []"
| "elems_bytes ((name, e) # es) = header (type_code e) name @ value_bytes e @ elems_bytes es"

definition doc_bytes :: "(bytes \<times> belem) list \<Rightarrow> bytes" where
  "doc_bytes es = framed (elems_bytes es)"

text \<open>
  The values that fit the C types. A C string holds no zero byte, and names and texts
  have to pass the check of the driver.
\<close>

definition c_text :: "bytes \<Rightarrow> bool" where
  "c_text s \<longleftrightarrow> 0 \<notin> set s \<and> utf8_accepted s"

definition int32 :: "int \<Rightarrow> bool" where
  "int32 i \<longleftrightarrow> - 2147483648 \<le> i \<and> i < 2147483648"

definition int64 :: "int \<Rightarrow> bool" where
  "int64 i \<longleftrightarrow> - 9223372036854775808 \<le> i \<and> i < 9223372036854775808"

fun elem_ok :: "belem \<Rightarrow> bool"
  and elems_ok :: "(bytes \<times> belem) list \<Rightarrow> bool"
where
  "elem_ok (B_string s) = c_text s"
| "elem_ok (B_object es) = elems_ok es"
| "elem_ok (B_array es) = elems_ok es"
| "elem_ok (B_oid x) = (length x = 12)"
| "elem_ok (B_date i) = int64 i"
| "elem_ok (B_regex p q) = (c_text p \<and> 0 \<notin> set q)"
| "elem_ok (B_code s) = c_text s"
| "elem_ok (B_symbol s) = c_text s"
| "elem_ok (B_int i) = int32 i"
| "elem_ok (B_timestamp i t) = (int32 i \<and> int32 t)"
| "elem_ok (B_long i) = int64 i"
| "elem_ok (B_double x) = True"
| "elem_ok (B_binary t x) = True"
| "elem_ok B_undefined = True"
| "elem_ok (B_bool v) = True"
| "elem_ok B_null = True"
| "elem_ok B_maxkey = True"
| "elem_ok B_minkey = True"
| "elems_ok [] = True"
| "elems_ok ((name, e) # es) = (c_text name \<and> elem_ok e \<and> elems_ok es)"

fun add_elem :: "bytes \<Rightarrow> belem \<Rightarrow> bson \<Rightarrow> (bool \<times> bson) option"
  and add_elems :: "(bytes \<times> belem) list \<Rightarrow> bson \<Rightarrow> (bool \<times> bson) option"
where
  "add_elem name (B_double x) b = bson_append_double b name x"
| "add_elem name (B_string s) b = bson_append_string b name s"
| "add_elem name (B_object es) b = do {
     (ok, b1) \<leftarrow> bson_append_start_object b name;
     if \<not> ok then Some (False, b1)
     else do {
       (ok, b2) \<leftarrow> add_elems es b1;
       if \<not> ok then Some (False, b2) else bson_append_finish_object b2
     }
   }"
| "add_elem name (B_array es) b = do {
     (ok, b1) \<leftarrow> bson_append_start_array b name;
     if \<not> ok then Some (False, b1)
     else do {
       (ok, b2) \<leftarrow> add_elems es b1;
       if \<not> ok then Some (False, b2) else bson_append_finish_array b2
     }
   }"
| "add_elem name (B_binary t x) b = bson_append_binary b name t x (length x)"
| "add_elem name B_undefined b = bson_append_undefined b name"
| "add_elem name (B_oid x) b = bson_append_oid b name x"
| "add_elem name (B_bool v) b = bson_append_bool b name (if v then 1 else 0)"
| "add_elem name (B_date i) b = bson_append_date b name i"
| "add_elem name B_null b = bson_append_null b name"
| "add_elem name (B_regex p q) b = bson_append_regex b name p q"
| "add_elem name (B_code s) b = bson_append_code b name s"
| "add_elem name (B_symbol s) b = bson_append_symbol b name s"
| "add_elem name (B_int i) b = bson_append_int b name i"
| "add_elem name (B_timestamp i t) b = bson_append_timestamp b name (i, t)"
| "add_elem name (B_long i) b = bson_append_long b name i"
| "add_elem name B_maxkey b = bson_append_maxkey b name"
| "add_elem name B_minkey b = bson_append_minkey b name"
| "add_elems [] b = Some (True, b)"
| "add_elems ((name, e) # es) b = do {
     (ok, b1) \<leftarrow> add_elem name e b;
     if \<not> ok then Some (False, b1) else add_elems es b1
   }"

definition build_doc :: "(bytes \<times> belem) list \<Rightarrow> bson \<Rightarrow> (bool \<times> bson) option" where
  "build_doc es b = do {
     (ok, b1) \<leftarrow> bson_init b;
     (ok, b2) \<leftarrow> add_elems es b1;
     if \<not> ok then Some (False, b2) else bson_finish b2
   }"

section \<open>The builder writes the bytes of the document\<close>

text \<open>\<open>writes b b' x\<close>: a call has appended \<open>x\<close>, left the open objects and set no fatal bit.\<close>

definition writes :: "bson \<Rightarrow> bson \<Rightarrow> bytes \<Rightarrow> bool" where
  "writes b b' x \<longleftrightarrow> bson_ok b' \<and> \<not> bs_finished b' \<and> built b' = built b @ x \<and>
     open_objs b' = open_objs b \<and> bs_err b' AND BSON_NOT_UTF8 = bs_err b AND BSON_NOT_UTF8"

lemma writes_refl: "bson_ok b \<Longrightarrow> \<not> bs_finished b \<Longrightarrow> writes b b []"
  by (simp add: writes_def)

lemma writes_trans: "writes b b1 x \<Longrightarrow> writes b1 b2 y \<Longrightarrow> writes b b2 (x @ y)"
  by (simp add: writes_def)

lemma validate_flags:
  "u \<Longrightarrow> utf8_accepted s \<Longrightarrow> snd (validate_from u d s err) AND BSON_NOT_UTF8 = err AND BSON_NOT_UTF8"
proof (induction u d s err rule: validate_from.induct)
  case (2 u d c s err)
  let ?n = "trailingBytesForUTF8 ! unat c + 1"
  have "?n \<le> length (c # s)" "isLegalUTF8 (c # s) ?n" "utf8_accepted (drop ?n (c # s))"
    using utf8_step [of "c # s", OF _ refl] 2 by auto
  moreover have "(err OR BSON_FIELD_HAS_DOT) AND BSON_NOT_UTF8 = err AND BSON_NOT_UTF8"
    by (simp add: bson_error_bits bit.conj_disj_distrib2)
  ultimately show ?case using 2 by (auto simp: Let_def)
qed simp

lemma name_flags_utf8:
  assumes "utf8_accepted name"
  shows "(err OR name_flags name) AND BSON_NOT_UTF8 = err AND BSON_NOT_UTF8"
proof -
  have "snd (bson_check_field_name 0 name) AND BSON_NOT_UTF8 = 0"
    using validate_flags [OF TrueI assms, of True]
    by (simp add: bson_check_field_name_def bson_validate_string_def Let_def bson_error_bits)
  then show ?thesis
    by (simp add: name_flags_def bit.conj_disj_distrib2)
qed

lemma added_writes:
  "fits b name (length v) \<Longrightarrow> writes b (added b type name v) (header type name @ v)"
  using added_facts [of b name v type]
  by (simp add: writes_def name_flags_utf8 fits_def)

text \<open>The elements without an inside.\<close>

fun is_flat :: "belem \<Rightarrow> bool" where
  "is_flat (B_object es) = False"
| "is_flat (B_array es) = False"
| "is_flat e = True"

lemma add_flat:
  assumes "is_flat e" "fits b name (length (value_bytes e))" "elem_ok e"
  shows "add_elem name e b = Some (True, added b (type_code e) name (value_bytes e))"
  using assms
  by (cases e) (simp_all add: append_double_ok append_strings_ok append_binary_ok append_empty_ok
      append_oid_ok append_bool_ok append_date_ok append_regex_ok append_int_ok append_timestamp_ok
      append_long_ok c_text_def string_value_def add.commute)

lemma add_flat_writes:
  assumes "is_flat e" "bson_ok b" "\<not> bs_finished b" "utf8_accepted name" "elem_ok e"
    "length (built b) + length name + 2 + length (value_bytes e) \<le> doc_limit"
  shows "\<exists>b'. add_elem name e b = Some (True, b') \<and>
    writes b b' (header (type_code e) name @ value_bytes e)"
  using add_flat [OF assms(1), of b name] added_writes [of b name "value_bytes e" "type_code e"]
    assms(2-) by (simp add: fits_def)

text \<open>An object: started, filled, finished.\<close>

lemma finish_writes:
  assumes "fits b name 5" "writes (started b type name) b2 body"
    "length (built b) + length name + 2 + length (framed body) \<le> doc_limit"
  shows "\<exists>b'. bson_append_finish_object b2 = Some (True, b') \<and>
    writes b b' (header type name @ framed body)"
proof -
  note st = started_facts [OF assms(1), of type]
  let ?p = "built b @ header type name"
  have w: "bson_ok b2" "\<not> bs_finished b2" "built b2 = ?p @ le_bytes 4 0 @ body"
      "open_objs b2 = open_objs b @ [length ?p]"
      "bs_err b2 AND BSON_NOT_UTF8 = bs_err b AND BSON_NOT_UTF8"
    using assms(1,2) st name_flags_utf8 [of name "bs_err b"] by (auto simp: writes_def fits_def)
  have "length (built b2) + 1 \<le> doc_limit"
    using assms(3) w(3) by (simp add: framed_def)
  from finish_object_ok [OF w(1) this w(4) w(3)] obtain b' where b':
      "bson_append_finish_object b2 = Some (True, b')" "bson_ok b'"
      "built b' = ?p @ le_bytes 4 (5 + int (length body)) @ body @ [0]"
      "open_objs b' = open_objs b" "bs_err b' = bs_err b2" "bs_finished b' = bs_finished b2"
    by auto
  then show ?thesis
    using w by (intro exI [of _ b']) (simp add: writes_def framed_def)
qed

lemma add_writes:
  shows "bson_ok b \<Longrightarrow> \<not> bs_finished b \<Longrightarrow> utf8_accepted name \<Longrightarrow> elem_ok e \<Longrightarrow>
      length (built b) + length name + 2 + length (value_bytes e) \<le> doc_limit \<Longrightarrow>
      \<exists>b'. add_elem name e b = Some (True, b') \<and>
        writes b b' (header (type_code e) name @ value_bytes e)"
    and "bson_ok b \<Longrightarrow> \<not> bs_finished b \<Longrightarrow> elems_ok es \<Longrightarrow>
      length (built b) + length (elems_bytes es) \<le> doc_limit \<Longrightarrow>
      \<exists>b'. add_elems es b = Some (True, b') \<and> writes b b' (elems_bytes es)"
proof (induction name e b and es b rule: add_elem_add_elems.induct)
  case (3 name es b)
  have f: "fits b name 5" using 3 by (simp add: fits_def framed_def)
  note st = started_facts [OF f, of BSON_OBJECT]
  obtain b2 where b2: "add_elems es (started b BSON_OBJECT name) = Some (True, b2)"
      "writes (started b BSON_OBJECT name) b2 (elems_bytes es)"
    using "3.IH" [OF start_ok(1) [OF f] refl] 3 st by (auto simp: framed_def)
  then show ?case
    using finish_writes [OF f b2(2)] 3 start_ok(1) [OF f] by auto
next
  case (4 name es b)
  have f: "fits b name 5" using 4 by (simp add: fits_def framed_def)
  note st = started_facts [OF f, of BSON_ARRAY]
  obtain b2 where b2: "add_elems es (started b BSON_ARRAY name) = Some (True, b2)"
      "writes (started b BSON_ARRAY name) b2 (elems_bytes es)"
    using "4.IH" [OF start_ok(2) [OF f] refl] 4 st by (auto simp: framed_def)
  then show ?case
    using finish_writes [OF f b2(2)] 4 start_ok(2) [OF f]
    by (auto simp: bson_append_finish_array_def)
next
  case (19 b)
  then show ?case using writes_refl by simp
next
  case (20 name e es b)
  then obtain b1 where b1: "add_elem name e b = Some (True, b1)"
      "writes b b1 (header (type_code e) name @ value_bytes e)"
    by (auto simp: c_text_def)
  then have w: "bson_ok b1" "\<not> bs_finished b1"
      "length (built b1) + length (elems_bytes es) \<le> doc_limit"
    using 20 by (auto simp: writes_def)
  obtain b2 where "add_elems es b1 = Some (True, b2)" "writes b1 b2 (elems_bytes es)"
    using "20.IH"(2) [OF b1(1) refl] w 20 by auto
  then show ?case using b1 writes_trans [OF b1(2)] by auto
qed (rule add_flat_writes, simp, assumption+)+

lemma built_document:
  assumes "elems_ok es" "length (doc_bytes es) \<le> doc_limit"
  shows "\<exists>b' rest. build_doc es b = Some (True, b') \<and> bs_finished b' \<and>
    bs_data b' = Some (doc_bytes es @ rest) \<and> bson_size b' = Some (int (length (doc_bytes es)))"
proof -
  obtain b1 where b1: "bson_init b = Some (True, b1)" "bson_ok b1" "\<not> bs_finished b1"
      "length (built b1) = 4" "open_objs b1 = []" "bs_err b1 = 0"
    using init_ok [of b] by blast
  have l: "length (built b1) + length (elems_bytes es) + 1 \<le> doc_limit"
    using assms(2) b1(4) by (simp add: doc_bytes_def framed_def)
  then obtain b2 where b2: "add_elems es b1 = Some (True, b2)" "writes b1 b2 (elems_bytes es)"
    using add_writes(2) [OF b1(2,3) assms(1)] by auto
  then have w: "bson_ok b2" "\<not> bs_finished b2" "built b2 = built b1 @ elems_bytes es"
      "open_objs b2 = []" "bs_err b2 AND BSON_NOT_UTF8 = 0"
    using b1 by (auto simp: writes_def)
  have "length (built b2) + 1 \<le> doc_limit" using l w(3) by simp
  from finish_ok [OF w(1) this w(4,2,5,3) b1(4)] obtain b' rest where b':
      "bson_finish b2 = Some (True, b')" "bs_finished b'"
      "bs_data b' = Some (le_bytes 4 (5 + int (length (elems_bytes es))) @ elems_bytes es @ [0] @ rest)"
    by blast
  have n: "5 + int (length (elems_bytes es)) < 2147483648"
    using l b1(4) by (simp add: doc_limit_def)
  have "block_at 0 4 (le_bytes 4 (5 + int (length (elems_bytes es))) @ elems_bytes es @ [0] @ rest)
      = le_bytes 4 (5 + int (length (elems_bytes es)))"
    by (simp add: block_at_def)
  then have "bson_size b' = Some (int (length (doc_bytes es)))"
    using b'(3) n
    by (simp add: bson_size_def bson_finished_data_size_def mem_defs s32_le_bytes doc_bytes_def
        framed_def)
  then show ?thesis
    using b1(1) b2(1) b' by (simp add: build_doc_def doc_bytes_def framed_def)
qed

section \<open>Copies of finished objects\<close>

text \<open>\<open>holds x sb\<close>: the object \<open>x\<close> has been finished with the bytes \<open>sb\<close>.\<close>

definition holds :: "bson \<Rightarrow> bytes \<Rightarrow> bool" where
  "holds x sb \<longleftrightarrow> (\<exists>rest. bs_data x = Some (sb @ rest)) \<and> bson_size x = Some (int (length sb))"

lemma holds_block: "holds x sb \<Longrightarrow>
    iload_block (case bs_data x of None \<Rightarrow> [] | Some d \<Rightarrow> d) 0 (int (length sb)) = Some sb"
  by (auto simp: holds_def mem_defs block_at_def)

lemma append_bson_ok:
  assumes "fits b name (length sb)" "holds x sb"
  shows "bson_append_bson b name x = Some (True, added b BSON_OBJECT name sb)"
proof -
  have "size_t_of (int (length sb)) = int (length sb)"
    using assms(1) by (simp add: fits_def doc_limit_def)
  moreover have "bson_size x = Some (int (length sb))" using assms(2) by (simp add: holds_def)
  ultimately show ?thesis
    using holds_block [OF assms(2)] estart_fits [OF assms(1) refl, of BSON_OBJECT]
      append1 [OF assms(1), of BSON_OBJECT]
    by (simp add: bson_append_bson_def)
qed

definition scope_value :: "bytes \<Rightarrow> bytes \<Rightarrow> bytes" where
  "scope_value code sb = le_bytes 4 (int (length code + 9 + length sb))
     @ le_bytes 4 (int (length code) + 1) @ code @ [0] @ sb"

lemma append_code_w_scope_ok:
  assumes "fits b name (length (scope_value code sb))" "holds x sb"
  shows "bson_append_code_w_scope b name code x
    = Some (True, added b BSON_CODEWSCOPE name (scope_value code sb))"
proof -
  let ?n = "length code + 9 + length sb" and ?T = BSON_CODEWSCOPE
  have f: "fits b name ?n" using assms(1) by (simp add: scope_value_def add.commute add.left_commute)
  have sz: "size_t_of (4 + 4 + int (length code + 1) + int (length sb)) = int ?n"
    using f by (simp add: fits_def doc_limit_def)
  have l: "\<not> int ?n > INT32_MAX" using f by (simp add: fits_def doc_limit_def INT32_MAX_def)
  have "bson_size x = Some (int (length sb))" using assms(2) by (simp add: holds_def)
  moreover have "load_block (code @ [0]) 0 (length code + 1) = Some (code @ [0])"
    by (simp add: mem_defs block_at_def)
  moreover note append_first [OF f, of "le_bytes 4 (int ?n)" ?T]
    append_next [OF f, of "le_bytes 4 (int ?n)" "le_bytes 4 (int (length code + 1))" ?T]
    append_next [OF f, of "le_bytes 4 (int ?n) @ le_bytes 4 (int (length code + 1))" "code @ [0]" ?T]
    append_next [OF f, of "(le_bytes 4 (int ?n) @ le_bytes 4 (int (length code + 1))) @ code @ [0]" sb ?T]
    append_last [of ?n "scope_value code sb" b ?T name]
  ultimately show ?thesis
    using estart_fits [OF f refl, of ?T] holds_block [OF assms(2)] sz l
    unfolding bson_append_code_w_scope_def bson_append_code_w_scope_n_def
    by (simp add: raw_appends scope_value_def Let_def algebra_simps)
qed

end
