(* ===== verification/Double.thy ===== *)
theory Double
  imports Prelude
begin

unbundle bit_operations_syntax

text \<open>
  Numbers of Lua and BSON are C \<open>double\<close>s, here the 64 bits of the IEEE format. The
  code only converts them from and to integers: \<open>double_of_int\<close> is the conversion of an
  integer below \<open>2 ^ 53\<close>, which is exact, and \<open>double_to_int\<close> the truncating cast.
\<close>

fun ilog2 :: "nat \<Rightarrow> nat" where
  "ilog2 n = (if n \<le> 1 then 0 else Suc (ilog2 (n div 2)))"

declare ilog2.simps [simp del]

definition double_of_int :: "int \<Rightarrow> 64 word" where
  "double_of_int n =
     (if n = 0 then 0
      else let a = \<bar>n\<bar>; k = ilog2 (nat a) in
        word_of_int ((if n < 0 then 2048 else 0) * 4503599627370496
          + (1023 + int k) * 4503599627370496
          + (a * 2 ^ (52 - k) - 4503599627370496)))"

text \<open>
  The cast to a signed integer of \<open>w\<close> bits gives the smallest integer where the value
  does not fit or is not a number, as on the host.
\<close>

definition double_to_int :: "nat \<Rightarrow> 64 word \<Rightarrow> int" where
  "double_to_int w x =
     (let e = unat (drop_bit 52 x AND 0x7FF); m = uint (x AND 0xFFFFFFFFFFFFF);
        k = (if e < 1023 then 0
             else if e < 1087 then (4503599627370496 + m) * 2 ^ (e - 1023) div 4503599627370496
             else 2 ^ 64);
        v = (if bit x 63 then - k else k)
      in if - (2 ^ (w - 1)) \<le> v \<and> v < 2 ^ (w - 1) then v else - (2 ^ (w - 1)))"

lemma ilog2_bounds: "0 < n \<Longrightarrow> 2 ^ ilog2 n \<le> n \<and> n < 2 ^ Suc (ilog2 n)"
proof (induction n rule: ilog2.induct)
  case (1 n)
  show ?case
  proof (cases "n \<le> 1")
    case True
    with 1 show ?thesis by (simp add: ilog2.simps)
  next
    case False
    then have "2 ^ ilog2 (n div 2) \<le> n div 2 \<and> n div 2 < 2 ^ Suc (ilog2 (n div 2))"
      using 1 by simp
    then show ?thesis using False by (subst (1 2) ilog2.simps) (simp, linarith)
  qed
qed

text \<open>The three parts of the format.\<close>

lemma double_parts:
  fixes s :: bool and e m :: int
  defines "x \<equiv> word_of_int ((if s then 2048 else 0) * 4503599627370496 + e * 4503599627370496 + m) :: 64 word"
  assumes "0 \<le> e" "e < 2048" "0 \<le> m" "m < 4503599627370496"
  shows "unat (drop_bit 52 x AND 0x7FF) = nat e" "uint (x AND 0xFFFFFFFFFFFFF) = m" "bit x 63 = s"
proof -
  define h where "h = (if s then 2048 else 0) + e"
  have h: "0 \<le> h" "h < 4096" "h mod 2048 = e" "odd (h div 2048) = s"
    using assms(2,3) by (cases s; simp add: h_def div_add_self1)+
  have x: "x = word_of_int (h * 4503599627370496 + m)"
    by (simp add: x_def h_def distrib_right)
  let ?v = "h * 4503599627370496 + m"
  have "0 \<le> ?v" "?v < 18446744073709551616" using h assms(4,5) by auto
  then have u: "uint x = ?v" unfolding x by (subst uint_word_of_int) simp
  have d: "?v div 4503599627370496 = h" "?v mod 4503599627370496 = m"
    using assms(4,5) by auto
  have masks: "(0x7FF :: 64 word) = mask 11" "(0xFFFFFFFFFFFFF :: 64 word) = mask 52"
    by (simp_all add: mask_eq_exp_minus_1)
  have dx: "uint (drop_bit 52 x) = drop_bit 52 (uint x)"
    by (rule bit_eqI) (simp add: bit_unsigned_iff bit_drop_bit_eq)
  have "uint (drop_bit 52 x AND 0x7FF) = take_bit 11 (drop_bit 52 (uint x))"
    by (simp only: masks take_bit_eq_mask [symmetric] unsigned_take_bit_eq dx)
  also have "\<dots> = e"
    unfolding u using d h by (simp add: drop_bit_eq_div take_bit_eq_mod)
  finally show "unat (drop_bit 52 x AND 0x7FF) = nat e"
    by (metis nat_uint_eq)
  have "uint (x AND 0xFFFFFFFFFFFFF) = take_bit 52 (uint x)"
    by (simp only: masks take_bit_eq_mask [symmetric] unsigned_take_bit_eq)
  also have "\<dots> = m" unfolding u using d by (simp add: take_bit_eq_mod)
  finally show "uint (x AND 0xFFFFFFFFFFFFF) = m" .
  have "bit x 63 = bit (uint x) 63" by (simp add: bit_uint_iff)
  also have "\<dots> = odd (?v div 4503599627370496 div 2048)"
  proof -
    have "a div 9223372036854775808 = a div 4503599627370496 div 2048" for a :: int
      by (simp add: zdiv_zmult2_eq [symmetric])
    moreover have "bit a 63 = odd (a div 9223372036854775808)" for a :: int
      by (simp add: bit_iff_odd)
    ultimately show ?thesis unfolding u by simp
  qed
  also have "\<dots> = s" using d h by simp
  finally show "bit x 63 = s" .
qed

theorem double_to_of_int:
  assumes "- (2 ^ (w - 1)) \<le> n" "n < 2 ^ (w - 1)" "\<bar>n\<bar> < 2 ^ 53"
  shows "double_to_int w (double_of_int n) = n"
proof (cases "n = 0")
  case True
  then show ?thesis by (simp add: double_of_int_def double_to_int_def)
next
  case False
  define a k where "a = \<bar>n\<bar>" and "k = ilog2 (nat \<bar>n\<bar>)"
  define m where "m = a * 2 ^ (52 - k) - 4503599627370496"
  have "2 ^ k \<le> nat a" "nat a < 2 ^ Suc k"
    using ilog2_bounds [of "nat a"] False by (auto simp: a_def k_def)
  then have a: "2 ^ k \<le> a" "a < 2 ^ Suc k"
    using False by (auto simp: a_def le_nat_iff nat_less_iff)
  have "(2 :: int) ^ k < 2 ^ 53" using a(1) assms(3) by (simp add: a_def)
  then have k: "k \<le> 52" by (metis less_Suc_eq_le power_strict_increasing_iff one_less_numeral_iff
      semiring_norm(76) eval_nat_numeral(3) Suc_numeral)
  have p: "(2 :: int) ^ k * 2 ^ (52 - k) = 4503599627370496"
    using k by (simp flip: power_add)
  have m: "0 \<le> m" "m < 4503599627370496"
  proof -
    have "2 ^ k * 2 ^ (52 - k) \<le> a * 2 ^ (52 - k)" using a(1) by (intro mult_right_mono) auto
    then show "0 \<le> m" using p by (simp add: m_def)
    have "a * 2 ^ (52 - k) < 2 ^ Suc k * 2 ^ (52 - k)" using a(2) by (intro mult_strict_right_mono) auto
    also have "\<dots> = 9007199254740992" using p by (simp add: mult.assoc)
    finally show "m < 4503599627370496" by (simp add: m_def)
  qed
  have v: "(4503599627370496 + m) * 2 ^ k div 4503599627370496 = a"
  proof -
    have "(4503599627370496 + m) * 2 ^ k = a * (2 ^ k * 2 ^ (52 - k))" by (simp add: m_def)
    then show ?thesis unfolding p by simp
  qed
  let ?x = "word_of_int ((if n < 0 then 2048 else 0) * 4503599627370496
    + (1023 + int k) * 4503599627370496 + m) :: 64 word"
  have x: "double_of_int n = ?x"
    using False by (simp add: double_of_int_def Let_def a_def k_def m_def)
  have e: "unat (drop_bit 52 ?x AND 0x7FF) = 1023 + k" "uint (?x AND 0xFFFFFFFFFFFFF) = m"
      "bit ?x 63 = (n < 0)"
    using double_parts [of "1023 + int k" m "n < 0"] k m by (simp_all add: nat_add_distrib)
  have n: "(if n < 0 then - a else a) = n" by (simp add: a_def)
  show ?thesis
    unfolding x double_to_int_def Let_def e using k v n assms(1,2) by auto
qed

end
