(* ===== verification/BsonIter.thy ===== *)
theory BsonIter
  imports BsonDoc Double CString
begin

unbundle bit_operations_syntax

text \<open>
  The reader of the mongo driver (\<open>mongo_c_driver/bson.c\<close>, first half). An iterator is
  the block its pointer \<open>cur\<close> points into and the offset there; a pointer that a
  function returns is an offset in the same block. A result \<open>None\<close> is a read outside
  the block, or the \<open>exit\<close> at an unknown type. \<open>bson_iterator_next\<close> converts a signed
  \<open>char\<close> to the enumeration, so it returns \<open>-1\<close> where \<open>bson_iterator_type\<close> gives 255.
\<close>

section \<open>The iterator\<close>

record bson_iterator =
  it_mem :: bytes
  it_cur :: nat
  it_first :: bool

definition bson_iterator_init :: "bson \<Rightarrow> bson_iterator option" where
  "bson_iterator_init b = do {
     d \<leftarrow> bs_data b;
     Some \<lparr>it_mem = d, it_cur = 4, it_first = True\<rparr>
   }"

definition bson_iterator_from_buffer :: "bytes \<Rightarrow> nat \<Rightarrow> bson_iterator" where
  "bson_iterator_from_buffer mem buffer =
     \<lparr>it_mem = mem, it_cur = buffer + 4, it_first = True\<rparr>"

definition bson_iterator_more :: "bson_iterator \<Rightarrow> int option" where
  "bson_iterator_more i = map_option sint (load (it_mem i) (it_cur i))"

definition bson_iterator_type :: "bson_iterator \<Rightarrow> int option" where
  "bson_iterator_type i = map_option uint (load (it_mem i) (it_cur i))"

definition bson_iterator_key :: "bson_iterator \<Rightarrow> nat" where
  "bson_iterator_key i = it_cur i + 1"

definition bson_iterator_value :: "bson_iterator \<Rightarrow> nat option" where
  "bson_iterator_value i =
     (let t = it_cur i + 1 in map_option (\<lambda>n. t + n + 1) (strlen_at (it_mem i) t))"

definition bson_iterator_int_raw :: "bson_iterator \<Rightarrow> int option" where
  "bson_iterator_int_raw i = do {
     v \<leftarrow> bson_iterator_value i;
     x \<leftarrow> load_block (it_mem i) v 4;
     Some (s32 (le_val x))
   }"

definition bson_iterator_double_raw :: "bson_iterator \<Rightarrow> 64 word option" where
  "bson_iterator_double_raw i = do {
     v \<leftarrow> bson_iterator_value i;
     x \<leftarrow> load_block (it_mem i) v 8;
     Some (word_of_int (le_val x))
   }"

definition bson_iterator_long_raw :: "bson_iterator \<Rightarrow> int option" where
  "bson_iterator_long_raw i = do {
     v \<leftarrow> bson_iterator_value i;
     x \<leftarrow> load_block (it_mem i) v 8;
     Some (s64 (le_val x))
   }"

definition bson_iterator_bool_raw :: "bson_iterator \<Rightarrow> int option" where
  "bson_iterator_bool_raw i = do {
     v \<leftarrow> bson_iterator_value i;
     x \<leftarrow> load (it_mem i) v;
     Some (sint x)
   }"

definition regex_size :: "bson_iterator \<Rightarrow> int option" where
  "regex_size i = do {
     s \<leftarrow> bson_iterator_value i;
     n \<leftarrow> strlen_at (it_mem i) s;
     m \<leftarrow> strlen_at (it_mem i) (s + n + 1);
     Some (int (n + 1 + (m + 1)))
   }"

text \<open>The size \<open>ds\<close> of the value, by its type.\<close>

definition data_size :: "bson_iterator \<Rightarrow> int \<Rightarrow> int option" where
  "data_size i t =
     (if t \<in> {BSON_UNDEFINED, BSON_NULL, BSON_MINKEY, BSON_MAXKEY} then Some 0
      else if t = BSON_BOOL then Some 1
      else if t = BSON_INT then Some 4
      else if t \<in> {BSON_LONG, BSON_DOUBLE, BSON_TIMESTAMP, BSON_DATE} then Some 8
      else if t = BSON_OID then Some 12
      else if t \<in> {BSON_STRING, BSON_SYMBOL, BSON_CODE}
        then map_option (\<lambda>n. s32 (4 + n)) (bson_iterator_int_raw i)
      else if t = BSON_BINDATA then map_option (\<lambda>n. s32 (5 + n)) (bson_iterator_int_raw i)
      else if t \<in> {BSON_OBJECT, BSON_ARRAY, BSON_CODEWSCOPE} then bson_iterator_int_raw i
      else if t = BSON_DBREF then map_option (\<lambda>n. s32 (16 + n)) (bson_iterator_int_raw i)
      else if t = BSON_REGEX then regex_size i
      else None)"

definition bson_iterator_next :: "bson_iterator \<Rightarrow> (int \<times> bson_iterator) option" where
  "bson_iterator_next i =
     (if it_first i then do {
        t \<leftarrow> load (it_mem i) (it_cur i);
        Some (sint t, i\<lparr>it_first := False\<rparr>)
      }
      else do {
        t \<leftarrow> bson_iterator_type i;
        if t = BSON_EOO then Some (BSON_EOO, i)
        else do {
          ds \<leftarrow> data_size i t;
          n \<leftarrow> strlen_at (it_mem i) (it_cur i + 1);
          let p = int (it_cur i) + (1 + int n + 1 + ds);
          x \<leftarrow> iload (it_mem i) p;
          Some (sint x, i\<lparr>it_cur := nat p\<rparr>)
        }
      })"

partial_function (option) find_from :: "bytes \<Rightarrow> bson_iterator \<Rightarrow> bson_iterator option" where
  "find_from name i = do {
     (t, i1) \<leftarrow> bson_iterator_next i;
     if t = 0 then Some i1
     else do {
       key \<leftarrow> string_at (it_mem i1) (bson_iterator_key i1);
       if key = name then Some i1 else find_from name i1
     }
   }"

definition bson_find :: "bson \<Rightarrow> bytes \<Rightarrow> (int \<times> bson_iterator) option" where
  "bson_find obj name = do {
     it \<leftarrow> bson_iterator_init obj;
     it1 \<leftarrow> find_from name it;
     t \<leftarrow> bson_iterator_type it1;
     Some (t, it1)
   }"

section \<open>Readers by type\<close>

definition bson_iterator_int :: "bson_iterator \<Rightarrow> int option" where
  "bson_iterator_int i = do {
     t \<leftarrow> bson_iterator_type i;
     if t = BSON_INT then bson_iterator_int_raw i
     else if t = BSON_LONG then map_option s32 (bson_iterator_long_raw i)
     else if t = BSON_DOUBLE then map_option (double_to_int 32) (bson_iterator_double_raw i)
     else Some 0
   }"

definition bson_iterator_long :: "bson_iterator \<Rightarrow> int option" where
  "bson_iterator_long i = do {
     t \<leftarrow> bson_iterator_type i;
     if t = BSON_INT then bson_iterator_int_raw i
     else if t = BSON_LONG then bson_iterator_long_raw i
     else if t = BSON_DOUBLE then map_option (double_to_int 64) (bson_iterator_double_raw i)
     else Some 0
   }"

definition bson_iterator_timestamp :: "bson_iterator \<Rightarrow> (int \<times> int) option" where
  "bson_iterator_timestamp i = do {
     v \<leftarrow> bson_iterator_value i;
     x \<leftarrow> load_block (it_mem i) v 4;
     y \<leftarrow> load_block (it_mem i) (v + 4) 4;
     Some (s32 (le_val x), s32 (le_val y))
   }"

definition bson_iterator_timestamp_time :: "bson_iterator \<Rightarrow> int option" where
  "bson_iterator_timestamp_time i = do {
     v \<leftarrow> bson_iterator_value i;
     y \<leftarrow> load_block (it_mem i) (v + 4) 4;
     Some (s32 (le_val y))
   }"

definition bson_iterator_timestamp_increment :: "bson_iterator \<Rightarrow> int option" where
  "bson_iterator_timestamp_increment i = do {
     v \<leftarrow> bson_iterator_value i;
     x \<leftarrow> load_block (it_mem i) v 4;
     Some (s32 (le_val x))
   }"

definition bson_iterator_bool :: "bson_iterator \<Rightarrow> int option" where
  "bson_iterator_bool i = do {
     t \<leftarrow> bson_iterator_type i;
     if t = BSON_BOOL then bson_iterator_bool_raw i
     else if t = BSON_INT then map_option (\<lambda>n. if n \<noteq> 0 then 1 else 0) (bson_iterator_int_raw i)
     else if t = BSON_LONG then map_option (\<lambda>n. if n \<noteq> 0 then 1 else 0) (bson_iterator_long_raw i)
     else if t = BSON_DOUBLE
       then map_option (\<lambda>x. if push_bit 1 x \<noteq> 0 then 1 else 0) (bson_iterator_double_raw i)
     else if t \<in> {BSON_EOO, BSON_NULL} then Some 0
     else Some 1
   }"

text \<open>A pointer to a string constant of the program is \<open>Inr\<close> the constant.\<close>

definition bson_iterator_string :: "bson_iterator \<Rightarrow> (nat + bytes) option" where
  "bson_iterator_string i = do {
     t \<leftarrow> bson_iterator_type i;
     if t \<in> {BSON_STRING, BSON_SYMBOL} then map_option (\<lambda>v. Inl (v + 4)) (bson_iterator_value i)
     else Some (Inr [])
   }"

definition bson_iterator_string_len :: "bson_iterator \<Rightarrow> int option" where
  "bson_iterator_string_len i = bson_iterator_int_raw i"

text \<open>\<open>Some None\<close> is the \<open>NULL\<close> for another type.\<close>

definition bson_iterator_code :: "bson_iterator \<Rightarrow> nat option option" where
  "bson_iterator_code i = do {
     t \<leftarrow> bson_iterator_type i;
     if t \<in> {BSON_STRING, BSON_CODE} then map_option (\<lambda>v. Some (v + 4)) (bson_iterator_value i)
     else if t = BSON_CODEWSCOPE then map_option (\<lambda>v. Some (v + 8)) (bson_iterator_value i)
     else Some None
   }"

definition bson_iterator_code_scope_init ::
    "bson_iterator \<Rightarrow> bson \<Rightarrow> bool \<Rightarrow> (bool \<times> bson) option" where
  "bson_iterator_code_scope_init i scope copyData = do {
     t \<leftarrow> bson_iterator_type i;
     if t = BSON_CODEWSCOPE then do {
       v \<leftarrow> bson_iterator_value i;
       codeLen \<leftarrow> bson_finished_data_size (drop (v + 4) (it_mem i));
       let p = int (v + 8) + codeLen;
       if p < 0 then None
       else if copyData
         then bson_init_finished_data_with_copy scope (drop (nat p) (it_mem i))
         else bson_init_finished_data scope (drop (nat p) (it_mem i)) False
     }
     else bson_init_empty scope
   }"

definition bson_iterator_date :: "bson_iterator \<Rightarrow> int option" where
  "bson_iterator_date i = bson_iterator_long_raw i"

text \<open>C division rounds towards zero.\<close>

definition bson_iterator_time_t :: "bson_iterator \<Rightarrow> int option" where
  "bson_iterator_time_t i = map_option (\<lambda>n. sgn n * (\<bar>n\<bar> div 1000)) (bson_iterator_date i)"

definition bson_iterator_bin_type :: "bson_iterator \<Rightarrow> byte option" where
  "bson_iterator_bin_type i = do { v \<leftarrow> bson_iterator_value i; load (it_mem i) (v + 4) }"

definition bson_iterator_bin_len :: "bson_iterator \<Rightarrow> int option" where
  "bson_iterator_bin_len i = do {
     t \<leftarrow> bson_iterator_bin_type i;
     n \<leftarrow> bson_iterator_int_raw i;
     Some (if t = BSON_BIN_BINARY_OLD then n - 4 else n)
   }"

definition bson_iterator_bin_data :: "bson_iterator \<Rightarrow> nat option" where
  "bson_iterator_bin_data i = do {
     t \<leftarrow> bson_iterator_bin_type i;
     v \<leftarrow> bson_iterator_value i;
     Some (if t = BSON_BIN_BINARY_OLD then v + 9 else v + 5)
   }"

definition bson_iterator_oid :: "bson_iterator \<Rightarrow> nat option" where
  "bson_iterator_oid i = bson_iterator_value i"

definition bson_iterator_regex :: "bson_iterator \<Rightarrow> nat option" where
  "bson_iterator_regex i = bson_iterator_value i"

definition bson_iterator_regex_opts :: "bson_iterator \<Rightarrow> nat option" where
  "bson_iterator_regex_opts i = do {
     p \<leftarrow> bson_iterator_value i;
     n \<leftarrow> strlen_at (it_mem i) p;
     Some (p + n + 1)
   }"

definition bson_iterator_subobject_init ::
    "bson_iterator \<Rightarrow> bson \<Rightarrow> bool \<Rightarrow> (bool \<times> bson) option" where
  "bson_iterator_subobject_init i sub copyData = do {
     v \<leftarrow> bson_iterator_value i;
     if copyData then bson_init_finished_data_with_copy sub (drop v (it_mem i))
     else bson_init_finished_data sub (drop v (it_mem i)) False
   }"

definition bson_iterator_subiterator :: "bson_iterator \<Rightarrow> bson_iterator option" where
  "bson_iterator_subiterator i =
     map_option (bson_iterator_from_buffer (it_mem i)) (bson_iterator_value i)"

text \<open>\<open>name_or_null\<close> is \<open>None\<close> for \<open>NULL\<close>. The status of the inner start is not looked at.\<close>

definition bson_append_element ::
    "bson \<Rightarrow> bytes option \<Rightarrow> bson_iterator \<Rightarrow> (bool \<times> bson) option" where
  "bson_append_element b name_or_null elem = do {
     (t, nxt) \<leftarrow> bson_iterator_next elem;
     let sz = int (it_cur nxt) - int (it_cur elem);
     case name_or_null of
       None \<Rightarrow> do {
         (ok, b1) \<leftarrow> bson_ensure_space b (size_t_of sz);
         if \<not> ok then Some (False, b1)
         else do {
           x \<leftarrow> iload_block (it_mem elem) (int (it_cur elem)) sz;
           b2 \<leftarrow> bson_append b1 x;
           Some (True, b2)
         }
       }
     | Some name \<Rightarrow> do {
         n \<leftarrow> strlen_at (it_mem elem) (bson_iterator_key elem);
         let data_size = sz - 2 - int n;
         c \<leftarrow> load (it_mem elem) (it_cur elem);
         (ok, b1) \<leftarrow> bson_append_estart b (sint c) name (size_t_of data_size);
         v \<leftarrow> bson_iterator_value elem;
         x \<leftarrow> iload_block (it_mem elem) (int v) data_size;
         b2 \<leftarrow> bson_append b1 x;
         Some (True, b2)
       }
   }"

end
