(* ===== verification/BsonRoundTrip.thy ===== *)
theory BsonRoundTrip
  imports BsonIter
begin

unbundle bit_operations_syntax

text \<open>
  Reader and builder together. \<open>read_doc\<close> is a client of the iterator that walks a
  document with \<open>bson_iterator_next\<close>, reads every value with the function of its type
  and every sub-document through \<open>bson_iterator_subiterator\<close>. Its fuel bounds the
  nesting and the number of elements; the size of the document is enough.
\<close>

section \<open>A client of the iterator\<close>

definition read_value ::
    "(bson_iterator \<Rightarrow> (bytes \<times> belem) list option) \<Rightarrow> bson_iterator \<Rightarrow> belem option" where
  "read_value sub i = do {
     t \<leftarrow> bson_iterator_type i;
     let text = (\<lambda>p. string_at (it_mem i) p);
     if t = BSON_DOUBLE then map_option B_double (bson_iterator_double_raw i)
     else if t = BSON_STRING \<or> t = BSON_SYMBOL then do {
       p \<leftarrow> bson_iterator_string i;
       s \<leftarrow> (case p of Inl p \<Rightarrow> text p | Inr s \<Rightarrow> Some s);
       Some (if t = BSON_STRING then B_string s else B_symbol s)
     }
     else if t = BSON_CODE then do {
       p \<leftarrow> bson_iterator_code i;
       p \<leftarrow> p;
       map_option B_code (text p)
     }
     else if t = BSON_OBJECT then do { j \<leftarrow> bson_iterator_subiterator i; map_option B_object (sub j) }
     else if t = BSON_ARRAY then do { j \<leftarrow> bson_iterator_subiterator i; map_option B_array (sub j) }
     else if t = BSON_BINDATA then do {
       s \<leftarrow> bson_iterator_bin_type i;
       n \<leftarrow> bson_iterator_bin_len i;
       p \<leftarrow> bson_iterator_bin_data i;
       map_option (B_binary s) (iload_block (it_mem i) (int p) n)
     }
     else if t = BSON_UNDEFINED then Some B_undefined
     else if t = BSON_OID then do {
       p \<leftarrow> bson_iterator_oid i;
       map_option B_oid (load_block (it_mem i) p 12)
     }
     else if t = BSON_BOOL then map_option (\<lambda>n. B_bool (n \<noteq> 0)) (bson_iterator_bool i)
     else if t = BSON_DATE then map_option B_date (bson_iterator_date i)
     else if t = BSON_NULL then Some B_null
     else if t = BSON_REGEX then do {
       p \<leftarrow> bson_iterator_regex i;
       q \<leftarrow> bson_iterator_regex_opts i;
       s \<leftarrow> text p;
       map_option (B_regex s) (text q)
     }
     else if t = BSON_INT then map_option B_int (bson_iterator_int i)
     else if t = BSON_TIMESTAMP then map_option (\<lambda>(i, t). B_timestamp i t) (bson_iterator_timestamp i)
     else if t = BSON_LONG then map_option B_long (bson_iterator_long i)
     else if t = BSON_MAXKEY then Some B_maxkey
     else if t = BSON_MINKEY then Some B_minkey
     else None
   }"

primrec read_elems :: "nat \<Rightarrow> bson_iterator \<Rightarrow> (bytes \<times> belem) list option" where
  "read_elems 0 i = None"
| "read_elems (Suc k) i = do {
     (t, i1) \<leftarrow> bson_iterator_next i;
     if t = 0 then Some []
     else do {
       name \<leftarrow> string_at (it_mem i1) (bson_iterator_key i1);
       v \<leftarrow> read_value (read_elems k) i1;
       es \<leftarrow> read_elems k i1;
       Some ((name, v) # es)
     }
   }"

definition read_doc :: "nat \<Rightarrow> bson \<Rightarrow> (bytes \<times> belem) list option" where
  "read_doc fuel b = do { i \<leftarrow> bson_iterator_init b; read_elems fuel i }"

section \<open>An iterator at an element\<close>

definition at_elem :: "bson_iterator \<Rightarrow> bytes \<Rightarrow> belem \<Rightarrow> bytes \<Rightarrow> bool" where
  "at_elem i name e tail \<longleftrightarrow> \<not> it_first i \<and> 0 \<notin> set name \<and>
     drop (it_cur i) (it_mem i) = header (type_code e) name @ value_bytes e @ tail"

lemma load_drop: "load mem p = (case drop p mem of [] \<Rightarrow> None | x # xs \<Rightarrow> Some x)"
  by (auto simp: load_def Cons_nth_drop_Suc [symmetric] split: list.split)

lemma load_block_drop:
  "drop p mem = x @ r \<Longrightarrow> n = length x \<Longrightarrow> 0 < n \<Longrightarrow> load_block mem p n = Some x"
proof -
  assume a: "drop p mem = x @ r" "n = length x" "0 < n"
  then have "p < length mem" by (cases "p < length mem") auto
  moreover have "length mem - p = length x + length r"
    using arg_cong [OF a(1), of length] by simp
  ultimately have "p + n \<le> length mem" using a(2) by linarith
  then show ?thesis using a by (simp add: mem_defs block_at_def)
qed

lemma load_any:
  "drop p mem = x @ y # r \<Longrightarrow> load_block mem p (length x) = Some x"
proof -
  assume a: "drop p mem = x @ y # r"
  then have "p < length mem" by (cases "p < length mem") auto
  moreover have "length mem - p = length x + length (y # r)"
    using arg_cong [OF a, of length] by simp
  ultimately have "p + length x \<le> length mem" by linarith
  then show ?thesis using a by (simp add: mem_defs block_at_def)
qed

lemma drop_more: "drop p mem = x @ r \<Longrightarrow> q = p + length x \<Longrightarrow> drop q mem = r"
  by (metis add.commute append_eq_conv_conj drop_drop)

lemma string_at_text:
  "drop p mem = s @ 0 # r \<Longrightarrow> 0 \<notin> set s \<Longrightarrow> string_at mem p = Some s"
  by (simp add: string_at_def strlen_at_def block_at_def)

lemma type_code_range: "0 < type_code e \<and> type_code e < 256"
  by (cases e) (simp_all add: bson_types)

lemma uint_type_code [simp]: "uint (word_of_int (type_code e) :: byte) = type_code e"
  using type_code_range [of e] by (simp add: uint_byte_mod)

lemma at_elem_facts:
  assumes "at_elem i name e tail"
  shows "bson_iterator_type i = Some (type_code e)"
    and "strlen_at (it_mem i) (it_cur i + 1) = Some (length name)"
    and "string_at (it_mem i) (bson_iterator_key i) = Some name"
    and "bson_iterator_value i = Some (it_cur i + length name + 2)"
    and "drop (it_cur i + length name + 2) (it_mem i) = value_bytes e @ tail"
proof -
  let ?m = "it_mem i" and ?p = "it_cur i"
  have d: "drop ?p ?m = [word_of_int (type_code e)] @ name @ 0 # value_bytes e @ tail"
    using assms by (simp add: at_elem_def header_def)
  have n: "0 \<notin> set name" using assms by (simp add: at_elem_def)
  show "bson_iterator_type i = Some (type_code e)"
    using d by (simp add: bson_iterator_type_def load_drop)
  have k: "drop (?p + 1) ?m = name @ 0 # value_bytes e @ tail"
    using drop_more [OF d] by simp
  show s: "strlen_at ?m (?p + 1) = Some (length name)"
    using k n by (simp add: strlen_at_def)
  show "string_at ?m (bson_iterator_key i) = Some name"
    using string_at_text [OF k n] by (simp add: bson_iterator_key_def)
  show "bson_iterator_value i = Some (?p + length name + 2)"
    using s by (simp add: bson_iterator_value_def Let_def)
  have "drop (?p + 1) ?m = (name @ [0]) @ value_bytes e @ tail" using k by simp
  from drop_more [OF this] show "drop (?p + length name + 2) ?m = value_bytes e @ tail"
    by simp
qed

lemma s32_nat: "int n < 2147483648 \<Longrightarrow> s32 (int n) = int n"
  by simp

lemma int_raw_at:
  assumes "at_elem i name e tail" "value_bytes e = le_bytes 4 n @ r"
  shows "bson_iterator_int_raw i = Some (s32 n)"
  using at_elem_facts [OF assms(1)] assms(2)
    load_block_drop [of "it_cur i + length name + 2" "it_mem i" "le_bytes 4 n" "r @ tail" 4]
  by (simp add: bson_iterator_int_raw_def s32_le_bytes)

lemma long_raw_at:
  assumes "at_elem i name e tail" "value_bytes e = le_bytes 8 n"
  shows "bson_iterator_long_raw i = Some (s64 n)"
    and "bson_iterator_double_raw i = Some (word_of_int n)"
proof -
  have "load_block (it_mem i) (it_cur i + length name + 2) 8 = Some (le_bytes 8 n)"
    using at_elem_facts(5) [OF assms(1)] assms(2) by (intro load_block_drop) simp_all
  moreover note at_elem_facts(4) [OF assms(1)]
  ultimately show "bson_iterator_long_raw i = Some (s64 n)"
      "bson_iterator_double_raw i = Some (word_of_int n)"
    by (simp_all only: bson_iterator_long_raw_def bson_iterator_double_raw_def Option.bind.simps
        s64_le_bytes option.inject)
      (simp add: le_val_le_bytes word_of_int_eq_iff take_bit_eq_mod)
qed

text \<open>The size the iterator computes is the size of the value.\<close>

lemma data_size_at:
  assumes "at_elem i name e tail" "elem_ok e" "length (value_bytes e) \<le> doc_limit"
  shows "data_size i (type_code e) = Some (int (length (value_bytes e)))"
proof -
  note raw = int_raw_at [OF assms(1)]
  show ?thesis
  proof (cases e)
    case (B_regex p q)
    have d: "drop (it_cur i + length name + 2) (it_mem i) = (p @ [0]) @ q @ 0 # tail"
      using at_elem_facts(5) [OF assms(1)] B_regex by simp
    have "drop (it_cur i + length name + 2 + length p + 1) (it_mem i) = q @ 0 # tail"
      using drop_more [OF d] by simp
    then show ?thesis
      using B_regex assms(2) d at_elem_facts(4) [OF assms(1)]
      by (simp add: data_size_def bson_types regex_size_def strlen_at_def c_text_def)
  qed (use raw assms(2,3) in \<open>simp_all add: data_size_def bson_types string_value_def framed_def
      binary_value_def doc_limit_def split: if_splits\<close>)
qed

lemma next_at:
  assumes "at_elem i name e (c # r)" "elem_ok e" "length (value_bytes e) \<le> doc_limit"
  shows "bson_iterator_next i
    = Some (sint c, i\<lparr>it_cur := it_cur i + length name + 2 + length (value_bytes e)\<rparr>)"
proof -
  note f = at_elem_facts [OF assms(1)] and ds = data_size_at [OF assms]
  let ?p = "it_cur i + length name + 2 + length (value_bytes e)"
  have "drop ?p (it_mem i) = c # r" using drop_more [OF f(5)] by simp
  then have l: "load (it_mem i) ?p = Some c" by (simp add: load_drop)
  have p: "nat (int a + (2 + int b + int c)) = Suc (Suc (a + b + c))" for a b c
    by simp
  have t: "type_code e \<noteq> BSON_EOO" using type_code_range [of e] by (simp add: BSON_EOO_def)
  show ?thesis
    using assms(1) f(1,2) ds l t unfolding bson_iterator_next_def
    by (simp add: at_elem_def p iload_def Let_def)
qed

lemma lead_byte: "(word_of_int (type_code e) :: byte) \<noteq> 0"
proof
  assume "(word_of_int (type_code e) :: byte) = 0"
  then have "uint (word_of_int (type_code e) :: byte) = 0" by simp
  with type_code_range [of e] show False by simp
qed

text \<open>
  \<open>lands i es tail\<close>: the next step of \<open>i\<close> is onto the first of the elements \<open>es\<close>, which
  end with a zero byte, or onto that byte.
\<close>

definition lands :: "bson_iterator \<Rightarrow> (bytes \<times> belem) list \<Rightarrow> bytes \<Rightarrow> bool" where
  "lands i es tail \<longleftrightarrow> (\<exists>t i1. bson_iterator_next i = Some (t, i1) \<and> it_mem i1 = it_mem i \<and>
     \<not> it_first i1 \<and> drop (it_cur i1) (it_mem i1) = elems_bytes es @ 0 # tail \<and>
     (t = 0 \<longleftrightarrow> es = []))"

lemma first_byte:
  "elems_bytes es @ 0 # tail = c # r \<Longrightarrow> (sint c = 0) = (es = [])"
  using lead_byte by (cases es rule: elems_ok.cases) (auto simp: header_def signed_eq_0_iff)

lemma lands_first:
  assumes "it_first i" "drop (it_cur i) (it_mem i) = elems_bytes es @ 0 # tail"
  shows "lands i es tail"
proof -
  obtain c r where c: "elems_bytes es @ 0 # tail = c # r"
    by (cases "elems_bytes es @ 0 # tail") auto
  then have "bson_iterator_next i = Some (sint c, i\<lparr>it_first := False\<rparr>)"
    using assms by (simp add: bson_iterator_next_def load_drop)
  then show ?thesis
    using assms first_byte [OF c] by (auto simp: lands_def)
qed

lemma lands_next:
  assumes "at_elem i name e (elems_bytes es @ 0 # tail)" "elem_ok e"
    "length (value_bytes e) \<le> doc_limit"
  shows "lands i es tail"
proof -
  obtain c r where c: "elems_bytes es @ 0 # tail = c # r"
    by (cases "elems_bytes es @ 0 # tail") auto
  let ?p = "it_cur i + length name + 2 + length (value_bytes e)"
  have "drop ?p (it_mem i) = elems_bytes es @ 0 # tail"
    using drop_more [OF at_elem_facts(5) [OF assms(1)]] by simp
  moreover have "bson_iterator_next i = Some (sint c, i\<lparr>it_cur := ?p\<rparr>)"
    using next_at assms c by metis
  ultimately show ?thesis
    using assms(1) first_byte [OF c] by (auto simp: lands_def at_elem_def)
qed

text \<open>The readers return the value that was written.\<close>

lemma text_at:
  assumes "at_elem i name e tail" "value_bytes e = string_value s" "0 \<notin> set s"
  shows "string_at (it_mem i) (it_cur i + length name + 6) = Some s"
proof -
  have "drop (it_cur i + length name + 2) (it_mem i)
      = le_bytes 4 (int (length s) + 1) @ s @ 0 # tail"
    using at_elem_facts(5) [OF assms(1)] assms(2) by (simp add: string_value_def)
  then have "drop (it_cur i + length name + 6) (it_mem i) = s @ 0 # tail"
    by (rule drop_more) simp
  then show ?thesis using assms(3) by (rule string_at_text)
qed

lemma sub_at:
  assumes "at_elem i name e tail" "value_bytes e = framed (elems_bytes es)"
    "\<And>j. lands j es tail \<Longrightarrow> sub j = Some es"
  shows "\<exists>j. bson_iterator_subiterator i = Some j \<and> sub j = Some es"
proof -
  let ?j = "bson_iterator_from_buffer (it_mem i) (it_cur i + length name + 2)"
  have "drop (it_cur i + length name + 2) (it_mem i)
      = le_bytes 4 (5 + int (length (elems_bytes es))) @ elems_bytes es @ 0 # tail"
    using at_elem_facts(5) [OF assms(1)] assms(2) by (simp add: framed_def)
  then have "drop (it_cur i + length name + 6) (it_mem i) = elems_bytes es @ 0 # tail"
    by (rule drop_more) simp
  then have "drop (it_cur ?j) (it_mem ?j) = elems_bytes es @ 0 # tail"
    by (simp add: bson_iterator_from_buffer_def add.commute)
  then have "lands ?j es tail"
    by (intro lands_first) (simp_all add: bson_iterator_from_buffer_def)
  with assms(3) show ?thesis
    using at_elem_facts(4) [OF assms(1)] by (simp add: bson_iterator_subiterator_def)
qed

lemma binary_at:
  assumes "at_elem i name (B_binary t x) (y # tail)" "length (binary_value t x) \<le> doc_limit"
  shows "\<exists>n p. bson_iterator_bin_type i = Some t \<and> bson_iterator_bin_len i = Some n \<and>
    bson_iterator_bin_data i = Some p \<and> iload_block (it_mem i) (int p) n = Some x"
proof -
  let ?v = "it_cur i + length name + 2"
  note f = at_elem_facts [OF assms(1)]
  have l: "int (length x) + 4 < 2147483648"
    using assms(2) by (simp add: binary_value_def doc_limit_def split: if_splits)
  obtain n r where n: "binary_value t x = le_bytes 4 n @ [t] @ r" "s32 n = n"
      "n = (if t = BSON_BIN_BINARY_OLD then int (length x) + 4 else int (length x))"
    using l by (cases "t = BSON_BIN_BINARY_OLD") (auto simp: binary_value_def)
  have raw: "bson_iterator_int_raw i = Some n"
    using int_raw_at [OF assms(1)] n(1,2) by simp
  have d: "drop ?v (it_mem i) = le_bytes 4 n @ [t] @ r @ y # tail"
    using f(5) n(1) by simp
  have "drop (?v + 4) (it_mem i) = [t] @ r @ y # tail" by (rule drop_more [OF d]) simp
  then have ty: "bson_iterator_bin_type i = Some t"
    using f(4) by (simp add: bson_iterator_bin_type_def load_drop add.commute)
  show ?thesis
  proof (cases "t = BSON_BIN_BINARY_OLD")
    case True
    have "drop ?v (it_mem i) = (le_bytes 4 (int (length x) + 4) @ [t] @ le_bytes 4 (int (length x)))
        @ x @ y # tail"
      using f(5) True by (simp add: binary_value_def)
    then have "drop (?v + 9) (it_mem i) = x @ y # tail" by (rule drop_more) simp
    then have "iload_block (it_mem i) (int (?v + 9)) (int (length x)) = Some x"
      unfolding iload_block_def by (simp only: load_any nat_int of_nat_less_0_iff) simp
    moreover have "bson_iterator_bin_data i = Some (?v + 9)" "bson_iterator_bin_len i = Some (int (length x))"
      using ty raw n(3) True f(4)
      by (simp_all add: bson_iterator_bin_len_def bson_iterator_bin_data_def)
    ultimately show ?thesis using ty by blast
  next
    case False
    have "drop ?v (it_mem i) = (le_bytes 4 (int (length x)) @ [t]) @ x @ y # tail"
      using f(5) False by (simp add: binary_value_def)
    then have "drop (?v + 5) (it_mem i) = x @ y # tail" by (rule drop_more) simp
    then have "iload_block (it_mem i) (int (?v + 5)) (int (length x)) = Some x"
      unfolding iload_block_def by (simp only: load_any nat_int of_nat_less_0_iff) simp
    moreover have "bson_iterator_bin_data i = Some (?v + 5)" "bson_iterator_bin_len i = Some (int (length x))"
      using ty raw n(3) False f(4)
      by (simp_all add: bson_iterator_bin_len_def bson_iterator_bin_data_def)
    ultimately show ?thesis using ty by blast
  qed
qed

lemma read_value_at:
  assumes "at_elem i name e (y # tail)" "elem_ok e" "length (value_bytes e) \<le> doc_limit"
    "\<And>es j. e = B_object es \<or> e = B_array es \<Longrightarrow> lands j es (y # tail) \<Longrightarrow> sub j = Some es"
  shows "read_value sub i = Some e"
proof -
  note f = at_elem_facts [OF assms(1)] and raw = int_raw_at [OF assms(1), of _ "[]"] long_raw_at [OF assms(1)]
  note strs = text_at [OF assms(1), unfolded add.commute [of _ 6]]
  note d = read_value_def bson_types bson_iterator_string_def bson_iterator_code_def
    bson_iterator_int_def bson_iterator_long_def bson_iterator_date_def bson_iterator_bool_def
    bson_iterator_oid_def bson_iterator_regex_def Let_def
  show ?thesis
  proof (cases e)
    case (B_object es)
    then obtain j where "bson_iterator_subiterator i = Some j" "sub j = Some es"
      using sub_at [OF assms(1), of es sub] assms(4) by auto
    then show ?thesis using B_object f(1) by (simp add: d)
  next
    case (B_array es)
    then obtain j where "bson_iterator_subiterator i = Some j" "sub j = Some es"
      using sub_at [OF assms(1), of es sub] assms(4) by auto
    then show ?thesis using B_array f(1) by (simp add: d)
  next
    case (B_binary t x)
    then show ?thesis
      using binary_at [of i name t x y tail] assms(1,3) f(1) by (auto simp: d)
  next
    case (B_oid x)
    then have "load_block (it_mem i) (it_cur i + length name + 2) 12 = Some x"
      using load_any [of _ _ x y tail] f(5) assms(2) by (metis elem_ok.simps(4) value_bytes.simps(7))
    then show ?thesis using B_oid f(1,4) by (simp add: d)
  next
    case (B_bool v)
    have "load (it_mem i) (it_cur i + length name + 2) = Some (if v then 1 else 0)"
      using f(5) B_bool by (simp add: load_drop)
    then show ?thesis using B_bool f(1,4) by (simp add: d bson_iterator_bool_raw_def)
  next
    case (B_regex p q)
    let ?v = "it_cur i + length name + 2"
    have v: "drop ?v (it_mem i) = p @ 0 # q @ 0 # y # tail" using f(5) B_regex by simp
    have "drop ?v (it_mem i) = (p @ [0]) @ q @ 0 # y # tail" using v by simp
    then have w: "drop (?v + length p + 1) (it_mem i) = q @ 0 # y # tail"
      by (rule drop_more) simp
    have z: "0 \<notin> set p" "0 \<notin> set q" using assms(2) B_regex by (auto simp: c_text_def)
    have "string_at (it_mem i) ?v = Some p" "string_at (it_mem i) (?v + length p + 1) = Some q"
      using string_at_text v w z by blast+
    moreover have "bson_iterator_regex_opts i = Some (?v + length p + 1)"
      using f(4) v z by (simp add: bson_iterator_regex_opts_def strlen_at_def)
    ultimately show ?thesis using B_regex f(1,4) by (simp add: d)
  next
    case (B_timestamp a b)
    let ?v = "it_cur i + length name + 2"
    have v: "drop ?v (it_mem i) = le_bytes 4 a @ le_bytes 4 b @ y # tail" using f(5) B_timestamp by simp
    then have w: "drop (?v + 4) (it_mem i) = le_bytes 4 b @ y # tail" by (rule drop_more) simp
    have "load_block (it_mem i) ?v 4 = Some (le_bytes 4 a)"
      "load_block (it_mem i) (?v + 4) 4 = Some (le_bytes 4 b)"
      using v w by (simp_all add: load_block_drop)
    then show ?thesis
      using B_timestamp f(1,4) assms(2)
      by (simp add: d bson_iterator_timestamp_def s32_le_bytes int32_def)
  qed (use f(1,4) raw strs assms(2) in \<open>simp_all add: d c_text_def int32_def int64_def\<close>)
qed

section \<open>Walking a document\<close>

lemma lands_Nil:
  "lands i [] tail \<Longrightarrow> \<exists>i1. bson_iterator_next i = Some (0, i1) \<and> bson_iterator_type i1 = Some BSON_EOO"
  by (auto simp: lands_def bson_iterator_type_def load_drop BSON_EOO_def)

lemma lands_Cons:
  assumes "lands i ((name, e) # es) tail" "elems_ok ((name, e) # es)"
    "length (elems_bytes ((name, e) # es)) \<le> doc_limit"
  obtains t i1 where "bson_iterator_next i = Some (t, i1)" "t \<noteq> 0"
    "at_elem i1 name e (elems_bytes es @ 0 # tail)" "lands i1 es tail"
proof -
  obtain t i1 where t: "bson_iterator_next i = Some (t, i1)" "t \<noteq> 0"
      and a: "at_elem i1 name e (elems_bytes es @ 0 # tail)"
    using assms(1,2) by (auto simp: lands_def at_elem_def c_text_def)
  moreover have "lands i1 es tail"
    using lands_next [OF a] assms(2,3) by simp
  ultimately show ?thesis using that by blast
qed

lemma elems_suffix:
  obtains y tail' where "elems_bytes es @ 0 # tail = y # tail'"
  by (cases "elems_bytes es @ 0 # tail") auto

lemma read_elems_ok:
  "lands i es tail \<Longrightarrow> elems_ok es \<Longrightarrow> length (elems_bytes es) < k \<Longrightarrow>
     length (elems_bytes es) \<le> doc_limit \<Longrightarrow> read_elems k i = Some es"
proof (induction k arbitrary: i es tail)
  case (Suc k)
  show ?case
  proof (cases es)
    case Nil
    then show ?thesis using lands_Nil Suc.prems(1) by fastforce
  next
    case (Cons p r)
    obtain name e where p: "p = (name, e)" by (cases p)
    obtain t i1 where t: "bson_iterator_next i = Some (t, i1)" "t \<noteq> 0"
      "at_elem i1 name e (elems_bytes r @ 0 # tail)" "lands i1 r tail"
      using lands_Cons Suc.prems Cons p by metis
    have l: "length (value_bytes e) + length (elems_bytes r) < k" "elem_ok e" "elems_ok r"
        "length (value_bytes e) + length (elems_bytes r) \<le> doc_limit"
      using Suc.prems Cons p by auto
    obtain y tail' where y: "elems_bytes r @ 0 # tail = y # tail'" by (rule elems_suffix)
    have "read_value (read_elems k) i1 = Some e"
    proof (rule read_value_at)
      show "at_elem i1 name e (y # tail')" using t(3) y by simp
      fix es2 j
      assume "e = B_object es2 \<or> e = B_array es2" "lands j es2 (y # tail')"
      then show "read_elems k j = Some es2"
        using Suc.IH [of j es2] l by (auto simp: framed_def)
    qed (use l in auto)
    moreover have "read_elems k i1 = Some r"
      using Suc.IH [OF t(4)] l by simp
    ultimately show ?thesis
      using t at_elem_facts(3) [OF t(3)] Cons p by simp
  qed
qed simp

lemma find_from_ok:
  assumes "lands i es tail" "elems_ok es" "length (elems_bytes es) \<le> doc_limit"
  shows "\<exists>i1. find_from name i = Some i1 \<and>
    (case map_of es name of
       None \<Rightarrow> bson_iterator_type i1 = Some BSON_EOO
     | Some e \<Rightarrow> elem_ok e \<and> length (value_bytes e) \<le> length (elems_bytes es) \<and>
         (\<exists>y tail. at_elem i1 name e (y # tail)))"
  using assms
proof (induction es arbitrary: i)
  case Nil
  then obtain i1 where "bson_iterator_next i = Some (0, i1)" "bson_iterator_type i1 = Some BSON_EOO"
    using lands_Nil by blast
  then show ?case by (simp add: find_from.simps)
next
  case (Cons p es)
  obtain n e where p: "p = (n, e)" by (cases p)
  obtain t i1 where t: "bson_iterator_next i = Some (t, i1)" "t \<noteq> 0"
      "at_elem i1 n e (elems_bytes es @ 0 # tail)" "lands i1 es tail"
    using lands_Cons Cons.prems p by metis
  have k: "string_at (it_mem i1) (bson_iterator_key i1) = Some n"
    by (rule at_elem_facts(3) [OF t(3)])
  show ?case
  proof (cases "n = name")
    case True
    obtain y tail' where "elems_bytes es @ 0 # tail = y # tail'" by (rule elems_suffix)
    then show ?thesis
      using t k True p Cons.prems(2) by (subst find_from.simps) auto
  next
    case False
    have ok: "elems_ok es" "length (elems_bytes es) \<le> doc_limit" using Cons.prems p by auto
    have "find_from name i = find_from name i1"
      using t k False by (subst find_from.simps) simp
    then show ?thesis
      using Cons.IH [OF t(4) ok] False p by (auto split: option.splits)
  qed
qed

text \<open>A finished document is an object that the iterator enters at its first element.\<close>

lemma init_lands:
  assumes "bs_data b = Some (doc_bytes es @ rest)"
  shows "\<exists>i. bson_iterator_init b = Some i \<and> lands i es rest"
proof -
  let ?i = "\<lparr>it_mem = doc_bytes es @ rest, it_cur = 4, it_first = True\<rparr>"
  have "drop 4 (doc_bytes es @ rest) = elems_bytes es @ 0 # rest"
    by (simp add: doc_bytes_def framed_def)
  then have "lands ?i es rest" by (intro lands_first) simp_all
  then show ?thesis using assms by (simp add: bson_iterator_init_def)
qed

section \<open>Copies of elements\<close>

lemma element_size:
  assumes "at_elem i n e (y # tail)" "elem_ok e" "length (value_bytes e) \<le> doc_limit"
  shows "\<exists>t j. bson_iterator_next i = Some (t, j) \<and>
    int (it_cur j) - int (it_cur i) = int (length n + 2 + length (value_bytes e))"
  using next_at [OF assms] by auto

lemma element_block:
  assumes "at_elem i n e (y # tail)"
  shows "iload_block (it_mem i) (int (it_cur i + length n + 2)) (int (length (value_bytes e)))
    = Some (value_bytes e)"
proof -
  have "load_block (it_mem i) (it_cur i + length n + 2) (length (value_bytes e)) = Some (value_bytes e)"
    using at_elem_facts(5) [OF assms] by (rule load_any)
  then show ?thesis unfolding iload_block_def by (simp only: nat_int of_nat_less_0_iff) simp
qed

lemma type_byte:
  assumes "at_elem i n e tail"
  shows "load (it_mem i) (it_cur i) = Some (word_of_int (type_code e))"
  using assms by (simp add: at_elem_def load_drop header_def)

lemma added_sint:
  "added b (sint (word_of_int t :: byte)) name v = added b t name v"
  "begun b (sint (word_of_int t :: byte)) name n = begun b t name n"
  by (simp_all add: added_def begun_def header_def)

text \<open>Under a new name an element is copied as it is.\<close>

lemma append_element_named:
  assumes "at_elem i n e (y # tail)" "elem_ok e" "fits b name (length (value_bytes e))"
  shows "bson_append_element b (Some name) i
    = Some (True, added b (type_code e) name (value_bytes e))"
proof -
  have l: "length (value_bytes e) \<le> doc_limit" using assms(3) by (simp add: fits_def)
  obtain t j where "bson_iterator_next i = Some (t, j)"
      "int (it_cur j) - int (it_cur i) = int (length n + 2 + length (value_bytes e))"
    using element_size [OF assms(1,2) l] by blast
  moreover have "size_t_of (int (length (value_bytes e))) = int (length (value_bytes e))"
    using l by (simp add: doc_limit_def)
  moreover note at_elem_facts(2,4) [OF assms(1)] element_block [OF assms(1)] type_byte [OF assms(1)]
    estart_fits [OF assms(3) refl, of "sint (word_of_int (type_code e) :: byte)"]
    append1 [OF assms(3), of "type_code e"]
  ultimately show ?thesis
    by (simp add: bson_append_element_def bson_iterator_key_def added_sint)
qed

text \<open>
  The status of the inner start is dropped: on a finished object the value is written
  behind its end, without type and name, and the call reports success.
\<close>

lemma append_element_finished:
  assumes "at_elem i n e (y # tail)" "elem_ok e" "length (value_bytes e) \<le> doc_limit"
    "bs_finished b" "bs_data b = Some d" "bs_cur b = Some c" "c + length (value_bytes e) \<le> length d"
  shows "\<exists>b'. bson_append_element b (Some name) i = Some (True, b') \<and>
    bs_data b' = Some (blit d c (value_bytes e))"
proof -
  obtain t j where "bson_iterator_next i = Some (t, j)"
      "int (it_cur j) - int (it_cur i) = int (length n + 2 + length (value_bytes e))"
    using element_size [OF assms(1-3)] by blast
  then show ?thesis
    using assms(4-) at_elem_facts(2,4) [OF assms(1)] element_block [OF assms(1)] type_byte [OF assms(1)]
    by (simp add: bson_append_element_def bson_iterator_key_def bson_append_estart_def
        bson_append_def mem_defs)
qed

section \<open>Properties\<close>

text \<open>
  C12. What the builder writes is the BSON of the document: for every list of named
  values, nested to any depth, that fit the C types and half a gigabyte, the calls
  succeed, and the finished block starts with the length of the whole document, the
  elements in order and the final zero. The size the object reports is its length.
\<close>

theorem bson_builds_document:
  assumes "elems_ok es" "length (doc_bytes es) \<le> doc_limit"
  shows "\<exists>b' rest. build_doc es b = Some (True, b') \<and> bs_finished b' \<and>
    bs_data b' = Some (doc_bytes es @ rest) \<and> bson_size b' = Some (int (length (doc_bytes es)))"
  using built_document [OF assms] .

definition blank_bson :: bson where
  "blank_bson = \<lparr>bs_data = None, bs_cur = None, bs_dataSize = 0, bs_finished = False,
     bs_ownsData = False, bs_err = 0, bs_stackSize = 0, bs_stackPos = 0, bs_stackAt = No_stack,
     bs_stack = [], bs_junk = (\<lambda>i. 0xCD), bs_slots = (\<lambda>i. 0)\<rparr>"

definition sample_doc :: "(bytes \<times> belem) list" where
  "sample_doc = [([0x61], B_object [([0x62], B_int 7)]), ([0x63], B_null)]"

lemma sample_ok: "elems_ok sample_doc" "length (doc_bytes sample_doc) = 23"
proof -
  have a: "utf8_accepted [x]" if "x < 0x80" for x
  proof -
    have "utf8_char (unat x) = [x]" using that by (simp add: utf8_char_def word_less_nat_alt)
    moreover have "unat x < 0x110000" using that by (simp add: word_less_nat_alt)
    ultimately have "utf8_chunk [x]" using utf8_chunk_char by metis
    then show ?thesis using utf8_accepted_chunk [of "[x]" "[]"] by simp
  qed
  show "elems_ok sample_doc" by (simp add: sample_doc_def c_text_def int32_def a)
  show "length (doc_bytes sample_doc) = 23"
    by (simp add: sample_doc_def doc_bytes_def framed_def)
qed

theorem bson_builds_document_witness:
  "\<exists>b' rest. build_doc sample_doc blank_bson = Some (True, b') \<and>
     bs_data b' = Some ([23, 0, 0, 0, 3, 0x61, 0, 12, 0, 0, 0, 16, 0x62, 0, 7, 0, 0, 0, 0,
       10, 0x63, 0, 0] @ rest)"
proof -
  have "doc_bytes sample_doc = [23, 0, 0, 0, 3, 0x61, 0, 12, 0, 0, 0, 16, 0x62, 0, 7, 0, 0, 0, 0,
       10, 0x63, 0, 0]"
    by (simp add: sample_doc_def doc_bytes_def framed_def header_def bson_types le_bytes_4)
  with bson_builds_document [OF sample_ok(1), of blank_bson] sample_ok(2) show ?thesis
    by (simp add: doc_limit_def) blast
qed

text \<open>
  C9. Round trip: the iterator reads back from a document the builder has made exactly
  the names and values that went in, in order and at every level of nesting.
\<close>

theorem bson_roundtrip:
  assumes "elems_ok es" "length (doc_bytes es) \<le> doc_limit"
  shows "\<exists>b' n. build_doc es b = Some (True, b') \<and> bson_size b' = Some n \<and>
    read_doc (nat n) b' = Some es"
proof -
  obtain b' rest where b': "build_doc es b = Some (True, b')"
      "bs_data b' = Some (doc_bytes es @ rest)" "bson_size b' = Some (int (length (doc_bytes es)))"
    using built_document [OF assms] by blast
  obtain i where i: "bson_iterator_init b' = Some i" "lands i es rest"
    using init_lands [OF b'(2)] by blast
  have "read_elems (length (doc_bytes es)) i = Some es"
    using read_elems_ok [OF i(2) assms(1)] assms(2) by (simp add: doc_bytes_def framed_def)
  then show ?thesis using b' i(1) by (simp add: read_doc_def)
qed

theorem bson_roundtrip_witness:
  "\<exists>b' n. build_doc sample_doc blank_bson = Some (True, b') \<and> bson_size b' = Some n \<and>
     read_doc (nat n) b' = Some sample_doc"
  by (rule bson_roundtrip) (simp_all add: sample_ok doc_limit_def)

text \<open>
  C24. \<open>bson_find\<close> returns on every document of the builder. It stops at the first
  element with the name, where the value can be read, and at the end when there is none.
\<close>

theorem bson_find_returns:
  assumes "elems_ok es" "length (doc_bytes es) \<le> doc_limit"
  shows "\<exists>b' i. build_doc es b = Some (True, b') \<and>
    (case map_of es name of
       None \<Rightarrow> bson_find b' name = Some (BSON_EOO, i)
     | Some e \<Rightarrow> bson_find b' name = Some (type_code e, i) \<and>
         read_value (read_elems (length (doc_bytes es))) i = Some e)"
proof -
  obtain b' rest where b': "build_doc es b = Some (True, b')"
      "bs_data b' = Some (doc_bytes es @ rest)"
    using built_document [OF assms] by blast
  obtain i where i: "bson_iterator_init b' = Some i" "lands i es rest"
    using init_lands [OF b'(2)] by blast
  have l: "length (elems_bytes es) \<le> doc_limit" "length (elems_bytes es) < length (doc_bytes es)"
    using assms(2) by (simp_all add: doc_bytes_def framed_def)
  obtain i1 where i1: "find_from name i = Some i1"
      "case map_of es name of None \<Rightarrow> bson_iterator_type i1 = Some BSON_EOO
       | Some e \<Rightarrow> elem_ok e \<and> length (value_bytes e) \<le> length (elems_bytes es) \<and>
         (\<exists>y tail. at_elem i1 name e (y # tail))"
    using find_from_ok [OF i(2) assms(1) l(1)] by blast
  show ?thesis
  proof (cases "map_of es name")
    case None
    then show ?thesis using b'(1) i(1) i1 by (simp add: bson_find_def)
  next
    case (Some e)
    then obtain y tail where e: "elem_ok e" "length (value_bytes e) \<le> length (elems_bytes es)"
        "at_elem i1 name e (y # tail)"
      using i1(2) by auto
    have "read_value (read_elems (length (doc_bytes es))) i1 = Some e"
    proof (rule read_value_at [OF e(3,1)])
      fix es2 j
      assume "e = B_object es2 \<or> e = B_array es2" "lands j es2 (y # tail)"
      then show "read_elems (length (doc_bytes es)) j = Some es2"
        using read_elems_ok [of j es2] e l by (auto simp: framed_def)
    qed (use e l in simp)
    then show ?thesis
      using Some b'(1) i(1) i1(1) at_elem_facts(1) [OF e(3)] by (auto simp: bson_find_def)
  qed
qed

theorem bson_find_returns_witness:
  "\<exists>b' i. build_doc sample_doc blank_bson = Some (True, b') \<and>
     bson_find b' [0x63] = Some (BSON_NULL, i)"
  using bson_find_returns [of sample_doc blank_bson "[0x63]"] sample_ok
  by (simp add: doc_limit_def sample_doc_def) blast

text \<open>
  On bytes from elsewhere nothing bounds the steps: a string with a negative length
  puts the iterator back on the element it is at.
\<close>

theorem bson_iterator_stuck:
  "\<exists>i. it_mem i = [12, 0, 0, 0, 2, 0x61, 0, 0xF9, 0xFF, 0xFF, 0xFF, 0] \<and> \<not> it_first i \<and>
     bson_iterator_next i = Some (BSON_STRING, i)"
proof -
  let ?m = "[12, 0, 0, 0, 2, 0x61, 0, 0xF9, 0xFF, 0xFF, 0xFF, 0] :: bytes"
  let ?i = "\<lparr>it_mem = ?m, it_cur = 4, it_first = False\<rparr>"
  have "bson_iterator_next ?i = Some (BSON_STRING, ?i)"
    by (simp add: bson_iterator_next_def bson_iterator_type_def bson_types data_size_def
        bson_iterator_int_raw_def bson_iterator_value_def strlen_at_def mem_defs block_at_def s32_def)
  then show ?thesis by (intro exI [of _ ?i]) simp
qed

end
