(* ===== verification/BsonOid.thy ===== *)
theory BsonOid
  imports Bson
begin

unbundle bit_operations_syntax

text \<open>
  The object identifiers of the mongo driver (\<open>mongo_c_driver/bson.c\<close>): twelve bytes,
  printed as 24 hexadecimal digits. The generator keeps a counter and a number drawn
  once; the clock, \<open>rand\<close> and the functions a client may set are arguments.
\<close>

section \<open>Byte order\<close>

definition bson_swap_endian64 :: "bytes \<Rightarrow> bytes" where
  "bson_swap_endian64 s =
     [s ! 7, s ! 6, s ! 5, s ! 4, s ! 3, s ! 2, s ! 1, s ! 0]"

definition bson_swap_endian32 :: "bytes \<Rightarrow> bytes" where
  "bson_swap_endian32 s = [s ! 3, s ! 2, s ! 1, s ! 0]"

lemma swap32_rev: "length s = 4 \<Longrightarrow> bson_swap_endian32 s = rev s"
  by (auto simp: bson_swap_endian32_def numeral_eq_Suc length_Suc_conv)

lemma swap64_rev: "length s = 8 \<Longrightarrow> bson_swap_endian64 s = rev s"
  by (auto simp: bson_swap_endian64_def numeral_eq_Suc length_Suc_conv)

section \<open>Hexadecimal digits\<close>

definition hexbyte :: "byte \<Rightarrow> byte" where
  "hexbyte c =
     (if 0x30 \<le> sint c \<and> sint c \<le> 0x39 then c - 0x30
      else if 0x41 \<le> sint c \<and> sint c \<le> 0x46 then c - 0x41 + 10
      else if 0x61 \<le> sint c \<and> sint c \<le> 0x66 then c - 0x61 + 10
      else 0)"

definition hex_digits :: bytes where
  "hex_digits = [0x30, 0x31, 0x32, 0x33, 0x34, 0x35, 0x36, 0x37, 0x38, 0x39,
     0x61, 0x62, 0x63, 0x64, 0x65, 0x66]"

definition bson_oid_from_string :: "bytes \<Rightarrow> bytes option" where
  "bson_oid_from_string str = do {
     x \<leftarrow> load_block str 0 24;
     Some (map (\<lambda>i. push_bit 4 (hexbyte (x ! (2 * i))) OR hexbyte (x ! (2 * i + 1))) [0..<12])
   }"

definition bson_oid_to_string :: "bytes \<Rightarrow> bytes" where
  "bson_oid_to_string oid =
     concat (map (\<lambda>i. [hex_digits ! unat (drop_bit 4 (oid ! i AND 0xF0)),
       hex_digits ! unat (oid ! i AND 0x0F)]) [0..<12]) @ [0]"

section \<open>The generator\<close>

record oid_state =
  oid_incr :: int
  oid_fuzz :: int

definition bson_oid_gen ::
    "int option \<Rightarrow> int \<Rightarrow> int \<Rightarrow> oid_state \<Rightarrow> bytes \<times> oid_state" where
  "bson_oid_gen inc_result fuzz_result t s =
     (let (i, s1) = (case inc_result of
          Some i \<Rightarrow> (i, s)
        | None \<Rightarrow> (oid_incr s, s\<lparr>oid_incr := s32 (oid_incr s + 1)\<rparr>));
        s2 = (if oid_fuzz s1 = 0 then s1\<lparr>oid_fuzz := fuzz_result\<rparr> else s1)
      in (bson_swap_endian32 (le_bytes 4 t) @ le_bytes 4 (oid_fuzz s2)
           @ bson_swap_endian32 (le_bytes 4 i), s2))"

definition bson_oid_generated_time :: "bytes \<Rightarrow> int option" where
  "bson_oid_generated_time oid = do {
     x \<leftarrow> load_block oid 0 4;
     Some (le_val (blit (le_bytes 8 0) 0 (bson_swap_endian32 x)))
   }"

definition bson_append_new_oid ::
    "bson \<Rightarrow> bytes \<Rightarrow> int option \<Rightarrow> int \<Rightarrow> int \<Rightarrow> oid_state \<Rightarrow> ((bool \<times> bson) \<times> oid_state) option" where
  "bson_append_new_oid b name inc_result fuzz_result t s =
     (let (oid, s1) = bson_oid_gen inc_result fuzz_result t s in
      map_option (\<lambda>r. (r, s1)) (bson_append_oid b name oid))"

section \<open>Lemmas\<close>

definition hex_pair :: "byte \<Rightarrow> bytes" where
  "hex_pair b = [hex_digits ! unat (drop_bit 4 (b AND 0xF0)), hex_digits ! unat (b AND 0x0F)]"

lemma nibble_check: "list_all (\<lambda>k. hexbyte (hex_digits ! k) = of_nat k) [0..<16]"
  by code_simp

lemma nibble: "unat w < 16 \<Longrightarrow> hexbyte (hex_digits ! unat w) = w"
  using nibble_check by (auto simp: list_all_iff)

lemma nibbles_join:
  fixes b :: byte
  shows "push_bit 4 (drop_bit 4 (b AND 0xF0)) OR (b AND 0x0F) = b"
proof (rule bit_eqI)
  fix n
  assume "possible_bit TYPE(byte) n"
  then have "n < 8" by simp
  then consider "n = 0" | "n = 1" | "n = 2" | "n = 3" | "n = 4" | "n = 5" | "n = 6" | "n = 7"
    by linarith
  then show "bit (push_bit 4 (drop_bit 4 (b AND 0xF0)) OR (b AND 0x0F)) n = bit b n"
    by cases (simp_all add: bit_simps)
qed

lemma nibble_bounds:
  fixes b :: byte
  shows "unat (drop_bit 4 (b AND 0xF0)) < 16" "unat (b AND 0x0F) < 16"
proof -
  have "unat (drop_bit 4 (b AND 0xF0)) = unat (b AND 0xF0) div 16"
    by (simp only: unat_drop_bit_eq) (simp add: drop_bit_eq_div)
  then show "unat (drop_bit 4 (b AND 0xF0)) < 16" using unat_byte_less [of "b AND 0xF0"] by simp
  have "b AND 0x0F \<le> 0x0F" by (rule word_and_le1)
  then show "unat (b AND 0x0F) < 16" by (simp add: word_le_nat_alt)
qed

lemma hex_pair_value:
  "push_bit 4 (hexbyte (hex_pair b ! 0)) OR hexbyte (hex_pair b ! 1) = b"
  using nibble_bounds [of b] nibbles_join [of b] by (simp add: hex_pair_def nibble)

lemma length_concat_pairs:
  "length (concat (map (\<lambda>i. [f i, g i]) xs)) = 2 * length xs"
  by (induction xs) auto

lemma nth_concat_pairs:
  "i < length xs \<Longrightarrow> concat (map (\<lambda>i. [f i, g i]) xs) ! (2 * i) = f (xs ! i)"
  "i < length xs \<Longrightarrow> concat (map (\<lambda>i. [f i, g i]) xs) ! Suc (2 * i) = g (xs ! i)"
proof (induction xs arbitrary: i)
  case (Cons x xs)
  { case 1 then show ?case using Cons.IH(1) [of "i - 1"] by (cases i) auto }
  { case 2 then show ?case using Cons.IH(2) [of "i - 1"] by (cases i) auto }
qed auto

lemma from_to_string:
  assumes "length oid = 12"
  shows "bson_oid_from_string (bson_oid_to_string oid) = Some oid"
proof -
  let ?f = "\<lambda>i. hex_pair (oid ! i) ! 0" and ?g = "\<lambda>i. hex_pair (oid ! i) ! 1"
  define x where "x = concat (map (\<lambda>i. [?f i, ?g i]) [0..<12])"
  have l: "length x = 24" unfolding x_def by (subst length_concat_pairs) simp
  have s: "bson_oid_to_string oid = x @ [0]"
    by (simp add: bson_oid_to_string_def x_def hex_pair_def)
  have n: "x ! (2 * i) = ?f i" "x ! (2 * i + 1) = ?g i" if "i < 12" for i
    using that nth_concat_pairs [of i "[0..<12]" ?f ?g] by (simp_all add: x_def)
  have "map (\<lambda>i. push_bit 4 (hexbyte (x ! (2 * i))) OR hexbyte (x ! (2 * i + 1))) [0..<12]
      = map ((!) oid) [0..<12]"
    by (intro map_cong refl) (simp only: set_upt atLeastLessThan_iff n hex_pair_value)
  also have "\<dots> = oid" using assms map_nth [of oid] by simp
  finally show ?thesis
    using l by (simp add: bson_oid_from_string_def s mem_defs block_at_def)
qed

lemma generated_time:
  "bson_oid_generated_time (fst (bson_oid_gen inc fuzz t s)) = Some (t mod 2 ^ 32)"
proof -
  obtain r where g: "fst (bson_oid_gen inc fuzz t s) = bson_swap_endian32 (le_bytes 4 t) @ r"
    by (cases inc) (auto simp: bson_oid_gen_def Let_def)
  have w: "bson_swap_endian32 (bson_swap_endian32 (le_bytes 4 t)) = le_bytes 4 t"
    by (simp add: swap32_rev)
  have v: "blit (le_bytes 8 0) 0 (le_bytes 4 t) = le_bytes 4 t @ le_bytes 4 0"
    by (simp add: blit_def numeral_eq_Suc)
  have z: "le_val (xs @ le_bytes 4 0) = le_val xs" for xs
    by (induction xs) (simp_all add: le_bytes_4)
  have "load_block (bson_swap_endian32 (le_bytes 4 t) @ r) 0 4 = Some (bson_swap_endian32 (le_bytes 4 t))"
    by (simp add: mem_defs block_at_def bson_swap_endian32_def)
  then show ?thesis
    by (simp add: bson_oid_generated_time_def g w v z le_val_le_bytes)
qed

section \<open>Properties\<close>

text \<open>
  C32. An identifier survives printing and reading, the printed form has 24 digits and
  the final zero, and the time that an identifier tells is the time it was made, up to
  the 32 bits that are kept.
\<close>

theorem bson_oid_roundtrip:
  assumes "length oid = 12"
  shows "length (bson_oid_to_string oid) = 25 \<and>
    bson_oid_from_string (bson_oid_to_string oid) = Some oid \<and>
    bson_oid_generated_time (fst (bson_oid_gen inc fuzz t s)) = Some (t mod 2 ^ 32)"
  using from_to_string [OF assms] generated_time
  by (simp add: bson_oid_to_string_def length_concat_pairs)

theorem bson_oid_roundtrip_witness:
  "bson_oid_from_string (bson_oid_to_string [0x4f, 0xa1, 2, 3, 4, 5, 6, 7, 8, 9, 10, 0xff])
    = Some [0x4f, 0xa1, 2, 3, 4, 5, 6, 7, 8, 9, 10, 0xff]"
  using bson_oid_roundtrip [of "[0x4f, 0xa1, 2, 3, 4, 5, 6, 7, 8, 9, 10, 0xff]"]
  by (simp del: bson_oid_from_string_def)

end
