(* ===== verification/Lua.thy ===== *)
theory Lua
  imports Double
begin

text \<open>
  The part of the Lua interface that the message parser uses. The interpreter is a
  library (only its headers, \<open>luajit/\<close>, are in the repository), so its functions are
  a record that the model takes as an argument, over a state of any type. A result
  \<open>None\<close> is a Lua error, which leaves the C function by a long jump.

  \<open>lua_laws\<close> states what the manual documents of these functions, by way of a view of
  the state as tables and a stack (its top first): for the values the code passes,
  for tables without metatables, and as long as memory lasts. It says nothing of
  other uses, so nothing can be proved there. Keys are the two kinds the code uses.
\<close>

definition LUA_TNUMBER :: int where "LUA_TNUMBER = 3"
definition LUA_TSTRING :: int where "LUA_TSTRING = 4"
definition LUA_TTABLE :: int where "LUA_TTABLE = 5"

record 's lua_api =
  lua_gettop :: "'s \<Rightarrow> int"
  lua_type :: "'s \<Rightarrow> int \<Rightarrow> int"
  lua_getfield :: "'s \<Rightarrow> int \<Rightarrow> bytes \<Rightarrow> 's option"
  lua_setfield :: "'s \<Rightarrow> int \<Rightarrow> bytes \<Rightarrow> 's option"
  lua_rawgeti :: "'s \<Rightarrow> int \<Rightarrow> int \<Rightarrow> 's option"
  lua_rawseti :: "'s \<Rightarrow> int \<Rightarrow> int \<Rightarrow> 's option"
  lua_pop :: "'s \<Rightarrow> nat \<Rightarrow> 's option"
  lua_pushnumber :: "'s \<Rightarrow> 64 word \<Rightarrow> 's option"
  lua_pushlstring :: "'s \<Rightarrow> bytes \<Rightarrow> 's option"
  luaL_checknumber :: "'s \<Rightarrow> int \<Rightarrow> 64 word option"
  luaL_checklstring :: "'s \<Rightarrow> int \<Rightarrow> bytes option"
  lua_isstring :: "'s \<Rightarrow> int \<Rightarrow> bool"

definition lua_istable :: "'s lua_api \<Rightarrow> 's \<Rightarrow> int \<Rightarrow> bool" where
  "lua_istable api s i \<longleftrightarrow> lua_type api s i = LUA_TTABLE"

section \<open>Tables and the stack\<close>

datatype lval =
    L_nil
  | L_bool bool
  | L_num "64 word"
  | L_str bytes
  | L_table nat
  | L_other int

datatype lkey = K_str bytes | K_int int

type_synonym heap = "nat \<Rightarrow> lkey \<Rightarrow> lval"

fun type_of :: "lval \<Rightarrow> int" where
  "type_of L_nil = 0"
| "type_of (L_bool b) = 1"
| "type_of (L_num x) = LUA_TNUMBER"
| "type_of (L_str s) = LUA_TSTRING"
| "type_of (L_table r) = LUA_TTABLE"
| "type_of (L_other t) = (if t \<in> {2, 6, 7, 8} then t else 2)"

text \<open>Numbers count as strings.\<close>

fun stringlike :: "lval \<Rightarrow> bool" where
  "stringlike (L_num x) = True"
| "stringlike (L_str s) = True"
| "stringlike v = False"

text \<open>The value at an index: negative from the top, positive from the bottom.\<close>

definition stack_at :: "lval list \<Rightarrow> int \<Rightarrow> lval option" where
  "stack_at st i =
     (if i < 0 then load st (nat (- i - 1))
      else if i = 0 then None
      else load (rev st) (nat (i - 1)))"

definition put_key :: "heap \<Rightarrow> nat \<Rightarrow> lkey \<Rightarrow> lval \<Rightarrow> heap" where
  "put_key h r k v = h(r := (h r)(k := v))"

definition lua_laws :: "'s lua_api \<Rightarrow> ('s \<Rightarrow> heap \<times> lval list) \<Rightarrow> bool" where
  "lua_laws api view \<longleftrightarrow>
     (\<forall>s h st. view s = (h, st) \<longrightarrow>
        lua_gettop api s = int (length st) \<and>
        (\<forall>i v. stack_at st i = Some v \<longrightarrow> lua_type api s i = type_of v) \<and>
        (\<forall>i x. stack_at st i = Some (L_num x) \<longrightarrow> luaL_checknumber api s i = Some x) \<and>
        (\<forall>i x. stack_at st i = Some (L_str x) \<longrightarrow> luaL_checklstring api s i = Some x) \<and>
        (\<forall>i n r. stack_at st i = Some (L_table r) \<longrightarrow>
           (\<exists>s'. lua_getfield api s i n = Some s' \<and> view s' = (h, h r (K_str n) # st))) \<and>
        (\<forall>i n r. stack_at st i = Some (L_table r) \<longrightarrow>
           (\<exists>s'. lua_rawgeti api s i n = Some s' \<and> view s' = (h, h r (K_int n) # st))) \<and>
        (\<forall>n v r st'. st = v # L_table r # st' \<longrightarrow>
           (\<exists>s'. lua_setfield api s (-2) n = Some s' \<and>
              view s' = (put_key h r (K_str n) v, L_table r # st'))) \<and>
        (\<forall>n v r st'. st = v # L_table r # st' \<longrightarrow>
           (\<exists>s'. lua_rawseti api s (-2) n = Some s' \<and>
              view s' = (put_key h r (K_int n) v, L_table r # st'))) \<and>
        (\<forall>n. n \<le> length st \<longrightarrow> (\<exists>s'. lua_pop api s n = Some s' \<and> view s' = (h, drop n st))) \<and>
        (\<forall>x. \<exists>s'. lua_pushnumber api s x = Some s' \<and> view s' = (h, L_num x # st)) \<and>
        (\<forall>x. \<exists>s'. lua_pushlstring api s x = Some s' \<and> view s' = (h, L_str x # st)) \<and>
        (\<forall>i v. stack_at st i = Some v \<longrightarrow> lua_isstring api s i = stringlike v))"

lemma stack_at_top [simp]:
  "stack_at (v # st) (-1) = Some v"
  "stack_at (v # w # st) (-2) = Some w"
  by (simp_all add: stack_at_def load_def)

lemma lua_laws_view:
  assumes "lua_laws api view" "view s = (h, st)"
  shows "lua_gettop api s = int (length st)"
    and "stack_at st i = Some v \<Longrightarrow> lua_type api s i = type_of v"
    and "stack_at st i = Some (L_num x) \<Longrightarrow> luaL_checknumber api s i = Some x"
    and "stack_at st i = Some (L_str b) \<Longrightarrow> luaL_checklstring api s i = Some b"
    and "stack_at st i = Some (L_table r) \<Longrightarrow>
      \<exists>s'. lua_getfield api s i n = Some s' \<and> view s' = (h, h r (K_str n) # st)"
    and "stack_at st i = Some (L_table r) \<Longrightarrow>
      \<exists>s'. lua_rawgeti api s i j = Some s' \<and> view s' = (h, h r (K_int j) # st)"
    and "st = v # L_table r # st' \<Longrightarrow>
      \<exists>s'. lua_setfield api s (-2) n = Some s' \<and> view s' = (put_key h r (K_str n) v, L_table r # st')"
    and "st = v # L_table r # st' \<Longrightarrow>
      \<exists>s'. lua_rawseti api s (-2) j = Some s' \<and> view s' = (put_key h r (K_int j) v, L_table r # st')"
    and "k \<le> length st \<Longrightarrow> \<exists>s'. lua_pop api s k = Some s' \<and> view s' = (h, drop k st)"
    and "\<exists>s'. lua_pushnumber api s x = Some s' \<and> view s' = (h, L_num x # st)"
    and "\<exists>s'. lua_pushlstring api s b = Some s' \<and> view s' = (h, L_str b # st)"
    and "stack_at st i = Some v \<Longrightarrow> lua_isstring api s i = stringlike v"
proof -
  note laws = assms(1) [unfolded lua_laws_def, THEN spec [of _ s], THEN spec [of _ h],
      THEN spec [of _ st], THEN mp, OF assms(2)]
  show "lua_gettop api s = int (length st)"
    "stack_at st i = Some v \<Longrightarrow> lua_type api s i = type_of v"
    "stack_at st i = Some (L_num x) \<Longrightarrow> luaL_checknumber api s i = Some x"
    "stack_at st i = Some (L_str b) \<Longrightarrow> luaL_checklstring api s i = Some b"
    "stack_at st i = Some (L_table r) \<Longrightarrow>
      \<exists>s'. lua_getfield api s i n = Some s' \<and> view s' = (h, h r (K_str n) # st)"
    "stack_at st i = Some (L_table r) \<Longrightarrow>
      \<exists>s'. lua_rawgeti api s i j = Some s' \<and> view s' = (h, h r (K_int j) # st)"
    "st = v # L_table r # st' \<Longrightarrow>
      \<exists>s'. lua_setfield api s (-2) n = Some s' \<and> view s' = (put_key h r (K_str n) v, L_table r # st')"
    "st = v # L_table r # st' \<Longrightarrow>
      \<exists>s'. lua_rawseti api s (-2) j = Some s' \<and> view s' = (put_key h r (K_int j) v, L_table r # st')"
    "k \<le> length st \<Longrightarrow> \<exists>s'. lua_pop api s k = Some s' \<and> view s' = (h, drop k st)"
    "\<exists>s'. lua_pushnumber api s x = Some s' \<and> view s' = (h, L_num x # st)"
    "\<exists>s'. lua_pushlstring api s b = Some s' \<and> view s' = (h, L_str b # st)"
    "stack_at st i = Some v \<Longrightarrow> lua_isstring api s i = stringlike v"
    by (insert laws) (simp_all only: simp_thms)
qed

section \<open>A machine with these laws\<close>

text \<open>The tables and the stack themselves, to evaluate the model on.\<close>

definition lua_machine :: "(heap \<times> lval list) lua_api" where
  "lua_machine = \<lparr>
     lua_gettop = (\<lambda>(h, st). int (length st)),
     lua_type = (\<lambda>(h, st) i. case stack_at st i of Some v \<Rightarrow> type_of v | None \<Rightarrow> - 1),
     lua_getfield = (\<lambda>(h, st) i n. case stack_at st i of
         Some (L_table r) \<Rightarrow> Some (h, h r (K_str n) # st) | _ \<Rightarrow> None),
     lua_setfield = (\<lambda>(h, st) i n. case st of
         v # L_table r # st' \<Rightarrow> Some (put_key h r (K_str n) v, L_table r # st') | _ \<Rightarrow> None),
     lua_rawgeti = (\<lambda>(h, st) i n. case stack_at st i of
         Some (L_table r) \<Rightarrow> Some (h, h r (K_int n) # st) | _ \<Rightarrow> None),
     lua_rawseti = (\<lambda>(h, st) i n. case st of
         v # L_table r # st' \<Rightarrow> Some (put_key h r (K_int n) v, L_table r # st') | _ \<Rightarrow> None),
     lua_pop = (\<lambda>(h, st) n. if n \<le> length st then Some (h, drop n st) else None),
     lua_pushnumber = (\<lambda>(h, st) x. Some (h, L_num x # st)),
     lua_pushlstring = (\<lambda>(h, st) x. Some (h, L_str x # st)),
     luaL_checknumber = (\<lambda>(h, st) i. case stack_at st i of Some (L_num x) \<Rightarrow> Some x | _ \<Rightarrow> None),
     luaL_checklstring = (\<lambda>(h, st) i. case stack_at st i of Some (L_str x) \<Rightarrow> Some x | _ \<Rightarrow> None),
     lua_isstring = (\<lambda>(h, st) i. case stack_at st i of Some v \<Rightarrow> stringlike v | None \<Rightarrow> False)\<rparr>"

lemma lua_machine_laws: "lua_laws lua_machine (\<lambda>s. s)"
  by (auto simp: lua_laws_def lua_machine_def)

end
