(* ===== verification/ProtoParser.thy ===== *)
theory ProtoParser
  imports MsgStruct Lua
begin

text \<open>
  The template-driven codec between Lua tables and messages (\<open>logic/proto_parser.h\<close>).
  A template is a row of attributes per node; \<open>adj\<close> is the array of rows, outside of
  which an access faults. The function pointers of the parser are those that
  \<open>msg_ex::init\<close> installs, the readers of \<open>msg_recv\<close> and the writers of \<open>msg_send\<close>.
  The recursion follows \<open>next\<close>; it has fuel, one unit per level, and a template of
  depth \<open>k\<close> needs \<open>k\<close>. A result \<open>None\<close> is a Lua error, a fault or no fuel.

  \<open>junk\<close> is what the local buffer \<open>buf\<close> holds before a string is read into it.
\<close>

record proto_attr =
  pa_type :: int
  pa_cnt :: int
  pa_next :: int
  pa_name :: bytes

record proto_parser =
  pp_adj :: "nat \<Rightarrow> nat \<Rightarrow> proto_attr"
  pp_next_node_id :: int
  pp_err_name :: bytes

definition enum_byte :: int where "enum_byte = 0"
definition enum_short :: int where "enum_short = 1"
definition enum_int :: int where "enum_int = 2"
definition enum_uint :: int where "enum_uint = 3"
definition enum_double :: int where "enum_double = 4"
definition enum_string :: int where "enum_string = 5"

lemmas enum_types = enum_byte_def enum_short_def enum_int_def enum_uint_def enum_double_def
  enum_string_def

definition attr_at :: "proto_parser \<Rightarrow> int \<Rightarrow> nat \<Rightarrow> proto_attr option" where
  "attr_at p nodeid i =
     (if 0 \<le> nodeid \<and> nodeid < 32768 \<and> i < 128 then Some (pp_adj p (nat nodeid) i) else None)"

definition empty_attr :: proto_attr where
  "empty_attr = \<lparr>pa_type = 0, pa_cnt = 0, pa_next = 0, pa_name = []\<rparr>"

definition proto_parser_init :: proto_parser where
  "proto_parser_init = \<lparr>pp_adj = (\<lambda>n i. empty_attr), pp_next_node_id = 4096, pp_err_name = []\<rparr>"

text \<open>A \<open>double\<close> of the message is its bytes in memory.\<close>

definition double_of_bytes :: "bytes \<Rightarrow> 64 word" where
  "double_of_bytes bs = word_of_int (le_val bs)"

definition bytes_of_double :: "64 word \<Rightarrow> bytes" where
  "bytes_of_double x = le_bytes 8 (uint x)"

section \<open>Reading\<close>

definition push_number ::
    "'s lua_api \<Rightarrow> (int \<times> msg_recv) option \<Rightarrow> 's \<Rightarrow> (bool \<times> msg_recv \<times> 's) option" where
  "push_number api r s = do {
     (n, m) \<leftarrow> r;
     s1 \<leftarrow> lua_pushnumber api s (double_of_int n);
     Some (True, m, s1)
   }"

definition push_double ::
    "'s lua_api \<Rightarrow> (bytes \<times> msg_recv) option \<Rightarrow> 's \<Rightarrow> (bool \<times> msg_recv \<times> 's) option" where
  "push_double api r s = do {
     (x, m) \<leftarrow> r;
     s1 \<leftarrow> lua_pushnumber api s (double_of_bytes x);
     Some (True, m, s1)
   }"

text \<open>The length, the bytes, and the push of the local buffer; \<open>False\<close> is a return.\<close>

definition push_string ::
    "'s lua_api \<Rightarrow> (nat \<Rightarrow> byte) \<Rightarrow> msg_recv \<Rightarrow> 's \<Rightarrow> (bool \<times> msg_recv \<times> 's) option" where
  "push_string api junk m s = do {
     (len, m1) \<leftarrow> mr_read_short m;
     if len < 0 then Some (False, m1, s)
     else if 65536 < len then Some (False, m1, s)
     else do {
       (str, m2) \<leftarrow> mr_read_string len m1;
       s1 \<leftarrow> lua_pushlstring api s (str @ map junk [length str..<nat len]);
       Some (True, m2, s1)
     }
   }"

definition read_scalar ::
    "'s lua_api \<Rightarrow> (nat \<Rightarrow> byte) \<Rightarrow> int \<Rightarrow> msg_recv \<Rightarrow> 's \<Rightarrow> (bool \<times> msg_recv \<times> 's) option" where
  "read_scalar api junk t m s =
     (if t = enum_byte then push_number api (mr_read_byte m) s
      else if t = enum_short then push_number api (mr_read_short m) s
      else if t = enum_int then push_number api (mr_read_int m) s
      else if t = enum_uint then push_number api (mr_read_int m) s
      else if t = enum_double then push_double api (mr_read_double m) s
      else if t = enum_string then push_string api junk m s
      else Some (False, m, s))"

definition read_element ::
    "'s lua_api \<Rightarrow> (nat \<Rightarrow> byte) \<Rightarrow> int \<Rightarrow> msg_recv \<Rightarrow> 's \<Rightarrow> (bool \<times> msg_recv \<times> 's) option" where
  "read_element api junk t m s =
     (if t = enum_int then push_number api (mr_read_int m) s
      else if t = enum_uint then push_number api (mr_read_int m) s
      else if t = enum_short then push_number api (mr_read_short m) s
      else if t = enum_byte then push_number api (mr_read_byte m) s
      else if t = enum_double then push_double api (mr_read_double m) s
      else if t = enum_string then push_string api junk m s
      else Some (False, m, s))"

text \<open>The elements \<open>j, j + 1, \<dots>\<close> of an array; \<open>rec\<close> is the parser one level down.\<close>

primrec read_items ::
    "'s lua_api \<Rightarrow> (nat \<Rightarrow> byte) \<Rightarrow> (int \<Rightarrow> msg_recv \<Rightarrow> 's \<Rightarrow> (bool \<times> msg_recv \<times> 's) option) \<Rightarrow>
     proto_attr \<Rightarrow> nat \<Rightarrow> int \<Rightarrow> msg_recv \<Rightarrow> 's \<Rightarrow> (bool \<times> msg_recv \<times> 's) option" where
  "read_items api junk rec pa 0 j m s = Some (True, m, s)"
| "read_items api junk rec pa (Suc n) j m s =
     (if pa_next pa \<noteq> 0 then do {
        s1 \<leftarrow> lua_rawgeti api s (-1) (j + 1);
        if \<not> lua_istable api s1 (-1) then None
        else do {
          (ok, m1, s2) \<leftarrow> rec (pa_next pa) m s1;
          s3 \<leftarrow> lua_pop api s2 1;
          read_items api junk rec pa n (j + 1) m1 s3
        }
      }
      else do {
        (ok, m1, s1) \<leftarrow> read_element api junk (pa_type pa) m s;
        if \<not> ok then Some (False, m1, s1)
        else do {
          s2 \<leftarrow> lua_rawseti api s1 (-2) (j + 1);
          read_items api junk rec pa n (j + 1) m1 s2
        }
      })"

definition read_attr ::
    "'s lua_api \<Rightarrow> (nat \<Rightarrow> byte) \<Rightarrow> (int \<Rightarrow> msg_recv \<Rightarrow> 's \<Rightarrow> (bool \<times> msg_recv \<times> 's) option) \<Rightarrow>
     proto_attr \<Rightarrow> msg_recv \<Rightarrow> 's \<Rightarrow> (bool \<times> msg_recv \<times> 's) option" where
  "read_attr api junk rec pa m s =
     (if pa_cnt pa < 2 then
        if pa_next pa \<noteq> 0 then do {
          s1 \<leftarrow> lua_getfield api s (-1) (pa_name pa);
          (ok, m1, s2) \<leftarrow> rec (pa_next pa) m s1;
          if \<not> ok then Some (False, m1, s2)
          else do { s3 \<leftarrow> lua_pop api s2 1; Some (True, m1, s3) }
        }
        else do {
          (ok, m1, s1) \<leftarrow> read_scalar api junk (pa_type pa) m s;
          if \<not> ok then Some (False, m1, s1)
          else do { s2 \<leftarrow> lua_setfield api s1 (-2) (pa_name pa); Some (True, m1, s2) }
        }
      else do {
        (len, m1) \<leftarrow> mr_read_short m;
        if \<not> (0 \<le> len \<and> len \<le> pa_cnt pa) then Some (False, m1, s)
        else do {
          s1 \<leftarrow> lua_getfield api s (-1) (pa_name pa);
          if \<not> lua_istable api s1 (-1) then None
          else do {
            s2 \<leftarrow> lua_pushnumber api s1 (double_of_int len);
            s3 \<leftarrow> lua_rawseti api s2 (-2) 0;
            (ok, m2, s4) \<leftarrow> read_items api junk rec pa (nat len) 0 m1 s3;
            if \<not> ok then Some (False, m2, s4)
            else do { s5 \<leftarrow> lua_pop api s4 1; Some (True, m2, s5) }
          }
        }
      })"

text \<open>The attributes from the \<open>i\<close>-th on; \<open>n\<close> is \<open>128 - i\<close>, the rest of the row.\<close>

primrec read_attrs ::
    "'s lua_api \<Rightarrow> (nat \<Rightarrow> byte) \<Rightarrow> proto_parser \<Rightarrow>
     (int \<Rightarrow> msg_recv \<Rightarrow> 's \<Rightarrow> (bool \<times> msg_recv \<times> 's) option) \<Rightarrow>
     int \<Rightarrow> nat \<Rightarrow> nat \<Rightarrow> msg_recv \<Rightarrow> 's \<Rightarrow> (bool \<times> msg_recv \<times> 's) option" where
  "read_attrs api junk p rec nodeid 0 i m s = None"
| "read_attrs api junk p rec nodeid (Suc n) i m s = do {
     pa \<leftarrow> attr_at p nodeid i;
     if pa_name pa = [] then Some (True, m, s)
     else do {
       (ok, m1, s1) \<leftarrow> read_attr api junk rec pa m s;
       if \<not> ok then Some (False, m1, s1)
       else read_attrs api junk p rec nodeid n (i + 1) m1 s1
     }
   }"

primrec read_msg_dfs ::
    "nat \<Rightarrow> 's lua_api \<Rightarrow> (nat \<Rightarrow> byte) \<Rightarrow> proto_parser \<Rightarrow> int \<Rightarrow> msg_recv \<Rightarrow> 's \<Rightarrow>
     (bool \<times> msg_recv \<times> 's) option" where
  "read_msg_dfs 0 api junk p nodeid m s = None"
| "read_msg_dfs (Suc k) api junk p nodeid m s = do {
     (ok, m1, s1) \<leftarrow> read_attrs api junk p (read_msg_dfs k api junk p) nodeid 128 0 m s;
     if \<not> ok then Some (False, m1, s1)
     else if lua_gettop api s \<noteq> lua_gettop api s1 then None
     else Some (True, m1, s1)
   }"

section \<open>Writing\<close>

text \<open>
  The status is the integer the function returns, \<open>0\<close> for success. A test of a type
  that fails copies the name of the attribute to \<open>err_name\<close>, which is passed along.
\<close>

definition check_fails :: "'s lua_api \<Rightarrow> 's \<Rightarrow> int \<Rightarrow> bool" where
  "check_fails api s t \<longleftrightarrow> lua_type api s (-1) \<noteq> t"

definition write_number ::
    "'s lua_api \<Rightarrow> (64 word \<Rightarrow> msg_send \<Rightarrow> msg_send option) \<Rightarrow> bytes \<Rightarrow> int \<Rightarrow> msg_send \<Rightarrow> bytes \<Rightarrow> 's
     \<Rightarrow> (int \<times> msg_send \<times> bytes) option" where
  "write_number api wr name ret m e s =
     (if check_fails api s LUA_TNUMBER then Some (ret * 100 + lua_type api s (-1), m, name)
      else do {
        x \<leftarrow> luaL_checknumber api s (-1);
        m1 \<leftarrow> wr x m;
        Some (0, m1, e)
      })"

definition write_text ::
    "'s lua_api \<Rightarrow> bytes \<Rightarrow> int \<Rightarrow> msg_send \<Rightarrow> bytes \<Rightarrow> 's \<Rightarrow> (int \<times> msg_send \<times> bytes) option" where
  "write_text api name ret m e s =
     (if check_fails api s LUA_TSTRING then Some (ret * 100 + lua_type api s (-1), m, name)
      else do {
        str \<leftarrow> luaL_checklstring api s (-1);
        let len = int (length str);
        m1 \<leftarrow> ms_write_short (s16 len) m;
        m2 \<leftarrow> ms_write_string str (s32 len) m1;
        Some (0, m2, e)
      })"

text \<open>The casts of a \<open>double\<close> to \<open>char\<close>, \<open>short\<close> and \<open>unsigned\<close> go through wider integers.\<close>

definition put_byte :: "64 word \<Rightarrow> msg_send \<Rightarrow> msg_send option" where
  "put_byte x = ms_write_byte (s8 (double_to_int 32 x))"

definition put_short :: "64 word \<Rightarrow> msg_send \<Rightarrow> msg_send option" where
  "put_short x = ms_write_short (s16 (double_to_int 32 x))"

definition put_int :: "64 word \<Rightarrow> msg_send \<Rightarrow> msg_send option" where
  "put_int x = ms_write_int (s32 (double_to_int 64 x))"

definition put_double :: "64 word \<Rightarrow> msg_send \<Rightarrow> msg_send option" where
  "put_double x = ms_write_double (bytes_of_double x)"

definition write_scalar ::
    "'s lua_api \<Rightarrow> proto_attr \<Rightarrow> msg_send \<Rightarrow> bytes \<Rightarrow> 's \<Rightarrow> (int \<times> msg_send \<times> bytes) option" where
  "write_scalar api pa m e s =
     (if pa_type pa = enum_byte then write_number api put_byte (pa_name pa) 1 m e s
      else if pa_type pa = enum_short then write_number api put_short (pa_name pa) 2 m e s
      else if pa_type pa = enum_double then write_number api put_double (pa_name pa) 3 m e s
      else if pa_type pa = enum_int then write_number api put_int (pa_name pa) 4 m e s
      else if pa_type pa = enum_uint then write_number api put_int (pa_name pa) 5 m e s
      else if pa_type pa = enum_string then write_text api (pa_name pa) 6 m e s
      else Some (6, m, e))"

definition write_element ::
    "'s lua_api \<Rightarrow> proto_attr \<Rightarrow> msg_send \<Rightarrow> bytes \<Rightarrow> 's \<Rightarrow> (int \<times> msg_send \<times> bytes) option" where
  "write_element api pa m e s =
     (if pa_type pa = enum_byte then write_number api put_byte (pa_name pa) 8 m e s
      else if pa_type pa = enum_short then write_number api put_short (pa_name pa) 9 m e s
      else if pa_type pa = enum_double then write_number api put_double (pa_name pa) 10 m e s
      else if pa_type pa = enum_int then write_number api put_int (pa_name pa) 11 m e s
      else if pa_type pa = enum_uint then write_number api put_int (pa_name pa) 11 m e s
      else if pa_type pa = enum_string then write_text api (pa_name pa) 12 m e s
      else Some (13, m, e))"

primrec write_items ::
    "'s lua_api \<Rightarrow> (int \<Rightarrow> msg_send \<Rightarrow> bytes \<Rightarrow> 's \<Rightarrow> (int \<times> msg_send \<times> bytes \<times> 's) option) \<Rightarrow>
     proto_attr \<Rightarrow> nat \<Rightarrow> int \<Rightarrow> msg_send \<Rightarrow> bytes \<Rightarrow> 's \<Rightarrow> (int \<times> msg_send \<times> bytes \<times> 's) option" where
  "write_items api rec pa 0 j m e s = Some (0, m, e, s)"
| "write_items api rec pa (Suc n) j m e s = do {
     s1 \<leftarrow> lua_rawgeti api s (-1) (j + 1);
     (ret, m1, e1, s2) \<leftarrow> (if pa_next pa \<noteq> 0 then rec (pa_next pa) m e s1
        else map_option (\<lambda>(r, m1, e1). (r, m1, e1, s1)) (write_element api pa m e s1));
     if ret \<noteq> 0 then Some (ret, m1, e1, s2)
     else do {
       s3 \<leftarrow> lua_pop api s2 1;
       write_items api rec pa n (j + 1) m1 e1 s3
     }
   }"

text \<open>One attribute, whose value is on the stack.\<close>

definition write_attr ::
    "'s lua_api \<Rightarrow> (int \<Rightarrow> msg_send \<Rightarrow> bytes \<Rightarrow> 's \<Rightarrow> (int \<times> msg_send \<times> bytes \<times> 's) option) \<Rightarrow>
     proto_attr \<Rightarrow> msg_send \<Rightarrow> bytes \<Rightarrow> 's \<Rightarrow> (int \<times> msg_send \<times> bytes \<times> 's) option" where
  "write_attr api rec pa m e s =
     (if pa_cnt pa < 2 then
        if pa_next pa \<noteq> 0 then rec (pa_next pa) m e s
        else map_option (\<lambda>(r, m1, e1). (r, m1, e1, s)) (write_scalar api pa m e s)
      else if \<not> lua_istable api s (-1) then Some (14, m, pa_name pa, s)
      else do {
        s1 \<leftarrow> lua_rawgeti api s (-1) 0;
        if check_fails api s1 LUA_TNUMBER
        then Some (7 * 100 + lua_type api s1 (-1), m, pa_name pa, s1)
        else do {
          x \<leftarrow> luaL_checknumber api s1 (-1);
          let len = s16 (double_to_int 32 x);
          s2 \<leftarrow> lua_pop api s1 1;
          m1 \<leftarrow> ms_write_short len m;
          write_items api rec pa (nat len) 0 m1 e s2
        }
      })"

primrec write_attrs ::
    "'s lua_api \<Rightarrow> proto_parser \<Rightarrow>
     (int \<Rightarrow> msg_send \<Rightarrow> bytes \<Rightarrow> 's \<Rightarrow> (int \<times> msg_send \<times> bytes \<times> 's) option) \<Rightarrow>
     int \<Rightarrow> nat \<Rightarrow> nat \<Rightarrow> msg_send \<Rightarrow> bytes \<Rightarrow> 's \<Rightarrow> (int \<times> msg_send \<times> bytes \<times> 's) option" where
  "write_attrs api p rec nodeid 0 i m e s = None"
| "write_attrs api p rec nodeid (Suc n) i m e s = do {
     pa \<leftarrow> attr_at p nodeid i;
     if pa_name pa = [] then Some (0, m, e, s)
     else do {
       s1 \<leftarrow> lua_getfield api s (-1) (pa_name pa);
       (ret, m1, e1, s2) \<leftarrow> write_attr api rec pa m e s1;
       if ret \<noteq> 0 then Some (ret, m1, e1, s2)
       else do {
         s3 \<leftarrow> lua_pop api s2 1;
         write_attrs api p rec nodeid n (i + 1) m1 e1 s3
       }
     }
   }"

primrec write_msg_dfs ::
    "nat \<Rightarrow> 's lua_api \<Rightarrow> proto_parser \<Rightarrow> int \<Rightarrow> msg_send \<Rightarrow> bytes \<Rightarrow> 's \<Rightarrow>
     (int \<times> msg_send \<times> bytes \<times> 's) option" where
  "write_msg_dfs 0 api p nodeid m e s = None"
| "write_msg_dfs (Suc k) api p nodeid m e s =
     (if \<not> lua_istable api s (-1) then Some (15, m, e, s)
      else do {
        (ret, m1, e1, s1) \<leftarrow> write_attrs api p (write_msg_dfs k api p) nodeid 128 0 m e s;
        if ret \<noteq> 0 then Some (ret, m1, e1, s1)
        else if lua_gettop api s \<noteq> lua_gettop api s1 then None
        else Some (0, m1, e1, s1)
      })"

end
