(* ===== verification/ProtoWrite.thy ===== *)
theory ProtoWrite
  imports ProtoParser
begin

text \<open>
  What \<open>write_msg_dfs\<close> writes. \<open>flat\<close> is the reference: the wire fields of a Lua value
  under a template, by recursion on the template and without a stack, \<open>None\<close> where
  a value has not the type its attribute asks for.
\<close>

section \<open>Templates\<close>

definition row_of :: "proto_parser \<Rightarrow> int \<Rightarrow> proto_attr list" where
  "row_of p nodeid = takeWhile (\<lambda>pa. pa_name pa \<noteq> []) (map (pp_adj p (nat nodeid)) [0..<128])"

text \<open>A template of depth \<open>k\<close>: rows end inside the array, types are known.\<close>

primrec template :: "nat \<Rightarrow> proto_parser \<Rightarrow> int \<Rightarrow> bool" where
  "template 0 p nodeid = False"
| "template (Suc k) p nodeid =
     (0 \<le> nodeid \<and> nodeid < 32768 \<and> length (row_of p nodeid) < 128 \<and>
      (\<forall>pa \<in> set (row_of p nodeid).
         if pa_next pa \<noteq> 0 then template k p (pa_next pa)
         else 0 \<le> pa_type pa \<and> pa_type pa \<le> 5))"

lemma row_of_nth:
  assumes "i < length (row_of p nodeid)"
  shows "row_of p nodeid ! i = pp_adj p (nat nodeid) i" "pa_name (row_of p nodeid ! i) \<noteq> []" "i < 128"
proof -
  let ?xs = "map (pp_adj p (nat nodeid)) [0..<128]"
  have l: "length (row_of p nodeid) \<le> 128"
    using length_takeWhile_le [of _ ?xs] by (simp add: row_of_def)
  then show "i < 128" using assms by simp
  then show "row_of p nodeid ! i = pp_adj p (nat nodeid) i"
    using takeWhile_nth [of i _ ?xs] assms by (simp add: row_of_def)
  show "pa_name (row_of p nodeid ! i) \<noteq> []"
    using nth_mem [OF assms] set_takeWhileD by (fastforce simp: row_of_def)
qed

lemma row_of_end:
  "length (row_of p nodeid) < 128 \<Longrightarrow> pa_name (pp_adj p (nat nodeid) (length (row_of p nodeid))) = []"
  using nth_length_takeWhile [of "\<lambda>pa. pa_name pa \<noteq> []" "map (pp_adj p (nat nodeid)) [0..<128]"]
  by (simp add: row_of_def)

section \<open>The fields of a value\<close>

text \<open>
  \<open>c\<close> tells which lengths count: the writer takes any, the reader only those from 0 to
  the capacity of the attribute, and of a string those that fit a \<open>short\<close>.
\<close>

definition any_len :: "int \<Rightarrow> int \<Rightarrow> bool" where
  "any_len cap len = True"

definition legal_len :: "int \<Rightarrow> int \<Rightarrow> bool" where
  "legal_len cap len \<longleftrightarrow> 0 \<le> len \<and> len \<le> cap"

definition flat_scalar :: "(int \<Rightarrow> int \<Rightarrow> bool) \<Rightarrow> int \<Rightarrow> lval \<Rightarrow> field list option" where
  "flat_scalar c t v = (case v of
       L_num x \<Rightarrow>
         if t = enum_byte then Some [F_byte (s8 (double_to_int 32 x))]
         else if t = enum_short then Some [F_short (s16 (double_to_int 32 x))]
         else if t = enum_int \<or> t = enum_uint then Some [F_int (s32 (double_to_int 64 x))]
         else if t = enum_double then Some [F_double (bytes_of_double x)]
         else None
     | L_str b \<Rightarrow>
         if t = enum_string \<and> c 32767 (int (length b))
         then Some [F_short (s16 (int (length b))), F_string b] else None
     | _ \<Rightarrow> None)"

primrec flat_items ::
    "(int \<Rightarrow> int \<Rightarrow> bool) \<Rightarrow> (int \<Rightarrow> lval \<Rightarrow> field list option) \<Rightarrow> heap \<Rightarrow> proto_attr \<Rightarrow> nat \<Rightarrow> nat \<Rightarrow> int
     \<Rightarrow> field list option" where
  "flat_items c rec h pa a 0 j = Some []"
| "flat_items c rec h pa a (Suc n) j = do {
     x \<leftarrow> (let v = h a (K_int (j + 1)) in
       if pa_next pa \<noteq> 0 then rec (pa_next pa) v else flat_scalar c (pa_type pa) v);
     y \<leftarrow> flat_items c rec h pa a n (j + 1);
     Some (x @ y)
   }"

definition flat_attr ::
    "(int \<Rightarrow> int \<Rightarrow> bool) \<Rightarrow> (int \<Rightarrow> lval \<Rightarrow> field list option) \<Rightarrow> heap \<Rightarrow> proto_attr \<Rightarrow> lval
     \<Rightarrow> field list option" where
  "flat_attr c rec h pa v =
     (if pa_cnt pa < 2 then
        if pa_next pa \<noteq> 0 then rec (pa_next pa) v else flat_scalar c (pa_type pa) v
      else (case v of
          L_table a \<Rightarrow> (case h a (K_int 0) of
              L_num x \<Rightarrow> (let len = s16 (double_to_int 32 x) in
                if c (pa_cnt pa) len
                then map_option (Cons (F_short len)) (flat_items c rec h pa a (nat len) 0)
                else None)
            | _ \<Rightarrow> None)
        | _ \<Rightarrow> None))"

primrec flat_row ::
    "(int \<Rightarrow> int \<Rightarrow> bool) \<Rightarrow> (int \<Rightarrow> lval \<Rightarrow> field list option) \<Rightarrow> heap \<Rightarrow> nat \<Rightarrow> proto_attr list
     \<Rightarrow> field list option" where
  "flat_row c rec h r [] = Some []"
| "flat_row c rec h r (pa # row) = do {
     x \<leftarrow> flat_attr c rec h pa (h r (K_str (pa_name pa)));
     y \<leftarrow> flat_row c rec h r row;
     Some (x @ y)
   }"

primrec flat ::
    "(int \<Rightarrow> int \<Rightarrow> bool) \<Rightarrow> nat \<Rightarrow> proto_parser \<Rightarrow> heap \<Rightarrow> int \<Rightarrow> lval \<Rightarrow> field list option" where
  "flat c 0 p h nodeid v = None"
| "flat c (Suc k) p h nodeid v = (case v of
       L_table r \<Rightarrow> flat_row c (flat c k p h) h r (row_of p nodeid)
     | _ \<Rightarrow> None)"

section \<open>The writer\<close>

text \<open>
  What a step of the writer does that has the fields \<open>f\<close> to write, starting from the
  stack \<open>st\<close>: without fields it reports an error, else it has written them and
  left the stack as it was.
\<close>

definition wrote ::
    "('s \<Rightarrow> heap \<times> lval list) \<Rightarrow> heap \<Rightarrow> lval list \<Rightarrow> field list option \<Rightarrow> msg_send \<Rightarrow>
     (int \<times> msg_send \<times> bytes \<times> 's) option \<Rightarrow> bool" where
  "wrote view h st f m r \<longleftrightarrow> (\<exists>ret m' e' s'. r = Some (ret, m', e', s') \<and> ms_ok m' \<and>
     (case f of
        None \<Rightarrow> ret \<noteq> 0
      | Some fs \<Rightarrow> ret = 0 \<and> view s' = (h, st) \<and> put_all ms_write_field fs m = Some m'))"

lemma put_all_append:
  "put_all put (xs @ ys) m = (case put_all put xs m of None \<Rightarrow> None | Some m1 \<Rightarrow> put_all put ys m1)"
  by (induction xs arbitrary: m) (auto split: option.splits)

lemma wrote_step:
  assumes "wrote view h st1 f m r"
    "\<And>m' e' s'. view s' = (h, st1) \<Longrightarrow> ms_ok m' \<Longrightarrow> wrote view h st2 g m' (cont m' e' s')"
  shows "wrote view h st2 (do { x \<leftarrow> f; y \<leftarrow> g; Some (x @ y) }) m
    (do { (ret, m', e', s') \<leftarrow> r; if ret \<noteq> 0 then Some (ret, m', e', s') else cont m' e' s' })"
proof (cases f)
  case None
  then show ?thesis using assms(1) by (auto simp: wrote_def)
next
  case (Some fs)
  then obtain m' e' s' where r: "r = Some (0, m', e', s')" "ms_ok m'" "view s' = (h, st1)"
      "put_all ms_write_field fs m = Some m'"
    using assms(1) by (auto simp: wrote_def)
  then have "wrote view h st2 g m' (cont m' e' s')" using assms(2) by blast
  with r Some show ?thesis
    by (cases g) (auto simp: wrote_def put_all_append)
qed

lemma type_of_pos: "0 \<le> type_of v"
  by (cases v) (auto simp: LUA_TNUMBER_def LUA_TSTRING_def LUA_TTABLE_def)

lemma ms_write_ok:
  assumes "ms_ok m"
  shows "field_valid f \<Longrightarrow> \<exists>m'. ms_write_field f m = Some m' \<and> ms_ok m'"
  using ms_write_field_fits [OF assms, of f] ms_write_field_drops [OF assms, of f]
    ms_append_ok(1) [OF assms, of "field_bytes f"] assms
  by (cases "ms_buf_len m + int (length (field_bytes f)) \<le> 16384") auto

text \<open>Strings of Lua are shorter than two gigabytes, so that a length fits an \<open>int\<close>.\<close>

definition short_string :: "lval \<Rightarrow> bool" where
  "short_string v \<longleftrightarrow> (\<forall>b. v = L_str b \<longrightarrow> length b < 2147483648)"

definition short_strings :: "heap \<Rightarrow> bool" where
  "short_strings h \<longleftrightarrow> (\<forall>r k. short_string (h r k))"

lemma put_field:
  assumes "ms_ok m" "field_valid f"
  shows "\<exists>m'. ms_write_field f m = Some m' \<and> ms_ok m' \<and> put_all ms_write_field [f] m = Some m'"
  using ms_write_ok [OF assms] by auto

lemma put_numbers:
  "put_byte x m = ms_write_field (F_byte (s8 (double_to_int 32 x))) m"
  "put_short x m = ms_write_field (F_short (s16 (double_to_int 32 x))) m"
  "put_int x m = ms_write_field (F_int (s32 (double_to_int 64 x))) m"
  "put_double x m = ms_write_field (F_double (bytes_of_double x)) m"
  by (simp_all add: put_byte_def put_short_def put_int_def put_double_def)

lemma number_fields_valid:
  "field_valid (F_byte (s8 n))" "field_valid (F_short (s16 n))" "field_valid (F_int (s32 n))"
  "field_valid (F_double (bytes_of_double x))"
  using s8_range [of n] s16_range [of n] s32_range [of n] by (simp_all add: bytes_of_double_def)

lemma write_number_wrote:
  assumes "lua_laws api view" "view s = (h, v # st)" "ms_ok m" "0 < ret"
    "\<And>x. wr x m = ms_write_field (f x) m" "\<And>x. field_valid (f x)"
  shows "\<exists>r m' e'. write_number api wr name ret m e s = Some (r, m', e') \<and> ms_ok m' \<and>
    (case v of L_num x \<Rightarrow> r = 0 \<and> put_all ms_write_field [f x] m = Some m' | _ \<Rightarrow> r \<noteq> 0)"
proof -
  have t: "lua_type api s (-1) = type_of v"
    using lua_laws_view(2) [OF assms(1,2), of "-1" v] by simp
  have p: "ret * 100 + type_of v \<noteq> 0" using type_of_pos [of v] assms(4) by linarith
  show ?thesis
  proof (cases v)
    case (L_num x)
    then have "luaL_checknumber api s (-1) = Some x"
      using lua_laws_view(3) [OF assms(1,2), of "-1" x] by simp
    moreover obtain m' where "ms_write_field (f x) m = Some m'" "ms_ok m'"
      using ms_write_ok [OF assms(3) assms(6) [of x]] by blast
    ultimately show ?thesis
      using L_num t assms(5) by (simp add: write_number_def check_fails_def)
  qed (use t p assms(3) in \<open>auto simp: write_number_def check_fails_def LUA_TNUMBER_def
      LUA_TSTRING_def LUA_TTABLE_def split: if_splits\<close>)
qed

lemma write_text_wrote:
  assumes "lua_laws api view" "view s = (h, v # st)" "ms_ok m" "0 < ret" "short_string v"
  shows "\<exists>r m' e'. write_text api name ret m e s = Some (r, m', e') \<and> ms_ok m' \<and>
    (case v of L_str b \<Rightarrow> r = 0 \<and>
        put_all ms_write_field [F_short (s16 (int (length b))), F_string b] m = Some m'
     | _ \<Rightarrow> r \<noteq> 0)"
proof -
  have t: "lua_type api s (-1) = type_of v"
    using lua_laws_view(2) [OF assms(1,2), of "-1" v] by simp
  have p: "ret * 100 + type_of v \<noteq> 0" using type_of_pos [of v] assms(4) by linarith
  show ?thesis
  proof (cases v)
    case (L_str b)
    then have c: "luaL_checklstring api s (-1) = Some b"
      using lua_laws_view(4) [OF assms(1,2), of "-1" b] by simp
    obtain m1 where m1: "ms_write_field (F_short (s16 (int (length b)))) m = Some m1" "ms_ok m1"
      using ms_write_ok [OF assms(3) number_fields_valid(2)] by blast
    have "field_valid (F_string b)" using assms(5) L_str by (simp add: short_string_def)
    then obtain m2 where m2: "ms_write_field (F_string b) m1 = Some m2" "ms_ok m2"
      using ms_write_ok [OF m1(2)] by blast
    have "s32 (int (length b)) = int (length b)" using assms(5) L_str by (simp add: short_string_def)
    then show ?thesis
      using L_str t c m1 m2 by (simp add: write_text_def check_fails_def)
  qed (use t p assms(3) in \<open>auto simp: write_text_def check_fails_def LUA_TNUMBER_def
      LUA_TSTRING_def LUA_TTABLE_def split: if_splits\<close>)
qed

text \<open>What a write of one value promises: the fields, or a status that is not zero.\<close>

definition scalar_wrote :: "field list option \<Rightarrow> msg_send \<Rightarrow> (int \<times> msg_send \<times> bytes) option \<Rightarrow> bool" where
  "scalar_wrote f m r \<longleftrightarrow> (\<exists>ret m' e'. r = Some (ret, m', e') \<and> ms_ok m' \<and>
     (case f of None \<Rightarrow> ret \<noteq> 0 | Some fs \<Rightarrow> ret = 0 \<and> put_all ms_write_field fs m = Some m'))"

lemma write_kinds:
  assumes "lua_laws api view" "view s = (h, v # st)" "ms_ok m" "0 < ret" "short_string v"
  shows "scalar_wrote (flat_scalar any_len enum_byte v) m (write_number api put_byte name ret m e s)"
    and "scalar_wrote (flat_scalar any_len enum_short v) m (write_number api put_short name ret m e s)"
    and "scalar_wrote (flat_scalar any_len enum_int v) m (write_number api put_int name ret m e s)"
    and "scalar_wrote (flat_scalar any_len enum_uint v) m (write_number api put_int name ret m e s)"
    and "scalar_wrote (flat_scalar any_len enum_double v) m (write_number api put_double name ret m e s)"
    and "scalar_wrote (flat_scalar any_len enum_string v) m (write_text api name ret m e s)"
proof -
  note w = write_number_wrote [OF assms(1-4)]
  show "scalar_wrote (flat_scalar any_len enum_byte v) m (write_number api put_byte name ret m e s)"
    using w [of put_byte "\<lambda>x. F_byte (s8 (double_to_int 32 x))" name e, OF put_numbers(1) number_fields_valid(1)]
    by (cases v) (auto simp: scalar_wrote_def flat_scalar_def any_len_def enum_types)
  show "scalar_wrote (flat_scalar any_len enum_short v) m (write_number api put_short name ret m e s)"
    using w [of put_short "\<lambda>x. F_short (s16 (double_to_int 32 x))" name e, OF put_numbers(2) number_fields_valid(2)]
    by (cases v) (auto simp: scalar_wrote_def flat_scalar_def any_len_def enum_types)
  show i: "scalar_wrote (flat_scalar any_len enum_int v) m (write_number api put_int name ret m e s)"
    using w [of put_int "\<lambda>x. F_int (s32 (double_to_int 64 x))" name e, OF put_numbers(3) number_fields_valid(3)]
    by (cases v) (auto simp: scalar_wrote_def flat_scalar_def any_len_def enum_types)
  have "flat_scalar any_len enum_uint v = flat_scalar any_len enum_int v"
    by (cases v) (simp_all add: flat_scalar_def any_len_def enum_types)
  with i show "scalar_wrote (flat_scalar any_len enum_uint v) m (write_number api put_int name ret m e s)"
    by simp
  show "scalar_wrote (flat_scalar any_len enum_double v) m (write_number api put_double name ret m e s)"
    using w [of put_double "\<lambda>x. F_double (bytes_of_double x)" name e, OF put_numbers(4) number_fields_valid(4)]
    by (cases v) (auto simp: scalar_wrote_def flat_scalar_def any_len_def enum_types)
  show "scalar_wrote (flat_scalar any_len enum_string v) m (write_text api name ret m e s)"
    using write_text_wrote [OF assms, of name e]
    by (cases v) (auto simp: scalar_wrote_def flat_scalar_def any_len_def enum_types)
qed

lemma type_cases:
  assumes "0 \<le> t" "t \<le> 5"
  obtains "t = enum_byte" | "t = enum_short" | "t = enum_int" | "t = enum_uint" | "t = enum_double"
    | "t = enum_string"
  using assms unfolding enum_types by linarith

lemma write_scalar_wrote:
  assumes "lua_laws api view" "view s = (h, v # st)" "ms_ok m" "short_string v"
    "0 \<le> pa_type pa" "pa_type pa \<le> 5"
  shows "scalar_wrote (flat_scalar any_len (pa_type pa) v) m (write_scalar api pa m e s)"
    and "scalar_wrote (flat_scalar any_len (pa_type pa) v) m (write_element api pa m e s)"
  using write_kinds [OF assms(1-3) _ assms(4), of _ "pa_name pa" e]
  by (cases rule: type_cases [OF assms(5,6)];
      simp add: write_scalar_def write_element_def; simp add: enum_types)+

lemma scalar_wrote_wrote:
  "scalar_wrote f m r \<Longrightarrow> view s = (h, st) \<Longrightarrow>
     wrote view h st f m (map_option (\<lambda>(r, m1, e1). (r, m1, e1, s)) r)"
  by (auto simp: scalar_wrote_def wrote_def split: option.splits)

lemma write_one_wrote:
  assumes "lua_laws api view" "view s = (h, v # st)" "ms_ok m" "short_string v"
    "0 \<le> pa_type pa" "pa_type pa \<le> 5"
  shows "wrote view h (v # st) (flat_scalar any_len (pa_type pa) v) m
      (map_option (\<lambda>(r, m1, e1). (r, m1, e1, s)) (write_scalar api pa m e s))"
    and "wrote view h (v # st) (flat_scalar any_len (pa_type pa) v) m
      (map_option (\<lambda>(r, m1, e1). (r, m1, e1, s)) (write_element api pa m e s))"
  using write_scalar_wrote [OF assms, of e] assms(2) by (blast intro: scalar_wrote_wrote)+

text \<open>The parser one level down, as far as the level above relies on it.\<close>

definition wrote_below ::
    "('s \<Rightarrow> heap \<times> lval list) \<Rightarrow> heap \<Rightarrow> (int \<Rightarrow> lval \<Rightarrow> field list option) \<Rightarrow>
     (int \<Rightarrow> msg_send \<Rightarrow> bytes \<Rightarrow> 's \<Rightarrow> (int \<times> msg_send \<times> bytes \<times> 's) option) \<Rightarrow> proto_attr \<Rightarrow> bool" where
  "wrote_below view h frec rec pa \<longleftrightarrow>
     (if pa_next pa \<noteq> 0
      then \<forall>v st m e s. view s = (h, v # st) \<longrightarrow> ms_ok m \<longrightarrow>
        wrote view h (v # st) (frec (pa_next pa) v) m (rec (pa_next pa) m e s)
      else 0 \<le> pa_type pa \<and> pa_type pa \<le> 5)"

lemma write_items_wrote:
  assumes "lua_laws api view" "short_strings h" "wrote_below view h frec rec pa"
  shows "view s = (h, L_table a # st) \<Longrightarrow> ms_ok m \<Longrightarrow>
    wrote view h (L_table a # st) (flat_items any_len frec h pa a n j) m (write_items api rec pa n j m e s)"
proof (induction n arbitrary: j m e s)
  case 0
  then show ?case by (simp add: wrote_def)
next
  case (Suc n)
  let ?v = "h a (K_int (j + 1))"
  obtain s1 where s1: "lua_rawgeti api s (-1) (j + 1) = Some s1"
      "view s1 = (h, ?v # L_table a # st)"
    using lua_laws_view(6) [OF assms(1) Suc.prems(1), of "-1" a "j + 1"] by auto
  have sv: "short_string ?v" using assms(2) by (simp add: short_strings_def)
  have "wrote view h (?v # L_table a # st)
      (if pa_next pa \<noteq> 0 then frec (pa_next pa) ?v else flat_scalar any_len (pa_type pa) ?v) m
      (if pa_next pa \<noteq> 0 then rec (pa_next pa) m e s1
       else map_option (\<lambda>(r, m1, e1). (r, m1, e1, s1)) (write_element api pa m e s1))"
    using assms(3) s1(2) Suc.prems(2)
      write_one_wrote(2) [OF assms(1) s1(2) Suc.prems(2) sv, of pa e]
    by (auto simp: wrote_below_def split: if_splits)
  moreover have "wrote view h (L_table a # st) (flat_items any_len frec h pa a n (j + 1)) m'
      (do { s3 \<leftarrow> lua_pop api s' 1; write_items api rec pa n (j + 1) m' e' s3 })"
    if v: "view s' = (h, ?v # L_table a # st)" and m: "ms_ok m'" for m' e' s'
  proof -
    obtain s3 where "lua_pop api s' 1 = Some s3" "view s3 = (h, L_table a # st)"
      using lua_laws_view(9) [OF assms(1) v, of 1] by auto
    then show ?thesis using Suc.IH m by simp
  qed
  ultimately show ?case
    using s1(1) wrote_step [where cont = "\<lambda>m1 e1 s2.
        (do { s3 \<leftarrow> lua_pop api s2 1; write_items api rec pa n (j + 1) m1 e1 s3 })"]
    by (simp add: Let_def)
qed

lemma wrote_cons:
  assumes "ms_write_field f m = Some m1" "wrote view h st fs m1 r"
  shows "wrote view h st (map_option (Cons f) fs) m r"
  using assms by (cases fs) (auto simp: wrote_def)

lemma write_attr_wrote:
  assumes "lua_laws api view" "short_strings h" "wrote_below view h frec rec pa"
    "view s = (h, v # st)" "ms_ok m" "short_string v"
  shows "wrote view h (v # st) (flat_attr any_len frec h pa v) m (write_attr api rec pa m e s)"
proof (cases "pa_cnt pa < 2")
  case True
  then show ?thesis
    using assms(3-5) write_one_wrote(1) [OF assms(1,4,5,6), of pa e]
    by (auto simp: flat_attr_def any_len_def write_attr_def wrote_below_def split: if_splits)
next
  case False
  have t: "lua_istable api s (-1) = (type_of v = LUA_TTABLE)"
    using lua_laws_view(2) [OF assms(1,4), of "-1" v] by (simp add: lua_istable_def)
  show ?thesis
  proof (cases v)
    case (L_table a)
    let ?w = "h a (K_int 0)"
    obtain s1 where s1: "lua_rawgeti api s (-1) 0 = Some s1" "view s1 = (h, ?w # v # st)"
      using lua_laws_view(6) [OF assms(1,4), of "-1" a 0] L_table by auto
    have ty: "lua_type api s1 (-1) = type_of ?w"
      using lua_laws_view(2) [OF assms(1) s1(2), of "-1" ?w] by simp
    show ?thesis
    proof (cases ?w)
      case (L_num x)
      let ?len = "s16 (double_to_int 32 x)"
      have c: "luaL_checknumber api s1 (-1) = Some x"
        using lua_laws_view(3) [OF assms(1) s1(2), of "-1" x] L_num by simp
      obtain s2 where s2: "lua_pop api s1 1 = Some s2" "view s2 = (h, v # st)"
        using lua_laws_view(9) [OF assms(1) s1(2), of 1] by auto
      obtain m1 where m1: "ms_write_field (F_short ?len) m = Some m1" "ms_ok m1"
        using ms_write_ok [OF assms(5) number_fields_valid(2)] by blast
      have "wrote view h (L_table a # st) (flat_items any_len frec h pa a (nat ?len) 0) m1
          (write_items api rec pa (nat ?len) 0 m1 e s2)"
        using write_items_wrote [OF assms(1-3) _ m1(2)] s2(2) L_table by simp
      from wrote_cons [OF m1(1) this] show ?thesis
        using False L_table t s1 ty c s2 m1 L_num
        by (simp add: flat_attr_def any_len_def write_attr_def check_fails_def Let_def)
    qed (use False L_table t s1 ty assms(5) in \<open>auto simp: flat_attr_def any_len_def write_attr_def check_fails_def
        wrote_def LUA_TNUMBER_def LUA_TSTRING_def LUA_TTABLE_def split: if_splits\<close>)
  qed (use False t assms(5) in \<open>auto simp: flat_attr_def any_len_def write_attr_def wrote_def
      LUA_TNUMBER_def LUA_TSTRING_def LUA_TTABLE_def split: if_splits\<close>)
qed

text \<open>The loop over a row, from its \<open>i\<close>-th attribute on.\<close>

lemma write_attrs_wrote:
  assumes "lua_laws api view" "short_strings h" "0 \<le> nodeid" "nodeid < 32768"
    "length (row_of p nodeid) < 128"
    "\<forall>pa \<in> set (row_of p nodeid). wrote_below view h frec rec pa"
  shows "i \<le> length (row_of p nodeid) \<Longrightarrow> view s = (h, L_table r # st) \<Longrightarrow> ms_ok m \<Longrightarrow>
    wrote view h (L_table r # st) (flat_row any_len frec h r (drop i (row_of p nodeid))) m
      (write_attrs api p rec nodeid (128 - i) i m e s)"
proof (induction "length (row_of p nodeid) - i" arbitrary: i m e s)
  case 0
  then have i: "i = length (row_of p nodeid)" by simp
  obtain n where "128 - i = Suc n" using assms(5) i by (cases "128 - i") auto
  then show ?case
    using 0 assms(3,4,5) row_of_end [OF assms(5)] i by (simp add: attr_at_def wrote_def)
next
  case (Suc k)
  let ?row = "row_of p nodeid"
  have i: "i < length ?row" using Suc by simp
  let ?pa = "?row ! i"
  define N where "N = 128 - (i + 1)"
  have n: "128 - i = Suc N" using i assms(5) by (simp add: N_def)
  have at: "attr_at p nodeid i = Some ?pa" "pa_name ?pa \<noteq> []"
    using row_of_nth [OF i] assms(3,4) by (simp_all add: attr_at_def)
  have d: "drop i ?row = ?pa # drop (i + 1) ?row" using i by (simp add: Cons_nth_drop_Suc)
  let ?v = "h r (K_str (pa_name ?pa))"
  obtain s1 where s1: "lua_getfield api s (-1) (pa_name ?pa) = Some s1"
      "view s1 = (h, ?v # L_table r # st)"
    using lua_laws_view(5) [OF assms(1) Suc.prems(2), of "-1" r "pa_name ?pa"] by auto
  have sv: "short_string ?v" using assms(2) by (simp add: short_strings_def)
  have "wrote view h (?v # L_table r # st) (flat_attr any_len frec h ?pa ?v) m (write_attr api rec ?pa m e s1)"
    using write_attr_wrote [OF assms(1,2) _ s1(2) Suc.prems(3) sv] assms(6) i by simp
  moreover have "wrote view h (L_table r # st) (flat_row any_len frec h r (drop (i + 1) ?row)) m'
      (do { s3 \<leftarrow> lua_pop api s' 1; write_attrs api p rec nodeid N (i + 1) m' e' s3 })"
    if v: "view s' = (h, ?v # L_table r # st)" and m: "ms_ok m'" for m' e' s'
  proof -
    obtain s3 where "lua_pop api s' 1 = Some s3" "view s3 = (h, L_table r # st)"
      using lua_laws_view(9) [OF assms(1) v, of 1] by auto
    moreover have "k = length ?row - (i + 1)" "i + 1 \<le> length ?row" using Suc.hyps(2) i by auto
    ultimately show ?thesis using Suc.hyps(1) [of "i + 1"] m by (simp add: N_def)
  qed
  ultimately show ?case
    unfolding n d using s1(1) at
      wrote_step [where cont = "\<lambda>m1 e1 s2. (do { s3 \<leftarrow> lua_pop api s2 1;
        write_attrs api p rec nodeid N (i + 1) m1 e1 s3 })"]
    by simp
qed

lemma write_msg_wrote:
  assumes "lua_laws api view" "short_strings h"
  shows "template k p nodeid \<Longrightarrow> view s = (h, v # st) \<Longrightarrow> ms_ok m \<Longrightarrow>
    wrote view h (v # st) (flat any_len k p h nodeid v) m (write_msg_dfs k api p nodeid m e s)"
proof (induction k arbitrary: nodeid v st m e s)
  case (Suc k)
  have t: "lua_istable api s (-1) = (type_of v = LUA_TTABLE)"
    using lua_laws_view(2) [OF assms(1) Suc.prems(2), of "-1" v] by (simp add: lua_istable_def)
  have b: "\<forall>pa \<in> set (row_of p nodeid). wrote_below view h (flat any_len k p h) (write_msg_dfs k api p) pa"
    using Suc.prems(1) Suc.IH by (auto simp: wrote_below_def split: if_splits)
  show ?case
  proof (cases v)
    case (L_table r)
    have "wrote view h (L_table r # st) (flat_row any_len (flat any_len k p h) h r (drop 0 (row_of p nodeid))) m
        (write_attrs api p (write_msg_dfs k api p) nodeid (128 - 0) 0 m e s)"
      by (rule write_attrs_wrote [OF assms]) (use Suc.prems b L_table in auto)
    then obtain ret m' e' s' where w: "write_attrs api p (write_msg_dfs k api p) nodeid 128 0 m e s
          = Some (ret, m', e', s')" "ms_ok m'"
        "case flat_row any_len (flat any_len k p h) h r (row_of p nodeid) of None \<Rightarrow> ret \<noteq> 0
         | Some fs \<Rightarrow> ret = 0 \<and> view s' = (h, L_table r # st) \<and> put_all ms_write_field fs m = Some m'"
      by (auto simp: wrote_def)
    moreover have "lua_gettop api s = lua_gettop api s'" if "view s' = (h, L_table r # st)"
      using lua_laws_view(1) [OF assms(1)] that Suc.prems(2) L_table by simp
    ultimately show ?thesis
      using t L_table by (auto simp: wrote_def split: option.splits)
  qed (use t Suc.prems(3) in \<open>auto simp: wrote_def LUA_TNUMBER_def LUA_TSTRING_def LUA_TTABLE_def
      split: if_splits\<close>)
qed simp

end
