(* ===== verification/ProtoRead.thy ===== *)
theory ProtoRead
  imports ProtoWrite
begin

text \<open>
  What \<open>read_msg_dfs\<close> reads. \<open>scan\<close> is the reference: it takes wire fields and stores
  their values in the tables of a Lua value, by recursion on the template and without
  a stack. The parser does what \<open>scan\<close> does, and what \<open>scan\<close> makes of the fields of
  a value is a value with the same fields, provided that the tables to fill exist and
  are not shared.
\<close>

section \<open>Values from fields\<close>

definition scan_scalar :: "int \<Rightarrow> field list \<Rightarrow> (lval \<times> field list) option" where
  "scan_scalar t fs = (case fs of
       F_byte n # r \<Rightarrow> if t = enum_byte then Some (L_num (double_of_int n), r) else None
     | F_int n # r \<Rightarrow> if t = enum_int \<or> t = enum_uint then Some (L_num (double_of_int n), r) else None
     | F_double d # r \<Rightarrow> if t = enum_double then Some (L_num (double_of_bytes d), r) else None
     | F_short n # r \<Rightarrow>
         if t = enum_short then Some (L_num (double_of_int n), r)
         else if t = enum_string then (case r of
             F_string b # r' \<Rightarrow> if n = int (length b) then Some (L_str b, r') else None
           | _ \<Rightarrow> None)
         else None
     | _ \<Rightarrow> None)"

primrec scan_items ::
    "(int \<Rightarrow> nat \<Rightarrow> field list \<Rightarrow> heap \<Rightarrow> (field list \<times> heap) option) \<Rightarrow> proto_attr \<Rightarrow> nat \<Rightarrow> nat \<Rightarrow> int \<Rightarrow>
     field list \<Rightarrow> heap \<Rightarrow> (field list \<times> heap) option" where
  "scan_items rec pa a 0 j fs h = Some (fs, h)"
| "scan_items rec pa a (Suc n) j fs h =
     (if pa_next pa \<noteq> 0 then (case h a (K_int (j + 1)) of
          L_table e \<Rightarrow> do {
            (fs1, h1) \<leftarrow> rec (pa_next pa) e fs h;
            scan_items rec pa a n (j + 1) fs1 h1
          }
        | _ \<Rightarrow> None)
      else do {
        (v, fs1) \<leftarrow> scan_scalar (pa_type pa) fs;
        scan_items rec pa a n (j + 1) fs1 (put_key h a (K_int (j + 1)) v)
      })"

definition scan_attr ::
    "(int \<Rightarrow> nat \<Rightarrow> field list \<Rightarrow> heap \<Rightarrow> (field list \<times> heap) option) \<Rightarrow> proto_attr \<Rightarrow> nat \<Rightarrow>
     field list \<Rightarrow> heap \<Rightarrow> (field list \<times> heap) option" where
  "scan_attr rec pa r fs h =
     (if pa_cnt pa < 2 then
        if pa_next pa \<noteq> 0 then (case h r (K_str (pa_name pa)) of
            L_table e \<Rightarrow> rec (pa_next pa) e fs h
          | _ \<Rightarrow> None)
        else do {
          (v, fs1) \<leftarrow> scan_scalar (pa_type pa) fs;
          Some (fs1, put_key h r (K_str (pa_name pa)) v)
        }
      else (case fs of
          F_short len # fs1 \<Rightarrow>
            if legal_len (pa_cnt pa) len then (case h r (K_str (pa_name pa)) of
                L_table a \<Rightarrow> scan_items rec pa a (nat len) 0 fs1
                  (put_key h a (K_int 0) (L_num (double_of_int len)))
              | _ \<Rightarrow> None)
            else None
        | _ \<Rightarrow> None))"

primrec scan_row ::
    "(int \<Rightarrow> nat \<Rightarrow> field list \<Rightarrow> heap \<Rightarrow> (field list \<times> heap) option) \<Rightarrow> nat \<Rightarrow> proto_attr list \<Rightarrow>
     field list \<Rightarrow> heap \<Rightarrow> (field list \<times> heap) option" where
  "scan_row rec r [] fs h = Some (fs, h)"
| "scan_row rec r (pa # row) fs h = do {
     (fs1, h1) \<leftarrow> scan_attr rec pa r fs h;
     scan_row rec r row fs1 h1
   }"

primrec scan :: "nat \<Rightarrow> proto_parser \<Rightarrow> int \<Rightarrow> nat \<Rightarrow> field list \<Rightarrow> heap \<Rightarrow> (field list \<times> heap) option" where
  "scan 0 p nodeid r fs h = None"
| "scan (Suc k) p nodeid r fs h = scan_row (scan k p) r (row_of p nodeid) fs h"

section \<open>The reader\<close>

text \<open>The message still holds the fields \<open>fs\<close>.\<close>

definition holds_fields :: "msg_recv \<Rightarrow> field list \<Rightarrow> bool" where
  "holds_fields m fs \<longleftrightarrow> mr_ok m \<and> 0 \<le> mr_back m \<and> (\<forall>f \<in> set fs. field_valid f) \<and>
     mr_rest m = concat (map field_bytes fs)"

lemma read_first:
  assumes "holds_fields m (f # fs)"
  shows "\<exists>m'. mr_read_field (shape_of f) m = Some (f, m') \<and> holds_fields m' fs"
proof -
  have a: "mr_ok m" "0 \<le> mr_back m" "\<forall>g \<in> set [f]. field_valid g"
      "mr_rest m = concat (map field_bytes [f]) @ concat (map field_bytes fs)"
    using assms by (auto simp: holds_fields_def)
  obtain m' where m': "mr_read_all (map shape_of [f]) m = Some ([f], m')" "mr_ok m'"
      "mr_rest m' = concat (map field_bytes fs)" "mr_back m' = mr_back m"
    using mr_read_all_fields [OF a] by blast
  then have "mr_read_field (shape_of f) m = Some (f, m')"
    by (auto split: option.splits)
  then show ?thesis using m' assms by (auto simp: holds_fields_def)
qed

lemma read_kinds:
  "holds_fields m (F_byte n # fs) \<Longrightarrow> \<exists>m'. mr_read_byte m = Some (n, m') \<and> holds_fields m' fs"
  "holds_fields m (F_short n # fs) \<Longrightarrow> \<exists>m'. mr_read_short m = Some (n, m') \<and> holds_fields m' fs"
  "holds_fields m (F_int n # fs) \<Longrightarrow> \<exists>m'. mr_read_int m = Some (n, m') \<and> holds_fields m' fs"
  "holds_fields m (F_double d # fs) \<Longrightarrow> \<exists>m'. mr_read_double m = Some (d, m') \<and> holds_fields m' fs"
  "holds_fields m (F_string b # fs) \<Longrightarrow>
     \<exists>m'. mr_read_string (int (length b)) m = Some (b, m') \<and> holds_fields m' fs"
  using read_first [of m "F_byte n" fs] read_first [of m "F_short n" fs]
    read_first [of m "F_int n" fs] read_first [of m "F_double d" fs] read_first [of m "F_string b" fs]
  by auto

text \<open>A step of the reader follows a step of the reference.\<close>

definition read_as ::
    "('s \<Rightarrow> heap \<times> lval list) \<Rightarrow> lval list \<Rightarrow> (field list \<times> heap) option \<Rightarrow>
     (bool \<times> msg_recv \<times> 's) option \<Rightarrow> bool" where
  "read_as view st f r \<longleftrightarrow> (\<forall>fs h. f = Some (fs, h) \<longrightarrow>
     (\<exists>m' s'. r = Some (True, m', s') \<and> holds_fields m' fs \<and> view s' = (h, st)))"

lemma push_number_ok:
  assumes "lua_laws api view" "view s = (h, st)" "r = Some (n, m')" "holds_fields m' fs"
  shows "\<exists>s'. push_number api r s = Some (True, m', s') \<and> view s' = (h, L_num (double_of_int n) # st)"
  using lua_laws_view(10) [OF assms(1,2), of "double_of_int n"] assms(3)
  by (auto simp: push_number_def)

lemma push_string_ok:
  assumes "lua_laws api view" "view s = (h, st)"
    "holds_fields m (F_short (int (length b)) # F_string b # fs)"
  shows "\<exists>m' s'. push_string api junk m s = Some (True, m', s') \<and> holds_fields m' fs \<and>
    view s' = (h, L_str b # st)"
proof -
  obtain m1 where m1: "mr_read_short m = Some (int (length b), m1)" "holds_fields m1 (F_string b # fs)"
    using read_kinds(2) [OF assms(3)] by blast
  obtain m2 where m2: "mr_read_string (int (length b)) m1 = Some (b, m2)" "holds_fields m2 fs"
    using read_kinds(5) [OF m1(2)] by blast
  obtain s1 where "lua_pushlstring api s b = Some s1" "view s1 = (h, L_str b # st)"
    using lua_laws_view(11) [OF assms(1,2), of b] by blast
  moreover have "int (length b) \<le> 65536" using assms(3) by (auto simp: holds_fields_def)
  ultimately show ?thesis using m1 m2 by (simp add: push_string_def)
qed

lemma read_scalar_ok:
  assumes "lua_laws api view" "view s = (h, st)" "holds_fields m fs" "scan_scalar t fs = Some (v, fs1)"
  shows "\<exists>m' s'. read_scalar api junk t m s = Some (True, m', s') \<and> holds_fields m' fs1 \<and>
      view s' = (h, v # st)"
    and "\<exists>m' s'. read_element api junk t m s = Some (True, m', s') \<and> holds_fields m' fs1 \<and>
      view s' = (h, v # st)"
proof -
  note n = push_number_ok [OF assms(1,2)]
  have same: "read_element api junk t m s = read_scalar api junk t m s"
    by (auto simp: read_element_def read_scalar_def enum_types)
  obtain f r where fs: "fs = f # r" using assms(4) by (cases fs) (auto simp: scan_scalar_def)
  show s: "\<exists>m' s'. read_scalar api junk t m s = Some (True, m', s') \<and> holds_fields m' fs1 \<and>
      view s' = (h, v # st)"
  proof (cases f)
    case (F_byte i)
    then show ?thesis
      using assms(3,4) fs read_kinds(1) [of m i r] n [OF refl]
      by (fastforce simp: scan_scalar_def read_scalar_def enum_types split: if_splits)
  next
    case (F_int i)
    then show ?thesis
      using assms(3,4) fs read_kinds(3) [of m i r] n [OF refl]
      by (fastforce simp: scan_scalar_def read_scalar_def enum_types split: if_splits)
  next
    case (F_double d)
    obtain m' where "mr_read_double m = Some (d, m')" "holds_fields m' r"
      using assms(3) fs F_double read_kinds(4) by blast
    then show ?thesis
      using F_double assms(4) fs lua_laws_view(10) [OF assms(1,2), of "double_of_bytes d"]
      by (auto simp: scan_scalar_def read_scalar_def push_double_def enum_types split: if_splits)
  next
    case (F_short i)
    show ?thesis
    proof (cases "t = enum_short")
      case True
      then show ?thesis
        using F_short assms(3,4) fs read_kinds(2) [of m i r] n [OF refl]
        by (fastforce simp: scan_scalar_def read_scalar_def enum_types split: if_splits)
    next
      case False
      then obtain b r' where "r = F_string b # r'" "i = int (length b)" "v = L_str b" "fs1 = r'"
          "t = enum_string"
        using F_short assms(4) fs
        by (auto simp: scan_scalar_def split: if_splits list.splits field.splits)
      then show ?thesis
        using push_string_ok [OF assms(1,2), of m b r' junk] assms(3) fs F_short
        by (simp add: read_scalar_def enum_types)
    qed
  next
    case (F_string b)
    then show ?thesis using assms(4) fs by (simp add: scan_scalar_def)
  qed
  show "\<exists>m' s'. read_element api junk t m s = Some (True, m', s') \<and> holds_fields m' fs1 \<and>
      view s' = (h, v # st)"
    unfolding same by (rule s)
qed

text \<open>The parser one level down, as far as the level above relies on it.\<close>

definition read_below ::
    "('s \<Rightarrow> heap \<times> lval list) \<Rightarrow> (int \<Rightarrow> nat \<Rightarrow> field list \<Rightarrow> heap \<Rightarrow> (field list \<times> heap) option) \<Rightarrow>
     (int \<Rightarrow> msg_recv \<Rightarrow> 's \<Rightarrow> (bool \<times> msg_recv \<times> 's) option) \<Rightarrow> proto_attr \<Rightarrow> bool" where
  "read_below view frec rec pa \<longleftrightarrow> (pa_next pa \<noteq> 0 \<longrightarrow>
     (\<forall>e st m s fs h. view s = (h, L_table e # st) \<longrightarrow> holds_fields m fs \<longrightarrow>
        read_as view (L_table e # st) (frec (pa_next pa) e fs h) (rec (pa_next pa) m s)))"

lemma read_below_next:
  assumes "read_below view frec rec pa" "pa_next pa \<noteq> 0" "view s = (h, L_table e # st)"
    "holds_fields m fs" "frec (pa_next pa) e fs h = Some (fs1, h1)"
  obtains m' s' where "rec (pa_next pa) m s = Some (True, m', s')" "holds_fields m' fs1"
    "view s' = (h1, L_table e # st)"
proof -
  have "read_as view (L_table e # st) (frec (pa_next pa) e fs h) (rec (pa_next pa) m s)"
    using assms(1-4) unfolding read_below_def by blast
  then show thesis using assms(5) that by (auto simp: read_as_def)
qed

lemma read_items_scans:
  assumes "lua_laws api view" "read_below view frec rec pa"
  shows "view s = (h, L_table a # st) \<Longrightarrow> holds_fields m fs \<Longrightarrow>
    read_as view (L_table a # st) (scan_items frec pa a n j fs h) (read_items api junk rec pa n j m s)"
proof (induction n arbitrary: j m s fs h)
  case 0
  then show ?case by (simp add: read_as_def)
next
  case (Suc n)
  show ?case
  proof (cases "pa_next pa = 0")
    case True
    show ?thesis
    proof (cases "scan_scalar (pa_type pa) fs")
      case (Some vf)
      obtain v fs1 where vf: "vf = (v, fs1)" by fastforce
      obtain m1 s1 where e: "read_element api junk (pa_type pa) m s = Some (True, m1, s1)"
          "holds_fields m1 fs1" "view s1 = (h, v # L_table a # st)"
        using read_scalar_ok(2) [OF assms(1) Suc.prems(1,2)] Some vf by blast
      obtain s2 where "lua_rawseti api s1 (-2) (j + 1) = Some s2"
          "view s2 = (put_key h a (K_int (j + 1)) v, L_table a # st)"
        using lua_laws_view(8) [OF assms(1) e(3) refl] by blast
      then show ?thesis using True Some vf e Suc.IH by simp
    qed (simp add: True read_as_def)
  next
    case False
    show ?thesis
    proof (cases "\<exists>e. h a (K_int (j + 1)) = L_table e")
      case True
      then obtain e where e: "h a (K_int (j + 1)) = L_table e" by blast
      obtain s1 where s1: "lua_rawgeti api s (-1) (j + 1) = Some s1"
          "view s1 = (h, L_table e # L_table a # st)"
        using lua_laws_view(6) [OF assms(1) Suc.prems(1), of "-1" a "j + 1"] e by auto
      have t: "lua_istable api s1 (-1)"
        using lua_laws_view(2) [OF assms(1) s1(2), of "-1" "L_table e"] by (simp add: lua_istable_def)
      show ?thesis
      proof (cases "frec (pa_next pa) e fs h")
        case (Some fh)
        obtain fs1 h1 where fh: "fh = (fs1, h1)" by fastforce
        obtain m1 s2 where r: "rec (pa_next pa) m s1 = Some (True, m1, s2)" "holds_fields m1 fs1"
            "view s2 = (h1, L_table e # L_table a # st)"
          using read_below_next [OF assms(2) False s1(2) Suc.prems(2)] Some fh by metis
        obtain s3 where "lua_pop api s2 1 = Some s3" "view s3 = (h1, L_table a # st)"
          using lua_laws_view(9) [OF assms(1) r(3), of 1] by auto
        then show ?thesis using False e Some fh s1(1) t r Suc.IH by simp
      qed (simp add: False e read_as_def)
    qed (use False in \<open>auto simp: read_as_def split: lval.splits\<close>)
  qed
qed

lemma read_attr_scans:
  assumes "lua_laws api view" "read_below view frec rec pa" "view s = (h, L_table r # st)"
    "holds_fields m fs"
  shows "read_as view (L_table r # st) (scan_attr frec pa r fs h) (read_attr api junk rec pa m s)"
  unfolding read_as_def
proof (intro allI impI)
  fix fs1 h1
  assume scan: "scan_attr frec pa r fs h = Some (fs1, h1)"
  let ?v = "h r (K_str (pa_name pa))"
  obtain s1 where s1: "lua_getfield api s (-1) (pa_name pa) = Some s1" "view s1 = (h, ?v # L_table r # st)"
    using lua_laws_view(5) [OF assms(1,3), of "-1" r "pa_name pa"] by auto
  consider (scalar) v where "pa_cnt pa < 2" "pa_next pa = 0" "scan_scalar (pa_type pa) fs = Some (v, fs1)"
      "h1 = put_key h r (K_str (pa_name pa)) v"
    | (nested) e where "pa_cnt pa < 2" "pa_next pa \<noteq> 0" "?v = L_table e"
      "frec (pa_next pa) e fs h = Some (fs1, h1)"
    | (array) len fs2 a where "\<not> pa_cnt pa < 2" "fs = F_short len # fs2" "legal_len (pa_cnt pa) len"
      "?v = L_table a" "scan_items frec pa a (nat len) 0 fs2
        (put_key h a (K_int 0) (L_num (double_of_int len))) = Some (fs1, h1)"
    using scan by (auto simp: scan_attr_def split: if_splits list.splits field.splits lval.splits
        Option.bind_splits)
  then show "\<exists>m' s'. read_attr api junk rec pa m s = Some (True, m', s') \<and> holds_fields m' fs1 \<and>
      view s' = (h1, L_table r # st)"
  proof cases
    case scalar
    obtain m' s2 where m: "read_scalar api junk (pa_type pa) m s = Some (True, m', s2)"
        "holds_fields m' fs1" "view s2 = (h, v # L_table r # st)"
      using read_scalar_ok(1) [OF assms(1,3,4) scalar(3)] by blast
    obtain s3 where "lua_setfield api s2 (-2) (pa_name pa) = Some s3" "view s3 = (h1, L_table r # st)"
      using lua_laws_view(7) [OF assms(1) m(3) refl] scalar(4) by blast
    then show ?thesis using scalar m by (simp add: read_attr_def)
  next
    case nested
    obtain m' s2 where m: "rec (pa_next pa) m s1 = Some (True, m', s2)" "holds_fields m' fs1"
        "view s2 = (h1, L_table e # L_table r # st)"
      using read_below_next [of view frec rec pa s1 h e "L_table r # st" m fs fs1 h1] assms(2,4)
        nested s1(2) by auto
    obtain s3 where "lua_pop api s2 1 = Some s3" "view s3 = (h1, L_table r # st)"
      using lua_laws_view(9) [OF assms(1) m(3), of 1] by auto
    then show ?thesis using nested m s1(1) by (simp add: read_attr_def)
  next
    case array
    let ?h = "put_key h a (K_int 0) (L_num (double_of_int len))"
    obtain m1 where m1: "mr_read_short m = Some (len, m1)" "holds_fields m1 fs2"
      using read_kinds(2) assms(4) array(2) by blast
    have t: "lua_istable api s1 (-1)"
      using lua_laws_view(2) [OF assms(1) s1(2), of "-1" ?v] array(4) by (simp add: lua_istable_def)
    obtain s2 where s2: "lua_pushnumber api s1 (double_of_int len) = Some s2"
        "view s2 = (h, L_num (double_of_int len) # L_table a # L_table r # st)"
      using lua_laws_view(10) [OF assms(1) s1(2), of "double_of_int len"] array(4) by auto
    obtain s3 where s3: "lua_rawseti api s2 (-2) 0 = Some s3" "view s3 = (?h, L_table a # L_table r # st)"
      using lua_laws_view(8) [OF assms(1) s2(2) refl] by blast
    obtain m2 s4 where s4: "read_items api junk rec pa (nat len) 0 m1 s3 = Some (True, m2, s4)"
        "holds_fields m2 fs1" "view s4 = (h1, L_table a # L_table r # st)"
      using read_items_scans [OF assms(1,2) s3(2) m1(2), where n = "nat len" and j = 0 and junk = junk]
        array(5) by (auto simp: read_as_def)
    obtain s5 where "lua_pop api s4 1 = Some s5" "view s5 = (h1, L_table r # st)"
      using lua_laws_view(9) [OF assms(1) s4(3), of 1] by auto
    then show ?thesis using array(1,3) m1 s1(1) t s2(1) s3(1) s4
      by (simp add: read_attr_def legal_len_def)
  qed
qed

text \<open>The loop over a row, from its \<open>i\<close>-th attribute on.\<close>

lemma read_attrs_scans:
  assumes "lua_laws api view" "0 \<le> nodeid" "nodeid < 32768" "length (row_of p nodeid) < 128"
    "\<forall>pa \<in> set (row_of p nodeid). read_below view frec rec pa"
  shows "i \<le> length (row_of p nodeid) \<Longrightarrow> view s = (h, L_table r # st) \<Longrightarrow> holds_fields m fs \<Longrightarrow>
    read_as view (L_table r # st) (scan_row frec r (drop i (row_of p nodeid)) fs h)
      (read_attrs api junk p rec nodeid (128 - i) i m s)"
proof (induction "length (row_of p nodeid) - i" arbitrary: i m s fs h)
  case 0
  then have i: "i = length (row_of p nodeid)" by simp
  obtain n where "128 - i = Suc n" using assms(4) i by (cases "128 - i") auto
  then show ?case
    using 0 assms(2-4) row_of_end [OF assms(4)] i by (simp add: attr_at_def read_as_def)
next
  case (Suc k)
  let ?row = "row_of p nodeid"
  have i: "i < length ?row" using Suc by simp
  let ?pa = "?row ! i"
  define N where "N = 128 - (i + 1)"
  have n: "128 - i = Suc N" using i assms(4) by (simp add: N_def)
  have at: "attr_at p nodeid i = Some ?pa" "pa_name ?pa \<noteq> []"
    using row_of_nth [OF i] assms(2,3) by (simp_all add: attr_at_def)
  have d: "drop i ?row = ?pa # drop (i + 1) ?row" using i by (simp add: Cons_nth_drop_Suc)
  have below: "read_below view frec rec ?pa" using assms(5) i by simp
  have rest: "read_as view (L_table r # st) (scan_row frec r (drop (i + 1) ?row) fs1 h1)
      (read_attrs api junk p rec nodeid N (i + 1) m1 s1)"
    if "view s1 = (h1, L_table r # st)" "holds_fields m1 fs1" for fs1 h1 m1 s1
    unfolding N_def by (rule Suc.hyps(1)) (use Suc.hyps(2) i that in auto)
  show ?case
  proof (cases "scan_attr frec ?pa r fs h")
    case (Some fh)
    obtain fs1 h1 where fh: "fh = (fs1, h1)" by fastforce
    obtain m1 s1 where a: "read_attr api junk rec ?pa m s = Some (True, m1, s1)" "holds_fields m1 fs1"
        "view s1 = (h1, L_table r # st)"
      using read_attr_scans [OF assms(1) below Suc.prems(2,3), of junk] Some fh
      by (auto simp: read_as_def)
    then show ?thesis
      unfolding n d using at rest [OF a(3,2)] Some fh by simp
  qed (simp add: d read_as_def)
qed

lemma read_msg_scans:
  assumes "lua_laws api view"
  shows "template k p nodeid \<Longrightarrow> view s = (h, L_table r # st) \<Longrightarrow> holds_fields m fs \<Longrightarrow>
    read_as view (L_table r # st) (scan k p nodeid r fs h) (read_msg_dfs k api junk p nodeid m s)"
proof (induction k arbitrary: nodeid r st m s fs h)
  case (Suc k)
  have b: "\<forall>pa \<in> set (row_of p nodeid). read_below view (scan k p) (read_msg_dfs k api junk p) pa"
    using Suc.prems(1) Suc.IH by (auto simp: read_below_def split: if_splits)
  have "read_as view (L_table r # st) (scan_row (scan k p) r (drop 0 (row_of p nodeid)) fs h)
      (read_attrs api junk p (read_msg_dfs k api junk p) nodeid (128 - 0) 0 m s)"
    by (rule read_attrs_scans [OF assms]) (use Suc.prems b in auto)
  moreover have "lua_gettop api s = lua_gettop api s'" if "view s' = (h', L_table r # st)" for s' h'
    using lua_laws_view(1) [OF assms] that Suc.prems(2) by simp
  ultimately show ?case by (fastforce simp: read_as_def)
qed simp

end
