(* ===== verification/ProtoRoundTrip.thy ===== *)
theory ProtoRoundTrip
  imports ProtoRead
begin

text \<open>
  From a Lua value to a message and back. What the reader stores in the tables it fills
  is a value with the same wire fields, provided the tables the template asks for exist
  and are not shared; \<open>tables\<close> lists them.
\<close>

section \<open>Scalars\<close>

lemma scalar_roundtrip:
  assumes "flat_scalar legal_len t v = Some fs"
  shows "\<exists>v'. scan_scalar t (fs @ rest) = Some (v', rest) \<and> flat_scalar legal_len t v' = Some fs"
proof (cases v)
  case (L_num x)
  have b: "double_to_int 32 (double_of_int (s8 n)) = s8 n" for n
    using s8_range [of n] by (intro double_to_of_int) auto
  have s: "double_to_int 32 (double_of_int (s16 n)) = s16 n" for n
    using s16_range [of n] by (intro double_to_of_int) auto
  have i: "double_to_int 64 (double_of_int (s32 n)) = s32 n" for n
    using s32_range [of n] by (intro double_to_of_int) auto
  have d: "double_of_bytes (bytes_of_double x) = x"
    using uint_lt2p [of x] by (simp add: double_of_bytes_def bytes_of_double_def le_val_le_bytes)
  have w: "s8 (s8 n) = s8 n" "s16 (s16 n) = s16 n" "s32 (s32 n) = s32 n" for n
    using s8_range [of n] s16_range [of n] s32_range [of n] by simp_all
  show ?thesis
    using assms L_num b s i d w
    by (auto simp: flat_scalar_def scan_scalar_def enum_types split: if_splits)
next
  case (L_str b)
  then have "s16 (int (length b)) = int (length b)"
    using assms by (auto simp: flat_scalar_def legal_len_def split: if_splits)
  then show ?thesis
    using assms L_str by (auto simp: flat_scalar_def scan_scalar_def enum_types split: if_splits)
qed (use assms in \<open>simp_all add: flat_scalar_def\<close>)

section \<open>The tables to fill\<close>

primrec tables_items ::
    "(int \<Rightarrow> nat \<Rightarrow> nat list option) \<Rightarrow> heap \<Rightarrow> proto_attr \<Rightarrow> nat \<Rightarrow> nat \<Rightarrow> int \<Rightarrow> nat list option" where
  "tables_items rec h pa a 0 j = Some []"
| "tables_items rec h pa a (Suc n) j = do {
     xs \<leftarrow> (if pa_next pa \<noteq> 0
       then (case h a (K_int (j + 1)) of L_table e \<Rightarrow> rec (pa_next pa) e | _ \<Rightarrow> None)
       else Some []);
     ys \<leftarrow> tables_items rec h pa a n (j + 1);
     Some (xs @ ys)
   }"

definition tables_attr ::
    "(int \<Rightarrow> nat \<Rightarrow> nat list option) \<Rightarrow> heap \<Rightarrow> proto_attr \<Rightarrow> lval \<Rightarrow> nat list option" where
  "tables_attr rec h pa v =
     (if pa_cnt pa < 2 then
        if pa_next pa \<noteq> 0 then (case v of L_table e \<Rightarrow> rec (pa_next pa) e | _ \<Rightarrow> None) else Some []
      else (case v of
          L_table a \<Rightarrow> map_option (Cons a) (tables_items rec h pa a (nat (pa_cnt pa)) 0)
        | _ \<Rightarrow> None))"

primrec tables_row ::
    "(int \<Rightarrow> nat \<Rightarrow> nat list option) \<Rightarrow> heap \<Rightarrow> nat \<Rightarrow> proto_attr list \<Rightarrow> nat list option" where
  "tables_row rec h r [] = Some []"
| "tables_row rec h r (pa # row) = do {
     xs \<leftarrow> tables_attr rec h pa (h r (K_str (pa_name pa)));
     ys \<leftarrow> tables_row rec h r row;
     Some (xs @ ys)
   }"

primrec tables :: "nat \<Rightarrow> proto_parser \<Rightarrow> heap \<Rightarrow> int \<Rightarrow> nat \<Rightarrow> nat list option" where
  "tables 0 p h nodeid r = None"
| "tables (Suc k) p h nodeid r = map_option (Cons r) (tables_row (tables k p h) h r (row_of p nodeid))"

definition agree :: "nat list \<Rightarrow> heap \<Rightarrow> heap \<Rightarrow> bool" where
  "agree xs h h' \<longleftrightarrow> (\<forall>x \<in> set xs. h' x = h x)"

lemma agree_simps [simp]:
  "agree [] h h'"
  "agree (x # xs) h h' \<longleftrightarrow> h' x = h x \<and> agree xs h h'"
  "agree (xs @ ys) h h' \<longleftrightarrow> agree xs h h' \<and> agree ys h h'"
  by (auto simp: agree_def)

text \<open>
  A level of the template, in the three readings of it: \<open>tr\<close> lists tables, \<open>fr\<close> gives
  the fields and \<open>sr\<close> scans. The first two look only at the tables listed.
\<close>

definition local_below ::
    "(heap \<Rightarrow> int \<Rightarrow> nat \<Rightarrow> nat list option) \<Rightarrow> (heap \<Rightarrow> int \<Rightarrow> lval \<Rightarrow> field list option) \<Rightarrow> proto_attr \<Rightarrow>
     bool" where
  "local_below tr fr pa \<longleftrightarrow> (pa_next pa \<noteq> 0 \<longrightarrow>
     (\<forall>h h' e xs. tr h (pa_next pa) e = Some xs \<longrightarrow> agree xs h h' \<longrightarrow>
        tr h' (pa_next pa) e = Some xs \<and> fr h' (pa_next pa) (L_table e) = fr h (pa_next pa) (L_table e)))"

lemma local_belowD:
  assumes "local_below tr fr pa" "pa_next pa \<noteq> 0" "tr h (pa_next pa) e = Some xs" "agree xs h h'"
  shows "tr h' (pa_next pa) e = Some xs" "fr h' (pa_next pa) (L_table e) = fr h (pa_next pa) (L_table e)"
  using assms unfolding local_below_def by blast+

lemma local_items:
  assumes "local_below tr fr pa"
  shows "tables_items (tr h) h pa a n j = Some xs \<Longrightarrow> agree xs h h' \<Longrightarrow>
    (\<forall>i>j. pa_next pa \<noteq> 0 \<longrightarrow> h' a (K_int i) = h a (K_int i)) \<Longrightarrow>
    tables_items (tr h') h' pa a n j = Some xs"
proof (induction n arbitrary: j xs)
  case (Suc n)
  show ?case
  proof (cases "pa_next pa = 0")
    case False
    then obtain e us ys where e: "h a (K_int (j + 1)) = L_table e" "tr h (pa_next pa) e = Some us"
        "tables_items (tr h) h pa a n (j + 1) = Some ys" "xs = us @ ys"
      using Suc.prems(1) by (auto split: lval.splits Option.bind_splits)
    then show ?thesis
      using False Suc.IH [OF e(3)] Suc.prems(2,3) local_belowD(1) [OF assms False e(2)] by simp
  qed (use Suc in \<open>auto split: Option.bind_splits\<close>)
qed simp

lemma local_fields:
  assumes "local_below tr fr pa"
  shows "tables_items (tr h) h pa a n j = Some xs \<Longrightarrow> agree xs h h' \<Longrightarrow> h' a = h a \<Longrightarrow> m \<le> n \<Longrightarrow>
    flat_items c (fr h') h' pa a m j = flat_items c (fr h) h pa a m j"
proof (induction n arbitrary: m j xs)
  case (Suc n)
  show ?case
  proof (cases m)
    case (Suc k)
    show ?thesis
    proof (cases "pa_next pa = 0")
      case True
      then show ?thesis
        using Suc.IH [of "j + 1" xs k] Suc.prems \<open>m = Suc k\<close> by (auto split: Option.bind_splits)
    next
      case False
      then obtain e us ys where e: "h a (K_int (j + 1)) = L_table e" "tr h (pa_next pa) e = Some us"
          "tables_items (tr h) h pa a n (j + 1) = Some ys" "xs = us @ ys"
        using Suc.prems(1) by (auto split: lval.splits Option.bind_splits)
      then show ?thesis
        using False Suc.IH [OF e(3)] Suc.prems(2-4) \<open>m = Suc k\<close> local_belowD(2) [OF assms False e(2)]
        by simp
    qed
  qed simp
qed simp

lemma local_attr:
  assumes "local_below tr fr pa" "tables_attr (tr h) h pa v = Some xs" "agree xs h h'"
  shows "tables_attr (tr h') h' pa v = Some xs"
    and "flat_attr legal_len (fr h') h' pa v = flat_attr legal_len (fr h) h pa v"
proof -
  have "tables_attr (tr h') h' pa v = Some xs \<and>
    flat_attr legal_len (fr h') h' pa v = flat_attr legal_len (fr h) h pa v"
  proof (cases "pa_cnt pa < 2")
    case True
    show ?thesis
    proof (cases "pa_next pa = 0")
      case False
      then obtain e where e: "v = L_table e" "tr h (pa_next pa) e = Some xs"
        using True assms(2) by (auto simp: tables_attr_def split: lval.splits)
      show ?thesis
        using True False e(1) local_belowD [OF assms(1) False e(2) assms(3)]
        by (simp add: tables_attr_def flat_attr_def)
    qed (use True assms(2) in \<open>simp add: tables_attr_def flat_attr_def\<close>)
  next
    case False
    then obtain a ys where a: "v = L_table a" "xs = a # ys"
        "tables_items (tr h) h pa a (nat (pa_cnt pa)) 0 = Some ys"
      using assms(2) by (auto simp: tables_attr_def split: lval.splits)
    have "agree ys h h'" "h' a = h a" using assms(3) a(2) by simp_all
    then have "tables_items (tr h') h' pa a (nat (pa_cnt pa)) 0 = Some ys"
      "\<And>len. legal_len (pa_cnt pa) len \<Longrightarrow>
         flat_items legal_len (fr h') h' pa a (nat len) 0 = flat_items legal_len (fr h) h pa a (nat len) 0"
      using local_items [OF assms(1) a(3)] local_fields [OF assms(1) a(3)]
      by (simp_all add: legal_len_def nat_mono)
    then show ?thesis
      using False a \<open>h' a = h a\<close> by (simp add: tables_attr_def flat_attr_def Let_def split: lval.splits)
  qed
  then show "tables_attr (tr h') h' pa v = Some xs"
    "flat_attr legal_len (fr h') h' pa v = flat_attr legal_len (fr h) h pa v"
    by blast+
qed

lemma local_row:
  assumes "\<forall>pa \<in> set row. local_below tr fr pa"
  shows "tables_row (tr h) h r row = Some xs \<Longrightarrow> agree xs h h' \<Longrightarrow>
      (\<forall>pa \<in> set row. h' r (K_str (pa_name pa)) = h r (K_str (pa_name pa))) \<Longrightarrow>
      tables_row (tr h') h' r row = Some xs \<and>
      flat_row legal_len (fr h') h' r row = flat_row legal_len (fr h) h r row"
  using assms
proof (induction row arbitrary: xs)
  case (Cons pa row)
  obtain us ys where t: "tables_attr (tr h) h pa (h r (K_str (pa_name pa))) = Some us"
      "tables_row (tr h) h r row = Some ys" "xs = us @ ys"
    using Cons.prems(1) by (auto split: Option.bind_splits)
  then show ?case
    using Cons.IH [OF t(2)] Cons.prems(2-4) local_attr [of tr fr pa, OF _ t(1), of h'] by simp
qed simp

lemma local_tables:
  "tables k p h nodeid r = Some xs \<Longrightarrow> agree xs h h' \<Longrightarrow>
    tables k p h' nodeid r = Some xs \<and>
    flat legal_len k p h' nodeid (L_table r) = flat legal_len k p h nodeid (L_table r)"
proof (induction k arbitrary: nodeid r xs h h')
  case (Suc k)
  have b: "\<forall>pa \<in> set (row_of p nodeid). local_below (tables k p) (flat legal_len k p) pa"
    unfolding local_below_def using Suc.IH by blast
  obtain ys where ys: "xs = r # ys" "tables_row (tables k p h) h r (row_of p nodeid) = Some ys"
    using Suc.prems(1) by auto
  have same: "agree ys h h'" "h' r = h r" using Suc.prems(2) ys(1) by simp_all
  have "tables_row (tables k p h') h' r (row_of p nodeid) = Some ys \<and>
      flat_row legal_len (flat legal_len k p h') h' r (row_of p nodeid) =
      flat_row legal_len (flat legal_len k p h) h r (row_of p nodeid)"
    using local_row [OF b ys(2) same(1)] same(2) by simp
  then show ?case by (simp add: ys(1))
qed simp

section \<open>Scanning the fields of a value\<close>

definition scan_below ::
    "(heap \<Rightarrow> int \<Rightarrow> nat \<Rightarrow> nat list option) \<Rightarrow> (heap \<Rightarrow> int \<Rightarrow> lval \<Rightarrow> field list option) \<Rightarrow>
     (int \<Rightarrow> nat \<Rightarrow> field list \<Rightarrow> heap \<Rightarrow> (field list \<times> heap) option) \<Rightarrow> proto_attr \<Rightarrow> bool" where
  "scan_below tr fr sr pa \<longleftrightarrow> local_below tr fr pa \<and> (pa_next pa \<noteq> 0 \<longrightarrow>
     (\<forall>hs v fs h e xs rest. fr hs (pa_next pa) v = Some fs \<longrightarrow> tr h (pa_next pa) e = Some xs \<longrightarrow>
        distinct xs \<longrightarrow>
        (\<exists>h'. sr (pa_next pa) e (fs @ rest) h = Some (rest, h') \<and> (\<forall>x. x \<notin> set xs \<longrightarrow> h' x = h x) \<and>
           tr h' (pa_next pa) e = Some xs \<and> fr h' (pa_next pa) (L_table e) = Some fs)))"

lemma scan_belowD:
  assumes "scan_below tr fr sr pa" "pa_next pa \<noteq> 0" "fr hs (pa_next pa) v = Some fs"
    "tr h (pa_next pa) e = Some xs" "distinct xs"
  obtains h' where "sr (pa_next pa) e (fs @ rest) h = Some (rest, h')"
    "\<And>x. x \<notin> set xs \<Longrightarrow> h' x = h x" "tr h' (pa_next pa) e = Some xs"
    "fr h' (pa_next pa) (L_table e) = Some fs"
  using assms unfolding scan_below_def by blast

lemma put_key_simps [simp]:
  "put_key h r k v r k = v"
  "k' \<noteq> k \<Longrightarrow> put_key h r k v r k' = h r k'"
  "r' \<noteq> r \<Longrightarrow> put_key h r k v r' = h r'"
  by (simp_all add: put_key_def)

text \<open>
  What scanning may change: the tables \<open>xs\<close>, and of the table \<open>r\<close> the keys \<open>ks\<close>.
\<close>

definition changes :: "nat list \<Rightarrow> nat \<Rightarrow> lkey set \<Rightarrow> heap \<Rightarrow> heap \<Rightarrow> bool" where
  "changes xs r ks h h' \<longleftrightarrow>
     (\<forall>x. x \<noteq> r \<longrightarrow> x \<notin> set xs \<longrightarrow> h' x = h x) \<and> (\<forall>k. k \<notin> ks \<longrightarrow> h' r k = h r k)"

lemma changesD:
  assumes "changes xs r ks h h'"
  shows "x \<noteq> r \<Longrightarrow> x \<notin> set xs \<Longrightarrow> h' x = h x" "k \<notin> ks \<Longrightarrow> h' r k = h r k"
  using assms by (auto simp: changes_def)

lemma changes_agree:
  "changes xs r ks h h' \<Longrightarrow> r \<notin> set ys \<Longrightarrow> set xs \<inter> set ys = {} \<Longrightarrow> agree ys h h'"
  by (auto simp: changes_def agree_def)

lemma changes_refl: "changes xs r ks h h"
  by (simp add: changes_def)

lemma changes_trans:
  "changes xs r ks h h1 \<Longrightarrow> changes ys r ls h1 h2 \<Longrightarrow> changes (xs @ ys) r (ks \<union> ls) h h2"
  by (auto simp: changes_def)

lemma changes_mono: "changes xs r ks h h' \<Longrightarrow> set xs \<subseteq> set ys \<Longrightarrow> ks \<subseteq> ls \<Longrightarrow> changes ys r ls h h'"
  by (auto simp: changes_def)

lemma scan_items_fields:
  assumes "scan_below tr fr sr pa"
  shows "flat_items legal_len (fr hs) hs pa b n j = Some fs \<Longrightarrow>
    tables_items (tr h) h pa a N j = Some xs \<Longrightarrow> n \<le> N \<Longrightarrow> distinct (a # xs) \<Longrightarrow>
    \<exists>h'. scan_items sr pa a n j (fs @ rest) h = Some (rest, h') \<and>
      changes xs a (K_int ` {i. j < i}) h h' \<and> tables_items (tr h') h' pa a N j = Some xs \<and>
      flat_items legal_len (fr h') h' pa a n j = Some fs"
proof (induction n arbitrary: j fs N xs h)
  case 0
  then show ?case by (auto simp: changes_refl)
next
  case (Suc n)
  have loc: "local_below tr fr pa" using assms by (simp add: scan_below_def)
  obtain M where M: "N = Suc M" "n \<le> M" using Suc.prems(3) by (cases N) auto
  let ?v = "hs b (K_int (j + 1))"
  obtain f g where f: "(if pa_next pa \<noteq> 0 then fr hs (pa_next pa) ?v
        else flat_scalar legal_len (pa_type pa) ?v) = Some f"
      "flat_items legal_len (fr hs) hs pa b n (j + 1) = Some g" "fs = f @ g"
    using Suc.prems(1) by (auto simp: Let_def split: Option.bind_splits)
  obtain us ys where t: "(if pa_next pa \<noteq> 0 then (case h a (K_int (j + 1)) of
          L_table e \<Rightarrow> tr h (pa_next pa) e | _ \<Rightarrow> None) else Some []) = Some us"
      "tables_items (tr h) h pa a M (j + 1) = Some ys" "xs = us @ ys"
    using Suc.prems(2) M(1) by (auto split: Option.bind_splits)
  have d: "distinct (a # ys)" "a \<notin> set us" "set us \<inter> set ys = {}" "distinct us"
    using Suc.prems(4) t(3) by auto
  have later: "K_int ` {i. j + 1 < i} \<subseteq> K_int ` {i. j < i}" by auto
  show ?case
  proof (cases "pa_next pa = 0")
    case True
    obtain v' where v': "scan_scalar (pa_type pa) (f @ g @ rest) = Some (v', g @ rest)"
        "flat_scalar legal_len (pa_type pa) v' = Some f"
      using scalar_roundtrip f(1) True by (metis (full_types))
    let ?h = "put_key h a (K_int (j + 1)) v'"
    have c: "changes [] a (K_int ` {i. j < i}) h ?h" by (auto simp: changes_def put_key_def)
    have "tables_items (tr ?h) ?h pa a M (j + 1) = Some ys"
      by (rule local_items [OF loc t(2) changes_agree [OF c]]) (use d True in auto)
    from Suc.IH [OF f(2) this M(2) d(1)] obtain h' where
      h': "scan_items sr pa a n (j + 1) (g @ rest) ?h = Some (rest, h')"
        "changes ys a (K_int ` {i. j + 1 < i}) ?h h'" "tables_items (tr h') h' pa a M (j + 1) = Some ys"
        "flat_items legal_len (fr h') h' pa a n (j + 1) = Some g" by blast
    have "h' a (K_int (j + 1)) = v'" using changesD(2) [OF h'(2), of "K_int (j + 1)"] by auto
    moreover have "changes xs a (K_int ` {i. j < i}) h h'"
      by (rule changes_mono [OF changes_trans [OF c h'(2)]]) (use t(3) later in auto)
    ultimately show ?thesis using True M(1) f(3) t(1,3) v' h' by auto
  next
    case False
    obtain e where e: "h a (K_int (j + 1)) = L_table e" "tr h (pa_next pa) e = Some us"
      using False t(1) by (auto split: lval.splits)
    have fr: "fr hs (pa_next pa) ?v = Some f" using f(1) False by simp
    obtain h1 where h1: "sr (pa_next pa) e (f @ g @ rest) h = Some (g @ rest, h1)"
        "\<And>x. x \<notin> set us \<Longrightarrow> h1 x = h x" "tr h1 (pa_next pa) e = Some us"
        "fr h1 (pa_next pa) (L_table e) = Some f"
      by (rule scan_belowD [OF assms False fr e(2) d(4), where rest = "g @ rest"]) (rule that)
    have c: "changes us a {} h h1" "agree ys h h1" using h1(2) d by (auto simp: changes_def agree_def)
    have "tables_items (tr h1) h1 pa a M (j + 1) = Some ys"
      by (rule local_items [OF loc t(2) c(2)]) (use h1(2) d(2) in simp)
    from Suc.IH [OF f(2) this M(2) d(1)] obtain h' where
      h': "scan_items sr pa a n (j + 1) (g @ rest) h1 = Some (rest, h')"
        "changes ys a (K_int ` {i. j + 1 < i}) h1 h'" "tables_items (tr h') h' pa a M (j + 1) = Some ys"
        "flat_items legal_len (fr h') h' pa a n (j + 1) = Some g" by blast
    have a: "agree us h1 h'" using changes_agree [OF h'(2) d(2)] d(3) by blast
    have "h' a (K_int (j + 1)) = L_table e"
      using changesD(2) [OF h'(2), of "K_int (j + 1)"] h1(2) [OF d(2)] e(1) by auto
    moreover have "changes xs a (K_int ` {i. j < i}) h h'"
      by (rule changes_mono [OF changes_trans [OF c(1) h'(2)]]) (use t(3) later in auto)
    ultimately show ?thesis
      using False M(1) f(3) t(3) e(1) h1(1,4) h' local_belowD [OF loc False h1(3) a] by auto
  qed
qed

lemma scan_attr_fields:
  assumes "scan_below tr fr sr pa" "flat_attr legal_len (fr hs) hs pa v = Some fs"
    "tables_attr (tr h) h pa (h r (K_str (pa_name pa))) = Some xs" "distinct (r # xs)"
  shows "\<exists>h'. scan_attr sr pa r (fs @ rest) h = Some (rest, h') \<and>
    changes xs r {K_str (pa_name pa)} h h' \<and>
    tables_attr (tr h') h' pa (h' r (K_str (pa_name pa))) = Some xs \<and>
    flat_attr legal_len (fr h') h' pa (h' r (K_str (pa_name pa))) = Some fs"
proof -
  let ?k = "K_str (pa_name pa)"
  consider (scalar) "pa_cnt pa < 2" "pa_next pa = 0" | (nested) "pa_cnt pa < 2" "pa_next pa \<noteq> 0"
    | (array) "\<not> pa_cnt pa < 2" by blast
  then show ?thesis
  proof cases
    case scalar
    obtain v' where v': "scan_scalar (pa_type pa) (fs @ rest) = Some (v', rest)"
        "flat_scalar legal_len (pa_type pa) v' = Some fs"
      using scalar_roundtrip [of "pa_type pa" v fs rest] assms(2) scalar by (auto simp: flat_attr_def)
    have "changes xs r {?k} h (put_key h r ?k v')" by (simp add: changes_def put_key_def)
    then show ?thesis
      using scalar v' assms(3) by (auto simp: scan_attr_def tables_attr_def flat_attr_def)
  next
    case nested
    obtain e where e: "h r ?k = L_table e" "tr h (pa_next pa) e = Some xs"
      using nested assms(3) by (auto simp: tables_attr_def split: lval.splits)
    have fr: "fr hs (pa_next pa) v = Some fs" using nested assms(2) by (simp add: flat_attr_def)
    obtain h1 where h1: "sr (pa_next pa) e (fs @ rest) h = Some (rest, h1)"
        "\<And>x. x \<notin> set xs \<Longrightarrow> h1 x = h x" "tr h1 (pa_next pa) e = Some xs"
        "fr h1 (pa_next pa) (L_table e) = Some fs"
      by (rule scan_belowD [OF assms(1) nested(2) fr e(2), where rest = rest]) (use assms(4) in auto)
    have "h1 r = h r" using h1(2) assms(4) by simp
    moreover have "changes xs r {?k} h h1" using h1(2) assms(4) by (auto simp: changes_def)
    ultimately show ?thesis
      using nested e(1) h1 by (auto simp: scan_attr_def tables_attr_def flat_attr_def)
  next
    case array
    obtain b x len gs where w: "v = L_table b" "hs b (K_int 0) = L_num x"
        "len = s16 (double_to_int 32 x)" "legal_len (pa_cnt pa) len" "fs = F_short len # gs"
        "flat_items legal_len (fr hs) hs pa b (nat len) 0 = Some gs"
      using assms(2) array by (auto simp: flat_attr_def Let_def split: lval.splits if_splits)
    obtain a ys where t: "h r ?k = L_table a" "xs = a # ys"
        "tables_items (tr h) h pa a (nat (pa_cnt pa)) 0 = Some ys"
      using assms(3) array by (auto simp: tables_attr_def split: lval.splits)
    have d: "distinct (a # ys)" "r \<noteq> a" "r \<notin> set ys" using assms(4) t(2) by auto
    let ?h = "put_key h a (K_int 0) (L_num (double_of_int len))"
    have c: "changes [] a {K_int 0} h ?h" by (simp add: changes_def put_key_def)
    have loc: "local_below tr fr pa" using assms(1) by (simp add: scan_below_def)
    have ready: "tables_items (tr ?h) ?h pa a (nat (pa_cnt pa)) 0 = Some ys"
      by (rule local_items [OF loc t(3) changes_agree [OF c]]) (use d in auto)
    have "nat len \<le> nat (pa_cnt pa)" using w(4) by (simp add: legal_len_def nat_mono)
    from scan_items_fields [OF assms(1) w(6) ready this d(1)] obtain h' where
      h': "scan_items sr pa a (nat len) 0 (gs @ rest) ?h = Some (rest, h')"
        "changes ys a (K_int ` {i. 0 < i}) ?h h'"
        "tables_items (tr h') h' pa a (nat (pa_cnt pa)) 0 = Some ys"
        "flat_items legal_len (fr h') h' pa a (nat len) 0 = Some gs" by blast
    have k: "h' a (K_int 0) = L_num (double_of_int len)"
      using changesD(2) [OF h'(2), of "K_int 0"] by auto
    have r: "h' r = h r" using changesD(1) [OF h'(2) d(2,3)] d(2) by simp
    have len: "s16 (double_to_int 32 (double_of_int len)) = len"
    proof -
      have "- 32768 \<le> len" "len < 32768" using s16_range [of "double_to_int 32 x"] w(3) by simp_all
      then show ?thesis using double_to_of_int [of 32 len] by simp
    qed
    have "changes xs r {?k} h h'"
      using changes_trans [OF c h'(2)] r t(2) by (auto simp: changes_def)
    then show ?thesis
      using array w t h' k r len
      by (auto simp: scan_attr_def tables_attr_def flat_attr_def Let_def)
  qed
qed

lemma scan_row_fields:
  assumes "\<forall>pa \<in> set row. scan_below tr fr sr pa" "distinct (map pa_name row)"
  shows "flat_row legal_len (fr hs) hs q row = Some fs \<Longrightarrow> tables_row (tr h) h r row = Some xs \<Longrightarrow>
    distinct (r # xs) \<Longrightarrow>
    \<exists>h'. scan_row sr r row (fs @ rest) h = Some (rest, h') \<and>
      changes xs r (K_str ` pa_name ` set row) h h' \<and> tables_row (tr h') h' r row = Some xs \<and>
      flat_row legal_len (fr h') h' r row = Some fs"
  using assms
proof (induction row arbitrary: fs xs h)
  case Nil
  then show ?case by (auto simp: changes_refl)
next
  case (Cons pa row)
  let ?k = "K_str (pa_name pa)"
  have loc: "local_below tr fr pa" "\<forall>pa \<in> set row. local_below tr fr pa"
    using Cons.prems(4) by (auto simp: scan_below_def)
  obtain f g where f: "flat_attr legal_len (fr hs) hs pa (hs q ?k) = Some f"
      "flat_row legal_len (fr hs) hs q row = Some g" "fs = f @ g"
    using Cons.prems(1) by (auto split: Option.bind_splits)
  obtain us ys where t: "tables_attr (tr h) h pa (h r ?k) = Some us"
      "tables_row (tr h) h r row = Some ys" "xs = us @ ys"
    using Cons.prems(2) by (auto split: Option.bind_splits)
  have d: "distinct (r # us)" "distinct (r # ys)" "r \<notin> set us" "r \<notin> set ys" "set us \<inter> set ys = {}"
    using Cons.prems(3) t(3) by auto
  have names: "?k \<notin> K_str ` pa_name ` set row" using Cons.prems(5) by auto
  obtain h1 where h1: "scan_attr sr pa r (f @ g @ rest) h = Some (g @ rest, h1)"
      "changes us r {?k} h h1" "tables_attr (tr h1) h1 pa (h1 r ?k) = Some us"
      "flat_attr legal_len (fr h1) h1 pa (h1 r ?k) = Some f"
    using scan_attr_fields [of tr fr sr pa hs _ f h r us "g @ rest"] Cons.prems(4) f(1) t(1) d(1)
    by auto
  have "agree ys h h1" by (rule changes_agree [OF h1(2) d(4,5)])
  moreover have "\<forall>pb \<in> set row. h1 r (K_str (pa_name pb)) = h r (K_str (pa_name pb))"
    using changesD(2) [OF h1(2)] names by (auto simp: image_iff)
  ultimately have "tables_row (tr h1) h1 r row = Some ys" using local_row [OF loc(2) t(2)] by blast
  from Cons.IH [OF f(2) this d(2)] Cons.prems(4,5) obtain h' where
    h': "scan_row sr r row (g @ rest) h1 = Some (rest, h')"
      "changes ys r (K_str ` pa_name ` set row) h1 h'" "tables_row (tr h') h' r row = Some ys"
      "flat_row legal_len (fr h') h' r row = Some g" by auto
  have "agree us h1 h'" by (rule changes_agree [OF h'(2) d(3)]) (use d(5) in blast)
  note first = local_attr [OF loc(1) h1(3) this]
  have "h' r ?k = h1 r ?k" by (rule changesD(2) [OF h'(2) names])
  moreover have "changes xs r (K_str ` pa_name ` set (pa # row)) h h'"
    by (rule changes_mono [OF changes_trans [OF h1(2) h'(2)]]) (use t(3) in auto)
  ultimately show ?case using f(3) t(3) h1 h' first by auto
qed

text \<open>A template whose rows name each attribute once.\<close>

primrec names_once :: "nat \<Rightarrow> proto_parser \<Rightarrow> int \<Rightarrow> bool" where
  "names_once 0 p nodeid = True"
| "names_once (Suc k) p nodeid \<longleftrightarrow> distinct (map pa_name (row_of p nodeid)) \<and>
     (\<forall>pa \<in> set (row_of p nodeid). pa_next pa \<noteq> 0 \<longrightarrow> names_once k p (pa_next pa))"

lemma scan_fields:
  "names_once k p nodeid \<Longrightarrow> flat legal_len k p hs nodeid v = Some fs \<Longrightarrow>
    tables k p h nodeid r = Some xs \<Longrightarrow> distinct xs \<Longrightarrow>
    \<exists>h'. scan k p nodeid r (fs @ rest) h = Some (rest, h') \<and> (\<forall>x. x \<notin> set xs \<longrightarrow> h' x = h x) \<and>
      tables k p h' nodeid r = Some xs \<and> flat legal_len k p h' nodeid (L_table r) = Some fs"
proof (induction k arbitrary: nodeid hs v fs h r xs rest)
  case (Suc k)
  let ?row = "row_of p nodeid"
  have b: "\<forall>pa \<in> set ?row. scan_below (tables k p) (flat legal_len k p) (scan k p) pa"
  proof
    fix pa assume pa: "pa \<in> set ?row"
    have "local_below (tables k p) (flat legal_len k p) pa"
      unfolding local_below_def using local_tables by blast
    moreover have "names_once k p (pa_next pa)" if "pa_next pa \<noteq> 0" using Suc.prems(1) pa that by simp
    ultimately show "scan_below (tables k p) (flat legal_len k p) (scan k p) pa"
      unfolding scan_below_def using Suc.IH by blast
  qed
  obtain q where q: "flat_row legal_len (flat legal_len k p hs) hs q ?row = Some fs"
    using Suc.prems(2) by (auto split: lval.splits)
  obtain ys where ys: "xs = r # ys" "tables_row (tables k p h) h r ?row = Some ys"
    using Suc.prems(3) by auto
  have "distinct (map pa_name ?row)" using Suc.prems(1) by simp
  from scan_row_fields [OF b this q ys(2)] Suc.prems(4) ys(1) obtain h' where
    "scan_row (scan k p) r ?row (fs @ rest) h = Some (rest, h')"
    "changes ys r (K_str ` pa_name ` set ?row) h h'" "tables_row (tables k p h') h' r ?row = Some ys"
    "flat_row legal_len (flat legal_len k p h') h' r ?row = Some fs" by auto
  then show ?case using ys(1) by (auto simp: changes_def)
qed simp

section \<open>The fields of a legal value\<close>

definition any_below :: "(int \<Rightarrow> lval \<Rightarrow> field list option) \<Rightarrow> (int \<Rightarrow> lval \<Rightarrow> field list option) \<Rightarrow> bool" where
  "any_below frec grec \<longleftrightarrow>
     (\<forall>n v fs. frec n v = Some fs \<longrightarrow> grec n v = Some fs \<and> (\<forall>f \<in> set fs. field_valid f))"

lemma flat_scalar_any:
  "flat_scalar legal_len t v = Some fs \<Longrightarrow>
    flat_scalar any_len t v = Some fs \<and> (\<forall>f \<in> set fs. field_valid f)"
  by (cases v) (auto simp: flat_scalar_def legal_len_def any_len_def bytes_of_double_def s8_range
      s16_range s32_range split: if_splits)

lemma flat_items_any:
  assumes "any_below frec grec"
  shows "flat_items legal_len frec h pa a n j = Some fs \<Longrightarrow>
    flat_items any_len grec h pa a n j = Some fs \<and> (\<forall>f \<in> set fs. field_valid f)"
proof (induction n arbitrary: j fs)
  case (Suc n)
  let ?v = "h a (K_int (j + 1))"
  obtain x y where xy: "(if pa_next pa \<noteq> 0 then frec (pa_next pa) ?v
        else flat_scalar legal_len (pa_type pa) ?v) = Some x"
      "flat_items legal_len frec h pa a n (j + 1) = Some y" "fs = x @ y"
    using Suc.prems by (auto simp: Let_def split: Option.bind_splits)
  have "(if pa_next pa \<noteq> 0 then grec (pa_next pa) ?v else flat_scalar any_len (pa_type pa) ?v) = Some x \<and>
      (\<forall>f \<in> set x. field_valid f)"
    using xy(1) assms flat_scalar_any by (auto simp: any_below_def split: if_splits)
  then show ?case using Suc.IH [OF xy(2)] xy(3) by (auto simp: Let_def)
qed simp

lemma flat_attr_any:
  assumes "any_below frec grec" "flat_attr legal_len frec h pa v = Some fs"
  shows "flat_attr any_len grec h pa v = Some fs \<and> (\<forall>f \<in> set fs. field_valid f)"
proof (cases "pa_cnt pa < 2")
  case True
  then show ?thesis
    using assms flat_scalar_any by (auto simp: flat_attr_def any_below_def split: if_splits)
next
  case False
  obtain a x gs where "v = L_table a" "h a (K_int 0) = L_num x"
      "flat_items legal_len frec h pa a (nat (s16 (double_to_int 32 x))) 0 = Some gs"
      "fs = F_short (s16 (double_to_int 32 x)) # gs"
    using False assms(2) by (auto simp: flat_attr_def Let_def split: lval.splits if_splits)
  then show ?thesis
    using False flat_items_any [OF assms(1)] number_fields_valid(2)
    by (simp add: flat_attr_def Let_def any_len_def)
qed

lemma flat_row_any:
  assumes "any_below frec grec"
  shows "flat_row legal_len frec h r row = Some fs \<Longrightarrow>
    flat_row any_len grec h r row = Some fs \<and> (\<forall>f \<in> set fs. field_valid f)"
proof (induction row arbitrary: fs)
  case (Cons pa row)
  obtain x y where "flat_attr legal_len frec h pa (h r (K_str (pa_name pa))) = Some x"
      "flat_row legal_len frec h r row = Some y" "fs = x @ y"
    using Cons.prems by (auto split: Option.bind_splits)
  then show ?case using flat_attr_any [OF assms] Cons.IH by fastforce
qed simp

lemma flat_any:
  "flat legal_len k p h nodeid v = Some fs \<Longrightarrow>
    flat any_len k p h nodeid v = Some fs \<and> (\<forall>f \<in> set fs. field_valid f)"
proof (induction k arbitrary: nodeid v fs)
  case (Suc k)
  have "any_below (flat legal_len k p h) (flat any_len k p h)"
    using Suc.IH by (simp add: any_below_def)
  then show ?case using Suc.prems flat_row_any by (auto split: lval.splits)
qed simp

section \<open>Properties\<close>

text \<open>
  C7. Under a template whose types are known, the writer of a Lua value neither
  faults nor leaves the message buffer, for any value: it returns a status, which is 0
  exactly when every value the template asks for has its type. Then the message got the
  fields of the value in the order of the template, nested tables in place and
  arrays after their length, and the Lua stack and tables are as before.
\<close>

theorem proto_write_fields:
  assumes "lua_laws api view" "short_strings h" "template k p nodeid" "view s = (h, v # st)" "ms_ok m"
  shows "\<exists>ret m' e' s'. write_msg_dfs k api p nodeid m e s = Some (ret, m', e', s') \<and> ms_ok m' \<and>
    (case flat any_len k p h nodeid v of
       None \<Rightarrow> ret \<noteq> 0
     | Some fs \<Rightarrow> ret = 0 \<and> view s' = (h, v # st) \<and> put_all ms_write_field fs m = Some m')"
  using write_msg_wrote [OF assms] by (simp add: wrote_def)

text \<open>The rows of a template as lists, and an example of two nodes.\<close>

lemma row_of_list:
  assumes "pp_adj p (nat nodeid) = (\<lambda>i. if i < length row then row ! i else empty_attr)"
    "length row < 128" "\<forall>pa \<in> set row. pa_name pa \<noteq> []"
  shows "row_of p nodeid = row"
proof -
  let ?f = "\<lambda>i. if i < length row then row ! i else empty_attr"
  have "[0..<128] = [0..<length row] @ length row # [Suc (length row)..<128]"
    using assms(2) by (metis le_add_diff_inverse less_imp_le_nat plus_nat.add_0 upt_add_eq_append
        upt_conv_Cons zero_le)
  then have "map ?f [0..<128] = row @ empty_attr # map ?f [Suc (length row)..<128]"
    by (auto intro!: nth_equalityI)
  moreover have "takeWhile (\<lambda>pa. pa_name pa \<noteq> []) (row @ empty_attr # zs) = row" for zs
    using assms(3) by (simp add: takeWhile_append2 empty_attr_def)
  ultimately show ?thesis by (simp add: row_of_def assms(1))
qed

definition example_rows :: "nat \<Rightarrow> proto_attr list" where
  "example_rows n =
     (if n = 1 then [\<lparr>pa_type = enum_uint, pa_cnt = 1, pa_next = 0, pa_name = [97]\<rparr>,
        \<lparr>pa_type = 0, pa_cnt = 2, pa_next = 2, pa_name = [98]\<rparr>]
      else if n = 2 then [\<lparr>pa_type = enum_string, pa_cnt = 1, pa_next = 0, pa_name = [99]\<rparr>]
      else [])"

definition example_parser :: proto_parser where
  "example_parser = \<lparr>pp_adj = (\<lambda>n i. if i < length (example_rows n) then example_rows n ! i else empty_attr),
     pp_next_node_id = 4096, pp_err_name = []\<rparr>"

definition example_heap :: heap where
  "example_heap r k =
     (if r = 0 \<and> k = K_str [97] then L_num (double_of_int 7)
      else if r = 0 \<and> k = K_str [98] then L_table 1
      else if r = 1 \<and> k = K_int 0 then L_num (double_of_int 1)
      else if r = 1 \<and> k = K_int 1 then L_table 2
      else if r = 2 \<and> k = K_str [99] then L_str [72, 105]
      else if r = 10 \<and> k = K_str [98] then L_table 11
      else if r = 11 \<and> k = K_int 1 then L_table 12
      else if r = 11 \<and> k = K_int 2 then L_table 13
      else L_nil)"

lemma example_row:
  "row_of example_parser 1 = example_rows 1" "row_of example_parser 2 = example_rows 2"
  by (rule row_of_list; auto simp: example_parser_def example_rows_def fun_eq_iff)+

lemma example_template:
  "template (Suc (Suc 0)) example_parser 1" "names_once (Suc (Suc 0)) example_parser 1"
  "short_strings example_heap"
  by (simp_all add: example_row example_rows_def enum_types short_strings_def short_string_def
      example_heap_def)

lemma example_numbers:
  "double_to_int 64 (double_of_int 7) = 7" "double_to_int 32 (double_of_int 1) = 1"
  by (simp_all add: double_to_of_int)

lemma example_flat:
  "flat any_len (Suc (Suc 0)) example_parser example_heap 1 (L_table 0) =
    Some [F_int 7, F_short 1, F_short 2, F_string [72, 105]]"
  "flat legal_len (Suc (Suc 0)) example_parser example_heap 1 (L_table 0) =
    Some [F_int 7, F_short 1, F_short 2, F_string [72, 105]]"
  "flat any_len (Suc (Suc 0)) example_parser example_heap 1 (L_table 10) = None"
  by (simp_all add: example_row example_rows_def flat_attr_def flat_scalar_def enum_types
      example_heap_def example_numbers any_len_def legal_len_def)

lemma example_tables:
  "tables (Suc (Suc 0)) example_parser example_heap 1 10 = Some [10, 11, 12, 13]"
  by (simp add: example_row example_rows_def tables_attr_def enum_types example_heap_def
      numeral_2_eq_2)

theorem proto_write_fields_witness:
  "(\<exists>m' e'. write_msg_dfs (Suc (Suc 0)) lua_machine example_parser 1 (ms_fresh (replicate 16384 0) []) []
        (example_heap, [L_table 0]) = Some (0, m', e', example_heap, [L_table 0]) \<and>
      put_all ms_write_field [F_int 7, F_short 1, F_short 2, F_string [72, 105]]
        (ms_fresh (replicate 16384 0) []) = Some m') \<and>
   (\<exists>ret m' e' s'. write_msg_dfs (Suc (Suc 0)) lua_machine example_parser 1 (ms_fresh (replicate 16384 0) [])
        [] (example_heap, [L_table 10]) = Some (ret, m', e', s') \<and> ret \<noteq> 0)"
proof -
  note w = proto_write_fields [OF lua_machine_laws example_template(3,1) refl
      ms_fresh_ok [OF length_replicate], where st = "[]" and e = "[]"]
  show ?thesis using w [where v = "L_table 0"] w [where v = "L_table 10"]
    unfolding example_flat option.case by blast
qed

text \<open>
  C6. A Lua value that the writer accepts, with array lengths within the capacities of
  the template and strings that a length of two bytes can tell, is read back: the
  message it becomes, when it fits the receiver, is read whole into any tables of the
  template's form, which then hold a value with the same fields on the wire; the
  stack is as before, and no other table is touched.
\<close>

theorem proto_roundtrip:
  assumes "lua_laws api view" "short_strings h" "template k p nodeid" "names_once k p nodeid"
    "view s = (h, v # st)" "flat legal_len k p h nodeid v = Some fs"
    "length (concat (map field_bytes fs)) \<le> 512" "length junk = 16384" "length junk' = 512"
    "view s2 = (h2, L_table r # tail)" "tables k p h2 nodeid r = Some xs" "distinct xs"
  shows "\<exists>m e' s' mr s3 h3.
    write_msg_dfs k api p nodeid (ms_fresh junk fds) e s = Some (0, m, e', s') \<and>
    read_msg_dfs k api buf p nodeid (mr_of (ms_content m) junk') s2 = Some (True, mr, s3) \<and>
    mr_has_read_all mr \<and> view s3 = (h3, L_table r # tail) \<and> (\<forall>x. x \<notin> set xs \<longrightarrow> h3 x = h2 x) \<and>
    flat legal_len k p h3 nodeid (L_table r) = Some fs"
proof -
  have any: "flat any_len k p h nodeid v = Some fs" "\<forall>f \<in> set fs. field_valid f"
    using flat_any [OF assms(6)] by simp_all
  obtain m e' s' where m: "write_msg_dfs k api p nodeid (ms_fresh junk fds) e s = Some (0, m, e', s')"
      "put_all ms_write_field fs (ms_fresh junk fds) = Some m"
    using write_msg_wrote [OF assms(1-3,5) ms_fresh_ok [OF assms(8)], of fds e] any(1)
    by (auto simp: wrote_def)
  have "ms_content m = concat (map field_bytes fs)"
    using ms.put_all_content [OF ms_fresh_ok [OF assms(8)] any(2), of fds] m(2) assms(7)
    by (simp add: fit_all_fits)
  moreover have "0 \<le> mr_back (mr_of bs junk')" for bs by (simp add: mr_of_def)
  ultimately have held: "holds_fields (mr_of (ms_content m) junk') fs"
    using any(2) assms(7,9) mr_of_ok by (simp add: holds_fields_def mr_of_rest)
  obtain h3 where h3: "scan k p nodeid r fs h2 = Some ([], h3)"
      "\<forall>x. x \<notin> set xs \<longrightarrow> h3 x = h2 x" "flat legal_len k p h3 nodeid (L_table r) = Some fs"
    using scan_fields [OF assms(4,6,11,12), of "[]"] by auto
  obtain mr s3 where r:
      "read_msg_dfs k api buf p nodeid (mr_of (ms_content m) junk') s2 = Some (True, mr, s3)"
      "holds_fields mr []" "view s3 = (h3, L_table r # tail)"
    using read_msg_scans [OF assms(1,3,10) held, of buf] h3(1) by (auto simp: read_as_def)
  have "mr_has_read_all mr"
    using r(2) mr_rest_length [of mr] by (auto simp: holds_fields_def mr_has_read_all_def mr_ok_def)
  then show ?thesis using m(1) r(1,3) h3(2,3) by blast
qed

theorem proto_roundtrip_witness:
  "\<exists>m e' s' mr s3 h3.
    write_msg_dfs (Suc (Suc 0)) lua_machine example_parser 1 (ms_fresh (replicate 16384 0) []) []
      (example_heap, [L_table 0]) = Some (0, m, e', s') \<and>
    read_msg_dfs (Suc (Suc 0)) lua_machine (\<lambda>i. 0) example_parser 1
      (mr_of (ms_content m) (replicate 512 0)) (example_heap, [L_table 10, L_nil]) = Some (True, mr, s3) \<and>
    mr_has_read_all mr \<and> s3 = (h3, [L_table 10, L_nil]) \<and>
    flat legal_len (Suc (Suc 0)) example_parser h3 1 (L_table 10) =
      Some [F_int 7, F_short 1, F_short 2, F_string [72, 105]]"
  using proto_roundtrip [OF lua_machine_laws example_template(3,1,2) refl example_flat(2) _
      length_replicate length_replicate refl example_tables, where fds = "[]"
      and st = "[]" and e = "[]" and buf = "\<lambda>i. 0" and tail = "[L_nil]"]
  by (simp del: write_msg_dfs.simps read_msg_dfs.simps flat.simps) blast

text \<open>
  An unsigned attribute goes out as its 32 bits and is read as a signed integer: the
  fields are the same, the number in Lua is not.
\<close>

lemma uint_comes_back_negative:
  "flat_scalar legal_len enum_uint (L_num (double_of_int 3000000000)) = Some [F_int (- 1294967296)]"
  "scan_scalar enum_uint [F_int (- 1294967296)] = Some (L_num (double_of_int (- 1294967296)), [])"
proof -
  have "double_to_int 64 (double_of_int 3000000000) = 3000000000" by (rule double_to_of_int) simp_all
  moreover have "s32 3000000000 = - 1294967296" by code_simp
  ultimately show
    "flat_scalar legal_len enum_uint (L_num (double_of_int 3000000000)) = Some [F_int (- 1294967296)]"
    "scan_scalar enum_uint [F_int (- 1294967296)] = Some (L_num (double_of_int (- 1294967296)), [])"
    by (simp_all add: flat_scalar_def scan_scalar_def enum_types)
qed

end
