(* ===== verification/ProtoTemplate.thy ===== *)
theory ProtoTemplate
  imports ProtoWrite CString
begin

text \<open>
  How the parser gets its templates: \<open>template2tree_dfs\<close> (\<open>logic/proto_parser.h\<close>) turns a
  Lua table, given when the scripts start, into rows of \<open>adj\<close>. A row is
  a list of attributes, each a table with a name, a count and a type, which is a string or
  the table of a nested row. \<open>Inl\<close> is a call of \<open>exit\<close>; \<open>None\<close> is a Lua error or a fault;
  fuel as in the reader and the writer.
\<close>

section \<open>template2tree_dfs\<close>

definition adj_set :: "int \<Rightarrow> nat \<Rightarrow> proto_attr \<Rightarrow> proto_parser \<Rightarrow> proto_parser option" where
  "adj_set nodeid i pa p =
     (if 0 \<le> nodeid \<and> nodeid < 32768 \<and> i < 128
      then Some (p\<lparr>pp_adj := (pp_adj p)(nat nodeid := (pp_adj p (nat nodeid))(i := pa))\<rparr>)
      else None)"

text \<open>The types by name; any other string leaves the type as it is.\<close>

definition type_of_name :: "bytes \<Rightarrow> int option" where
  "type_of_name t =
     (if strcmp t [98, 121, 116, 101] = 0 then Some enum_byte
      else if strcmp t [115, 104, 111, 114, 116] = 0 then Some enum_short
      else if strcmp t [100, 111, 117, 98, 108, 101] = 0 then Some enum_double
      else if strcmp t [105, 110, 116] = 0 then Some enum_int
      else if strcmp t [117, 105, 110, 116] = 0 then Some enum_uint
      else if strcmp t [115, 116, 114, 105, 110, 103] = 0 then Some enum_string
      else None)"

text \<open>The name of the attribute whose table is on the stack; \<open>Inl\<close> when it has no legal length.\<close>

definition template_name ::
    "'s lua_api \<Rightarrow> int \<Rightarrow> nat \<Rightarrow> proto_parser \<Rightarrow> 's \<Rightarrow> (unit + proto_parser \<times> 's) option" where
  "template_name api nodeid i p s = do {
     s1 \<leftarrow> lua_rawgeti api s (-1) 1;
     n \<leftarrow> luaL_checklstring api s1 (-1);
     if length n < 1 then Some (Inl ())
     else if 64 \<le> length n then Some (Inl ())
     else do {
       pa \<leftarrow> attr_at p nodeid i;
       p1 \<leftarrow> adj_set nodeid i (pa\<lparr>pa_name := c_string n\<rparr>) p;
       s2 \<leftarrow> lua_pop api s1 1;
       Some (Inr (p1, s2))
     }
   }"

definition template_cnt ::
    "'s lua_api \<Rightarrow> int \<Rightarrow> nat \<Rightarrow> proto_parser \<Rightarrow> 's \<Rightarrow> (proto_parser \<times> 's) option" where
  "template_cnt api nodeid i p s = do {
     s1 \<leftarrow> lua_rawgeti api s (-1) 2;
     x \<leftarrow> luaL_checknumber api s1 (-1);
     pa \<leftarrow> attr_at p nodeid i;
     p1 \<leftarrow> adj_set nodeid i (pa\<lparr>pa_cnt := s16 (double_to_int 32 x)\<rparr>) p;
     s2 \<leftarrow> lua_pop api s1 1;
     Some (p1, s2)
   }"

text \<open>A string type: the value of entry 3 is on the stack.\<close>

definition template_leaf ::
    "'s lua_api \<Rightarrow> int \<Rightarrow> nat \<Rightarrow> proto_parser \<Rightarrow> 's \<Rightarrow> (proto_parser \<times> 's) option" where
  "template_leaf api nodeid i p s = do {
     pa \<leftarrow> attr_at p nodeid i;
     t \<leftarrow> luaL_checklstring api s (-1);
     (case type_of_name (c_string t) of
        None \<Rightarrow> do { p1 \<leftarrow> adj_set nodeid i (pa\<lparr>pa_next := 0\<rparr>) p; Some (p1, s) }
      | Some c \<Rightarrow> do {
          p1 \<leftarrow> adj_set nodeid i (pa\<lparr>pa_next := 0, pa_type := c\<rparr>) p;
          if c = enum_string then do {
            s1 \<leftarrow> lua_rawgeti api s (-2) 4;
            s2 \<leftarrow> lua_pop api s1 1;
            Some (p1, s2)
          }
          else Some (p1, s)
        })
   }"

text \<open>One attribute, whose table is on the stack; \<open>rec\<close> makes the row of a nested one.\<close>

definition template_attr ::
    "'s lua_api \<Rightarrow> (int \<Rightarrow> proto_parser \<Rightarrow> 's \<Rightarrow> (unit + proto_parser \<times> 's) option) \<Rightarrow>
     int \<Rightarrow> nat \<Rightarrow> proto_parser \<Rightarrow> 's \<Rightarrow> (unit + proto_parser \<times> 's) option" where
  "template_attr api rec nodeid i p s = do {
     r \<leftarrow> template_name api nodeid i p s;
     (case r of
        Inl _ \<Rightarrow> Some (Inl ())
      | Inr (p1, s1) \<Rightarrow> do {
          (p2, s2) \<leftarrow> template_cnt api nodeid i p1 s1;
          s3 \<leftarrow> lua_rawgeti api s2 (-1) 3;
          r1 \<leftarrow> (if lua_isstring api s3 (-1) then map_option Inr (template_leaf api nodeid i p2 s3)
                else if lua_istable api s3 (-1) then do {
                  pa \<leftarrow> attr_at p2 nodeid i;
                  let m = pp_next_node_id p2 + 1;
                  p3 \<leftarrow> adj_set nodeid i (pa\<lparr>pa_next := s16 m\<rparr>) (p2\<lparr>pp_next_node_id := m\<rparr>);
                  rec (s16 m) p3 s3
                }
                else Some (Inr (p2, s3)));
          (case r1 of
             Inl _ \<Rightarrow> Some (Inl ())
           | Inr (p4, s4) \<Rightarrow> do { s5 \<leftarrow> lua_pop api s4 1; Some (Inr (p4, s5)) })
        })
   }"

text \<open>The loop over a row from its \<open>i\<close>-th attribute on; \<open>n\<close> is \<open>128 - i\<close>.\<close>

primrec template_attrs ::
    "'s lua_api \<Rightarrow> (int \<Rightarrow> proto_parser \<Rightarrow> 's \<Rightarrow> (unit + proto_parser \<times> 's) option) \<Rightarrow>
     int \<Rightarrow> nat \<Rightarrow> nat \<Rightarrow> proto_parser \<Rightarrow> 's \<Rightarrow> (unit + proto_parser \<times> 's) option" where
  "template_attrs api rec nodeid 0 i p s = None"
| "template_attrs api rec nodeid (Suc n) i p s = do {
     s1 \<leftarrow> lua_rawgeti api s (-1) (int i + 1);
     if \<not> lua_istable api s1 (-1) then do { s2 \<leftarrow> lua_pop api s1 1; Some (Inr (p, s2)) }
     else if 128 \<le> i + 1 then Some (Inl ())
     else do {
       r \<leftarrow> template_attr api rec nodeid i p s1;
       (case r of
          Inl _ \<Rightarrow> Some (Inl ())
        | Inr (p1, s2) \<Rightarrow> do {
            s3 \<leftarrow> lua_pop api s2 1;
            template_attrs api rec nodeid n (i + 1) p1 s3
          })
     }
   }"

primrec template2tree_dfs ::
    "nat \<Rightarrow> 's lua_api \<Rightarrow> int \<Rightarrow> proto_parser \<Rightarrow> 's \<Rightarrow> (unit + proto_parser \<times> 's) option" where
  "template2tree_dfs 0 api nodeid p s = None"
| "template2tree_dfs (Suc k) api nodeid p s = do {
     pa \<leftarrow> attr_at p nodeid 0;
     if pa_name pa \<noteq> [] then Some (Inr (p, s))
     else do {
       r \<leftarrow> template_attrs api (template2tree_dfs k api) nodeid 128 0 p s;
       (case r of
          Inl _ \<Rightarrow> Some (Inl ())
        | Inr (p1, s1) \<Rightarrow> if lua_gettop api s \<noteq> lua_gettop api s1 then None else Some (Inr (p1, s1)))
     }
   }"

text \<open>\<open>msg_ex::register_template\<close>, the function of Lua.\<close>

definition ex_register_template ::
    "nat \<Rightarrow> 's lua_api \<Rightarrow> proto_parser \<Rightarrow> 's \<Rightarrow> (unit + proto_parser \<times> 's) option" where
  "ex_register_template k api p s = do {
     x \<leftarrow> luaL_checknumber api s 1;
     template2tree_dfs k api (double_to_int 32 x) p s
   }"

section \<open>What a template is\<close>

text \<open>
  The reference: a row of attributes, scalar ones and those with a row of their own.
  The rows of nested attributes are numbered in the order in which they are met.
\<close>

datatype tattr = Leaf bytes int int | Node bytes int "tattr list"

definition legal_name :: "bytes \<Rightarrow> bool" where
  "legal_name n \<longleftrightarrow> n \<noteq> [] \<and> length n < 64 \<and> 0 \<notin> set n"

fun nodes_row :: "tattr list \<Rightarrow> nat" and nodes :: "tattr \<Rightarrow> nat" where
  "nodes_row [] = 0"
| "nodes_row (a # as) = nodes a + nodes_row as"
| "nodes (Leaf n c t) = 0"
| "nodes (Node n c as) = Suc (nodes_row as)"

fun deep_row :: "nat \<Rightarrow> tattr list \<Rightarrow> bool" and deep :: "nat \<Rightarrow> tattr \<Rightarrow> bool" where
  "deep_row k [] = True"
| "deep_row k (a # as) = (deep k a \<and> deep_row k as)"
| "deep k (Leaf n c t) = True"
| "deep 0 (Node n c as) = False"
| "deep (Suc k) (Node n c as) = (length as < 128 \<and> deep_row k as)"

fun describes_row :: "heap \<Rightarrow> nat \<Rightarrow> nat \<Rightarrow> tattr list \<Rightarrow> bool" and describes :: "heap \<Rightarrow> nat \<Rightarrow> tattr \<Rightarrow> bool" where
  "describes_row h r i [] \<longleftrightarrow> type_of (h r (K_int (int i + 1))) \<noteq> LUA_TTABLE"
| "describes_row h r i (a # as) \<longleftrightarrow>
     (\<exists>t. h r (K_int (int i + 1)) = L_table t \<and> describes h t a) \<and> describes_row h r (i + 1) as"
| "describes h t (Leaf n c ty) \<longleftrightarrow> h t (K_int 1) = L_str n \<and> legal_name n \<and>
     (\<exists>x. h t (K_int 2) = L_num x \<and> s16 (double_to_int 32 x) = c) \<and>
     (\<exists>b. h t (K_int 3) = L_str b \<and> type_of_name b = Some ty \<and> 0 \<notin> set b)"
| "describes h t (Node n c as) \<longleftrightarrow> h t (K_int 1) = L_str n \<and> legal_name n \<and>
     (\<exists>x. h t (K_int 2) = L_num x \<and> s16 (double_to_int 32 x) = c) \<and>
     (\<exists>q. h t (K_int 3) = L_table q \<and> describes_row h q 0 as)"

text \<open>Row \<open>nd\<close> of the parser, from \<open>i\<close> on, is the row \<open>as\<close>; nested rows come after \<open>lo\<close>.\<close>

fun tree_row :: "(nat \<Rightarrow> nat \<Rightarrow> proto_attr) \<Rightarrow> nat \<Rightarrow> nat \<Rightarrow> tattr list \<Rightarrow> nat \<Rightarrow> bool"
  and tree_attr :: "(nat \<Rightarrow> nat \<Rightarrow> proto_attr) \<Rightarrow> proto_attr \<Rightarrow> tattr \<Rightarrow> nat \<Rightarrow> bool" where
  "tree_row adj nd i [] lo \<longleftrightarrow> pa_name (adj nd i) = []"
| "tree_row adj nd i (a # as) lo \<longleftrightarrow> tree_attr adj (adj nd i) a lo \<and> tree_row adj nd (i + 1) as (lo + nodes a)"
| "tree_attr adj pa (Leaf n c t) lo \<longleftrightarrow> pa = \<lparr>pa_type = t, pa_cnt = c, pa_next = 0, pa_name = n\<rparr>"
| "tree_attr adj pa (Node n c as) lo \<longleftrightarrow> pa_name pa = n \<and> pa_cnt pa = c \<and> pa_next pa = int lo + 1 \<and>
     tree_row adj (Suc lo) 0 as (Suc lo)"

lemma tree_cong:
  "(\<And>j. i \<le> j \<Longrightarrow> adj nd j = adj' nd j) \<Longrightarrow> (\<And>m. lo < m \<Longrightarrow> m \<le> lo + nodes_row as \<Longrightarrow> adj m = adj' m) \<Longrightarrow>
    tree_row adj nd i as lo = tree_row adj' nd i as lo"
  "(\<And>m. lo < m \<Longrightarrow> m \<le> lo + nodes a \<Longrightarrow> adj m = adj' m) \<Longrightarrow> tree_attr adj pa a lo = tree_attr adj' pa a lo"
proof (induction adj nd i as lo and adj pa a lo rule: tree_row_tree_attr.induct)
  case (4 adj pa n c as lo)
  then show ?case by simp
qed auto

section \<open>The loop\<close>

definition put_attr :: "nat \<Rightarrow> nat \<Rightarrow> proto_attr \<Rightarrow> proto_parser \<Rightarrow> proto_parser" where
  "put_attr nd i pa p = p\<lparr>pp_adj := (pp_adj p)(nd := (pp_adj p nd)(i := pa))\<rparr>"

lemma attr_access:
  "nd < 32768 \<Longrightarrow> i < 128 \<Longrightarrow> attr_at p (int nd) i = Some (pp_adj p nd i)"
  "nd < 32768 \<Longrightarrow> i < 128 \<Longrightarrow> adj_set (int nd) i pa p = Some (put_attr nd i pa p)"
  by (simp_all add: attr_at_def adj_set_def put_attr_def)

lemma put_attr_simps [simp]:
  "pp_adj (put_attr nd i pa p) nd i = pa" "pp_next_node_id (put_attr nd i pa p) = pp_next_node_id p"
  "m \<noteq> nd \<Longrightarrow> pp_adj (put_attr nd i pa p) m = pp_adj p m"
  "j \<noteq> i \<Longrightarrow> pp_adj (put_attr nd i pa p) nd j = pp_adj p nd j"
  "put_attr nd i pa (put_attr nd i pa' p) = put_attr nd i pa p"
  by (simp_all add: put_attr_def)

lemma entry_pushed:
  assumes "lua_laws api view" "view s = (h, L_table t # st)" "h t (K_int j) = v"
  obtains s1 where "lua_rawgeti api s (-1) j = Some s1" "view s1 = (h, v # L_table t # st)"
  using lua_laws_view(6) [OF assms(1,2), where i = "-1" and j = j] assms(3) by auto

lemma popped:
  assumes "lua_laws api view" "view s = (h, v # st)"
  obtains s1 where "lua_pop api s 1 = Some s1" "view s1 = (h, st)"
  using lua_laws_view(9) [OF assms, where k = 1] by auto

lemma template_name_ok:
  assumes "lua_laws api view" "view s = (h, L_table t # st)" "h t (K_int 1) = L_str n" "legal_name n"
    "nd < 32768" "i < 128"
  obtains s' where "template_name api (int nd) i p s = Some (Inr (put_attr nd i ((pp_adj p nd i)\<lparr>pa_name := n\<rparr>) p, s'))"
    "view s' = (h, L_table t # st)"
proof -
  obtain s1 where s1: "lua_rawgeti api s (-1) 1 = Some s1" "view s1 = (h, L_str n # L_table t # st)"
    using entry_pushed [OF assms(1-3)] .
  have c: "luaL_checklstring api s1 (-1) = Some n"
    using lua_laws_view(4) [OF assms(1) s1(2), where i = "-1"] by simp
  obtain s2 where s2: "lua_pop api s1 1 = Some s2" "view s2 = (h, L_table t # st)"
    using popped [OF assms(1) s1(2)] .
  have n: "n \<noteq> []" "length n < 64" "c_string n = n"
    using assms(4) by (auto simp: legal_name_def c_string_def takeWhile_eq_all_conv)
  then show ?thesis
    using s1(1) c s2(1) attr_access [OF assms(5,6)]
    by (intro that [OF _ s2(2)]) (simp add: template_name_def)
qed

lemma template_cnt_ok:
  assumes "lua_laws api view" "view s = (h, L_table t # st)" "h t (K_int 2) = L_num x" "nd < 32768" "i < 128"
  obtains s' where "template_cnt api (int nd) i p s =
      Some (put_attr nd i ((pp_adj p nd i)\<lparr>pa_cnt := s16 (double_to_int 32 x)\<rparr>) p, s')"
    "view s' = (h, L_table t # st)"
proof -
  obtain s1 where s1: "lua_rawgeti api s (-1) 2 = Some s1" "view s1 = (h, L_num x # L_table t # st)"
    using entry_pushed [OF assms(1-3)] .
  have c: "luaL_checknumber api s1 (-1) = Some x"
    using lua_laws_view(3) [OF assms(1) s1(2), where i = "-1"] by simp
  obtain s2 where s2: "lua_pop api s1 1 = Some s2" "view s2 = (h, L_table t # st)"
    using popped [OF assms(1) s1(2)] .
  show ?thesis
    using s1(1) c s2(1) attr_access [OF assms(4,5)] by (intro that [OF _ s2(2)]) (simp add: template_cnt_def)
qed

lemma template_leaf_ok:
  assumes "lua_laws api view" "view s = (h, L_str b # L_table t # st)" "type_of_name b = Some ty" "0 \<notin> set b"
    "nd < 32768" "i < 128"
  obtains s' where "template_leaf api (int nd) i p s =
      Some (put_attr nd i ((pp_adj p nd i)\<lparr>pa_next := 0, pa_type := ty\<rparr>) p, s')"
    "view s' = (h, L_str b # L_table t # st)"
proof -
  have b: "c_string b = b" using assms(4) by (auto simp: c_string_def takeWhile_eq_all_conv)
  have c: "luaL_checklstring api s (-1) = Some b"
    using lua_laws_view(4) [OF assms(1,2), where i = "-1"] by simp
  obtain s1 where s1: "lua_rawgeti api s (-2) 4 = Some s1" "view s1 = (h, h t (K_int 4) # L_str b # L_table t # st)"
    using lua_laws_view(6) [OF assms(1,2), where i = "-2" and j = 4] by auto
  obtain s2 where s2: "lua_pop api s1 1 = Some s2" "view s2 = (h, L_str b # L_table t # st)"
    using popped [OF assms(1) s1(2)] .
  note all = s2(1) s1(1) c b assms(3) attr_access [OF assms(5,6)]
  show ?thesis
  proof (cases "ty = enum_string")
    case True
    then show ?thesis using all by (intro that [OF _ s2(2)]) (simp add: template_leaf_def)
  next
    case False
    then show ?thesis using all by (intro that [OF _ assms(2)]) (simp add: template_leaf_def)
  qed
qed

text \<open>
  What a step leaves: the row (or one attribute) in its place, the next free number, and
  everything else as it was. \<open>lo\<close> is the last number given out before.
\<close>

definition rows_free :: "(nat \<Rightarrow> nat \<Rightarrow> proto_attr) \<Rightarrow> nat \<Rightarrow> bool" where
  "rows_free adj lo \<longleftrightarrow> (\<forall>m j. lo < m \<longrightarrow> pa_name (adj m j) = [])"

definition other_rows :: "proto_parser \<Rightarrow> nat \<Rightarrow> nat \<Rightarrow> nat \<Rightarrow> proto_parser \<Rightarrow> bool" where
  "other_rows p nd lo hi p' \<longleftrightarrow> pp_next_node_id p' = int hi \<and>
     (\<forall>m. m \<noteq> nd \<longrightarrow> \<not> (lo < m \<and> m \<le> hi) \<longrightarrow> pp_adj p' m = pp_adj p m)"

definition row_built ::
    "('s \<Rightarrow> heap \<times> lval list) \<Rightarrow> heap \<Rightarrow> lval list \<Rightarrow> proto_parser \<Rightarrow> nat \<Rightarrow> nat \<Rightarrow> tattr list \<Rightarrow> nat \<Rightarrow>
     (unit + proto_parser \<times> 's) option \<Rightarrow> bool" where
  "row_built view h st p nd i as lo r \<longleftrightarrow> (\<exists>p' s'. r = Some (Inr (p', s')) \<and> view s' = (h, st) \<and>
     tree_row (pp_adj p') nd i as lo \<and> other_rows p nd lo (lo + nodes_row as) p' \<and>
     (\<forall>j < i. pp_adj p' nd j = pp_adj p nd j))"

definition attr_built ::
    "('s \<Rightarrow> heap \<times> lval list) \<Rightarrow> heap \<Rightarrow> lval list \<Rightarrow> proto_parser \<Rightarrow> nat \<Rightarrow> nat \<Rightarrow> tattr \<Rightarrow> nat \<Rightarrow>
     (unit + proto_parser \<times> 's) option \<Rightarrow> bool" where
  "attr_built view h st p nd i a lo r \<longleftrightarrow> (\<exists>p' s'. r = Some (Inr (p', s')) \<and> view s' = (h, st) \<and>
     tree_attr (pp_adj p') (pp_adj p' nd i) a lo \<and> other_rows p nd lo (lo + nodes a) p' \<and>
     (\<forall>j. j \<noteq> i \<longrightarrow> pp_adj p' nd j = pp_adj p nd j))"

definition builder ::
    "('s \<Rightarrow> heap \<times> lval list) \<Rightarrow> heap \<Rightarrow> nat \<Rightarrow>
     (int \<Rightarrow> proto_parser \<Rightarrow> 's \<Rightarrow> (unit + proto_parser \<times> 's) option) \<Rightarrow> bool" where
  "builder view h k rec \<longleftrightarrow> (\<forall>nd as p s r st lo. view s = (h, L_table r # st) \<longrightarrow> describes_row h r 0 as \<longrightarrow>
     length as < 128 \<longrightarrow> deep_row k as \<longrightarrow> nd \<le> lo \<longrightarrow> lo + nodes_row as < 32768 \<longrightarrow>
     pp_next_node_id p = int lo \<longrightarrow> (\<forall>j. pa_name (pp_adj p nd j) = []) \<longrightarrow> rows_free (pp_adj p) lo \<longrightarrow>
     row_built view h (L_table r # st) p nd 0 as lo (rec (int nd) p s))"

lemma template_attr_leaf:
  assumes "lua_laws api view" "view s = (h, L_table t # st)" "describes h t (Leaf n c ty)"
    "nd < 32768" "i < 128" "pp_next_node_id p = int lo"
  shows "attr_built view h (L_table t # st) p nd i (Leaf n c ty) lo (template_attr api rec (int nd) i p s)"
proof -
  obtain x b where d: "h t (K_int 1) = L_str n" "legal_name n" "h t (K_int 2) = L_num x"
      "s16 (double_to_int 32 x) = c" "h t (K_int 3) = L_str b" "type_of_name b = Some ty" "0 \<notin> set b"
    using assms(3) by auto
  obtain s1 where s1: "template_name api (int nd) i p s = Some (Inr (put_attr nd i ((pp_adj p nd i)\<lparr>pa_name := n\<rparr>) p, s1))"
      "view s1 = (h, L_table t # st)"
    using template_name_ok [OF assms(1,2) d(1,2) assms(4,5)] .
  let ?p1 = "put_attr nd i ((pp_adj p nd i)\<lparr>pa_name := n\<rparr>) p"
  obtain s2 where s2: "template_cnt api (int nd) i ?p1 s1 = Some (put_attr nd i ((pp_adj ?p1 nd i)\<lparr>pa_cnt := c\<rparr>) ?p1, s2)"
      "view s2 = (h, L_table t # st)"
    using template_cnt_ok [OF assms(1) s1(2) d(3) assms(4,5)] unfolding d(4) .
  let ?p2 = "put_attr nd i ((pp_adj ?p1 nd i)\<lparr>pa_cnt := c\<rparr>) ?p1"
  obtain s3 where s3: "lua_rawgeti api s2 (-1) 3 = Some s3" "view s3 = (h, L_str b # L_table t # st)"
    using entry_pushed [OF assms(1) s2(2) d(5)] .
  obtain s4 where s4: "template_leaf api (int nd) i ?p2 s3 =
      Some (put_attr nd i ((pp_adj ?p2 nd i)\<lparr>pa_next := 0, pa_type := ty\<rparr>) ?p2, s4)"
      "view s4 = (h, L_str b # L_table t # st)"
    using template_leaf_ok [OF assms(1) s3(2) d(6,7) assms(4,5)] .
  obtain s5 where s5: "lua_pop api s4 1 = Some s5" "view s5 = (h, L_table t # st)"
    using popped [OF assms(1) s4(2)] .
  have i: "lua_isstring api s3 (-1)" using lua_laws_view(12) [OF assms(1) s3(2), where i = "-1"] by simp
  let ?p3 = "put_attr nd i ((pp_adj ?p2 nd i)\<lparr>pa_next := 0, pa_type := ty\<rparr>) ?p2"
  have "template_attr api rec (int nd) i p s = Some (Inr (?p3, s5))"
    using s1(1) s2(1) s3(1) s4(1) s5(1) i by (simp add: template_attr_def)
  then show ?thesis using s5(2) assms(6) by (auto simp: attr_built_def other_rows_def)
qed

lemma template_attr_node:
  assumes "lua_laws api view" "view s = (h, L_table t # st)" "describes h t (Node n c as)"
    "nd \<le> lo" "i < 128" "pp_next_node_id p = int lo" "lo + nodes (Node n c as) < 32768"
    "rows_free (pp_adj p) lo" "builder view h k rec" "deep (Suc k) (Node n c as)"
  shows "attr_built view h (L_table t # st) p nd i (Node n c as) lo (template_attr api rec (int nd) i p s)"
proof -
  have nd: "nd < 32768" using assms(4,7) by simp
  obtain x q where d: "h t (K_int 1) = L_str n" "legal_name n" "h t (K_int 2) = L_num x"
      "s16 (double_to_int 32 x) = c" "h t (K_int 3) = L_table q" "describes_row h q 0 as"
    using assms(3) by auto
  obtain s1 where s1: "template_name api (int nd) i p s = Some (Inr (put_attr nd i ((pp_adj p nd i)\<lparr>pa_name := n\<rparr>) p, s1))"
      "view s1 = (h, L_table t # st)"
    using template_name_ok [OF assms(1,2) d(1,2) nd assms(5)] .
  let ?p1 = "put_attr nd i ((pp_adj p nd i)\<lparr>pa_name := n\<rparr>) p"
  obtain s2 where s2: "template_cnt api (int nd) i ?p1 s1 = Some (put_attr nd i ((pp_adj ?p1 nd i)\<lparr>pa_cnt := c\<rparr>) ?p1, s2)"
      "view s2 = (h, L_table t # st)"
    using template_cnt_ok [OF assms(1) s1(2) d(3) nd assms(5)] unfolding d(4) .
  let ?p2 = "put_attr nd i ((pp_adj ?p1 nd i)\<lparr>pa_cnt := c\<rparr>) ?p1"
  obtain s3 where s3: "lua_rawgeti api s2 (-1) 3 = Some s3" "view s3 = (h, L_table q # L_table t # st)"
    using entry_pushed [OF assms(1) s2(2) d(5)] .
  have i: "\<not> lua_isstring api s3 (-1)" "lua_istable api s3 (-1)"
    using lua_laws_view(12,2) [OF assms(1) s3(2), where i = "-1"] by (simp_all add: lua_istable_def)
  let ?p3 = "put_attr nd i ((pp_adj ?p2 nd i)\<lparr>pa_next := int (Suc lo)\<rparr>) (?p2\<lparr>pp_next_node_id := int (Suc lo)\<rparr>)"
  have m: "s16 (pp_next_node_id ?p2 + 1) = int (Suc lo)" "pp_next_node_id ?p2 + 1 = int (Suc lo)"
    using assms(6,7) by simp_all
  have a3: "pp_adj ?p3 m = pp_adj p m" if "m \<noteq> nd" for m using that by (simp add: put_attr_def)
  have free: "\<forall>j. pa_name (pp_adj ?p3 (Suc lo) j) = []" "rows_free (pp_adj ?p3) (Suc lo)"
    using assms(4,8) a3 by (auto simp: rows_free_def)
  have "row_built view h (L_table q # L_table t # st) ?p3 (Suc lo) 0 as (Suc lo) (rec (int (Suc lo)) ?p3 s3)"
    using assms(7,9,10) s3(2) d(6) free by (auto simp: builder_def simp del: of_nat_Suc)
  then obtain p4 s4 where r: "rec (int (Suc lo)) ?p3 s3 = Some (Inr (p4, s4))"
      "view s4 = (h, L_table q # L_table t # st)" "tree_row (pp_adj p4) (Suc lo) 0 as (Suc lo)"
      "other_rows ?p3 (Suc lo) (Suc lo) (Suc lo + nodes_row as) p4"
    unfolding row_built_def by blast
  obtain s5 where s5: "lua_pop api s4 1 = Some s5" "view s5 = (h, L_table t # st)"
    using popped [OF assms(1) r(2)] .
  have "template_attr api rec (int nd) i p s = Some (Inr (p4, s5))"
    using s1(1) s2(1) s3(1) r(1) s5(1) i m attr_access [OF nd assms(5)]
    by (simp add: template_attr_def Let_def del: of_nat_Suc)
  moreover have row: "pp_adj p4 nd = pp_adj ?p3 nd"
    using r(4) assms(4) by (simp add: other_rows_def)
  moreover have "other_rows p nd lo (lo + nodes (Node n c as)) p4"
    using r(4) a3 by (auto simp: other_rows_def)
  ultimately show ?thesis using s5(2) r(3) by (simp add: attr_built_def)
qed

lemma template_attr_built:
  assumes "lua_laws api view" "view s = (h, L_table t # st)" "describes h t a"
    "nd \<le> lo" "i < 128" "pp_next_node_id p = int lo" "lo + nodes a < 32768"
    "rows_free (pp_adj p) lo" "\<And>j. k = Suc j \<Longrightarrow> builder view h j rec" "deep k a"
  shows "attr_built view h (L_table t # st) p nd i a lo (template_attr api rec (int nd) i p s)"
proof (cases a)
  case (Leaf n c ty)
  then show ?thesis using template_attr_leaf [OF assms(1,2), of n c ty nd i p lo rec] assms by simp
next
  case (Node n c as)
  then obtain j where "k = Suc j" using assms(10) by (cases k) auto
  then show ?thesis using template_attr_node [OF assms(1,2), of n c as nd lo i p j rec] assms Node by simp
qed

lemma template_attrs_built:
  assumes "lua_laws api view" "\<And>j. k = Suc j \<Longrightarrow> builder view h j rec"
  shows "view s = (h, L_table r # st) \<Longrightarrow> describes_row h r i as \<Longrightarrow> i + length as < 128 \<Longrightarrow> deep_row k as \<Longrightarrow>
    nd \<le> lo \<Longrightarrow> lo + nodes_row as < 32768 \<Longrightarrow> pp_next_node_id p = int lo \<Longrightarrow>
    (\<forall>j \<ge> i. pa_name (pp_adj p nd j) = []) \<Longrightarrow> rows_free (pp_adj p) lo \<Longrightarrow>
    row_built view h (L_table r # st) p nd i as lo (template_attrs api rec (int nd) (128 - i) i p s)"
proof (induction as arbitrary: s i p lo)
  case Nil
  let ?v = "h r (K_int (int i + 1))"
  have n: "128 - i = Suc (127 - i)" using Nil.prems(3) by simp
  obtain s1 where s1: "lua_rawgeti api s (-1) (int i + 1) = Some s1" "view s1 = (h, ?v # L_table r # st)"
    using entry_pushed [OF assms(1) Nil.prems(1) refl] .
  obtain s2 where s2: "lua_pop api s1 1 = Some s2" "view s2 = (h, L_table r # st)"
    using popped [OF assms(1) s1(2)] .
  have "\<not> lua_istable api s1 (-1)"
    using lua_laws_view(2) [OF assms(1) s1(2), where i = "-1"] Nil.prems(2) by (simp add: lua_istable_def)
  then have "template_attrs api rec (int nd) (128 - i) i p s = Some (Inr (p, s2))"
    using s1(1) s2(1) by (simp add: n)
  then show ?case using s2(2) Nil.prems(7,8) by (simp add: row_built_def other_rows_def)
next
  case (Cons a as)
  obtain t where t: "h r (K_int (int i + 1)) = L_table t" "describes h t a" using Cons.prems(2) by auto
  have n: "128 - i = Suc (128 - (i + 1))" using Cons.prems(3) by simp
  obtain s1 where s1: "lua_rawgeti api s (-1) (int i + 1) = Some s1" "view s1 = (h, L_table t # L_table r # st)"
    using entry_pushed [OF assms(1) Cons.prems(1) t(1)] .
  have "attr_built view h (L_table t # L_table r # st) p nd i a lo (template_attr api rec (int nd) i p s1)"
    using template_attr_built [OF assms(1) s1(2) t(2), of nd lo i p k rec] Cons.prems assms(2) by simp
  then obtain p1 s2 where a: "template_attr api rec (int nd) i p s1 = Some (Inr (p1, s2))"
      "view s2 = (h, L_table t # L_table r # st)" "tree_attr (pp_adj p1) (pp_adj p1 nd i) a lo"
      "other_rows p nd lo (lo + nodes a) p1" "\<forall>j. j \<noteq> i \<longrightarrow> pp_adj p1 nd j = pp_adj p nd j"
    unfolding attr_built_def by blast
  obtain s3 where s3: "lua_pop api s2 1 = Some s3" "view s3 = (h, L_table r # st)"
    using popped [OF assms(1) a(2)] .
  have "row_built view h (L_table r # st) p1 nd (i + 1) as (lo + nodes a)
      (template_attrs api rec (int nd) (128 - (i + 1)) (i + 1) p1 s3)"
  proof (rule Cons.IH [OF s3(2)])
    show "\<forall>j \<ge> i + 1. pa_name (pp_adj p1 nd j) = []" using a(5) Cons.prems(8) by simp
    show "rows_free (pp_adj p1) (lo + nodes a)"
      using a(4) Cons.prems(5,9) by (simp add: rows_free_def other_rows_def)
  qed (use Cons.prems a(4) in \<open>simp_all add: other_rows_def\<close>)
  then obtain p2 s4 where r: "template_attrs api rec (int nd) (128 - (i + 1)) (i + 1) p1 s3 = Some (Inr (p2, s4))"
      "view s4 = (h, L_table r # st)" "tree_row (pp_adj p2) nd (i + 1) as (lo + nodes a)"
      "other_rows p1 nd (lo + nodes a) (lo + nodes a + nodes_row as) p2" "\<forall>j < i + 1. pp_adj p2 nd j = pp_adj p1 nd j"
    unfolding row_built_def by blast
  have "lua_istable api s1 (-1)"
    using lua_laws_view(2) [OF assms(1) s1(2), where i = "-1"] by (simp add: lua_istable_def)
  then have run: "template_attrs api rec (int nd) (128 - i) i p s = Some (Inr (p2, s4))"
    using s1(1) a(1) s3(1) r(1) Cons.prems(3) by (simp add: n)
  have "tree_attr (pp_adj p2) (pp_adj p1 nd i) a lo"
    using tree_cong(2) [of lo a "pp_adj p1" "pp_adj p2" "pp_adj p1 nd i"] a(3) r(4) Cons.prems(5)
    by (simp add: other_rows_def)
  moreover have "other_rows p nd lo (lo + nodes_row (a # as)) p2"
    using a(4) r(4) by (auto simp: other_rows_def)
  ultimately show ?case using run r(2,3,5) a(5) by (simp add: row_built_def)
qed

lemma template2tree_level:
  assumes "lua_laws api view" "\<And>j. k = Suc j \<Longrightarrow> builder view h j (template2tree_dfs k api)"
  shows "builder view h k (template2tree_dfs (Suc k) api)"
  unfolding builder_def
proof (intro allI impI)
  fix nd as and p :: proto_parser and s r st lo
  assume a: "view s = (h, L_table r # st)" "describes_row h r 0 as" "length as < 128" "deep_row k as"
    "nd \<le> lo" "lo + nodes_row as < 32768" "pp_next_node_id p = int lo"
    "\<forall>j. pa_name (pp_adj p nd j) = []" "rows_free (pp_adj p) lo"
  have "row_built view h (L_table r # st) p nd 0 as lo
      (template_attrs api (template2tree_dfs k api) (int nd) 128 0 p s)"
    using template_attrs_built [OF assms a(1,2), where nd = nd and lo = lo and p = p] a(3-9) by simp
  then obtain p' s' where r: "template_attrs api (template2tree_dfs k api) (int nd) 128 0 p s = Some (Inr (p', s'))"
      "view s' = (h, L_table r # st)" "tree_row (pp_adj p') nd 0 as lo" "other_rows p nd lo (lo + nodes_row as) p'"
    unfolding row_built_def by blast
  have "lua_gettop api s = lua_gettop api s'"
    using lua_laws_view(1) [OF assms(1) a(1)] lua_laws_view(1) [OF assms(1) r(2)] by simp
  moreover have "attr_at p (int nd) 0 = Some (pp_adj p nd 0)" using a(5,6) by (simp add: attr_access)
  ultimately show "row_built view h (L_table r # st) p nd 0 as lo (template2tree_dfs (Suc k) api (int nd) p s)"
    using r a(8) by (simp add: row_built_def)
qed

lemma template2tree_builds:
  "lua_laws api view \<Longrightarrow> builder view h k (template2tree_dfs (Suc k) api)"
proof (induction k)
  case (Suc k)
  then show ?case using template2tree_level [of api view "Suc k" h] by (simp del: template2tree_dfs.simps)
qed (simp add: template2tree_level del: template2tree_dfs.simps)

section \<open>The templates of the reader and the writer\<close>

definition legal_attr :: "(tattr list \<Rightarrow> bool) \<Rightarrow> tattr \<Rightarrow> bool" where
  "legal_attr rec a = (case a of
     Leaf n c t \<Rightarrow> legal_name n \<and> 0 \<le> t \<and> t \<le> 5
   | Node n c as \<Rightarrow> legal_name n \<and> rec as)"

primrec legal_row :: "nat \<Rightarrow> tattr list \<Rightarrow> bool" where
  "legal_row 0 as \<longleftrightarrow> length as < 128 \<and> (\<forall>a \<in> set as. legal_attr (\<lambda>as. False) a)"
| "legal_row (Suc k) as \<longleftrightarrow> length as < 128 \<and> (\<forall>a \<in> set as. legal_attr (legal_row k) a)"

lemma type_of_name_range: "type_of_name b = Some t \<Longrightarrow> 0 \<le> t \<and> t \<le> 5"
  by (auto simp: type_of_name_def enum_types split: if_splits)

lemma describes_row_nth:
  "describes_row h r i as \<Longrightarrow> a \<in> set as \<Longrightarrow> \<exists>t. describes h t a"
  by (induction as arbitrary: i) auto

lemma deep_row_all: "deep_row k as \<longleftrightarrow> (\<forall>a \<in> set as. deep k a)"
  by (induction as) auto

lemma describes_legal:
  "describes_row h r i as \<Longrightarrow> deep_row k as \<Longrightarrow> length as < 128 \<Longrightarrow> legal_row k as"
proof (induction k arbitrary: r i as)
  case 0
  have "legal_attr (\<lambda>as. False) a" if "a \<in> set as" for a
    using describes_row_nth [OF 0(1) that] 0(2) that type_of_name_range
    by (cases a) (auto simp: deep_row_all legal_attr_def)
  then show ?case using 0(3) by simp
next
  case (Suc k)
  have "legal_attr (legal_row k) a" if a: "a \<in> set as" for a
  proof (cases a)
    case (Leaf n c t)
    then show ?thesis using describes_row_nth [OF Suc.prems(1) a] type_of_name_range
      by (auto simp: legal_attr_def)
  next
    case (Node n c sub)
    then obtain q where "describes_row h q 0 sub" "legal_name n"
      using describes_row_nth [OF Suc.prems(1) a] by auto
    moreover have "length sub < 128" "deep_row k sub"
      using Suc.prems(2) a Node by (auto simp: deep_row_all)
    ultimately show ?thesis using Suc.IH Node by (auto simp: legal_attr_def)
  qed
  then show ?case using Suc.prems(3) by simp
qed

lemma tree_row_nth:
  "tree_row adj nd i as lo \<Longrightarrow> j < length as \<Longrightarrow>
    \<exists>lo'. tree_attr adj (adj nd (i + j)) (as ! j) lo' \<and> lo' + nodes (as ! j) \<le> lo + nodes_row as"
proof (induction as arbitrary: i j lo)
  case (Cons a as)
  show ?case
  proof (cases j)
    case 0
    then show ?thesis using Cons.prems(1) by auto
  next
    case (Suc m)
    then obtain lo' where "tree_attr adj (adj nd (i + 1 + m)) (as ! m) lo'"
        "lo' + nodes (as ! m) \<le> lo + nodes a + nodes_row as"
      using Cons.IH [of "i + 1" "lo + nodes a" m] Cons.prems by auto
    then show ?thesis using Suc by (auto simp: add.assoc)
  qed
qed simp

lemma tree_row_end: "tree_row adj nd i as lo \<Longrightarrow> pa_name (adj nd (i + length as)) = []"
  by (induction as arbitrary: i lo) fastforce+

lemma takeWhile_stop: "\<forall>x \<in> set xs. P x \<Longrightarrow> \<not> P y \<Longrightarrow> takeWhile P (xs @ y # ys) = xs"
  by (simp add: takeWhile_append2)

lemma tree_row_of:
  assumes "tree_row (pp_adj p) nd 0 as lo" "\<forall>a \<in> set as. legal_attr rec a" "length as < 128"
  shows "row_of p (int nd) = map (pp_adj p nd) [0..<length as]"
proof -
  have "pa_name (pp_adj p nd j) \<noteq> []" if j: "j < length as" for j
  proof -
    obtain lo' where "tree_attr (pp_adj p) (pp_adj p nd j) (as ! j) lo'"
      using tree_row_nth [OF assms(1) j] by auto
    moreover have "legal_attr rec (as ! j)" using assms(2) j by simp
    ultimately show ?thesis by (cases "as ! j") (auto simp: legal_attr_def legal_name_def)
  qed
  moreover have "[0..<128] = [0..<length as] @ length as # [Suc (length as)..<128]"
    using assms(3) by (metis le_add_diff_inverse less_imp_le_nat plus_nat.add_0 upt_add_eq_append
        upt_conv_Cons zero_le)
  ultimately show ?thesis
    using tree_row_end [OF assms(1)] by (simp add: row_of_def takeWhile_stop del: upt_Suc)
qed

lemma tree_template:
  "tree_row (pp_adj p) nd 0 as lo \<Longrightarrow> legal_row k as \<Longrightarrow> nd \<le> lo \<Longrightarrow> lo + nodes_row as < 32768 \<Longrightarrow>
    template (Suc k) p (int nd)"
proof (induction k arbitrary: nd as lo)
  case 0
  then have row: "row_of p (int nd) = map (pp_adj p nd) [0..<length as]"
    using tree_row_of [OF 0(1), of "\<lambda>as. False"] by simp
  have "pa_next (pp_adj p nd j) = 0 \<and> 0 \<le> pa_type (pp_adj p nd j) \<and> pa_type (pp_adj p nd j) \<le> 5"
    if j: "j < length as" for j
  proof -
    have "legal_attr (\<lambda>as. False) (as ! j)" using 0(2) j by simp
    then show ?thesis using tree_row_nth [OF 0(1) j]
      by (cases "as ! j") (auto simp: legal_attr_def)
  qed
  then show ?case using 0 row by simp
next
  case (Suc k)
  then have row: "row_of p (int nd) = map (pp_adj p nd) [0..<length as]"
    using tree_row_of [OF Suc.prems(1), of "legal_row k"] by simp
  have "if pa_next (pp_adj p nd j) \<noteq> 0 then template (Suc k) p (pa_next (pp_adj p nd j))
      else 0 \<le> pa_type (pp_adj p nd j) \<and> pa_type (pp_adj p nd j) \<le> 5" if j: "j < length as" for j
  proof -
    obtain lo' where t: "tree_attr (pp_adj p) (pp_adj p nd j) (as ! j) lo'" "lo' + nodes (as ! j) \<le> lo + nodes_row as"
      using tree_row_nth [OF Suc.prems(1) j] by auto
    have l: "legal_attr (legal_row k) (as ! j)" using Suc.prems(2) j by simp
    show ?thesis
    proof (cases "as ! j")
      case (Leaf n c x)
      then show ?thesis using t(1) l by (simp add: legal_attr_def)
    next
      case (Node n c sub)
      then have "template (Suc k) p (int (Suc lo'))"
        using t l Suc.prems(4) Suc.IH [of "Suc lo'" sub "Suc lo'"] by (auto simp: legal_attr_def)
      then show ?thesis using Node t(1) by (simp add: algebra_simps del: template.simps)
    qed
  qed
  then show ?case using Suc.prems row by (simp del: template.simps add: template.simps(2) [of "Suc k"])
qed

section \<open>Properties\<close>

text \<open>
  C22. Registering a template: a table of the documented form, for an id whose row is
  free and below the numbers of nested rows, becomes rows of the parser that say the same,
  attribute by attribute, the nested ones in rows with new numbers. The stack is as before,
  no other row is touched, and the id then has a template, as the theorems on reading
  and writing messages ask for.
\<close>

theorem template_registers:
  assumes "lua_laws api view" "view s = (h, L_table r # st)" "describes_row h r 0 as"
    "length as < 128" "deep_row k as" "nd \<le> lo" "lo + nodes_row as < 32768"
    "pp_next_node_id p = int lo" "\<forall>j. pa_name (pp_adj p nd j) = []" "rows_free (pp_adj p) lo"
  shows "\<exists>p' s'. template2tree_dfs (Suc k) api (int nd) p s = Some (Inr (p', s')) \<and>
    view s' = (h, L_table r # st) \<and> tree_row (pp_adj p') nd 0 as lo \<and> template (Suc k) p' (int nd) \<and>
    other_rows p nd lo (lo + nodes_row as) p' \<and> rows_free (pp_adj p') (lo + nodes_row as)"
proof -
  obtain p' s' where r: "template2tree_dfs (Suc k) api (int nd) p s = Some (Inr (p', s'))"
      "view s' = (h, L_table r # st)" "tree_row (pp_adj p') nd 0 as lo" "other_rows p nd lo (lo + nodes_row as) p'"
    using template2tree_builds [OF assms(1), of h k, unfolded builder_def] assms(2-10)
    unfolding row_built_def by blast
  have "template (Suc k) p' (int nd)"
    by (rule tree_template [OF r(3) describes_legal [OF assms(3,5,4)] assms(6,7)])
  moreover have "rows_free (pp_adj p') (lo + nodes_row as)"
    using r(4) assms(6,10) by (simp add: rows_free_def other_rows_def)
  ultimately show ?thesis using r by blast
qed

text \<open>A template of a number and an array of rows with a string.\<close>

definition template_heap :: heap where
  "template_heap r k =
     (if r = 0 \<and> k = K_int 1 then L_table 1
      else if r = 0 \<and> k = K_int 2 then L_table 2
      else if r = 1 \<and> k = K_int 1 then L_str [97]
      else if r = 1 \<and> k = K_int 2 then L_num (double_of_int 1)
      else if r = 1 \<and> k = K_int 3 then L_str [117, 105, 110, 116]
      else if r = 2 \<and> k = K_int 1 then L_str [98]
      else if r = 2 \<and> k = K_int 2 then L_num (double_of_int 2)
      else if r = 2 \<and> k = K_int 3 then L_table 3
      else if r = 3 \<and> k = K_int 1 then L_table 4
      else if r = 4 \<and> k = K_int 1 then L_str [99]
      else if r = 4 \<and> k = K_int 2 then L_num (double_of_int 1)
      else if r = 4 \<and> k = K_int 3 then L_str [115, 116, 114, 105, 110, 103]
      else L_nil)"

theorem template_registers_witness:
  "\<exists>p' s'. template2tree_dfs (Suc (Suc 0)) lua_machine 1 proto_parser_init (template_heap, [L_table 0]) =
      Some (Inr (p', s')) \<and>
    tree_row (pp_adj p') 1 0 [Leaf [97] 1 enum_uint, Node [98] 2 [Leaf [99] 1 enum_string]] 4096"
proof -
  have n: "double_to_int 32 (double_of_int 1) = 1" "double_to_int 32 (double_of_int 2) = 2"
    by (simp_all add: double_to_of_int)
  have d: "describes_row template_heap 0 0 [Leaf [97] 1 enum_uint, Node [98] 2 [Leaf [99] 1 enum_string]]"
    by (simp add: template_heap_def legal_name_def n type_of_name_def enum_types LUA_TTABLE_def)
  have f: "\<forall>j. pa_name (pp_adj proto_parser_init 1 j) = []" "rows_free (pp_adj proto_parser_init) 4096"
    by (simp_all add: proto_parser_init_def empty_attr_def rows_free_def)
  have "deep_row (Suc 0) [Leaf [97] 1 enum_uint, Node [98] 2 [Leaf [99] 1 enum_string]]"
    "pp_next_node_id proto_parser_init = int 4096"
    by (simp_all add: proto_parser_init_def)
  from template_registers [OF lua_machine_laws refl d _ this(1) _ _ this(2) f, of "[]"]
  show ?thesis by (simp del: template2tree_dfs.simps tree_row.simps template.simps) blast
qed

text \<open>
  The numbers of nested rows start at 4097 and are not kept apart from the ids of the
  messages: an id whose row is already a nested one keeps that row, without a word.
\<close>

theorem template_id_taken:
  "template2tree_dfs (Suc k) api (int nd) p s = Some (Inr (p, s))"
  if "nd < 32768" "pa_name (pp_adj p nd 0) \<noteq> []"
  using that by (simp add: attr_access)

end
