(* ===== verification/MsgEx.thy ===== *)
theory MsgEx
  imports ThreadIo ProtoRoundTrip
begin

text \<open>
  The functions by which Lua sends messages to the clients (\<open>logic/msg_ex.cpp\<close>,
  \<open>logic/msg_ex.h\<close>): they take a message from the pool, write the Lua value into it under
  its template (\<open>proto_parser\<close>) and queue it for the gate thread, and \<open>read\<close>, by which
  the handler of a message gets it as a Lua table. The state is the gate, \<open>err_name\<close> of the
  parser and the state of Lua. A result \<open>None\<close> is an error raised inside a Lua function, or a
  fault; the errors that the functions raise themselves are \<open>Ex_error\<close>.
\<close>

datatype ex_result =
    Ex_done
  | Ex_full  \<comment> \<open>the pool is empty: a line in the log, nothing sent\<close>
  | Ex_error \<comment> \<open>\<open>luaL_error\<close>\<close>

type_synonym 's ex_state = "gate \<times> bytes \<times> 's"

section \<open>The functions\<close>

definition ex_proto_id :: "'s lua_api \<Rightarrow> 's \<Rightarrow> (int \<times> 's) option" where
  "ex_proto_id api s = do {
     s1 \<leftarrow> lua_rawgeti api s 1 1;
     x \<leftarrow> luaL_checknumber api s1 (-1);
     s2 \<leftarrow> lua_pop api s1 1;
     Some (double_to_int 32 x, s2)
   }"

text \<open>The message in the pool after the parser, freed if that failed.\<close>

definition ex_give_back :: "nat \<Rightarrow> msg_send \<Rightarrow> gate \<Rightarrow> gate" where
  "ex_give_back i m g = g\<lparr>g_send_mem := (g_send_mem g)(i := m), g_send_pool := snd (mp_free i (g_send_pool g))\<rparr>"

definition ex_push :: "nat \<Rightarrow> msg_send \<Rightarrow> gate \<Rightarrow> gate" where
  "ex_push i m g = g\<lparr>g_send_mem := (g_send_mem g)(i := m), g_q_send := snd (mq_push (Some i) (g_q_send g))\<rparr>"

definition ex_broadcast ::
    "nat \<Rightarrow> 's lua_api \<Rightarrow> proto_parser \<Rightarrow> 's ex_state \<Rightarrow> (ex_result \<times> 's ex_state) option" where
  "ex_broadcast k api p st = (case st of (g, e, s) \<Rightarrow>
     if \<not> lua_istable api s 1 then Some (Ex_error, g, e, s)
     else do {
       (proto_id, s1) \<leftarrow> ex_proto_id api s;
       (case mp_alloc (g_send_pool g) of
          (None, pool) \<Rightarrow> Some (Ex_full, g\<lparr>g_send_pool := pool\<rparr>, e, s1)
        | (Some i, pool) \<Rightarrow> do {
            let g1 = g\<lparr>g_send_pool := pool\<rparr>;
            let m = (g_send_mem g1 i)\<lparr>ms_buf_len := 0, ms_id := s16 proto_id\<rparr>;
            (ret, m1, e1, s2) \<leftarrow> write_msg_dfs k api p proto_id m e s1;
            if ret \<noteq> 0 then Some (Ex_error, ex_give_back i m1 g1, e1, s2)
            else Some (Ex_done, ex_push i (m1\<lparr>ms_fds_len := - 1\<rparr>) g1, e1, s2)
          })
     })"

definition ex_unicast ::
    "nat \<Rightarrow> 's lua_api \<Rightarrow> proto_parser \<Rightarrow> 's ex_state \<Rightarrow> (ex_result \<times> 's ex_state) option" where
  "ex_unicast k api p st = (case st of (g, e, s) \<Rightarrow>
     if lua_type api s 2 = 0 then Some (Ex_done, g, e, s)
     else do {
       x \<leftarrow> luaL_checknumber api s 2;
       let fd = s16 (double_to_int 32 x);
       s0 \<leftarrow> lua_pop api s 1;
       if \<not> lua_istable api s0 1 then Some (Ex_error, g, e, s0)
       else do {
         (proto_id, s1) \<leftarrow> ex_proto_id api s0;
         (case mp_alloc (g_send_pool g) of
            (None, pool) \<Rightarrow> Some (Ex_full, g\<lparr>g_send_pool := pool\<rparr>, e, s1)
          | (Some i, pool) \<Rightarrow> do {
              let g1 = g\<lparr>g_send_pool := pool\<rparr>;
              let m = (g_send_mem g1 i)\<lparr>ms_buf_len := 0, ms_id := s16 proto_id\<rparr>;
              (ret, m1, e1, s2) \<leftarrow> write_msg_dfs k api p proto_id m e s1;
              if ret \<noteq> 0 then Some (Ex_error, ex_give_back i m1 g1, e1, s2)
              else do {
                m2 \<leftarrow> ms_push_fd fd (m1\<lparr>ms_fds_len := 0\<rparr>);
                Some (Ex_done, ex_push i m2 g1, e1, s2)
              }
            })
       }
     })"

text \<open>
  The receivers of a multicast, from entry \<open>i\<close> of the table on, \<open>n\<close> of them: \<open>Inl\<close> when one
  is not a number.
\<close>

primrec ex_fds :: "'s lua_api \<Rightarrow> nat \<Rightarrow> int \<Rightarrow> msg_send \<Rightarrow> 's \<Rightarrow> (msg_send \<times> 's + msg_send \<times> 's) option" where
  "ex_fds api 0 i m s = Some (Inr (m, s))"
| "ex_fds api (Suc n) i m s = do {
     s1 \<leftarrow> lua_rawgeti api s 2 i;
     if lua_type api s1 (-1) \<noteq> LUA_TNUMBER then Some (Inl (m, s1))
     else do {
       x \<leftarrow> luaL_checknumber api s1 (-1);
       m1 \<leftarrow> ms_push_fd (double_to_int 32 x) m;
       s2 \<leftarrow> lua_pop api s1 1;
       ex_fds api n (i + 1) m1 s2
     }
   }"

definition ex_multicast ::
    "nat \<Rightarrow> 's lua_api \<Rightarrow> proto_parser \<Rightarrow> 's ex_state \<Rightarrow> (ex_result \<times> 's ex_state) option" where
  "ex_multicast k api p st = (case st of (g, e, s) \<Rightarrow>
     if \<not> lua_istable api s 1 then Some (Ex_error, g, e, s)
     else do {
       (proto_id, s1) \<leftarrow> ex_proto_id api s;
       if \<not> lua_istable api s1 2 then Some (Ex_error, g, e, s1)
       else do {
         s2 \<leftarrow> lua_rawgeti api s1 2 0;
         x \<leftarrow> luaL_checknumber api s2 (-1);
         let fds_len = double_to_int 32 x;
         if fds_len = 0 then Some (Ex_done, g, e, s2)
         else do {
           s3 \<leftarrow> lua_pop api s2 1;
           (case mp_alloc (g_send_pool g) of
              (None, pool) \<Rightarrow> Some (Ex_full, g\<lparr>g_send_pool := pool\<rparr>, e, s3)
            | (Some i, pool) \<Rightarrow> do {
                let g1 = g\<lparr>g_send_pool := pool\<rparr>;
                r \<leftarrow> ex_fds api (nat fds_len) 1 ((g_send_mem g1 i)\<lparr>ms_fds_len := 0\<rparr>) s3;
                (case r of
                   Inl (m, s4) \<Rightarrow> Some (Ex_error, ex_give_back i m g1, e, s4)
                 | Inr (m, s4) \<Rightarrow> do {
                     s5 \<leftarrow> lua_pop api s4 1;
                     (ret, m1, e1, s6) \<leftarrow> write_msg_dfs k api p proto_id
                       (m\<lparr>ms_buf_len := 0, ms_id := s16 proto_id\<rparr>) e s5;
                     if ret \<noteq> 0 then Some (Ex_error, ex_give_back i m1 g1, e1, s6)
                     else Some (Ex_done, ex_push i m1 g1, e1, s6)
                   })
              })
         }
       }
     })"

text \<open>
  \<open>read\<close>: \<open>msg_read\<close> is the message \<open>r\<close> of the pool that \<open>handle_io\<close> has set. The result tells
  whether something is returned to Lua, \<open>true\<close> for a message that does not fit its template.
\<close>

definition ex_read ::
    "nat \<Rightarrow> 's lua_api \<Rightarrow> (nat \<Rightarrow> byte) \<Rightarrow> proto_parser \<Rightarrow> nat \<Rightarrow> gate \<times> 's \<Rightarrow> (bool \<times> gate \<times> 's) option" where
  "ex_read k api buf p r st = (case st of (g, s) \<Rightarrow> do {
     x \<leftarrow> luaL_checknumber api s 1;
     (ok, m, s1) \<leftarrow> read_msg_dfs k api buf p (double_to_int 32 x) (g_recv_mem g r) s;
     Some (\<not> (ok \<and> mr_has_read_all m), g\<lparr>g_recv_mem := (g_recv_mem g)(r := m)\<rparr>, s1)
   })"

section \<open>What the writer leaves alone\<close>

text \<open>The id and the receivers of a message.\<close>

definition same_head :: "msg_send \<Rightarrow> msg_send \<Rightarrow> bool" where
  "same_head m m' \<longleftrightarrow> ms_id m' = ms_id m \<and> ms_fds m' = ms_fds m \<and> ms_fds_len m' = ms_fds_len m"

lemma same_head_trans: "same_head m m1 \<Longrightarrow> same_head m1 m2 \<Longrightarrow> same_head m m2"
  by (simp add: same_head_def)

lemma same_head_refl [simp]: "same_head m m"
  by (simp add: same_head_def)

lemma ms_write_head:
  "ms_write_byte n m = Some m' \<Longrightarrow> same_head m m'"
  "ms_write_short n m = Some m' \<Longrightarrow> same_head m m'"
  "ms_write_int n m = Some m' \<Longrightarrow> same_head m m'"
  "ms_write_double d m = Some m' \<Longrightarrow> same_head m m'"
  "ms_write_string b k m = Some m' \<Longrightarrow> same_head m m'"
  by (auto simp: writer_defs same_head_def split: if_splits Option.bind_splits)

lemma write_number_head:
  assumes "\<And>x m m'. wr x m = Some m' \<Longrightarrow> same_head m m'"
    "write_number api wr name ret m e s = Some (r, m', e')"
  shows "same_head m m'"
  using assms by (auto simp: write_number_def split: if_splits Option.bind_splits)

lemma put_head:
  "put_byte x m = Some m' \<Longrightarrow> same_head m m'" "put_short x m = Some m' \<Longrightarrow> same_head m m'"
  "put_int x m = Some m' \<Longrightarrow> same_head m m'" "put_double x m = Some m' \<Longrightarrow> same_head m m'"
  by (auto simp: put_byte_def put_short_def put_int_def put_double_def intro: ms_write_head)

lemma write_text_head: "write_text api name ret m e s = Some (r, m', e') \<Longrightarrow> same_head m m'"
  by (auto simp: write_text_def Let_def split: if_splits Option.bind_splits
      intro: same_head_trans ms_write_head)

lemma write_one_head:
  "write_scalar api pa m e s = Some (r, m', e') \<Longrightarrow> same_head m m'"
  "write_element api pa m e s = Some (r, m', e') \<Longrightarrow> same_head m m'"
  by (auto simp: write_scalar_def write_element_def split: if_splits
      intro: write_number_head put_head write_text_head)

definition heads_kept ::
    "(int \<Rightarrow> msg_send \<Rightarrow> bytes \<Rightarrow> 's \<Rightarrow> (int \<times> msg_send \<times> bytes \<times> 's) option) \<Rightarrow> bool" where
  "heads_kept rec \<longleftrightarrow>
     (\<forall>n m e s r m' e' s'. rec n m e s = Some (r, m', e', s') \<longrightarrow> same_head m m')"

lemma heads_keptD: "heads_kept rec \<Longrightarrow> rec n m e s = Some (r, m', e', s') \<Longrightarrow> same_head m m'"
  unfolding heads_kept_def by blast

lemma write_items_head:
  assumes "heads_kept rec"
  shows "write_items api rec pa n j m e s = Some (r, m', e', s') \<Longrightarrow> same_head m m'"
proof (induction n arbitrary: j m e s)
  case (Suc n)
  then obtain s1 x where x: "(if pa_next pa \<noteq> 0 then rec (pa_next pa) m e s1
        else map_option (\<lambda>(r, m1, e1). (r, m1, e1, s1)) (write_element api pa m e s1)) = Some x"
      "(case x of (ret, m1, e1, s2) \<Rightarrow> if ret \<noteq> 0 then Some (ret, m1, e1, s2)
        else do { s3 \<leftarrow> lua_pop api s2 1; write_items api rec pa n (j + 1) m1 e1 s3 }) = Some (r, m', e', s')"
    by (auto simp only: write_items.simps bind_eq_Some_conv)
  obtain ret m1 e1 s2 where q: "x = (ret, m1, e1, s2)" by (cases x) auto
  note w = x(1) [unfolded q]
  have t: "m1 = m' \<or> (\<exists>s3. write_items api rec pa n (j + 1) m1 e1 s3 = Some (r, m', e', s'))"
    using x(2) q by (auto split: if_splits Option.bind_splits)
  have "same_head m m1" using w heads_keptD [OF assms] write_one_head(2) by (auto split: if_splits)
  then show ?case using t Suc.IH same_head_trans by blast
qed simp

lemma write_attr_head:
  assumes "heads_kept rec"
    "write_attr api rec pa m e s = Some (r, m', e', s')"
  shows "same_head m m'"
proof (cases "pa_cnt pa < 2")
  case True
  then show ?thesis
    using assms(2) write_one_head(1) heads_keptD [OF assms(1)]
    by (auto simp: write_attr_def split: if_splits Option.bind_splits)
next
  case False
  then have "m' = m \<or> (\<exists>len m1 n s2. ms_write_short len m = Some m1 \<and>
      write_items api rec pa n 0 m1 e s2 = Some (r, m', e', s'))"
    using assms(2) by (auto simp: write_attr_def Let_def split: if_splits Option.bind_splits)
  then show ?thesis
    using write_items_head [OF assms(1)] ms_write_head(2) same_head_trans same_head_refl by blast
qed

lemma write_attrs_head:
  assumes "heads_kept rec"
  shows "write_attrs api p rec nodeid n i m e s = Some (r, m', e', s') \<Longrightarrow> same_head m m'"
proof (induction n arbitrary: i m e s)
  case (Suc n)
  then have "m' = m \<or> (\<exists>pa s1 ret m1 e1 s2. write_attr api rec pa m e s1 = Some (ret, m1, e1, s2) \<and>
      (m1 = m' \<or> (\<exists>s3. write_attrs api p rec nodeid n (i + 1) m1 e1 s3 = Some (r, m', e', s'))))"
    by (auto split: Option.bind_splits if_splits) blast+
  then show ?case
    using write_attr_head [OF assms] Suc.IH same_head_trans same_head_refl by blast
qed simp

lemma write_msg_head: "write_msg_dfs k api p nodeid m e s = Some (r, m', e', s') \<Longrightarrow> same_head m m'"
proof (induction k arbitrary: nodeid m e s r m' e' s')
  case (Suc k)
  have k: "heads_kept (write_msg_dfs k api p)" using Suc.IH by (auto simp: heads_kept_def)
  from Suc.prems have "m' = m \<or> (\<exists>ret. write_attrs api p (write_msg_dfs k api p) nodeid 128 0 m e s = Some (ret, m', e', s'))"
    by (auto split: Option.bind_splits if_splits)
  then show ?case
    using write_attrs_head [OF k] same_head_refl by blast
qed simp

section \<open>Messages on their way\<close>

definition outbox_view :: "gate \<Rightarrow> msg_send list" where
  "outbox_view g = map (g_send_mem g) (mq_content (g_q_send g))"

lemma gate_ok_outbox: "gate_ok held held' g \<Longrightarrow> outbox_ok (g_send_pool g) (g_send_mem g) (g_q_send g) held'"
  by (simp add: gate_ok_def)

lemma ex_push_ok:
  assumes "gate_ok held held' g" "mp_alloc (g_send_pool g) = (Some i, pool)"
    "mq_size (g_q_send g) < mq_room (g_q_send g)" "send_ok m"
  shows "gate_ok held held' (ex_push i m (g\<lparr>g_send_pool := pool\<rparr>))"
    "outbox_view (ex_push i m (g\<lparr>g_send_pool := pool\<rparr>)) = outbox_view g @ [m]"
proof -
  note p = outbox_push [OF gate_ok_outbox [OF assms(1)] assms(2-4)]
  show "gate_ok held held' (ex_push i m (g\<lparr>g_send_pool := pool\<rparr>))"
    using p(1) assms(1) by (simp add: gate_ok_def ex_push_def)
  show "outbox_view (ex_push i m (g\<lparr>g_send_pool := pool\<rparr>)) = outbox_view g @ [m]"
    using p(2,3) by (simp add: outbox_view_def ex_push_def)
qed

lemma ex_give_back_ok:
  assumes "gate_ok held held' g" "mp_alloc (g_send_pool g) = (Some i, pool)" "send_ok m"
  shows "gate_ok held held' (ex_give_back i m (g\<lparr>g_send_pool := pool\<rparr>))"
    "outbox_view (ex_give_back i m (g\<lparr>g_send_pool := pool\<rparr>)) = outbox_view g"
proof -
  have ok: "mp_ok (g_send_pool g)" "mq_ok (g_q_send g)"
    "balanced (mp_avail (g_send_pool g)) (mp_ids (g_send_pool g)) [mq_content (g_q_send g)] held'"
    "\<forall>i. send_ok (g_send_mem g i)"
    using gate_ok_outbox [OF assms(1)] by (auto simp: outbox_ok_def)
  note a = mc.chan_alloc [OF ok(1,3) assms(2)]
  from mc.chan_release [OF a(1,3)] obtain p' where p': "mp_free i pool = (True, p')" "mp_ok p'"
    "balanced (mp_avail p') (mp_ids p') [mq_content (g_q_send g)] held'" by auto
  show "gate_ok held held' (ex_give_back i m (g\<lparr>g_send_pool := pool\<rparr>))"
    using p' ok assms(1,3) by (simp add: gate_ok_def ex_give_back_def outbox_ok_def)
  have "i \<notin> set (mq_content (g_q_send g))" using balanced_held(2) [OF a(3)] by simp
  then show "outbox_view (ex_give_back i m (g\<lparr>g_send_pool := pool\<rparr>)) = outbox_view g"
    by (simp add: outbox_view_def ex_give_back_def)
qed

text \<open>
  What becomes of a message: after the next \<open>cb_time\<close> every connection has received what was
  queued before, and then the frame, once for each time it is named.
\<close>

definition reaches :: "gate \<Rightarrow> int list \<Rightarrow> bytes \<Rightarrow> gate \<Rightarrow> bool" where
  "reaches g fds frame g' \<longleftrightarrow> (\<exists>g2. io_cb_time g' = Some g2 \<and> mq_content (g_q_send g2) = [] \<and>
     (\<forall>be b. g_bevs g be = Some b \<longrightarrow> ft_be (g_table g) (bv_fd b) = Some be \<longrightarrow>
        g_bevs g2 be = Some (b\<lparr>bv_out := bv_out b @ sent_bytes (g_table g) (bv_fd b) (outbox_view g) @
          concat (replicate (count_list fds (bv_fd b)) frame)\<rparr>)))"

definition receivers_ok :: "gate \<Rightarrow> bool" where
  "receivers_ok g \<longleftrightarrow> (\<forall>m \<in> set (outbox_view g). ms_fds_len m \<noteq> 0)"

lemma ex_push_reaches:
  assumes "gate_ok held held' g" "mp_alloc (g_send_pool g) = (Some i, pool)"
    "mq_size (g_q_send g) < mq_room (g_q_send g)" "send_ok m" "ms_fds_len m \<noteq> 0" "receivers_ok g"
  shows "reaches g (send_targets (g_table g) m) (server_frame (send_payload m))
    (ex_push i m (g\<lparr>g_send_pool := pool\<rparr>))"
proof -
  let ?g = "ex_push i m (g\<lparr>g_send_pool := pool\<rparr>)"
  note p = ex_push_ok [OF assms(1-4)]
  have "\<forall>m' \<in> set (outbox_view ?g). ms_fds_len m' \<noteq> 0"
    using assms(5,6) p(2) by (auto simp: receivers_ok_def)
  then have f: "\<forall>i \<in> set (mq_content (g_q_send ?g)). ms_fds_len (g_send_mem ?g i) \<noteq> 0"
    by (auto simp: outbox_view_def)
  have t: "g_table ?g = g_table g" "g_bevs ?g = g_bevs g" by (simp_all add: ex_push_def)
  obtain q pool1 where c: "io_cb_time ?g = Some (?g\<lparr>g_q_send := q,
      g_bevs := fold (time_send (g_table g)) (outbox_view g @ [m]) (g_bevs g), g_send_pool := pool1\<rparr>)"
      "mq_content q = []"
    using io_cb_time_spec [OF p(1) refl f] p(2) unfolding t outbox_view_def by auto
  have "fold (time_send (g_table g)) (outbox_view g @ [m]) (g_bevs g) be = map_option (\<lambda>b.
      if ft_be (g_table g) (bv_fd b) = Some be then b\<lparr>bv_out := bv_out b @ sent_bytes (g_table g) (bv_fd b)
        (outbox_view g @ [m])\<rparr> else b) (g_bevs g be)" for be
    by (rule fold_time_send)
  with c show ?thesis
    by (auto simp: reaches_def sent_bytes_def simp del: fold_append)
qed

lemma ex_alloc:
  assumes "gate_ok held held' g" "mp_avail (g_send_pool g) \<noteq> {}"
  obtains i pool where "mp_alloc (g_send_pool g) = (Some i, pool)" "send_ok (g_send_mem g i)"
  using mp.alloc_some [of "g_send_pool g"] gate_ok_outbox [OF assms(1)] assms(2)
  by (auto simp: outbox_ok_def)

section \<open>What Lua sees\<close>

lemma ex_proto_id_ok:
  assumes "lua_laws api view" "view s = (h, st)" "stack_at st 1 = Some (L_table r)" "h r (K_int 1) = L_num y"
  shows "\<exists>s'. ex_proto_id api s = Some (double_to_int 32 y, s') \<and> view s' = (h, st)"
proof -
  obtain s1 where s1: "lua_rawgeti api s 1 1 = Some s1" "view s1 = (h, L_num y # st)"
    using lua_laws_view(6) [OF assms(1-3), where j = 1] assms(4) by auto
  moreover have "luaL_checknumber api s1 (-1) = Some y"
    using lua_laws_view(3) [OF assms(1) s1(2), of "-1" y] by simp
  moreover obtain s2 where "lua_pop api s1 1 = Some s2" "view s2 = (h, st)"
    using lua_laws_view(9) [OF assms(1) s1(2), of 1] by auto
  ultimately show ?thesis by (simp add: ex_proto_id_def)
qed

lemma ex_write_ok:
  assumes "lua_laws api view" "short_strings h" "template k p nodeid" "view s = (h, v # st)"
    "flat legal_len k p h nodeid v = Some fs" "length (concat (map field_bytes fs)) \<le> 16384"
    "length (ms_buf m) = 16384" "ms_buf_len m = 0"
  shows "\<exists>m' e' s'. write_msg_dfs k api p nodeid m e s = Some (0, m', e', s') \<and> view s' = (h, v # st) \<and>
    same_head m m' \<and> ms_ok m' \<and> ms_content m' = concat (map field_bytes fs)"
proof -
  have m: "ms_ok m" "ms_content m = []" using assms(7,8) by (simp_all add: ms_ok_def ms_content_def)
  have any: "flat any_len k p h nodeid v = Some fs" "\<forall>f \<in> set fs. field_valid f"
    using flat_any [OF assms(5)] by simp_all
  obtain m' e' s' where w: "write_msg_dfs k api p nodeid m e s = Some (0, m', e', s')" "ms_ok m'"
      "view s' = (h, v # st)" "put_all ms_write_field fs m = Some m'"
    using write_msg_wrote [OF assms(1-4) m(1), of e] any(1) by (auto simp: wrote_def)
  moreover have "ms_content m' = concat (map field_bytes fs)"
    using ms.put_all_content [OF m(1) any(2)] w(4) m(2) assms(6) by (simp add: fit_all_fits)
  ultimately show ?thesis using write_msg_head [OF w(1)] by blast
qed

lemma ex_write_fails:
  assumes "lua_laws api view" "short_strings h" "template k p nodeid" "view s = (h, v # st)"
    "flat any_len k p h nodeid v = None" "length (ms_buf m) = 16384" "ms_buf_len m = 0"
  shows "\<exists>ret m' e' s'. write_msg_dfs k api p nodeid m e s = Some (ret, m', e', s') \<and> ret \<noteq> 0 \<and>
    same_head m m' \<and> ms_ok m'"
proof -
  have m: "ms_ok m" using assms(6,7) by (simp add: ms_ok_def)
  obtain ret m' e' s' where w: "write_msg_dfs k api p nodeid m e s = Some (ret, m', e', s')" "ms_ok m'" "ret \<noteq> 0"
    using write_msg_wrote [OF assms(1-4) m, of e] assms(5) by (auto simp: wrote_def)
  then show ?thesis using write_msg_head [OF w(1)] by blast
qed

lemma ms_ok_payload:
  "ms_ok m \<Longrightarrow> send_payload m = be_bytes 2 (int (length (ms_content m))) @ be_bytes 2 (ms_id m) @ ms_content m"
  by (simp add: send_payload_def ms_content_def ms_ok_def min_absorb2 nat_le_iff)

section \<open>Properties\<close>

text \<open>The frame a client gets: the length and the id before the fields.\<close>

definition message_frame :: "int \<Rightarrow> field list \<Rightarrow> bytes" where
  "message_frame mid fs = (let d = concat (map field_bytes fs)
     in server_frame (be_bytes 2 (int (length d)) @ be_bytes 2 mid @ d))"

text \<open>
  What the three functions ask for: a gate in order with a free message and room in its
  queue, whose messages have receivers, and as first argument a table with a known
  template and values of its types, no longer than a message.
\<close>

definition can_send :: "gate \<Rightarrow> bool" where
  "can_send g \<longleftrightarrow> (\<exists>held held'. gate_ok held held' g) \<and> receivers_ok g \<and>
     mp_avail (g_send_pool g) \<noteq> {} \<and> mq_size (g_q_send g) < mq_room (g_q_send g)"

definition message_of :: "nat \<Rightarrow> proto_parser \<Rightarrow> heap \<Rightarrow> nat \<Rightarrow> int \<Rightarrow> field list \<Rightarrow> bool" where
  "message_of k p h r mid fs \<longleftrightarrow> (\<exists>y. h r (K_int 1) = L_num y \<and> double_to_int 32 y = mid) \<and>
     template k p mid \<and> flat legal_len k p h mid (L_table r) = Some fs \<and>
     length (concat (map field_bytes fs)) \<le> 16384"

lemma can_sendE:
  assumes "can_send g"
  obtains held held' i pool where "gate_ok held held' g" "receivers_ok g"
    "mq_size (g_q_send g) < mq_room (g_q_send g)" "mp_alloc (g_send_pool g) = (Some i, pool)"
    "send_ok (g_send_mem g i)"
proof -
  obtain held held' where g: "gate_ok held held' g" "receivers_ok g" "mp_avail (g_send_pool g) \<noteq> {}"
      "mq_size (g_q_send g) < mq_room (g_q_send g)"
    using assms by (auto simp: can_send_def)
  obtain i pool where "mp_alloc (g_send_pool g) = (Some i, pool)" "send_ok (g_send_mem g i)"
    using g(1,3) by (rule ex_alloc)
  then show ?thesis using that g by blast
qed

lemma ex_message_written:
  assumes "lua_laws api view" "short_strings h" "view s = (h, L_table r # st)" "message_of k p h r mid fs" "send_ok m"
  shows "\<exists>m1 e1 s'. write_msg_dfs k api p mid (m\<lparr>ms_buf_len := 0, ms_id := s16 mid\<rparr>) e s = Some (0, m1, e1, s') \<and>
    view s' = (h, L_table r # st) \<and> send_ok m1 \<and> ms_fds m1 = ms_fds m \<and> ms_fds_len m1 = ms_fds_len m \<and>
    server_frame (send_payload m1) = message_frame (s16 mid) fs"
proof -
  let ?m = "m\<lparr>ms_buf_len := 0, ms_id := s16 mid\<rparr>"
  obtain m1 e1 s' where w: "write_msg_dfs k api p mid ?m e s = Some (0, m1, e1, s')"
      "view s' = (h, L_table r # st)" "same_head ?m m1" "ms_ok m1" "ms_content m1 = concat (map field_bytes fs)"
    using ex_write_ok [OF assms(1,2) _ assms(3), of k p mid fs ?m e] assms(4,5)
    by (auto simp: send_ok_def message_of_def)
  have "send_ok m1" using w(3,4) assms(5) by (auto simp: send_ok_def ms_ok_def same_head_def)
  then show ?thesis using w ms_ok_payload [OF w(4)]
    by (auto simp: same_head_def message_frame_def Let_def)
qed

lemma ex_push_fields:
  "ms_fds_len (m\<lparr>ms_fds := f, ms_fds_len := n\<rparr>) = n" "send_payload (m\<lparr>ms_fds := f, ms_fds_len := n\<rparr>) = send_payload m"
  "send_payload (m\<lparr>ms_fds_len := n\<rparr>) = send_payload m" "send_payload (m\<lparr>ms_fds := f\<rparr>) = send_payload m"
  by (simp_all add: send_payload_def)

lemma message_of_id:
  assumes "lua_laws api view" "view s = (h, st)" "stack_at st 1 = Some (L_table r)" "message_of k p h r mid fs"
  shows "\<exists>s'. ex_proto_id api s = Some (mid, s') \<and> view s' = (h, st)"
  using ex_proto_id_ok [OF assms(1-3)] assms(4) by (auto simp: message_of_def)

lemma table_argument:
  assumes "lua_laws api view" "view s = (h, st)" "stack_at st i = Some (L_table r)"
  shows "lua_istable api s i"
  using lua_laws_view(2) [OF assms] by (simp add: lua_istable_def)

lemma stack_bottom [simp]:
  "stack_at [v] 1 = Some v" "stack_at [w, v] 1 = Some v" "stack_at [w, v] 2 = Some w"
  "stack_at [u, w, v] 2 = Some w"
  by (simp_all add: stack_at_def load_def)

lemma ex_unicast_works:
  assumes "lua_laws api view" "short_strings h" "view s = (h, [L_num x, L_table r])"
    "message_of k p h r mid fs" "can_send g"
  shows "\<exists>g' e' s'. ex_unicast k api p (g, e, s) = Some (Ex_done, g', e', s') \<and> view s' = (h, [L_table r]) \<and>
    reaches g [s16 (double_to_int 32 x)] (message_frame (s16 mid) fs) g'"
proof -
  obtain held held' i pool where g: "gate_ok held held' g" "receivers_ok g"
    "mq_size (g_q_send g) < mq_room (g_q_send g)" "mp_alloc (g_send_pool g) = (Some i, pool)"
    "send_ok (g_send_mem g i)" using assms(5) by (rule can_sendE)
  have a: "lua_type api s 2 = LUA_TNUMBER" "luaL_checknumber api s 2 = Some x"
    using lua_laws_view(2,3) [OF assms(1,3), where i = 2] by simp_all
  obtain s0 where s0: "lua_pop api s 1 = Some s0" "view s0 = (h, [L_table r])"
    using lua_laws_view(9) [OF assms(1,3), where k = 1] by auto
  obtain s1 where s1: "ex_proto_id api s0 = Some (mid, s1)" "view s1 = (h, [L_table r])"
    using message_of_id [OF assms(1) s0(2) _ assms(4)] by auto
  obtain m e1 s2 where w:
      "write_msg_dfs k api p mid ((g_send_mem g i)\<lparr>ms_buf_len := 0, ms_id := s16 mid\<rparr>) e s1 = Some (0, m, e1, s2)"
      "view s2 = (h, [L_table r])" "send_ok m" "server_frame (send_payload m) = message_frame (s16 mid) fs"
    using ex_message_written [OF assms(1,2) s1(2) assms(4) g(5), of e] by blast
  let ?fd = "s16 (double_to_int 32 x)"
  let ?m = "m\<lparr>ms_fds := (ms_fds m)[0 := ?fd], ms_fds_len := 1\<rparr>"
  have push: "ms_push_fd ?fd (m\<lparr>ms_fds_len := 0\<rparr>) = Some ?m"
    using w(3) s16_range [of "double_to_int 32 x"] by (simp add: ms_push_fd_def mem_defs send_ok_def)
  have m: "send_ok ?m" "ms_fds_len ?m \<noteq> 0" "send_targets (g_table g) ?m = [?fd]"
    using w(3) by (auto simp: send_ok_def send_targets_def take_Suc_conv_app_nth)
  have "ex_unicast k api p (g, e, s) = Some (Ex_done, ex_push i ?m (g\<lparr>g_send_pool := pool\<rparr>), e1, s2)"
    using a s0(1) s1(1) g(4) w(1) push table_argument [OF assms(1) s0(2), of 1 r]
    by (simp add: ex_unicast_def Let_def LUA_TNUMBER_def)
  then show ?thesis
    using w(2,4) m(3) ex_push_reaches [OF g(1,4,3) m(1,2) g(2)] by (simp add: ex_push_fields)
qed

lemma ex_broadcast_works:
  assumes "lua_laws api view" "short_strings h" "view s = (h, [L_table r])"
    "message_of k p h r mid fs" "can_send g"
  shows "\<exists>g' e' s'. ex_broadcast k api p (g, e, s) = Some (Ex_done, g', e', s') \<and> view s' = (h, [L_table r]) \<and>
    reaches g (ft_members (g_table g)) (message_frame (s16 mid) fs) g'"
proof -
  obtain held held' i pool where g: "gate_ok held held' g" "receivers_ok g"
    "mq_size (g_q_send g) < mq_room (g_q_send g)" "mp_alloc (g_send_pool g) = (Some i, pool)"
    "send_ok (g_send_mem g i)" using assms(5) by (rule can_sendE)
  obtain s1 where s1: "ex_proto_id api s = Some (mid, s1)" "view s1 = (h, [L_table r])"
    using message_of_id [OF assms(1,3) _ assms(4)] by auto
  obtain m e1 s2 where w:
      "write_msg_dfs k api p mid ((g_send_mem g i)\<lparr>ms_buf_len := 0, ms_id := s16 mid\<rparr>) e s1 = Some (0, m, e1, s2)"
      "view s2 = (h, [L_table r])" "send_ok m" "server_frame (send_payload m) = message_frame (s16 mid) fs"
    using ex_message_written [OF assms(1,2) s1(2) assms(4) g(5), of e] by blast
  let ?m = "m\<lparr>ms_fds_len := - 1\<rparr>"
  have m: "send_ok ?m" "ms_fds_len ?m \<noteq> 0" "send_targets (g_table g) ?m = ft_members (g_table g)"
    using w(3) by (auto simp: send_ok_def send_targets_def)
  have "ex_broadcast k api p (g, e, s) = Some (Ex_done, ex_push i ?m (g\<lparr>g_send_pool := pool\<rparr>), e1, s2)"
    using table_argument [OF assms(1,3), of 1 r] s1(1) g(4) w(1) by (simp add: ex_broadcast_def Let_def)
  then show ?thesis
    using w(2,4) m(3) ex_push_reaches [OF g(1,4,3) m(1,2) g(2)] by (simp add: ex_push_fields)
qed

text \<open>The list of receivers as a Lua table: its length in entry 0, the descriptors from 1 on.\<close>

definition fd_entries :: "heap \<Rightarrow> nat \<Rightarrow> int \<Rightarrow> int list \<Rightarrow> bool" where
  "fd_entries h t i fds \<longleftrightarrow> (\<forall>j < length fds. \<exists>x. h t (K_int (i + int j)) = L_num x \<and> double_to_int 32 x = fds ! j)"

definition fd_list :: "heap \<Rightarrow> nat \<Rightarrow> int list \<Rightarrow> bool" where
  "fd_list h t fds \<longleftrightarrow> (\<exists>z. h t (K_int 0) = L_num z \<and> double_to_int 32 z = int (length fds)) \<and> fd_entries h t 1 fds"

lemma fd_entries_Cons:
  "fd_entries h t i (fd # fds) \<longleftrightarrow>
     (\<exists>x. h t (K_int i) = L_num x \<and> double_to_int 32 x = fd) \<and> fd_entries h t (i + 1) fds"
  unfolding fd_entries_def length_Cons All_less_Suc2 by (simp add: algebra_simps)

lemma ex_fds_works:
  assumes "lua_laws api view"
  shows "view s = (h, [L_table t, L_table r]) \<Longrightarrow> fd_entries h t i fds \<Longrightarrow> length (ms_fds m) = 2048 \<Longrightarrow>
    ms_fds_len m = int n \<Longrightarrow> n + length fds \<le> 2048 \<Longrightarrow>
    \<exists>m' s'. ex_fds api (length fds) i m s = Some (Inr (m', s')) \<and> view s' = (h, [L_table t, L_table r]) \<and>
      length (ms_fds m') = 2048 \<and> ms_fds_len m' = int (n + length fds) \<and>
      take (n + length fds) (ms_fds m') = take n (ms_fds m) @ map s16 fds \<and> length (ms_buf m') = length (ms_buf m)"
proof (induction fds arbitrary: s i m n)
  case (Cons fd fds)
  obtain x where x: "h t (K_int i) = L_num x" "double_to_int 32 x = fd" "fd_entries h t (i + 1) fds"
    using Cons.prems(2) by (auto simp: fd_entries_Cons)
  obtain s1 where s1: "lua_rawgeti api s 2 i = Some s1" "view s1 = (h, [L_num x, L_table t, L_table r])"
    using lua_laws_view(6) [OF assms Cons.prems(1), where i = 2 and j = i] x(1) by auto
  have c: "lua_type api s1 (-1) = LUA_TNUMBER" "luaL_checknumber api s1 (-1) = Some x"
    using lua_laws_view(2,3) [OF assms s1(2), where i = "-1"] by simp_all
  obtain s2 where s2: "lua_pop api s1 1 = Some s2" "view s2 = (h, [L_table t, L_table r])"
    using lua_laws_view(9) [OF assms s1(2), where k = 1] by auto
  let ?m = "m\<lparr>ms_fds := (ms_fds m)[n := s16 fd], ms_fds_len := int (Suc n)\<rparr>"
  have push: "ms_push_fd fd m = Some ?m"
    using Cons.prems(3-5) by (simp add: ms_push_fd_def mem_defs)
  obtain m' s' where r: "ex_fds api (length fds) (i + 1) ?m s2 = Some (Inr (m', s'))"
      "view s' = (h, [L_table t, L_table r])" "length (ms_fds m') = 2048"
      "ms_fds_len m' = int (Suc n + length fds)"
      "take (Suc n + length fds) (ms_fds m') = take (Suc n) (ms_fds ?m) @ map s16 fds"
      "length (ms_buf m') = length (ms_buf m)"
    using Cons.IH [OF s2(2) x(3), of ?m "Suc n"] Cons.prems(3,5) by auto
  have "take (Suc n) (ms_fds ?m) = take n (ms_fds m) @ [s16 fd]"
    using Cons.prems(3,5) by (simp add: take_Suc_conv_app_nth)
  then show ?case using s1(1) c s2(1) push x(2) r by simp
qed simp

lemma ex_multicast_works:
  assumes "lua_laws api view" "short_strings h" "view s = (h, [L_table t, L_table r])"
    "message_of k p h r mid fs" "can_send g" "fd_list h t fds" "fds \<noteq> []" "length fds \<le> 2048"
  shows "\<exists>g' e' s'. ex_multicast k api p (g, e, s) = Some (Ex_done, g', e', s') \<and> view s' = (h, [L_table r]) \<and>
    reaches g (map s16 fds) (message_frame (s16 mid) fs) g'"
proof -
  obtain held held' i pool where g: "gate_ok held held' g" "receivers_ok g"
    "mq_size (g_q_send g) < mq_room (g_q_send g)" "mp_alloc (g_send_pool g) = (Some i, pool)"
    "send_ok (g_send_mem g i)" using assms(5) by (rule can_sendE)
  obtain z where z: "h t (K_int 0) = L_num z" "double_to_int 32 z = int (length fds)" "fd_entries h t 1 fds"
    using assms(6) by (auto simp: fd_list_def)
  obtain s1 where s1: "ex_proto_id api s = Some (mid, s1)" "view s1 = (h, [L_table t, L_table r])"
    using message_of_id [OF assms(1,3) _ assms(4)] by auto
  obtain s2 where s2: "lua_rawgeti api s1 2 0 = Some s2" "view s2 = (h, [L_num z, L_table t, L_table r])"
    using lua_laws_view(6) [OF assms(1) s1(2), where i = 2 and j = 0] z(1) by auto
  have c: "luaL_checknumber api s2 (-1) = Some z"
    using lua_laws_view(3) [OF assms(1) s2(2), where i = "-1"] by simp
  obtain s3 where s3: "lua_pop api s2 1 = Some s3" "view s3 = (h, [L_table t, L_table r])"
    using lua_laws_view(9) [OF assms(1) s2(2), where k = 1] by auto
  obtain m0 s4 where f: "ex_fds api (length fds) 1 ((g_send_mem g i)\<lparr>ms_fds_len := 0\<rparr>) s3 = Some (Inr (m0, s4))"
      "view s4 = (h, [L_table t, L_table r])" "length (ms_fds m0) = 2048" "ms_fds_len m0 = int (length fds)"
      "take (length fds) (ms_fds m0) = map s16 fds" "length (ms_buf m0) = 16384"
    using ex_fds_works [OF assms(1) s3(2) z(3), of "(g_send_mem g i)\<lparr>ms_fds_len := 0\<rparr>" 0] g(5) assms(8)
    by (auto simp: send_ok_def)
  obtain s5 where s5: "lua_pop api s4 1 = Some s5" "view s5 = (h, [L_table r])"
    using lua_laws_view(9) [OF assms(1) f(2), where k = 1] by auto
  let ?m0 = "m0\<lparr>ms_buf_len := 0\<rparr>"
  have "send_ok ?m0" using f(3,4,6) assms(8) by (simp add: send_ok_def)
  from ex_message_written [OF assms(1,2) s5(2) assms(4) this, of e]
  obtain m e1 s6 where w: "write_msg_dfs k api p mid (m0\<lparr>ms_buf_len := 0, ms_id := s16 mid\<rparr>) e s5 = Some (0, m, e1, s6)"
      "view s6 = (h, [L_table r])" "send_ok m" "server_frame (send_payload m) = message_frame (s16 mid) fs"
      "ms_fds m = ms_fds m0" "ms_fds_len m = ms_fds_len m0"
    by auto
  have m: "ms_fds_len m \<noteq> 0" "send_targets (g_table g) m = map s16 fds"
    using w(5,6) f(4,5) assms(7) by (simp_all add: send_targets_def)
  have "ex_multicast k api p (g, e, s) = Some (Ex_done, ex_push i m (g\<lparr>g_send_pool := pool\<rparr>), e1, s6)"
    using table_argument [OF assms(1,3), of 1 r] table_argument [OF assms(1) s1(2), of 2 t]
      s1(1) s2(1) c z(2) s3(1) g(4) f(1) s5(1) w(1) assms(7)
    by (simp add: ex_multicast_def Let_def)
  then show ?thesis
    using w(2,4) m ex_push_reaches [OF g(1,4,3) w(3) m(1) g(2)] by simp
qed

text \<open>A table with a message of the example template and a list of two receivers.\<close>

definition example_send_heap :: heap where
  "example_send_heap = (put_key example_heap 0 (K_int 1) (L_num (double_of_int 1)))(40 :=
     (\<lambda>k. if k = K_int 0 then L_num (double_of_int 2) else if k = K_int 1 then L_num (double_of_int 5)
        else if k = K_int 2 then L_num (double_of_int 6) else L_nil))"

lemma example_message:
  "message_of (Suc (Suc 0)) example_parser example_send_heap 0 1 [F_int 7, F_short 1, F_short 2, F_string [72, 105]]"
proof -
  have "flat legal_len (Suc (Suc 0)) example_parser example_send_heap 1 (L_table 0) =
      Some [F_int 7, F_short 1, F_short 2, F_string [72, 105]]"
    by (simp add: example_row example_rows_def flat_attr_def flat_scalar_def enum_types
        example_heap_def example_numbers legal_len_def example_send_heap_def put_key_def)
  moreover have "example_send_heap 0 (K_int 1) = L_num (double_of_int 1)"
    by (simp add: example_send_heap_def put_key_def)
  moreover have "length (concat (map field_bytes [F_int 7, F_short 1, F_short 2, F_string [72, 105]])) \<le> 16384"
    by simp
  ultimately show ?thesis
    using example_template(1) example_numbers(2) unfolding message_of_def by blast
qed

lemma example_send_short: "short_strings example_send_heap"
  using example_template(3)
  by (auto simp: short_strings_def short_string_def example_send_heap_def put_key_def)

lemma sample_outbox: "outbox_view (sample_gate []) = []" "receivers_ok (sample_gate [])"
  by (simp_all add: receivers_ok_def outbox_view_def sample_gate_simps mq_init_content)

lemma sample_gate_can_send: "can_send (sample_gate [])"
proof -
  have "mp_avail (g_send_pool (sample_gate [])) \<noteq> {}"
    "mq_size (g_q_send (sample_gate [])) < mq_room (g_q_send (sample_gate []))"
    by (simp_all add: sample_gate_simps mp_avail_init lessThan_empty_iff mq_size_def mq_init_def
        ring_dist_def mq_room_def)
  then show ?thesis using sample_gate_ok [of 5 "[]"] sample_outbox(2) unfolding can_send_def by blast
qed

text \<open>
  C4. From Lua to the wire: a call of \<open>unicast\<close> with a table that has values of its
  template's types and a descriptor succeeds, and after the next \<open>cb_time\<close> the
  connection with that descriptor has received one frame with the length, the id and the
  fields of the table, after everything that was queued before; the other connections
  have received nothing else.
\<close>

theorem unicast_reaches_client:
  assumes "lua_laws api view" "short_strings h" "view s = (h, [L_num x, L_table r])"
    "message_of k p h r mid fs" "can_send g"
  shows "\<exists>g' e' s'. ex_unicast k api p (g, e, s) = Some (Ex_done, g', e', s') \<and> view s' = (h, [L_table r]) \<and>
    reaches g [s16 (double_to_int 32 x)] (message_frame (s16 mid) fs) g'"
  by (rule ex_unicast_works [OF assms])

theorem unicast_reaches_client_witness:
  "\<exists>g' e' s' g2 b. ex_unicast (Suc (Suc 0)) lua_machine example_parser
      (sample_gate [], [], example_send_heap, [L_num (double_of_int 5), L_table 0]) = Some (Ex_done, g', e', s') \<and>
    io_cb_time g' = Some g2 \<and> g_bevs g2 7 = Some b \<and>
    bv_out b = message_frame 1 [F_int 7, F_short 1, F_short 2, F_string [72, 105]]"
proof -
  have five: "double_to_int 32 (double_of_int 5) = 5" by (simp add: double_to_of_int)
  from unicast_reaches_client [where x = "double_of_int 5" and e = "[]", OF lua_machine_laws example_send_short
      refl example_message sample_gate_can_send]
  obtain g' e' s' where u: "ex_unicast (Suc (Suc 0)) lua_machine example_parser
      (sample_gate [], [], example_send_heap, [L_num (double_of_int 5), L_table 0]) = Some (Ex_done, g', e', s')"
    "reaches (sample_gate []) [5] (message_frame 1 [F_int 7, F_short 1, F_short 2, F_string [72, 105]]) g'"
    by (auto simp: five simp del: write_msg_dfs.simps)
  from u(2) obtain g2 where t: "io_cb_time g' = Some g2"
    "g_bevs g2 7 = Some \<lparr>bv_fd = 5, bv_in = [],
       bv_out = message_frame 1 [F_int 7, F_short 1, F_short 2, F_string [72, 105]]\<rparr>"
    by (auto simp: reaches_def sample_gate_simps sample_outbox sent_bytes_def)
  with u(1) show ?thesis by (intro exI conjI) auto
qed

text \<open>
  The same for many clients: \<open>multicast\<close> with a list of at most 2048 descriptors
  queues the message once, and after the next \<open>cb_time\<close> every connection has received the
  frame as often as its descriptor is in the list.
\<close>

theorem multicast_reaches_clients:
  assumes "lua_laws api view" "short_strings h" "view s = (h, [L_table t, L_table r])"
    "message_of k p h r mid fs" "can_send g" "fd_list h t fds" "fds \<noteq> []" "length fds \<le> 2048"
  shows "\<exists>g' e' s'. ex_multicast k api p (g, e, s) = Some (Ex_done, g', e', s') \<and> view s' = (h, [L_table r]) \<and>
    reaches g (map s16 fds) (message_frame (s16 mid) fs) g'"
  by (rule ex_multicast_works [OF assms])

theorem multicast_reaches_clients_witness:
  "\<exists>g' e' s' g2 b. ex_multicast (Suc (Suc 0)) lua_machine example_parser
      (sample_gate [], [], example_send_heap, [L_table 40, L_table 0]) = Some (Ex_done, g', e', s') \<and>
    io_cb_time g' = Some g2 \<and> g_bevs g2 7 = Some b \<and>
    bv_out b = message_frame 1 [F_int 7, F_short 1, F_short 2, F_string [72, 105]]"
proof -
  have n: "double_to_int 32 (double_of_int 5) = 5" "double_to_int 32 (double_of_int 6) = 6"
    "double_to_int 32 (double_of_int 2) = 2" by (simp_all add: double_to_of_int)
  have l: "fd_list example_send_heap 40 [5, 6]"
    by (auto simp: fd_list_def fd_entries_Cons fd_entries_def example_send_heap_def n)
  from multicast_reaches_clients [where e = "[]", OF lua_machine_laws example_send_short refl example_message
      sample_gate_can_send l]
  obtain g' e' s' where u: "ex_multicast (Suc (Suc 0)) lua_machine example_parser
      (sample_gate [], [], example_send_heap, [L_table 40, L_table 0]) = Some (Ex_done, g', e', s')"
    "reaches (sample_gate []) [5, 6] (message_frame 1 [F_int 7, F_short 1, F_short 2, F_string [72, 105]]) g'"
    by (auto simp del: write_msg_dfs.simps)
  from u(2) obtain g2 where t: "io_cb_time g' = Some g2"
    "g_bevs g2 7 = Some \<lparr>bv_fd = 5, bv_in = [],
       bv_out = message_frame 1 [F_int 7, F_short 1, F_short 2, F_string [72, 105]]\<rparr>"
    by (auto simp: reaches_def sample_gate_simps sample_outbox sent_bytes_def)
  with u(1) show ?thesis by (intro exI conjI) auto
qed

text \<open>
  C26. A table with a value that is not of its attribute's type raises an error in Lua
  and leaves no trace: nothing is queued, no message of the pool is lost, and the
  gate is in order.
\<close>

theorem unicast_error_keeps_gate:
  assumes "lua_laws api view" "short_strings h" "view s = (h, [L_num x, L_table r])"
    "h r (K_int 1) = L_num y" "template k p (double_to_int 32 y)"
    "flat any_len k p h (double_to_int 32 y) (L_table r) = None"
    "gate_ok held held' g" "mp_avail (g_send_pool g) \<noteq> {}"
  shows "\<exists>g' e' s'. ex_unicast k api p (g, e, s) = Some (Ex_error, g', e', s') \<and> gate_ok held held' g' \<and>
    outbox_view g' = outbox_view g \<and> g_bevs g' = g_bevs g"
proof -
  obtain i pool where g: "mp_alloc (g_send_pool g) = (Some i, pool)" "send_ok (g_send_mem g i)"
    using assms(7,8) by (rule ex_alloc)
  have a: "lua_type api s 2 = LUA_TNUMBER" "luaL_checknumber api s 2 = Some x"
    using lua_laws_view(2,3) [OF assms(1,3), where i = 2] by simp_all
  obtain s0 where s0: "lua_pop api s 1 = Some s0" "view s0 = (h, [L_table r])"
    using lua_laws_view(9) [OF assms(1,3), where k = 1] by auto
  obtain s1 where s1: "ex_proto_id api s0 = Some (double_to_int 32 y, s1)" "view s1 = (h, [L_table r])"
    using ex_proto_id_ok [OF assms(1) s0(2) _ assms(4)] by auto
  let ?m = "(g_send_mem g i)\<lparr>ms_buf_len := 0, ms_id := s16 (double_to_int 32 y)\<rparr>"
  obtain ret m e1 s2 where w: "write_msg_dfs k api p (double_to_int 32 y) ?m e s1 = Some (ret, m, e1, s2)"
      "ret \<noteq> 0" "same_head ?m m" "ms_ok m"
    using ex_write_fails [OF assms(1,2,5) s1(2) assms(6), of ?m e] g(2) by (auto simp: send_ok_def)
  have m: "send_ok m" using w(3,4) g(2) by (auto simp: send_ok_def ms_ok_def same_head_def)
  have "ex_unicast k api p (g, e, s) = Some (Ex_error, ex_give_back i m (g\<lparr>g_send_pool := pool\<rparr>), e1, s2)"
    using a s0(1) s1(1) g(1) w(1,2) table_argument [OF assms(1) s0(2), of 1 r]
    by (simp add: ex_unicast_def Let_def LUA_TNUMBER_def)
  moreover have "g_bevs (ex_give_back i m (g\<lparr>g_send_pool := pool\<rparr>)) = g_bevs g"
    by (simp add: ex_give_back_def)
  ultimately show ?thesis using ex_give_back_ok [OF assms(7) g(1) m] by blast
qed

theorem unicast_error_keeps_gate_witness:
  "\<exists>g' e' s'. ex_unicast (Suc (Suc 0)) lua_machine example_parser (sample_gate [], [],
      put_key example_heap 10 (K_int 1) (L_num (double_of_int 1)), [L_num 0, L_table 10]) = Some (Ex_error, g', e', s') \<and>
    outbox_view g' = []"
proof -
  let ?h = "put_key example_heap 10 (K_int 1) (L_num (double_of_int 1))"
  have h: "short_strings ?h" "?h 10 (K_int 1) = L_num (double_of_int 1)"
    using example_template(3) by (auto simp: short_strings_def short_string_def put_key_def)
  have f: "flat any_len (Suc (Suc 0)) example_parser ?h (double_to_int 32 (double_of_int 1)) (L_table 10) = None"
    by (simp add: example_row example_rows_def flat_attr_def flat_scalar_def enum_types
        example_heap_def example_numbers any_len_def put_key_def)
  have t: "template (Suc (Suc 0)) example_parser (double_to_int 32 (double_of_int 1))"
    using example_template(1) by (simp only: example_numbers)
  have "mp_avail (g_send_pool (sample_gate [])) \<noteq> {}"
    by (simp add: sample_gate_simps mp_avail_init lessThan_empty_iff)
  from unicast_error_keeps_gate [where x = 0 and e = "[]", OF lua_machine_laws h(1) refl h(2) t f sample_gate_ok this]
  show ?thesis unfolding sample_outbox(1) by blast
qed

end
