(* ===== verification/Inflate.thy ===== *)
theory Inflate
  imports Prelude
begin

unbundle bit_operations_syntax

text \<open>
  The decompressor of the table converter (\<open>myxml2/myxml2.cpp\<close>, \<open>tinf*\<close>), which unpacks
  the parts of an \<open>xlsx\<close> file. \<open>source\<close> is the compressed block \<open>td_src\<close> and the offset
  \<open>td_at\<close> of the pointer, \<open>dest\<close> the bytes written so far into a buffer of \<open>td_cap\<close> bytes.
  The counts of a tree are at most 320, so that the \<open>short\<close>s do not wrap.

  A result \<open>None\<close> is an access outside an array (the compressed block, the output, a
  table), the failure of an \<open>assert\<close>, which this program keeps, or a loop that does not
  end; the two explicit failures are values.
\<close>

datatype tinf_error = Bad_checksum | Bad_block_type

record tinfTree =
  tf_table :: "int list"
  tf_trans :: "int list"

record tinfData =
  td_src :: bytes
  td_at :: nat
  td_bitcount :: nat
  td_dest :: bytes
  td_cap :: nat
  td_ltree :: tinfTree
  td_dtree :: tinfTree

section \<open>Trees\<close>

text \<open>The three loops of \<open>tinfBuildTree\<close>: the counts, the offsets, the symbols in their places.\<close>

primrec tinf_count :: "int list \<Rightarrow> int list \<Rightarrow> int list option" where
  "tinf_count [] t = Some t"
| "tinf_count (l # ls) t = do { n \<leftarrow> iload t l; t1 \<leftarrow> istore t l (n + 1); tinf_count ls t1 }"

primrec tinf_offs :: "int list \<Rightarrow> int \<Rightarrow> int list" where
  "tinf_offs [] acc = []"
| "tinf_offs (n # ns) acc = acc # tinf_offs ns (acc + n)"

primrec tinf_place :: "int list \<Rightarrow> int \<Rightarrow> int list \<Rightarrow> int list \<Rightarrow> int list option" where
  "tinf_place [] i offs tr = Some tr"
| "tinf_place (l # ls) i offs tr =
     (if l \<noteq> 0 then do {
        k \<leftarrow> iload offs l;
        tr1 \<leftarrow> istore tr k i;
        offs1 \<leftarrow> istore offs l (k + 1);
        tinf_place ls (i + 1) offs1 tr1
      }
      else tinf_place ls (i + 1) offs tr)"

definition tinfBuildTree :: "tinfTree \<Rightarrow> int list \<Rightarrow> nat \<Rightarrow> tinfTree option" where
  "tinfBuildTree t lengths num = do {
     ls \<leftarrow> load_block lengths 0 num;
     counts \<leftarrow> tinf_count ls (replicate 16 0);
     let table = counts[0 := 0];
     tr \<leftarrow> tinf_place ls 0 (tinf_offs table 0) (tf_trans t);
     Some \<lparr>tf_table = table, tf_trans = tr\<rparr>
   }"

section \<open>Bits and symbols\<close>

partial_function (option) tinf_read_loop :: "nat \<Rightarrow> int \<Rightarrow> nat \<Rightarrow> tinfData \<Rightarrow> (int \<times> tinfData) option" where
  "tinf_read_loop num acc weight d = do {
     b \<leftarrow> iload (td_src d) (int (td_at d) - 1);
     if td_bitcount d + num < 9 then
       Some (acc OR push_bit weight (drop_bit (td_bitcount d) (sint b) AND (2 ^ num - 1)),
         d\<lparr>td_bitcount := (td_bitcount d + num) AND 7\<rparr>)
     else
       tinf_read_loop (num - (8 - td_bitcount d))
         (acc OR push_bit weight (drop_bit (td_bitcount d) (sint b AND 255)))
         (weight + (8 - td_bitcount d))
         (d\<lparr>td_bitcount := 0, td_at := td_at d + 1\<rparr>)
   }"

definition tinfReadBits :: "nat \<Rightarrow> tinfData \<Rightarrow> (int \<times> tinfData) option" where
  "tinfReadBits num d =
     (if num = 0 then Some (0, d)
      else if \<not> num < 14 then None
      else tinf_read_loop num 0 0 (if td_bitcount d = 0 then d\<lparr>td_at := td_at d + 1\<rparr> else d))"

partial_function (option) tinf_decode_loop ::
    "tinfTree \<Rightarrow> int \<Rightarrow> int \<Rightarrow> int \<Rightarrow> tinfData \<Rightarrow> (int \<times> tinfData) option" where
  "tinf_decode_loop t acc cur len d = do {
     (b, d1) \<leftarrow> tinfReadBits 1 d;
     n \<leftarrow> iload (tf_table t) (len + 1);
     let acc1 = acc + n;
     let cur1 = (push_bit 1 cur OR b) - n;
     if 0 \<le> cur1 then tinf_decode_loop t acc1 cur1 (len + 1) d1
     else do { s \<leftarrow> iload (tf_trans t) (acc1 + cur1); Some (s, d1) }
   }"

definition tinfDecodeSymbol :: "tinfTree \<Rightarrow> tinfData \<Rightarrow> (int \<times> tinfData) option" where
  "tinfDecodeSymbol t d = tinf_decode_loop t 0 0 0 d"

section \<open>Blocks\<close>

definition lengthBits :: "nat list" where
  "lengthBits = [0, 0, 0, 0, 0, 0, 0, 0, 1, 1, 1, 1, 2, 2, 2,
                 2, 3, 3, 3, 3, 4, 4, 4, 4, 5, 5, 5, 5, 0, 6]"

definition lengthBase :: "int list" where
  "lengthBase = [
     3,  4,  5,  6,  7,  8,  9,  10, 11,  13,  15,  17,  19,  23,  27,
     31, 35, 43, 51, 59, 67, 83, 99, 115, 131, 163, 195, 227, 258, 323]"

definition distBits :: "nat list" where
  "distBits = [0, 0, 0,  0,  1,  1,  2,  2,  3,  3,
               4, 4, 5,  5,  6,  6,  7,  7,  8,  8,
               9, 9, 10, 10, 11, 11, 12, 12, 13, 13]"

definition distBase :: "int list" where
  "distBase = [
     1,    2,    3,    4,    5,    7,    9,    13,    17,    25,
     33,   49,   65,   97,   129,  193,  257,  385,   513,   769,
     1025, 1537, 2049, 3073, 4097, 6145, 8193, 12289, 16385, 24577]"

definition tinf_put :: "byte \<Rightarrow> tinfData \<Rightarrow> tinfData option" where
  "tinf_put b d =
     (if length (td_dest d) < td_cap d then Some (d\<lparr>td_dest := td_dest d @ [b]\<rparr>) else None)"

primrec tinf_copy :: "nat \<Rightarrow> int \<Rightarrow> tinfData \<Rightarrow> tinfData option" where
  "tinf_copy 0 offs d = Some d"
| "tinf_copy (Suc n) offs d = do {
     b \<leftarrow> iload (td_dest d) (int (length (td_dest d)) - offs);
     d1 \<leftarrow> tinf_put b d;
     tinf_copy n offs d1
   }"

partial_function (option) tinfInflateBlockData ::
    "tinfTree \<Rightarrow> tinfTree \<Rightarrow> tinfData \<Rightarrow> tinfData option" where
  "tinfInflateBlockData lt dt d = do {
     (sym, d1) \<leftarrow> tinfDecodeSymbol lt d;
     if sym = 256 then Some d1
     else if sym < 256 then do {
       d2 \<leftarrow> tinf_put (word_of_int sym) d1;
       tinfInflateBlockData lt dt d2
     }
     else do {
       n \<leftarrow> iload lengthBits (sym - 257);
       (extra, d2) \<leftarrow> tinfReadBits n d1;
       base \<leftarrow> iload lengthBase (sym - 257);
       (dist, d3) \<leftarrow> tinfDecodeSymbol dt d2;
       k \<leftarrow> iload distBits dist;
       (more, d4) \<leftarrow> tinfReadBits k d3;
       back \<leftarrow> iload distBase dist;
       d5 \<leftarrow> tinf_copy (nat (extra + base)) (more + back) d4;
       tinfInflateBlockData lt dt d5
     }
   }"

definition sltree :: tinfTree where
  "sltree = \<lparr>tf_table = [0, 0, 0, 0, 0, 0, 0, 24, 152, 112, 0, 0, 0, 0, 0, 0],
     tf_trans = [256..279] @ [0..143] @ [280..287] @ [144..255]\<rparr>"

definition sdtree :: tinfTree where
  "sdtree = \<lparr>tf_table = [0, 0, 0, 0, 0, 32, 0, 0, 0, 0, 0, 0, 0, 0, 0, 0],
     tf_trans = [0..31] @ replicate 256 0\<rparr>"

definition clcidx :: "nat list" where
  "clcidx = [16, 17, 18, 0, 8,  7, 9,  6, 10, 5,
             11, 4,  12, 3, 13, 2, 14, 1, 15]"

primrec tinf_code_lengths :: "nat list \<Rightarrow> int list \<Rightarrow> tinfData \<Rightarrow> (int list \<times> tinfData) option" where
  "tinf_code_lengths [] ls d = Some (ls, d)"
| "tinf_code_lengths (c # cs) ls d = do {
     (n, d1) \<leftarrow> tinfReadBits 3 d;
     ls1 \<leftarrow> store ls c n;
     tinf_code_lengths cs ls1 d1
   }"

partial_function (option) tinf_lengths ::
    "tinfTree \<Rightarrow> int \<Rightarrow> int \<Rightarrow> int list \<Rightarrow> tinfData \<Rightarrow> (int list \<times> tinfData) option" where
  "tinf_lengths t len num ls d =
     (if num < len then do {
        (sym, d1) \<leftarrow> tinfDecodeSymbol t d;
        if sym = 16 then do {
          (x, d2) \<leftarrow> tinfReadBits 2 d1;
          prev \<leftarrow> iload ls (num - 1);
          ls1 \<leftarrow> istore_block ls num (replicate (nat (x + 3)) prev);
          tinf_lengths t len (num + (x + 3)) ls1 d2
        }
        else if sym = 17 then do {
          (x, d2) \<leftarrow> tinfReadBits 3 d1;
          tinf_lengths t len (num + (x + 3)) ls d2
        }
        else if sym = 18 then do {
          (x, d2) \<leftarrow> tinfReadBits 7 d1;
          tinf_lengths t len (num + (x + 11)) ls d2
        }
        else do {
          ls1 \<leftarrow> istore ls num sym;
          tinf_lengths t len (num + 1) ls1 d1
        }
      }
      else Some (ls, d))"

definition tinf_stored :: "tinfData \<Rightarrow> (tinf_error + tinfData) option" where
  "tinf_stored d = do {
     bs \<leftarrow> load_block (td_src d) (td_at d) 2;
     cs \<leftarrow> load_block (td_src d) (td_at d + 2) 2;
     let len = le_val bs;
     if len - (NOT (le_val cs) AND 65535) \<noteq> 0 then Some (Inl Bad_checksum)
     else do {
       xs \<leftarrow> load_block (td_src d) (td_at d + 4) (nat len);
       if td_cap d < length (td_dest d) + length xs then None
       else Some (Inr (d\<lparr>td_dest := td_dest d @ xs, td_at := td_at d + 4 + nat len, td_bitcount := 0\<rparr>))
     }
   }"

text \<open>\<open>junk\<close> is what the local \<open>codeTree\<close> holds at first.\<close>

definition tinf_dynamic :: "tinfTree \<Rightarrow> tinfData \<Rightarrow> tinfData option" where
  "tinf_dynamic junk d = do {
     (n1, d1) \<leftarrow> tinfReadBits 5 d;
     let hlit = n1 + 257;
     (n2, d2) \<leftarrow> tinfReadBits 5 d1;
     let hdist = n2 + 1;
     (n3, d3) \<leftarrow> tinfReadBits 4 d2;
     let hclen = n3 + 4;
     cs \<leftarrow> load_block clcidx 0 (nat hclen);
     (lengthsA, d4) \<leftarrow> tinf_code_lengths cs (replicate 19 0) d3;
     codeTree \<leftarrow> tinfBuildTree junk lengthsA 19;
     (lengthsB, d5) \<leftarrow> tinf_lengths codeTree (hlit + hdist) 0 (replicate 320 0) d4;
     lt \<leftarrow> tinfBuildTree (td_ltree d5) lengthsB (nat hlit);
     dt \<leftarrow> tinfBuildTree (td_dtree d5) (drop (nat hlit) lengthsB) (nat hdist);
     tinfInflateBlockData lt dt (d5\<lparr>td_ltree := lt, td_dtree := dt\<rparr>)
   }"

definition tinf_block :: "tinfTree \<Rightarrow> int \<Rightarrow> tinfData \<Rightarrow> (tinf_error + tinfData) option" where
  "tinf_block junk btype d =
     (if btype = 0 then tinf_stored d
      else if btype = 1 then map_option Inr (tinfInflateBlockData sltree sdtree d)
      else if btype = 2 then map_option Inr (tinf_dynamic junk d)
      else Some (Inl Bad_block_type))"

partial_function (option) tinf_blocks :: "tinfTree \<Rightarrow> tinfData \<Rightarrow> (tinf_error + tinfData) option" where
  "tinf_blocks junk d = do {
     (bfinal, d1) \<leftarrow> tinfReadBits 1 d;
     (btype, d2) \<leftarrow> tinfReadBits 2 d1;
     r \<leftarrow> tinf_block junk btype d2;
     (case r of
        Inl e \<Rightarrow> Some (Inl e)
      | Inr d3 \<Rightarrow> if bfinal = 0 then tinf_blocks junk d3 else Some (Inr d3))
   }"

text \<open>The result is what the buffer holds up to \<open>destLen\<close>.\<close>

definition tinfUncompress :: "tinfTree \<Rightarrow> tinfTree \<Rightarrow> tinfTree \<Rightarrow> nat \<Rightarrow> bytes \<Rightarrow> (tinf_error + bytes) option" where
  "tinfUncompress junk ljunk djunk cap src = do {
     r \<leftarrow> tinf_blocks junk \<lparr>td_src = src, td_at = 0, td_bitcount = 0, td_dest = [], td_cap = cap,
       td_ltree = ljunk, td_dtree = djunk\<rparr>;
     Some (map_sum (\<lambda>e. e) td_dest r)
   }"

end
