(* ===== verification/InflateBits.thy ===== *)
theory InflateBits
  imports Inflate
begin

unbundle bit_operations_syntax

text \<open>
  The bit reader of the decompressor. A byte string is the list of its bits, the least
  significant bit of each byte first; \<open>bits_left d\<close> are those not yet read, and every read
  takes bits from the front of it. A number is stored with its least significant bit first.
\<close>

section \<open>Bits of bytes\<close>

definition byte_bits :: "byte \<Rightarrow> bool list" where
  "byte_bits b = map (bit b) [0..<8]"

definition bits_of_bytes :: "bytes \<Rightarrow> bool list" where
  "bits_of_bytes bs = concat (map byte_bits bs)"

definition bits_val :: "bool list \<Rightarrow> int" where
  "bits_val bs = horner_sum of_bool 2 bs"

definition num_bits :: "nat \<Rightarrow> nat \<Rightarrow> bool list" where
  "num_bits k n = map (bit n) [0..<k]"

lemma length_byte_bits [simp]: "length (byte_bits b) = 8"
  by (simp add: byte_bits_def)

lemma bits_of_bytes_simps [simp]:
  "bits_of_bytes [] = []"
  "bits_of_bytes (b # bs) = byte_bits b @ bits_of_bytes bs"
  "bits_of_bytes (xs @ ys) = bits_of_bytes xs @ bits_of_bytes ys"
  by (simp_all add: bits_of_bytes_def)

lemma length_bits_of_bytes [simp]: "length (bits_of_bytes bs) = 8 * length bs"
  by (induction bs) auto

lemma length_num_bits [simp]: "length (num_bits k n) = k"
  by (simp add: num_bits_def)

lemma bits_val_simps [simp]:
  "bits_val [] = 0"
  "bits_val (b # bs) = of_bool b + 2 * bits_val bs"
  by (simp_all add: bits_val_def)

lemma bits_val_append: "bits_val (xs @ ys) = bits_val xs + 2 ^ length xs * bits_val ys"
  by (induction xs) (auto simp: algebra_simps)

lemma bits_val_range: "0 \<le> bits_val bs \<and> bits_val bs < 2 ^ length bs"
  by (induction bs) auto

lemma bits_val_num_bits: "n < 2 ^ k \<Longrightarrow> bits_val (num_bits k n) = int n"
proof -
  assume "n < 2 ^ k"
  then have "take_bit k (int n) = int n"
    by (simp add: take_bit_int_eq_self_iff)
  moreover have "bits_val (num_bits k n) = take_bit k (int n)"
    by (simp add: bits_val_def num_bits_def horner_sum_bit_eq_take_bit [symmetric] bit_of_nat_iff_bit
        cong: map_cong)
  ultimately show ?thesis by simp
qed

lemma bits_val_map_bit: "bits_val (map (bit (n :: int)) [0..<k]) = take_bit k n"
  by (simp add: bits_val_def horner_sum_bit_eq_take_bit)

section \<open>The reader\<close>

definition reader_ok :: "tinfData \<Rightarrow> bool" where
  "reader_ok d \<longleftrightarrow> td_bitcount d < 8 \<and> td_at d \<le> length (td_src d) \<and>
     (td_bitcount d \<noteq> 0 \<longrightarrow> 0 < td_at d)"

definition bits_left :: "tinfData \<Rightarrow> bool list" where
  "bits_left d =
     (if td_bitcount d = 0 then []
      else drop (td_bitcount d) (byte_bits (td_src d ! (td_at d - 1))))
     @ bits_of_bytes (drop (td_at d) (td_src d))"

text \<open>A read changes the position only.\<close>

definition advanced :: "tinfData \<Rightarrow> tinfData \<Rightarrow> bool" where
  "advanced d d' \<longleftrightarrow> d' = d\<lparr>td_at := td_at d', td_bitcount := td_bitcount d'\<rparr>"

lemma advanced_refl: "advanced d d"
  by (simp add: advanced_def)

lemma advanced_trans: "advanced d d1 \<Longrightarrow> advanced d1 d2 \<Longrightarrow> advanced d d2"
  by (cases d; cases d1; cases d2) (simp add: advanced_def)

lemma advancedD:
  "advanced d d' \<Longrightarrow> td_src d' = td_src d \<and> td_dest d' = td_dest d \<and> td_cap d' = td_cap d \<and>
     td_ltree d' = td_ltree d \<and> td_dtree d' = td_dtree d"
  by (cases d; cases d') (simp add: advanced_def)

text \<open>\<open>reads bs d d'\<close>: the bits \<open>bs\<close> were next, and \<open>d'\<close> is behind them.\<close>

definition reads :: "bool list \<Rightarrow> tinfData \<Rightarrow> tinfData \<Rightarrow> bool" where
  "reads bs d d' \<longleftrightarrow> reader_ok d' \<and> advanced d d' \<and> bits_left d = bs @ bits_left d'"

lemma reads_nil: "reader_ok d \<Longrightarrow> reads [] d d"
  by (simp add: reads_def advanced_refl)

lemma reads_trans: "reads xs d d1 \<Longrightarrow> reads ys d1 d2 \<Longrightarrow> reads (xs @ ys) d d2"
  by (auto simp: reads_def intro: advanced_trans)

lemma drop_byte_bits: "c \<le> 8 \<Longrightarrow> drop c (byte_bits b) = map (bit (drop_bit c (uint b))) [0..<8 - c]"
  by (rule nth_equalityI) (auto simp: byte_bits_def bit_drop_bit_eq bit_uint_iff)

lemma take_drop_byte_bits:
  assumes "c + n \<le> 8"
  shows "bits_val (take n (drop c (byte_bits b))) = drop_bit c (sint b) AND (2 ^ n - 1)"
proof -
  have "take n (drop c (byte_bits b)) = map (bit (drop_bit c (sint b))) [0..<n]"
    by (rule nth_equalityI) (use assms in \<open>auto simp: byte_bits_def bit_drop_bit_eq bit_sint_iff\<close>)
  then show ?thesis
    by (simp add: bits_val_map_bit take_bit_eq_mask mask_eq_exp_minus_1)
qed

lemma drop_byte_bits_val:
  assumes "c < 8"
  shows "bits_val (drop c (byte_bits b)) = drop_bit c (sint b AND 255)"
proof -
  have "sint b AND 255 = take_bit 8 (sint b)"
    by (simp add: take_bit_eq_mask mask_eq_exp_minus_1)
  moreover have "drop c (byte_bits b) = map (bit (drop_bit c (take_bit 8 (sint b)))) [0..<8 - c]"
    by (rule nth_equalityI)
      (use assms in \<open>auto simp: byte_bits_def bit_drop_bit_eq bit_sint_iff bit_take_bit_iff\<close>)
  moreover have "take_bit (8 - c) (drop_bit c (take_bit 8 (sint b))) = drop_bit c (take_bit 8 (sint b))"
    using assms by (simp add: take_bit_drop_bit)
  ultimately show ?thesis by (simp add: bits_val_map_bit)
qed

lemma or_push_bit:
  assumes "0 \<le> x" "x < 2 ^ w"
  shows "x OR push_bit w y = x + 2 ^ w * (y :: int)"
proof -
  have "x AND push_bit w y = 0"
  proof (rule bit_eqI)
    fix n
    have "bit x n \<Longrightarrow> n < w"
      using assms by (metis bit_take_bit_iff take_bit_int_eq_self_iff)
    then show "bit (x AND push_bit w y) n = bit 0 n" by (auto simp: bit_and_iff bit_push_bit_iff)
  qed
  then have "x OR push_bit w y = x + push_bit w y" by (simp add: disjunctive_add_eq_or)
  then show ?thesis by (simp add: push_bit_eq_mult mult.commute)
qed

definition loop_left :: "tinfData \<Rightarrow> bool list" where
  "loop_left d = drop (td_bitcount d) (byte_bits (td_src d ! (td_at d - 1)))
     @ bits_of_bytes (drop (td_at d) (td_src d))"

lemma bits_of_bytes_drop:
  "i < length bs \<Longrightarrow> bits_of_bytes (drop i bs) = byte_bits (bs ! i) @ bits_of_bytes (drop (Suc i) bs)"
  by (metis Cons_nth_drop_Suc bits_of_bytes_simps(2))

lemma and_7: "n AND 7 = n mod (8 :: nat)"
  using take_bit_eq_mask [of 3 n] by (simp add: take_bit_eq_mod mask_eq_exp_minus_1)

lemma append_split:
  assumes "xs @ ys = bs @ rest" "length bs \<le> length xs"
  shows "bs = take (length bs) xs" "rest = drop (length bs) xs @ ys"
  using arg_cong [OF assms(1), of "take (length bs)"] arg_cong [OF assms(1), of "drop (length bs)"]
    assms(2) by simp_all

lemma read_loop_reads:
  "0 < num \<Longrightarrow> 0 < td_at d \<Longrightarrow> td_at d \<le> length (td_src d) \<Longrightarrow> td_bitcount d < 8 \<Longrightarrow>
    loop_left d = bs @ rest \<Longrightarrow> length bs = num \<Longrightarrow> 0 \<le> acc \<Longrightarrow> acc < 2 ^ weight \<Longrightarrow>
    \<exists>d'. tinf_read_loop num acc weight d = Some (acc + 2 ^ weight * bits_val bs, d') \<and>
      reader_ok d' \<and> advanced d d' \<and> bits_left d' = rest"
proof (induction num arbitrary: acc weight d bs rule: less_induct)
  case (less num)
  let ?c = "td_bitcount d" and ?b = "td_src d ! (td_at d - 1)"
  let ?chunk = "drop ?c (byte_bits ?b)"
  have b: "iload (td_src d) (int (td_at d) - 1) = Some ?b"
    using less.prems(2,3) by (auto simp: iload_def load_def nat_diff_distrib)
  have left: "?chunk @ bits_of_bytes (drop (td_at d) (td_src d)) = bs @ rest"
    using less.prems(5) by (simp add: loop_left_def)
  show ?case
  proof (cases "?c + num < 9")
    case True
    then have "length bs \<le> length ?chunk" using less.prems(6) by simp
    note sp = append_split [OF left this]
    let ?d = "d\<lparr>td_bitcount := (?c + num) AND 7\<rparr>"
    have v: "drop_bit ?c (sint ?b) AND (2 ^ num - 1) = bits_val bs"
      using take_drop_byte_bits [of ?c num ?b] True sp(1) less.prems(6) by simp
    have "bits_left ?d = rest"
    proof (cases "?c + num = 8")
      case True
      then have "drop num ?chunk = []" by simp
      then show ?thesis using True sp(2) less.prems(6) by (simp add: bits_left_def and_7)
    next
      case False
      then have "(?c + num) mod 8 = ?c + num" using True by simp
      then show ?thesis
        using less.prems(1,6) sp(2) by (simp add: bits_left_def and_7 add.commute)
    qed
    moreover have "reader_ok ?d" using less.prems(2,3) by (simp add: reader_ok_def and_7)
    moreover have "advanced d ?d" by (simp add: advanced_def)
    ultimately show ?thesis
      using True b v or_push_bit [OF less.prems(7,8)]
      by (subst tinf_read_loop.simps) (simp del: push_bit_and)
  next
    case False
    then have len: "length ?chunk < length bs" using less.prems(4,6) by simp
    define bs' where "bs' = drop (length ?chunk) bs"
    have bs: "bs = ?chunk @ bs'" "bits_of_bytes (drop (td_at d) (td_src d)) = bs' @ rest"
      using append_split [OF left [symmetric]] len by (simp_all add: bs'_def)
    have "bs' \<noteq> []" using len by (auto simp: bs'_def)
    then have at: "td_at d < length (td_src d)" using bs(2) by (cases "td_at d < length (td_src d)") auto
    let ?d = "d\<lparr>td_bitcount := 0, td_at := td_at d + 1\<rparr>"
    let ?acc = "acc OR push_bit weight (drop_bit ?c (sint ?b AND 255))"
    have v: "?acc = acc + 2 ^ weight * bits_val ?chunk"
      by (simp only: or_push_bit [OF less.prems(7,8)] drop_byte_bits_val [OF less.prems(4)])
    have acc: "0 \<le> ?acc" "?acc < 2 ^ (weight + (8 - ?c))"
    proof -
      have r: "0 \<le> bits_val ?chunk" "bits_val ?chunk + 1 \<le> 2 ^ (8 - ?c)"
        using bits_val_range [of ?chunk] by auto
      then show "0 \<le> ?acc" unfolding v using less.prems(7) by simp
      have "2 ^ weight * (bits_val ?chunk + 1) \<le> 2 ^ weight * 2 ^ (8 - ?c)"
        using r(2) by (intro mult_left_mono) auto
      then show "?acc < 2 ^ (weight + (8 - ?c))"
        unfolding v using less.prems(8) by (simp add: power_add distrib_left)
    qed
    have loop: "loop_left ?d = bs' @ rest"
      using bs(2) bits_of_bytes_drop [OF at] by (simp add: loop_left_def)
    have len': "length bs' = num - (8 - ?c)" "0 < num - (8 - ?c)" "num - (8 - ?c) < num"
      using less.prems(4,6) False by (auto simp: bs'_def)
    have pos: "0 < td_at ?d" "td_at ?d \<le> length (td_src ?d)" "td_bitcount ?d < 8" using at by simp_all
    obtain d' where d': "tinf_read_loop (num - (8 - ?c)) ?acc (weight + (8 - ?c)) ?d
          = Some (?acc + 2 ^ (weight + (8 - ?c)) * bits_val bs', d')"
        "reader_ok d'" "advanced ?d d'" "bits_left d' = rest"
      using less.IH [OF len'(3,2) pos loop len'(1) acc] by blast
    have "bits_val bs = bits_val ?chunk + 2 ^ (8 - ?c) * bits_val bs'"
      using bits_val_append [of ?chunk bs'] bs(1) by simp
    then have "?acc + 2 ^ (weight + (8 - ?c)) * bits_val bs' = acc + 2 ^ weight * bits_val bs"
      unfolding v by (simp add: power_add algebra_simps)
    moreover have "advanced d d'" by (rule advanced_trans [OF _ d'(3)]) (simp add: advanced_def)
    ultimately show ?thesis
      using False b d' by (subst tinf_read_loop.simps) (simp only: Option.bind.bind_lunit if_False, blast)
  qed
qed

text \<open>Reading \<open>length bs\<close> bits returns the number they stand for.\<close>

lemma tinfReadBits_reads:
  assumes "reader_ok d" "bits_left d = bs @ rest" "length bs < 14"
  shows "\<exists>d'. tinfReadBits (length bs) d = Some (bits_val bs, d') \<and> reads bs d d' \<and> bits_left d' = rest"
proof (cases "bs = []")
  case True
  then show ?thesis using assms reads_nil by (auto simp: tinfReadBits_def)
next
  case False
  let ?d = "if td_bitcount d = 0 then d\<lparr>td_at := td_at d + 1\<rparr> else d"
  have "0 < td_at ?d \<and> td_at ?d \<le> length (td_src ?d) \<and> loop_left ?d = bs @ rest \<and> td_bitcount ?d < 8"
  proof (cases "td_bitcount d = 0")
    case True
    then have "bits_of_bytes (drop (td_at d) (td_src d)) = bs @ rest"
      using assms(2) by (simp add: bits_left_def)
    moreover from this False have at: "td_at d < length (td_src d)"
      by (cases "td_at d < length (td_src d)") auto
    ultimately show ?thesis
      using True bits_of_bytes_drop [OF at] by (simp add: loop_left_def)
  qed (use assms in \<open>auto simp: reader_ok_def loop_left_def bits_left_def\<close>)
  then obtain d' where d': "tinf_read_loop (length bs) 0 0 ?d = Some (bits_val bs, d')"
      "reader_ok d'" "advanced ?d d'" "bits_left d' = rest"
    using read_loop_reads [of "length bs" ?d bs rest 0 0] False by auto
  moreover have "advanced d d'"
    by (rule advanced_trans [OF _ d'(3)]) (simp add: advanced_def)
  ultimately show ?thesis
    using assms False by (simp add: tinfReadBits_def reads_def)
qed

end
