(* ===== verification/InflateCode.thy ===== *)
theory InflateCode
  imports InflateBits
begin

unbundle bit_operations_syntax

text \<open>
  The codes of the format (RFC 1951): each symbol has a length, codes of one length are
  consecutive numbers in the order of the symbols, and the codes of a greater length
  follow those of the smaller ones. \<open>code_bits\<close> is that code, its most significant bit
  first. \<open>tinfBuildTree\<close> builds a tree with which \<open>tinfDecodeSymbol\<close> takes exactly the code
  of a symbol from the bits and returns the symbol.
\<close>

section \<open>Codes\<close>

definition cnt :: "nat list \<Rightarrow> nat \<Rightarrow> int" where
  "cnt ls l = (if l = 0 then 0 else int (count_list ls l))"

primrec first_code :: "nat list \<Rightarrow> nat \<Rightarrow> int" where
  "first_code ls 0 = 0"
| "first_code ls (Suc l) = 2 * (first_code ls l + cnt ls l)"

definition rank :: "nat list \<Rightarrow> nat \<Rightarrow> nat" where
  "rank ls s = count_list (take s ls) (ls ! s)"

definition code_of :: "nat list \<Rightarrow> nat \<Rightarrow> int" where
  "code_of ls s = first_code ls (ls ! s) + int (rank ls s)"

definition code_bits :: "nat list \<Rightarrow> nat \<Rightarrow> bool list" where
  "code_bits ls s = rev (map (bit (code_of ls s)) [0..<ls ! s])"

text \<open>The lengths have a code for every symbol: no length has more symbols than numbers.\<close>

definition code_ok :: "nat list \<Rightarrow> bool" where
  "code_ok ls \<longleftrightarrow> (\<forall>l \<in> set ls. l < 16) \<and> (\<forall>l < 16. first_code ls l + cnt ls l \<le> 2 ^ l)"

definition start :: "nat list \<Rightarrow> nat \<Rightarrow> int" where
  "start ls l = (\<Sum>i<l. cnt ls i)"

definition place :: "nat list \<Rightarrow> nat \<Rightarrow> nat" where
  "place ls s = nat (start ls (ls ! s)) + rank ls s"

definition tree_for :: "tinfTree \<Rightarrow> nat list \<Rightarrow> bool" where
  "tree_for t ls \<longleftrightarrow> tf_table t = map (cnt ls) [0..<16] \<and>
     (\<forall>s < length ls. ls ! s \<noteq> 0 \<longrightarrow> load (tf_trans t) (place ls s) = Some (int s))"

lemma cnt_nonneg: "0 \<le> cnt ls l"
  by (simp add: cnt_def)

lemma first_code_nonneg: "0 \<le> first_code ls l"
proof (induction l)
  case (Suc l)
  then show ?case using cnt_nonneg [of ls l] by simp
qed simp

lemma start_simps: "start ls 0 = 0" "start ls (Suc l) = start ls l + cnt ls l"
  by (simp_all add: start_def)

lemma start_mono: "l \<le> l' \<Longrightarrow> start ls l \<le> start ls l'"
  unfolding start_def by (rule sum_mono2) (auto simp: cnt_nonneg)

lemma start_nonneg: "0 \<le> start ls l"
  using start_mono [of 0 l ls] by (simp add: start_simps)

lemma count_take_le: "count_list (take i xs) x \<le> count_list xs x"
  by (metis append_take_drop_id count_list_append le_add1)

lemma count_take_nth:
  assumes "s < i" "i \<le> length xs"
  shows "count_list (take s xs) (xs ! s) < count_list (take i xs) (xs ! s)"
proof -
  have "take (Suc s) (take i xs) = take s xs @ [xs ! s]"
    using assms by (simp add: min_def take_Suc_conv_app_nth)
  then show ?thesis using count_take_le [of "Suc s" "take i xs" "xs ! s"] by simp
qed

lemma rank_less: "s < length ls \<Longrightarrow> rank ls s < count_list ls (ls ! s)"
  using count_take_nth [of s "length ls" ls] by (simp add: rank_def)

lemma rank_cnt: "s < length ls \<Longrightarrow> ls ! s \<noteq> 0 \<Longrightarrow> int (rank ls s) < cnt ls (ls ! s)"
  using rank_less by (simp add: cnt_def)

lemma first_code_step:
  assumes "j < l"
  shows "(first_code ls j + cnt ls j) * 2 ^ (l - j) \<le> first_code ls l"
  using assms
proof (induction l)
  case (Suc l)
  show ?case
  proof (cases "j = l")
    case False
    then have "(first_code ls j + cnt ls j) * 2 ^ (l - j) \<le> first_code ls l" using Suc by simp
    moreover have "Suc l - j = Suc (l - j)" using False Suc.prems by simp
    ultimately show ?thesis using cnt_nonneg [of ls l] by simp
  qed simp
qed simp

lemma code_of_nonneg: "0 \<le> code_of ls s"
  by (simp add: code_of_def first_code_nonneg)

section \<open>Decoding\<close>

lemma code_prefix:
  fixes c :: int
  assumes "j < l"
  shows "c div 2 ^ (l - Suc j) = 2 * (c div 2 ^ (l - j)) + of_bool (bit c (l - Suc j))"
proof -
  have "l - j = Suc (l - Suc j)" using assms by simp
  then have "c div 2 ^ (l - j) = c div 2 ^ (l - Suc j) div 2"
    by (simp only: power_Suc2) (simp add: zdiv_zmult2_eq)
  then show ?thesis by (simp add: bit_iff_odd mod_2_eq_odd [symmetric])
qed

lemma push_1_or:
  "0 \<le> cur \<Longrightarrow> push_bit 1 cur OR of_bool b = 2 * cur + (of_bool b :: int)"
  using or_push_bit [of "of_bool b" 1 cur] by (simp add: or.commute)

lemma decode_loop_code:
  assumes "tree_for t ls" "code_ok ls" "s < length ls" "ls ! s \<noteq> 0"
  defines "l \<equiv> ls ! s" and "c \<equiv> code_of ls s"
  shows "j < l \<Longrightarrow> reader_ok d \<Longrightarrow> bits_left d = drop j (code_bits ls s) @ rest \<Longrightarrow>
    \<exists>d'. tinf_decode_loop t (start ls (Suc j)) (c div 2 ^ (l - j) - (first_code ls j + cnt ls j)) (int j) d
      = Some (int s, d') \<and> reads (drop j (code_bits ls s)) d d' \<and> bits_left d' = rest"
proof (induction "l - j" arbitrary: j d)
  case (Suc k)
  let ?b = "bit c (l - Suc j)"
  have l: "l < 16" "0 < l" using assms(2-4) by (auto simp: code_ok_def l_def)
  have len: "length (code_bits ls s) = l" by (simp add: code_bits_def l_def)
  have nth: "code_bits ls s ! j = ?b"
    using Suc.prems(1) by (simp add: code_bits_def rev_nth l_def c_def)
  have dr: "drop j (code_bits ls s) = ?b # drop (Suc j) (code_bits ls s)"
    using Cons_nth_drop_Suc [of j "code_bits ls s"] Suc.prems(1) len nth by simp
  obtain d1 where d1: "tinfReadBits 1 d = Some (of_bool ?b, d1)" "reads [?b] d d1"
      "bits_left d1 = drop (Suc j) (code_bits ls s) @ rest"
    using tinfReadBits_reads [of d "[?b]"] Suc.prems(2,3) dr by auto
  have n: "iload (tf_table t) (int j + 1) = Some (cnt ls (Suc j))"
    using assms(1) l Suc.prems(1) by (simp add: tree_for_def iload_def load_def nat_add_distrib)
  let ?cur = "c div 2 ^ (l - j) - (first_code ls j + cnt ls j)"
  have cur: "0 \<le> ?cur"
  proof -
    have "(first_code ls j + cnt ls j) * 2 ^ (l - j) \<le> c"
      using first_code_step [OF Suc.prems(1), of ls] by (simp add: c_def code_of_def l_def)
    then have "(first_code ls j + cnt ls j) * 2 ^ (l - j) div 2 ^ (l - j) \<le> c div 2 ^ (l - j)"
      by (intro zdiv_mono1) auto
    then show ?thesis by simp
  qed
  have step: "(push_bit 1 ?cur OR of_bool ?b) - cnt ls (Suc j)
      = c div 2 ^ (l - Suc j) - (first_code ls (Suc j) + cnt ls (Suc j))"
    using push_1_or [OF cur, of ?b] code_prefix [OF Suc.prems(1), of c] by simp
  have unfold: "tinf_decode_loop t (start ls (Suc j)) ?cur (int j) d =
      (let cur1 = c div 2 ^ (l - Suc j) - (first_code ls (Suc j) + cnt ls (Suc j)) in
       if 0 \<le> cur1 then tinf_decode_loop t (start ls (Suc (Suc j))) cur1 (int (Suc j)) d1
       else do { x \<leftarrow> iload (tf_trans t) (start ls (Suc (Suc j)) + cur1); Some (x, d1) })"
    by (subst tinf_decode_loop.simps)
      (simp only: d1(1) n step Option.bind.bind_lunit case_prod_conv Let_def start_simps(2) [of ls "Suc j", symmetric]
        of_nat_Suc add.commute [of 1 "int j"])
  show ?case
  proof (cases "Suc j = l")
    case True
    let ?cur1 = "c div 2 ^ (l - Suc j) - (first_code ls (Suc j) + cnt ls (Suc j))"
    have e: "?cur1 = int (rank ls s) - cnt ls l"
      unfolding True by (simp add: c_def code_of_def l_def)
    have "start ls (Suc (Suc j)) + ?cur1 = start ls l + int (rank ls s)"
      unfolding e using start_simps(2) [of ls l] by (simp add: True)
    moreover have "?cur1 < 0" unfolding e using rank_cnt [OF assms(3,4)] by (simp add: l_def)
    moreover have "iload (tf_trans t) (start ls l + int (rank ls s)) = Some (int s)"
      using assms(1,3,4) start_nonneg [of ls l]
      by (auto simp: tree_for_def iload_def place_def l_def nat_add_distrib)
    ultimately have "tinf_decode_loop t (start ls (Suc j)) ?cur (int j) d = Some (int s, d1)"
      unfolding unfold Let_def by (simp only: if_not_P not_le Option.bind.bind_lunit)
    moreover have "drop (Suc j) (code_bits ls s) = []" using True len by simp
    ultimately show ?thesis using d1 dr by auto
  next
    case False
    then have j: "Suc j < l" using Suc.prems(1) by simp
    have cur1: "0 \<le> c div 2 ^ (l - Suc j) - (first_code ls (Suc j) + cnt ls (Suc j))"
    proof -
      have "(first_code ls (Suc j) + cnt ls (Suc j)) * 2 ^ (l - Suc j) \<le> c"
        using first_code_step [OF j, of ls] by (simp add: c_def code_of_def l_def)
      then have "(first_code ls (Suc j) + cnt ls (Suc j)) * 2 ^ (l - Suc j) div 2 ^ (l - Suc j)
          \<le> c div 2 ^ (l - Suc j)"
        by (intro zdiv_mono1) auto
      then show ?thesis by simp
    qed
    have "reader_ok d1" "k = l - Suc j" using d1(2) Suc.hyps(2) by (auto simp: reads_def)
    then obtain d' where "tinf_decode_loop t (start ls (Suc (Suc j)))
          (c div 2 ^ (l - Suc j) - (first_code ls (Suc j) + cnt ls (Suc j))) (int (Suc j)) d1 = Some (int s, d')"
        "reads (drop (Suc j) (code_bits ls s)) d1 d'" "bits_left d' = rest"
      using Suc.hyps(1) [of "Suc j" d1] j d1(3) by blast
    then show ?thesis
      unfolding unfold using cur1 reads_trans [OF d1(2)] dr by (auto simp: Let_def)
  qed
qed simp

text \<open>With the tree of the lengths, the code of a symbol is read as the symbol.\<close>

lemma tinfDecodeSymbol_code:
  assumes "tree_for t ls" "code_ok ls" "s < length ls" "ls ! s \<noteq> 0" "reader_ok d"
    "bits_left d = code_bits ls s @ rest"
  shows "\<exists>d'. tinfDecodeSymbol t d = Some (int s, d') \<and> reads (code_bits ls s) d d' \<and> bits_left d' = rest"
proof -
  have l: "ls ! s < 16" using assms(2,3) by (auto simp: code_ok_def)
  have "code_of ls s < first_code ls (ls ! s) + cnt ls (ls ! s)"
    using rank_cnt [OF assms(3,4)] by (simp add: code_of_def)
  also have "\<dots> \<le> 2 ^ (ls ! s)" using assms(2) l by (simp add: code_ok_def)
  finally have "code_of ls s div 2 ^ (ls ! s) = 0"
    using code_of_nonneg [of ls s] by (simp add: div_pos_pos_trivial)
  then show ?thesis
    using decode_loop_code [OF assms(1-4), of 0 d rest] assms(4-6)
    by (simp add: tinfDecodeSymbol_def start_simps cnt_def)
qed

section \<open>Building the tree\<close>

lemma tinf_count_adds:
  "length t = 16 \<Longrightarrow> \<forall>l \<in> set ls. l < 16 \<Longrightarrow>
    tinf_count (map int ls) t = Some (map (\<lambda>i. t ! i + int (count_list ls i)) [0..<16])"
proof (induction ls arbitrary: t)
  case Nil
  then show ?case by (auto intro!: nth_equalityI)
next
  case (Cons l ls)
  then show ?case
    by (auto simp: iload_def istore_def load_def store_def nth_list_update)
qed

lemma tinf_offs_sums: "tinf_offs ns acc = map (\<lambda>i. acc + sum_list (take i ns)) [0..<length ns]"
proof (induction ns arbitrary: acc)
  case (Cons n ns)
  have "[0..<length (n # ns)] = 0 # map Suc [0..<length ns]" by (simp add: upt_conv_Cons map_Suc_upt del: upt_Suc)
  then show ?case using Cons by (simp add: add.assoc comp_def del: upt_Suc)
qed simp

lemma sum_cnt: "sum_list (take i (map (cnt ls) [0..<16])) = start ls (min i 16)"
  by (simp add: take_map start_def interv_sum_list_conv_sum_set_nat atLeast0LessThan [symmetric] min_def)

lemma start_le_length:
  assumes "\<forall>l \<in> set ls. l < 16" "l \<le> 16"
  shows "start ls l \<le> int (length ls)"
proof -
  have "start ls l \<le> start ls 16" using assms(2) by (rule start_mono)
  also have "\<dots> \<le> (\<Sum>i<16. int (count_list ls i))"
    unfolding start_def by (rule sum_mono) (simp add: cnt_def)
  also have "\<dots> = int (\<Sum>i<16. count_list ls i)" by simp
  also have "(\<Sum>i<16. count_list ls i) = length ls"
    by (rule sum_count_set) (use assms(1) in auto)
  finally show ?thesis .
qed

lemma place_bound:
  assumes "\<forall>l \<in> set ls. l < 16" "s < length ls" "ls ! s \<noteq> 0"
  shows "place ls s < length ls" "int (place ls s) = start ls (ls ! s) + int (rank ls s)"
    "int (place ls s) < start ls (Suc (ls ! s))"
proof -
  show p: "int (place ls s) = start ls (ls ! s) + int (rank ls s)"
    using start_nonneg [of ls "ls ! s"] by (simp add: place_def)
  then show q: "int (place ls s) < start ls (Suc (ls ! s))"
    using rank_cnt [OF assms(2,3)] by (simp add: start_simps)
  have "Suc (ls ! s) \<le> 16" using assms(1,2) by (simp add: Suc_le_eq)
  then have "start ls (Suc (ls ! s)) \<le> int (length ls)" by (rule start_le_length [OF assms(1)])
  then show "place ls s < length ls" using q by simp
qed

lemma place_inj:
  assumes "\<forall>l \<in> set ls. l < 16" "s < length ls" "ls ! s \<noteq> 0" "s' < length ls" "ls ! s' \<noteq> 0" "s < s'"
  shows "place ls s \<noteq> place ls s'"
proof -
  note b = place_bound [OF assms(1-3)] place_bound [OF assms(1,4,5)]
  consider "ls ! s < ls ! s'" | "ls ! s' < ls ! s" | "ls ! s = ls ! s'" by linarith
  then show ?thesis
  proof cases
    case 1
    then have "start ls (Suc (ls ! s)) \<le> start ls (ls ! s')" by (intro start_mono) simp
    then show ?thesis using b by simp
  next
    case 2
    then have "start ls (Suc (ls ! s')) \<le> start ls (ls ! s)" by (intro start_mono) simp
    then show ?thesis using b by simp
  next
    case 3
    then have "rank ls s < rank ls s'"
      unfolding rank_def 3 [symmetric] using count_take_nth [OF assms(6), of ls] assms(4) by simp
    then show ?thesis using 3 by (simp add: place_def)
  qed
qed

lemma tinf_place_places:
  assumes "\<forall>l \<in> set ls. l < 16"
  shows "i \<le> length ls \<Longrightarrow> length offs = 16 \<Longrightarrow>
    \<forall>l<16. l \<noteq> 0 \<longrightarrow> offs ! l = start ls l + int (count_list (take i ls) l) \<Longrightarrow>
    length ls \<le> length tr \<Longrightarrow>
    \<exists>tr'. tinf_place (map int (drop i ls)) (int i) offs tr = Some tr' \<and> length tr' = length tr \<and>
      (\<forall>s < length ls. ls ! s \<noteq> 0 \<longrightarrow> i \<le> s \<longrightarrow> tr' ! place ls s = int s) \<and>
      (\<forall>s < i. ls ! s \<noteq> 0 \<longrightarrow> tr' ! place ls s = tr ! place ls s)"
proof (induction "length ls - i" arbitrary: i offs tr)
  case 0
  then show ?case by auto
next
  case (Suc k)
  have i: "i < length ls" using Suc.hyps(2) by simp
  have d: "drop i ls = ls ! i # drop (Suc i) ls" using i by (simp add: Cons_nth_drop_Suc)
  have t: "take (Suc i) ls = take i ls @ [ls ! i]" using i by (simp add: take_Suc_conv_app_nth)
  have l: "ls ! i < 16" using assms i by simp
  have k: "k = length ls - Suc i" using Suc.hyps(2) by simp
  show ?case
  proof (cases "ls ! i = 0")
    case True
    have o: "\<forall>l<16. l \<noteq> 0 \<longrightarrow> offs ! l = start ls l + int (count_list (take (Suc i) ls) l)"
      using Suc.prems(3) t True by simp
    then obtain tr' where "tinf_place (map int (drop (Suc i) ls)) (int (Suc i)) offs tr = Some tr'"
        "length tr' = length tr"
        "\<forall>s < length ls. ls ! s \<noteq> 0 \<longrightarrow> Suc i \<le> s \<longrightarrow> tr' ! place ls s = int s"
        "\<forall>s < Suc i. ls ! s \<noteq> 0 \<longrightarrow> tr' ! place ls s = tr ! place ls s"
      using Suc.hyps(1) [OF k _ Suc.prems(2) o Suc.prems(4)] i by auto
    moreover have "i \<le> s \<longleftrightarrow> s = i \<or> Suc i \<le> s" for s by auto
    ultimately show ?thesis using d True by (auto simp: add.commute)
  next
    case False
    have pl: "offs ! (ls ! i) = int (place ls i)" "place ls i < length tr"
      using Suc.prems(3,4) l False place_bound [OF assms i False] by (auto simp: rank_def)
    let ?offs = "offs[ls ! i := int (place ls i) + 1]" and ?tr = "tr[place ls i := int i]"
    have o: "\<forall>l<16. l \<noteq> 0 \<longrightarrow> ?offs ! l = start ls l + int (count_list (take (Suc i) ls) l)"
    proof (intro allI impI)
      fix l :: nat
      assume "l < 16" "l \<noteq> 0"
      then show "?offs ! l = start ls l + int (count_list (take (Suc i) ls) l)"
        using Suc.prems(2,3) t pl(1) by (cases "l = ls ! i") auto
    qed
    then obtain tr' where tr': "tinf_place (map int (drop (Suc i) ls)) (int (Suc i)) ?offs ?tr = Some tr'"
        "length tr' = length tr"
        "\<forall>s < length ls. ls ! s \<noteq> 0 \<longrightarrow> Suc i \<le> s \<longrightarrow> tr' ! place ls s = int s"
        "\<forall>s < Suc i. ls ! s \<noteq> 0 \<longrightarrow> tr' ! place ls s = ?tr ! place ls s"
      using Suc.hyps(1) [OF k _ _ o, of ?tr] Suc.prems(2,4) i by auto
    have "tinf_place (map int (drop i ls)) (int i) offs tr = Some tr'"
      using d False l pl Suc.prems(2) tr'(1)
      by (simp add: iload_def istore_def load_def store_def add.commute)
    moreover have "tr' ! place ls s = int s" if "s < length ls" "ls ! s \<noteq> 0" "i \<le> s" for s
      using that tr'(3,4) pl(2) False by (cases "s = i") auto
    moreover have "tr' ! place ls s = tr ! place ls s" if "s < i" "ls ! s \<noteq> 0" for s
      using that tr'(4) place_inj [OF assms _ that(2) i False that(1)] i by simp
    ultimately show ?thesis using tr'(2) by blast
  qed
qed

lemma tinfBuildTree_for:
  assumes "\<forall>l \<in> set ls. l < 16" "length ls \<le> length (tf_trans t)" "map int ls = take num lengths"
    "length ls = num"
  shows "\<exists>t'. tinfBuildTree t lengths num = Some t' \<and> tree_for t' ls \<and>
    length (tf_trans t') = length (tf_trans t)"
proof -
  have lb: "load_block lengths 0 num = Some (map int ls)"
    using assms(3,4) by (metis add_0 block_at_def drop0 length_map length_take load_block_def min.absorb_iff2)
  let ?c = "map (\<lambda>i. replicate 16 0 ! i + int (count_list ls i)) [0..<16]"
  have c: "tinf_count (map int ls) (replicate 16 0) = Some ?c"
    using tinf_count_adds [of "replicate 16 0" ls] assms(1) by simp
  have tab: "?c[0 := 0] = map (cnt ls) [0..<16]"
    by (rule nth_equalityI) (auto simp: cnt_def nth_list_update)
  have offs: "tinf_offs (map (cnt ls) [0..<16]) 0 = map (start ls) [0..<16]"
    by (simp only: tinf_offs_sums sum_cnt length_map length_upt) (auto intro!: map_cong simp: min_def)
  obtain tr where tr: "tinf_place (map int ls) 0 (map (start ls) [0..<16]) (tf_trans t) = Some tr"
      "length tr = length (tf_trans t)" "\<forall>s < length ls. ls ! s \<noteq> 0 \<longrightarrow> tr ! place ls s = int s"
    using tinf_place_places [OF assms(1), of 0 "map (start ls) [0..<16]" "tf_trans t"] assms(2) by auto
  have "tinfBuildTree t lengths num = Some \<lparr>tf_table = map (cnt ls) [0..<16], tf_trans = tr\<rparr>"
    by (simp only: tinfBuildTree_def lb c tab offs tr(1) Option.bind.bind_lunit Let_def)
  moreover have "tree_for \<lparr>tf_table = map (cnt ls) [0..<16], tf_trans = tr\<rparr> ls"
    using tr place_bound(1) [OF assms(1)] assms(2) by (fastforce simp: tree_for_def load_def)
  ultimately show ?thesis using tr(2) by simp
qed

end
