(* ===== verification/InflateStream.thy ===== *)
theory InflateStream
  imports InflateCode
begin

unbundle bit_operations_syntax

text \<open>
  The compressed format (RFC 1951) as data: a stream is a list of blocks, and a block with
  codes is a list of tokens, a byte or a copy of earlier output. \<open>stream_bits\<close> are the bits of
  a stream, \<open>expand_blocks\<close> the bytes it stands for. The decompressor returns those bytes
  for every stream.
\<close>

section \<open>Tokens\<close>

text \<open>\<open>Match i x j y\<close>: length symbol \<open>257 + i\<close> with the extra bits \<open>x\<close>, distance symbol \<open>j\<close> with \<open>y\<close>.\<close>

datatype token = Lit byte | Match nat nat nat nat

primrec copy_from :: "nat \<Rightarrow> nat \<Rightarrow> bytes \<Rightarrow> bytes" where
  "copy_from 0 k out = out"
| "copy_from (Suc n) k out = copy_from n k (out @ [out ! (length out - k)])"

definition match_length :: "nat \<Rightarrow> nat \<Rightarrow> nat" where
  "match_length i x = nat (lengthBase ! i) + x"

definition match_dist :: "nat \<Rightarrow> nat \<Rightarrow> nat" where
  "match_dist j y = nat (distBase ! j) + y"

fun expand_token :: "token \<Rightarrow> bytes \<Rightarrow> bytes" where
  "expand_token (Lit b) out = out @ [b]"
| "expand_token (Match i x j y) out = copy_from (match_length i x) (match_dist j y) out"

fun token_bits :: "nat list \<Rightarrow> nat list \<Rightarrow> token \<Rightarrow> bool list" where
  "token_bits lls dls (Lit b) = code_bits lls (unat b)"
| "token_bits lls dls (Match i x j y) = code_bits lls (257 + i) @ num_bits (lengthBits ! i) x
     @ code_bits dls j @ num_bits (distBits ! j) y"

definition has_code :: "nat list \<Rightarrow> nat \<Rightarrow> bool" where
  "has_code ls s \<longleftrightarrow> s < length ls \<and> ls ! s \<noteq> 0"

fun token_ok :: "nat list \<Rightarrow> nat list \<Rightarrow> bytes \<Rightarrow> token \<Rightarrow> bool" where
  "token_ok lls dls out (Lit b) = has_code lls (unat b)"
| "token_ok lls dls out (Match i x j y) \<longleftrightarrow>
     i < 29 \<and> has_code lls (257 + i) \<and> x < 2 ^ (lengthBits ! i) \<and>
     j < 30 \<and> has_code dls j \<and> y < 2 ^ (distBits ! j) \<and> match_dist j y \<le> length out"

primrec tokens_ok :: "nat list \<Rightarrow> nat list \<Rightarrow> bytes \<Rightarrow> token list \<Rightarrow> bool" where
  "tokens_ok lls dls out [] = True"
| "tokens_ok lls dls out (t # ts) \<longleftrightarrow>
     token_ok lls dls out t \<and> tokens_ok lls dls (expand_token t out) ts"

definition codes_ok :: "nat list \<Rightarrow> nat list \<Rightarrow> bool" where
  "codes_ok lls dls \<longleftrightarrow> code_ok lls \<and> code_ok dls \<and> has_code lls 256 \<and>
     length lls \<le> 288 \<and> length dls \<le> 32"

definition tokens_bits :: "nat list \<Rightarrow> nat list \<Rightarrow> token list \<Rightarrow> bool list" where
  "tokens_bits lls dls ts = concat (map (token_bits lls dls) ts) @ code_bits lls 256"

section \<open>What a step of the decompressor keeps\<close>

definition frame :: "tinfData \<Rightarrow> tinfData \<Rightarrow> bool" where
  "frame d d' \<longleftrightarrow> td_src d' = td_src d \<and> td_cap d' = td_cap d \<and>
     length (tf_trans (td_ltree d')) = length (tf_trans (td_ltree d)) \<and>
     length (tf_trans (td_dtree d')) = length (tf_trans (td_dtree d))"

text \<open>The decompressor took the bits \<open>bs\<close> and its output is now \<open>out\<close>.\<close>

definition takes :: "bool list \<Rightarrow> bytes \<Rightarrow> tinfData \<Rightarrow> tinfData \<Rightarrow> bool" where
  "takes bs out d d' \<longleftrightarrow>
     reader_ok d' \<and> bits_left d = bs @ bits_left d' \<and> td_dest d' = out \<and> frame d d'"

lemma reads_takes: "reads bs d d' \<Longrightarrow> takes bs (td_dest d) d d'"
  using advancedD [of d d'] by (simp add: reads_def takes_def frame_def)

lemma takes_trans: "takes xs out d d1 \<Longrightarrow> takes ys out' d1 d2 \<Longrightarrow> takes (xs @ ys) out' d d2"
  by (auto simp: takes_def frame_def)

lemma takesD:
  "takes bs out d d' \<Longrightarrow> reader_ok d' \<and> bits_left d = bs @ bits_left d' \<and> td_dest d' = out \<and>
     td_src d' = td_src d \<and> td_cap d' = td_cap d"
  by (simp add: takes_def frame_def)

lemma tinf_put_takes:
  assumes "reader_ok d" "length (td_dest d) < td_cap d"
  shows "\<exists>d'. tinf_put b d = Some d' \<and> takes [] (td_dest d @ [b]) d d'"
  using assms by (auto simp: tinf_put_def takes_def frame_def reader_ok_def bits_left_def)

lemma length_copy_from: "length (copy_from n k out) = length out + n"
  by (induction n arbitrary: out) auto

lemma tinf_copy_takes:
  "reader_ok d \<Longrightarrow> 0 < k \<Longrightarrow> k \<le> length (td_dest d) \<Longrightarrow> length (td_dest d) + n \<le> td_cap d \<Longrightarrow>
    \<exists>d'. tinf_copy n (int k) d = Some d' \<and> takes [] (copy_from n k (td_dest d)) d d'"
proof (induction n arbitrary: d)
  case 0
  then show ?case by (auto simp: takes_def frame_def)
next
  case (Suc n)
  let ?b = "td_dest d ! (length (td_dest d) - k)"
  have b: "iload (td_dest d) (int (length (td_dest d)) - int k) = Some ?b"
    using Suc.prems(2,3) by (auto simp: iload_def load_def nat_diff_distrib)
  obtain d1 where d1: "tinf_put ?b d = Some d1" "takes [] (td_dest d @ [?b]) d d1"
    using tinf_put_takes [of d ?b] Suc.prems(1,4) by auto
  obtain d' where "tinf_copy n (int k) d1 = Some d'" "takes [] (copy_from n k (td_dest d1)) d1 d'"
    using Suc.IH [of d1] takesD [OF d1(2)] Suc.prems by auto
  then show ?case
    using b d1 takesD [OF d1(2)] takes_trans [OF d1(2)] by simp
qed

lemma tables_length:
  "length lengthBits = 30" "length lengthBase = 30" "length distBits = 30" "length distBase = 30"
  by (simp_all add: lengthBits_def lengthBase_def distBits_def distBase_def)

lemma tables_bounds:
  "i < 30 \<Longrightarrow> lengthBits ! i < 14" "i < 30 \<Longrightarrow> 0 \<le> lengthBase ! i"
  "i < 30 \<Longrightarrow> distBits ! i < 14" "i < 30 \<Longrightarrow> 0 < distBase ! i"
proof -
  have "list_all (\<lambda>x. x < 14) lengthBits" "list_all (\<lambda>x. 0 \<le> x) lengthBase"
    "list_all (\<lambda>x. x < 14) distBits" "list_all (\<lambda>x. 0 < x) distBase"
    by (simp_all add: lengthBits_def lengthBase_def distBits_def distBase_def)
  then show "i < 30 \<Longrightarrow> lengthBits ! i < 14" "i < 30 \<Longrightarrow> 0 \<le> lengthBase ! i"
    "i < 30 \<Longrightarrow> distBits ! i < 14" "i < 30 \<Longrightarrow> 0 < distBase ! i"
    by (simp_all add: list_all_length tables_length)
qed

text \<open>The two kinds of read, in the form the loops use them.\<close>

lemma read_number:
  assumes "reader_ok d" "bits_left d = num_bits k n @ rest" "n < 2 ^ k" "k < 14"
  shows "\<exists>d'. tinfReadBits k d = Some (int n, d') \<and> takes (num_bits k n) (td_dest d) d d' \<and>
    bits_left d' = rest"
  using tinfReadBits_reads [of d "num_bits k n" rest] bits_val_num_bits [OF assms(3)] assms reads_takes
  by auto

lemma read_symbol:
  assumes "tree_for t ls" "code_ok ls" "has_code ls s" "reader_ok d" "bits_left d = code_bits ls s @ rest"
  shows "\<exists>d'. tinfDecodeSymbol t d = Some (int s, d') \<and> takes (code_bits ls s) (td_dest d) d d' \<and>
    bits_left d' = rest"
  using tinfDecodeSymbol_code [OF assms(1,2) _ _ assms(4,5)] assms(3) reads_takes
  by (auto simp: has_code_def)

lemma length_expand_token: "length out \<le> length (expand_token t out)"
  by (cases t) (simp_all add: length_copy_from)

lemma length_expand: "length out \<le> length (fold expand_token ts out)"
proof (induction ts arbitrary: out)
  case (Cons t ts)
  have "length out \<le> length (expand_token t out)" by (rule length_expand_token)
  also have "\<dots> \<le> length (fold expand_token ts (expand_token t out))" by (rule Cons.IH)
  finally show ?case by simp
qed simp

section \<open>Blocks with codes\<close>

lemma inflate_data_end:
  assumes "tree_for lt lls" "codes_ok lls dls" "reader_ok d" "bits_left d = code_bits lls 256 @ rest"
  shows "\<exists>d'. tinfInflateBlockData lt dt d = Some d' \<and> takes (code_bits lls 256) (td_dest d) d d' \<and>
    bits_left d' = rest"
proof -
  obtain d' where "tinfDecodeSymbol lt d = Some (int 256, d')"
      "takes (code_bits lls 256) (td_dest d) d d'" "bits_left d' = rest"
    using read_symbol [of lt lls 256 d rest] assms by (auto simp: codes_ok_def)
  then show ?thesis by (subst tinfInflateBlockData.simps) simp
qed

lemma inflate_data_token:
  assumes "tree_for lt lls" "tree_for dt dls" "codes_ok lls dls" "reader_ok d"
    "token_ok lls dls (td_dest d) t" "bits_left d = token_bits lls dls t @ rest"
    "length (expand_token t (td_dest d)) \<le> td_cap d"
  shows "\<exists>d'. tinfInflateBlockData lt dt d = tinfInflateBlockData lt dt d' \<and>
    takes (token_bits lls dls t) (expand_token t (td_dest d)) d d' \<and> bits_left d' = rest"
proof (cases t)
  case (Lit b)
  obtain d1 where d1: "tinfDecodeSymbol lt d = Some (int (unat b), d1)"
      "takes (code_bits lls (unat b)) (td_dest d) d d1" "bits_left d1 = rest"
    using read_symbol [of lt lls "unat b" d rest] assms Lit by (auto simp: codes_ok_def)
  obtain d2 where d2: "tinf_put b d1 = Some d2" "takes [] (td_dest d @ [b]) d1 d2"
    using tinf_put_takes [of d1 b] takesD [OF d1(2)] assms(7) Lit by auto
  have "uint b < 256" using uint_byte_range [of b] by simp
  moreover have "word_of_int (int (unat b)) = b" by simp
  ultimately have "tinfInflateBlockData lt dt d = tinfInflateBlockData lt dt d2"
    using d1(1) d2(1) by (subst tinfInflateBlockData.simps) simp
  then show ?thesis using takes_trans [OF d1(2) d2(2)] takesD [OF d2(2)] d1(3) Lit by auto
next
  case (Match i x j y)
  note ok = assms(5) [unfolded Match token_ok.simps]
  have tab: "iload lengthBits (int (257 + i) - 257) = Some (lengthBits ! i)"
      "iload lengthBase (int (257 + i) - 257) = Some (lengthBase ! i)"
      "iload distBits (int j) = Some (distBits ! j)" "iload distBase (int j) = Some (distBase ! j)"
    using ok by (simp_all add: iload_def load_def tables_length)
  have bounds: "lengthBits ! i < 14" "0 \<le> lengthBase ! i" "distBits ! j < 14" "0 < distBase ! j"
    using tables_bounds ok by simp_all
  have bits: "bits_left d = code_bits lls (257 + i) @ num_bits (lengthBits ! i) x @ code_bits dls j
      @ num_bits (distBits ! j) y @ rest"
    using assms(6) Match by simp
  obtain d1 where d1: "tinfDecodeSymbol lt d = Some (int (257 + i), d1)"
      "takes (code_bits lls (257 + i)) (td_dest d) d d1"
      "bits_left d1 = num_bits (lengthBits ! i) x @ code_bits dls j @ num_bits (distBits ! j) y @ rest"
    using read_symbol [OF assms(1) _ _ assms(4) bits] assms(3) ok by (auto simp: codes_ok_def)
  obtain d2 where d2: "tinfReadBits (lengthBits ! i) d1 = Some (int x, d2)"
      "takes (num_bits (lengthBits ! i) x) (td_dest d) d1 d2"
      "bits_left d2 = code_bits dls j @ num_bits (distBits ! j) y @ rest"
    using read_number [OF _ d1(3)] takesD [OF d1(2)] ok bounds by auto
  obtain d3 where d3: "tinfDecodeSymbol dt d2 = Some (int j, d3)"
      "takes (code_bits dls j) (td_dest d) d2 d3" "bits_left d3 = num_bits (distBits ! j) y @ rest"
    using read_symbol [OF assms(2) _ _ _ d2(3)] takesD [OF d2(2)] assms(3) ok
    by (auto simp: codes_ok_def)
  obtain d4 where d4: "tinfReadBits (distBits ! j) d3 = Some (int y, d4)"
      "takes (num_bits (distBits ! j) y) (td_dest d) d3 d4" "bits_left d4 = rest"
    using read_number [OF _ d3(3)] takesD [OF d3(2)] ok bounds by auto
  have pos: "0 < match_dist j y" using bounds(4) by (simp add: match_dist_def)
  have eqs: "int x + lengthBase ! i = int (match_length i x)" "int y + distBase ! j = int (match_dist j y)"
    using bounds by (simp_all add: match_length_def match_dist_def)
  have cap: "td_cap d4 = td_cap d" "td_dest d4 = td_dest d"
    using takesD [OF d1(2)] takesD [OF d2(2)] takesD [OF d3(2)] takesD [OF d4(2)] by simp_all
  obtain d5 where d5: "tinf_copy (match_length i x) (int (match_dist j y)) d4 = Some d5"
      "takes [] (expand_token t (td_dest d)) d4 d5"
    using tinf_copy_takes [of d4 "match_dist j y" "match_length i x"] takesD [OF d4(2)] pos cap ok
      assms(7) Match by (auto simp: length_copy_from)
  have "tinfInflateBlockData lt dt d = tinfInflateBlockData lt dt d5"
    by (subst tinfInflateBlockData.simps)
      (simp add: d1(1) d2(1) d3(1) d4(1) d5(1) tab [simplified] eqs)
  moreover have "takes (token_bits lls dls t) (expand_token t (td_dest d)) d d5"
    using takes_trans [OF d1(2) takes_trans [OF d2(2) takes_trans [OF d3(2) takes_trans [OF d4(2) d5(2)]]]]
    by (simp add: Match)
  ultimately show ?thesis using takesD [OF d5(2)] d4(3) by auto
qed

lemma inflate_data_tokens:
  assumes "tree_for lt lls" "tree_for dt dls" "codes_ok lls dls"
  shows "reader_ok d \<Longrightarrow> tokens_ok lls dls (td_dest d) ts \<Longrightarrow>
    bits_left d = tokens_bits lls dls ts @ rest \<Longrightarrow>
    length (fold expand_token ts (td_dest d)) \<le> td_cap d \<Longrightarrow>
    \<exists>d'. tinfInflateBlockData lt dt d = Some d' \<and>
      takes (tokens_bits lls dls ts) (fold expand_token ts (td_dest d)) d d' \<and> bits_left d' = rest"
proof (induction ts arbitrary: d)
  case Nil
  then show ?case using inflate_data_end [OF assms(1,3)] by (simp add: tokens_bits_def)
next
  case (Cons t ts)
  have bits: "bits_left d = token_bits lls dls t @ tokens_bits lls dls ts @ rest"
    using Cons.prems(3) by (simp add: tokens_bits_def)
  have len: "length (expand_token t (td_dest d)) \<le> td_cap d"
    using length_expand [of "expand_token t (td_dest d)" ts] Cons.prems(4) by simp
  obtain d1 where d1: "tinfInflateBlockData lt dt d = tinfInflateBlockData lt dt d1"
      "takes (token_bits lls dls t) (expand_token t (td_dest d)) d d1"
      "bits_left d1 = tokens_bits lls dls ts @ rest"
    using inflate_data_token [OF assms Cons.prems(1) _ bits len] Cons.prems(2) by auto
  obtain d' where d': "tinfInflateBlockData lt dt d1 = Some d'"
      "takes (tokens_bits lls dls ts) (fold expand_token (t # ts) (td_dest d)) d1 d'" "bits_left d' = rest"
    using Cons.IH [of d1] takesD [OF d1(2)] Cons.prems(2,4) d1(3) by auto
  show ?case using d1(1) d'(1,3) takes_trans [OF d1(2) d'(2)] by (simp add: tokens_bits_def)
qed

section \<open>The fixed codes\<close>

definition fixed_lls :: "nat list" where
  "fixed_lls = replicate 144 8 @ replicate 112 9 @ replicate 24 7 @ replicate 8 8"

definition fixed_dls :: "nat list" where
  "fixed_dls = replicate 32 5"

definition empty_tree :: tinfTree where
  "empty_tree = \<lparr>tf_table = [], tf_trans = replicate 288 0\<rparr>"

lemma fixed_trees_built:
  "tinfBuildTree empty_tree (map int fixed_lls) 288 = Some sltree"
  "tinfBuildTree empty_tree (map int fixed_dls) 32 = Some sdtree"
  by code_simp+

lemma fixed_trees:
  "tree_for sltree fixed_lls" "tree_for sdtree fixed_dls"
proof -
  have len: "length (map int fixed_lls) = 288" "length (map int fixed_dls) = 32"
    by (simp_all add: fixed_lls_def fixed_dls_def)
  show "tree_for sltree fixed_lls"
    using tinfBuildTree_for [of fixed_lls empty_tree 288 "map int fixed_lls"] fixed_trees_built(1) len
    by (auto simp: fixed_lls_def empty_tree_def)
  show "tree_for sdtree fixed_dls"
    using tinfBuildTree_for [of fixed_dls empty_tree 32 "map int fixed_dls"] fixed_trees_built(2) len
    by (auto simp: fixed_dls_def empty_tree_def)
qed

lemma count_list_replicate: "count_list (replicate n x) y = (if x = y then n else 0)"
  by (induction n) auto

lemma fixed_cnt:
  "cnt fixed_lls = (\<lambda>l. if l = 7 then 24 else if l = 8 then 152 else if l = 9 then 112 else 0)"
  "cnt fixed_dls = (\<lambda>l. if l = 5 then 32 else 0)"
  by (simp_all add: fun_eq_iff cnt_def fixed_lls_def fixed_dls_def count_list_replicate)

lemma codes_ok_fixed: "codes_ok fixed_lls fixed_dls"
proof -
  have "first_code fixed_lls l = (if l \<le> 7 then 0 else if l = 8 then 48 else if l = 9 then 400 else 2 ^ l)"
    "first_code fixed_dls l = (if l \<le> 5 then 0 else 2 ^ l)" for l
    by (induction l) (auto simp: fixed_cnt)
  then have "\<forall>l < 16. first_code fixed_lls l + cnt fixed_lls l \<le> 2 ^ l"
    "\<forall>l < 16. first_code fixed_dls l + cnt fixed_dls l \<le> 2 ^ l"
    by (simp_all add: fixed_cnt)
  moreover have "\<forall>l \<in> set fixed_lls. l < 16" "\<forall>l \<in> set fixed_dls. l < 16"
    "length fixed_lls = 288" "length fixed_dls = 32" "fixed_lls ! 256 = 7"
    by (auto simp: fixed_lls_def fixed_dls_def nth_append)
  ultimately show ?thesis by (simp add: codes_ok_def code_ok_def has_code_def)
qed

section \<open>The code lengths of a block with its own codes\<close>

text \<open>The lengths are written as items: a length, or a run of the last length or of zeros.\<close>

datatype item = Len nat | Repeat nat | Zeros nat | Zeros_long nat

fun expand_item :: "item \<Rightarrow> nat list \<Rightarrow> nat list" where
  "expand_item (Len n) ls = ls @ [n]"
| "expand_item (Repeat n) ls = ls @ replicate n (last ls)"
| "expand_item (Zeros n) ls = ls @ replicate n 0"
| "expand_item (Zeros_long n) ls = ls @ replicate n 0"

fun item_bits :: "nat list \<Rightarrow> item \<Rightarrow> bool list" where
  "item_bits cls (Len n) = code_bits cls n"
| "item_bits cls (Repeat n) = code_bits cls 16 @ num_bits 2 (n - 3)"
| "item_bits cls (Zeros n) = code_bits cls 17 @ num_bits 3 (n - 3)"
| "item_bits cls (Zeros_long n) = code_bits cls 18 @ num_bits 7 (n - 11)"

fun item_ok :: "nat list \<Rightarrow> nat list \<Rightarrow> item \<Rightarrow> bool" where
  "item_ok cls ls (Len n) \<longleftrightarrow> n < 16 \<and> has_code cls n"
| "item_ok cls ls (Repeat n) \<longleftrightarrow> 3 \<le> n \<and> n \<le> 6 \<and> ls \<noteq> [] \<and> has_code cls 16"
| "item_ok cls ls (Zeros n) \<longleftrightarrow> 3 \<le> n \<and> n \<le> 10 \<and> has_code cls 17"
| "item_ok cls ls (Zeros_long n) \<longleftrightarrow> 11 \<le> n \<and> n \<le> 138 \<and> has_code cls 18"

primrec items_ok :: "nat list \<Rightarrow> nat list \<Rightarrow> item list \<Rightarrow> bool" where
  "items_ok cls ls [] = True"
| "items_ok cls ls (it # its) \<longleftrightarrow> item_ok cls ls it \<and> items_ok cls (expand_item it ls) its"

definition lengths_array :: "nat list \<Rightarrow> int list" where
  "lengths_array ls = map int ls @ replicate (320 - length ls) 0"

lemma istore_block_lengths:
  assumes "length ls + n \<le> 320"
  shows "istore_block (lengths_array ls) (int (length ls)) (replicate n (int x))
    = Some (lengths_array (ls @ replicate n x))"
proof -
  have "320 - length ls = n + (320 - (length ls + n))" using assms by simp
  then have "replicate (320 - length ls) (0 :: int) = replicate n 0 @ replicate (320 - (length ls + n)) 0"
    by (metis replicate_add)
  then show ?thesis
    using assms by (simp add: istore_block_def store_block_def blit_def lengths_array_def map_replicate)
qed

lemma istore_lengths:
  assumes "length ls < 320"
  shows "istore (lengths_array ls) (int (length ls)) (int x) = Some (lengths_array (ls @ [x]))"
proof -
  have "320 - length ls = Suc (320 - (length ls + 1))" using assms by simp
  then have "replicate (320 - length ls) (0 :: int) = 0 # replicate (320 - (length ls + 1)) 0" by simp
  then show ?thesis
    using assms by (simp add: istore_def store_def lengths_array_def list_update_append)
qed

lemma lengths_array_zeros:
  "length ls + n \<le> 320 \<Longrightarrow> lengths_array (ls @ replicate n 0) = lengths_array ls"
proof -
  assume "length ls + n \<le> 320"
  then have "320 - length ls = n + (320 - (length ls + n))" by simp
  then have "replicate (320 - length ls) (0 :: int) = replicate n 0 @ replicate (320 - (length ls + n)) 0"
    by (metis replicate_add)
  then show ?thesis by (simp add: lengths_array_def map_replicate)
qed

lemma expand_item_grows: "item_ok cls ls it \<Longrightarrow> length ls < length (expand_item it ls)"
  by (cases it) auto

lemma expand_items_grow: "items_ok cls ls its \<Longrightarrow> length ls \<le> length (fold expand_item its ls)"
proof (induction its arbitrary: ls)
  case (Cons it its)
  then have "length ls < length (expand_item it ls)"
    "length (expand_item it ls) \<le> length (fold expand_item its (expand_item it ls))"
    using expand_item_grows [of cls ls it] Cons.IH [of "expand_item it ls"] by simp_all
  then show ?case by simp
qed simp

lemma tinf_lengths_item:
  assumes "tree_for t cls" "code_ok cls" "item_ok cls ls it" "reader_ok d"
    "bits_left d = item_bits cls it @ rest" "int (length ls) < len" "length (expand_item it ls) \<le> 320"
  shows "\<exists>d'. tinf_lengths t len (int (length ls)) (lengths_array ls) d
      = tinf_lengths t len (int (length (expand_item it ls))) (lengths_array (expand_item it ls)) d' \<and>
    takes (item_bits cls it) (td_dest d) d d' \<and> bits_left d' = rest"
proof (cases it)
  case (Len n)
  then have n: "n < 16" using assms(3) by simp
  obtain d1 where d1: "tinfDecodeSymbol t d = Some (int n, d1)"
      "takes (code_bits cls n) (td_dest d) d d1" "bits_left d1 = rest"
    using read_symbol [OF assms(1,2) _ assms(4)] assms(3,5) Len by auto
  have "tinf_lengths t len (int (length ls)) (lengths_array ls) d
      = tinf_lengths t len (int (length ls) + 1) (lengths_array (ls @ [n])) d1"
    using n assms(6) d1(1) istore_lengths [of ls n] assms(7) Len
    by (subst tinf_lengths.simps) simp
  then show ?thesis using d1 Len by (auto simp: add.commute)
next
  case (Repeat n)
  obtain d1 where d1: "tinfDecodeSymbol t d = Some (int 16, d1)"
      "takes (code_bits cls 16) (td_dest d) d d1" "bits_left d1 = num_bits 2 (n - 3) @ rest"
    using read_symbol [OF assms(1,2) _ assms(4), of 16] assms(3,5) Repeat by auto
  have "n - 3 < 2 ^ 2" using assms(3) Repeat by auto
  then obtain d2 where d2: "tinfReadBits 2 d1 = Some (int (n - 3), d2)"
      "takes (num_bits 2 (n - 3)) (td_dest d) d1 d2" "bits_left d2 = rest"
    using read_number [OF _ d1(3)] takesD [OF d1(2)] by auto
  have n: "int (n - 3) + 3 = int n" using assms(3) Repeat by auto
  have "ls \<noteq> []" using assms(3) Repeat by simp
  then have prev: "iload (lengths_array ls) (int (length ls) - 1) = Some (int (last ls))"
    by (cases ls rule: rev_cases) (simp_all add: iload_def load_def lengths_array_def nth_append)
  have "tinf_lengths t len (int (length ls)) (lengths_array ls) d
      = tinf_lengths t len (int (length ls) + int n) (lengths_array (ls @ replicate n (last ls))) d2"
    using assms(6,7) d1(1) d2(1) n prev istore_block_lengths [of ls n "last ls"] Repeat
    by (subst tinf_lengths.simps) simp
  then show ?thesis using takes_trans [OF d1(2) d2(2)] d2(3) Repeat by auto
next
  case (Zeros n)
  obtain d1 where d1: "tinfDecodeSymbol t d = Some (int 17, d1)"
      "takes (code_bits cls 17) (td_dest d) d d1" "bits_left d1 = num_bits 3 (n - 3) @ rest"
    using read_symbol [OF assms(1,2) _ assms(4), of 17] assms(3,5) Zeros by auto
  have "n - 3 < 2 ^ 3" using assms(3) Zeros by auto
  then obtain d2 where d2: "tinfReadBits 3 d1 = Some (int (n - 3), d2)"
      "takes (num_bits 3 (n - 3)) (td_dest d) d1 d2" "bits_left d2 = rest"
    using read_number [OF _ d1(3)] takesD [OF d1(2)] by auto
  have n: "int (n - 3) + 3 = int n" using assms(3) Zeros by auto
  have "tinf_lengths t len (int (length ls)) (lengths_array ls) d
      = tinf_lengths t len (int (length ls) + int n) (lengths_array (ls @ replicate n 0)) d2"
    using assms(6,7) d1(1) d2(1) n lengths_array_zeros [of ls n] Zeros
    by (subst tinf_lengths.simps) simp
  then show ?thesis using takes_trans [OF d1(2) d2(2)] d2(3) Zeros by auto
next
  case (Zeros_long n)
  obtain d1 where d1: "tinfDecodeSymbol t d = Some (int 18, d1)"
      "takes (code_bits cls 18) (td_dest d) d d1" "bits_left d1 = num_bits 7 (n - 11) @ rest"
    using read_symbol [OF assms(1,2) _ assms(4), of 18] assms(3,5) Zeros_long by auto
  have "n - 11 < 2 ^ 7" using assms(3) Zeros_long by auto
  then obtain d2 where d2: "tinfReadBits 7 d1 = Some (int (n - 11), d2)"
      "takes (num_bits 7 (n - 11)) (td_dest d) d1 d2" "bits_left d2 = rest"
    using read_number [OF _ d1(3)] takesD [OF d1(2)] by auto
  have n: "int (n - 11) + 11 = int n" using assms(3) Zeros_long by auto
  have "tinf_lengths t len (int (length ls)) (lengths_array ls) d
      = tinf_lengths t len (int (length ls) + int n) (lengths_array (ls @ replicate n 0)) d2"
    using assms(6,7) d1(1) d2(1) n lengths_array_zeros [of ls n] Zeros_long
    by (subst tinf_lengths.simps) simp
  then show ?thesis using takes_trans [OF d1(2) d2(2)] d2(3) Zeros_long by auto
qed

lemma tinf_lengths_items:
  assumes "tree_for t cls" "code_ok cls"
  shows "items_ok cls ls its \<Longrightarrow> reader_ok d \<Longrightarrow>
    bits_left d = concat (map (item_bits cls) its) @ rest \<Longrightarrow>
    length (fold expand_item its ls) \<le> 320 \<Longrightarrow>
    \<exists>d'. tinf_lengths t (int (length (fold expand_item its ls))) (int (length ls)) (lengths_array ls) d
        = Some (lengths_array (fold expand_item its ls), d') \<and>
      takes (concat (map (item_bits cls) its)) (td_dest d) d d' \<and> bits_left d' = rest"
proof (induction its arbitrary: ls d)
  case Nil
  have "takes [] (td_dest d) d d" using Nil by (simp add: takes_def frame_def)
  then show ?case using Nil by (subst tinf_lengths.simps) simp
next
  case (Cons it its)
  let ?ls = "expand_item it ls"
  have grow: "length ls < length ?ls" "length ?ls \<le> length (fold expand_item its ?ls)"
    using Cons.prems(1) expand_item_grows [of cls ls it] expand_items_grow [of cls ?ls its] by simp_all
  obtain d1 where d1: "tinf_lengths t (int (length (fold expand_item its ?ls))) (int (length ls)) (lengths_array ls) d
        = tinf_lengths t (int (length (fold expand_item its ?ls))) (int (length ?ls)) (lengths_array ?ls) d1"
      "takes (item_bits cls it) (td_dest d) d d1" "bits_left d1 = concat (map (item_bits cls) its) @ rest"
    using tinf_lengths_item [OF assms, of ls it d "concat (map (item_bits cls) its) @ rest"
        "int (length (fold expand_item its ?ls))"] Cons.prems grow by auto
  obtain d' where "tinf_lengths t (int (length (fold expand_item its ?ls))) (int (length ?ls)) (lengths_array ?ls) d1
        = Some (lengths_array (fold expand_item its ?ls), d')"
      "takes (concat (map (item_bits cls) its)) (td_dest d1) d1 d'" "bits_left d' = rest"
    using Cons.IH [of ?ls d1] Cons.prems d1 takesD [OF d1(2)] by auto
  then show ?case using d1(1) takes_trans [OF d1(2)] takesD [OF d1(2)] by auto
qed

end
