(* ===== verification/InflateBlocks.thy ===== *)
theory InflateBlocks
  imports InflateStream
begin

unbundle bit_operations_syntax

text \<open>
  The blocks of a compressed stream and the decompressor on a whole stream.
\<close>

section \<open>Blocks\<close>

text \<open>
  A stored block is padded to the next byte; a block with its own codes gives the lengths
  \<open>cls\<close> of the code for the items, of which \<open>k\<close> are written, the items, and how many of
  the lengths they stand for belong to the first code.
\<close>

datatype block = Stored "bool list" bytes | Fixed "token list" |
  Dynamic "nat list" nat "item list" nat "token list"

definition item_lengths :: "item list \<Rightarrow> nat list" where
  "item_lengths its = fold expand_item its []"

fun block_type :: "block \<Rightarrow> nat" where
  "block_type (Stored pad bs) = 0"
| "block_type (Fixed ts) = 1"
| "block_type (Dynamic cls k its n ts) = 2"

fun block_body :: "block \<Rightarrow> bool list" where
  "block_body (Stored pad bs) = pad @ bits_of_bytes (le_bytes 2 (int (length bs))
     @ le_bytes 2 (65535 - int (length bs)) @ bs)"
| "block_body (Fixed ts) = tokens_bits fixed_lls fixed_dls ts"
| "block_body (Dynamic cls k its n ts) =
     num_bits 5 (n - 257) @ num_bits 5 (length (item_lengths its) - n - 1) @ num_bits 4 (k - 4)
     @ concat (map (\<lambda>c. num_bits 3 (cls ! c)) (take k clcidx))
     @ concat (map (item_bits cls) its)
     @ tokens_bits (take n (item_lengths its)) (drop n (item_lengths its)) ts"

fun expand_block :: "block \<Rightarrow> bytes \<Rightarrow> bytes" where
  "expand_block (Stored pad bs) out = out @ bs"
| "expand_block (Fixed ts) out = fold expand_token ts out"
| "expand_block (Dynamic cls k its n ts) out = fold expand_token ts out"

fun block_ok :: "nat \<Rightarrow> bytes \<Rightarrow> block \<Rightarrow> bool" where
  "block_ok pos out (Stored pad bs) \<longleftrightarrow>
     length pad = (8 - (pos + 3) mod 8) mod 8 \<and> length bs < 65536"
| "block_ok pos out (Fixed ts) = tokens_ok fixed_lls fixed_dls out ts"
| "block_ok pos out (Dynamic cls k its n ts) \<longleftrightarrow>
     length cls = 19 \<and> (\<forall>c \<in> set cls. c < 8) \<and> code_ok cls \<and> 4 \<le> k \<and> k \<le> 19 \<and>
     (\<forall>c \<in> set (drop k clcidx). cls ! c = 0) \<and> items_ok cls [] its \<and>
     257 \<le> n \<and> n < length (item_lengths its) \<and>
     codes_ok (take n (item_lengths its)) (drop n (item_lengths its)) \<and>
     tokens_ok (take n (item_lengths its)) (drop n (item_lengths its)) out ts"

fun stream_bits :: "block list \<Rightarrow> bool list" where
  "stream_bits [] = []"
| "stream_bits (b # bs) = (bs = []) # num_bits 2 (block_type b) @ block_body b @ stream_bits bs"

fun stream_ok :: "nat \<Rightarrow> bytes \<Rightarrow> block list \<Rightarrow> bool" where
  "stream_ok pos out [] = True"
| "stream_ok pos out (b # bs) \<longleftrightarrow> block_ok pos out b \<and>
     stream_ok (pos + 3 + length (block_body b)) (expand_block b out) bs"

definition expand_blocks :: "block list \<Rightarrow> bytes" where
  "expand_blocks bs = fold expand_block bs []"

definition tree_room :: "tinfData \<Rightarrow> bool" where
  "tree_room d \<longleftrightarrow> 288 \<le> length (tf_trans (td_ltree d)) \<and> 288 \<le> length (tf_trans (td_dtree d))"

lemma byte_bits_inj: "byte_bits b = byte_bits c \<Longrightarrow> b = c"
proof (rule bit_eqI)
  fix n
  assume eq: "byte_bits b = byte_bits c" and n: "possible_bit TYPE(8 word) n"
  then have "n < 8" by (simp add: possible_bit_def)
  then show "bit b n = bit c n" using arg_cong [OF eq, of "\<lambda>xs. xs ! n"] by (simp add: byte_bits_def)
qed

lemma bits_of_bytes_prefix:
  "bits_of_bytes xs = bits_of_bytes ys @ rest \<Longrightarrow> \<exists>zs. xs = ys @ zs \<and> bits_of_bytes zs = rest"
proof (induction ys arbitrary: xs)
  case (Cons y ys)
  then obtain x xs' where xs: "xs = x # xs'" by (cases xs) (auto simp: byte_bits_def upt_conv_Cons)
  then have "byte_bits x = byte_bits y" "bits_of_bytes xs' = bits_of_bytes ys @ rest"
    using Cons.prems by simp_all
  then show ?case using Cons.IH [of xs'] byte_bits_inj xs by auto
qed simp

text \<open>After the padding the reader is at a byte.\<close>

lemma aligned_bytes:
  assumes "reader_ok d" "bits_left d = pad @ bits_of_bytes ys @ rest"
    "length pad = length (bits_left d) mod 8"
  shows "\<exists>zs. drop (td_at d) (td_src d) = ys @ zs \<and> bits_of_bytes zs = rest"
proof -
  define pre where "pre = (if td_bitcount d = 0 then []
      else drop (td_bitcount d) (byte_bits (td_src d ! (td_at d - 1))))"
  have left: "bits_left d = pre @ bits_of_bytes (drop (td_at d) (td_src d))"
    by (simp add: bits_left_def pre_def)
  have "length pre < 8" using assms(1) by (auto simp: pre_def reader_ok_def)
  moreover have "length (bits_left d) mod 8 = length pre mod 8"
    unfolding left by (simp only: length_append length_bits_of_bytes mod_mult_self2)
  ultimately have "length pad = length pre" using assms(3) by simp
  then have "bits_of_bytes (drop (td_at d) (td_src d)) = bits_of_bytes ys @ rest"
    using assms(2) left by simp
  then show ?thesis by (rule bits_of_bytes_prefix)
qed

lemma tinf_stored_takes:
  assumes "reader_ok d" "bits_left d = block_body (Stored pad bs) @ rest" "length bs < 65536"
    "length pad = length (bits_left d) mod 8" "length (td_dest d) + length bs \<le> td_cap d"
  shows "\<exists>d'. tinf_stored d = Some (Inr d') \<and>
    takes (block_body (Stored pad bs)) (td_dest d @ bs) d d' \<and> bits_left d' = rest"
proof -
  let ?n = "int (length bs)"
  let ?a = "le_bytes 2 ?n" and ?b = "le_bytes 2 (65535 - ?n)"
  have b: "bits_left d = pad @ bits_of_bytes (?a @ ?b @ bs) @ rest"
    unfolding assms(2) by (simp only: block_body.simps append_assoc)
  obtain zs where zs: "drop (td_at d) (td_src d) = ?a @ ?b @ bs @ zs" "bits_of_bytes zs = rest"
    using aligned_bytes [OF assms(1) b assms(4)] by (metis append_assoc)
  have len: "length (td_src d) = td_at d + 4 + length bs + length zs"
    using arg_cong [OF zs(1), of length] assms(1) by (simp add: reader_ok_def)
  have dr: "drop (td_at d + 2) (td_src d) = ?b @ bs @ zs" "drop (td_at d + 4) (td_src d) = bs @ zs"
    "drop (td_at d + 4 + length bs) (td_src d) = zs"
    using arg_cong [OF zs(1), of "drop 2"] arg_cong [OF zs(1), of "drop 4"]
      arg_cong [OF zs(1), of "drop (4 + length bs)"] by (simp_all add: add.commute add.left_commute)
  have loads: "load_block (td_src d) (td_at d) 2 = Some ?a" "load_block (td_src d) (td_at d + 2) 2 = Some ?b"
    "load_block (td_src d) (td_at d + 4) (length bs) = Some bs"
    using len zs(1) dr by (simp_all add: load_block_def block_at_def)
  have vals: "le_val ?a = ?n" "le_val ?b = 65535 - ?n"
    using assms(3) by (simp_all add: le_val_le_bytes)
  have "NOT (65535 - ?n) AND 65535 = take_bit 16 (NOT (65535 - ?n))"
    by (simp add: take_bit_eq_mask mask_eq_exp_minus_1)
  also have "\<dots> = ?n" using assms(3) by (simp add: not_int_def take_bit_eq_mod)
  finally have check: "?n - (NOT (65535 - ?n) AND 65535) = 0" by simp
  let ?d = "d\<lparr>td_dest := td_dest d @ bs, td_at := td_at d + 4 + length bs, td_bitcount := 0\<rparr>"
  have "tinf_stored d = Some (Inr ?d)"
    using assms(5) by (simp only: tinf_stored_def loads vals check Option.bind.bind_lunit Let_def nat_int) simp
  moreover have "bits_left ?d = rest" using dr(3) zs(2) by (simp add: bits_left_def)
  moreover have "takes (block_body (Stored pad bs)) (td_dest d @ bs) d ?d"
    using len assms(2) calculation(2) by (simp add: takes_def frame_def reader_ok_def)
  ultimately show ?thesis by blast
qed

lemma tinf_code_lengths_takes:
  assumes "\<forall>c \<in> set cls. c < 8"
  shows "reader_ok d \<Longrightarrow> bits_left d = concat (map (\<lambda>c. num_bits 3 (cls ! c)) cs) @ rest \<Longrightarrow>
    \<forall>c \<in> set cs. c < length cls \<Longrightarrow> length ls = length cls \<Longrightarrow>
    \<exists>ls' d'. tinf_code_lengths cs ls d = Some (ls', d') \<and> length ls' = length ls \<and>
      (\<forall>c < length ls. ls' ! c = (if c \<in> set cs then int (cls ! c) else ls ! c)) \<and>
      takes (concat (map (\<lambda>c. num_bits 3 (cls ! c)) cs)) (td_dest d) d d' \<and> bits_left d' = rest"
proof (induction cs arbitrary: ls d)
  case Nil
  then show ?case by (simp add: takes_def frame_def)
next
  case (Cons c cs)
  have "cls ! c < 2 ^ 3" using assms Cons.prems(3) by simp
  then obtain d1 where d1: "tinfReadBits 3 d = Some (int (cls ! c), d1)"
      "takes (num_bits 3 (cls ! c)) (td_dest d) d d1"
      "bits_left d1 = concat (map (\<lambda>c. num_bits 3 (cls ! c)) cs) @ rest"
    using read_number [of d 3 "cls ! c"] Cons.prems(1,2) by auto
  let ?ls = "ls[c := int (cls ! c)]"
  obtain ls' d' where "tinf_code_lengths cs ?ls d1 = Some (ls', d')" "length ls' = length ls"
      "\<forall>i < length ls. ls' ! i = (if i \<in> set cs then int (cls ! i) else ?ls ! i)"
      "takes (concat (map (\<lambda>c. num_bits 3 (cls ! c)) cs)) (td_dest d) d1 d'" "bits_left d' = rest"
    using Cons.IH [of d1 ?ls] d1(3) takesD [OF d1(2)] Cons.prems(3,4) by auto
  then show ?case
    using d1(1) takes_trans [OF d1(2)] Cons.prems(3,4)
    by (intro exI [of _ ls'] exI [of _ d']) (simp add: store_def nth_list_update)
qed

lemma clcidx_facts: "set clcidx = {..<19}" "length clcidx = 19"
  by (simp_all add: clcidx_def lessThan_nat_numeral lessThan_Suc insert_commute)

lemma tinf_code_lengths_all:
  assumes "length cls = 19" "\<forall>c \<in> set cls. c < 8" "4 \<le> k" "k \<le> 19"
    "\<forall>c \<in> set (drop k clcidx). cls ! c = 0" "reader_ok d"
    "bits_left d = concat (map (\<lambda>c. num_bits 3 (cls ! c)) (take k clcidx)) @ rest"
  shows "\<exists>d'. tinf_code_lengths (take k clcidx) (replicate 19 0) d = Some (map int cls, d') \<and>
    takes (concat (map (\<lambda>c. num_bits 3 (cls ! c)) (take k clcidx))) (td_dest d) d d' \<and> bits_left d' = rest"
proof -
  have "\<forall>c \<in> set (take k clcidx). c < length cls"
    using set_take_subset [of k clcidx] clcidx_facts(1) assms(1) by auto
  then obtain ls' d' where r: "tinf_code_lengths (take k clcidx) (replicate 19 0) d = Some (ls', d')"
      "length ls' = 19" "\<forall>c < 19. ls' ! c = (if c \<in> set (take k clcidx) then int (cls ! c) else replicate 19 0 ! c)"
      "takes (concat (map (\<lambda>c. num_bits 3 (cls ! c)) (take k clcidx))) (td_dest d) d d'" "bits_left d' = rest"
    using tinf_code_lengths_takes [OF assms(2,6,7), of "replicate 19 0"] assms(1) by auto
  have "ls' ! c = int (cls ! c)" if "c < 19" for c
  proof (cases "c \<in> set (take k clcidx)")
    case False
    then have "c \<in> set (drop k clcidx)"
      using that clcidx_facts(1) by (metis Un_iff append_take_drop_id lessThan_iff set_append)
    then show ?thesis using False that r(3) assms(5) by simp
  qed (use that r(3) in simp)
  then have "ls' = map int cls" using r(2) assms(1) by (intro nth_equalityI) auto
  then show ?thesis using r by blast
qed

lemma tree_room_takes: "takes bs out d d' \<Longrightarrow> tree_room d \<Longrightarrow> tree_room d'"
  by (simp add: takes_def frame_def tree_room_def)

lemma tinf_dynamic_takes:
  assumes "reader_ok d" "bits_left d = block_body (Dynamic cls k its n ts) @ rest"
    "block_ok pos (td_dest d) (Dynamic cls k its n ts)" "tree_room d" "288 \<le> length (tf_trans junk)"
    "length (fold expand_token ts (td_dest d)) \<le> td_cap d"
  shows "\<exists>d'. tinf_dynamic junk d = Some d' \<and>
    takes (block_body (Dynamic cls k its n ts)) (fold expand_token ts (td_dest d)) d d' \<and> bits_left d' = rest"
proof -
  let ?ls = "item_lengths its" and ?out = "td_dest d"
  let ?lls = "take n ?ls" and ?dls = "drop n ?ls"
  note ok = assms(3) [unfolded block_ok.simps]
  let ?cb = "concat (map (\<lambda>c. num_bits 3 (cls ! c)) (take k clcidx))"
  let ?ib = "concat (map (item_bits cls) its)"
  let ?tb = "tokens_bits ?lls ?dls ts"
  have codes: "codes_ok ?lls ?dls" using ok by blast
  have n: "257 \<le> n" "n < length ?ls" "n \<le> 288" "length ?ls \<le> n + 32" "length ?ls \<le> 320"
    using ok codes by (auto simp: codes_ok_def)
  have small: "n - 257 < 2 ^ 5" "length ?ls - n - 1 < 2 ^ 5" "k - 4 < 2 ^ 4" using n ok by auto
  have b: "bits_left d = num_bits 5 (n - 257) @ num_bits 5 (length ?ls - n - 1) @ num_bits 4 (k - 4)
      @ ?cb @ ?ib @ ?tb @ rest"
    unfolding assms(2) by simp
  obtain d1 where d1: "tinfReadBits 5 d = Some (int (n - 257), d1)"
      "takes (num_bits 5 (n - 257)) ?out d d1"
      "bits_left d1 = num_bits 5 (length ?ls - n - 1) @ num_bits 4 (k - 4) @ ?cb @ ?ib @ ?tb @ rest"
    using read_number [OF assms(1) b small(1)] by auto
  obtain d2 where d2: "tinfReadBits 5 d1 = Some (int (length ?ls - n - 1), d2)"
      "takes (num_bits 5 (length ?ls - n - 1)) ?out d1 d2"
      "bits_left d2 = num_bits 4 (k - 4) @ ?cb @ ?ib @ ?tb @ rest"
    using read_number [OF _ d1(3) small(2)] takesD [OF d1(2)] by auto
  obtain d3 where d3: "tinfReadBits 4 d2 = Some (int (k - 4), d3)"
      "takes (num_bits 4 (k - 4)) ?out d2 d3" "bits_left d3 = ?cb @ ?ib @ ?tb @ rest"
    using read_number [OF _ d2(3) small(3)] takesD [OF d2(2)] by auto
  have nums: "int (n - 257) + 257 = int n" "int (length ?ls - n - 1) + 1 = int (length ?ls - n)"
      "int (k - 4) + 4 = int k" "int n + int (length ?ls - n) = int (length ?ls)"
    using n ok by auto
  have cs: "load_block clcidx 0 k = Some (take k clcidx)"
    using ok clcidx_facts(2) by (simp add: load_block_def block_at_def)
  obtain d4 where d4: "tinf_code_lengths (take k clcidx) (replicate 19 0) d3 = Some (map int cls, d4)"
      "takes ?cb ?out d3 d4" "bits_left d4 = ?ib @ ?tb @ rest"
    using tinf_code_lengths_all [of cls k d3] takesD [OF d3(2)] d3(3) ok by auto
  have "\<forall>c \<in> set cls. c < 16" using ok by auto
  then obtain ct where ct: "tinfBuildTree junk (map int cls) 19 = Some ct" "tree_for ct cls"
    using tinfBuildTree_for [of cls junk 19 "map int cls"] ok assms(5) by auto
  obtain d5 where d5: "tinf_lengths ct (int (length ?ls)) 0 (replicate 320 0) d4 = Some (lengths_array ?ls, d5)"
      "takes ?ib ?out d4 d5" "bits_left d5 = ?tb @ rest"
    using tinf_lengths_items [OF ct(2), of "[]" its d4 "?tb @ rest"] takesD [OF d4(2)] d4(3) ok n(5)
    by (auto simp: item_lengths_def lengths_array_def)
  note to5 = takes_trans [OF d1(2) takes_trans [OF d2(2) takes_trans [OF d3(2) takes_trans [OF d4(2) d5(2)]]]]
  have room: "tree_room d5" by (rule tree_room_takes [OF to5 assms(4)])
  have below: "\<forall>l \<in> set ?lls. l < 16" "\<forall>l \<in> set ?dls. l < 16"
    using codes by (simp_all add: codes_ok_def code_ok_def)
  have arr: "map int ?lls = take n (lengths_array ?ls)"
      "map int ?dls = take (length ?ls - n) (drop n (lengths_array ?ls))"
    using n by (simp_all add: lengths_array_def take_map drop_map)
  have fit: "length ?lls \<le> length (tf_trans (td_ltree d5))" "length ?lls = n"
      "length ?dls \<le> length (tf_trans (td_dtree d5))" "length ?dls = length ?ls - n"
    using room n by (auto simp: tree_room_def)
  obtain lt where lt: "tinfBuildTree (td_ltree d5) (lengths_array ?ls) n = Some lt" "tree_for lt ?lls"
      "length (tf_trans lt) = length (tf_trans (td_ltree d5))"
    using tinfBuildTree_for [OF below(1) fit(1) arr(1) fit(2)] by blast
  obtain dt where dt: "tinfBuildTree (td_dtree d5) (drop n (lengths_array ?ls)) (length ?ls - n) = Some dt"
      "tree_for dt ?dls" "length (tf_trans dt) = length (tf_trans (td_dtree d5))"
    using tinfBuildTree_for [OF below(2) fit(3) arr(2) fit(4)] by blast
  let ?d = "d5\<lparr>td_ltree := lt, td_dtree := dt\<rparr>"
  have ready: "takes [] ?out d5 ?d"
  proof -
    have "reader_ok d5" "td_dest d5 = ?out" using takesD [OF d5(2)] by simp_all
    then show ?thesis
      using lt(3) dt(3) by (simp add: takes_def frame_def reader_ok_def bits_left_def)
  qed
  obtain d' where d': "tinfInflateBlockData lt dt ?d = Some d'" "takes ?tb (fold expand_token ts ?out) ?d d'"
      "bits_left d' = rest"
    using inflate_data_tokens [OF lt(2) dt(2) codes, of ?d ts rest] takesD [OF ready] takesD [OF to5]
      d5(3) ok assms(6) by auto
  have "tinf_dynamic junk d = Some d'"
    by (simp only: tinf_dynamic_def d1(1) d2(1) d3(1) d4(1) d5(1) ct(1) lt(1) dt(1) d'(1) cs nums nat_int
        Option.bind.bind_lunit Let_def case_prod_conv)
  moreover have "takes (block_body (Dynamic cls k its n ts)) (fold expand_token ts ?out) d d'"
    using takes_trans [OF to5 takes_trans [OF ready d'(2)]] by simp
  ultimately show ?thesis using d'(3) by blast
qed

lemma pad_length:
  assumes "q + m = 8 * n"
  shows "(8 - q mod 8) mod 8 = m mod (8 :: nat)"
proof -
  have m: "(q mod 8 + m mod 8) mod 8 = 0" using assms by (simp add: mod_add_eq)
  show ?thesis
  proof (cases "q mod 8 = 0")
    case False
    have "(a + b) mod 8 = 0 \<Longrightarrow> a \<noteq> 0 \<Longrightarrow> a < 8 \<Longrightarrow> b < 8 \<Longrightarrow> 8 - a = b" for a b :: nat
      by presburger
    then have "8 - q mod 8 = m mod 8" using m False by simp
    then show ?thesis by simp
  qed (use m in simp)
qed

lemma tinf_block_takes:
  assumes "reader_ok d" "bits_left d = block_body b @ rest" "block_ok pos (td_dest d) b" "tree_room d"
    "288 \<le> length (tf_trans junk)" "length (expand_block b (td_dest d)) \<le> td_cap d"
    "pos + 3 + length (bits_left d) = 8 * length (td_src d)"
  shows "\<exists>d'. tinf_block junk (int (block_type b)) d = Some (Inr d') \<and>
    takes (block_body b) (expand_block b (td_dest d)) d d' \<and> bits_left d' = rest"
proof (cases b)
  case (Stored pad bs)
  have "length pad = length (bits_left d) mod 8"
    using assms(3) pad_length [OF assms(7)] by (simp add: Stored)
  then show ?thesis
    using tinf_stored_takes [OF assms(1) assms(2) [unfolded Stored]] assms(3,6) Stored
    by (simp add: tinf_block_def)
next
  case (Fixed ts)
  then show ?thesis
    using inflate_data_tokens [OF fixed_trees codes_ok_fixed assms(1), of ts rest] assms(2,3,6)
    by (auto simp: tinf_block_def)
next
  case (Dynamic cls k its n ts)
  then show ?thesis
    using tinf_dynamic_takes [OF assms(1) assms(2) [unfolded Dynamic] assms(3) [unfolded Dynamic] assms(4,5)]
      assms(6) by (auto simp: tinf_block_def)
qed

lemma length_expand_block: "length out \<le> length (expand_block b out)"
  by (cases b) (simp_all add: length_expand)

lemma length_expand_blocks: "length out \<le> length (fold expand_block bs out)"
proof (induction bs arbitrary: out)
  case (Cons b bs)
  have "length out \<le> length (expand_block b out)" by (rule length_expand_block)
  also have "\<dots> \<le> length (fold expand_block bs (expand_block b out))" by (rule Cons.IH)
  finally show ?case by simp
qed simp

lemma read_flag:
  assumes "reader_ok d" "bits_left d = x # rest"
  shows "\<exists>d'. tinfReadBits 1 d = Some (of_bool x, d') \<and> takes [x] (td_dest d) d d' \<and> bits_left d' = rest"
  using tinfReadBits_reads [of d "[x]" rest] assms reads_takes by fastforce

lemma tinf_blocks_takes:
  assumes "288 \<le> length (tf_trans junk)"
  shows "bs \<noteq> [] \<Longrightarrow> reader_ok d \<Longrightarrow> bits_left d = stream_bits bs @ rest \<Longrightarrow>
    stream_ok pos (td_dest d) bs \<Longrightarrow> tree_room d \<Longrightarrow>
    length (fold expand_block bs (td_dest d)) \<le> td_cap d \<Longrightarrow>
    pos + length (bits_left d) = 8 * length (td_src d) \<Longrightarrow>
    \<exists>d'. tinf_blocks junk d = Some (Inr d') \<and>
      takes (stream_bits bs) (fold expand_block bs (td_dest d)) d d' \<and> bits_left d' = rest"
proof (induction bs arbitrary: d pos)
  case (Cons b bs)
  let ?out = "td_dest d" and ?more = "stream_bits bs @ rest"
  have bits: "bits_left d = (bs = []) # num_bits 2 (block_type b) @ block_body b @ ?more"
    using Cons.prems(3) by simp
  obtain d1 where d1: "tinfReadBits 1 d = Some (of_bool (bs = []), d1)" "takes [bs = []] ?out d d1"
      "bits_left d1 = num_bits 2 (block_type b) @ block_body b @ ?more"
    using read_flag [OF Cons.prems(2) bits] by blast
  have "block_type b < 2 ^ 2" by (cases b) simp_all
  then obtain d2 where d2: "tinfReadBits 2 d1 = Some (int (block_type b), d2)"
      "takes (num_bits 2 (block_type b)) ?out d1 d2" "bits_left d2 = block_body b @ ?more"
    using read_number [OF _ d1(3)] takesD [OF d1(2)] by auto
  note to2 = takes_trans [OF d1(2) d2(2)]
  have len: "length (expand_block b ?out) \<le> td_cap d"
    using length_expand_blocks [of "expand_block b ?out" bs] Cons.prems(6) by simp
  have pos: "pos + 3 + length (bits_left d2) = 8 * length (td_src d2)"
    using Cons.prems(7) bits d2(3) takesD [OF to2] by simp
  obtain d3 where d3: "tinf_block junk (int (block_type b)) d2 = Some (Inr d3)"
      "takes (block_body b) (expand_block b ?out) d2 d3" "bits_left d3 = ?more"
    using tinf_block_takes [of d2 b ?more pos junk, OF _ d2(3) _ _ assms _ pos] Cons.prems(4) len
      takesD [OF to2] tree_room_takes [OF to2 Cons.prems(5)] by auto
  note to3 = takes_trans [OF to2 d3(2)]
  show ?case
  proof (cases "bs = []")
    case True
    then have "tinf_blocks junk d = Some (Inr d3)"
      using d1(1) d2(1) d3(1) by (subst tinf_blocks.simps) simp
    then show ?thesis using to3 d3(3) True by simp
  next
    case False
    have step: "tinf_blocks junk d = tinf_blocks junk d3"
      using False d1(1) d2(1) d3(1) by (subst tinf_blocks.simps) simp
    have "pos + 3 + length (block_body b) + length (bits_left d3) = 8 * length (td_src d3)"
      using Cons.prems(7) bits d3(3) takesD [OF to3] by simp
    then obtain d' where "tinf_blocks junk d3 = Some (Inr d')"
        "takes (stream_bits bs) (fold expand_block (b # bs) ?out) d3 d'" "bits_left d' = rest"
      using Cons.IH [OF False _ d3(3), of "pos + 3 + length (block_body b)"] takesD [OF to3]
        Cons.prems(4,6) tree_room_takes [OF to3 Cons.prems(5)] by auto
    then show ?thesis using step takes_trans [OF to3] False by simp
  qed
qed simp

lemma tinf_stream_result:
  assumes "blocks \<noteq> []" "stream_ok 0 [] blocks" "bits_of_bytes src = stream_bits blocks @ rest"
    "length (expand_blocks blocks) \<le> cap"
    "288 \<le> length (tf_trans junk)" "288 \<le> length (tf_trans ljunk)" "288 \<le> length (tf_trans djunk)"
  shows "tinfUncompress junk ljunk djunk cap src = Some (Inr (expand_blocks blocks))"
proof -
  let ?d = "\<lparr>td_src = src, td_at = 0, td_bitcount = 0, td_dest = [], td_cap = cap,
    td_ltree = ljunk, td_dtree = djunk\<rparr>"
  have left: "bits_left ?d = bits_of_bytes src" by (simp add: bits_left_def)
  have "length (bits_of_bytes src) = length (stream_bits blocks) + length rest"
    by (simp only: assms(3) length_append)
  then have total: "length (stream_bits blocks) + length rest = 8 * length src" by simp
  have "reader_ok ?d" "tree_room ?d" using assms(6,7) by (simp_all add: reader_ok_def tree_room_def)
  then obtain d' where "tinf_blocks junk ?d = Some (Inr d')"
      "takes (stream_bits blocks) (expand_blocks blocks) ?d d'"
    using tinf_blocks_takes [OF assms(5,1), of ?d rest 0] assms(2-4) left total
    by (auto simp: expand_blocks_def)
  then show ?thesis using takesD [of _ _ ?d d'] by (simp add: tinfUncompress_def)
qed

text \<open>
  C11. The decompressor returns the bytes that a compressed stream stands for, for every
  stream of the format: any sequence of stored blocks, blocks with the fixed codes and
  blocks with codes of their own, whatever the lengths of these codes are, as long as the
  output fits the buffer. It reads no byte outside the source and writes none outside
  the buffer.
\<close>

theorem tinf_inflates_stream:
  assumes "blocks \<noteq> []" "stream_ok 0 [] blocks" "bits_of_bytes src = stream_bits blocks @ rest"
    "length (expand_blocks blocks) \<le> cap"
    "288 \<le> length (tf_trans junk)" "288 \<le> length (tf_trans ljunk)" "288 \<le> length (tf_trans djunk)"
  shows "tinfUncompress junk ljunk djunk cap src = Some (Inr (expand_blocks blocks))"
  by (rule tinf_stream_result [OF assms])

definition example_blocks :: "block list" where
  "example_blocks = [Stored (replicate 5 False) [104, 105], Fixed [Lit 97, Match 0 0 0 0]]"

definition example_source :: bytes where
  "example_source = [0, 2, 0, 253, 255, 104, 105, 75, 4, 2, 0]"

lemma fixed_first_code: "first_code fixed_lls l =
    (if l \<le> 7 then 0 else if l = 8 then 48 else if l = 9 then 400 else 2 ^ l)"
    "first_code fixed_dls l = (if l \<le> 5 then 0 else 2 ^ l)"
  by (induction l) (auto simp: fixed_cnt)

lemma example_codes:
  "code_bits fixed_lls 97 = [True, False, False, True, False, False, False, True]"
  "code_bits fixed_lls 257 = [False, False, False, False, False, False, True]"
  "code_bits fixed_lls 256 = [False, False, False, False, False, False, False]"
  "code_bits fixed_dls 0 = [False, False, False, False, False]"
proof -
  have n: "fixed_lls ! 97 = 8" "fixed_lls ! 257 = 7" "fixed_lls ! 256 = 7" "fixed_dls ! 0 = 5"
    by (simp_all add: fixed_lls_def fixed_dls_def nth_append)
  have r: "count_list (take 97 fixed_lls) 8 = 97" "count_list (take 257 fixed_lls) 7 = 1"
    "count_list (take 256 fixed_lls) 7 = 0"
    by (simp_all add: fixed_lls_def count_list_replicate)
  have c: "code_of fixed_lls 97 = 145" "code_of fixed_lls 257 = 1" "code_of fixed_lls 256 = 0"
    "code_of fixed_dls 0 = 0"
    by (simp_all only: code_of_def rank_def n r fixed_first_code) simp_all
  show "code_bits fixed_lls 97 = [True, False, False, True, False, False, False, True]"
    "code_bits fixed_lls 257 = [False, False, False, False, False, False, True]"
    "code_bits fixed_lls 256 = [False, False, False, False, False, False, False]"
    "code_bits fixed_dls 0 = [False, False, False, False, False]"
    by (simp_all only: code_bits_def n c) code_simp+
qed

lemma example_bits: "bits_of_bytes example_source = stream_bits example_blocks @ replicate 2 False"
proof -
  have "stream_bits example_blocks = False # num_bits 2 0 @ replicate 5 False
      @ bits_of_bytes (le_bytes 2 2 @ le_bytes 2 65533 @ [104, 105])
      @ True # num_bits 2 1 @ code_bits fixed_lls 97 @ code_bits fixed_lls 257 @ num_bits 0 0
      @ code_bits fixed_dls 0 @ num_bits 0 0 @ code_bits fixed_lls 256"
    by (simp add: example_blocks_def tokens_bits_def lengthBits_def distBits_def)
  also have "\<dots> @ replicate 2 False = bits_of_bytes example_source"
    unfolding example_codes by code_simp
  finally show ?thesis by simp
qed

lemma example_stream_ok: "stream_ok 0 [] example_blocks"
  by (simp add: example_blocks_def has_code_def fixed_lls_def fixed_dls_def nth_append
      match_dist_def distBase_def)

lemma example_expands: "expand_blocks example_blocks = [104, 105, 97, 97, 97, 97]"
  by code_simp

theorem tinf_inflates_stream_witness:
  "tinfUncompress empty_tree empty_tree empty_tree 6 [0, 2, 0, 253, 255, 104, 105, 75, 4, 2, 0]
    = Some (Inr [104, 105, 97, 97, 97, 97])"
proof -
  have "example_blocks \<noteq> []" by (simp add: example_blocks_def)
  from tinf_inflates_stream [OF this example_stream_ok example_bits, of 6 empty_tree empty_tree empty_tree]
  show ?thesis
    by (simp only: example_expands example_source_def) (simp add: empty_tree_def)
qed

text \<open>
  The output is not compared with the buffer while it grows: a stream that unpacks to more than
  the size its directory entry declares is written past the end.
\<close>

theorem tinf_output_overrun:
  "tinfUncompress empty_tree empty_tree empty_tree 1 [1, 2, 0, 253, 255, 104, 105] = None"
proof -
  let ?d = "\<lparr>td_src = [1, 2, 0, 253, 255, 104, 105], td_at = 0, td_bitcount = 0, td_dest = [],
    td_cap = 1, td_ltree = empty_tree, td_dtree = empty_tree\<rparr>"
  have and3: "Suc (Suc (Suc 0)) AND 7 = 3" by code_simp
  have r: "tinfReadBits 1 ?d = Some (1, ?d\<lparr>td_at := 1, td_bitcount := 1\<rparr>)"
    "tinfReadBits 2 (?d\<lparr>td_at := 1, td_bitcount := 1\<rparr>) = Some (0, ?d\<lparr>td_at := 1, td_bitcount := 3\<rparr>)"
    using and3 by (simp add: tinfReadBits_def, subst tinf_read_loop.simps, simp add: mem_defs)+
  have "tinf_block empty_tree 0 (?d\<lparr>td_at := 1, td_bitcount := 3\<rparr>) = None"
    by (simp add: tinf_block_def tinf_stored_def mem_defs block_at_def)
  then show ?thesis
    by (simp only: tinfUncompress_def tinf_blocks.simps [of empty_tree ?d] r Option.bind.bind_lunit prod.case)
      simp
qed

end
