(* ===== verification/XlsxText.thy ===== *)
theory XlsxText
  imports CString
begin

text \<open>
  How the table converter (\<open>myxml2/myxml2.cpp\<close>) rewrites the text of a cell. \<open>strReplace\<close>
  and \<open>removeSpace\<close> work in place: \<open>buf\<close> is the block the pointer points into, from there
  on, \<open>p\<close> and \<open>pp\<close> are the offsets the text is read and written at. A result \<open>None\<close> is an
  access outside the block or a loop that does not end; \<open>xlsx_error\<close> are the messages of
  \<open>MYXML2_FAIL\<close>, after which the program ends.
\<close>

datatype xlsx_error =
    Err_replace_longer | Err_nested_bracket | Err_extra_bracket | Err_cell_too_long
  | Err_too_many_strings | Err_strings_too_long | Err_xml_end | Err_xml_nodes | Err_xml_attrs
  | Err_xml_many_attrs | Err_xml_tag | Err_many_sheets | Err_many_shared | Err_shared_too_long
  | Err_row_order | Err_many_rows | Err_many_cols | Err_few_rows | Err_same_id | Err_same_name
  | Err_memory | Err_small_buffer | Err_negative | Err_output_too_long | Err_bad_type
  | Err_zip_entry | Err_file_missing | Err_file_read | Err_file_method | Err_file_too_big
  | Err_inflate | Err_share_full | Err_many_files | Err_long_name | Err_zip_read | Err_no_input | Err_no_output

section \<open>strReplace\<close>

partial_function (option) str_replace_loop ::
    "bytes \<Rightarrow> bytes \<Rightarrow> nat \<Rightarrow> nat \<Rightarrow> nat \<Rightarrow> bytes \<Rightarrow> (bytes \<times> nat) option" where
  "str_replace_loop b c alen p pp buf = do {
     x \<leftarrow> load buf p;
     if x = 0 then Some (buf, pp)
     else if p + length b \<le> alen \<and> block_at p (length b) buf = b then do {
       buf1 \<leftarrow> store_block buf pp c;
       str_replace_loop b c alen (p + length b) (pp + length c) buf1
     }
     else do {
       buf1 \<leftarrow> store buf pp x;
       str_replace_loop b c alen (p + 1) (pp + 1) buf1
     }
   }"

definition str_terminate :: "bytes \<Rightarrow> nat \<Rightarrow> bytes option" where
  "str_terminate buf pp = do { x \<leftarrow> load buf pp; if x \<noteq> 0 then store buf pp 0 else Some buf }"

definition strReplace :: "bytes \<Rightarrow> bytes \<Rightarrow> bytes \<Rightarrow> (xlsx_error + bytes) option" where
  "strReplace buf b c = do {
     alen \<leftarrow> strlen buf;
     if length b < length c then Some (Inl Err_replace_longer)
     else do {
       (buf1, pp) \<leftarrow> str_replace_loop b c alen 0 0 buf;
       buf2 \<leftarrow> str_terminate buf1 pp;
       Some (Inr buf2)
     }
   }"

text \<open>What it computes: every occurrence from the left is replaced, results are not searched again.\<close>

function replace_all :: "bytes \<Rightarrow> bytes \<Rightarrow> bytes \<Rightarrow> bytes" where
  "replace_all b c s =
     (if s = [] then []
      else if b \<noteq> [] \<and> take (length b) s = b then c @ replace_all b c (drop (length b) s)
      else hd s # replace_all b c (tl s))"
  by pat_completeness auto
termination by (relation "measure (\<lambda>(b, c, s). length s)") auto

declare replace_all.simps [simp del]

lemma replace_all_nil [simp]: "replace_all b c [] = []"
  by (simp add: replace_all.simps)

lemma replace_all_hit [simp]: "b \<noteq> [] \<Longrightarrow> replace_all b c (b @ s) = c @ replace_all b c s"
  by (subst replace_all.simps) simp

lemma replace_all_skip:
  "\<not> (b \<noteq> [] \<and> take (length b) (x # s) = b) \<Longrightarrow> replace_all b c (x # s) = x # replace_all b c s"
  by (subst replace_all.simps) auto

text \<open>Induction over the occurrences.\<close>

lemma replace_induct [case_names Nil Hit Skip]:
  assumes "P []"
    "\<And>s. b \<noteq> [] \<Longrightarrow> P s \<Longrightarrow> P (b @ s)"
    "\<And>x s. \<not> (b \<noteq> [] \<and> take (length b) (x # s) = b) \<Longrightarrow> P s \<Longrightarrow> P (x # s)"
  shows "P s"
proof (induction "length s" arbitrary: s rule: less_induct)
  case less
  show ?case
  proof (cases s)
    case (Cons x xs)
    show ?thesis
    proof (cases "b \<noteq> [] \<and> take (length b) s = b")
      case True
      then have "s = b @ drop (length b) s" by (metis append_take_drop_id)
      moreover have "P (drop (length b) s)" using less True Cons by simp
      ultimately show ?thesis using assms(2) True by metis
    next
      case False
      then show ?thesis using assms(3) less Cons by simp
    qed
  qed (use assms(1) in simp)
qed

lemma replace_all_length: "length c \<le> length b \<Longrightarrow> length (replace_all b c s) \<le> length s"
  by (induction s rule: replace_induct [where b = b]) (auto simp: replace_all_skip)

lemma replace_all_no_zero: "0 \<notin> set c \<Longrightarrow> 0 \<notin> set s \<Longrightarrow> 0 \<notin> set (replace_all b c s)"
  by (induction s rule: replace_induct [where b = b]) (auto simp: replace_all_skip)

lemma store_at: "store (xs @ y # ys) (length xs) v = Some (xs @ v # ys)"
  by (simp add: store_def)

lemma load_at: "load (xs @ y # ys) (length xs) = Some y"
  by (simp add: load_def nth_append)

lemma store_block_at:
  "length zs = length ys \<Longrightarrow> store_block (xs @ ys @ ws) (length xs) zs = Some (xs @ zs @ ws)"
  by (simp add: store_block_def blit_def)

lemma str_replace_loop_steps:
  "load buf p = Some 0 \<Longrightarrow> str_replace_loop b c alen p pp buf = Some (buf, pp)"
  "load buf p = Some x \<Longrightarrow> x \<noteq> 0 \<Longrightarrow> p + length b \<le> alen \<Longrightarrow> block_at p (length b) buf = b \<Longrightarrow>
    store_block buf pp c = Some buf1 \<Longrightarrow>
    str_replace_loop b c alen p pp buf = str_replace_loop b c alen (p + length b) (pp + length c) buf1"
  "load buf p = Some x \<Longrightarrow> x \<noteq> 0 \<Longrightarrow>
    \<not> (p + length b \<le> alen \<and> block_at p (length b) buf = b) \<Longrightarrow> store buf pp x = Some buf1 \<Longrightarrow>
    str_replace_loop b c alen p pp buf = str_replace_loop b c alen (p + 1) (pp + 1) buf1"
  by (subst str_replace_loop.simps; auto)+

text \<open>
  The block while the loop runs: what is written, what has been read and not been
  overwritten, what is still to read, and the rest from the end of the string.
\<close>

lemma str_replace_loop_works:
  assumes "length c \<le> length b" "b \<noteq> []"
  shows "0 \<notin> set todo \<Longrightarrow>
    \<exists>mid'. str_replace_loop b c (length (out @ mid @ todo)) (length (out @ mid)) (length out)
        (out @ mid @ todo @ 0 # r)
      = Some (out @ replace_all b c todo @ mid' @ 0 # r, length (out @ replace_all b c todo)) \<and>
      length (replace_all b c todo @ mid') = length (mid @ todo)"
proof (induction todo arbitrary: out mid rule: replace_induct [where b = b])
  case Nil
  have "load (out @ mid @ 0 # r) (length (out @ mid)) = Some 0"
    using load_at [of "out @ mid" 0 r] by simp
  then show ?case by (simp add: str_replace_loop_steps(1))
next
  case (Hit s)
  obtain x b' where b: "b = x # b'" using Hit(1) by (cases b) auto
  let ?buf = "out @ mid @ (b @ s) @ 0 # r"
  have x: "load ?buf (length (out @ mid)) = Some x" "x \<noteq> 0"
    using load_at [of "out @ mid" x "b' @ s @ 0 # r"] Hit(3) b by auto
  have blk: "block_at (length (out @ mid)) (length b) ?buf = b" by (simp add: block_at_def)
  define mid1 where "mid1 = drop (length c) (mid @ b)"
  have len: "length c \<le> length (mid @ b)" using assms(1) by simp
  obtain u where u: "mid @ b = u @ mid1" "length c = length u"
  proof (rule that [of "take (length c) (mid @ b)"])
    show "mid @ b = take (length c) (mid @ b) @ mid1" by (simp only: mid1_def append_take_drop_id)
    show "length c = length (take (length c) (mid @ b))" using len by (simp only: length_take min.absorb2)
  qed
  have "?buf = out @ (mid @ b) @ s @ 0 # r" by simp
  then have sp: "?buf = out @ u @ mid1 @ s @ 0 # r" by (simp only: u(1) append_assoc)
  have st: "store_block ?buf (length out) c = Some ((out @ c) @ mid1 @ s @ 0 # r)"
    unfolding sp by (subst store_block_at) (simp_all add: u(2))
  have lens: "length (out @ mid @ b @ s) = length ((out @ c) @ mid1 @ s)"
    "length (out @ mid) + length b = length ((out @ c) @ mid1)" "length out + length c = length (out @ c)"
    using len by (simp_all add: mid1_def)
  obtain mid' where m: "str_replace_loop b c (length ((out @ c) @ mid1 @ s)) (length ((out @ c) @ mid1))
        (length (out @ c)) ((out @ c) @ mid1 @ s @ 0 # r)
      = Some ((out @ c) @ replace_all b c s @ mid' @ 0 # r, length ((out @ c) @ replace_all b c s))"
      "length (replace_all b c s @ mid') = length (mid1 @ s)"
    using Hit(2) [of "out @ c" mid1] Hit(3) by auto
  have fits: "length (out @ mid) + length b \<le> length (out @ mid @ b @ s)" by simp
  show ?case
    unfolding str_replace_loop_steps(2) [OF x fits blk st] unfolding lens m(1)
    using m(2) Hit(1) len by (intro exI [of _ mid']) (simp add: mid1_def)
next
  case (Skip x s)
  let ?buf = "out @ mid @ (x # s) @ 0 # r"
  have x: "load ?buf (length (out @ mid)) = Some x" "x \<noteq> 0"
    using load_at [of "out @ mid" x "s @ 0 # r"] Skip(3) by auto
  have no: "\<not> (length (out @ mid) + length b \<le> length (out @ mid @ x # s) \<and>
      block_at (length (out @ mid)) (length b) ?buf = b)"
  proof
    assume a: "length (out @ mid) + length b \<le> length (out @ mid @ x # s) \<and>
      block_at (length (out @ mid)) (length b) ?buf = b"
    then have "take (length b) ((x # s) @ 0 # r) = b" "length b - length (x # s) = 0"
      by (simp_all add: block_at_def)
    then have "take (length b) (x # s) = b" by (simp only: take_append take_0 append_Nil2)
    then show False using Skip(1) assms(2) by blast
  qed
  define mid1 where "mid1 = tl (mid @ [x])"
  have sp: "?buf = out @ hd (mid @ [x]) # mid1 @ s @ 0 # r"
    by (cases mid) (simp_all add: mid1_def)
  have st: "store ?buf (length out) x = Some ((out @ [x]) @ mid1 @ s @ 0 # r)"
    unfolding sp by (subst store_at) simp
  have lens: "length (out @ mid @ x # s) = length ((out @ [x]) @ mid1 @ s)"
    "length (out @ mid) + 1 = length ((out @ [x]) @ mid1)" "length out + 1 = length (out @ [x])"
    by (simp_all add: mid1_def)
  obtain mid' where m: "str_replace_loop b c (length ((out @ [x]) @ mid1 @ s)) (length ((out @ [x]) @ mid1))
        (length (out @ [x])) ((out @ [x]) @ mid1 @ s @ 0 # r)
      = Some ((out @ [x]) @ replace_all b c s @ mid' @ 0 # r, length ((out @ [x]) @ replace_all b c s))"
      "length (replace_all b c s @ mid') = length (mid1 @ s)"
    using Skip(2) [of "out @ [x]" mid1] Skip(3) by auto
  show ?case
    unfolding str_replace_loop_steps(3) [OF x no st] unfolding lens m(1) replace_all_skip [OF Skip(1)]
    using m(2) by (intro exI [of _ mid']) (simp add: mid1_def)
qed

lemma str_terminate_works:
  "\<exists>r'. str_terminate (out @ mid @ 0 # r) (length out) = Some (out @ 0 # r') \<and> length r' = length (mid @ r)"
proof (cases mid)
  case Nil
  then show ?thesis by (simp add: str_terminate_def load_at)
next
  case (Cons x xs)
  then show ?thesis
    by (cases "x = 0") (simp_all add: str_terminate_def load_at store_at)
qed

text \<open>
  Replacing in place is replacing: the string in the block becomes the one with every
  occurrence replaced, although the text is written over while it is still being
  read; nothing outside the block is touched, and the string stays terminated.
\<close>

theorem strReplace_replaces:
  assumes "0 \<notin> set s" "b \<noteq> []" "length c \<le> length b"
  shows "\<exists>r'. strReplace (s @ 0 # r) b c = Some (Inr (replace_all b c s @ 0 # r')) \<and>
    length (replace_all b c s @ 0 # r') = length (s @ 0 # r)"
proof -
  obtain mid where m: "str_replace_loop b c (length s) 0 0 (s @ 0 # r)
      = Some (replace_all b c s @ mid @ 0 # r, length (replace_all b c s))"
      "length (replace_all b c s @ mid) = length s"
    using str_replace_loop_works [OF assms(3,2,1), of "[]" "[]" r] by auto
  obtain r' where "str_terminate (replace_all b c s @ mid @ 0 # r) (length (replace_all b c s))
      = Some (replace_all b c s @ 0 # r')" "length r' = length (mid @ r)"
    using str_terminate_works by blast
  then show ?thesis using assms(1,3) m by (simp add: strReplace_def)
qed

theorem strReplace_replaces_witness:
  "\<exists>r'. strReplace [97, 38, 103, 116, 59, 0] [38, 103, 116, 59] [62] = Some (Inr (97 # 62 # 0 # r'))"
proof -
  have "replace_all [38, 103, 116, 59] [62] [97, 38, 103, 116, 59] = [97, 62 :: byte]"
    by (simp add: replace_all.simps)
  then show ?thesis
    using strReplace_replaces [of "[97, 38, 103, 116, 59]" "[38, 103, 116, 59]" "[62]" "[]"] by auto
qed

section \<open>removeSpace\<close>

text \<open>Whether the scan is inside quotes and inside double brackets, after the byte \<open>x\<close> before \<open>y\<close>.\<close>

definition space_state :: "byte \<Rightarrow> byte \<Rightarrow> bool \<Rightarrow> int \<Rightarrow> xlsx_error + bool \<times> int" where
  "space_state x y yin kuo =
     (if x = 34 then Inr (\<not> yin, kuo)
      else if x = 91 \<and> y = 91 then
        (if 1 < kuo + 1 then Inl Err_nested_bracket else Inr (yin, kuo + 1))
      else if x = 93 \<and> y = 93 then
        (if kuo - 1 < 0 then Inl Err_extra_bracket else Inr (yin, kuo - 1))
      else Inr (yin, kuo))"

partial_function (option) space_loop ::
    "bool \<Rightarrow> int \<Rightarrow> nat \<Rightarrow> nat \<Rightarrow> bytes \<Rightarrow> (xlsx_error + bytes \<times> nat) option" where
  "space_loop yin kuo p pp buf = do {
     x \<leftarrow> load buf p;
     if x = 0 then Some (Inr (buf, pp))
     else do {
       y \<leftarrow> (if x = 91 \<or> x = 93 then load buf (p + 1) else Some 0);
       (case space_state x y yin kuo of
          Inl e \<Rightarrow> Some (Inl e)
        | Inr (yin1, kuo1) \<Rightarrow>
            if yin1 \<or> kuo1 \<noteq> 0 \<or> x \<noteq> 10 \<and> x \<noteq> 13 \<and> x \<noteq> 32 then do {
              buf1 \<leftarrow> store buf pp x;
              space_loop yin1 kuo1 (p + 1) (pp + 1) buf1
            }
            else space_loop yin1 kuo1 (p + 1) pp buf)
     }
   }"

partial_function (option) comma_loop :: "nat \<Rightarrow> nat \<Rightarrow> bytes \<Rightarrow> (bytes \<times> nat) option" where
  "comma_loop p pp buf = do {
     x \<leftarrow> load buf p;
     if x = 0 then Some (buf, pp)
     else do {
       y \<leftarrow> (if x = 44 then load buf (p + 1) else Some 0);
       if \<not> (x = 44 \<and> y = 125) then do {
         buf1 \<leftarrow> store buf pp x;
         comma_loop (p + 1) (pp + 1) buf1
       }
       else comma_loop (p + 1) pp buf
     }
   }"

definition removeSpace :: "bytes \<Rightarrow> (xlsx_error + bytes) option" where
  "removeSpace buf = do {
     r \<leftarrow> space_loop False 0 0 0 buf;
     (case r of
        Inl e \<Rightarrow> Some (Inl e)
      | Inr (buf1, pp) \<Rightarrow> do {
          buf2 \<leftarrow> str_terminate buf1 pp;
          (buf3, qq) \<leftarrow> comma_loop 0 0 buf2;
          buf4 \<leftarrow> str_terminate buf3 qq;
          if 0 < qq then do {
            x \<leftarrow> load buf4 (qq - 1);
            if x = 44 then map_option Inr (store buf4 (qq - 1) 0) else Some (Inr buf4)
          }
          else Some (Inr buf4)
        })
   }"

text \<open>The same on the text as a list.\<close>

definition next_byte :: "bytes \<Rightarrow> byte" where
  "next_byte xs = (case xs of [] \<Rightarrow> 0 | y # ys \<Rightarrow> y)"

fun strip_space :: "bool \<Rightarrow> int \<Rightarrow> bytes \<Rightarrow> xlsx_error + bytes" where
  "strip_space yin kuo [] = Inr []"
| "strip_space yin kuo (x # xs) =
     (case space_state x (next_byte xs) yin kuo of
        Inl e \<Rightarrow> Inl e
      | Inr (yin1, kuo1) \<Rightarrow> map_sum id
          (if yin1 \<or> kuo1 \<noteq> 0 \<or> x \<noteq> 10 \<and> x \<noteq> 13 \<and> x \<noteq> 32 then Cons x else id)
          (strip_space yin1 kuo1 xs))"

fun strip_comma :: "bytes \<Rightarrow> bytes" where
  "strip_comma [] = []"
| "strip_comma (x # xs) = (if x = 44 \<and> next_byte xs = 125 then strip_comma xs else x # strip_comma xs)"

definition strip_last :: "bytes \<Rightarrow> bytes" where
  "strip_last xs = (if xs \<noteq> [] \<and> last xs = 44 then butlast xs else xs)"

lemma store_keep:
  "\<exists>mid1. store (out @ mid @ x # ys) (length out) x = Some ((out @ [x]) @ mid1 @ ys) \<and>
     length mid1 = length mid"
  by (cases mid) (simp_all add: store_def)

lemma load_next:
  assumes "0 \<notin> set xs"
  shows "load (out @ x # xs @ 0 # r) (length out + 1) = Some (next_byte xs)"
  by (cases xs) (simp_all add: load_def next_byte_def nth_append)

lemma space_state_irrelevant:
  "\<not> (x = 91 \<or> x = 93) \<Longrightarrow> space_state x y yin kuo = space_state x z yin kuo"
  by (simp add: space_state_def)

lemma space_loop_works:
  "0 \<notin> set todo \<Longrightarrow>
    (case strip_space yin kuo todo of
       Inl e \<Rightarrow> space_loop yin kuo (length (out @ mid)) (length out) (out @ mid @ todo @ 0 # r) = Some (Inl e)
     | Inr t \<Rightarrow> \<exists>mid'. space_loop yin kuo (length (out @ mid)) (length out) (out @ mid @ todo @ 0 # r)
         = Some (Inr (out @ t @ mid' @ 0 # r, length (out @ t))) \<and>
         length (t @ mid') = length (mid @ todo))"
proof (induction todo arbitrary: yin kuo out mid)
  case Nil
  have "load (out @ mid @ 0 # r) (length (out @ mid)) = Some 0" using load_at [of "out @ mid" 0 r] by simp
  then have "space_loop yin kuo (length (out @ mid)) (length out) (out @ mid @ 0 # r)
      = Some (Inr (out @ mid @ 0 # r, length out))"
    by (subst space_loop.simps) simp
  then show ?case by simp
next
  case (Cons x xs)
  let ?buf = "out @ mid @ (x # xs) @ 0 # r"
  have x: "load ?buf (length (out @ mid)) = Some x" "x \<noteq> 0"
    using load_at [of "out @ mid" x "xs @ 0 # r"] Cons.prems by auto
  have y: "load ?buf (length (out @ mid) + 1) = Some (next_byte xs)"
    using load_next [of xs "out @ mid" x r] Cons.prems by simp
  let ?L = "space_loop yin kuo (length (out @ mid)) (length out) ?buf"
  have step: "?L = (case space_state x (next_byte xs) yin kuo of
          Inl e \<Rightarrow> Some (Inl e)
        | Inr (yin1, kuo1) \<Rightarrow>
            if yin1 \<or> kuo1 \<noteq> 0 \<or> x \<noteq> 10 \<and> x \<noteq> 13 \<and> x \<noteq> 32 then do {
              buf1 \<leftarrow> store ?buf (length out) x;
              space_loop yin1 kuo1 (length (out @ mid) + 1) (length out + 1) buf1
            }
            else space_loop yin1 kuo1 (length (out @ mid) + 1) (length out) ?buf)"
    using x y space_state_irrelevant [of x 0 yin kuo "next_byte xs"]
    by (subst space_loop.simps) (simp split: if_splits)
  show ?case
  proof (cases "space_state x (next_byte xs) yin kuo")
    case (Inl e)
    then show ?thesis using step by simp
  next
    case (Inr q)
    obtain yin1 kuo1 where q: "q = (yin1, kuo1)" by fastforce
    show ?thesis
    proof (cases "yin1 \<or> kuo1 \<noteq> 0 \<or> x \<noteq> 10 \<and> x \<noteq> 13 \<and> x \<noteq> 32")
      case True
      obtain mid1 where m: "store ?buf (length out) x = Some ((out @ [x]) @ mid1 @ xs @ 0 # r)"
          "length mid1 = length mid"
        using store_keep [of out mid x "xs @ 0 # r"] by auto
      have "?L = space_loop yin1 kuo1 (length ((out @ [x]) @ mid1)) (length (out @ [x]))
          ((out @ [x]) @ mid1 @ xs @ 0 # r)"
        using step Inr q True m by simp
      then show ?thesis
        using Cons.IH [of yin1 kuo1 "out @ [x]" mid1] Cons.prems Inr q True m(2)
        by (auto split: sum.splits)
    next
      case False
      have "?L = space_loop yin1 kuo1 (length (out @ mid @ [x])) (length out) (out @ (mid @ [x]) @ xs @ 0 # r)"
        unfolding step Inr q sum.case prod.case if_not_P [OF False] by simp
      then show ?thesis
        using Cons.IH [of yin1 kuo1 out "mid @ [x]"] Cons.prems Inr q False
        by (auto split: sum.splits)
    qed
  qed
qed

lemma comma_loop_step:
  assumes "load buf p = Some x" "x \<noteq> 0" "load buf (p + 1) = Some y"
  shows "comma_loop p pp buf = (if \<not> (x = 44 \<and> y = 125) then do {
        buf1 \<leftarrow> store buf pp x;
        comma_loop (p + 1) (pp + 1) buf1
      }
      else comma_loop (p + 1) pp buf)"
  using assms by (subst comma_loop.simps) simp

lemma comma_loop_works:
  "0 \<notin> set todo \<Longrightarrow>
    \<exists>mid'. comma_loop (length (out @ mid)) (length out) (out @ mid @ todo @ 0 # r)
      = Some (out @ strip_comma todo @ mid' @ 0 # r, length (out @ strip_comma todo)) \<and>
      length (strip_comma todo @ mid') = length (mid @ todo)"
proof (induction todo arbitrary: out mid)
  case Nil
  have "load (out @ mid @ 0 # r) (length (out @ mid)) = Some 0" using load_at [of "out @ mid" 0 r] by simp
  then have "comma_loop (length (out @ mid)) (length out) (out @ mid @ 0 # r)
      = Some (out @ mid @ 0 # r, length out)"
    by (subst comma_loop.simps) simp
  then show ?case by simp
next
  case (Cons x xs)
  let ?buf = "out @ mid @ (x # xs) @ 0 # r"
  let ?L = "comma_loop (length (out @ mid)) (length out) ?buf"
  have x: "load ?buf (length (out @ mid)) = Some x" "x \<noteq> 0"
    using load_at [of "out @ mid" x "xs @ 0 # r"] Cons.prems by auto
  have y: "load ?buf (length (out @ mid) + 1) = Some (next_byte xs)"
    using load_next [of xs "out @ mid" x r] Cons.prems by simp
  have step: "?L = (if \<not> (x = 44 \<and> next_byte xs = 125) then do {
        buf1 \<leftarrow> store ?buf (length out) x;
        comma_loop (length (out @ mid) + 1) (length out + 1) buf1
      }
      else comma_loop (length (out @ mid) + 1) (length out) ?buf)"
    by (rule comma_loop_step [OF x y])
  show ?case
  proof (cases "x = 44 \<and> next_byte xs = 125")
    case True
    have "?L = comma_loop (length (out @ mid @ [x])) (length out) (out @ (mid @ [x]) @ xs @ 0 # r)"
      unfolding step using True by simp
    then show ?thesis
      using Cons.IH [of out "mid @ [x]"] Cons.prems True by auto
  next
    case False
    obtain mid1 where m: "store ?buf (length out) x = Some ((out @ [x]) @ mid1 @ xs @ 0 # r)"
        "length mid1 = length mid"
      using store_keep [of out mid x "xs @ 0 # r"] by auto
    have "?L = comma_loop (length ((out @ [x]) @ mid1)) (length (out @ [x]))
        ((out @ [x]) @ mid1 @ xs @ 0 # r)"
      unfolding step if_P [OF False] m(1) using m(2) by simp
    then show ?thesis
      using Cons.IH [of "out @ [x]" mid1] Cons.prems False m(2) by auto
  qed
qed

lemma strip_space_no_zero: "strip_space yin kuo s = Inr t \<Longrightarrow> 0 \<notin> set s \<Longrightarrow> 0 \<notin> set t"
proof (induction s arbitrary: yin kuo t)
  case (Cons x xs)
  then show ?case by (auto split: sum.splits if_splits simp: map_sum_def)
qed simp

lemma strip_comma_no_zero: "0 \<notin> set s \<Longrightarrow> 0 \<notin> set (strip_comma s)"
  by (induction s) auto

text \<open>
  \<open>removeSpace\<close> takes the blanks and line ends out of a Lua table text, but not
  inside quotes or double brackets, then the commas before a closing brace, then one comma at
  the end; it does so in place, without touching anything outside the block. It stops
  the program exactly when the brackets of the text are nested or closed too often.
\<close>

theorem removeSpace_works:
  assumes "0 \<notin> set s"
  shows "case strip_space False 0 s of
      Inl e \<Rightarrow> removeSpace (s @ 0 # r) = Some (Inl e)
    | Inr t \<Rightarrow> \<exists>r'. removeSpace (s @ 0 # r) = Some (Inr (strip_last (strip_comma t) @ 0 # r')) \<and>
        length (strip_last (strip_comma t) @ 0 # r') = length (s @ 0 # r)"
proof (cases "strip_space False 0 s")
  case (Inl e)
  then show ?thesis
    using space_loop_works [OF assms, of False 0 "[]" "[]" r] by (simp add: removeSpace_def)
next
  case (Inr t)
  obtain mid where m: "space_loop False 0 0 0 (s @ 0 # r) = Some (Inr (t @ mid @ 0 # r, length t))"
      "length (t @ mid) = length s"
    using space_loop_works [OF assms, of False 0 "[]" "[]" r] Inr by auto
  obtain r1 where r1: "str_terminate (t @ mid @ 0 # r) (length t) = Some (t @ 0 # r1)"
      "length r1 = length (mid @ r)"
    using str_terminate_works by blast
  let ?u = "strip_comma t"
  have t: "0 \<notin> set t" using strip_space_no_zero [OF Inr assms] .
  obtain mid2 where m2: "comma_loop 0 0 (t @ 0 # r1) = Some (?u @ mid2 @ 0 # r1, length ?u)"
      "length (?u @ mid2) = length t"
    using comma_loop_works [OF t, of "[]" "[]" r1] by auto
  obtain r2 where r2: "str_terminate (?u @ mid2 @ 0 # r1) (length ?u) = Some (?u @ 0 # r2)"
      "length r2 = length (mid2 @ r1)"
    using str_terminate_works by blast
  have lens: "length (?u @ 0 # r2) = length (s @ 0 # r)" using m(2) r1(2) m2(2) r2(2) by simp
  show ?thesis
  proof (cases "?u" rule: rev_cases)
    case Nil
    then show ?thesis using Inr m(1) r1(1) m2(1) r2(1) lens
      by (simp add: removeSpace_def strip_last_def)
  next
    case (snoc v x)
    then show ?thesis using Inr m(1) r1(1) m2(1) r2(1) lens
      by (simp add: removeSpace_def strip_last_def load_at store_at)
  qed
qed

theorem removeSpace_works_witness:
  "\<exists>r'. removeSpace [123, 32, 49, 44, 125, 44, 0] = Some (Inr (123 # 49 # 125 # 0 # r'))"
proof -
  have "strip_space False 0 [123, 32, 49, 44, 125, 44] = Inr [123, 49, 44, 125, 44]"
    "strip_last (strip_comma [123, 49, 44, 125, 44]) = [123, 49, 125]"
    by (simp_all add: space_state_def strip_last_def next_byte_def)
  then show ?thesis
    using removeSpace_works [of "[123, 32, 49, 44, 125, 44]" "[]"] by auto
qed

end
