(* ===== verification/XlsxXml.thy ===== *)
theory XlsxXml
  imports XlsxText
begin

text \<open>
  The scanner of the table converter (\<open>getXml\<close> in \<open>myxml2/myxml2.cpp\<close>), which goes once over
  the text of a file of the workbook and lists the tags it knows with their texts and
  attributes. It writes zero bytes into the text where strings end and keeps pointers
  into it: an offset here. \<open>en\<close> is where the text ends.
\<close>

section \<open>Results that may be errors\<close>

definition ok_then ::
    "(xlsx_error + 'a) option \<Rightarrow> ('a \<Rightarrow> (xlsx_error + 'b) option) \<Rightarrow> (xlsx_error + 'b) option" where
  "ok_then r f = do { x \<leftarrow> r; (case x of Inl e \<Rightarrow> Some (Inl e) | Inr y \<Rightarrow> f y) }"

lemma ok_then_simps [simp]:
  "ok_then None f = None" "ok_then (Some (Inl e)) f = Some (Inl e)" "ok_then (Some (Inr y)) f = f y"
  by (simp_all add: ok_then_def)

lemma ok_then_mono [partial_function_mono]:
  assumes "mono_option B" "\<And>y. mono_option (\<lambda>f. C y f)"
  shows "mono_option (\<lambda>f. ok_then (B f) (\<lambda>y. C y f))"
  unfolding ok_then_def
proof (rule bind_mono [OF assms(1)])
  fix y :: "xlsx_error + 'c"
  show "mono_option (\<lambda>f. case y of Inl e \<Rightarrow> Some (Inl e) | Inr z \<Rightarrow> C z f)"
    by (cases y) (simp_all add: option.const_mono assms(2))
qed

section \<open>getXml\<close>

datatype text_ref = No_text | Empty_text | Text_at nat

record dot =
  d_name :: bytes
  d_text :: text_ref
  d_vkv :: "(bytes \<times> nat) list"

record xml =
  x_buf :: bytes
  x_dots :: "dot list"
  x_kvs :: nat

definition xml_names :: "bytes list" where
  "xml_names = [[115, 105], [116], [115, 104, 101, 101, 116], [99], [118]]"

definition xml_keys :: "bytes list" where
  "xml_keys = [[110, 97, 109, 101], [114], [116]]"

text \<open>The first of some strings that is equal to the bytes from \<open>a\<close> to \<open>p\<close>, where a zero stands meanwhile.\<close>

definition look_up :: "bytes list \<Rightarrow> bytes \<Rightarrow> nat \<Rightarrow> nat \<Rightarrow> bytes option" where
  "look_up names buf a p = find (\<lambda>n. strcmp (c_string (block_at a (p - a) buf)) n = 0) names"

text \<open>Forward to a byte \<open>c\<close>, from the current one on.\<close>

partial_function (option) scan_to :: "byte \<Rightarrow> nat \<Rightarrow> bytes \<Rightarrow> nat \<Rightarrow> (xlsx_error + nat) option" where
  "scan_to c en buf p = do {
     x \<leftarrow> load buf p;
     if x = c then Some (Inr p)
     else if en \<le> p + 1 then Some (Inl Err_xml_end)
     else scan_to c en buf (p + 1)
   }"

definition tag_ends :: "bytes \<Rightarrow> nat \<Rightarrow> bool option" where
  "tag_ends buf p = do {
     x \<leftarrow> load buf p;
     if x = 62 then Some True
     else if x \<noteq> 47 then Some False
     else do { y \<leftarrow> load buf (p + 1); Some (y = 62) }
   }"

partial_function (option) scan_name :: "nat \<Rightarrow> bytes \<Rightarrow> nat \<Rightarrow> (xlsx_error + nat) option" where
  "scan_name en buf p = do {
     x \<leftarrow> load buf p;
     if x = 32 then Some (Inr p)
     else do {
       e \<leftarrow> tag_ends buf p;
       if e then Some (Inr p)
       else if en \<le> p + 1 then Some (Inl Err_xml_end)
       else scan_name en buf (p + 1)
     }
   }"

text \<open>Room for one more attribute of a tag, which has \<open>n\<close>.\<close>

definition attr_room :: "nat \<Rightarrow> nat \<Rightarrow> xlsx_error option" where
  "attr_room n kvs =
     (if 2 \<le> n then Some Err_xml_attrs else if 524288 \<le> kvs then Some Err_xml_many_attrs else None)"

text \<open>
  The attributes of a tag; \<open>known\<close> tells whether the tag is one that is kept. Found
  are those kept so far.
\<close>

partial_function (option) xml_attrs ::
    "nat \<Rightarrow> bool \<Rightarrow> (bytes \<times> nat) list \<Rightarrow> nat \<Rightarrow> bytes \<Rightarrow> nat \<Rightarrow>
     (xlsx_error + (bytes \<times> nat) list \<times> nat \<times> bytes \<times> nat) option" where
  "xml_attrs en known found kvs buf p = do {
     e \<leftarrow> tag_ends buf p;
     if e then Some (Inr (found, kvs, buf, p))
     else if en \<le> p + 1 then Some (Inl Err_xml_end)
     else ok_then (scan_to 61 en buf (p + 1)) (\<lambda>q.
       (let key = (if known then look_up xml_keys buf (p + 1) q else None);
            full = (if key \<noteq> None then attr_room (length found) kvs else None)
        in if full \<noteq> None then Some (Inl (the full))
        else if en \<le> q + 2 then Some (Inl Err_xml_end)
        else ok_then (scan_to 34 en buf (q + 2)) (\<lambda>t.
          do {
            buf1 \<leftarrow> (if key \<noteq> None then store buf t 0 else Some buf);
            if en \<le> t + 1 then Some (Inl Err_xml_end)
            else (case key of
                None \<Rightarrow> xml_attrs en known found kvs buf1 (t + 1)
              | Some k \<Rightarrow> xml_attrs en known (found @ [(k, q + 2)]) (kvs + 1) buf1 (t + 1))
          })))
   }"

text \<open>The end of a tag that opens, and its text.\<close>

definition xml_text :: "nat \<Rightarrow> bytes \<Rightarrow> nat \<Rightarrow> (xlsx_error + text_ref \<times> bytes \<times> nat) option" where
  "xml_text en buf p = do {
     x \<leftarrow> load buf p;
     if x = 62 then
       if en \<le> p + 1 then Some (Inl Err_xml_end)
       else ok_then (scan_to 60 en buf (p + 1)) (\<lambda>q.
         do { buf1 \<leftarrow> store buf q 0; Some (Inr (Text_at (p + 1), buf1, q)) })
     else do {
       y \<leftarrow> (if x = 47 then load buf (p + 1) else Some 0);
       if x = 47 \<and> y = 62 then
         if en \<le> p + 2 then Some (Inl Err_xml_end) else Some (Inr (Empty_text, buf, p + 2))
       else Some (Inl Err_xml_tag)
     }
   }"

definition xml_open :: "nat \<Rightarrow> xml \<Rightarrow> nat \<Rightarrow> (xlsx_error + xml \<times> nat) option" where
  "xml_open en st p =
     ok_then (scan_name en (x_buf st) p) (\<lambda>q.
       (let name = look_up xml_names (x_buf st) p q
        in if name \<noteq> None \<and> 1048576 < length (x_dots st) + 2 then Some (Inl Err_xml_nodes)
        else ok_then (xml_attrs en (name \<noteq> None) [] (x_kvs st) (x_buf st) q) (\<lambda>(found, kvs, buf1, q1).
          ok_then (xml_text en buf1 q1) (\<lambda>(t, buf2, q2).
            Some (Inr (\<lparr>x_buf = buf2, x_dots = x_dots st @ (case name of
                None \<Rightarrow> [] | Some n \<Rightarrow> [\<lparr>d_name = n, d_text = t, d_vkv = found\<rparr>]),
              x_kvs = kvs\<rparr>, q2))))))"

partial_function (option) xml_loop :: "nat \<Rightarrow> xml \<Rightarrow> nat \<Rightarrow> (xlsx_error + xml) option" where
  "xml_loop en st p =
     (if en \<le> p + 1 then Some (Inl Err_xml_end)
      else do {
        x \<leftarrow> load (x_buf st) (p + 1);
        if x = 63 then ok_then (scan_to 60 en (x_buf st) (p + 1)) (\<lambda>q. xml_loop en st q)
        else if x = 47 then
          ok_then (scan_to 62 en (x_buf st) (p + 1)) (\<lambda>q.
            if en \<le> q + 1 then Some (Inr st) else xml_loop en st (q + 1))
        else ok_then (xml_open en st (p + 1)) (\<lambda>(st1, q). xml_loop en st1 q)
      })"

definition getXml :: "bytes \<Rightarrow> (xlsx_error + xml) option" where
  "getXml buf = do { en \<leftarrow> strlen buf; xml_loop en \<lparr>x_buf = buf, x_dots = [], x_kvs = 0\<rparr> 0 }"

section \<open>Documents\<close>

text \<open>
  The reference: a document is a list of tags with what follows them, each after the
  byte where the one before ends (\<open>\<open><\<close>\<close>, or what stands in its place).
\<close>

datatype xml_item =
    X_decl bytes
  | X_close bytes
  | X_open bytes "(bytes \<times> bytes) list" bytes
  | X_empty bytes "(bytes \<times> bytes) list"

definition attr_bytes :: "byte \<Rightarrow> bytes \<times> bytes \<Rightarrow> bytes" where
  "attr_bytes q a = 32 # fst a @ [61, 34] @ snd a @ [q]"

definition attrs_bytes :: "(bytes \<times> bytes) list \<Rightarrow> bytes" where
  "attrs_bytes as = concat (map (attr_bytes 34) as)"

fun item_bytes :: "xml_item \<Rightarrow> bytes" where
  "item_bytes (X_decl t) = 63 # t"
| "item_bytes (X_close n) = 47 # n @ [62]"
| "item_bytes (X_open n as t) = n @ attrs_bytes as @ 62 # t"
| "item_bytes (X_empty n as) = n @ attrs_bytes as @ [47, 62]"

definition xdoc_bytes :: "(byte \<times> xml_item) list \<Rightarrow> bytes" where
  "xdoc_bytes items = concat (map (\<lambda>(l, i). l # item_bytes i) items)"

text \<open>What the converter keeps of it.\<close>

definition kept :: "(bytes \<times> bytes) list \<Rightarrow> (bytes \<times> bytes) list" where
  "kept as = filter (\<lambda>a. fst a \<in> set xml_keys) as"

fun item_view :: "xml_item \<Rightarrow> (bytes \<times> bytes \<times> (bytes \<times> bytes) list) list" where
  "item_view (X_open n as t) = (if n \<in> set xml_names then [(n, t, kept as)] else [])"
| "item_view (X_empty n as) = (if n \<in> set xml_names then [(n, [], kept as)] else [])"
| "item_view _ = []"

definition doc_view :: "(byte \<times> xml_item) list \<Rightarrow> (bytes \<times> bytes \<times> (bytes \<times> bytes) list) list" where
  "doc_view items = concat (map (item_view \<circ> snd) items)"

definition legal_attrs :: "(bytes \<times> bytes) list \<Rightarrow> bool" where
  "legal_attrs as \<longleftrightarrow> (\<forall>(k, v) \<in> set as. 61 \<notin> set k \<and> 0 \<notin> set k \<and> 34 \<notin> set v \<and> 0 \<notin> set v)"

definition legal_tag :: "bytes \<Rightarrow> (bytes \<times> bytes) list \<Rightarrow> bool" where
  "legal_tag n as \<longleftrightarrow> n \<noteq> [] \<and> hd n \<noteq> 63 \<and> {0, 32, 47, 62} \<inter> set n = {} \<and> legal_attrs as \<and>
     (n \<in> set xml_names \<longrightarrow> length (kept as) \<le> 2)"

fun legal_item :: "xml_item \<Rightarrow> bool" where
  "legal_item (X_decl t) \<longleftrightarrow> 60 \<notin> set t \<and> 0 \<notin> set t"
| "legal_item (X_close n) \<longleftrightarrow> 62 \<notin> set n \<and> 0 \<notin> set n"
| "legal_item (X_open n as t) \<longleftrightarrow> legal_tag n as \<and> 60 \<notin> set t \<and> 0 \<notin> set t"
| "legal_item (X_empty n as) \<longleftrightarrow> legal_tag n as"

definition scans_on :: "xml_item \<Rightarrow> bool" where
  "scans_on i \<longleftrightarrow> (case i of X_decl t \<Rightarrow> True | X_open n as t \<Rightarrow> True | _ \<Rightarrow> False)"

text \<open>A document ends with a closing tag; after a declaration or a text the next tag is found by its \<open>\<open><\<close>\<close>.\<close>

fun legal_doc :: "(byte \<times> xml_item) list \<Rightarrow> bool" where
  "legal_doc [] \<longleftrightarrow> False"
| "legal_doc [(l, i)] \<longleftrightarrow> l \<noteq> 0 \<and> legal_item i \<and> (\<exists>n. i = X_close n)"
| "legal_doc ((l, i) # (l', i') # is) \<longleftrightarrow> l \<noteq> 0 \<and> legal_item i \<and> (scans_on i \<longrightarrow> l' = 60) \<and> legal_doc ((l', i') # is)"

section \<open>Scanning\<close>

lemma load_append [simp]: "p < length xs \<Longrightarrow> load (xs @ ys) p = load xs p"
  by (simp add: load_def nth_append)

lemma load_mid: "load (pre @ x # post) (length pre) = Some x"
  by (rule load_at)

lemma scan_to_found:
  "c \<notin> set xs \<Longrightarrow> length pre + length xs < en \<Longrightarrow>
    scan_to c en (pre @ xs @ c # post) (length pre) = Some (Inr (length pre + length xs))"
proof (induction xs arbitrary: pre)
  case Nil
  then show ?case by (subst scan_to.simps) (simp add: load_mid)
next
  case (Cons x xs)
  have "scan_to c en ((pre @ [x]) @ xs @ c # post) (length (pre @ [x])) = Some (Inr (length (pre @ [x]) + length xs))"
    by (rule Cons.IH) (use Cons.prems in auto)
  then show ?case using Cons.prems by (subst scan_to.simps) (auto simp: load_mid)
qed

text \<open>The end of a tag: \<open>\<open>>\<close>\<close> or \<open>\<open>/>\<close>\<close>.\<close>

definition tag_end :: "bytes \<Rightarrow> bool" where
  "tag_end xs \<longleftrightarrow> (\<exists>ys. xs = 62 # ys \<or> xs = 47 # 62 # ys)"

lemma tag_ends_end: "tag_end xs \<Longrightarrow> tag_ends (pre @ xs) (length pre) = Some True"
  using load_mid [of "pre @ [47]"] by (auto simp: tag_end_def tag_ends_def load_mid)

lemma tag_ends_other: "x \<noteq> 62 \<Longrightarrow> x \<noteq> 47 \<Longrightarrow> tag_ends (pre @ x # post) (length pre) = Some False"
  by (simp add: tag_ends_def load_mid)

lemma scan_name_found:
  "{32, 47, 62} \<inter> set xs = {} \<Longrightarrow> (\<exists>ys. post = 32 # ys) \<or> tag_end post \<Longrightarrow> length pre + length xs < en \<Longrightarrow>
    scan_name en (pre @ xs @ post) (length pre) = Some (Inr (length pre + length xs))"
proof (induction xs arbitrary: pre)
  case Nil
  from Nil(2) show ?case
  proof
    assume "\<exists>ys. post = 32 # ys"
    then show ?thesis by (subst scan_name.simps) (auto simp: load_mid)
  next
    assume e: "tag_end post"
    then obtain x ys where "post = x # ys" by (auto simp: tag_end_def)
    then show ?thesis using tag_ends_end [OF e, of pre] by (subst scan_name.simps) (simp add: load_mid)
  qed
next
  case (Cons x xs)
  have "scan_name en ((pre @ [x]) @ xs @ post) (length (pre @ [x])) = Some (Inr (length (pre @ [x]) + length xs))"
    by (rule Cons.IH) (use Cons.prems in auto)
  then show ?case using Cons.prems tag_ends_other [of x pre "xs @ post"]
    by (subst scan_name.simps) (auto simp: load_mid)
qed

lemma look_up_block:
  assumes "0 \<notin> set n"
  shows "look_up names (pre @ n @ post) (length pre) (length pre + length n) = (if n \<in> set names then Some n else None)"
proof -
  have "c_string n = n" using assms by (auto simp: c_string_def takeWhile_eq_all_conv)
  then have "look_up names (pre @ n @ post) (length pre) (length pre + length n) = find (\<lambda>m. n = m) names"
    by (simp add: look_up_def block_at_prefix)
  also have "\<dots> = (if n \<in> set names then Some n else None)" by (induction names) auto
  finally show ?thesis .
qed

section \<open>Attributes and texts\<close>

definition keeps :: "bool \<Rightarrow> bytes \<Rightarrow> bool" where
  "keeps known k \<longleftrightarrow> known \<and> k \<in> set xml_keys"

definition done_attrs :: "bool \<Rightarrow> (bytes \<times> bytes) list \<Rightarrow> bytes" where
  "done_attrs known as = concat (map (\<lambda>a. attr_bytes (if keeps known (fst a) then 0 else 34) a) as)"

fun attr_offs :: "bool \<Rightarrow> nat \<Rightarrow> (bytes \<times> bytes) list \<Rightarrow> (bytes \<times> nat) list" where
  "attr_offs known base [] = []"
| "attr_offs known base ((k, v) # as) =
     (if keeps known k then [(k, base + length k + 3)] else []) @
     attr_offs known (base + length k + length v + 4) as"

lemma attrs_bytes_simps [simp]:
  "attrs_bytes [] = []" "attrs_bytes ((k, v) # as) = 32 # k @ [61, 34] @ v @ 34 # attrs_bytes as"
  by (simp_all add: attrs_bytes_def attr_bytes_def)

lemma done_attrs_simps [simp]:
  "done_attrs known [] = []"
  "done_attrs known ((k, v) # as) = 32 # k @ [61, 34] @ v @ (if keeps known k then 0 else 34) # done_attrs known as"
  by (simp_all add: done_attrs_def attr_bytes_def)

lemma length_done_attrs [simp]: "length (done_attrs known as) = length (attrs_bytes as)"
  by (induction as) auto

lemma kept_simps [simp]:
  "kept [] = []" "kept ((k, v) # as) = (if keeps True k then (k, v) # kept as else kept as)"
  by (simp_all add: kept_def keeps_def)

lemma length_attr_offs: "length (attr_offs known base as) = (if known then length (kept as) else 0)"
  by (induction known base as rule: attr_offs.induct) (auto simp: keeps_def)

lemma xml_attrs_step:
  assumes "61 \<notin> set k" "0 \<notin> set k" "34 \<notin> set v" "length pre + length k + length v + 4 < en"
    "keeps known k \<Longrightarrow> length found < 2 \<and> kvs < 524288"
  shows "xml_attrs en known found kvs (pre @ 32 # k @ [61, 34] @ v @ 34 # post) (length pre) =
    (if keeps known k
     then xml_attrs en known (found @ [(k, length pre + length k + 3)]) (kvs + 1)
       (pre @ 32 # k @ [61, 34] @ v @ 0 # post) (length pre + length k + length v + 4)
     else xml_attrs en known found kvs (pre @ 32 # k @ [61, 34] @ v @ 34 # post)
       (length pre + length k + length v + 4))"
proof -
  let ?buf = "pre @ 32 # k @ [61, 34] @ v @ 34 # post"
  let ?q = "length pre + 1 + length k" let ?t = "length pre + length k + length v + 3"
  have e: "tag_ends ?buf (length pre) = Some False" by (rule tag_ends_other) simp_all
  have q: "scan_to 61 en ?buf (length pre + 1) = Some (Inr ?q)"
    using scan_to_found [of 61 k "pre @ [32]" en "34 # v @ 34 # post"] assms(1,4) by simp
  have t: "scan_to 34 en ?buf (?q + 2) = Some (Inr ?t)"
    using scan_to_found [of 34 v "pre @ 32 # k @ [61, 34]" en post] assms(3,4) by (simp add: algebra_simps)
  have l: "look_up xml_keys ?buf (length pre + 1) ?q = (if k \<in> set xml_keys then Some k else None)"
    using look_up_block [of k xml_keys "pre @ [32]" "[61, 34] @ v @ 34 # post"] assms(2) by simp
  have s: "store ?buf ?t 0 = Some (pre @ 32 # k @ [61, 34] @ v @ 0 # post)"
    using store_at [of "pre @ 32 # k @ [61, 34] @ v" 34 post 0] by (simp add: eval_nat_numeral algebra_simps)
  have r: "\<not> en \<le> length pre + 1" "\<not> en \<le> ?q + 2" "\<not> en \<le> ?t + 1" using assms(4) by simp_all
  show ?thesis
  proof (cases "keeps known k")
    case True
    then have "known" "k \<in> set xml_keys" "attr_room (length found) kvs = None"
      using assms(5) by (auto simp: keeps_def attr_room_def)
    then show ?thesis
      using True e q t l s r
      by (subst xml_attrs.simps) (simp add: Let_def eval_nat_numeral algebra_simps)
  next
    case False
    then have "known \<Longrightarrow> look_up xml_keys ?buf (length pre + 1) ?q = None"
      using l by (simp add: keeps_def)
    then show ?thesis
      using False e q t r
      by (subst xml_attrs.simps) (cases known; simp add: Let_def eval_nat_numeral algebra_simps)
  qed
qed

lemma xml_attrs_ok:
  "legal_attrs as \<Longrightarrow> tag_end post \<Longrightarrow> length pre + length (attrs_bytes as) < en \<Longrightarrow>
    (known \<Longrightarrow> length found + length (kept as) \<le> 2 \<and> kvs + length (kept as) \<le> 524288) \<Longrightarrow>
    xml_attrs en known found kvs (pre @ attrs_bytes as @ post) (length pre) =
      Some (Inr (found @ attr_offs known (length pre) as, kvs + length (attr_offs known (length pre) as),
        pre @ done_attrs known as @ post, length pre + length (attrs_bytes as)))"
proof (induction as arbitrary: pre found kvs)
  case Nil
  then show ?case using tag_ends_end [OF Nil(2), of pre] by (subst xml_attrs.simps) simp
next
  case (Cons a as)
  obtain k v where a: "a = (k, v)" by fastforce
  let ?q = "if keeps known k then 0 else 34 :: byte"
  let ?pre = "pre @ 32 # k @ [61, 34] @ v @ [?q]"
  have l: "61 \<notin> set k" "0 \<notin> set k" "34 \<notin> set v" "legal_attrs as"
    using Cons.prems(1) a by (auto simp: legal_attrs_def)
  have room: "keeps known k \<Longrightarrow> length found < 2 \<and> kvs < 524288"
    using Cons.prems(4) a by (auto simp: keeps_def)
  have len: "length pre + length k + length v + 4 < en" using Cons.prems(3) a by simp
  have lens: "length ?pre = length pre + length k + length v + 4" by simp
  have bytes: "pre @ 32 # k @ [61, 34] @ v @ ?q # attrs_bytes as @ post = ?pre @ attrs_bytes as @ post" by simp
  have st: "xml_attrs en known found kvs (pre @ attrs_bytes (a # as) @ post) (length pre) =
      xml_attrs en known (found @ (if keeps known k then [(k, length pre + length k + 3)] else []))
        (kvs + (if keeps known k then 1 else 0)) (?pre @ attrs_bytes as @ post) (length ?pre)"
    using xml_attrs_step [where post = "attrs_bytes as @ post", OF l(1-3) len room]
    unfolding lens bytes [symmetric] a by (simp split: if_split)
  have "length ?pre + length (attrs_bytes as) < en" using Cons.prems(3) a by simp
  moreover have "length (found @ (if keeps known k then [(k, length pre + length k + 3)] else [])) + length (kept as) \<le> 2 \<and>
      kvs + (if keeps known k then 1 else 0) + length (kept as) \<le> 524288" if known
    using Cons.prems(4) [OF that] that a by (simp add: keeps_def split: if_splits)
  ultimately have ih: "xml_attrs en known (found @ (if keeps known k then [(k, length pre + length k + 3)] else []))
      (kvs + (if keeps known k then 1 else 0)) (?pre @ attrs_bytes as @ post) (length ?pre) =
    Some (Inr ((found @ (if keeps known k then [(k, length pre + length k + 3)] else [])) @
        attr_offs known (length ?pre) as,
      kvs + (if keeps known k then 1 else 0) + length (attr_offs known (length ?pre) as),
      ?pre @ done_attrs known as @ post, length ?pre + length (attrs_bytes as)))"
    by (intro Cons.IH [OF l(4) Cons.prems(2)]) blast+
  show ?case
    unfolding st ih using a by (simp add: eval_nat_numeral add.assoc)
qed

lemma xml_text_open:
  assumes "60 \<notin> set t" "length pre + length t + 1 < en"
  shows "xml_text en (pre @ 62 # t @ 60 # post) (length pre) =
    Some (Inr (Text_at (length pre + 1), pre @ 62 # t @ 0 # post, length pre + length t + 1))"
proof -
  have "scan_to 60 en (pre @ 62 # t @ 60 # post) (length pre + 1) = Some (Inr (length pre + length t + 1))"
    using scan_to_found [of 60 t "pre @ [62]" en post] assms by simp
  moreover have "store (pre @ 62 # t @ 60 # post) (length pre + length t + 1) 0 = Some (pre @ 62 # t @ 0 # post)"
    using store_at [of "pre @ 62 # t" 60 post 0] by simp
  ultimately show ?thesis using assms(2) by (simp add: xml_text_def load_mid)
qed

lemma xml_text_empty:
  assumes "length pre + 2 < en"
  shows "xml_text en (pre @ 47 # 62 # post) (length pre) = Some (Inr (Empty_text, pre @ 47 # 62 # post, length pre + 2))"
  using load_mid [of "pre @ [47]" 62 post] assms by (simp add: xml_text_def load_mid)

section \<open>Tags\<close>

definition xml_known :: "bytes \<Rightarrow> bool" where
  "xml_known n \<longleftrightarrow> n \<in> set xml_names"

fun done_item :: "xml_item \<Rightarrow> bytes" where
  "done_item (X_decl t) = 63 # t"
| "done_item (X_close n) = 47 # n @ [62]"
| "done_item (X_open n as t) = n @ done_attrs (xml_known n) as @ 62 # t"
| "done_item (X_empty n as) = n @ done_attrs (xml_known n) as @ [47, 62]"

definition new_dot :: "bytes \<Rightarrow> text_ref \<Rightarrow> (bytes \<times> nat) list \<Rightarrow> dot list" where
  "new_dot n t kvs = (if xml_known n then [\<lparr>d_name = n, d_text = t, d_vkv = kvs\<rparr>] else [])"

text \<open>The entries of an item whose first byte is at \<open>base\<close>.\<close>

fun item_dots :: "nat \<Rightarrow> xml_item \<Rightarrow> dot list" where
  "item_dots base (X_open n as t) = new_dot n (Text_at (base + length n + length (attrs_bytes as) + 1))
     (attr_offs (xml_known n) (base + length n) as)"
| "item_dots base (X_empty n as) = new_dot n Empty_text (attr_offs (xml_known n) (base + length n) as)"
| "item_dots base _ = []"

definition item_kvs :: "xml_item \<Rightarrow> nat" where
  "item_kvs i = sum_list (map (\<lambda>(n, t, kvs). length kvs) (item_view i))"

lemma length_done_item [simp]: "length (done_item i) = length (item_bytes i)"
  by (cases i) auto

lemma length_item_dots: "length (item_dots base i) = length (item_view i)"
  by (cases i) (auto simp: new_dot_def xml_known_def)

lemma item_view_short: "length (item_view i) \<le> 1"
  by (cases i) auto

lemma xml_open_tag:
  assumes "legal_tag n as" "tag_end post" "length pre + length n + length (attrs_bytes as) < en"
    "xml_known n \<Longrightarrow> length dots < 1048575 \<and> kvs + length (kept as) \<le> 524288"
    "xml_text en ((pre @ n @ done_attrs (xml_known n) as) @ post) (length (pre @ n @ done_attrs (xml_known n) as)) =
      Some (Inr (t, buf2, q))"
  shows "xml_open en \<lparr>x_buf = pre @ n @ attrs_bytes as @ post, x_dots = dots, x_kvs = kvs\<rparr> (length pre) =
    Some (Inr (\<lparr>x_buf = buf2, x_dots = dots @ new_dot n t (attr_offs (xml_known n) (length pre + length n) as),
      x_kvs = kvs + (if xml_known n then length (kept as) else 0)\<rparr>, q))"
proof -
  let ?buf = "pre @ n @ attrs_bytes as @ post"
  have n: "{32, 47, 62} \<inter> set n = {}" "0 \<notin> set n" "legal_attrs as" "xml_known n \<Longrightarrow> length (kept as) \<le> 2"
    using assms(1) by (auto simp: legal_tag_def xml_known_def)
  have stop: "(\<exists>ys. attrs_bytes as @ post = 32 # ys) \<or> tag_end (attrs_bytes as @ post)"
    using assms(2) by (cases as) auto
  have q: "scan_name en ?buf (length pre) = Some (Inr (length pre + length n))"
    using scan_name_found [OF n(1) stop, of pre en] assms(3) by simp
  have l: "look_up xml_names ?buf (length pre) (length pre + length n) = (if xml_known n then Some n else None)"
    using look_up_block [OF n(2), of xml_names pre "attrs_bytes as @ post"] by (simp add: xml_known_def)
  have a: "xml_attrs en (xml_known n) [] kvs ?buf (length pre + length n) =
      Some (Inr (attr_offs (xml_known n) (length pre + length n) as,
        kvs + (if xml_known n then length (kept as) else 0),
        (pre @ n @ done_attrs (xml_known n) as) @ post, length (pre @ n @ done_attrs (xml_known n) as)))"
    using xml_attrs_ok [OF n(3) assms(2), of "pre @ n" en "xml_known n" "[]" kvs] assms(3,4) n(4)
    by (simp add: length_attr_offs)
  show ?thesis
    using q l a assms(4,5) by (auto simp: xml_open_def new_dot_def)
qed

lemma xml_open_item:
  assumes "legal_item i" "length pre + length (item_bytes i) < en"
    "scans_on i \<Longrightarrow> \<exists>ys. post = 60 # ys" "length dots + length (item_view i) \<le> 1048575"
    "kvs + item_kvs i \<le> 524288" "\<exists>n as t. i = X_open n as t \<or> i = X_empty n as"
  shows "xml_open en \<lparr>x_buf = pre @ item_bytes i @ post, x_dots = dots, x_kvs = kvs\<rparr> (length pre) =
    Some (Inr (\<lparr>x_buf = pre @ done_item i @ (if scans_on i then 0 # tl post else post),
      x_dots = dots @ item_dots (length pre) i, x_kvs = kvs + item_kvs i\<rparr>, length pre + length (item_bytes i)))"
proof -
  consider n as t where "i = X_open n as t" | n as where "i = X_empty n as" using assms(6) by blast
  then show ?thesis
  proof cases
    case (1 n as t)
    then obtain ys where post: "post = 60 # ys" using assms(3) by (auto simp: scans_on_def)
    let ?pre = "pre @ n @ done_attrs (xml_known n) as"
    have t: "xml_text en (?pre @ 62 # t @ 60 # ys) (length ?pre) =
        Some (Inr (Text_at (length ?pre + 1), ?pre @ 62 # t @ 0 # ys, length ?pre + length t + 1))"
      by (rule xml_text_open) (use assms(1,2) 1 in auto)
    have "xml_open en \<lparr>x_buf = pre @ n @ attrs_bytes as @ 62 # t @ 60 # ys, x_dots = dots, x_kvs = kvs\<rparr> (length pre) =
      Some (Inr (\<lparr>x_buf = ?pre @ 62 # t @ 0 # ys,
        x_dots = dots @ new_dot n (Text_at (length ?pre + 1)) (attr_offs (xml_known n) (length pre + length n) as),
        x_kvs = kvs + (if xml_known n then length (kept as) else 0)\<rparr>, length ?pre + length t + 1))"
      by (rule xml_open_tag [OF _ _ _ _ t])
        (use assms(1,2,4,5) 1 in \<open>auto simp: tag_end_def xml_known_def item_kvs_def\<close>)
    then show ?thesis using 1 post by (simp add: scans_on_def item_kvs_def xml_known_def add.assoc)
  next
    case (2 n as)
    let ?pre = "pre @ n @ done_attrs (xml_known n) as"
    have t: "xml_text en (?pre @ 47 # 62 # post) (length ?pre) =
        Some (Inr (Empty_text, ?pre @ 47 # 62 # post, length ?pre + 2))"
      by (rule xml_text_empty) (use assms(1,2) 2 in auto)
    have "xml_open en \<lparr>x_buf = pre @ n @ attrs_bytes as @ 47 # 62 # post, x_dots = dots, x_kvs = kvs\<rparr> (length pre) =
      Some (Inr (\<lparr>x_buf = ?pre @ 47 # 62 # post,
        x_dots = dots @ new_dot n Empty_text (attr_offs (xml_known n) (length pre + length n) as),
        x_kvs = kvs + (if xml_known n then length (kept as) else 0)\<rparr>, length ?pre + 2))"
      by (rule xml_open_tag [OF _ _ _ _ t])
        (use assms(1,2,4,5) 2 in \<open>auto simp: tag_end_def xml_known_def item_kvs_def\<close>)
    then show ?thesis using 2 by (simp add: scans_on_def item_kvs_def xml_known_def add.assoc)
  qed
qed

section \<open>The whole document\<close>

definition opens :: "xml_item \<Rightarrow> bool" where
  "opens i \<longleftrightarrow> (case i of X_open n as t \<Rightarrow> True | _ \<Rightarrow> False)"

text \<open>The rest of a document; \<open>z\<close> tells that its first byte has been overwritten.\<close>

fun doc_from :: "bool \<Rightarrow> (byte \<times> xml_item) list \<Rightarrow> bytes" where
  "doc_from z [] = []"
| "doc_from z ((l, i) # is) = (if z then 0 else l) # item_bytes i @ xdoc_bytes is"

fun doc_done :: "bool \<Rightarrow> (byte \<times> xml_item) list \<Rightarrow> bytes" where
  "doc_done z [] = []"
| "doc_done z ((l, i) # is) = (if z then 0 else l) # done_item i @ doc_done (opens i) is"

fun doc_dots :: "nat \<Rightarrow> (byte \<times> xml_item) list \<Rightarrow> dot list" where
  "doc_dots base [] = []"
| "doc_dots base ((l, i) # is) = item_dots (base + 1) i @ doc_dots (base + 1 + length (item_bytes i)) is"

definition doc_kvs :: "(byte \<times> xml_item) list \<Rightarrow> nat" where
  "doc_kvs items = sum_list (map (item_kvs \<circ> snd) items)"

lemma doc_simps [simp]:
  "xdoc_bytes [] = []" "xdoc_bytes ((l, i) # is) = l # item_bytes i @ xdoc_bytes is"
  "doc_view [] = []" "doc_view ((l, i) # is) = item_view i @ doc_view is"
  "doc_kvs [] = 0" "doc_kvs ((l, i) # is) = item_kvs i + doc_kvs is"
  by (simp_all add: xdoc_bytes_def doc_view_def doc_kvs_def)

lemma item_bytes_first:
  assumes "legal_item i" "\<exists>n as t. i = X_open n as t \<or> i = X_empty n as"
  obtains x xs where "item_bytes i = x # xs" "x \<noteq> 63" "x \<noteq> 47"
proof -
  obtain n as where n: "legal_tag n as" "\<exists>ys. item_bytes i = n @ ys" using assms by auto
  then show ?thesis using that by (cases n) (auto simp: legal_tag_def)
qed

lemma doc_from_head:
  "is \<noteq> [] \<Longrightarrow> fst (hd is) = 60 \<Longrightarrow> \<exists>ys. xdoc_bytes is = 60 # ys \<and> 0 # ys = doc_from True is"
  by (cases "is") auto

lemma doc_from_same: "is \<noteq> [] \<Longrightarrow> doc_from False is = xdoc_bytes is"
  by (cases "is") auto

lemma xml_loop_doc:
  "legal_doc items \<Longrightarrow> en = length pre + length (xdoc_bytes items) \<Longrightarrow>
    length dots + length (doc_view items) \<le> 1048575 \<Longrightarrow> kvs + doc_kvs items \<le> 524288 \<Longrightarrow>
    xml_loop en \<lparr>x_buf = pre @ doc_from z items @ 0 # r, x_dots = dots, x_kvs = kvs\<rparr> (length pre) =
      Some (Inr \<lparr>x_buf = pre @ doc_done z items @ 0 # r, x_dots = dots @ doc_dots (length pre) items,
        x_kvs = kvs + doc_kvs items\<rparr>)"
proof (induction items arbitrary: pre z dots kvs)
  case (Cons li "is")
  obtain l i where li: "li = (l, i)" by fastforce
  define w where "w = (if z then 0 else l)"
  let ?pre = "pre @ [w]"
  have legal: "legal_item i" using Cons.prems(1) li by (cases "is") auto
  have en: "en = length pre + 1 + length (item_bytes i) + length (xdoc_bytes is)" using Cons.prems(2) li by simp
  have room: "length dots + length (item_view i) + length (doc_view is) \<le> 1048575"
    "kvs + item_kvs i + doc_kvs is \<le> 524288"
    using Cons.prems(3,4) li by simp_all
  have nonempty: "item_bytes i \<noteq> []" using legal by (cases i) (auto simp: legal_tag_def)
  then have start: "\<not> en \<le> length pre + 1" using en by (cases "item_bytes i") auto
  have next_legal: "is \<noteq> [] \<Longrightarrow> legal_doc is \<and> (scans_on i \<longrightarrow> fst (hd is) = 60)"
    using Cons.prems(1) li by (cases "is") auto
  have ih: "is \<noteq> [] \<Longrightarrow> length pre' + length (xdoc_bytes is) = en \<Longrightarrow>
      length dots' + length (doc_view is) \<le> 1048575 \<Longrightarrow> kvs' + doc_kvs is \<le> 524288 \<Longrightarrow>
      xml_loop en \<lparr>x_buf = pre' @ doc_from z' is @ 0 # r, x_dots = dots', x_kvs = kvs'\<rparr> (length pre') =
        Some (Inr \<lparr>x_buf = pre' @ doc_done z' is @ 0 # r, x_dots = dots' @ doc_dots (length pre') is,
          x_kvs = kvs' + doc_kvs is\<rparr>)" for pre' z' dots' kvs'
    using Cons.IH next_legal by metis
  let ?st = "\<lparr>x_buf = ?pre @ item_bytes i @ xdoc_bytes is @ 0 # r, x_dots = dots, x_kvs = kvs\<rparr>"
  have "xml_loop en ?st (length pre) = Some (Inr \<lparr>x_buf = ?pre @ done_item i @ doc_done (opens i) is @ 0 # r,
      x_dots = dots @ item_dots (length pre + 1) i @ doc_dots (length pre + 1 + length (item_bytes i)) is,
      x_kvs = kvs + item_kvs i + doc_kvs is\<rparr>)"
  proof (cases i)
    case (X_decl t)
    then have ne: "is \<noteq> []" using Cons.prems(1) li by (cases "is") auto
    then obtain ys where ys: "xdoc_bytes is = 60 # ys" using next_legal doc_from_head X_decl by (auto simp: scans_on_def)
    have scan: "scan_to 60 en (x_buf ?st) (length pre + 1) = Some (Inr (length pre + 2 + length t))"
      using scan_to_found [of 60 "63 # t" ?pre en "ys @ 0 # r"] legal en X_decl ys by simp
    have x: "load (x_buf ?st) (length pre + 1) = Some 63"
      using load_mid [of ?pre 63 "t @ xdoc_bytes is @ 0 # r"] X_decl by simp
    have "xml_loop en ?st (length pre) = xml_loop en ?st (length pre + 2 + length t)"
      using start scan x by (subst xml_loop.simps) simp
    also have "\<dots> = Some (Inr \<lparr>x_buf = (?pre @ 63 # t) @ doc_done False is @ 0 # r,
        x_dots = dots @ doc_dots (length (?pre @ 63 # t)) is, x_kvs = kvs + doc_kvs is\<rparr>)"
      using ih [OF ne, of "?pre @ 63 # t" dots kvs False] en room X_decl doc_from_same [OF ne] by simp
    finally show ?thesis using X_decl by (simp add: opens_def item_kvs_def)
  next
    case (X_close n)
    have scan: "scan_to 62 en (x_buf ?st) (length pre + 1) = Some (Inr (length pre + 2 + length n))"
      using scan_to_found [of 62 "47 # n" ?pre en "xdoc_bytes is @ 0 # r"] legal en X_close by simp
    have x: "load (x_buf ?st) (length pre + 1) = Some 47"
      using load_mid [of ?pre 47 "n @ [62] @ xdoc_bytes is @ 0 # r"] X_close by simp
    have st: "xml_loop en ?st (length pre) = (if en \<le> length pre + 2 + length n + 1 then Some (Inr ?st)
        else xml_loop en ?st (length pre + 2 + length n + 1))"
      using start scan x by (subst xml_loop.simps) simp
    show ?thesis
    proof (cases "is = []")
      case True
      then show ?thesis using st en X_close by (simp add: item_kvs_def)
    next
      case False
      then have "0 < length (xdoc_bytes is)" by (cases "is") auto
      then have "\<not> en \<le> length pre + 2 + length n + 1" using en X_close by simp
      then have "xml_loop en ?st (length pre) = xml_loop en ?st (length pre + 2 + length n + 1)" using st by simp
      also have "\<dots> = Some (Inr \<lparr>x_buf = (?pre @ 47 # n @ [62]) @ doc_done False is @ 0 # r,
          x_dots = dots @ doc_dots (length (?pre @ 47 # n @ [62])) is, x_kvs = kvs + doc_kvs is\<rparr>)"
        using ih [OF False, of "?pre @ 47 # n @ [62]" dots kvs False] en room X_close doc_from_same [OF False]
        by simp
      finally show ?thesis using X_close by (simp add: opens_def item_kvs_def)
    qed
  next
    case (X_open n as t)
    then have ne: "is \<noteq> []" using Cons.prems(1) li by (cases "is") auto
    obtain ys where ys: "xdoc_bytes is = 60 # ys" "0 # ys = doc_from True is"
      using next_legal ne doc_from_head X_open by (auto simp: scans_on_def)
    obtain x xs where x: "item_bytes i = x # xs" "x \<noteq> 63" "x \<noteq> 47"
      using item_bytes_first [OF legal] X_open by blast
    have ld: "load (x_buf ?st) (length pre + 1) = Some x"
      using load_mid [of ?pre x "xs @ xdoc_bytes is @ 0 # r"] x(1) by simp
    have op: "xml_open en ?st (length pre + 1) = Some (Inr (\<lparr>x_buf = (?pre @ done_item i) @ doc_from True is @ 0 # r,
        x_dots = dots @ item_dots (length pre + 1) i, x_kvs = kvs + item_kvs i\<rparr>, length (?pre @ done_item i)))"
      using xml_open_item [OF legal, of ?pre en "xdoc_bytes is @ 0 # r" dots kvs] en room ys X_open
      by (simp add: scans_on_def)
    have "xml_loop en ?st (length pre) = xml_loop en \<lparr>x_buf = (?pre @ done_item i) @ doc_from True is @ 0 # r,
        x_dots = dots @ item_dots (length pre + 1) i, x_kvs = kvs + item_kvs i\<rparr> (length (?pre @ done_item i))"
      using start ld x(2,3) op by (subst xml_loop.simps) simp
    also have "\<dots> = Some (Inr \<lparr>x_buf = (?pre @ done_item i) @ doc_done True is @ 0 # r,
        x_dots = (dots @ item_dots (length pre + 1) i) @ doc_dots (length (?pre @ done_item i)) is,
        x_kvs = (kvs + item_kvs i) + doc_kvs is\<rparr>)"
      by (rule ih [OF ne]) (use en room in \<open>auto simp: length_item_dots\<close>)
    finally show ?thesis using X_open by (simp add: opens_def add.assoc)
  next
    case (X_empty n as)
    then have ne: "is \<noteq> []" using Cons.prems(1) li by (cases "is") auto
    obtain x xs where x: "item_bytes i = x # xs" "x \<noteq> 63" "x \<noteq> 47"
      using item_bytes_first [OF legal] X_empty by blast
    have ld: "load (x_buf ?st) (length pre + 1) = Some x"
      using load_mid [of ?pre x "xs @ xdoc_bytes is @ 0 # r"] x(1) by simp
    have pos: "0 < length (xdoc_bytes is)" using ne by (cases "is") auto
    have op: "xml_open en ?st (length pre + 1) = Some (Inr (\<lparr>x_buf = (?pre @ done_item i) @ doc_from False is @ 0 # r,
        x_dots = dots @ item_dots (length pre + 1) i, x_kvs = kvs + item_kvs i\<rparr>, length (?pre @ done_item i)))"
      using xml_open_item [OF legal, of ?pre en "xdoc_bytes is @ 0 # r" dots kvs] en room X_empty doc_from_same [OF ne] pos
      by (simp add: scans_on_def)
    have "xml_loop en ?st (length pre) = xml_loop en \<lparr>x_buf = (?pre @ done_item i) @ doc_from False is @ 0 # r,
        x_dots = dots @ item_dots (length pre + 1) i, x_kvs = kvs + item_kvs i\<rparr> (length (?pre @ done_item i))"
      using start ld x(2,3) op by (subst xml_loop.simps) simp
    also have "\<dots> = Some (Inr \<lparr>x_buf = (?pre @ done_item i) @ doc_done False is @ 0 # r,
        x_dots = (dots @ item_dots (length pre + 1) i) @ doc_dots (length (?pre @ done_item i)) is,
        x_kvs = (kvs + item_kvs i) + doc_kvs is\<rparr>)"
      by (rule ih [OF ne]) (use en room in \<open>auto simp: length_item_dots\<close>)
    finally show ?thesis using X_empty by (simp add: opens_def add.assoc)
  qed
  then show ?case by (simp add: li w_def add.assoc split: if_splits)
qed simp

section \<open>What the entries point to\<close>

definition text_view :: "bytes \<Rightarrow> text_ref \<Rightarrow> bytes option" where
  "text_view mem t = (case t of No_text \<Rightarrow> None | Empty_text \<Rightarrow> Some [] | Text_at p \<Rightarrow> string_at mem p)"

definition dot_view :: "bytes \<Rightarrow> dot \<Rightarrow> bytes \<times> bytes option \<times> (bytes \<times> bytes option) list" where
  "dot_view mem d = (d_name d, text_view mem (d_text d), map (\<lambda>(k, p). (k, string_at mem p)) (d_vkv d))"

definition full_view :: "bytes \<times> bytes \<times> (bytes \<times> bytes) list \<Rightarrow> bytes \<times> bytes option \<times> (bytes \<times> bytes option) list" where
  "full_view v = (case v of (n, t, as) \<Rightarrow> (n, Some t, map (\<lambda>(k, v). (k, Some v)) as))"

lemma string_at_mid: "0 \<notin> set s \<Longrightarrow> string_at (pre @ s @ 0 # post) (length pre) = Some s"
  by (simp add: string_at_def strlen_at_def block_at_prefix)

lemma attr_offs_view:
  "legal_attrs as \<Longrightarrow>
    map (\<lambda>(k, p). (k, string_at (pre @ done_attrs known as @ post) p)) (attr_offs known (length pre) as) =
      (if known then map (\<lambda>(k, v). (k, Some v)) (kept as) else [])"
proof (induction as arbitrary: pre)
  case (Cons a as)
  obtain k v where a: "a = (k, v)" by fastforce
  have l: "0 \<notin> set v" "legal_attrs as" using Cons.prems a by (auto simp: legal_attrs_def)
  let ?pre = "pre @ 32 # k @ [61, 34] @ v @ [if keeps known k then 0 else 34]"
  have len: "length ?pre = length pre + length k + length v + 4" by simp
  have s: "string_at (pre @ 32 # k @ [61, 34] @ v @ 0 # done_attrs known as @ post) (length pre + length k + 3) = Some v"
    using string_at_mid [OF l(1), of "pre @ 32 # k @ [61, 34]" "done_attrs known as @ post"]
    by (simp add: numeral_3_eq_3)
  show ?case using Cons.IH [OF l(2), of ?pre] s unfolding len a by (cases known) (simp_all add: keeps_def)
qed simp

lemma new_dot_view:
  assumes "legal_tag n as" "text_view (pre @ n @ done_attrs (xml_known n) as @ post) t = Some s"
  shows "map (dot_view (pre @ n @ done_attrs (xml_known n) as @ post))
      (new_dot n t (attr_offs (xml_known n) (length pre + length n) as)) =
    map full_view (if n \<in> set xml_names then [(n, s, kept as)] else [])"
  using attr_offs_view [of as "pre @ n" "xml_known n" post] assms
  by (auto simp: new_dot_def xml_known_def dot_view_def full_view_def legal_tag_def)

lemma item_dots_view:
  assumes "legal_item i" "opens i \<Longrightarrow> \<exists>ys. post = 0 # ys"
  shows "map (dot_view (pre @ done_item i @ post)) (item_dots (length pre) i) = map full_view (item_view i)"
proof (cases i)
  case (X_open n as t)
  then obtain ys where post: "post = 0 # ys" using assms(2) by (auto simp: opens_def)
  have "string_at ((pre @ n @ done_attrs (xml_known n) as @ [62]) @ t @ 0 # ys)
      (length (pre @ n @ done_attrs (xml_known n) as @ [62])) = Some t"
    by (rule string_at_mid) (use assms(1) X_open in auto)
  then have "text_view (pre @ n @ done_attrs (xml_known n) as @ 62 # t @ post)
      (Text_at (length pre + length n + length (attrs_bytes as) + 1)) = Some t"
    using post by (simp add: text_view_def add.assoc)
  then show ?thesis
    using new_dot_view [of n as pre "62 # t @ post"] assms(1) X_open by simp
next
  case (X_empty n as)
  then show ?thesis
    using new_dot_view [of n as pre "[47, 62] @ post" Empty_text "[]"] assms(1) by (simp add: text_view_def)
qed (use assms in auto)

lemma doc_dots_view:
  "legal_doc items \<Longrightarrow>
    map (dot_view (pre @ doc_done z items @ 0 # r)) (doc_dots (length pre) items) = map full_view (doc_view items)"
proof (induction items arbitrary: pre z)
  case (Cons li "is")
  obtain l i where li: "li = (l, i)" by fastforce
  define w where "w = (if z then 0 else l)"
  have legal: "legal_item i" using Cons.prems(1) li by (cases "is") auto
  have z: "\<exists>ys. doc_done (opens i) is @ 0 # r = 0 # ys" if "opens i"
    using that by (cases "is") auto
  have "map (dot_view ((pre @ [w]) @ done_item i @ doc_done (opens i) is @ 0 # r)) (item_dots (length (pre @ [w])) i) =
      map full_view (item_view i)"
    by (rule item_dots_view [OF legal z])
  moreover have "map (dot_view ((pre @ w # done_item i) @ doc_done (opens i) is @ 0 # r))
      (doc_dots (length (pre @ w # done_item i)) is) = map full_view (doc_view is)"
  proof (cases "is")
    case (Cons x xs)
    then have "legal_doc is" using Cons.prems(1) li by (cases x) auto
    then show ?thesis by (rule Cons.IH)
  qed simp
  ultimately show ?case by (simp add: li w_def split: if_splits)
qed simp

lemma legal_doc_no_zero: "legal_doc items \<Longrightarrow> 0 \<notin> set (xdoc_bytes items)"
proof (induction items)
  case (Cons li "is")
  obtain l i where li: "li = (l, i)" by fastforce
  have a: "0 \<notin> set (attrs_bytes as)" if "legal_attrs as" for as
    using that by (induction as) (auto simp: legal_attrs_def)
  have "l \<noteq> 0" "legal_item i" using Cons.prems li by (cases "is"; auto)+
  moreover have "is \<noteq> [] \<Longrightarrow> legal_doc is" using Cons.prems li by (cases "is") auto
  ultimately show ?case
    using Cons.IH li a by (cases i; cases "is = []") (auto simp: legal_tag_def)
qed simp

lemma getXml_doc:
  assumes "legal_doc items" "length (doc_view items) \<le> 1048575" "doc_kvs items \<le> 524288"
  shows "\<exists>st. getXml (xdoc_bytes items @ 0 # r) = Some (Inr st) \<and>
    map (dot_view (x_buf st)) (x_dots st) = map full_view (doc_view items)"
proof -
  have "items \<noteq> []" using assms(1) by auto
  then have "getXml (xdoc_bytes items @ 0 # r) = Some (Inr \<lparr>x_buf = doc_done False items @ 0 # r,
      x_dots = doc_dots 0 items, x_kvs = doc_kvs items\<rparr>)"
    using xml_loop_doc [OF assms(1), of _ "[]" "[]" 0 False r] assms(2,3) legal_doc_no_zero [OF assms(1)]
    by (simp add: getXml_def doc_from_same)
  then show ?thesis using doc_dots_view [OF assms(1), of "[]" False r] by simp
qed

text \<open>
  C28. The scanner finds what a document says: on the text of any document of declarations,
  tags with attributes, texts and closing tags, within the bounds of its tables, it
  stays in the text and lists exactly the tags it knows, in order, each with its
  text and its known attributes, as strings in the text it has cut up.
\<close>

theorem getXml_lists_tags:
  assumes "legal_doc items" "length (doc_view items) \<le> 1048575" "doc_kvs items \<le> 524288"
  shows "\<exists>st. getXml (xdoc_bytes items @ 0 # r) = Some (Inr st) \<and>
    map (dot_view (x_buf st)) (x_dots st) = map full_view (doc_view items)"
  by (rule getXml_doc [OF assms])

text \<open>A worksheet: \<open>\<open><a><c r="A1" t="s"><v>7</v></c></a>\<close>\<close>.\<close>

definition example_doc :: "(byte \<times> xml_item) list" where
  "example_doc = [(60, X_open [97] [] []), (60, X_open [99] [([114], [65, 49]), ([116], [115])] []),
     (60, X_open [118] [] [55]), (60, X_close [118]), (60, X_close [99]), (60, X_close [97])]"

theorem getXml_lists_tags_witness:
  "\<exists>st. getXml [60, 97, 62, 60, 99, 32, 114, 61, 34, 65, 49, 34, 32, 116, 61, 34, 115, 34, 62, 60, 118, 62, 55,
      60, 47, 118, 62, 60, 47, 99, 62, 60, 47, 97, 62, 0] = Some (Inr st) \<and>
    map (dot_view (x_buf st)) (x_dots st) =
      [([99], Some [], [([114], Some [65, 49]), ([116], Some [115])]), ([118], Some [55], [])]"
proof -
  have l: "legal_doc example_doc"
    by (simp add: example_doc_def legal_tag_def legal_attrs_def scans_on_def kept_def)
  have v: "doc_view example_doc = [([99], [], [([114], [65, 49]), ([116], [115])]), ([118], [55], [])]"
    "doc_kvs example_doc = 2"
    by (simp_all add: example_doc_def xml_names_def keeps_def xml_keys_def item_kvs_def)
  show ?thesis
    using getXml_lists_tags [OF l, of "[]"] unfolding v by (simp add: example_doc_def full_view_def)
qed

text \<open>
  White space after a closing tag is not skipped: the byte at which a tag begins is not
  looked at, so after a blank the tag's name is read with its \<open>\<open><\<close>\<close> and is not known. In
  \<open>\<open><t>a</t> <v>b</v></t>\<close>\<close> the value is lost, without an error.
\<close>

theorem getXml_space_hides_tag:
  "\<exists>st. getXml [60, 116, 62, 97, 60, 47, 116, 62, 32, 60, 118, 62, 98, 60, 47, 118, 62, 60, 47, 116, 62, 0] = Some (Inr st) \<and>
    map (dot_view (x_buf st)) (x_dots st) = [([116], Some [97], [])]"
proof -
  let ?d = "[(60, X_open [116] [] [97]), (60, X_close [116]), (32, X_open [60, 118] [] [98]), (60, X_close [118]),
    (60, X_close [116])]"
  have l: "legal_doc ?d" by (simp add: legal_tag_def legal_attrs_def scans_on_def)
  have v: "doc_view ?d = [([116], [97], [])]" "doc_kvs ?d = 0"
    by (simp_all add: xml_names_def item_kvs_def)
  show ?thesis using getXml_doc [OF l, of "[]"] unfolding v by (simp add: full_view_def)
qed

end
