(* ===== verification/XlsxIntern.thy ===== *)
theory XlsxIntern
  imports XlsxXml
begin

text \<open>
  The strings of the table converter (\<open>getStr\<close> in \<open>myxml2/myxml2.cpp\<close>): every string is kept once,
  so that strings can be compared by their pointers. The type names are
  literals; the others are in one buffer, and an array of pointers to them, sorted by
  their text, is searched. Of the buffer the model has the part in use; the rest is zero. A
  pointer is the number of a literal or an offset in the buffer.
\<close>

section \<open>getStr\<close>

datatype str_ptr = Fix nat | Buf nat

record intern =
  in_set :: "nat list"
  in_buf :: bytes

definition fix_strings :: "bytes list" where
  "fix_strings = [[110, 117, 109, 98, 101, 114], [112, 108, 97, 105, 110], [115, 116, 114, 105, 110, 103],
     [116, 97, 98, 108, 101], [116, 98, 115, 116, 114]]"

definition find_fix :: "bytes \<Rightarrow> nat option" where
  "find_fix s = find (\<lambda>i. strcmp s (fix_strings ! i) = 0) [0..<length fix_strings]"

text \<open>The search between \<open>a\<close> and \<open>b\<close>: the string, or the place where it belongs.\<close>

partial_function (option) intern_search :: "intern \<Rightarrow> bytes \<Rightarrow> int \<Rightarrow> int \<Rightarrow> (nat + int) option" where
  "intern_search st s a b =
     (if \<not> a \<le> b then Some (Inr a)
      else do {
        let c = (a + b) div 2;
        q \<leftarrow> iload (in_set st) c;
        u \<leftarrow> string_at (in_buf st) q;
        let t = strcmp s u;
        if t < 0 then intern_search st s a (c - 1)
        else if 0 < t then intern_search st s (c + 1) b
        else Some (Inl q)
      })"

definition intern_insert :: "intern \<Rightarrow> bytes \<Rightarrow> int \<Rightarrow> xlsx_error + str_ptr \<times> intern" where
  "intern_insert st s a =
     (if 65536 \<le> length (in_set st) then Inl Err_too_many_strings
      else if 4194304 \<le> length (in_buf st) + length s then Inl Err_strings_too_long
      else let q = length (in_buf st) in
        Inr (Buf q, \<lparr>in_set = take (nat a) (in_set st) @ q # drop (nat a) (in_set st),
          in_buf = in_buf st @ s @ [0]\<rparr>))"

definition getStr :: "bytes \<Rightarrow> intern \<Rightarrow> (xlsx_error + str_ptr \<times> intern) option" where
  "getStr s st =
     (case find_fix s of
        Some i \<Rightarrow> Some (Inr (Fix i, st))
      | None \<Rightarrow> do {
          r \<leftarrow> intern_search st s 0 (int (length (in_set st)) - 1);
          Some (case r of Inl q \<Rightarrow> Inr (Buf q, st) | Inr a \<Rightarrow> intern_insert st s a)
        })"

definition intern_init :: intern where
  "intern_init = \<lparr>in_set = [], in_buf = []\<rparr>"

section \<open>Sorted, and each string once\<close>

definition ptr_str :: "intern \<Rightarrow> str_ptr \<Rightarrow> bytes option" where
  "ptr_str st p = (case p of Fix i \<Rightarrow> load fix_strings i | Buf q \<Rightarrow> string_at (in_buf st) q)"

definition ptrs :: "intern \<Rightarrow> str_ptr set" where
  "ptrs st = Fix ` {..<5} \<union> Buf ` set (in_set st)"

text \<open>The invariant: the strings \<open>ws\<close> of the array are strictly sorted, and none is a type name.\<close>

definition intern_has :: "intern \<Rightarrow> bytes list \<Rightarrow> bool" where
  "intern_has st ws \<longleftrightarrow> map (string_at (in_buf st)) (in_set st) = map Some ws \<and>
     sorted_wrt (<) ws \<and> set ws \<inter> set fix_strings = {}"

definition intern_ok :: "intern \<Rightarrow> bool" where
  "intern_ok st \<longleftrightarrow> (\<exists>ws. intern_has st ws)"

lemma intern_init_ok: "intern_ok intern_init"
  by (auto simp: intern_ok_def intern_has_def intern_init_def)

lemma strlen_append: "strlen xs = Some n \<Longrightarrow> strlen (xs @ ys) = Some n"
  by (induction xs arbitrary: n) (auto split: if_splits)

lemma strlen_less: "strlen xs = Some n \<Longrightarrow> n < length xs"
  by (induction xs arbitrary: n) (auto split: if_splits)

lemma string_at_append:
  assumes "string_at xs p = Some s"
  shows "string_at (xs @ ys) p = Some s"
proof -
  obtain n where n: "strlen (drop p xs) = Some n" "s = block_at p n xs"
    using assms by (auto simp: string_at_def strlen_at_def)
  then have "n < length xs - p" using strlen_less by fastforce
  then show ?thesis using n strlen_append [OF n(1), of "drop (p - length xs) ys"]
    by (simp add: string_at_def strlen_at_def block_at_def)
qed

lemma string_at_end: "0 \<notin> set s \<Longrightarrow> string_at (xs @ s @ [0]) (length xs) = Some s"
  using string_at_mid [of s xs "[]"] by simp

lemma intern_has_nth:
  assumes "intern_has st ws" "i < length ws"
  shows "i < length (in_set st)" "string_at (in_buf st) (in_set st ! i) = Some (ws ! i)"
proof -
  have "length (map (string_at (in_buf st)) (in_set st)) = length (map Some ws)"
    using assms(1) by (simp only: intern_has_def)
  then show l: "i < length (in_set st)" using assms(2) by simp
  have "map (string_at (in_buf st)) (in_set st) ! i = map Some ws ! i"
    using assms(1) by (simp only: intern_has_def)
  then show "string_at (in_buf st) (in_set st ! i) = Some (ws ! i)" using assms(2) l by simp
qed

lemma intern_has_length: "intern_has st ws \<Longrightarrow> length (in_set st) = length ws"
  by (metis intern_has_def length_map)

lemma intern_search_finds:
  assumes "intern_has st ws"
  shows "0 \<le> a \<Longrightarrow> b < int (length ws) \<Longrightarrow> a \<le> b + 1 \<Longrightarrow>
    (\<forall>i < nat a. ws ! i < s) \<Longrightarrow> (\<forall>i < length ws. b < int i \<longrightarrow> s < ws ! i) \<Longrightarrow>
    (case intern_search st s a b of
       None \<Rightarrow> False
     | Some (Inl q) \<Rightarrow> q \<in> set (in_set st) \<and> string_at (in_buf st) q = Some s \<and> s \<in> set ws
     | Some (Inr k) \<Rightarrow> 0 \<le> k \<and> nat k \<le> length ws \<and> (\<forall>i < nat k. ws ! i < s) \<and>
         (\<forall>i < length ws. nat k \<le> i \<longrightarrow> s < ws ! i))"
proof (induction "nat (b - a + 1)" arbitrary: a b rule: less_induct)
  case less
  show ?case
  proof (cases "a \<le> b")
    case False
    then show ?thesis using less.prems by (subst intern_search.simps) auto
  next
    case True
    define c where "c = (a + b) div 2"
    have c: "a \<le> c" "c \<le> b" "0 \<le> c" "nat c < length ws"
      using True less.prems(1,2) by (auto simp: c_def)
    have q: "iload (in_set st) c = Some (in_set st ! nat c)"
      "string_at (in_buf st) (in_set st ! nat c) = Some (ws ! nat c)"
      using intern_has_nth [OF assms c(4)] c(3) by (auto simp: mem_defs)
    have srt: "sorted_wrt (<) ws" using assms by (simp add: intern_has_def)
    have step: "intern_search st s a b =
        (if s < ws ! nat c then intern_search st s a (c - 1)
         else if ws ! nat c < s then intern_search st s (c + 1) b
         else Some (Inl (in_set st ! nat c)))"
      using True q by (subst intern_search.simps) (simp add: Let_def flip: c_def)
    consider "s < ws ! nat c" | "ws ! nat c < s" | "s = ws ! nat c" by fastforce
    then show ?thesis
    proof cases
      case 1
      have "s < ws ! i" if "i < length ws" "c - 1 < int i" for i
        using that 1 sorted_wrt_nth_less [OF srt, of "nat c" i] c(3) by (cases "i = nat c") (auto intro: order.strict_trans)
      then show ?thesis using less.hyps [of "c - 1" a] less.prems c 1 step by simp
    next
      case 2
      have "ws ! i < s" if "i < nat (c + 1)" for i
      proof -
        have "i < Suc (nat c)" using that c(3) by (simp add: nat_add_distrib)
        then show ?thesis using 2 sorted_wrt_nth_less [OF srt, of i "nat c"] c(4)
          by (cases "i = nat c") (auto intro: order.strict_trans)
      qed
      moreover have "intern_search st s a b = intern_search st s (c + 1) b" using step 2 by (auto dest: order.asym)
      ultimately show ?thesis using less.hyps [of b "c + 1"] less.prems c by simp
    next
      case 3
      then show ?thesis using q c(4) step intern_has_nth(1) [OF assms c(4)] by simp
    qed
  qed
qed

lemma length_fix [simp]: "length fix_strings = 5"
  by (simp add: fix_strings_def)

lemma find_fix_some: "find_fix s = Some i \<Longrightarrow> i < 5 \<and> fix_strings ! i = s"
  by (auto simp: find_fix_def find_Some_iff)

lemma find_fix_none: "find_fix s = None \<longleftrightarrow> s \<notin> set fix_strings"
  by (auto simp: find_fix_def find_None_iff in_set_conv_nth)

lemma ptr_str_fix: "i < 5 \<Longrightarrow> ptr_str st (Fix i) = Some (fix_strings ! i)"
  by (simp add: ptr_str_def load_def)

lemma distinct_fix: "distinct fix_strings"
  by (simp add: fix_strings_def)

lemma intern_insert_ok:
  assumes "intern_has st ws" "0 \<notin> set s" "s \<notin> set fix_strings" "0 \<le> k" "nat k \<le> length ws"
    "\<forall>i < nat k. ws ! i < s" "\<forall>i < length ws. nat k \<le> i \<longrightarrow> s < ws ! i"
    "intern_insert st s k = Inr (p, st')"
  shows "p = Buf (length (in_buf st))" "intern_has st' (take (nat k) ws @ s # drop (nat k) ws)"
    "in_buf st' = in_buf st @ s @ [0]" "set (in_set st') = insert (length (in_buf st)) (set (in_set st))"
proof -
  show p: "p = Buf (length (in_buf st))" "in_buf st' = in_buf st @ s @ [0]"
    using assms(8) by (auto simp: intern_insert_def Let_def split: if_splits)
  have e: "in_set st' = take (nat k) (in_set st) @ length (in_buf st) # drop (nat k) (in_set st)"
    using assms(8) by (auto simp: intern_insert_def Let_def split: if_splits)
  have "set (take (nat k) (in_set st)) \<union> set (drop (nat k) (in_set st)) = set (in_set st)"
    by (metis append_take_drop_id set_append)
  then show "set (in_set st') = insert (length (in_buf st)) (set (in_set st))"
    using e by auto
  have m: "map (string_at (in_buf st)) (in_set st) = map Some ws" "sorted_wrt (<) ws" "set ws \<inter> set fix_strings = {}"
    using assms(1) by (simp_all add: intern_has_def)
  have "string_at (in_buf st') q = string_at (in_buf st) q" if "q \<in> set (in_set st)" for q
  proof -
    have "string_at (in_buf st) q \<in> set (map Some ws)" unfolding m(1) [symmetric] using that by simp
    then show ?thesis using string_at_append p(2) by auto
  qed
  then have "map (string_at (in_buf st')) (in_set st) = map Some ws" using m(1) by (metis map_eq_conv)
  then have "map (string_at (in_buf st')) (take (nat k) (in_set st)) = map Some (take (nat k) ws)"
    "map (string_at (in_buf st')) (drop (nat k) (in_set st)) = map Some (drop (nat k) ws)"
    by (simp_all only: take_map [symmetric] drop_map [symmetric])
  moreover have "string_at (in_buf st') (length (in_buf st)) = Some s"
    unfolding p(2) by (rule string_at_end [OF assms(2)])
  ultimately have "map (string_at (in_buf st')) (in_set st') = map Some (take (nat k) ws @ s # drop (nat k) ws)"
    unfolding e by simp
  moreover have "sorted_wrt (<) (take (nat k) ws @ s # drop (nat k) ws)"
  proof -
    have a: "x < s" if x: "x \<in> set (take (nat k) ws)" for x
      using x assms(5,6) by (auto simp: in_set_conv_nth)
    have b: "s < y" if y: "y \<in> set (drop (nat k) ws)" for y
    proof -
      obtain j where j: "j < length ws - nat k" "y = ws ! (nat k + j)"
        using y assms(5) by (auto simp: in_set_conv_nth)
      then have "nat k + j < length ws" "nat k \<le> nat k + j" by simp_all
      then show ?thesis using assms(7) j(2) by blast
    qed
    show ?thesis
      using m(2) a b by (fastforce simp: sorted_wrt_append sorted_wrt_take sorted_wrt_drop)
  qed
  moreover have "set (take (nat k) ws @ s # drop (nat k) ws) \<inter> set fix_strings = {}"
    using m(3) assms(3) by (auto dest: in_set_takeD in_set_dropD)
  ultimately show "intern_has st' (take (nat k) ws @ s # drop (nat k) ws)"
    by (simp only: intern_has_def simp_thms)
qed

text \<open>A pointer and its text, both ways.\<close>

lemma intern_once:
  assumes "intern_has st ws" "p \<in> ptrs st" "q \<in> ptrs st" "ptr_str st p = ptr_str st q"
  shows "p = q"
proof -
  have d: "distinct ws" using assms(1) by (simp add: intern_has_def strict_sorted_iff)
  have str: "\<exists>i < length ws. in_set st ! i = r \<and> ptr_str st (Buf r) = Some (ws ! i)" if "r \<in> set (in_set st)" for r
    using that intern_has_nth [OF assms(1)] intern_has_length [OF assms(1)]
    by (fastforce simp: in_set_conv_nth ptr_str_def)
  have f: "ws ! i \<notin> set fix_strings" if "i < length ws" for i
    using assms(1) that nth_mem by (fastforce simp: intern_has_def)
  consider i j where "p = Fix i" "q = Fix j" "i < 5" "j < 5"
    | i r where "p = Fix i" "q = Buf r" "i < 5" "r \<in> set (in_set st)"
    | i r where "p = Buf r" "q = Fix i" "i < 5" "r \<in> set (in_set st)"
    | r r' where "p = Buf r" "q = Buf r'" "r \<in> set (in_set st)" "r' \<in> set (in_set st)"
    using assms(2,3) by (auto simp: ptrs_def)
  then show ?thesis
  proof cases
    case 1
    then show ?thesis using assms(4) distinct_fix by (auto simp: ptr_str_fix nth_eq_iff_index_eq)
  next
    case 2
    obtain j where "j < length ws" "ptr_str st q = Some (ws ! j)" using str [OF 2(4)] 2(2) by blast
    then show ?thesis using assms(4) f [of j] nth_mem [of i fix_strings] 2(1,3) by (simp add: ptr_str_fix)
  next
    case 3
    obtain j where "j < length ws" "ptr_str st p = Some (ws ! j)" using str [OF 3(4)] 3(1) by blast
    then show ?thesis using assms(4) f [of j] nth_mem [of i fix_strings] 3(2,3) by (simp add: ptr_str_fix)
  next
    case 4
    then show ?thesis using assms(4) str [OF 4(3)] str [OF 4(4)] d by (auto simp: nth_eq_iff_index_eq)
  qed
qed

lemma getStr_cases:
  assumes "intern_has st ws" "0 \<notin> set s"
  shows "case getStr s st of
      None \<Rightarrow> False
    | Some (Inl e) \<Rightarrow> 65536 \<le> length (in_set st) \<or> 4194304 \<le> length (in_buf st) + length s
    | Some (Inr (p, st')) \<Rightarrow> p \<in> ptrs st' \<and> ptr_str st' p = Some s \<and> intern_ok st' \<and> ptrs st \<subseteq> ptrs st' \<and>
        (\<exists>more. in_buf st' = in_buf st @ more)"
proof (cases "find_fix s")
  case (Some i)
  then have i: "i < 5" "fix_strings ! i = s" using find_fix_some by auto
  have "getStr s st = Some (Inr (Fix i, st))" using Some by (simp add: getStr_def)
  then show ?thesis using i ptr_str_fix [OF i(1)] assms(1) by (auto simp: ptrs_def intern_ok_def)
next
  case None
  then have nf: "s \<notin> set fix_strings" by (simp add: find_fix_none)
  have n: "length (in_set st) = length ws" by (rule intern_has_length [OF assms(1)])
  have sr: "case intern_search st s 0 (int (length ws) - 1) of
       None \<Rightarrow> False
     | Some (Inl q) \<Rightarrow> q \<in> set (in_set st) \<and> string_at (in_buf st) q = Some s \<and> s \<in> set ws
     | Some (Inr k) \<Rightarrow> 0 \<le> k \<and> nat k \<le> length ws \<and> (\<forall>i < nat k. ws ! i < s) \<and>
         (\<forall>i < length ws. nat k \<le> i \<longrightarrow> s < ws ! i)"
    by (rule intern_search_finds [OF assms(1)]) auto
  show ?thesis
  proof (cases "intern_search st s 0 (int (length ws) - 1)")
    case (Some r)
    show ?thesis
    proof (cases r)
      case (Inl q)
      then have "getStr s st = Some (Inr (Buf q, st))" using None Some n by (simp add: getStr_def)
      then show ?thesis using sr Some Inl assms(1) by (auto simp: ptrs_def ptr_str_def intern_ok_def)
    next
      case (Inr k)
      then have g: "getStr s st = Some (intern_insert st s k)" using None Some n by (simp add: getStr_def)
      show ?thesis
      proof (cases "intern_insert st s k")
        case (Inl e)
        then show ?thesis using g by (auto simp: intern_insert_def Let_def split: if_splits)
      next
        case ins: (Inr x)
        obtain p st' where x: "x = (p, st')" by fastforce
        note ok = intern_insert_ok [OF assms nf _ _ _ _ ins [unfolded x]]
        have k: "0 \<le> k" "nat k \<le> length ws" "\<forall>i < nat k. ws ! i < s" "\<forall>i < length ws. nat k \<le> i \<longrightarrow> s < ws ! i"
          using sr Some Inr by auto
        have "ptr_str st' p = Some s"
          unfolding ok(1) [OF k] using string_at_end [OF assms(2)] ok(3) [OF k] by (simp add: ptr_str_def)
        then show ?thesis using g ins x ok [OF k] by (auto simp: ptrs_def intern_ok_def)
      qed
    qed
  qed (use sr in simp)
qed

text \<open>
  C29. Interning: from every state that satisfies its invariant, \<open>getStr\<close> ends and, as long as its two tables have
  room, returns a pointer to the string and keeps the invariant. The pointers
  handed out before still point to their strings, and the new one is equal to
  exactly those that point to the same string.
\<close>

theorem getStr_interns:
  assumes "intern_ok st" "0 \<notin> set s" "length (in_set st) < 65536" "length (in_buf st) + length s < 4194304"
  shows "\<exists>p st'. getStr s st = Some (Inr (p, st')) \<and> intern_ok st' \<and> ptr_str st' p = Some s \<and>
    (\<forall>q t. q \<in> ptrs st \<longrightarrow> ptr_str st q = Some t \<longrightarrow>
       q \<in> ptrs st' \<and> ptr_str st' q = Some t \<and> (q = p \<longleftrightarrow> t = s))"
proof -
  obtain ws where ws: "intern_has st ws" using assms(1) by (auto simp: intern_ok_def)
  from getStr_cases [OF ws assms(2)] assms(3,4) obtain p st' more where g: "getStr s st = Some (Inr (p, st'))"
      "p \<in> ptrs st'" "ptr_str st' p = Some s" "intern_ok st'" "ptrs st \<subseteq> ptrs st'" "in_buf st' = in_buf st @ more"
    by (auto split: option.splits sum.splits)
  obtain ws' where ws': "intern_has st' ws'" using g(4) by (auto simp: intern_ok_def)
  have "ptr_str st' q = Some t" if "ptr_str st q = Some t" for q t
    using that string_at_append g(6) by (auto simp: ptr_str_def split: str_ptr.splits)
  moreover have "q = p \<longleftrightarrow> t = s" if "q \<in> ptrs st" "ptr_str st' q = Some t" for q t
    using intern_once [OF ws' _ g(2)] that g(3,5) by auto
  ultimately show ?thesis using g by blast
qed

theorem getStr_interns_witness:
  "\<exists>st p' st'. getStr [97] \<lparr>in_set = [0], in_buf = [97, 0]\<rparr> = Some (Inr (Buf 0, st)) \<and>
    getStr [98] \<lparr>in_set = [0], in_buf = [97, 0]\<rparr> = Some (Inr (p', st')) \<and> p' \<noteq> Buf 0"
proof -
  let ?st = "\<lparr>in_set = [0], in_buf = [97, 0 :: byte]\<rparr>"
  have s0: "string_at [97, 0 :: byte] 0 = Some [97]" by (simp add: string_at_def strlen_at_def block_at_def)
  then have "intern_has ?st [[97]]" by (simp add: intern_has_def fix_strings_def)
  then have ok: "intern_ok ?st" by (auto simp: intern_ok_def)
  have q: "Buf 0 \<in> ptrs ?st" "ptr_str ?st (Buf 0) = Some [97]" using s0 by (simp_all add: ptrs_def ptr_str_def)
  obtain p st1 where "getStr [97] ?st = Some (Inr (p, st1))" "Buf 0 = p"
    using getStr_interns [OF ok, of "[97]"] q by auto
  moreover obtain p' st2 where "getStr [98] ?st = Some (Inr (p', st2))" "Buf 0 \<noteq> p'"
    using getStr_interns [OF ok, of "[98]"] q by auto
  ultimately show ?thesis by blast
qed

end
