(* ===== verification/XlsxStrings.thy ===== *)
theory XlsxStrings
  imports XlsxIntern
begin

text \<open>
  The sheet names and the shared strings of a workbook (\<open>getWorkbook\<close>, \<open>getSharedStrings\<close> in
  \<open>myxml2/myxml2.cpp\<close>), read from their files and interned.
\<close>

section \<open>The two readers\<close>

definition n_si :: bytes where "n_si = [115, 105]"
definition n_t :: bytes where "n_t = [116]"
definition n_sheet :: bytes where "n_sheet = [115, 104, 101, 101, 116]"

text \<open>The sheets: the first attribute kept is taken for the name.\<close>

fun workbook_loop ::
    "bytes \<Rightarrow> nat \<Rightarrow> dot list \<Rightarrow> str_ptr list \<Rightarrow> intern \<Rightarrow> (xlsx_error + str_ptr list \<times> intern) option" where
  "workbook_loop mem cap [] out st = Some (Inr (out, st))"
| "workbook_loop mem cap (d # ds) out st =
     (if d_name d = n_sheet then
        if cap \<le> length out + 1 then Some (Inl Err_many_sheets)
        else do {
          (k, q) \<leftarrow> load (d_vkv d) 0;
          s \<leftarrow> string_at mem q;
          ok_then (getStr s st) (\<lambda>(p, st1). workbook_loop mem cap ds (out @ [p]) st1)
        }
      else workbook_loop mem cap ds out st)"

definition getWorkbook :: "nat \<Rightarrow> bytes \<Rightarrow> intern \<Rightarrow> (xlsx_error + str_ptr list \<times> intern) option" where
  "getWorkbook cap buf st =
     ok_then (getXml buf) (\<lambda>x. workbook_loop (x_buf x) cap (x_dots x) [] st)"

text \<open>
  The shared strings: \<open>n\<close> is \<open>outlen\<close>, the entries begun; the text of the last is in
  \<open>acc\<close>, not initialised while there is none.
\<close>

fun shared_loop ::
    "bytes \<Rightarrow> nat \<Rightarrow> dot list \<Rightarrow> nat \<Rightarrow> bytes option \<Rightarrow> str_ptr list \<Rightarrow> intern \<Rightarrow>
     (xlsx_error + nat \<times> bytes option \<times> str_ptr list \<times> intern) option" where
  "shared_loop mem cap [] n acc out st = Some (Inr (n, acc, out, st))"
| "shared_loop mem cap (d # ds) n acc out st =
     (if d_name d = n_si then
        if cap \<le> n then Some (Inl Err_many_shared)
        else if n \<noteq> 0 then do {
          s \<leftarrow> acc;
          ok_then (getStr s st) (\<lambda>(p, st1). shared_loop mem cap ds (n + 1) (Some []) (out @ [p]) st1)
        }
        else shared_loop mem cap ds (n + 1) (Some []) out st
      else if d_name d = n_t then do {
        t \<leftarrow> text_view mem (d_text d);
        s \<leftarrow> acc;
        if 65536 \<le> length s + length t then Some (Inl Err_shared_too_long)
        else shared_loop mem cap ds n (Some (s @ t)) out st
      }
      else shared_loop mem cap ds n acc out st)"

definition getSharedStrings :: "nat \<Rightarrow> bytes \<Rightarrow> intern \<Rightarrow> (xlsx_error + str_ptr list \<times> intern) option" where
  "getSharedStrings cap buf st =
     ok_then (getXml buf) (\<lambda>x.
       ok_then (shared_loop (x_buf x) cap (x_dots x) 0 None [] st) (\<lambda>(n, acc, out, st1).
         if n \<noteq> 0 then do {
           s \<leftarrow> acc;
           ok_then (getStr s st1) (\<lambda>(p, st2). Some (Inr (out @ [p], st2)))
         }
         else Some (Inr (out, st1))))"

section \<open>What they read\<close>

text \<open>The reference: every entry is the texts of its parts, one after the other.\<close>

type_synonym view = "bytes \<times> bytes \<times> (bytes \<times> bytes) list"

fun si_rest :: "bytes \<Rightarrow> view list \<Rightarrow> bytes list" where
  "si_rest s [] = [s]"
| "si_rest s ((n, t, as) # vs) =
     (if n = n_si then s # si_rest [] vs else if n = n_t then si_rest (s @ t) vs else si_rest s vs)"

fun si_texts :: "view list \<Rightarrow> bytes list" where
  "si_texts [] = []"
| "si_texts ((n, t, as) # vs) = (if n = n_si then si_rest [] vs else si_texts vs)"

text \<open>Texts stand inside entries.\<close>

fun si_inside :: "view list \<Rightarrow> bool" where
  "si_inside [] = True"
| "si_inside ((n, t, as) # vs) = (n = n_si \<or> n \<noteq> n_t \<and> si_inside vs)"

text \<open>Strings handed out stay what they are.\<close>

definition grows :: "intern \<Rightarrow> intern \<Rightarrow> bool" where
  "grows st st' \<longleftrightarrow> (\<forall>q t. q \<in> ptrs st \<longrightarrow> ptr_str st q = Some t \<longrightarrow> q \<in> ptrs st' \<and> ptr_str st' q = Some t)"

lemma grows_refl [simp]: "grows st st"
  by (simp add: grows_def)

lemma grows_trans: "grows st st1 \<Longrightarrow> grows st1 st2 \<Longrightarrow> grows st st2"
  by (simp add: grows_def)

text \<open>The tables have room for \<open>n\<close> strings of \<open>b\<close> bytes in all.\<close>

definition intern_room :: "intern \<Rightarrow> nat \<Rightarrow> nat \<Rightarrow> bool" where
  "intern_room st n b \<longleftrightarrow> length (in_set st) + n \<le> 65536 \<and> length (in_buf st) + b + n < 4194304"

lemma getStr_step:
  assumes "intern_ok st" "0 \<notin> set s" "intern_room st (Suc n) (length s + b)"
  obtains p st' where "getStr s st = Some (Inr (p, st'))" "intern_ok st'" "p \<in> ptrs st'" "ptr_str st' p = Some s"
    "grows st st'" "intern_room st' n b"
proof -
  obtain ws where ws: "intern_has st ws" using assms(1) by (auto simp: intern_ok_def)
  from getStr_cases [OF ws assms(2)] assms(3) obtain p st' more where g: "getStr s st = Some (Inr (p, st'))"
      "p \<in> ptrs st'" "ptr_str st' p = Some s" "intern_ok st'" "ptrs st \<subseteq> ptrs st'" "in_buf st' = in_buf st @ more"
    by (auto simp: intern_room_def split: option.splits sum.splits)
  have "grows st st'"
    using g(5,6) string_at_append by (auto simp: grows_def ptr_str_def split: str_ptr.splits)
  moreover have "length (in_set st') \<le> Suc (length (in_set st)) \<and> length (in_buf st') \<le> length (in_buf st) + length s + 1"
    using g(1) by (auto simp: getStr_def intern_insert_def Let_def split: option.splits Option.bind_splits sum.splits if_splits)
  ultimately show ?thesis using that g assms(3) by (auto simp: intern_room_def)
qed

definition points :: "intern \<Rightarrow> str_ptr list \<Rightarrow> bytes list \<Rightarrow> bool" where
  "points st ps ss \<longleftrightarrow> set ps \<subseteq> ptrs st \<and> map (ptr_str st) ps = map Some ss"

lemma points_grows:
  assumes "points st ps ss" "grows st st'"
  shows "points st' ps ss"
  using assms(1)
proof (induction ps arbitrary: ss)
  case (Cons p ps)
  then obtain s ss' where ss: "ss = s # ss'" "p \<in> ptrs st" "ptr_str st p = Some s" "points st ps ss'"
    by (auto simp: points_def Cons_eq_map_conv)
  then show ?case using Cons.IH [OF ss(4)] assms(2) by (auto simp: points_def grows_def)
qed (simp add: points_def)

lemma points_snoc: "points st ps ss \<Longrightarrow> p \<in> ptrs st \<Longrightarrow> ptr_str st p = Some s \<Longrightarrow> points st (ps @ [p]) (ss @ [s])"
  by (simp add: points_def)

text \<open>The end of \<open>getSharedStrings\<close>: the last entry.\<close>

definition shared_end ::
    "nat \<times> bytes option \<times> str_ptr list \<times> intern \<Rightarrow> (xlsx_error + str_ptr list \<times> intern) option" where
  "shared_end r = (case r of (n, acc, out, st1) \<Rightarrow>
     (if n \<noteq> 0 then do {
        s \<leftarrow> acc;
        ok_then (getStr s st1) (\<lambda>(p, st2). Some (Inr (out @ [p], st2)))
      }
      else Some (Inr (out, st1))))"

lemma getSharedStrings_end:
  "getSharedStrings cap buf st =
    ok_then (getXml buf) (\<lambda>x. ok_then (shared_loop (x_buf x) cap (x_dots x) 0 None [] st) shared_end)"
  by (simp add: getSharedStrings_def shared_end_def [abs_def])

definition joined :: "bytes list \<Rightarrow> nat" where
  "joined ss = sum_list (map length ss)"

lemma joined_Cons [simp]: "joined (s # ss) = length s + joined ss" and joined_Nil [simp]: "joined [] = 0"
  by (simp_all add: joined_def)

lemma si_rest_not_Nil: "\<exists>u us. si_rest s vs = u # us \<and> (\<exists>w. u = s @ w)"
  by (induction s vs rule: si_rest.induct) auto

lemma strlen_no_zero: "strlen xs = Some n \<Longrightarrow> 0 \<notin> set (take n xs)"
  by (induction xs arbitrary: n) (auto split: if_splits)

lemma string_at_no_zero: "string_at xs p = Some s \<Longrightarrow> 0 \<notin> set s"
  using strlen_no_zero by (auto simp: string_at_def strlen_at_def block_at_def)

definition dots_view :: "bytes \<Rightarrow> dot list \<Rightarrow> view list \<Rightarrow> bool" where
  "dots_view mem ds vs \<longleftrightarrow> map (dot_view mem) ds = map full_view vs"

lemma dots_view_Cons:
  assumes "dots_view mem (d # ds) vs"
  obtains n t as vs' where "vs = (n, t, as) # vs'" "d_name d = n" "text_view mem (d_text d) = Some t" "0 \<notin> set t"
    "dots_view mem ds vs'"
proof -
  obtain v vs' where v: "vs = v # vs'" "dot_view mem d = full_view v" "dots_view mem ds vs'"
    using assms by (auto simp: dots_view_def Cons_eq_map_conv)
  obtain n t as where "v = (n, t, as)" by (cases v)
  then have n: "vs = (n, t, as) # vs'" "d_name d = n" "text_view mem (d_text d) = Some t"
    using v by (auto simp: dot_view_def full_view_def)
  then have "0 \<notin> set t" using string_at_no_zero by (auto simp: text_view_def split: text_ref.splits)
  then show ?thesis using that n v(3) by blast
qed

lemma n_si_t [simp]: "n_si \<noteq> n_t" "n_t \<noteq> n_si"
  by (simp_all add: n_si_def n_t_def)

lemma shared_loop_reads:
  assumes "dots_view mem ds vs" "intern_ok st" "points st out ss" "n \<noteq> 0" "0 \<notin> set s"
    "n + length (si_rest s vs) \<le> cap + 1" "\<forall>u \<in> set (si_rest s vs). length u < 65536"
    "intern_room st (length (si_rest s vs)) (joined (si_rest s vs))"
  shows "\<exists>ps st'. ok_then (shared_loop mem cap ds n (Some s) out st) shared_end = Some (Inr (ps, st')) \<and>
    intern_ok st' \<and> points st' ps (ss @ si_rest s vs)"
  using assms
proof (induction ds arbitrary: vs n s out ss st)
  case Nil
  then have vs: "vs = []" by (simp add: dots_view_def)
  then have "intern_room st (Suc 0) (length s + 0)" using Nil.prems(8) by simp
  from getStr_step [OF Nil.prems(2,5) this] obtain p st' where "getStr s st = Some (Inr (p, st'))" "intern_ok st'"
      "p \<in> ptrs st'" "ptr_str st' p = Some s" "grows st st'" .
  then show ?case using Nil.prems(3,4) vs by (auto simp: shared_end_def intro: points_snoc points_grows)
next
  case (Cons d ds)
  obtain m t as vs' where v: "vs = (m, t, as) # vs'" "d_name d = m" "text_view mem (d_text d) = Some t" "0 \<notin> set t"
      "dots_view mem ds vs'"
    using dots_view_Cons [OF Cons.prems(1)] .
  consider "m = n_si" | "m = n_t" | "m \<noteq> n_si" "m \<noteq> n_t" by blast
  then show ?case
  proof cases
    case 1
    have r: "intern_room st (Suc (length (si_rest [] vs'))) (length s + joined (si_rest [] vs'))"
      using Cons.prems(8) v(1) 1 by simp
    from getStr_step [OF Cons.prems(2,5) r] obtain p st' where g: "getStr s st = Some (Inr (p, st'))" "intern_ok st'"
        "p \<in> ptrs st'" "ptr_str st' p = Some s" "grows st st'"
        "intern_room st' (length (si_rest [] vs')) (joined (si_rest [] vs'))" .
    have "points st' (out @ [p]) (ss @ [s])"
      using points_snoc [OF points_grows [OF Cons.prems(3) g(5)] g(3,4)] .
    from Cons.IH [OF v(5) g(2) this _ _ _ _ g(6), of "n + 1"] Cons.prems(6,7) 1 v(1)
    have "\<exists>ps st''. ok_then (shared_loop mem cap ds (n + 1) (Some []) (out @ [p]) st') shared_end = Some (Inr (ps, st'')) \<and>
        intern_ok st'' \<and> points st'' ps ((ss @ [s]) @ si_rest [] vs')" by simp
    moreover have "\<not> cap \<le> n" using Cons.prems(6) 1 v(1) si_rest_not_Nil [of "[]" vs'] by auto
    ultimately show ?thesis using 1 v(1,2) g(1) Cons.prems(4) by simp
  next
    case 2
    obtain w us where "si_rest (s @ t) vs' = (s @ t @ w) # us" using si_rest_not_Nil [of "s @ t" vs'] by auto
    then have "length (s @ t @ w) < 65536" using Cons.prems(7) 2 v(1) by simp
    then have "length s + length t < 65536" by simp
    then show ?thesis
      using Cons.IH [OF v(5) Cons.prems(2-4), of "s @ t"] Cons.prems(5-8) 2 v by simp
  next
    case 3
    then show ?thesis using Cons.IH [OF v(5) Cons.prems(2-5)] Cons.prems(6-8) v by simp
  qed
qed

lemma shared_loop_starts:
  assumes "dots_view mem ds vs" "si_inside vs" "intern_ok st" "length (si_texts vs) \<le> cap"
    "\<forall>u \<in> set (si_texts vs). length u < 65536" "intern_room st (length (si_texts vs)) (joined (si_texts vs))"
  shows "\<exists>ps st'. ok_then (shared_loop mem cap ds 0 None [] st) shared_end = Some (Inr (ps, st')) \<and>
    intern_ok st' \<and> points st' ps (si_texts vs)"
  using assms
proof (induction ds arbitrary: vs)
  case Nil
  then show ?case by (simp add: dots_view_def shared_end_def points_def)
next
  case (Cons d ds)
  obtain m t as vs' where v: "vs = (m, t, as) # vs'" "d_name d = m" "dots_view mem ds vs'"
    using dots_view_Cons [OF Cons.prems(1)] .
  show ?case
  proof (cases "m = n_si")
    case True
    have "\<not> cap \<le> 0" using Cons.prems(4) True v(1) si_rest_not_Nil [of "[]" vs'] by auto
    moreover have "\<exists>ps st'. ok_then (shared_loop mem cap ds 1 (Some []) [] st) shared_end = Some (Inr (ps, st')) \<and>
        intern_ok st' \<and> points st' ps ([] @ si_rest [] vs')"
      by (rule shared_loop_reads [OF v(3) Cons.prems(3)]) (use Cons.prems(4-6) True v(1) in \<open>simp_all add: points_def\<close>)
    ultimately show ?thesis using True v by simp
  next
    case False
    then have "m \<noteq> n_t" using Cons.prems(2) v(1) by simp
    then show ?thesis using Cons.IH [OF v(3)] Cons.prems(2-6) False v by simp
  qed
qed

text \<open>
  C13. The shared strings of a workbook: from the text of a legal document, within the bounds of the tables,
  \<open>getSharedStrings\<close> returns one pointer for each entry, in order, to the texts of its parts
  put together; the table of strings keeps its invariant, and two entries have the same pointer exactly if they
  have the same text.
\<close>

theorem getSharedStrings_reads:
  assumes "legal_doc items" "length (doc_view items) \<le> 1048575" "doc_kvs items \<le> 524288"
    "si_inside (doc_view items)" "intern_ok st"
    "length (si_texts (doc_view items)) \<le> cap" "\<forall>u \<in> set (si_texts (doc_view items)). length u < 65536"
    "length (in_set st) + length (si_texts (doc_view items)) \<le> 65536"
    "length (in_buf st) + joined (si_texts (doc_view items)) + length (si_texts (doc_view items)) < 4194304"
  shows "\<exists>ps st'. getSharedStrings cap (xdoc_bytes items @ 0 # r) st = Some (Inr (ps, st')) \<and> intern_ok st' \<and>
    map (ptr_str st') ps = map Some (si_texts (doc_view items)) \<and>
    (\<forall>i j. i < length ps \<longrightarrow> j < length ps \<longrightarrow>
      (ps ! i = ps ! j \<longleftrightarrow> si_texts (doc_view items) ! i = si_texts (doc_view items) ! j))"
proof -
  obtain x where x: "getXml (xdoc_bytes items @ 0 # r) = Some (Inr x)" "dots_view (x_buf x) (x_dots x) (doc_view items)"
    using getXml_doc [OF assms(1-3), of r] by (auto simp: dots_view_def)
  have "intern_room st (length (si_texts (doc_view items))) (joined (si_texts (doc_view items)))"
    using assms(8,9) by (simp add: intern_room_def)
  from shared_loop_starts [OF x(2) assms(4,5,6,7) this] obtain ps st' where
    s: "getSharedStrings cap (xdoc_bytes items @ 0 # r) st = Some (Inr (ps, st'))" "intern_ok st'"
      "points st' ps (si_texts (doc_view items))"
    using x(1) by (auto simp: getSharedStrings_end)
  obtain ws where ws: "intern_has st' ws" using s(2) by (auto simp: intern_ok_def)
  have m: "map (ptr_str st') ps = map Some (si_texts (doc_view items))" "set ps \<subseteq> ptrs st'"
    using s(3) by (auto simp: points_def)
  have len: "length ps = length (si_texts (doc_view items))" using m(1) map_eq_imp_length_eq by fastforce
  have "ps ! i = ps ! j \<longleftrightarrow> si_texts (doc_view items) ! i = si_texts (doc_view items) ! j"
    if "i < length ps" "j < length ps" for i j
  proof -
    have "ptr_str st' (ps ! k) = Some (si_texts (doc_view items) ! k) \<and> ps ! k \<in> ptrs st'" if "k < length ps" for k
      using that m len nth_map [of k ps "ptr_str st'"] nth_map [of k "si_texts (doc_view items)" Some] nth_mem by auto
    then have "ptr_str st' (ps ! i) = Some (si_texts (doc_view items) ! i)" "ps ! i \<in> ptrs st'"
      "ptr_str st' (ps ! j) = Some (si_texts (doc_view items) ! j)" "ps ! j \<in> ptrs st'"
      using that by blast+
    then show ?thesis using intern_once [OF ws, of "ps ! i" "ps ! j"] by (metis option.inject)
  qed
  then show ?thesis using s(1,2) m(1) by blast
qed

text \<open>\<open><a><si><t>A</t><t>B</t></si><si><t>C</t></si></a>\<close>: the strings \<open>AB\<close> and \<open>C\<close>.\<close>

theorem getSharedStrings_reads_witness:
  "\<exists>p q st. getSharedStrings 65536 [60, 97, 62, 60, 115, 105, 62, 60, 116, 62, 65, 60, 47, 116, 62, 60, 116, 62, 66,
      60, 47, 116, 62, 60, 47, 115, 105, 62, 60, 115, 105, 62, 60, 116, 62, 67, 60, 47, 116, 62, 60, 47, 115, 105, 62,
      60, 47, 97, 62, 0] intern_init = Some (Inr ([p, q], st)) \<and>
    ptr_str st p = Some [65, 66] \<and> ptr_str st q = Some [67] \<and> p \<noteq> q"
proof -
  let ?d = "[(60, X_open [97] [] []), (60, X_open [115, 105] [] []), (60, X_open [116] [] [65]), (60, X_close [116]),
    (60, X_open [116] [] [66]), (60, X_close [116]), (60, X_close [115, 105]), (60, X_open [115, 105] [] []),
    (60, X_open [116] [] [67]), (60, X_close [116]), (60, X_close [115, 105]), (60, X_close [97])]"
  have l: "legal_doc ?d" by (simp add: legal_tag_def legal_attrs_def scans_on_def)
  have v: "doc_view ?d = [([115, 105], [], []), ([116], [65], []), ([116], [66], []), ([115, 105], [], []), ([116], [67], [])]"
    "doc_kvs ?d = 0"
    by (simp_all add: xml_names_def item_kvs_def)
  have t: "si_texts [([115, 105], [], []), ([116], [65], []), ([116], [66], []), ([115, 105], [], []), ([116], [67], [])] =
      [[65, 66], [67]]" "si_inside [([115, 105], [], []), ([116], [65], []), ([116], [66], []), ([115, 105], [], []), ([116], [67], [])]"
    by (simp_all add: n_si_def n_t_def)
  obtain ps st where g: "getSharedStrings 65536 (xdoc_bytes ?d @ [0]) intern_init = Some (Inr (ps, st))"
      "map (ptr_str st) ps = map Some [[65, 66], [67]]"
      "\<forall>i j. i < length ps \<longrightarrow> j < length ps \<longrightarrow> (ps ! i = ps ! j \<longleftrightarrow> [[65, 66], [67 :: byte]] ! i = [[65, 66], [67]] ! j)"
    using getSharedStrings_reads [OF l, of intern_init 65536 "[]"] intern_init_ok t(2) unfolding v t(1)
    by (auto simp: intern_init_def)
  then obtain p q where "ps = [p, q]" by (auto simp: Cons_eq_map_conv map_eq_Cons_conv)
  then show ?thesis using g(1,2) g(3) [rule_format, of 0 1] by simp
qed

end
