(* ===== verification/XlsxShare.thy ===== *)
theory XlsxShare
  imports XlsxStrings "HOL-Library.Product_Lexorder"
begin

text \<open>
  What occurs more than once in the tables is written once (\<open>shareCell\<close>, \<open>shareRow\<close>,
  \<open>shareSheet\<close> and the loops of \<open>main\<close> in \<open>myxml2/myxml2.cpp\<close>): three sorted arrays
  that count the cells, rows and sheets. Equal strings have equal pointers, so it is pointers that are
  compared, by the \<open>int\<close> that their difference is cut to; \<open>addr\<close> is where a string is in memory.
\<close>

section \<open>Entries and their order\<close>

definition ptr_cmp :: "(str_ptr \<Rightarrow> int) \<Rightarrow> str_ptr \<Rightarrow> str_ptr \<Rightarrow> int" where
  "ptr_cmp addr p q = s32 (addr p - addr q)"

record shareCell =
  sc_cell :: str_ptr
  sc_cnt :: int

record shareRow =
  sr_cnt :: int
  sr_m :: nat
  sr_varType :: "str_ptr list"
  sr_name :: "str_ptr list"
  sr_row :: "str_ptr list"

record shareSheet =
  ss_cnt :: int
  ss_n :: nat
  ss_m :: nat
  ss_sheet :: "str_ptr list list"

definition cmpCell :: "(str_ptr \<Rightarrow> int) \<Rightarrow> shareCell \<Rightarrow> shareCell \<Rightarrow> int" where
  "cmpCell addr a b = ptr_cmp addr (sc_cell a) (sc_cell b)"

text \<open>The columns of two rows of the same width, up to the first that differs.\<close>

fun cmp_ptrs :: "(str_ptr \<Rightarrow> int) \<Rightarrow> str_ptr list \<Rightarrow> str_ptr list \<Rightarrow> int" where
  "cmp_ptrs addr (p # ps) (q # qs) =
     (let ret = ptr_cmp addr p q in if ret \<noteq> 0 then ret else cmp_ptrs addr ps qs)"
| "cmp_ptrs addr _ _ = 0"

definition cmpRow :: "(str_ptr \<Rightarrow> int) \<Rightarrow> shareRow \<Rightarrow> shareRow \<Rightarrow> int" where
  "cmpRow addr a b =
     (let m = sr_m a; ret = int m - int (sr_m b)
      in if ret \<noteq> 0 then ret
      else let ret = cmp_ptrs addr (drop 1 (take m (sr_name a))) (drop 1 (take m (sr_name b)))
      in if ret \<noteq> 0 then ret
      else cmp_ptrs addr (drop 1 (take m (sr_row a))) (drop 1 (take m (sr_row b))))"

fun cmp_rows :: "(str_ptr \<Rightarrow> int) \<Rightarrow> nat \<Rightarrow> str_ptr list list \<Rightarrow> str_ptr list list \<Rightarrow> int" where
  "cmp_rows addr m (a # as) (b # bs) =
     (let ret = cmp_ptrs addr (take m a) (take m b) in if ret \<noteq> 0 then ret else cmp_rows addr m as bs)"
| "cmp_rows addr m _ _ = 0"

definition cmpSheet :: "(str_ptr \<Rightarrow> int) \<Rightarrow> shareSheet \<Rightarrow> shareSheet \<Rightarrow> int" where
  "cmpSheet addr a b =
     (let n = ss_n a; ret = int n - int (ss_n b)
      in if ret \<noteq> 0 then ret
      else let m = ss_m a; ret = int m - int (ss_m b)
      in if ret \<noteq> 0 then ret
      else cmp_rows addr m (take n (ss_sheet a)) (take n (ss_sheet b)))"

section \<open>Counting\<close>

text \<open>The macro \<open>binInsert\<close>: the search, then one more of an entry or a new one at its place.\<close>

function bin_search :: "('a \<Rightarrow> int) \<Rightarrow> 'a list \<Rightarrow> int \<Rightarrow> int \<Rightarrow> (nat + int) option" where
  "bin_search ret xs a b =
     (if \<not> a \<le> b then Some (Inr a)
      else let c = (a + b) div 2 in do {
        x \<leftarrow> iload xs c;
        if ret x < 0 then bin_search ret xs a (c - 1)
        else if 0 < ret x then bin_search ret xs (c + 1) b
        else Some (Inl (nat c))
      })"
  by pat_completeness auto
termination by (relation "measure (\<lambda>(ret, xs, a, b). nat (b - a + 1))") auto

declare bin_search.simps [simp del]

definition binInsert ::
    "nat \<Rightarrow> ('a \<Rightarrow> 'a \<Rightarrow> int) \<Rightarrow> ('a \<Rightarrow> 'a) \<Rightarrow> 'a \<Rightarrow> 'a list \<Rightarrow> (xlsx_error + 'a list) option" where
  "binInsert cap cmp count_up target share = do {
     r \<leftarrow> bin_search (cmp target) share 0 (int (length share) - 1);
     Some (case r of
         Inl c \<Rightarrow> Inr (share[c := count_up (share ! c)])
       | Inr a \<Rightarrow>
           if cap \<le> length share then Inl Err_share_full
           else Inr (take (nat a) share @ target # drop (nat a) share))
   }"

fun insert_all ::
    "nat \<Rightarrow> ('a \<Rightarrow> 'a \<Rightarrow> int) \<Rightarrow> ('a \<Rightarrow> 'a) \<Rightarrow> 'a list \<Rightarrow> 'a list \<Rightarrow> (xlsx_error + 'a list) option" where
  "insert_all cap cmp count_up [] share = Some (Inr share)"
| "insert_all cap cmp count_up (t # ts) share =
     ok_then (binInsert cap cmp count_up t share) (insert_all cap cmp count_up ts)"

definition cell_up :: "shareCell \<Rightarrow> shareCell" where "cell_up x = x\<lparr>sc_cnt := sc_cnt x + 1\<rparr>"
definition row_up :: "shareRow \<Rightarrow> shareRow" where "row_up x = x\<lparr>sr_cnt := sr_cnt x + 1\<rparr>"
definition sheet_up :: "shareSheet \<Rightarrow> shareSheet" where "sheet_up x = x\<lparr>ss_cnt := ss_cnt x + 1\<rparr>"

text \<open>The rows of the distinct sheets, and the cells of the distinct rows whose column is a table.\<close>

definition sheet_rows :: "shareSheet \<Rightarrow> shareRow list" where
  "sheet_rows t = map (\<lambda>row. \<lparr>sr_cnt = 1, sr_m = ss_m t, sr_varType = ss_sheet t ! 0, sr_name = ss_sheet t ! 1,
     sr_row = row\<rparr>) (drop 2 (take (ss_n t) (ss_sheet t)))"

definition row_cells :: "shareRow \<Rightarrow> shareCell list" where
  "row_cells t = map (\<lambda>i. \<lparr>sc_cell = sr_row t ! i, sc_cnt = 1\<rparr>)
     (filter (\<lambda>i. sr_varType t ! i = Fix 3 \<or> sr_varType t ! i = Fix 4) [1..<sr_m t])"

definition shareRows :: "(str_ptr \<Rightarrow> int) \<Rightarrow> shareSheet list \<Rightarrow> (xlsx_error + shareRow list) option" where
  "shareRows addr sheets = insert_all 32768 (cmpRow addr) row_up (concat (map sheet_rows sheets)) []"

definition shareCells :: "(str_ptr \<Rightarrow> int) \<Rightarrow> shareRow list \<Rightarrow> (xlsx_error + shareCell list) option" where
  "shareCells addr rows = insert_all 32768 (cmpCell addr) cell_up (concat (map row_cells rows)) []"

text \<open>Those that occur more than \<open>most\<close> times are moved to the front of the array.\<close>

function keep_shared :: "int \<Rightarrow> ('a \<Rightarrow> int) \<Rightarrow> nat \<Rightarrow> nat \<Rightarrow> 'a list \<Rightarrow> 'a list" where
  "keep_shared most cnt i j xs =
     (if length xs \<le> i then take j xs
      else if most < cnt (xs ! i) then keep_shared most cnt (i + 1) (j + 1) (xs[j := xs ! i])
      else keep_shared most cnt (i + 1) j xs)"
  by pat_completeness auto
termination by (relation "measure (\<lambda>(most, cnt, i, j, xs). length xs - i)") auto

declare keep_shared.simps [simp del]

text \<open>The search of the C library in them.\<close>

function bsearch_from :: "('a \<Rightarrow> int) \<Rightarrow> 'a list \<Rightarrow> nat \<Rightarrow> nat \<Rightarrow> nat option" where
  "bsearch_from ret xs l u =
     (if u \<le> l then None
      else let i = (l + u) div 2
      in if ret (xs ! i) < 0 then bsearch_from ret xs l i
      else if 0 < ret (xs ! i) then bsearch_from ret xs (i + 1) u
      else Some i)"
  by pat_completeness auto
termination by (relation "measure (\<lambda>(ret, xs, l, u). u - l)") auto

declare bsearch_from.simps [simp del]

definition bsearch :: "('a \<Rightarrow> 'a \<Rightarrow> int) \<Rightarrow> 'a \<Rightarrow> 'a list \<Rightarrow> nat option" where
  "bsearch cmp target xs = bsearch_from (cmp target) xs 0 (length xs)"

lemma keep_shared_from:
  "j \<le> i \<Longrightarrow> i \<le> length xs \<Longrightarrow>
    keep_shared most cnt i j xs = take j xs @ filter (\<lambda>x. most < cnt x) (drop i xs)"
proof (induction most cnt i j xs rule: keep_shared.induct)
  case (1 most cnt i j xs)
  show ?case
  proof (cases "length xs \<le> i")
    case True
    then show ?thesis using 1 by (subst keep_shared.simps) simp
  next
    case False
    then have d: "drop i xs = xs ! i # drop (i + 1) xs" by (simp add: Cons_nth_drop_Suc)
    have "take (Suc j) (xs[j := xs ! i]) = take j xs @ [xs ! i]"
      using False 1 by (simp add: take_Suc_conv_app_nth)
    then show ?thesis using False 1 d by (subst keep_shared.simps) simp
  qed
qed

lemma keep_shared_filter: "keep_shared most cnt 0 0 xs = filter (\<lambda>x. most < cnt x) xs"
  by (simp add: keep_shared_from)

section \<open>Sorted tables\<close>

text \<open>The interface: a comparison that orders the entries by a key.\<close>

locale share_order =
  fixes cmp :: "'a \<Rightarrow> 'a \<Rightarrow> int"
    and key :: "'a \<Rightarrow> 'k::linorder"
    and good :: "'a \<Rightarrow> bool"
    and cnt :: "'a \<Rightarrow> int"
    and up :: "'a \<Rightarrow> 'a"
  assumes cmp_less: "good a \<Longrightarrow> good b \<Longrightarrow> cmp a b < 0 \<longleftrightarrow> key a < key b"
    and cmp_greater: "good a \<Longrightarrow> good b \<Longrightarrow> 0 < cmp a b \<longleftrightarrow> key b < key a"
    and up_key: "key (up a) = key a"
    and up_good: "good (up a) = good a"
    and up_cnt: "cnt (up a) = cnt a + 1"
begin

definition share_ok :: "'a list \<Rightarrow> bool" where
  "share_ok xs \<longleftrightarrow> (\<forall>x \<in> set xs. good x) \<and> sorted_wrt (<) (map key xs)"

definition occurs :: "'a list \<Rightarrow> 'k \<Rightarrow> int" where
  "occurs xs k = sum_list (map cnt (filter (\<lambda>x. key x = k) xs))"

lemma share_ok_nth: "share_ok xs \<Longrightarrow> i < length xs \<Longrightarrow> good (xs ! i)"
  by (simp add: share_ok_def)

lemma share_ok_less: "share_ok xs \<Longrightarrow> i < j \<Longrightarrow> j < length xs \<Longrightarrow> key (xs ! i) < key (xs ! j)"
  using sorted_wrt_nth_less [of "(<)" "map key xs" i j] by (simp add: share_ok_def)

lemma share_ok_le: "share_ok xs \<Longrightarrow> i \<le> j \<Longrightarrow> j < length xs \<Longrightarrow> key (xs ! i) \<le> key (xs ! j)"
  using share_ok_less [of xs i j] by (cases "i = j") auto

text \<open>The search narrows down to the key or the gap where it belongs.\<close>

lemma bin_search_finds:
  assumes "share_ok xs" "good t"
  shows "0 \<le> a \<Longrightarrow> b < int (length xs) \<Longrightarrow> a \<le> b + 1 \<Longrightarrow>
    (\<forall>i < nat a. key (xs ! i) < key t) \<Longrightarrow> (\<forall>i < length xs. b < int i \<longrightarrow> key t < key (xs ! i)) \<Longrightarrow>
    (case bin_search (cmp t) xs a b of
       None \<Rightarrow> False
     | Some (Inl c) \<Rightarrow> c < length xs \<and> key (xs ! c) = key t
     | Some (Inr k) \<Rightarrow> 0 \<le> k \<and> nat k \<le> length xs \<and> (\<forall>i < nat k. key (xs ! i) < key t) \<and>
         (\<forall>i < length xs. nat k \<le> i \<longrightarrow> key t < key (xs ! i)))"
proof (induction "nat (b - a + 1)" arbitrary: a b rule: less_induct)
  case less
  show ?case
  proof (cases "a \<le> b")
    case False
    then show ?thesis using less.prems by (subst bin_search.simps) auto
  next
    case True
    define c where "c = (a + b) div 2"
    have c: "a \<le> c" "c \<le> b" "0 \<le> c" "nat c < length xs"
      using True less.prems(1,2) by (auto simp: c_def)
    have x: "iload xs c = Some (xs ! nat c)" "good (xs ! nat c)"
      using c(3,4) share_ok_nth [OF assms(1)] by (auto simp: mem_defs)
    have step: "bin_search (cmp t) xs a b =
        (if key t < key (xs ! nat c) then bin_search (cmp t) xs a (c - 1)
         else if key (xs ! nat c) < key t then bin_search (cmp t) xs (c + 1) b
         else Some (Inl (nat c)))"
      using True x cmp_less [OF assms(2) x(2)] cmp_greater [OF assms(2) x(2)]
      by (subst bin_search.simps) (simp add: Let_def flip: c_def)
    consider "key t < key (xs ! nat c)" | "key (xs ! nat c) < key t" | "key t = key (xs ! nat c)" by fastforce
    then show ?thesis
    proof cases
      case 1
      have "key t < key (xs ! i)" if "i < length xs" "c - 1 < int i" for i
        using 1 share_ok_le [OF assms(1), of "nat c" i] that c(3) by (simp add: nat_le_iff)
      then show ?thesis using less.hyps [of "c - 1" a] less.prems c 1 step by simp
    next
      case 2
      have "key (xs ! i) < key t" if "i < nat (c + 1)" for i
        using 2 share_ok_le [OF assms(1), of i "nat c"] that c(3,4) by (simp add: nat_add_distrib)
      then show ?thesis using less.hyps [of b "c + 1"] less.prems c 2 step by (simp add: less_not_sym)
    next
      case 3
      then show ?thesis using step c(4) by simp
    qed
  qed
qed

lemma occurs_simps [simp]:
  "occurs [] k = 0" "occurs (x # xs) k = (if key x = k then cnt x else 0) + occurs xs k"
  "occurs (xs @ ys) k = occurs xs k + occurs ys k"
  by (simp_all add: occurs_def)

lemma occurs_up:
  "c < length xs \<Longrightarrow> occurs (xs[c := up (xs ! c)]) k = occurs xs k + (if key (xs ! c) = k then 1 else 0)"
  by (induction xs arbitrary: c) (auto simp: up_key up_cnt split: nat.split)

lemma share_ok_insert:
  "share_ok (l @ r) \<Longrightarrow> good t \<Longrightarrow> \<forall>x \<in> set l. key x < key t \<Longrightarrow> \<forall>x \<in> set r. key t < key x \<Longrightarrow> share_ok (l @ t # r)"
  by (auto simp: share_ok_def sorted_wrt_append)

lemma binInsert_ok:
  assumes "share_ok xs" "good t" "cnt t = 1"
  shows "case binInsert cap cmp up t xs of
      None \<Rightarrow> False
    | Some (Inl e) \<Rightarrow> cap \<le> length xs \<and> key t \<notin> key ` set xs
    | Some (Inr ys) \<Rightarrow> share_ok ys \<and> key ` set ys = insert (key t) (key ` set xs) \<and>
        (\<forall>k. occurs ys k = occurs xs k + (if k = key t then 1 else 0))"
proof -
  have s: "case bin_search (cmp t) xs 0 (int (length xs) - 1) of
       None \<Rightarrow> False
     | Some (Inl c) \<Rightarrow> c < length xs \<and> key (xs ! c) = key t
     | Some (Inr k) \<Rightarrow> 0 \<le> k \<and> nat k \<le> length xs \<and> (\<forall>i < nat k. key (xs ! i) < key t) \<and>
         (\<forall>i < length xs. nat k \<le> i \<longrightarrow> key t < key (xs ! i))"
    by (rule bin_search_finds [OF assms(1,2)]) auto
  then obtain r where r: "bin_search (cmp t) xs 0 (int (length xs) - 1) = Some r" by (auto split: option.splits)
  show ?thesis
  proof (cases r)
    case (Inl c)
    then have c: "c < length xs" "key (xs ! c) = key t" using s r by auto
    have m: "map key (xs[c := up (xs ! c)]) = map key xs" using c(1) list_update_id [of "map key xs" c]
      by (simp add: map_update up_key)
    then have "key ` set (xs[c := up (xs ! c)]) = key ` set xs" by (metis list.set_map)
    moreover have "share_ok (xs[c := up (xs ! c)])"
      using assms(1) share_ok_nth [OF assms(1) c(1)] m set_update_subset_insert [of xs c "up (xs ! c)"]
      by (auto simp: share_ok_def up_good)
    moreover have "key t \<in> key ` set xs" using c by (metis image_eqI nth_mem)
    ultimately show ?thesis using r Inl c occurs_up [OF c(1)] by (auto simp: binInsert_def)
  next
    case (Inr k)
    then have k: "nat k \<le> length xs" "\<forall>i < nat k. key (xs ! i) < key t" "\<forall>i < length xs. nat k \<le> i \<longrightarrow> key t < key (xs ! i)"
      using s r by auto
    let ?l = "take (nat k) xs" and ?r = "drop (nat k) xs"
    have l: "\<forall>x \<in> set ?l. key x < key t" using k(1,2) by (auto simp: in_set_conv_nth)
    have r': "\<forall>x \<in> set ?r. key t < key x"
    proof
      fix x assume "x \<in> set ?r"
      then obtain j where "j < length xs - nat k" "x = xs ! (nat k + j)" using k(1) by (auto simp: in_set_conv_nth)
      then show "key t < key x" using k(3) by auto
    qed
    have xs: "xs = ?l @ ?r" by simp
    have ok: "share_ok (?l @ ?r)" using assms(1) by simp
    have "key t \<notin> key ` set ?l" "key t \<notin> key ` set ?r" using l r' by (metis imageE less_irrefl)+
    then have "key t \<notin> key ` set xs" by (metis Un_iff append_take_drop_id image_Un set_append)
    moreover have "share_ok (?l @ t # ?r)"
      by (rule share_ok_insert [OF ok assms(2) l r'])
    moreover have "key ` set (?l @ t # ?r) = insert (key t) (key ` set xs)"
      by (metis (no_types, lifting) Un_insert_right append_take_drop_id image_insert list.simps(15) set_append)
    moreover have "occurs (?l @ t # ?r) j = occurs xs j + (if j = key t then 1 else 0)" for j
    proof -
      have "occurs xs j = occurs ?l j + occurs ?r j" by (metis append_take_drop_id occurs_simps(3))
      then show ?thesis using assms(3) by simp
    qed
    ultimately show ?thesis using r Inr by (auto simp: binInsert_def)
  qed
qed

lemma share_ok_distinct: "share_ok xs \<Longrightarrow> distinct (map key xs)"
  using strict_sorted_iff by (auto simp: share_ok_def)

lemma insert_all_ok:
  assumes "share_ok xs" "\<forall>t \<in> set ts. good t \<and> cnt t = 1" "card (key ` (set xs \<union> set ts)) \<le> cap"
  shows "\<exists>ys. insert_all cap cmp up ts xs = Some (Inr ys) \<and> share_ok ys \<and> key ` set ys = key ` (set xs \<union> set ts) \<and>
    (\<forall>k. occurs ys k = occurs xs k + int (count_list (map key ts) k))"
  using assms
proof (induction ts arbitrary: xs)
  case (Cons t ts)
  have t: "good t" "cnt t = 1" using Cons.prems(2) by simp_all
  have len: "length xs = card (key ` set xs)"
    using distinct_card [OF share_ok_distinct [OF Cons.prems(1)]] by simp
  have le: "card (key ` (insert t (set xs))) \<le> cap"
    by (rule order_trans [OF card_mono Cons.prems(3)]) auto
  have "\<not> (cap \<le> length xs \<and> key t \<notin> key ` set xs)"
    using le unfolding len by (auto simp: card_insert_if split: if_splits)
  then obtain ys where ys: "binInsert cap cmp up t xs = Some (Inr ys)" "share_ok ys"
      "key ` set ys = insert (key t) (key ` set xs)" "\<forall>k. occurs ys k = occurs xs k + (if k = key t then 1 else 0)"
    using binInsert_ok [OF Cons.prems(1) t, of cap] by (auto split: option.splits sum.splits)
  have "key ` (set ys \<union> set ts) = key ` (set xs \<union> set (t # ts))" using ys(3) by auto
  then show ?case
    using Cons.IH [OF ys(2)] Cons.prems(2,3) ys(1,4) by auto
qed simp

lemma bsearch_from_finds:
  assumes "share_ok xs" "good t"
  shows "u \<le> length xs \<Longrightarrow> (\<forall>i < l. i < length xs \<longrightarrow> key (xs ! i) < key t) \<Longrightarrow>
    (\<forall>i < length xs. u \<le> i \<longrightarrow> key t < key (xs ! i)) \<Longrightarrow>
    (case bsearch_from (cmp t) xs l u of
       None \<Rightarrow> key t \<notin> key ` set xs
     | Some i \<Rightarrow> i < length xs \<and> key (xs ! i) = key t)"
proof (induction "u - l" arbitrary: l u rule: less_induct)
  case less
  show ?case
  proof (cases "u \<le> l")
    case True
    have "key (xs ! i) \<noteq> key t" if "i < length xs" for i
      using less.prems(2,3) True that by (cases "i < l") fastforce+
    then have "key t \<notin> key ` set xs" by (metis imageE in_set_conv_nth)
    then show ?thesis using True by (subst bsearch_from.simps) simp
  next
    case False
    define i where "i = (l + u) div 2"
    have i: "l \<le> i" "i < u" "i < length xs" using False less.prems(1) by (auto simp: i_def)
    note good = share_ok_nth [OF assms(1) i(3)]
    have step: "bsearch_from (cmp t) xs l u =
        (if key t < key (xs ! i) then bsearch_from (cmp t) xs l i
         else if key (xs ! i) < key t then bsearch_from (cmp t) xs (i + 1) u
         else Some i)"
      using False cmp_less [OF assms(2) good] cmp_greater [OF assms(2) good]
      by (subst bsearch_from.simps) (simp add: Let_def flip: i_def)
    consider "key t < key (xs ! i)" | "key (xs ! i) < key t" | "key t = key (xs ! i)" by fastforce
    then show ?thesis
    proof cases
      case 1
      have "key t < key (xs ! j)" if "j < length xs" "i \<le> j" for j
        using 1 share_ok_le [OF assms(1) that(2,1)] by simp
      then show ?thesis using less.hyps [of i l] less.prems i 1 step by simp
    next
      case 2
      have "key (xs ! j) < key t" if "j < i + 1" for j
        using 2 share_ok_le [OF assms(1), of j i] that i(3) by simp
      then show ?thesis using less.hyps [of u "i + 1"] less.prems i 2 step by (simp add: less_not_sym)
    next
      case 3
      then show ?thesis using step i(3) by simp
    qed
  qed
qed

lemma bsearch_finds:
  assumes "share_ok xs" "good t"
  shows "case bsearch cmp t xs of None \<Rightarrow> key t \<notin> key ` set xs | Some i \<Rightarrow> i < length xs \<and> key (xs ! i) = key t"
  unfolding bsearch_def by (rule bsearch_from_finds [OF assms]) simp_all

lemma occurs_once:
  assumes "share_ok xs" "x \<in> set xs"
  shows "occurs xs (key x) = cnt x"
  using assms
proof (induction xs)
  case (Cons y xs)
  have z: "occurs xs k = 0" if "k \<notin> key ` set xs" for k
    using that by (induction xs) auto
  have "share_ok xs" "key y \<notin> key ` set xs"
    using Cons.prems(1) share_ok_distinct [OF Cons.prems(1)] by (auto simp: share_ok_def)
  then show ?case using Cons z by auto
qed simp

lemma share_ok_filter: "share_ok xs \<Longrightarrow> share_ok (filter P xs)"
  by (induction xs) (auto simp: share_ok_def)

lemma shared_found:
  assumes "\<forall>t \<in> set ts. good t \<and> cnt t = 1" "card (key ` set ts) \<le> cap" "good t"
  shows "\<exists>ys. insert_all cap cmp up ts [] = Some (Inr ys) \<and>
    (case bsearch cmp t (keep_shared 1 cnt 0 0 ys) of
       None \<Rightarrow> count_list (map key ts) (key t) \<le> 1
     | Some i \<Rightarrow> i < length (keep_shared 1 cnt 0 0 ys) \<and> key (keep_shared 1 cnt 0 0 ys ! i) = key t \<and>
         2 \<le> count_list (map key ts) (key t))"
proof -
  have "share_ok []" by (simp add: share_ok_def)
  from insert_all_ok [OF this assms(1), of cap] assms(2) obtain ys where
    ys: "insert_all cap cmp up ts [] = Some (Inr ys)" "share_ok ys" "key ` set ys = key ` set ts"
      "\<And>k. occurs ys k = int (count_list (map key ts) k)"
    by auto
  have n: "int (count_list (map key ts) (key y)) = cnt y" if "y \<in> set ys" for y
    using ys(4) [of "key y"] occurs_once [OF ys(2) that] by simp
  have "key t \<in> key ` set (filter (\<lambda>x. 1 < cnt x) ys) \<longleftrightarrow> 2 \<le> count_list (map key ts) (key t)"
  proof
    assume "key t \<in> key ` set (filter (\<lambda>x. 1 < cnt x) ys)"
    then obtain y where "y \<in> set ys" "1 < cnt y" "key t = key y" by auto
    then show "2 \<le> count_list (map key ts) (key t)" using n [of y] by simp
  next
    assume two: "2 \<le> count_list (map key ts) (key t)"
    then have "key t \<in> key ` set ts" using count_notin [of "key t" "map key ts"] by fastforce
    then obtain y where "y \<in> set ys" "key t = key y" using ys(3) by auto
    then show "key t \<in> key ` set (filter (\<lambda>x. 1 < cnt x) ys)" using two n [of y] by auto
  qed
  moreover define zs where "zs = filter (\<lambda>x. 1 < cnt x) ys"
  ultimately have two: "key t \<in> key ` set zs \<longleftrightarrow> 2 \<le> count_list (map key ts) (key t)" by simp
  have b: "case bsearch cmp t zs of None \<Rightarrow> key t \<notin> key ` set zs | Some i \<Rightarrow> i < length zs \<and> key (zs ! i) = key t"
    unfolding zs_def by (rule bsearch_finds [OF share_ok_filter [OF ys(2)] assms(3)])
  have "case bsearch cmp t zs of None \<Rightarrow> count_list (map key ts) (key t) \<le> 1
      | Some i \<Rightarrow> i < length zs \<and> key (zs ! i) = key t \<and> 2 \<le> count_list (map key ts) (key t)"
  proof (cases "bsearch cmp t zs")
    case (Some i)
    then have i: "i < length zs" "key (zs ! i) = key t" using b by simp_all
    then have "key t \<in> key ` set zs" by (metis image_eqI nth_mem)
    then show ?thesis using two Some i by simp
  qed (use two b in simp)
  moreover have "keep_shared 1 cnt 0 0 ys = zs" by (simp add: keep_shared_filter zs_def)
  ultimately show ?thesis using ys(1) by auto
qed

end

section \<open>Cells, rows and sheets\<close>

text \<open>No two strings are at the same address, and those in use, \<open>P\<close>, are near each other.\<close>

definition addr_ok :: "(str_ptr \<Rightarrow> int) \<Rightarrow> str_ptr set \<Rightarrow> bool" where
  "addr_ok addr P \<longleftrightarrow> inj addr \<and> (\<forall>p \<in> P. 0 \<le> addr p \<and> addr p < 2147483648)"

definition near :: "(str_ptr \<Rightarrow> int) \<Rightarrow> str_ptr \<Rightarrow> bool" where
  "near addr p \<longleftrightarrow> 0 \<le> addr p \<and> addr p < 2147483648"

lemma ptr_cmp_near: "near addr p \<Longrightarrow> near addr q \<Longrightarrow> ptr_cmp addr p q = addr p - addr q"
  by (simp add: ptr_cmp_def near_def)

definition cell_key :: "(str_ptr \<Rightarrow> int) \<Rightarrow> shareCell \<Rightarrow> int" where
  "cell_key addr x = addr (sc_cell x)"

interpretation cells: share_order "cmpCell addr" "cell_key addr" "\<lambda>x. near addr (sc_cell x)" sc_cnt cell_up for addr
  by unfold_locales (auto simp: cmpCell_def ptr_cmp_near cell_key_def cell_up_def)

definition ptrs_key :: "(str_ptr \<Rightarrow> int) \<Rightarrow> str_ptr list \<Rightarrow> int list" where
  "ptrs_key addr ps = map addr ps"

lemma cmp_ptrs_key:
  "length ps = length qs \<Longrightarrow> \<forall>p \<in> set ps. near addr p \<Longrightarrow> \<forall>q \<in> set qs. near addr q \<Longrightarrow>
    (cmp_ptrs addr ps qs < 0 \<longleftrightarrow> ptrs_key addr ps < ptrs_key addr qs) \<and>
    (0 < cmp_ptrs addr ps qs \<longleftrightarrow> ptrs_key addr qs < ptrs_key addr ps) \<and>
    (cmp_ptrs addr ps qs = 0 \<longleftrightarrow> ptrs_key addr ps = ptrs_key addr qs)"
  by (induction ps qs rule: list_induct2) (auto simp: ptrs_key_def ptr_cmp_near Let_def)

definition row_cols :: "shareRow \<Rightarrow> str_ptr list \<times> str_ptr list" where
  "row_cols x = (drop 1 (take (sr_m x) (sr_name x)), drop 1 (take (sr_m x) (sr_row x)))"

definition row_key :: "(str_ptr \<Rightarrow> int) \<Rightarrow> shareRow \<Rightarrow> int \<times> int list \<times> int list" where
  "row_key addr x = (int (sr_m x), ptrs_key addr (fst (row_cols x)), ptrs_key addr (snd (row_cols x)))"

definition row_good :: "(str_ptr \<Rightarrow> int) \<Rightarrow> shareRow \<Rightarrow> bool" where
  "row_good addr x \<longleftrightarrow> sr_m x \<le> length (sr_name x) \<and> sr_m x \<le> length (sr_row x) \<and>
     (\<forall>p \<in> set (fst (row_cols x)) \<union> set (snd (row_cols x)). near addr p)"

lemma cmpRow_key:
  assumes "row_good addr a" "row_good addr b"
  shows "(cmpRow addr a b < 0 \<longleftrightarrow> row_key addr a < row_key addr b) \<and>
    (0 < cmpRow addr a b \<longleftrightarrow> row_key addr b < row_key addr a)"
proof (cases "sr_m a = sr_m b")
  case True
  have "length (fst (row_cols a)) = length (fst (row_cols b))" "length (snd (row_cols a)) = length (snd (row_cols b))"
    using assms True by (simp_all add: row_good_def row_cols_def)
  moreover have "\<forall>p \<in> set (fst (row_cols a)). near addr p" "\<forall>p \<in> set (fst (row_cols b)). near addr p"
    "\<forall>p \<in> set (snd (row_cols a)). near addr p" "\<forall>p \<in> set (snd (row_cols b)). near addr p"
    using assms by (simp_all add: row_good_def)
  ultimately have k: "(cmp_ptrs addr (fst (row_cols a)) (fst (row_cols b)) < 0 \<longleftrightarrow>
        ptrs_key addr (fst (row_cols a)) < ptrs_key addr (fst (row_cols b))) \<and>
      (0 < cmp_ptrs addr (fst (row_cols a)) (fst (row_cols b)) \<longleftrightarrow>
        ptrs_key addr (fst (row_cols b)) < ptrs_key addr (fst (row_cols a))) \<and>
      (cmp_ptrs addr (fst (row_cols a)) (fst (row_cols b)) = 0 \<longleftrightarrow>
        ptrs_key addr (fst (row_cols a)) = ptrs_key addr (fst (row_cols b)))"
    "(cmp_ptrs addr (snd (row_cols a)) (snd (row_cols b)) < 0 \<longleftrightarrow>
        ptrs_key addr (snd (row_cols a)) < ptrs_key addr (snd (row_cols b))) \<and>
      (0 < cmp_ptrs addr (snd (row_cols a)) (snd (row_cols b)) \<longleftrightarrow>
        ptrs_key addr (snd (row_cols b)) < ptrs_key addr (snd (row_cols a)))"
    using cmp_ptrs_key by blast+
  have "cmpRow addr a b = (let ret = cmp_ptrs addr (fst (row_cols a)) (fst (row_cols b)) in
      if ret \<noteq> 0 then ret else cmp_ptrs addr (snd (row_cols a)) (snd (row_cols b)))"
    using True by (simp add: cmpRow_def row_cols_def Let_def)
  then show ?thesis using k True by (auto simp: row_key_def Let_def)
qed (auto simp: cmpRow_def row_key_def Let_def)

interpretation rows: share_order "cmpRow addr" "row_key addr" "row_good addr" sr_cnt row_up for addr
  by unfold_locales (auto simp: cmpRow_key row_key_def row_good_def row_cols_def row_up_def)

definition sheet_key :: "(str_ptr \<Rightarrow> int) \<Rightarrow> shareSheet \<Rightarrow> int \<times> int \<times> int list list" where
  "sheet_key addr x = (int (ss_n x), int (ss_m x), map (\<lambda>r. ptrs_key addr (take (ss_m x) r)) (take (ss_n x) (ss_sheet x)))"

definition sheet_good :: "(str_ptr \<Rightarrow> int) \<Rightarrow> shareSheet \<Rightarrow> bool" where
  "sheet_good addr x \<longleftrightarrow> ss_n x \<le> length (ss_sheet x) \<and>
     (\<forall>r \<in> set (take (ss_n x) (ss_sheet x)). ss_m x \<le> length r \<and> (\<forall>p \<in> set (take (ss_m x) r). near addr p))"

lemma cmp_rows_key:
  "length as = length bs \<Longrightarrow> \<forall>r \<in> set as \<union> set bs. m \<le> length r \<and> (\<forall>p \<in> set (take m r). near addr p) \<Longrightarrow>
    (cmp_rows addr m as bs < 0 \<longleftrightarrow> map (\<lambda>r. ptrs_key addr (take m r)) as < map (\<lambda>r. ptrs_key addr (take m r)) bs) \<and>
    (0 < cmp_rows addr m as bs \<longleftrightarrow> map (\<lambda>r. ptrs_key addr (take m r)) bs < map (\<lambda>r. ptrs_key addr (take m r)) as)"
proof (induction as bs rule: list_induct2)
  case (Cons a as b bs)
  have "length (take m a) = length (take m b)" using Cons.prems by simp
  from cmp_ptrs_key [OF this, of addr] Cons.prems
  have k: "(cmp_ptrs addr (take m a) (take m b) < 0 \<longleftrightarrow> ptrs_key addr (take m a) < ptrs_key addr (take m b)) \<and>
      (0 < cmp_ptrs addr (take m a) (take m b) \<longleftrightarrow> ptrs_key addr (take m b) < ptrs_key addr (take m a)) \<and>
      (cmp_ptrs addr (take m a) (take m b) = 0 \<longleftrightarrow> ptrs_key addr (take m a) = ptrs_key addr (take m b))"
    by auto
  show ?case using k Cons by (auto simp: Let_def)
qed simp

lemma cmpSheet_key:
  assumes "sheet_good addr a" "sheet_good addr b"
  shows "(cmpSheet addr a b < 0 \<longleftrightarrow> sheet_key addr a < sheet_key addr b) \<and>
    (0 < cmpSheet addr a b \<longleftrightarrow> sheet_key addr b < sheet_key addr a)"
proof (cases "ss_n a = ss_n b \<and> ss_m a = ss_m b")
  case True
  then have "length (take (ss_n a) (ss_sheet a)) = length (take (ss_n a) (ss_sheet b))"
    using assms by (auto simp: sheet_good_def)
  from cmp_rows_key [OF this, of "ss_m a" addr] show ?thesis
    using True assms by (auto simp: cmpSheet_def sheet_key_def sheet_good_def Let_def)
qed (auto simp: cmpSheet_def sheet_key_def Let_def)

interpretation sheets: share_order "cmpSheet addr" "sheet_key addr" "sheet_good addr" ss_cnt sheet_up for addr
  by unfold_locales (auto simp: cmpSheet_key sheet_key_def sheet_good_def sheet_up_def)

section \<open>What is shared\<close>

lemma count_list_inj:
  "inj_on f (insert x (set xs)) \<Longrightarrow> count_list (map f xs) (f x) = count_list xs x"
  by (induction xs) (auto simp: inj_on_def)

definition table_cells :: "shareRow list \<Rightarrow> str_ptr list" where
  "table_cells rows = map sc_cell (concat (map row_cells rows))"

text \<open>
  C19. The shared cells: as long as there is room for the distinct cells, the loops of \<open>main\<close>
  end, and looking up a cell in the array they leave finds it, at an entry that holds
  it, exactly if it occurs more than once in the columns of tables; whatever the order in memory
  of the strings.
\<close>

theorem shareCells_found:
  assumes "addr_ok addr P" "set (table_cells rows) \<subseteq> P" "p \<in> P" "card (set (table_cells rows)) \<le> 32768"
  shows "\<exists>cs. shareCells addr rows = Some (Inr cs) \<and> (let zs = keep_shared 1 sc_cnt 0 0 cs in
    (case bsearch (cmpCell addr) \<lparr>sc_cell = p, sc_cnt = n\<rparr> zs of
       None \<Rightarrow> count_list (table_cells rows) p \<le> 1
     | Some i \<Rightarrow> i < length zs \<and> sc_cell (zs ! i) = p \<and> 2 \<le> count_list (table_cells rows) p))"
proof -
  let ?ts = "concat (map row_cells rows)" and ?t = "\<lparr>sc_cell = p, sc_cnt = n\<rparr>"
  have near: "near addr q" if "q \<in> P" for q using assms(1) that by (simp add: addr_ok_def near_def)
  have inj: "inj addr" using assms(1) by (simp add: addr_ok_def)
  have ts: "sc_cell t \<in> P \<and> sc_cnt t = 1" if "t \<in> set ?ts" for t
    using that assms(2) by (auto simp: table_cells_def row_cells_def)
  have img: "cell_key addr ` set ?ts = addr ` set (table_cells rows)"
    by (force simp: cell_key_def table_cells_def)
  have c: "card (cell_key addr ` set ?ts) \<le> 32768"
    unfolding img using card_image_le [of "set (table_cells rows)" addr] assms(4) by simp
  have g: "\<forall>t \<in> set ?ts. near addr (sc_cell t) \<and> sc_cnt t = 1" using ts near by blast
  have t: "near addr (sc_cell ?t)" using near assms(3) by simp
  have n: "count_list (map (cell_key addr) ?ts) (cell_key addr ?t) = count_list (table_cells rows) p"
  proof -
    have "map (cell_key addr) ?ts = map addr (table_cells rows)" by (simp add: table_cells_def cell_key_def)
    moreover have "inj_on addr (insert p (set (table_cells rows)))"
      by (rule inj_on_subset [OF inj]) simp
    ultimately show ?thesis using count_list_inj by (simp add: cell_key_def)
  qed
  obtain cs where cs: "shareCells addr rows = Some (Inr cs)"
      "case bsearch (cmpCell addr) ?t (keep_shared 1 sc_cnt 0 0 cs) of
         None \<Rightarrow> count_list (table_cells rows) p \<le> 1
       | Some i \<Rightarrow> i < length (keep_shared 1 sc_cnt 0 0 cs) \<and>
           cell_key addr (keep_shared 1 sc_cnt 0 0 cs ! i) = cell_key addr ?t \<and> 2 \<le> count_list (table_cells rows) p"
    using cells.shared_found [OF g c t] unfolding n shareCells_def by blast
  show ?thesis
    using cs(2) inj by (intro exI [of _ cs] conjI cs(1))
      (cases "bsearch (cmpCell addr) ?t (keep_shared 1 sc_cnt 0 0 cs)"; simp add: Let_def cell_key_def inj_eq)
qed

text \<open>Two rows with the cells \<open>Buf 3\<close>, \<open>Buf 5\<close> and \<open>Buf 3\<close>, \<open>Buf 8\<close> in columns of tables: the first is shared.\<close>

definition example_addr :: "str_ptr \<Rightarrow> int" where
  "example_addr p = (case p of Fix i \<Rightarrow> 2 * int i | Buf q \<Rightarrow> 2 * int q + 1)"

definition example_row :: "str_ptr \<Rightarrow> shareRow" where
  "example_row p = \<lparr>sr_cnt = 1, sr_m = 3, sr_varType = [Fix 0, Fix 3, Fix 4], sr_name = [Buf 0, Buf 1, Buf 2],
     sr_row = [Buf 7, Buf 3, p]\<rparr>"

theorem shareCells_found_witness:
  "\<exists>cs i. shareCells example_addr [example_row (Buf 5), example_row (Buf 8)] = Some (Inr cs) \<and>
    bsearch (cmpCell example_addr) \<lparr>sc_cell = Buf 3, sc_cnt = 0\<rparr> (keep_shared 1 sc_cnt 0 0 cs) = Some i \<and>
    sc_cell (keep_shared 1 sc_cnt 0 0 cs ! i) = Buf 3"
proof -
  let ?rows = "[example_row (Buf 5), example_row (Buf 8)]"
  have "inj example_addr"
  proof (rule injI)
    fix p q assume "example_addr p = example_addr q"
    then show "p = q" by (cases p; cases q; simp add: example_addr_def; presburger)
  qed
  then have ok: "addr_ok example_addr {Buf 3, Buf 5, Buf 8}" by (simp add: addr_ok_def example_addr_def)
  have u: "[Suc 0..<3] = [1, 2]" by (simp add: upt_rec)
  have t: "table_cells ?rows = [Buf 3, Buf 5, Buf 3, Buf 8]"
    by (simp add: table_cells_def row_cells_def example_row_def u)
  have "card (set (table_cells ?rows)) \<le> 32768" using card_length [of "table_cells ?rows"] by (simp add: t)
  then obtain cs where z: "shareCells example_addr ?rows = Some (Inr cs)"
      "let zs = keep_shared 1 sc_cnt 0 0 cs in case bsearch (cmpCell example_addr) \<lparr>sc_cell = Buf 3, sc_cnt = 0\<rparr> zs of
         None \<Rightarrow> count_list (table_cells ?rows) (Buf 3) \<le> 1
       | Some i \<Rightarrow> i < length zs \<and> sc_cell (zs ! i) = Buf 3 \<and> 2 \<le> count_list (table_cells ?rows) (Buf 3)"
    using shareCells_found [OF ok, of ?rows "Buf 3" 0] t by auto
  then show ?thesis
    by (cases "bsearch (cmpCell example_addr) \<lparr>sc_cell = Buf 3, sc_cnt = 0\<rparr> (keep_shared 1 sc_cnt 0 0 cs)")
      (auto simp: t Let_def)
qed

text \<open>
  Two rows that differ only in the types of their columns are one row for \<open>cmpRow\<close>: what
  is written for both is the first, with the first's types.
\<close>

theorem cmpRow_ignores_types:
  "sr_m a = sr_m b \<Longrightarrow> sr_name a = sr_name b \<Longrightarrow> sr_row a = sr_row b \<Longrightarrow> cmpRow addr a b = 0"
proof -
  have "cmp_ptrs addr ps ps = 0" for ps by (induction ps) (simp_all add: ptr_cmp_def Let_def)
  then show "sr_m a = sr_m b \<Longrightarrow> sr_name a = sr_name b \<Longrightarrow> sr_row a = sr_row b \<Longrightarrow> cmpRow addr a b = 0"
    by (simp add: cmpRow_def Let_def)
qed

end
