(* ===== verification/XlsxNumber.thy ===== *)
theory XlsxNumber
  imports XlsxText Double Complex_Main
begin

text \<open>
  How a cell of type \<open>number\<close> is written (in \<open>fillRow\<close> of \<open>myxml2/myxml2.cpp\<close>): its text is read with
  \<open>atof\<close>, or with \<open>strtol\<close> if that gives zero, multiplied by 10000, cut to a \<open>long long\<close>
  and printed with as many decimals as are not zero. A finite \<open>double\<close> is the rational number it stands for, and every operation
  rounds its exact result to the next of them, ties to even. Infinities, and what is not a number, are
  \<open>None\<close>; they come from a text only, because what is too large for a \<open>double\<close> is
  treated like what is too large for a \<open>long long\<close>.
\<close>

section \<open>Rounding\<close>

definition round_even :: "rat \<Rightarrow> int" where
  "round_even x =
     (let f = \<lfloor>x\<rfloor>; r = x - of_int f
      in if r < 1 / 2 then f else if 1 / 2 < r then f + 1 else if even f then f else f + 1)"

text \<open>The exponent of a positive number.\<close>

definition rat_log2 :: "rat \<Rightarrow> int" where
  "rat_log2 x =
     (let (p, q) = quotient_of x; e = int (ilog2 (nat p)) - int (ilog2 (nat q))
      in if 2 powi e \<le> x then e else e - 1)"

definition fl :: "rat \<Rightarrow> rat" where
  "fl x = (if x = 0 then 0 else let u = 2 powi (max (rat_log2 \<bar>x\<bar> - 52) (- 1074)) in of_int (round_even (x / u)) * u)"

section \<open>Reading\<close>

definition c_space :: "byte \<Rightarrow> bool" where
  "c_space c \<longleftrightarrow> c = 32 \<or> 9 \<le> c \<and> c \<le> 13"

definition digit_of :: "byte \<Rightarrow> nat option" where
  "digit_of c =
     (if 48 \<le> c \<and> c \<le> 57 then Some (unat c - 48)
      else if 65 \<le> c \<and> c \<le> 70 then Some (unat c - 55)
      else if 97 \<le> c \<and> c \<le> 102 then Some (unat c - 87)
      else None)"

definition is_digit :: "nat \<Rightarrow> byte \<Rightarrow> bool" where
  "is_digit base c \<longleftrightarrow> (case digit_of c of None \<Rightarrow> False | Some d \<Rightarrow> d < base)"

definition num_of :: "nat \<Rightarrow> bytes \<Rightarrow> nat" where
  "num_of base cs = foldl (\<lambda>n c. base * n + the (digit_of c)) 0 cs"

definition c_sign :: "bytes \<Rightarrow> bool \<times> bytes" where
  "c_sign s =
     (if s \<noteq> [] \<and> hd s = 45 then (True, tl s) else if s \<noteq> [] \<and> hd s = 43 then (False, tl s) else (False, s))"

definition starts_hex :: "bytes \<Rightarrow> bool" where
  "starts_hex s \<longleftrightarrow> 2 < length s \<and> s ! 0 = 48 \<and> (s ! 1 = 120 \<or> s ! 1 = 88)"

definition strtol :: "bytes \<Rightarrow> int" where
  "strtol s =
     (let (neg, r) = c_sign (dropWhile c_space s);
          (base, r1) = (if starts_hex r \<and> is_digit 16 (r ! 2) then (16, drop 2 r)
                        else if r \<noteq> [] \<and> hd r = 48 then (8, r) else (10, r));
          n = int (num_of base (takeWhile (is_digit base) r1))
      in if neg then max (- 9223372036854775808) (- n) else min 9223372036854775807 n)"

text \<open>An exponent after one of the letters, if a digit follows.\<close>

definition c_exp :: "bytes \<Rightarrow> bytes \<Rightarrow> int" where
  "c_exp letters s =
     (if s \<noteq> [] \<and> hd s \<in> set letters then
        let (neg, r) = c_sign (tl s); n = int (num_of 10 (takeWhile (is_digit 10) r))
        in if neg then - n else n
      else 0)"

definition c_mantissa :: "nat \<Rightarrow> bytes \<Rightarrow> bytes \<times> bytes \<times> bytes" where
  "c_mantissa base s =
     (let r = dropWhile (is_digit base) s; dot = r \<noteq> [] \<and> hd r = 46
      in (takeWhile (is_digit base) s, if dot then takeWhile (is_digit base) (tl r) else [],
          if dot then dropWhile (is_digit base) (tl r) else r))"

definition c_float :: "nat \<Rightarrow> bytes \<Rightarrow> rat \<Rightarrow> bytes \<Rightarrow> rat" where
  "c_float base letters ebase s =
     (let (ip, fp, r) = c_mantissa base s
      in if ip @ fp = [] then 0
      else of_nat (num_of base (ip @ fp)) / of_nat base ^ length fp * ebase powi c_exp letters r)"

text \<open>The letters of \<open>inf\<close> and \<open>nan\<close>, in either case.\<close>

definition starts_word :: "bytes \<Rightarrow> bytes \<Rightarrow> bool" where
  "starts_word w s \<longleftrightarrow> map (\<lambda>c. c OR 32) (take (length w) s) = w"

text \<open>The exact value of the number a text starts with.\<close>

definition c_number :: "bytes \<Rightarrow> rat option" where
  "c_number s =
     (let (neg, r) = c_sign (dropWhile c_space s)
      in if starts_word [105, 110, 102] r \<or> starts_word [110, 97, 110] r then None
      else let v = (if starts_hex r \<and> (is_digit 16 (r ! 2) \<or> 3 < length r \<and> r ! 2 = 46 \<and> is_digit 16 (r ! 3))
                    then c_float 16 [112, 80] 2 (drop 2 r)
                    else c_float 10 [101, 69] 10 r)
      in Some (if neg then - v else v))"

definition atof :: "bytes \<Rightarrow> rat option" where
  "atof s = map_option fl (c_number s)"

section \<open>Printing\<close>

fun decimal :: "nat \<Rightarrow> bytes" where
  "decimal n = (if n < 10 then [of_nat (48 + n)] else decimal (n div 10) @ [of_nat (48 + n mod 10)])"

declare decimal.simps [simp del]

fun digits_fixed :: "nat \<Rightarrow> nat \<Rightarrow> bytes" where
  "digits_fixed 0 n = []"
| "digits_fixed (Suc k) n = digits_fixed k (n div 10) @ [of_nat (48 + n mod 10)]"

text \<open>\<open>n\<close> units of the \<open>k\<close>-th decimal, and \<open>sprintf\<close> with \<open>%.kf\<close>.\<close>

definition fixed :: "bool \<Rightarrow> nat \<Rightarrow> nat \<Rightarrow> bytes" where
  "fixed neg k n =
     (if neg then [45] else []) @ decimal (n div 10 ^ k) @ (if k = 0 then [] else 46 # digits_fixed k (n mod 10 ^ k))"

definition print_fixed :: "nat \<Rightarrow> rat \<Rightarrow> bytes" where
  "print_fixed k q = fixed (q < 0) k (nat (round_even (\<bar>q\<bar> * 10 ^ k)))"

section \<open>The number cells of fillRow\<close>

text \<open>What does not fit into a \<open>long long\<close> becomes the smallest, as on the host.\<close>

definition number_ll :: "bytes \<Rightarrow> int" where
  "number_ll s =
     (case atof s of
        None \<Rightarrow> - 9223372036854775808
      | Some a \<Rightarrow>
          let d = (if a \<noteq> 0 then a else fl (of_int (strtol s)));
              eps = fl (1 / 100000000);
              x = fl (fl (if 0 < d then d + eps else d - eps) * 10000);
              ll = (if 0 \<le> x then \<lfloor>x\<rfloor> else \<lceil>x\<rceil>)
          in if - 9223372036854775808 \<le> ll \<and> ll < 9223372036854775808 then ll else - 9223372036854775808)"

definition number_text :: "bytes \<Rightarrow> bytes" where
  "number_text s =
     (let ll = number_ll s; q = fl (fl (of_int ll) / 10000)
      in if ll mod 10000 = 0 then print_fixed 0 q
      else if ll mod 1000 = 0 then print_fixed 1 q
      else if ll mod 100 = 0 then print_fixed 2 q
      else if ll mod 10 = 0 then print_fixed 3 q
      else print_fixed 4 q)"

section \<open>Rounding errors\<close>

lemma round_even_near:
  assumes "\<bar>x - of_int n\<bar> < 1 / 2"
  shows "round_even x = n"
proof -
  have "\<lfloor>x\<rfloor> = n \<or> \<lfloor>x\<rfloor> = n - 1" using assms by linarith
  then show ?thesis using assms by (auto simp: round_even_def Let_def abs_if split: if_splits)
qed

lemma round_even_err: "\<bar>of_int (round_even x) - x\<bar> \<le> 1 / 2"
  unfolding round_even_def Let_def by (simp add: abs_if; linarith)

lemma round_even_minus: "round_even (- x) = - round_even x"
proof (cases "x \<in> \<int>")
  case True
  then obtain n where "x = of_int n" by (auto elim: Ints_cases)
  then have "x = of_int n" "- x = of_int (- n)" by simp_all
  then show ?thesis using round_even_near [of x n] round_even_near [of "- x" "- n"] by simp
next
  case False
  then have f: "\<lfloor>- x\<rfloor> = - \<lfloor>x\<rfloor> - 1" by (simp add: floor_minus ceiling_altdef) (metis Ints_of_int)
  show ?thesis unfolding round_even_def f Let_def by auto
qed

lemma fl_minus: "fl (- x) = - fl x"
  by (simp add: fl_def Let_def round_even_minus)

lemma rat_log2_bounds:
  assumes "0 < x"
  shows "2 powi rat_log2 x \<le> x" "x < 2 powi (rat_log2 x + 1)"
proof -
  obtain p q where pq: "quotient_of x = (p, q)" by fastforce
  have q: "0 < q" "x = of_int p / of_int q" using pq by (simp_all add: quotient_of_denom_pos quotient_of_div)
  then have p: "0 < p" using assms by (simp add: zero_less_divide_iff)
  define i j where "i = ilog2 (nat p)" and "j = ilog2 (nat q)"
  have "2 ^ i \<le> nat p" "nat p < 2 ^ Suc i" "2 ^ j \<le> nat q" "nat q < 2 ^ Suc j"
    using ilog2_bounds [of "nat p"] ilog2_bounds [of "nat q"] p q(1) by (simp_all add: i_def j_def)
  then have b: "2 ^ i \<le> p" "p < 2 ^ Suc i" "2 ^ j \<le> q" "q < 2 ^ Suc j"
    using p q(1) by (simp_all add: le_nat_iff nat_less_iff)
  then have "of_int (2 ^ i) \<le> (of_int p :: rat)" "of_int p < (of_int (2 ^ Suc i) :: rat)"
    "of_int (2 ^ j) \<le> (of_int q :: rat)" "of_int q < (of_int (2 ^ Suc j) :: rat)"
    by (simp_all only: of_int_le_iff of_int_less_iff)
  then have r: "2 ^ i \<le> (of_int p :: rat)" "of_int p < (2 ^ Suc i :: rat)" "2 ^ j \<le> (of_int q :: rat)" "of_int q < (2 ^ Suc j :: rat)"
    by (simp_all only: of_int_power of_int_numeral)
  have "x < 2 ^ Suc i / 2 ^ j" unfolding q(2) using r q(1) p by (intro frac_less) simp_all
  also have "(2 ^ Suc i / 2 ^ j :: rat) = 2 powi (int i - int j + 1)"
    by (simp add: power_int_diff power_int_add)
  finally have u: "x < 2 powi (int i - int j + 1)" .
  have "(2 powi (int i - int j - 1) :: rat) = 2 ^ i / 2 ^ Suc j"
    by (simp add: power_int_diff power_int_add)
  also have "\<dots> \<le> x" unfolding q(2) using r q(1) p by (intro frac_le) simp_all
  finally have l: "2 powi (int i - int j - 1) \<le> x" .
  have e: "rat_log2 x = (if 2 powi (int i - int j) \<le> x then int i - int j else int i - int j - 1)"
    by (simp add: rat_log2_def pq i_def j_def Let_def)
  show "2 powi rat_log2 x \<le> x" "x < 2 powi (rat_log2 x + 1)" using u l by (simp_all add: e)
qed

lemma fl_err:
  assumes "1 / 1073741824 \<le> \<bar>x\<bar>"
  shows "\<bar>fl x - x\<bar> \<le> \<bar>x\<bar> / 9007199254740992"
proof -
  define e where "e = rat_log2 \<bar>x\<bar>"
  define u :: rat where "u = 2 powi (e - 52)"
  have x: "0 < \<bar>x\<bar>" "x \<noteq> 0" using assms by auto
  have b: "2 powi e \<le> \<bar>x\<bar>" "\<bar>x\<bar> < 2 powi (e + 1)"
    using rat_log2_bounds [OF x(1)] by (simp_all add: e_def)
  have "- 31 < e"
  proof (rule ccontr)
    assume "\<not> - 31 < e"
    then have "(2 powi (e + 1) :: rat) \<le> 2 powi (- 30)" by (intro power_int_increasing) auto
    then show False using b(2) assms by (simp add: power_int_minus)
  qed
  then have f: "fl x = of_int (round_even (x / u)) * u" using x(2) by (simp add: fl_def u_def e_def Let_def max_def)
  have u: "0 < u" by (simp add: u_def)
  have "u * 4503599627370496 = 2 powi e" by (simp add: u_def power_int_diff)
  then have "u / 2 \<le> \<bar>x\<bar> / 9007199254740992" using b(1) by simp
  moreover have "fl x - x = (of_int (round_even (x / u)) - x / u) * u"
    using u by (simp add: f left_diff_distrib)
  then have "\<bar>fl x - x\<bar> = \<bar>of_int (round_even (x / u)) - x / u\<bar> * u" using u by (simp add: abs_mult)
  then have "\<bar>fl x - x\<bar> \<le> u / 2" using mult_right_mono [OF round_even_err [of "x / u"], of u] u by simp
  ultimately show ?thesis by linarith
qed

lemma fl_bounds:
  assumes "1 / 1073741824 \<le> x"
  shows "x - x / 9007199254740992 \<le> fl x" "fl x \<le> x + x / 9007199254740992"
proof -
  have "0 < x" by (rule less_le_trans [OF _ assms]) simp
  then have "\<bar>fl x - x\<bar> \<le> x / 9007199254740992" using fl_err [of x] assms by simp
  then show "x - x / 9007199254740992 \<le> fl x" "fl x \<le> x + x / 9007199254740992" by linarith+
qed

section \<open>Decimals with four places\<close>

text \<open>The product, for \<open>n\<close> units of the fourth place, is cut to \<open>n\<close> again.\<close>

lemma scaled_bounds:
  fixes v N :: rat
  assumes "v = N / 10000" "1 \<le> N" "N < 100000000000"
  shows "0 < fl v" "N \<le> fl (fl (fl v + fl (1 / 100000000)) * 10000)"
    "fl (fl (fl v + fl (1 / 100000000)) * 10000) < N + 1"
proof -
  note n = assms(2,3)
  define d e where "d = fl v" and "e = fl (1 / 100000000)"
  have d: "v - v / 9007199254740992 \<le> d" "d \<le> v + v / 9007199254740992"
    unfolding d_def by (rule fl_bounds; use assms(1) n in simp)+
  have e: "1 / 100000000 - 1 / 100000000 / 9007199254740992 \<le> e" "e \<le> 1 / 100000000 + 1 / 100000000 / 9007199254740992"
    unfolding e_def by (rule fl_bounds; simp)+
  define s where "s = fl (d + e)"
  have "1 / 1073741824 \<le> d + e" using d(1) e(1) assms(1) n by (simp add: field_simps)
  then have s: "(d + e) - (d + e) / 9007199254740992 \<le> s" "s \<le> (d + e) + (d + e) / 9007199254740992"
    unfolding s_def by (rule fl_bounds)+
  define t where "t = fl (s * 10000)"
  have "1 / 1073741824 \<le> s * 10000" using s(1) d(1) e(1) assms(1) n by (simp add: field_simps)
  then have t: "s * 10000 - s * 10000 / 9007199254740992 \<le> t" "t \<le> s * 10000 + s * 10000 / 9007199254740992"
    unfolding t_def by (rule fl_bounds)+
  have "0 < d" using d(1) assms(1) n by (simp add: field_simps)
  then show "0 < fl v" by (simp only: d_def)
  have "N \<le> t" using t(1) s(1) d(1) e(1) assms(1) n by (simp add: field_simps)
  then show "N \<le> fl (fl (fl v + fl (1 / 100000000)) * 10000)" by (simp only: t_def s_def d_def e_def)
  have "t < N + 1" using t(2) s(2) d(2) e(2) assms(1) n by (simp add: field_simps)
  then show "fl (fl (fl v + fl (1 / 100000000)) * 10000) < N + 1" by (simp only: t_def s_def d_def e_def)
qed

text \<open>What is printed of \<open>n\<close> units, if \<open>k\<close> places are enough.\<close>

lemma quotient_near:
  fixes q :: rat
  assumes "q = fl (fl (of_nat n) / 10000)" "n = m * 10 ^ (4 - k)" "k \<le> 4" "0 < n" "n < 100000000000"
  shows "0 < q" "round_even (q * 10 ^ k) = int m"
proof -
  define N :: rat where "N = of_nat n"
  have n: "1 \<le> N" "N < 100000000000"
    using assms(4,5) of_nat_less_iff [where 'a = rat, of n 100000000000] by (simp_all add: N_def)
  define a where "a = fl (N)"
  have a: "N - N / 9007199254740992 \<le> a" "a \<le> N + N / 9007199254740992"
    unfolding a_def by (rule fl_bounds; use n in simp)+
  have "1 / 1073741824 \<le> a / 10000" using a(1) n by (simp add: field_simps)
  then have q: "a / 10000 - a / 10000 / 9007199254740992 \<le> q" "q \<le> a / 10000 + a / 10000 / 9007199254740992"
    unfolding assms(1) N_def [symmetric] a_def [symmetric] by (rule fl_bounds)+
  show "0 < q" using q(1) a(1) n by (simp add: field_simps)
  have "q - N / 10000 < 1 / 20000" "N / 10000 - q < 1 / 20000" using q a n by (simp_all add: field_simps)
  then have "\<bar>q - N / 10000\<bar> < 1 / 20000" by linarith
  then have "\<bar>q - of_nat n / 10000\<bar> < 1 / 20000" by (simp only: N_def)
  moreover have "(0 :: rat) < 10 ^ k" "(10 ^ k :: rat) \<le> 10000"
    using power_increasing [OF assms(3), of "10 :: rat"] by simp_all
  moreover have "of_nat n / 10000 * 10 ^ k = (of_int (int m) :: rat)"
  proof -
    have "(10 ^ (4 - k) * 10 ^ k :: rat) = 10000" using assms(3) by (simp flip: power_add)
    then have "of_nat n * 10 ^ k = (of_nat m * 10000 :: rat)" by (simp add: assms(2) mult.assoc)
    then show ?thesis by (simp add: field_simps)
  qed
  ultimately have "\<bar>q * 10 ^ k - of_int (int m)\<bar> < 1 / 2"
  proof -
    assume near: "\<bar>q - of_nat n / 10000\<bar> < 1 / 20000" and p: "(0 :: rat) < 10 ^ k" "(10 ^ k :: rat) \<le> 10000"
      and m: "of_nat n / 10000 * 10 ^ k = (of_int (int m) :: rat)"
    have "\<bar>q * 10 ^ k - of_int (int m)\<bar> = \<bar>q - of_nat n / 10000\<bar> * 10 ^ k"
      unfolding m [symmetric] left_diff_distrib [symmetric] using p by (simp add: abs_mult)
    also have "\<dots> < 1 / 20000 * 10 ^ k" using near p by (intro mult_strict_right_mono)
    also have "\<dots> \<le> 1 / 2" using p by simp
    finally show ?thesis .
  qed
  then show "round_even (q * 10 ^ k) = int m" by (rule round_even_near)
qed

section \<open>Decimal texts\<close>

definition dec_digits :: "bytes \<Rightarrow> bool" where
  "dec_digits cs \<longleftrightarrow> (\<forall>c \<in> set cs. 48 \<le> c \<and> c \<le> 57)"

definition dec_text :: "bool \<Rightarrow> bytes \<Rightarrow> bytes \<Rightarrow> bytes" where
  "dec_text neg ds fs = (if neg then [45] else []) @ ds @ (if fs = [] then [] else 46 # fs)"

lemma num_of_Nil [simp]: "num_of b [] = 0"
  and num_of_snoc [simp]: "num_of b (cs @ [c]) = b * num_of b cs + the (digit_of c)"
  by (simp_all add: num_of_def)

lemma num_of_append: "num_of b (xs @ ys) = num_of b xs * b ^ length ys + num_of b ys"
proof (induction ys rule: rev_induct)
  case (snoc y ys)
  have "num_of b (xs @ ys @ [y]) = b * num_of b (xs @ ys) + the (digit_of y)"
    using num_of_snoc [of b "xs @ ys" y] by (simp del: num_of_snoc)
  then show ?case using snoc by (simp add: algebra_simps)
qed simp

lemma dec_digits_simps [simp]:
  "dec_digits []" "dec_digits (c # cs) \<longleftrightarrow> (48 \<le> c \<and> c \<le> 57) \<and> dec_digits cs"
  "dec_digits (xs @ ys) \<longleftrightarrow> dec_digits xs \<and> dec_digits ys"
  by (auto simp: dec_digits_def)

lemma digit_byte:
  assumes "d < 10"
  shows "digit_of (of_nat (48 + d)) = Some d" "48 \<le> (of_nat (48 + d) :: byte)" "(of_nat (48 + d) :: byte) \<le> 57"
proof -
  have u: "unat (of_nat (48 + d) :: byte) = 48 + d" by (rule unat_of_byte) (use assms in simp)
  show "48 \<le> (of_nat (48 + d) :: byte)" "(of_nat (48 + d) :: byte) \<le> 57"
    using assms unfolding word_le_nat_alt u by simp_all
  then show "digit_of (of_nat (48 + d)) = Some d" by (simp only: digit_of_def u simp_thms if_True) simp
qed

lemma decimal_value: "num_of 10 (decimal n) = n" "dec_digits (decimal n)" "decimal n \<noteq> []"
proof -
  show "num_of 10 (decimal n) = n"
  proof (induction n rule: decimal.induct)
    case (1 n)
    then show ?case using digit_byte(1) [of n] digit_byte(1) [of "n mod 10"] num_of_snoc [of 10 "[]"]
      by (subst decimal.simps) (simp del: of_nat_add)
  qed
  show "dec_digits (decimal n)"
  proof (induction n rule: decimal.induct)
    case (1 n)
    then show ?case using digit_byte(2,3) [of n] digit_byte(2,3) [of "n mod 10"]
      by (subst decimal.simps) (simp del: of_nat_add)
  qed
  show "decimal n \<noteq> []" by (subst decimal.simps) simp
qed

lemma digits_fixed_value:
  "num_of 10 (digits_fixed k n) = n mod 10 ^ k" "dec_digits (digits_fixed k n)" "length (digits_fixed k n) = k"
proof -
  show "num_of 10 (digits_fixed k n) = n mod 10 ^ k"
  proof (induction k arbitrary: n)
    case (Suc k)
    have "n mod 10 ^ Suc k = 10 * (n div 10 mod 10 ^ k) + n mod 10" by (simp add: mod_mult2_eq)
    then show ?case using Suc digit_byte(1) [of "n mod 10"] by (simp del: of_nat_add)
  qed simp
  show "dec_digits (digits_fixed k n)"
  proof (induction k arbitrary: n)
    case (Suc k)
    then show ?case using digit_byte(2,3) [of "n mod 10"] by (simp del: of_nat_add)
  qed simp
  show "length (digits_fixed k n) = k" by (induction k arbitrary: n) auto
qed

lemma fixed_text: "fixed neg k n = dec_text neg (decimal (n div 10 ^ k)) (digits_fixed k (n mod 10 ^ k))"
  using digits_fixed_value(3) [of k "n mod 10 ^ k"] by (auto simp: fixed_def dec_text_def)

text \<open>What the readers see of such a text.\<close>

lemma dec_digit_facts:
  assumes "48 \<le> c" "c \<le> (57 :: byte)"
  shows "\<not> c_space c" "c \<noteq> 45" "c \<noteq> 43" "c OR 32 = c" "c \<noteq> 120" "c \<noteq> 88" "c \<noteq> 46" "is_digit 10 c"
proof -
  have "48 \<le> unat c \<and> unat c \<le> 57" using assms by (simp add: word_le_nat_alt)
  then have "unat c = 48 \<or> unat c = 49 \<or> unat c = 50 \<or> unat c = 51 \<or> unat c = 52 \<or> unat c = 53 \<or>
      unat c = 54 \<or> unat c = 55 \<or> unat c = 56 \<or> unat c = 57"
    by presburger
  then have "c \<in> {48, 49, 50, 51, 52, 53, 54, 55, 56, 57}" by (simp add: word_unat_eq_iff)
  then show "\<not> c_space c" "c \<noteq> 45" "c \<noteq> 43" "c OR 32 = c" "c \<noteq> 120" "c \<noteq> 88" "c \<noteq> 46" "is_digit 10 c"
    by (auto simp: c_space_def is_digit_def digit_of_def)
qed

lemma dec_text_rest:
  assumes "ds \<noteq> []" "dec_digits ds" "dec_digits fs"
  obtains r where "dec_text neg ds fs = (if neg then [45] else []) @ r" "r = ds @ (if fs = [] then [] else 46 # fs)"
    "c_sign (dropWhile c_space (dec_text neg ds fs)) = (neg, r)" "\<not> starts_hex r"
    "\<not> starts_word [105, 110, 102] r" "\<not> starts_word [110, 97, 110] r"
proof -
  obtain c cs where c: "ds = c # cs" "48 \<le> c" "c \<le> 57" "dec_digits cs"
    using assms(1,2) by (cases ds) auto
  note f = dec_digit_facts [OF c(2,3)]
  let ?r = "ds @ (if fs = [] then [] else 46 # fs)"
  have "c_sign (dropWhile c_space (dec_text neg ds fs)) = (neg, ?r)"
    using f c(1) by (auto simp: c_sign_def dec_text_def c_space_def)
  moreover have "?r ! 1 \<noteq> 120 \<and> ?r ! 1 \<noteq> 88" if "2 < length ?r"
    using that c dec_digit_facts(5,6) by (cases cs) auto
  then have "\<not> starts_hex ?r" by (auto simp: starts_hex_def)
  moreover have "\<not> starts_word [105, 110, 102] ?r" "\<not> starts_word [110, 97, 110] ?r"
    using f c(1,2,3) by (auto simp: starts_word_def)
  ultimately show ?thesis using that by (simp add: dec_text_def)
qed

lemma mantissa_text:
  assumes "dec_digits ds" "dec_digits fs"
  shows "c_mantissa 10 (ds @ (if fs = [] then [] else 46 # fs)) = (ds, fs, [])"
proof -
  have d: "\<forall>c \<in> set xs. is_digit 10 c" if "dec_digits xs" for xs
    using that dec_digit_facts(8) by (auto simp: dec_digits_def)
  have dot: "\<not> is_digit 10 46" by (simp add: is_digit_def digit_of_def)
  show ?thesis
    using d [OF assms(1)] d [OF assms(2)] dot
    by (auto simp: c_mantissa_def Let_def takeWhile_append2 dropWhile_append2 takeWhile_eq_all_conv dropWhile_eq_Nil_conv)
qed

lemma c_number_text:
  assumes "ds \<noteq> []" "dec_digits ds" "dec_digits fs"
  shows "c_number (dec_text neg ds fs) =
    Some ((if neg then - 1 else 1) * (of_nat (num_of 10 (ds @ fs)) / 10 ^ length fs))"
proof -
  obtain r where r: "r = ds @ (if fs = [] then [] else 46 # fs)"
    "c_sign (dropWhile c_space (dec_text neg ds fs)) = (neg, r)" "\<not> starts_hex r"
    "\<not> starts_word [105, 110, 102] r" "\<not> starts_word [110, 97, 110] r"
    using dec_text_rest [OF assms] by metis
  have "c_float 10 [101, 69] 10 r = of_nat (num_of 10 (ds @ fs)) / 10 ^ length fs"
    using mantissa_text [OF assms(2,3)] assms(1) by (simp add: c_float_def r(1) c_exp_def)
  then show ?thesis using r by (simp add: c_number_def)
qed

lemma c_number_fixed: "c_number (fixed neg k n) = Some ((if neg then - 1 else 1) * (of_nat n / 10 ^ k))"
proof -
  have "num_of 10 (decimal (n div 10 ^ k) @ digits_fixed k (n mod 10 ^ k)) = n"
    by (simp only: num_of_append decimal_value digits_fixed_value mod_mod_trivial div_mult_mod_eq)
  then show ?thesis
    using c_number_text [of "decimal (n div 10 ^ k)" "digits_fixed k (n mod 10 ^ k)" neg]
    by (simp add: fixed_text decimal_value digits_fixed_value)
qed

text \<open>Zero: then \<open>strtol\<close> reads zero too.\<close>

lemma num_of_zeros: "\<forall>c \<in> set cs. c = 48 \<Longrightarrow> num_of b cs = 0"
  by (induction cs rule: rev_induct) (auto simp: digit_of_def)

lemma num_of_zero: "num_of 10 cs = 0 \<Longrightarrow> dec_digits cs \<Longrightarrow> \<forall>c \<in> set cs. c = 48"
proof (induction cs rule: rev_induct)
  case (snoc c cs)
  then have c: "the (digit_of c) = 0" "48 \<le> c" "c \<le> 57" by simp_all
  then have "unat c - 48 = 0" "48 \<le> unat c" by (simp_all add: digit_of_def word_le_nat_alt)
  then have "unat c = 48" by simp
  then have "c = 48" by (simp add: word_unat_eq_iff)
  then show ?case using snoc by simp
qed simp

lemma strtol_zero:
  assumes "ds \<noteq> []" "dec_digits ds" "dec_digits fs" "num_of 10 ds = 0"
  shows "strtol (dec_text neg ds fs) = 0"
proof -
  obtain r where r: "r = ds @ (if fs = [] then [] else 46 # fs)"
    "c_sign (dropWhile c_space (dec_text neg ds fs)) = (neg, r)" "\<not> starts_hex r"
    using dec_text_rest [OF assms(1-3)] by metis
  have n: "num_of b (takeWhile (is_digit b) r) = 0" for b
  proof (rule num_of_zeros, rule ballI)
    fix c assume c: "c \<in> set (takeWhile (is_digit b) r)"
    have "\<not> is_digit b 46" by (simp add: is_digit_def digit_of_def)
    then have sub: "set (takeWhile (is_digit b) (ds @ xs)) \<subseteq> set ds" if "xs = [] \<or> hd xs = 46" for xs
      using that by (induction ds; cases xs) auto
    have "set (takeWhile (is_digit b) r) \<subseteq> set ds" unfolding r(1) by (rule sub) simp
    then have "c \<in> set ds" using c by blast
    then show "c = 48" using num_of_zero [OF assms(4,2)] by simp
  qed
  show ?thesis unfolding strtol_def r(2) by (simp add: r(3) n)
qed

section \<open>A number is written as it is\<close>

lemma number_ll_text:
  assumes "ds \<noteq> []" "dec_digits ds" "dec_digits fs" "length fs \<le> 4"
    "n = num_of 10 (ds @ fs) * 10 ^ (4 - length fs)" "n < 100000000000"
  shows "number_ll (dec_text neg ds fs) = (if neg then - int n else int n)"
proof -
  define v :: rat where "v = of_nat (num_of 10 (ds @ fs)) / 10 ^ length fs"
  have "(10 ^ (4 - length fs) * 10 ^ length fs :: rat) = 10000" using assms(4) by (simp flip: power_add)
  then have v: "v = of_nat n / 10000" by (simp add: v_def assms(5) field_simps)
  have a: "atof (dec_text neg ds fs) = Some (if neg then - fl v else fl v)"
    using c_number_text [OF assms(1-3), of neg] fl_minus by (simp add: atof_def v_def)
  define e where "e = fl (1 / 100000000)"
  show ?thesis
  proof (cases "n = 0")
    case True
    then have "num_of 10 ds = 0" using assms(5) num_of_append [of 10 ds fs] by simp
    then have z: "strtol (dec_text b ds fs) = 0" for b by (rule strtol_zero [OF assms(1-3)])
    have v0: "fl v = 0" using v True by (simp add: fl_def)
    define y where "y = fl (fl e * 10000)"
    have e: "1 / 200000000 \<le> e" "e \<le> 2 / 100000000"
      using fl_bounds [of "1 / 100000000"] by (simp_all add: e_def)
    have f: "1 / 400000000 \<le> fl e" "fl e \<le> 4 / 100000000" using fl_bounds [of e] e by simp_all
    have y: "0 < y" "y < 1" using fl_bounds [of "fl e * 10000"] f by (simp_all add: y_def)
    have "fl (fl (- e) * 10000) = - y" by (simp add: fl_minus y_def)
    moreover have "\<lceil>- y\<rceil> = 0" using y by linarith
    ultimately show ?thesis
      using a v0 y True z by (simp add: number_ll_def Let_def fl_def [of 0] flip: e_def)
  next
    case False
    have n: "1 \<le> (of_nat n :: rat)" "of_nat n < (100000000000 :: rat)"
      using False assms(6) of_nat_less_iff [where 'a = rat, of n 100000000000] by simp_all
    note b = scaled_bounds [OF v n]
    define x where "x = fl (fl (fl v + e) * 10000)"
    have x: "of_nat n \<le> x" "x < of_nat n + 1" using b(2,3) by (simp_all add: x_def e_def)
    then have fl: "\<lfloor>x\<rfloor> = int n" by (simp add: floor_eq_iff)
    have "0 \<le> x" using x(1) by (rule order_trans [OF of_nat_0_le_iff])
    moreover have "fl (fl (- fl v - e) * 10000) = - x"
    proof -
      have "- fl v - e = - (fl v + e)" by simp
      then show ?thesis by (simp only: fl_minus mult_minus_left x_def)
    qed
    moreover have "\<lceil>- x\<rceil> = - int n" using fl by (simp add: ceiling_minus)
    moreover have "0 < x" using x(1) n(1) by linarith
    ultimately show ?thesis
      using a b(1) fl assms(6) by (simp add: number_ll_def Let_def flip: e_def x_def)
  qed
qed

lemma print_units:
  assumes "n = m * 10 ^ (4 - k)" "k \<le> 4" "0 < n" "n < 100000000000"
  shows "print_fixed k (fl (fl (of_int (if neg then - int n else int n)) / 10000)) = fixed neg k m"
proof -
  define q where "q = fl (fl (of_nat n) / 10000)"
  have q: "0 < q" "round_even (q * 10 ^ k) = int m" using quotient_near [OF q_def assms] by simp_all
  have "fl (fl (of_int (if neg then - int n else int n)) / 10000) = (if neg then - q else q)"
    by (simp add: fl_minus q_def)
  then show ?thesis using q by (simp add: print_fixed_def)
qed

text \<open>As many places as are needed.\<close>

definition shortest :: "bool \<Rightarrow> nat \<Rightarrow> bytes" where
  "shortest neg n =
     (if n mod 10000 = 0 then fixed neg 0 (n div 10000) else if n mod 1000 = 0 then fixed neg 1 (n div 1000)
      else if n mod 100 = 0 then fixed neg 2 (n div 100) else if n mod 10 = 0 then fixed neg 3 (n div 10)
      else fixed neg 4 n)"

lemma number_text_shortest:
  assumes "number_ll s = (if neg then - int n else int n)" "0 < n" "n < 100000000000"
  shows "number_text s = shortest neg n"
proof -
  have m: "number_ll s mod int j = 0 \<longleftrightarrow> n mod j = 0" for j
    unfolding assms(1) by (simp flip: dvd_eq_mod_eq_0)
  have ms: "number_ll s mod 10000 = 0 \<longleftrightarrow> n mod 10000 = 0" "number_ll s mod 1000 = 0 \<longleftrightarrow> n mod 1000 = 0"
    "number_ll s mod 100 = 0 \<longleftrightarrow> n mod 100 = 0" "number_ll s mod 10 = 0 \<longleftrightarrow> n mod 10 = 0"
    using m [of 10000] m [of 1000] m [of 100] m [of 10] by simp_all
  define q where "q = fl (fl (of_int (if neg then - int n else int n)) / 10000)"
  have p: "print_fixed k q = fixed neg k (n div 10 ^ (4 - k))" if "n mod 10 ^ (4 - k) = 0" "k \<le> 4" for k
    unfolding q_def using that assms(2,3) by (intro print_units) auto
  show ?thesis
    using p [of 0] p [of 1] p [of 2] p [of 3] p [of 4]
    unfolding number_text_def Let_def ms unfolding assms(1) q_def [symmetric] shortest_def by simp
qed

lemma shortest_number: "c_number (shortest neg n) = Some ((if neg then - 1 else 1) * (of_nat n / 10000))"
proof -
  have "of_nat n / (10000 :: rat) = of_nat (n div j) * of_nat j / 10000" if "n mod j = 0" for j
    using that by (metis dvd_div_mult_self mod_0_imp_dvd of_nat_mult)
  from this [of 10000] this [of 1000] this [of 100] this [of 10] show ?thesis
    by (simp add: shortest_def c_number_fixed)
qed

text \<open>
  C20. A number cell keeps its value: a decimal number of at most four places below ten
  million, whatever its sign and its superfluous zeros, is written as the text of the same number, in
  spite of the roundings on the way, with no place more than it needs.
\<close>

theorem number_text_exact:
  assumes "ds \<noteq> []" "dec_digits ds" "dec_digits fs" "length fs \<le> 4"
    "n = num_of 10 (ds @ fs) * 10 ^ (4 - length fs)" "n < 100000000000"
  shows "c_number (number_text (dec_text neg ds fs)) = c_number (dec_text neg ds fs) \<and>
    number_text (dec_text neg ds fs) = shortest (neg \<and> 0 < n) n"
proof -
  have ll: "number_ll (dec_text neg ds fs) = (if neg then - int n else int n)" by (rule number_ll_text [OF assms])
  have t: "number_text (dec_text neg ds fs) = shortest (neg \<and> 0 < n) n"
  proof (cases "n = 0")
    case True
    have "round_even 0 = 0" by (simp add: round_even_def Let_def)
    then show ?thesis
      using True ll by (simp add: number_text_def Let_def shortest_def print_fixed_def fl_def [of 0])
  next
    case False
    then show ?thesis using number_text_shortest [OF ll] assms(6) by simp
  qed
  have "(10 ^ (4 - length fs) * 10 ^ length fs :: rat) = 10000" using assms(4) by (simp flip: power_add)
  then have "of_nat n / (10000 :: rat) = of_nat (num_of 10 (ds @ fs)) / 10 ^ length fs"
    by (simp add: assms(5) field_simps)
  then have "c_number (dec_text neg ds fs) = Some ((if neg then - 1 else 1) * (of_nat n / 10000))"
    using c_number_text [OF assms(1-3), of neg] by simp
  then show ?thesis using t shortest_number [of "neg \<and> 0 < n" n] by auto
qed

text \<open>\<open>-007.50\<close> is written as \<open>-7.5\<close>.\<close>

theorem number_text_exact_witness:
  "number_text [45, 48, 48, 55, 46, 53, 48] = [45, 55, 46, 53]"
proof -
  have d: "digit_of 48 = Some 0" "digit_of 53 = Some 5" "digit_of 55 = Some 7" by (simp_all add: digit_of_def)
  have n: "num_of 10 ([48, 48, 55] @ [53, 48]) = 750" by (simp add: num_of_def d)
  have "number_text (dec_text True [48, 48, 55] [53, 48]) = shortest (True \<and> 0 < (75000 :: nat)) 75000"
    by (rule conjunct2 [OF number_text_exact]) (simp_all only: n, simp_all)
  then show ?thesis by (simp add: dec_text_def shortest_def fixed_def decimal.simps [of 7])
qed

text \<open>
  Numbers from \<open>10 ^ 15\<close> on do not fit into a \<open>long long\<close> after the multiplication: the cell
  is written as a negative number, without an error.
\<close>

theorem number_overflows:
  assumes "ds \<noteq> []" "dec_digits ds" "1000000000000000 \<le> num_of 10 ds"
  shows "number_ll (dec_text False ds []) = - 9223372036854775808"
proof -
  define v :: rat where "v = of_nat (num_of 10 ds)"
  have v: "1000000000000000 \<le> v"
    using assms(3) of_nat_le_iff [where 'a = rat, of 1000000000000000 "num_of 10 ds"] by (simp add: v_def)
  define d e where "d = fl v" and "e = fl (1 / 100000000)"
  have a: "atof (dec_text False ds []) = Some d"
    using c_number_text [OF assms(1,2), of "[]" False] by (simp add: atof_def d_def v_def)
  have d: "v - v / 9007199254740992 \<le> d" unfolding d_def by (rule fl_bounds) (use v in simp)
  have e: "1 / 100000000 - 1 / 100000000 / 9007199254740992 \<le> e" unfolding e_def by (rule fl_bounds) simp
  have d0: "999000000000000 \<le> d" using d v by (simp add: field_simps)
  have e0: "0 \<le> e" using e by (simp add: field_simps)
  define s where "s = fl (d + e)"
  have s: "(d + e) - (d + e) / 9007199254740992 \<le> s" unfolding s_def by (rule fl_bounds) (use d0 e0 in simp)
  have s0: "998000000000000 \<le> s" using s d0 e0 by (simp add: field_simps)
  define x where "x = fl (s * 10000)"
  have "s * 10000 - s * 10000 / 9007199254740992 \<le> x" unfolding x_def by (rule fl_bounds) (use s0 in simp)
  then have x: "9970000000000000000 \<le> x" using s0 by (simp add: field_simps)
  then have "9970000000000000000 \<le> \<lfloor>x\<rfloor>" by (simp add: le_floor_iff)
  moreover have "d \<noteq> 0" "0 < d" "0 \<le> x" using d0 x by simp_all
  ultimately show ?thesis using a by (simp add: number_ll_def Let_def flip: e_def s_def x_def)
qed

end
