(* ===== verification/XlsxWrite.thy ===== *)
theory XlsxWrite
  imports XlsxShare XlsxNumber
begin

text \<open>
  What the table converter writes (\<open>writeInt\<close>, \<open>fillTb\<close>, \<open>fillRow\<close> and \<open>fillSheet\<close> in
  \<open>myxml2/myxml2.cpp\<close>): Lua tables, into a buffer of \<open>cap\<close> bytes. \<open>out\<close> are the bytes written so far, so
  its length is \<open>outLen\<close>. The cells of a sheet are pointers to strings of the table \<open>st\<close>.
\<close>

unbundle bit_operations_syntax

section \<open>writeInt\<close>

text \<open>The digits from the last to the first, then turned round by exchanging them in place.\<close>

function write_digits :: "nat \<Rightarrow> bytes \<Rightarrow> bytes" where
  "write_digits a out =
     (let a1 = a div 10; out1 = out @ [of_nat (a - a1 * 10 + 48)]
      in if a1 \<noteq> 0 then write_digits a1 out1 else out1)"
  by pat_completeness auto
termination by (relation "measure fst") auto

declare write_digits.simps [simp del]

definition xor_swap :: "nat \<Rightarrow> nat \<Rightarrow> bytes \<Rightarrow> bytes" where
  "xor_swap i j out =
     (let o1 = out[i := out ! i XOR out ! j]; o2 = o1[j := o1 ! j XOR o1 ! i]
      in o2[i := o2 ! i XOR o2 ! j])"

primrec swap_loop :: "nat \<Rightarrow> bytes \<Rightarrow> bytes" where
  "swap_loop 0 out = out"
| "swap_loop (Suc i) out = swap_loop i (xor_swap i (length out - 1 - i) out)"

definition writeInt :: "nat \<Rightarrow> int \<Rightarrow> (xlsx_error + bytes) option" where
  "writeInt cap a =
     (if cap < 16 then Some (Inl Err_small_buffer)
      else if a < 0 then Some (Inl Err_negative)
      else let out = write_digits (nat a) [] in Some (Inr (swap_loop (length out div 2) out)))"

section \<open>Cells\<close>

definition my_write :: "nat \<Rightarrow> bytes \<Rightarrow> bytes \<Rightarrow> (xlsx_error + bytes) option" where
  "my_write cap s out = Some (if cap < length out + length s then Inl Err_output_too_long else Inr (out @ s))"

text \<open>A part that is written by another function, which gets the rest of the buffer.\<close>

definition write_with :: "nat \<Rightarrow> (nat \<Rightarrow> (xlsx_error + bytes) option) \<Rightarrow> bytes \<Rightarrow> (xlsx_error + bytes) option" where
  "write_with cap f out = ok_then (f (cap - length out)) (\<lambda>s. Some (Inr (out @ s)))"

definition fillTb :: "nat \<Rightarrow> bytes \<Rightarrow> (xlsx_error + bytes) option" where
  "fillTb cap cell =
     ok_then (my_write cap [123] []) (\<lambda>out. ok_then (my_write cap cell out) (my_write cap [125]))"

definition isStrDigit :: "bytes \<Rightarrow> bool" where
  "isStrDigit s \<longleftrightarrow> s \<noteq> [] \<and> list_all (\<lambda>c. 47 < sint c \<and> sint c < 58 \<or> c = 45) s"

definition hasChinese :: "bytes \<Rightarrow> bool" where
  "hasChinese s \<longleftrightarrow> list_ex (\<lambda>c. \<not> (0 \<le> sint c \<and> sint c < 128)) s"

definition s_shareCell :: bytes where "s_shareCell = [115, 104, 97, 114, 101, 67, 101, 108, 108, 91]"
definition s_shareRow :: bytes where "s_shareRow = [115, 104, 97, 114, 101, 82, 111, 119, 91]"

definition write_ref :: "nat \<Rightarrow> bytes \<Rightarrow> nat \<Rightarrow> bytes \<Rightarrow> (xlsx_error + bytes) option" where
  "write_ref cap name i out =
     ok_then (my_write cap name out) (\<lambda>out.
       ok_then (write_with cap (\<lambda>c. writeInt c (int i + 1)) out) (my_write cap [93]))"

definition fill_value ::
    "(str_ptr \<Rightarrow> int) \<Rightarrow> intern \<Rightarrow> shareCell list \<Rightarrow> str_ptr \<Rightarrow> str_ptr \<Rightarrow> nat \<Rightarrow> bytes \<Rightarrow> (xlsx_error + bytes) option" where
  "fill_value addr st cells ty p cap out =
     (if ty = Fix 0 then
        if cap < length out + 64 then Some (Inl Err_output_too_long)
        else do { s \<leftarrow> ptr_str st p; Some (Inr (out @ number_text s)) }
      else if ty = Fix 1 then do { s \<leftarrow> ptr_str st p; my_write cap s out }
      else if ty = Fix 2 then ok_then (my_write cap [91, 91] out) (\<lambda>out. do {
        s \<leftarrow> ptr_str st p;
        ok_then (my_write cap s out) (my_write cap [93, 93])
      })
      else if ty = Fix 3 \<or> ty = Fix 4 then
        (case bsearch (cmpCell addr) \<lparr>sc_cell = p, sc_cnt = 0\<rparr> cells of
           Some i \<Rightarrow> write_ref cap s_shareCell i out
         | None \<Rightarrow> do { s \<leftarrow> ptr_str st p; write_with cap (\<lambda>c. fillTb c s) out })
      else Some (Inl Err_bad_type))"

section \<open>fillRow\<close>

text \<open>The column that column \<open>tj\<close> is taken from; none if it is not positive.\<close>

definition row_target :: "intern \<Rightarrow> int list option \<Rightarrow> str_ptr list \<Rightarrow> nat \<Rightarrow> int option" where
  "row_target st targets row tj = do {
     j \<leftarrow> (case targets of None \<Rightarrow> Some (int tj) | Some ts \<Rightarrow> load ts tj);
     if 0 < j \<and> j \<noteq> int tj then do {
       p \<leftarrow> iload row j;
       s \<leftarrow> ptr_str st p;
       Some (if s = [] then int tj else j)
     }
     else Some j
   }"

definition write_name :: "nat \<Rightarrow> bytes \<Rightarrow> bytes \<Rightarrow> (xlsx_error + bytes) option" where
  "write_name cap s out =
     (if isStrDigit s then
        ok_then (my_write cap [91] out) (\<lambda>out. ok_then (my_write cap s out) (my_write cap [93]))
      else my_write cap s out)"

fun fill_cols ::
    "(str_ptr \<Rightarrow> int) \<Rightarrow> intern \<Rightarrow> shareCell list \<Rightarrow> str_ptr list \<Rightarrow> str_ptr list \<Rightarrow> str_ptr list \<Rightarrow>
     int list option \<Rightarrow> nat list \<Rightarrow> nat \<Rightarrow> nat \<Rightarrow> bytes \<Rightarrow> (xlsx_error + bytes) option" where
  "fill_cols addr st cells varType name row targets [] cnt cap out = Some (Inr out)"
| "fill_cols addr st cells varType name row targets (tj # tjs) cnt cap out = do {
     j \<leftarrow> row_target st targets row tj;
     if 0 < j then
       ok_then (if 0 < cnt then my_write cap [44] out else Some (Inr out)) (\<lambda>out. do {
         np \<leftarrow> load name tj;
         tname \<leftarrow> ptr_str st np;
         ok_then (write_name cap tname out) (\<lambda>out.
           ok_then (my_write cap [61] out) (\<lambda>out. do {
             ty \<leftarrow> iload varType j;
             p \<leftarrow> iload row j;
             ok_then (fill_value addr st cells ty p cap out)
               (fill_cols addr st cells varType name row targets tjs (cnt + 1) cap)
           }))
       })
     else fill_cols addr st cells varType name row targets tjs cnt cap out
   }"

definition fillRow ::
    "(str_ptr \<Rightarrow> int) \<Rightarrow> intern \<Rightarrow> shareCell list \<Rightarrow> str_ptr list \<Rightarrow> str_ptr list \<Rightarrow> str_ptr list \<Rightarrow> nat \<Rightarrow>
     int list option \<Rightarrow> nat \<Rightarrow> (xlsx_error + bytes) option" where
  "fillRow addr st cells varType name row m targets cap =
     ok_then (my_write cap [123] []) (\<lambda>out.
       ok_then (fill_cols addr st cells varType name row targets [1..<m] 0 cap out) (my_write cap [125]))"

section \<open>fillSheet\<close>

definition write_id :: "nat \<Rightarrow> bytes \<Rightarrow> bytes \<Rightarrow> (xlsx_error + bytes) option" where
  "write_id cap s out =
     (if isStrDigit s then
        ok_then (my_write cap [91] out) (\<lambda>out. ok_then (my_write cap s out) (my_write cap [93]))
      else if hasChinese s then
        ok_then (my_write cap [91, 34] out) (\<lambda>out. ok_then (my_write cap s out) (my_write cap [34, 93]))
      else my_write cap s out)"

fun fill_rows ::
    "(str_ptr \<Rightarrow> int) \<Rightarrow> intern \<Rightarrow> shareRow list \<Rightarrow> shareCell list \<Rightarrow> str_ptr list list \<Rightarrow> nat \<Rightarrow>
     int list option \<Rightarrow> nat list \<Rightarrow> nat \<Rightarrow> bytes \<Rightarrow> (xlsx_error + bytes) option" where
  "fill_rows addr st rows cells vvs m targets [] cap out = Some (Inr out)"
| "fill_rows addr st rows cells vvs m targets (i # is) cap out =
     ok_then (if i < 3 then my_write cap [10] out else my_write cap [44, 10] out) (\<lambda>out. do {
       row \<leftarrow> load vvs i;
       p \<leftarrow> load row 0;
       s \<leftarrow> ptr_str st p;
       ok_then (write_id cap s out) (\<lambda>out.
         ok_then (my_write cap [61] out) (\<lambda>out. do {
           varType \<leftarrow> load vvs 0;
           name \<leftarrow> load vvs 1;
           ok_then
             (case bsearch (cmpRow addr) \<lparr>sr_cnt = 0, sr_m = m, sr_varType = [], sr_name = name, sr_row = row\<rparr> rows of
                Some k \<Rightarrow> write_ref cap s_shareRow k out
              | None \<Rightarrow> write_with cap (fillRow addr st cells varType name row m targets) out)
             (fill_rows addr st rows cells vvs m targets is cap)
         }))
     })"

definition fillSheet ::
    "(str_ptr \<Rightarrow> int) \<Rightarrow> intern \<Rightarrow> shareRow list \<Rightarrow> shareCell list \<Rightarrow> nat \<Rightarrow> nat \<Rightarrow> str_ptr list list \<Rightarrow>
     int list option \<Rightarrow> nat \<Rightarrow> (xlsx_error + bytes) option" where
  "fillSheet addr st rows cells n m vvs targets cap =
     ok_then (my_write cap [123] []) (\<lambda>out.
       ok_then (fill_rows addr st rows cells vvs m targets [2..<n] cap out) (my_write cap [125]))"

section \<open>The digits of writeInt\<close>

lemma write_digits_decimal: "write_digits a out = out @ rev (decimal a)"
proof (induction a out rule: write_digits.induct)
  case (1 a out)
  have m: "a - a div 10 * 10 = a mod 10" by (simp add: minus_div_mult_eq_mod)
  show ?case
  proof (cases "a < 10")
    case True
    then show ?thesis by (subst write_digits.simps, subst decimal.simps) (simp add: Let_def add.commute)
  next
    case False
    then have "a div 10 \<noteq> 0" by (simp add: div_eq_0_iff)
    then show ?thesis using 1 False m
      by (subst write_digits.simps, subst decimal.simps) (simp add: Let_def add.commute)
  qed
qed

lemma xor_swap_swaps:
  assumes "i < length out" "j < length out" "i \<noteq> j"
  shows "xor_swap i j out = out[i := out ! j, j := out ! i]"
proof (rule nth_equalityI)
  show "length (xor_swap i j out) = length (out[i := out ! j, j := out ! i])" by (simp add: xor_swap_def Let_def)
  fix k
  have x: "(a XOR b) XOR (b XOR (a XOR b)) = b" "b XOR (a XOR b) = a" for a b :: byte
    by (auto intro!: bit_word_eqI simp: bit_xor_iff)
  show "xor_swap i j out ! k = out[i := out ! j, j := out ! i] ! k" if "k < length (xor_swap i j out)"
    using assms x by (cases "k = i"; cases "k = j") (auto simp: xor_swap_def Let_def nth_list_update)
qed

lemma swap_loop_nth:
  "k \<le> length out div 2 \<Longrightarrow> length (swap_loop k out) = length out \<and>
    (\<forall>i < length out. swap_loop k out ! i = (if i < k \<or> length out - k \<le> i then out ! (length out - 1 - i) else out ! i))"
proof (induction k arbitrary: out)
  case (Suc k)
  define j where "j = length out - 1 - k"
  have k: "k < length out" "j < length out" "k \<noteq> j" "k < j" using Suc.prems by (auto simp: j_def)
  define o1 where "o1 = xor_swap k j out"
  have o1: "o1 = out[k := out ! j, j := out ! k]" unfolding o1_def by (rule xor_swap_swaps [OF k(1-3)])
  have l: "length o1 = length out" by (simp add: o1)
  then have "k \<le> length o1 div 2" using Suc.prems by simp
  note ih = Suc.IH [OF this]
  have "swap_loop (Suc k) out = swap_loop k o1" by (simp add: o1_def j_def)
  moreover have "swap_loop k o1 ! i = (if i < Suc k \<or> length out - Suc k \<le> i then out ! (length out - 1 - i) else out ! i)"
    if i: "i < length out" for i
  proof -
    have jn: "length out - Suc k = j" "length out - 1 - j = k" using k by (auto simp: j_def)
    have o1n: "o1 ! x = (if x = j then out ! k else if x = k then out ! j else out ! x)" if "x < length out" for x
      using that by (simp add: o1 nth_list_update)
    have "swap_loop k o1 ! i = (if i < k \<or> length out - k \<le> i then o1 ! (length out - 1 - i) else o1 ! i)"
      using ih l i by simp
    moreover have "length out - 1 - i < length out" using i by simp
    moreover have "length out - k = Suc j" using k by (simp add: j_def)
    moreover have "length out - 1 - i = k \<longleftrightarrow> i = j" "length out - 1 - i = j \<longleftrightarrow> i = k"
      using i k by (auto simp: j_def)
    ultimately show ?thesis using o1n [OF i] o1n [of "length out - 1 - i"] jn k by auto
  qed
  ultimately show ?case using ih l by simp
qed simp

lemma swap_loop_rev: "swap_loop (length out div 2) out = rev out"
proof (rule nth_equalityI)
  note s = swap_loop_nth [OF order_refl, of out]
  show "length (swap_loop (length out div 2) out) = length (rev out)" using s by simp
  fix i assume "i < length (swap_loop (length out div 2) out)"
  then have i: "i < length out" using s by simp
  show "swap_loop (length out div 2) out ! i = rev out ! i"
  proof (cases "i < length out div 2 \<or> length out - length out div 2 \<le> i")
    case True
    then show ?thesis using s i by (simp add: rev_nth)
  next
    case False
    then have "length out - 1 - i = i" using i by linarith
    then show ?thesis using s i False by (simp add: rev_nth)
  qed
qed

lemma writeInt_decimal: "16 \<le> cap \<Longrightarrow> writeInt cap (int a) = Some (Inr (decimal a))"
  by (simp add: writeInt_def write_digits_decimal Let_def swap_loop_rev)

lemma length_decimal: "n < 10 ^ k \<Longrightarrow> 0 < k \<Longrightarrow> length (decimal n) \<le> k"
proof (induction n arbitrary: k rule: decimal.induct)
  case (1 n)
  show ?case
  proof (cases "n < 10")
    case True
    then show ?thesis using 1(3) by (subst decimal.simps) simp
  next
    case False
    then obtain l where l: "k = Suc l" "0 < l" using 1(2,3) by (cases k; cases "k - 1") auto
    then have "n div 10 < 10 ^ l" using 1(2) by (simp add: div_less_iff_less_mult mult.commute)
    then show ?thesis using 1(1) False l by (subst decimal.simps) simp
  qed
qed

section \<open>Writers and their texts\<close>

text \<open>
  A writer puts a text after what there is, or ends with an error; it does so only if there are not 64 bytes more
  than the text needs. It never writes beyond the buffer.
\<close>

definition appends :: "nat \<Rightarrow> (bytes \<Rightarrow> (xlsx_error + bytes) option) \<Rightarrow> bytes \<Rightarrow> bool" where
  "appends cap w t \<longleftrightarrow> (\<forall>out. length out \<le> cap \<longrightarrow>
     w out = Some (Inr (out @ t)) \<and> length out + length t \<le> cap \<or>
     (\<exists>e. w out = Some (Inl e) \<and> cap < length out + length t + 64))"

definition produces :: "(nat \<Rightarrow> (xlsx_error + bytes) option) \<Rightarrow> bytes \<Rightarrow> bool" where
  "produces f t \<longleftrightarrow> (\<forall>cap. f cap = Some (Inr t) \<and> length t \<le> cap \<or>
     (\<exists>e. f cap = Some (Inl e) \<and> cap < length t + 64))"

named_theorems writers \<open>what the writers append\<close>

lemma appends_write [writers]: "appends cap (my_write cap s) s"
  by (auto simp: appends_def my_write_def)

lemma appends_nothing [writers]: "appends cap (\<lambda>out. Some (Inr out)) []"
  by (simp add: appends_def)

lemma appends_then:
  assumes "appends cap w1 t1" "appends cap w2 t2"
  shows "appends cap (\<lambda>out. ok_then (w1 out) w2) (t1 @ t2)"
  unfolding appends_def
proof (intro allI impI)
  fix out :: bytes
  assume o: "length out \<le> cap"
  from assms(1) o consider "w1 out = Some (Inr (out @ t1))" "length out + length t1 \<le> cap"
    | e where "w1 out = Some (Inl e)" "cap < length out + length t1 + 64"
    unfolding appends_def by blast
  then show "ok_then (w1 out) w2 = Some (Inr (out @ t1 @ t2)) \<and> length out + length (t1 @ t2) \<le> cap \<or>
      (\<exists>e. ok_then (w1 out) w2 = Some (Inl e) \<and> cap < length out + length (t1 @ t2) + 64)"
  proof cases
    case 1
    then have "length (out @ t1) \<le> cap" by simp
    then have "w2 (out @ t1) = Some (Inr ((out @ t1) @ t2)) \<and> length (out @ t1) + length t2 \<le> cap \<or>
        (\<exists>e. w2 (out @ t1) = Some (Inl e) \<and> cap < length (out @ t1) + length t2 + 64)"
      using assms(2) unfolding appends_def by blast
    then show ?thesis using 1 by (auto simp: add.assoc)
  qed auto
qed

lemma appends_with:
  assumes "produces f t"
  shows "appends cap (write_with cap f) t"
  unfolding appends_def
proof (intro allI impI)
  fix out :: bytes
  assume o: "length out \<le> cap"
  from assms consider "f (cap - length out) = Some (Inr t)" "length t \<le> cap - length out"
    | e where "f (cap - length out) = Some (Inl e)" "cap - length out < length t + 64"
    unfolding produces_def by blast
  then show "write_with cap f out = Some (Inr (out @ t)) \<and> length out + length t \<le> cap \<or>
      (\<exists>e. write_with cap f out = Some (Inl e) \<and> cap < length out + length t + 64)"
    by cases (use o in \<open>auto simp: write_with_def\<close>)
qed

lemma produces_first: "(\<And>cap. appends cap (w cap) t) \<Longrightarrow> produces (\<lambda>cap. w cap []) t"
  unfolding appends_def produces_def by (metis append_Nil list.size(3) add_0 zero_le)

lemma produces_writeInt: "n < 10 ^ 16 \<Longrightarrow> produces (\<lambda>c. writeInt c (int n)) (decimal n)"
  using length_decimal [of n 16] writeInt_decimal by (auto simp: produces_def writeInt_def)

section \<open>The texts\<close>

lemma number_ll_range: "\<bar>number_ll s\<bar> \<le> 9223372036854775808"
proof -
  have c: "\<bar>if - M \<le> x \<and> x < M then x else - M\<bar> \<le> M" if "0 \<le> M" for M x :: int using that by auto
  show ?thesis
  proof (cases "atof s")
    case (Some a)
    show ?thesis unfolding number_ll_def Some option.case Let_def by (rule c) simp
  qed (simp add: number_ll_def)
qed

lemma fl_half: "1 \<le> \<bar>x\<bar> \<Longrightarrow> 1 / 2 \<le> \<bar>fl x\<bar>"
  using fl_err [of x] by (simp add: abs_if field_simps split: if_splits)

lemma fl_twice: "x = 0 \<or> 1 / 1073741824 \<le> \<bar>x\<bar> \<Longrightarrow> \<bar>fl x\<bar> \<le> 2 * \<bar>x\<bar>"
  using fl_err [of x] by (auto simp: fl_def [of 0] abs_if split: if_splits)

lemma length_fixed_places:
  assumes "0 \<le> q" "q \<le> 10000000000000000" "k \<le> 4"
  shows "length (fixed neg k (nat (round_even (q * 10 ^ k)))) \<le> 23"
proof -
  define r where "r = round_even (q * 10 ^ k)"
  have p: "(0 :: rat) < 10 ^ k" "(1 :: rat) \<le> 10 ^ k" by simp_all
  have "of_int r \<le> q * 10 ^ k + 1 / 2" using round_even_err [of "q * 10 ^ k"] by (simp add: r_def abs_if split: if_splits)
  also have "q * 10 ^ k \<le> 10000000000000000 * 10 ^ k" using assms(2) p by (intro mult_right_mono) simp_all
  finally have "of_int r \<le> (10000000000000001 * 10 ^ k :: rat)" using p(2) by linarith
  then have "of_int r \<le> (of_int (10000000000000001 * 10 ^ k) :: rat)" by simp
  then have "r \<le> 10000000000000001 * 10 ^ k" by (simp only: of_int_le_iff)
  then have "nat r \<le> 10000000000000001 * 10 ^ k" by (simp add: nat_le_iff)
  then have "nat r div 10 ^ k \<le> 10000000000000001 * 10 ^ k div 10 ^ k" by (rule div_le_mono)
  then have "nat r div 10 ^ k < 10 ^ 17" by simp
  then have "length (decimal (nat r div 10 ^ k)) \<le> 17" by (rule length_decimal) simp
  then show ?thesis using assms(3) by (cases "k = 0") (simp_all add: fixed_def digits_fixed_value r_def)
qed

lemma length_number_text: "length (number_text s) \<le> 64"
proof -
  define ll where "ll = number_ll s"
  define q where "q = fl (fl (of_int ll) / 10000)"
  have "of_int \<bar>ll\<bar> \<le> (of_int 9223372036854775808 :: rat)"
    using number_ll_range [of s] unfolding ll_def of_int_le_iff .
  then have ll: "\<bar>of_int ll\<bar> \<le> (9223372036854775808 :: rat)" by simp
  have l1: "of_int ll = (0 :: rat) \<or> 1 \<le> \<bar>of_int ll :: rat\<bar>"
    by (cases "ll = 0") (simp_all flip: of_int_abs)
  have a: "\<bar>fl (of_int ll)\<bar> \<le> 2 * \<bar>of_int ll :: rat\<bar>" using l1 by (intro fl_twice) auto
  have "fl (of_int ll) / 10000 = (0 :: rat) \<or> 1 / 1073741824 \<le> \<bar>fl (of_int ll) / 10000 :: rat\<bar>"
  proof (cases "ll = 0")
    case False
    then have "1 \<le> \<bar>of_int ll :: rat\<bar>" using l1 by simp
    then have "1 / 2 \<le> \<bar>fl (of_int ll) :: rat\<bar>" by (rule fl_half)
    then show ?thesis by simp
  qed (simp add: fl_def [of 0])
  then have "\<bar>q\<bar> \<le> 2 * \<bar>fl (of_int ll) / 10000\<bar>" unfolding q_def by (rule fl_twice)
  then have "\<bar>q\<bar> \<le> 10000000000000000" using a ll by simp
  then have "length (print_fixed k q) \<le> 23" if "k \<le> 4" for k
    using length_fixed_places [of "\<bar>q\<bar>" k] that by (simp add: print_fixed_def)
  from this [of 0] this [of 1] this [of 2] this [of 3] this [of 4] show ?thesis
    by (simp add: number_text_def Let_def flip: ll_def q_def)
qed

definition str_of :: "intern \<Rightarrow> str_ptr \<Rightarrow> bytes" where
  "str_of st p = the (ptr_str st p)"

definition name_text :: "bytes \<Rightarrow> bytes" where
  "name_text s = (if isStrDigit s then [91] @ s @ [93] else s)"

definition id_text :: "bytes \<Rightarrow> bytes" where
  "id_text s = (if isStrDigit s then [91] @ s @ [93] else if hasChinese s then [91, 34] @ s @ [34, 93] else s)"

definition ref_text :: "bytes \<Rightarrow> nat \<Rightarrow> bytes" where
  "ref_text name i = name @ decimal (i + 1) @ [93]"

definition tb_text :: "bytes \<Rightarrow> bytes" where
  "tb_text s = [123] @ s @ [125]"

definition value_text :: "(str_ptr \<Rightarrow> int) \<Rightarrow> intern \<Rightarrow> shareCell list \<Rightarrow> str_ptr \<Rightarrow> str_ptr \<Rightarrow> bytes" where
  "value_text addr st cells ty p =
     (if ty = Fix 0 then number_text (str_of st p)
      else if ty = Fix 1 then str_of st p
      else if ty = Fix 2 then [91, 91] @ str_of st p @ [93, 93]
      else (case bsearch (cmpCell addr) \<lparr>sc_cell = p, sc_cnt = 0\<rparr> cells of
          Some i \<Rightarrow> ref_text s_shareCell i
        | None \<Rightarrow> tb_text (str_of st p)))"

definition col_of :: "intern \<Rightarrow> int list option \<Rightarrow> str_ptr list \<Rightarrow> nat \<Rightarrow> int" where
  "col_of st targets row tj =
     (let j = (case targets of None \<Rightarrow> int tj | Some ts \<Rightarrow> ts ! tj)
      in if 0 < j \<and> j \<noteq> int tj \<and> str_of st (row ! nat j) = [] then int tj else j)"

definition col_text ::
    "(str_ptr \<Rightarrow> int) \<Rightarrow> intern \<Rightarrow> shareCell list \<Rightarrow> str_ptr list \<Rightarrow> str_ptr list \<Rightarrow> str_ptr list \<Rightarrow> int list option \<Rightarrow>
     nat \<Rightarrow> bytes" where
  "col_text addr st cells varType name row targets tj =
     (let j = nat (col_of st targets row tj)
      in name_text (str_of st (name ! tj)) @ [61] @ value_text addr st cells (varType ! j) (row ! j))"

fun comma_join :: "bytes list \<Rightarrow> bytes" where
  "comma_join [] = []"
| "comma_join (t # ts) = t @ concat (map ((#) 44) ts)"

text \<open>A row: the columns that are written, as fields of a table.\<close>

definition row_text ::
    "(str_ptr \<Rightarrow> int) \<Rightarrow> intern \<Rightarrow> shareCell list \<Rightarrow> str_ptr list \<Rightarrow> str_ptr list \<Rightarrow> str_ptr list \<Rightarrow> nat \<Rightarrow>
     int list option \<Rightarrow> bytes" where
  "row_text addr st cells varType name row m targets =
     tb_text (comma_join (map (col_text addr st cells varType name row targets)
       (filter (\<lambda>tj. 0 < col_of st targets row tj) [1..<m])))"

definition row_ref ::
    "(str_ptr \<Rightarrow> int) \<Rightarrow> shareRow list \<Rightarrow> nat \<Rightarrow> str_ptr list \<Rightarrow> str_ptr list \<Rightarrow> nat option" where
  "row_ref addr rows m name row =
     bsearch (cmpRow addr) \<lparr>sr_cnt = 0, sr_m = m, sr_varType = [], sr_name = name, sr_row = row\<rparr> rows"

definition sheet_row_text ::
    "(str_ptr \<Rightarrow> int) \<Rightarrow> intern \<Rightarrow> shareRow list \<Rightarrow> shareCell list \<Rightarrow> str_ptr list list \<Rightarrow> nat \<Rightarrow> int list option \<Rightarrow>
     nat \<Rightarrow> bytes" where
  "sheet_row_text addr st rows cells vvs m targets i =
     (if i < 3 then [10] else [44, 10]) @ id_text (str_of st (vvs ! i ! 0)) @ [61] @
     (case row_ref addr rows m (vvs ! 1) (vvs ! i) of
        Some k \<Rightarrow> ref_text s_shareRow k
      | None \<Rightarrow> row_text addr st cells (vvs ! 0) (vvs ! 1) (vvs ! i) m targets)"

definition sheet_text ::
    "(str_ptr \<Rightarrow> int) \<Rightarrow> intern \<Rightarrow> shareRow list \<Rightarrow> shareCell list \<Rightarrow> nat \<Rightarrow> nat \<Rightarrow> str_ptr list list \<Rightarrow>
     int list option \<Rightarrow> bytes" where
  "sheet_text addr st rows cells n m vvs targets =
     tb_text (concat (map (sheet_row_text addr st rows cells vvs m targets) [2..<n]))"

text \<open>Legal rows and sheets: every type is one of the five, and every cell is a string.\<close>

definition row_legal ::
    "intern \<Rightarrow> str_ptr list \<Rightarrow> str_ptr list \<Rightarrow> str_ptr list \<Rightarrow> nat \<Rightarrow> int list option \<Rightarrow> bool" where
  "row_legal st varType name row m targets \<longleftrightarrow>
     m \<le> length varType \<and> m \<le> length name \<and> m \<le> length row \<and>
     (\<forall>i \<in> {1..<m}. varType ! i \<in> Fix ` {0, 1, 2, 3, 4} \<and> ptr_str st (name ! i) \<noteq> None \<and> ptr_str st (row ! i) \<noteq> None) \<and>
     (case targets of None \<Rightarrow> True | Some ts \<Rightarrow> m \<le> length ts \<and> (\<forall>i \<in> {1..<m}. ts ! i < int m))"

definition sheet_legal :: "intern \<Rightarrow> nat \<Rightarrow> nat \<Rightarrow> str_ptr list list \<Rightarrow> int list option \<Rightarrow> bool" where
  "sheet_legal st n m vvs targets \<longleftrightarrow> n \<le> length vvs \<and>
     (\<forall>i \<in> {2..<n}. row_legal st (vvs ! 0) (vvs ! 1) (vvs ! i) m targets \<and> vvs ! i \<noteq> [] \<and>
       ptr_str st (vvs ! i ! 0) \<noteq> None)"

section \<open>The writers write them\<close>

lemma bsearch_from_less: "bsearch_from ret xs l u = Some i \<Longrightarrow> i < u"
proof (induction ret xs l u rule: bsearch_from.induct)
  case (1 ret xs l u)
  then show ?case
    by (subst (asm) (2) bsearch_from.simps) (auto simp: Let_def split: if_splits)
qed

lemma bsearch_less: "bsearch cmp t xs = Some i \<Longrightarrow> i < length xs"
  by (simp add: bsearch_def bsearch_from_less)

lemma produces_fillTb: "produces (\<lambda>c. fillTb c s) (tb_text s)"
proof -
  have "appends cap (\<lambda>out. ok_then (my_write cap [123] out) (\<lambda>out. ok_then (my_write cap s out) (my_write cap [125])))
      ([123] @ s @ [125])" for cap
    by (intro appends_then writers)
  from produces_first [OF this] show ?thesis by (simp add: fillTb_def tb_text_def)
qed

lemma appends_ref:
  assumes "i < 32768"
  shows "appends cap (write_ref cap name i) (ref_text name i)"
proof -
  have e: "(\<lambda>c. writeInt c (int i + 1)) = (\<lambda>c. writeInt c (int (i + 1)))" by (simp add: add.commute)
  have "appends cap (write_with cap (\<lambda>c. writeInt c (int i + 1))) (decimal (i + 1))"
    unfolding e by (intro appends_with produces_writeInt) (use assms in simp)
  then show ?thesis
    unfolding write_ref_def ref_text_def by (intro appends_then writers)
qed

lemma appends_name: "appends cap (write_name cap s) (name_text s)"
proof (cases "isStrDigit s")
  case True
  then show ?thesis unfolding write_name_def name_text_def if_P [OF True]
    by (intro appends_then writers)
next
  case False
  then show ?thesis by (simp add: write_name_def [abs_def] name_text_def appends_write)
qed

lemma appends_id: "appends cap (write_id cap s) (id_text s)"
proof -
  have a: "appends cap (\<lambda>out. ok_then (my_write cap a out) (\<lambda>out. ok_then (my_write cap s out) (my_write cap b))) (a @ s @ b)"
    for a b by (intro appends_then writers)
  show ?thesis
    using a [of "[91]" "[93]"] a [of "[91, 34]" "[34, 93]"]
    by (simp add: write_id_def [abs_def] id_text_def appends_write)
qed

lemma appends_value:
  assumes "ptr_str st p \<noteq> None" "ty \<in> Fix ` {0, 1, 2, 3, 4}" "length cells \<le> 32768"
  shows "appends cap (fill_value addr st cells ty p cap) (value_text addr st cells ty p)"
proof -
  obtain s where s: "ptr_str st p = Some s" "str_of st p = s" using assms(1) by (auto simp: str_of_def)
  have n: "appends cap (\<lambda>out. if cap < length out + 64 then Some (Inl Err_output_too_long)
      else Some (Inr (out @ number_text s))) (number_text s)"
    using length_number_text [of s] by (auto simp: appends_def)
  have b: "appends cap (\<lambda>out. ok_then (my_write cap [91, 91] out) (\<lambda>out. ok_then (my_write cap s out) (my_write cap [93, 93])))
      ([91, 91] @ s @ [93, 93])"
    by (intro appends_then writers)
  have t: "appends cap (write_with cap (\<lambda>c. fillTb c s)) (tb_text s)" by (intro appends_with produces_fillTb)
  have r: "appends cap (write_ref cap s_shareCell i) (ref_text s_shareCell i)"
    if "bsearch (cmpCell addr) \<lparr>sc_cell = p, sc_cnt = 0\<rparr> cells = Some i" for i
    using bsearch_less [OF that] assms(3) by (intro appends_ref) simp
  show ?thesis
    using assms(2) n b t r
    by (auto simp: fill_value_def [abs_def] value_text_def s appends_write cong: if_cong split: option.split)
qed

lemma row_legal_col:
  assumes "row_legal st varType name row m targets" "tj \<in> {1..<m}"
  obtains j where "row_target st targets row tj = Some j" "col_of st targets row tj = j" "j < int m"
    "0 < j \<Longrightarrow> iload varType j = Some (varType ! nat j) \<and> iload row j = Some (row ! nat j) \<and>
      varType ! nat j \<in> Fix ` {0, 1, 2, 3, 4} \<and> ptr_str st (row ! nat j) \<noteq> None"
    "load name tj = Some (name ! tj)" "ptr_str st (name ! tj) = Some (str_of st (name ! tj))"
proof -
  have l: "m \<le> length varType" "m \<le> length name" "m \<le> length row"
    and c: "\<forall>i \<in> {1..<m}. varType ! i \<in> Fix ` {0, 1, 2, 3, 4} \<and> ptr_str st (name ! i) \<noteq> None \<and> ptr_str st (row ! i) \<noteq> None"
    and t: "case targets of None \<Rightarrow> True | Some ts \<Rightarrow> m \<le> length ts \<and> (\<forall>i \<in> {1..<m}. ts ! i < int m)"
    using assms(1) by (simp_all add: row_legal_def)
  have tj: "1 \<le> tj" "tj < m" using assms(2) by simp_all
  have n: "load name tj = Some (name ! tj)" "ptr_str st (name ! tj) = Some (str_of st (name ! tj))"
    using tj l(2) c by (auto simp: load_def str_of_def)
  have col: "iload varType j = Some (varType ! nat j) \<and> iload row j = Some (row ! nat j) \<and>
      varType ! nat j \<in> Fix ` {0, 1, 2, 3, 4} \<and> ptr_str st (row ! nat j) \<noteq> None" if "0 < j" "j < int m" for j
  proof -
    have "nat j \<in> {1..<m}" using that by auto
    then show ?thesis using c l that by (simp add: iload_def load_def)
  qed
  define j0 where "j0 = (case targets of None \<Rightarrow> int tj | Some ts \<Rightarrow> ts ! tj)"
  have j0: "(case targets of None \<Rightarrow> Some (int tj) | Some ts \<Rightarrow> load ts tj) = Some j0" "j0 < int m"
    using t tj by (auto simp: j0_def load_def split: option.splits)
  define j where "j = (if 0 < j0 \<and> j0 \<noteq> int tj \<and> str_of st (row ! nat j0) = [] then int tj else j0)"
  have "j < int m" using j0(2) tj by (simp add: j_def)
  moreover have "col_of st targets row tj = j" by (simp add: col_of_def j_def flip: j0_def)
  moreover have "row_target st targets row tj = Some j"
    using col [of j0] j0 by (auto simp: row_target_def j_def str_of_def)
  ultimately show ?thesis using that n col by blast
qed

lemma appends_cols:
  assumes "\<forall>tj \<in> set tjs. tj \<in> {1..<m}" "row_legal st varType name row m targets" "length cells \<le> 32768"
  shows "appends cap (fill_cols addr st cells varType name row targets tjs cnt cap)
    (let ts = map (col_text addr st cells varType name row targets) (filter (\<lambda>tj. 0 < col_of st targets row tj) tjs)
     in if 0 < cnt then concat (map ((#) 44) ts) else comma_join ts)"
  using assms(1)
proof (induction tjs arbitrary: cnt)
  case Nil
  then show ?case by (simp add: appends_nothing)
next
  case (Cons tj tjs)
  have "tj \<in> {1..<m}" using Cons.prems by simp
  from row_legal_col [OF assms(2) this] obtain j where j: "row_target st targets row tj = Some j" "col_of st targets row tj = j"
      "0 < j \<Longrightarrow> iload varType j = Some (varType ! nat j) \<and> iload row j = Some (row ! nat j) \<and>
        varType ! nat j \<in> Fix ` {0, 1, 2, 3, 4} \<and> ptr_str st (row ! nat j) \<noteq> None"
      "load name tj = Some (name ! tj)" "ptr_str st (name ! tj) = Some (str_of st (name ! tj))"
    by metis
  have ih: "appends cap (fill_cols addr st cells varType name row targets tjs cnt cap)
    (let ts = map (col_text addr st cells varType name row targets) (filter (\<lambda>tj. 0 < col_of st targets row tj) tjs)
     in if 0 < cnt then concat (map ((#) 44) ts) else comma_join ts)" for cnt
    using Cons by simp
  show ?case
  proof (cases "0 < j")
    case True
    note v = appends_value [OF _ _ assms(3), of st "row ! nat j" "varType ! nat j" cap addr]
    have w: "appends cap (\<lambda>out. ok_then (if 0 < cnt then my_write cap [44] out else Some (Inr out)) (\<lambda>out.
        ok_then (write_name cap (str_of st (name ! tj)) out) (\<lambda>out.
          ok_then (my_write cap [61] out) (\<lambda>out.
            ok_then (fill_value addr st cells (varType ! nat j) (row ! nat j) cap out)
              (fill_cols addr st cells varType name row targets tjs (cnt + 1) cap)))))
      ((if 0 < cnt then [44] else []) @ name_text (str_of st (name ! tj)) @ [61] @
        value_text addr st cells (varType ! nat j) (row ! nat j) @
        concat (map ((#) 44) (map (col_text addr st cells varType name row targets)
          (filter (\<lambda>tj. 0 < col_of st targets row tj) tjs))))"
    proof (intro appends_then)
      show "appends cap (\<lambda>out. if 0 < cnt then my_write cap [44] out else Some (Inr out)) (if 0 < cnt then [44] else [])"
        by (cases "0 < cnt") (simp_all add: appends_write appends_nothing)
      show "appends cap (fill_value addr st cells (varType ! nat j) (row ! nat j) cap)
          (value_text addr st cells (varType ! nat j) (row ! nat j))"
        using v j(3) [OF True] by blast
    qed (use ih [of "cnt + 1"] in \<open>simp_all add: appends_name appends_write\<close>)
    have f: "fill_cols addr st cells varType name row targets (tj # tjs) cnt cap =
      (\<lambda>out. ok_then (if 0 < cnt then my_write cap [44] out else Some (Inr out)) (\<lambda>out.
        ok_then (write_name cap (str_of st (name ! tj)) out) (\<lambda>out.
          ok_then (my_write cap [61] out) (\<lambda>out.
            ok_then (fill_value addr st cells (varType ! nat j) (row ! nat j) cap out)
              (fill_cols addr st cells varType name row targets tjs (cnt + 1) cap)))))"
      by (rule ext) (use True j(3) [OF True] in \<open>simp add: j(1,4,5)\<close>)
    have ct: "col_text addr st cells varType name row targets tj =
      name_text (str_of st (name ! tj)) @ [61] @ value_text addr st cells (varType ! nat j) (row ! nat j)"
      by (simp add: col_text_def Let_def j(2))
    have t: "(let ts = map (col_text addr st cells varType name row targets) (filter (\<lambda>tj. 0 < col_of st targets row tj) (tj # tjs))
        in if 0 < cnt then concat (map ((#) 44) ts) else comma_join ts) =
      (if 0 < cnt then [44] else []) @ name_text (str_of st (name ! tj)) @ [61] @
        value_text addr st cells (varType ! nat j) (row ! nat j) @
        concat (map ((#) 44) (map (col_text addr st cells varType name row targets)
          (filter (\<lambda>tj. 0 < col_of st targets row tj) tjs)))"
      using True by (simp add: ct j(2) Let_def)
    show ?thesis unfolding f t by (rule w)
  next
    case False
    then show ?thesis using ih j(1,2) by simp
  qed
qed

lemma produces_row:
  assumes "row_legal st varType name row m targets" "length cells \<le> 32768"
  shows "produces (fillRow addr st cells varType name row m targets) (row_text addr st cells varType name row m targets)"
proof -
  define t where "t = comma_join (map (col_text addr st cells varType name row targets)
    (filter (\<lambda>tj. 0 < col_of st targets row tj) [1..<m]))"
  have c: "appends cap (fill_cols addr st cells varType name row targets [1..<m] 0 cap) t" for cap
    using appends_cols [OF _ assms, of "[1..<m]" cap addr 0] by (simp add: t_def)
  have "appends cap (\<lambda>out. ok_then (my_write cap [123] out) (\<lambda>out.
      ok_then (fill_cols addr st cells varType name row targets [1..<m] 0 cap out) (my_write cap [125])))
      ([123] @ t @ [125])" for cap
    by (intro appends_then writers c)
  from produces_first [OF this] show ?thesis by (simp add: fillRow_def [abs_def] row_text_def tb_text_def t_def)
qed

lemma appends_rows:
  assumes "sheet_legal st n m vvs targets" "length rows \<le> 32768" "length cells \<le> 32768"
  shows "\<forall>i \<in> set is. i \<in> {2..<n} \<Longrightarrow>
    appends cap (fill_rows addr st rows cells vvs m targets is cap)
      (concat (map (sheet_row_text addr st rows cells vvs m targets) is))"
proof (induction "is")
  case Nil
  have "fill_rows addr st rows cells vvs m targets [] cap = (\<lambda>out. Some (Inr out))" by (rule ext) simp
  then show ?case by (simp add: appends_nothing)
next
  case (Cons i "is")
  then have i: "2 \<le> i" "i < n" by simp_all
  then have "i < length vvs" "row_legal st (vvs ! 0) (vvs ! 1) (vvs ! i) m targets" "vvs ! i \<noteq> []"
    "ptr_str st (vvs ! i ! 0) \<noteq> None"
    using assms(1) by (auto simp: sheet_legal_def)
  then have l: "load vvs i = Some (vvs ! i)" "load (vvs ! i) 0 = Some (vvs ! i ! 0)"
      "ptr_str st (vvs ! i ! 0) = Some (str_of st (vvs ! i ! 0))"
      "load vvs 0 = Some (vvs ! 0)" "load vvs (Suc 0) = Some (vvs ! 1)"
      "row_legal st (vvs ! 0) (vvs ! 1) (vvs ! i) m targets"
    using i(1) by (auto simp: load_def str_of_def)
  define v where "v = (case row_ref addr rows m (vvs ! 1) (vvs ! i) of
      Some k \<Rightarrow> write_ref cap s_shareRow k
    | None \<Rightarrow> write_with cap (fillRow addr st cells (vvs ! 0) (vvs ! 1) (vvs ! i) m targets))"
  define t where "t = (case row_ref addr rows m (vvs ! 1) (vvs ! i) of
      Some k \<Rightarrow> ref_text s_shareRow k
    | None \<Rightarrow> row_text addr st cells (vvs ! 0) (vvs ! 1) (vvs ! i) m targets)"
  have r: "k < 32768" if "row_ref addr rows m (vvs ! 1) (vvs ! i) = Some k" for k
    using bsearch_less [OF that [unfolded row_ref_def]] assms(2) by simp
  have v: "appends cap v t"
    using appends_with [OF produces_row [OF l(6) assms(3)]] appends_ref [OF r]
    by (auto simp: v_def t_def split: option.split)
  have f: "fill_rows addr st rows cells vvs m targets (i # is) cap =
    (\<lambda>out. ok_then (if i < 3 then my_write cap [10] out else my_write cap [44, 10] out) (\<lambda>out.
      ok_then (write_id cap (str_of st (vvs ! i ! 0)) out) (\<lambda>out.
        ok_then (my_write cap [61] out) (\<lambda>out.
          ok_then (v out) (fill_rows addr st rows cells vvs m targets is cap)))))"
    by (rule ext) (simp add: l v_def row_ref_def split: option.split)
  have e: "concat (map (sheet_row_text addr st rows cells vvs m targets) (i # is)) =
    (if i < 3 then [10] else [44, 10]) @ id_text (str_of st (vvs ! i ! 0)) @ [61] @ t @
    concat (map (sheet_row_text addr st rows cells vvs m targets) is)"
    by (simp add: sheet_row_text_def t_def)
  show ?case
    unfolding f e
  proof (intro appends_then)
    show "appends cap (\<lambda>out. if i < 3 then my_write cap [10] out else my_write cap [44, 10] out)
        (if i < 3 then [10] else [44, 10])"
      by (cases "i < 3") (simp_all add: appends_write)
  qed (use Cons v in \<open>simp_all add: appends_id appends_write\<close>)
qed

lemma produces_sheet:
  assumes "sheet_legal st n m vvs targets" "length rows \<le> 32768" "length cells \<le> 32768"
  shows "produces (fillSheet addr st rows cells n m vvs targets) (sheet_text addr st rows cells n m vvs targets)"
proof -
  define t where "t = concat (map (sheet_row_text addr st rows cells vvs m targets) [2..<n])"
  have c: "appends cap (fill_rows addr st rows cells vvs m targets [2..<n] cap) t" for cap
    unfolding t_def by (rule appends_rows [OF assms]) simp
  have "appends cap (\<lambda>out. ok_then (my_write cap [123] out) (\<lambda>out.
      ok_then (fill_rows addr st rows cells vvs m targets [2..<n] cap out) (my_write cap [125])))
      ([123] @ t @ [125])" for cap
    by (intro appends_then writers c)
  from produces_first [OF this] show ?thesis by (simp add: fillSheet_def [abs_def] sheet_text_def tb_text_def t_def)
qed

text \<open>
  A sheet is written as the Lua table of its rows: with a buffer of any size, \<open>fillSheet\<close> either
  writes the whole text, inside the buffer, or ends with an error, and it does so only if the buffer is less than 64
  bytes longer than the text. Rows and cells that are in the tables of shared ones
  are written as references.
\<close>

theorem fillSheet_writes:
  assumes "sheet_legal st n m vvs targets" "length rows \<le> 32768" "length cells \<le> 32768"
  shows "fillSheet addr st rows cells n m vvs targets cap = Some (Inr (sheet_text addr st rows cells n m vvs targets)) \<and>
      length (sheet_text addr st rows cells n m vvs targets) \<le> cap \<or>
    (\<exists>e. fillSheet addr st rows cells n m vvs targets cap = Some (Inl e) \<and>
      cap < length (sheet_text addr st rows cells n m vvs targets) + 64)"
  using produces_sheet [OF assms, of addr] by (simp add: produces_def)

text \<open>One row with one column: \<open>{\<close>, a new line, \<open>[1]={a=1}}\<close>.\<close>

definition example_strings :: intern where
  "example_strings = \<lparr>in_set = [0, 2], in_buf = [49, 0, 97, 0]\<rparr>"

theorem fillSheet_writes_witness:
  "fillSheet example_addr example_strings [] [] 3 2 [[Fix 0, Fix 1], [Buf 2, Buf 2], [Buf 0, Buf 0]] None 100 =
    Some (Inr [123, 10, 91, 49, 93, 61, 123, 97, 61, 49, 125, 125])"
proof -
  have p: "ptr_str example_strings (Buf 0) = Some [49]" "ptr_str example_strings (Buf 2) = Some [97]"
    by (simp_all add: ptr_str_def example_strings_def string_at_def strlen_at_def block_at_def)
  have u: "{Suc 0..<2} = {1}" "{2..<3} = {2 :: nat}" "[Suc 0..<2] = [1]" "[2..<3] = [2 :: nat]" by (auto simp: upt_rec)
  have d: "isStrDigit [49]" "\<not> isStrDigit [97]" by (simp_all add: isStrDigit_def)
  have l: "sheet_legal example_strings 3 2 [[Fix 0, Fix 1], [Buf 2, Buf 2], [Buf 0, Buf 0]] None"
    by (simp add: sheet_legal_def row_legal_def u p)
  have b: "row_ref example_addr [] 2 x y = None" for x y
    by (simp add: row_ref_def bsearch_def bsearch_from.simps)
  have t: "sheet_text example_addr example_strings [] [] 3 2 [[Fix 0, Fix 1], [Buf 2, Buf 2], [Buf 0, Buf 0]] None =
      [123, 10, 91, 49, 93, 61, 123, 97, 61, 49, 125, 125]"
    by (simp add: sheet_text_def sheet_row_text_def row_text_def tb_text_def u b id_text_def d str_of_def p
        col_of_def col_text_def name_text_def value_text_def Let_def)
  show ?thesis using fillSheet_writes [OF l, of "[]" "[]" example_addr 100] unfolding t by auto
qed

end
