(* ===== verification/XlsxPattern.thy ===== *)
theory XlsxPattern
  imports XlsxText "HOL-Library.Sublist"
begin

text \<open>
  The columns of a language (\<open>solvePattern\<close> in \<open>myxml2/myxml2.cpp\<close>): a column whose name ends with
  the suffix of a language is not written itself, and if that language is asked for it replaces the column
  whose name it extends. Strings are given by their bytes.
\<close>

definition patternNames :: "bytes list" where
  "patternNames = [[], [95, 98, 116, 50], [95, 116, 119], [95, 101, 110], [95, 118, 105], [95, 107, 114], [95, 106, 112]]"

definition isFixPatternName :: "bytes option \<Rightarrow> bool" where
  "isFixPatternName name =
     (case name of None \<Rightarrow> False | Some s \<Rightarrow> list_ex (\<lambda>p. strcmp s p = 0) patternNames)"

text \<open>
  Parts of two strings, both ends included. A negative end is a huge number where it is compared with
  \<open>strlen\<close>.
\<close>

fun same_from :: "nat \<Rightarrow> bytes \<Rightarrow> bytes \<Rightarrow> nat \<Rightarrow> nat \<Rightarrow> bool" where
  "same_from 0 s t i j = True"
| "same_from (Suc n) s t i j = (if s ! i \<noteq> t ! j then False else same_from n s t (i + 1) (j + 1))"

definition myStringCmp :: "bytes \<Rightarrow> int \<Rightarrow> int \<Rightarrow> bytes \<Rightarrow> int \<Rightarrow> int \<Rightarrow> bool" where
  "myStringCmp str1 st1 ed1 str2 st2 ed2 =
     (if st1 < 0 \<or> int (length str1) \<le> size_t_of ed1 then False
      else if st2 < 0 \<or> int (length str2) \<le> size_t_of ed2 then False
      else if ed1 - st1 \<noteq> ed2 - st2 then False
      else same_from (nat (ed1 - st1 + 1)) str1 str2 (nat st1) (nat st2))"

fun fix_name_from :: "bytes \<Rightarrow> nat \<Rightarrow> nat" where
  "fix_name_from rname 0 = 0"
| "fix_name_from rname (Suc i) =
     (let p = patternNames ! Suc i; plen = int (length p); n = int (length rname)
      in if myStringCmp rname (n - plen) (n - 1) p 0 (plen - 1) then Suc i else fix_name_from rname i)"

definition isFixPatternNameR :: "bytes \<Rightarrow> nat" where
  "isFixPatternNameR rname = fix_name_from rname (length patternNames - 1)"

definition isFixPatternNameL :: "bytes \<Rightarrow> bytes \<Rightarrow> bytes \<Rightarrow> bool" where
  "isFixPatternNameL name1 name2 pname =
     myStringCmp name1 0 (int (length name1) - 1) name2 0 (int (length name2) - int (length pname) - 1)"

fun mark_columns :: "bytes list \<Rightarrow> nat list \<Rightarrow> int list \<Rightarrow> int list" where
  "mark_columns rnames [] ts = ts"
| "mark_columns rnames (i # is) ts =
     (let ptype = isFixPatternNameR (rnames ! i)
      in mark_columns rnames is (if 0 < ptype then ts[i := - int ptype] else ts))"

fun use_column :: "bytes list \<Rightarrow> bytes \<Rightarrow> nat \<Rightarrow> nat list \<Rightarrow> int list \<Rightarrow> int list" where
  "use_column rnames p i [] ts = ts"
| "use_column rnames p i (j # js) ts =
     use_column rnames p i js
       (if 0 < ts ! j \<and> isFixPatternNameL (rnames ! j) (rnames ! i) p then ts[j := int i] else ts)"

fun use_columns :: "bytes list \<Rightarrow> nat \<Rightarrow> nat \<Rightarrow> nat list \<Rightarrow> int list \<Rightarrow> int list" where
  "use_columns rnames ptype m [] ts = ts"
| "use_columns rnames ptype m (i # is) ts =
     use_columns rnames ptype m is
       (if ts ! i = - int ptype then use_column rnames (patternNames ! ptype) i [1..<m] ts else ts)"

definition solvePattern :: "bytes option \<Rightarrow> bytes list \<Rightarrow> nat \<Rightarrow> int list \<Rightarrow> int list" where
  "solvePattern targetName rnames m ts =
     (let ts1 = mark_columns rnames [1..<m] ts
      in case targetName of
           None \<Rightarrow> ts1
         | Some t \<Rightarrow>
             if strcmp t (patternNames ! 0) \<noteq> 0 then
               let ptype = isFixPatternNameR t
               in if strcmp t (patternNames ! ptype) = 0 then use_columns rnames ptype m [1..<m] ts1 else ts1
             else ts1)"

text \<open>Both are asked for the languages given to the program, if they are suffixes.\<close>

definition row_targets :: "bytes option \<Rightarrow> bytes option \<Rightarrow> bytes list \<Rightarrow> nat \<Rightarrow> int list" where
  "row_targets lang1 lang2 rnames m =
     (let ts = map int [0..<m];
          ts1 = (if isFixPatternName lang1 then solvePattern lang1 rnames m ts else ts)
      in if isFixPatternName lang2 then solvePattern lang2 rnames m ts1 else ts1)"

section \<open>Suffixes\<close>

lemma same_from_iff:
  "i + n \<le> length s \<Longrightarrow> j + n \<le> length t \<Longrightarrow> same_from n s t i j \<longleftrightarrow> block_at i n s = block_at j n t"
proof (induction n arbitrary: i j)
  case (Suc n)
  have "block_at i (Suc n) s = s ! i # block_at (i + 1) n s" "block_at j (Suc n) t = t ! j # block_at (j + 1) n t"
    using Suc.prems by (simp_all add: block_at_def Cons_nth_drop_Suc [symmetric])
  then show ?case using Suc by simp
qed (simp add: block_at_def)

text \<open>Strings whose lengths are no problem.\<close>

definition short :: "bytes \<Rightarrow> bool" where
  "short s \<longleftrightarrow> length s < 2147483648"

lemma same_suffix:
  assumes "short s" "short p" "p \<noteq> []"
  shows "myStringCmp s (int (length s) - int (length p)) (int (length s) - 1) p 0 (int (length p) - 1) \<longleftrightarrow> suffix p s"
proof (cases "length p \<le> length s")
  case True
  have n: "length s \<noteq> 0" "length p \<noteq> 0" using True assms(3) by (cases s; cases p; simp)+
  have z: "size_t_of (int (length s) - 1) = int (length s) - 1" "size_t_of (int (length p) - 1) = int (length p) - 1"
    using n assms(1,2) by (auto simp: short_def)
  have i: "nat (int (length s) - int (length p)) = length s - length p" using True by (simp add: nat_diff_distrib)
  have "block_at (length s - length p) (length p) s = p \<longleftrightarrow> suffix p s"
    using True by (auto simp: block_at_def suffix_def) (metis append_take_drop_id)
  then show ?thesis
    using True same_from_iff [of "length s - length p" "length p" s 0 p] z i by (simp add: myStringCmp_def block_at_full)
next
  case False
  then have "\<not> suffix p s" using suffix_length_le by blast
  then show ?thesis using False by (simp add: myStringCmp_def)
qed

lemma same_prefix:
  assumes "short s" "short t" "short p"
  shows "isFixPatternNameL s t p \<longleftrightarrow> s \<noteq> [] \<and> length t = length s + length p \<and> prefix s t"
proof (cases "s = []")
  case True
  then show ?thesis by (simp add: isFixPatternNameL_def myStringCmp_def size_t_of_def)
next
  case False
  have z: "size_t_of (int (length s) - 1) = int (length s) - 1"
    using False assms(1) by (cases s) (auto simp: short_def)
  show ?thesis
  proof (cases "length t = length s + length p")
    case True
    have "size_t_of (int (length s) - 1) < int (length t)" using z True by simp
    moreover have "block_at 0 (length s) t = s \<longleftrightarrow> prefix s t"
      using True by (auto simp: block_at_def prefix_def) (metis append_take_drop_id)
    ultimately show ?thesis
      using False True z same_from_iff [of 0 "length s" s 0 t]
      by (auto simp: isFixPatternNameL_def myStringCmp_def block_at_full)
  qed (use False in \<open>auto simp: isFixPatternNameL_def myStringCmp_def\<close>)
qed

lemma pattern_names:
  "length patternNames = 7" "\<forall>p \<in> set patternNames. short p" "\<forall>i \<in> {1..<7}. patternNames ! i \<noteq> []"
proof -
  show "length patternNames = 7" "\<forall>p \<in> set patternNames. short p" by (simp_all add: patternNames_def short_def)
  have "{1..<7} = {1, 2, 3, 4, 5, 6 :: nat}" by auto
  then show "\<forall>i \<in> {1..<7}. patternNames ! i \<noteq> []" by (simp add: patternNames_def)
qed

text \<open>No two suffixes end the same string.\<close>

lemma pattern_unique:
  assumes "suffix (patternNames ! i) s" "suffix (patternNames ! j) s" "i \<in> {1..<7}" "j \<in> {1..<7}"
  shows "i = j"
proof -
  have e: "{1..<7} = {1, 2, 3, 4, 5, 6 :: nat}" by auto
  have "suffix (patternNames ! i) (patternNames ! j) \<or> suffix (patternNames ! j) (patternNames ! i)"
    using suffix_same_cases [OF assms(1,2)] .
  then show ?thesis using assms(3,4) unfolding e by (auto simp: patternNames_def suffix_def)
qed

lemma fix_name_from_finds:
  assumes "short s"
  shows "n < 7 \<Longrightarrow>
    (if fix_name_from s n = 0 then \<forall>i \<in> {1..n}. \<not> suffix (patternNames ! i) s
     else fix_name_from s n \<le> n \<and> suffix (patternNames ! fix_name_from s n) s)"
proof (induction n)
  case (Suc n)
  have p: "short (patternNames ! Suc n)" "patternNames ! Suc n \<noteq> []"
    using pattern_names Suc.prems by auto
  have "fix_name_from s (Suc n) = (if suffix (patternNames ! Suc n) s then Suc n else fix_name_from s n)"
    using same_suffix [OF assms p] by (simp add: Let_def)
  then show ?case using Suc by (auto simp: atLeastAtMostSuc_conv)
qed simp

lemma lang_iff:
  assumes "short s" "p \<in> {1..<7}"
  shows "isFixPatternNameR s = p \<longleftrightarrow> suffix (patternNames ! p) s"
proof -
  have r: "isFixPatternNameR s = fix_name_from s 6" by (simp add: isFixPatternNameR_def pattern_names)
  have f: "if fix_name_from s 6 = 0 then \<forall>i \<in> {1..6}. \<not> suffix (patternNames ! i) s
     else fix_name_from s 6 \<le> 6 \<and> suffix (patternNames ! fix_name_from s 6) s"
    by (rule fix_name_from_finds [OF assms(1)]) simp
  show ?thesis
  proof (cases "fix_name_from s 6 = 0")
    case True
    then show ?thesis using f assms(2) r by auto
  next
    case False
    then have "suffix (patternNames ! fix_name_from s 6) s" "fix_name_from s 6 \<in> {1..<7}" using f by auto
    then show ?thesis using pattern_unique assms(2) r by metis
  qed
qed

lemma lang_range: "short s \<Longrightarrow> isFixPatternNameR s < 7"
  using fix_name_from_finds [of s 6] by (auto simp: isFixPatternNameR_def pattern_names split: if_splits)

section \<open>The columns\<close>

lemma mark_columns_nth:
  "\<forall>i \<in> set is. i < length ts \<Longrightarrow> length (mark_columns rnames is ts) = length ts \<and>
    (\<forall>j < length ts. mark_columns rnames is ts ! j =
      (if j \<in> set is \<and> 0 < isFixPatternNameR (rnames ! j) then - int (isFixPatternNameR (rnames ! j)) else ts ! j))"
  by (induction "is" arbitrary: ts) (auto simp: Let_def nth_list_update)

lemma use_column_nth:
  "0 < i \<Longrightarrow> \<forall>j \<in> set js. j < length ts \<Longrightarrow> length (use_column rnames p i js ts) = length ts \<and>
    (\<forall>j < length ts. use_column rnames p i js ts ! j =
      (if j \<in> set js \<and> 0 < ts ! j \<and> isFixPatternNameL (rnames ! j) (rnames ! i) p then int i else ts ! j))"
  by (induction js arbitrary: ts) (auto simp: nth_list_update)

lemma use_columns_nth:
  assumes "0 < p"
  shows "\<forall>i \<in> set is. 0 < i \<and> i < length ts \<Longrightarrow> m \<le> length ts \<Longrightarrow> length (use_columns rnames p m is ts) = length ts \<and>
    (\<forall>j < length ts. use_columns rnames p m is ts ! j =
      (if j \<in> {1..<m} \<and> 0 < ts ! j then
         (case find (\<lambda>i. ts ! i = - int p \<and> isFixPatternNameL (rnames ! j) (rnames ! i) (patternNames ! p)) (rev is) of
            Some i \<Rightarrow> int i | None \<Rightarrow> ts ! j)
       else ts ! j))"
proof (induction "is" arbitrary: ts)
  case (Cons i "is")
  define u where "u = (if ts ! i = - int p then use_column rnames (patternNames ! p) i [1..<m] ts else ts)"
  have i: "0 < i" "i < length ts" using Cons.prems(1) by simp_all
  have u: "length u = length ts" "\<And>j. j < length ts \<Longrightarrow> u ! j =
      (if ts ! i = - int p \<and> j \<in> {1..<m} \<and> 0 < ts ! j \<and> isFixPatternNameL (rnames ! j) (rnames ! i) (patternNames ! p)
       then int i else ts ! j)"
    using use_column_nth [OF i(1), of "[1..<m]" ts rnames "patternNames ! p"] Cons.prems(2) by (auto simp: u_def)
  have pos: "0 < u ! j \<longleftrightarrow> 0 < ts ! j" "u ! j = - int p \<longleftrightarrow> ts ! j = - int p" if "j < length ts" for j
    using u(2) [OF that] i(1) assms by auto
  have "find (\<lambda>i. u ! i = - int p \<and> L i) (rev is) = find (\<lambda>i. ts ! i = - int p \<and> L i) (rev is)" for L
    by (rule find_cong) (use pos Cons.prems(1) in auto)
  moreover have "use_columns rnames p m (i # is) ts = use_columns rnames p m is u" by (simp add: u_def)
  moreover have "find P (xs @ [y]) = (case find P xs of Some x \<Rightarrow> Some x | None \<Rightarrow> if P y then Some y else None)" for P xs and y :: nat
    by (induction xs) auto
  ultimately show ?case
    using Cons.IH [of u] Cons.prems u pos by (auto split: option.split)
qed simp

definition lang_name :: "bytes \<Rightarrow> bool" where
  "lang_name s \<longleftrightarrow> (\<exists>p \<in> {1..<7}. suffix (patternNames ! p) s)"

lemma lang_name_iff:
  assumes "short s"
  shows "lang_name s \<longleftrightarrow> 0 < isFixPatternNameR s"
proof
  assume "lang_name s"
  then obtain p where "p \<in> {1..<7}" "suffix (patternNames ! p) s" by (auto simp: lang_name_def)
  then show "0 < isFixPatternNameR s" using lang_iff [OF assms] by fastforce
next
  assume "0 < isFixPatternNameR s"
  then have m: "isFixPatternNameR s \<in> {1..<7}" using lang_range [OF assms] by simp
  then show "lang_name s" unfolding lang_name_def using lang_iff [OF assms m] by blast
qed

lemma replaces_iff:
  assumes "short s" "short t" "p \<in> {1..<7}"
  shows "isFixPatternNameR t = p \<and> isFixPatternNameL s t (patternNames ! p) \<longleftrightarrow> s \<noteq> [] \<and> t = s @ patternNames ! p"
proof -
  have p: "short (patternNames ! p)" using assms(3) pattern_names by auto
  have "suffix (patternNames ! p) t \<and> length t = length s + length (patternNames ! p) \<and> prefix s t \<longleftrightarrow> t = s @ patternNames ! p"
    by (auto simp: suffix_def prefix_def)
  then show ?thesis using lang_iff [OF assms(2,3)] same_prefix [OF assms(1,2) p] by blast
qed

text \<open>
  C30. The columns of a sheet for one language: columns whose names end with a suffix are not
  written themselves, a column whose name with the suffix of the language is the name of another
  is taken from that one, and every other column stays where it is.
\<close>

theorem row_targets_language:
  assumes "p \<in> {1..<7}" "m \<le> length rnames" "\<forall>s \<in> set rnames. short s" "distinct (take m rnames)" "j \<in> {1..<m}"
  defines "ts \<equiv> row_targets (Some (patternNames ! p)) None rnames m"
  shows "length ts = m \<and>
    (if lang_name (rnames ! j) then ts ! j < 0
     else (\<forall>i \<in> {1..<m}. rnames ! j \<noteq> [] \<and> rnames ! i = rnames ! j @ patternNames ! p \<longrightarrow> ts ! j = int i) \<and>
       (rnames ! j = [] \<or> (\<forall>i \<in> {1..<m}. rnames ! i \<noteq> rnames ! j @ patternNames ! p) \<longrightarrow> ts ! j = int j))"
proof -
  have sh: "short (rnames ! i)" if "i \<in> {1..<m}" for i using assms(2,3) that by simp
  have pp: "patternNames ! p \<in> set patternNames" "short (patternNames ! p)" "patternNames ! p \<noteq> []" "0 < p"
    using assms(1) pattern_names by auto
  have R: "isFixPatternNameR (patternNames ! p) = p" using lang_iff [OF pp(2) assms(1)] by simp
  define t1 where "t1 = mark_columns rnames [1..<m] (map int [0..<m])"
  have t1: "length t1 = m" "\<And>i. i \<in> {1..<m} \<Longrightarrow>
      t1 ! i = (if 0 < isFixPatternNameR (rnames ! i) then - int (isFixPatternNameR (rnames ! i)) else int i)"
    using mark_columns_nth [of "[1..<m]" "map int [0..<m]" rnames] by (auto simp: t1_def)
  have ts: "ts = use_columns rnames p m [1..<m] t1"
    using pp R by (simp add: ts_def row_targets_def isFixPatternName_def list_ex_iff solvePattern_def t1_def Let_def
        patternNames_def [THEN arg_cong [of _ _ "\<lambda>xs. xs ! 0"]])
  define P where "P i \<longleftrightarrow> t1 ! i = - int p \<and> isFixPatternNameL (rnames ! j) (rnames ! i) (patternNames ! p)" for i
  have u: "length ts = m" "ts ! j = (if 0 < t1 ! j then
      (case find P (rev [1..<m]) of Some i \<Rightarrow> int i | None \<Rightarrow> t1 ! j) else t1 ! j)"
    using use_columns_nth [OF pp(4), of "[1..<m]" t1 m rnames] t1(1) assms(5) by (auto simp: ts P_def [abs_def])
  have P: "P i \<longleftrightarrow> rnames ! j \<noteq> [] \<and> rnames ! i = rnames ! j @ patternNames ! p" if "i \<in> {1..<m}" for i
    using replaces_iff [OF sh [OF assms(5)] sh [OF that] assms(1)] t1(2) [OF that] pp(4) that by (auto simp: P_def)
  have inj: "i = i'" if "i \<in> {1..<m}" "i' \<in> {1..<m}" "rnames ! i = rnames ! i'" for i i'
    using that assms(2,4) nth_eq_iff_index_eq [of "take m rnames" i i'] by simp
  show ?thesis
  proof (cases "lang_name (rnames ! j)")
    case True
    then show ?thesis using u t1(2) [OF assms(5)] lang_name_iff [OF sh [OF assms(5)]] by simp
  next
    case False
    then have tj: "t1 ! j = int j" "0 < t1 ! j"
      using t1(2) [OF assms(5)] lang_name_iff [OF sh [OF assms(5)]] assms(5) by simp_all
    show ?thesis
    proof (cases "find P (rev [1..<m])")
      case None
      then have "\<not> P i" if "i \<in> {1..<m}" for i using that by (simp add: find_None_iff)
      then show ?thesis using False u tj None P by auto
    next
      case (Some i)
      then obtain k where k: "k < length (rev [1..<m])" "P i" "i = rev [1..<m] ! k"
        by (auto simp: find_Some_iff)
      have "rev [1..<m] ! k \<in> set (rev [1..<m])" using k(1) by (rule nth_mem)
      then have i: "i \<in> {1..<m}" "P i" using k(2,3) by simp_all
      have e: "rnames ! j \<noteq> []" "rnames ! i = rnames ! j @ patternNames ! p" using P [OF i(1)] i(2) by blast+
      have tsj: "ts ! j = int i" using u tj Some by simp
      show ?thesis unfolding if_not_P [OF False]
      proof (intro conjI ballI impI)
        fix i' assume "i' \<in> {1..<m}" "rnames ! j \<noteq> [] \<and> rnames ! i' = rnames ! j @ patternNames ! p"
        then have "i' = i" using inj [OF _ i(1)] e by metis
        then show "ts ! j = int i'" using tsj by simp
      next
        assume "rnames ! j = [] \<or> (\<forall>i \<in> {1..<m}. rnames ! i \<noteq> rnames ! j @ patternNames ! p)"
        then show "ts ! j = int j" using e i(1) by blast
      qed (rule u(1))
    qed
  qed
qed

text \<open>Columns \<open>id\<close>, \<open>a\<close>, \<open>b\<close>, \<open>a_tw\<close> for \<open>_tw\<close>: \<open>a\<close> is taken from the last.\<close>

theorem row_targets_language_witness:
  "row_targets (Some [95, 116, 119]) None [[105, 100], [97], [98], [97, 95, 116, 119]] 4 ! 1 = 3"
proof -
  have p: "patternNames ! 2 = [95, 116, 119]" by (simp add: patternNames_def)
  let ?r = "[[105, 100], [97], [98], [97, 95, 116, 119 :: byte]]"
  have e: "{1..<7} = {1, 2, 3, 4, 5, 6 :: nat}" by auto
  have "\<not> lang_name [97]"
    unfolding lang_name_def e by (auto simp: patternNames_def suffix_def append_eq_Cons_conv Cons_eq_append_conv)
  then have "\<forall>i \<in> {1..<4}. ?r ! 1 \<noteq> [] \<and> ?r ! i = ?r ! 1 @ patternNames ! 2 \<longrightarrow>
      row_targets (Some (patternNames ! 2)) None ?r 4 ! 1 = int i"
    using row_targets_language [of 2 4 ?r 1] by (simp add: short_def)
  from bspec [OF this, of 3] show ?thesis by (simp add: p)
qed

end
