(* ===== verification/XlsxQuote.thy ===== *)
theory XlsxQuote
  imports XlsxXml
begin

text \<open>
  Quotes for the strings of a cell of type \<open>tbstr\<close> (\<open>getStrAddQuote\<close> in \<open>myxml2/myxml2.cpp\<close>). The cell
  is read at the offset \<open>a\<close>; \<open>last\<close> is where the part not yet copied begins and \<open>start\<close> where the item
  begins, if one has begun. Its parentheses and whether it has a letter are counted from there.
\<close>

record quoting =
  q_out :: bytes
  q_last :: nat
  q_start :: "nat option"
  q_letter :: bool
  q_kuo :: int

definition q_copy :: "nat \<Rightarrow> bytes \<Rightarrow> bytes \<Rightarrow> xlsx_error + bytes" where
  "q_copy cap s out = (if cap < length out + length s then Inl Err_cell_too_long else Inr (out @ s))"

definition q_byte :: "nat \<Rightarrow> byte \<Rightarrow> bytes \<Rightarrow> xlsx_error + bytes" where
  "q_byte cap c out = (if cap \<le> length out then Inl Err_cell_too_long else Inr (out @ [c]))"

text \<open>The item from \<open>start\<close> to \<open>a\<close> in quotes, after what stands before it, from \<open>last\<close>.\<close>

definition quote_item :: "nat \<Rightarrow> bytes \<Rightarrow> nat \<Rightarrow> nat \<Rightarrow> nat \<Rightarrow> bytes \<Rightarrow> xlsx_error + bytes" where
  "quote_item cap buf la start a out =
     (case q_copy cap (block_at la (start - la) buf) out of Inl e \<Rightarrow> Inl e | Inr out \<Rightarrow>
     (case q_byte cap 34 out of Inl e \<Rightarrow> Inl e | Inr out \<Rightarrow>
     (case q_copy cap (block_at start (a - start) buf) out of Inl e \<Rightarrow> Inl e | Inr out \<Rightarrow>
       q_byte cap 34 out)))"

definition item_ends :: "nat \<Rightarrow> bytes \<Rightarrow> nat \<Rightarrow> quoting \<Rightarrow> xlsx_error + quoting" where
  "item_ends cap buf a q =
     (case q_start q of
        None \<Rightarrow> Inr q
      | Some start \<Rightarrow>
          if q_letter q then
            if q_kuo q = 0 then
              (case quote_item cap buf (q_last q) start a (q_out q) of
                 Inl e \<Rightarrow> Inl e
               | Inr out \<Rightarrow> Inr (q\<lparr>q_out := out, q_last := a, q_start := None\<rparr>))
            else Inr q
          else Inr (q\<lparr>q_start := None\<rparr>))"

definition item_byte :: "byte \<Rightarrow> nat \<Rightarrow> quoting \<Rightarrow> quoting" where
  "item_byte c a q =
     (let q1 = (if q_start q = None then q\<lparr>q_start := Some a, q_kuo := 0, q_letter := False\<rparr> else q)
      in if \<not> (c = 45 \<or> c = 46 \<or> 47 < sint c \<and> sint c < 58) then q1\<lparr>q_letter := True\<rparr> else q1)"

partial_function (option) quote_loop :: "nat \<Rightarrow> bytes \<Rightarrow> nat \<Rightarrow> quoting \<Rightarrow> (xlsx_error + nat \<times> quoting) option" where
  "quote_loop cap buf a q = do {
     c \<leftarrow> load buf a;
     if c = 40 then quote_loop cap buf (a + 1) (q\<lparr>q_kuo := q_kuo q + 1\<rparr>)
     else if c = 41 then quote_loop cap buf (a + 1) (q\<lparr>q_kuo := q_kuo q - 1\<rparr>)
     else if c = 0 \<or> c = 44 \<or> c = 125 then
       ok_then (Some (item_ends cap buf a q)) (\<lambda>q1.
         if c = 0 then Some (Inr (a, q1)) else quote_loop cap buf (a + 1) q1)
     else if c = 10 \<or> c = 13 \<or> c = 32 \<or> c = 123 then quote_loop cap buf (a + 1) q
     else quote_loop cap buf (a + 1) (item_byte c a q)
   }"

text \<open>The result is the string left in \<open>out\<close>; it is empty if nothing was quoted.\<close>

definition getStrAddQuote :: "nat \<Rightarrow> bytes \<Rightarrow> (xlsx_error + bytes) option" where
  "getStrAddQuote cap buf =
     ok_then (quote_loop cap buf 0 \<lparr>q_out = [], q_last = 0, q_start = None, q_letter = False, q_kuo = 0\<rparr>) (\<lambda>(a, q).
       ok_then (Some (if 0 < q_last q then q_copy cap (block_at (q_last q) (a - q_last q) buf) (q_out q) else Inr (q_out q)))
         (\<lambda>out. if cap \<le> length out then Some (Inl Err_cell_too_long) else Some (Inr out)))"

section \<open>Items\<close>

text \<open>
  The reference: a cell is a list of items, each with what stands before it (blanks, opening braces and
  parentheses) and after it (a comma or a closing brace). An item begins with any other byte; commas and
  braces may stand in it within parentheses and after a letter.
\<close>

definition opener :: "byte \<Rightarrow> bool" where
  "opener c \<longleftrightarrow> c = 10 \<or> c = 13 \<or> c = 32 \<or> c = 123"

definition ender :: "byte \<Rightarrow> bool" where
  "ender c \<longleftrightarrow> c = 44 \<or> c = 125"

definition letter :: "byte \<Rightarrow> bool" where
  "letter c \<longleftrightarrow> \<not> (opener c \<or> ender c \<or> c = 40 \<or> c = 41 \<or> c = 45 \<or> c = 46 \<or> 47 < sint c \<and> sint c < 58)"

definition plain :: "byte \<Rightarrow> bool" where
  "plain c \<longleftrightarrow> \<not> (c = 0 \<or> opener c \<or> ender c \<or> c = 40 \<or> c = 41)"

fun quote_ok :: "int \<Rightarrow> bool \<Rightarrow> bytes \<Rightarrow> bool" where
  "quote_ok k l [] \<longleftrightarrow> k = 0"
| "quote_ok k l (c # cs) \<longleftrightarrow> c \<noteq> 0 \<and> (ender c \<longrightarrow> l \<and> k \<noteq> 0) \<and>
     quote_ok (if c = 40 then k + 1 else if c = 41 then k - 1 else k) (l \<or> letter c) cs"

definition legal_token :: "bytes \<Rightarrow> bool" where
  "legal_token t \<longleftrightarrow> t = [] \<or> plain (hd t) \<and> quote_ok 0 False t"

definition legal_before :: "bytes \<Rightarrow> bool" where
  "legal_before b \<longleftrightarrow> (\<forall>c \<in> set b. opener c \<or> c = 40 \<or> c = 41)"

definition has_letter :: "bytes \<Rightarrow> bool" where
  "has_letter t \<longleftrightarrow> (\<exists>c \<in> set t. letter c)"

definition quoted :: "bytes \<Rightarrow> bytes" where
  "quoted t = (if has_letter t then 34 # t @ [34] else t)"

type_synonym item = "bytes \<times> bytes \<times> byte"

text \<open>The last item has nothing after it.\<close>

fun items_bytes :: "item list \<Rightarrow> bytes \<times> bytes \<Rightarrow> bytes" where
  "items_bytes [] (b, t) = b @ t"
| "items_bytes ((b, t, c) # is) z = b @ t @ c # items_bytes is z"

fun items_quoted :: "item list \<Rightarrow> bytes \<times> bytes \<Rightarrow> bytes" where
  "items_quoted [] (b, t) = b @ quoted t"
| "items_quoted ((b, t, c) # is) z = b @ quoted t @ c # items_quoted is z"

definition items_legal :: "item list \<Rightarrow> bytes \<times> bytes \<Rightarrow> bool" where
  "items_legal is z \<longleftrightarrow> (\<forall>(b, t, c) \<in> set is. legal_before b \<and> legal_token t \<and> ender c) \<and>
     legal_before (fst z) \<and> legal_token (snd z)"

definition some_letter :: "item list \<Rightarrow> bytes \<times> bytes \<Rightarrow> bool" where
  "some_letter is z \<longleftrightarrow> (\<exists>(b, t, c) \<in> set is. has_letter t) \<or> has_letter (snd z)"

section \<open>The loop over an item\<close>

abbreviation quoting_at :: "bytes \<Rightarrow> nat \<Rightarrow> nat option \<Rightarrow> bool \<Rightarrow> int \<Rightarrow> quoting" where
  "quoting_at out la start l k \<equiv> \<lparr>q_out = out, q_last = la, q_start = start, q_letter = l, q_kuo = k\<rparr>"

lemma loop_before:
  "legal_before b \<Longrightarrow> \<exists>k'. quote_loop cap (pre @ b @ post) (length pre) (quoting_at out la None l k) =
    quote_loop cap (pre @ b @ post) (length pre + length b) (quoting_at out la None l k')"
proof (induction b arbitrary: pre k)
  case (Cons c b)
  have c: "opener c \<or> c = 40 \<or> c = 41" using Cons.prems by (simp add: legal_before_def)
  have ih: "\<exists>k'. quote_loop cap ((pre @ [c]) @ b @ post) (length (pre @ [c])) (quoting_at out la None l j) =
      quote_loop cap ((pre @ [c]) @ b @ post) (length (pre @ [c]) + length b) (quoting_at out la None l k')" for j
    by (rule Cons.IH) (use Cons.prems in \<open>simp add: legal_before_def\<close>)
  have "quote_loop cap (pre @ (c # b) @ post) (length pre) (quoting_at out la None l k) =
      quote_loop cap (pre @ (c # b) @ post) (length pre + 1)
        (quoting_at out la None l (if c = 40 then k + 1 else if c = 41 then k - 1 else k))"
    using c by (subst quote_loop.simps) (auto simp: load_mid opener_def)
  then show ?case using ih by simp
qed auto

lemma loop_item:
  "quote_ok k l t \<Longrightarrow> quote_loop cap (pre @ t @ post) (length pre) (quoting_at out la (Some i) l k) =
    quote_loop cap (pre @ t @ post) (length pre + length t) (quoting_at out la (Some i) (l \<or> has_letter t) 0)"
proof (induction t arbitrary: pre l k)
  case (Cons c t)
  let ?k = "if c = 40 then k + 1 else if c = 41 then k - 1 else k"
  have ih: "quote_loop cap ((pre @ [c]) @ t @ post) (length (pre @ [c])) (quoting_at out la (Some i) (l \<or> letter c) ?k) =
      quote_loop cap ((pre @ [c]) @ t @ post) (length (pre @ [c]) + length t)
        (quoting_at out la (Some i) ((l \<or> letter c) \<or> has_letter t) 0)"
    by (rule Cons.IH) (use Cons.prems in simp)
  have "quote_loop cap (pre @ (c # t) @ post) (length pre) (quoting_at out la (Some i) l k) =
      quote_loop cap (pre @ (c # t) @ post) (length pre + 1) (quoting_at out la (Some i) (l \<or> letter c) ?k)"
  proof -
    have nz: "c \<noteq> 0" "ender c \<longrightarrow> l \<and> k \<noteq> 0" using Cons.prems by simp_all
    consider "c = 40" | "c = 41" | "ender c" | "opener c" | "plain c" using nz(1) by (auto simp: plain_def)
    then show ?thesis
    proof cases
      case 5
      then have "item_byte c (length pre) (quoting_at out la (Some i) l k) = quoting_at out la (Some i) (l \<or> letter c) k"
        by (auto simp: item_byte_def Let_def letter_def plain_def)
      then show ?thesis using 5 nz
        by (subst quote_loop.simps) (auto simp: load_mid plain_def opener_def ender_def)
    qed (use nz in \<open>subst quote_loop.simps; auto simp: load_mid letter_def opener_def ender_def item_ends_def\<close>)+
  qed
  then show ?case using ih by (simp add: has_letter_def disj_assoc)
qed (simp add: has_letter_def)

lemma loop_token:
  assumes "legal_token t" "t \<noteq> []"
  shows "quote_loop cap (pre @ t @ post) (length pre) (quoting_at out la None l k) =
    quote_loop cap (pre @ t @ post) (length pre + length t) (quoting_at out la (Some (length pre)) (has_letter t) 0)"
proof -
  obtain c cs where t: "t = c # cs" using assms(2) by (cases t) auto
  have c: "plain c" "quote_ok 0 (letter c) cs"
    using assms(1) t by (auto simp: legal_token_def plain_def)
  have "item_byte c (length pre) (quoting_at out la None l k) = quoting_at out la (Some (length pre)) (letter c) 0"
    using c(1) by (auto simp: item_byte_def Let_def letter_def plain_def)
  then have "quote_loop cap (pre @ t @ post) (length pre) (quoting_at out la None l k) =
      quote_loop cap ((pre @ [c]) @ cs @ post) (length (pre @ [c])) (quoting_at out la (Some (length pre)) (letter c) 0)"
    using c(1) t by (subst quote_loop.simps) (auto simp: load_mid plain_def opener_def ender_def)
  also have "\<dots> = quote_loop cap ((pre @ [c]) @ cs @ post) (length (pre @ [c]) + length cs)
      (quoting_at out la (Some (length pre)) (letter c \<or> has_letter cs) 0)"
    by (rule loop_item [OF c(2)])
  finally show ?thesis using t by (simp add: has_letter_def)
qed

lemma block_at_mid: "la \<le> length pre \<Longrightarrow> block_at la (length pre - la) (pre @ post) = drop la pre"
  by (simp add: block_at_def)

lemma quote_item_result:
  assumes "la \<le> length pre"
  shows "case quote_item cap (pre @ t @ post) la (length pre) (length pre + length t) out of
      Inl e \<Rightarrow> e = Err_cell_too_long \<and> cap < length (out @ drop la pre @ 34 # t @ [34])
    | Inr out' \<Rightarrow> out' = out @ drop la pre @ 34 # t @ [34]"
proof -
  have "block_at la (length pre - la) (pre @ t @ post) = drop la pre" "block_at (length pre) (length t) (pre @ t @ post) = t"
    using block_at_mid [OF assms] by (simp_all add: block_at_prefix)
  then show ?thesis using assms by (auto simp: quote_item_def q_copy_def q_byte_def)
qed

lemma segment:
  assumes "legal_before b" "legal_token t" "la \<le> length pre" "c = 0 \<or> ender c"
  shows "\<exists>r. quote_loop cap (pre @ b @ t @ c # post) (length pre) (quoting_at out la None l k) =
      ok_then (Some r) (\<lambda>q. if c = 0 then Some (Inr (length (pre @ b @ t), q))
        else quote_loop cap (pre @ b @ t @ c # post) (length (pre @ b @ t) + 1) q) \<and>
    (case r of
       Inl e \<Rightarrow> e = Err_cell_too_long \<and> has_letter t \<and> cap < length (out @ drop la pre @ b @ quoted t)
     | Inr q \<Rightarrow> \<exists>out' la' l' k'. q = quoting_at out' la' None l' k' \<and>
         out' @ drop la' (pre @ b @ t) = out @ drop la pre @ b @ quoted t \<and> la' \<le> length (pre @ b @ t) \<and>
         (0 < la' \<longleftrightarrow> 0 < la \<or> has_letter t) \<and> (la' = 0 \<longrightarrow> out' = out))"
proof -
  let ?buf = "pre @ b @ t @ c # post" and ?a = "length (pre @ b @ t)"
  obtain k' where "quote_loop cap ?buf (length pre) (quoting_at out la None l k) =
      quote_loop cap ?buf (length pre + length b) (quoting_at out la None l k')"
    using loop_before [OF assms(1)] by blast
  moreover define q where "q = (if t = [] then quoting_at out la None l k'
      else quoting_at out la (Some (length (pre @ b))) (has_letter t) 0)"
  moreover have "quote_loop cap ?buf (length pre + length b) (quoting_at out la None l k') = quote_loop cap ?buf ?a q"
    using loop_token [OF assms(2), of cap "pre @ b" "c # post" out la l k'] by (simp add: q_def add.assoc)
  moreover have "quote_loop cap ?buf ?a q = ok_then (Some (item_ends cap ?buf ?a q)) (\<lambda>q.
      if c = 0 then Some (Inr (?a, q)) else quote_loop cap ?buf (?a + 1) q)"
    using assms(4) load_mid [of "pre @ b @ t" c post] by (subst quote_loop.simps) (auto simp: ender_def)
  ultimately have e: "quote_loop cap ?buf (length pre) (quoting_at out la None l k) =
      ok_then (Some (item_ends cap ?buf ?a q)) (\<lambda>q. if c = 0 then Some (Inr (?a, q)) else quote_loop cap ?buf (?a + 1) q)"
    by simp
  have d: "drop la (pre @ b @ t) = drop la pre @ b @ t" using assms(3) by simp
  show ?thesis
  proof (cases "has_letter t")
    case False
    then have "item_ends cap ?buf ?a q = Inr (quoting_at out la None (q_letter q) (q_kuo q))"
      by (auto simp: q_def item_ends_def)
    then show ?thesis using e d False assms(3) by (intro exI [of _ "Inr (quoting_at out la None (q_letter q) (q_kuo q))"])
        (auto simp: quoted_def)
  next
    case True
    then have t: "t \<noteq> []" by (auto simp: has_letter_def)
    have "la \<le> length (pre @ b)" using assms(3) by simp
    note r = quote_item_result [OF this, where cap = cap and t = t and post = "c # post" and out = out]
    show ?thesis
    proof (cases "quote_item cap ?buf la (length (pre @ b)) ?a out")
      case (Inl x)
      then have "item_ends cap ?buf ?a q = Inl x" using t True by (simp add: q_def item_ends_def)
      then show ?thesis using e r Inl True assms(3) by (intro exI [of _ "Inl x"]) (simp add: quoted_def add.assoc)
    next
      case (Inr o')
      then have "item_ends cap ?buf ?a q = Inr (quoting_at o' ?a None True 0)" using t True by (simp add: q_def item_ends_def)
      then show ?thesis using e r Inr True assms(3) t
        by (intro exI [of _ "Inr (quoting_at o' ?a None True 0)"]) (auto simp: quoted_def add.assoc)
    qed
  qed
qed

lemma loop_items:
  "items_legal is z \<Longrightarrow> la \<le> length pre \<Longrightarrow>
    (case quote_loop cap (pre @ items_bytes is z @ 0 # r) (length pre) (quoting_at out la None l k) of
       None \<Rightarrow> False
     | Some (Inl e) \<Rightarrow> e = Err_cell_too_long \<and> some_letter is z \<and> cap < length (out @ drop la pre @ items_quoted is z)
     | Some (Inr (a, q)) \<Rightarrow> a = length (pre @ items_bytes is z) \<and> q_last q \<le> a \<and>
         q_out q @ drop (q_last q) (pre @ items_bytes is z) = out @ drop la pre @ items_quoted is z \<and>
         (0 < q_last q \<longleftrightarrow> 0 < la \<or> some_letter is z) \<and> (q_last q = 0 \<longrightarrow> q_out q = out))"
proof (induction "is" arbitrary: pre out la l k)
  case Nil
  obtain b t where z: "z = (b, t)" by fastforce
  have "legal_before b" "legal_token t" using Nil.prems(1) z by (simp_all add: items_legal_def)
  from segment [OF this Nil.prems(2), of 0 cap r out l k] obtain x where
    x: "quote_loop cap (pre @ b @ t @ 0 # r) (length pre) (quoting_at out la None l k) =
        ok_then (Some x) (\<lambda>q. Some (Inr (length (pre @ b @ t), q)))"
      "case x of
         Inl e \<Rightarrow> e = Err_cell_too_long \<and> has_letter t \<and> cap < length (out @ drop la pre @ b @ quoted t)
       | Inr q \<Rightarrow> \<exists>out' la' l' k'. q = quoting_at out' la' None l' k' \<and>
           out' @ drop la' (pre @ b @ t) = out @ drop la pre @ b @ quoted t \<and> la' \<le> length (pre @ b @ t) \<and>
           (0 < la' \<longleftrightarrow> 0 < la \<or> has_letter t) \<and> (la' = 0 \<longrightarrow> out' = out)"
    by auto
  then show ?case using z by (cases x) (auto simp: some_letter_def)
next
  case (Cons y "is")
  obtain b t c where y: "y = (b, t, c)" by (cases y)
  have l: "legal_before b" "legal_token t" "ender c" "items_legal is z" using Cons.prems(1) y by (auto simp: items_legal_def)
  then have c: "c = 0 \<or> ender c" "c \<noteq> 0" by (auto simp: ender_def)
  let ?post = "items_bytes is z @ 0 # r"
  from segment [OF l(1,2) Cons.prems(2) c(1), of cap ?post out l k] c(2) obtain x where
    x: "quote_loop cap (pre @ b @ t @ c # ?post) (length pre) (quoting_at out la None l k) =
        ok_then (Some x) (quote_loop cap (pre @ b @ t @ c # ?post) (length (pre @ b @ t) + 1))"
      "case x of
         Inl e \<Rightarrow> e = Err_cell_too_long \<and> has_letter t \<and> cap < length (out @ drop la pre @ b @ quoted t)
       | Inr q \<Rightarrow> \<exists>out' la' l' k'. q = quoting_at out' la' None l' k' \<and>
           out' @ drop la' (pre @ b @ t) = out @ drop la pre @ b @ quoted t \<and> la' \<le> length (pre @ b @ t) \<and>
           (0 < la' \<longleftrightarrow> 0 < la \<or> has_letter t) \<and> (la' = 0 \<longrightarrow> out' = out)"
    by auto
  have e: "pre @ items_bytes (y # is) z @ 0 # r = pre @ b @ t @ c # ?post" using y by simp
  show ?case
  proof (cases x)
    case (Inl e')
    then show ?thesis using x y unfolding e by (auto simp: some_letter_def)
  next
    case (Inr q)
    then obtain out' la' l' k' where q: "q = quoting_at out' la' None l' k'"
        "out' @ drop la' (pre @ b @ t) = out @ drop la pre @ b @ quoted t" "la' \<le> length (pre @ b @ t)"
        "0 < la' \<longleftrightarrow> 0 < la \<or> has_letter t" "la' = 0 \<longrightarrow> out' = out"
      using x(2) by auto
    let ?pre = "pre @ b @ t @ [c]"
    have d: "out' @ drop la' ?pre = out @ drop la pre @ b @ quoted t @ [c]"
      using q(2,3) by (simp add: drop_append [of la' "pre @ b @ t" "[c]", simplified])
    have "la' \<le> length ?pre" using q(3) by simp
    note ih = Cons.IH [OF l(4) this, of out' l' k']
    define R where "R = quote_loop cap (?pre @ ?post) (length ?pre) (quoting_at out' la' None l' k')"
    have R: "quote_loop cap (pre @ items_bytes (y # is) z @ 0 # r) (length pre) (quoting_at out la None l k) = R"
      using x(1) Inr q(1) unfolding e R_def by simp
    have total: "out' @ drop la' ?pre @ items_quoted is z = out @ drop la pre @ items_quoted (y # is) z"
      using d y by (simp flip: append_assoc)
    have bytes: "?pre @ items_bytes is z = pre @ items_bytes (y # is) z" using y by simp
    have letter: "some_letter (y # is) z \<longleftrightarrow> has_letter t \<or> some_letter is z" using y by (auto simp: some_letter_def)
    show ?thesis
    proof (cases R)
      case None
      then show ?thesis using ih [folded R_def] by simp
    next
      case (Some x)
      then show ?thesis
        using ih [folded R_def] q(4,5) letter unfolding R total bytes by (auto split: sum.split_asm)
    qed
  qed
qed

section \<open>The cell\<close>

lemma addQuote_result:
  assumes "items_legal is z" "0 < cap"
  shows "getStrAddQuote cap (items_bytes is z @ 0 # r) =
    Some (if \<not> some_letter is z then Inr []
      else if length (items_quoted is z) < cap then Inr (items_quoted is z) else Inl Err_cell_too_long)"
proof -
  define R where "R = quote_loop cap (items_bytes is z @ 0 # r) 0 (quoting_at [] 0 None False 0)"
  have R: "case R of
       None \<Rightarrow> False
     | Some (Inl e) \<Rightarrow> e = Err_cell_too_long \<and> some_letter is z \<and> cap < length (items_quoted is z)
     | Some (Inr (a, q)) \<Rightarrow> a = length (items_bytes is z) \<and> q_last q \<le> a \<and>
         q_out q @ drop (q_last q) (items_bytes is z) = items_quoted is z \<and>
         (0 < q_last q \<longleftrightarrow> some_letter is z) \<and> (q_last q = 0 \<longrightarrow> q_out q = [])"
    using loop_items [OF assms(1), where la = 0 and pre = "[]" and cap = cap and r = r and out = "[]" and l = False and k = 0]
    by (auto simp: R_def split: option.splits sum.splits)
  have g: "getStrAddQuote cap (items_bytes is z @ 0 # r) = ok_then R (\<lambda>(a, q).
      ok_then (Some (if 0 < q_last q then q_copy cap (block_at (q_last q) (a - q_last q) (items_bytes is z @ 0 # r)) (q_out q)
          else Inr (q_out q)))
        (\<lambda>out. if cap \<le> length out then Some (Inl Err_cell_too_long) else Some (Inr out)))"
    by (simp add: getStrAddQuote_def R_def)
  show ?thesis
  proof (cases R)
    case None
    then show ?thesis using R by simp
  next
    case (Some x)
    show ?thesis
    proof (cases x)
      case (Inl e)
      then show ?thesis using g Some R by simp
    next
      case (Inr aq)
      obtain a q where aq: "aq = (a, q)" by fastforce
      have f: "a = length (items_bytes is z)" "q_last q \<le> a"
          "q_out q @ drop (q_last q) (items_bytes is z) = items_quoted is z"
          "0 < q_last q \<longleftrightarrow> some_letter is z" "q_last q = 0 \<longrightarrow> q_out q = []"
        using R Some Inr aq by simp_all
      have b: "block_at (q_last q) (a - q_last q) (items_bytes is z @ 0 # r) = drop (q_last q) (items_bytes is z)"
        using block_at_mid f(1,2) by metis
      have len: "length (q_out q) + (length (items_bytes is z) - q_last q) = length (items_quoted is z)"
        using f(3) by (metis length_append length_drop)
      show ?thesis
        using g Some Inr aq f b len assms(2) by (auto simp: q_copy_def)
    qed
  qed
qed

text \<open>
  Quotes for strings: in a cell that is a list of items, with their blanks, braces
  and parentheses, \<open>getStrAddQuote\<close> puts exactly the items with a letter in quotes and leaves the rest as it
  is; it returns the empty string if there is nothing to quote, and an error exactly if the result
  does not fit into its buffer, which it never leaves.
\<close>

theorem getStrAddQuote_quotes:
  assumes "items_legal is z" "0 < cap"
  shows "getStrAddQuote cap (items_bytes is z @ 0 # r) =
    Some (if \<not> some_letter is z then Inr []
      else if length (items_quoted is z) < cap then Inr (items_quoted is z) else Inl Err_cell_too_long)"
  by (rule addQuote_result [OF assms])

text \<open>\<open>{a,1}\<close>: the item \<open>a\<close> is quoted, the number is not.\<close>

theorem getStrAddQuote_quotes_witness:
  "getStrAddQuote 4096 [123, 97, 44, 49, 125, 0] = Some (Inr [123, 34, 97, 34, 44, 49, 125])"
proof -
  let ?is = "[([123], [97], 44), ([], [49], 125)]" and ?z = "([], [])"
  have l: "letter 97" "\<not> letter 49" by (simp_all add: letter_def opener_def ender_def)
  have "items_legal ?is ?z"
    by (simp add: items_legal_def legal_before_def legal_token_def plain_def opener_def ender_def)
  from getStrAddQuote_quotes [OF this, of 4096 "[]"] show ?thesis
    by (simp add: some_letter_def has_letter_def quoted_def l)
qed

end
