(* ===== verification/XlsxCell.thy ===== *)
theory XlsxCell
  imports XlsxStrings XlsxQuote
begin

text \<open>
  How the cells of a sheet become strings (the conversions of \<open>getVvs\<close> in \<open>myxml2/myxml2.cpp\<close>). A cell points
  into the text of the sheet, where its string is rewritten in place, to a string of the table, which is
  rewritten as well, for everybody who points to it, or to the empty literal. The literals of the types must not
  be written: \<open>None\<close>.
\<close>

datatype cell_ptr = Null | Xml nat | Str str_ptr | Lit_empty

record cells_mem =
  cm_xml :: bytes
  cm_str :: intern

text \<open>What a cell points to, and its string.\<close>

definition cell_string :: "cells_mem \<Rightarrow> cell_ptr \<Rightarrow> bytes option" where
  "cell_string mem p =
     (case p of
        Null \<Rightarrow> None
      | Xml q \<Rightarrow> string_at (cm_xml mem) q
      | Str q \<Rightarrow> ptr_str (cm_str mem) q
      | Lit_empty \<Rightarrow> Some [])"

text \<open>A function that rewrites the string of a cell in place.\<close>

definition edit ::
    "(bytes \<Rightarrow> (xlsx_error + bytes) option) \<Rightarrow> cell_ptr \<Rightarrow> cells_mem \<Rightarrow> (xlsx_error + cells_mem) option" where
  "edit f p mem =
     (case p of
        Xml q \<Rightarrow> ok_then (f (drop q (cm_xml mem))) (\<lambda>b. Some (Inr (mem\<lparr>cm_xml := take q (cm_xml mem) @ b\<rparr>)))
      | Str (Buf q) \<Rightarrow> ok_then (f (drop q (in_buf (cm_str mem)))) (\<lambda>b.
          Some (Inr (mem\<lparr>cm_str := (cm_str mem)\<lparr>in_buf := take q (in_buf (cm_str mem)) @ b\<rparr>\<rparr>)))
      | Lit_empty \<Rightarrow> ok_then (f [0]) (\<lambda>b. if b = [0] then Some (Inr mem) else None)
      | _ \<Rightarrow> None)"

fun replace_each :: "(bytes \<times> bytes) list \<Rightarrow> cell_ptr \<Rightarrow> cells_mem \<Rightarrow> (xlsx_error + cells_mem) option" where
  "replace_each [] p mem = Some (Inr mem)"
| "replace_each ((b, c) # bcs) p mem = ok_then (edit (\<lambda>buf. strReplace buf b c) p mem) (replace_each bcs p)"

text \<open>The carriage return, and the names of XML for \<open>&\<close>, \<open>>\<close>, the quotes and \<open><\<close>.\<close>

definition xml_escapes :: "(bytes \<times> bytes) list" where
  "xml_escapes =
     [([13], []), ([38, 97, 109, 112, 59], [38]), ([38, 103, 116, 59], [62]), ([38, 113, 117, 111, 116, 59], [34]),
      ([38, 97, 112, 111, 115, 59], [39]), ([38, 108, 116, 59], [60])]"

definition xml_newline :: "(bytes \<times> bytes) list" where
  "xml_newline = [([38, 35, 49, 48, 59], [10])]"

text \<open>
  The result of a conversion: the cell itself, or the string in the local buffer \<open>cellNew\<close>. Its
  lifetime has ended when \<open>getStr\<close> reads it; the model reads what it held.
\<close>

definition convert ::
    "str_ptr \<Rightarrow> cell_ptr \<Rightarrow> cells_mem \<Rightarrow> (xlsx_error + bytes \<times> cells_mem) option" where
  "convert ty p mem =
     (let here = (\<lambda>mem. do { s \<leftarrow> cell_string mem p; Some (Inr (s, mem)) })
      in if ty = Fix 1 \<or> ty = Fix 2 \<or> ty = Fix 3 \<or> ty = Fix 4 then
        ok_then (replace_each xml_escapes p mem) (\<lambda>mem.
          ok_then (if ty = Fix 3 \<or> ty = Fix 2 then replace_each xml_newline p mem else Some (Inr mem)) (\<lambda>mem.
            if ty = Fix 4 then do {
              s \<leftarrow> cell_string mem p;
              ok_then (getStrAddQuote 4096 (s @ [0])) (\<lambda>new.
                if new \<noteq> [] then
                  ok_then (removeSpace (new @ [0])) (\<lambda>buf. do { s \<leftarrow> string_at buf 0; Some (Inr (s, mem)) })
                else ok_then (edit removeSpace p mem) here)
            }
            else if ty = Fix 3 then ok_then (edit removeSpace p mem) here
            else here mem))
      else here mem)"

definition convert_cell ::
    "str_ptr \<Rightarrow> cell_ptr \<Rightarrow> cells_mem \<Rightarrow> (xlsx_error + str_ptr \<times> cells_mem) option" where
  "convert_cell ty p mem =
     ok_then (convert ty p mem) (\<lambda>(s, mem).
       ok_then (getStr s (cm_str mem)) (\<lambda>(q, st). Some (Inr (q, mem\<lparr>cm_str := st\<rparr>))))"

section \<open>The text of a cell\<close>

text \<open>
  The reference. The names of XML are replaced one after the other, \<open>&amp;\<close> first, and carriage returns are left out;
  in strings and tables the name of the line end as well.
\<close>

abbreviation chars :: "string \<Rightarrow> bytes" where
  "chars s \<equiv> map of_char s"

definition unescape :: "bytes \<Rightarrow> bytes" where
  "unescape s = fold (\<lambda>(name, c). replace_all (chars name) (chars c))
     [(''&amp;'', ''&''), (''&gt;'', ''>''), (''&quot;'', [CHR 0x22]), (''&apos;'', [CHR 0x27]), (''&lt;'', ''<'')]
     (filter (\<lambda>c. c \<noteq> 13) s)"

definition newlines :: "bytes \<Rightarrow> bytes" where
  "newlines s = replace_all (chars ''&#10;'') [10] s"

text \<open>
  The reference for \<open>removeSpace\<close>, by positions: the quotes among the first \<open>k\<close> bytes, and the
  double brackets opened and not closed there.
\<close>

definition quotes_in :: "bytes \<Rightarrow> nat \<Rightarrow> nat" where
  "quotes_in s k = length (filter (\<lambda>j. s ! j = 34) [0..<k])"

definition pair_at :: "byte \<Rightarrow> bytes \<Rightarrow> nat \<Rightarrow> bool" where
  "pair_at c s j \<longleftrightarrow> s ! j = c \<and> Suc j < length s \<and> s ! Suc j = c"

definition depth_in :: "bytes \<Rightarrow> nat \<Rightarrow> int" where
  "depth_in s k = int (length (filter (pair_at 91 s) [0..<k])) - int (length (filter (pair_at 93 s) [0..<k]))"

text \<open>
  A blank or line end is taken out unless it stands within quotes or double brackets. The brackets must
  not be nested nor closed too often; the first place where they are decides about the error.
\<close>

definition stays :: "bytes \<Rightarrow> nat \<Rightarrow> bool" where
  "stays s i \<longleftrightarrow> s ! i \<notin> {10, 13, 32} \<or> odd (quotes_in s (Suc i)) \<or> depth_in s (Suc i) = 1"

definition spaces_out :: "bytes \<Rightarrow> xlsx_error + bytes" where
  "spaces_out s =
     (case find (\<lambda>i. depth_in s (Suc i) \<notin> {0, 1}) [0..<length s] of
        Some i \<Rightarrow> Inl (if depth_in s (Suc i) = 2 then Err_nested_bracket else Err_extra_bracket)
      | None \<Rightarrow> Inr (map ((!) s) (filter (stays s) [0..<length s])))"

text \<open>Then the commas before a closing brace and one at the end are left out.\<close>

definition tidied :: "bytes \<Rightarrow> xlsx_error + bytes" where
  "tidied s = map_sum id (\<lambda>t. strip_last (strip_comma t)) (spaces_out s)"

definition tn_plain :: bytes where "tn_plain = chars ''plain''"
definition tn_string :: bytes where "tn_string = chars ''string''"
definition tn_table :: bytes where "tn_table = chars ''table''"
definition tn_tbstr :: bytes where "tn_tbstr = chars ''tbstr''"

lemmas tn_defs = tn_plain_def tn_string_def tn_table_def tn_tbstr_def

text \<open>
  What becomes of a cell with the text \<open>s\<close> in a column of the type \<open>tn\<close>. For \<open>tbstr\<close> the text is read as
  the items \<open>is\<close> and \<open>z\<close>; those with a letter get quotes, for which there are 4096 bytes.
\<close>

definition cell_text :: "bytes \<Rightarrow> item list \<Rightarrow> bytes \<times> bytes \<Rightarrow> bytes \<Rightarrow> xlsx_error + bytes" where
  "cell_text tn is z s =
     (if tn = tn_plain then Inr (unescape s)
      else if tn = tn_string then Inr (newlines (unescape s))
      else if tn = tn_table then tidied (newlines (unescape s))
      else if tn = tn_tbstr then
        (if some_letter is z \<and> 4096 \<le> length (items_quoted is z) then Inl Err_cell_too_long
         else tidied (items_quoted is z))
      else Inr s)"

definition text_types :: "bytes set" where
  "text_types = {tn_plain, tn_string, tn_table, tn_tbstr}"

text \<open>
  The conversion of a column of the type \<open>tn\<close> leaves the string \<open>s\<close> as it stands in memory: there are no names to replace, and
  nothing to take out where that is done in place, which is not so for quoted text.
\<close>

definition quotable :: "bytes \<Rightarrow> bool" where
  "quotable s \<longleftrightarrow> (\<exists>is z. items_legal is z \<and> items_bytes is z = s \<and> some_letter is z)"

definition unaltered :: "bytes \<Rightarrow> bytes \<Rightarrow> bool" where
  "unaltered tn s \<longleftrightarrow> (tn \<in> text_types \<longrightarrow> unescape s = s) \<and>
     (tn = tn_string \<or> tn = tn_table \<longrightarrow> newlines s = s) \<and>
     (tn = tn_table \<or> tn = tn_tbstr \<and> \<not> quotable s \<longrightarrow> (\<forall>t. tidied s = Inr t \<longrightarrow> t = s))"

section \<open>The reference and the steps of the code\<close>

lemma strip_space_from:
  "n \<le> length s \<Longrightarrow> depth_in s n \<in> {0, 1} \<Longrightarrow> strip_space (odd (quotes_in s n)) (depth_in s n) (drop n s) =
    (case find (\<lambda>i. depth_in s (Suc i) \<notin> {0, 1}) [n..<length s] of
        Some i \<Rightarrow> Inl (if depth_in s (Suc i) = 2 then Err_nested_bracket else Err_extra_bracket)
      | None \<Rightarrow> Inr (map ((!) s) (filter (stays s) [n..<length s])))"
proof (induction "length s - n" arbitrary: n)
  case 0
  then show ?case by simp
next
  case (Suc k)
  then have n: "n < length s" by simp
  define x where "x = s ! n"
  have d: "drop n s = x # drop (Suc n) s" using n by (simp add: x_def Cons_nth_drop_Suc)
  have nb: "next_byte (drop (Suc n) s) = (if Suc n < length s then s ! Suc n else 0)"
    by (cases "Suc n < length s") (simp_all add: next_byte_def flip: Cons_nth_drop_Suc)
  have p: "c = x \<and> next_byte (drop (Suc n) s) = c \<longleftrightarrow> pair_at c s n" if "c \<noteq> 0" for c
    using that unfolding nb by (auto simp: pair_at_def x_def)
  have q: "quotes_in s (Suc n) = quotes_in s n + (if x = 34 then 1 else 0)" by (simp add: quotes_in_def x_def)
  have e: "depth_in s (Suc n) = depth_in s n + (if pair_at 91 s n then 1 else 0) - (if pair_at 93 s n then 1 else 0)"
    by (simp add: depth_in_def)
  have pp: "pair_at 91 s n \<Longrightarrow> x = 91" "pair_at 93 s n \<Longrightarrow> x = 93" by (simp_all add: pair_at_def x_def)
  have state: "space_state x (next_byte (drop (Suc n) s)) (odd (quotes_in s n)) (depth_in s n) =
      (if depth_in s (Suc n) \<in> {0, 1} then Inr (odd (quotes_in s (Suc n)), depth_in s (Suc n))
       else Inl (if depth_in s (Suc n) = 2 then Err_nested_bracket else Err_extra_bracket))"
    using p [of 91] p [of 93] pp Suc.prems(2) unfolding space_state_def q e by (auto split: if_splits)
  have up: "[n..<length s] = n # [Suc n..<length s]" using n by (rule upt_conv_Cons)
  show ?case
  proof (cases "depth_in s (Suc n) \<in> {0, 1}")
    case False
    then show ?thesis unfolding d strip_space.simps state up by simp
  next
    case True
    have ih: "strip_space (odd (quotes_in s (Suc n))) (depth_in s (Suc n)) (drop (Suc n) s) =
      (case find (\<lambda>i. depth_in s (Suc i) \<notin> {0, 1}) [Suc n..<length s] of
        Some i \<Rightarrow> Inl (if depth_in s (Suc i) = 2 then Err_nested_bracket else Err_extra_bracket)
      | None \<Rightarrow> Inr (map ((!) s) (filter (stays s) [Suc n..<length s])))"
      using Suc.hyps(1) [of "Suc n"] Suc.hyps(2) True n by simp
    have st: "stays s n \<longleftrightarrow> odd (quotes_in s (Suc n)) \<or> depth_in s (Suc n) \<noteq> 0 \<or> x \<noteq> 10 \<and> x \<noteq> 13 \<and> x \<noteq> 32"
      using True by (auto simp: stays_def x_def)
    show ?thesis unfolding d strip_space.simps state if_P [OF True] sum.case prod.case ih up
      using True st by (auto simp: x_def split: option.split)
  qed
qed

lemma strip_space_spec: "strip_space False 0 s = spaces_out s"
  using strip_space_from [of 0 s] by (simp add: quotes_in_def depth_in_def spaces_out_def)

definition replace_texts :: "(bytes \<times> bytes) list \<Rightarrow> bytes \<Rightarrow> bytes" where
  "replace_texts bcs s = fold (\<lambda>(b, c). replace_all b c) bcs s"

lemma replace_all_drop: "replace_all [x] [] s = filter (\<lambda>c. c \<noteq> x) s"
  by (induction s) (auto simp: replace_all.simps)

lemma replace_texts_spec:
  "replace_texts xml_escapes s = unescape s" "replace_texts xml_newline s = newlines s"
  by (simp_all add: replace_texts_def xml_escapes_def xml_newline_def unescape_def newlines_def replace_all_drop)

lemma tidied_eq: "tidied s = map_sum id (\<lambda>t. strip_last (strip_comma t)) (strip_space False 0 s)"
  by (simp add: tidied_def strip_space_spec)

text \<open>A replacement makes a text shorter or leaves it.\<close>

lemma replace_all_same:
  "length c < length b \<Longrightarrow> length (replace_all b c s) = length s \<Longrightarrow> replace_all b c s = s"
proof (induction s rule: replace_induct [where b = b])
  case (Hit s)
  then show ?case using replace_all_length [of c b s] by simp
next
  case (Skip x s)
  then show ?case by (simp add: replace_all_skip)
qed simp

lemma replace_texts_length:
  "\<forall>(b, c) \<in> set bcs. length c \<le> length b \<Longrightarrow> length (replace_texts bcs s) \<le> length s"
proof (induction bcs arbitrary: s)
  case (Cons bc bcs)
  obtain b c where bc: "bc = (b, c)" by fastforce
  then have "length (replace_all b c s) \<le> length s" using Cons.prems by (intro replace_all_length) simp
  moreover have "length (replace_texts bcs (replace_all b c s)) \<le> length (replace_all b c s)"
    using Cons by (simp add: bc)
  ultimately show ?case by (simp add: replace_texts_def bc)
qed (simp add: replace_texts_def)

section \<open>Rewriting leaves the rest of the block\<close>

lemma str_terminate_frame:
  "\<exists>w. str_terminate (out @ mid @ 0 # r) (length out) = Some (out @ 0 # w @ r) \<and> length w = length mid"
proof (cases mid)
  case Nil
  then show ?thesis by (simp add: str_terminate_def load_at)
next
  case (Cons x xs)
  then show ?thesis
    by (intro exI [of _ "xs @ [0]"]; cases "x = 0") (simp_all add: str_terminate_def load_at store_at)
qed

lemma strReplace_frame:
  assumes "0 \<notin> set s" "b \<noteq> []" "length c \<le> length b"
  shows "\<exists>w. strReplace (s @ 0 # r) b c = Some (Inr (replace_all b c s @ 0 # w @ r)) \<and>
    length (replace_all b c s @ w) = length s"
proof -
  obtain mid where m: "str_replace_loop b c (length s) 0 0 (s @ 0 # r)
      = Some (replace_all b c s @ mid @ 0 # r, length (replace_all b c s))"
      "length (replace_all b c s @ mid) = length s"
    using str_replace_loop_works [OF assms(3,2,1), of "[]" "[]" r] by auto
  then show ?thesis
    using str_terminate_frame [of "replace_all b c s" mid r] assms(1,3) by (auto simp: strReplace_def)
qed

lemma removeSpace_frame:
  assumes "0 \<notin> set s"
  shows "case tidied s of
      Inl e \<Rightarrow> removeSpace (s @ 0 # r) = Some (Inl e)
    | Inr t \<Rightarrow> \<exists>w. removeSpace (s @ 0 # r) = Some (Inr (t @ 0 # w @ r)) \<and> length (t @ w) = length s"
proof (cases "strip_space False 0 s")
  case (Inl e)
  then show ?thesis
    using space_loop_works [OF assms, of False 0 "[]" "[]" r] by (simp add: removeSpace_def tidied_eq)
next
  case (Inr t)
  obtain mid where m: "space_loop False 0 0 0 (s @ 0 # r) = Some (Inr (t @ mid @ 0 # r, length t))"
      "length (t @ mid) = length s"
    using space_loop_works [OF assms, of False 0 "[]" "[]" r] Inr by auto
  obtain w1 where r1: "str_terminate (t @ mid @ 0 # r) (length t) = Some (t @ 0 # w1 @ r)" "length w1 = length mid"
    using str_terminate_frame by blast
  let ?u = "strip_comma t"
  have t: "0 \<notin> set t" using strip_space_no_zero [OF Inr assms] .
  obtain mid2 where m2: "comma_loop 0 0 (t @ 0 # w1 @ r) = Some (?u @ mid2 @ 0 # w1 @ r, length ?u)"
      "length (?u @ mid2) = length t"
    using comma_loop_works [OF t, of "[]" "[]" "w1 @ r"] by auto
  obtain w2 where r2: "str_terminate (?u @ mid2 @ 0 # w1 @ r) (length ?u) = Some (?u @ 0 # w2 @ w1 @ r)"
      "length w2 = length mid2"
    using str_terminate_frame by blast
  show ?thesis
  proof (cases "?u" rule: rev_cases)
    case Nil
    then show ?thesis using Inr m r1 m2 r2
      by (auto simp: removeSpace_def strip_last_def tidied_eq intro!: exI [of _ "w2 @ w1"])
  next
    case (snoc v x)
    show ?thesis
    proof (cases "x = 44")
      case True
      then show ?thesis using Inr m r1 m2 r2 snoc
        by (auto simp: removeSpace_def strip_last_def tidied_eq load_at store_at intro!: exI [of _ "0 # w2 @ w1"])
    next
      case False
      then show ?thesis using Inr m r1 m2 r2 snoc
        by (auto simp: removeSpace_def strip_last_def tidied_eq load_at store_at intro!: exI [of _ "w2 @ w1"])
    qed
  qed
qed

section \<open>Cells in the text of the sheet\<close>

abbreviation sheet_mem :: "bytes \<Rightarrow> intern \<Rightarrow> cells_mem" where
  "sheet_mem xml st \<equiv> \<lparr>cm_xml = xml, cm_str = st\<rparr>"

lemma edit_xml:
  assumes "f (s @ 0 # post) = Some (Inr b)"
  shows "edit f (Xml (length pre)) (sheet_mem (pre @ s @ 0 # post) st) = Some (Inr (sheet_mem (pre @ b) st))"
  using assms by (simp add: edit_def)

lemma edit_xml_error:
  "f (s @ 0 # post) = Some (Inl e) \<Longrightarrow> edit f (Xml (length pre)) (sheet_mem (pre @ s @ 0 # post) st) = Some (Inl e)"
  by (simp add: edit_def)

lemma cell_string_xml:
  "0 \<notin> set s \<Longrightarrow> cell_string (sheet_mem (pre @ s @ 0 # post) st) (Xml (length pre)) = Some s"
  by (simp add: cell_string_def string_at_mid)

lemma replace_each_xml:
  "\<forall>(b, c) \<in> set bcs. b \<noteq> [] \<and> length c \<le> length b \<and> 0 \<notin> set c \<Longrightarrow> 0 \<notin> set s \<Longrightarrow>
    \<exists>w. replace_each bcs (Xml (length pre)) (sheet_mem (pre @ s @ 0 # post) st) =
        Some (Inr (sheet_mem (pre @ replace_texts bcs s @ 0 # w @ post) st)) \<and>
      length (replace_texts bcs s @ w) = length s \<and> 0 \<notin> set (replace_texts bcs s)"
proof (induction bcs arbitrary: s post)
  case Nil
  then show ?case by (auto simp: replace_texts_def)
next
  case (Cons bc bcs)
  obtain b c where bc: "bc = (b, c)" by fastforce
  then have b: "b \<noteq> []" "length c \<le> length b" "0 \<notin> set c" using Cons.prems(1) by simp_all
  let ?t = "replace_all b c s"
  obtain w where w: "strReplace (s @ 0 # post) b c = Some (Inr (?t @ 0 # w @ post))" "length (?t @ w) = length s"
    using strReplace_frame [OF Cons.prems(2) b(1,2)] by blast
  have t: "0 \<notin> set ?t" by (rule replace_all_no_zero [OF b(3) Cons.prems(2)])
  have e: "edit (\<lambda>buf. strReplace buf b c) (Xml (length pre)) (sheet_mem (pre @ s @ 0 # post) st) =
      Some (Inr (sheet_mem (pre @ ?t @ 0 # w @ post) st))"
    using edit_xml [of "\<lambda>buf. strReplace buf b c"] w(1) by simp
  obtain w' where w': "replace_each bcs (Xml (length pre)) (sheet_mem (pre @ ?t @ 0 # w @ post) st) =
        Some (Inr (sheet_mem (pre @ replace_texts bcs ?t @ 0 # w' @ w @ post) st))"
      "length (replace_texts bcs ?t @ w') = length ?t" "0 \<notin> set (replace_texts bcs ?t)"
    using Cons.IH [OF _ t, of "w @ post"] Cons.prems(1) by auto
  have "replace_texts (bc # bcs) s = replace_texts bcs ?t" by (simp add: replace_texts_def bc)
  then show ?case using e w(2) w' bc by (intro exI [of _ "w' @ w"]) simp
qed

lemma escapes_ok:
  "\<forall>(b, c) \<in> set xml_escapes. b \<noteq> [] \<and> length c \<le> length b \<and> 0 \<notin> set c"
  "\<forall>(b, c) \<in> set xml_newline. b \<noteq> [] \<and> length c \<le> length b \<and> 0 \<notin> set c"
  by (simp_all add: xml_escapes_def xml_newline_def)

lemma items_quoted_no_zero: "0 \<notin> set (items_bytes is z) \<Longrightarrow> 0 \<notin> set (items_quoted is z)"
  by (induction "is" z rule: items_quoted.induct) (auto simp: quoted_def)

lemma tidied_no_zero:
  assumes "tidied s = Inr t" "0 \<notin> set s"
  shows "0 \<notin> set t"
proof -
  obtain v where v: "strip_space False 0 s = Inr v" "t = strip_last (strip_comma v)"
    using assms(1) by (cases "strip_space False 0 s") (auto simp: tidied_eq)
  have "0 \<notin> set (strip_comma v)" by (rule strip_comma_no_zero [OF strip_space_no_zero [OF v(1) assms(2)]])
  then show ?thesis unfolding v(2) strip_last_def by (auto dest: in_set_butlastD)
qed

text \<open>The type of a column is compared by its pointer.\<close>

definition type_is :: "str_ptr \<Rightarrow> bytes \<Rightarrow> bool" where
  "type_is ty tn \<longleftrightarrow> (\<forall>k < 5. ty = Fix k \<longleftrightarrow> tn = fix_strings ! k)"

lemma type_isI:
  assumes "intern_ok st" "ty \<in> ptrs st" "ptr_str st ty = Some tn"
  shows "type_is ty tn"
  unfolding type_is_def
proof (intro allI impI iffI)
  fix k :: nat assume k: "k < 5"
  { assume "ty = Fix k" then show "tn = fix_strings ! k" using ptr_str_fix [OF k] assms(3) by simp }
  assume t: "tn = fix_strings ! k"
  obtain ws where "intern_has st ws" using assms(1) by (auto simp: intern_ok_def)
  moreover have "Fix k \<in> ptrs st" using k by (simp add: ptrs_def)
  ultimately show "ty = Fix k" using intern_once assms(2,3) ptr_str_fix [OF k, of st] t by metis
qed

lemma type_names:
  assumes "type_is ty tn"
  shows "ty = Fix 1 \<longleftrightarrow> tn = tn_plain" "ty = Fix 2 \<longleftrightarrow> tn = tn_string"
    "ty = Fix 3 \<longleftrightarrow> tn = tn_table" "ty = Fix 4 \<longleftrightarrow> tn = tn_tbstr"
  using assms [unfolded type_is_def, rule_format, of 1] assms [unfolded type_is_def, rule_format, of 2]
    assms [unfolded type_is_def, rule_format, of 3] assms [unfolded type_is_def, rule_format, of 4]
  by (simp_all add: fix_strings_def tn_defs)

lemma text_types_iff: "type_is ty tn \<Longrightarrow> tn \<in> text_types \<longleftrightarrow> ty = Fix 1 \<or> ty = Fix 2 \<or> ty = Fix 3 \<or> ty = Fix 4"
  unfolding text_types_def by (simp only: type_names [of ty tn]) blast

lemma cell_text_cases:
  "cell_text (tn_plain) is z s = Inr (unescape s)"
  "cell_text (tn_string) is z s = Inr (newlines (unescape s))"
  "cell_text (tn_table) is z s = tidied (newlines (unescape s))"
  "cell_text (tn_tbstr) is z s = (if some_letter is z \<and> 4096 \<le> length (items_quoted is z) then Inl Err_cell_too_long
     else tidied (items_quoted is z))"
  "tn \<notin> text_types \<Longrightarrow> cell_text tn is z s = Inr s"
  by (simp_all add: cell_text_def text_types_def tn_defs)

lemma some_letter_not_Nil: "some_letter is z \<Longrightarrow> items_quoted is z \<noteq> []"
  by (induction "is" z rule: items_quoted.induct) (auto simp: some_letter_def quoted_def)

lemma items_quoted_plain: "\<not> some_letter is z \<Longrightarrow> items_quoted is z = items_bytes is z"
  by (induction "is" z rule: items_quoted.induct) (auto simp: some_letter_def quoted_def)

lemma edit_tidy:
  assumes "0 \<notin> set s"
  shows "case tidied s of
      Inl e \<Rightarrow> edit removeSpace (Xml (length pre)) (sheet_mem (pre @ s @ 0 # post) st) = Some (Inl e)
    | Inr t \<Rightarrow> \<exists>w. edit removeSpace (Xml (length pre)) (sheet_mem (pre @ s @ 0 # post) st) =
        Some (Inr (sheet_mem (pre @ t @ 0 # w @ post) st)) \<and> length (t @ w) = length s"
  using removeSpace_frame [OF assms, of post] edit_xml [of removeSpace s post] edit_xml_error [of removeSpace s post]
  by (cases "tidied s") force+

lemma convert_xml:
  assumes "0 \<notin> set s" "type_is ty tn" "tn = tn_tbstr \<Longrightarrow> items_legal is z \<and> items_bytes is z = unescape s"
  shows "case cell_text tn is z s of
      Inl e \<Rightarrow> convert ty (Xml (length pre)) (sheet_mem (pre @ s @ 0 # post) st) = Some (Inl e)
    | Inr t \<Rightarrow> 0 \<notin> set t \<and> (\<exists>u. convert ty (Xml (length pre)) (sheet_mem (pre @ s @ 0 # post) st) =
        Some (Inr (t, sheet_mem (pre @ u @ post) st)) \<and> length u = Suc (length s))"
proof -
  let ?p = "Xml (length pre)" and ?mem = "sheet_mem (pre @ s @ 0 # post) st"
  note names = type_names [OF assms(2)]
  define u where "u = unescape s"
  obtain w where w: "replace_each xml_escapes ?p ?mem = Some (Inr (sheet_mem (pre @ u @ 0 # w @ post) st))"
      "length (u @ w) = length s" "0 \<notin> set u"
    using replace_each_xml [OF escapes_ok(1) assms(1)] unfolding u_def replace_texts_spec by blast
  define v where "v = newlines u"
  obtain w2 where w2: "replace_each xml_newline ?p (sheet_mem (pre @ u @ 0 # w @ post) st) =
        Some (Inr (sheet_mem (pre @ v @ 0 # w2 @ w @ post) st))" "length (v @ w2) = length u" "0 \<notin> set v"
    using replace_each_xml [OF escapes_ok(2) w(3)] unfolding v_def replace_texts_spec by blast
  note here = cell_string_xml [OF w(3)] cell_string_xml [OF w2(3)]
  consider (plain) "ty = Fix 1" | (string) "ty = Fix 2" | (table) "ty = Fix 3" | (tbstr) "ty = Fix 4"
    | (other) "ty \<notin> {Fix 1, Fix 2, Fix 3, Fix 4}" by blast
  then show ?thesis
  proof cases
    case plain
    then have "cell_text tn is z s = Inr u" using names(1) by (simp add: cell_text_cases u_def)
    then show ?thesis using plain w here(1) [of pre "w @ post"]
      by (auto simp: convert_def Let_def intro!: exI [of _ "u @ 0 # w"])
  next
    case string
    then have "cell_text tn is z s = Inr v" using names(2) by (simp add: cell_text_cases u_def v_def)
    then show ?thesis using string w w2 here(2) [of pre "w2 @ w @ post"]
      by (auto simp: convert_def Let_def intro!: exI [of _ "v @ 0 # w2 @ w"])
  next
    case table
    have e: "convert ty ?p ?mem = ok_then (edit removeSpace ?p (sheet_mem (pre @ v @ 0 # w2 @ w @ post) st))
        (\<lambda>mem. do { s \<leftarrow> cell_string mem ?p; Some (Inr (s, mem)) })"
      using table w w2 by (simp add: convert_def Let_def)
    have c: "cell_text tn is z s = tidied v" using table names(3) by (simp add: cell_text_cases u_def v_def)
    show ?thesis
    proof (cases "tidied v")
      case (Inl x)
      then show ?thesis using edit_tidy [OF w2(3), of pre "w2 @ w @ post" st] e c by simp
    next
      case (Inr t)
      then obtain w3 where w3: "edit removeSpace ?p (sheet_mem (pre @ v @ 0 # w2 @ w @ post) st) =
          Some (Inr (sheet_mem (pre @ t @ 0 # w3 @ w2 @ w @ post) st))" "length (t @ w3) = length v"
        using edit_tidy [OF w2(3), of pre "w2 @ w @ post" st] by auto
      have t: "0 \<notin> set t" by (rule tidied_no_zero [OF Inr w2(3)])
      have "convert ty ?p ?mem = Some (Inr (t, sheet_mem (pre @ (t @ 0 # w3 @ w2 @ w) @ post) st))"
        using e w3 cell_string_xml [OF t, of pre "w3 @ w2 @ w @ post" st] by simp
      moreover have "length (t @ 0 # w3 @ w2 @ w) = Suc (length s)" using w(2) w2(2) w3(2) by simp
      ultimately show ?thesis using t c Inr by auto
    qed
  next
    case tbstr
    have i: "items_legal is z" "u = items_bytes is z" using assms(3) tbstr names(4) by (simp_all add: u_def)
    define new where "new = items_quoted is z"
    have new: "0 \<notin> set new" using items_quoted_no_zero w(3) i(2) by (auto simp: new_def)
    have e: "convert ty ?p ?mem = ok_then (getStrAddQuote 4096 (u @ [0])) (\<lambda>new.
        if new \<noteq> [] then
          ok_then (removeSpace (new @ [0])) (\<lambda>buf. do { s \<leftarrow> string_at buf 0;
            Some (Inr (s, sheet_mem (pre @ u @ 0 # w @ post) st)) })
        else ok_then (edit removeSpace ?p (sheet_mem (pre @ u @ 0 # w @ post) st))
          (\<lambda>mem. do { s \<leftarrow> cell_string mem ?p; Some (Inr (s, mem)) }))"
      using tbstr w here(1) [of pre "w @ post" st] by (simp add: convert_def Let_def)
    have c: "cell_text tn is z s = (if some_letter is z \<and> 4096 \<le> length new then Inl Err_cell_too_long else tidied new)"
      using tbstr names(4) by (simp add: cell_text_cases new_def)
    note q = addQuote_result [OF i(1), of 4096 "[]", folded new_def]
    have nn: "some_letter is z \<Longrightarrow> new \<noteq> []" unfolding new_def by (rule some_letter_not_Nil)
    show ?thesis
    proof (cases "some_letter is z")
      case True
      show ?thesis
      proof (cases "tidied new")
        case (Inl x)
        then show ?thesis using True e c q i(2) nn removeSpace_frame [OF new, of "[]"] by simp
      next
        case (Inr t)
        have t: "0 \<notin> set t" by (rule tidied_no_zero [OF Inr new])
        obtain w3 where "removeSpace (new @ [0]) = Some (Inr (t @ 0 # w3))"
          using removeSpace_frame [OF new, of "[]"] Inr by auto
        moreover have "string_at (t @ 0 # w3) 0 = Some t" using string_at_mid [OF t, of "[]"] by simp
        ultimately have "4096 \<le> length new \<and> convert ty ?p ?mem = Some (Inl Err_cell_too_long) \<or>
            \<not> 4096 \<le> length new \<and> convert ty ?p ?mem = Some (Inr (t, sheet_mem (pre @ (u @ 0 # w) @ post) st))"
          using e q i(2) True nn by (cases "4096 \<le> length new") simp_all
        moreover have "length (u @ 0 # w) = Suc (length s)" using w(2) by simp
        ultimately show ?thesis using t c Inr True by auto
      qed
    next
      case False
      then have n: "new = u" using items_quoted_plain i(2) by (simp add: new_def)
      show ?thesis
      proof (cases "tidied u")
        case (Inl x)
        then show ?thesis using False e c q i(2) n edit_tidy [OF w(3), of pre "w @ post" st] by simp
      next
        case (Inr t)
        have t: "0 \<notin> set t" by (rule tidied_no_zero [OF Inr w(3)])
        obtain w3 where w3: "edit removeSpace ?p (sheet_mem (pre @ u @ 0 # w @ post) st) =
            Some (Inr (sheet_mem (pre @ t @ 0 # w3 @ w @ post) st))" "length (t @ w3) = length u"
          using edit_tidy [OF w(3), of pre "w @ post" st] Inr by auto
        then have "convert ty ?p ?mem = Some (Inr (t, sheet_mem (pre @ (t @ 0 # w3 @ w) @ post) st))"
          using e q i(2) False cell_string_xml [OF t, of pre "w3 @ w @ post" st] by simp
        moreover have "length (t @ 0 # w3 @ w) = Suc (length s)" using w(2) w3(2) by simp
        ultimately show ?thesis using t c n Inr False by auto
      qed
    qed
  next
    case other
    then have "cell_text tn is z s = Inr s" using text_types_iff [OF assms(2)] by (simp add: cell_text_cases)
    then show ?thesis using other assms(1) cell_string_xml [OF assms(1), of pre post st]
      by (auto simp: convert_def Let_def intro!: exI [of _ "s @ [0]"])
  qed
qed

section \<open>Cells with a shared string, and cells without a text\<close>

text \<open>A cell that stands for \<open>s\<close> and that no edit changes as long as it leaves \<open>s\<close>.\<close>

definition held :: "cells_mem \<Rightarrow> cell_ptr \<Rightarrow> bytes \<Rightarrow> bool" where
  "held mem p s \<longleftrightarrow> cell_string mem p = Some s \<and> 0 \<notin> set s \<and> (\<forall>f.
     (\<forall>r. f (s @ 0 # r) = Some (Inr (s @ 0 # r))) \<longrightarrow> edit f p mem = Some (Inr mem)) \<and>
     (\<forall>f e. (\<forall>r. f (s @ 0 # r) = Some (Inl e)) \<longrightarrow> edit f p mem = Some (Inl e))"

lemma string_at_split:
  assumes "string_at xs i = Some s"
  shows "\<exists>post. drop i xs = s @ 0 # post \<and> 0 \<notin> set s"
proof -
  obtain n where n: "strlen (drop i xs) = Some n" "s = block_at i n xs"
    using assms by (auto simp: string_at_def strlen_at_def)
  have "strlen ys = Some n \<Longrightarrow> ys = take n ys @ 0 # drop (Suc n) ys" for ys n
    by (induction ys arbitrary: n) (auto split: if_splits)
  from this [OF n(1)] show ?thesis using string_at_no_zero [OF assms] n(2) unfolding block_at_def by metis
qed

lemma held_shared:
  assumes "p = Lit_empty \<or> p = Str (Buf q)" "cell_string mem p = Some s"
  shows "held mem p s"
proof (cases "p = Lit_empty")
  case True
  then have "s = []" using assms(2) by (simp add: cell_string_def)
  then show ?thesis using True assms(2) by (auto simp: held_def edit_def)
next
  case False
  then have p: "p = Str (Buf q)" "string_at (in_buf (cm_str mem)) q = Some s"
    using assms by (auto simp: cell_string_def ptr_str_def)
  then obtain post where "drop q (in_buf (cm_str mem)) = s @ 0 # post" "0 \<notin> set s" using string_at_split by blast
  moreover from this have "take q (in_buf (cm_str mem)) @ s @ 0 # post = in_buf (cm_str mem)"
    by (metis append_take_drop_id)
  ultimately show ?thesis using p(1) assms(2) by (auto simp: held_def edit_def)
qed

lemma replace_each_held:
  "\<forall>(b, c) \<in> set bcs. b \<noteq> [] \<and> length c < length b \<Longrightarrow> held mem p s \<Longrightarrow> replace_texts bcs s = s \<Longrightarrow>
    replace_each bcs p mem = Some (Inr mem)"
proof (induction bcs)
  case (Cons bc bcs)
  obtain b c where bc: "bc = (b, c)" by fastforce
  then have b: "b \<noteq> []" "length c < length b" using Cons.prems(1) by simp_all
  let ?t = "replace_all b c s"
  have rest: "replace_texts bcs ?t = s" using Cons.prems(3) by (simp add: bc replace_texts_def)
  have "length (replace_texts bcs ?t) \<le> length ?t" using Cons.prems(1) by (intro replace_texts_length) auto
  moreover have "length ?t \<le> length s" using b by (intro replace_all_length) simp
  ultimately have t: "?t = s" using rest b(2) by (intro replace_all_same) simp_all
  have z: "0 \<notin> set s" using Cons.prems(2) by (simp add: held_def)
  have "strReplace (s @ 0 # r) b c = Some (Inr (s @ 0 # r))" for r
  proof -
    obtain w where "strReplace (s @ 0 # r) b c = Some (Inr (?t @ 0 # w @ r))" "length (?t @ w) = length s"
      using strReplace_frame [OF z b(1), of c r] b(2) by auto
    then show ?thesis using t by simp
  qed
  then have "edit (\<lambda>buf. strReplace buf b c) p mem = Some (Inr mem)" using Cons.prems(2) by (simp add: held_def)
  moreover have "replace_each bcs p mem = Some (Inr mem)" using Cons rest t by simp
  ultimately show ?case by (simp add: bc)
qed simp

lemma escapes_shorter:
  "\<forall>(b, c) \<in> set xml_escapes. b \<noteq> [] \<and> length c < length b"
  "\<forall>(b, c) \<in> set xml_newline. b \<noteq> [] \<and> length c < length b"
  by (simp_all add: xml_escapes_def xml_newline_def)

lemma edit_tidy_held:
  assumes "held mem p s" "\<forall>t. tidied s = Inr t \<longrightarrow> t = s"
  shows "edit removeSpace p mem = Some (map_sum id (\<lambda>_. mem) (tidied s))"
proof -
  have z: "0 \<notin> set s" using assms(1) by (simp add: held_def)
  show ?thesis
  proof (cases "tidied s")
    case (Inl e)
    then have "removeSpace (s @ 0 # r) = Some (Inl e)" for r using removeSpace_frame [OF z, of r] by simp
    then show ?thesis using assms(1) Inl by (simp add: held_def)
  next
    case (Inr t)
    then have "t = s" using assms(2) by simp
    then have "removeSpace (s @ 0 # r) = Some (Inr (s @ 0 # r))" for r using removeSpace_frame [OF z, of r] Inr by auto
    then show ?thesis using assms(1) Inr by (simp add: held_def)
  qed
qed

text \<open>The steps of a conversion that leaves what it finds.\<close>

lemma convert_held:
  assumes "held mem p s" "type_is ty tn" "unaltered tn s"
  shows "convert ty p mem =
    (if tn = tn_table then Some (map_sum id (\<lambda>_. (s, mem)) (tidied s))
     else if tn = tn_tbstr then
       ok_then (getStrAddQuote 4096 (s @ [0])) (\<lambda>new.
         if new \<noteq> [] then ok_then (removeSpace (new @ [0])) (\<lambda>buf. do { t \<leftarrow> string_at buf 0; Some (Inr (t, mem)) })
         else Some (map_sum id (\<lambda>_. (s, mem)) (tidied s)))
     else Some (Inr (s, mem)))"
proof -
  note names = type_names [OF assms(2)] text_types_iff [OF assms(2)]
  have s: "cell_string mem p = Some s" using assms(1) by (simp add: held_def)
  have r1: "replace_each xml_escapes p mem = Some (Inr mem)" if "tn \<in> text_types"
    using replace_each_held [OF escapes_shorter(1) assms(1)] assms(3) that by (simp add: unaltered_def replace_texts_spec)
  have r2: "replace_each xml_newline p mem = Some (Inr mem)" if "tn = tn_string \<or> tn = tn_table"
    using replace_each_held [OF escapes_shorter(2) assms(1)] assms(3) that by (auto simp: unaltered_def replace_texts_spec)
  have e: "edit removeSpace p mem = Some (map_sum id (\<lambda>_. mem) (tidied s))"
    if "tn = tn_table \<or> tn = tn_tbstr \<and> \<not> quotable s"
    by (rule edit_tidy_held [OF assms(1)]) (use assms(3) that in \<open>auto simp: unaltered_def\<close>)
  have again: "ok_then (Some (map_sum id (\<lambda>_. mem) (tidied s))) (\<lambda>mem. do { s \<leftarrow> cell_string mem p; Some (Inr (s, mem)) }) =
      Some (map_sum id (\<lambda>_. (s, mem)) (tidied s))"
    using s by (cases "tidied s") simp_all
  consider (plain) "ty = Fix 1" | (string) "ty = Fix 2" | (table) "ty = Fix 3" | (tbstr) "ty = Fix 4"
    | (other) "ty \<notin> {Fix 1, Fix 2, Fix 3, Fix 4}" by blast
  then show ?thesis
  proof cases
    case plain
    then show ?thesis using r1 s names by (simp add: convert_def Let_def)
  next
    case string
    then show ?thesis using r1 r2 s names by (simp add: convert_def Let_def)
  next
    case table
    then show ?thesis using r1 r2 e again names by (simp add: convert_def Let_def)
  next
    case tbstr
    have q: "\<not> quotable s" if "getStrAddQuote 4096 (s @ [0]) = Some (Inr [])"
    proof
      assume "quotable s"
      then obtain "is" z where i: "items_legal is z" "items_bytes is z = s" "some_letter is z" by (auto simp: quotable_def)
      from addQuote_result [OF i(1), of 4096 "[]"] that i(2,3) some_letter_not_Nil [OF i(3)] show False
        by (auto split: if_splits)
    qed
    have "ok_then (getStrAddQuote 4096 (s @ [0])) (\<lambda>new.
         if new \<noteq> [] then ok_then (removeSpace (new @ [0])) (\<lambda>buf. do { t \<leftarrow> string_at buf 0; Some (Inr (t, mem)) })
         else ok_then (edit removeSpace p mem) (\<lambda>mem. do { s \<leftarrow> cell_string mem p; Some (Inr (s, mem)) })) =
       ok_then (getStrAddQuote 4096 (s @ [0])) (\<lambda>new.
         if new \<noteq> [] then ok_then (removeSpace (new @ [0])) (\<lambda>buf. do { t \<leftarrow> string_at buf 0; Some (Inr (t, mem)) })
         else Some (map_sum id (\<lambda>_. (s, mem)) (tidied s)))"
    proof (cases "getStrAddQuote 4096 (s @ [0]) = Some (Inr [])")
      case True
      then show ?thesis using q e again tbstr names by simp
    next
      case False
      then show ?thesis
        by (cases "getStrAddQuote 4096 (s @ [0])") (auto simp: ok_then_def split: sum.split)
    qed
    then show ?thesis using tbstr r1 s names by (simp add: convert_def Let_def)
  next
    case other
    then have "tn \<notin> text_types" using names(5) by simp
    then show ?thesis using other s by (simp add: convert_def Let_def text_types_def)
  qed
qed

text \<open>What \<open>getStrAddQuote\<close> and \<open>removeSpace\<close> make of a text of items is what the reference says.\<close>

lemma convert_held_text:
  assumes "held mem p s" "type_is ty tn" "unaltered tn s"
    "tn = tn_tbstr \<Longrightarrow> items_legal is z \<and> items_bytes is z = unescape s"
  shows "convert ty p mem = Some (map_sum id (\<lambda>t. (t, mem)) (cell_text tn is z s))" "cell_text tn is z s = Inr t \<Longrightarrow> 0 \<notin> set t"
proof -
  have z: "0 \<notin> set s" using assms(1) by (simp add: held_def)
  note conv = convert_held [OF assms(1-3)]
  have same: "map_sum id (\<lambda>_. (s, mem)) (tidied s) = map_sum id (\<lambda>t. (t, mem)) (tidied s)" if "\<forall>t. tidied s = Inr t \<longrightarrow> t = s"
    using that by (cases "tidied s") simp_all
  have "convert ty p mem = Some (map_sum id (\<lambda>t. (t, mem)) (cell_text tn is z s)) \<and>
      (\<forall>t. cell_text tn is z s = Inr t \<longrightarrow> 0 \<notin> set t)"
  proof (cases "tn \<in> text_types")
    case False
    then show ?thesis using conv z by (auto simp: cell_text_cases text_types_def)
  next
    case True
    then have u: "unescape s = s" using assms(3) by (simp add: unaltered_def)
    consider (plain) "tn = tn_plain" | (string) "tn = tn_string" | (table) "tn = tn_table" | (tbstr) "tn = tn_tbstr"
      using True by (auto simp: text_types_def)
    then show ?thesis
    proof cases
      case plain
      moreover have "tn_plain \<noteq> tn_table" "tn_plain \<noteq> tn_tbstr" by (simp_all add: tn_defs)
      ultimately show ?thesis using conv u z by (simp add: cell_text_cases)
    next
      case string
      moreover have "tn_string \<noteq> tn_table" "tn_string \<noteq> tn_tbstr" by (simp_all add: tn_defs)
      moreover from string have "newlines s = s" using assms(3) by (simp add: unaltered_def)
      ultimately show ?thesis using conv u z by (simp add: cell_text_cases)
    next
      case table
      then have "newlines s = s" "\<forall>t. tidied s = Inr t \<longrightarrow> t = s" using assms(3) by (simp_all add: unaltered_def)
      moreover have "\<forall>t. tidied s = Inr t \<longrightarrow> 0 \<notin> set t" using tidied_no_zero z by blast
      ultimately show ?thesis using table conv u same by (simp add: cell_text_cases)
    next
      case tbstr
      have n: "tn_tbstr \<noteq> tn_table" by (simp add: tn_defs)
      have i: "items_legal is z" "s = items_bytes is z" using assms(4) tbstr u by simp_all
      note q = addQuote_result [OF i(1), of 4096 "[]"]
      have new: "0 \<notin> set (items_quoted is z)" using items_quoted_no_zero z i(2) by simp
      show ?thesis
      proof (cases "some_letter is z")
        case False
        then have e: "items_quoted is z = s" using items_quoted_plain i(2) by simp
        have "\<forall>t. tidied s = Inr t \<longrightarrow> t = s"
        proof (cases "quotable s")
          case True
          then obtain is' z' where i': "items_legal is' z'" "items_bytes is' z' = s" "some_letter is' z'" by (auto simp: quotable_def)
          from addQuote_result [OF i'(1), of 4096 "[]"] q False i' i(2) some_letter_not_Nil [OF i'(3)] show ?thesis
            by (auto split: if_splits)
        qed (use assms(3) tbstr in \<open>simp add: unaltered_def\<close>)
        moreover have "\<forall>t. tidied s = Inr t \<longrightarrow> 0 \<notin> set t" using tidied_no_zero z by blast
        ultimately show ?thesis using tbstr conv n q False i(2) e same by (simp add: cell_text_cases)
      next
        case True
        note nn = some_letter_not_Nil [OF True]
        show ?thesis
        proof (cases "tidied (items_quoted is z)")
          case (Inl x)
          then show ?thesis using tbstr conv n q True i(2) nn removeSpace_frame [OF new, of "[]"] by (simp add: cell_text_cases)
        next
          case (Inr t)
          have t: "0 \<notin> set t" by (rule tidied_no_zero [OF Inr new])
          obtain w where "removeSpace (items_quoted is z @ [0]) = Some (Inr (t @ 0 # w))"
            using removeSpace_frame [OF new, of "[]"] Inr by auto
          moreover have "string_at (t @ 0 # w) 0 = Some t" using string_at_mid [OF t, of "[]"] by simp
          ultimately show ?thesis using tbstr conv n q True i(2) nn Inr t by (simp add: cell_text_cases)
        qed
      qed
    qed
  qed
  then show "convert ty p mem = Some (map_sum id (\<lambda>t. (t, mem)) (cell_text tn is z s))"
    "cell_text tn is z s = Inr t \<Longrightarrow> 0 \<notin> set t" by blast+
qed

text \<open>
  C17. A cell is converted as the reference says: in a column of the type \<open>tn\<close> the names of XML
  are replaced, tables are stripped and checked, the items of a \<open>tbstr\<close> are quoted. The cell has its text in the sheet,
  or it is empty, or it is a shared string, provided then that the conversion leaves that as it stands
  (\<open>unaltered\<close>): other shared strings are rewritten for every cell that has them, as the lemmas at the end show.
  If the reference has an error, it is reported. If not, and the string table has room, the result is a
  pointer to the new text, every pointer handed out before keeps its string, and in the sheet only
  bytes of this cell change.
\<close>

theorem convert_cell_converts:
  assumes "intern_ok (cm_str mem)" "ty \<in> ptrs (cm_str mem)" "ptr_str (cm_str mem) ty = Some tn" "cell_string mem p = Some s"
    "p = Xml i \<or> (p = Lit_empty \<or> p = Str (Buf q)) \<and> unaltered tn s"
    "tn = tn_tbstr \<Longrightarrow> items_legal is z \<and> items_bytes is z = unescape s"
    "\<And>t. cell_text tn is z s = Inr t \<Longrightarrow> intern_room (cm_str mem) 1 (length t)"
  shows "case cell_text tn is z s of
      Inl e \<Rightarrow> convert_cell ty p mem = Some (Inl e)
    | Inr t \<Rightarrow> \<exists>r mem'. convert_cell ty p mem = Some (Inr (r, mem')) \<and>
        intern_ok (cm_str mem') \<and> r \<in> ptrs (cm_str mem') \<and> ptr_str (cm_str mem') r = Some t \<and>
        grows (cm_str mem) (cm_str mem') \<and> length (cm_xml mem') = length (cm_xml mem) \<and>
        (\<forall>k. p = Xml i \<and> i \<le> k \<and> k \<le> i + length s \<or> cm_xml mem' ! k = cm_xml mem ! k)"
proof -
  note ty = type_isI [OF assms(1-3)]
  have "case cell_text tn is z s of
      Inl e \<Rightarrow> convert ty p mem = Some (Inl e)
    | Inr t \<Rightarrow> 0 \<notin> set t \<and> (\<exists>xml. convert ty p mem = Some (Inr (t, mem\<lparr>cm_xml := xml\<rparr>)) \<and> length xml = length (cm_xml mem) \<and>
        (\<forall>k. p = Xml i \<and> i \<le> k \<and> k \<le> i + length s \<or> xml ! k = cm_xml mem ! k))"
  proof (cases "p = Xml i")
    case True
    then have "string_at (cm_xml mem) i = Some s" using assms(4) by (simp add: cell_string_def)
    then obtain post where x: "drop i (cm_xml mem) = s @ 0 # post" "0 \<notin> set s" using string_at_split by blast
    define pre where "pre = take i (cm_xml mem)"
    have "\<not> length (cm_xml mem) \<le> i" using x(1) by (metis append_is_Nil_conv drop_all list.distinct(1))
    then have l: "length pre = i" by (simp add: pre_def)
    have xm: "cm_xml mem = pre @ s @ 0 # post"
      using append_take_drop_id [of i "cm_xml mem"] x(1) by (simp add: pre_def)
    then have m: "mem = sheet_mem (pre @ s @ 0 # post) (cm_str mem)" by (cases mem) simp
    have frame: "k < length pre \<or> length pre + length s < k \<Longrightarrow> (pre @ u @ post) ! k = (pre @ s @ 0 # post) ! k"
      if "length u = Suc (length s)" for u k
      using that by (auto simp: nth_append nth_Cons')
    show ?thesis
    proof (cases "cell_text tn is z s")
      case (Inl e)
      then show ?thesis using convert_xml [OF x(2) ty assms(6), of pre post "cm_str mem"] True l m by simp
    next
      case (Inr t)
      then obtain u where u: "convert ty p mem = Some (Inr (t, sheet_mem (pre @ u @ post) (cm_str mem)))" "length u = Suc (length s)" "0 \<notin> set t"
        using convert_xml [OF x(2) ty assms(6), of pre post "cm_str mem"] True l m by auto
      have "sheet_mem (pre @ u @ post) (cm_str mem) = mem\<lparr>cm_xml := pre @ u @ post\<rparr>" by simp
      moreover have "\<forall>k. p = Xml i \<and> i \<le> k \<and> k \<le> i + length s \<or> (pre @ u @ post) ! k = cm_xml mem ! k"
        using frame [OF u(2)] True l unfolding xm by (metis not_le)
      ultimately show ?thesis using u Inr xm by (auto intro!: exI [of _ "pre @ u @ post"])
    qed
  next
    case False
    then have p: "p = Lit_empty \<or> p = Str (Buf q)" "unaltered tn s" using assms(5) by auto
    note c = convert_held_text [OF held_shared [OF p(1) assms(4)] ty p(2) assms(6)]
    show ?thesis using c by (cases "cell_text tn is z s") (auto intro!: exI [of _ "cm_xml mem"])
  qed
  note conv = this
  show ?thesis
  proof (cases "cell_text tn is z s")
    case (Inl e)
    then show ?thesis using conv by (simp add: convert_cell_def)
  next
    case (Inr t)
    then obtain xml where x: "convert ty p mem = Some (Inr (t, mem\<lparr>cm_xml := xml\<rparr>))" "length xml = length (cm_xml mem)"
        "\<forall>k. p = Xml i \<and> i \<le> k \<and> k \<le> i + length s \<or> xml ! k = cm_xml mem ! k" "0 \<notin> set t"
      using conv by auto
    have "intern_room (cm_str mem) (Suc 0) (length t + 0)" using assms(7) [OF Inr] by simp
    from getStr_step [OF assms(1) x(4) this] obtain r st' where "getStr t (cm_str mem) = Some (Inr (r, st'))" "intern_ok st'"
        "r \<in> ptrs st'" "ptr_str st' r = Some t" "grows (cm_str mem) st'" by metis
    then show ?thesis using x Inr by (auto simp: convert_cell_def)
  qed
qed

text \<open>
  \<open>{a}\<close> in a column of type \<open>tbstr\<close>, the text of the sheet at the byte 2; and the shared string \<open>a b\<close> in a
  column of type \<open>string\<close>, which it keeps.
\<close>

theorem convert_cell_converts_witness:
  "(\<exists>r mem. convert_cell (Fix 4) (Xml 2) (sheet_mem [60, 118, 123, 97, 125, 0, 60] intern_init) = Some (Inr (r, mem)) \<and>
     ptr_str (cm_str mem) r = Some [123, 34, 97, 34, 125] \<and> cm_xml mem ! 6 = 60) \<and>
   (\<exists>r mem. convert_cell (Fix 2) (Str (Buf 0)) (sheet_mem [] \<lparr>in_set = [0], in_buf = [97, 32, 98, 0]\<rparr>) = Some (Inr (r, mem)) \<and>
     ptr_str (cm_str mem) r = Some [97, 32, 98])"
proof (rule conjI)
  let ?mem = "sheet_mem [60, 118, 123, 97, 125, 0, 60] intern_init"
  have l: "letter 97" by (simp add: letter_def opener_def ender_def)
  let ?is = "[([123], [97], 125)]" and ?z = "([], [])"
  have i: "items_legal ?is ?z"
    by (simp add: items_legal_def legal_before_def legal_token_def plain_def opener_def ender_def)
  have u: "unescape [123, 97, 125] = [123, 97, 125]" by (simp add: unescape_def replace_all.simps)
  have q: "items_quoted ?is ?z = [123, 34, 97, 34, 125]" by (simp add: quoted_def has_letter_def l)
  have "tidied [123, 34, 97, 34, 125] = Inr [123, 34, 97, 34, 125]" by code_simp
  then have c: "cell_text tn_tbstr ?is ?z [123, 97, 125] = Inr [123, 34, 97, 34, 125]"
    unfolding cell_text_cases(4) q by simp
  have s: "cell_string ?mem (Xml 2) = Some [123, 97, 125]"
    by (simp add: cell_string_def string_at_def strlen_at_def block_at_def)
  have t: "Fix 4 \<in> ptrs (cm_str ?mem)" "ptr_str (cm_str ?mem) (Fix 4) = Some tn_tbstr"
    by (simp_all add: ptrs_def ptr_str_fix) (simp add: fix_strings_def tn_defs)
  have ok: "intern_ok (cm_str ?mem)" using intern_init_ok by simp
  have room: "intern_room (cm_str ?mem) 1 (length t)" if "cell_text tn_tbstr ?is ?z [123, 97, 125] = Inr t" for t
    using that unfolding c by (auto simp: intern_room_def intern_init_def)
  have p: "Xml 2 = Xml 2 \<or> (Xml 2 = Lit_empty \<or> Xml 2 = Str (Buf 0)) \<and> unaltered tn_tbstr [123, 97, 125]" by simp
  have it: "tn_tbstr = tn_tbstr \<Longrightarrow> items_legal ?is ?z \<and> items_bytes ?is ?z = unescape [123, 97, 125]" using i u by simp
  from convert_cell_converts [OF ok t s p it room, unfolded c sum.case] obtain r mem where
    r: "convert_cell (Fix 4) (Xml 2) ?mem = Some (Inr (r, mem))" "ptr_str (cm_str mem) r = Some [123, 34, 97, 34, 125]"
      "\<forall>k. Xml 2 = Xml 2 \<and> 2 \<le> k \<and> k \<le> 2 + length [123, 97, 125 :: byte] \<or> cm_xml mem ! k = cm_xml ?mem ! k" by blast
  have "cm_xml mem ! 6 = 60" using r(3) [rule_format, of 6] by simp
  with r show "\<exists>r mem. convert_cell (Fix 4) (Xml 2) ?mem = Some (Inr (r, mem)) \<and>
     ptr_str (cm_str mem) r = Some [123, 34, 97, 34, 125] \<and> cm_xml mem ! 6 = 60" by blast
next
  let ?mem = "sheet_mem [] \<lparr>in_set = [0], in_buf = [97, 32, 98, 0]\<rparr>"
  have u: "unescape [97, 32, 98] = [97, 32, 98]" by (simp add: unescape_def replace_all.simps)
  have n: "newlines [97, 32, 98] = [97, 32, 98]" by (simp add: newlines_def replace_all.simps)
  have c: "cell_text tn_string [] ([], []) [97, 32, 98] = Inr [97, 32, 98]" by (simp add: cell_text_cases u n)
  have sa: "string_at [97, 32, 98, 0 :: byte] 0 = Some [97, 32, 98]"
    by (simp add: string_at_def strlen_at_def block_at_def)
  have s: "cell_string ?mem (Str (Buf 0)) = Some [97, 32, 98]" by (simp add: cell_string_def ptr_str_def sa)
  have t: "Fix 2 \<in> ptrs (cm_str ?mem)" "ptr_str (cm_str ?mem) (Fix 2) = Some tn_string"
    by (simp_all add: ptrs_def ptr_str_fix) (simp add: fix_strings_def tn_defs)
  have ok: "intern_ok (cm_str ?mem)" unfolding intern_ok_def
    by (intro exI [of _ "[[97, 32, 98]]"]) (simp add: intern_has_def sa fix_strings_def)
  have k: "unaltered tn_string [97, 32, 98]" using u n by (simp add: unaltered_def tn_defs)
  then have p: "Str (Buf 0) = Xml 0 \<or> (Str (Buf 0) = Lit_empty \<or> Str (Buf 0) = Str (Buf 0)) \<and> unaltered tn_string [97, 32, 98]" by simp
  have it: "tn_string = tn_tbstr \<Longrightarrow> items_legal [] ([], []) \<and> items_bytes [] ([], []) = unescape [97, 32, 98]" by (simp add: tn_defs)
  have room: "intern_room (cm_str ?mem) 1 (length t)" if "cell_text tn_string [] ([], []) [97, 32, 98] = Inr t" for t
    using that unfolding c by (auto simp: intern_room_def)
  from convert_cell_converts [OF ok t s p it room, unfolded c sum.case]
  show "\<exists>r mem. convert_cell (Fix 2) (Str (Buf 0)) ?mem = Some (Inr (r, mem)) \<and> ptr_str (cm_str mem) r = Some [97, 32, 98]" by blast
qed

section \<open>What a conversion returns\<close>

text \<open>As long as the strings that are shared are kept, the conversion of a cell changes the string table only by adding to it.\<close>

lemma getStr_grows:
  assumes "intern_ok st" "0 \<notin> set s" "getStr s st = Some (Inr (p, st'))"
  shows "intern_ok st'" "p \<in> ptrs st'" "ptr_str st' p = Some s" "grows st st'"
proof -
  obtain ws where ws: "intern_has st ws" using assms(1) by (auto simp: intern_ok_def)
  obtain more where g: "p \<in> ptrs st'" "ptr_str st' p = Some s" "intern_ok st'" "ptrs st \<subseteq> ptrs st'" "in_buf st' = in_buf st @ more"
    using getStr_cases [OF ws assms(2)] assms(3) by auto
  then show "intern_ok st'" "p \<in> ptrs st'" "ptr_str st' p = Some s" by simp_all
  show "grows st st'" using g(4,5) string_at_append by (auto simp: grows_def ptr_str_def split: str_ptr.splits)
qed

lemma cell_string_no_zero: "cell_string mem p = Some s \<Longrightarrow> 0 \<notin> set s"
proof -
  have f: "0 \<notin> set (fix_strings ! i)" if "i < 5" for i
  proof -
    have "\<forall>s \<in> set fix_strings. 0 \<notin> set s" by (simp add: fix_strings_def)
    then show ?thesis using that by simp
  qed
  assume "cell_string mem p = Some s"
  then show ?thesis using f string_at_no_zero
    by (auto simp: cell_string_def ptr_str_def load_def split: cell_ptr.splits str_ptr.splits if_splits)
qed

lemma ok_then_Inr: "ok_then r f = Some (Inr y) \<longleftrightarrow> (\<exists>x. r = Some (Inr x) \<and> f x = Some (Inr y))"
  by (simp add: ok_then_def split: option.splits sum.splits Option.bind_splits)

lemma edit_str: "\<forall>q. p \<noteq> Str q \<Longrightarrow> edit f p mem = Some (Inr mem') \<Longrightarrow> cm_str mem' = cm_str mem"
  by (auto simp: edit_def ok_then_Inr split: cell_ptr.splits if_splits)

lemma replace_each_str: "\<forall>q. p \<noteq> Str q \<Longrightarrow> replace_each bcs p mem = Some (Inr mem') \<Longrightarrow> cm_str mem' = cm_str mem"
  by (induction bcs p mem rule: replace_each.induct) (auto simp: ok_then_Inr dest!: edit_str)

lemma convert_str:
  assumes "convert ty p mem = Some (Inr (s, mem'))" "\<forall>q. p \<noteq> Str q"
  shows "cm_str mem' = cm_str mem"
proof -
  have e: "edit f p m = Some (Inr m') \<Longrightarrow> cm_str m' = cm_str m" for f m m' by (rule edit_str [OF assms(2)])
  have r: "replace_each bcs p m = Some (Inr m') \<Longrightarrow> cm_str m' = cm_str m" for bcs m m' by (rule replace_each_str [OF assms(2)])
  show ?thesis using assms(1)
    by (simp add: convert_def Let_def ok_then_Inr split: if_splits Option.bind_splits) (metis e r option.inject Inr_inject prod.inject)+
qed

lemma convert_result_no_zero: "convert ty p mem = Some (Inr (s, mem')) \<Longrightarrow> 0 \<notin> set s"
  by (auto simp: convert_def Let_def ok_then_Inr split: if_splits Option.bind_splits
      dest: cell_string_no_zero string_at_no_zero)

lemma edit_fix: "edit f (Str (Fix k)) mem = None"
  by (simp add: edit_def)

lemma convert_fix:
  assumes "convert ty (Str (Fix k)) mem = Some (Inr (s, mem'))"
  shows "mem' = mem"
  using assms unfolding convert_def Let_def xml_escapes_def replace_each.simps edit_fix by (auto simp: ok_then_Inr split: if_splits Option.bind_splits)

lemma convert_cell_grows:
  assumes "convert_cell ty p mem = Some (Inr (r, mem'))" "intern_ok (cm_str mem)" "ty \<in> ptrs (cm_str mem)" "ptr_str (cm_str mem) ty = Some tn"
    "\<And>q. p = Str q \<Longrightarrow> \<exists>t. ptr_str (cm_str mem) q = Some t \<and> unaltered tn t"
  shows "intern_ok (cm_str mem')" "grows (cm_str mem) (cm_str mem')"
proof -
  obtain s mem1 st where c: "convert ty p mem = Some (Inr (s, mem1))" "getStr s (cm_str mem1) = Some (Inr (r, st))" "mem' = mem1\<lparr>cm_str := st\<rparr>"
    using assms(1) by (auto simp: convert_cell_def ok_then_Inr)
  have m: "cm_str mem1 = cm_str mem"
  proof (cases p)
    case (Str q)
    show ?thesis
    proof (cases q)
      case (Fix k)
      then show ?thesis using convert_fix [of ty k mem s mem1] c(1) Str by simp
    next
      case (Buf b)
      obtain t where t: "cell_string mem p = Some t" "unaltered tn t" using assms(5) [OF Str] Str by (auto simp: cell_string_def)
      have h: "held mem p t" by (rule held_shared [OF _ t(1)]) (use Str Buf in simp)
      note conv = convert_held [OF h type_isI [OF assms(2-4)] t(2)]
      show ?thesis using conv [unfolded c(1), symmetric]
        by (cases "tidied t") (auto simp: ok_then_Inr split: if_splits Option.bind_splits)
    qed
  qed (use convert_str [OF c(1)] in simp_all)
  have ok: "intern_ok (cm_str mem1)" using assms(2) m by simp
  show "intern_ok (cm_str mem')" "grows (cm_str mem) (cm_str mem')"
    using getStr_grows(1,4) [OF ok convert_result_no_zero [OF c(1)] c(2)] m c(3) by simp_all
qed

section \<open>Strings that are shared\<close>

text \<open>
  A shared string that is the name of a type is a literal, which the conversion writes. A
  cell \<open>table\<close> in a column of plain text: no result.
\<close>

theorem convert_writes_literal:
  "getStr [116, 97, 98, 108, 101] st = Some (Inr (Fix 3, st))"
  "convert (Fix 1) (Str (Fix 3)) mem = None"
proof -
  show "getStr [116, 97, 98, 108, 101] st = Some (Inr (Fix 3, st))"
    by (simp add: getStr_def find_fix_def fix_strings_def strcmp.simps upt_conv_Cons)
  show "convert (Fix 1) (Str (Fix 3)) mem = None"
    by (simp add: convert_def xml_escapes_def edit_def Let_def)
qed

text \<open>
  A string of the table that is rewritten keeps its place in the sorted array. The table here has \<open>&lt;\<close> and \<open>0\<close>;
  after the cell \<open>&lt;\<close> has become \<open><\<close>, the search misses \<open>0\<close> and enters it again: equal
  strings have different pointers.
\<close>

theorem convert_breaks_order:
  assumes "st = \<lparr>in_set = [0, 5], in_buf = [38, 108, 116, 59, 0, 48, 0]\<rparr>"
  shows "intern_ok st" "getStr [48] st = Some (Inr (Buf 5, st))"
    "\<exists>mem. convert_cell (Fix 1) (Str (Buf 0)) (sheet_mem xml st) = Some (Inr (Buf 0, mem)) \<and>
       \<not> intern_ok (cm_str mem) \<and> (\<exists>st'. getStr [48] (cm_str mem) = Some (Inr (Buf 7, st')))"
proof -
  have n: "strlen [38, 108, 116, 59, 0, 48, 0 :: byte] = Some 4" by (simp add: strlen_at_def)
  note run = strReplace_def n str_replace_loop_steps str_terminate_def load_def store_def store_block_def blit_def block_at_def
  have r: "strReplace [38, 108, 116, 59, 0, 48, 0] [13] [] = Some (Inr [38, 108, 116, 59, 0, 48, 0])"
    "strReplace [38, 108, 116, 59, 0, 48, 0] [38, 97, 109, 112, 59] [38] = Some (Inr [38, 108, 116, 59, 0, 48, 0])"
    "strReplace [38, 108, 116, 59, 0, 48, 0] [38, 103, 116, 59] [62] = Some (Inr [38, 108, 116, 59, 0, 48, 0])"
    "strReplace [38, 108, 116, 59, 0, 48, 0] [38, 113, 117, 111, 116, 59] [34] = Some (Inr [38, 108, 116, 59, 0, 48, 0])"
    "strReplace [38, 108, 116, 59, 0, 48, 0] [38, 97, 112, 111, 115, 59] [39] = Some (Inr [38, 108, 116, 59, 0, 48, 0])"
    "strReplace [38, 108, 116, 59, 0, 48, 0] [38, 108, 116, 59] [60] = Some (Inr [60, 0, 116, 59, 0, 48, 0])"
    by (simp_all add: run)
  define st2 :: intern where "st2 = \<lparr>in_set = [0, 5], in_buf = [60, 0, 116, 59, 0, 48, 0]\<rparr>"
  have s: "string_at [38, 108, 116, 59, 0, 48, 0 :: byte] 0 = Some [38, 108, 116, 59]"
    "string_at [38, 108, 116, 59, 0, 48, 0 :: byte] 5 = Some [48]"
    "string_at [60, 0, 116, 59, 0, 48, 0 :: byte] 0 = Some [60]"
    "string_at [60, 0, 116, 59, 0, 48, 0 :: byte] 5 = Some [48]"
    by (simp_all add: string_at_def strlen_at_def block_at_def)
  have f: "find_fix [48] = None" "find_fix [60] = None"
    by (simp_all add: find_fix_none fix_strings_def)
  have c: "strcmp [48] [38, 108, 116, 59 :: byte] > 0" "strcmp [48] [48 :: byte] = 0" "strcmp [48] [60 :: byte] < 0" "strcmp [60] [60 :: byte] = 0"
    by (simp_all add: strcmp.simps)
  show "intern_ok st" unfolding intern_ok_def
    by (intro exI [of _ "[[38, 108, 116, 59], [48]]"]) (simp add: assms intern_has_def s fix_strings_def)
  show "getStr [48] st = Some (Inr (Buf 5, st))"
    by (simp add: getStr_def f assms intern_search.simps iload_def load_def s c)
  have "convert (Fix 1) (Str (Buf 0)) (sheet_mem xml st) = Some (Inr ([60], sheet_mem xml st2))"
    unfolding assms by (simp add: st2_def convert_def xml_escapes_def edit_def cell_string_def ptr_str_def s r)
  moreover have "getStr [60] st2 = Some (Inr (Buf 0, st2))"
    by (simp add: getStr_def f st2_def intern_search.simps iload_def load_def s c)
  moreover have "\<exists>st'. getStr [48] st2 = Some (Inr (Buf 7, st'))"
    by (simp add: getStr_def f st2_def intern_search.simps iload_def load_def s c intern_insert_def)
  moreover have "\<not> intern_ok st2"
    by (auto simp: intern_ok_def intern_has_def st2_def s Cons_eq_map_conv)
  ultimately show "\<exists>mem. convert_cell (Fix 1) (Str (Buf 0)) (sheet_mem xml st) = Some (Inr (Buf 0, mem)) \<and>
       \<not> intern_ok (cm_str mem) \<and> (\<exists>st'. getStr [48] (cm_str mem) = Some (Inr (Buf 7, st')))"
    by (auto simp: convert_cell_def)
qed

text \<open>
  And it changes for all that point to it. A cell \<open>a b\<close> in a column of tables loses its blank; a cell of the same shared
  string in a column of strings, already converted, loses it too.
\<close>

theorem convert_changes_shared:
  assumes "st = \<lparr>in_set = [0], in_buf = [97, 32, 98, 0]\<rparr>"
  shows "cell_text tn_string [] ([], []) [97, 32, 98] = Inr [97, 32, 98]" "ptr_str st (Buf 0) = Some [97, 32, 98]"
    "\<exists>mem. convert_cell (Fix 3) (Str (Buf 0)) (sheet_mem xml st) = Some (Inr (Buf 0, mem)) \<and>
       ptr_str (cm_str mem) (Buf 0) = Some [97, 98]"
proof -
  have k: "0 \<notin> set [97, 32, 98 :: byte]" by simp
  have e: "unescape [97, 32, 98] = [97, 32, 98]" "newlines [97, 32, 98] = [97, 32, 98]"
    by (simp_all add: unescape_def newlines_def replace_all.simps)
  then show "cell_text tn_string [] ([], []) [97, 32, 98] = Inr [97, 32, 98]" by (simp add: cell_text_cases)
  show "ptr_str st (Buf 0) = Some [97, 32, 98]"
    by (simp add: ptr_str_def assms string_at_def strlen_at_def block_at_def)
  have n: "strlen [97, 32, 98, 0 :: byte] = Some 3" by (simp add: strlen_at_def)
  note run = strReplace_def n str_replace_loop_steps str_terminate_def load_def store_def store_block_def blit_def block_at_def
  have r: "strReplace [97, 32, 98, 0] b c = Some (Inr [97, 32, 98, 0])" if "(b, c) \<in> set (xml_escapes @ xml_newline)" for b c
    using that by (auto simp: xml_escapes_def xml_newline_def run)
  have t: "tidied [97, 32, 98] = Inr [97, 98]" by code_simp
  obtain w where w: "removeSpace [97, 32, 98, 0] = Some (Inr ([97, 98] @ 0 # w))"
    using removeSpace_frame [OF k, of "[]"] t by auto
  have s: "string_at ([97, 98] @ 0 # w) 0 = Some [97, 98]" using string_at_mid [of "[97, 98]" "[]" w] by simp
  have f: "find_fix [97, 98] = None" by (simp add: find_fix_none fix_strings_def)
  have c: "strcmp [97, 98] [97, 98 :: byte] = 0" by (simp add: strcmp.simps)
  define st2 :: intern where "st2 = \<lparr>in_set = [0], in_buf = [97, 98] @ 0 # w\<rparr>"
  have "convert (Fix 3) (Str (Buf 0)) (sheet_mem xml st) = Some (Inr ([97, 98], sheet_mem xml st2))"
    unfolding assms using r w s
    by (simp add: st2_def convert_def xml_escapes_def xml_newline_def edit_def cell_string_def ptr_str_def)
  moreover have "getStr [97, 98] st2 = Some (Inr (Buf 0, st2))"
    using s f c by (simp add: getStr_def st2_def intern_search.simps iload_def load_def)
  moreover have "ptr_str st2 (Buf 0) = Some [97, 98]" using s by (simp add: ptr_str_def st2_def)
  ultimately show "\<exists>mem. convert_cell (Fix 3) (Str (Buf 0)) (sheet_mem xml st) = Some (Inr (Buf 0, mem)) \<and>
       ptr_str (cm_str mem) (Buf 0) = Some [97, 98]" by (auto simp: convert_cell_def)
qed

section \<open>Names that are replaced twice\<close>

text \<open>
  As \<open>&amp;\<close> is replaced first, what it leaves may be taken for another name: the text \<open>&lt;\<close>, which is
  written \<open>&amp;lt;\<close> in the file, becomes \<open><\<close>.
\<close>

lemma convert_unescapes_twice:
  "\<exists>mem. convert (Fix 1) (Xml 0) (sheet_mem (chars ''&amp;lt;'' @ [0]) intern_init) = Some (Inr (chars ''<'', mem))"
proof -
  have t: "type_is (Fix 1) tn_plain"
    by (rule type_isI [OF intern_init_ok]) (simp_all add: ptrs_def ptr_str_fix, simp add: fix_strings_def tn_defs)
  have u: "unescape (chars ''&amp;lt;'') = chars ''<''" by (simp add: unescape_def replace_all.simps)
  have z: "0 \<notin> set (chars ''&amp;lt;'')" by simp
  have n: "tn_plain = tn_tbstr \<Longrightarrow> items_legal [] ([], []) \<and> items_bytes [] ([], []) = unescape (chars ''&amp;lt;'')"
    by (simp add: tn_defs)
  from convert_xml [OF z t n, of "[]" "[]" intern_init] show ?thesis unfolding cell_text_cases u by auto
qed

end
