(* ===== verification/XlsxGrid.thy ===== *)
theory XlsxGrid
  imports XlsxCell XlsxNumber
begin

text \<open>
  From the cells of a sheet to a table (\<open>getVvs\<close> in \<open>myxml2/myxml2.cpp\<close>): the cells are entered in an array of 20000 rows of 128
  columns, the columns without a type or a name and the rows without an identifier are left out, the
  cells become strings, and double identifiers and names are refused. The array is a function from
  the flat index to the cell, because the column is not checked before a cell is stored; outside of it
  there is no result.
\<close>

section \<open>The cells of a sheet\<close>

type_synonym cells = "nat \<Rightarrow> cell_ptr"

definition n_c :: bytes where "n_c = [99]"
definition n_v :: bytes where "n_v = [118]"

text \<open>The library's \<open>atoi\<close>: decimal, cut to \<open>int\<close>.\<close>

definition atoi :: "bytes \<Rightarrow> int" where
  "atoi s =
     (let (neg, r) = c_sign (dropWhile c_space s); n = int (num_of 10 (takeWhile (is_digit 10) r))
      in s32 (if neg then max (- 9223372036854775808) (- n) else min 9223372036854775807 n))"

text \<open>The column: letters to base 26, and the rest. An overflow of the \<open>int\<close> has no result.\<close>

primrec col_number :: "bytes \<Rightarrow> int \<Rightarrow> (int \<times> bytes) option" where
  "col_number [] col = Some (col, [])"
| "col_number (c # cs) col =
     (if 65 \<le> c \<and> c \<le> 90 then
        let col1 = col * 26 + (sint c - 64) in if s32 col1 = col1 then col_number cs col1 else None
      else Some (col, c # cs))"

primrec shared_index :: "bytes \<Rightarrow> int \<Rightarrow> int option" where
  "shared_index [] acc = Some acc"
| "shared_index (c # cs) acc =
     (let ten = acc * 10; acc1 = ten + (sint c - 48)
      in if s32 ten = ten \<and> s32 acc1 = acc1 then shared_index cs acc1 else None)"

text \<open>The array, \<open>*n\<close>, \<open>*m\<close>, \<open>col\<close>, \<open>rowOld\<close>, and \<open>ist\<close> once it is initialised.\<close>

record filling =
  fi_cells :: cells
  fi_n :: nat
  fi_m :: nat
  fi_col :: int
  fi_row :: int
  fi_ist :: "bool option"

definition put_cell :: "int \<Rightarrow> cell_ptr \<Rightarrow> cells \<Rightarrow> cells option" where
  "put_cell i p cells = (if 0 \<le> i \<and> i < 2560000 then Some (cells(nat i := p)) else None)"

definition fill_c :: "bytes \<Rightarrow> dot \<Rightarrow> filling \<Rightarrow> (xlsx_error + filling) option" where
  "fill_c xml d g = do {
     (k, q) \<leftarrow> load (d_vkv d) 0;
     s \<leftarrow> string_at xml q;
     (col, rest) \<leftarrow> col_number s 0;
     let row = atoi rest;
     if row < fi_row g then Some (Inl Err_row_order)
     else if fi_row g < row \<and> 20000 \<le> fi_n g then Some (Inl Err_many_rows)
     else do {
       ist \<leftarrow> (case load (d_vkv d) 1 of
           None \<Rightarrow> Some False
         | Some (k, q) \<Rightarrow> do { t \<leftarrow> string_at xml q; Some (t = [115]) });
       Some (Inr (g\<lparr>fi_n := (if fi_row g < row then fi_n g + 1 else fi_n g), fi_col := col - 1, fi_row := row,
         fi_ist := Some ist\<rparr>))
     }
   }"

definition fill_v :: "bytes \<Rightarrow> str_ptr list \<Rightarrow> dot \<Rightarrow> filling \<Rightarrow> (xlsx_error + filling) option" where
  "fill_v xml vs d g = do {
     t \<leftarrow> text_view xml (d_text d);
     ist \<leftarrow> fi_ist g;
     let i = (int (fi_n g) - 1) * 128 + fi_col g;
     cells \<leftarrow> (if ist then do {
           k \<leftarrow> shared_index t 0;
           p \<leftarrow> iload vs k;
           put_cell i (Str p) (fi_cells g)
         }
         else case d_text d of
             Text_at q \<Rightarrow> if t \<noteq> [] then put_cell i (Xml q) (fi_cells g) else Some (fi_cells g)
           | _ \<Rightarrow> Some (fi_cells g));
     Some (if int (fi_m g) \<le> fi_col g then
         if 128 < fi_col g + 1 then Inl Err_many_cols
         else Inr (g\<lparr>fi_cells := cells, fi_m := nat (fi_col g + 1)\<rparr>)
       else Inr (g\<lparr>fi_cells := cells\<rparr>))
   }"

fun fill_loop :: "bytes \<Rightarrow> str_ptr list \<Rightarrow> dot list \<Rightarrow> filling \<Rightarrow> (xlsx_error + filling) option" where
  "fill_loop xml vs [] g = Some (Inr g)"
| "fill_loop xml vs (d # ds) g =
     ok_then (if d_name d = n_c then fill_c xml d g else if d_name d = n_v then fill_v xml vs d g else Some (Inr g))
       (fill_loop xml vs ds)"

definition fill_init :: filling where
  "fill_init = \<lparr>fi_cells = (\<lambda>_. Null), fi_n = 0, fi_m = 0, fi_col = 0, fi_row = 0, fi_ist = None\<rparr>"

text \<open>
  A value is stored before its column is compared with the 128 there are: from a column far enough to the right on
  it is stored outside of the array, and the error is never reported.
\<close>

lemma fill_v_far_column:
  "fi_ist g = Some False \<Longrightarrow> 2560000 \<le> (int (fi_n g) - 1) * 128 + fi_col g \<Longrightarrow> d_text d = Text_at q \<Longrightarrow>
    string_at xml q = Some s \<Longrightarrow> s \<noteq> [] \<Longrightarrow> fill_v xml vs d g = None"
  by (simp add: fill_v_def text_view_def put_cell_def Let_def)

section \<open>Columns and rows left out\<close>

text \<open>The test of a cell: it is there and not the empty string.\<close>

definition cell_full :: "cells_mem \<Rightarrow> cell_ptr \<Rightarrow> bool option" where
  "cell_full mem p = (if p = Null then Some False else do { s \<leftarrow> cell_string mem p; Some (s \<noteq> []) })"

text \<open>The array \<open>f\<close>, whose first element \<open>f0\<close> is not initialised, and the heads moved together.\<close>

fun pack_heads :: "cells_mem \<Rightarrow> nat list \<Rightarrow> nat \<Rightarrow> cells \<Rightarrow> bool list \<Rightarrow> (cells \<times> bool list) option" where
  "pack_heads mem [] len cells f = Some (cells, f)"
| "pack_heads mem (i # is) len cells f = do {
     a \<leftarrow> cell_full mem (cells i);
     b \<leftarrow> (if a then cell_full mem (cells (128 + i)) else Some False);
     if b then pack_heads mem is (len + 1)
       (if len < i then cells(len := cells i, 128 + len := cells (128 + i)) else cells) (f @ [True])
     else pack_heads mem is len cells (f @ [False])
   }"

fun trim_cols :: "bool list \<Rightarrow> nat \<Rightarrow> nat" where
  "trim_cols f 0 = 0"
| "trim_cols f (Suc m) = (if f ! m then Suc m else trim_cols f m)"

fun pack_row :: "nat \<Rightarrow> bool list \<Rightarrow> nat list \<Rightarrow> nat \<Rightarrow> cells \<Rightarrow> cells \<times> nat" where
  "pack_row i f [] jj cells = (cells, jj)"
| "pack_row i f (j # js) jj cells =
     (if f ! j then pack_row i f js (jj + 1) (cells(i * 128 + jj := cells (i * 128 + j)))
      else pack_row i f js jj cells)"

definition copy_row :: "nat \<Rightarrow> nat \<Rightarrow> cells \<Rightarrow> cells" where
  "copy_row ii i cells = (\<lambda>x. if x div 128 = ii then cells (i * 128 + x mod 128) else cells x)"

fun pack_rows :: "cells_mem \<Rightarrow> bool list \<Rightarrow> nat \<Rightarrow> nat list \<Rightarrow> nat \<Rightarrow> nat \<Rightarrow> cells \<Rightarrow> (cells \<times> nat \<times> nat) option" where
  "pack_rows mem f m [] ii jj cells = Some (cells, ii, jj)"
| "pack_rows mem f m (i # is) ii jj cells = do {
     a \<leftarrow> cell_full mem (cells (i * 128));
     if a then
       let (cells1, jj1) = pack_row i f [1..<m] 1 cells in pack_rows mem f m is (ii + 1) jj1 (copy_row ii i cells1)
     else pack_rows mem f m is ii jj cells
   }"

definition fill_empty :: "nat \<Rightarrow> nat \<Rightarrow> cells \<Rightarrow> cells" where
  "fill_empty n m cells = (\<lambda>x. if x div 128 < n \<and> x mod 128 < m \<and> cells x = Null then Lit_empty else cells x)"

text \<open>The array, and the new numbers of rows and columns.\<close>

definition pack_cells :: "bool \<Rightarrow> cells_mem \<Rightarrow> nat \<Rightarrow> nat \<Rightarrow> cells \<Rightarrow> (cells \<times> nat \<times> nat) option" where
  "pack_cells f0 mem n m cells = do {
     (cells1, f) \<leftarrow> pack_heads mem [1..<m] 1 cells [f0];
     (cells2, n2, m2) \<leftarrow> pack_rows mem f (trim_cols f m) [3..<n] 2 1 cells1;
     Some (fill_empty n2 m2 cells2, n2, m2)
   }"

section \<open>The strings, and the table\<close>

fun intern_cells :: "nat list \<Rightarrow> cells \<Rightarrow> cells_mem \<Rightarrow> (xlsx_error + cells \<times> cells_mem) option" where
  "intern_cells [] cells mem = Some (Inr (cells, mem))"
| "intern_cells (x # xs) cells mem = do {
     s \<leftarrow> cell_string mem (cells x);
     ok_then (getStr s (cm_str mem)) (\<lambda>(p, st). intern_cells xs (cells(x := Str p)) (mem\<lparr>cm_str := st\<rparr>))
   }"

fun convert_cols :: "nat \<Rightarrow> nat list \<Rightarrow> cells \<Rightarrow> cells_mem \<Rightarrow> (xlsx_error + cells \<times> cells_mem) option" where
  "convert_cols i [] cells mem = Some (Inr (cells, mem))"
| "convert_cols i (j # js) cells mem =
     (case cells j of
        Str ty \<Rightarrow> ok_then (convert_cell ty (cells (i * 128 + j)) mem)
          (\<lambda>(q, mem). convert_cols i js (cells(i * 128 + j := Str q)) mem)
      | _ \<Rightarrow> None)"

fun convert_rows :: "nat \<Rightarrow> nat list \<Rightarrow> cells \<Rightarrow> cells_mem \<Rightarrow> (xlsx_error + cells \<times> cells_mem) option" where
  "convert_rows m [] cells mem = Some (Inr (cells, mem))"
| "convert_rows m (i # is) cells mem =
     ok_then (intern_cells [i * 128] cells mem) (\<lambda>(cells, mem).
       ok_then (convert_cols i [1..<m] cells mem) (\<lambda>(cells, mem). convert_rows m is cells mem))"

text \<open>A row of the array, when all of its cells are strings.\<close>

definition row_ptrs :: "cells \<Rightarrow> nat \<Rightarrow> nat \<Rightarrow> str_ptr list option" where
  "row_ptrs cells m i = those (map (\<lambda>j. case cells (i * 128 + j) of Str p \<Rightarrow> Some p | _ \<Rightarrow> None) [0..<m])"

fun same_next :: "'a list \<Rightarrow> bool" where
  "same_next (x # y # xs) = (x = y \<or> same_next (y # xs))"
| "same_next _ = False"

text \<open>\<open>qsort\<close> with the difference of the addresses sorts by \<open>addr\<close>; what is equal is the same.\<close>

definition has_same :: "(str_ptr \<Rightarrow> int) \<Rightarrow> str_ptr list \<Rightarrow> bool" where
  "has_same addr ps = same_next (sort_key addr ps)"

fun copy_table :: "nat \<Rightarrow> str_ptr list list \<Rightarrow> nat \<Rightarrow> xlsx_error + nat" where
  "copy_table m [] used = Inr used"
| "copy_table m (r # rs) used = (if 4194304 < used + m * 8 then Inl Err_memory else copy_table m rs (used + m * 8))"

text \<open>The checks of the end, and the memory \<open>vvsMem\<close> of which \<open>used\<close> bytes are in use.\<close>

definition check_table :: "(str_ptr \<Rightarrow> int) \<Rightarrow> nat \<Rightarrow> str_ptr list list \<Rightarrow> nat \<Rightarrow> xlsx_error + nat" where
  "check_table addr m rows used =
     (let n = length rows
      in if 20000 < n - 2 then Inl Err_many_rows
      else if has_same addr (map hd (drop 2 rows)) then Inl Err_same_id
      else if 20000 < m - 1 then Inl Err_many_cols
      else if has_same addr (tl (rows ! 1)) then Inl Err_same_name
      else if 4194304 < used + n * 8 then Inl Err_memory
      else copy_table m rows (used + n * 8))"

definition getVvs ::
    "bool \<Rightarrow> (str_ptr \<Rightarrow> int) \<Rightarrow> str_ptr list \<Rightarrow> bytes \<Rightarrow> intern \<Rightarrow> nat \<Rightarrow>
     (xlsx_error + str_ptr list list \<times> intern \<times> nat) option" where
  "getVvs f0 addr vs buf st used =
     ok_then (getXml buf) (\<lambda>x.
       ok_then (fill_loop (x_buf x) vs (x_dots x) fill_init) (\<lambda>g.
         if fi_n g < 2 then Some (Inl Err_few_rows)
         else do {
           (cells, n, m) \<leftarrow> pack_cells f0 \<lparr>cm_xml = x_buf x, cm_str = st\<rparr> (fi_n g) (fi_m g) (fi_cells g);
           ok_then (intern_cells ([0..<m] @ map ((+) 128) [0..<m]) cells \<lparr>cm_xml = x_buf x, cm_str = st\<rparr>) (\<lambda>(cells, mem).
             ok_then (convert_rows m [2..<n] cells mem) (\<lambda>(cells, mem). do {
               rows \<leftarrow> those (map (row_ptrs cells m) [0..<n]);
               ok_then (Some (check_table addr m rows used)) (\<lambda>used. Some (Inr (rows, cm_str mem, used)))
             }))
         }))"

section \<open>What is left\<close>

text \<open>The cells \<open>js\<close> of a row, whose cells begin at \<open>b\<close>, moved together from the column \<open>len\<close> on.\<close>

definition gather :: "nat \<Rightarrow> nat \<Rightarrow> nat list \<Rightarrow> cells \<Rightarrow> cells" where
  "gather b len js cells = (\<lambda>x. if b + len \<le> x \<and> x < b + len + length js then cells (b + js ! (x - b - len)) else cells x)"

lemma gather_Nil [simp]: "gather b len [] cells = cells"
  by (rule ext) (auto simp: gather_def)

lemma gather_Cons:
  assumes "\<forall>k \<in> set js. len < k"
  shows "gather b len (j # js) cells = gather b (len + 1) js (cells(b + len := cells (b + j)))"
proof
  fix x
  have "js ! i \<noteq> len" if "i < length js" for i using assms nth_mem [OF that] by blast
  moreover have "x - b - len = Suc (x - b - Suc len)" if "b + len \<le> x" "x \<noteq> b + len" using that by simp
  ultimately show "gather b len (j # js) cells x = gather b (len + 1) js (cells(b + len := cells (b + j))) x"
    by (auto simp: gather_def)
qed

lemma pack_row_gathers:
  "sorted_wrt (<) js \<Longrightarrow> \<forall>j \<in> set js. jj \<le> j \<Longrightarrow>
    pack_row i f js jj cells = (gather (i * 128) jj (filter ((!) f) js) cells, jj + length (filter ((!) f) js))"
proof (induction js arbitrary: jj cells)
  case (Cons j js)
  have n: "\<forall>k \<in> set js. jj < k" using Cons.prems by fastforce
  then have "\<forall>k \<in> set (filter ((!) f) js). jj < k" by simp
  then show ?case using Cons.IH [of "if f ! j then jj + 1 else jj"] Cons.prems n gather_Cons
    by (auto simp: Suc_le_eq)
qed simp

lemma strict_length:
  assumes "sorted_wrt (<) js" "\<forall>k \<in> set js. len < k \<and> k < (n :: nat)"
  shows "length js \<le> n - Suc len"
proof -
  have "distinct js" using assms(1) by (simp add: strict_sorted_iff)
  then have "length js = card (set js)" by (simp add: distinct_card)
  also have "\<dots> \<le> card {Suc len..<n}" by (rule card_mono) (use assms(2) in auto)
  finally show ?thesis by simp
qed

abbreviation full :: "cells_mem \<Rightarrow> cell_ptr \<Rightarrow> bool" where
  "full mem p \<equiv> cell_full mem p = Some True"

text \<open>A column with a type and a name.\<close>

definition good_col :: "cells_mem \<Rightarrow> cells \<Rightarrow> nat \<Rightarrow> bool" where
  "good_col mem cells i \<longleftrightarrow> full mem (cells i) \<and> full mem (cells (128 + i))"

lemma pack_heads_gathers:
  "sorted_wrt (<) is \<Longrightarrow> \<forall>i \<in> set is. len \<le> i \<and> i < 128 \<Longrightarrow>
    \<forall>i \<in> set is. cell_full mem (cells i) \<noteq> None \<and> cell_full mem (cells (128 + i)) \<noteq> None \<Longrightarrow>
    pack_heads mem is len cells f =
      (let js = filter (good_col mem cells) is
       in Some (gather 128 len js (gather 0 len js cells), f @ map (good_col mem cells) is))"
proof (induction "is" arbitrary: len cells f)
  case (Cons i "is")
  have i: "len \<le> i" "i < 128" and n: "\<forall>k \<in> set is. len < k \<and> k < 128 \<and> i < k" using Cons.prems(1,2) by fastforce+
  have r: "cell_full mem (cells i) \<noteq> None" "cell_full mem (cells (128 + i)) \<noteq> None" using Cons.prems(3) by simp_all
  have step: "pack_heads mem (i # is) len cells f =
      (if good_col mem cells i then pack_heads mem is (len + 1)
         (if len < i then cells(len := cells i, 128 + len := cells (128 + i)) else cells) (f @ [True])
       else pack_heads mem is len cells (f @ [False]))"
    using r by (auto simp: good_col_def)
  show ?case
  proof (cases "good_col mem cells i")
    case False
    then show ?thesis unfolding step using Cons.IH [of len cells "f @ [False]"] Cons.prems by (simp add: Let_def)
  next
    case True
    define cells1 where "cells1 = cells(len := cells i, 128 + len := cells (128 + i))"
    have e: "(if len < i then cells1 else cells) = cells1" using i by (auto simp: cells1_def)
    have same: "\<forall>k \<in> set is. cells1 k = cells k \<and> cells1 (128 + k) = cells (128 + k)"
      using n i by (fastforce simp: cells1_def)
    then have g: "filter (good_col mem cells1) is = filter (good_col mem cells) is" "map (good_col mem cells1) is = map (good_col mem cells) is"
      by (auto simp: good_col_def intro!: filter_cong)
    define js where "js = filter (good_col mem cells) is"
    have js: "\<forall>k \<in> set js. len < k \<and> k < 128" using n by (simp add: js_def)
    have "pack_heads mem (i # is) len cells f = pack_heads mem is (len + 1) cells1 (f @ [True])"
      unfolding step by (simp only: True if_True e cells1_def [symmetric])
    also have "\<dots> = Some (gather 128 (len + 1) js (gather 0 (len + 1) js cells1), f @ True # map (good_col mem cells) is)"
      using Cons.IH [of "len + 1" cells1 "f @ [True]"] Cons.prems n same g by (fastforce simp: good_col_def Let_def js_def Suc_le_eq)
    also have "gather 128 (len + 1) js (gather 0 (len + 1) js cells1) = gather 128 len (i # js) (gather 0 len (i # js) cells)"
    proof -
      have "gather 0 len (i # js) cells = gather 0 (len + 1) js (cells(len := cells i))"
        using gather_Cons [of js len 0 i cells] js by simp
      moreover have "gather 128 len (i # js) X = gather 128 (len + 1) js (X(128 + len := X (128 + i)))" for X
        using gather_Cons [of js len 128 i X] js by simp
      moreover have "(gather 0 (len + 1) js (cells(len := cells i))) (128 + len := gather 0 (len + 1) js (cells(len := cells i)) (128 + i))
          = gather 0 (len + 1) js cells1"
      proof -
        have "length js \<le> 127 - len" using strict_length [of js len 128] js Cons.prems(1) by (simp add: js_def sorted_wrt_filter)
        then have l: "k < 128" if "k < len + 1 + length js" for k using that i by linarith
        have jl: "js ! k < 128" "js ! k > len" if "k < length js" for k using js nth_mem [OF that] by blast+
        show ?thesis
        proof
          fix x
          consider "len + 1 \<le> x" "x < len + 1 + length js" | "x = 128 + len" | "\<not> (len + 1 \<le> x \<and> x < len + 1 + length js)" "x \<noteq> 128 + len"
            by blast
          then show "((gather 0 (len + 1) js (cells(len := cells i))) (128 + len := gather 0 (len + 1) js (cells(len := cells i)) (128 + i))) x
              = gather 0 (len + 1) js cells1 x"
          proof cases
            case 1
            then have "x - Suc len < length js" by linarith
            then show ?thesis using 1 jl [of "x - Suc len"] l [OF 1(2)] by (auto simp: gather_def cells1_def)
          next
            case 2
            then show ?thesis using l [of "128 + len"] l [of "128 + i"] i by (auto simp: gather_def cells1_def)
          next
            case 3
            then show ?thesis by (auto simp: gather_def cells1_def)
          qed
        qed
      qed
      ultimately show ?thesis by simp
    qed
    finally show ?thesis using True by (simp del: pack_heads.simps add: js_def Let_def)
  qed
qed simp

lemma trim_cols_le: "trim_cols f m \<le> m"
  by (induction f m rule: trim_cols.induct) auto

lemma trim_cols_keeps: "filter ((!) f) [1..<trim_cols f m] = filter ((!) f) [1..<m]"
proof (induction f m rule: trim_cols.induct)
  case (2 f m)
  then show ?case by (cases m) auto
qed simp

lemma copy_row_at: "c < 128 \<Longrightarrow> copy_row ii i cells (k * 128 + c) = cells ((if k = ii then i else k) * 128 + c)"
  by (simp add: copy_row_def)

lemma gather_row:
  assumes "c < 128" "len + length js \<le> 128"
  shows "gather (i * 128) len js cells (k * 128 + c) =
    (if k = i \<and> len \<le> c \<and> c < len + length js then cells (i * 128 + js ! (c - len)) else cells (k * 128 + c))"
proof (cases "k = i")
  case False
  have "\<not> (i * 128 + len \<le> k * 128 + c \<and> k * 128 + c < i * 128 + len + length js)"
  proof (cases "k < i")
    case True
    then have "(k + 1) * 128 \<le> i * 128" by (intro mult_right_mono) auto
    then show ?thesis using assms(1) by simp
  next
    case F: False
    then have "(i + 1) * 128 \<le> k * 128" using False by (intro mult_right_mono) auto
    then show ?thesis using assms(2) by simp
  qed
  then show ?thesis using False by (auto simp: gather_def)
qed (simp add: gather_def)

lemma pack_rows_works:
  "sorted_wrt (<) is \<Longrightarrow> \<forall>i \<in> set is. ii < i \<and> cell_full mem (cells (i * 128)) \<noteq> None \<Longrightarrow>
    F = filter ((!) f) [1..<m] \<Longrightarrow> m \<le> 128 \<Longrightarrow> rows = filter (\<lambda>i. full mem (cells (i * 128))) is \<Longrightarrow>
    \<exists>cells'. pack_rows mem f m is ii jj cells = Some (cells', ii + length rows, if rows = [] then jj else 1 + length F) \<and>
      (\<forall>k < length rows. \<forall>c \<le> length F. cells' ((ii + k) * 128 + c) = cells (rows ! k * 128 + (0 # F) ! c)) \<and>
      (\<forall>k < ii. \<forall>c < 128. cells' (k * 128 + c) = cells (k * 128 + c))"
proof (induction "is" arbitrary: ii jj cells rows)
  case (Cons i "is")
  have i: "ii < i" "cell_full mem (cells (i * 128)) \<noteq> None" "\<forall>k \<in> set is. ii + 1 < k \<and> i < k" and s: "sorted_wrt (<) is"
    using Cons.prems(1,2) by fastforce+
  show ?case
  proof (cases "full mem (cells (i * 128))")
    case False
    then show ?thesis using Cons.IH [OF s, of ii cells rows jj] Cons.prems i by auto
  next
    case True
    have F: "\<forall>k \<in> set F. 1 \<le> k \<and> k < 128" "1 + length F \<le> 128"
    proof -
      show 1: "\<forall>k \<in> set F. 1 \<le> k \<and> k < 128" using Cons.prems(3,4) by auto
      have "sorted_wrt (<) F" unfolding Cons.prems(3) by (intro sorted_wrt_filter) simp
      then show "1 + length F \<le> 128" using strict_length [of F 0 128] 1 by fastforce
    qed
    define cells1 where "cells1 = gather (i * 128) 1 F cells"
    define cells2 where "cells2 = copy_row ii i cells1"
    have p: "pack_row i f [1..<m] 1 cells = (cells1, 1 + length F)"
      using pack_row_gathers [of "[1..<m]" 1 i f cells] Cons.prems(3) by (simp add: cells1_def)
    have c2: "cells2 (k * 128 + c) = (if k = ii then cells (i * 128 + (0 # F) ! c) else cells (k * 128 + c))"
      if "k \<noteq> i" "c \<le> length F" for k c
      using that F(2) i(1) by (auto simp: cells2_def cells1_def copy_row_at gather_row nth_Cons' Suc_le_eq)
    have c3: "cells2 (k * 128 + c) = cells (k * 128 + c)" if "k \<noteq> i" "k \<noteq> ii" "c < 128" for k c
      using that F(2) by (auto simp: cells2_def cells1_def copy_row_at gather_row)
    have same: "\<forall>k \<in> set is. cells2 (k * 128) = cells (k * 128)" using c3 [where c = 0] i by fastforce
    obtain rows' where rows: "rows = i # rows'" "rows' = filter (\<lambda>i. full mem (cells (i * 128))) is"
      using Cons.prems(5) True by simp
    then have rows': "rows' = filter (\<lambda>i. full mem (cells2 (i * 128))) is" using same by (auto intro: filter_cong)
    obtain cells' where r: "pack_rows mem f m is (ii + 1) (1 + length F) cells2 =
          Some (cells', ii + 1 + length rows', if rows' = [] then 1 + length F else 1 + length F)"
        "\<forall>k < length rows'. \<forall>c \<le> length F. cells' ((ii + 1 + k) * 128 + c) = cells2 (rows' ! k * 128 + (0 # F) ! c)"
        "\<forall>k < ii + 1. \<forall>c < 128. cells' (k * 128 + c) = cells2 (k * 128 + c)"
      using Cons.IH [OF s _ Cons.prems(3,4) rows', of "ii + 1" "1 + length F"] i(3) same Cons.prems(2) by fastforce
    have "pack_rows mem f m (i # is) ii jj cells = Some (cells', ii + length rows, if rows = [] then jj else 1 + length F)"
      using True p r(1) rows(1) by (simp add: cells2_def)
    moreover have "cells' ((ii + k) * 128 + c) = cells (rows ! k * 128 + (0 # F) ! c)"
      if "k < length rows" "c \<le> length F" for k c
    proof (cases k)
      case 0
      then show ?thesis using r(3) c2 [of ii c] that F(2) i(1) rows(1) by simp
    next
      case (Suc k')
      then have k': "rows' ! k' \<in> set is" using that(1) rows by (metis filter_is_subset length_Cons not_less_eq nth_mem subsetD)
      have "(0 # F) ! c < 128" using F(1) that(2) by (cases c) (auto simp: nth_mem)
      then have "cells2 (rows' ! k' * 128 + (0 # F) ! c) = cells (rows' ! k' * 128 + (0 # F) ! c)"
        using c3 k' i by fastforce
      then show ?thesis using r(2) Suc that rows(1) by (auto simp: add.assoc)
    qed
    moreover have "cells' (k * 128 + c) = cells (k * 128 + c)" if "k < ii" "c < 128" for k c
      using r(3) c3 [of k c] that i(1) by simp
    ultimately show ?thesis by blast
  qed
qed simp

text \<open>An empty cell becomes the empty string.\<close>

definition or_empty :: "cell_ptr \<Rightarrow> cell_ptr" where
  "or_empty p = (if p = Null then Lit_empty else p)"

lemma pack_cells_result:
  assumes "\<forall>x. cell_full mem (cells x) \<noteq> None" "m \<le> 128"
    "rows = filter (\<lambda>i. full mem (cells (i * 128))) [3..<n]"
    "cols = (if rows = [] then [] else filter (good_col mem cells) [1..<m])"
  shows "\<exists>cells'. pack_cells f0 mem n m cells = Some (cells', 2 + length rows, 1 + length cols) \<and>
    (\<forall>i < 2 + length rows. \<forall>j < 1 + length cols.
       cells' (i * 128 + j) = or_empty (cells ((0 # 1 # rows) ! i * 128 + (0 # cols) ! j)))"
proof -
  define F where "F = filter (good_col mem cells) [1..<m]"
  define cells1 where "cells1 = gather 128 1 F (gather 0 1 F cells)"
  define f where "f = [f0] @ map (good_col mem cells) [1..<m]"
  have h: "pack_heads mem [1..<m] 1 cells [f0] = Some (cells1, f)"
    using pack_heads_gathers [of "[1..<m]" 1 mem cells "[f0]"] assms(1,2) by (simp add: cells1_def f_def F_def Let_def)
  have "F = filter ((!) f) [1..<m]"
    by (auto simp: F_def f_def nth_Cons' intro!: filter_cong)
  then have fl: "F = filter ((!) f) [1..<trim_cols f m]" by (simp only: trim_cols_keeps)
  have F: "\<forall>k \<in> set F. 1 \<le> k \<and> k < 128" "1 + length F \<le> 128"
  proof -
    show 1: "\<forall>k \<in> set F. 1 \<le> k \<and> k < 128" using assms(2) by (auto simp: F_def)
    have "sorted_wrt (<) F" unfolding F_def by (intro sorted_wrt_filter) simp
    then show "1 + length F \<le> 128" using strict_length [of F 0 128] 1 by fastforce
  qed
  have rest: "cells1 (k * 128 + c) = cells (k * 128 + c)" if "2 \<le> k" for k c
  proof -
    have "2 * 128 \<le> k * 128" using that by (intro mult_right_mono) auto
    then show ?thesis using F(2) by (simp add: cells1_def gather_def)
  qed
  have heads: "cells1 (i * 128 + c) = cells (i * 128 + (0 # F) ! c)" if "i < 2" "c \<le> length F" for i c
  proof -
    have "(0 # F) ! c < 128" using F(1) that(2) by (cases c) (auto simp: nth_mem)
    moreover have "i = 0 \<or> i = Suc 0" using less_2_cases [OF that(1)] .
    ultimately show ?thesis using that(2) F(2)
      by (elim disjE) (auto simp: cells1_def gather_def nth_Cons' Suc_le_eq)
  qed
  have rows: "rows = filter (\<lambda>i. full mem (cells1 (i * 128))) [3..<n]"
    using rest [where c = 0] assms(3) by (auto intro!: filter_cong)
  have ok: "\<forall>i \<in> set [3..<n]. 2 < i \<and> cell_full mem (cells1 (i * 128)) \<noteq> None"
    using rest [where c = 0] assms(1) by auto
  obtain cells2 where r: "pack_rows mem f (trim_cols f m) [3..<n] 2 1 cells1 =
        Some (cells2, 2 + length rows, if rows = [] then 1 else 1 + length F)"
      "\<forall>k < length rows. \<forall>c \<le> length F. cells2 ((2 + k) * 128 + c) = cells1 (rows ! k * 128 + (0 # F) ! c)"
      "\<forall>k < 2. \<forall>c < 128. cells2 (k * 128 + c) = cells1 (k * 128 + c)"
    using pack_rows_works [OF _ ok fl _ rows, of 1] trim_cols_le [of f m] assms(2) by fastforce
  define m2 where "m2 = 1 + length cols"
  have m2: "m2 = (if rows = [] then 1 else 1 + length F)" "m2 \<le> 1 + length F" by (simp_all add: m2_def assms(4) F_def)
  have cols: "(0 # cols) ! j = (0 # F) ! j" if "j < m2" for j using that by (auto simp: m2_def assms(4) F_def split: if_splits)
  let ?cells = "fill_empty (2 + length rows) m2 cells2"
  have "pack_cells f0 mem n m cells = Some (?cells, 2 + length rows, m2)"
    using h r(1) by (simp add: pack_cells_def m2(1))
  moreover have "?cells (i * 128 + j) = or_empty (cells ((0 # 1 # rows) ! i * 128 + (0 # cols) ! j))"
    if "i < 2 + length rows" "j < m2" for i j
  proof -
    have j: "j < 128" "j \<le> length F" using that(2) m2(2) F(2) by linarith+
    have "?cells (i * 128 + j) = or_empty (cells2 (i * 128 + j))" using that j by (simp add: fill_empty_def or_empty_def)
    also have "cells2 (i * 128 + j) = cells ((0 # 1 # rows) ! i * 128 + (0 # F) ! j)"
    proof (cases "i < 2")
      case True
      moreover have "(0 # 1 # rows) ! i = i" using True by (cases i) (auto simp: less_2_cases_iff)
      ultimately show ?thesis using r(3) j heads by simp
    next
      case False
      then obtain k where k: "i = 2 + k" by (metis le_iff_add not_less)
      then have kr: "k < length rows" using that(1) by simp
      then have "rows ! k \<in> set [3..<n]" unfolding assms(3) by (metis filter_is_subset nth_mem subsetD)
      then show ?thesis using r(2) kr j(2) rest k by auto
    qed
    finally show ?thesis using cols [OF that(2)] by simp
  qed
  ultimately show ?thesis unfolding m2_def by blast
qed

text \<open>
  C16. Packing: the table has the first two rows, whatever they hold, and of the rows from the fourth on exactly
  those with an identifier; of its columns the first, and exactly those that have a type and a name, in their
  order. The third row is a comment. Each of its cells is the one that stood in its row and column before, although
  rows and columns are moved together in place; empty cells become empty strings. The element of \<open>f\<close> that
  is never set does not matter.
\<close>

theorem pack_cells_filters:
  assumes "\<forall>x. cell_full mem (cells x) \<noteq> None" "m \<le> 128"
    "rows = filter (\<lambda>i. full mem (cells (i * 128))) [3..<n]"
    "cols = (if rows = [] then [] else filter (good_col mem cells) [1..<m])"
  shows "\<exists>cells'. pack_cells f0 mem n m cells = Some (cells', 2 + length rows, 1 + length cols) \<and>
    (\<forall>i < 2 + length rows. \<forall>j < 1 + length cols.
       cells' (i * 128 + j) = or_empty (cells ((0 # 1 # rows) ! i * 128 + (0 # cols) ! j)))"
  by (rule pack_cells_result [OF assms])

text \<open>
  Five rows of four columns: of the columns after the first only the third has a type and a name, of the rows only the fourth an
  identifier. What stood in row 3, column 2 (from zero) is in row 2, column 1 of the table.
\<close>

theorem pack_cells_filters_witness:
  "\<exists>cells'. pack_cells True \<lparr>cm_xml = [97, 0], cm_str = intern_init\<rparr> 5 4
      ((\<lambda>_. Null)(0 := Xml 0, 2 := Xml 0, 3 := Xml 0, 130 := Xml 0, 384 := Xml 0, 386 := Xml 1)) = Some (cells', 3, 2) \<and>
    cells' 257 = Xml 1 \<and> cells' 128 = Lit_empty"
proof -
  define mem where "mem = \<lparr>cm_xml = [97, 0 :: byte], cm_str = intern_init\<rparr>"
  define cells :: cells where "cells = (\<lambda>_. Null)(0 := Xml 0, 2 := Xml 0, 3 := Xml 0, 130 := Xml 0, 384 := Xml 0, 386 := Xml 1)"
  have s: "string_at [97, 0 :: byte] 0 = Some [97]" "string_at [97, 0 :: byte] 1 = Some []" "string_at [97, 0 :: byte] (Suc 0) = Some []"
    by (simp_all add: string_at_def strlen_at_def block_at_def)
  have f: "cell_full mem Null = Some False" "cell_full mem (Xml 0) = Some True" "cell_full mem (Xml 1) = Some False"
    "cell_full mem (Xml (Suc 0)) = Some False"
    by (simp_all add: cell_full_def cell_string_def s mem_def)
  have r: "\<forall>x. cell_full mem (cells x) \<noteq> None" by (auto simp: f cells_def)
  have i: "[3] = filter (\<lambda>i. full mem (cells (i * 128))) [3..<5]" by (simp add: upt_conv_Cons f cells_def)
  have c: "[2] = (if [3 :: nat] = [] then [] else filter (good_col mem cells) [1..<4])"
    by (simp add: upt_conv_Cons f good_col_def cells_def)
  obtain cells' where p: "pack_cells True mem 5 4 cells = Some (cells', 2 + length [3 :: nat], 1 + length [2 :: nat])"
    and a: "\<forall>i < 2 + length [3 :: nat]. \<forall>j < 1 + length [2 :: nat]. cells' (i * 128 + j) =
      or_empty (cells ((0 # 1 # [3]) ! i * 128 + (0 # [2]) ! j))"
    using pack_cells_filters [OF r _ i c, of True] by auto
  have "cells' 257 = or_empty (cells 386)" using a [rule_format, of 2 1] by simp
  moreover have "cells' 128 = or_empty (cells 128)" using a [rule_format, of 1 0] by simp
  ultimately show ?thesis using p by (auto simp: or_empty_def cells_def mem_def)
qed

section \<open>Filling the array\<close>

text \<open>The name of a column, counted from zero.\<close>

function col_name :: "nat \<Rightarrow> bytes" where
  "col_name j = (if j < 26 then [of_nat (65 + j)] else col_name (j div 26 - 1) @ [of_nat (65 + j mod 26)])"
  by pat_completeness auto
termination by (relation "measure id") auto

declare col_name.simps [simp del]

lemma sint_small:
  assumes "unat (w :: byte) < 128"
  shows "sint w = int (unat w)"
proof -
  have "nat (uint w) < 128" using assms by simp
  then have "uint w < 128" "- 128 \<le> uint w" using uint_ge_0 [of w] by linarith+
  moreover have "sint w = signed_take_bit 7 (uint w)" by (simp add: sint_uint)
  ultimately show ?thesis using signed_take_bit_id [of 7 "uint w"] by simp
qed

lemma letter_value:
  assumes "i < 26"
  shows "65 \<le> (of_nat (65 + i) :: byte) \<and> (of_nat (65 + i) :: byte) \<le> 90 \<and> sint (of_nat (65 + i) :: byte) = 65 + int i"
proof -
  have u: "unat (of_nat (65 + i) :: byte) = 65 + i" using assms by (simp add: unat_of_nat del: of_nat_add)
  moreover have "sint (of_nat (65 + i) :: byte) = int (unat (of_nat (65 + i) :: byte))"
    using u assms by (simp add: sint_small del: of_nat_add)
  ultimately show ?thesis using assms by (simp add: word_le_nat_alt del: of_nat_add)
qed

lemma col_number_name:
  "int j < 2147483647 \<Longrightarrow> col_number (col_name j @ rest) 0 = col_number rest (int j + 1)"
proof (induction j arbitrary: rest rule: col_name.induct)
  case (1 j)
  show ?case
  proof (cases "j < 26")
    case True
    then show ?thesis using letter_value [OF True] by (simp add: col_name.simps [of j] add.commute del: of_nat_add)
  next
    case False
    have l: "j mod 26 < 26" by simp
    have e: "(int (j div 26 - 1) + 1) * 26 + (sint (of_nat (65 + j mod 26) :: byte) - 64) = int j + 1"
      using letter_value [OF l] False mod_mult_div_eq [of "int j" 26]
      by (simp add: of_nat_diff algebra_simps zdiv_int zmod_int del: of_nat_add)
    have "col_number (col_name j @ rest) 0 = col_number (of_nat (65 + j mod 26) # rest) (int (j div 26 - 1) + 1)"
      using 1(1) [OF False] 1(2) False by (simp add: col_name.simps [of j] del: of_nat_add)
    also have "\<dots> = col_number rest (int j + 1)"
      unfolding col_number.simps Let_def e using letter_value [OF l] 1(2) by (simp del: of_nat_add)
    finally show ?thesis .
  qed
qed

lemma is_digit_value:
  assumes "is_digit 10 c"
  shows "48 \<le> c \<and> c \<le> 57 \<and> the (digit_of c) = unat c - 48 \<and> sint c - 48 = int (unat c - 48) \<and> \<not> c_space c"
proof -
  have c: "48 \<le> c" "c \<le> 57"
    using assms by (auto simp: is_digit_def digit_of_def word_le_nat_alt split: if_splits)
  then have u: "48 \<le> unat c" "unat c \<le> 57" by (simp_all add: word_le_nat_alt)
  have "sint c = int (unat c)" using u by (simp add: sint_small)
  then show ?thesis using c u by (auto simp: digit_of_def c_space_def word_le_nat_alt)
qed

lemma shared_index_digits:
  "\<forall>c \<in> set cs. is_digit 10 c \<Longrightarrow> int (foldl (\<lambda>n c. 10 * n + the (digit_of c)) a cs) < 2147483648 \<Longrightarrow>
    shared_index cs (int a) = Some (int (foldl (\<lambda>n c. 10 * n + the (digit_of c)) a cs))"
proof (induction cs arbitrary: a)
  case (Cons c cs)
  have d: "the (digit_of c) = unat c - 48" "sint c - 48 = int (unat c - 48)" using is_digit_value Cons.prems(1) by auto
  have grow: "b \<le> foldl (\<lambda>n c. 10 * n + the (digit_of c)) b cs" for b
  proof (induction cs arbitrary: b)
    case (Cons x xs)
    have "b \<le> 10 * b + the (digit_of x)" by simp
    also note Cons.IH
    finally show ?case by simp
  qed simp
  define b where "b = 10 * a + the (digit_of c)"
  have "b < 2147483648" using grow [of b] Cons.prems(2) by (simp add: b_def)
  then have "s32 (int a * 10) = int a * 10" "s32 (int b) = int b" by (simp_all add: b_def)
  moreover have "int a * 10 + (sint c - 48) = int b" using d by (simp add: b_def)
  moreover have "shared_index cs (int b) = Some (int (foldl (\<lambda>n c. 10 * n + the (digit_of c)) b cs))"
    using Cons.IH [of b] Cons.prems by (simp add: b_def)
  ultimately show ?case by (simp add: Let_def b_def mult.commute [of "int a"])
qed simp

lemma atoi_digits:
  assumes "\<forall>c \<in> set cs. is_digit 10 c" "int (num_of 10 cs) < 2147483648"
  shows "atoi cs = int (num_of 10 cs)"
proof -
  have h: "\<not> c_space (hd cs) \<and> hd cs \<noteq> 45 \<and> hd cs \<noteq> 43" if "cs \<noteq> []"
    using is_digit_value [of "hd cs"] assms(1) that by (auto simp: word_le_nat_alt)
  have s: "dropWhile c_space cs = cs" "c_sign cs = (False, cs)"
    using h by (cases cs; simp add: c_sign_def)+
  have t: "takeWhile (is_digit 10) cs = cs" using assms(1) by (simp add: takeWhile_eq_all_conv)
  show ?thesis using assms(2) by (simp add: atoi_def s t)
qed

text \<open>
  A sheet as its file lists it: the rows with the digits of their numbers, and their cells with the
  column, the type if it has one, and the value if it has one. The string of the type \<open>s\<close> is the number of a
  shared string.
\<close>

type_synonym xcell = "nat \<times> bytes option \<times> bytes option"

fun cell_views :: "bytes \<Rightarrow> xcell \<Rightarrow> view list" where
  "cell_views ds (j, t, v) =
     (n_c, [], ([114], col_name j @ ds) # (case t of None \<Rightarrow> [] | Some t \<Rightarrow> [([116], t)])) #
       (case v of None \<Rightarrow> [] | Some s \<Rightarrow> [(n_v, s, [])])"

definition row_views :: "bytes \<times> xcell list \<Rightarrow> view list" where
  "row_views r = concat (map (cell_views (fst r)) (snd r))"

definition sheet_views :: "(bytes \<times> xcell list) list \<Rightarrow> view list" where
  "sheet_views rows = concat (map row_views rows)"

fun legal_cell :: "nat \<Rightarrow> xcell \<Rightarrow> bool" where
  "legal_cell k (j, t, v) \<longleftrightarrow> j < 128 \<and>
     (case v of Some s \<Rightarrow> t = Some [115] \<longrightarrow> (\<forall>c \<in> set s. is_digit 10 c) \<and> num_of 10 s < k | None \<Rightarrow> True)"

text \<open>The pointer that stands for a cell.\<close>

fun cell_holds :: "bytes \<Rightarrow> str_ptr list \<Rightarrow> cell_ptr \<Rightarrow> xcell \<Rightarrow> bool" where
  "cell_holds xml vs p (j, t, None) = (p = Null)"
| "cell_holds xml vs p (j, t, Some s) =
     (if t = Some [115] then p = Str (vs ! num_of 10 s)
      else if s = [] then p = Null
      else \<exists>q. p = Xml q \<and> string_at xml q = Some s)"

lemma dots_view_split:
  assumes "dots_view xml ds (v # vs)"
  obtains d ds' where "ds = d # ds'" "dot_view xml d = full_view v" "dots_view xml ds' vs"
  using assms that by (auto simp: dots_view_def Cons_eq_map_conv map_eq_Cons_conv)

lemma fill_cell:
  assumes ds: "dots_view xml ds (cell_views rd (j, t, v) @ vs')"
    and cell: "legal_cell (length vs) (j, t, v)" "length vs \<le> 65536"
    and row: "\<forall>c \<in> set rd. is_digit 10 c" "int (num_of 10 rd) < 2147483648" "fi_row g \<le> int (num_of 10 rd)"
    and n: "n = (if fi_row g < int (num_of 10 rd) then fi_n g + 1 else fi_n g)" "1 \<le> n" "n \<le> 20000"
    and free: "fi_cells g ((n - 1) * 128 + j) = Null"
  shows "\<exists>ds' p ist. dots_view xml ds' vs' \<and> cell_holds xml vs p (j, t, v) \<and>
    fill_loop xml vs ds g = fill_loop xml vs ds'
      \<lparr>fi_cells = (fi_cells g)((n - 1) * 128 + j := p), fi_n = n,
       fi_m = (if v = None then fi_m g else max (fi_m g) (j + 1)), fi_col = int j, fi_row = int (num_of 10 rd), fi_ist = ist\<rparr>"
proof -
  obtain d ds1 where d: "ds = d # ds1" "dot_view xml d = full_view (n_c, [], ([114], col_name j @ rd) # (case t of None \<Rightarrow> [] | Some t \<Rightarrow> [([116], t)]))"
      "dots_view xml ds1 ((case v of None \<Rightarrow> [] | Some s \<Rightarrow> [(n_v, s, [])]) @ vs')"
    by (rule dots_view_split [OF ds [unfolded cell_views.simps append_Cons]])
  define g1 where "g1 = \<lparr>fi_cells = fi_cells g, fi_n = n, fi_m = fi_m g, fi_col = int j, fi_row = int (num_of 10 rd),
    fi_ist = Some (t = Some [115])\<rparr>"
  obtain k q kvs where kv: "d_vkv d = (k, q) # kvs" "string_at xml q = Some (col_name j @ rd)"
      "map (\<lambda>(k, p). (k, string_at xml p)) kvs = (case t of None \<Rightarrow> [] | Some t \<Rightarrow> [([116], Some t)])" "d_name d = n_c"
    using d(2) by (auto simp: dot_view_def full_view_def Cons_eq_map_conv map_eq_Cons_conv split: option.splits)
  have j: "j < 128" using cell(1) by simp
  have cn: "col_number (col_name j @ rd) 0 = Some (int j + 1, rd)"
  proof -
    have "col_number rd (int j + 1) = Some (int j + 1, rd)"
      using row(1) is_digit_value [of "hd rd"] by (cases rd) (auto simp: word_le_nat_alt)
    then show ?thesis using col_number_name [of j rd] j by simp
  qed
  have "fill_c xml d g = Some (Inr g1)"
    using kv cn row n j by (cases t) (auto simp: fill_c_def load_def g1_def atoi_digits map_eq_Cons_conv)
  then have s1: "fill_loop xml vs ds g = fill_loop xml vs ds1 g1" using d(1) kv(4) by simp
  show ?thesis
  proof (cases v)
    case None
    then have "(fi_cells g)((n - 1) * 128 + j := Null) = fi_cells g" using free by auto
    then show ?thesis using s1 d(3) None by (intro exI [of _ ds1] exI [of _ Null]) (auto simp: g1_def)
  next
    case (Some s)
    have dv: "dots_view xml ds1 ((n_v, s, []) # vs')" using d(3) Some by simp
    obtain e ds2 where e: "ds1 = e # ds2" "dot_view xml e = full_view (n_v, s, [])" "dots_view xml ds2 vs'"
      by (rule dots_view_split [OF dv])
    then have ev: "d_name e = n_v" "text_view xml (d_text e) = Some s" by (auto simp: dot_view_def full_view_def)
    have i: "(int n - 1) * 128 + int j = int ((n - 1) * 128 + j)" using n(2) by (simp add: of_nat_diff)
    have small: "(n - 1) * 128 + j < 2560000" using n(3) j by simp
    have put: "put_cell ((int n - 1) * 128 + int j) p cells = Some (cells((n - 1) * 128 + j := p))" for p cells
      unfolding i using small by (simp add: put_cell_def del: of_nat_add of_nat_mult)
    have "\<exists>p. cell_holds xml vs p (j, t, v) \<and> fill_v xml vs e g1 =
        Some (Inr (g1\<lparr>fi_cells := (fi_cells g)((n - 1) * 128 + j := p), fi_m := max (fi_m g) (j + 1)\<rparr>))"
    proof (cases "t = Some [115]")
      case True
      then have s: "\<forall>c \<in> set s. is_digit 10 c" "num_of 10 s < length vs" using cell(1) Some by auto
      then have "shared_index s 0 = Some (int (num_of 10 s))"
        using shared_index_digits [of s 0] cell(2) by (simp add: num_of_def)
      then show ?thesis using True Some ev s small j
        by (auto simp: fill_v_def g1_def Let_def iload_def load_def put [simplified])
    next
      case False
      show ?thesis
      proof (cases "s = []")
        case True
        moreover have "(fi_cells g)((n - 1) * 128 + j := Null) = fi_cells g" using free by auto
        ultimately show ?thesis using False Some ev j
          by (intro exI [of _ Null]) (auto simp: fill_v_def g1_def Let_def split: text_ref.splits)
      next
        case ne: False
        then obtain q where q: "d_text e = Text_at q" "string_at xml q = Some s"
          using ev(2) by (auto simp: text_view_def split: text_ref.splits)
        then show ?thesis using False ne Some ev j small
          by (intro exI [of _ "Xml q"]) (auto simp: fill_v_def g1_def Let_def put [simplified])
      qed
    qed
    then obtain p where "cell_holds xml vs p (j, t, v)" "fill_v xml vs e g1 =
        Some (Inr (g1\<lparr>fi_cells := (fi_cells g)((n - 1) * 128 + j := p), fi_m := max (fi_m g) (j + 1)\<rparr>))" by blast
    then show ?thesis using s1 e ev Some by (intro exI [of _ ds2] exI [of _ p]) (auto simp: g1_def n_c_def n_v_def)
  qed
qed

text \<open>The width of a sheet: to the last column with a value.\<close>

definition cell_width :: "xcell \<Rightarrow> nat" where
  "cell_width c = (case c of (j, t, v) \<Rightarrow> if v = None then 0 else j + 1)"

definition sheet_width :: "(bytes \<times> xcell list) list \<Rightarrow> nat" where
  "sheet_width rows = fold max (map cell_width (concat (map snd rows))) 0"

definition legal_xrow :: "nat \<Rightarrow> bytes \<times> xcell list \<Rightarrow> bool" where
  "legal_xrow k r \<longleftrightarrow> (\<forall>c \<in> set (fst r). is_digit 10 c) \<and> int (num_of 10 (fst r)) < 2147483648 \<and>
     snd r \<noteq> [] \<and> (\<forall>c \<in> set (snd r). legal_cell k c) \<and> distinct (map fst (snd r))"

lemma fill_row:
  "dots_view xml ds (concat (map (cell_views rd) cs) @ vs') \<Longrightarrow>
    \<forall>c \<in> set cs. legal_cell (length vs) c \<Longrightarrow> distinct (map fst cs) \<Longrightarrow> length vs \<le> 65536 \<Longrightarrow>
    \<forall>c \<in> set rd. is_digit 10 c \<Longrightarrow> int (num_of 10 rd) < 2147483648 \<Longrightarrow> fi_row g \<le> int (num_of 10 rd) \<Longrightarrow>
    n = (if fi_row g < int (num_of 10 rd) then fi_n g + 1 else fi_n g) \<Longrightarrow> 1 \<le> n \<Longrightarrow> n \<le> 20000 \<Longrightarrow>
    cs \<noteq> [] \<or> fi_row g = int (num_of 10 rd) \<Longrightarrow> \<forall>c \<in> set cs. fi_cells g ((n - 1) * 128 + fst c) = Null \<Longrightarrow>
    \<exists>ds' g'. dots_view xml ds' vs' \<and> fill_loop xml vs ds g = fill_loop xml vs ds' g' \<and>
      fi_row g' = int (num_of 10 rd) \<and> fi_n g' = n \<and> fi_m g' = fold max (map cell_width cs) (fi_m g) \<and>
      (\<forall>c \<in> set cs. cell_holds xml vs (fi_cells g' ((n - 1) * 128 + fst c)) c) \<and>
      (\<forall>x. x \<notin> (\<lambda>c. (n - 1) * 128 + fst c) ` set cs \<longrightarrow> fi_cells g' x = fi_cells g x)"
proof (induction cs arbitrary: ds g)
  case Nil
  then show ?case by auto
next
  case (Cons c cs)
  obtain j t v where c: "c = (j, t, v)" by (cases c)
  obtain ds1 p ist where s: "dots_view xml ds1 (concat (map (cell_views rd) cs) @ vs')" "cell_holds xml vs p (j, t, v)"
      "fill_loop xml vs ds g = fill_loop xml vs ds1
        \<lparr>fi_cells = (fi_cells g)((n - 1) * 128 + j := p), fi_n = n,
         fi_m = (if v = None then fi_m g else max (fi_m g) (j + 1)), fi_col = int j, fi_row = int (num_of 10 rd), fi_ist = ist\<rparr>"
    using fill_cell [of xml ds rd j t v "concat (map (cell_views rd) cs) @ vs'" vs g n] Cons.prems c by auto
  define g1 where "g1 = \<lparr>fi_cells = (fi_cells g)((n - 1) * 128 + j := p), fi_n = n,
      fi_m = (if v = None then fi_m g else max (fi_m g) (j + 1)), fi_col = int j, fi_row = int (num_of 10 rd), fi_ist = ist\<rparr>"
  have m: "fi_m g1 = max (cell_width c) (fi_m g)" by (simp add: g1_def cell_width_def c max.commute)
  have "\<forall>c \<in> set cs. fi_cells g1 ((n - 1) * 128 + fst c) = Null" using Cons.prems(3,12) c by (auto simp: g1_def)
  then obtain ds' g' where r: "dots_view xml ds' vs'" "fill_loop xml vs ds1 g1 = fill_loop xml vs ds' g'"
      "fi_row g' = int (num_of 10 rd)" "fi_n g' = n" "fi_m g' = fold max (map cell_width cs) (fi_m g1)"
      "\<forall>c \<in> set cs. cell_holds xml vs (fi_cells g' ((n - 1) * 128 + fst c)) c"
      "\<forall>x. x \<notin> (\<lambda>c. (n - 1) * 128 + fst c) ` set cs \<longrightarrow> fi_cells g' x = fi_cells g1 x"
    using Cons.IH [OF s(1), of g1] Cons.prems by (auto simp: g1_def)
  have "(n - 1) * 128 + j \<notin> (\<lambda>c. (n - 1) * 128 + fst c) ` set cs" using Cons.prems(3) c by force
  then have "fi_cells g' ((n - 1) * 128 + j) = p" using r(7) by (simp add: g1_def)
  then show ?case using r s m c by (intro exI [of _ ds'] exI [of _ g']) (auto simp: g1_def)
qed

text \<open>What the array holds of the rows entered.\<close>

definition entered :: "bytes \<Rightarrow> str_ptr list \<Rightarrow> cells \<Rightarrow> nat \<Rightarrow> bytes \<times> xcell list \<Rightarrow> bool" where
  "entered xml vs cells i r \<longleftrightarrow> (\<forall>j < 128. case map_of (snd r) j of
     None \<Rightarrow> cells (i * 128 + j) = Null | Some (t, v) \<Rightarrow> cell_holds xml vs (cells (i * 128 + j)) (j, t, v))"

lemma entered_cong: "\<forall>j < 128. cells (i * 128 + j) = cells' (i * 128 + j) \<Longrightarrow> entered xml vs cells i r = entered xml vs cells' i r"
  by (simp add: entered_def split: option.splits)

lemma fill_rows:
  "dots_view xml ds (sheet_views rows @ vs') \<Longrightarrow> \<forall>r \<in> set rows. legal_xrow (length vs) r \<Longrightarrow> length vs \<le> 65536 \<Longrightarrow>
    sorted_wrt (<) (map (\<lambda>r. num_of 10 (fst r)) rows) \<Longrightarrow> \<forall>r \<in> set rows. fi_row g < int (num_of 10 (fst r)) \<Longrightarrow>
    fi_n g + length rows \<le> 20000 \<Longrightarrow> \<forall>x \<ge> fi_n g * 128. fi_cells g x = Null \<Longrightarrow>
    \<exists>ds' g'. dots_view xml ds' vs' \<and> fill_loop xml vs ds g = fill_loop xml vs ds' g' \<and> fi_n g' = fi_n g + length rows \<and>
      fi_m g' = fold max (map cell_width (concat (map snd rows))) (fi_m g) \<and>
      (\<forall>i < length rows. entered xml vs (fi_cells g') (fi_n g + i) (rows ! i)) \<and>
      (\<forall>x < fi_n g * 128. fi_cells g' x = fi_cells g x) \<and>
      (\<forall>x \<ge> (fi_n g + length rows) * 128. fi_cells g' x = Null)"
proof (induction rows arbitrary: ds g)
  case Nil
  then show ?case by (auto simp: sheet_views_def)
next
  case (Cons r rows)
  obtain rd cs where r: "r = (rd, cs)" by fastforce
  let ?n = "fi_n g + 1"
  have l: "\<forall>c \<in> set rd. is_digit 10 c" "int (num_of 10 rd) < 2147483648" "cs \<noteq> []"
      "\<forall>c \<in> set cs. legal_cell (length vs) c" "distinct (map fst cs)" "fi_row g < int (num_of 10 rd)"
    using Cons.prems(2,5) r by (simp_all add: legal_xrow_def)
  obtain ds1 g1 where s: "dots_view xml ds1 (sheet_views rows @ vs')" "fill_loop xml vs ds g = fill_loop xml vs ds1 g1"
      "fi_row g1 = int (num_of 10 rd)" "fi_n g1 = ?n" "fi_m g1 = fold max (map cell_width cs) (fi_m g)"
      "\<forall>c \<in> set cs. cell_holds xml vs (fi_cells g1 ((?n - 1) * 128 + fst c)) c"
      "\<forall>x. x \<notin> (\<lambda>c. (?n - 1) * 128 + fst c) ` set cs \<longrightarrow> fi_cells g1 x = fi_cells g x"
    using fill_row [of xml ds rd cs "sheet_views rows @ vs'" vs g ?n] Cons.prems l r
    by (auto simp: sheet_views_def row_views_def)
  have j: "fst c < 128" if "c \<in> set cs" for c using l(4) that by (cases c) auto
  have e: "entered xml vs (fi_cells g1) (fi_n g) r"
    unfolding entered_def
  proof (intro allI impI)
    fix j :: nat assume "j < 128"
    show "case map_of (snd r) j of None \<Rightarrow> fi_cells g1 (fi_n g * 128 + j) = Null
        | Some (t, v) \<Rightarrow> cell_holds xml vs (fi_cells g1 (fi_n g * 128 + j)) (j, t, v)"
    proof (cases "map_of cs j")
      case None
      then have "fi_n g * 128 + j \<notin> (\<lambda>c. (?n - 1) * 128 + fst c) ` set cs" by (force simp: map_of_eq_None_iff)
      then show ?thesis using None s(7) Cons.prems(7) r by simp
    next
      case (Some y)
      then have "(j, y) \<in> set cs" by (rule map_of_SomeD)
      then show ?thesis using Some s(6) r by (cases y) fastforce
    qed
  qed
  have old: "fi_cells g1 x = fi_cells g x" if "x < fi_n g * 128 \<or> (fi_n g + 1) * 128 \<le> x" for x
  proof -
    have "x \<noteq> fi_n g * 128 + fst c" if "c \<in> set cs" for c using j [OF that] \<open>x < fi_n g * 128 \<or> (fi_n g + 1) * 128 \<le> x\<close> by auto
    then have "x \<notin> (\<lambda>c. (?n - 1) * 128 + fst c) ` set cs" by force
    then show ?thesis using s(7) by blast
  qed
  have h: "\<forall>r \<in> set rows. legal_xrow (length vs) r" "sorted_wrt (<) (map (\<lambda>r. num_of 10 (fst r)) rows)"
      "\<forall>r \<in> set rows. int (num_of 10 rd) < int (num_of 10 (fst r))" "?n + length rows \<le> 20000"
      "\<forall>x \<ge> ?n * 128. fi_cells g1 x = Null"
    using Cons.prems(2,4,6,7) old r by auto
  obtain ds' g' where t: "dots_view xml ds' vs'" "fill_loop xml vs ds1 g1 = fill_loop xml vs ds' g'"
      "fi_n g' = ?n + length rows" "fi_m g' = fold max (map cell_width (concat (map snd rows))) (fi_m g1)"
      "\<forall>i < length rows. entered xml vs (fi_cells g') (?n + i) (rows ! i)"
      "\<forall>x < ?n * 128. fi_cells g' x = fi_cells g1 x" "\<forall>x \<ge> (?n + length rows) * 128. fi_cells g' x = Null"
    using Cons.IH [OF s(1) h(1) Cons.prems(3) h(2), of g1, unfolded s(3,4), OF h(3-5)] by blast
  have "entered xml vs (fi_cells g') (fi_n g) r" using e t(6) entered_cong [of "fi_cells g'" "fi_n g" "fi_cells g1"] by simp
  then have "entered xml vs (fi_cells g') (fi_n g + i) ((r # rows) ! i)" if "i < length (r # rows)" for i
    using t(5) that by (cases i) auto
  moreover have "fi_cells g' x = fi_cells g x" if "x < fi_n g * 128" for x using t(6) old that by simp
  ultimately show ?case using t s r by (intro exI [of _ ds'] exI [of _ g']) auto
qed

lemma fill_loop_lists:
  assumes "dots_view xml ds (sheet_views rows)" "\<forall>r \<in> set rows. legal_xrow (length vs) r \<and> 0 < num_of 10 (fst r)"
    "length vs \<le> 65536" "sorted_wrt (<) (map (\<lambda>r. num_of 10 (fst r)) rows)" "length rows \<le> 20000"
  shows "\<exists>g. fill_loop xml vs ds fill_init = Some (Inr g) \<and> fi_n g = length rows \<and> fi_m g = sheet_width rows \<and>
    (\<forall>i < length rows. entered xml vs (fi_cells g) i (rows ! i)) \<and>
    (\<forall>x \<ge> length rows * 128. fi_cells g x = Null)"
proof -
  obtain ds' g where r: "dots_view xml ds' []" "fill_loop xml vs ds fill_init = fill_loop xml vs ds' g"
      "fi_n g = length rows" "fi_m g = sheet_width rows"
      "\<forall>i < length rows. entered xml vs (fi_cells g) i (rows ! i)" "\<forall>x \<ge> length rows * 128. fi_cells g x = Null"
    using fill_rows [of xml ds rows "[]" vs fill_init] assms by (auto simp: fill_init_def sheet_width_def)
  then have "ds' = []" by (simp add: dots_view_def)
  then show ?thesis using r by auto
qed

text \<open>
  C15. Filling: from the entries the scanner lists for a sheet of at most 20000 rows and columns up to
  \<open>DX\<close>, of which no row is left out, the array gets the value of every cell at the row of its number
  (\<open>B3\<close> at the third) and the column of its name: shared strings by their numbers, other texts where they
  stand in the file; everything else stays empty. \<open>*n\<close> is the number of rows and \<open>*m\<close> the last column with a
  value. Rows are counted as they are listed, so behind a row that is left out this does not hold (\<open>fill_gap\<close>).
\<close>

theorem fill_loop_enters:
  assumes "dots_view xml ds (sheet_views rows)" "\<forall>r \<in> set rows. legal_xrow (length vs) r" "length vs \<le> 65536"
    "\<forall>i < length rows. num_of 10 (fst (rows ! i)) = i + 1" "length rows \<le> 20000"
  shows "\<exists>g. fill_loop xml vs ds fill_init = Some (Inr g) \<and> fi_n g = length rows \<and> fi_m g = sheet_width rows \<and>
    (\<forall>r \<in> set rows. entered xml vs (fi_cells g) (num_of 10 (fst r) - 1) r) \<and>
    (\<forall>x \<ge> length rows * 128. fi_cells g x = Null)"
proof -
  have n: "num_of 10 (fst (rows ! i)) = Suc i" if "i < length rows" for i
    using assms(4) that by simp
  have "\<forall>r \<in> set rows. legal_xrow (length vs) r \<and> 0 < num_of 10 (fst r)"
    using assms(2) n by (metis in_set_conv_nth zero_less_Suc)
  moreover have "sorted_wrt (<) (map (\<lambda>r. num_of 10 (fst r)) rows)" using n by (simp add: sorted_wrt_iff_nth_less)
  ultimately obtain g where g: "fill_loop xml vs ds fill_init = Some (Inr g)" "fi_n g = length rows" "fi_m g = sheet_width rows"
      "\<forall>i < length rows. entered xml vs (fi_cells g) i (rows ! i)" "\<forall>x \<ge> length rows * 128. fi_cells g x = Null"
    using fill_loop_lists [OF assms(1) _ assms(3) _ assms(5)] by blast
  then have "\<forall>r \<in> set rows. entered xml vs (fi_cells g) (num_of 10 (fst r) - 1) r"
    using n by (metis diff_Suc_1 in_set_conv_nth)
  then show ?thesis using g by blast
qed

text \<open>Three rows: \<open>A1\<close> has the text \<open>a\<close>, \<open>A2\<close> none, \<open>B3\<close> the shared string 0.\<close>

theorem fill_loop_enters_witness:
  "\<exists>g. fill_loop [65, 49, 0, 66, 51, 0, 115, 0, 97, 0, 48, 0, 65, 50, 0] [Fix 2]
      [\<lparr>d_name = n_c, d_text = Empty_text, d_vkv = [([114], 0)]\<rparr>, \<lparr>d_name = n_v, d_text = Text_at 8, d_vkv = []\<rparr>,
       \<lparr>d_name = n_c, d_text = Empty_text, d_vkv = [([114], 12)]\<rparr>,
       \<lparr>d_name = n_c, d_text = Empty_text, d_vkv = [([114], 3), ([116], 6)]\<rparr>, \<lparr>d_name = n_v, d_text = Text_at 10, d_vkv = []\<rparr>]
      fill_init = Some (Inr g) \<and> fi_n g = 3 \<and> fi_m g = 2 \<and> fi_cells g ((3 - 1) * 128 + 1) = Str (Fix 2) \<and> fi_cells g 1 = Null"
proof -
  let ?xml = "[65, 49, 0, 66, 51, 0, 115, 0, 97, 0, 48, 0, 65, 50, 0 :: byte]"
  let ?rows = "[([49 :: byte], [(0 :: nat, None, Some [97 :: byte])]), ([50], [(0, None, None)]), ([51], [(1, Some [115], Some [48])])]"
  let ?ds = "[\<lparr>d_name = n_c, d_text = Empty_text, d_vkv = [([114], 0)]\<rparr>, \<lparr>d_name = n_v, d_text = Text_at 8, d_vkv = []\<rparr>,
       \<lparr>d_name = n_c, d_text = Empty_text, d_vkv = [([114], 12)]\<rparr>,
       \<lparr>d_name = n_c, d_text = Empty_text, d_vkv = [([114], 3), ([116], 6)]\<rparr>, \<lparr>d_name = n_v, d_text = Text_at 10, d_vkv = []\<rparr>]"
  have d: "digit_of 49 = Some 1" "digit_of 50 = Some 2" "digit_of 51 = Some 3" "digit_of 48 = Some 0" by (simp_all add: digit_of_def)
  have "dots_view ?xml ?ds (sheet_views ?rows)"
    by (simp add: dots_view_def sheet_views_def row_views_def dot_view_def full_view_def text_view_def string_at_def
        strlen_at_def block_at_def col_name.simps)
  moreover have "\<forall>r \<in> set ?rows. legal_xrow (length [Fix 2]) r"
    by (simp add: legal_xrow_def is_digit_def num_of_def d)
  moreover have "\<forall>i < length ?rows. num_of 10 (fst (?rows ! i)) = i + 1" by (simp add: num_of_def d less_Suc_eq numeral_eq_Suc)
  ultimately obtain g where g: "fill_loop ?xml [Fix 2] ?ds fill_init = Some (Inr g)" "fi_n g = length ?rows" "fi_m g = sheet_width ?rows"
      "\<forall>r \<in> set ?rows. entered ?xml [Fix 2] (fi_cells g) (num_of 10 (fst r) - 1) r"
    using fill_loop_enters [of ?xml ?ds ?rows "[Fix 2]"] by auto
  have "entered ?xml [Fix 2] (fi_cells g) 2 ([51], [(1, Some [115], Some [48])])" using g(4) by (simp add: num_of_def d)
  then have "fi_cells g 257 = Str (Fix 2)" by (auto simp: entered_def num_of_def d dest!: spec [of _ 1])
  moreover have "entered ?xml [Fix 2] (fi_cells g) 0 ([49], [(0, None, Some [97])])" using g(4) by (simp add: num_of_def d)
  then have "fi_cells g 1 = Null" by (auto simp: entered_def dest!: spec [of _ 1])
  ultimately show ?thesis using g(1-3) by (simp add: sheet_width_def cell_width_def)
qed

text \<open>
  A row that is left out: a workbook does not list the rows without cells. The values of the row with the number \<open>r\<close> are then
  entered further up, at the place of its entry in the list, so that with an empty row of comments the first row of data
  is taken for it.
\<close>

lemma fill_gap:
  assumes "dots_view xml ds (sheet_views rows)" "\<forall>r \<in> set rows. legal_xrow (length vs) r \<and> 0 < num_of 10 (fst r)"
    "length vs \<le> 65536" "sorted_wrt (<) (map (\<lambda>r. num_of 10 (fst r)) rows)" "length rows \<le> 20000"
    "3 \<le> length rows" "num_of 10 (fst (rows ! 2)) = 4"
  shows "\<exists>g. fill_loop xml vs ds fill_init = Some (Inr g) \<and> entered xml vs (fi_cells g) 2 (rows ! 2)"
  using fill_loop_lists [OF assms(1-5)] assms(6) by (metis Suc_le_lessD numeral_3_eq_3 numeral_2_eq_2)

section \<open>The checks of the end\<close>

lemma same_next_distinct:
  "inj addr \<Longrightarrow> sorted (map addr ps) \<Longrightarrow> same_next ps \<longleftrightarrow> \<not> distinct ps" for addr :: "'a \<Rightarrow> int"
proof (induction ps rule: same_next.induct)
  case (1 x y ps)
  have "x = y" if "x \<in> set ps"
  proof -
    have "addr y \<le> addr x" "addr x \<le> addr y" using 1(3) that by auto
    then show ?thesis using injD [OF 1(2)] by auto
  qed
  then show ?case using 1 by auto
qed auto

lemma has_same_distinct:
  assumes "inj addr"
  shows "has_same addr ps \<longleftrightarrow> \<not> distinct ps"
  using same_next_distinct [OF assms, of "sort_key addr ps"] by (simp add: has_same_def)

lemma copy_table_sum:
  "copy_table m rs used = (if used + length rs * (m * 8) \<le> 4194304 \<or> rs = [] then Inr (used + length rs * (m * 8)) else Inl Err_memory)"
  by (induction rs arbitrary: used) (auto simp: algebra_simps)

lemma check_table_result:
  assumes "inj addr" "2 \<le> length rows" "length rows \<le> 20000" "m \<le> 128"
  shows "check_table addr m rows used =
    (if \<not> distinct (map hd (drop 2 rows)) then Inl Err_same_id
     else if \<not> distinct (tl (rows ! 1)) then Inl Err_same_name
     else if 4194304 < used + length rows * ((m + 1) * 8) then Inl Err_memory
     else Inr (used + length rows * ((m + 1) * 8)))"
  using assms by (auto simp: check_table_def Let_def has_same_distinct copy_table_sum algebra_simps)

text \<open>
  A table is refused exactly if two of its rows have the same identifier, two of its fields have the same
  name, or it does not fit into the memory left; otherwise it takes eight bytes for each row and for
  each cell.
\<close>

theorem check_table_refuses:
  assumes "inj addr" "2 \<le> length rows" "length rows \<le> 20000" "m \<le> 128"
  shows "check_table addr m rows used =
    (if \<not> distinct (map hd (drop 2 rows)) then Inl Err_same_id
     else if \<not> distinct (tl (rows ! 1)) then Inl Err_same_name
     else if 4194304 < used + length rows * ((m + 1) * 8) then Inl Err_memory
     else Inr (used + length rows * ((m + 1) * 8)))"
  by (rule check_table_result [OF assms])

theorem check_table_refuses_witness:
  "check_table (case_str_ptr int (\<lambda>q. - 1 - int q)) 2
     [[Fix 0, Fix 1], [Buf 0, Buf 3], [Buf 6, Fix 0], [Buf 6, Fix 0]] 0 = Inl Err_same_id"
proof -
  have "inj (case_str_ptr int (\<lambda>q. - 1 - int q))" by (rule injI) (auto split: str_ptr.splits)
  from check_table_refuses [OF this, of "[[Fix 0, Fix 1], [Buf 0, Buf 3], [Buf 6, Fix 0], [Buf 6, Fix 0]]" 2 0]
  show ?thesis by simp
qed

section \<open>Every result is a table\<close>

lemma intern_search_hit:
  assumes "intern_search st s a b = Some r"
  shows "\<forall>q. r = Inl q \<longrightarrow> q \<in> set (in_set st)"
  by (rule intern_search.raw_induct [OF _ assms])
    (auto simp: Let_def iload_def load_def nth_mem split: Option.bind_splits if_splits)

lemma set_insert_at: "set (take k xs @ q # drop k xs) = insert q (set xs)"
proof -
  have "set xs = set (take k xs) \<union> set (drop k xs)" by (metis append_take_drop_id set_append)
  then show ?thesis by auto
qed

lemma intern_insert_ptrs: "intern_insert st s a = Inr (p, st') \<Longrightarrow> p \<in> ptrs st' \<and> ptrs st \<subseteq> ptrs st'"
  by (auto simp: intern_insert_def Let_def ptrs_def set_insert_at simp del: set_append split: if_splits)

lemma getStr_ptrs:
  assumes "getStr s st = Some (Inr (p, st'))"
  shows "p \<in> ptrs st' \<and> ptrs st \<subseteq> ptrs st'"
proof (cases "find_fix s")
  case None
  then obtain r where r: "intern_search st s 0 (int (length (in_set st)) - 1) = Some r"
      "(case r of Inl q \<Rightarrow> Inr (Buf q, st) | Inr a \<Rightarrow> intern_insert st s a) = Inr (p, st')"
    using assms by (auto simp: getStr_def split: Option.bind_splits)
  then show ?thesis using intern_search_hit [OF r(1)] intern_insert_ptrs by (cases r) (auto simp: ptrs_def)
qed (use assms find_fix_some in \<open>auto simp: getStr_def ptrs_def\<close>)

lemma edit_in_set: "edit f p mem = Some (Inr mem') \<Longrightarrow> in_set (cm_str mem') = in_set (cm_str mem)"
  by (auto simp: edit_def ok_then_Inr split: cell_ptr.splits str_ptr.splits if_splits)

lemma replace_each_in_set: "replace_each bcs p mem = Some (Inr mem') \<Longrightarrow> in_set (cm_str mem') = in_set (cm_str mem)"
  by (induction bcs p mem rule: replace_each.induct) (auto simp: ok_then_Inr dest: edit_in_set)

lemma convert_in_set: "convert ty p mem = Some (Inr (s, mem')) \<Longrightarrow> in_set (cm_str mem') = in_set (cm_str mem)"
  by (auto simp: convert_def Let_def ok_then_Inr split: if_splits Option.bind_splits dest!: replace_each_in_set edit_in_set)

lemma convert_cell_ptrs:
  assumes "convert_cell ty p mem = Some (Inr (q, mem'))"
  shows "q \<in> ptrs (cm_str mem') \<and> ptrs (cm_str mem) \<subseteq> ptrs (cm_str mem')"
proof -
  obtain s mem1 st where s: "convert ty p mem = Some (Inr (s, mem1))" "getStr s (cm_str mem1) = Some (Inr (q, st))"
      "mem' = mem1\<lparr>cm_str := st\<rparr>"
    using assms by (auto simp: convert_cell_def ok_then_Inr)
  have "ptrs (cm_str mem1) = ptrs (cm_str mem)" using convert_in_set [OF s(1)] by (simp add: ptrs_def)
  then show ?thesis using getStr_ptrs [OF s(2)] s(3) by simp
qed

text \<open>The cells at \<open>D\<close> are strings of the table.\<close>

definition interned :: "cells \<Rightarrow> cells_mem \<Rightarrow> nat set \<Rightarrow> bool" where
  "interned cells mem D \<longleftrightarrow> (\<forall>x \<in> D. \<exists>p \<in> ptrs (cm_str mem). cells x = Str p)"

lemma interned_mono: "interned cells mem D \<Longrightarrow> D' \<subseteq> D \<Longrightarrow> interned cells mem D'"
  unfolding interned_def by blast

lemma interned_step:
  "interned cells mem D \<Longrightarrow> ptrs (cm_str mem) \<subseteq> ptrs (cm_str mem') \<Longrightarrow> p \<in> ptrs (cm_str mem') \<Longrightarrow>
    interned (cells(x := Str p)) mem' (insert x D)"
  by (fastforce simp: interned_def)

lemma intern_cells_interned:
  "intern_cells xs cells mem = Some (Inr (cells', mem')) \<Longrightarrow> interned cells mem D \<Longrightarrow> interned cells' mem' (D \<union> set xs)"
proof (induction xs cells mem arbitrary: D rule: intern_cells.induct)
  case (2 x xs cells mem)
  obtain s p st where s: "cell_string mem (cells x) = Some s" "getStr s (cm_str mem) = Some (Inr (p, st))"
      "intern_cells xs (cells(x := Str p)) (mem\<lparr>cm_str := st\<rparr>) = Some (Inr (cells', mem'))"
    using 2(2) by (auto simp: ok_then_Inr split: Option.bind_splits)
  have "interned (cells(x := Str p)) (mem\<lparr>cm_str := st\<rparr>) (insert x D)"
    using getStr_ptrs [OF s(2)] 2(3) by (intro interned_step) auto
  from 2(1) [OF s(1) s(3) this] show ?case by simp
qed simp

lemma convert_cols_interned:
  "convert_cols i js cells mem = Some (Inr (cells', mem')) \<Longrightarrow> interned cells mem D \<Longrightarrow>
    interned cells' mem' (D \<union> (\<lambda>j. i * 128 + j) ` set js)"
proof (induction i js cells mem arbitrary: D rule: convert_cols.induct)
  case (2 i j js cells mem)
  obtain ty p mem1 where s: "cells j = Str ty" "convert_cell ty (cells (i * 128 + j)) mem = Some (Inr (p, mem1))"
      "convert_cols i js (cells(i * 128 + j := Str p)) mem1 = Some (Inr (cells', mem'))"
    using 2(2) by (auto simp: ok_then_Inr split: cell_ptr.splits)
  have "interned (cells(i * 128 + j := Str p)) mem1 (insert (i * 128 + j) D)"
    using convert_cell_ptrs [OF s(2)] 2(3) by (intro interned_step) auto
  from 2(1) [OF s(1) s(3) this] show ?case by simp
qed simp

lemma convert_rows_interned:
  "convert_rows m is cells mem = Some (Inr (cells', mem')) \<Longrightarrow> interned cells mem D \<Longrightarrow> 1 \<le> m \<Longrightarrow>
    interned cells' mem' (D \<union> {i * 128 + j | i j. i \<in> set is \<and> j < m})"
proof (induction m "is" cells mem arbitrary: D rule: convert_rows.induct)
  case (2 m i "is" cells mem)
  obtain c1 m1 c2 m2 where s: "intern_cells [i * 128] cells mem = Some (Inr (c1, m1))"
      "convert_cols i [1..<m] c1 m1 = Some (Inr (c2, m2))" "convert_rows m is c2 m2 = Some (Inr (cells', mem'))"
    using 2(2) by (auto simp: ok_then_Inr simp del: intern_cells.simps)
  have "interned c2 m2 (D \<union> set [i * 128] \<union> (\<lambda>j. i * 128 + j) ` set [1..<m])"
    using convert_cols_interned [OF s(2)] intern_cells_interned [OF s(1) 2(3)] by blast
  then have "interned cells' mem' (D \<union> set [i * 128] \<union> (\<lambda>j. i * 128 + j) ` set [1..<m] \<union> {i * 128 + j | i j. i \<in> set is \<and> j < m})"
    by (rule 2(1) [OF s(3) _ 2(4)])
  moreover have "D \<union> {k * 128 + j | k j. k \<in> set (i # is) \<and> j < m} \<subseteq>
      D \<union> set [i * 128] \<union> (\<lambda>j. i * 128 + j) ` set [1..<m] \<union> {i * 128 + j | i j. i \<in> set is \<and> j < m}"
    by (auto simp: image_iff)
  ultimately show ?case by (rule interned_mono)
qed simp

lemma fill_loop_bounds:
  "fill_loop xml vs ds g = Some (Inr g') \<Longrightarrow> fi_n g \<le> 20000 \<and> fi_m g \<le> 128 \<Longrightarrow> fi_n g' \<le> 20000 \<and> fi_m g' \<le> 128"
proof (induction xml vs ds g rule: fill_loop.induct)
  case (2 xml vs d ds g)
  obtain g1 where g1: "(if d_name d = n_c then fill_c xml d g else if d_name d = n_v then fill_v xml vs d g else Some (Inr g)) = Some (Inr g1)"
      "fill_loop xml vs ds g1 = Some (Inr g')"
    using 2(2) by (auto simp: ok_then_Inr)
  have "fi_n g1 \<le> 20000 \<and> fi_m g1 \<le> 128"
    using g1(1) 2(3) by (auto simp: fill_c_def fill_v_def Let_def split: if_splits Option.bind_splits)
  then show ?case by (rule 2(1) [OF g1(2)])
qed simp

lemma pack_row_bound: "pack_row i f js jj cells = (cells', jj') \<Longrightarrow> jj \<le> jj' \<and> jj' \<le> jj + length js"
proof (induction i f js jj cells rule: pack_row.induct)
  case (2 i f j js jj cells)
  show ?case
  proof (cases "f ! j")
    case True
    then have "pack_row i f js (jj + 1) (cells(i * 128 + jj := cells (i * 128 + j))) = (cells', jj')" using 2(3) by simp
    from 2(1) [OF True this] show ?thesis by simp
  next
    case False
    then have "pack_row i f js jj cells = (cells', jj')" using 2(3) by simp
    from 2(2) [OF False this] show ?thesis by simp
  qed
qed simp

lemma pack_rows_bounds:
  "pack_rows mem f m is ii jj cells = Some (cells', ii', jj') \<Longrightarrow> 1 \<le> jj \<Longrightarrow> jj \<le> max 1 m \<Longrightarrow>
    ii \<le> ii' \<and> ii' \<le> ii + length is \<and> 1 \<le> jj' \<and> jj' \<le> max 1 m"
proof (induction mem f m "is" ii jj cells rule: pack_rows.induct)
  case (2 mem f m i "is" ii jj cells)
  show ?case
  proof (cases "full mem (cells (i * 128))")
    case True
    obtain c1 j1 where p: "pack_row i f [1..<m] 1 cells = (c1, j1)" by fastforce
    have "1 \<le> j1 \<and> j1 \<le> max 1 m" using pack_row_bound [OF p] by auto
    moreover have "pack_rows mem f m is (ii + 1) j1 (copy_row ii i c1) = Some (cells', ii', jj')"
      using 2(3) True p by simp
    ultimately show ?thesis using 2(1) [OF True TrueI p [symmetric]] by simp
  next
    case False
    then have n: "cell_full mem (cells (i * 128)) = Some False" and "pack_rows mem f m is ii jj cells = Some (cells', ii', jj')"
      using 2(3) by (auto split: Option.bind_splits if_splits)
    then show ?thesis using 2(2) [OF n] 2(4,5) by auto
  qed
qed simp

lemma pack_cells_bounds:
  assumes "pack_cells f0 mem n m cells = Some (cells', n', m')" "2 \<le> n" "n \<le> 20000" "m \<le> 128"
  shows "2 \<le> n' \<and> n' \<le> 20000 \<and> 1 \<le> m' \<and> m' \<le> 128"
proof -
  obtain cells1 f cells2 where p: "pack_rows mem f (trim_cols f m) [3..<n] 2 1 cells1 = Some (cells2, n', m')"
    using assms(1) by (auto simp: pack_cells_def split: Option.bind_splits)
  then show ?thesis using pack_rows_bounds [OF p] trim_cols_le [of f m] assms by auto
qed

lemma those_nth: "those xs = Some ys \<Longrightarrow> length ys = length xs \<and> (\<forall>i < length xs. xs ! i = Some (ys ! i))"
proof (induction xs arbitrary: ys)
  case (Cons x xs)
  then show ?case by (auto simp: nth_Cons split: option.splits nat.splits)
qed simp

lemma getVvs_shape:
  assumes "getVvs f0 addr vs buf st used = Some (Inr (rows, st', used'))" "inj addr"
  shows "\<exists>m. 2 \<le> length rows \<and> length rows \<le> 20000 \<and> 1 \<le> m \<and> m \<le> 128 \<and>
    (\<forall>r \<in> set rows. length r = m \<and> set r \<subseteq> ptrs st') \<and>
    distinct (map hd (drop 2 rows)) \<and> distinct (tl (rows ! 1)) \<and>
    used' = used + length rows * ((m + 1) * 8) \<and> used' \<le> 4194304"
proof -
  obtain x g cells1 n m cells2 mem2 cells3 mem3 where s: "getXml buf = Some (Inr x)"
      "fill_loop (x_buf x) vs (x_dots x) fill_init = Some (Inr g)" "\<not> fi_n g < 2"
      "pack_cells f0 \<lparr>cm_xml = x_buf x, cm_str = st\<rparr> (fi_n g) (fi_m g) (fi_cells g) = Some (cells1, n, m)"
      "intern_cells ([0..<m] @ map ((+) 128) [0..<m]) cells1 \<lparr>cm_xml = x_buf x, cm_str = st\<rparr> = Some (Inr (cells2, mem2))"
      "convert_rows m [2..<n] cells2 mem2 = Some (Inr (cells3, mem3))"
      "those (map (row_ptrs cells3 m) [0..<n]) = Some rows" "check_table addr m rows used = Inr used'" "st' = cm_str mem3"
    using assms(1) by (auto simp: getVvs_def ok_then_Inr split: Option.bind_splits if_splits)
  have g: "fi_n g \<le> 20000 \<and> fi_m g \<le> 128" using fill_loop_bounds [OF s(2)] by (simp add: fill_init_def)
  have nm: "2 \<le> n \<and> n \<le> 20000 \<and> 1 \<le> m \<and> m \<le> 128" using pack_cells_bounds [OF s(4)] s(3) g by simp
  have rows: "length rows = n" "\<forall>i < n. row_ptrs cells3 m i = Some (rows ! i)" using those_nth [OF s(7)] by auto
  have "interned cells1 \<lparr>cm_xml = x_buf x, cm_str = st\<rparr> {}" by (simp add: interned_def)
  from convert_rows_interned [OF s(6) intern_cells_interned [OF s(5) this]] nm
  have i: "interned cells3 mem3 (set ([0..<m] @ map ((+) 128) [0..<m]) \<union> {i * 128 + j | i j. i \<in> set [2..<n] \<and> j < m})" by simp
  have cell: "\<exists>p \<in> ptrs st'. cells3 (k * 128 + j) = Str p" if "k < n" "j < m" for k j
  proof -
    have "k = 0 \<or> k = 1 \<or> 2 \<le> k" by linarith
    then have "k * 128 + j \<in> set ([0..<m] @ map ((+) 128) [0..<m]) \<union> {i * 128 + j | i j. i \<in> set [2..<n] \<and> j < m}"
      using that by auto
    then show ?thesis using i s(9) unfolding interned_def by blast
  qed
  have row: "length r = m \<and> set r \<subseteq> ptrs st'" if r: "r \<in> set rows" for r
  proof -
    obtain k where k: "k < n" "r = rows ! k" using r rows(1) by (metis in_set_conv_nth)
    have t: "length r = m \<and> (\<forall>j < m. (case cells3 (k * 128 + j) of Str p \<Rightarrow> Some p | _ \<Rightarrow> None) = Some (r ! j))"
      using those_nth [of "map (\<lambda>j. case cells3 (k * 128 + j) of Str p \<Rightarrow> Some p | _ \<Rightarrow> None) [0..<m]" r] rows(2) k
      by (simp add: row_ptrs_def)
    then have "r ! j \<in> ptrs st'" if "j < m" for j using cell [OF k(1) that] that by fastforce
    then show ?thesis using t by (auto simp: in_set_conv_nth)
  qed
  have "\<not> check_table addr m rows used = Inl e" for e using s(8) by simp
  moreover note check_table_result [OF assms(2), of rows m used]
  ultimately show ?thesis using row rows(1) nm s(8) by (intro exI [of _ m]) (auto split: if_splits)
qed

section \<open>Shared strings that are kept\<close>

text \<open>
  No shared string in a row of data is changed by the conversion of its column. \<open>mem\<close> and \<open>cells\<close> are
  the memory and the array as \<open>fill_loop\<close> leaves them, \<open>n\<close> and \<open>m\<close> the numbers of rows and columns.
\<close>

definition shared_unaltered :: "cells_mem \<Rightarrow> cells \<Rightarrow> nat \<Rightarrow> nat \<Rightarrow> bool" where
  "shared_unaltered mem cells n m \<longleftrightarrow> (\<forall>i j q tn s. 3 \<le> i \<and> i < n \<and> 1 \<le> j \<and> j < m \<and>
     cell_string mem (cells j) = Some tn \<and> cells (i * 128 + j) = Str q \<and> ptr_str (cm_str mem) q = Some s \<longrightarrow> unaltered tn s)"

text \<open>What the cells of an array point to.\<close>

definition readable :: "cells_mem \<Rightarrow> str_ptr list \<Rightarrow> cells \<Rightarrow> bool" where
  "readable mem vs cells \<longleftrightarrow> (\<forall>x. case cells x of Null \<Rightarrow> True | Lit_empty \<Rightarrow> True
     | Xml q \<Rightarrow> string_at (cm_xml mem) q \<noteq> None | Str p \<Rightarrow> p \<in> set vs)"

lemma readable_upd: "readable mem vs cells \<Longrightarrow> (case p of Null \<Rightarrow> True | Lit_empty \<Rightarrow> True
     | Xml q \<Rightarrow> string_at (cm_xml mem) q \<noteq> None | Str p \<Rightarrow> p \<in> set vs) \<Longrightarrow> readable mem vs (cells(x := p))"
  unfolding readable_def by (metis fun_upd_apply)

lemma fill_loop_readable:
  "fill_loop (cm_xml mem) vs ds g = Some (Inr g') \<Longrightarrow> readable mem vs (fi_cells g) \<Longrightarrow> readable mem vs (fi_cells g')"
proof (induction "cm_xml mem" vs ds g rule: fill_loop.induct)
  case (2 vs d ds g)
  obtain g1 where g1: "(if d_name d = n_c then fill_c (cm_xml mem) d g else if d_name d = n_v then fill_v (cm_xml mem) vs d g else Some (Inr g)) = Some (Inr g1)"
      "fill_loop (cm_xml mem) vs ds g1 = Some (Inr g')"
    using 2(2) by (auto simp: ok_then_Inr)
  have "fill_c (cm_xml mem) d g = Some (Inr g1) \<Longrightarrow> fi_cells g1 = fi_cells g"
    by (auto simp: fill_c_def Let_def split: if_splits Option.bind_splits option.splits prod.splits)
  moreover have "fill_v (cm_xml mem) vs d g = Some (Inr g1) \<Longrightarrow> readable mem vs (fi_cells g1)"
    using 2(3) by (auto simp: fill_v_def Let_def put_cell_def iload_def load_def text_view_def
        split: if_splits Option.bind_splits text_ref.splits intro!: readable_upd)
  ultimately have "readable mem vs (fi_cells g1)" using g1(1) 2(3) by (auto split: if_splits)
  then show ?case by (rule 2(1) [OF g1(2)])
qed simp

lemma ptr_readable: "intern_ok st \<Longrightarrow> p \<in> ptrs st \<Longrightarrow> \<exists>s. ptr_str st p = Some s"
proof -
  assume "intern_ok st" "p \<in> ptrs st"
  then obtain ws where ws: "intern_has st ws" "p \<in> ptrs st" by (auto simp: intern_ok_def)
  have "\<exists>s. ptr_str st (Buf q) = Some s" if "q \<in> set (in_set st)" for q
    using that intern_has_nth(2) [OF ws(1)] intern_has_length [OF ws(1)] by (fastforce simp: in_set_conv_nth ptr_str_def)
  then show ?thesis using ws(2) ptr_str_fix by (auto simp: ptrs_def)
qed

lemma readable_cell:
  assumes "readable mem vs cells" "intern_ok (cm_str mem)" "set vs \<subseteq> ptrs (cm_str mem)"
  shows "cells x = Null \<or> (\<exists>s. cell_string mem (cells x) = Some s)"
proof (cases "cells x")
  case (Str p)
  then have "p \<in> ptrs (cm_str mem)" using assms(1,3) unfolding readable_def by (auto dest!: spec [of _ x])
  then show ?thesis using ptr_readable [OF assms(2)] Str by (simp add: cell_string_def)
next
  case (Xml q)
  then show ?thesis using assms(1) unfolding readable_def by (auto dest!: spec [of _ x] simp: cell_string_def)
qed (simp_all add: cell_string_def)

text \<open>Interning cells: each becomes the pointer of its string, and the rest stays.\<close>

lemma intern_cells_spec:
  "intern_cells xs cells mem = Some (Inr (cells', mem')) \<Longrightarrow> intern_ok (cm_str mem) \<Longrightarrow> distinct xs \<Longrightarrow>
    (\<forall>x \<in> set xs. \<forall>p. cells x = Str p \<longrightarrow> p \<in> ptrs (cm_str mem)) \<Longrightarrow>
    intern_ok (cm_str mem') \<and> grows (cm_str mem) (cm_str mem') \<and> cm_xml mem' = cm_xml mem \<and>
    (\<forall>x. x \<notin> set xs \<longrightarrow> cells' x = cells x) \<and>
    (\<forall>x \<in> set xs. \<exists>p s. cells' x = Str p \<and> p \<in> ptrs (cm_str mem') \<and> cell_string mem (cells x) = Some s \<and> ptr_str (cm_str mem') p = Some s)"
proof (induction xs cells mem rule: intern_cells.induct)
  case (2 x xs cells mem)
  obtain s p st where s: "cell_string mem (cells x) = Some s" "getStr s (cm_str mem) = Some (Inr (p, st))"
      "intern_cells xs (cells(x := Str p)) (mem\<lparr>cm_str := st\<rparr>) = Some (Inr (cells', mem'))"
    using 2(2) by (auto simp: ok_then_Inr split: Option.bind_splits)
  note g = getStr_grows [OF 2(3) cell_string_no_zero [OF s(1)] s(2)]
  have x: "x \<notin> set xs" "distinct xs" using 2(4) by simp_all
  have later: "\<forall>y \<in> set xs. \<forall>q. (cells(x := Str p)) y = Str q \<longrightarrow> q \<in> ptrs (cm_str (mem\<lparr>cm_str := st\<rparr>))"
    using 2(5) x g(4) getStr_ptrs [OF s(2)] by auto
  have r: "intern_ok (cm_str mem')" "grows st (cm_str mem')" "cm_xml mem' = cm_xml mem"
    "\<forall>y. y \<notin> set xs \<longrightarrow> cells' y = (cells(x := Str p)) y"
    "\<forall>y \<in> set xs. \<exists>q t. cells' y = Str q \<and> q \<in> ptrs (cm_str mem') \<and> cell_string (mem\<lparr>cm_str := st\<rparr>) ((cells(x := Str p)) y) = Some t \<and>
       ptr_str (cm_str mem') q = Some t"
    using 2(1) [OF s(1) s(3) _ x(2) later] g(1) by simp_all
  have same: "cell_string (mem\<lparr>cm_str := st\<rparr>) (cells y) = cell_string mem (cells y)" if y: "y \<in> set xs" for y
  proof (cases "cells y")
    case (Str q)
    then have q: "q \<in> ptrs (cm_str mem)" using 2(5) y by simp
    obtain u where "ptr_str (cm_str mem) q = Some u" using ptr_readable [OF 2(3) q] by blast
    then show ?thesis using g(4) q Str by (simp add: cell_string_def grows_def)
  qed (simp_all add: cell_string_def)
  have px: "cells' x = Str p" "p \<in> ptrs (cm_str mem') \<and> ptr_str (cm_str mem') p = Some s"
    using r(2,4) x g(2,3) by (simp_all add: grows_def)
  have "\<exists>q t. cells' y = Str q \<and> q \<in> ptrs (cm_str mem') \<and> cell_string mem (cells y) = Some t \<and> ptr_str (cm_str mem') q = Some t"
    if "y \<in> set xs" for y
  proof -
    have "y \<noteq> x" using that x(1) by blast
    then show ?thesis using r(5) [rule_format, OF that] same [OF that] by simp
  qed
  then show ?case using r px s(1) grows_trans [OF g(4) r(2)] by auto
qed simp

text \<open>
  The types \<open>tn\<close> of the columns, and a row of the array whose shared strings the conversions keep. Both last as long as
  the string table only grows and the cells stay.
\<close>

definition heads_are :: "intern \<Rightarrow> cells \<Rightarrow> (nat \<Rightarrow> bytes) \<Rightarrow> nat \<Rightarrow> bool" where
  "heads_are st cells tn m \<longleftrightarrow> (\<forall>j. 1 \<le> j \<and> j < m \<longrightarrow>
     (\<exists>ty. cells j = Str ty \<and> ty \<in> ptrs st \<and> ptr_str st ty = Some (tn j)))"

definition row_kept :: "intern \<Rightarrow> cells \<Rightarrow> (nat \<Rightarrow> bytes) \<Rightarrow> nat \<Rightarrow> nat set \<Rightarrow> bool" where
  "row_kept st cells tn i J \<longleftrightarrow> (\<forall>j \<in> J. \<forall>q. cells (i * 128 + j) = Str q \<longrightarrow>
     q \<in> ptrs st \<and> (\<exists>s. ptr_str st q = Some s \<and> (1 \<le> j \<longrightarrow> unaltered (tn j) s)))"

lemma heads_are_grows:
  "heads_are st cells tn m \<Longrightarrow> grows st st' \<Longrightarrow> \<forall>j < m. cells' j = cells j \<Longrightarrow> heads_are st' cells' tn m"
  unfolding heads_are_def grows_def by metis

lemma row_kept_grows:
  "row_kept st cells tn i J \<Longrightarrow> grows st st' \<Longrightarrow> \<forall>j \<in> J'. cells' (i * 128 + j) = cells (i * 128 + j) \<Longrightarrow> J' \<subseteq> J \<Longrightarrow>
    row_kept st' cells' tn i J'"
  unfolding row_kept_def grows_def by (metis subsetD)

lemma convert_cols_grows:
  "convert_cols i js cells mem = Some (Inr (cells', mem')) \<Longrightarrow> intern_ok (cm_str mem) \<Longrightarrow> heads_are (cm_str mem) cells tn m \<Longrightarrow>
    row_kept (cm_str mem) cells tn i (set js) \<Longrightarrow> distinct js \<Longrightarrow> \<forall>j \<in> set js. 1 \<le> j \<and> j < m \<Longrightarrow> m \<le> i * 128 \<Longrightarrow>
    intern_ok (cm_str mem') \<and> grows (cm_str mem) (cm_str mem') \<and> (\<forall>x. x \<notin> (\<lambda>j. i * 128 + j) ` set js \<longrightarrow> cells' x = cells x)"
proof (induction i js cells mem rule: convert_cols.induct)
  case (2 i j js cells mem)
  obtain ty p mem1 where s: "cells j = Str ty" "convert_cell ty (cells (i * 128 + j)) mem = Some (Inr (p, mem1))"
      "convert_cols i js (cells(i * 128 + j := Str p)) mem1 = Some (Inr (cells', mem'))"
    using 2(2) by (auto simp: ok_then_Inr split: cell_ptr.splits)
  have ty: "ty \<in> ptrs (cm_str mem)" "ptr_str (cm_str mem) ty = Some (tn j)"
    using 2(4) 2(7) s(1) by (auto simp: heads_are_def)
  have "\<And>q. cells (i * 128 + j) = Str q \<Longrightarrow> \<exists>t. ptr_str (cm_str mem) q = Some t \<and> unaltered (tn j) t"
    using 2(5) 2(7) by (auto simp: row_kept_def)
  note g = convert_cell_grows [OF s(2) 2(3) ty this]
  have h: "heads_are (cm_str mem1) (cells(i * 128 + j := Str p)) tn m"
    by (rule heads_are_grows [OF 2(4) g(2)]) (use 2(8) in auto)
  have k: "row_kept (cm_str mem1) (cells(i * 128 + j := Str p)) tn i (set js)"
    by (rule row_kept_grows [OF 2(5) g(2)]) (use 2(6) in auto)
  have "distinct js" "\<forall>j \<in> set js. 1 \<le> j \<and> j < m" using 2(6,7) by simp_all
  note r = 2(1) [OF s(1) s(3) g(1) h k this 2(8)]
  show ?case using r grows_trans [OF g(2)] by auto
qed simp

lemma convert_rows_grows:
  "convert_rows m is cells mem = Some (Inr (cells', mem')) \<Longrightarrow> intern_ok (cm_str mem) \<Longrightarrow> heads_are (cm_str mem) cells tn m \<Longrightarrow>
    \<forall>i \<in> set is. row_kept (cm_str mem) cells tn i {..<m} \<and> 2 \<le> i \<Longrightarrow> distinct is \<Longrightarrow> 1 \<le> m \<Longrightarrow> m \<le> 128 \<Longrightarrow>
    intern_ok (cm_str mem') \<and> grows (cm_str mem) (cm_str mem')"
proof (induction m "is" cells mem rule: convert_rows.induct)
  case (2 m i "is" cells mem)
  obtain c1 m1 c2 m2 where s: "intern_cells [i * 128] cells mem = Some (Inr (c1, m1))"
      "convert_cols i [1..<m] c1 m1 = Some (Inr (c2, m2))" "convert_rows m is c2 m2 = Some (Inr (cells', mem'))"
    using 2(2) by (auto simp: ok_then_Inr simp del: intern_cells.simps)
  have i: "row_kept (cm_str mem) cells tn i {..<m}" "2 \<le> i" using 2(5) by simp_all
  then have i128: "m \<le> i * 128" using 2(8) by simp
  have "\<forall>x \<in> set [i * 128]. \<forall>p. cells x = Str p \<longrightarrow> p \<in> ptrs (cm_str mem)"
    using i(1) 2(7) unfolding row_kept_def by (auto dest!: bspec [of _ _ 0])
  then have 1: "intern_ok (cm_str m1)" "grows (cm_str mem) (cm_str m1)" "\<forall>x. x \<noteq> i * 128 \<longrightarrow> c1 x = cells x"
    using intern_cells_spec [OF s(1) 2(3)] by simp_all
  have h1: "heads_are (cm_str m1) c1 tn m" by (rule heads_are_grows [OF 2(4) 1(2)]) (use 1(3) i(2) 2(8) in auto)
  have k1: "row_kept (cm_str m1) c1 tn i (set [1..<m])" by (rule row_kept_grows [OF i(1) 1(2)]) (use 1(3) in auto)
  have b: "\<forall>j \<in> set [1..<m]. 1 \<le> j \<and> j < m" "distinct [1..<m]" by simp_all
  from convert_cols_grows [OF s(2) 1(1) h1 k1 b(2,1) i128] have 2: "intern_ok (cm_str m2)" "grows (cm_str m1) (cm_str m2)"
      "\<forall>x. x \<notin> (\<lambda>j. i * 128 + j) ` set [1..<m] \<longrightarrow> c2 x = c1 x" by simp_all
  have g: "grows (cm_str mem) (cm_str m2)" by (rule grows_trans [OF 1(2) 2(2)])
  have far: "c2 x = cells x" if "x < i * 128 \<or> i * 128 + 128 \<le> x" for x
    using 1(3) 2(3) that \<open>m \<le> 128\<close> by (auto simp: image_iff)
  have h2: "heads_are (cm_str m2) c2 tn m" by (rule heads_are_grows [OF \<open>heads_are (cm_str mem) cells tn m\<close> g]) (use far i128 in auto)
  have "row_kept (cm_str m2) c2 tn k {..<m}" if k: "k \<in> set is" for k
  proof -
    have "k \<noteq> i" using \<open>distinct (i # is)\<close> k by auto
    then have "k * 128 + 128 \<le> i * 128 \<or> i * 128 + 128 \<le> k * 128" by arith
    then have "\<forall>j \<in> {..<m}. c2 (k * 128 + j) = cells (k * 128 + j)" using far \<open>m \<le> 128\<close> by auto
    moreover have "row_kept (cm_str mem) cells tn k {..<m}"
      using k \<open>\<forall>i \<in> set (i # is). row_kept (cm_str mem) cells tn i {..<m} \<and> 2 \<le> i\<close> by simp
    ultimately show ?thesis using row_kept_grows [OF _ g] by blast
  qed
  then have "intern_ok (cm_str mem') \<and> grows (cm_str m2) (cm_str mem')"
    using "2.IH" [OF s(3) 2(1) h2] \<open>\<forall>i \<in> set (i # is). row_kept (cm_str mem) cells tn i {..<m} \<and> 2 \<le> i\<close>
      \<open>distinct (i # is)\<close> \<open>1 \<le> m\<close> \<open>m \<le> 128\<close> by simp
  then show ?case using grows_trans [OF g] by blast
qed simp

lemma pack_cells_det:
  assumes "pack_cells f0 mem n m cells = Some (cells', n', m')" "\<forall>x. cell_full mem (cells x) \<noteq> None" "m \<le> 128"
  obtains R C where "n' = 2 + length R" "m' = 1 + length C" "set R \<subseteq> {3..<n}" "set C \<subseteq> {1..<m}"
    "\<forall>c \<in> set C. full mem (cells c)"
    "\<And>i j. i < n' \<Longrightarrow> j < m' \<Longrightarrow> cells' (i * 128 + j) = or_empty (cells ((0 # 1 # R) ! i * 128 + (0 # C) ! j))"
proof -
  define R where "R = filter (\<lambda>i. full mem (cells (i * 128))) [3..<n]"
  define C where "C = (if R = [] then [] else filter (good_col mem cells) [1..<m])"
  from pack_cells_result [OF assms(2,3) R_def C_def, of f0] assms(1) have
    "n' = 2 + length R" "m' = 1 + length C"
    "\<forall>i < 2 + length R. \<forall>j < 1 + length C. cells' (i * 128 + j) = or_empty (cells ((0 # 1 # R) ! i * 128 + (0 # C) ! j))" by auto
  moreover have "set R \<subseteq> {3..<n}" "set C \<subseteq> {1..<m}" "\<forall>c \<in> set C. full mem (cells c)"
    by (auto simp: R_def C_def good_col_def)
  ultimately show ?thesis using that by simp
qed

lemma getVvs_str:
  assumes fill: "fill_loop xml vs ds fill_init = Some (Inr g)"
    and pack: "pack_cells f0 \<lparr>cm_xml = xml, cm_str = st\<rparr> (fi_n g) (fi_m g) (fi_cells g) = Some (cells1, n, m)"
    and heads: "intern_cells ([0..<m] @ map ((+) 128) [0..<m]) cells1 \<lparr>cm_xml = xml, cm_str = st\<rparr> = Some (Inr (cells2, mem2))"
    and conv: "convert_rows m [2..<n] cells2 mem2 = Some (Inr (cells3, mem3))"
    and st: "intern_ok st" "set vs \<subseteq> ptrs st"
    and kept: "shared_unaltered \<lparr>cm_xml = xml, cm_str = st\<rparr> (fi_cells g) (fi_n g) (fi_m g)"
  shows "intern_ok (cm_str mem3) \<and> grows st (cm_str mem3)"
proof -
  let ?mem = "\<lparr>cm_xml = xml, cm_str = st\<rparr>"
  have "readable ?mem vs (fi_cells fill_init)" by (simp add: readable_def fill_init_def)
  then have r: "readable ?mem vs (fi_cells g)" using fill_loop_readable [of ?mem vs ds fill_init g] fill by simp
  have cell: "fi_cells g y = Null \<or> (\<exists>s. cell_string ?mem (fi_cells g y) = Some s)" for y
    using readable_cell [OF r] st by simp
  have full: "\<forall>y. cell_full ?mem (fi_cells g y) \<noteq> None"
  proof
    fix y show "cell_full ?mem (fi_cells g y) \<noteq> None" using cell [of y] by (auto simp: cell_full_def)
  qed
  have m128: "fi_m g \<le> 128" using fill_loop_bounds [OF fill] by (simp add: fill_init_def)
  obtain R C where p: "n = 2 + length R" "m = 1 + length C" "set R \<subseteq> {3..<fi_n g}" "set C \<subseteq> {1..<fi_m g}"
      "\<forall>c \<in> set C. full ?mem (fi_cells g c)"
      "\<And>i j. i < n \<Longrightarrow> j < m \<Longrightarrow> cells1 (i * 128 + j) = or_empty (fi_cells g ((0 # 1 # R) ! i * 128 + (0 # C) ! j))"
    using pack_cells_det [OF pack full m128] by blast
  have m: "1 \<le> m" "m \<le> 128"
  proof -
    show "1 \<le> m" using p(2) by simp
    obtain cells1' f cells2' where pr: "pack_rows ?mem f (trim_cols f (fi_m g)) [3..<fi_n g] 2 1 cells1' = Some (cells2', n, m)"
      using pack by (auto simp: pack_cells_def split: Option.bind_splits)
    have "1 \<le> m \<and> m \<le> max 1 (trim_cols f (fi_m g))" using pack_rows_bounds [OF pr] by simp
    then show "m \<le> 128" using trim_cols_le [of f "fi_m g"] m128 by linarith
  qed
  have ptr: "q \<in> ptrs st \<and> (\<exists>s. ptr_str st q = Some s)" if "fi_cells g y = Str q" for y q
    using r that st ptr_readable [OF st(1)] unfolding readable_def by (auto dest!: spec [of _ y])
  have str: "fi_cells g y = Str q" if "or_empty (fi_cells g y) = Str q" for y q
    using that by (simp add: or_empty_def split: if_splits)
  let ?xs = "[0..<m] @ map ((+) 128) [0..<m]"
  have d: "distinct ?xs" using m by (auto simp: distinct_map)
  have head: "cells1 y = Str q \<Longrightarrow> q \<in> ptrs st" if "y \<in> set ?xs" for y q
  proof -
    have "y = 0 * 128 + y \<and> y < m \<or> y = 1 * 128 + (y - 128) \<and> y - 128 < m" using that by auto
    then have "\<exists>i < 2. \<exists>j < m. y = i * 128 + j" by (metis zero_less_numeral one_less_numeral_iff semiring_norm(76))
    then obtain i j where "y = i * 128 + j" "i < 2" "j < m" by blast
    then show "cells1 y = Str q \<Longrightarrow> q \<in> ptrs st" using p(1,6) str ptr by fastforce
  qed
  then have hd: "\<forall>y \<in> set ?xs. \<forall>q. cells1 y = Str q \<longrightarrow> q \<in> ptrs (cm_str ?mem)" by simp
  have ok: "intern_ok (cm_str ?mem)" using st by simp
  from intern_cells_spec [OF heads ok d hd] have h: "intern_ok (cm_str mem2)" "grows st (cm_str mem2)"
    "\<forall>y. y \<notin> set ?xs \<longrightarrow> cells2 y = cells1 y"
    "\<forall>y \<in> set ?xs. \<exists>q s. cells2 y = Str q \<and> q \<in> ptrs (cm_str mem2) \<and> cell_string ?mem (cells1 y) = Some s \<and> ptr_str (cm_str mem2) q = Some s"
    by simp_all
  define tn where "tn j = the (cell_string ?mem (cells1 j))" for j
  have ha: "heads_are (cm_str mem2) cells2 tn m"
    unfolding heads_are_def
  proof (intro allI impI)
    fix j assume "1 \<le> j \<and> j < m"
    then have "j \<in> set ?xs" by simp
    from h(4) [rule_format, OF this] show "\<exists>ty. cells2 j = Str ty \<and> ty \<in> ptrs (cm_str mem2) \<and> ptr_str (cm_str mem2) ty = Some (tn j)"
      by (auto simp: tn_def)
  qed
  have rk: "row_kept (cm_str mem2) cells2 tn i {..<m}" if i: "i \<in> set [2..<n]" for i
  proof (rule row_kept_grows [OF _ h(2)])
    show "\<forall>j \<in> {..<m}. cells2 (i * 128 + j) = cells1 (i * 128 + j)"
    proof
      fix j assume "j \<in> {..<m}"
      then have "i * 128 + j \<notin> set ?xs" using i m(2) by auto
      then show "cells2 (i * 128 + j) = cells1 (i * 128 + j)" using h(3) by blast
    qed
    show "row_kept st cells1 tn i {..<m}"
      unfolding row_kept_def
    proof (intro ballI allI impI)
      fix j q assume j: "j \<in> {..<m}" "cells1 (i * 128 + j) = Str q"
      let ?r = "(0 # 1 # R) ! i" and ?c = "(0 # C) ! j"
      have c: "fi_cells g (?r * 128 + ?c) = Str q" by (rule str) (use p(6) [of i j] i j in auto)
      obtain s where s: "ptr_str st q = Some s" "q \<in> ptrs st" using ptr [OF c] by blast
      have "unaltered (tn j) s" if j1: "1 \<le> j"
      proof -
        have "?c = C ! (j - 1)" "j - 1 < length C" using j1 j(1) p(2) by (auto simp: nth_Cons')
        then have cc: "?c \<in> set C" by simp
        have "?r = R ! (i - 2)" "i - 2 < length R" using i p(1) by (auto simp: nth_Cons' numeral_2_eq_2)
        then have "?r \<in> set R" by simp
        then have b: "3 \<le> ?r \<and> ?r < fi_n g \<and> 1 \<le> ?c \<and> ?c < fi_m g" using cc p(3,4) by auto
        have "full ?mem (fi_cells g ?c)" using p(5) cc by blast
        then have "or_empty (fi_cells g ?c) = fi_cells g ?c" by (auto simp: or_empty_def cell_full_def)
        then have "cells1 j = fi_cells g ?c" using p(1) p(6) [of 0 j] j(1) by simp
        moreover have "\<exists>t. cell_string ?mem (fi_cells g ?c) = Some t"
          using cell [of ?c] \<open>full ?mem (fi_cells g ?c)\<close> by (auto simp: cell_full_def)
        ultimately have "cell_string ?mem (fi_cells g ?c) = Some (tn j)" by (auto simp: tn_def)
        then show ?thesis using kept b c s(1) unfolding shared_unaltered_def by auto
      qed
      then show "q \<in> ptrs st \<and> (\<exists>s. ptr_str st q = Some s \<and> (1 \<le> j \<longrightarrow> unaltered (tn j) s))" using s by blast
    qed
  qed simp
  have rows: "\<forall>i \<in> set [2..<n]. row_kept (cm_str mem2) cells2 tn i {..<m} \<and> 2 \<le> i" using rk by simp
  have "distinct [2..<n]" by simp
  from convert_rows_grows [OF conv h(1) ha rows this m] show ?thesis using grows_trans [OF h(2)] by blast
qed

lemma ptrs_distinct:
  assumes "intern_ok st" "set ps \<subseteq> ptrs st" "distinct ps"
  shows "distinct (map (ptr_str st) ps)"
proof -
  obtain ws where ws: "intern_has st ws" using assms(1) by (auto simp: intern_ok_def)
  have "inj_on (ptr_str st) (set ps)" using intern_once [OF ws] assms(2) by (intro inj_onI) blast
  then show ?thesis using assms(3) by (simp add: distinct_map)
qed

section \<open>A worksheet, from its bytes to its table\<close>

text \<open>With room for the strings, cells are interned.\<close>

lemma intern_cells_runs:
  "intern_ok (cm_str mem) \<Longrightarrow> distinct xs \<Longrightarrow> \<forall>x \<in> set xs. \<forall>p. cells x = Str p \<longrightarrow> p \<in> ptrs (cm_str mem) \<Longrightarrow>
    \<forall>x \<in> set xs. cell_string mem (cells x) = Some (t x) \<Longrightarrow>
    intern_room (cm_str mem) (length xs + n) (sum_list (map (\<lambda>x. length (t x)) xs) + b) \<Longrightarrow>
    \<exists>cells' mem'. intern_cells xs cells mem = Some (Inr (cells', mem')) \<and> intern_room (cm_str mem') n b"
proof (induction xs arbitrary: cells mem)
  case (Cons x xs)
  have x: "cell_string mem (cells x) = Some (t x)" using Cons.prems(4) by simp
  have "intern_room (cm_str mem) (Suc (length xs + n)) (length (t x) + (sum_list (map (\<lambda>x. length (t x)) xs) + b))"
    using Cons.prems(5) by (simp add: add.assoc)
  from getStr_step [OF Cons.prems(1) cell_string_no_zero [OF x] this] obtain p st where g: "getStr (t x) (cm_str mem) = Some (Inr (p, st))"
      "intern_ok st" "grows (cm_str mem) st" "intern_room st (length xs + n) (sum_list (map (\<lambda>x. length (t x)) xs) + b)" by metis
  let ?mem = "mem\<lparr>cm_str := st\<rparr>" and ?cells = "cells(x := Str p)"
  have later: "p \<in> ptrs st \<and> cell_string ?mem (cells y) = Some (t y)" if "y \<in> set xs" "cells y = Str p" for y p
  proof -
    have "p \<in> ptrs (cm_str mem)" "ptr_str (cm_str mem) p = Some (t y)" using Cons.prems(3,4) that by (auto simp: cell_string_def)
    then show ?thesis using g(3) that by (simp add: grows_def cell_string_def)
  qed
  then have "\<forall>y \<in> set xs. cell_string ?mem (cells y) = Some (t y)"
    using Cons.prems(4) by (auto simp: cell_string_def split: cell_ptr.splits)
  moreover have "x \<notin> set xs" "distinct xs" using Cons.prems(2) by simp_all
  ultimately have 1: "\<forall>y \<in> set xs. cell_string ?mem (?cells y) = Some (t y)"
    "\<forall>y \<in> set xs. \<forall>p. ?cells y = Str p \<longrightarrow> p \<in> ptrs (cm_str ?mem)"
    using later by auto
  have m: "intern_ok (cm_str ?mem)" "intern_room (cm_str ?mem) (length xs + n) (sum_list (map (\<lambda>x. length (t x)) xs) + b)"
    using g(2,4) by simp_all
  obtain cells' mem' where "intern_cells xs ?cells ?mem = Some (Inr (cells', mem'))" "intern_room (cm_str mem') n b"
    using Cons.IH [OF m(1) \<open>distinct xs\<close> 1(2,1) m(2)] by blast
  then show ?case using x g(1) by simp
qed simp

text \<open>A cell that is empty or shares a string which the type \<open>string\<close> keeps.\<close>

lemma convert_shared_runs:
  assumes "intern_ok (cm_str mem)" "ty \<in> ptrs (cm_str mem)" "ptr_str (cm_str mem) ty = Some tn_string"
    "p = Lit_empty \<or> p = Str (Buf q)" "cell_string mem p = Some s" "unescape s = s" "newlines s = s"
    "intern_room (cm_str mem) (Suc n) (length s + b)"
  shows "\<exists>r mem'. convert_cell ty p mem = Some (Inr (r, mem')) \<and> intern_ok (cm_str mem') \<and> r \<in> ptrs (cm_str mem') \<and>
    ptr_str (cm_str mem') r = Some s \<and> grows (cm_str mem) (cm_str mem') \<and> intern_room (cm_str mem') n b \<and> cm_xml mem' = cm_xml mem"
proof -
  have u: "unaltered tn_string s" using assms(6,7) by (simp add: unaltered_def tn_defs)
  have "tn_string \<noteq> tn_table" "tn_string \<noteq> tn_tbstr" by (simp_all add: tn_defs)
  then have c: "convert ty p mem = Some (Inr (s, mem))"
    using convert_held [OF held_shared [OF assms(4,5)] type_isI [OF assms(1-3)] u] by simp
  from getStr_step [OF assms(1) cell_string_no_zero [OF assms(5)] assms(8)] obtain r st where
    "getStr s (cm_str mem) = Some (Inr (r, st))" "intern_ok st" "r \<in> ptrs st" "ptr_str st r = Some s" "grows (cm_str mem) st" "intern_room st n b"
    by metis
  then show ?thesis using c by (simp add: convert_cell_def)
qed

text \<open>
  A worksheet: the types \<open>a\<close> and \<open>string\<close>, the names \<open>b\<close> and \<open>n\<close>, a comment \<open>c\<close>, and two rows of data, \<open>x\<close> with
  the shared string 0, which is \<open>h i\<close>, and \<open>y\<close> without a second cell.
\<close>

definition example_cell :: "bytes \<Rightarrow> (bytes \<times> bytes) list \<Rightarrow> bytes \<Rightarrow> (byte \<times> xml_item) list" where
  "example_cell r kvs v = [(60, X_open [99] (([114], r) # kvs) []), (60, X_open [118] [] v), (60, X_close [118]), (60, X_close [99])]"

definition example_sheet :: "(byte \<times> xml_item) list" where
  "example_sheet = (60, X_open [97] [] []) #
     example_cell [65, 49] [] [97] @ example_cell [66, 49] [] [115, 116, 114, 105, 110, 103] @
     example_cell [65, 50] [] [98] @ example_cell [66, 50] [] [110] @ example_cell [65, 51] [] [99] @
     example_cell [65, 52] [] [120] @ example_cell [66, 52] [([116], [115])] [48] @ example_cell [65, 53] [] [121] @ [(60, X_close [97])]"

definition example_sheet_rows :: "(bytes \<times> xcell list) list" where
  "example_sheet_rows = [([49], [(0, None, Some [97]), (1, None, Some [115, 116, 114, 105, 110, 103])]),
     ([50], [(0, None, Some [98]), (1, None, Some [110])]), ([51], [(0, None, Some [99])]),
     ([52], [(0, None, Some [120]), (1, Some [115], Some [48])]), ([53], [(0, None, Some [121])])]"

definition example_shared :: intern where
  "example_shared = \<lparr>in_set = [0], in_buf = [104, 32, 105, 0]\<rparr>"

lemma example_shared_ok: "intern_ok example_shared" "Buf 0 \<in> ptrs example_shared" "ptr_str example_shared (Buf 0) = Some [104, 32, 105]"
proof -
  have sa: "string_at [104, 32, 105, 0 :: byte] 0 = Some [104, 32, 105]"
    by (simp add: string_at_def strlen_at_def block_at_def)
  show "intern_ok example_shared" unfolding intern_ok_def example_shared_def
    by (intro exI [of _ "[[104, 32, 105]]"]) (simp add: intern_has_def sa fix_strings_def)
  show "Buf 0 \<in> ptrs example_shared" "ptr_str example_shared (Buf 0) = Some [104, 32, 105]"
    by (simp_all add: ptrs_def ptr_str_def sa example_shared_def)
qed

lemma example_filled:
  obtains x g where "getXml (xdoc_bytes example_sheet @ [0]) = Some (Inr x)"
    "fill_loop (x_buf x) [Buf 0] (x_dots x) fill_init = Some (Inr g)" "fi_n g = 5" "fi_m g = 2"
    "\<forall>i < 5. entered (x_buf x) [Buf 0] (fi_cells g) i (example_sheet_rows ! i)"
proof -
  have l: "legal_doc example_sheet"
    by (simp add: example_sheet_def example_cell_def legal_tag_def legal_attrs_def scans_on_def kept_def)
  have v: "doc_view example_sheet = sheet_views example_sheet_rows" "doc_kvs example_sheet = 9" "length (sheet_views example_sheet_rows) = 16"
    by (simp_all add: example_sheet_def example_cell_def xml_names_def keeps_def xml_keys_def item_kvs_def sheet_views_def row_views_def
        n_c_def n_v_def col_name.simps example_sheet_rows_def)
  obtain x where x: "getXml (xdoc_bytes example_sheet @ [0]) = Some (Inr x)" "dots_view (x_buf x) (x_dots x) (sheet_views example_sheet_rows)"
    using getXml_doc [OF l, of "[]"] v by (auto simp: dots_view_def)
  have d: "digit_of 49 = Some 1" "digit_of 50 = Some 2" "digit_of 51 = Some 3" "digit_of 52 = Some 4" "digit_of 53 = Some 5"
    "digit_of 48 = Some 0" by (simp_all add: digit_of_def)
  have r: "\<forall>r \<in> set example_sheet_rows. legal_xrow (length [Buf 0]) r \<and> 0 < num_of 10 (fst r)"
    by (simp add: legal_xrow_def is_digit_def num_of_def d example_sheet_rows_def)
  have s: "sorted_wrt (<) (map (\<lambda>r. num_of 10 (fst r)) example_sheet_rows)" "length example_sheet_rows = 5" "sheet_width example_sheet_rows = 2"
    by (simp_all add: example_sheet_rows_def num_of_def d sheet_width_def cell_width_def)
  show ?thesis using that x(1) fill_loop_lists [OF x(2) r _ s(1)] s by auto
qed

lemma convert_row_runs:
  assumes "intern_ok (cm_str mem)" "cells 1 = Str ty" "ty \<in> ptrs (cm_str mem)" "ptr_str (cm_str mem) ty = Some tn_string"
    "cells (i * 128) = Xml a" "string_at (cm_xml mem) a = Some u" "cells (i * 128 + 1) = p" "p = Lit_empty \<or> p = Str (Buf q)"
    "cell_string mem p = Some s" "unescape s = s" "newlines s = s"
    "p \<noteq> Lit_empty \<Longrightarrow> Buf q \<in> ptrs (cm_str mem)"
    "intern_room (cm_str mem) (Suc (Suc n)) (length u + (length s + b))" "1 \<le> i"
  shows "\<exists>k r mem'. convert_rows 2 (i # rest) cells mem = convert_rows 2 rest (cells(i * 128 := Str k, i * 128 + 1 := Str r)) mem' \<and>
    intern_ok (cm_str mem') \<and> {k, r} \<subseteq> ptrs (cm_str mem') \<and> ptr_str (cm_str mem') k = Some u \<and> ptr_str (cm_str mem') r = Some s \<and>
    grows (cm_str mem) (cm_str mem') \<and> intern_room (cm_str mem') n b \<and> cm_xml mem' = cm_xml mem"
proof -
  have "cell_string mem (cells (i * 128)) = Some u" using assms(5,6) by (simp add: cell_string_def)
  note u = this cell_string_no_zero [OF this]
  from getStr_step [OF assms(1) u(2) assms(13)] obtain k st where g: "getStr u (cm_str mem) = Some (Inr (k, st))" "intern_ok st"
      "k \<in> ptrs st" "ptr_str st k = Some u" "grows (cm_str mem) st" "intern_room st (Suc n) (length s + b)" by metis
  let ?mem = "mem\<lparr>cm_str := st\<rparr>" and ?cells = "cells(i * 128 := Str k)"
  have s: "cell_string ?mem p = Some s"
    using assms(8,9,12) g(5) by (auto simp: cell_string_def grows_def)
  have ty: "intern_ok (cm_str ?mem)" "ty \<in> ptrs (cm_str ?mem)" "ptr_str (cm_str ?mem) ty = Some tn_string" "intern_room (cm_str ?mem) (Suc n) (length s + b)"
    using assms(3,4) g by (simp_all add: grows_def)
  from convert_shared_runs [OF ty(1-3) assms(8) s assms(10,11) ty(4)] obtain r mem' where
    r: "convert_cell ty p ?mem = Some (Inr (r, mem'))" "intern_ok (cm_str mem')" "r \<in> ptrs (cm_str mem')" "ptr_str (cm_str mem') r = Some s"
      "grows st (cm_str mem')" "intern_room (cm_str mem') n b" "cm_xml mem' = cm_xml mem" by auto
  have "convert_rows 2 (i # rest) cells mem = convert_rows 2 rest (?cells(i * 128 + 1 := Str r)) mem'"
    using u(1) g(1) r(1) assms(2,7,14) by (simp add: upt_conv_Cons)
  moreover have "k \<in> ptrs (cm_str mem') \<and> ptr_str (cm_str mem') k = Some u" using g(3,4) r(5) by (simp add: grows_def)
  ultimately show ?thesis using r grows_trans [OF g(5) r(5)] by blast
qed

lemma entered_at:
  "entered xml vs cells i r \<Longrightarrow> j < 128 \<Longrightarrow> map_of (snd r) j = Some (t, v) \<Longrightarrow> cell_holds xml vs (cells (i * 128 + j)) (j, t, v)"
  "entered xml vs cells i r \<Longrightarrow> j < 128 \<Longrightarrow> map_of (snd r) j = None \<Longrightarrow> cells (i * 128 + j) = Null"
  by (auto simp: entered_def dest!: spec [of _ j])

text \<open>Its cells before they are packed; a text is one of the sheet.\<close>

definition text_cell :: "bytes \<Rightarrow> cell_ptr \<Rightarrow> bytes \<Rightarrow> bool" where
  "text_cell xml p s \<longleftrightarrow> (\<exists>q. p = Xml q \<and> string_at xml q = Some s)"

lemma example_cells:
  assumes "\<forall>i < 5. entered xml [Buf 0] cells i (example_sheet_rows ! i)"
  shows "text_cell xml (cells 0) [97]" "text_cell xml (cells 1) [115, 116, 114, 105, 110, 103]" "text_cell xml (cells 128) [98]"
    "text_cell xml (cells 129) [110]" "text_cell xml (cells 384) [120]" "cells 385 = Str (Buf 0)" "text_cell xml (cells 512) [121]"
    "cells 513 = Null"
proof -
  have e: "entered xml [Buf 0] cells i (example_sheet_rows ! i)" if "i < 5" for i using assms that by blast
  have z: "num_of 10 [48] = 0" by (simp add: num_of_def digit_of_def)
  note at = entered_at [OF e] and ex = example_sheet_rows_def text_cell_def
  show "text_cell xml (cells 0) [97]" using at(1) [of 0 0] by (simp add: ex)
  show "text_cell xml (cells 1) [115, 116, 114, 105, 110, 103]" using at(1) [of 0 1] by (simp add: ex)
  show "text_cell xml (cells 128) [98]" using at(1) [of 1 0] by (simp add: ex)
  show "text_cell xml (cells 129) [110]" using at(1) [of 1 1] by (simp add: ex)
  show "text_cell xml (cells 384) [120]" using at(1) [of 3 0] by (simp add: ex numeral_3_eq_3)
  show "cells 385 = Str (Buf 0)" using at(1) [of 3 1] by (simp add: ex numeral_3_eq_3 z)
  show "text_cell xml (cells 512) [121]" using at(1) [of 4 0] by (simp add: ex numeral_eq_Suc)
  show "cells 513 = Null" using at(2) [of 4 1] by (simp add: ex numeral_eq_Suc)
qed

lemma text_cell_facts:
  "text_cell (cm_xml mem) p s \<Longrightarrow> cell_string mem p = Some s" "text_cell (cm_xml mem) p s \<Longrightarrow> s \<noteq> [] \<Longrightarrow> full mem p"
  "text_cell xml p s \<Longrightarrow> or_empty p = p" "text_cell xml p s \<Longrightarrow> p \<noteq> Str q"
  by (auto simp: text_cell_def cell_string_def cell_full_def or_empty_def)

lemma example_packed:
  assumes "\<forall>i < 5. entered (cm_xml mem) [Buf 0] cells i (example_sheet_rows ! i)" "\<forall>y. cell_full mem (cells y) \<noteq> None"
  obtains c where "pack_cells f0 mem 5 2 cells = Some (c, 4, 2)" "c 0 = cells 0" "c 1 = cells 1" "c 128 = cells 128" "c 129 = cells 129"
    "c 256 = cells 384" "c 257 = Str (Buf 0)" "c 384 = cells 512" "c 385 = Lit_empty"
proof -
  note e = example_cells [OF assms(1)]
  have f: "full mem (cells 1)" "full mem (cells 129)" "full mem (cells (3 * 128))" "full mem (cells (4 * 128))"
    using e(2,4,5,7) text_cell_facts(2) by simp_all
  have 35: "[3..<5] = [3, 4]" "[1..<2] = [1 :: nat]" by (simp_all add: upt_conv_Cons)
  have R: "[3, 4] = filter (\<lambda>i. full mem (cells (i * 128))) [3..<5]" using f unfolding 35 by simp
  have C: "[1] = (if [3 :: nat, 4] = [] then [] else filter (good_col mem cells) [1..<2])"
    using f unfolding 35 by (simp add: good_col_def)
  obtain c where c: "pack_cells f0 mem 5 2 cells = Some (c, 4, 2)"
      "\<And>i j. i < 4 \<Longrightarrow> j < 2 \<Longrightarrow> c (i * 128 + j) = or_empty (cells ((0 # 1 # [3, 4]) ! i * 128 + (0 # [1]) ! j))"
    using pack_cells_result [OF assms(2) _ R C, of f0] by auto
  have o: "or_empty (cells 0) = cells 0" "or_empty (cells 1) = cells 1" "or_empty (cells 128) = cells 128" "or_empty (cells 129) = cells 129"
    "or_empty (cells 384) = cells 384" "or_empty (cells 512) = cells 512"
    using e text_cell_facts(3) by blast+
  have "c 0 = cells 0" "c 1 = cells 1" "c 128 = cells 128" "c 129 = cells 129"
    using c(2) [of 0 0] c(2) [of 0 1] c(2) [of 1 0] c(2) [of 1 1] o by simp_all
  moreover have "c 256 = cells 384" "c 257 = Str (Buf 0)" "c 384 = cells 512" "c 385 = Lit_empty"
    using c(2) [of 2 0] c(2) [of 2 1] c(2) [of 3 0] c(2) [of 3 1] o e(6,8) by (simp_all add: or_empty_def numeral_3_eq_3)
  ultimately show ?thesis using that c(1) by blast
qed

text \<open>The heads, and the rows of data.\<close>

lemma example_interned:
  assumes "text_cell xml (c 0) [97]" "text_cell xml (c 1) [115, 116, 114, 105, 110, 103]" "text_cell xml (c 128) [98]"
    "text_cell xml (c 129) [110]"
  shows "\<exists>c' mem. intern_cells [0, 1, 128, 129] c \<lparr>cm_xml = xml, cm_str = example_shared\<rparr> = Some (Inr (c', mem)) \<and>
    cm_xml mem = xml \<and> intern_ok (cm_str mem) \<and> grows example_shared (cm_str mem) \<and> intern_room (cm_str mem) 4 5 \<and>
    (\<forall>x. x \<notin> {0, 1, 128, 129} \<longrightarrow> c' x = c x) \<and>
    (\<forall>x \<in> {0, 1, 128, 129}. \<exists>p. c' x = Str p \<and> p \<in> ptrs (cm_str mem) \<and>
       cell_string \<lparr>cm_xml = xml, cm_str = example_shared\<rparr> (c x) = ptr_str (cm_str mem) p)"
proof -
  let ?mem = "\<lparr>cm_xml = xml, cm_str = example_shared\<rparr>" and ?xs = "[0, 1, 128, 129 :: nat]"
  let ?t = "\<lambda>x :: nat. if x = 0 then [97] else if x = 1 then [115, 116, 114, 105, 110, 103] else if x = 128 then [98] else [110 :: byte]"
  have ok: "intern_ok (cm_str ?mem)" "distinct ?xs" using example_shared_ok by simp_all
  have p: "\<forall>x \<in> set ?xs. \<forall>p. c x = Str p \<longrightarrow> p \<in> ptrs (cm_str ?mem)" using assms text_cell_facts(4) by auto
  have t: "\<forall>x \<in> set ?xs. cell_string ?mem (c x) = Some (?t x)" using assms text_cell_facts(1) [of ?mem] by auto
  have "intern_room (cm_str ?mem) (length ?xs + 4) (sum_list (map (\<lambda>x. length (?t x)) ?xs) + 5)"
    by (simp add: intern_room_def example_shared_def)
  from intern_cells_runs [OF ok p t this] obtain c' mem where
    r: "intern_cells ?xs c ?mem = Some (Inr (c', mem))" "intern_room (cm_str mem) 4 5" by blast
  show ?thesis using r intern_cells_spec [OF r(1) ok p] by (auto intro!: exI [of _ c'] exI [of _ mem])
qed

lemma example_converted:
  assumes "intern_ok (cm_str mem)" "cells 1 = Str ty" "ty \<in> ptrs (cm_str mem)" "ptr_str (cm_str mem) ty = Some tn_string"
    "text_cell (cm_xml mem) (cells 256) [120]" "text_cell (cm_xml mem) (cells 384) [121]" "cells 257 = Str (Buf 0)" "cells 385 = Lit_empty"
    "grows example_shared (cm_str mem)" "intern_room (cm_str mem) 4 5"
  shows "\<exists>k1 r1 k2 r2 mem'. convert_rows 2 [2, 3] cells mem = Some (Inr (cells(256 := Str k1, 257 := Str r1, 384 := Str k2, 385 := Str r2), mem')) \<and>
    grows (cm_str mem) (cm_str mem') \<and> map (ptr_str (cm_str mem')) [k1, r1, k2, r2] = [Some [120], Some [104, 32, 105], Some [121], Some []]"
proof -
  have h: "Buf 0 \<in> ptrs (cm_str mem)" "ptr_str (cm_str mem) (Buf 0) = Some [104, 32, 105]"
    using example_shared_ok(2,3) assms(9) by (simp_all add: grows_def)
  obtain a where a: "cells (2 * 128) = Xml a" "string_at (cm_xml mem) a = Some [120]" using assms(5) by (auto simp: text_cell_def)
  obtain b where b: "cells (3 * 128) = Xml b" "string_at (cm_xml mem) b = Some [121]" using assms(6) by (auto simp: text_cell_def)
  have c1: "cells (2 * 128 + 1) = Str (Buf 0)" "cell_string mem (Str (Buf 0)) = Some [104, 32, 105]"
    using assms(7) h(2) by (simp_all add: cell_string_def)
  have s1: "unescape [104, 32, 105] = [104, 32, 105]" "newlines [104, 32, 105] = [104, 32, 105]" "unescape [] = []" "newlines [] = []"
    by (simp_all add: unescape_def newlines_def replace_all.simps)
  have two: "1 \<le> (2 :: nat)" by simp
  have "intern_room (cm_str mem) (Suc (Suc 2)) (length [120 :: byte] + (length [104, 32, 105 :: byte] + 1))" using assms(10) by (simp add: eval_nat_numeral)
  from convert_row_runs [OF assms(1-4) a c1(1) disjI2 [OF refl] c1(2) s1(1,2) h(1) this two, where rest = "[3]"] obtain k1 r1 m1 where
    1: "convert_rows 2 [2, 3] cells mem = convert_rows 2 [3] (cells(2 * 128 := Str k1, 2 * 128 + 1 := Str r1)) m1" "intern_ok (cm_str m1)"
      "{k1, r1} \<subseteq> ptrs (cm_str m1)" "ptr_str (cm_str m1) k1 = Some [120]" "ptr_str (cm_str m1) r1 = Some [104, 32, 105]"
      "grows (cm_str mem) (cm_str m1)" "intern_room (cm_str m1) 2 1" "cm_xml m1 = cm_xml mem" by blast
  let ?c = "cells(2 * 128 := Str k1, 2 * 128 + 1 := Str r1)"
  have ty: "?c 1 = Str ty" "ty \<in> ptrs (cm_str m1)" "ptr_str (cm_str m1) ty = Some tn_string" using assms(2-4) 1(6) by (simp_all add: grows_def)
  have b': "?c (3 * 128) = Xml b" "string_at (cm_xml m1) b = Some [121]" using b 1(8) by simp_all
  have c2: "?c (3 * 128 + 1) = Lit_empty" "cell_string m1 Lit_empty = Some []" using assms(8) by (simp_all add: cell_string_def)
  have three: "1 \<le> (3 :: nat)" by simp
  have "intern_room (cm_str m1) (Suc (Suc 0)) (length [121 :: byte] + (length ([] :: bytes) + 0))" using 1(7) by (simp add: eval_nat_numeral)
  from convert_row_runs [OF 1(2) ty b' c2(1) disjI1 [OF refl] c2(2) s1(3,4) _ this three, where rest = "[]"] obtain k2 r2 m2 where
    2: "convert_rows 2 [3] ?c m1 = convert_rows 2 [] (?c(3 * 128 := Str k2, 3 * 128 + 1 := Str r2)) m2"
      "ptr_str (cm_str m2) k2 = Some [121]" "ptr_str (cm_str m2) r2 = Some []" "grows (cm_str m1) (cm_str m2)" by blast
  have "ptr_str (cm_str m2) k1 = Some [120]" "ptr_str (cm_str m2) r1 = Some [104, 32, 105]" using 1(3-5) 2(4) by (simp_all add: grows_def)
  then show ?thesis using 1(1) 2 grows_trans [OF 1(6) 2(4)]
    by (intro exI [of _ k1] exI [of _ r1] exI [of _ k2] exI [of _ r2] exI [of _ m2]) simp
qed

lemma example_returns:
  assumes "inj addr"
  shows "\<exists>rows st. getVvs f0 addr [Buf 0] (xdoc_bytes example_sheet @ [0]) example_shared 0 = Some (Inr (rows, st, 96)) \<and>
    map (map (ptr_str st)) rows = map (map Some) [[[97], [115, 116, 114, 105, 110, 103]], [[98], [110]], [[120], [104, 32, 105]], [[121], []]]"
proof -
  obtain x g where s: "getXml (xdoc_bytes example_sheet @ [0]) = Some (Inr x)" "fill_loop (x_buf x) [Buf 0] (x_dots x) fill_init = Some (Inr g)"
      "fi_n g = 5" "fi_m g = 2" "\<forall>i < 5. entered (x_buf x) [Buf 0] (fi_cells g) i (example_sheet_rows ! i)"
    by (rule example_filled)
  let ?mem = "\<lparr>cm_xml = x_buf x, cm_str = example_shared\<rparr>"
  have "readable ?mem [Buf 0] (fi_cells fill_init)" by (simp add: readable_def fill_init_def)
  then have "readable ?mem [Buf 0] (fi_cells g)" using fill_loop_readable [of ?mem "[Buf 0]" "x_dots x" fill_init g] s(2) by simp
  from readable_cell [OF this] have "fi_cells g y = Null \<or> (\<exists>s. cell_string ?mem (fi_cells g y) = Some s)" for y
    using example_shared_ok by simp
  then have full: "\<forall>y. cell_full ?mem (fi_cells g y) \<noteq> None" unfolding cell_full_def by fastforce
  have e: "\<forall>i < 5. entered (cm_xml ?mem) [Buf 0] (fi_cells g) i (example_sheet_rows ! i)" using s(5) by simp
  obtain c where c: "pack_cells f0 ?mem 5 2 (fi_cells g) = Some (c, 4, 2)" "c 0 = fi_cells g 0" "c 1 = fi_cells g 1" "c 128 = fi_cells g 128"
      "c 129 = fi_cells g 129" "c 256 = fi_cells g 384" "c 257 = Str (Buf 0)" "c 384 = fi_cells g 512" "c 385 = Lit_empty"
    by (rule example_packed [OF e full])
  have t: "text_cell (x_buf x) (c 0) [97]" "text_cell (x_buf x) (c 1) [115, 116, 114, 105, 110, 103]" "text_cell (x_buf x) (c 128) [98]"
      "text_cell (x_buf x) (c 129) [110]" "text_cell (x_buf x) (c 256) [120]" "text_cell (x_buf x) (c 384) [121]"
    using example_cells [OF s(5)] c by simp_all
  obtain c' mem where i: "intern_cells [0, 1, 128, 129] c ?mem = Some (Inr (c', mem))" "cm_xml mem = x_buf x" "intern_ok (cm_str mem)"
      "grows example_shared (cm_str mem)" "intern_room (cm_str mem) 4 5" "\<forall>x. x \<notin> {0, 1, 128, 129} \<longrightarrow> c' x = c x"
      "\<forall>y \<in> {0, 1, 128, 129}. \<exists>p. c' y = Str p \<and> p \<in> ptrs (cm_str mem) \<and> cell_string ?mem (c y) = ptr_str (cm_str mem) p"
    using example_interned [OF t(1-4)] by auto
  have str: "text_cell (x_buf x) p u \<Longrightarrow> cell_string ?mem p = Some u" for p u using text_cell_facts(1) [of ?mem] by simp
  obtain p0 where p0: "c' 0 = Str p0" "p0 \<in> ptrs (cm_str mem)" "ptr_str (cm_str mem) p0 = Some [97]" using i(7) str [OF t(1)] by auto
  obtain p1 where p1: "c' 1 = Str p1" "p1 \<in> ptrs (cm_str mem)" "ptr_str (cm_str mem) p1 = Some [115, 116, 114, 105, 110, 103]"
    using i(7) str [OF t(2)] by auto
  obtain p2 where p2: "c' 128 = Str p2" "p2 \<in> ptrs (cm_str mem)" "ptr_str (cm_str mem) p2 = Some [98]" using i(7) str [OF t(3)] by auto
  obtain p3 where p3: "c' 129 = Str p3" "p3 \<in> ptrs (cm_str mem)" "ptr_str (cm_str mem) p3 = Some [110]" using i(7) str [OF t(4)] by auto
  have tn: "ptr_str (cm_str mem) p1 = Some tn_string" using p1(3) by (simp add: tn_string_def)
  have d: "text_cell (cm_xml mem) (c' 256) [120]" "text_cell (cm_xml mem) (c' 384) [121]" "c' 257 = Str (Buf 0)" "c' 385 = Lit_empty"
    using i(2,6) t c by simp_all
  obtain k1 r1 k2 r2 mem' where v: "convert_rows 2 [2, 3] c' mem =
        Some (Inr (c'(256 := Str k1, 257 := Str r1, 384 := Str k2, 385 := Str r2), mem'))" "grows (cm_str mem) (cm_str mem')"
      "map (ptr_str (cm_str mem')) [k1, r1, k2, r2] = [Some [120], Some [104, 32, 105], Some [121], Some []]"
    using example_converted [OF i(3) p1(1,2) tn d i(4,5)] by (elim exE conjE) (drule (2) that)
  let ?rows = "[[p0, p1], [p2, p3], [k1, r1], [k2, r2]]"
  let ?c = "c'(256 := Str k1, 257 := Str r1, 384 := Str k2, 385 := Str r2)"
  have rows: "those (map (row_ptrs ?c 2) [0..<4]) = Some ?rows"
    using p0(1) p1(1) p2(1) p3(1) by (simp add: row_ptrs_def upt_conv_Cons)
  have "k1 \<noteq> k2" using v(3) by auto
  then have check: "check_table addr 2 ?rows 0 = Inr 96" by (simp add: check_table_def has_same_distinct [OF assms])
  have xs: "[0..<2] @ map ((+) 128) [0..<2] = [0, 1, 128, 129 :: nat]" "[2..<4] = [2, 3 :: nat]" by (simp_all add: upt_conv_Cons)
  have "getVvs f0 addr [Buf 0] (xdoc_bytes example_sheet @ [0]) example_shared 0 = Some (Inr (?rows, cm_str mem', 96))"
    unfolding getVvs_def s(1) by (simp add: s(2-4) c(1) xs i(1) [unfolded One_nat_def] v(1) rows check del: fun_upd_apply convert_rows.simps intern_cells.simps)
  moreover have "map (map (ptr_str (cm_str mem'))) ?rows = map (map Some) [[[97], [115, 116, 114, 105, 110, 103]], [[98], [110]], [[120], [104, 32, 105]], [[121], []]]"
    using v(2,3) p0 p1 p2 p3 by (simp add: grows_def)
  ultimately show ?thesis by blast
qed

lemma example_unaltered:
  assumes "getXml (xdoc_bytes example_sheet @ [0]) = Some (Inr x)" "fill_loop (x_buf x) [Buf 0] (x_dots x) fill_init = Some (Inr g)"
  shows "shared_unaltered \<lparr>cm_xml = x_buf x, cm_str = example_shared\<rparr> (fi_cells g) (fi_n g) (fi_m g)"
proof -
  obtain x' g' where s: "getXml (xdoc_bytes example_sheet @ [0]) = Some (Inr x')" "fill_loop (x_buf x') [Buf 0] (x_dots x') fill_init = Some (Inr g')"
      "fi_n g' = 5" "fi_m g' = 2" "\<forall>i < 5. entered (x_buf x') [Buf 0] (fi_cells g') i (example_sheet_rows ! i)"
    by (rule example_filled)
  then have g: "fi_n g = 5" "fi_m g = 2" "\<forall>i < 5. entered (x_buf x) [Buf 0] (fi_cells g) i (example_sheet_rows ! i)" using assms by auto
  note e = example_cells [OF g(3)]
  have keep: "unaltered tn s" if c: "3 \<le> i" "i < 5" "cell_string \<lparr>cm_xml = x_buf x, cm_str = example_shared\<rparr> (fi_cells g 1) = Some tn"
    "fi_cells g (i * 128 + 1) = Str q" "ptr_str example_shared q = Some s" for i q tn s
  proof -
    have "i = 3 \<or> i = 4" using c(1,2) by auto
    then have i: "i = 3" using c(4) e(8) by auto
    then have q: "s = [104, 32, 105]" using c(4,5) e(6) example_shared_ok(3) by auto
    have "cell_string \<lparr>cm_xml = x_buf x, cm_str = example_shared\<rparr> (fi_cells g 1) = Some tn_string"
      using e(2) by (auto simp: text_cell_def cell_string_def tn_string_def)
    then have "tn = tn_string" using c(3) by simp
    then show ?thesis unfolding q by (simp add: unaltered_def tn_defs unescape_def newlines_def replace_all.simps)
  qed
  show ?thesis unfolding shared_unaltered_def g(1,2)
  proof (intro allI impI)
    fix i j q tn s
    assume c: "3 \<le> i \<and> i < 5 \<and> 1 \<le> j \<and> j < 2 \<and> cell_string \<lparr>cm_xml = x_buf x, cm_str = example_shared\<rparr> (fi_cells g j) = Some tn \<and>
      fi_cells g (i * 128 + j) = Str q \<and> ptr_str (cm_str \<lparr>cm_xml = x_buf x, cm_str = example_shared\<rparr>) q = Some s"
    then have "j = 1" by simp
    with c show "unaltered tn s" using keep [of i tn q s] by simp
  qed
qed

section \<open>The result is a table\<close>

text \<open>
  C14. If \<open>getVvs\<close> returns, its result is a table, whatever the sheet holds: all rows have the same number
  of cells, every cell is a string of the string table, the texts of the identifiers of its rows are distinct and so are the names
  of its fields, and exactly the bytes for its pointers have been taken from a memory of 4 MB. The string table stays in order, and the
  strings handed out before stay what they were. It is assumed that the conversions change no shared string (\<open>shared_unaltered\<close>: none in a row of data
  has a name of XML to replace, and in the columns of tables nothing to take out); without this, equal identifiers may be
  missed (\<open>convert_breaks_order\<close>).
\<close>

theorem getVvs_table:
  assumes "getVvs f0 addr vs buf st used = Some (Inr (rows, st', used'))" "inj addr" "intern_ok st" "set vs \<subseteq> ptrs st"
    "\<And>x g. getXml buf = Some (Inr x) \<Longrightarrow> fill_loop (x_buf x) vs (x_dots x) fill_init = Some (Inr g) \<Longrightarrow>
       shared_unaltered \<lparr>cm_xml = x_buf x, cm_str = st\<rparr> (fi_cells g) (fi_n g) (fi_m g)"
  shows "\<exists>m. 2 \<le> length rows \<and> length rows \<le> 20000 \<and> 1 \<le> m \<and> m \<le> 128 \<and>
    (\<forall>r \<in> set rows. length r = m \<and> set r \<subseteq> ptrs st') \<and>
    distinct (map (\<lambda>r. ptr_str st' (hd r)) (drop 2 rows)) \<and> distinct (map (ptr_str st') (tl (rows ! 1))) \<and>
    intern_ok st' \<and> grows st st' \<and> used' = used + length rows * ((m + 1) * 8) \<and> used' \<le> 4194304"
proof -
  obtain x g cells1 n m cells2 mem2 cells3 mem3 where s: "getXml buf = Some (Inr x)"
      "fill_loop (x_buf x) vs (x_dots x) fill_init = Some (Inr g)" "\<not> fi_n g < 2"
      "pack_cells f0 \<lparr>cm_xml = x_buf x, cm_str = st\<rparr> (fi_n g) (fi_m g) (fi_cells g) = Some (cells1, n, m)"
      "intern_cells ([0..<m] @ map ((+) 128) [0..<m]) cells1 \<lparr>cm_xml = x_buf x, cm_str = st\<rparr> = Some (Inr (cells2, mem2))"
      "convert_rows m [2..<n] cells2 mem2 = Some (Inr (cells3, mem3))"
      "those (map (row_ptrs cells3 m) [0..<n]) = Some rows" "check_table addr m rows used = Inr used'" "st' = cm_str mem3"
    using assms(1) by (auto simp: getVvs_def ok_then_Inr split: Option.bind_splits if_splits)
  have st: "intern_ok st'" "grows st st'"
    using getVvs_str [OF s(2,4,5,6) assms(3,4)] assms(5) [OF s(1,2)] s(9) by simp_all
  from getVvs_shape [OF assms(1,2)] obtain m where m: "2 \<le> length rows" "length rows \<le> 20000" "1 \<le> m" "m \<le> 128"
    "\<forall>r \<in> set rows. length r = m \<and> set r \<subseteq> ptrs st'" "distinct (map hd (drop 2 rows))" "distinct (tl (rows ! 1))"
    "used' = used + length rows * ((m + 1) * 8)" "used' \<le> 4194304" by blast
  have "hd r \<in> ptrs st'" if "r \<in> set rows" for r
  proof -
    have "r \<noteq> []" using m(3,5) that by force
    then show ?thesis using m(5) that hd_in_set by blast
  qed
  then have "set (map hd (drop 2 rows)) \<subseteq> ptrs st'" by (auto dest: in_set_dropD)
  from ptrs_distinct [OF st(1) this m(6)] have 1: "distinct (map (\<lambda>r. ptr_str st' (hd r)) (drop 2 rows))" by (simp add: comp_def)
  have "rows ! 1 \<in> set rows" using m(1) by simp
  then have "set (tl (rows ! 1)) \<subseteq> ptrs st'" using m(5) by (metis list.set_sel(2) list.sel(2) subset_code(1))
  from ptrs_distinct [OF st(1) this m(7)] 1 st m show ?thesis by (intro exI [of _ m]) simp
qed

theorem getVvs_table_witness:
  "\<exists>rows st. getVvs True (case_str_ptr int (\<lambda>q. - 1 - int q)) [Buf 0] (xdoc_bytes example_sheet @ [0]) example_shared 0 =
      Some (Inr (rows, st, 96)) \<and>
    map (map (ptr_str st)) rows = map (map Some) [[[97], [115, 116, 114, 105, 110, 103]], [[98], [110]], [[120], [104, 32, 105]], [[121], []]] \<and>
    distinct (map (\<lambda>r. ptr_str st (hd r)) (drop 2 rows)) \<and> ptr_str st (Buf 0) = Some [104, 32, 105]"
proof -
  let ?addr = "case_str_ptr int (\<lambda>q. - 1 - int q)"
  have a: "inj ?addr" by (rule injI) (auto split: str_ptr.splits)
  obtain rows st where r: "getVvs True ?addr [Buf 0] (xdoc_bytes example_sheet @ [0]) example_shared 0 = Some (Inr (rows, st, 96))"
      "map (map (ptr_str st)) rows = map (map Some) [[[97], [115, 116, 114, 105, 110, 103]], [[98], [110]], [[120], [104, 32, 105]], [[121], []]]"
    using example_returns [OF a] by blast
  have vs: "set [Buf 0] \<subseteq> ptrs example_shared" using example_shared_ok(2) by simp
  from getVvs_table [OF r(1) a example_shared_ok(1) vs example_unaltered]
  have "distinct (map (\<lambda>r. ptr_str st (hd r)) (drop 2 rows))" "grows example_shared st" by auto
  then show ?thesis using r example_shared_ok(2,3) by (auto simp: grows_def)
qed

end
