(* ===== verification/XlsxZip.thy ===== *)
theory XlsxZip
  imports XlsxXml InflateBlocks
begin

text \<open>
  The archive of a workbook (\<open>main\<close> and \<open>fileStr\<close> in \<open>myxml2/myxml2.cpp\<close>): the headers of its
  files are read one after the other, the files that matter are noted in a table, and \<open>fileStr\<close>
  reads one of them and unpacks it. The open file is its bytes and the position; \<open>fread\<close> gives what
  there is from there, \<open>fseek\<close> fails before the beginning.
\<close>

section \<open>The headers\<close>

record tri =
  tri_filename :: bytes
  tri_compressionMethod :: int
  tri_compressedSize :: int
  tri_uncompressedSize :: int
  tri_offset :: int

text \<open>The rules: \<open>xl/sharedStrings.xml\<close>, \<open>xl/worksheets/sheet\<close>, \<open>xl/workbook.xml\<close>.\<close>

definition zip_rules :: "bytes list" where
  "zip_rules =
     [[120, 108, 47, 115, 104, 97, 114, 101, 100, 83, 116, 114, 105, 110, 103, 115, 46, 120, 109, 108],
      [120, 108, 47, 119, 111, 114, 107, 115, 104, 101, 101, 116, 115, 47, 115, 104, 101, 101, 116],
      [120, 108, 47, 119, 111, 114, 107, 98, 111, 111, 107, 46, 120, 109, 108]]"

text \<open>\<open>.xml\<close> at the end, and one of the rules at the beginning.\<close>

definition zip_wanted :: "bytes \<Rightarrow> bool" where
  "zip_wanted name \<longleftrightarrow> 4 \<le> length name \<and> drop (length name - 4) name = [46, 120, 109, 108] \<and>
     list_ex (\<lambda>r. length r \<le> length name \<and> take (length r) name = r) zip_rules"

definition file_read :: "bytes \<Rightarrow> int \<Rightarrow> nat \<Rightarrow> bytes" where
  "file_read f pos n = take n (drop (nat pos) f)"

definition zip_field :: "nat \<Rightarrow> nat \<Rightarrow> bytes \<Rightarrow> int" where
  "zip_field at n h = le_val (block_at at n h)"

text \<open>An entry after its header \<open>h\<close>, which ends at \<open>pos\<close>: the table, and the position of the next.\<close>

definition zip_entry :: "bytes \<Rightarrow> bytes \<Rightarrow> int \<Rightarrow> tri list \<Rightarrow> xlsx_error + tri list \<times> int" where
  "zip_entry f h pos files =
     (let version = s16 (zip_field 4 2 h); flags = s16 (zip_field 6 2 h); method = s16 (zip_field 8 2 h);
          csize = s32 (zip_field 18 4 h); usize = s32 (zip_field 22 4 h);
          n = s16 (zip_field 26 2 h); extra = s16 (zip_field 28 2 h)
      in if \<not> (version = 20 \<or> version = 10) then Inl Err_zip_entry
      else if \<not> (flags = 6 \<or> flags = 0) then Inl Err_zip_entry
      else if \<not> (method = 8 \<or> method = 0) then Inl Err_zip_entry
      else if \<not> (method \<noteq> 0 \<or> csize = usize) then Inl Err_zip_entry
      else if 512 \<le> length files then Inl Err_many_files
      else if n < 0 \<or> 64 \<le> n then Inl Err_long_name
      else let name = file_read f pos (nat n); pos1 = pos + int (length name); pos2 = pos1 + extra
      in if length name \<noteq> nat n then Inl Err_zip_read
      else if pos2 < 0 then Inl Err_zip_read
      else let files1 = (if zip_wanted name then files @ [\<lparr>tri_filename = c_string name, tri_compressionMethod = method,
             tri_compressedSize = csize, tri_uncompressedSize = usize, tri_offset = s32 pos2\<rparr>] else files)
      in if pos2 + csize < 0 then Inl Err_zip_read
      else Inr (files1, pos2 + csize))"

text \<open>Of a header that is cut off only the signature is defined.\<close>

partial_function (option) zip_headers :: "bytes \<Rightarrow> int \<Rightarrow> tri list \<Rightarrow> (xlsx_error + tri list) option" where
  "zip_headers f pos files =
     (let h = file_read f pos 30
      in if take 4 h \<noteq> [80, 75, 3, 4] then Some (Inr files)
      else if length h < 30 then None
      else ok_then (Some (zip_entry f h (pos + 30) files)) (\<lambda>(files, pos). zip_headers f pos files))"

section \<open>fileStr\<close>

text \<open>
  What the file unpacks to. \<open>old\<close> is what the static buffer \<open>bufCompress\<close> holds from the file before, and the trees of
  the decompressor are not initialised.
\<close>

definition unpack :: "tinfTree \<Rightarrow> tinfTree \<Rightarrow> tinfTree \<Rightarrow> nat \<Rightarrow> bytes \<Rightarrow> bytes \<Rightarrow> tri \<Rightarrow> (xlsx_error + bytes) option" where
  "unpack junk ljunk djunk cap f old t =
     (if tri_compressionMethod t = 8 then
        if tri_compressedSize t < 0 \<or> 4194304 < tri_compressedSize t then Some (Inl Err_file_too_big)
        else let n = nat (tri_compressedSize t); src = file_read f (tri_offset t) n
        in if n = 0 \<or> length src \<noteq> n then Some (Inl Err_file_read)
        else do {
          r \<leftarrow> tinfUncompress junk ljunk djunk cap (src @ drop n old);
          (case r of
             Inl e \<Rightarrow> Some (Inl Err_inflate)
           | Inr out \<Rightarrow> if int (length out) \<noteq> tri_uncompressedSize t then Some (Inl Err_inflate) else Some (Inr out))
        }
      else if tri_compressionMethod t = 0 then
        if tri_uncompressedSize t < 0 then None
        else let n = nat (tri_uncompressedSize t); out = file_read f (tri_offset t) n
        in if n = 0 \<or> length out \<noteq> n then Some (Inl Err_file_read) else Some (Inr out)
      else Some (Inl Err_file_method))"

fun fileStr ::
    "tinfTree \<Rightarrow> tinfTree \<Rightarrow> tinfTree \<Rightarrow> nat \<Rightarrow> bytes \<Rightarrow> bytes \<Rightarrow> bytes \<Rightarrow> tri list \<Rightarrow> (xlsx_error + bytes) option" where
  "fileStr junk ljunk djunk cap f old filename [] = Some (Inl Err_file_missing)"
| "fileStr junk ljunk djunk cap f old filename (t # ts) =
     (if strcmp (tri_filename t) filename \<noteq> 0 then fileStr junk ljunk djunk cap f old filename ts
      else if tri_offset t < 0 then Some (Inl Err_file_read)
      else if int cap \<le> tri_uncompressedSize t then Some (Inl Err_file_too_big)
      else ok_then (unpack junk ljunk djunk cap f old t) (\<lambda>out. Some (Inr (out @ [0]))))"

section \<open>Archives\<close>

text \<open>A file of an archive, and its bytes; \<open>time\<close> is the times and the checksum, which are not used.\<close>

record member =
  mb_name :: bytes
  mb_extra :: bytes
  mb_version :: int
  mb_flags :: int
  mb_deflated :: bool
  mb_time :: bytes
  mb_data :: bytes
  mb_size :: int

definition member_head :: "member \<Rightarrow> bytes" where
  "member_head m = [80, 75, 3, 4] @ le_bytes 2 (mb_version m) @ le_bytes 2 (mb_flags m) @
     le_bytes 2 (if mb_deflated m then 8 else 0) @ mb_time m @ le_bytes 4 (int (length (mb_data m))) @
     le_bytes 4 (mb_size m) @ le_bytes 2 (int (length (mb_name m))) @ le_bytes 2 (int (length (mb_extra m)))"

definition member_bytes :: "member \<Rightarrow> bytes" where
  "member_bytes m = member_head m @ mb_name m @ mb_extra m @ mb_data m"

definition archive_bytes :: "member list \<Rightarrow> bytes" where
  "archive_bytes ms = concat (map member_bytes ms)"

definition legal_member :: "member \<Rightarrow> bool" where
  "legal_member m \<longleftrightarrow> mb_version m \<in> {10, 20} \<and> mb_flags m \<in> {0, 6} \<and> length (mb_time m) = 8 \<and>
     length (mb_name m) < 64 \<and> 0 \<notin> set (mb_name m) \<and> length (mb_extra m) < 32768 \<and>
     length (mb_data m) < 2147483648 \<and> 0 \<le> mb_size m \<and> mb_size m < 2147483648 \<and>
     (mb_deflated m \<or> int (length (mb_data m)) = mb_size m)"

text \<open>The table: the files that matter, with the offsets of their data.\<close>

fun archive_table :: "nat \<Rightarrow> member list \<Rightarrow> tri list" where
  "archive_table pos [] = []"
| "archive_table pos (m # ms) =
     (let at = pos + 30 + length (mb_name m) + length (mb_extra m); rest = archive_table (at + length (mb_data m)) ms
      in if zip_wanted (mb_name m) then
        \<lparr>tri_filename = mb_name m, tri_compressionMethod = (if mb_deflated m then 8 else 0),
         tri_compressedSize = int (length (mb_data m)), tri_uncompressedSize = mb_size m, tri_offset = int at\<rparr> # rest
      else rest)"

lemma length_member_head [simp]: "length (mb_time m) = 8 \<Longrightarrow> length (member_head m) = 30"
  by (simp add: member_head_def)

lemma s16_le_bytes: "s16 (le_val (le_bytes 2 n)) = s16 n"
  using signed_take_bit_mod_pow [of 16 15 n] by (simp add: le_val_le_bytes s16_def)

lemma block_mid: "block_at (length xs) (length ys) (xs @ ys @ zs) = ys"
  by (simp add: block_at_prefix)

lemma head_fields:
  assumes "legal_member m"
  shows "s16 (zip_field 4 2 (member_head m)) = mb_version m" "s16 (zip_field 6 2 (member_head m)) = mb_flags m"
    "s16 (zip_field 8 2 (member_head m)) = (if mb_deflated m then 8 else 0)"
    "s32 (zip_field 18 4 (member_head m)) = int (length (mb_data m))" "s32 (zip_field 22 4 (member_head m)) = mb_size m"
    "s16 (zip_field 26 2 (member_head m)) = int (length (mb_name m))"
    "s16 (zip_field 28 2 (member_head m)) = int (length (mb_extra m))"
proof -
  have l: "mb_version m \<in> {10, 20}" "mb_flags m \<in> {0, 6}" "length (mb_time m) = 8" "length (mb_name m) < 64"
    "length (mb_extra m) < 32768" "length (mb_data m) < 2147483648" "0 \<le> mb_size m" "mb_size m < 2147483648"
    using assms by (simp_all add: legal_member_def)
  let ?how = "if mb_deflated m then 8 else 0 :: int"
  define a where "a = [80, 75, 3, 4] @ le_bytes 2 (mb_version m)"
  define b where "b = a @ le_bytes 2 (mb_flags m)"
  define c where "c = b @ le_bytes 2 ?how @ mb_time m"
  define d where "d = c @ le_bytes 4 (int (length (mb_data m)))"
  define e where "e = d @ le_bytes 4 (mb_size m)"
  define g where "g = e @ le_bytes 2 (int (length (mb_name m)))"
  note defs = g_def e_def d_def c_def b_def a_def member_head_def
  have len: "length a = 6" "length b = 8" "length c = 18" "length d = 22" "length e = 26" "length g = 28"
    using l(3) by (simp_all add: defs)
  have "block_at 4 2 (member_head m) = le_bytes 2 (mb_version m)"
    using block_at_prefix [of 4 "[80, 75, 3, 4]" 2 "le_bytes 2 (mb_version m)"] by (simp add: member_head_def)
  then show "s16 (zip_field 4 2 (member_head m)) = mb_version m"
    using l(1) by (auto simp: zip_field_def s16_le_bytes)
  have "block_at 6 2 (member_head m) = le_bytes 2 (mb_flags m)"
    using block_at_prefix [of 6 a 2 "le_bytes 2 (mb_flags m)"] len by (simp add: defs)
  then show "s16 (zip_field 6 2 (member_head m)) = mb_flags m"
    using l(2) by (auto simp: zip_field_def s16_le_bytes)
  have "block_at 8 2 (member_head m) = le_bytes 2 ?how"
    using block_at_prefix [of 8 b 2 "le_bytes 2 ?how"] len by (simp add: defs)
  then show "s16 (zip_field 8 2 (member_head m)) = ?how"
    by (simp add: zip_field_def s16_le_bytes)
  have "block_at 18 4 (member_head m) = le_bytes 4 (int (length (mb_data m)))"
    using block_at_prefix [of 18 c 4 "le_bytes 4 (int (length (mb_data m)))"] len by (simp add: defs)
  then show "s32 (zip_field 18 4 (member_head m)) = int (length (mb_data m))"
    using l(6) by (simp add: zip_field_def s32_le_bytes)
  have "block_at 22 4 (member_head m) = le_bytes 4 (mb_size m)"
    using block_at_prefix [of 22 d 4 "le_bytes 4 (mb_size m)"] len by (simp add: defs)
  then show "s32 (zip_field 22 4 (member_head m)) = mb_size m"
    using l(7,8) by (simp add: zip_field_def s32_le_bytes)
  have "block_at 26 2 (member_head m) = le_bytes 2 (int (length (mb_name m)))"
    using block_at_prefix [of 26 e 2 "le_bytes 2 (int (length (mb_name m)))"] len by (simp add: defs)
  then show "s16 (zip_field 26 2 (member_head m)) = int (length (mb_name m))"
    using l(4) by (simp add: zip_field_def s16_le_bytes)
  have "block_at 28 2 (member_head m) = le_bytes 2 (int (length (mb_extra m)))"
    using block_at_prefix [of 28 g 2 "le_bytes 2 (int (length (mb_extra m)))" "[]"] len by (simp add: defs)
  then show "s16 (zip_field 28 2 (member_head m)) = int (length (mb_extra m))"
    using l(5) by (simp add: zip_field_def s16_le_bytes)
qed

lemma file_read_mid: "n = length s \<Longrightarrow> file_read (pre @ s @ post) (int (length pre)) n = s"
  by (simp add: file_read_def)

lemma zip_entry_member:
  assumes "legal_member m" "length files < 512" "length pre + length (member_bytes m) < 2147483648"
  shows "zip_entry (pre @ member_bytes m @ post) (member_head m) (int (length pre + 30)) files =
    Inr (files @ archive_table (length pre) [m], int (length pre + length (member_bytes m)))"
proof -
  have l: "mb_version m \<in> {10, 20}" "mb_flags m \<in> {0, 6}" "length (mb_time m) = 8" "length (mb_name m) < 64"
    "0 \<notin> set (mb_name m)" "mb_deflated m \<or> int (length (mb_data m)) = mb_size m"
    using assms(1) by (simp_all add: legal_member_def)
  have n: "file_read (pre @ member_bytes m @ post) (int (length pre + 30)) (length (mb_name m)) = mb_name m"
    using file_read_mid [of _ "mb_name m" "pre @ member_head m" "mb_extra m @ mb_data m @ post"] l(3)
    by (simp add: member_bytes_def)
  have c: "c_string (mb_name m) = mb_name m"
    using l(5) by (auto simp: c_string_def takeWhile_eq_all_conv)
  have "s32 (int (length pre + 30 + length (mb_name m) + length (mb_extra m))) =
      int (length pre + 30 + length (mb_name m) + length (mb_extra m))"
    using assms(3) l(3) by (simp add: member_bytes_def)
  then show ?thesis
    using l n c assms(2)
    by (auto simp: zip_entry_def head_fields [OF assms(1)] Let_def member_bytes_def add.assoc)
qed

lemma zip_headers_archive:
  "\<forall>m \<in> set ms. legal_member m \<Longrightarrow> length files + length ms \<le> 512 \<Longrightarrow>
    length pre + length (archive_bytes ms) < 2147483648 \<Longrightarrow> take 4 post \<noteq> [80, 75, 3, 4] \<Longrightarrow>
    zip_headers (pre @ archive_bytes ms @ post) (int (length pre)) files = Some (Inr (files @ archive_table (length pre) ms))"
proof (induction ms arbitrary: pre files)
  case Nil
  have "file_read (pre @ post) (int (length pre)) 30 = take 30 post" by (simp add: file_read_def)
  then show ?case using Nil(4) by (subst zip_headers.simps) (simp add: archive_bytes_def)
next
  case (Cons m ms)
  have l: "legal_member m" "length (mb_time m) = 8" using Cons.prems(1) by (auto simp: legal_member_def)
  let ?f = "pre @ archive_bytes (m # ms) @ post"
  have f: "?f = pre @ member_bytes m @ archive_bytes ms @ post" by (simp add: archive_bytes_def)
  have h: "file_read ?f (int (length pre)) 30 = member_head m" "take 4 (member_head m) = [80, 75, 3, 4]"
    using file_read_mid [of 30 "member_head m" pre "mb_name m @ mb_extra m @ mb_data m @ archive_bytes ms @ post"] l(2)
    by (simp_all add: f member_bytes_def member_head_def)
  have len: "length pre + length (member_bytes m) < 2147483648" using Cons.prems(3) by (simp add: archive_bytes_def)
  have e: "zip_entry ?f (member_head m) (int (length pre) + 30) files =
      Inr (files @ archive_table (length pre) [m], int (length (pre @ member_bytes m)))"
    using zip_entry_member [OF l(1) _ len, of files "archive_bytes ms @ post"] Cons.prems(2) unfolding f by simp
  have "zip_headers ?f (int (length pre)) files =
      zip_headers ((pre @ member_bytes m) @ archive_bytes ms @ post) (int (length (pre @ member_bytes m)))
        (files @ archive_table (length pre) [m])"
    using h e l(2) by (subst zip_headers.simps) (simp add: f)
  also have "\<dots> = Some (Inr ((files @ archive_table (length pre) [m]) @ archive_table (length (pre @ member_bytes m)) ms))"
    by (rule Cons.IH) (use Cons.prems in \<open>auto simp: archive_bytes_def Let_def\<close>)
  also have "(files @ archive_table (length pre) [m]) @ archive_table (length (pre @ member_bytes m)) ms =
      files @ archive_table (length pre) (m # ms)"
    using l(2) by (simp add: Let_def member_bytes_def add.assoc)
  finally show ?case .
qed

section \<open>From the archive to the text\<close>

text \<open>The content of a file of the archive: its data, or what the DEFLATE stream in them stands for.\<close>

definition member_holds :: "member \<Rightarrow> bytes \<Rightarrow> bool" where
  "member_holds m content \<longleftrightarrow> int (length content) = mb_size m \<and> mb_data m \<noteq> [] \<and>
     (if mb_deflated m then length (mb_data m) \<le> 4194304 \<and>
        (\<exists>blocks rest. blocks \<noteq> [] \<and> stream_ok 0 [] blocks \<and>
           bits_of_bytes (mb_data m) = stream_bits blocks @ rest \<and> content = expand_blocks blocks)
      else content = mb_data m)"

definition member_tri :: "nat \<Rightarrow> member \<Rightarrow> tri" where
  "member_tri at m = \<lparr>tri_filename = mb_name m, tri_compressionMethod = (if mb_deflated m then 8 else 0),
     tri_compressedSize = int (length (mb_data m)), tri_uncompressedSize = mb_size m, tri_offset = int at\<rparr>"

abbreviation tree_roomy :: "tinfTree \<Rightarrow> bool" where
  "tree_roomy t \<equiv> 288 \<le> length (tf_trans t)"

lemma unpack_member:
  assumes "member_holds m content" "length content \<le> cap" "tree_roomy junk" "tree_roomy ljunk" "tree_roomy djunk"
  shows "unpack junk ljunk djunk cap (pre @ mb_data m @ post) old (member_tri (length pre) m) = Some (Inr content)"
proof -
  have r: "file_read (pre @ mb_data m @ post) (int (length pre)) (length (mb_data m)) = mb_data m"
    by (rule file_read_mid) simp
  show ?thesis
  proof (cases "mb_deflated m")
    case False
    have s: "mb_size m = int (length (mb_data m))" "mb_data m \<noteq> []" "content = mb_data m"
      using assms(1) False by (auto simp: member_holds_def)
    show ?thesis using r False s(2) by (simp add: unpack_def member_tri_def s(1,3) Let_def)
  next
    case True
    then obtain blocks rest where b: "blocks \<noteq> []" "stream_ok 0 [] blocks"
        "bits_of_bytes (mb_data m) = stream_bits blocks @ rest" "content = expand_blocks blocks"
        "length (mb_data m) \<le> 4194304" "int (length content) = mb_size m" "mb_data m \<noteq> []"
      using assms(1) by (auto simp: member_holds_def)
    have "tinfUncompress junk ljunk djunk cap (mb_data m @ drop (length (mb_data m)) old) = Some (Inr content)"
      unfolding b(4)
      by (rule tinf_stream_result [of _ _ "rest @ bits_of_bytes (drop (length (mb_data m)) old)"])
        (use b assms(2-5) in simp_all)
    then show ?thesis using True r b(5-7) by (simp add: unpack_def member_tri_def Let_def)
  qed
qed

lemma fileStr_skips:
  "filename \<notin> mb_name ` set ms1 \<Longrightarrow>
    fileStr junk ljunk djunk cap f old filename (archive_table pos (ms1 @ ms2)) =
    fileStr junk ljunk djunk cap f old filename (archive_table (pos + length (archive_bytes ms1)) ms2)"
  if "\<forall>m \<in> set ms1. length (mb_time m) = 8"
  using that
proof (induction ms1 arbitrary: pos)
  case (Cons m ms1)
  have "length (member_bytes m) = 30 + length (mb_name m) + length (mb_extra m) + length (mb_data m)"
    using Cons.prems by (simp add: member_bytes_def)
  then show ?case using Cons by (auto simp: Let_def archive_bytes_def add.assoc)
qed (simp add: archive_bytes_def)

text \<open>
  C10. From the archive to the text: in an archive of legal files, stored or compressed with stored, fixed and
  dynamic blocks, the loop over the headers ends, and with the table it has made \<open>fileStr\<close> gives the content
  of the first file of the name asked for, terminated, if the name is one of those that matter and the content is
  shorter than the buffer; whatever the static buffer holds from before.
\<close>

theorem archive_unpacks:
  assumes "\<forall>m \<in> set (ms1 @ m # ms2). legal_member m" "length (ms1 @ m # ms2) \<le> 512"
    "length (archive_bytes (ms1 @ m # ms2)) < 2147483648" "take 4 post \<noteq> [80, 75, 3, 4]"
    "zip_wanted (mb_name m)" "mb_name m \<notin> mb_name ` set ms1" "member_holds m content" "length content < cap"
    "tree_roomy junk" "tree_roomy ljunk" "tree_roomy djunk"
  shows "\<exists>files. zip_headers (archive_bytes (ms1 @ m # ms2) @ post) 0 [] = Some (Inr files) \<and>
    fileStr junk ljunk djunk cap (archive_bytes (ms1 @ m # ms2) @ post) old (mb_name m) files = Some (Inr (content @ [0]))"
proof -
  let ?ms = "ms1 @ m # ms2"
  let ?f = "archive_bytes ?ms @ post"
  have z: "zip_headers ?f 0 [] = Some (Inr (archive_table 0 ?ms))"
    using zip_headers_archive [OF assms(1), of "[]" "[]" post] assms(2-4) by simp
  have t: "\<forall>m \<in> set ms1. length (mb_time m) = 8" "length (mb_time m) = 8" using assms(1) by (auto simp: legal_member_def)
  let ?pre = "archive_bytes ms1 @ member_head m @ mb_name m @ mb_extra m"
  have f: "?f = ?pre @ mb_data m @ archive_bytes ms2 @ post" by (simp add: archive_bytes_def member_bytes_def)
  have "archive_table (length (archive_bytes ms1)) (m # ms2) = member_tri (length ?pre) m #
      archive_table (length ?pre + length (mb_data m)) ms2"
    using assms(5) t(2) by (simp add: member_tri_def Let_def add.assoc)
  then have "fileStr junk ljunk djunk cap ?f old (mb_name m) (archive_table 0 ?ms) =
      ok_then (unpack junk ljunk djunk cap ?f old (member_tri (length ?pre) m)) (\<lambda>out. Some (Inr (out @ [0])))"
    using fileStr_skips [OF t(1) assms(6), of junk ljunk djunk cap ?f old 0 "m # ms2"] assms(7,8)
    by (simp add: member_holds_def member_tri_def)
  also have "\<dots> = Some (Inr (content @ [0]))"
    unfolding f using unpack_member [OF assms(7) _ assms(9-11), of cap ?pre] assms(8) by simp
  finally show ?thesis using z by blast
qed

text \<open>A stored file \<open>a\<close>, then the compressed \<open>xl/workbook.xml\<close>.\<close>

definition example_members :: "member list" where
  "example_members =
     [\<lparr>mb_name = [97], mb_extra = [], mb_version = 10, mb_flags = 0, mb_deflated = False, mb_time = replicate 8 0,
       mb_data = [1], mb_size = 1\<rparr>,
      \<lparr>mb_name = zip_rules ! 2, mb_extra = [0, 0], mb_version = 20, mb_flags = 6, mb_deflated = True, mb_time = replicate 8 0,
       mb_data = example_source, mb_size = 6\<rparr>]"

theorem archive_unpacks_witness:
  "\<exists>files. zip_headers (archive_bytes example_members @ [80, 75, 1, 2]) 0 [] = Some (Inr files) \<and>
    fileStr empty_tree empty_tree empty_tree 7 (archive_bytes example_members @ [80, 75, 1, 2]) [] (zip_rules ! 2) files =
      Some (Inr [104, 105, 97, 97, 97, 97, 0])"
proof -
  obtain a m where e: "example_members = [a, m]" "mb_name m = zip_rules ! 2" "mb_name a = [97]" "m = example_members ! 1"
    by (simp add: example_members_def)
  have legal: "\<forall>x \<in> set ([a] @ m # []). legal_member x"
    using e by (auto simp: example_members_def legal_member_def zip_rules_def example_source_def)
  have wanted: "zip_wanted (mb_name m)" unfolding e(2) by (simp add: zip_wanted_def zip_rules_def)
  have other: "mb_name m \<notin> mb_name ` set [a]" using e(2,3) by (simp add: zip_rules_def)
  have "\<exists>blocks rest. blocks \<noteq> [] \<and> stream_ok 0 [] blocks \<and> bits_of_bytes example_source = stream_bits blocks @ rest \<and>
      [104, 105, 97, 97, 97, 97] = expand_blocks blocks"
    using example_stream_ok example_bits example_expands
    by (intro exI [of _ example_blocks] exI [of _ "replicate 2 False"]) (simp add: example_blocks_def)
  then have content: "member_holds m [104, 105, 97, 97, 97, 97]"
    by (simp add: e(4) example_members_def member_holds_def example_source_def)
  have roomy: "tree_roomy empty_tree" by (simp add: empty_tree_def)
  have size: "length (archive_bytes ([a] @ m # [])) < 2147483648"
    using e by (auto simp: example_members_def archive_bytes_def member_bytes_def zip_rules_def example_source_def)
  have post: "take 4 [80, 75, 1, 2 :: byte] \<noteq> [80, 75, 3, 4]" by simp
  from archive_unpacks [OF legal _ size post wanted other content _ roomy roomy roomy, of 7 "[]"] show ?thesis
    by (simp add: e(1,2))
qed

text \<open>
  Nothing keeps the loop from going back: the length of the extra field is a signed number. A header whose extra field is
  as long as the header, but negative, is followed by itself: the loop does not end.
\<close>

definition looping_header :: bytes where
  "looping_header = member_head \<lparr>mb_name = [], mb_extra = [], mb_version = 20, mb_flags = 0, mb_deflated = True,
     mb_time = replicate 8 0, mb_data = [], mb_size = 0\<rparr>"

definition looping_file :: bytes where
  "looping_file = take 28 looping_header @ le_bytes 2 (- 30)"

lemma looping_entry: "zip_entry looping_file looping_file 30 [] = Inr ([], 0)"
  by code_simp

theorem zip_headers_stuck: "zip_headers looping_file 0 [] = None"
proof -
  have h: "file_read looping_file 0 30 = looping_file" "take 4 looping_file = [80, 75, 3, 4]" "length looping_file = 30"
    by code_simp+
  have "\<not> (f = looping_file \<and> pos = 0 \<and> files = [])" if "zip_headers f pos files = Some r" for f pos files r
  proof (rule zip_headers.raw_induct [OF _ that])
    fix loop f pos files r
    assume ih: "\<And>f pos files r. loop f pos files = Some r \<Longrightarrow> \<not> (f = looping_file \<and> pos = 0 \<and> files = [])"
      and run: "(let h = file_read f pos 30 in if take 4 h \<noteq> [80, 75, 3, 4] then Some (Inr files)
        else if length h < 30 then None
        else ok_then (Some (zip_entry f h (pos + 30) files)) (\<lambda>(files, pos). loop f pos files)) = Some r"
    show "\<not> (f = looping_file \<and> pos = 0 \<and> files = [])"
      using run ih [of looping_file 0 "[]"] h looping_entry by auto
  qed
  then show ?thesis by (cases "zip_headers looping_file 0 []") auto
qed

end
