(* ===== verification/XlsxMain.thy ===== *)
theory XlsxMain
  imports XlsxWrite XlsxPattern XlsxGrid XlsxZip
begin

text \<open>
  The table converter as a whole (\<open>main\<close> in \<open>myxml2/myxml2.cpp\<close>): the files of the archive, the strings, the
  sheets and what they share, and the output, one after the other. The sheets are the pairs of the pointer to the
  name and the table of \<open>getVvs\<close>.
\<close>

section \<open>Output\<close>

text \<open>The literals written, and the names of the files.\<close>

definition s_local_cell :: bytes where "s_local_cell =
  [108, 111, 99, 97, 108, 32, 115, 104, 97, 114, 101, 67, 101, 108, 108, 61, 123, 10, 91]"
definition s_local_row :: bytes where "s_local_row =
  [108, 111, 99, 97, 108, 32, 115, 104, 97, 114, 101, 82, 111, 119, 61, 123, 10, 91]"
definition s_local_sheet :: bytes where "s_local_sheet =
  [108, 111, 99, 97, 108, 32, 115, 104, 97, 114, 101, 83, 104, 101, 101, 116, 61, 123, 10, 91]"
definition s_shareSheet :: bytes where "s_shareSheet =
  [115, 104, 97, 114, 101, 83, 104, 101, 101, 116, 91]"
definition s_function :: bytes where "s_function =
  [40, 102, 117, 110, 99, 116, 105, 111, 110, 40, 41]"
definition s_end :: bytes where "s_end =
  [101, 110, 100, 41, 40, 41, 59]"
definition s_getfenv :: bytes where "s_getfenv =
  [103, 101, 116, 102, 101, 110, 118, 40, 41, 91]"
definition s_sheet_file :: bytes where "s_sheet_file =
  [120, 108, 47, 119, 111, 114, 107, 115, 104, 101, 101, 116, 115, 47, 115, 104, 101, 101, 116]"
definition s_workbook_file :: bytes where "s_workbook_file =
  [120, 108, 47, 119, 111, 114, 107, 98, 111, 111, 107, 46, 120, 109, 108]"
definition s_shared_file :: bytes where "s_shared_file =
  [120, 108, 47, 115, 104, 97, 114, 101, 100, 83, 116, 114, 105, 110, 103, 115, 46, 120, 109, 108]"
definition s_check :: bytes where "s_check =
  [99, 104, 101, 99, 107]"

text \<open>
  The loops over the shared cells, rows and sheets: the number of each in brackets, and what the writer of
  the entry writes.
\<close>

fun write_entries ::
    "nat \<Rightarrow> bytes \<Rightarrow> nat \<Rightarrow> nat \<Rightarrow> (nat \<Rightarrow> (xlsx_error + bytes) option) list \<Rightarrow> bytes \<Rightarrow> (xlsx_error + bytes) option" where
  "write_entries cap head entries i [] out = Some (Inr out)"
| "write_entries cap head entries i (w # ws) out =
     ok_then (if i < 1 then my_write cap head out else my_write cap [44, 10, 91] out) (\<lambda>out.
       ok_then (write_with cap (\<lambda>c. writeInt c (int i + 1)) out) (\<lambda>out.
         ok_then (my_write cap [93, 61] out) (\<lambda>out.
           ok_then (write_with cap w out) (\<lambda>out.
             ok_then (if i + 1 = entries then my_write cap [125, 10] out else Some (Inr out))
               (write_entries cap head entries (i + 1) ws)))))"

definition write_shares ::
    "(str_ptr \<Rightarrow> int) \<Rightarrow> intern \<Rightarrow> shareCell list \<Rightarrow> shareRow list \<Rightarrow> shareSheet list \<Rightarrow> nat \<Rightarrow> bytes \<Rightarrow> (xlsx_error + bytes) option" where
  "write_shares addr st cells rows sheets cap out =
     ok_then (write_entries cap s_local_cell (length cells) 0
       (map (\<lambda>x c. do { s \<leftarrow> ptr_str st (sc_cell x); fillTb c s }) cells) out) (\<lambda>out.
     ok_then (write_entries cap s_local_row (length rows) 0
       (map (\<lambda>x. fillRow addr st cells (sr_varType x) (sr_name x) (sr_row x) (sr_m x) None) rows) out)
     (write_entries cap s_local_sheet (length sheets) 0
       (map (\<lambda>x. fillSheet addr st rows cells (ss_n x) (ss_m x) (ss_sheet x) None) sheets)))"

text \<open>The options: \<open>noshare\<close>, and the languages \<open>argv[4]\<close> and \<open>argv[5]\<close>.\<close>

record options =
  op_noshare :: bool
  op_lang1 :: "bytes option"
  op_lang2 :: "bytes option"

type_synonym sheet_table = "str_ptr \<times> str_ptr list list"

definition share_target :: "str_ptr list list \<Rightarrow> shareSheet" where
  "share_target vvs = \<lparr>ss_cnt = 1, ss_n = length vvs, ss_m = length (vvs ! 0), ss_sheet = vvs\<rparr>"

definition write_sheet_name :: "nat \<Rightarrow> bytes \<Rightarrow> bytes \<Rightarrow> (xlsx_error + bytes) option" where
  "write_sheet_name cap s out =
     (if isStrDigit s then
        ok_then (my_write cap s_getfenv out) (\<lambda>out. ok_then (my_write cap s out) (my_write cap [93]))
      else my_write cap s out)"

definition write_table ::
    "(str_ptr \<Rightarrow> int) \<Rightarrow> intern \<Rightarrow> shareCell list \<Rightarrow> shareRow list \<Rightarrow> shareSheet list \<Rightarrow> options \<Rightarrow> nat \<Rightarrow> sheet_table \<Rightarrow>
     bytes \<Rightarrow> (xlsx_error + bytes) option" where
  "write_table addr st cells rows sheets opts cap t out = do {
     name \<leftarrow> ptr_str st (fst t);
     let vvs = snd t;
     let m = length (vvs ! 0);
     ok_then (if op_noshare opts then my_write cap s_function out else Some (Inr out)) (\<lambda>out.
       ok_then (write_sheet_name cap name out) (\<lambda>out.
         ok_then (my_write cap [61] out) (\<lambda>out.
           ok_then
             (case bsearch (cmpSheet addr) (share_target vvs) sheets of
                Some i \<Rightarrow> write_ref cap s_shareSheet i out
              | None \<Rightarrow> do {
                  names \<leftarrow> those (map (ptr_str st) (vvs ! 1));
                  write_with cap (fillSheet addr st rows cells (length vvs) m vvs
                    (Some (row_targets (op_lang1 opts) (op_lang2 opts) names m))) out
                })
             (\<lambda>out. if op_noshare opts then my_write cap s_end out else Some (Inr out)))))
   }"

fun write_tables ::
    "(nat \<Rightarrow> sheet_table \<Rightarrow> bytes \<Rightarrow> (xlsx_error + bytes) option) \<Rightarrow> nat \<Rightarrow> bool \<Rightarrow> sheet_table list \<Rightarrow> bytes \<Rightarrow>
     (xlsx_error + bytes) option" where
  "write_tables w cap rn [] out = Some (Inr out)"
| "write_tables w cap rn (t # ts) out =
     ok_then (if rn then my_write cap [10] out else Some (Inr out)) (\<lambda>out.
       ok_then (w cap t out) (write_tables w cap True ts))"

text \<open>With \<open>check\<close>: the names of the columns of languages, with the file and the sheet.\<close>

fun check_names :: "nat \<Rightarrow> bytes \<Rightarrow> bytes \<Rightarrow> intern \<Rightarrow> str_ptr list \<Rightarrow> bytes \<Rightarrow> (xlsx_error + bytes) option" where
  "check_names cap file sheet st [] out = Some (Inr out)"
| "check_names cap file sheet st (p # ps) out = do {
     s \<leftarrow> ptr_str st p;
     if 0 < isFixPatternNameR s then
       ok_then (my_write cap file out) (\<lambda>out. ok_then (my_write cap [47] out) (\<lambda>out.
         ok_then (my_write cap sheet out) (\<lambda>out. ok_then (my_write cap [47] out) (\<lambda>out.
           ok_then (my_write cap s out) (\<lambda>out.
             ok_then (my_write cap [10] out) (check_names cap file sheet st ps))))))
     else check_names cap file sheet st ps out
   }"

fun check_tables :: "nat \<Rightarrow> bytes \<Rightarrow> intern \<Rightarrow> sheet_table list \<Rightarrow> bytes \<Rightarrow> (xlsx_error + bytes) option" where
  "check_tables cap file st [] out = Some (Inr out)"
| "check_tables cap file st ((p, vvs) # ts) out = do {
     sheet \<leftarrow> ptr_str st p;
     ok_then (check_names cap file sheet st (vvs ! 1) out) (check_tables cap file st ts)
   }"

definition write_output ::
    "(str_ptr \<Rightarrow> int) \<Rightarrow> bytes \<Rightarrow> options \<Rightarrow> intern \<Rightarrow> shareCell list \<Rightarrow> shareRow list \<Rightarrow> shareSheet list \<Rightarrow>
     sheet_table list \<Rightarrow> nat \<Rightarrow> (xlsx_error + bytes) option" where
  "write_output addr file opts st cells rows sheets tables cap =
     (if op_lang1 opts \<noteq> Some s_check then
        ok_then (write_shares addr st cells rows sheets cap [])
          (write_tables (write_table addr st cells rows sheets opts) cap False tables)
      else check_tables cap file st tables [])"

section \<open>Input\<close>

text \<open>
  What is not initialised when \<open>fileStr\<close> and \<open>getVvs\<close> are called for the \<open>k\<close>th time: the trees of the
  decompressor, the rest of its input buffer, and the first element of \<open>f\<close>.
\<close>

record unknowns =
  un_trees :: "nat \<Rightarrow> tinfTree \<times> tinfTree \<times> tinfTree"
  un_old :: "nat \<Rightarrow> bytes"
  un_f0 :: "nat \<Rightarrow> bool"

definition read_file :: "unknowns \<Rightarrow> nat \<Rightarrow> bytes \<Rightarrow> tri list \<Rightarrow> bytes \<Rightarrow> (xlsx_error + bytes) option" where
  "read_file un k f files name =
     (case un_trees un k of (junk, ljunk, djunk) \<Rightarrow> fileStr junk ljunk djunk 67108864 f (un_old un k) name files)"

fun read_sheets ::
    "unknowns \<Rightarrow> (str_ptr \<Rightarrow> int) \<Rightarrow> bytes \<Rightarrow> tri list \<Rightarrow> str_ptr list \<Rightarrow> nat \<Rightarrow> str_ptr list \<Rightarrow> intern \<Rightarrow> nat \<Rightarrow>
     shareSheet list \<Rightarrow> sheet_table list \<Rightarrow> (xlsx_error + intern \<times> shareSheet list \<times> sheet_table list) option" where
  "read_sheets un addr f files vs i [] st used shares tables = Some (Inr (st, shares, tables))"
| "read_sheets un addr f files vs i (p # ps) st used shares tables = do {
     name \<leftarrow> ptr_str st p;
     if hasChinese name then read_sheets un addr f files vs (i + 1) ps st used shares tables
     else
       ok_then (writeInt 45 (int i + 1)) (\<lambda>digits.
         ok_then (read_file un (i + 2) f files (s_sheet_file @ digits @ [46, 120, 109, 108])) (\<lambda>buf.
           ok_then (getVvs (un_f0 un i) addr vs buf st used) (\<lambda>(vvs, st, used).
             ok_then (binInsert 512 (cmpSheet addr) sheet_up (share_target vvs) shares) (\<lambda>shares.
               read_sheets un addr f files vs (i + 1) ps st used shares (tables @ [(p, vvs)])))))
   }"

definition share_all ::
    "(str_ptr \<Rightarrow> int) \<Rightarrow> bool \<Rightarrow> shareSheet list \<Rightarrow>
     (xlsx_error + shareCell list \<times> shareRow list \<times> shareSheet list) option" where
  "share_all addr noshare sheets =
     ok_then (shareRows addr sheets) (\<lambda>rows. ok_then (shareCells addr rows) (\<lambda>cells.
       let top = (if noshare then 2147483647 else 1)
       in Some (Inr (keep_shared top sc_cnt 0 0 cells, keep_shared top sr_cnt 0 0 rows, keep_shared top ss_cnt 0 0 sheets))))"

text \<open>The program, from the bytes of the workbook to the bytes of the output.\<close>

definition main_run ::
    "unknowns \<Rightarrow> (str_ptr \<Rightarrow> int) \<Rightarrow> bytes \<Rightarrow> options \<Rightarrow> bytes \<Rightarrow> (xlsx_error + bytes) option" where
  "main_run un addr file opts f =
     ok_then (zip_headers f 0 []) (\<lambda>files.
     ok_then (read_file un 0 f files s_workbook_file) (\<lambda>out.
     ok_then (getWorkbook 512 out intern_init) (\<lambda>(book, st).
     ok_then (read_file un 1 f files s_shared_file) (\<lambda>out.
     ok_then (getSharedStrings 65536 out st) (\<lambda>(vs, st).
     ok_then (read_sheets un addr f files vs 0 book st 0 [] []) (\<lambda>(st, sheets, tables).
     ok_then (share_all addr (op_noshare opts) sheets) (\<lambda>(cells, rows, sheets).
       write_output addr file opts st cells rows sheets tables 67108864)))))))"

section \<open>The text of the output\<close>

definition entries_text :: "bytes \<Rightarrow> bytes list \<Rightarrow> bytes" where
  "entries_text head ts =
     concat (map (\<lambda>(i, t). (if i < 1 then head else [44, 10, 91]) @ decimal (i + 1) @ [93, 61] @ t) (enumerate 0 ts)) @
     (if ts = [] then [] else [125, 10])"

definition shares_text :: "(str_ptr \<Rightarrow> int) \<Rightarrow> intern \<Rightarrow> shareCell list \<Rightarrow> shareRow list \<Rightarrow> shareSheet list \<Rightarrow> bytes" where
  "shares_text addr st cells rows sheets =
     entries_text s_local_cell (map (\<lambda>x. tb_text (str_of st (sc_cell x))) cells) @
     entries_text s_local_row (map (\<lambda>x. row_text addr st cells (sr_varType x) (sr_name x) (sr_row x) (sr_m x) None) rows) @
     entries_text s_local_sheet (map (\<lambda>x. sheet_text addr st rows cells (ss_n x) (ss_m x) (ss_sheet x) None) sheets)"

definition table_targets :: "intern \<Rightarrow> options \<Rightarrow> str_ptr list list \<Rightarrow> int list" where
  "table_targets st opts vvs = row_targets (op_lang1 opts) (op_lang2 opts) (map (str_of st) (vvs ! 1)) (length (vvs ! 0))"

definition table_text ::
    "(str_ptr \<Rightarrow> int) \<Rightarrow> intern \<Rightarrow> shareCell list \<Rightarrow> shareRow list \<Rightarrow> shareSheet list \<Rightarrow> options \<Rightarrow> sheet_table \<Rightarrow> bytes" where
  "table_text addr st cells rows sheets opts t =
     (let name = str_of st (fst t); vvs = snd t
      in (if op_noshare opts then s_function else []) @
        (if isStrDigit name then s_getfenv @ name @ [93] else name) @ [61] @
        (case bsearch (cmpSheet addr) (share_target vvs) sheets of
           Some i \<Rightarrow> ref_text s_shareSheet i
         | None \<Rightarrow> sheet_text addr st rows cells (length vvs) (length (vvs ! 0)) vvs (Some (table_targets st opts vvs))) @
        (if op_noshare opts then s_end else []))"

fun lines_text :: "bytes list \<Rightarrow> bytes" where
  "lines_text [] = []"
| "lines_text (t # ts) = t @ concat (map ((#) 10) ts)"

definition output_text ::
    "(str_ptr \<Rightarrow> int) \<Rightarrow> options \<Rightarrow> intern \<Rightarrow> shareCell list \<Rightarrow> shareRow list \<Rightarrow> shareSheet list \<Rightarrow> sheet_table list \<Rightarrow> bytes" where
  "output_text addr opts st cells rows sheets tables =
     shares_text addr st cells rows sheets @ lines_text (map (table_text addr st cells rows sheets opts) tables)"

section \<open>The output is written\<close>

lemma appends_if: "(b \<Longrightarrow> appends cap w1 t1) \<Longrightarrow> (\<not> b \<Longrightarrow> appends cap w2 t2) \<Longrightarrow>
    appends cap (\<lambda>out. if b then w1 out else w2 out) (if b then t1 else t2)"
  by simp

lemma appends_entries:
  "list_all2 produces ws ts \<Longrightarrow> i + length ws = entries \<Longrightarrow> entries < 10 ^ 16 \<Longrightarrow>
    appends cap (write_entries cap head entries i ws)
      (concat (map (\<lambda>(i, t). (if i < 1 then head else [44, 10, 91]) @ decimal (i + 1) @ [93, 61] @ t) (enumerate i ts)) @
       (if ts = [] then [] else [125, 10]))"
proof (induction ws ts arbitrary: i rule: list_all2_induct)
  case Nil
  have "write_entries cap head entries i [] = (\<lambda>out. Some (Inr out))" by (rule ext) simp
  then show ?case by (simp add: appends_nothing)
next
  case (Cons w ws t ts)
  have e: "(\<lambda>c. writeInt c (int i + 1)) = (\<lambda>c. writeInt c (int (i + 1)))" by (simp add: add.commute)
  have n: "appends cap (write_with cap (\<lambda>c. writeInt c (int i + 1))) (decimal (i + 1))"
    unfolding e by (intro appends_with produces_writeInt) (use Cons.prems in simp)
  let ?rest = "concat (map (\<lambda>(i, t). (if i < 1 then head else [44, 10, 91]) @ decimal (i + 1) @ [93, 61] @ t) (enumerate (i + 1) ts))"
  have l: "length ws = length ts" using Cons.hyps(2) by (rule list_all2_lengthD)
  have last: "i + 1 = entries \<longleftrightarrow> ts = []" using Cons.prems(1) l by auto
  have f: "write_entries cap head entries i (w # ws) =
      (\<lambda>out. ok_then (if i < 1 then my_write cap head out else my_write cap [44, 10, 91] out) (\<lambda>out.
       ok_then (write_with cap (\<lambda>c. writeInt c (int i + 1)) out) (\<lambda>out.
         ok_then (my_write cap [93, 61] out) (\<lambda>out.
           ok_then (write_with cap w out) (\<lambda>out.
             ok_then (if i + 1 = entries then my_write cap [125, 10] out else Some (Inr out))
               (write_entries cap head entries (i + 1) ws))))))"
    by (rule ext) simp
  have t: "concat (map (\<lambda>(i, t). (if i < 1 then head else [44, 10, 91]) @ decimal (i + 1) @ [93, 61] @ t) (enumerate i (t # ts))) @
       (if t # ts = [] then [] else [125, 10]) =
      (if i < 1 then head else [44, 10, 91]) @ decimal (i + 1) @ [93, 61] @ t @ (if i + 1 = entries then [125, 10] else []) @
      ?rest @ (if ts = [] then [] else [125, 10])"
    using last by simp
  show ?case
    unfolding f t
    by (intro appends_then appends_if n appends_with writers Cons.hyps(1) Cons.IH) (use Cons.prems in simp_all)
qed

lemma appends_all_entries:
  assumes "list_all2 produces ws ts" "length ws < 10 ^ 16" "entries = length ws"
  shows "appends cap (write_entries cap head entries 0 ws) (entries_text head ts)"
  using appends_entries [OF assms(1), of 0 entries cap head] assms(2,3) by (simp add: entries_text_def)

text \<open>What the tables must be: every cell a string, every type one of the five.\<close>

definition output_legal ::
    "options \<Rightarrow> intern \<Rightarrow> shareCell list \<Rightarrow> shareRow list \<Rightarrow> shareSheet list \<Rightarrow> sheet_table list \<Rightarrow> bool" where
  "output_legal opts st cells rows sheets tables \<longleftrightarrow>
     length cells \<le> 32768 \<and> length rows \<le> 32768 \<and> length sheets \<le> 512 \<and>
     (\<forall>x \<in> set cells. ptr_str st (sc_cell x) \<noteq> None) \<and>
     (\<forall>x \<in> set rows. row_legal st (sr_varType x) (sr_name x) (sr_row x) (sr_m x) None) \<and>
     (\<forall>x \<in> set sheets. sheet_legal st (ss_n x) (ss_m x) (ss_sheet x) None) \<and>
     (\<forall>t \<in> set tables. ptr_str st (fst t) \<noteq> None \<and> (\<forall>p \<in> set (snd t ! 1). ptr_str st p \<noteq> None) \<and>
       sheet_legal st (length (snd t)) (length (snd t ! 0)) (snd t) (Some (table_targets st opts (snd t))))"

lemma list_all2_maps: "(\<And>x. x \<in> set xs \<Longrightarrow> P (f x) (g x)) \<Longrightarrow> list_all2 P (map f xs) (map g xs)"
  by (simp add: list_all2_conv_all_nth)

lemma appends_shares:
  assumes "output_legal opts st cells rows sheets tables"
  shows "appends cap (write_shares addr st cells rows sheets cap) (shares_text addr st cells rows sheets)"
proof -
  have l: "length cells \<le> 32768" "length rows \<le> 32768" "length sheets \<le> 512"
    using assms by (simp_all add: output_legal_def)
  have c: "produces (\<lambda>c. do { s \<leftarrow> ptr_str st (sc_cell x); fillTb c s }) (tb_text (str_of st (sc_cell x)))" if "x \<in> set cells" for x
  proof -
    obtain s where "ptr_str st (sc_cell x) = Some s" using assms \<open>x \<in> set cells\<close> by (auto simp: output_legal_def)
    then show ?thesis using produces_fillTb [of s] by (simp add: str_of_def)
  qed
  have r: "produces (fillRow addr st cells (sr_varType x) (sr_name x) (sr_row x) (sr_m x) None)
      (row_text addr st cells (sr_varType x) (sr_name x) (sr_row x) (sr_m x) None)" if "x \<in> set rows" for x
    by (rule produces_row) (use assms that l in \<open>auto simp: output_legal_def\<close>)
  have s: "produces (fillSheet addr st rows cells (ss_n x) (ss_m x) (ss_sheet x) None)
      (sheet_text addr st rows cells (ss_n x) (ss_m x) (ss_sheet x) None)" if "x \<in> set sheets" for x
    by (rule produces_sheet) (use assms that l in \<open>auto simp: output_legal_def\<close>)
  show ?thesis
    unfolding write_shares_def shares_text_def
    by (intro appends_then appends_all_entries list_all2_maps c r s) (use l in simp_all)
qed

lemma those_map: "\<forall>x \<in> set xs. f x \<noteq> None \<Longrightarrow> those (map f xs) = Some (map (\<lambda>x. the (f x)) xs)"
  by (induction xs) auto

lemma appends_sheet_name: "appends cap (write_sheet_name cap s) (if isStrDigit s then s_getfenv @ s @ [93] else s)"
  unfolding write_sheet_name_def by (intro appends_if appends_then writers)

lemma appends_table:
  assumes "output_legal opts st cells rows sheets tables" "t \<in> set tables"
  shows "appends cap (write_table addr st cells rows sheets opts cap t) (table_text addr st cells rows sheets opts t)"
proof -
  have l: "length cells \<le> 32768" "length rows \<le> 32768" "length sheets \<le> 512"
    using assms by (simp_all add: output_legal_def)
  let ?vvs = "snd t" let ?m = "length (?vvs ! 0)"
  have p: "ptr_str st (fst t) = Some (str_of st (fst t))" "those (map (ptr_str st) (?vvs ! 1)) = Some (map (str_of st) (?vvs ! 1))"
    and s: "sheet_legal st (length ?vvs) ?m ?vvs (Some (table_targets st opts ?vvs))"
    using assms those_map [of "?vvs ! 1" "ptr_str st"] by (auto simp: output_legal_def str_of_def [abs_def])
  define w where "w = (case bsearch (cmpSheet addr) (share_target ?vvs) sheets of
      Some i \<Rightarrow> write_ref cap s_shareSheet i
    | None \<Rightarrow> write_with cap (fillSheet addr st rows cells (length ?vvs) ?m ?vvs (Some (table_targets st opts ?vvs))))"
  have w: "appends cap w (case bsearch (cmpSheet addr) (share_target ?vvs) sheets of
      Some i \<Rightarrow> ref_text s_shareSheet i
    | None \<Rightarrow> sheet_text addr st rows cells (length ?vvs) ?m ?vvs (Some (table_targets st opts ?vvs)))"
  proof (cases "bsearch (cmpSheet addr) (share_target ?vvs) sheets")
    case None
    then show ?thesis using appends_with [OF produces_sheet [OF s l(2,1)]] by (simp add: w_def)
  next
    case (Some i)
    have "i < 32768" using bsearch_less [OF Some] l(3) by simp
    then show ?thesis using Some appends_ref by (simp add: w_def)
  qed
  have f: "write_table addr st cells rows sheets opts cap t =
      (\<lambda>out. ok_then (if op_noshare opts then my_write cap s_function out else Some (Inr out)) (\<lambda>out.
       ok_then (write_sheet_name cap (str_of st (fst t)) out) (\<lambda>out.
         ok_then (my_write cap [61] out) (\<lambda>out.
           ok_then (w out) (\<lambda>out. if op_noshare opts then my_write cap s_end out else Some (Inr out))))))"
    by (rule ext) (simp add: write_table_def p p(2) [unfolded One_nat_def] w_def table_targets_def Let_def split: option.split)
  show ?thesis
    unfolding f table_text_def Let_def by (intro appends_then appends_if appends_sheet_name writers w)
qed

lemma appends_tables:
  "(\<And>t. t \<in> set ts \<Longrightarrow> appends cap (w cap t) (g t)) \<Longrightarrow>
    appends cap (write_tables w cap rn ts) (if rn then concat (map (\<lambda>t. 10 # g t) ts) else lines_text (map g ts))"
proof (induction ts arbitrary: rn)
  case Nil
  have "write_tables w cap rn [] = (\<lambda>out. Some (Inr out))" by (rule ext) simp
  then show ?case by (simp add: appends_nothing)
next
  case (Cons t ts)
  have f: "write_tables w cap rn (t # ts) = (\<lambda>out. ok_then (if rn then my_write cap [10] out else Some (Inr out)) (\<lambda>out.
       ok_then (w cap t out) (write_tables w cap True ts)))"
    by (rule ext) simp
  have e: "(if rn then concat (map (\<lambda>t. 10 # g t) (t # ts)) else lines_text (map g (t # ts))) =
      (if rn then [10] else []) @ g t @ (if True then concat (map (\<lambda>t. 10 # g t) ts) else lines_text (map g ts))"
    by (simp add: comp_def)
  show ?case unfolding f e by (intro appends_then appends_if writers Cons) (use Cons.prems in auto)
qed

lemma output_result:
  assumes "output_legal opts st cells rows sheets tables" "op_lang1 opts \<noteq> Some s_check"
  shows "produces (write_output addr file opts st cells rows sheets tables) (output_text addr opts st cells rows sheets tables)"
proof -
  have t: "appends cap (write_tables (write_table addr st cells rows sheets opts) cap False tables)
      (lines_text (map (table_text addr st cells rows sheets opts) tables))" for cap
    using appends_tables [of tables cap "write_table addr st cells rows sheets opts" "table_text addr st cells rows sheets opts" False]
      appends_table [OF assms(1)] by simp
  have "appends cap (\<lambda>out. ok_then (write_shares addr st cells rows sheets cap out)
      (write_tables (write_table addr st cells rows sheets opts) cap False tables))
      (output_text addr opts st cells rows sheets tables)" for cap
    unfolding output_text_def by (intro appends_then appends_shares [OF assms(1)] t)
  from produces_first [OF this] show ?thesis using assms(2) by (simp add: write_output_def [abs_def])
qed

text \<open>
  C18. The output: with a buffer of any size the program writes the tables of what is shared and then one table for each
  sheet, the whole text and inside the buffer, or ends with an error, and it does so only if the buffer is less than 64 bytes
  longer than the text. What is shared is numbered from one, and the references are to these numbers.
\<close>

theorem write_output_writes:
  assumes "output_legal opts st cells rows sheets tables" "op_lang1 opts \<noteq> Some s_check"
  shows "write_output addr file opts st cells rows sheets tables cap =
        Some (Inr (output_text addr opts st cells rows sheets tables)) \<and>
      length (output_text addr opts st cells rows sheets tables) \<le> cap \<or>
    (\<exists>e. write_output addr file opts st cells rows sheets tables cap = Some (Inl e) \<and>
      cap < length (output_text addr opts st cells rows sheets tables) + 64)"
  using output_result [OF assms, where addr = addr] unfolding produces_def by blast

text \<open>One sheet \<open>a\<close> of one row: \<open>a={\<close>, a new line, \<open>[1]={a=1}}\<close>.\<close>

theorem write_output_writes_witness:
  "write_output example_addr [] \<lparr>op_noshare = False, op_lang1 = None, op_lang2 = None\<rparr> example_strings [] [] []
      [(Buf 2, [[Fix 0, Fix 1], [Buf 2, Buf 2], [Buf 0, Buf 0]])] 200 =
    Some (Inr [97, 61, 123, 10, 91, 49, 93, 61, 123, 97, 61, 49, 125, 125])"
proof -
  let ?opts = "\<lparr>op_noshare = False, op_lang1 = None, op_lang2 = None\<rparr>"
  let ?vvs = "[[Fix 0, Fix 1], [Buf 2, Buf 2], [Buf 0, Buf 0]]"
  have p: "ptr_str example_strings (Buf 0) = Some [49]" "ptr_str example_strings (Buf 2) = Some [97]"
    by (simp_all add: ptr_str_def example_strings_def string_at_def strlen_at_def block_at_def)
  have u: "{Suc 0..<2} = {1}" "{2..<3} = {2 :: nat}" "[Suc 0..<2] = [1]" "[2..<3] = [2 :: nat]" "[0..<2] = [0, 1]"
    "{Suc 0..<Suc (Suc 0)} = {1}" "{2..<Suc (Suc (Suc 0))} = {2 :: nat}" "[Suc 0..<Suc (Suc 0)] = [1]"
    "[2..<Suc (Suc (Suc 0))] = [2 :: nat]" by (auto simp: upt_rec)
  have d: "isStrDigit [49]" "\<not> isStrDigit [97]" by (simp_all add: isStrDigit_def)
  have r: "table_targets example_strings ?opts ?vvs = [0, 1]"
    by (simp add: table_targets_def row_targets_def isFixPatternName_def upt_rec)
  have l: "output_legal ?opts example_strings [] [] [] [(Buf 2, ?vvs)]"
    by (simp add: output_legal_def r r [unfolded One_nat_def] sheet_legal_def row_legal_def u p)
  have b: "row_ref example_addr [] m x y = None" for m x y
    by (simp add: row_ref_def bsearch_def bsearch_from.simps)
  have t: "output_text example_addr ?opts example_strings [] [] [] [(Buf 2, ?vvs)] =
      [97, 61, 123, 10, 91, 49, 93, 61, 123, 97, 61, 49, 125, 125]"
    by (simp add: output_text_def shares_text_def entries_text_def table_text_def r r [unfolded One_nat_def] sheet_text_def sheet_row_text_def row_text_def tb_text_def
        u b id_text_def d str_of_def p col_of_def col_text_def name_text_def value_text_def Let_def bsearch_def bsearch_from.simps)
  show ?thesis using write_output_writes [OF l, of example_addr "[]" 200] unfolding t by auto
qed

text \<open>
  A row that is shared is written with all its columns, those of languages too, and no column is taken from another: the
  languages asked for do not matter to it.
\<close>

theorem shared_row_ignores_language:
  assumes "row_ref addr rows m (vvs ! 1) (vvs ! i) = Some k"
  shows "sheet_row_text addr st rows cells vvs m (Some ts) i = sheet_row_text addr st rows cells vvs m None i"
  using assms by (simp add: sheet_row_text_def)

end
