(* ===== verification/Spec2Isabelle.thy ===== *)
theory Spec2Isabelle
  imports MsgQueue MsgPool MsgStruct Lz77 PkLimit FdTable Md5 Websocket ThreadLogic ThreadAdmin ThreadInner ThreadHttp BsonRoundTrip BsonOid
    ProtoRoundTrip ProtoTemplate MsgEx InflateBlocks XlsxMain
begin

text \<open>
  Verification of catse, the gate of a game server: a process that accepts the connections of
  the clients, checks and passes on their packets to the scripts, and carries the answers back; and of
  the tools beside it. This is the root; it imports every theory of the development.

  \<^bold>\<open>The program.\<close> The process is a few threads that share nothing but queues and pools.
  \<^item> The gate thread (\<open>common/thread_io.h\<close>) has the sockets of the clients. It cuts the input into
    packets, checks length, counter and rate (\<open>logic/pk_limit.h\<close>), takes a \<open>msg_recv\<close> from a pool
    and queues it; it writes the messages queued by the scripts as they are, and reports closed connections.
    A compression for long messages (\<open>logic/lz77.h\<close>) is there, but its call in \<open>thread_io.h\<close> is commented
    out; it is modelled by itself. Browsers come through a websocket
    (\<open>logic/websocket.h\<close>, \<open>logic/websocket_request.cpp\<close>, with SHA-1 and Base64 for the handshake).
  \<^item> The logic thread (\<open>logic/thread_logic.cpp\<close>) gives every message to a Lua handler and frees
    it. Lua sends by \<open>unicast\<close>, \<open>multicast\<close> and \<open>broadcast\<close> (\<open>logic/msg_ex.cpp\<close>); Lua values become
    message bytes and back under templates (\<open>logic/proto_parser.h\<close>).
  \<^item> Threads for the back office, for the middle server and for HTTP requests
    (\<open>common/thread_admin.h\<close>, \<open>thread_inner.h\<close>, \<open>thread_http.h\<close>) work likewise.
  \<^item> A database driver (\<open>mongo_c_driver/\<close>) encodes documents as BSON.
  \<^item> The table converter \<open>myxml2/myxml2.cpp\<close> is a program of its own: it unpacks a workbook (an \<open>xlsx\<close> file) and writes
    its sheets as Lua tables, which the scripts load.

  \<^bold>\<open>The theories\<close>, each named with the source it models.
  \<^item> Ground: \<open>Prelude\<close> (bytes, widths of integers, byte order, checked arrays), \<open>CString\<close>
    (\<open>string.h\<close>), \<open>Double\<close> (conversions of \<open>double\<close>).
  \<^item> Between the threads: \<open>MsgQueue\<close> (\<open>common/msg_queue.h\<close>), \<open>MsgPool\<close> (\<open>common/msg_pool.h\<close>),
    \<open>MsgStruct\<close> (\<open>common/msg_struct.h\<close>), \<open>Channel\<close> (the contract of a pool with its queues),
    \<open>Bufferevent\<close> (the connections as libevent shows them), \<open>FdTable\<close> (\<open>fd_add\<close>, \<open>fd_del\<close>).
  \<^item> The threads: \<open>ThreadIo\<close>, \<open>ThreadLogic\<close>, \<open>ThreadAdmin\<close>, \<open>ThreadInner\<close>, \<open>ThreadHttp\<close>.
  \<^item> What they call: \<open>PkLimit\<close>, \<open>Lz77\<close>, \<open>Websocket\<close>, \<open>BlockHash\<close>, \<open>Sha1\<close>, \<open>Md5\<close>, \<open>Base64\<close>.
  \<^item> Lua and messages: \<open>Lua\<close> (the interface and its laws), \<open>ProtoParser\<close>, \<open>ProtoWrite\<close>,
    \<open>ProtoRead\<close>, \<open>ProtoRoundTrip\<close>, \<open>ProtoTemplate\<close> (\<open>logic/proto_parser.h\<close>), \<open>MsgEx\<close> (\<open>logic/msg_ex.cpp\<close>).
  \<^item> The driver: \<open>Encoding\<close> (\<open>encoding.c\<close>), \<open>Bson\<close>, \<open>BsonDoc\<close>, \<open>BsonIter\<close>, \<open>BsonRoundTrip\<close>, \<open>BsonOid\<close>
    (\<open>bson.c\<close>), \<open>Md5\<close> (\<open>md5.c\<close>).
  \<^item> The table converter: \<open>Inflate\<close> and \<open>InflateBits\<close> to \<open>InflateBlocks\<close> (\<open>tinf*\<close>),
    \<open>XlsxXml\<close> (\<open>getXml\<close>), \<open>XlsxIntern\<close> (\<open>getStr\<close>), \<open>XlsxStrings\<close> (\<open>getSharedStrings\<close>, \<open>getWorkbook\<close>),
    \<open>XlsxText\<close> (\<open>strReplace\<close>, \<open>removeSpace\<close>), \<open>XlsxQuote\<close> (\<open>getStrAddQuote\<close>), \<open>XlsxCell\<close> and \<open>XlsxGrid\<close>
    (\<open>getVvs\<close>), \<open>XlsxShare\<close> (\<open>shareCell\<close> and its kin, \<open>binInsert\<close>),
    \<open>XlsxNumber\<close> (the cells of type \<open>number\<close>), \<open>XlsxWrite\<close> (\<open>fillRow\<close>, \<open>fillSheet\<close>), \<open>XlsxPattern\<close>
    (\<open>solvePattern\<close>), \<open>XlsxZip\<close> (\<open>fileStr\<close>, the headers of the archive), \<open>XlsxMain\<close> (\<open>main\<close>).

  A C structure is a record with its fields, an array a list (or a function where only tested
  indices are used), a function that changes a structure takes it and returns it. Pointers into a block are
  offsets, objects of a pool are named by their index, bufferevents by a number.

  \<^bold>\<open>Faults and errors.\<close> A result \<open>None\<close> is an access outside an array, the use of something
  freed, a Lua error that leaves the C function, or a loop that does not end; so a theorem that gives a result
  \<open>Some\<close> says that none of these happens. Failures the code handles are values: return codes,
  \<open>Inl\<close> of a sum, \<open>xlsx_error\<close> for the messages after which the converter exits. The gate is built with
  \<open>NDEBUG\<close>, so its \<open>assert\<close>s do nothing; the converter defines its own and keeps them. A comparison of a
  pointer with a string literal is one with its text, as literals are shared.

  \<^bold>\<open>Loops.\<close> Loops over data are structural recursions or functions with a measure. Those that follow
  a pointer until a condition holds are \<open>partial_function (option)\<close>, so not ending is \<open>None\<close> too. Fuel is
  used for the recursion over nested templates and documents: one unit for each level, and the depth of the
  template or the size of the document is enough; the theorems say so.

  \<^bold>\<open>What is shown.\<close>
  \<^item> Queues and pools: the rings are lists (a refinement), also when the two threads run in
    any interleaving of their memory accesses; a message has one holder at a time. The locales \<open>bounded_queue\<close>,
    \<open>resource_pool\<close>, \<open>channel\<close>, \<open>conn_table\<close> and \<open>append_buffer\<close> are the contracts; the threads rest on them.
  \<^item> The gate: what arrives is queued, in order and each accepted packet once; what the scripts
    send is what is written; no pool is exhausted by what the threads do; closed connections are reported.
    The link to the middle server is safe until a message announced longer than its buffer; what then happens is stated too.
  \<^item> Encodings: compression, templates, BSON, websocket frames, Base64 and message fields survive a round trip; the
    decompressor returns what the format (RFC 1951) defines.
  \<^item> The converter: each part against a reference on well-formed input: the tags of a document, the strings
    interned once, the array of the cells, its columns and rows left out, the conversion of a cell, the shared cells,
    the number cells in spite of rounding, the whole output inside its buffer. The files of an archive are unpacked to
    what they hold. Where the conversions alter no shared string, every result of \<open>getVvs\<close> is a table with distinct
    identifiers; the reference for what a conversion gives is written without the functions of the code.
  \<^item> Findings: theorems that show where the code does not do what it means to, each with its text.

  \<^bold>\<open>Not modelled.\<close> libevent, the Lua interpreter and the network part of the database driver
  are libraries: the model has what is used of them as records or parameters, with documented laws as
  hypotheses (\<open>lua_laws\<close>) or as small models (\<open>Bufferevent\<close>). Also left out are the start of the process, reading its
  configuration, log files, the registration of functions in Lua, the Lua bindings of the driver and of inner messages
  (\<open>lua_mongo\<close>, \<open>msg_inner_parse.h\<close>), and the tool that merges databases: calls of those libraries one after
  the other. Allocation never fails; \<open>double\<close>s are kept as bytes, converted from and to integers, or
  (in the converter) exact rationals rounded at each operation.
\<close>

end
